(* ===== verification/Ecf_Prelude.thy ===== *)
theory Ecf_Prelude
  imports Main "HOL-Library.Word" "HOL-Library.Char_ord" "HOL-Library.List_Lexorder"
begin

text \<open>
  What the component theories share: the exceptions of the C++ code as values, a bind for
  fallible code, 32-bit integers, decimal strings (\<open>std::stringstream << int\<close> and
  \<open>boost::lexical_cast\<close>, modelled by their documented meaning), the string searches of
  \<open>std::string\<close> the code uses, and the process-wide change counters of \<open>ACore/src/Ecf.cpp\<close>.
\<close>

section \<open>Collections of facts\<close>

named_theorems ecf_defs \<open>unfoldings of the straight-line operations of the model\<close>
named_theorems ecf_stamp \<open>how an operation moves the change counters\<close>

section \<open>Exceptions as values\<close>

text \<open>
  A \<^verbatim>\<open>throw std::runtime_error(...)\<close> is \<open>Inl (Runtime_error site)\<close>, where \<open>site\<close> is the constant
  prefix of the message the source builds. A failing \<^verbatim>\<open>assert\<close> is \<open>Inl (Assert_failed site)\<close>,
  and a step the language leaves undefined is \<open>Inl (Undefined_behaviour site)\<close>.
\<close>

datatype exc =
    Runtime_error string
  | Out_of_range string
  | Undefined_behaviour string
  | Assert_failed string

type_synonym 'a res = "exc + 'a"

definition res_bind :: "'a res \<Rightarrow> ('a \<Rightarrow> 'b res) \<Rightarrow> 'b res" where
  "res_bind r f = (case r of Inl e \<Rightarrow> Inl e | Inr x \<Rightarrow> f x)"

lemma res_bind_Inl [simp]: "res_bind (Inl e) f = Inl e"
  by (simp add: res_bind_def)

lemma res_bind_Inr [simp]: "res_bind (Inr x) f = f x"
  by (simp add: res_bind_def)

lemma res_bind_eq_Inr [simp]: "res_bind r f = Inr y \<longleftrightarrow> (\<exists>x. r = Inr x \<and> f x = Inr y)"
  by (cases r) auto

lemma res_bind_eq_Inl: "res_bind r f = Inl e \<longleftrightarrow> r = Inl e \<or> (\<exists>x. r = Inr x \<and> f x = Inl e)"
  by (cases r) auto

definition res_check :: "bool \<Rightarrow> exc \<Rightarrow> unit res" where
  "res_check b e = (if b then Inr () else Inl e)"

lemma res_check_Inr [simp]: "res_check b e = Inr u \<longleftrightarrow> b"
  by (simp add: res_check_def)

lemma res_check_simps [simp]: "res_check True e = Inr ()" "res_check False e = Inl e"
  by (simp_all add: res_check_def)

section \<open>The 32-bit \<open>int\<close> of the code\<close>

definition INT_MAX :: int where "INT_MAX = 2147483647"
definition INT_MIN :: int where "INT_MIN = - 2147483648"

definition is_int32 :: "int \<Rightarrow> bool" where
  "is_int32 i \<longleftrightarrow> INT_MIN \<le> i \<and> i \<le> INT_MAX"

section \<open>Quotients\<close>

lemma div_interval_unique:
  fixes i :: int
  assumes "0 < i" "q * i \<le> d" "d < q * i + i"
  shows "d div i = q"
proof -
  have "d - q * i \<ge> 0" "d - q * i < i" using assms by simp_all
  then have "(d - q * i) div i = 0" by simp
  moreover have "(d - q * i + q * i) div i = q + (d - q * i) div i"
    using assms(1) by (intro div_mult_self1) simp
  ultimately show ?thesis by simp
qed

lemma le_div_iff_mult_le:
  fixes i :: int
  assumes "0 < i"
  shows "k \<le> d div i \<longleftrightarrow> k * i \<le> d"
proof
  assume "k \<le> d div i"
  with assms have "k * i \<le> (d div i) * i" by simp
  also have "\<dots> \<le> d" using minus_mod_eq_div_mult [of d i] pos_mod_sign [OF assms, of d] by linarith
  finally show "k * i \<le> d" .
next
  assume "k * i \<le> d"
  with assms have "(k * i) div i \<le> d div i" by (intro zdiv_mono1)
  with assms show "k \<le> d div i" by simp
qed

section \<open>Decimal strings\<close>

text \<open>
  \<open>find_first_of_char c s\<close> is \<open>s.find_first_of(c)\<close>: \<open>None\<close> stands for \<open>std::string::npos\<close>.
\<close>

fun find_first_of_char :: "char \<Rightarrow> string \<Rightarrow> nat option" where
  "find_first_of_char c [] = None"
| "find_first_of_char c (x # xs) =
     (if x = c then Some 0 else map_option Suc (find_first_of_char c xs))"

lemma find_first_of_char_None: "find_first_of_char c s = None \<longleftrightarrow> c \<notin> set s"
  by (induction s) auto

lemma find_first_of_char_append:
  "c \<notin> set xs \<Longrightarrow> find_first_of_char c (xs @ c # ys) = Some (length xs)"
  by (induction xs) auto

definition digit_char :: "nat \<Rightarrow> char" where
  "digit_char d = ''0123456789'' ! d"

definition char_digit :: "char \<Rightarrow> nat option" where
  "char_digit c = find_first_of_char c ''0123456789''"

lemma less_10_cases: "(d::nat) < 10 \<Longrightarrow> d \<in> {0,1,2,3,4,5,6,7,8,9}"
  by auto

lemma char_digit_digit_char [simp]: "d < 10 \<Longrightarrow> char_digit (digit_char d) = Some d"
  by (drule less_10_cases) (auto simp: char_digit_def digit_char_def)

fun string_of_nat :: "nat \<Rightarrow> string" where
  "string_of_nat n =
     (if n < 10 then [digit_char n] else string_of_nat (n div 10) @ [digit_char (n mod 10)])"

declare string_of_nat.simps [simp del]

fun nat_of_digits :: "nat \<Rightarrow> string \<Rightarrow> nat option" where
  "nat_of_digits acc [] = Some acc"
| "nat_of_digits acc (c # cs) =
     (case char_digit c of None \<Rightarrow> None | Some d \<Rightarrow> nat_of_digits (10 * acc + d) cs)"

definition string_of_int :: "int \<Rightarrow> string" where
  "string_of_int i = (if i < 0 then CHR ''-'' # string_of_nat (nat (- i)) else string_of_nat (nat i))"

text \<open>\<open>boost::lexical_cast<T>(s)\<close> to an integer type: an optional sign, at least one digit, nothing
  else, in the range of the type.\<close>

definition lexical_cast_range :: "(int \<Rightarrow> bool) \<Rightarrow> string \<Rightarrow> int option" where
  "lexical_cast_range in_range s =
     (let (neg, ds) = (case s of [] \<Rightarrow> (False, [])
                        | c # cs \<Rightarrow> if c = CHR ''-'' then (True, cs)
                                   else if c = CHR ''+'' then (False, cs) else (False, s))
      in if ds = [] then None
         else case nat_of_digits 0 ds of
                None \<Rightarrow> None
              | Some n \<Rightarrow> let i = (if neg then - int n else int n)
                          in if in_range i then Some i else None)"

definition lexical_cast_int :: "string \<Rightarrow> int option" where
  "lexical_cast_int s = lexical_cast_range is_int32 s"

definition lexical_cast_long :: "string \<Rightarrow> int option" where
  "lexical_cast_long s = lexical_cast_range (\<lambda>i. - (2 ^ 63) \<le> i \<and> i < 2 ^ 63) s"

lemma nat_of_digits_append:
  "nat_of_digits acc (xs @ ys) =
     (case nat_of_digits acc xs of None \<Rightarrow> None | Some k \<Rightarrow> nat_of_digits k ys)"
  by (induction acc xs rule: nat_of_digits.induct) (auto split: option.splits)

lemma nat_of_digits_string_of_nat [simp]: "nat_of_digits 0 (string_of_nat n) = Some n"
proof (induction n rule: string_of_nat.induct)
  case (1 n)
  show ?case
  proof (cases "n < 10")
    case True
    then show ?thesis by (simp add: string_of_nat.simps [of n])
  next
    case False
    then show ?thesis
      by (simp add: string_of_nat.simps [of n] nat_of_digits_append "1.IH")
  qed
qed

lemma string_of_nat_not_Nil [simp]: "string_of_nat n \<noteq> []"
  by (simp add: string_of_nat.simps [of n])

lemma set_string_of_nat: "c \<in> set (string_of_nat n) \<Longrightarrow> \<exists>d < 10. c = digit_char d"
proof (induction n rule: string_of_nat.induct)
  case (1 n)
  show ?case
  proof (cases "n < 10")
    case True
    with "1.prems" show ?thesis by (auto simp: string_of_nat.simps [of n])
  next
    case False
    with "1.prems" "1.IH" show ?thesis
      by (auto simp: string_of_nat.simps [of n] intro: exI [of _ "n mod 10"])
  qed
qed

lemma digit_char_cases: "d < 10 \<Longrightarrow> digit_char d \<in> set ''0123456789''"
  unfolding digit_char_def by (rule nth_mem) simp

lemma set_string_of_nat_digits: "set (string_of_nat n) \<subseteq> set ''0123456789''"
  using set_string_of_nat digit_char_cases by blast

lemma hd_string_of_nat: "hd (string_of_nat n) \<in> set ''0123456789''"
  using set_string_of_nat_digits [of n] hd_in_set [OF string_of_nat_not_Nil] by blast

lemma lexical_cast_string_of_int:
  assumes "is_int32 i"
  shows "lexical_cast_int (string_of_int i) = Some i"
proof (cases "i < 0")
  case True
  with assms show ?thesis
    by (simp add: lexical_cast_int_def lexical_cast_range_def string_of_int_def Let_def)
next
  case False
  obtain c cs where c: "string_of_nat (nat i) = c # cs"
    using string_of_nat_not_Nil by (cases "string_of_nat (nat i)") auto
  with hd_string_of_nat [of "nat i"] have "c \<noteq> CHR ''-''" "c \<noteq> CHR ''+''" by auto
  moreover from c have "nat_of_digits 0 (c # cs) = Some (nat i)"
    by (metis nat_of_digits_string_of_nat)
  ultimately show ?thesis using False assms c
    by (auto simp: lexical_cast_int_def lexical_cast_range_def string_of_int_def Let_def)
qed

lemma set_string_of_int: "set (string_of_int i) \<subseteq> set ''-0123456789''"
proof (cases "i < 0")
  case True
  have "set (CHR ''-'' # string_of_nat (nat (- i))) \<subseteq> insert (CHR ''-'') (set ''0123456789'')"
    using set_string_of_nat_digits [of "nat (- i)"] by (simp only: list.set insert_mono)
  with True show ?thesis by (simp add: string_of_int_def)
next
  case False
  have "set (string_of_nat (nat i)) \<subseteq> insert (CHR ''-'') (set ''0123456789'')"
    using set_string_of_nat_digits [of "nat i"] by (rule subset_insertI2)
  with False show ?thesis by (simp add: string_of_int_def)
qed

lemma string_of_int_not_Nil: "string_of_int i \<noteq> []"
  by (simp add: string_of_int_def)

section \<open>Searches in strings\<close>

text \<open>\<open>s.find(pat) != npos\<close>.\<close>

fun is_prefix :: "string \<Rightarrow> string \<Rightarrow> bool" where
  "is_prefix [] s = True"
| "is_prefix (p # ps) [] = False"
| "is_prefix (p # ps) (x # xs) = (p = x \<and> is_prefix ps xs)"

fun contains_str :: "string \<Rightarrow> string \<Rightarrow> bool" where
  "contains_str pat [] = (pat = [])"
| "contains_str pat (x # xs) = (is_prefix pat (x # xs) \<or> contains_str pat xs)"

section \<open>Change counters: \<open>ACore/src/Ecf.cpp\<close>\<close>

text \<open>
  The static members of \<open>class Ecf\<close> that the operations read and write. Both numbers are
  \<open>unsigned int\<close>, so they wrap at \<open>2 ^ 32\<close>. The counters only move in the server.
\<close>

record ecf =
  ecf_server :: bool
  ecf_state_change_no :: "32 word"
  ecf_modify_change_no :: "32 word"

definition incr_state_change_no :: "ecf \<Rightarrow> 32 word \<times> ecf" where
  "incr_state_change_no g =
     (if ecf_server g
      then (let n = ecf_state_change_no g + 1 in (n, g\<lparr>ecf_state_change_no := n\<rparr>))
      else (ecf_state_change_no g, g))"

definition incr_modify_change_no :: "ecf \<Rightarrow> 32 word \<times> ecf" where
  "incr_modify_change_no g =
     (if ecf_server g
      then (let n = ecf_modify_change_no g + 1 in (n, g\<lparr>ecf_modify_change_no := n\<rparr>))
      else (ecf_modify_change_no g, g))"

lemma incr_state_change_no_stamp [ecf_stamp]:
  "incr_state_change_no g = (n, g') \<Longrightarrow> n = ecf_state_change_no g' \<and> ecf_server g' = ecf_server g"
  by (auto simp: incr_state_change_no_def Let_def split: if_splits)

lemma less_plus_one_word: "(w :: 'a::len word) \<noteq> - 1 \<Longrightarrow> w < w + 1"
proof -
  assume "w \<noteq> - 1"
  then have "1 + w \<noteq> 0" by (metis add.commute add_eq_0_iff2)
  then have "unat (1 + w) = Suc (unat w)" by (rule unatSuc)
  then show ?thesis by (simp add: word_less_nat_alt add.commute)
qed

lemma incr_state_change_no_newer:
  assumes "ecf_server g" and "ecf_state_change_no g \<noteq> - 1"
    and "incr_state_change_no g = (n, g')"
  shows "ecf_state_change_no g < n"
proof -
  from assms have "n = ecf_state_change_no g + 1"
    by (simp add: incr_state_change_no_def Let_def)
  with assms(2) show ?thesis by (simp add: less_plus_one_word)
qed

end
