(* ===== verification/Strings.thy ===== *)
theory Strings
  imports Ecf_Prelude
begin

text \<open>
  The string services of ACore: \<open>Str.cpp\<close> (tokenising, quoting, replacing, name checks),
  \<open>StringSplitter.cpp\<close> (the lazy tokeniser), \<open>Extract.cpp\<close> and \<open>NodePath.cpp\<close>. A range of
  iterators \<open>[first, last)\<close> or a \<open>string_view\<close> is the list of its characters; positions into a
  string are natural numbers and \<open>npos\<close> is \<open>None\<close>.
\<close>

section \<open>Tokenising\<close>

subsection \<open>The iterator versions\<close>

text \<open>\<open>find_first_of\<close> over iterators: the range from the first delimiter on.\<close>

abbreviation upto_delim :: "string \<Rightarrow> string \<Rightarrow> string" where
  "upto_delim delims s \<equiv> takeWhile (\<lambda>c. c \<notin> set delims) s"

abbreviation from_delim :: "string \<Rightarrow> string \<Rightarrow> string" where
  "from_delim delims s \<equiv> dropWhile (\<lambda>c. c \<notin> set delims) s"

definition emplace :: "string \<Rightarrow> string list \<Rightarrow> string list" where
  "emplace t ts = (if t = [] then ts else t # ts)"

lemma length_tl_from_delim:
  assumes "s \<noteq> []"
  shows "length (from_delim d s) - Suc 0 < length s"
proof -
  from assms have "0 < length s" by simp
  with length_dropWhile_le [of "\<lambda>c. c \<notin> set d" s] show ?thesis by linarith
qed

lemma emplace_Cons_length: "length (emplace t ts) \<le> Suc (length ts)"
  by (simp add: emplace_def)

text \<open>\<open>Str::split_using_string_view\<close>: the loop variables are the ranges that start at
  \<open>first\<close> and at \<open>second\<close>.\<close>

function split_sv_loop :: "string \<Rightarrow> string \<Rightarrow> string \<Rightarrow> string list" where
  "split_sv_loop delims first second =
     (if second \<noteq> [] \<and> first \<noteq> []
      then let second' = from_delim delims first
           in emplace (upto_delim delims first) (split_sv_loop delims (tl second') second')
      else [])"
  by pat_completeness auto
termination
  by (relation "measure (\<lambda>(d, f, s). length f)") (auto intro: length_tl_from_delim)

declare split_sv_loop.simps [simp del]

definition split_using_string_view :: "string \<Rightarrow> string \<Rightarrow> string list" where
  "split_using_string_view strv delims = split_sv_loop delims strv strv"

text \<open>\<open>Str::split_orig1\<close>.\<close>

function split_orig1_loop :: "string \<Rightarrow> string \<Rightarrow> string list" where
  "split_orig1_loop delims first =
     (if first = [] then []
      else let second = from_delim delims first
           in emplace (upto_delim delims first)
                (if second = [] then [] else split_orig1_loop delims (tl second)))"
  by pat_completeness auto
termination
  by (relation "measure (\<lambda>(d, f). length f)") (auto intro: length_tl_from_delim)

declare split_orig1_loop.simps [simp del]

definition split_orig1 :: "string \<Rightarrow> string \<Rightarrow> string list" where
  "split_orig1 line delims = split_orig1_loop delims line"

text \<open>\<open>Str::split\<close> selects \<open>split_using_string_view\<close>.\<close>

definition split :: "string \<Rightarrow> string \<Rightarrow> string list" where
  "split line delimiters = split_using_string_view line delimiters"

text \<open>\<open>Str::get_token\<close>: the token with number \<open>pos\<close>, counted by \<open>current_pos\<close>.\<close>

function get_token_loop :: "string \<Rightarrow> nat \<Rightarrow> nat \<Rightarrow> string \<Rightarrow> string option" where
  "get_token_loop delims pos current_pos first =
     (if first = [] then None
      else let second = from_delim delims first; tok = upto_delim delims first
           in if tok \<noteq> [] \<and> current_pos = pos then Some tok
              else let cp = (if tok \<noteq> [] then Suc current_pos else current_pos)
                   in if second = [] then None else get_token_loop delims pos cp (tl second))"
  by pat_completeness auto
termination
  by (relation "measure (\<lambda>(d, p, c, f). length f)") (auto intro: length_tl_from_delim)

declare get_token_loop.simps [simp del]

definition get_token :: "string \<Rightarrow> nat \<Rightarrow> string \<Rightarrow> string option" where
  "get_token str pos delims = get_token_loop delims pos 0 str"

subsection \<open>The lazy tokeniser \<open>StringSplitter\<close>\<close>

text \<open>The members of \<open>StringSplitter\<close> that its operations read and write (\<open>src_\<close> is only read
  by \<open>reset\<close>).\<close>

record string_splitter =
  sp_src :: string
  sp_rem :: string
  sp_sep :: string
  sp_first_not_of :: nat
  sp_finished :: bool

definition StringSplitter :: "string \<Rightarrow> string \<Rightarrow> string_splitter" where
  "StringSplitter src sep =
     \<lparr>sp_src = src, sp_rem = src, sp_sep = sep, sp_first_not_of = 0, sp_finished = False\<rparr>"

definition sp_done :: "string_splitter \<Rightarrow> bool \<times> string_splitter" where
  "sp_done sp =
     (if sp_finished sp then (True, sp)
      else if (\<forall>c \<in> set (sp_rem sp). c \<in> set (sp_sep sp))
      then (True, sp\<lparr>sp_finished := True\<rparr>)
      else (False, sp\<lparr>sp_first_not_of := length (takeWhile (\<lambda>c. c \<in> set (sp_sep sp)) (sp_rem sp))\<rparr>))"

definition sp_next :: "string_splitter \<Rightarrow> string \<times> string_splitter" where
  "sp_next sp =
     (let rem = (if sp_first_not_of sp \<noteq> 0 then drop (sp_first_not_of sp) (sp_rem sp) else sp_rem sp);
          tail = from_delim (sp_sep sp) rem
      in case tail of
           [] \<Rightarrow> (rem, sp\<lparr>sp_rem := rem, sp_finished := True\<rparr>)
         | _ # rem' \<Rightarrow>
             (upto_delim (sp_sep sp) rem,
              if (\<forall>c \<in> set rem'. c \<in> set (sp_sep sp))
              then sp\<lparr>sp_rem := rem', sp_finished := True\<rparr>
              else sp\<lparr>sp_rem := rem'\<rparr>))"

definition sp_reset :: "string_splitter \<Rightarrow> string_splitter" where
  "sp_reset sp = sp\<lparr>sp_rem := sp_src sp, sp_finished := False\<rparr>"

text \<open>Work left: a finished splitter has none, and each \<open>next\<close> shortens the remainder or
  finishes.\<close>

definition sp_measure :: "string_splitter \<Rightarrow> nat" where
  "sp_measure sp = (if sp_finished sp then 0 else Suc (length (sp_rem sp)))"

lemma sp_next_decreases:
  assumes "sp_done sp = (False, sp1)" and "sp_next sp1 = (t, sp2)"
  shows "sp_measure sp2 < sp_measure sp"
proof -
  from assms(1) have fin: "\<not> sp_finished sp" and rem: "sp_rem sp1 = sp_rem sp"
    by (auto simp: sp_done_def split: if_splits)
  let ?rem = "drop (sp_first_not_of sp1) (sp_rem sp1)"
  have len: "length (from_delim (sp_sep sp1) ?rem) \<le> length (sp_rem sp)"
    using length_dropWhile_le [of "\<lambda>c. c \<notin> set (sp_sep sp1)" ?rem] rem by simp
  with fin rem assms(2) show ?thesis
    by (auto simp: sp_next_def sp_measure_def Let_def split: list.splits if_splits)
qed

function sp_split_loop :: "string_splitter \<Rightarrow> string list" where
  "sp_split_loop sp =
     (case sp_done sp of
        (True, _) \<Rightarrow> []
      | (False, sp1) \<Rightarrow> (case sp_next sp1 of (t, sp2) \<Rightarrow> t # sp_split_loop sp2))"
  by pat_completeness auto
termination
  by (relation "measure sp_measure") (auto intro: sp_next_decreases [OF sym sym])

declare sp_split_loop.simps [simp del]

text \<open>\<open>StringSplitter::split\<close>.\<close>

definition sp_split :: "string \<Rightarrow> string \<Rightarrow> string list" where
  "sp_split str delimiters = sp_split_loop (StringSplitter str delimiters)"

text \<open>\<open>StringSplitter::get_token\<close>.\<close>

function sp_get_token_loop :: "nat \<Rightarrow> nat \<Rightarrow> string_splitter \<Rightarrow> string option" where
  "sp_get_token_loop pos count sp =
     (case sp_done sp of
        (True, _) \<Rightarrow> None
      | (False, sp1) \<Rightarrow>
          (case sp_next sp1 of
             (t, sp2) \<Rightarrow> if count = pos then Some t
                        else if pos < count then None
                        else sp_get_token_loop pos (Suc count) sp2))"
  by pat_completeness auto
termination
  by (relation "measure (\<lambda>(p, c, sp). sp_measure sp)") (auto intro: sp_next_decreases [OF sym sym])

declare sp_get_token_loop.simps [simp del]

definition sp_get_token :: "string \<Rightarrow> nat \<Rightarrow> string \<Rightarrow> string option" where
  "sp_get_token line pos sep = sp_get_token_loop pos 0 (StringSplitter line sep)"

subsection \<open>One specification for all of them\<close>

text \<open>The specification: cut at every delimiter, keep the non-empty pieces.\<close>

fun segments :: "string \<Rightarrow> string \<Rightarrow> string list" where
  "segments d [] = [[]]"
| "segments d (c # cs) =
     (if c \<in> set d then [] # segments d cs else (c # hd (segments d cs)) # tl (segments d cs))"

definition tokens_of :: "string \<Rightarrow> string \<Rightarrow> string list" where
  "tokens_of d s = filter (\<lambda>t. t \<noteq> []) (segments d s)"

lemma segments_not_Nil [simp]: "segments d s \<noteq> []"
  by (cases s) auto

lemma hd_segments: "hd (segments d s) = upto_delim d s"
  by (induction s) auto

lemma segments_unfold:
  "segments d s = upto_delim d s # (case from_delim d s of [] \<Rightarrow> [] | _ # r \<Rightarrow> segments d r)"
  by (induction s) (auto simp: hd_segments)

lemma tokens_of_unfold:
  "tokens_of d s = emplace (upto_delim d s) (case from_delim d s of [] \<Rightarrow> [] | _ # r \<Rightarrow> tokens_of d r)"
proof (cases "from_delim d s")
  case Nil
  then have "segments d s = [upto_delim d s]" by (subst segments_unfold) (simp only: list.case)
  with Nil show ?thesis by (simp only: tokens_of_def emplace_def list.case) simp
next
  case (Cons c r)
  then have "segments d s = upto_delim d s # segments d r"
    by (subst segments_unfold) (simp only: list.case)
  with Cons show ?thesis by (simp only: tokens_of_def emplace_def list.case) simp
qed

lemma tokens_of_Nil [simp]: "tokens_of d [] = []"
  by (simp add: tokens_of_def)

lemma tokens_of_delims: "(\<forall>c \<in> set s. c \<in> set d) \<Longrightarrow> tokens_of d s = []"
  by (induction s) (auto simp: tokens_of_def)

lemma tokens_of_skip: "tokens_of d (dropWhile (\<lambda>c. c \<in> set d) s) = tokens_of d s"
  by (induction s) (auto simp: tokens_of_def)

lemma tokens_of_Cons_iff: "tokens_of d s = [] \<longleftrightarrow> (\<forall>c \<in> set s. c \<in> set d)"
  by (induction s) (auto simp: tokens_of_def)

lemma split_orig1_loop_eq: "split_orig1_loop d s = tokens_of d s"
proof (induction d s rule: split_orig1_loop.induct)
  case (1 d s)
  show ?case
  proof (cases "s = []")
    case True
    then show ?thesis by (simp add: split_orig1_loop.simps)
  next
    case False
    with "1.IH" show ?thesis
      by (cases "from_delim d s")
        (simp_all only: split_orig1_loop.simps [of d s] tokens_of_unfold [of d s] Let_def list.case
          if_False if_True list.distinct list.sel not_False_eq_True simp_thms)
  qed
qed

lemma split_sv_loop_eq: "split_sv_loop d s s2 = (if s2 = [] then [] else tokens_of d s)"
proof (induction d s s2 rule: split_sv_loop.induct)
  case (1 d s s2)
  show ?case
  proof (cases "s = [] \<or> s2 = []")
    case True
    then show ?thesis by (auto simp: split_sv_loop.simps)
  next
    case False
    then have ne: "s \<noteq> []" "s2 \<noteq> []" by simp_all
    with "1.IH" show ?thesis
      by (cases "from_delim d s")
        (simp_all only: ne split_sv_loop.simps [of d s] tokens_of_unfold [of d s] Let_def list.case
          if_False if_True list.distinct list.sel not_False_eq_True simp_thms)
  qed
qed

lemma split_eq: "split s d = tokens_of d s"
  by (simp add: split_def split_using_string_view_def split_sv_loop_eq)

lemma sp_done_tokens:
  "sp_done sp = (b, sp1) \<Longrightarrow> \<not> sp_finished sp \<Longrightarrow>
     sp_sep sp1 = sp_sep sp \<and> sp_rem sp1 = sp_rem sp \<and>
     (b \<longleftrightarrow> tokens_of (sp_sep sp) (sp_rem sp) = []) \<and>
     (\<not> b \<longrightarrow> \<not> sp_finished sp1 \<and>
        sp_first_not_of sp1 = length (takeWhile (\<lambda>c. c \<in> set (sp_sep sp)) (sp_rem sp)))"
  by (auto simp: sp_done_def tokens_of_Cons_iff split: if_splits)

lemma sp_next_tokens:
  assumes "\<not> sp_finished sp" "tokens_of (sp_sep sp) (sp_rem sp) \<noteq> []"
    and "sp_first_not_of sp = length (takeWhile (\<lambda>c. c \<in> set (sp_sep sp)) (sp_rem sp))"
    and "sp_next sp = (t, sp')"
  shows "tokens_of (sp_sep sp) (sp_rem sp) =
           t # (if sp_finished sp' then [] else tokens_of (sp_sep sp') (sp_rem sp'))"
proof -
  define rem where "rem = dropWhile (\<lambda>c. c \<in> set (sp_sep sp)) (sp_rem sp)"
  have d: "drop (sp_first_not_of sp) (sp_rem sp) = rem"
    using assms(3) by (simp add: rem_def dropWhile_eq_drop)
  have "rem \<noteq> []" using assms(2) by (auto simp: rem_def tokens_of_Cons_iff dropWhile_eq_Nil_conv)
  then have "hd rem \<notin> set (sp_sep sp)" unfolding rem_def by (rule hd_dropWhile)
  with \<open>rem \<noteq> []\<close> have ne: "upto_delim (sp_sep sp) rem \<noteq> []" by (cases rem) auto
  have tk: "tokens_of (sp_sep sp) (sp_rem sp) =
      upto_delim (sp_sep sp) rem #
        (case from_delim (sp_sep sp) rem of [] \<Rightarrow> [] | _ # r \<Rightarrow> tokens_of (sp_sep sp) r)"
    using ne tokens_of_unfold [of "sp_sep sp" rem]
    by (simp add: tokens_of_skip rem_def emplace_def)
  have all: "from_delim (sp_sep sp) rem = [] \<Longrightarrow> upto_delim (sp_sep sp) rem = rem"
    by (simp add: takeWhile_eq_all_conv)
  have "sp_first_not_of sp = 0 \<Longrightarrow> sp_rem sp = rem" using d by simp
  then have r: "(if sp_first_not_of sp \<noteq> 0 then drop (sp_first_not_of sp) (sp_rem sp) else sp_rem sp) = rem"
    using d by simp
  show ?thesis
  proof (cases "from_delim (sp_sep sp) rem")
    case Nil
    with assms(4) have "t = rem" "sp_finished sp'" by (auto simp only: sp_next_def r Let_def list.case) auto
    with tk Nil all [OF Nil] show ?thesis by (simp only: list.case if_True)
  next
    case (Cons c r')
    with assms(1,4) have "t = upto_delim (sp_sep sp) rem" "sp_rem sp' = r'" "sp_sep sp' = sp_sep sp"
      "sp_finished sp' \<longleftrightarrow> (\<forall>c \<in> set r'. c \<in> set (sp_sep sp))"
      by (auto simp only: sp_next_def r Let_def list.case prod.inject split: if_splits) auto
    with tk Cons show ?thesis by (simp only: list.case) (simp add: tokens_of_delims)
  qed
qed

lemma sp_split_loop_eq:
  "sp_split_loop sp = (if sp_finished sp then [] else tokens_of (sp_sep sp) (sp_rem sp))"
proof (induction sp rule: sp_split_loop.induct)
  case (1 sp)
  obtain b sp1 where d: "sp_done sp = (b, sp1)" by fastforce
  obtain t sp2 where n: "sp_next sp1 = (t, sp2)" by fastforce
  show ?case
  proof (cases "sp_finished sp \<or> b")
    case True
    with d show ?thesis
      by (subst sp_split_loop.simps) (auto simp: sp_done_def tokens_of_delims split: if_splits)
  next
    case False
    with d have "\<not> b" "\<not> sp_finished sp" by auto
    note inv = sp_done_tokens [OF d \<open>\<not> sp_finished sp\<close>]
    from \<open>\<not> b\<close> inv have tk: "tokens_of (sp_sep sp) (sp_rem sp) =
        t # (if sp_finished sp2 then [] else tokens_of (sp_sep sp2) (sp_rem sp2))"
      using sp_next_tokens [of sp1 t sp2] n by simp
    have "sp_split_loop sp = t # sp_split_loop sp2"
      using d n \<open>\<not> b\<close> by (subst sp_split_loop.simps) simp
    with tk "1.IH" [of b sp1 t sp2] d n \<open>\<not> b\<close> \<open>\<not> sp_finished sp\<close> show ?thesis by simp
  qed
qed

lemma get_token_loop_eq:
  "get_token_loop d pos cp s =
     (if cp \<le> pos \<and> pos - cp < length (tokens_of d s) then Some (tokens_of d s ! (pos - cp)) else None)"
  if "cp \<le> pos"
  using that
proof (induction d pos cp s rule: get_token_loop.induct)
  case (1 d pos cp s)
  show ?case
  proof (cases "s = []")
    case True
    then show ?thesis by (simp add: get_token_loop.simps)
  next
    case ne: False
    note unf = get_token_loop.simps [of d pos cp s] tokens_of_unfold [of d s]
    show ?thesis
    proof (cases "upto_delim d s = []")
      case True
      then obtain c r where "from_delim d s = c # r" using ne by (cases s) (auto split: if_splits)
      with True ne "1.prems" "1.IH" [OF ne refl refl] show ?thesis
        by (simp only: unf Let_def emplace_def list.case list.sel simp_thms if_False if_True list.distinct)
    next
      case tok: False
      show ?thesis
      proof (cases "cp = pos")
        case True
        with tok ne show ?thesis
          by (simp add: get_token_loop.simps [of d pos pos s] tokens_of_unfold [of d s] emplace_def)
      next
        case neq: False
        with "1.prems" have le: "Suc cp \<le> pos" and sub: "pos - cp = Suc (pos - Suc cp)" by simp_all
        show ?thesis
        proof (cases "from_delim d s")
          case Nil
          with tok ne neq sub show ?thesis
            by (simp only: unf Let_def emplace_def simp_thms if_False if_True list.case) simp
        next
          case (Cons c r)
          with tok ne neq sub le "1.IH" [OF ne refl refl] show ?thesis
            by (simp only: unf Let_def emplace_def simp_thms if_False if_True list.case list.sel
                list.distinct) simp
        qed
      qed
    qed
  qed
qed

lemma sp_get_token_loop_eq:
  "count \<le> pos \<Longrightarrow> sp_get_token_loop pos count sp =
     (let ts = sp_split_loop sp in if pos - count < length ts then Some (ts ! (pos - count)) else None)"
proof (induction pos count sp rule: sp_get_token_loop.induct)
  case (1 pos count sp)
  obtain b sp1 where d: "sp_done sp = (b, sp1)" by fastforce
  obtain t sp2 where n: "sp_next sp1 = (t, sp2)" by fastforce
  show ?case
  proof (cases b)
    case True
    with d show ?thesis by (simp add: sp_get_token_loop.simps sp_split_loop.simps)
  next
    case False
    with d n have "sp_split_loop sp = t # sp_split_loop sp2" by (simp add: sp_split_loop.simps)
    moreover have "sp_get_token_loop pos count sp =
        (if count = pos then Some t else sp_get_token_loop pos (Suc count) sp2)"
      using d n False "1.prems" by (subst sp_get_token_loop.simps) simp
    moreover have "count \<noteq> pos \<Longrightarrow> pos - count = Suc (pos - Suc count)" using "1.prems" by simp
    ultimately show ?thesis
      using d n False "1.IH" [of b sp1 t sp2] "1.prems" by (auto simp: Let_def)
  qed
qed

lemma concat_segments: "concat (segments d s) = filter (\<lambda>c. c \<notin> set d) s"
proof (induction s)
  case (Cons x s)
  have "concat (segments d s) = hd (segments d s) @ concat (tl (segments d s))"
    by (metis concat.simps(2) list.collapse segments_not_Nil)
  with Cons show ?case by simp
qed simp

lemma concat_tokens_of: "concat (tokens_of d s) = filter (\<lambda>c. c \<notin> set d) s"
proof -
  have "concat (filter (\<lambda>t. t \<noteq> []) xs) = concat xs" for xs :: "string list"
    by (induction xs) auto
  then show ?thesis by (simp add: tokens_of_def concat_segments)
qed

text \<open>The tokenisers of the code base agree: \<open>Str::split\<close> (through
  \<open>split_using_string_view\<close>), \<open>Str::split_orig1\<close> and the lazy \<open>StringSplitter::split\<close> return, for
  every line and every set of delimiters, the non-empty delimiter-free pieces of the line in
  order; nothing but delimiters is lost; and \<open>Str::get_token\<close> and
  \<open>StringSplitter::get_token\<close> read the token with the given number, or fail if there is none.\<close>

theorem split_implementations_agree:
  "split line delims = tokens_of delims line \<and>
   split_orig1 line delims = tokens_of delims line \<and>
   sp_split line delims = tokens_of delims line \<and>
   concat (split line delims) = filter (\<lambda>c. c \<notin> set delims) line \<and>
   get_token line pos delims =
     (if pos < length (tokens_of delims line) then Some (tokens_of delims line ! pos) else None) \<and>
   sp_get_token line pos delims = get_token line pos delims"
  by (simp add: split_eq split_orig1_def split_orig1_loop_eq sp_split_def sp_split_loop_eq
      StringSplitter_def get_token_def get_token_loop_eq sp_get_token_def sp_get_token_loop_eq
      concat_tokens_of)

lemma tokens_of_cut:
  assumes "set t \<inter> set d = {}" "t \<noteq> []" "c \<in> set d"
  shows "tokens_of d (t @ c # s) = t # tokens_of d s" "tokens_of d t = [t]"
proof -
  have "upto_delim d (t @ c # s) = t" "from_delim d (t @ c # s) = c # s"
    using assms by (auto simp: takeWhile_append dropWhile_append)
  then show "tokens_of d (t @ c # s) = t # tokens_of d s"
    using assms tokens_of_unfold [of d "t @ c # s"] by (simp add: emplace_def)
  have "upto_delim d t = t" "from_delim d t = []"
    using assms by (auto simp: takeWhile_eq_all_conv)
  with assms(2) show "tokens_of d t = [t]"
    by (simp only: tokens_of_unfold [of d t] emplace_def list.case if_False)
qed

lemma tokens_of_skip_one: "c \<in> set d \<Longrightarrow> tokens_of d (c # s) = tokens_of d s"
  by (simp add: tokens_of_def)

section \<open>Names, quotes, numbers\<close>

definition ALPHANUMERIC_UNDERSCORE :: string where
  "ALPHANUMERIC_UNDERSCORE = ''abcdefghijklmnopqrstuvwxyzABCDEFGHIJKLMNOPQRSTUVWXYZ0123456789_''"

definition VALID_NODE_CHARS :: string where
  "VALID_NODE_CHARS = ''abcdefghijklmnopqrstuvwxyzABCDEFGHIJKLMNOPQRSTUVWXYZ0123456789_.''"

definition valid_name :: "string \<Rightarrow> bool" where
  "valid_name name =
     (case name of
        [] \<Rightarrow> False
      | c # cs \<Rightarrow> c \<in> set ALPHANUMERIC_UNDERSCORE \<and> list_all (\<lambda>x. x \<in> set VALID_NODE_CHARS) cs)"

text \<open>\<open>Str::removeQuotes\<close> and \<open>Str::removeSingleQuotes\<close> with the quote as a parameter. The second
  \<open>erase\<close> is applied to the string that has lost its first character: on a string that is one
  quote it erases at \<open>begin() - 1\<close>.\<close>

definition remove_quote_char :: "char \<Rightarrow> string \<Rightarrow> string res" where
  "remove_quote_char q s =
     (if s \<noteq> [] \<and> hd s = q \<and> last s = q
      then let s1 = tl s
           in if s1 = [] then Inl (Undefined_behaviour ''Str::removeQuotes: erase out of range'')
              else Inr (butlast s1)
      else Inr s)"

definition removeQuotes :: "string \<Rightarrow> string res" where
  "removeQuotes s = remove_quote_char (CHR 0x22) s"

definition removeSingleQuotes :: "string \<Rightarrow> string res" where
  "removeSingleQuotes s = remove_quote_char (CHR 0x27) s"

text \<open>\<open>Extract\<close>.\<close>

definition split_get_second :: "string \<Rightarrow> char \<Rightarrow> string option" where
  "split_get_second str separator =
     (case find_first_of_char separator str of None \<Rightarrow> None | Some p \<Rightarrow> Some (drop (p + 1) str))"

definition pathAndName :: "string \<Rightarrow> string \<Rightarrow> string \<Rightarrow> bool \<times> string \<times> string" where
  "pathAndName token path name =
     (if token = [] then (False, path, name)
      else case find_first_of_char (CHR '':'') token of
             None \<Rightarrow> if hd token = CHR ''/'' then (True, token, name) else (True, path, token)
           | Some p \<Rightarrow> (True, take p token, drop (p + 1) token))"

definition theInt :: "string \<Rightarrow> string \<Rightarrow> int res" where
  "theInt token errorMsg =
     (case lexical_cast_int token of None \<Rightarrow> Inl (Runtime_error errorMsg) | Some i \<Rightarrow> Inr i)"

text \<open>\<open>lineTokens[pos][0]\<close> of an empty token is the terminating zero of the string, which is not
  \<open>'#'\<close>.\<close>

definition starts_with :: "char \<Rightarrow> string \<Rightarrow> bool" where
  "starts_with c s = (case s of [] \<Rightarrow> False | x # _ \<Rightarrow> x = c)"

definition optionalInt :: "string list \<Rightarrow> nat \<Rightarrow> int \<Rightarrow> string \<Rightarrow> int res" where
  "optionalInt lineTokens pos defaultValue errorMsg =
     (if length lineTokens \<ge> pos + 1 \<and> \<not> starts_with (CHR ''#'') (lineTokens ! pos)
      then theInt (lineTokens ! pos) errorMsg else Inr defaultValue)"

text \<open>\<open>Str::to_int\<close>.\<close>

definition str_to_int :: "string \<Rightarrow> int \<Rightarrow> int" where
  "str_to_int the_str error_return =
     (if \<exists>c \<in> set the_str. c \<in> set ''0123456789''
      then (case lexical_cast_int the_str of Some i \<Rightarrow> i | None \<Rightarrow> error_return)
      else error_return)"

section \<open>Node paths\<close>

definition NodePath_split :: "string \<Rightarrow> string list" where
  "NodePath_split path = split path ''/''"

definition createPath :: "string list \<Rightarrow> string" where
  "createPath vec = concat (map (\<lambda>n. ''/'' @ n) vec)"

lemma tokens_of_createPath:
  "\<lbrakk>\<And>n. n \<in> set vec \<Longrightarrow> n \<noteq> [] \<and> CHR ''/'' \<notin> set n\<rbrakk> \<Longrightarrow> tokens_of ''/'' (createPath vec) = vec"
proof (induction vec)
  case (Cons n vec)
  then have n: "n \<noteq> []" "set n \<inter> set ''/'' = {}" by auto
  show ?case
  proof (cases vec)
    case Nil
    with n tokens_of_cut(2) [of n "''/''" "CHR ''/''"] show ?thesis
      by (simp add: createPath_def tokens_of_skip_one)
  next
    case (Cons m ms)
    then have "createPath (n # vec) = CHR ''/'' # n @ CHR ''/'' # (m @ createPath ms)"
      by (simp add: createPath_def)
    moreover have "tokens_of ''/'' (m @ createPath ms) = vec"
      using Cons.IH Cons.prems \<open>vec = m # ms\<close>
      by (simp add: createPath_def tokens_of_skip_one)
    ultimately show ?thesis
      using n tokens_of_cut(1) [of n "''/''" "CHR ''/''"] by (simp add: tokens_of_skip_one)
  qed
qed (simp add: createPath_def)

lemma slash_not_valid: "CHR ''/'' \<notin> set ALPHANUMERIC_UNDERSCORE" "CHR ''/'' \<notin> set VALID_NODE_CHARS"
  by (simp_all add: ALPHANUMERIC_UNDERSCORE_def VALID_NODE_CHARS_def)

lemma valid_name_no_slash: "valid_name n \<Longrightarrow> n \<noteq> [] \<and> CHR ''/'' \<notin> set n"
  using slash_not_valid by (cases n) (auto simp: valid_name_def list_all_iff)

text \<open>A node path survives the round trip: splitting the path that \<open>createPath\<close> builds from
  valid node names gives the names back, so two different lists of node names never have the
  same path.\<close>

theorem node_path_roundtrip:
  "list_all valid_name vec \<Longrightarrow> NodePath_split (createPath vec) = vec"
  unfolding NodePath_split_def split_eq
  by (rule tokens_of_createPath) (auto simp: list_all_iff valid_name_no_slash)

theorem node_path_roundtrip_witness:
  "list_all valid_name [''suite'', ''f1'', ''t.1''] \<and>
   createPath [''suite'', ''f1'', ''t.1''] = ''/suite/f1/t.1'' \<and>
   NodePath_split (createPath [''suite'', ''f1'', ''t.1'']) = [''suite'', ''f1'', ''t.1'']"
proof -
  have h: "list_all valid_name [''suite'', ''f1'', ''t.1'']" by code_simp
  have p: "createPath [''suite'', ''f1'', ''t.1''] = ''/suite/f1/t.1''" by (simp add: createPath_def)
  show ?thesis using h p node_path_roundtrip [OF h] by blast
qed

section \<open>Replacing\<close>

text \<open>\<open>Str::replace\<close>: the first occurrence of \<open>pat\<close>, and whether there was one.\<close>

fun Str_replace :: "string \<Rightarrow> string \<Rightarrow> string \<Rightarrow> bool \<times> string" where
  "Str_replace pat rep [] = (if pat = [] then (True, rep) else (False, []))"
| "Str_replace pat rep (c # cs) =
     (if is_prefix pat (c # cs) then (True, rep @ drop (length pat) (c # cs))
      else map_prod id (Cons c) (Str_replace pat rep cs))"

end
