(* ===== verification/States.thy ===== *)
theory States
  imports Strings
begin

text \<open>
  The state enumerations of ACore and their text forms: \<open>NState\<close> (the state of a node), \<open>DState\<close>
  (the state shown to the user), \<open>SState\<close> (the server), \<open>NOrder\<close> (the order command) and \<open>Child\<close>
  (child commands and zombie types). A constructor carries its class in its prefix, since the
  classes reuse names. What is common to the conversions is the locale \<open>enum_text\<close> and its extension
  \<open>enum_codec\<close>; the enumerations interpret the one that holds for them.
\<close>

section \<open>The contract of a text form\<close>

locale enum_text =
  fixes to_text :: "'e \<Rightarrow> string"
    and of_text :: "string \<Rightarrow> exc + 'e"
  assumes of_to: "of_text (to_text e) = Inr e"
begin

lemma to_text_inj: "to_text a = to_text b \<Longrightarrow> a = b"
  by (metis of_to sum.inject(2))

lemma to_text_eq_iff: "to_text a = to_text b \<longleftrightarrow> a = b"
  using to_text_inj by blast

end

text \<open>With a validity test that accepts exactly the printed forms, and a reader that fails on
  everything else.\<close>

locale enum_codec = enum_text to_text of_text
  for to_text :: "'e \<Rightarrow> string" and of_text :: "string \<Rightarrow> exc + 'e" +
  fixes is_valid :: "string \<Rightarrow> bool"
  assumes of_text_printed: "of_text s = Inr e \<Longrightarrow> s = to_text e"
    and valid_printed: "is_valid s \<longleftrightarrow> (\<exists>e. s = to_text e)"
begin

lemma valid_iff_reads: "is_valid s \<longleftrightarrow> (\<exists>e. of_text s = Inr e)"
  using valid_printed of_to of_text_printed by metis

lemma valid_to_text: "is_valid (to_text e)"
  using valid_printed by blast

lemma reads_iff: "of_text s = Inr e \<longleftrightarrow> s = to_text e"
  using of_to of_text_printed by blast

lemma reject: "\<not> is_valid s \<Longrightarrow> \<exists>x. of_text s = Inl x"
  using valid_iff_reads by (cases "of_text s") auto

text \<open>A list of values written one per word with a separator that no printed form contains.\<close>

lemma list_roundtrip:
  assumes "\<And>e. to_text e \<noteq> [] \<and> c \<notin> set (to_text e)"
  shows "tokens_of [c] (concat (map (\<lambda>e. c # to_text e) es)) = map to_text es"
proof (induction es)
  case (Cons e es)
  have e: "to_text e \<noteq> []" "set (to_text e) \<inter> set [c] = {}" using assms [of e] by auto
  show ?case
  proof (cases es)
    case Nil
    with e tokens_of_cut(2) [of "to_text e" "[c]" c] show ?thesis
      by (simp add: tokens_of_skip_one)
  next
    case (Cons f fs)
    with Cons.IH e tokens_of_cut(1) [of "to_text e" "[c]" c] show ?thesis
      by (simp add: tokens_of_skip_one)
  qed
qed simp

end

section \<open>\<open>NState\<close>: the state of a node\<close>

datatype NState_State = NS_UNKNOWN | NS_COMPLETE | NS_QUEUED | NS_ABORTED | NS_SUBMITTED | NS_ACTIVE

record NState =
  ns_st :: NState_State
  ns_state_change_no :: "32 word"

definition NState_default :: NState where
  "NState_default = \<lparr>ns_st = NS_UNKNOWN, ns_state_change_no = 0\<rparr>"

definition NState_setState :: "NState_State \<Rightarrow> NState \<Rightarrow> ecf \<Rightarrow> NState \<times> ecf" where
  "NState_setState s x g =
     (let (n, g') = incr_state_change_no g in (x\<lparr>ns_st := s, ns_state_change_no := n\<rparr>, g'))"

fun NState_toString :: "NState_State \<Rightarrow> string" where
  "NState_toString NS_UNKNOWN = ''unknown''"
| "NState_toString NS_COMPLETE = ''complete''"
| "NState_toString NS_QUEUED = ''queued''"
| "NState_toString NS_ABORTED = ''aborted''"
| "NState_toString NS_SUBMITTED = ''submitted''"
| "NState_toString NS_ACTIVE = ''active''"

fun NState_to_html :: "NState_State \<Rightarrow> string" where
  "NState_to_html NS_UNKNOWN = ''<state>unknown</state>''"
| "NState_to_html NS_COMPLETE = ''<state>complete</state>''"
| "NState_to_html NS_QUEUED = ''<state>queued</state>''"
| "NState_to_html NS_ABORTED = ''<state>aborted</state>''"
| "NState_to_html NS_SUBMITTED = ''<state>submitted</state>''"
| "NState_to_html NS_ACTIVE = ''<state>active</state>''"

definition NState_toState :: "string \<Rightarrow> NState_State res" where
  "NState_toState str =
     (if str = ''complete'' then Inr NS_COMPLETE
      else if str = ''queued'' then Inr NS_QUEUED
      else if str = ''aborted'' then Inr NS_ABORTED
      else if str = ''active'' then Inr NS_ACTIVE
      else if str = ''submitted'' then Inr NS_SUBMITTED
      else if str = ''unknown'' then Inr NS_UNKNOWN
      else Inl (Assert_failed ''NState::toState''))"

definition NState_to_state :: "string \<Rightarrow> NState_State \<times> bool" where
  "NState_to_state str =
     (if str = ''complete'' then (NS_COMPLETE, True)
      else if str = ''queued'' then (NS_QUEUED, True)
      else if str = ''aborted'' then (NS_ABORTED, True)
      else if str = ''active'' then (NS_ACTIVE, True)
      else if str = ''submitted'' then (NS_SUBMITTED, True)
      else if str = ''unknown'' then (NS_UNKNOWN, True)
      else (NS_UNKNOWN, False))"

definition NState_isValid :: "string \<Rightarrow> bool" where
  "NState_isValid str =
     (if str = ''complete'' then True
      else if str = ''queued'' then True
      else if str = ''aborted'' then True
      else if str = ''active'' then True
      else if str = ''submitted'' then True
      else if str = ''unknown'' then True
      else False)"

definition NState_allStates :: "string list" where
  "NState_allStates = [''complete'', ''unknown'', ''queued'', ''aborted'', ''submitted'', ''active'']"

definition NState_states :: "NState_State list" where
  "NState_states = [NS_UNKNOWN, NS_COMPLETE, NS_QUEUED, NS_ABORTED, NS_SUBMITTED, NS_ACTIVE]"

lemma NState_toState_toString: "NState_toState (NState_toString s) = Inr s"
  by (cases s) (simp_all add: NState_toState_def)

lemma NState_isValid_iff: "NState_isValid s \<longleftrightarrow> (\<exists>e. s = NState_toString e)"
proof
  assume "NState_isValid s"
  then have "\<exists>e \<in> set NState_states. s = NState_toString e"
    by (simp add: NState_isValid_def NState_states_def split: if_splits)
  then show "\<exists>e. s = NState_toString e" by blast
next
  assume "\<exists>e. s = NState_toString e"
  then obtain e where "s = NState_toString e" ..
  then show "NState_isValid s" by (cases e) (simp_all add: NState_isValid_def)
qed

lemma NState_toState_printed: "NState_toState s = Inr e \<Longrightarrow> s = NState_toString e"
  by (auto simp: NState_toState_def split: if_splits)

interpretation nstate: enum_codec NState_toString NState_toState NState_isValid
  by unfold_locales
    (fact NState_toState_toString, erule NState_toState_printed, rule NState_isValid_iff)

lemma NState_to_state_eq:
  "NState_to_state s = (case NState_toState s of Inr e \<Rightarrow> (e, True) | Inl _ \<Rightarrow> (NS_UNKNOWN, False))"
  by (simp add: NState_to_state_def NState_toState_def)

section \<open>\<open>DState\<close>: the state shown to the user\<close>

datatype DState_State =
  DS_UNKNOWN | DS_COMPLETE | DS_QUEUED | DS_ABORTED | DS_SUBMITTED | DS_ACTIVE | DS_SUSPENDED

record DState =
  ds_st :: DState_State
  ds_state_change_no :: "32 word"

definition DState_setState :: "DState_State \<Rightarrow> DState \<Rightarrow> ecf \<Rightarrow> DState \<times> ecf" where
  "DState_setState s x g =
     (let (n, g') = incr_state_change_no g in (x\<lparr>ds_st := s, ds_state_change_no := n\<rparr>, g'))"

fun DState_convert :: "DState_State \<Rightarrow> NState_State" where
  "DState_convert DS_UNKNOWN = NS_UNKNOWN"
| "DState_convert DS_COMPLETE = NS_COMPLETE"
| "DState_convert DS_SUSPENDED = NS_UNKNOWN"
| "DState_convert DS_QUEUED = NS_QUEUED"
| "DState_convert DS_ABORTED = NS_ABORTED"
| "DState_convert DS_SUBMITTED = NS_SUBMITTED"
| "DState_convert DS_ACTIVE = NS_ACTIVE"

fun DState_toString :: "DState_State \<Rightarrow> string" where
  "DState_toString DS_UNKNOWN = ''unknown''"
| "DState_toString DS_COMPLETE = ''complete''"
| "DState_toString DS_QUEUED = ''queued''"
| "DState_toString DS_ABORTED = ''aborted''"
| "DState_toString DS_SUBMITTED = ''submitted''"
| "DState_toString DS_ACTIVE = ''active''"
| "DState_toString DS_SUSPENDED = ''suspended''"

fun DState_to_html :: "DState_State \<Rightarrow> string" where
  "DState_to_html DS_UNKNOWN = ''<state>unknown</state>''"
| "DState_to_html DS_COMPLETE = ''<state>complete</state>''"
| "DState_to_html DS_QUEUED = ''<state>queued</state>''"
| "DState_to_html DS_ABORTED = ''<state>aborted</state>''"
| "DState_to_html DS_SUBMITTED = ''<state>submitted</state>''"
| "DState_to_html DS_ACTIVE = ''<state>active</state>''"
| "DState_to_html DS_SUSPENDED = ''<state>suspended</state>''"

definition DState_toState :: "string \<Rightarrow> DState_State res" where
  "DState_toState str =
     (if str = ''complete'' then Inr DS_COMPLETE
      else if str = ''unknown'' then Inr DS_UNKNOWN
      else if str = ''queued'' then Inr DS_QUEUED
      else if str = ''aborted'' then Inr DS_ABORTED
      else if str = ''submitted'' then Inr DS_SUBMITTED
      else if str = ''suspended'' then Inr DS_SUSPENDED
      else if str = ''active'' then Inr DS_ACTIVE
      else Inl (Runtime_error ''DState::toState: Can change string to a DState :''))"

definition DState_isValid :: "string \<Rightarrow> bool" where
  "DState_isValid str =
     (if str = ''complete'' then True
      else if str = ''aborted'' then True
      else if str = ''queued'' then True
      else if str = ''active'' then True
      else if str = ''suspended'' then True
      else if str = ''unknown'' then True
      else if str = ''submitted'' then True
      else False)"

definition DState_allStates :: "string list" where
  "DState_allStates =
     [''complete'', ''unknown'', ''queued'', ''aborted'', ''submitted'', ''suspended'', ''active'']"

definition DState_states :: "DState_State list" where
  "DState_states =
     [DS_UNKNOWN, DS_COMPLETE, DS_QUEUED, DS_ABORTED, DS_SUBMITTED, DS_ACTIVE, DS_SUSPENDED]"

lemma DState_toState_toString: "DState_toState (DState_toString s) = Inr s"
  by (cases s) (simp_all add: DState_toState_def)

lemma DState_isValid_iff: "DState_isValid s \<longleftrightarrow> (\<exists>e. s = DState_toString e)"
proof
  assume "DState_isValid s"
  then have "\<exists>e \<in> set DState_states. s = DState_toString e"
    by (simp add: DState_isValid_def DState_states_def split: if_splits)
  then show "\<exists>e. s = DState_toString e" by blast
next
  assume "\<exists>e. s = DState_toString e"
  then obtain e where "s = DState_toString e" ..
  then show "DState_isValid s" by (cases e) (simp_all add: DState_isValid_def)
qed

lemma DState_toState_printed: "DState_toState s = Inr e \<Longrightarrow> s = DState_toString e"
  by (auto simp: DState_toState_def split: if_splits)

interpretation dstate: enum_codec DState_toString DState_toState DState_isValid
  by unfold_locales
    (fact DState_toState_toString, erule DState_toState_printed, rule DState_isValid_iff)

section \<open>\<open>NOrder\<close>: the ways to order siblings\<close>

datatype NOrder = ORD_TOP | ORD_BOTTOM | ORD_ALPHA | ORD_ORDER | ORD_UP | ORD_DOWN | ORD_RUNTIME

fun NOrder_toString :: "NOrder \<Rightarrow> string" where
  "NOrder_toString ORD_TOP = ''top''"
| "NOrder_toString ORD_BOTTOM = ''bottom''"
| "NOrder_toString ORD_ALPHA = ''alpha''"
| "NOrder_toString ORD_ORDER = ''order''"
| "NOrder_toString ORD_UP = ''up''"
| "NOrder_toString ORD_DOWN = ''down''"
| "NOrder_toString ORD_RUNTIME = ''runtime''"

definition NOrder_toOrder :: "string \<Rightarrow> NOrder res" where
  "NOrder_toOrder str =
     (if str = ''top'' then Inr ORD_TOP
      else if str = ''bottom'' then Inr ORD_BOTTOM
      else if str = ''alpha'' then Inr ORD_ALPHA
      else if str = ''order'' then Inr ORD_ORDER
      else if str = ''up'' then Inr ORD_UP
      else if str = ''down'' then Inr ORD_DOWN
      else if str = ''runtime'' then Inr ORD_RUNTIME
      else Inl (Assert_failed ''NOrder::toOrder''))"

definition NOrder_isValid :: "string \<Rightarrow> bool" where
  "NOrder_isValid str =
     (if str = ''top'' then True
      else if str = ''bottom'' then True
      else if str = ''alpha'' then True
      else if str = ''order'' then True
      else if str = ''up'' then True
      else if str = ''down'' then True
      else if str = ''runtime'' then True
      else False)"

definition NOrder_all :: "NOrder list" where
  "NOrder_all = [ORD_TOP, ORD_BOTTOM, ORD_ALPHA, ORD_ORDER, ORD_UP, ORD_DOWN, ORD_RUNTIME]"

lemma NOrder_toOrder_toString: "NOrder_toOrder (NOrder_toString s) = Inr s"
  by (cases s) (simp_all add: NOrder_toOrder_def)

lemma NOrder_isValid_iff: "NOrder_isValid s \<longleftrightarrow> (\<exists>e. s = NOrder_toString e)"
proof
  assume "NOrder_isValid s"
  then have "\<exists>e \<in> set NOrder_all. s = NOrder_toString e"
    by (simp add: NOrder_isValid_def NOrder_all_def split: if_splits)
  then show "\<exists>e. s = NOrder_toString e" by blast
next
  assume "\<exists>e. s = NOrder_toString e"
  then obtain e where "s = NOrder_toString e" ..
  then show "NOrder_isValid s" by (cases e) (simp_all add: NOrder_isValid_def)
qed

lemma NOrder_toOrder_printed: "NOrder_toOrder s = Inr e \<Longrightarrow> s = NOrder_toString e"
  by (auto simp: NOrder_toOrder_def split: if_splits)

interpretation norder: enum_codec NOrder_toString NOrder_toOrder NOrder_isValid
  by unfold_locales
    (fact NOrder_toOrder_toString, erule NOrder_toOrder_printed, rule NOrder_isValid_iff)

section \<open>\<open>SState\<close>: the state of the server\<close>

datatype SState = SS_HALTED | SS_SHUTDOWN | SS_RUNNING

fun SState_to_string :: "SState \<Rightarrow> string" where
  "SState_to_string SS_HALTED = ''HALTED''"
| "SState_to_string SS_SHUTDOWN = ''SHUTDOWN''"
| "SState_to_string SS_RUNNING = ''RUNNING''"

definition SState_int_to_string :: "int \<Rightarrow> string" where
  "SState_int_to_string status =
     (if status = 0 then ''HALTED''
      else if status = 1 then ''SHUTDOWN''
      else if status = 2 then ''RUNNING''
      else ''UNKNOWN??'')"

definition SState_toState :: "string \<Rightarrow> SState res" where
  "SState_toState str =
     (if str = ''HALTED'' then Inr SS_HALTED
      else if str = ''SHUTDOWN'' then Inr SS_SHUTDOWN
      else if str = ''RUNNING'' then Inr SS_RUNNING
      else Inl (Assert_failed ''SState::toState''))"

definition SState_isValid :: "string \<Rightarrow> bool" where
  "SState_isValid str =
     (if str = ''HALTED'' then True
      else if str = ''SHUTDOWN'' then True
      else if str = ''queued'' then True
      else if str = ''RUNNING'' then True
      else False)"

interpretation sstate: enum_text SState_to_string SState_toState
proof
  show "SState_toState (SState_to_string e) = Inr e" for e
    by (cases e) (simp_all add: SState_toState_def)
qed

section \<open>\<open>Child\<close>: zombie types and child commands\<close>

datatype ZombieType =
  ZT_USER | ZT_ECF | ZT_ECF_PID | ZT_ECF_PASSWD | ZT_ECF_PID_PASSWD | ZT_PATH | ZT_NOT_SET

datatype CmdType =
  CH_INIT | CH_EVENT | CH_METER | CH_LABEL | CH_WAIT | CH_QUEUE | CH_ABORT | CH_COMPLETE

fun ZombieType_to_string :: "ZombieType \<Rightarrow> string" where
  "ZombieType_to_string ZT_USER = ''user''"
| "ZombieType_to_string ZT_PATH = ''path''"
| "ZombieType_to_string ZT_ECF = ''ecf''"
| "ZombieType_to_string ZT_ECF_PID = ''ecf_pid''"
| "ZombieType_to_string ZT_ECF_PID_PASSWD = ''ecf_pid_passwd''"
| "ZombieType_to_string ZT_ECF_PASSWD = ''ecf_passwd''"
| "ZombieType_to_string ZT_NOT_SET = ''not_set''"

definition zombie_type :: "string \<Rightarrow> ZombieType" where
  "zombie_type str =
     (if str = ''user'' then ZT_USER
      else if str = ''ecf'' then ZT_ECF
      else if str = ''ecf_pid'' then ZT_ECF_PID
      else if str = ''ecf_pid_passwd'' then ZT_ECF_PID_PASSWD
      else if str = ''ecf_passwd'' then ZT_ECF_PASSWD
      else if str = ''path'' then ZT_PATH
      else ZT_NOT_SET)"

definition valid_zombie_type :: "string \<Rightarrow> bool" where
  "valid_zombie_type str =
     (if str = ''user'' then True
      else if str = ''ecf'' then True
      else if str = ''ecf_pid'' then True
      else if str = ''ecf_pid_passwd'' then True
      else if str = ''ecf_passwd'' then True
      else if str = ''path'' then True
      else False)"

fun CmdType_to_string :: "CmdType \<Rightarrow> string" where
  "CmdType_to_string CH_INIT = ''init''"
| "CmdType_to_string CH_EVENT = ''event''"
| "CmdType_to_string CH_METER = ''meter''"
| "CmdType_to_string CH_LABEL = ''label''"
| "CmdType_to_string CH_WAIT = ''wait''"
| "CmdType_to_string CH_QUEUE = ''queue''"
| "CmdType_to_string CH_ABORT = ''abort''"
| "CmdType_to_string CH_COMPLETE = ''complete''"

definition child_cmd :: "string \<Rightarrow> CmdType res" where
  "child_cmd str =
     (if str = ''init'' then Inr CH_INIT
      else if str = ''event'' then Inr CH_EVENT
      else if str = ''meter'' then Inr CH_METER
      else if str = ''label'' then Inr CH_LABEL
      else if str = ''wait'' then Inr CH_WAIT
      else if str = ''queue'' then Inr CH_QUEUE
      else if str = ''abort'' then Inr CH_ABORT
      else if str = ''complete'' then Inr CH_COMPLETE
      else Inl (Assert_failed ''Child::child_cmd''))"

definition valid_child_cmd :: "string \<Rightarrow> bool" where
  "valid_child_cmd str =
     (if str = ''init'' then True
      else if str = ''event'' then True
      else if str = ''meter'' then True
      else if str = ''label'' then True
      else if str = ''wait'' then True
      else if str = ''queue'' then True
      else if str = ''abort'' then True
      else if str = ''complete'' then True
      else False)"

definition Child_list :: "CmdType list" where
  "Child_list =
     [CH_INIT, CH_EVENT, CH_METER, CH_LABEL, CH_WAIT, CH_QUEUE, CH_ABORT, CH_COMPLETE]"

text \<open>\<open>Child::to_string(vector)\<close>, \<open>Child::child_cmds\<close> and \<open>Child::valid_child_cmds\<close>.\<close>

fun CmdTypes_to_string :: "CmdType list \<Rightarrow> string" where
  "CmdTypes_to_string [] = []"
| "CmdTypes_to_string (c # cs) =
     CmdType_to_string c @ concat (map (\<lambda>x. '','' @ CmdType_to_string x) cs)"

fun res_map :: "('a \<Rightarrow> 'b res) \<Rightarrow> 'a list \<Rightarrow> 'b list res" where
  "res_map f [] = Inr []"
| "res_map f (x # xs) = res_bind (f x) (\<lambda>y. res_bind (res_map f xs) (\<lambda>ys. Inr (y # ys)))"

definition child_cmds :: "string \<Rightarrow> CmdType list res" where
  "child_cmds s = res_map child_cmd (split s '','')"

definition valid_child_cmds :: "string \<Rightarrow> bool" where
  "valid_child_cmds s = (if s = [] then True else list_all valid_child_cmd (split s '',''))"

lemma child_cmd_to_string: "child_cmd (CmdType_to_string c) = Inr c"
  by (cases c) (simp_all add: child_cmd_def)

lemma valid_child_cmd_iff: "valid_child_cmd s \<longleftrightarrow> (\<exists>e. s = CmdType_to_string e)"
proof
  assume "valid_child_cmd s"
  then have "\<exists>e \<in> set Child_list. s = CmdType_to_string e"
    by (simp add: valid_child_cmd_def Child_list_def split: if_splits)
  then show "\<exists>e. s = CmdType_to_string e" by blast
next
  assume "\<exists>e. s = CmdType_to_string e"
  then obtain e where "s = CmdType_to_string e" ..
  then show "valid_child_cmd s" by (cases e) (simp_all add: valid_child_cmd_def)
qed

lemma child_cmd_printed: "child_cmd s = Inr e \<Longrightarrow> s = CmdType_to_string e"
  by (auto simp: child_cmd_def split: if_splits)

interpretation childcmd: enum_codec CmdType_to_string child_cmd valid_child_cmd
  by unfold_locales (fact child_cmd_to_string, erule child_cmd_printed, rule valid_child_cmd_iff)

text \<open>\<open>zombie_type\<close> has a default for unknown text, so it is a text form but its validity test,
  which rejects \<open>not_set\<close>, is not the one of a codec.\<close>

interpretation zombietype: enum_text ZombieType_to_string "\<lambda>s. Inr (zombie_type s)"
proof
  show "Inr (zombie_type (ZombieType_to_string e)) = (Inr e :: ZombieType res)" for e
    by (cases e) (simp_all add: zombie_type_def)
qed

lemma CmdType_to_string_no_comma: "CmdType_to_string c \<noteq> [] \<and> CHR '','' \<notin> set (CmdType_to_string c)"
  by (cases c) simp_all

lemma split_CmdTypes: "split (CmdTypes_to_string cs) '','' = map CmdType_to_string cs"
  using childcmd.list_roundtrip [of "CHR '',''", OF CmdType_to_string_no_comma, of cs]
  by (cases cs) (simp_all add: split_eq tokens_of_skip_one)

lemma res_map_child_cmd: "res_map child_cmd (map CmdType_to_string cs) = Inr cs"
  by (induction cs) (simp_all add: child_cmd_to_string)

text \<open>The text forms of the states are faithful: for \<open>NState\<close> and \<open>DState\<close> a string is valid
  exactly when it can be read, reading inverts printing, and \<open>NState::to_state\<close> reports the same
  result as the asserting \<open>toState\<close>; and a node state shown through \<open>DState\<close> with the same name
  converts back to that node state.\<close>

theorem state_text_forms:
  "(NState_isValid s \<longleftrightarrow> (\<exists>e. NState_toState s = Inr e)) \<and>
   (DState_isValid s \<longleftrightarrow> (\<exists>e. DState_toState s = Inr e)) \<and>
   NState_toState (NState_toString n) = Inr n \<and>
   DState_toState (DState_toString d) = Inr d \<and>
   (snd (NState_to_state s) \<longleftrightarrow> NState_isValid s) \<and>
   fst (NState_to_state (NState_toString n)) = n \<and>
   (DState_toString d = NState_toString n \<longrightarrow> DState_convert d = n)"
proof -
  have "DState_toString d = NState_toString n \<longrightarrow> DState_convert d = n"
    by (cases d; cases n) simp_all
  then show ?thesis
    using nstate.valid_iff_reads [of s] dstate.valid_iff_reads [of s] nstate.of_to [of n]
      dstate.of_to [of d] by (auto simp: NState_to_state_eq split: sum.splits)
qed

theorem state_text_forms_witness:
  "DState_toString DS_QUEUED = NState_toString NS_QUEUED \<and> DState_convert DS_QUEUED = NS_QUEUED"
  using state_text_forms [of "''queued''" NS_QUEUED DS_QUEUED] by simp

text \<open>The list of child commands of a zombie attribute round trips: printing any list of child
  commands and reading it back gives the list, and the printed text is accepted by
  \<open>valid_child_cmds\<close>.\<close>

theorem child_cmds_roundtrip:
  "child_cmds (CmdTypes_to_string cs) = Inr cs \<and> valid_child_cmds (CmdTypes_to_string cs)"
  by (auto simp: child_cmds_def valid_child_cmds_def split_CmdTypes res_map_child_cmd
      list_all_iff childcmd.valid_to_text)

text \<open>\<open>SState::isValid\<close> accepts the text \<open>queued\<close>, a node state that \<open>SState::toState\<close> cannot read:
  it is the only string the validity test accepts and the reader rejects.\<close>

theorem sstate_valid_but_unreadable:
  "(SState_isValid s \<and> (\<forall>e. SState_toState s \<noteq> Inr e)) \<longleftrightarrow> s = ''queued''"
  by (auto simp: SState_isValid_def SState_toState_def split: if_splits)

end
