(* ===== verification/Time_Base.thy ===== *)
theory Time_Base
  imports States
begin

text \<open>
  Points and spans of time: \<open>TimeSlot\<close> (\<open>ACore/src/TimeSlot.cpp\<close>) and the suite calendar
  (\<open>ACore/src/Calendar.cpp\<close>). A \<open>boost::posix_time::time_duration\<close> is its number of seconds and a
  \<open>ptime\<close> the number of seconds since day 0; \<open>not_a_date_time\<close> is \<open>None\<close>. The Gregorian calendar of
  Boost (year, month, day and week day of a day number) is not part of the repository: it is the
  parameter \<open>greg\<close> of the definitions that use it.
\<close>

section \<open>Durations\<close>

type_synonym duration = int

definition td_hours :: "duration \<Rightarrow> int" where
  "td_hours d = sgn d * (\<bar>d\<bar> div 3600)"

definition td_minutes :: "duration \<Rightarrow> int" where
  "td_minutes d = sgn d * ((\<bar>d\<bar> div 60) mod 60)"

text \<open>\<open>time_duration(d.hours(), d.minutes(), 0, 0)\<close>.\<close>

definition td_floor_minute :: "duration \<Rightarrow> duration" where
  "td_floor_minute d = td_hours d * 3600 + td_minutes d * 60"

lemma td_hours_nonneg: "0 \<le> d \<Longrightarrow> td_hours d = d div 3600"
  by (cases "d = 0") (simp_all add: td_hours_def)

lemma td_minutes_nonneg: "0 \<le> d \<Longrightarrow> td_minutes d = (d div 60) mod 60"
  by (cases "d = 0") (simp_all add: td_minutes_def)

lemma minutes_split: "60 * (d div 3600) + (d div 60) mod 60 = (d::int) div 60"
proof -
  have "d div 3600 = d div 60 div 60" using zdiv_zmult2_eq [of 60 d 60] by simp
  then show ?thesis by simp
qed

lemma td_floor_minute_nonneg: "0 \<le> d \<Longrightarrow> td_floor_minute d = 60 * (d div 60)"
  using minutes_split [of d]
  by (simp add: td_floor_minute_def td_hours_nonneg td_minutes_nonneg algebra_simps)

section \<open>\<open>TimeSlot\<close>\<close>

datatype time_slot = TimeSlot (hour: int) (minute: int)

text \<open>The order of the class: hours first, then minutes.\<close>

definition slot_less :: "time_slot \<Rightarrow> time_slot \<Rightarrow> bool" where
  "slot_less a b =
     (if hour a < hour b then True else if hour a = hour b then minute a < minute b else False)"

definition slot_le :: "time_slot \<Rightarrow> time_slot \<Rightarrow> bool" where
  "slot_le a b = (if slot_less a b then True else a = b)"

instantiation time_slot :: linorder
begin

definition less_time_slot :: "time_slot \<Rightarrow> time_slot \<Rightarrow> bool" where
  slot_lt_inst: "less_time_slot = slot_less"

definition less_eq_time_slot :: "time_slot \<Rightarrow> time_slot \<Rightarrow> bool" where
  slot_le_inst: "less_eq_time_slot = slot_le"

instance
proof
  fix x y z :: time_slot
  show "(x < y) = (x \<le> y \<and> \<not> y \<le> x)"
    by (cases x; cases y) (auto simp: slot_lt_inst slot_le_inst slot_less_def slot_le_def split: if_splits)
  show "x \<le> x" by (simp add: slot_le_inst slot_le_def)
  show "x \<le> y \<Longrightarrow> y \<le> z \<Longrightarrow> x \<le> z"
    by (cases x; cases y; cases z) (auto simp: slot_lt_inst slot_le_inst slot_less_def slot_le_def split: if_splits)
  show "x \<le> y \<Longrightarrow> y \<le> x \<Longrightarrow> x = y"
    by (cases x; cases y) (auto simp: slot_lt_inst slot_le_inst slot_less_def slot_le_def split: if_splits)
  show "x \<le> y \<or> y \<le> x"
    by (cases x; cases y) (auto simp: slot_lt_inst slot_le_inst slot_less_def slot_le_def)
qed

end

lemma time_slot_less:
  "a < b \<longleftrightarrow> (if hour a < hour b then True else if hour a = hour b then minute a < minute b else False)" for a b :: time_slot
  by (simp add: slot_lt_inst slot_less_def)

lemma time_slot_le: "a \<le> b \<longleftrightarrow> (if a < b then True else a = b)" for a b :: time_slot
  by (simp add: slot_lt_inst slot_le_inst slot_le_def)

definition NULL_slot :: time_slot where
  "NULL_slot = TimeSlot (- 1) (- 1)"

definition slot_isNULL :: "time_slot \<Rightarrow> bool" where
  "slot_isNULL s = (hour s = - 1 \<and> minute s = - 1)"

lemma slot_isNULL_iff: "slot_isNULL s \<longleftrightarrow> s = NULL_slot"
  by (cases s) (simp add: slot_isNULL_def NULL_slot_def)

definition slot_duration :: "time_slot \<Rightarrow> duration" where
  "slot_duration s = hour s * 3600 + minute s * 60"

text \<open>\<open>TimeSlot(value.hours(), value.minutes())\<close>.\<close>

definition slot_of_duration :: "duration \<Rightarrow> time_slot" where
  "slot_of_duration d = TimeSlot (td_hours d) (td_minutes d)"

definition pad2 :: "int \<Rightarrow> string" where
  "pad2 i = (if i < 10 then ''0'' else []) @ string_of_int i"

definition slot_write :: "time_slot \<Rightarrow> string" where
  "slot_write s =
     (if slot_isNULL s then ''00:00'' else pad2 (hour s) @ '':'' @ pad2 (minute s))"

text \<open>A slot of the 24 hour clock or of a relative time: what every constructor call of the code
  base builds.\<close>

definition slot_ok :: "time_slot \<Rightarrow> bool" where
  "slot_ok s \<longleftrightarrow> 0 \<le> hour s \<and> 0 \<le> minute s \<and> minute s < 60"

lemma slot_ok_not_NULL [simp]: "slot_ok s \<Longrightarrow> \<not> slot_isNULL s"
  by (simp add: slot_ok_def slot_isNULL_def)

lemma slot_duration_nonneg: "slot_ok s \<Longrightarrow> 0 \<le> slot_duration s"
  by (simp add: slot_ok_def slot_duration_def)

lemma slot_less_iff_duration:
  "slot_ok a \<Longrightarrow> slot_ok b \<Longrightarrow> a < b \<longleftrightarrow> slot_duration a < slot_duration b"
  by (auto simp: slot_ok_def slot_duration_def time_slot_less)

lemma slot_duration_inj: "slot_ok a \<Longrightarrow> slot_ok b \<Longrightarrow> slot_duration a = slot_duration b \<Longrightarrow> a = b"
  using slot_less_iff_duration [of a b] slot_less_iff_duration [of b a] by (metis less_irrefl linorder_neqE)

lemma slot_of_duration_ok: "0 \<le> d \<Longrightarrow> slot_ok (slot_of_duration d)"
  by (simp add: slot_ok_def slot_of_duration_def td_hours_nonneg td_minutes_nonneg)

lemma slot_of_duration_duration:
  "0 \<le> d \<Longrightarrow> d mod 60 = 0 \<Longrightarrow> slot_duration (slot_of_duration d) = d"
  using td_floor_minute_nonneg [of d] by (simp add: slot_duration_def slot_of_duration_def td_floor_minute_def)
    (metis add.right_neutral mult_div_mod_eq)

lemma slot_duration_minutes [simp]: "slot_duration s mod 60 = 0"
  by (simp add: slot_duration_def mod_simps)

lemma slot_of_duration_of: "slot_ok s \<Longrightarrow> slot_of_duration (slot_duration s) = s"
  by (rule slot_duration_inj)
    (simp_all add: slot_of_duration_ok slot_duration_nonneg slot_of_duration_duration)

text \<open>Matching hours and minutes ignores seconds.\<close>

lemma hours_minutes_match:
  assumes "0 \<le> a" "0 \<le> b"
  shows "(td_hours a = td_hours b \<and> td_minutes a = td_minutes b) \<longleftrightarrow> a div 60 = b div 60"
    (is "?l \<longleftrightarrow> ?r")
proof
  assume ?l
  with assms have "a div 3600 = b div 3600" "(a div 60) mod 60 = (b div 60) mod 60"
    by (simp_all add: td_hours_nonneg td_minutes_nonneg)
  then show ?r by (metis minutes_split)
next
  assume ?r
  then have "a div 60 div 60 = b div 60 div 60" by simp
  then have "a div 3600 = b div 3600" using zdiv_zmult2_eq [of 60 a 60] zdiv_zmult2_eq [of 60 b 60] by simp
  with \<open>?r\<close> assms show ?l by (simp add: td_hours_nonneg td_minutes_nonneg)
qed

section \<open>The suite calendar\<close>

datatype Clock_t = REAL_CLOCK | HYBRID_CLOCK

text \<open>What \<open>boost::gregorian::date\<close> reports of a day: \<open>day_of_week().as_number()\<close>,
  \<open>day_of_year()\<close>, \<open>day()\<close>, \<open>month()\<close>, \<open>year()\<close> and \<open>end_of_month()\<close> (a day number).\<close>

record gdate =
  g_day_of_week :: int
  g_day_of_year :: int
  g_day :: int
  g_month :: int
  g_year :: int
  g_end_of_month :: int

type_synonym gregorian = "int \<Rightarrow> gdate"

text \<open>The documented behaviour the code relies on: week days follow each other, Sunday is 0.\<close>

definition greg_weekly :: "gregorian \<Rightarrow> bool" where
  "greg_weekly greg \<longleftrightarrow>
     (\<forall>d. 0 \<le> g_day_of_week (greg d) \<and> g_day_of_week (greg d) < 7 \<and>
          g_day_of_week (greg (d + 1)) = (g_day_of_week (greg d) + 1) mod 7)"

record calendar =
  cal_initTime :: "int option"
  cal_suiteTime :: "int option"
  cal_initLocalTime :: "int option"
  cal_lastTime :: "int option"
  cal_duration :: duration
  cal_increment :: duration
  cal_day_of_week :: int
  cal_day_of_year :: int
  cal_day_of_month :: int
  cal_month :: int
  cal_year :: int
  cal_ctype :: Clock_t
  cal_dayChanged :: bool

definition Calendar_default :: calendar where
  "Calendar_default =
     \<lparr>cal_initTime = None, cal_suiteTime = None, cal_initLocalTime = None, cal_lastTime = None,
      cal_duration = 0, cal_increment = 60,
      cal_day_of_week = - 1, cal_day_of_year = - 1, cal_day_of_month = - 1, cal_month = - 1,
      cal_year = - 1, cal_ctype = REAL_CLOCK, cal_dayChanged = False\<rparr>"

definition day_of_time :: "int \<Rightarrow> int" where
  "day_of_time t = t div 86400"

definition time_of_day :: "int \<Rightarrow> duration" where
  "time_of_day t = t mod 86400"

text \<open>\<open>Calendar::date()\<close> is the date of the suite time.\<close>

definition cal_date :: "calendar \<Rightarrow> int" where
  "cal_date c = day_of_time (the (cal_suiteTime c))"

definition cal_hybrid :: "calendar \<Rightarrow> bool" where
  "cal_hybrid c = (cal_ctype c = HYBRID_CLOCK)"

definition update_cache :: "gregorian \<Rightarrow> calendar \<Rightarrow> calendar" where
  "update_cache greg c =
     (case cal_suiteTime c of
        None \<Rightarrow> c
      | Some t \<Rightarrow>
          let newDate = greg (day_of_time t)
          in c\<lparr>cal_day_of_week := g_day_of_week newDate, cal_day_of_year := g_day_of_year newDate,
               cal_day_of_month := g_day newDate, cal_month := g_month newDate,
               cal_year := g_year newDate\<rparr>)"

definition Calendar_init :: "Clock_t \<Rightarrow> calendar \<Rightarrow> calendar" where
  "Calendar_init clock c = c\<lparr>cal_ctype := clock\<rparr>"

text \<open>\<open>Calendar::begin\<close>; \<open>now\<close> is what the system clock returns.\<close>

definition Calendar_begin :: "gregorian \<Rightarrow> int \<Rightarrow> int \<Rightarrow> calendar \<Rightarrow> calendar" where
  "Calendar_begin greg now the_time c =
     update_cache greg
       (c\<lparr>cal_duration := 0, cal_increment := 60, cal_suiteTime := Some the_time,
          cal_initTime := Some the_time, cal_dayChanged := False,
          cal_initLocalTime := Some now, cal_lastTime := Some now\<rparr>)"

record calendar_update_params =
  cup_timeNow :: "int option"
  cup_serverPollPeriod :: duration
  cup_serverRunning :: bool
  cup_forTest :: bool

text \<open>The three ways the calendar advances: the sped-up server, the system clock, and the
  simulator.\<close>

definition Calendar_advance :: "calendar_update_params \<Rightarrow> int \<Rightarrow> calendar \<Rightarrow> calendar res" where
  "Calendar_advance p suite c =
     (if \<not> cup_forTest p
      then if cup_serverPollPeriod p < 60
           then Inr (c\<lparr>cal_duration := cal_duration c + 60, cal_suiteTime := Some (suite + 60),
                       cal_increment := 60\<rparr>)
           else (case cup_timeNow p of
                   None \<Rightarrow> Inl (Assert_failed ''Calendar::update: time_now'')
                 | Some time_now \<Rightarrow>
                     (case (cal_initLocalTime c, cal_lastTime c) of
                        (Some initLocal, Some lastT) \<Rightarrow>
                          Inr (c\<lparr>cal_duration := time_now - initLocal,
                                 cal_increment := time_now - lastT,
                                 cal_suiteTime := Some (suite + (time_now - lastT)),
                                 cal_lastTime := Some time_now\<rparr>)
                      | _ \<Rightarrow> Inl (Assert_failed ''Calendar::update: begin has not been called'')))
      else Inr (c\<lparr>cal_duration := cal_duration c + cup_serverPollPeriod p,
                  cal_suiteTime := Some (suite + cup_serverPollPeriod p),
                  cal_increment := cup_serverPollPeriod p\<rparr>))"

definition Calendar_update :: "gregorian \<Rightarrow> calendar_update_params \<Rightarrow> calendar \<Rightarrow> calendar res" where
  "Calendar_update greg p c =
     (case cal_suiteTime c of
        None \<Rightarrow> Inl (Assert_failed ''Calendar::update: begin has not been called'')
      | Some suite \<Rightarrow>
          res_bind (Calendar_advance p suite c) (\<lambda>c1.
            (let theDayOfWeek = g_day_of_week (greg (day_of_time suite));
                 suite1 = the (cal_suiteTime c1);
                 new_day_of_week = g_day_of_week (greg (day_of_time suite1));
                 c2 = c1\<lparr>cal_dayChanged := (theDayOfWeek \<noteq> new_day_of_week)\<rparr>;
                 c3 = (if cal_ctype c2 = HYBRID_CLOCK
                       then (case cal_initTime c2 of
                               None \<Rightarrow> c2
                             | Some ini \<Rightarrow>
                                 if day_of_time suite1 \<noteq> day_of_time ini
                                 then c2\<lparr>cal_suiteTime := Some (day_of_time ini * 86400 + time_of_day suite1)\<rparr>
                                 else c2)
                       else c2)
             in Inr (update_cache greg c3))))"

definition Calendar_update_duration_only :: "int \<Rightarrow> calendar \<Rightarrow> calendar" where
  "Calendar_update_duration_only time_now c =
     (case cal_initLocalTime c of
        None \<Rightarrow> c
      | Some il \<Rightarrow> if cal_duration c < time_now - il then c\<lparr>cal_duration := time_now - il\<rparr> else c)"

text \<open>What the cached day fields and the hybrid clock promise between updates.\<close>

definition cal_started :: "gregorian \<Rightarrow> calendar \<Rightarrow> bool" where
  "cal_started greg c \<longleftrightarrow>
     (\<exists>s i. cal_suiteTime c = Some s \<and> cal_initTime c = Some i \<and>
        cal_initLocalTime c \<noteq> None \<and> cal_lastTime c \<noteq> None \<and>
        (cal_ctype c = HYBRID_CLOCK \<longrightarrow> day_of_time s = day_of_time i) \<and>
        cal_day_of_week c = g_day_of_week (greg (day_of_time s)) \<and>
        cal_day_of_month c = g_day (greg (day_of_time s)) \<and>
        cal_month c = g_month (greg (day_of_time s)) \<and>
        cal_year c = g_year (greg (day_of_time s)))"

lemma day_of_time_split [simp]: "day_of_time (d * 86400 + time_of_day t) = d"
  by (simp add: day_of_time_def time_of_day_def)

lemma time_of_day_split [simp]: "time_of_day (d * 86400 + time_of_day t) = time_of_day t"
  by (simp add: time_of_day_def)

lemma time_of_day_range: "0 \<le> time_of_day t" "time_of_day t < 86400"
  by (simp_all add: time_of_day_def)

lemma Calendar_begin_started: "cal_started greg (Calendar_begin greg now t c)"
  by (simp add: cal_started_def Calendar_begin_def update_cache_def Let_def)

lemma Calendar_advance_keeps:
  "Calendar_advance p s c = Inr c1 \<Longrightarrow> cal_initTime c1 = cal_initTime c \<and> cal_ctype c1 = cal_ctype c \<and>
     cal_initLocalTime c1 = cal_initLocalTime c \<and> (cal_lastTime c \<noteq> None \<longrightarrow> cal_lastTime c1 \<noteq> None) \<and>
     cal_suiteTime c1 = Some (s + cal_increment c1)"
  by (auto simp: Calendar_advance_def split: if_splits option.splits)

lemma Calendar_update_started:
  assumes "cal_started greg c" "Calendar_update greg p c = Inr c'"
  shows "cal_started greg c'"
proof -
  from assms(1) obtain s i where si: "cal_suiteTime c = Some s" "cal_initTime c = Some i"
    "cal_initLocalTime c \<noteq> None" "cal_lastTime c \<noteq> None"
    by (auto simp: cal_started_def)
  with assms(2) obtain c1 where adv: "Calendar_advance p s c = Inr c1"
    by (auto simp: Calendar_update_def)
  from Calendar_advance_keeps [OF adv] si adv assms(2) show ?thesis
    by (auto simp: Calendar_update_def cal_started_def update_cache_def Let_def split: if_splits)
qed

lemma g_day_of_week_add:
  assumes "greg_weekly greg"
  shows "g_day_of_week (greg (d + int k)) = (g_day_of_week (greg d) + int k) mod 7"
proof (induction k)
  case 0
  from assms have "0 \<le> g_day_of_week (greg d)" "g_day_of_week (greg d) < 7"
    by (auto simp: greg_weekly_def)
  then show ?case by simp
next
  case (Suc k)
  have "g_day_of_week (greg (d + int (Suc k))) = (g_day_of_week (greg (d + int k)) + 1) mod 7"
    using assms unfolding greg_weekly_def by (metis add.assoc of_nat_Suc add.commute)
  with Suc show ?case by (simp add: mod_simps ac_simps)
qed

lemma day_of_week_changed:
  assumes "greg_weekly greg" "d \<le> e" "e < d + 7"
  shows "g_day_of_week (greg d) \<noteq> g_day_of_week (greg e) \<longleftrightarrow> d \<noteq> e"
proof -
  define k where "k = nat (e - d)"
  with assms have e: "e = d + int k" and k: "k < 7" by simp_all
  from assms(1) have w: "0 \<le> g_day_of_week (greg d)" "g_day_of_week (greg d) < 7"
    by (auto simp: greg_weekly_def)
  have "(g_day_of_week (greg d) + int k) mod 7 = g_day_of_week (greg d) \<longleftrightarrow> k = 0"
    using w k by presburger
  with e g_day_of_week_add [OF assms(1), of d k] show ?thesis by auto
qed

lemma Calendar_update_dayChanged:
  assumes "Calendar_update greg p c = Inr c'" "cal_suiteTime c = Some s"
  shows "cal_dayChanged c' \<longleftrightarrow>
    g_day_of_week (greg (day_of_time s)) \<noteq> g_day_of_week (greg (day_of_time (s + cal_increment c')))"
proof -
  from assms obtain c1 where adv: "Calendar_advance p s c = Inr c1"
    by (auto simp: Calendar_update_def)
  from Calendar_advance_keeps [OF adv] adv assms show ?thesis
    by (auto simp: Calendar_update_def update_cache_def Let_def split: if_splits option.splits)
qed

lemma Calendar_update_clock:
  assumes "Calendar_update greg p c = Inr c'" "cal_suiteTime c = Some s" "cal_initTime c = Some i"
  shows "\<exists>s'. cal_suiteTime c' = Some s' \<and> time_of_day s' = time_of_day (s + cal_increment c') \<and>
           day_of_time s' = (if cal_ctype c = HYBRID_CLOCK then day_of_time i
                             else day_of_time (s + cal_increment c'))"
proof -
  from assms obtain c1 where adv: "Calendar_advance p s c = Inr c1"
    by (auto simp: Calendar_update_def)
  from Calendar_advance_keeps [OF adv] adv assms show ?thesis
    by (auto simp: Calendar_update_def update_cache_def Let_def split: if_splits)
qed

text \<open>One calendar update of less than six days: the day-changed flag is set exactly when the
  suite clock passed midnight; the time of day advances by the increment; a real clock also moves
  its date while a hybrid clock keeps the date of its start; and the cached date fields agree with
  the new suite time.\<close>

theorem calendar_update_day:
  assumes "greg_weekly greg" "cal_started greg c" "Calendar_update greg p c = Inr c'"
    and "cal_suiteTime c = Some s" "cal_initTime c = Some i"
    and "0 \<le> cal_increment c'" "cal_increment c' < 6 * 86400"
  shows "(cal_dayChanged c' \<longleftrightarrow> day_of_time (s + cal_increment c') \<noteq> day_of_time s) \<and>
    (\<exists>s'. cal_suiteTime c' = Some s' \<and> time_of_day s' = time_of_day (s + cal_increment c') \<and>
       day_of_time s' = (if cal_ctype c = HYBRID_CLOCK then day_of_time i
                         else day_of_time (s + cal_increment c'))) \<and>
    cal_started greg c'"
proof -
  have "day_of_time s \<le> day_of_time (s + cal_increment c')"
    using assms(6) by (simp add: day_of_time_def zdiv_mono1)
  moreover have "day_of_time (s + cal_increment c') \<le> day_of_time (s + 6 * 86400)"
    unfolding day_of_time_def using assms(7) by (intro zdiv_mono1) simp_all
  moreover have "day_of_time (s + 6 * 86400) = day_of_time s + 6" by (simp add: day_of_time_def)
  ultimately have "cal_dayChanged c' \<longleftrightarrow> day_of_time (s + cal_increment c') \<noteq> day_of_time s"
    using Calendar_update_dayChanged [OF assms(3,4)]
      day_of_week_changed [OF assms(1), of "day_of_time s" "day_of_time (s + cal_increment c')"]
    by auto
  then show ?thesis
    using Calendar_update_clock [OF assms(3-5)] Calendar_update_started [OF assms(2,3)] by blast
qed

text \<open>A week of days with made-up dates, to exercise the statements.\<close>

definition week_only :: gregorian where
  "week_only d = \<lparr>g_day_of_week = d mod 7, g_day_of_year = 1, g_day = 1, g_month = 1, g_year = 2000,
     g_end_of_month = d\<rparr>"

lemma week_only_weekly: "greg_weekly week_only"
  by (simp add: greg_weekly_def week_only_def mod_simps)

definition poll_hour :: calendar_update_params where
  "poll_hour = \<lparr>cup_timeNow = None, cup_serverPollPeriod = 3600, cup_serverRunning = True, cup_forTest = True\<rparr>"

definition late_evening :: calendar where
  "late_evening = Calendar_begin week_only 0 (10 * 86400 + 84600) (Calendar_init HYBRID_CLOCK Calendar_default)"

theorem calendar_update_day_witness:
  "\<exists>c'. Calendar_update week_only poll_hour late_evening = Inr c' \<and> cal_dayChanged c' \<and>
     cal_suiteTime c' = Some (10 * 86400 + 1800)"
proof -
  define c' where "c' = (case Calendar_update week_only poll_hour late_evening of Inr c \<Rightarrow> c)"
  have u: "Calendar_update week_only poll_hour late_evening = Inr c'"
    by (simp add: c'_def Calendar_update_def Calendar_advance_def poll_hour_def late_evening_def
        Calendar_begin_def update_cache_def Let_def)
  have inc: "cal_increment c' = 3600"
    by (simp add: c'_def Calendar_update_def Calendar_advance_def poll_hour_def late_evening_def
        Calendar_begin_def Calendar_init_def update_cache_def Let_def day_of_time_def)
  have st: "cal_suiteTime late_evening = Some (10 * 86400 + 84600)"
    "cal_initTime late_evening = Some (10 * 86400 + 84600)" "cal_ctype late_evening = HYBRID_CLOCK"
    by (simp_all add: late_evening_def Calendar_begin_def Calendar_init_def update_cache_def Let_def)
  have "cal_started week_only late_evening"
    unfolding late_evening_def by (rule Calendar_begin_started)
  from calendar_update_day [OF week_only_weekly this u st(1,2)] inc st(3)
  obtain s' where "cal_dayChanged c'" "cal_suiteTime c' = Some s'" "day_of_time s' = 10"
    "time_of_day s' = 1800" by (auto simp: day_of_time_def time_of_day_def)
  moreover have "s' = day_of_time s' * 86400 + time_of_day s'"
    by (simp add: day_of_time_def time_of_day_def)
  ultimately show ?thesis using u by auto
qed

text \<open>The day-changed flag compares week days, so an update that moves the clock by a whole
  number of weeks leaves it unset although the date has moved: a server that resumes exactly a
  week after its last update does not tell its time attributes about the new day.\<close>

theorem calendar_week_gap_unnoticed:
  assumes "greg_weekly greg" "Calendar_update greg p c = Inr c'" "cal_suiteTime c = Some s"
    and "cal_increment c' = 7 * 86400"
  shows "\<not> cal_dayChanged c' \<and> day_of_time (s + cal_increment c') = day_of_time s + 7"
proof -
  have d: "day_of_time (s + cal_increment c') = day_of_time s + 7"
    using assms(4) by (simp add: day_of_time_def)
  have "0 \<le> g_day_of_week (greg (day_of_time s))" "g_day_of_week (greg (day_of_time s)) < 7"
    using assms(1) by (simp_all add: greg_weekly_def)
  then have "g_day_of_week (greg (day_of_time s + int 7)) = g_day_of_week (greg (day_of_time s))"
    using g_day_of_week_add [OF assms(1), of "day_of_time s" 7] by simp
  with d Calendar_update_dayChanged [OF assms(2,3)] show ?thesis by simp
qed

theorem calendar_week_gap_unnoticed_witness:
  "\<exists>c'. Calendar_update week_only (poll_hour\<lparr>cup_serverPollPeriod := 604800\<rparr>) late_evening = Inr c' \<and>
     \<not> cal_dayChanged c'"
proof -
  let ?p = "poll_hour\<lparr>cup_serverPollPeriod := 604800\<rparr>"
  define c' where "c' = (case Calendar_update week_only ?p late_evening of Inr c \<Rightarrow> c)"
  have u: "Calendar_update week_only ?p late_evening = Inr c'"
    by (simp add: c'_def Calendar_update_def Calendar_advance_def poll_hour_def late_evening_def
        Calendar_begin_def update_cache_def Let_def)
  have inc: "cal_increment c' = 7 * 86400"
    by (simp add: c'_def Calendar_update_def Calendar_advance_def poll_hour_def late_evening_def
        Calendar_begin_def Calendar_init_def update_cache_def Let_def day_of_time_def)
  have "cal_suiteTime late_evening = Some (10 * 86400 + 84600)"
    by (simp add: late_evening_def Calendar_begin_def update_cache_def Let_def)
  from calendar_week_gap_unnoticed [OF week_only_weekly u this inc] u show ?thesis by blast
qed

end
