(* ===== verification/Time_Series.thy ===== *)
theory Time_Series
  imports Time_Base
begin

text \<open>
  \<open>TimeSeries\<close> (\<open>ACore/src/TimeSeries.cpp\<close>): a single time or a start, finish and increment, the next
  free slot, and the flag that says whether the time has expired for the day. The loops of the
  class only stop if the increment is positive, which the constructors check: they are
  option-valued here (\<open>None\<close>: the loop does not return), and the properties show that they return
  on every series that satisfies the invariant \<open>ts_inv\<close>. Durations are in seconds.
\<close>

record time_series =
  ts_start :: time_slot
  ts_finish :: time_slot
  ts_incr :: time_slot
  ts_next :: time_slot
  ts_suiteTimeAtReque :: time_slot
  ts_relativeDuration :: duration
  ts_lastTimeSlot :: duration
  ts_relative :: bool
  ts_isValid :: bool

definition hasIncrement :: "time_series \<Rightarrow> bool" where
  "hasIncrement ts = (\<not> slot_isNULL (ts_finish ts))"

section \<open>Loops\<close>

text \<open>\<open>while (guard(nextTimeSlot_.duration())) nextTimeSlot_ = nextTimeSlot_ + incr_\<close>, as in \<open>reset\<close>,
  \<open>requeue\<close> and \<open>compute_next_time_slot\<close>.\<close>

partial_function (option) slot_loop ::
    "(duration \<Rightarrow> bool) \<Rightarrow> duration \<Rightarrow> time_slot \<Rightarrow> time_slot option" where
  "slot_loop guard incr nxt =
     (if guard (slot_duration nxt)
      then slot_loop guard incr (slot_of_duration (slot_duration nxt + incr))
      else Some nxt)"

text \<open>The loop of \<open>compute_last_time_slot\<close>.\<close>

partial_function (option) last_loop :: "duration \<Rightarrow> duration \<Rightarrow> duration \<Rightarrow> duration option" where
  "last_loop fin incr lst = (if lst \<le> fin then last_loop fin incr (lst + incr) else Some lst)"

text \<open>The loop of \<open>match_duration_with_time_series\<close>.\<close>

partial_function (option) match_loop ::
    "int \<Rightarrow> int \<Rightarrow> duration \<Rightarrow> duration \<Rightarrow> duration \<Rightarrow> bool option" where
  "match_loop h m fin incr td =
     (if td \<le> fin
      then if h = td_hours td \<and> m = td_minutes td then Some True
           else match_loop h m fin incr (td + incr)
      else Some False)"

text \<open>The loop of \<open>free_slots\<close>.\<close>

partial_function (option) free_loop :: "duration \<Rightarrow> duration \<Rightarrow> duration \<Rightarrow> duration list option" where
  "free_loop fin incr i =
     (if i < fin then Option.bind (free_loop fin incr (i + incr)) (\<lambda>r. Some (i # r)) else Some [])"

section \<open>Construction\<close>

definition testTimeSlot :: "time_slot \<Rightarrow> unit res" where
  "testTimeSlot s =
     (if hour s < 0 \<or> hour s > 23 then Inl (Out_of_range ''TimeSeries:  time hour'')
      else if minute s < 0 \<or> minute s > 59 then Inl (Out_of_range ''TimeSeries:  time minute'')
      else Inr ())"

definition compute_last_time_slot :: "time_series \<Rightarrow> time_series option" where
  "compute_last_time_slot ts =
     (if \<not> slot_isNULL (ts_finish ts)
      then Option.bind (last_loop (slot_duration (ts_finish ts)) (slot_duration (ts_incr ts))
                          (slot_duration (ts_start ts)))
             (\<lambda>l. Some (ts\<lparr>ts_lastTimeSlot := l - slot_duration (ts_incr ts)\<rparr>))
      else Some ts)"

definition TimeSeries_single :: "time_slot \<Rightarrow> bool \<Rightarrow> time_series res" where
  "TimeSeries_single t relative =
     (if slot_isNULL t then Inl (Assert_failed ''TimeSlot::duration'')
      else res_bind (testTimeSlot t) (\<lambda>_.
        Inr \<lparr>ts_start = t, ts_finish = NULL_slot, ts_incr = NULL_slot, ts_next = t,
             ts_suiteTimeAtReque = NULL_slot, ts_relativeDuration = 0,
             ts_lastTimeSlot = slot_duration t, ts_relative = relative, ts_isValid = True\<rparr>))"

definition TimeSeries_hm :: "int \<Rightarrow> int \<Rightarrow> bool \<Rightarrow> time_series res" where
  "TimeSeries_hm h m relative =
     (if h < 0 \<or> m < 0 then Inl (Assert_failed ''TimeSlot::TimeSlot'')
      else TimeSeries_single (TimeSlot h m) relative)"

text \<open>The constructor of a series, its checks in the order of the code. After \<open>testTimeSlot(finish)\<close>
  neither \<open>finish\<close> nor \<open>incr\<close> is \<open>NULL\<close>, so the check between them never fires.\<close>

definition TimeSeries_range ::
    "time_slot \<Rightarrow> time_slot \<Rightarrow> time_slot \<Rightarrow> bool \<Rightarrow> time_series res option" where
  "TimeSeries_range start finish incr relative =
     (let ts = \<lparr>ts_start = start, ts_finish = finish, ts_incr = incr, ts_next = start,
                ts_suiteTimeAtReque = NULL_slot, ts_relativeDuration = 0,
                ts_lastTimeSlot = 0, ts_relative = relative, ts_isValid = True\<rparr>;
          checks =
            res_bind (testTimeSlot start) (\<lambda>_.
            res_bind (testTimeSlot finish) (\<lambda>_.
            res_bind (testTimeSlot incr) (\<lambda>_.
            res_bind (res_check (\<not> (\<not> slot_isNULL finish \<and> slot_isNULL incr))
              (Out_of_range ''TimeSeries::TimeSeries: Invalid time series: Finish specified without an increment'')) (\<lambda>_.
            res_bind (res_check (\<not> slot_duration start > slot_duration finish)
              (Out_of_range ''TimeSeries::TimeSeries: Invalid time series: Start time'')) (\<lambda>_.
            res_bind (res_check (\<not> (hour incr = 0 \<and> minute incr = 0))
              (Out_of_range ''TimeSeries::TimeSeries Invalid time series:  Increment must be greater than 0 minutes.'')) (\<lambda>_.
            res_check (\<not> slot_duration incr > slot_duration finish - slot_duration start)
              (Out_of_range ''TimeSeries::TimeSeries: Invalid time series: Increment''))))))) 
      in case checks of
           Inl e \<Rightarrow> Some (Inl e)
         | Inr _ \<Rightarrow> Option.bind (compute_last_time_slot ts) (\<lambda>t. Some (Inr t)))"

section \<open>Operations\<close>

text \<open>\<open>TimeSeries::duration\<close>. A calendar that has not begun has no time of day.\<close>

definition ts_duration :: "calendar \<Rightarrow> time_series \<Rightarrow> duration" where
  "ts_duration c ts =
     (if ts_relative ts then td_floor_minute (ts_relativeDuration ts)
      else td_floor_minute (time_of_day (the (cal_suiteTime c))))"

definition ts_calendarChanged :: "calendar \<Rightarrow> time_series \<Rightarrow> bool \<times> time_series" where
  "ts_calendarChanged c ts =
     (if ts_relative ts
      then (True, ts\<lparr>ts_relativeDuration := ts_relativeDuration ts + cal_increment c\<rparr>)
      else if cal_dayChanged c
      then (True, ts\<lparr>ts_isValid := True, ts_next := ts_start ts\<rparr>)
      else (False, ts))"

definition ts_resetRelativeDuration :: "time_series \<Rightarrow> bool \<times> time_series" where
  "ts_resetRelativeDuration ts =
     (if ts_relative ts then (True, ts\<lparr>ts_relativeDuration := 0\<rparr>) else (False, ts))"

definition ts_reset_only :: "time_series \<Rightarrow> time_series" where
  "ts_reset_only ts =
     snd (ts_resetRelativeDuration (ts\<lparr>ts_isValid := True, ts_next := ts_start ts\<rparr>))"

definition ts_reset :: "calendar \<Rightarrow> time_series \<Rightarrow> time_series option" where
  "ts_reset c ts0 =
     (let ts = ts_reset_only ts0; current_time = ts_duration c ts
      in if hasIncrement ts
         then let ts1 = (if \<not> ts_relative ts
                         then ts\<lparr>ts_suiteTimeAtReque := slot_of_duration (time_of_day (the (cal_suiteTime c)))\<rparr>
                         else ts)
              in Option.bind (slot_loop (\<lambda>d. current_time > d) (slot_duration (ts_incr ts1)) (ts_next ts1))
                   (\<lambda>n. let ts2 = ts1\<lparr>ts_next := n\<rparr>
                        in Some (if ts_next ts2 > ts_finish ts2 then ts2\<lparr>ts_isValid := False\<rparr> else ts2))
         else Some (if current_time > slot_duration (ts_start ts) then ts\<lparr>ts_isValid := False\<rparr> else ts))"

definition ts_requeue :: "calendar \<Rightarrow> bool \<Rightarrow> time_series \<Rightarrow> time_series option" where
  "ts_requeue c reset_next_time_slot ts0 =
     (let ts = (if reset_next_time_slot then ts0\<lparr>ts_isValid := True, ts_next := ts_start ts0\<rparr> else ts0);
          current_time = ts_duration c ts
      in if \<not> hasIncrement ts
         then Some (if current_time \<ge> slot_duration (ts_start ts) then ts\<lparr>ts_isValid := False\<rparr> else ts)
         else let ts1 = (if \<not> ts_relative ts
                         then ts\<lparr>ts_suiteTimeAtReque := slot_of_duration (time_of_day (the (cal_suiteTime c)))\<rparr>
                         else ts)
              in Option.bind (slot_loop (\<lambda>d. current_time \<ge> d) (slot_duration (ts_incr ts1)) (ts_next ts1))
                   (\<lambda>n. let ts2 = ts1\<lparr>ts_next := n\<rparr>
                        in Some (if ts_next ts2 > ts_finish ts2
                                 then ts2\<lparr>ts_isValid := False, ts_suiteTimeAtReque := NULL_slot\<rparr>
                                 else ts2)))"

definition compute_next_time_slot :: "calendar \<Rightarrow> time_series \<Rightarrow> time_slot option" where
  "compute_next_time_slot c ts =
     (let current_time = ts_duration c ts
      in if \<not> hasIncrement ts
         then Some (if current_time \<ge> slot_duration (ts_start ts) then NULL_slot else ts_start ts)
         else Option.bind (slot_loop (\<lambda>d. current_time \<ge> d) (slot_duration (ts_incr ts)) (ts_start ts))
                (\<lambda>n. Some (if n > ts_finish ts then NULL_slot else n)))"

definition ts_requeueable :: "calendar \<Rightarrow> time_series \<Rightarrow> bool" where
  "ts_requeueable c ts =
     (let calendar_time = ts_duration c ts
      in if calendar_time < slot_duration (ts_start ts) then True
         else if hasIncrement ts \<and> calendar_time < slot_duration (ts_finish ts) then True
         else False)"

definition match_duration_with_time_series :: "time_series \<Rightarrow> duration \<Rightarrow> bool option" where
  "match_duration_with_time_series ts td =
     (if \<not> hasIncrement ts
      then let start_td = slot_duration (ts_start ts)
           in Some (td_hours td = td_hours start_td \<and> td_minutes td = td_minutes start_td)
      else match_loop (td_hours td) (td_minutes td) (slot_duration (ts_finish ts))
             (slot_duration (ts_incr ts)) (slot_duration (ts_next ts)))"

definition ts_isFree :: "calendar \<Rightarrow> time_series \<Rightarrow> bool option" where
  "ts_isFree c ts =
     (if \<not> ts_isValid ts then Some False
      else match_duration_with_time_series ts (ts_duration c ts))"

definition ts_miss_next_time_slot :: "time_series \<Rightarrow> time_series" where
  "ts_miss_next_time_slot ts =
     (if \<not> hasIncrement ts then ts\<lparr>ts_isValid := False\<rparr>
      else let n = slot_of_duration (slot_duration (ts_next ts) + slot_duration (ts_incr ts));
               ts1 = ts\<lparr>ts_next := n\<rparr>
           in if ts_next ts1 > ts_finish ts1 then ts1\<lparr>ts_isValid := False\<rparr> else ts1)"

text \<open>\<open>checkForRequeue\<close> is a const method that clears the mutable \<open>suiteTimeAtReque_\<close>: it returns
  the answer and the series.\<close>

definition ts_checkForRequeue ::
    "calendar \<Rightarrow> time_slot \<Rightarrow> time_slot \<Rightarrow> bool \<Rightarrow> time_series \<Rightarrow> bool \<times> time_series" where
  "ts_checkForRequeue c the_min the_max cmd_context ts =
     (if \<not> ts_isValid ts then (False, ts)
      else if hasIncrement ts
      then if ts_next ts > ts_finish ts then (False, ts)
           else let day = (if \<not> ts_relative ts \<and> \<not> slot_isNULL (ts_suiteTimeAtReque ts)
                           then let suiteTimeNow = slot_of_duration (time_of_day (the (cal_suiteTime c)))
                                in if suiteTimeNow \<ge> ts_suiteTimeAtReque ts
                                   then Some (ts\<lparr>ts_suiteTimeAtReque := NULL_slot\<rparr>)
                                   else None
                           else Some ts)
                in (case day of
                      None \<Rightarrow> (False, ts)
                    | Some ts1 \<Rightarrow>
                        let calendar_duration = ts_duration c ts1
                        in if cmd_context
                           then (calendar_duration < ts_lastTimeSlot ts1, ts1)
                           else (calendar_duration \<ge> slot_duration (ts_start ts1) \<and>
                                 calendar_duration < ts_lastTimeSlot ts1, ts1))
      else if the_min = the_max then (False, ts)
      else let calendar_duration = ts_duration c ts
           in if cmd_context
              then (calendar_duration < slot_duration the_max, ts)
              else (calendar_duration \<ge> slot_duration the_min \<and>
                    calendar_duration < slot_duration the_max, ts))"

definition min_max_time_slots :: "time_series \<Rightarrow> time_slot \<times> time_slot \<Rightarrow> time_slot \<times> time_slot" where
  "min_max_time_slots ts mm =
     (let (mn, mx) = mm;
          mn1 = (if slot_isNULL mn \<or> ts_start ts < mn then ts_start ts else mn);
          mx1 = (if slot_isNULL mx \<or> ts_start ts > mx then ts_start ts else mx)
      in if hasIncrement ts
         then (if ts_finish ts < mn1 then ts_finish ts else mn1,
               if ts_finish ts > mx1 then ts_finish ts else mx1)
         else (mn1, mx1))"

definition free_slots :: "time_series \<Rightarrow> duration list option" where
  "free_slots ts =
     (if hasIncrement ts
      then Option.bind (free_loop (slot_duration (ts_finish ts)) (slot_duration (ts_incr ts))
                          (slot_duration (ts_start ts)))
             (\<lambda>r. Some (r @ [slot_duration (ts_finish ts)]))
      else Some [slot_duration (ts_start ts)])"

definition ts_structureEquals :: "time_series \<Rightarrow> time_series \<Rightarrow> bool" where
  "ts_structureEquals a b =
     (if ts_relative a \<noteq> ts_relative b then False
      else if ts_start a \<noteq> ts_start b then False
      else if ts_finish a \<noteq> ts_finish b then False
      else if ts_incr a \<noteq> ts_incr b then False else True)"

definition ts_equal :: "time_series \<Rightarrow> time_series \<Rightarrow> bool" where
  "ts_equal a b =
     (if ts_isValid a \<noteq> ts_isValid b then False
      else if ts_next a \<noteq> ts_next b then False
      else if ts_relativeDuration a \<noteq> ts_relativeDuration b then False
      else ts_structureEquals a b)"

text \<open>\<open>checkInvariants\<close>, without its messages.\<close>

definition ts_checkInvariants :: "time_series \<Rightarrow> bool" where
  "ts_checkInvariants ts =
     (if \<not> slot_isNULL (ts_finish ts) \<and> slot_isNULL (ts_incr ts) then False
      else if \<not> slot_isNULL (ts_finish ts) \<and> hour (ts_incr ts) = 0 \<and> minute (ts_incr ts) = 0 then False
      else if \<not> slot_isNULL (ts_finish ts) \<and> slot_duration (ts_start ts) > slot_duration (ts_finish ts) then False
      else if \<not> slot_isNULL (ts_finish ts) \<and>
              ts_lastTimeSlot ts \<le> slot_duration (ts_start ts) \<and>
              ts_lastTimeSlot ts > slot_duration (ts_finish ts) then False
      else if \<not> ts_relative ts \<and> ts_relativeDuration ts > 0 then False
      else True)"

section \<open>Text form\<close>

definition ts_write :: "time_series \<Rightarrow> string" where
  "ts_write ts =
     (if ts_relative ts then ''+'' else []) @ slot_write (ts_start ts) @
     (if \<not> slot_isNULL (ts_finish ts)
      then '' '' @ slot_write (ts_finish ts) @ '' '' @ slot_write (ts_incr ts) else [])"

definition testTime :: "int \<Rightarrow> int \<Rightarrow> unit res" where
  "testTime h m =
     (if h = - 1 \<or> m = - 1 then Inl (Runtime_error ''TimeSeries::testTime: Failed to extract time'')
      else if h < 0 \<or> h > 23 then Inl (Runtime_error ''TimeSeries::testTime: time hour'')
      else if m < 0 \<or> m > 59 then Inl (Runtime_error ''TimeSeries::testTime: time minute'')
      else Inr ())"

definition getTime :: "string \<Rightarrow> bool \<Rightarrow> (bool \<times> int \<times> int) res" where
  "getTime time check_time =
     (case find_first_of_char (CHR '':'') time of
        None \<Rightarrow> Inl (Runtime_error ''TimeSeries::getTime: Invalid time :'')
      | Some colonPos \<Rightarrow>
          let relative = starts_with (CHR ''+'') time;
              theHour = (if relative then take (colonPos - 1) (drop 1 time) else take colonPos time);
              theMin = drop (colonPos + 1) time
          in if check_time \<and> length theHour \<noteq> 2
             then Inl (Runtime_error ''TimeSeries::getTime: Invalid hour :'')
             else if length theMin \<noteq> 2
             then Inl (Runtime_error ''TimeSeries::getTime: Invalid minute :'')
             else res_bind (theInt theHour ''TimeSeries::getTime: hour must be a integer : '') (\<lambda>h.
                  res_bind (theInt theMin ''TimeSeries::getTime: minute must be integer : '') (\<lambda>m.
                  res_bind (if check_time then testTime h m else Inr ()) (\<lambda>_.
                  Inr (relative, h, m)))))"

text \<open>\<open>TimeSeries::create(index, lineTokens)\<close> without reading state; the result carries the index
  the caller sees afterwards. \<open>TimeSlot(h, m)\<close> asserts that neither is negative.\<close>

definition mk_slot :: "int \<Rightarrow> int \<Rightarrow> time_slot res" where
  "mk_slot h m = (if h \<ge> 0 \<and> m \<ge> 0 then Inr (TimeSlot h m) else Inl (Assert_failed ''TimeSlot::TimeSlot''))"

definition ts_create :: "nat \<Rightarrow> string list \<Rightarrow> (time_series \<times> nat) res option" where
  "ts_create index lineTokens =
     (if \<not> index < length lineTokens then Some (Inl (Assert_failed ''TimeSeries::create''))
      else
        let relative = starts_with (CHR ''+'') (lineTokens ! index);
            startStr = (if relative then tl (lineTokens ! index) else lineTokens ! index)
        in case res_bind (getTime startStr True) (\<lambda>(_, h, m). mk_slot h m) of
             Inl e \<Rightarrow> Some (Inl e)
           | Inr start \<Rightarrow>
               let index1 = index + 1
               in if index1 < length lineTokens \<and> \<not> starts_with (CHR ''#'') (lineTokens ! index1)
                  then if index1 + 1 \<ge> length lineTokens
                       then Some (Inl (Runtime_error ''TimeSeries::create: Invalid time series :''))
                       else (case res_bind (getTime (lineTokens ! index1) True) (\<lambda>(_, fh, fm).
                                   res_bind (mk_slot fh fm) (\<lambda>finish.
                                   res_bind (getTime (lineTokens ! (index1 + 1)) True) (\<lambda>(_, ih, im).
                                   res_bind (mk_slot ih im) (\<lambda>incr. Inr (finish, incr))))) of
                               Inl e \<Rightarrow> Some (Inl e)
                             | Inr (finish, incr) \<Rightarrow>
                                 Option.bind (TimeSeries_range start finish incr relative)
                                   (\<lambda>r. Some (res_bind r (\<lambda>t. Inr (t, index1 + 1)))))
                  else Some (res_bind (TimeSeries_single start relative) (\<lambda>t. Inr (t, index1))))"

text \<open>\<open>TimeSeries::create(str)\<close>: the line is split at blanks and tabs.\<close>

definition ts_create_str :: "string \<Rightarrow> time_series res option" where
  "ts_create_str str =
     Option.bind (ts_create 0 (split str [CHR '' '', CHR 0x09])) (\<lambda>r. Some (res_bind r (\<lambda>(t, _). Inr t)))"

section \<open>The loops return\<close>

lemma ex_nat_Suc_iff: "(\<exists>k::nat. P k) \<longleftrightarrow> P 0 \<or> (\<exists>k. P (Suc k))"
  by (metis not0_implies_Suc)

lemma slot_loop_returns:
  assumes "0 < i" "i mod 60 = 0" and "\<And>d. guard d \<Longrightarrow> d \<le> B"
    and "0 \<le> d0" "d0 mod 60 = 0"
  shows "\<exists>k. slot_loop guard i (slot_of_duration d0) = Some (slot_of_duration (d0 + int k * i)) \<and>
           \<not> guard (d0 + int k * i) \<and> (\<forall>j < k. guard (d0 + int j * i))"
  using assms(4,5)
proof (induction "nat (B + 1 - d0)" arbitrary: d0 rule: less_induct)
  case less
  have dur: "slot_duration (slot_of_duration d0) = d0"
    using less.prems by (rule slot_of_duration_duration)
  show ?case
  proof (cases "guard d0")
    case False
    with dur show ?thesis
      by (intro exI [of _ 0]) (simp add: slot_loop.simps [of guard i "slot_of_duration d0"])
  next
    case True
    with assms have "d0 \<le> B" by simp
    with assms(1) have "nat (B + 1 - (d0 + i)) < nat (B + 1 - d0)" by simp
    moreover have "0 \<le> d0 + i" "(d0 + i) mod 60 = 0" using assms less.prems by (auto simp: mod_add_eq [symmetric])
    ultimately obtain k where k: "slot_loop guard i (slot_of_duration (d0 + i)) =
        Some (slot_of_duration (d0 + i + int k * i))" "\<not> guard (d0 + i + int k * i)"
        "\<forall>j < k. guard (d0 + i + int j * i)" using less.hyps [of "d0 + i"] by auto
    have shift: "d0 + i + int j * i = d0 + int (Suc j) * i" for j by (simp add: algebra_simps)
    have "\<forall>j < Suc k. guard (d0 + int j * i)"
      unfolding All_less_Suc2 using k(3) True by (simp only: shift) simp
    moreover have "slot_loop guard i (slot_of_duration d0) = slot_loop guard i (slot_of_duration (d0 + i))"
      using True dur by (simp add: slot_loop.simps [of guard i "slot_of_duration d0"])
    ultimately show ?thesis
      using k(1,2) [unfolded shift] by (intro exI [of _ "Suc k"]) (simp del: of_nat_Suc)
  qed
qed

lemma last_loop_returns:
  assumes "0 < i"
  shows "\<exists>k. last_loop fin i l = Some (l + int k * i) \<and> fin < l + int k * i \<and>
           (\<forall>j < k. l + int j * i \<le> fin)"
proof (induction "nat (fin + 1 - l)" arbitrary: l rule: less_induct)
  case less
  show ?case
  proof (cases "l \<le> fin")
    case False
    then show ?thesis by (intro exI [of _ 0]) (simp add: last_loop.simps [of fin i l])
  next
    case True
    with assms have "nat (fin + 1 - (l + i)) < nat (fin + 1 - l)" by simp
    then obtain k where k: "last_loop fin i (l + i) = Some (l + i + int k * i)" "fin < l + i + int k * i"
        "\<forall>j < k. l + i + int j * i \<le> fin" using less.hyps [of "l + i"] by auto
    have shift: "l + i + int j * i = l + int (Suc j) * i" for j by (simp add: algebra_simps)
    have "\<forall>j < Suc k. l + int j * i \<le> fin"
      unfolding All_less_Suc2 using k(3) True by (simp only: shift) simp
    moreover have "last_loop fin i l = last_loop fin i (l + i)"
      using True by (simp add: last_loop.simps [of fin i l])
    ultimately show ?thesis
      using k(1,2) [unfolded shift] by (intro exI [of _ "Suc k"]) (simp del: of_nat_Suc)
  qed
qed

lemma last_loop_eq:
  assumes "0 < i" "l \<le> fin"
  shows "last_loop fin i l = Some (l + ((fin - l) div i) * i + i)"
proof -
  obtain k where k: "last_loop fin i l = Some (l + int k * i)" "fin < l + int k * i"
    "\<forall>j < k. l + int j * i \<le> fin" using last_loop_returns [OF assms(1)] by blast
  with assms(2) obtain j where j: "k = Suc j" by (cases k) auto
  with k(3) have "l + int j * i \<le> fin" by simp
  with k(2) j assms(1) have "(fin - l) div i = int j"
    by (intro div_interval_unique) (simp_all add: algebra_simps)
  with k(1) j show ?thesis by (simp add: algebra_simps)
qed

lemma match_loop_eq:
  assumes "0 < i" "0 \<le> td"
  shows "match_loop h m fin i td =
    Some (\<exists>k. td + int k * i \<le> fin \<and> h = td_hours (td + int k * i) \<and> m = td_minutes (td + int k * i))"
  using assms(2)
proof (induction "nat (fin + 1 - td)" arbitrary: td rule: less_induct)
  case less
  have shift: "td + i + int j * i = td + int (Suc j) * i" for j by (simp add: algebra_simps)
  show ?case
  proof (cases "td \<le> fin")
    case False
    moreover have "td \<le> td + int k * i" for k using assms(1) by simp
    ultimately have "\<not> td + int k * i \<le> fin" for k using order_trans by blast
    with False show ?thesis by (simp add: match_loop.simps [of h m fin i td])
  next
    case True
    show ?thesis
    proof (cases "h = td_hours td \<and> m = td_minutes td")
      case hit: True
      then have "\<exists>k. td + int k * i \<le> fin \<and> h = td_hours (td + int k * i) \<and> m = td_minutes (td + int k * i)"
        using True by (intro exI [of _ 0]) simp
      moreover from True hit have "match_loop h m fin i td = Some True"
        by (subst match_loop.simps) simp
      ultimately show ?thesis by simp
    next
      case miss: False
      from True assms(1) have "nat (fin + 1 - (td + i)) < nat (fin + 1 - td)" "0 \<le> td + i"
        using less.prems by simp_all
      then have "match_loop h m fin i (td + i) = Some (\<exists>k. td + int (Suc k) * i \<le> fin \<and>
          h = td_hours (td + int (Suc k) * i) \<and> m = td_minutes (td + int (Suc k) * i))"
        using less.hyps [of "td + i"] by (simp only: shift)
      moreover have "(\<exists>k. td + int k * i \<le> fin \<and> h = td_hours (td + int k * i) \<and> m = td_minutes (td + int k * i))
         \<longleftrightarrow> (\<exists>k. td + int (Suc k) * i \<le> fin \<and> h = td_hours (td + int (Suc k) * i) \<and>
              m = td_minutes (td + int (Suc k) * i))"
        using miss by (subst ex_nat_Suc_iff) (simp del: of_nat_Suc, blast)
      moreover from True miss have "match_loop h m fin i td = match_loop h m fin i (td + i)"
        by (subst match_loop.simps) auto
      ultimately show ?thesis by simp
    qed
  qed
qed

section \<open>The invariant\<close>

definition ts_slot_at :: "time_series \<Rightarrow> nat \<Rightarrow> duration" where
  "ts_slot_at ts k = slot_duration (ts_start ts) + int k * slot_duration (ts_incr ts)"

definition ts_inv :: "time_series \<Rightarrow> bool" where
  "ts_inv ts \<longleftrightarrow>
     slot_ok (ts_start ts) \<and> hour (ts_start ts) < 24 \<and>
     0 \<le> ts_relativeDuration ts \<and> (\<not> ts_relative ts \<longrightarrow> ts_relativeDuration ts = 0) \<and>
     (if hasIncrement ts
      then slot_ok (ts_finish ts) \<and> hour (ts_finish ts) < 24 \<and> slot_ok (ts_incr ts) \<and>
           0 < slot_duration (ts_incr ts) \<and>
           slot_duration (ts_incr ts) \<le> slot_duration (ts_finish ts) - slot_duration (ts_start ts) \<and>
           ts_lastTimeSlot ts = slot_duration (ts_start ts) +
             ((slot_duration (ts_finish ts) - slot_duration (ts_start ts)) div slot_duration (ts_incr ts))
               * slot_duration (ts_incr ts) \<and>
           (\<exists>k. ts_next ts = slot_of_duration (ts_slot_at ts k))
      else ts_next ts = ts_start ts \<and> ts_incr ts = NULL_slot)"

lemma testTimeSlot_ok: "testTimeSlot s = Inr u \<longleftrightarrow> slot_ok s \<and> hour s < 24"
  by (auto simp: testTimeSlot_def slot_ok_def)

lemma testTimeSlot_cases: "(\<exists>e. testTimeSlot s = Inl e) \<or> testTimeSlot s = Inr ()"
  by (simp add: testTimeSlot_def)

lemma TimeSeries_single_inv: "TimeSeries_single t rel = Inr ts \<Longrightarrow> ts_inv ts"
  by (auto simp: TimeSeries_single_def ts_inv_def hasIncrement_def testTimeSlot_ok
      slot_isNULL_iff NULL_slot_def split: if_splits)

lemma slot_duration_pos:
  "slot_ok s \<Longrightarrow> \<not> (hour s = 0 \<and> minute s = 0) \<Longrightarrow> 0 < slot_duration s"
  by (auto simp: slot_ok_def slot_duration_def)

text \<open>The increment of a series whose parameters pass the checks of the constructor.\<close>

definition range_ok :: "time_slot \<Rightarrow> time_slot \<Rightarrow> time_slot \<Rightarrow> bool" where
  "range_ok start finish incr \<longleftrightarrow>
     slot_ok start \<and> hour start < 24 \<and> slot_ok finish \<and> hour finish < 24 \<and>
     slot_ok incr \<and> hour incr < 24 \<and> incr \<noteq> TimeSlot 0 0 \<and>
     slot_duration start \<le> slot_duration finish \<and>
     slot_duration incr \<le> slot_duration finish - slot_duration start"

lemma TimeSeries_range_ok:
  assumes "range_ok start finish incr"
  shows "\<exists>ts. TimeSeries_range start finish incr rel = Some (Inr ts) \<and> ts_inv ts \<and>
           ts_start ts = start \<and> ts_finish ts = finish \<and> ts_incr ts = incr \<and> ts_next ts = start \<and>
           ts_isValid ts \<and> ts_relative ts = rel \<and> ts_relativeDuration ts = 0 \<and>
           ts_suiteTimeAtReque ts = NULL_slot"
proof -
  from assms have pos: "0 < slot_duration incr"
    by (intro slot_duration_pos) (auto simp: range_ok_def intro: time_slot.expand)
  from assms have nn: "\<not> slot_isNULL finish" "\<not> slot_isNULL incr" by (auto simp: range_ok_def)
  have z: "\<not> (hour incr = 0 \<and> minute incr = 0)"
    using assms by (auto simp: range_ok_def intro: time_slot.expand)
  have tests: "testTimeSlot start = Inr ()" "testTimeSlot finish = Inr ()" "testTimeSlot incr = Inr ()"
    using assms by (auto simp: range_ok_def testTimeSlot_ok)
  from assms have le: "slot_duration start \<le> slot_duration finish"
    "slot_duration incr \<le> slot_duration finish - slot_duration start" "slot_ok start"
    by (auto simp: range_ok_def)
  let ?ts = "\<lparr>ts_start = start, ts_finish = finish, ts_incr = incr, ts_next = start,
      ts_suiteTimeAtReque = NULL_slot, ts_relativeDuration = 0,
      ts_lastTimeSlot = slot_duration start +
        ((slot_duration finish - slot_duration start) div slot_duration incr) * slot_duration incr,
      ts_relative = rel, ts_isValid = True\<rparr>"
  have mk: "TimeSeries_range start finish incr rel = Some (Inr ?ts)"
    using tests nn z le last_loop_eq [OF pos le(1)]
    by (simp add: TimeSeries_range_def compute_last_time_slot_def Let_def)
  have "ts_next ?ts = slot_of_duration (ts_slot_at ?ts 0)"
    using le(3) by (simp add: ts_slot_at_def slot_of_duration_of)
  then have "ts_inv ?ts"
    using assms nn(1) pos unfolding ts_inv_def hasIncrement_def range_ok_def by (auto simp del: One_nat_def)
  with mk show ?thesis by auto
qed

lemma TimeSeries_range_bad:
  assumes "\<not> range_ok start finish incr"
  shows "\<exists>e. TimeSeries_range start finish incr rel = Some (Inl e)"
proof (cases "slot_ok start \<and> hour start < 24 \<and> slot_ok finish \<and> hour finish < 24 \<and>
    slot_ok incr \<and> hour incr < 24")
  case True
  then have "testTimeSlot start = Inr ()" "testTimeSlot finish = Inr ()" "testTimeSlot incr = Inr ()"
    by (simp_all add: testTimeSlot_ok)
  moreover from True assms have "\<not> (incr \<noteq> TimeSlot 0 0 \<and> slot_duration start \<le> slot_duration finish \<and>
      slot_duration incr \<le> slot_duration finish - slot_duration start)"
    by (simp add: range_ok_def)
  ultimately show ?thesis by (auto simp: TimeSeries_range_def Let_def res_check_def)
next
  case False
  then consider e where "testTimeSlot start = Inl e"
    | e where "testTimeSlot start = Inr ()" "testTimeSlot finish = Inl e"
    | e where "testTimeSlot start = Inr ()" "testTimeSlot finish = Inr ()" "testTimeSlot incr = Inl e"
    using testTimeSlot_cases testTimeSlot_ok by metis
  then show ?thesis by cases (simp_all add: TimeSeries_range_def Let_def)
qed

section \<open>Every operation returns and keeps the invariant\<close>

lemma ts_frame [simp]:
  "hasIncrement (ts\<lparr>ts_isValid := b\<rparr>) = hasIncrement ts"
  "hasIncrement (ts\<lparr>ts_next := n\<rparr>) = hasIncrement ts"
  "hasIncrement (ts\<lparr>ts_suiteTimeAtReque := n\<rparr>) = hasIncrement ts"
  "hasIncrement (ts\<lparr>ts_relativeDuration := r\<rparr>) = hasIncrement ts"
  "ts_slot_at (ts\<lparr>ts_isValid := b\<rparr>) k = ts_slot_at ts k"
  "ts_slot_at (ts\<lparr>ts_next := n\<rparr>) k = ts_slot_at ts k"
  "ts_slot_at (ts\<lparr>ts_suiteTimeAtReque := n\<rparr>) k = ts_slot_at ts k"
  "ts_slot_at (ts\<lparr>ts_relativeDuration := r\<rparr>) k = ts_slot_at ts k"
  by (simp_all add: hasIncrement_def ts_slot_at_def)

lemma ts_slot_at_facts:
  assumes "ts_inv ts" "hasIncrement ts"
  shows "0 \<le> ts_slot_at ts k" "ts_slot_at ts k mod 60 = 0"
    "slot_duration (slot_of_duration (ts_slot_at ts k)) = ts_slot_at ts k"
    "slot_ok (slot_of_duration (ts_slot_at ts k))"
    "slot_of_duration (ts_slot_at ts k) > ts_finish ts \<longleftrightarrow> ts_slot_at ts k > slot_duration (ts_finish ts)"
proof -
  from assms have ok: "slot_ok (ts_start ts)" "slot_ok (ts_incr ts)" "slot_ok (ts_finish ts)"
    by (auto simp: ts_inv_def)
  then show nn: "0 \<le> ts_slot_at ts k" using slot_duration_nonneg by (simp add: ts_slot_at_def)
  have "int k * slot_duration (ts_incr ts) mod 60 = 0"
    by (metis mod_mult_right_eq mult_zero_right mod_0 slot_duration_minutes)
  then show m: "ts_slot_at ts k mod 60 = 0"
    unfolding ts_slot_at_def by (metis add_0 mod_0 mod_add_eq slot_duration_minutes)
  from nn m show d: "slot_duration (slot_of_duration (ts_slot_at ts k)) = ts_slot_at ts k"
    by (rule slot_of_duration_duration)
  from nn show o: "slot_ok (slot_of_duration (ts_slot_at ts k))" by (rule slot_of_duration_ok)
  show "slot_of_duration (ts_slot_at ts k) > ts_finish ts \<longleftrightarrow> ts_slot_at ts k > slot_duration (ts_finish ts)"
    using slot_less_iff_duration [OF ok(3) o] d by simp
qed

lemma ts_slot_loop:
  assumes "ts_inv ts" "hasIncrement ts" "ts_next ts = slot_of_duration (ts_slot_at ts k0)"
    and "\<And>d. guard d \<Longrightarrow> d \<le> B"
  shows "\<exists>k \<ge> k0. slot_loop guard (slot_duration (ts_incr ts)) (ts_next ts) =
           Some (slot_of_duration (ts_slot_at ts k)) \<and> \<not> guard (ts_slot_at ts k) \<and>
           (\<forall>j. k0 \<le> j \<and> j < k \<longrightarrow> guard (ts_slot_at ts j))"
proof -
  have pos: "0 < slot_duration (ts_incr ts)" using assms(1,2) by (simp add: ts_inv_def)
  have shift: "ts_slot_at ts k0 + int j * slot_duration (ts_incr ts) = ts_slot_at ts (k0 + j)" for j
    by (simp add: ts_slot_at_def algebra_simps)
  obtain k where "slot_loop guard (slot_duration (ts_incr ts)) (slot_of_duration (ts_slot_at ts k0)) =
      Some (slot_of_duration (ts_slot_at ts (k0 + k)))" "\<not> guard (ts_slot_at ts (k0 + k))"
      "\<forall>j < k. guard (ts_slot_at ts (k0 + j))"
    using slot_loop_returns [OF pos slot_duration_minutes assms(4)
        ts_slot_at_facts(1) [OF assms(1,2), of k0] ts_slot_at_facts(2) [OF assms(1,2), of k0]]
    unfolding shift by blast
  then show ?thesis
    using assms(3) by (intro exI [of _ "k0 + k"])
      (auto simp del: add_less_cancel_left, metis add_diff_inverse_nat add_less_cancel_left linorder_not_less)
qed

text \<open>Updates that leave the series itself alone keep the invariant.\<close>

lemma ts_inv_updates:
  assumes "ts_inv ts"
  shows "ts_inv (ts\<lparr>ts_isValid := b\<rparr>)" "ts_inv (ts\<lparr>ts_suiteTimeAtReque := s\<rparr>)"
    "ts_inv (ts\<lparr>ts_next := ts_start ts\<rparr>)" "ts_inv (ts\<lparr>ts_isValid := b, ts_next := ts_start ts\<rparr>)"
    "0 \<le> r \<Longrightarrow> ts_relative ts \<Longrightarrow> ts_inv (ts\<lparr>ts_relativeDuration := r\<rparr>)"
    "hasIncrement ts \<Longrightarrow> ts_inv (ts\<lparr>ts_next := slot_of_duration (ts_slot_at ts k)\<rparr>)"
proof -
  have start: "ts_start ts = slot_of_duration (ts_slot_at ts 0)"
    using assms by (simp add: ts_inv_def ts_slot_at_def slot_of_duration_of)
  show "ts_inv (ts\<lparr>ts_isValid := b\<rparr>)" "ts_inv (ts\<lparr>ts_suiteTimeAtReque := s\<rparr>)"
    "0 \<le> r \<Longrightarrow> ts_relative ts \<Longrightarrow> ts_inv (ts\<lparr>ts_relativeDuration := r\<rparr>)"
    using assms by (simp_all add: ts_inv_def)
  show "ts_inv (ts\<lparr>ts_next := ts_start ts\<rparr>)" "ts_inv (ts\<lparr>ts_isValid := b, ts_next := ts_start ts\<rparr>)"
    using assms start by (auto simp: ts_inv_def)
  show "hasIncrement ts \<Longrightarrow> ts_inv (ts\<lparr>ts_next := slot_of_duration (ts_slot_at ts k)\<rparr>)"
    using assms by (auto simp: ts_inv_def)
qed

lemma ts_reset_only_inv: "ts_inv ts \<Longrightarrow> ts_inv (ts_reset_only ts)"
  using ts_inv_updates(4) [of ts True] ts_inv_updates(5) [of "ts\<lparr>ts_isValid := True, ts_next := ts_start ts\<rparr>" 0]
  by (simp add: ts_reset_only_def ts_resetRelativeDuration_def)

lemma ts_reset_only_fields [simp]:
  "ts_start (ts_reset_only ts) = ts_start ts" "ts_finish (ts_reset_only ts) = ts_finish ts"
  "ts_incr (ts_reset_only ts) = ts_incr ts" "ts_next (ts_reset_only ts) = ts_start ts"
  "ts_isValid (ts_reset_only ts)" "ts_relative (ts_reset_only ts) = ts_relative ts"
  "hasIncrement (ts_reset_only ts) = hasIncrement ts" "ts_slot_at (ts_reset_only ts) = ts_slot_at ts"
  by (auto simp: ts_reset_only_def ts_resetRelativeDuration_def hasIncrement_def ts_slot_at_def fun_eq_iff)

lemma ts_calendarChanged_inv:
  "ts_inv ts \<Longrightarrow> 0 \<le> cal_increment c \<Longrightarrow> ts_inv (snd (ts_calendarChanged c ts))"
  by (simp add: ts_calendarChanged_def ts_inv_updates(4))
    (metis add_nonneg_nonneg ts_inv_def ts_inv_updates(5))

lemma ts_miss_next_time_slot_inv:
  assumes "ts_inv ts"
  shows "ts_inv (ts_miss_next_time_slot ts)"
proof (cases "hasIncrement ts")
  case True
  with assms obtain k where k: "ts_next ts = slot_of_duration (ts_slot_at ts k)" by (auto simp: ts_inv_def)
  have "slot_of_duration (slot_duration (ts_next ts) + slot_duration (ts_incr ts)) =
      slot_of_duration (ts_slot_at ts (Suc k))"
    using ts_slot_at_facts(3) [OF assms True, of k] k by (simp add: ts_slot_at_def algebra_simps)
  with True ts_inv_updates(6) [OF assms True, of "Suc k"] show ?thesis
    by (simp add: ts_miss_next_time_slot_def Let_def ts_inv_updates(1))
qed (simp add: ts_miss_next_time_slot_def assms ts_inv_updates(1))

lemma ts_checkForRequeue_inv: "ts_inv ts \<Longrightarrow> ts_inv (snd (ts_checkForRequeue c mn mx cmd ts))"
  by (simp add: ts_checkForRequeue_def Let_def ts_inv_updates(2))

text \<open>What \<open>requeue\<close> and \<open>reset\<close> leave behind, with the guard of the loop as a parameter
  (\<open>current >= slot\<close> for \<open>requeue\<close>, \<open>current > slot\<close> for \<open>reset\<close>).\<close>

lemma ts_requeue_spec:
  fixes rst :: bool
  assumes "ts_inv ts"
  defines "ts0 \<equiv> (if rst then ts\<lparr>ts_isValid := True, ts_next := ts_start ts\<rparr> else ts)"
  shows "\<exists>ts'. ts_requeue c rst ts = Some ts' \<and> ts_inv ts' \<and>
    ts_start ts' = ts_start ts \<and> ts_finish ts' = ts_finish ts \<and> ts_incr ts' = ts_incr ts \<and>
    ts_relative ts' = ts_relative ts \<and> ts_relativeDuration ts' = ts_relativeDuration ts \<and>
    (if hasIncrement ts
     then \<forall>k0. ts_next ts0 = slot_of_duration (ts_slot_at ts k0) \<longrightarrow>
            (\<exists>k \<ge> k0. ts_next ts' = slot_of_duration (ts_slot_at ts k) \<and> ts_duration c ts < ts_slot_at ts k \<and>
               (\<forall>j. k0 \<le> j \<and> j < k \<longrightarrow> ts_slot_at ts j \<le> ts_duration c ts) \<and>
               (ts_isValid ts' \<longleftrightarrow> ts_isValid ts0 \<and> ts_slot_at ts k \<le> slot_duration (ts_finish ts)))
     else ts_next ts' = ts_start ts \<and>
          (ts_isValid ts' \<longleftrightarrow> ts_isValid ts0 \<and> ts_duration c ts < slot_duration (ts_start ts)))"
proof -
  have inv0: "ts_inv ts0" using assms(1) by (simp add: ts0_def ts_inv_updates(4))
  have same: "ts_start ts0 = ts_start ts" "ts_finish ts0 = ts_finish ts" "ts_incr ts0 = ts_incr ts"
    "ts_relative ts0 = ts_relative ts" "ts_relativeDuration ts0 = ts_relativeDuration ts"
    "ts_duration c ts0 = ts_duration c ts" "hasIncrement ts0 = hasIncrement ts"
    "ts_slot_at ts0 = ts_slot_at ts"
    by (simp_all add: ts0_def ts_duration_def hasIncrement_def ts_slot_at_def fun_eq_iff)
  show ?thesis
  proof (cases "hasIncrement ts")
    case False
    with inv0 same have "ts_next ts0 = ts_start ts" by (simp add: ts_inv_def)
    with False inv0 same show ?thesis
      by (auto simp: ts_requeue_def Let_def ts0_def [symmetric] ts_inv_updates(1))
  next
    case True
    define ts1 where "ts1 = (if \<not> ts_relative ts0
        then ts0\<lparr>ts_suiteTimeAtReque := slot_of_duration (time_of_day (the (cal_suiteTime c)))\<rparr> else ts0)"
    have inv1: "ts_inv ts1" using inv0 by (simp add: ts1_def ts_inv_updates(2))
    have same1: "ts_next ts1 = ts_next ts0" "ts_start ts1 = ts_start ts" "ts_finish ts1 = ts_finish ts"
      "ts_incr ts1 = ts_incr ts" "ts_relative ts1 = ts_relative ts" "hasIncrement ts1 = hasIncrement ts"
      "ts_relativeDuration ts1 = ts_relativeDuration ts" "ts_slot_at ts1 = ts_slot_at ts"
      "ts_isValid ts1 = ts_isValid ts0"
      by (simp_all add: ts1_def same hasIncrement_def ts_slot_at_def fun_eq_iff)
    from inv1 same1 True obtain k0 where k0: "ts_next ts1 = slot_of_duration (ts_slot_at ts1 k0)"
      by (auto simp: ts_inv_def)
    from ts_slot_loop [OF inv1 _ k0, of "\<lambda>d. d \<le> ts_duration c ts" "ts_duration c ts"] True same1
    obtain k where k: "k0 \<le> k" "slot_loop (\<lambda>d. d \<le> ts_duration c ts) (slot_duration (ts_incr ts1)) (ts_next ts1)
        = Some (slot_of_duration (ts_slot_at ts k))" "ts_duration c ts < ts_slot_at ts k"
        "\<forall>j. k0 \<le> j \<and> j < k \<longrightarrow> ts_slot_at ts j \<le> ts_duration c ts" by auto
    define ts2 where "ts2 = ts1\<lparr>ts_next := slot_of_duration (ts_slot_at ts k)\<rparr>"
    have inv2: "ts_inv ts2" using ts_inv_updates(6) [OF inv1, of k] same1 True by (simp add: ts2_def)
    have gt: "ts_next ts2 > ts_finish ts2 \<longleftrightarrow> ts_slot_at ts k > slot_duration (ts_finish ts)"
      using ts_slot_at_facts(5) [OF assms(1) True] by (simp add: ts2_def same1)
    have r: "ts_requeue c rst ts = Some (if ts_next ts2 > ts_finish ts2
        then ts2\<lparr>ts_isValid := False, ts_suiteTimeAtReque := NULL_slot\<rparr> else ts2)"
      using True k(2) [unfolded same1(1,4)] same
      by (cases "ts_relative ts") (simp_all add: ts_requeue_def Let_def ts0_def [symmetric] ts2_def ts1_def)
    have uniq: "ts_slot_at ts k0' = ts_slot_at ts k0 \<Longrightarrow> k0' = k0" for k0'
      using inv1 True same1 by (simp add: ts_slot_at_def ts_inv_def)
    have "ts_next ts0 = slot_of_duration (ts_slot_at ts k0') \<Longrightarrow> k0' = k0" for k0'
      using k0 same1 ts_slot_at_facts(3) [OF assms(1) True] uniq by metis
    with r gt inv2 k same1 True show ?thesis
      by (auto simp: ts2_def ts_inv_updates)
  qed
qed

lemma ts_reset_inv:
  assumes "ts_inv ts"
  shows "\<exists>ts'. ts_reset c ts = Some ts' \<and> ts_inv ts' \<and> ts_start ts' = ts_start ts \<and>
    ts_finish ts' = ts_finish ts \<and> ts_incr ts' = ts_incr ts \<and> ts_relative ts' = ts_relative ts"
proof (cases "hasIncrement ts")
  case False
  with ts_reset_only_inv [OF assms] show ?thesis
    by (auto simp: ts_reset_def Let_def ts_inv_updates(1))
next
  case True
  define ts1 where "ts1 = (if \<not> ts_relative ts
      then (ts_reset_only ts)\<lparr>ts_suiteTimeAtReque := slot_of_duration (time_of_day (the (cal_suiteTime c)))\<rparr>
      else ts_reset_only ts)"
  have inv1: "ts_inv ts1" using ts_reset_only_inv [OF assms] by (simp add: ts1_def ts_inv_updates(2))
  have inc1: "hasIncrement ts1" using True by (simp add: ts1_def)
  then obtain k0 where k0: "ts_next ts1 = slot_of_duration (ts_slot_at ts1 k0)"
    using inv1 by (auto simp: ts_inv_def)
  let ?t = "ts_duration c (ts_reset_only ts)"
  from ts_slot_loop [OF inv1 inc1 k0, of "\<lambda>d. d < ?t" ?t] obtain k where
    k: "slot_loop (\<lambda>d. d < ?t) (slot_duration (ts_incr ts1)) (ts_next ts1)
        = Some (slot_of_duration (ts_slot_at ts1 k))" by auto
  have "ts_inv (ts1\<lparr>ts_next := slot_of_duration (ts_slot_at ts1 k)\<rparr>)"
    using ts_inv_updates(6) [OF inv1 inc1] .
  moreover have "ts_start ts1 = ts_start ts" "ts_finish ts1 = ts_finish ts" "ts_incr ts1 = ts_incr ts"
    "ts_relative ts1 = ts_relative ts" by (simp_all add: ts1_def)
  moreover have "ts_reset c ts = (let ts2 = ts1\<lparr>ts_next := slot_of_duration (ts_slot_at ts1 k)\<rparr>
      in Some (if ts_next ts2 > ts_finish ts2 then ts2\<lparr>ts_isValid := False\<rparr> else ts2))"
    using True k by (cases "ts_relative ts") (simp_all add: ts_reset_def Let_def ts1_def)
  ultimately show ?thesis by (auto simp: Let_def ts_inv_updates(1))
qed

section \<open>When a series is free\<close>

text \<open>The times of day (or relative times) a series stands for.\<close>

definition ts_slots :: "time_series \<Rightarrow> duration set" where
  "ts_slots ts =
     (if hasIncrement ts then {d. \<exists>k. d = ts_slot_at ts k \<and> d \<le> slot_duration (ts_finish ts)}
      else {slot_duration (ts_start ts)})"

definition cal_ok :: "calendar \<Rightarrow> bool" where
  "cal_ok c \<longleftrightarrow> cal_suiteTime c \<noteq> None \<and> 0 \<le> cal_increment c"

lemma ts_duration_facts:
  assumes "ts_inv ts"
  shows "0 \<le> ts_duration c ts" "ts_duration c ts mod 60 = 0"
  using assms time_of_day_range(1)
  by (simp_all add: ts_duration_def ts_inv_def td_floor_minute_nonneg pos_imp_zdiv_nonneg_iff)

lemma match_minutes:
  fixes a b :: duration
  assumes "0 \<le> a" "a mod 60 = 0" "0 \<le> b" "b mod 60 = 0"
  shows "(td_hours a = td_hours b \<and> td_minutes a = td_minutes b) \<longleftrightarrow> a = b"
  using hours_minutes_match [OF assms(1,3)] assms(2,4) by (metis mult_div_mod_eq)

lemma ts_isFree_eq:
  assumes "ts_inv ts"
  shows "ts_isFree c ts =
    Some (ts_isValid ts \<and> ts_duration c ts \<in> ts_slots ts \<and> slot_duration (ts_next ts) \<le> ts_duration c ts)"
proof (cases "hasIncrement ts")
  case False
  note f = ts_duration_facts [OF assms, of c]
  from assms have "slot_ok (ts_start ts)" "ts_next ts = ts_start ts" using False by (auto simp: ts_inv_def)
  with False match_minutes [OF f slot_duration_nonneg slot_duration_minutes, of "ts_start ts"] show ?thesis
    by (auto simp: ts_isFree_def match_duration_with_time_series_def Let_def ts_slots_def)
next
  case True
  with assms obtain k0 where k0: "ts_next ts = slot_of_duration (ts_slot_at ts k0)" by (auto simp: ts_inv_def)
  note f = ts_slot_at_facts [OF assms True]
  have pos: "0 < slot_duration (ts_incr ts)" using assms True by (simp add: ts_inv_def)
  have shift: "ts_slot_at ts k0 + int j * slot_duration (ts_incr ts) = ts_slot_at ts (k0 + j)" for j
    by (simp add: ts_slot_at_def algebra_simps)
  have mono: "ts_slot_at ts k0 \<le> ts_slot_at ts k \<longleftrightarrow> k0 \<le> k" for k
    using pos by (simp add: ts_slot_at_def)
  let ?d = "ts_duration c ts"
  have "match_duration_with_time_series ts ?d = Some (\<exists>j. ts_slot_at ts (k0 + j) \<le> slot_duration (ts_finish ts)
      \<and> td_hours ?d = td_hours (ts_slot_at ts (k0 + j)) \<and> td_minutes ?d = td_minutes (ts_slot_at ts (k0 + j)))"
    using match_loop_eq [OF pos f(1), of "td_hours ?d" "td_minutes ?d" "slot_duration (ts_finish ts)" k0]
      True k0 f(3) [of k0]
    by (simp only: match_duration_with_time_series_def shift not_True_eq_False if_False)
  also have "\<dots> = Some (\<exists>j. ts_slot_at ts (k0 + j) \<le> slot_duration (ts_finish ts) \<and> ?d = ts_slot_at ts (k0 + j))"
    using match_minutes [OF ts_duration_facts [OF assms] f(1,2)] by simp
  also have "\<dots> = Some (?d \<in> ts_slots ts \<and> slot_duration (ts_next ts) \<le> ?d)"
    using True k0 f(3) [of k0] mono by (auto simp: ts_slots_def) (metis le_Suc_ex mono)
  finally show ?thesis by (simp add: ts_isFree_def)
qed

lemma slot_at_less_iff:
  assumes "ts_inv ts" "hasIncrement ts"
  shows "ts_slot_at ts j < ts_slot_at ts k \<longleftrightarrow> j < k"
  using assms by (simp add: ts_slot_at_def ts_inv_def)

text \<open>The slots of a series at or after the next one, when the current time lies just before it.\<close>

lemma slots_from_next:
  assumes "ts_inv ts" "hasIncrement ts" "t < ts_slot_at ts k" "\<forall>j < k. ts_slot_at ts j \<le> t"
  shows "t < ts_slot_at ts j \<longleftrightarrow> ts_slot_at ts k \<le> ts_slot_at ts j"
  using assms(3,4) slot_at_less_iff [OF assms(1,2), of j k] by (metis leD leI order_less_le_trans)

lemma ts_last_slot:
  assumes "ts_inv ts" "hasIncrement ts"
  shows "\<exists>m. ts_lastTimeSlot ts = ts_slot_at ts m \<and> (\<forall>k. ts_slot_at ts k \<le> slot_duration (ts_finish ts) \<longleftrightarrow> k \<le> m)"
proof -
  let ?i = "slot_duration (ts_incr ts)" and ?s = "slot_duration (ts_start ts)" and ?f = "slot_duration (ts_finish ts)"
  have i: "0 < ?i" "?i \<le> ?f - ?s" and l: "ts_lastTimeSlot ts = ?s + ((?f - ?s) div ?i) * ?i"
    using assms by (simp_all add: ts_inv_def)
  have q: "0 \<le> (?f - ?s) div ?i" using i by (simp add: pos_imp_zdiv_nonneg_iff)
  have "ts_slot_at ts k \<le> ?f \<longleftrightarrow> k \<le> nat ((?f - ?s) div ?i)" for k
  proof -
    have "ts_slot_at ts k \<le> ?f \<longleftrightarrow> int k * ?i \<le> ?f - ?s" by (auto simp: ts_slot_at_def)
    also have "\<dots> \<longleftrightarrow> int k \<le> (?f - ?s) div ?i" using i(1) by (simp add: le_div_iff_mult_le)
    finally show ?thesis using q by linarith
  qed
  with l q show ?thesis by (intro exI [of _ "nat ((?f - ?s) div ?i)"]) (simp add: ts_slot_at_def)
qed

lemma ts_isFree_after:
  assumes "ts_inv ts" "0 \<le> r" "\<not> ts_relative ts \<longrightarrow> r = 0"
  defines "u \<equiv> ts\<lparr>ts_relativeDuration := r\<rparr>"
  shows "ts_isFree c u = Some (ts_isValid ts \<and> ts_duration c u \<in> ts_slots ts \<and>
           slot_duration (ts_next ts) \<le> ts_duration c u)"
proof -
  have "ts_inv u"
    using assms(1,2,3) by (auto simp: u_def ts_inv_def)
  then show ?thesis using ts_isFree_eq [of u c] by (simp add: u_def ts_slots_def)
qed

lemma free_loop_spec:
  assumes "0 < i"
  shows "\<exists>l. free_loop fin i d = Some l \<and> set l = {e. \<exists>k. e = d + int k * i \<and> e < fin} \<and> sorted_wrt (<) l"
proof (induction "nat (fin - d)" arbitrary: d rule: less_induct)
  case less
  have up: "d \<le> d + int k * i" for k using assms by simp
  show ?case
  proof (cases "d < fin")
    case False
    then have "\<not> d + int k * i < fin" for k using up [of k] by linarith
    then have "{e. \<exists>k. e = d + int k * i \<and> e < fin} = {}" by blast
    with False show ?thesis by (simp only: free_loop.simps [of fin i d]) simp
  next
    case True
    with assms have "nat (fin - (d + i)) < nat (fin - d)" by simp
    then obtain l where l: "free_loop fin i (d + i) = Some l"
      "set l = {e. \<exists>k. e = d + i + int k * i \<and> e < fin}" "sorted_wrt (<) l" using less.hyps by blast
    have "(\<exists>k. e = d + int k * i \<and> e < fin) \<longleftrightarrow> e = d \<or> (\<exists>k. e = d + i + int k * i \<and> e < fin)" for e
      using True by (subst ex_nat_Suc_iff) (auto simp: algebra_simps)
    then have "set (d # l) = {e. \<exists>k. e = d + int k * i \<and> e < fin}" using l(2) by auto
    moreover have "sorted_wrt (<) (d # l)"
      using l(2,3) assms by (auto simp: add_pos_nonneg)
    ultimately show ?thesis using True l(1) by (simp add: free_loop.simps [of fin i d])
  qed
qed

section \<open>Text form and back\<close>

lemma pad2_digits:
  assumes "0 \<le> i" "i < 100"
  shows "pad2 i = [digit_char (nat i div 10), digit_char (nat i mod 10)]"
proof (cases "i < 10")
  case True
  with assms have "nat i div 10 = 0" "nat i mod 10 = nat i" by simp_all
  then show ?thesis using True assms
    by (simp add: pad2_def string_of_int_def string_of_nat.simps [of "nat i"] digit_char_def)
next
  case False
  with assms have "\<not> nat i < 10" "nat i div 10 < 10" by simp_all
  then show ?thesis using False
    by (simp add: pad2_def string_of_int_def string_of_nat.simps [of "nat i"] string_of_nat.simps [of "nat i div 10"])
qed

lemma digit_char_not:
  "d < 10 \<Longrightarrow> digit_char d \<noteq> CHR '':'' \<and> digit_char d \<noteq> CHR ''+'' \<and> digit_char d \<noteq> CHR ''-'' \<and>
     digit_char d \<noteq> CHR '' '' \<and> digit_char d \<noteq> CHR 0x09 \<and> digit_char d \<noteq> CHR ''#''"
  by (drule less_10_cases) (auto simp: digit_char_def)

lemma theInt_pad2:
  assumes "0 \<le> i" "i < 100"
  shows "theInt (pad2 i) e = Inr i"
proof -
  have d: "nat i div 10 < 10" "nat i mod 10 < 10" using assms by simp_all
  have "10 * (nat i div 10) + nat i mod 10 = nat i" by simp
  with assms d digit_char_not [OF d(1)] show ?thesis
    by (simp add: pad2_digits theInt_def lexical_cast_int_def lexical_cast_range_def Let_def is_int32_def INT_MIN_def INT_MAX_def)
qed

lemma slot_write_digits:
  assumes "slot_ok s" "hour s < 24"
  shows "slot_write s = pad2 (hour s) @ CHR '':'' # pad2 (minute s)"
    "\<exists>a b c d. pad2 (hour s) = [a, b] \<and> pad2 (minute s) = [c, d] \<and>
       {a, b, c, d} \<inter> {CHR '':'', CHR ''+'', CHR '' '', CHR 0x09, CHR ''#''} = {}"
proof -
  show "slot_write s = pad2 (hour s) @ CHR '':'' # pad2 (minute s)"
    using assms(1) by (simp add: slot_write_def)
  have r: "0 \<le> hour s" "hour s < 100" "0 \<le> minute s" "minute s < 100" using assms by (auto simp: slot_ok_def)
  have d: "nat (hour s) div 10 < 10" "nat (hour s) mod 10 < 10" "nat (minute s) div 10 < 10" "nat (minute s) mod 10 < 10"
    using r by simp_all
  show "\<exists>a b c d. pad2 (hour s) = [a, b] \<and> pad2 (minute s) = [c, d] \<and>
       {a, b, c, d} \<inter> {CHR '':'', CHR ''+'', CHR '' '', CHR 0x09, CHR ''#''} = {}"
    using pad2_digits [OF r(1,2)] pad2_digits [OF r(3,4)] d [THEN digit_char_not] by auto
qed

lemma getTime_slot_write:
  assumes "slot_ok s" "hour s < 24"
  shows "getTime (slot_write s) True = Inr (False, hour s, minute s)"
proof -
  obtain a b c d where abcd: "pad2 (hour s) = [a, b]" "pad2 (minute s) = [c, d]"
    "a \<noteq> CHR '':''" "b \<noteq> CHR '':''" "a \<noteq> CHR ''+''" using slot_write_digits(2) [OF assms] by auto
  have r: "0 \<le> hour s" "hour s < 100" "0 \<le> minute s" "minute s < 100" "minute s < 60" using assms by (auto simp: slot_ok_def)
  have t: "theInt [a, b] e = Inr (hour s)" "theInt [c, d] e = Inr (minute s)" for e
    using theInt_pad2 [OF r(1,2)] theInt_pad2 [OF r(3,4)] abcd by simp_all
  show ?thesis
    using slot_write_digits(1) [OF assms] abcd t r assms(2)
    by (simp add: getTime_def starts_with_def testTime_def)
qed

text \<open>The start of a relative series is written with a leading \<open>+\<close>.\<close>

definition rel_prefix :: "bool \<Rightarrow> string \<Rightarrow> string" where
  "rel_prefix rel s = (if rel then ''+'' else []) @ s"

lemma slot_tokens:
  assumes "slot_ok s" "hour s < 24"
  shows "starts_with (CHR ''+'') (rel_prefix rel (slot_write s)) = rel \<and>
      \<not> starts_with (CHR ''#'') (rel_prefix rel (slot_write s))"
    "tokens_of [CHR '' '', CHR 0x09] (rel_prefix rel (slot_write s) @ CHR '' '' # r) =
       rel_prefix rel (slot_write s) # tokens_of [CHR '' '', CHR 0x09] r"
    "tokens_of [CHR '' '', CHR 0x09] (rel_prefix rel (slot_write s)) = [rel_prefix rel (slot_write s)]"
proof -
  obtain a b c d where abcd: "pad2 (hour s) = [a, b]" "pad2 (minute s) = [c, d]"
    "{a, b, c, d} \<inter> {CHR '':'', CHR ''+'', CHR '' '', CHR 0x09, CHR ''#''} = {}"
    using slot_write_digits(2) [OF assms] by (elim exE conjE) (rule that)
  then have w: "slot_write s = [a, b, CHR '':'', c, d]" using slot_write_digits(1) [OF assms] by simp
  show "starts_with (CHR ''+'') (rel_prefix rel (slot_write s)) = rel \<and>
      \<not> starts_with (CHR ''#'') (rel_prefix rel (slot_write s))"
    using abcd(3) by (cases rel) (simp_all add: w rel_prefix_def starts_with_def, metis)
  have "set (rel_prefix rel (slot_write s)) \<inter> set [CHR '' '', CHR 0x09] = {}" "rel_prefix rel (slot_write s) \<noteq> []"
    using abcd(3) by (cases rel; simp add: w rel_prefix_def)+
  from tokens_of_cut [OF this, of "CHR '' ''"]
  show "tokens_of [CHR '' '', CHR 0x09] (rel_prefix rel (slot_write s) @ CHR '' '' # r) =
       rel_prefix rel (slot_write s) # tokens_of [CHR '' '', CHR 0x09] r"
    "tokens_of [CHR '' '', CHR 0x09] (rel_prefix rel (slot_write s)) = [rel_prefix rel (slot_write s)]" by simp_all
qed

lemma mk_slot_ok: "slot_ok s \<Longrightarrow> mk_slot (hour s) (minute s) = Inr s"
  by (simp add: mk_slot_def slot_ok_def)

lemma ts_create_single:
  assumes "slot_ok s" "hour s < 24"
  shows "ts_create 0 [rel_prefix rel (slot_write s)] = Some (res_bind (TimeSeries_single s rel) (\<lambda>t. Inr (t, 1)))"
  using slot_tokens(1) [OF assms, of rel] getTime_slot_write [OF assms] mk_slot_ok [OF assms(1)]
  by (cases rel) (simp_all add: ts_create_def Let_def rel_prefix_def)

lemma ts_create_range:
  assumes "slot_ok s" "hour s < 24" "slot_ok f" "hour f < 24" "slot_ok i" "hour i < 24"
  shows "ts_create 0 [rel_prefix rel (slot_write s), slot_write f, slot_write i] =
    Option.bind (TimeSeries_range s f i rel) (\<lambda>r. Some (res_bind r (\<lambda>t. Inr (t, 2))))"
  using slot_tokens(1) [OF assms(1,2), of rel] slot_tokens(1) [OF assms(3,4), of False]
    assms(1,3,5) [THEN mk_slot_ok] getTime_slot_write [OF assms(1,2)] getTime_slot_write [OF assms(3,4)]
    getTime_slot_write [OF assms(5,6)]
  by (cases rel) (simp_all add: ts_create_def Let_def rel_prefix_def numeral_2_eq_2)

lemma ts_inv_slots:
  assumes "ts_inv ts" "hasIncrement ts"
  shows "slot_ok (ts_start ts)" "hour (ts_start ts) < 24" "slot_ok (ts_finish ts)" "hour (ts_finish ts) < 24"
    "slot_ok (ts_incr ts)" "hour (ts_incr ts) < 24" "range_ok (ts_start ts) (ts_finish ts) (ts_incr ts)"
proof -
  show ok: "slot_ok (ts_start ts)" "hour (ts_start ts) < 24" "slot_ok (ts_finish ts)" "hour (ts_finish ts) < 24"
    "slot_ok (ts_incr ts)" using assms by (simp_all add: ts_inv_def)
  have i: "0 < slot_duration (ts_incr ts)"
    "slot_duration (ts_incr ts) \<le> slot_duration (ts_finish ts) - slot_duration (ts_start ts)"
    using assms by (simp_all add: ts_inv_def)
  with ok show "hour (ts_incr ts) < 24" by (auto simp: slot_ok_def slot_duration_def)
  moreover have "ts_incr ts \<noteq> TimeSlot 0 0" using i(1) by (auto simp: slot_duration_def)
  ultimately show "range_ok (ts_start ts) (ts_finish ts) (ts_incr ts)" using ok i by (auto simp: range_ok_def)
qed

lemma ts_requeue_next:
  assumes "ts_inv ts" "ts_requeue c True ts = Some ts'"
  shows "(ts_isValid ts' \<longleftrightarrow> (\<exists>d. d \<in> ts_slots ts \<and> ts_duration c ts < d)) \<and>
    compute_next_time_slot c ts = Some (if ts_isValid ts' then ts_next ts' else NULL_slot) \<and>
    (\<forall>c' r. 0 \<le> r \<and> (\<not> ts_relative ts \<longrightarrow> r = 0) \<longrightarrow>
       (let u = ts'\<lparr>ts_relativeDuration := r\<rparr> in
        ts_isFree c' u = Some (ts_duration c' u \<in> ts_slots ts \<and> ts_duration c ts < ts_duration c' u)))"
proof (cases "hasIncrement ts")
  case False
  with ts_requeue_spec [OF assms(1), of c True] assms(2) have f:
    "ts_inv ts'" "ts_start ts' = ts_start ts" "ts_finish ts' = ts_finish ts" "ts_relative ts' = ts_relative ts"
    "ts_next ts' = ts_start ts" "ts_isValid ts' \<longleftrightarrow> ts_duration c ts < slot_duration (ts_start ts)" by auto
  have "hasIncrement ts' = hasIncrement ts" using f by (simp add: hasIncrement_def)
  then have sl: "ts_slots ts' = {slot_duration (ts_start ts)}" "ts_slots ts = {slot_duration (ts_start ts)}"
    using False f by (simp_all add: ts_slots_def)
  have "compute_next_time_slot c ts = Some (if ts_isValid ts' then ts_next ts' else NULL_slot)"
    using False f by (simp add: compute_next_time_slot_def Let_def)
  then show ?thesis
    using ts_isFree_after [OF f(1)] f sl by (auto simp: Let_def)
next
  case True
  have start: "ts_start ts = slot_of_duration (ts_slot_at ts 0)"
    using assms(1) by (simp add: ts_inv_def ts_slot_at_def slot_of_duration_of)
  with True ts_requeue_spec [OF assms(1), of c True] assms(2) obtain k where f:
    "ts_inv ts'" "ts_start ts' = ts_start ts" "ts_finish ts' = ts_finish ts" "ts_incr ts' = ts_incr ts"
    "ts_relative ts' = ts_relative ts"
    and k: "ts_next ts' = slot_of_duration (ts_slot_at ts k)" "ts_duration c ts < ts_slot_at ts k"
      "\<forall>j < k. ts_slot_at ts j \<le> ts_duration c ts"
      "ts_isValid ts' \<longleftrightarrow> ts_slot_at ts k \<le> slot_duration (ts_finish ts)" by auto
  have same: "hasIncrement ts' = hasIncrement ts" "ts_slot_at ts' = ts_slot_at ts"
    using f by (simp_all add: hasIncrement_def ts_slot_at_def fun_eq_iff)
  then have sl: "ts_slots ts' = ts_slots ts" using f by (simp add: ts_slots_def)
  note nxt = slots_from_next [OF assms(1) True k(2,3)]
  have dn: "slot_duration (ts_next ts') = ts_slot_at ts k" using ts_slot_at_facts(3) [OF assms(1) True] k(1) by simp
  have valid: "ts_isValid ts' \<longleftrightarrow> (\<exists>d. d \<in> ts_slots ts \<and> ts_duration c ts < d)"
    using k(4) nxt True unfolding ts_slots_def by simp (metis order_trans k(2))
  have after: "ts_isValid ts' \<and> d \<in> ts_slots ts \<and> ts_slot_at ts k \<le> d \<longleftrightarrow> d \<in> ts_slots ts \<and> ts_duration c ts < d" for d
    using nxt True valid unfolding ts_slots_def by auto
  obtain m where m: "slot_loop (\<lambda>d. d \<le> ts_duration c ts) (slot_duration (ts_incr ts)) (ts_start ts)
      = Some (slot_of_duration (ts_slot_at ts m))" "ts_duration c ts < ts_slot_at ts m" "\<forall>j < m. ts_slot_at ts j \<le> ts_duration c ts"
    using ts_slot_loop [OF ts_inv_updates(3) [OF assms(1)], of 0 "\<lambda>d. d \<le> ts_duration c ts" "ts_duration c ts"] True start
    by auto
  have "m = k" using m(2,3) k(2,3) by (metis leD linorder_neqE_nat)
  then have "compute_next_time_slot c ts = Some (if ts_isValid ts' then ts_next ts' else NULL_slot)"
    using True m(1) k(1,4) ts_slot_at_facts(5) [OF assms(1) True, of k]
    by (auto simp: compute_next_time_slot_def Let_def)
  moreover have "ts_isFree c' (ts'\<lparr>ts_relativeDuration := r\<rparr>) = Some (ts_duration c' (ts'\<lparr>ts_relativeDuration := r\<rparr>) \<in> ts_slots ts \<and>
      ts_duration c ts < ts_duration c' (ts'\<lparr>ts_relativeDuration := r\<rparr>))" if "0 \<le> r" "\<not> ts_relative ts \<longrightarrow> r = 0" for c' r
    using ts_isFree_after [OF f(1) that(1), of c'] that(2) f(5) sl dn after by simp
  ultimately show ?thesis using valid by (simp add: Let_def)
qed

section \<open>Properties\<close>

text \<open>Construction is total and checked: the constructor of a time series returns on every
  argument, builds a series satisfying the invariant when start, finish and increment are times of
  the 24 hour clock with a positive increment no longer than the span, and throws otherwise.\<close>

theorem time_series_construction:
  "(range_ok start finish incr \<and>
      (\<exists>ts. TimeSeries_range start finish incr rel = Some (Inr ts) \<and> ts_inv ts \<and>
         ts_start ts = start \<and> ts_finish ts = finish \<and> ts_incr ts = incr \<and> ts_next ts = start \<and>
         ts_isValid ts \<and> ts_relative ts = rel)) \<or>
   (range_ok start finish incr = False \<and>
      (\<exists>e. TimeSeries_range start finish incr rel = Some (Inl e)))"
  using TimeSeries_range_ok [of start finish incr rel] TimeSeries_range_bad [of start finish incr rel]
  by (cases "range_ok start finish incr") auto

text \<open>C38. The loops of a time series terminate and its operations keep it well formed: on a
  well-formed series, whatever the calendar, \<open>requeue\<close>, \<open>reset\<close>, \<open>isFree\<close> and
  \<open>compute_next_time_slot\<close> return, and every operation that changes the series preserves the
  invariant.\<close>

theorem time_series_operations_total:
  assumes "ts_inv ts" "0 \<le> cal_increment c"
  shows "(\<exists>ts'. ts_requeue c rst ts = Some ts' \<and> ts_inv ts') \<and>
    (\<exists>ts'. ts_reset c ts = Some ts' \<and> ts_inv ts') \<and>
    (\<exists>b. ts_isFree c ts = Some b) \<and>
    (\<exists>s. compute_next_time_slot c ts = Some s) \<and>
    ts_inv (snd (ts_calendarChanged c ts)) \<and>
    ts_inv (ts_miss_next_time_slot ts) \<and>
    ts_inv (snd (ts_checkForRequeue c mn mx cmd ts))"
proof -
  have "\<exists>s. compute_next_time_slot c ts = Some s"
  proof (cases "hasIncrement ts")
    case True
    have "ts_start ts = slot_of_duration (ts_slot_at ts 0)"
      using assms(1) by (simp add: ts_inv_def ts_slot_at_def slot_of_duration_of)
    with ts_slot_loop [OF ts_inv_updates(3) [OF assms(1)], of 0 "\<lambda>d. d \<le> ts_duration c ts" "ts_duration c ts"] True
    show ?thesis by (auto simp: compute_next_time_slot_def Let_def)
  qed (simp add: compute_next_time_slot_def Let_def)
  then show ?thesis
    using ts_requeue_spec [OF assms(1), of c rst] ts_reset_inv [OF assms(1), of c]
      ts_isFree_eq [OF assms(1), of c] ts_calendarChanged_inv [OF assms]
      ts_miss_next_time_slot_inv [OF assms(1)] ts_checkForRequeue_inv [OF assms(1)] by blast
qed

text \<open>A series from 10:00 to 20:00 every three hours, and a suite that begins at half past eleven
  (the dates are immaterial), for the witnesses.\<close>

definition every_three_hours :: time_series where
  "every_three_hours =
     \<lparr>ts_start = TimeSlot 10 0, ts_finish = TimeSlot 20 0, ts_incr = TimeSlot 3 0, ts_next = TimeSlot 10 0,
      ts_suiteTimeAtReque = NULL_slot, ts_relativeDuration = 0, ts_lastTimeSlot = 68400,
      ts_relative = False, ts_isValid = True\<rparr>"

definition half_past_eleven :: calendar where
  "half_past_eleven = Calendar_begin week_only 0 (11 * 3600 + 1800) Calendar_default"

lemma every_three_hours_inv: "ts_inv every_three_hours" "hasIncrement every_three_hours"
proof -
  show h: "hasIncrement every_three_hours"
    by (simp add: every_three_hours_def hasIncrement_def slot_isNULL_def)
  have "ts_next every_three_hours = slot_of_duration (ts_slot_at every_three_hours 0)"
    by (simp add: every_three_hours_def ts_slot_at_def slot_duration_def slot_of_duration_def td_hours_def td_minutes_def)
  then show "ts_inv every_three_hours" using h
    by (auto simp: ts_inv_def every_three_hours_def slot_ok_def slot_duration_def)
qed

lemma half_past_eleven_time:
  "cal_suiteTime half_past_eleven = Some 41400" "cal_increment half_past_eleven = 60"
  by (simp_all add: half_past_eleven_def Calendar_begin_def update_cache_def Let_def)

lemma every_three_hours_duration: "ts_duration half_past_eleven every_three_hours = 41400"
  by (simp add: ts_duration_def half_past_eleven_time every_three_hours_def time_of_day_def td_floor_minute_nonneg)

theorem time_series_operations_total_witness:
  "\<exists>ts'. ts_requeue half_past_eleven True every_three_hours = Some ts' \<and> ts_inv ts'"
  using time_series_operations_total [OF every_three_hours_inv(1), of half_past_eleven True]
  by (simp add: half_past_eleven_time)

text \<open>C27. What a requeue at time \<open>t\<close> leaves behind: the series stays valid exactly when it has a
  slot after \<open>t\<close>; \<open>compute_next_time_slot\<close> predicts the next slot; and from then on, at any later
  calendar and for any elapsed relative duration, the series is free exactly at the slots after
  \<open>t\<close>: none is missed, and none fires twice.\<close>

theorem time_series_requeue_next:
  assumes "ts_inv ts" "ts_requeue c True ts = Some ts'"
  shows "(ts_isValid ts' \<longleftrightarrow> (\<exists>d. d \<in> ts_slots ts \<and> ts_duration c ts < d)) \<and>
    compute_next_time_slot c ts = Some (if ts_isValid ts' then ts_next ts' else NULL_slot) \<and>
    (\<forall>c' r. 0 \<le> r \<and> (\<not> ts_relative ts \<longrightarrow> r = 0) \<longrightarrow>
       (let u = ts'\<lparr>ts_relativeDuration := r\<rparr> in
        ts_isFree c' u = Some (ts_duration c' u \<in> ts_slots ts \<and> ts_duration c ts < ts_duration c' u)))"
  using ts_requeue_next [OF assms] .

theorem time_series_requeue_next_witness:
  "compute_next_time_slot half_past_eleven every_three_hours = Some (TimeSlot 13 0)"
proof -
  obtain ts' where r: "ts_requeue half_past_eleven True every_three_hours = Some ts'"
    using ts_requeue_spec [OF every_three_hours_inv(1)] by blast
  have n: "compute_next_time_slot half_past_eleven every_three_hours = Some (TimeSlot 13 0)"
    by (simp add: compute_next_time_slot_def every_three_hours_duration every_three_hours_inv(2) Let_def)
      (simp add: every_three_hours_def slot_duration_def slot_loop.simps slot_of_duration_def td_hours_def
        td_minutes_def time_slot_less)
  from time_series_requeue_next [OF every_three_hours_inv(1) r] n show ?thesis by simp
qed

text \<open>For a repeating series, the question asked when a job completes (\<open>checkForRequeue\<close> in a
  command context) is answered yes exactly when the requeue that follows leaves a slot to wait for,
  unless the suite clock has gone back since the last requeue (a new day): a node is never requeued
  to wait for a time that cannot come, and never completes with slots still to come.\<close>

theorem time_series_checkForRequeue_exact:
  assumes "ts_inv ts" "hasIncrement ts" "ts_requeue c False ts = Some ts'"
    and "ts_relative ts \<or> ts_suiteTimeAtReque ts \<le> slot_of_duration (time_of_day (the (cal_suiteTime c)))"
  shows "fst (ts_checkForRequeue c mn mx True ts) = ts_isValid ts'"
proof -
  from assms(1,2) obtain k0 where k0: "ts_next ts = slot_of_duration (ts_slot_at ts k0)" by (auto simp: ts_inv_def)
  with assms(1-3) ts_requeue_spec [OF assms(1), of c False] obtain k where k: "k0 \<le> k"
    "ts_duration c ts < ts_slot_at ts k" "\<forall>j. k0 \<le> j \<and> j < k \<longrightarrow> ts_slot_at ts j \<le> ts_duration c ts"
    "ts_isValid ts' \<longleftrightarrow> ts_isValid ts \<and> ts_slot_at ts k \<le> slot_duration (ts_finish ts)" by auto
  obtain m where m: "ts_lastTimeSlot ts = ts_slot_at ts m"
    "\<And>k. ts_slot_at ts k \<le> slot_duration (ts_finish ts) \<longleftrightarrow> k \<le> m"
    using ts_last_slot [OF assms(1,2)] by blast
  have gt: "ts_next ts > ts_finish ts \<longleftrightarrow> m < k0"
    using ts_slot_at_facts(5) [OF assms(1,2), of k0] k0 m(2) [of k0] by auto
  have "ts_duration c ts < ts_slot_at ts m \<longleftrightarrow> k \<le> m" if "k0 \<le> m"
  proof (cases "k \<le> m")
    case True
    then have "ts_slot_at ts k \<le> ts_slot_at ts m" using slot_at_less_iff [OF assms(1,2), of m k] by linarith
    with k(2) True show ?thesis by linarith
  next
    case False
    with k(3) that have "ts_slot_at ts m \<le> ts_duration c ts" by simp
    with False show ?thesis by simp
  qed
  moreover have "ts_duration c (ts\<lparr>ts_suiteTimeAtReque := NULL_slot\<rparr>) = ts_duration c ts"
    by (simp add: ts_duration_def)
  ultimately show ?thesis
    using assms(2,4) gt k(1,4) m by (auto simp: ts_checkForRequeue_def Let_def)
qed

theorem time_series_checkForRequeue_exact_witness:
  "fst (ts_checkForRequeue half_past_eleven NULL_slot NULL_slot True every_three_hours)"
proof -
  obtain ts' where r: "ts_requeue half_past_eleven False every_three_hours = Some ts'"
    using ts_requeue_spec [OF every_three_hours_inv(1)] by blast
  have le: "ts_suiteTimeAtReque every_three_hours \<le> slot_of_duration (time_of_day (the (cal_suiteTime half_past_eleven)))"
    by (simp add: every_three_hours_def half_past_eleven_time time_of_day_def slot_of_duration_def NULL_slot_def
        time_slot_le time_slot_less td_hours_def)
  have "fst (ts_checkForRequeue half_past_eleven NULL_slot NULL_slot True every_three_hours)"
    using every_three_hours_duration
    by (simp add: ts_checkForRequeue_def every_three_hours_inv(2))
      (simp add: every_three_hours_def time_slot_less slot_isNULL_def NULL_slot_def)
  with time_series_checkForRequeue_exact [OF every_three_hours_inv r, of NULL_slot NULL_slot] le show ?thesis by simp
qed

text \<open>The text a series is written as reads back as the same series: \<open>create\<close> applied to the
  printed form returns a well-formed series with the same start, finish, increment and relative flag.\<close>

theorem time_series_write_create:
  assumes "ts_inv ts"
  shows "\<exists>ts'. ts_create_str (ts_write ts) = Some (Inr ts') \<and> ts_inv ts' \<and> ts_structureEquals ts ts'"
proof (cases "hasIncrement ts")
  case False
  with assms have st: "slot_ok (ts_start ts)" "hour (ts_start ts) < 24" by (simp_all add: ts_inv_def)
  then obtain ts' where t: "TimeSeries_single (ts_start ts) (ts_relative ts) = Inr ts'"
      "ts_start ts' = ts_start ts" "ts_finish ts' = NULL_slot" "ts_incr ts' = NULL_slot" "ts_relative ts' = ts_relative ts"
    by (auto simp: TimeSeries_single_def testTimeSlot_ok)
  have "split (ts_write ts) [CHR '' '', CHR 0x09] = [rel_prefix (ts_relative ts) (slot_write (ts_start ts))]"
    using False slot_tokens(3) [OF st, of "ts_relative ts"]
    by (simp add: ts_write_def hasIncrement_def split_eq rel_prefix_def)
  then have "ts_create_str (ts_write ts) = Some (Inr ts')"
    using slot_tokens(1) [OF st, of "ts_relative ts"] t(1)
    by (simp add: ts_create_str_def ts_create_single [OF st])
  moreover have "ts_structureEquals ts ts'"
    using t assms False by (simp add: ts_structureEquals_def hasIncrement_def slot_isNULL_iff ts_inv_def)
  ultimately show ?thesis using TimeSeries_single_inv [OF t(1)] by blast
next
  case True
  note st = ts_inv_slots [OF assms True]
  from TimeSeries_range_ok [OF st(7), of "ts_relative ts"] obtain ts' where
    t: "TimeSeries_range (ts_start ts) (ts_finish ts) (ts_incr ts) (ts_relative ts) = Some (Inr ts')" "ts_inv ts'"
      "ts_start ts' = ts_start ts" "ts_finish ts' = ts_finish ts" "ts_incr ts' = ts_incr ts"
      "ts_relative ts' = ts_relative ts" by blast
  have "split (ts_write ts) [CHR '' '', CHR 0x09] =
      [rel_prefix (ts_relative ts) (slot_write (ts_start ts)), slot_write (ts_finish ts), slot_write (ts_incr ts)]"
    using True slot_tokens(2) [OF st(1,2), of "ts_relative ts"] slot_tokens(2) [OF st(3,4), of False]
      slot_tokens(3) [OF st(5,6), of False]
    by (simp add: ts_write_def hasIncrement_def split_eq rel_prefix_def)
  then have "ts_create_str (ts_write ts) = Some (Inr ts')"
    using t(1) by (simp add: ts_create_str_def ts_create_range [OF st(1-6)])
  with t show ?thesis by (auto simp: ts_structureEquals_def)
qed

theorem time_series_write_create_witness:
  "\<exists>ts'. ts_create_str ''10:00 20:00 03:00'' = Some (Inr ts') \<and> ts_structureEquals every_three_hours ts'"
proof -
  have "ts_write every_three_hours = ''10:00 20:00 03:00''"
    by (simp add: ts_write_def every_three_hours_def slot_write_def slot_isNULL_def pad2_digits digit_char_def)
  with time_series_write_create [OF every_three_hours_inv(1)] show ?thesis by auto
qed

text \<open>\<open>free_slots\<close> returns, in increasing order, every slot of the series; and it also returns
  the finish time, whether or not the increment reaches it.\<close>

theorem time_series_free_slots:
  assumes "ts_inv ts"
  shows "\<exists>l. free_slots ts = Some l \<and> sorted_wrt (<) l \<and>
    set l = ts_slots ts \<union> (if hasIncrement ts then {slot_duration (ts_finish ts)} else {})"
proof (cases "hasIncrement ts")
  case True
  with assms have "0 < slot_duration (ts_incr ts)" by (simp add: ts_inv_def)
  then obtain l where l: "free_loop (slot_duration (ts_finish ts)) (slot_duration (ts_incr ts)) (slot_duration (ts_start ts)) = Some l"
    "set l = {e. \<exists>k. e = slot_duration (ts_start ts) + int k * slot_duration (ts_incr ts) \<and> e < slot_duration (ts_finish ts)}"
    "sorted_wrt (<) l" using free_loop_spec by blast
  have "set (l @ [slot_duration (ts_finish ts)]) = ts_slots ts \<union> {slot_duration (ts_finish ts)}"
    using l(2) True by (auto simp: ts_slots_def ts_slot_at_def)
  moreover have "sorted_wrt (<) (l @ [slot_duration (ts_finish ts)])"
    using l(2,3) by (auto simp: sorted_wrt_append)
  ultimately show ?thesis using True l(1) by (simp add: free_slots_def)
qed (simp add: free_slots_def ts_slots_def)

theorem time_series_free_slots_witness:
  "\<exists>l. free_slots every_three_hours = Some l \<and> 72000 \<in> set l \<and> 72000 \<notin> ts_slots every_three_hours"
proof -
  have k: "int k * 10800 \<noteq> 36000" for k
  proof
    assume "int k * 10800 = 36000"
    then have "3 * int k = 10" by linarith
    then show False by presburger
  qed
  then have "(72000::int) \<noteq> 36000 + int k * 10800" for k
    using k [of k] by linarith
  then have "72000 \<notin> ts_slots every_three_hours"
    using every_three_hours_inv(2)
    by (simp add: ts_slots_def ts_slot_at_def every_three_hours_def slot_duration_def)
  moreover have "slot_duration (ts_finish every_three_hours) = 72000"
    by (simp add: every_three_hours_def slot_duration_def)
  ultimately show ?thesis
    using time_series_free_slots [OF every_three_hours_inv(1)] every_three_hours_inv(2) by auto
qed

end
