(* ===== verification/Time_Attrs.thy ===== *)
theory Time_Attrs
  imports Time_Series
begin

text \<open>
  The attributes that hold a node until a time of day: \<open>TimeAttr\<close>, \<open>TodayAttr\<close> and \<open>CronAttr\<close>
  (\<open>ANattr/src\<close>), each a time series with a \<open>free_\<close> latch, and \<open>LateAttr\<close>, which flags a node that
  stays too long in a state. Every operation that stamps \<open>state_change_no_\<close> threads the counters of
  \<open>Ecf\<close>. The contract the three time attributes share, stated in their headers as ``once free it
  stays free, until re-queue/reset'', is the locale \<open>free_latch\<close>.
\<close>

section \<open>\<open>TimeAttr\<close> and \<open>TodayAttr\<close>\<close>

text \<open>Both classes have the same three members.\<close>

record time_attr =
  ta_ts :: time_series
  ta_state_change_no :: "32 word"
  ta_free :: bool

definition TimeAttr :: "time_series \<Rightarrow> time_attr" where
  "TimeAttr ts = \<lparr>ta_ts = ts, ta_state_change_no = 0, ta_free = False\<rparr>"

definition TimeAttr_setFree :: "time_attr \<Rightarrow> ecf \<Rightarrow> time_attr \<times> ecf" where
  "TimeAttr_setFree a g =
     (let (n, g') = incr_state_change_no g in (a\<lparr>ta_free := True, ta_state_change_no := n\<rparr>, g'))"

definition TimeAttr_clearFree :: "time_attr \<Rightarrow> ecf \<Rightarrow> time_attr \<times> ecf" where
  "TimeAttr_clearFree a g =
     (let (n, g') = incr_state_change_no g in (a\<lparr>ta_free := False, ta_state_change_no := n\<rparr>, g'))"

definition TimeAttr_isFree :: "calendar \<Rightarrow> time_attr \<Rightarrow> bool option" where
  "TimeAttr_isFree c a = (if ta_free a then Some True else ts_isFree c (ta_ts a))"

text \<open>The first lines of \<open>calendarChanged\<close>: the series first, because a relative duration must
  always advance.\<close>

definition TimeAttr_series_changed :: "calendar \<Rightarrow> time_attr \<Rightarrow> ecf \<Rightarrow> time_attr \<times> ecf" where
  "TimeAttr_series_changed c a g =
     (let (changed, ts) = ts_calendarChanged c (ta_ts a)
      in if changed
         then (let (n, g') = incr_state_change_no g in (a\<lparr>ta_ts := ts, ta_state_change_no := n\<rparr>, g'))
         else (a\<lparr>ta_ts := ts\<rparr>, g))"

definition TimeAttr_calendarChanged :: "calendar \<Rightarrow> time_attr \<Rightarrow> ecf \<Rightarrow> (time_attr \<times> ecf) option" where
  "TimeAttr_calendarChanged c a g =
     (let (a1, g1) = TimeAttr_series_changed c a g
      in if ta_free a1 then Some (a1, g1)
         else Option.bind (TimeAttr_isFree c a1)
                (\<lambda>b. Some (if b then TimeAttr_setFree a1 g1 else (a1, g1))))"

definition TimeAttr_resetRelativeDuration :: "time_attr \<Rightarrow> ecf \<Rightarrow> time_attr \<times> ecf" where
  "TimeAttr_resetRelativeDuration a g =
     (let (changed, ts) = ts_resetRelativeDuration (ta_ts a)
      in if changed
         then (let (n, g') = incr_state_change_no g in (a\<lparr>ta_ts := ts, ta_state_change_no := n\<rparr>, g'))
         else (a\<lparr>ta_ts := ts\<rparr>, g))"

definition TimeAttr_reset_only :: "time_attr \<Rightarrow> ecf \<Rightarrow> time_attr \<times> ecf" where
  "TimeAttr_reset_only a g =
     (let (a1, g1) = TimeAttr_clearFree a g in (a1\<lparr>ta_ts := ts_reset_only (ta_ts a1)\<rparr>, g1))"

definition TimeAttr_reset :: "calendar \<Rightarrow> time_attr \<Rightarrow> ecf \<Rightarrow> (time_attr \<times> ecf) option" where
  "TimeAttr_reset c a g =
     (let (a1, g1) = TimeAttr_clearFree a g
      in Option.bind (ts_reset c (ta_ts a1)) (\<lambda>ts. Some (a1\<lparr>ta_ts := ts\<rparr>, g1)))"

definition TimeAttr_requeue :: "calendar \<Rightarrow> bool \<Rightarrow> time_attr \<Rightarrow> ecf \<Rightarrow> (time_attr \<times> ecf) option" where
  "TimeAttr_requeue c reset_next_time_slot a g =
     (let (a1, g1) = TimeAttr_clearFree a g
      in Option.bind (ts_requeue c reset_next_time_slot (ta_ts a1)) (\<lambda>ts. Some (a1\<lparr>ta_ts := ts\<rparr>, g1)))"

definition TimeAttr_miss_next_time_slot :: "time_attr \<Rightarrow> ecf \<Rightarrow> time_attr \<times> ecf" where
  "TimeAttr_miss_next_time_slot a g =
     (let (n, g') = incr_state_change_no g
      in (a\<lparr>ta_ts := ts_miss_next_time_slot (ta_ts a), ta_state_change_no := n\<rparr>, g'))"

definition TimeAttr_checkForRequeue ::
    "calendar \<Rightarrow> time_slot \<Rightarrow> time_slot \<Rightarrow> bool \<Rightarrow> time_attr \<Rightarrow> bool \<times> time_attr" where
  "TimeAttr_checkForRequeue c the_min the_max cmd_context a =
     (let (b, ts) = ts_checkForRequeue c the_min the_max cmd_context (ta_ts a) in (b, a\<lparr>ta_ts := ts\<rparr>))"

definition TimeAttr_equal :: "time_attr \<Rightarrow> time_attr \<Rightarrow> bool" where
  "TimeAttr_equal a b = (if ta_free a \<noteq> ta_free b then False else ts_equal (ta_ts a) (ta_ts b))"

definition TimeAttr_write :: "time_attr \<Rightarrow> string" where
  "TimeAttr_write a = ''time '' @ ts_write (ta_ts a)"

text \<open>\<open>TimeAttr(const std::string&)\<close>.\<close>

definition TimeAttr_create :: "string \<Rightarrow> time_attr res option" where
  "TimeAttr_create str =
     (if str = [] then Some (Inl (Runtime_error ''Time::Time: empty string passed''))
      else let tokens = split str [CHR '' '', CHR 0x09]
           in if tokens = [] then Some (Inl (Runtime_error ''Time::Time: incorrect time string ?''))
              else Option.bind (ts_create 0 tokens)
                     (\<lambda>r. Some (res_bind r (\<lambda>(ts, _). Inr (TimeAttr ts)))))"

type_synonym today_attr = time_attr

text \<open>\<open>TodayAttr::is_free\<close>: a single time that has passed is free.\<close>

definition TodayAttr_is_free :: "calendar \<Rightarrow> today_attr \<Rightarrow> bool option" where
  "TodayAttr_is_free c a =
     (if \<not> hasIncrement (ta_ts a) \<and> ts_duration c (ta_ts a) > slot_duration (ts_start (ta_ts a))
      then Some True else ts_isFree c (ta_ts a))"

definition TodayAttr_isFree :: "calendar \<Rightarrow> today_attr \<Rightarrow> bool option" where
  "TodayAttr_isFree c a = (if ta_free a then Some True else TodayAttr_is_free c a)"

definition TodayAttr_calendarChanged :: "calendar \<Rightarrow> today_attr \<Rightarrow> ecf \<Rightarrow> (today_attr \<times> ecf) option" where
  "TodayAttr_calendarChanged c a g =
     (let (a1, g1) = TimeAttr_series_changed c a g
      in if ta_free a1 then Some (a1, g1)
         else Option.bind (TodayAttr_isFree c a1)
                (\<lambda>b. Some (if b then TimeAttr_setFree a1 g1 else (a1, g1))))"

definition TodayAttr_write :: "today_attr \<Rightarrow> string" where
  "TodayAttr_write a = ''today '' @ ts_write (ta_ts a)"

section \<open>\<open>CronAttr\<close>\<close>

record cron_attr =
  cr_timeSeries :: time_series
  cr_weekDays :: "int list"
  cr_last_week_days_of_month :: "int list"
  cr_daysOfMonth :: "int list"
  cr_months :: "int list"
  cr_state_change_no :: "32 word"
  cr_last_day_of_month :: bool
  cr_free :: bool

text \<open>The adders assign the list before they check it, so a throwing call leaves it assigned: they
  return the cron and the exception, if any.\<close>

fun cron_week_day_check :: "string \<Rightarrow> int list \<Rightarrow> int list \<Rightarrow> exc option" where
  "cron_week_day_check dup other [] = None"
| "cron_week_day_check dup other (d # ds) =
     (if d < 0 \<or> d > 6 then Some (Out_of_range ''Invalid range for day('')
      else if d \<in> set other then Some (Runtime_error dup)
      else cron_week_day_check dup other ds)"

fun cron_range_check :: "string \<Rightarrow> int \<Rightarrow> int \<Rightarrow> int list \<Rightarrow> exc option" where
  "cron_range_check msg lo hi [] = None"
| "cron_range_check msg lo hi (d # ds) =
     (if d < lo \<or> d > hi then Some (Out_of_range msg) else cron_range_check msg lo hi ds)"

definition addWeekDays :: "int list \<Rightarrow> cron_attr \<Rightarrow> cron_attr \<times> exc option" where
  "addWeekDays w a =
     (let a1 = a\<lparr>cr_weekDays := w\<rparr>
      in (a1, cron_week_day_check ''Duplicate day('' (cr_last_week_days_of_month a1) w))"

definition add_last_week_days_of_month :: "int list \<Rightarrow> cron_attr \<Rightarrow> cron_attr \<times> exc option" where
  "add_last_week_days_of_month w a =
     (let a1 = a\<lparr>cr_last_week_days_of_month := w\<rparr>
      in (a1, cron_week_day_check ''Duplicate last week day ('' (cr_weekDays a1) w))"

definition addDaysOfMonth :: "int list \<Rightarrow> cron_attr \<Rightarrow> cron_attr \<times> exc option" where
  "addDaysOfMonth d a =
     (a\<lparr>cr_daysOfMonth := d\<rparr>, cron_range_check ''Invalid range for day of month('' 1 31 d)"

definition addMonths :: "int list \<Rightarrow> cron_attr \<Rightarrow> cron_attr \<times> exc option" where
  "addMonths m a = (a\<lparr>cr_months := m\<rparr>, cron_range_check ''Invalid range for month('' 1 12 m)"

fun week_day_matches :: "int list \<Rightarrow> int \<Rightarrow> bool" where
  "week_day_matches [] theDayOfWeek = False"
| "week_day_matches (d # ds) theDayOfWeek = (if theDayOfWeek = d then True else week_day_matches ds theDayOfWeek)"

fun last_week_day_loop :: "int \<Rightarrow> int \<Rightarrow> int list \<Rightarrow> bool" where
  "last_week_day_loop day_of_week diff [] = False"
| "last_week_day_loop day_of_week diff (d # ds) =
     (if day_of_week = d \<and> diff < 7 then True else last_week_day_loop day_of_week diff ds)"

definition last_week_day_of_month_matches :: "gregorian \<Rightarrow> calendar \<Rightarrow> cron_attr \<Rightarrow> bool" where
  "last_week_day_of_month_matches greg c a =
     last_week_day_loop (cal_day_of_week c) (g_end_of_month (greg (cal_date c)) - cal_date c)
       (cr_last_week_days_of_month a)"

definition day_of_month_matches :: "gregorian \<Rightarrow> int \<Rightarrow> calendar \<Rightarrow> cron_attr \<Rightarrow> bool" where
  "day_of_month_matches greg theDayOfMonth c a =
     (if week_day_matches (cr_daysOfMonth a) theDayOfMonth then True
      else if cr_last_day_of_month a then cal_date c = g_end_of_month (greg (cal_date c))
      else False)"

definition month_matches :: "int \<Rightarrow> cron_attr \<Rightarrow> bool" where
  "month_matches theMonth a = week_day_matches (cr_months a) theMonth"

definition is_day_of_week_day_of_month_and_month_free :: "gregorian \<Rightarrow> calendar \<Rightarrow> cron_attr \<Rightarrow> bool" where
  "is_day_of_week_day_of_month_and_month_free greg c a =
     (let w0 = (cr_weekDays a = [] \<and> cr_last_week_days_of_month a = []);
          d0 = (cr_daysOfMonth a = []);
          m0 = (cr_months a = []);
          w1 = (if cr_weekDays a \<noteq> [] then week_day_matches (cr_weekDays a) (cal_day_of_week c) else w0);
          w2 = (if \<not> w1 \<and> cr_last_week_days_of_month a \<noteq> [] then last_week_day_of_month_matches greg c a else w1);
          d1 = (if cr_daysOfMonth a \<noteq> [] \<or> cr_last_day_of_month a
                then day_of_month_matches greg (cal_day_of_month c) c a else d0);
          m1 = (if cr_months a \<noteq> [] then month_matches (cal_month c) a else m0)
      in if cr_daysOfMonth a = [] \<and> \<not> cr_last_day_of_month a \<and> cr_months a = []
         then w2 else w2 \<and> d1 \<and> m1)"

definition CronAttr_isFree :: "gregorian \<Rightarrow> calendar \<Rightarrow> cron_attr \<Rightarrow> bool option" where
  "CronAttr_isFree greg c a =
     (if cr_free a then Some True
      else Option.bind (ts_isFree c (cr_timeSeries a))
             (\<lambda>b. Some (if \<not> b then False else is_day_of_week_day_of_month_and_month_free greg c a)))"

definition CronAttr_setFree :: "cron_attr \<Rightarrow> ecf \<Rightarrow> cron_attr \<times> ecf" where
  "CronAttr_setFree a g =
     (let (n, g') = incr_state_change_no g in (a\<lparr>cr_free := True, cr_state_change_no := n\<rparr>, g'))"

definition CronAttr_clearFree :: "cron_attr \<Rightarrow> ecf \<Rightarrow> cron_attr \<times> ecf" where
  "CronAttr_clearFree a g =
     (let (n, g') = incr_state_change_no g in (a\<lparr>cr_free := False, cr_state_change_no := n\<rparr>, g'))"

definition CronAttr_calendarChanged ::
    "gregorian \<Rightarrow> calendar \<Rightarrow> cron_attr \<Rightarrow> ecf \<Rightarrow> (cron_attr \<times> ecf) option" where
  "CronAttr_calendarChanged greg c a g =
     (let (changed, ts) = ts_calendarChanged c (cr_timeSeries a);
          (a1, g1) = (if changed
                      then (let (n, g') = incr_state_change_no g
                            in (a\<lparr>cr_timeSeries := ts, cr_state_change_no := n\<rparr>, g'))
                      else (a\<lparr>cr_timeSeries := ts\<rparr>, g))
      in if cr_free a1 then Some (a1, g1)
         else Option.bind (CronAttr_isFree greg c a1)
                (\<lambda>b. Some (if b then CronAttr_setFree a1 g1 else (a1, g1))))"

definition CronAttr_reset_only :: "cron_attr \<Rightarrow> ecf \<Rightarrow> cron_attr \<times> ecf" where
  "CronAttr_reset_only a g =
     (let (a1, g1) = CronAttr_clearFree a g in (a1\<lparr>cr_timeSeries := ts_reset_only (cr_timeSeries a1)\<rparr>, g1))"

definition CronAttr_reset :: "calendar \<Rightarrow> cron_attr \<Rightarrow> ecf \<Rightarrow> (cron_attr \<times> ecf) option" where
  "CronAttr_reset c a g =
     (let (a1, g1) = CronAttr_clearFree a g
      in Option.bind (ts_reset c (cr_timeSeries a1)) (\<lambda>ts. Some (a1\<lparr>cr_timeSeries := ts\<rparr>, g1)))"

definition CronAttr_requeue :: "calendar \<Rightarrow> bool \<Rightarrow> cron_attr \<Rightarrow> ecf \<Rightarrow> (cron_attr \<times> ecf) option" where
  "CronAttr_requeue c reset_next_time_slot a g =
     (let (a1, g1) = CronAttr_clearFree a g
      in Option.bind (ts_requeue c reset_next_time_slot (cr_timeSeries a1))
           (\<lambda>ts. Some (a1\<lparr>cr_timeSeries := ts\<rparr>, g1)))"

definition CronAttr_miss_next_time_slot :: "cron_attr \<Rightarrow> ecf \<Rightarrow> cron_attr \<times> ecf" where
  "CronAttr_miss_next_time_slot a g =
     (let (n, g') = incr_state_change_no g
      in (a\<lparr>cr_timeSeries := ts_miss_next_time_slot (cr_timeSeries a), cr_state_change_no := n\<rparr>, g'))"

definition CronAttr_checkForRequeue :: "calendar \<Rightarrow> cron_attr \<Rightarrow> bool" where
  "CronAttr_checkForRequeue c a = True"

definition CronAttr_validForHybrid :: "calendar \<Rightarrow> cron_attr \<Rightarrow> bool" where
  "CronAttr_validForHybrid c a =
     (if hasIncrement (cr_timeSeries a)
      then if cr_last_day_of_month a then False
           else if cr_months a \<noteq> [] then False
           else if cr_daysOfMonth a \<noteq> [] then False
           else if cr_weekDays a \<noteq> []
           then if length (cr_weekDays a) \<noteq> 1 then False
                else cr_weekDays a ! 0 = cal_day_of_week c
           else True
      else False)"

text \<open>One turn of the loop of \<open>next_date\<close> for the day number \<open>f\<close>. \<open>future_date - future_date.end_of_month()\<close>
  is never positive.\<close>

fun cron_last_week_turn :: "gregorian \<Rightarrow> int \<Rightarrow> bool \<Rightarrow> int list \<Rightarrow> bool" where
  "cron_last_week_turn greg f b [] = b"
| "cron_last_week_turn greg f b (d # ds) =
     (if g_day_of_week (greg f) = d
      then (if f - g_end_of_month (greg f) < 7 then True else b)
      else cron_last_week_turn greg f b ds)"

definition cron_next_date_turn :: "gregorian \<Rightarrow> cron_attr \<Rightarrow> int \<Rightarrow> bool" where
  "cron_next_date_turn greg a f =
     (let w = (cr_weekDays a = [] \<or> week_day_matches (cr_weekDays a) (g_day_of_week (greg f)));
          lw = cron_last_week_turn greg f (cr_last_week_days_of_month a = []) (cr_last_week_days_of_month a);
          d0 = (if cr_daysOfMonth a = [] \<and> cr_last_day_of_month a then False else cr_daysOfMonth a = []);
          d = (if cr_daysOfMonth a \<noteq> [] \<or> cr_last_day_of_month a
               then d0 \<or> week_day_matches (cr_daysOfMonth a) (g_day (greg f)) \<or>
                    (cr_last_day_of_month a \<and> f = g_end_of_month (greg f))
               else d0);
          m = (cr_months a = [] \<or> week_day_matches (cr_months a) (g_month (greg f)))
      in (w \<or> lw) \<and> d \<and> m)"

partial_function (option) cron_next_date_loop :: "gregorian \<Rightarrow> cron_attr \<Rightarrow> int \<Rightarrow> int option" where
  "cron_next_date_loop greg a f =
     (if cron_next_date_turn greg a f then Some f else cron_next_date_loop greg a (f + 1))"

definition cron_next_date :: "gregorian \<Rightarrow> calendar \<Rightarrow> cron_attr \<Rightarrow> int option" where
  "cron_next_date greg c a = cron_next_date_loop greg a (cal_date c + 1)"

section \<open>\<open>LateAttr\<close>\<close>

record late_attr =
  la_s :: time_slot
  la_a :: time_slot
  la_c :: time_slot
  la_state_change_no :: "32 word"
  la_c_is_rel :: bool
  la_isLate :: bool

definition LateAttr_default :: late_attr where
  "LateAttr_default =
     \<lparr>la_s = NULL_slot, la_a = NULL_slot, la_c = NULL_slot, la_state_change_no = 0,
      la_c_is_rel = False, la_isLate = False\<rparr>"

definition LateAttr_isNull :: "late_attr \<Rightarrow> bool" where
  "LateAttr_isNull l = (slot_isNULL (la_s l) \<and> slot_isNULL (la_a l) \<and> slot_isNULL (la_c l))"

text \<open>\<open>state\<close> is the state of the node with the suite duration at which it was entered.\<close>

definition check_for_lateness :: "NState_State \<times> duration \<Rightarrow> calendar \<Rightarrow> late_attr \<Rightarrow> bool" where
  "check_for_lateness state c l =
     (if LateAttr_isNull l then False
      else if fst state = NS_SUBMITTED \<or> fst state = NS_QUEUED
      then if fst state = NS_SUBMITTED \<and> \<not> slot_isNULL (la_s l) \<and>
              cal_duration c - snd state \<ge> slot_duration (la_s l) then True
           else if \<not> slot_isNULL (la_a l) \<and> time_of_day (the (cal_suiteTime c)) \<ge> slot_duration (la_a l)
           then True else False
      else if fst state = NS_ACTIVE \<and> \<not> slot_isNULL (la_c l)
      then if la_c_is_rel l
           then cal_duration c - snd state \<ge> slot_duration (la_c l)
           else time_of_day (the (cal_suiteTime c)) \<ge> slot_duration (la_c l)
      else False)"

definition setLate :: "bool \<Rightarrow> late_attr \<Rightarrow> ecf \<Rightarrow> late_attr \<times> ecf" where
  "setLate f l g =
     (if f \<noteq> la_isLate l
      then (let (n, g') = incr_state_change_no g in (l\<lparr>la_isLate := f, la_state_change_no := n\<rparr>, g'))
      else (l, g))"

definition checkForLateness :: "NState_State \<times> duration \<Rightarrow> calendar \<Rightarrow> late_attr \<Rightarrow> ecf \<Rightarrow> late_attr \<times> ecf" where
  "checkForLateness state c l g =
     (if la_isLate l \<or> LateAttr_isNull l then (l, g)
      else if check_for_lateness state c l then setLate True l g
      else (l, g))"

definition override_with :: "late_attr option \<Rightarrow> late_attr \<Rightarrow> late_attr" where
  "override_with in_late l =
     (case in_late of
        None \<Rightarrow> l
      | Some i \<Rightarrow>
          let l1 = (if \<not> slot_isNULL (la_s i) then l\<lparr>la_s := la_s i\<rparr> else l);
              l2 = (if \<not> slot_isNULL (la_a i) then l1\<lparr>la_a := la_a i\<rparr> else l1);
              l3 = (if \<not> slot_isNULL (la_c i) then l2\<lparr>la_c := la_c i\<rparr> else l2)
          in l3\<lparr>la_c_is_rel := la_c_is_rel i\<rparr>)"

text \<open>An attribute without a complete time changes the meaning of the complete time it is put on: a relative time becomes a
  time of day.\<close>

lemma late_override_loses_relative:
  "slot_isNULL (la_c i) \<Longrightarrow>
     la_c (override_with (Some i) l) = la_c l \<and> la_c_is_rel (override_with (Some i) l) = la_c_is_rel i"
  by (simp add: override_with_def Let_def)

definition late_time :: "string \<Rightarrow> (bool \<times> time_slot) res" where
  "late_time tok = res_bind (getTime tok True) (\<lambda>(r, h, m). res_bind (mk_slot h m) (\<lambda>s. Inr (r, s)))"

text \<open>\<open>LateAttr::parse\<close> from the token where the options begin. \<open>lineTokens[i][0]\<close> of an empty
  token is the terminating zero.\<close>

fun LateAttr_parse_loop :: "late_attr \<Rightarrow> string list \<Rightarrow> late_attr res" where
  "LateAttr_parse_loop l [] = Inr l"
| "LateAttr_parse_loop l (t # ts) =
     (if starts_with (CHR ''#'') t then Inr l
      else if t = ''-s''
      then if \<not> slot_isNULL (la_s l)
           then Inl (Runtime_error ''LateParser::doParse: Invalid late, submitted specified twice :'')
           else (case ts of
                   [] \<Rightarrow> Inl (Runtime_error ''LateParser::doParse: Invalid late, submitted time not specified :'')
                 | u # us \<Rightarrow> (case late_time u of Inl e \<Rightarrow> Inl e
                             | Inr (r, s) \<Rightarrow> LateAttr_parse_loop (l\<lparr>la_s := s\<rparr>) us))
      else if t = ''-a''
      then if \<not> slot_isNULL (la_a l)
           then Inl (Runtime_error ''LateParser::doParse: Invalid late, active specified twice :'')
           else (case ts of
                   [] \<Rightarrow> Inl (Runtime_error ''LateParser::doParse: Invalid late, active time not specified :'')
                 | u # us \<Rightarrow> (case late_time u of Inl e \<Rightarrow> Inl e
                             | Inr (r, s) \<Rightarrow> LateAttr_parse_loop (l\<lparr>la_a := s\<rparr>) us))
      else if t = ''-c''
      then if \<not> slot_isNULL (la_c l)
           then Inl (Runtime_error ''LateParser::doParse: Invalid late, complete specified twice :'')
           else (case ts of
                   [] \<Rightarrow> Inl (Runtime_error ''LateParser::doParse: Invalid late, active time not specified :'')
                 | u # us \<Rightarrow> (case late_time u of Inl e \<Rightarrow> Inl e
                             | Inr (r, s) \<Rightarrow> LateAttr_parse_loop (l\<lparr>la_c := s, la_c_is_rel := r\<rparr>) us))
      else Inl (Runtime_error ''LateParser::doParse:5: Invalid late :''))"

definition LateAttr_parse :: "late_attr \<Rightarrow> string list \<Rightarrow> late_attr res" where
  "LateAttr_parse l toks =
     res_bind (LateAttr_parse_loop l toks) (\<lambda>l'.
       if LateAttr_isNull l' then Inl (Runtime_error ''LateParser::doParse:6: Invalid late :'') else Inr l')"

definition LateAttr_create :: "string \<Rightarrow> late_attr res" where
  "LateAttr_create lateString =
     (let lineTokens = split lateString [CHR '' '', CHR 0x09]
      in case lineTokens of
           [] \<Rightarrow> Inl (Runtime_error ''LateParser::create: empty string no late specified ?'')
         | t # ts \<Rightarrow> LateAttr_parse LateAttr_default (if t = ''late'' then ts else lineTokens))"

definition LateAttr_write :: "late_attr \<Rightarrow> string" where
  "LateAttr_write l =
     ''late'' @ (if \<not> slot_isNULL (la_s l) then '' -s +'' @ slot_write (la_s l) else []) @
     (if \<not> slot_isNULL (la_a l) then '' -a '' @ slot_write (la_a l) else []) @
     (if \<not> slot_isNULL (la_c l)
      then '' -c '' @ (if la_c_is_rel l then ''+'' else []) @ slot_write (la_c l) else [])"

section \<open>The latch the time attributes share\<close>

text \<open>A sequence of calendar updates, as the server sends them to an attribute.\<close>

fun latch_run :: "(calendar \<Rightarrow> 'a \<Rightarrow> ecf \<Rightarrow> ('a \<times> ecf) option) \<Rightarrow> calendar list \<Rightarrow> 'a \<Rightarrow> ecf \<Rightarrow> ('a \<times> ecf) option" where
  "latch_run step [] a g = Some (a, g)"
| "latch_run step (c # cs) a g = Option.bind (step c a g) (\<lambda>(a1, g1). latch_run step cs a1 g1)"

text \<open>The interface: what the owner of a time attribute relies on. \<open>changed\<close> is the part of a
  calendar update that does not depend on the latch, \<open>free_now\<close> the test of the current time.\<close>

locale free_latch =
  fixes isSetFree :: "'a \<Rightarrow> bool"
    and free_now :: "calendar \<Rightarrow> 'a \<Rightarrow> bool option"
    and changed :: "calendar \<Rightarrow> 'a \<Rightarrow> ecf \<Rightarrow> 'a \<times> ecf"
    and setFree :: "'a \<Rightarrow> ecf \<Rightarrow> 'a \<times> ecf"
    and calendarChanged :: "calendar \<Rightarrow> 'a \<Rightarrow> ecf \<Rightarrow> ('a \<times> ecf) option"
    and inv :: "'a \<Rightarrow> bool"
  assumes changed_keeps: "inv a \<Longrightarrow> 0 \<le> cal_increment c \<Longrightarrow>
      inv (fst (changed c a g)) \<and> isSetFree (fst (changed c a g)) = isSetFree a"
    and free_now_returns: "inv a \<Longrightarrow> \<exists>b. free_now c a = Some b"
    and setFree_sets: "isSetFree (fst (setFree a g))"
    and setFree_keeps: "inv a \<Longrightarrow> inv (fst (setFree a g))"
    and calendarChanged_eq: "calendarChanged c a g =
      (let (a1, g1) = changed c a g
       in if isSetFree a1 then Some (a1, g1)
          else Option.bind (free_now c a1) (\<lambda>b. Some (if b then setFree a1 g1 else (a1, g1))))"
begin

lemma step_returns:
  assumes "inv a" "0 \<le> cal_increment c"
  shows "\<exists>a' g'. calendarChanged c a g = Some (a', g') \<and> inv a' \<and> (isSetFree a \<longrightarrow> isSetFree a')"
proof -
  obtain a1 g1 where ch: "changed c a g = (a1, g1)" by fastforce
  with changed_keeps [OF assms, of g] have a1: "inv a1" "isSetFree a1 = isSetFree a" by auto
  obtain b where b: "free_now c a1 = Some b" using free_now_returns [OF a1(1)] by blast
  obtain a2 g2 where st: "setFree a1 g1 = (a2, g2)" by fastforce
  have "inv a2" "isSetFree a2" using setFree_keeps [OF a1(1), of g1] setFree_sets [of a1 g1] st by auto
  with ch a1 b st show ?thesis by (auto simp: calendarChanged_eq)
qed

lemma run_returns:
  assumes "inv a" "\<forall>c \<in> set cs. 0 \<le> cal_increment c"
  shows "\<exists>a' g'. latch_run calendarChanged cs a g = Some (a', g') \<and> inv a' \<and> (isSetFree a \<longrightarrow> isSetFree a')"
  using assms
proof (induction cs arbitrary: a g)
  case (Cons c cs)
  from Cons.prems obtain a1 g1 where s: "calendarChanged c a g = Some (a1, g1)" "inv a1" "isSetFree a \<longrightarrow> isSetFree a1"
    using step_returns [of a c g] by auto
  from Cons.IH [OF s(2), of g1] Cons.prems s show ?case by auto
qed simp

text \<open>While the calendar only moves the time of day, the latch records whether some update fell on
  a free time.\<close>

lemma run_free_iff:
  assumes "inv a" "\<forall>c \<in> set cs. 0 \<le> cal_increment c" "\<And>c g. c \<in> set cs \<Longrightarrow> changed c a g = (a, g)"
    and "latch_run calendarChanged cs a g = Some (a', g')"
  shows "isSetFree a' \<longleftrightarrow> isSetFree a \<or> (\<exists>c \<in> set cs. free_now c a = Some True)"
  using assms
proof (induction cs arbitrary: g)
  case (Cons c cs)
  obtain b where b: "free_now c a = Some b" using free_now_returns [OF Cons.prems(1)] by blast
  have ch: "changed c a g = (a, g)" using Cons.prems(3) by simp
  show ?case
  proof (cases "isSetFree a \<or> b")
    case True
    obtain a1 g1 where s: "calendarChanged c a g = Some (a1, g1)" "inv a1" "isSetFree a \<longrightarrow> isSetFree a1"
      using step_returns [OF Cons.prems(1), of c g] Cons.prems(2) by auto
    have "isSetFree a1"
    proof (cases "isSetFree a")
      case False
      with True s(1) ch b setFree_sets [of a g] show ?thesis by (auto simp: calendarChanged_eq)
    qed (use s in simp)
    moreover have "latch_run calendarChanged cs a1 g1 = Some (a', g')" using Cons.prems(4) s(1) by simp
    ultimately have "isSetFree a'" using run_returns [OF s(2), of cs g1] Cons.prems(2) by auto
    with True b show ?thesis by auto
  next
    case False
    then have "calendarChanged c a g = Some (a, g)" using ch b by (simp add: calendarChanged_eq)
    with Cons.prems(4) have "latch_run calendarChanged cs a g = Some (a', g')" by simp
    from Cons.IH [OF Cons.prems(1) _ _ this] Cons.prems(2,3) False b show ?thesis by auto
  qed
qed simp

end

definition ta_inv :: "time_attr \<Rightarrow> bool" where
  "ta_inv a = ts_inv (ta_ts a)"

lemma TimeAttr_setFree_fields [simp]:
  "ta_free (fst (TimeAttr_setFree a g))" "ta_ts (fst (TimeAttr_setFree a g)) = ta_ts a"
  by (simp_all add: TimeAttr_setFree_def split: prod.split)

lemma TimeAttr_series_changed_keeps:
  "ta_inv a \<Longrightarrow> 0 \<le> cal_increment c \<Longrightarrow>
     ta_inv (fst (TimeAttr_series_changed c a g)) \<and> ta_free (fst (TimeAttr_series_changed c a g)) = ta_free a"
  using ts_calendarChanged_inv [of "ta_ts a" c]
  by (auto simp: ta_inv_def TimeAttr_series_changed_def split: prod.splits)

lemma TodayAttr_is_free_returns: "ta_inv a \<Longrightarrow> \<exists>b. TodayAttr_is_free c a = Some b"
  using ts_isFree_eq [of "ta_ts a" c] by (auto simp: ta_inv_def TodayAttr_is_free_def)

interpretation timeattr: free_latch ta_free "\<lambda>c a. ts_isFree c (ta_ts a)" TimeAttr_series_changed
  TimeAttr_setFree TimeAttr_calendarChanged ta_inv
proof unfold_locales
  fix a c g
  show "ta_inv a \<Longrightarrow> \<exists>b. ts_isFree c (ta_ts a) = Some b"
    using ts_isFree_eq [of "ta_ts a" c] by (auto simp: ta_inv_def)
  show "TimeAttr_calendarChanged c a g = (let (a1, g1) = TimeAttr_series_changed c a g
       in if ta_free a1 then Some (a1, g1)
          else Option.bind (ts_isFree c (ta_ts a1)) (\<lambda>b. Some (if b then TimeAttr_setFree a1 g1 else (a1, g1))))"
    by (simp add: TimeAttr_calendarChanged_def TimeAttr_isFree_def split: prod.split)
qed (simp_all add: TimeAttr_series_changed_keeps, simp add: ta_inv_def)

interpretation todayattr: free_latch ta_free TodayAttr_is_free TimeAttr_series_changed
  TimeAttr_setFree TodayAttr_calendarChanged ta_inv
proof unfold_locales
  fix a c g
  show "ta_inv a \<Longrightarrow> \<exists>b. TodayAttr_is_free c a = Some b" by (rule TodayAttr_is_free_returns)
  show "TodayAttr_calendarChanged c a g = (let (a1, g1) = TimeAttr_series_changed c a g
       in if ta_free a1 then Some (a1, g1)
          else Option.bind (TodayAttr_is_free c a1) (\<lambda>b. Some (if b then TimeAttr_setFree a1 g1 else (a1, g1))))"
    by (simp add: TodayAttr_calendarChanged_def TodayAttr_isFree_def split: prod.split)
qed (simp_all add: TimeAttr_series_changed_keeps, simp add: ta_inv_def)

definition cr_inv :: "cron_attr \<Rightarrow> bool" where
  "cr_inv a = ts_inv (cr_timeSeries a)"

definition cron_series_changed :: "calendar \<Rightarrow> cron_attr \<Rightarrow> ecf \<Rightarrow> cron_attr \<times> ecf" where
  "cron_series_changed c a g =
     (let (changed, ts) = ts_calendarChanged c (cr_timeSeries a)
      in if changed
         then (let (n, g') = incr_state_change_no g
               in (a\<lparr>cr_timeSeries := ts, cr_state_change_no := n\<rparr>, g'))
         else (a\<lparr>cr_timeSeries := ts\<rparr>, g))"

definition cron_free_now :: "gregorian \<Rightarrow> calendar \<Rightarrow> cron_attr \<Rightarrow> bool option" where
  "cron_free_now greg c a = map_option (\<lambda>b. b \<and> is_day_of_week_day_of_month_and_month_free greg c a) (ts_isFree c (cr_timeSeries a))"

interpretation cronattr: free_latch cr_free "cron_free_now greg" cron_series_changed
  CronAttr_setFree "CronAttr_calendarChanged greg" cr_inv
proof unfold_locales
  fix a c g
  show "cr_inv a \<Longrightarrow> \<exists>b. cron_free_now greg c a = Some b"
    using ts_isFree_eq [of "cr_timeSeries a" c] by (auto simp: cr_inv_def cron_free_now_def)
  show "cr_inv a \<Longrightarrow> 0 \<le> cal_increment c \<Longrightarrow>
      cr_inv (fst (cron_series_changed c a g)) \<and> cr_free (fst (cron_series_changed c a g)) = cr_free a"
    using ts_calendarChanged_inv [of "cr_timeSeries a" c]
    by (auto simp: cr_inv_def cron_series_changed_def split: prod.splits)
  show "CronAttr_calendarChanged greg c a g = (let (a1, g1) = cron_series_changed c a g
       in if cr_free a1 then Some (a1, g1)
          else Option.bind (cron_free_now greg c a1) (\<lambda>b. Some (if b then CronAttr_setFree a1 g1 else (a1, g1))))"
    by (cases "ts_calendarChanged c (cr_timeSeries a)")
      (auto simp: CronAttr_calendarChanged_def CronAttr_isFree_def cron_series_changed_def cron_free_now_def
        Let_def bind_map_option comp_def split: prod.split intro!: arg_cong [where f = "Option.bind x" for x])
qed (auto simp: CronAttr_setFree_def cr_inv_def split: prod.split)

section \<open>Reading back a late attribute\<close>

lemma tokens_of_part:
  assumes "set t \<inter> set d = {}" "t \<noteq> []" "r = [] \<or> hd r \<in> set d"
  shows "tokens_of d (t @ r) = t # tokens_of d r"
proof (cases r)
  case Nil
  have "tokens_of d (t @ []) = [t]"
  proof (cases d)
    case Nil
    have "segments [] t = [t]" for t by (induction t) simp_all
    with Nil assms(2) show ?thesis by (simp add: tokens_of_def)
  next
    case (Cons x xs)
    then show ?thesis using tokens_of_cut(2) [OF assms(1,2), of x] by simp
  qed
  with Nil show ?thesis by simp
next
  case (Cons c r')
  with assms tokens_of_cut(1) [OF assms(1,2), of c r'] tokens_of_skip_one [of c d r'] show ?thesis by simp
qed

text \<open>One option of the printed form.\<close>

definition late_part :: "char \<Rightarrow> bool \<Rightarrow> time_slot \<Rightarrow> string" where
  "late_part k rel s =
     (if slot_isNULL s then [] else CHR '' '' # CHR ''-'' # k # CHR '' '' # rel_prefix rel (slot_write s))"

lemma late_part_tokens:
  assumes "slot_isNULL s \<or> slot_ok s \<and> hour s < 24" "r = [] \<or> hd r = CHR '' ''" "k \<noteq> CHR '' ''" "k \<noteq> CHR 0x09"
  shows "tokens_of [CHR '' '', CHR 0x09] (late_part k rel s @ r) =
    (if slot_isNULL s then [] else [[CHR ''-'', k], rel_prefix rel (slot_write s)]) @ tokens_of [CHR '' '', CHR 0x09] r"
proof (cases "slot_isNULL s")
  case False
  let ?d = "[CHR '' '', CHR 0x09]"
  from False assms(1) have ok: "slot_ok s" "hour s < 24" by auto
  have "tokens_of ?d ([CHR ''-'', k] @ CHR '' '' # x) = [CHR ''-'', k] # tokens_of ?d x" for x
    using tokens_of_cut(1) [of "[CHR ''-'', k]" ?d "CHR '' ''" x] assms(3,4) by simp
  then have part: "tokens_of ?d (CHR '' '' # CHR ''-'' # k # CHR '' '' # x) = [CHR ''-'', k] # tokens_of ?d x" for x
    by (simp add: tokens_of_skip_one)
  have "tokens_of ?d (rel_prefix rel (slot_write s) @ r) = rel_prefix rel (slot_write s) # tokens_of ?d r"
  proof (cases r)
    case Nil
    then show ?thesis using slot_tokens(3) [OF ok, of rel] by simp
  next
    case (Cons c r')
    with assms(2) show ?thesis using slot_tokens(2) [OF ok, of rel r'] tokens_of_skip_one [of "CHR '' ''" ?d r'] by simp
  qed
  with False part show ?thesis by (simp add: late_part_def)
qed (simp add: late_part_def)

lemma late_part_hd: "late_part k rel s = [] \<or> hd (late_part k rel s) = CHR '' ''"
  by (simp add: late_part_def)

lemma late_time_slot:
  assumes "slot_ok s" "hour s < 24"
  shows "late_time (rel_prefix rel (slot_write s)) = Inr (rel, s)"
proof (cases rel)
  case False
  with getTime_slot_write [OF assms] mk_slot_ok [OF assms(1)] show ?thesis
    by (simp add: late_time_def rel_prefix_def)
next
  case True
  obtain a b c d where abcd: "pad2 (hour s) = [a, b]" "pad2 (minute s) = [c, d]" "a \<noteq> CHR '':''" "b \<noteq> CHR '':''"
    using slot_write_digits(2) [OF assms] by auto
  have r: "0 \<le> hour s" "hour s < 100" "0 \<le> minute s" "minute s < 100" "minute s < 60" using assms by (auto simp: slot_ok_def)
  have t: "theInt [a, b] e = Inr (hour s)" "theInt [c, d] e = Inr (minute s)" for e
    using theInt_pad2 [OF r(1,2)] theInt_pad2 [OF r(3,4)] abcd by simp_all
  have "getTime (CHR ''+'' # slot_write s) True = Inr (True, hour s, minute s)"
    using slot_write_digits(1) [OF assms] abcd t r assms(2)
    by (simp add: getTime_def starts_with_def testTime_def)
  with True mk_slot_ok [OF assms(1)] show ?thesis by (simp add: late_time_def rel_prefix_def)
qed

definition late_ok :: "late_attr \<Rightarrow> bool" where
  "late_ok l \<longleftrightarrow> (\<forall>s \<in> {la_s l, la_a l, la_c l}. slot_isNULL s \<or> slot_ok s \<and> hour s < 24) \<and> \<not> LateAttr_isNull l \<and>
     (slot_isNULL (la_c l) \<longrightarrow> \<not> la_c_is_rel l)"

lemma LateAttr_write_tokens:
  assumes "late_ok l"
  shows "split (LateAttr_write l) [CHR '' '', CHR 0x09] = ''late'' #
    (if slot_isNULL (la_s l) then [] else [''-s'', rel_prefix True (slot_write (la_s l))]) @
    (if slot_isNULL (la_a l) then [] else [''-a'', rel_prefix False (slot_write (la_a l))]) @
    (if slot_isNULL (la_c l) then [] else [''-c'', rel_prefix (la_c_is_rel l) (slot_write (la_c l))])"
proof -
  let ?d = "[CHR '' '', CHR 0x09]"
  let ?S = "late_part (CHR ''s'') True (la_s l)" and ?A = "late_part (CHR ''a'') False (la_a l)"
    and ?C = "late_part (CHR ''c'') (la_c_is_rel l) (la_c l)"
  have ok: "slot_isNULL s \<or> slot_ok s \<and> hour s < 24" if "s \<in> {la_s l, la_a l, la_c l}" for s
    using assms that by (auto simp: late_ok_def)
  have w: "LateAttr_write l = ''late'' @ ?S @ ?A @ ?C @ []"
    by (simp add: LateAttr_write_def late_part_def rel_prefix_def)
  have hds: "?C @ [] = [] \<or> hd (?C @ []) = CHR '' ''" "?A @ ?C @ [] = [] \<or> hd (?A @ ?C @ []) = CHR '' ''"
    "?S @ ?A @ ?C @ [] = [] \<or> hd (?S @ ?A @ ?C @ []) \<in> set ?d"
    by (auto simp: late_part_def)
  have "tokens_of ?d (LateAttr_write l) = ''late'' # tokens_of ?d (?S @ ?A @ ?C @ [])"
    unfolding w by (rule tokens_of_part [OF _ _ hds(3)]) simp_all
  also have "tokens_of ?d (?S @ ?A @ ?C @ []) = (if slot_isNULL (la_s l) then [] else [''-s'', rel_prefix True (slot_write (la_s l))]) @ tokens_of ?d (?A @ ?C @ [])"
    using ok by (intro late_part_tokens hds) simp_all
  also have "tokens_of ?d (?A @ ?C @ []) = (if slot_isNULL (la_a l) then [] else [''-a'', rel_prefix False (slot_write (la_a l))]) @ tokens_of ?d (?C @ [])"
    using ok by (intro late_part_tokens hds) simp_all
  also have "tokens_of ?d (?C @ []) = (if slot_isNULL (la_c l) then [] else [''-c'', rel_prefix (la_c_is_rel l) (slot_write (la_c l))]) @ tokens_of ?d []"
    using ok by (intro late_part_tokens) simp_all
  finally show ?thesis by (simp add: split_eq)
qed

section \<open>Properties\<close>

text \<open>What a requeue at \<open>c0\<close> leaves to wait for.\<close>

lemma ts_requeued_free:
  assumes "ts_inv ts" "\<not> ts_relative ts" "ts_requeue c0 True ts = Some ts1"
  shows "ts_inv ts1" "\<not> ts_relative ts1"
    "ts_isFree c ts1 = Some (ts_duration c ts \<in> ts_slots ts \<and> ts_duration c0 ts < ts_duration c ts)"
proof -
  from ts_requeue_spec [OF assms(1), of c0 True] assms
  have ts1: "ts_inv ts1" "ts_relative ts1 = ts_relative ts" "ts_relativeDuration ts1 = 0"
    by (auto simp: ts_inv_def [of ts])
  then show "ts_inv ts1" "\<not> ts_relative ts1" using assms(2) by simp_all
  have rel0: "ts1\<lparr>ts_relativeDuration := 0\<rparr> = ts1" using ts1(3) by simp
  have "ts_duration c ts1 = ts_duration c ts" using ts1(2) assms(2) by (simp add: ts_duration_def)
  then show "ts_isFree c ts1 = Some (ts_duration c ts \<in> ts_slots ts \<and> ts_duration c0 ts < ts_duration c ts)"
    using ts_requeue_next [OF assms(1,3)] rel0
    by (auto simp: Let_def dest!: conjunct2 spec [where x = c] spec [where x = 0])
qed

text \<open>When a time attribute fires: after a requeue at time \<open>t0\<close>, any sequence of calendar
  updates of the same day returns, and leaves the attribute free exactly when one of the updates fell
  in the minute of a slot after \<open>t0\<close>. A slot fires even if later updates have passed it, and a slot
  at or before the requeue does not fire again.\<close>

theorem time_attr_fires:
  assumes "ta_inv a" "\<not> ts_relative (ta_ts a)" "TimeAttr_requeue c0 True a g0 = Some (a1, g1)"
    and "\<forall>c \<in> set cs. 0 \<le> cal_increment c \<and> \<not> cal_dayChanged c"
  shows "\<exists>a2 g2. latch_run TimeAttr_calendarChanged cs a1 g1 = Some (a2, g2) \<and>
    (ta_free a2 \<longleftrightarrow> (\<exists>c \<in> set cs. ts_duration c (ta_ts a) \<in> ts_slots (ta_ts a) \<and>
                                 ts_duration c0 (ta_ts a) < ts_duration c (ta_ts a)))"
proof -
  from assms(3) obtain ts1 n where r: "ts_requeue c0 True (ta_ts a) = Some ts1"
    "a1 = a\<lparr>ta_free := False, ta_state_change_no := n, ta_ts := ts1\<rparr>"
    by (auto simp: TimeAttr_requeue_def TimeAttr_clearFree_def split: prod.splits bind_splits)
  note ts1 = ts_requeued_free [OF assms(1) [unfolded ta_inv_def] assms(2) r(1)]
  have inv1: "ta_inv a1" using ts1(1) r(2) by (simp add: ta_inv_def)
  have pos: "\<forall>c \<in> set cs. 0 \<le> cal_increment c" using assms(4) by blast
  have quiet: "TimeAttr_series_changed c a1 g = (a1, g)" if "c \<in> set cs" for c g
    using assms(4) that ts1(2) r(2) by (simp add: TimeAttr_series_changed_def ts_calendarChanged_def)
  obtain a2 g2 where run: "latch_run TimeAttr_calendarChanged cs a1 g1 = Some (a2, g2)"
    using timeattr.run_returns [OF inv1 pos] by blast
  from timeattr.run_free_iff [OF inv1 pos quiet run] r(2) ts1(3) show ?thesis using run by auto
qed

text \<open>A requeue just before half past eleven, then an update each hour.\<close>

definition noon_polls :: "calendar list" where
  "noon_polls = map (\<lambda>h. Calendar_begin week_only 0 (h * 3600) Calendar_default) [12, 13, 14]"

lemma noon_polls_hit:
  "\<forall>c \<in> set noon_polls. 0 \<le> cal_increment c \<and> \<not> cal_dayChanged c"
  "\<exists>c \<in> set noon_polls. ts_duration c every_three_hours \<in> ts_slots every_three_hours \<and>
     ts_duration half_past_eleven every_three_hours < ts_duration c every_three_hours"
proof -
  let ?c = "Calendar_begin week_only 0 (13 * 3600) Calendar_default"
  show "\<forall>c \<in> set noon_polls. 0 \<le> cal_increment c \<and> \<not> cal_dayChanged c"
    by (simp add: noon_polls_def Calendar_begin_def update_cache_def Let_def)
  have m: "?c \<in> set noon_polls" by (simp add: noon_polls_def)
  have d: "ts_duration ?c every_three_hours = 46800"
    by (simp add: ts_duration_def every_three_hours_def Calendar_begin_def update_cache_def Let_def time_of_day_def
        td_floor_minute_nonneg)
  have "ts_slot_at every_three_hours 1 = 46800"
    by (simp add: ts_slot_at_def every_three_hours_def slot_duration_def)
  then have "46800 \<in> ts_slots every_three_hours"
    using every_three_hours_inv(2) unfolding ts_slots_def
    by (auto simp: every_three_hours_def slot_duration_def intro!: exI [of _ "1::nat"])
  with d every_three_hours_duration m
  show "\<exists>c \<in> set noon_polls. ts_duration c every_three_hours \<in> ts_slots every_three_hours \<and>
     ts_duration half_past_eleven every_three_hours < ts_duration c every_three_hours"
    by (intro bexI [of _ ?c]) simp_all
qed

theorem time_attr_fires_witness:
  "\<exists>a1 g1 a2 g2. TimeAttr_requeue half_past_eleven True (TimeAttr every_three_hours)
       \<lparr>ecf_server = True, ecf_state_change_no = 0, ecf_modify_change_no = 0\<rparr> = Some (a1, g1) \<and>
     latch_run TimeAttr_calendarChanged noon_polls a1 g1 = Some (a2, g2) \<and> ta_free a2"
proof -
  let ?a = "TimeAttr every_three_hours"
    and ?g = "\<lparr>ecf_server = True, ecf_state_change_no = 0, ecf_modify_change_no = 0\<rparr>"
  have inv: "ta_inv ?a" "\<not> ts_relative (ta_ts ?a)" "ta_ts ?a = every_three_hours"
    using every_three_hours_inv by (simp_all add: ta_inv_def TimeAttr_def every_three_hours_def)
  obtain ts' where r: "ts_requeue half_past_eleven True every_three_hours = Some ts'"
    using ts_requeue_spec [OF every_three_hours_inv(1)] by blast
  then obtain a1 g1 where q: "TimeAttr_requeue half_past_eleven True ?a ?g = Some (a1, g1)"
    by (simp add: TimeAttr_requeue_def TimeAttr_clearFree_def TimeAttr_def incr_state_change_no_def Let_def)
  with time_attr_fires [OF inv(1,2) q noon_polls_hit(1)] q show ?thesis
    using noon_polls_hit(2) unfolding inv(3) by auto
qed

text \<open>The latch of the three time attributes: whatever the sequence of calendar updates, even
  over a change of day, the updates return, keep the attribute well formed, and once it is free it
  stays free.\<close>

theorem time_attrs_once_free:
  assumes "ta_inv a" "cr_inv cr" "\<forall>c \<in> set cs. 0 \<le> cal_increment c"
  shows "(\<exists>a' g'. latch_run TimeAttr_calendarChanged cs a g = Some (a', g') \<and> ta_inv a' \<and> (ta_free a \<longrightarrow> ta_free a')) \<and>
    (\<exists>a' g'. latch_run TodayAttr_calendarChanged cs a g = Some (a', g') \<and> ta_inv a' \<and> (ta_free a \<longrightarrow> ta_free a')) \<and>
    (\<exists>cr' g'. latch_run (CronAttr_calendarChanged greg) cs cr g = Some (cr', g') \<and> cr_inv cr' \<and> (cr_free cr \<longrightarrow> cr_free cr'))"
  using timeattr.run_returns [OF assms(1,3), of g] todayattr.run_returns [OF assms(1,3), of g]
    cronattr.run_returns [OF assms(2,3), of greg g] by blast

definition plain_cron :: cron_attr where
  "plain_cron =
     \<lparr>cr_timeSeries = every_three_hours, cr_weekDays = [], cr_last_week_days_of_month = [],
      cr_daysOfMonth = [], cr_months = [], cr_state_change_no = 0, cr_last_day_of_month = False, cr_free = True\<rparr>"

theorem time_attrs_once_free_witness:
  "\<exists>cr' g'. latch_run (CronAttr_calendarChanged week_only) noon_polls plain_cron
      \<lparr>ecf_server = True, ecf_state_change_no = 0, ecf_modify_change_no = 0\<rparr> = Some (cr', g') \<and> cr_free cr'"
proof -
  have "ta_inv (TimeAttr every_three_hours)" "cr_inv plain_cron" "cr_free plain_cron"
    using every_three_hours_inv by (simp_all add: ta_inv_def TimeAttr_def cr_inv_def plain_cron_def)
  moreover have "\<forall>c \<in> set noon_polls. 0 \<le> cal_increment c"
    by (simp add: noon_polls_def Calendar_begin_def update_cache_def Let_def)
  ultimately show ?thesis using time_attrs_once_free [of "TimeAttr every_three_hours" plain_cron noon_polls] by blast
qed

lemma week_day_matches_iff: "week_day_matches ds d \<longleftrightarrow> d \<in> set ds"
  by (induction ds) auto

lemma last_week_day_loop_iff: "last_week_day_loop w diff ds \<longleftrightarrow> w \<in> set ds \<and> diff < 7"
  by (induction ds) auto

text \<open>The date part of a cron: the options \<open>-w\<close>, \<open>-d\<close> and \<open>-m\<close> are each satisfied when absent
  or when one of their elements holds (a week day, the last such week day of the month, a day of the
  month, its last day, a month), and the three are conjoined.\<close>

theorem cron_date_free:
  "is_day_of_week_day_of_month_and_month_free greg c a \<longleftrightarrow>
     (cr_weekDays a = [] \<and> cr_last_week_days_of_month a = [] \<or>
      cal_day_of_week c \<in> set (cr_weekDays a) \<or>
      cal_day_of_week c \<in> set (cr_last_week_days_of_month a) \<and> g_end_of_month (greg (cal_date c)) - cal_date c < 7) \<and>
     (if cr_daysOfMonth a = [] \<and> cr_last_day_of_month a = False then True
      else cal_day_of_month c \<in> set (cr_daysOfMonth a) \<or>
           cr_last_day_of_month a \<and> cal_date c = g_end_of_month (greg (cal_date c))) \<and>
     (cr_months a = [] \<or> cal_month c \<in> set (cr_months a))"
  by (auto simp: is_day_of_week_day_of_month_and_month_free_def Let_def week_day_matches_iff
      last_week_day_of_month_matches_def last_week_day_loop_iff day_of_month_matches_def month_matches_def)

lemma cron_last_week_turn_True: "cron_last_week_turn greg f True ds"
  by (induction ds) auto

text \<open>The date that \<open>why\<close> announces for a cron restricted to week days ignores the
  restriction: an absent list counts as a match in the disjunction of week days and last week days,
  so \<open>next_date\<close> of a cron with only \<open>-w\<close> is always the day after the calendar's date, whatever
  its week day.\<close>

theorem cron_next_date_ignores_week_days:
  assumes "cr_weekDays a = [] \<or> cr_last_week_days_of_month a = []"
    and "cr_daysOfMonth a = []" "\<not> cr_last_day_of_month a" "cr_months a = []"
  shows "cron_next_date greg c a = Some (cal_date c + 1)"
proof -
  have "cron_next_date_turn greg a f" for f
    using assms by (auto simp: cron_next_date_turn_def Let_def cron_last_week_turn_True)
  then show ?thesis by (simp add: cron_next_date_def cron_next_date_loop.simps)
qed

theorem cron_next_date_ignores_week_days_witness:
  "cron_next_date week_only half_past_eleven (plain_cron\<lparr>cr_weekDays := [4]\<rparr>) = Some 1 \<and>
   g_day_of_week (week_only 1) \<noteq> 4"
proof -
  have "cal_date half_past_eleven = 0" by (simp add: cal_date_def half_past_eleven_time day_of_time_def)
  with cron_next_date_ignores_week_days [of "plain_cron\<lparr>cr_weekDays := [4]\<rparr>" week_only half_past_eleven]
  show ?thesis by (simp add: plain_cron_def week_only_def)
qed

text \<open>A late attribute survives being written and read: \<open>create\<close> of the printed form returns
  the same submitted, active and complete times and the same relative flag, not late.\<close>

theorem late_write_create:
  assumes "late_ok l"
  shows "LateAttr_create (LateAttr_write l) = Inr (l\<lparr>la_state_change_no := 0, la_isLate := False\<rparr>)"
proof -
  have ok: "\<not> slot_isNULL s \<longrightarrow> slot_ok s \<and> hour s < 24" if "s \<in> {la_s l, la_a l, la_c l}" for s
    using assms that by (auto simp: late_ok_def)
  have times: "\<not> slot_isNULL s \<Longrightarrow> s \<in> {la_s l, la_a l, la_c l} \<Longrightarrow> late_time (rel_prefix rel (slot_write s)) = Inr (rel, s)" for s rel
    using ok [of s] late_time_slot [of s rel] by blast
  have null: "slot_isNULL NULL_slot" "\<And>s. slot_isNULL s \<Longrightarrow> s = NULL_slot" by (simp_all add: slot_isNULL_iff)
  have nn: "\<not> LateAttr_isNull l" "slot_isNULL (la_c l) \<Longrightarrow> \<not> la_c_is_rel l" using assms by (auto simp: late_ok_def)
  have "LateAttr_parse_loop LateAttr_default
      ((if slot_isNULL (la_s l) then [] else [''-s'', rel_prefix True (slot_write (la_s l))]) @
       (if slot_isNULL (la_a l) then [] else [''-a'', rel_prefix False (slot_write (la_a l))]) @
       (if slot_isNULL (la_c l) then [] else [''-c'', rel_prefix (la_c_is_rel l) (slot_write (la_c l))]))
     = Inr (l\<lparr>la_state_change_no := 0, la_isLate := False\<rparr>)"
    using null nn(2)
    by (cases l) (auto simp: LateAttr_default_def starts_with_def times dest: null(2))
  moreover have "\<not> LateAttr_isNull (l\<lparr>la_state_change_no := 0, la_isLate := False\<rparr>)"
    using nn(1) by (simp add: LateAttr_isNull_def)
  ultimately show ?thesis
    by (simp add: LateAttr_create_def LateAttr_write_tokens [OF assms] LateAttr_parse_def)
qed

theorem late_write_create_witness:
  "LateAttr_create ''late -s +00:15 -c +02:00'' =
     Inr (LateAttr_default\<lparr>la_s := TimeSlot 0 15, la_c := TimeSlot 2 0, la_c_is_rel := True\<rparr>)"
proof -
  let ?l = "LateAttr_default\<lparr>la_s := TimeSlot 0 15, la_c := TimeSlot 2 0, la_c_is_rel := True\<rparr>"
  have "late_ok ?l"
    by (simp add: late_ok_def LateAttr_default_def LateAttr_isNull_def slot_isNULL_def NULL_slot_def slot_ok_def)
  moreover have "LateAttr_write ?l = ''late -s +00:15 -c +02:00''"
    by (simp add: LateAttr_write_def LateAttr_default_def slot_write_def slot_isNULL_def NULL_slot_def pad2_digits digit_char_def)
  ultimately show ?thesis using late_write_create [of ?l] by (simp add: LateAttr_default_def)
qed

end
