(* ===== verification/Day_Date.thy ===== *)
theory Day_Date
  imports Time_Attrs
begin

text \<open>
  The attributes that hold a node until a date: \<open>DayAttr\<close> (a week day, with the date it waits for and
  an \<open>expired\<close> mark) and \<open>DateAttr\<close> (day, month and year, zero standing for any), in \<open>ANattr/src\<close>.
  The calendar of Boost is the parameter \<open>greg\<close>; \<open>gregValid y m d\<close> stands for the constructor of
  \<open>boost::gregorian::date\<close> accepting a date and \<open>gregDay y m d\<close> for its day number.
\<close>

section \<open>\<open>DayAttr\<close>\<close>

datatype Day_t = SUNDAY | MONDAY | TUESDAY | WEDNESDAY | THURSDAY | FRIDAY | SATURDAY

fun day_number :: "Day_t \<Rightarrow> int" where
  "day_number SUNDAY = 0"
| "day_number MONDAY = 1"
| "day_number TUESDAY = 2"
| "day_number WEDNESDAY = 3"
| "day_number THURSDAY = 4"
| "day_number FRIDAY = 5"
| "day_number SATURDAY = 6"

fun theDay :: "Day_t \<Rightarrow> string" where
  "theDay SUNDAY = ''sunday''"
| "theDay MONDAY = ''monday''"
| "theDay TUESDAY = ''tuesday''"
| "theDay WEDNESDAY = ''wednesday''"
| "theDay THURSDAY = ''thursday''"
| "theDay FRIDAY = ''friday''"
| "theDay SATURDAY = ''saturday''"

definition getDay :: "string \<Rightarrow> Day_t res" where
  "getDay day =
     (if day = ''monday'' then Inr MONDAY
      else if day = ''tuesday'' then Inr TUESDAY
      else if day = ''wednesday'' then Inr WEDNESDAY
      else if day = ''thursday'' then Inr THURSDAY
      else if day = ''friday'' then Inr FRIDAY
      else if day = ''saturday'' then Inr SATURDAY
      else if day = ''sunday'' then Inr SUNDAY
      else Inl (Runtime_error ''Invalid day(''))"

definition allDays :: "string list" where
  "allDays = [''monday'', ''tuesday'', ''wednesday'', ''thursday'', ''friday'', ''saturday'', ''sunday'']"

text \<open>The date is a day number, \<open>None\<close> when it is special.\<close>

record day_attr =
  da_day :: Day_t
  da_free :: bool
  da_expired :: bool
  da_date :: "int option"
  da_state_change_no :: "32 word"

definition DayAttr :: "Day_t \<Rightarrow> day_attr" where
  "DayAttr d = \<lparr>da_day = d, da_free = False, da_expired = False, da_date = None, da_state_change_no = 0\<rparr>"

text \<open>The loops of \<open>matching_date\<close> and \<open>next_matching_date\<close>; after seven turns the code asserts.\<close>

fun matching_loop :: "gregorian \<Rightarrow> int \<Rightarrow> nat \<Rightarrow> int \<Rightarrow> int res" where
  "matching_loop greg day 0 d = Inl (Assert_failed ''DayAttr::matching_date'')"
| "matching_loop greg day (Suc n) d =
     (if g_day_of_week (greg d) = day then Inr d else matching_loop greg day n (d + 1))"

definition matching_date :: "gregorian \<Rightarrow> calendar \<Rightarrow> day_attr \<Rightarrow> int res" where
  "matching_date greg c a = matching_loop greg (day_number (da_day a)) 7 (cal_date c)"

definition next_matching_date :: "gregorian \<Rightarrow> calendar \<Rightarrow> day_attr \<Rightarrow> int res" where
  "next_matching_date greg c a = matching_loop greg (day_number (da_day a)) 7 (cal_date c + 1)"

definition DayAttr_setFree :: "day_attr \<Rightarrow> ecf \<Rightarrow> day_attr \<times> ecf" where
  "DayAttr_setFree a g =
     (let (n, g') = incr_state_change_no g in (a\<lparr>da_free := True, da_state_change_no := n\<rparr>, g'))"

definition DayAttr_clearFree :: "day_attr \<Rightarrow> ecf \<Rightarrow> day_attr \<times> ecf" where
  "DayAttr_clearFree a g =
     (let (n, g') = incr_state_change_no g in (a\<lparr>da_free := False, da_state_change_no := n\<rparr>, g'))"

definition set_expired :: "day_attr \<Rightarrow> ecf \<Rightarrow> day_attr \<times> ecf" where
  "set_expired a g =
     (let (n, g') = incr_state_change_no g in (a\<lparr>da_expired := True, da_state_change_no := n\<rparr>, g'))"

definition clear_expired :: "day_attr \<Rightarrow> ecf \<Rightarrow> day_attr \<times> ecf" where
  "clear_expired a g =
     (let (n, g') = incr_state_change_no g in (a\<lparr>da_expired := False, da_state_change_no := n\<rparr>, g'))"

definition DayAttr_is_free :: "calendar \<Rightarrow> day_attr \<Rightarrow> bool" where
  "DayAttr_is_free c a = (Some (cal_date c) = da_date a)"

definition DayAttr_isFree :: "calendar \<Rightarrow> day_attr \<Rightarrow> bool" where
  "DayAttr_isFree c a =
     (if da_expired a then False else if da_free a then True else DayAttr_is_free c a)"

definition DayAttr_calendarChanged :: "calendar \<Rightarrow> bool \<Rightarrow> day_attr \<Rightarrow> ecf \<Rightarrow> day_attr \<times> ecf" where
  "DayAttr_calendarChanged c clear_at_midnight a g =
     (if da_expired a then (a, g)
      else let (a1, g1) = (if cal_dayChanged c \<and> clear_at_midnight then DayAttr_clearFree a g else (a, g))
           in if da_free a1 then (a1, g1)
              else if DayAttr_is_free c a1 then DayAttr_setFree a1 g1
              else (a1, g1))"

definition DayAttr_reset :: "day_attr \<Rightarrow> ecf \<Rightarrow> day_attr \<times> ecf" where
  "DayAttr_reset a g =
     (let (n, g') = incr_state_change_no g
      in (a\<lparr>da_expired := False, da_free := False, da_date := None, da_state_change_no := n\<rparr>, g'))"

text \<open>\<open>reset(c)\<close> and \<open>requeue_manual\<close> take the next matching date from today on,
  \<open>requeue_repeat_increment\<close> from tomorrow on.\<close>

definition DayAttr_reset_cal :: "gregorian \<Rightarrow> calendar \<Rightarrow> day_attr \<Rightarrow> ecf \<Rightarrow> (day_attr \<times> ecf) res" where
  "DayAttr_reset_cal greg c a g =
     (let (a1, g1) = DayAttr_reset a g
      in res_bind (matching_date greg c a1) (\<lambda>d. Inr (a1\<lparr>da_date := Some d\<rparr>, g1)))"

definition requeue_manual :: "gregorian \<Rightarrow> calendar \<Rightarrow> day_attr \<Rightarrow> ecf \<Rightarrow> (day_attr \<times> ecf) res" where
  "requeue_manual greg c a g =
     (let (a1, g1) = DayAttr_reset a g
      in res_bind (matching_date greg c a1) (\<lambda>d. Inr (a1\<lparr>da_date := Some d\<rparr>, g1)))"

definition requeue_repeat_increment :: "gregorian \<Rightarrow> calendar \<Rightarrow> day_attr \<Rightarrow> ecf \<Rightarrow> (day_attr \<times> ecf) res" where
  "requeue_repeat_increment greg c a g =
     (let (a1, g1) = DayAttr_reset a g
      in res_bind (next_matching_date greg c a1) (\<lambda>d. Inr (a1\<lparr>da_date := Some d\<rparr>, g1)))"

definition requeue_time :: "day_attr \<Rightarrow> ecf \<Rightarrow> day_attr \<times> ecf" where
  "requeue_time a g =
     (if da_expired a then (a, g)
      else (let (n, g') = incr_state_change_no g in (a\<lparr>da_free := False, da_state_change_no := n\<rparr>, g')))"

definition handle_migration :: "gregorian \<Rightarrow> calendar \<Rightarrow> day_attr \<Rightarrow> day_attr res" where
  "handle_migration greg c a =
     (if da_date a = None \<and> cal_suiteTime c \<noteq> None
      then res_bind (matching_date greg c a) (\<lambda>d. Inr (a\<lparr>da_date := Some d\<rparr>))
      else Inr a)"

definition check_for_expiration :: "gregorian \<Rightarrow> calendar \<Rightarrow> day_attr \<Rightarrow> ecf \<Rightarrow> (day_attr \<times> ecf) res" where
  "check_for_expiration greg c a g =
     res_bind (case da_date a of
                 None \<Rightarrow> res_bind (matching_date greg c a) (\<lambda>d. Inr (d, a\<lparr>da_date := Some d\<rparr>))
               | Some d \<Rightarrow> Inr (d, a)) (\<lambda>(date, a1).
       if day_number (da_day a1) = cal_day_of_week c then Inr (set_expired a1 g)
       else if date \<le> cal_date c then Inr (set_expired a1 g)
       else Inr (a1, g))"

definition DayAttr_checkForRequeue :: "calendar \<Rightarrow> day_attr \<Rightarrow> bool res" where
  "DayAttr_checkForRequeue c a =
     (if da_expired a then Inr False
      else if cal_hybrid c then Inr False
      else case da_date a of
             None \<Rightarrow> Inl (Assert_failed ''DayAttr::checkForRequeue'')
           | Some d \<Rightarrow> Inr (d > cal_date c))"

definition DayAttr_validForHybrid :: "calendar \<Rightarrow> day_attr \<Rightarrow> bool" where
  "DayAttr_validForHybrid c a = DayAttr_isFree c a"

definition DayAttr_structureEquals :: "day_attr \<Rightarrow> day_attr \<Rightarrow> bool" where
  "DayAttr_structureEquals a b = (da_day a = da_day b)"

definition DayAttr_equal :: "day_attr \<Rightarrow> day_attr \<Rightarrow> bool" where
  "DayAttr_equal a b =
     (if da_free a \<noteq> da_free b then False
      else if da_expired a \<noteq> da_expired b then False
      else if da_date a \<noteq> da_date b then False
      else DayAttr_structureEquals a b)"

definition DayAttr_write :: "day_attr \<Rightarrow> string" where
  "DayAttr_write a = ''day '' @ theDay (da_day a)"

definition DayAttr_create :: "string \<Rightarrow> day_attr res" where
  "DayAttr_create dayStr = res_bind (getDay dayStr) (\<lambda>d. Inr (DayAttr d))"

section \<open>\<open>DateAttr\<close>\<close>

record date_attr =
  dt_day :: int
  dt_month :: int
  dt_year :: int
  dt_free :: bool
  dt_state_change_no :: "32 word"

definition checkDate :: "(int \<Rightarrow> int \<Rightarrow> int \<Rightarrow> bool) \<Rightarrow> int \<Rightarrow> int \<Rightarrow> int \<Rightarrow> bool \<Rightarrow> unit res" where
  "checkDate gregValid day month year allow_wild_cards =
     res_bind
       (if allow_wild_cards
        then if day \<noteq> 0 \<and> (day < 1 \<or> day > 31)
             then Inl (Out_of_range ''Invalid Date(day,month,year) : the day >= 0 and day < 31'')
             else if month \<noteq> 0 \<and> (month < 1 \<or> month > 12)
             then Inl (Out_of_range ''Invalid Date(day,month,year): the month >=0 and month <= 12'')
             else if year < 0 then Inl (Out_of_range ''Invalid Date(day,month,year): the year >=0'')
             else Inr ()
        else if day < 1 \<or> day > 31 then Inl (Out_of_range ''Invalid date attribute : the day >= 1 and day < 31'')
        else if month < 1 \<or> month > 12 then Inl (Out_of_range ''Invalid date attribute: the month >=1 and month <= 12'')
        else if year \<le> 0 then Inl (Out_of_range ''Invalid date attribute: the year >0'')
        else Inr ())
       (\<lambda>_. if day \<noteq> 0 \<and> month \<noteq> 0 \<and> year \<noteq> 0 \<and> \<not> gregValid year month day
            then Inl (Out_of_range ''boost::gregorian::date'') else Inr ())"

definition DateAttr :: "(int \<Rightarrow> int \<Rightarrow> int \<Rightarrow> bool) \<Rightarrow> int \<Rightarrow> int \<Rightarrow> int \<Rightarrow> date_attr res" where
  "DateAttr gregValid day month year =
     res_bind (checkDate gregValid day month year True) (\<lambda>_.
       Inr \<lparr>dt_day = day, dt_month = month, dt_year = year, dt_free = False, dt_state_change_no = 0\<rparr>)"

definition DateAttr_less :: "date_attr \<Rightarrow> date_attr \<Rightarrow> bool" where
  "DateAttr_less a b =
     (if dt_year a < dt_year b then True
      else if dt_year a = dt_year b
      then if dt_month a < dt_month b then True
           else if dt_month a = dt_month b then dt_day a < dt_day b else False
      else False)"

definition DateAttr_setFree :: "date_attr \<Rightarrow> ecf \<Rightarrow> date_attr \<times> ecf" where
  "DateAttr_setFree a g =
     (let (n, g') = incr_state_change_no g in (a\<lparr>dt_free := True, dt_state_change_no := n\<rparr>, g'))"

definition DateAttr_clearFree :: "date_attr \<Rightarrow> ecf \<Rightarrow> date_attr \<times> ecf" where
  "DateAttr_clearFree a g =
     (let (n, g') = incr_state_change_no g in (a\<lparr>dt_free := False, dt_state_change_no := n\<rparr>, g'))"

text \<open>\<open>reset\<close> and \<open>requeue\<close> have the body of \<open>clearFree\<close>.\<close>

definition DateAttr_requeue :: "date_attr \<Rightarrow> ecf \<Rightarrow> date_attr \<times> ecf" where
  "DateAttr_requeue a g =
     (let (n, g') = incr_state_change_no g in (a\<lparr>dt_free := False, dt_state_change_no := n\<rparr>, g'))"

definition DateAttr_is_free :: "calendar \<Rightarrow> date_attr \<Rightarrow> bool" where
  "DateAttr_is_free c a =
     (let dayMatches = (if dt_day a \<noteq> 0 then cal_day_of_month c = dt_day a else True);
          monthMatches = (if dt_month a \<noteq> 0 then cal_month c = dt_month a else True);
          yearMatches = (if dt_year a \<noteq> 0 then cal_year c = dt_year a else True)
      in dayMatches \<and> monthMatches \<and> yearMatches)"

definition DateAttr_isFree :: "calendar \<Rightarrow> date_attr \<Rightarrow> bool" where
  "DateAttr_isFree c a = (if dt_free a then True else DateAttr_is_free c a)"

definition DateAttr_calendarChanged :: "calendar \<Rightarrow> bool \<Rightarrow> date_attr \<Rightarrow> ecf \<Rightarrow> date_attr \<times> ecf" where
  "DateAttr_calendarChanged c clear_at_midnight a g =
     (let (a1, g1) = (if cal_dayChanged c \<and> clear_at_midnight then DateAttr_clearFree a g else (a, g))
      in if dt_free a1 then (a1, g1)
         else if DateAttr_is_free c a1 then DateAttr_setFree a1 g1
         else (a1, g1))"

definition DateAttr_checkForRequeue :: "(int \<Rightarrow> int \<Rightarrow> int \<Rightarrow> int) \<Rightarrow> calendar \<Rightarrow> date_attr \<Rightarrow> bool" where
  "DateAttr_checkForRequeue gregDay c a =
     (if cal_hybrid c then False
      else if dt_day a \<noteq> 0 \<and> dt_month a \<noteq> 0 \<and> dt_year a \<noteq> 0
      then (if gregDay (dt_year a) (dt_month a) (dt_day a) > cal_date c then True else False)
      else let futureDayMatches = (if dt_day a \<noteq> 0 then dt_day a > cal_day_of_month c else True);
               futureMonthMatches = (if dt_month a \<noteq> 0 then dt_month a > cal_month c else True);
               futureYearMatches = (if dt_year a \<noteq> 0 then dt_year a > cal_year c else True)
           in futureDayMatches \<or> futureMonthMatches \<or> futureYearMatches)"

definition DateAttr_validForHybrid :: "calendar \<Rightarrow> date_attr \<Rightarrow> bool" where
  "DateAttr_validForHybrid c a =
     (if dt_day a = 0 then False
      else if dt_month a = 0 then False
      else if dt_year a = 0 then False
      else dt_day a = cal_day_of_month c \<and> dt_month a = cal_month c \<and> dt_year a = cal_year c)"

definition DateAttr_write :: "date_attr \<Rightarrow> string" where
  "DateAttr_write a =
     ''date '' @ (if dt_day a = 0 then ''*.'' else string_of_int (dt_day a) @ ''.'') @
     (if dt_month a = 0 then ''*.'' else string_of_int (dt_month a) @ ''.'') @
     (if dt_year a = 0 then ''*'' else string_of_int (dt_year a))"

definition getDate_field :: "string \<Rightarrow> int \<Rightarrow> int \<Rightarrow> int res" where
  "getDate_field tok lo hi =
     (if tok = ''*'' then Inr 0
      else res_bind (theInt tok ''DateAttr::getDate: Invalid :'') (\<lambda>i.
             if i < lo \<or> i > hi then Inl (Runtime_error ''DateAttr::getDate: Invalid clock date: '') else Inr i))"

definition getDate :: "(int \<Rightarrow> int \<Rightarrow> int \<Rightarrow> bool) \<Rightarrow> string \<Rightarrow> (int \<times> int \<times> int) res" where
  "getDate gregValid date =
     (case find_first_of_char (CHR ''.'') date of
        None \<Rightarrow> Inl (Runtime_error ''DateAttr::getDate Invalid date missing first dot :'')
      | Some firstDotPos \<Rightarrow>
          (case find_first_of_char (CHR ''.'') (drop (firstDotPos + 1) date) of
             None \<Rightarrow> Inl (Runtime_error ''DateAttr::getDate: Invalid date missing second dot :'')
           | Some k \<Rightarrow>
               let theDay = take firstDotPos date;
                   theMonth = take k (drop (firstDotPos + 1) date);
                   theYear = drop (k + 1) (drop (firstDotPos + 1) date)
               in res_bind (getDate_field theDay 1 31) (\<lambda>day.
                  res_bind (getDate_field theMonth 1 12) (\<lambda>month.
                  res_bind (if theYear = ''*'' then Inr 0
                            else theInt theYear ''DateAttr::getDate: Invalid year :'') (\<lambda>year.
                    if day = - 1 \<or> month = - 1 \<or> year = - 1
                    then Inl (Runtime_error ''DateAttr::getDate: Invalid clock date:'')
                    else if day \<noteq> 0 \<and> month \<noteq> 0 \<and> year \<noteq> 0 \<and> \<not> gregValid year month day
                    then Inl (Out_of_range ''boost::gregorian::date'')
                    else Inr (day, month, year))))))"

definition DateAttr_create :: "(int \<Rightarrow> int \<Rightarrow> int \<Rightarrow> bool) \<Rightarrow> string \<Rightarrow> date_attr res" where
  "DateAttr_create gregValid dateString =
     res_bind (getDate gregValid dateString) (\<lambda>(d, m, y). DateAttr gregValid d m y)"

text \<open>The loop of \<open>DateAttr::next_matching_date\<close>: the three flags keep their value from one day to
  the next.\<close>

fun date_matching_loop :: "gregorian \<Rightarrow> date_attr \<Rightarrow> nat \<Rightarrow> bool \<Rightarrow> bool \<Rightarrow> bool \<Rightarrow> int \<Rightarrow> int option" where
  "date_matching_loop greg a 0 dm mm ym d = None"
| "date_matching_loop greg a (Suc n) dm mm ym d =
     (let d' = d + 1;
          dm' = (if dt_day a \<noteq> 0 \<and> g_day (greg d') = dt_day a then True else dm);
          mm' = (if dt_month a \<noteq> 0 \<and> g_month (greg d') = dt_month a then True else mm);
          ym' = (if dt_year a \<noteq> 0 \<and> g_year (greg d') = dt_year a then True else ym)
      in if dm' \<and> mm' \<and> ym' then Some d' else date_matching_loop greg a n dm' mm' ym' d')"

definition date_next_matching :: "gregorian \<Rightarrow> calendar \<Rightarrow> date_attr \<Rightarrow> int" where
  "date_next_matching greg c a =
     (case date_matching_loop greg a 365 (dt_day a = 0) (dt_month a = 0) (dt_year a = 0) (cal_date c) of
        None \<Rightarrow> cal_date c | Some d \<Rightarrow> d)"

section \<open>Which date a week day waits for\<close>

lemma day_number_range: "0 \<le> day_number d" "day_number d < 7"
  by (cases d; simp)+

lemma matching_loop_finds:
  assumes "\<exists>k < n. g_day_of_week (greg (d + int k)) = day"
  shows "\<exists>k < n. matching_loop greg day n d = Inr (d + int k) \<and> g_day_of_week (greg (d + int k)) = day"
  using assms
proof (induction n arbitrary: d)
  case (Suc n)
  show ?case
  proof (cases "g_day_of_week (greg d) = day")
    case True
    then show ?thesis by (intro exI [of _ 0]) simp
  next
    case False
    from Suc.prems obtain k where k: "k < Suc n" "g_day_of_week (greg (d + int k)) = day" by blast
    with False obtain j where "k = Suc j" by (cases k) auto
    with k have "j < n" "g_day_of_week (greg (d + 1 + int j)) = day" by (simp_all add: add.assoc)
    with Suc.IH [of "d + 1"] obtain i where "i < n" "matching_loop greg day n (d + 1) = Inr (d + 1 + int i)"
      "g_day_of_week (greg (d + 1 + int i)) = day" by blast
    with False show ?thesis by (intro exI [of _ "Suc i"]) (simp add: add.assoc)
  qed
qed simp

lemma some_day_this_week:
  assumes "greg_weekly greg"
  shows "\<exists>k < 7. g_day_of_week (greg (d + int k)) = day_number w"
proof -
  let ?w = "g_day_of_week (greg d)"
  have w: "0 \<le> ?w" "?w < 7" using assms by (auto simp: greg_weekly_def)
  define k where "k = nat ((day_number w - ?w) mod 7)"
  have "int k = (day_number w - ?w) mod 7" by (simp add: k_def)
  then have "(?w + int k) mod 7 = day_number w" using day_number_range [of w] by (simp add: mod_simps)
  moreover have "k < 7" by (simp add: k_def)
  ultimately show ?thesis using g_day_of_week_add [OF assms, of d k] by auto
qed

lemma matching_loop_week:
  assumes "greg_weekly greg"
  shows "\<exists>d'. matching_loop greg (day_number w) 7 d = Inr d' \<and> d \<le> d' \<and> d' < d + 7 \<and> g_day_of_week (greg d') = day_number w"
  using matching_loop_finds [OF some_day_this_week [OF assms, of d w]] by fastforce

lemma same_week_day_unique:
  assumes "greg_weekly greg" "d \<le> a" "a < d + 7" "d \<le> b" "b < d + 7" "g_day_of_week (greg a) = g_day_of_week (greg b)"
  shows "a = b"
  using day_of_week_changed [OF assms(1), of a b] day_of_week_changed [OF assms(1), of b a] assms(2-6)
  by (cases "a \<le> b") auto

lemma DayAttr_reset_fields [simp]:
  "da_day (fst (DayAttr_reset a g)) = da_day a" "\<not> da_expired (fst (DayAttr_reset a g))"
  "\<not> da_free (fst (DayAttr_reset a g))"
  by (simp_all add: DayAttr_reset_def split: prod.split)

section \<open>Day attributes after a requeue, and expired ones\<close>

fun day_run :: "(calendar \<times> bool) list \<Rightarrow> day_attr \<Rightarrow> ecf \<Rightarrow> day_attr \<times> ecf" where
  "day_run [] a g = (a, g)"
| "day_run ((c, m) # cs) a g = (let (a1, g1) = DayAttr_calendarChanged c m a g in day_run cs a1 g1)"

lemma day_run_expired: "da_expired a \<Longrightarrow> day_run cs a g = (a, g)"
  by (induction cs arbitrary: a g) (auto simp: DayAttr_calendarChanged_def)

lemma set_expired_fields [simp]:
  "da_expired (fst (set_expired a g))" "da_date (fst (set_expired a g)) = da_date a" "da_day (fst (set_expired a g)) = da_day a"
  by (simp_all add: set_expired_def split: prod.split)

section \<open>Reading back a date\<close>

lemma string_of_int_no_dot:
  assumes "0 \<le> i"
  shows "CHR ''.'' \<notin> set (string_of_int i)" "string_of_int i \<noteq> ''*''" "string_of_int i \<noteq> []"
proof -
  have sub: "set (string_of_int i) \<subseteq> set ''0123456789''"
    using assms set_string_of_nat_digits by (auto simp: string_of_int_def)
  then show "CHR ''.'' \<notin> set (string_of_int i)" by auto
  from sub show "string_of_int i \<noteq> ''*''" by auto
  show "string_of_int i \<noteq> []" using assms by (simp add: string_of_int_def)
qed

definition date_field :: "int \<Rightarrow> string" where
  "date_field i = (if i = 0 then ''*'' else string_of_int i)"

lemma date_field_no_dot: "0 \<le> i \<Longrightarrow> CHR ''.'' \<notin> set (date_field i)"
  using string_of_int_no_dot(1) by (simp add: date_field_def)

lemma getDate_field_back:
  assumes "i = 0 \<or> lo \<le> i \<and> i \<le> hi" "0 \<le> i" "is_int32 i"
  shows "getDate_field (date_field i) lo hi = Inr i"
  using assms lexical_cast_string_of_int [OF assms(3)] string_of_int_no_dot(2) [OF assms(2)]
  by (auto simp: getDate_field_def date_field_def theInt_def)

lemma getDate_split:
  assumes "CHR ''.'' \<notin> set a" "CHR ''.'' \<notin> set b"
  shows "find_first_of_char (CHR ''.'') (a @ CHR ''.'' # b @ CHR ''.'' # c) = Some (length a)"
    "find_first_of_char (CHR ''.'') (b @ CHR ''.'' # c) = Some (length b)"
  using find_first_of_char_append [OF assms(1)] find_first_of_char_append [OF assms(2)] by simp_all

lemma getDate_back:
  assumes "day = 0 \<or> 1 \<le> day \<and> day \<le> 31" "month = 0 \<or> 1 \<le> month \<and> month \<le> 12" "0 \<le> year" "is_int32 year"
    and "\<not> (day \<noteq> 0 \<and> month \<noteq> 0 \<and> year \<noteq> 0 \<and> \<not> gregValid year month day)"
  shows "getDate gregValid (date_field day @ CHR ''.'' # date_field month @ CHR ''.'' # date_field year) = Inr (day, month, year)"
proof -
  have nn: "0 \<le> day" "0 \<le> month" "is_int32 day" "is_int32 month"
    using assms(1,2) by (auto simp: is_int32_def INT_MIN_def INT_MAX_def)
  note pos = getDate_split [OF date_field_no_dot [OF nn(1)] date_field_no_dot [OF nn(2)]]
  have y: "(if date_field year = ''*'' then Inr 0 else theInt (date_field year) ''DateAttr::getDate: Invalid year :'') = Inr year"
    using lexical_cast_string_of_int [OF assms(4)] string_of_int_no_dot(2) [OF assms(3)]
    by (simp add: date_field_def theInt_def)
  show ?thesis
    using pos getDate_field_back [OF assms(1) nn(1,3)] getDate_field_back [OF assms(2) nn(2,4)] y assms nn(1,2)
    by (auto simp: getDate_def Let_def)
qed

section \<open>Properties\<close>

text \<open>The date of a week-day attribute: with the week days following each other,
  \<open>matching_date\<close> is the only day of the seven from today that falls on the week day, and
  \<open>next_matching_date\<close> the only one of the seven from tomorrow. So a manual requeue frees the
  attribute today exactly when today is its day, and a requeue by a repeat never frees it today but
  always leaves a date to wait for.\<close>

theorem day_attr_requeue_dates:
  assumes "greg_weekly greg"
  shows "(\<exists>a' g' d. requeue_manual greg c a g = Inr (a', g') \<and> da_date a' = Some d \<and>
       cal_date c \<le> d \<and> d < cal_date c + 7 \<and> g_day_of_week (greg d) = day_number (da_day a) \<and>
       (\<forall>e. cal_date c \<le> e \<and> e < cal_date c + 7 \<and> g_day_of_week (greg e) = day_number (da_day a) \<longrightarrow> e = d) \<and>
       (DayAttr_isFree c a' \<longleftrightarrow> g_day_of_week (greg (cal_date c)) = day_number (da_day a))) \<and>
    (\<exists>a' g' d. requeue_repeat_increment greg c a g = Inr (a', g') \<and> da_date a' = Some d \<and>
       cal_date c < d \<and> d \<le> cal_date c + 7 \<and> g_day_of_week (greg d) = day_number (da_day a) \<and>
       \<not> DayAttr_isFree c a' \<and> (\<not> cal_hybrid c \<longrightarrow> DayAttr_checkForRequeue c a' = Inr True))"
proof -
  obtain a1 g1 where r: "DayAttr_reset a g = (a1, g1)" by fastforce
  then have a1: "da_day a1 = da_day a" "\<not> da_expired a1" "\<not> da_free a1"
    using DayAttr_reset_fields [of a g] by simp_all
  obtain d where d: "matching_date greg c a1 = Inr d" "cal_date c \<le> d" "d < cal_date c + 7"
    "g_day_of_week (greg d) = day_number (da_day a)"
    using matching_loop_week [OF assms, of "da_day a1" "cal_date c"] a1(1) by (auto simp: matching_date_def)
  obtain e where e: "next_matching_date greg c a1 = Inr e" "cal_date c + 1 \<le> e" "e < cal_date c + 1 + 7"
    "g_day_of_week (greg e) = day_number (da_day a)"
    using matching_loop_week [OF assms, of "da_day a1" "cal_date c + 1"] a1(1) by (auto simp: next_matching_date_def)
  have uniq: "x = d" if "cal_date c \<le> x" "x < cal_date c + 7" "g_day_of_week (greg x) = day_number (da_day a)" for x
    using same_week_day_unique [OF assms that(1,2) d(2,3)] that(3) d(4) by simp
  have today: "cal_date c = d \<longleftrightarrow> g_day_of_week (greg (cal_date c)) = day_number (da_day a)"
    using uniq [of "cal_date c"] d(4) by auto
  let ?m = "a1\<lparr>da_date := Some d\<rparr>" and ?i = "a1\<lparr>da_date := Some e\<rparr>"
  have "requeue_manual greg c a g = Inr (?m, g1)" "requeue_repeat_increment greg c a g = Inr (?i, g1)"
    using r d(1) e(1) by (simp_all add: requeue_manual_def requeue_repeat_increment_def)
  moreover have "DayAttr_isFree c ?m \<longleftrightarrow> g_day_of_week (greg (cal_date c)) = day_number (da_day a)"
    using a1 today by (simp add: DayAttr_isFree_def DayAttr_is_free_def)
  moreover have "\<not> DayAttr_isFree c ?i" "\<not> cal_hybrid c \<longrightarrow> DayAttr_checkForRequeue c ?i = Inr True"
    using a1 e(2) by (simp_all add: DayAttr_isFree_def DayAttr_is_free_def DayAttr_checkForRequeue_def)
  moreover have "cal_date c < e" "e \<le> cal_date c + 7" using e(2,3) by simp_all
  moreover have "da_date ?m = Some d" "da_date ?i = Some e" by simp_all
  ultimately show ?thesis using d(2-4) e(4) uniq by blast
qed

theorem day_attr_requeue_dates_witness:
  "\<exists>a' g'. requeue_repeat_increment week_only half_past_eleven (DayAttr SUNDAY)
      \<lparr>ecf_server = True, ecf_state_change_no = 0, ecf_modify_change_no = 0\<rparr> = Inr (a', g') \<and>
      \<not> DayAttr_isFree half_past_eleven a'"
  using day_attr_requeue_dates [OF week_only_weekly, of half_past_eleven "DayAttr SUNDAY"] by blast

text \<open>No second run on the same day: once a node with a week-day attribute has completed on
  that week day or after the attribute's date, the attribute is expired; then no sequence of calendar
  updates frees it, it is not free on any day, it does not ask for a requeue, and a requeue by time
  leaves it as it is.\<close>

theorem day_attr_expires:
  assumes "da_date a = Some d" "day_number (da_day a) = cal_day_of_week c \<or> d \<le> cal_date c"
  shows "\<exists>a' g'. check_for_expiration greg c a g = Inr (a', g') \<and> da_expired a' \<and> da_date a' = Some d \<and>
    (\<forall>cs g2. day_run cs a' g2 = (a', g2)) \<and> (\<forall>c'. \<not> DayAttr_isFree c' a') \<and>
    (\<forall>c'. DayAttr_checkForRequeue c' a' = Inr False) \<and> (\<forall>g2. requeue_time a' g2 = (a', g2))"
proof -
  obtain a' g' where s: "set_expired a g = (a', g')" by fastforce
  then have a': "da_expired a'" "da_date a' = Some d" using set_expired_fields [of a g] assms(1) by simp_all
  have "check_for_expiration greg c a g = Inr (a', g')"
    using assms s by (auto simp: check_for_expiration_def)
  then show ?thesis
    using a' by (auto simp: day_run_expired DayAttr_isFree_def DayAttr_checkForRequeue_def requeue_time_def)
qed

theorem day_attr_expires_witness:
  "\<exists>a' g'. check_for_expiration week_only half_past_eleven ((DayAttr SUNDAY)\<lparr>da_date := Some 0, da_free := True\<rparr>)
      \<lparr>ecf_server = True, ecf_state_change_no = 0, ecf_modify_change_no = 0\<rparr> = Inr (a', g') \<and>
      \<not> DayAttr_isFree half_past_eleven a'"
proof -
  have "cal_date half_past_eleven = 0" by (simp add: cal_date_def half_past_eleven_time day_of_time_def)
  then show ?thesis
    using day_attr_expires [of "(DayAttr SUNDAY)\<lparr>da_date := Some 0, da_free := True\<rparr>" 0 half_past_eleven week_only
        "\<lparr>ecf_server = True, ecf_state_change_no = 0, ecf_modify_change_no = 0\<rparr>"] by (simp, blast)
qed

text \<open>A date attribute whose year has passed and that has a wild card asks for a requeue for
  ever: \<open>checkForRequeue\<close> combines the fields by disjunction and counts a wild card as a future match,
  so on a real clock it answers yes although no later date frees the attribute.\<close>

theorem date_attr_requeue_never_free:
  assumes "dt_day a = 0 \<or> dt_month a = 0" "dt_year a \<noteq> 0" "dt_year a < cal_year c" "\<not> cal_hybrid c"
  shows "DateAttr_checkForRequeue gregDay c a \<and> (\<forall>c'. cal_year c \<le> cal_year c' \<longrightarrow> \<not> DateAttr_is_free c' a)"
  using assms by (auto simp: DateAttr_checkForRequeue_def DateAttr_is_free_def Let_def)

theorem date_attr_requeue_never_free_witness:
  "DateAttr_checkForRequeue (\<lambda>y m d. 0) (half_past_eleven\<lparr>cal_year := 2024\<rparr>)
     \<lparr>dt_day = 1, dt_month = 0, dt_year = 2009, dt_free = False, dt_state_change_no = 0\<rparr>"
  using date_attr_requeue_never_free [of "\<lparr>dt_day = 1, dt_month = 0, dt_year = 2009, dt_free = False, dt_state_change_no = 0\<rparr>"
      "half_past_eleven\<lparr>cal_year := 2024\<rparr>" "\<lambda>y m d. 0"]
  by (simp add: cal_hybrid_def half_past_eleven_def Calendar_begin_def Calendar_default_def update_cache_def Let_def)

text \<open>A date survives being written and read: for every date the constructor accepts, \<open>create\<close>
  of the text after the keyword returns the same day, month and year.\<close>

theorem date_write_create:
  assumes "DateAttr gregValid day month year = Inr a" "year \<le> INT_MAX"
  shows "\<exists>txt. DateAttr_write a = ''date '' @ txt \<and> DateAttr_create gregValid txt = Inr a"
proof -
  let ?D = "date_field day" and ?M = "date_field month" and ?Y = "date_field year"
  have chk: "checkDate gregValid day month year True = Inr ()" using assms(1) by (auto simp: DateAttr_def)
  then have r: "day = 0 \<or> 1 \<le> day \<and> day \<le> 31" "month = 0 \<or> 1 \<le> month \<and> month \<le> 12" "0 \<le> year"
    "\<not> (day \<noteq> 0 \<and> month \<noteq> 0 \<and> year \<noteq> 0 \<and> \<not> gregValid year month day)"
    by (auto simp: checkDate_def split: if_splits)
  then have nn: "0 \<le> day" "0 \<le> month" "is_int32 day" "is_int32 month" "is_int32 year"
    using assms(2) by (auto simp: is_int32_def INT_MIN_def INT_MAX_def)
  have a: "dt_day a = day" "dt_month a = month" "dt_year a = year" using assms(1) by (auto simp: DateAttr_def)
  have w: "DateAttr_write a = ''date '' @ ?D @ CHR ''.'' # ?M @ CHR ''.'' # ?Y"
    by (simp add: DateAttr_write_def a date_field_def)
  have "getDate gregValid (?D @ CHR ''.'' # ?M @ CHR ''.'' # ?Y) = Inr (day, month, year)"
    using r nn(5) by (intro getDate_back) auto
  then have "DateAttr_create gregValid (?D @ CHR ''.'' # ?M @ CHR ''.'' # ?Y) = Inr a"
    using assms(1) by (simp add: DateAttr_create_def)
  with w show ?thesis by blast
qed

theorem date_write_create_witness:
  "\<exists>a txt. DateAttr (\<lambda>y m d. True) 15 0 2009 = Inr a \<and> DateAttr_write a = ''date '' @ txt \<and>
     DateAttr_create (\<lambda>y m d. True) txt = Inr a"
proof -
  let ?a = "\<lparr>dt_day = 15, dt_month = 0, dt_year = 2009, dt_free = False, dt_state_change_no = 0\<rparr>"
  have a: "DateAttr (\<lambda>y m d. True) 15 0 2009 = Inr ?a"
    by (simp add: DateAttr_def checkDate_def)
  from date_write_create [OF a] a show ?thesis by (auto simp: INT_MAX_def)
qed

text \<open>The date \<open>why\<close> announces for a date attribute can be one on which the attribute is not
  free: the loop keeps the flags of earlier days, so a day and a month that match on different days
  count as a match together.\<close>

theorem date_next_matching_wrong:
  assumes "dt_day a \<noteq> 0" "dt_month a \<noteq> 0" "dt_year a = 0" "t = cal_date c"
    and "g_day (greg (t + 1)) = dt_day a" "g_month (greg (t + 1)) \<noteq> dt_month a"
    and "g_month (greg (t + 2)) = dt_month a" "g_day (greg (t + 2)) \<noteq> dt_day a"
    and "cal_date c' = t + 2" "cal_day_of_month c' = g_day (greg (t + 2))"
  shows "date_next_matching greg c a = cal_date c' \<and> \<not> DateAttr_is_free c' a"
proof -
  have "date_matching_loop greg a (Suc (Suc n)) False False True t = Some (t + 2)" for n
    using assms(1-8) by (simp add: Let_def add.assoc)
  from this [of 363] have "date_matching_loop greg a 365 False False True t = Some (t + 2)"
    by (simp del: date_matching_loop.simps)
  then show ?thesis using assms by (simp add: date_next_matching_def DateAttr_is_free_def Let_def)
qed

text \<open>Three days around the end of an October, with the dates the calendar gives them.\<close>

definition end_of_october :: gregorian where
  "end_of_october d = \<lparr>g_day_of_week = d mod 7, g_day_of_year = 302 + d, g_day = (if d = 0 then 30 else if d = 1 then 31 else d - 1),
     g_month = (if d < 2 then 10 else 11), g_year = 2009, g_end_of_month = (if d < 2 then 1 else 31)\<rparr>"

theorem date_next_matching_wrong_witness:
  "date_next_matching end_of_october half_past_eleven
     \<lparr>dt_day = 31, dt_month = 11, dt_year = 0, dt_free = False, dt_state_change_no = 0\<rparr> = 2"
proof -
  let ?a = "\<lparr>dt_day = 31, dt_month = 11, dt_year = 0, dt_free = False, dt_state_change_no = 0\<rparr>"
  have d: "cal_date half_past_eleven = 0" by (simp add: cal_date_def half_past_eleven_time day_of_time_def)
  let ?c' = "Calendar_begin end_of_october 0 (2 * 86400) Calendar_default"
  have c': "cal_date ?c' = 2" "cal_day_of_month ?c' = 1"
    by (simp_all add: cal_date_def Calendar_begin_def update_cache_def Let_def day_of_time_def end_of_october_def)
  show ?thesis
    using date_next_matching_wrong [of ?a 0 half_past_eleven end_of_october ?c'] d c' by (simp add: end_of_october_def)
qed

end
