(* ===== verification/Clock_Attr.thy ===== *)
theory Clock_Attr
  imports Day_Date
begin

text \<open>
  The clock of a suite: \<open>ANattr/src/ClockAttr.cpp\<close> and its line in a definition file
  (\<open>ANode/parser/src/ClockParser.cpp\<close>). The validity of a date and the number of its day are those of
  boost::gregorian (\<open>gregValid\<close>, \<open>gregDay\<close>), \<open>now\<close> is what the system clock returns.
\<close>

section \<open>\<open>ClockAttr\<close>\<close>

record clock_attr =
  ck_gain :: int
  ck_day :: int
  ck_month :: int
  ck_year :: int
  ck_state_change_no :: "32 word"
  ck_hybrid :: bool
  ck_positiveGain :: bool
  ck_end_clock :: bool

text \<open>\<open>ClockAttr(bool hybrid)\<close> and \<open>ClockAttr(int day, int month, int year, bool hybrid)\<close>.\<close>

definition ClockAttr :: "bool \<Rightarrow> ecf \<Rightarrow> clock_attr \<times> ecf" where
  "ClockAttr hybrid g =
     (let (n, g') = incr_state_change_no g
      in (\<lparr>ck_gain = 0, ck_day = 0, ck_month = 0, ck_year = 0, ck_state_change_no = n, ck_hybrid = hybrid,
           ck_positiveGain = False, ck_end_clock = False\<rparr>, g'))"

definition ClockAttr_dmy ::
    "(int \<Rightarrow> int \<Rightarrow> int \<Rightarrow> bool) \<Rightarrow> int \<Rightarrow> int \<Rightarrow> int \<Rightarrow> bool \<Rightarrow> ecf \<Rightarrow> (clock_attr \<times> ecf) res" where
  "ClockAttr_dmy gregValid day month year hybrid g =
     (let (ck, g') = ClockAttr hybrid g
      in res_bind (checkDate gregValid day month year False) (\<lambda>_.
           Inr (ck\<lparr>ck_day := day, ck_month := month, ck_year := year\<rparr>, g')))"

definition ClockAttr_write :: "clock_attr \<Rightarrow> string" where
  "ClockAttr_write ck =
     (if \<not> ck_end_clock ck then ''clock '' @ (if ck_hybrid ck then ''hybrid '' else ''real '') else ''endclock '') @
     (if ck_day ck \<noteq> 0
      then string_of_int (ck_day ck) @ ''.'' @ string_of_int (ck_month ck) @ ''.'' @ string_of_int (ck_year ck) @ '' ''
      else []) @
     (if ck_gain ck \<noteq> 0 then (if ck_positiveGain ck then ''+'' else []) @ string_of_int (ck_gain ck) else [])"

definition ClockAttr_equal :: "clock_attr \<Rightarrow> clock_attr \<Rightarrow> bool" where
  "ClockAttr_equal a b =
     (if ck_hybrid a \<noteq> ck_hybrid b then False
      else if ck_day a \<noteq> ck_day b then False
      else if ck_month a \<noteq> ck_month b then False
      else if ck_year a \<noteq> ck_year b then False
      else if ck_gain a \<noteq> ck_gain b then False
      else if ck_positiveGain a \<noteq> ck_positiveGain b then False
      else True)"

text \<open>\<open>ClockAttr::date\<close>: a date that is not valid throws before anything is changed.\<close>

definition ClockAttr_date ::
    "(int \<Rightarrow> int \<Rightarrow> int \<Rightarrow> bool) \<Rightarrow> int \<Rightarrow> int \<Rightarrow> int \<Rightarrow> clock_attr \<Rightarrow> ecf \<Rightarrow> (clock_attr \<times> ecf) res" where
  "ClockAttr_date gregValid day month year ck g =
     res_bind (checkDate gregValid day month year False) (\<lambda>_.
       let (n, g') = incr_state_change_no g
       in Inr (ck\<lparr>ck_day := day, ck_month := month, ck_year := year, ck_state_change_no := n\<rparr>, g'))"

definition set_gain_in_seconds :: "int \<Rightarrow> bool \<Rightarrow> clock_attr \<Rightarrow> ecf \<Rightarrow> clock_attr \<times> ecf" where
  "set_gain_in_seconds theGain positiveGain ck g =
     (let (n, g') = incr_state_change_no g
      in (ck\<lparr>ck_positiveGain := positiveGain, ck_gain := theGain, ck_state_change_no := n\<rparr>, g'))"

definition set_gain :: "int \<Rightarrow> int \<Rightarrow> bool \<Rightarrow> clock_attr \<Rightarrow> ecf \<Rightarrow> clock_attr \<times> ecf" where
  "set_gain hh mm positiveGain ck g =
     (let (n, g') = incr_state_change_no g
      in (ck\<lparr>ck_positiveGain := positiveGain, ck_gain := hh * 3600 + mm * 60, ck_state_change_no := n\<rparr>, g'))"

definition ClockAttr_hybrid :: "bool \<Rightarrow> clock_attr \<Rightarrow> ecf \<Rightarrow> clock_attr \<times> ecf" where
  "ClockAttr_hybrid f ck g =
     (let (n, g') = incr_state_change_no g in (ck\<lparr>ck_hybrid := f, ck_state_change_no := n\<rparr>, g'))"

definition ClockAttr_sync :: "clock_attr \<Rightarrow> ecf \<Rightarrow> clock_attr \<times> ecf" where
  "ClockAttr_sync ck g =
     (let (n, g') = incr_state_change_no g
      in (ck\<lparr>ck_positiveGain := False, ck_gain := 0, ck_day := 0, ck_month := 0, ck_year := 0,
             ck_state_change_no := n\<rparr>, g'))"

definition init_calendar :: "clock_attr \<Rightarrow> calendar \<Rightarrow> calendar" where
  "init_calendar ck c = Calendar_init (if ck_hybrid ck then HYBRID_CLOCK else REAL_CLOCK) c"

definition ClockAttr_ptime :: "(int \<Rightarrow> int \<Rightarrow> int \<Rightarrow> int) \<Rightarrow> int \<Rightarrow> clock_attr \<Rightarrow> int" where
  "ClockAttr_ptime gregDay now ck =
     (if ck_day ck \<noteq> 0 then gregDay (ck_year ck) (ck_month ck) (ck_day ck) * 86400 + ck_gain ck
      else now + ck_gain ck)"

definition ClockAttr_begin_calendar ::
    "gregorian \<Rightarrow> (int \<Rightarrow> int \<Rightarrow> int \<Rightarrow> int) \<Rightarrow> int \<Rightarrow> clock_attr \<Rightarrow> calendar \<Rightarrow> calendar" where
  "ClockAttr_begin_calendar greg gregDay now ck c = Calendar_begin greg now (ClockAttr_ptime gregDay now ck) c"

section \<open>The line of a definition file\<close>

definition extractTheGain :: "string \<Rightarrow> clock_attr \<Rightarrow> ecf \<Rightarrow> (clock_attr \<times> ecf) res" where
  "extractTheGain tok ck g =
     (if CHR '':'' \<in> set tok
      then res_bind (getTime tok True) (\<lambda>(positiveGain, hh, mm). Inr (set_gain hh mm positiveGain ck g))
      else let positiveGain = starts_with (CHR ''+'') tok
           in res_bind (theInt (if positiveGain then drop 1 tok else tok) ''Invalid clock gain:'') (\<lambda>theGain.
                Inr (set_gain_in_seconds theGain positiveGain ck g)))"

text \<open>\<open>ClockParser::doParse\<close> up to \<open>addClock\<close>: the attribute, from the tokens of the line.\<close>

definition ClockParser_doParse ::
    "(int \<Rightarrow> int \<Rightarrow> int \<Rightarrow> bool) \<Rightarrow> string list \<Rightarrow> ecf \<Rightarrow> (clock_attr \<times> ecf) res" where
  "ClockParser_doParse gregValid lineTokens g =
     (if length lineTokens < 2 then Inl (Runtime_error ''ClockParser::doParse: Invalid clock :'')
      else
        res_bind (if lineTokens ! 1 = ''real'' then Inr False
                  else if lineTokens ! 1 = ''hybrid'' then Inr True
                  else Inl (Runtime_error ''Invalid clock :'')) (\<lambda>hybrid.
          let (ck, g1) = ClockAttr hybrid g
          in if length lineTokens \<ge> 3 \<and> \<not> starts_with (CHR ''#'') (lineTokens ! 2)
             then if CHR ''.'' \<in> set (lineTokens ! 2)
                  then res_bind (getDate gregValid (lineTokens ! 2)) (\<lambda>(day, month, year).
                       res_bind (ClockAttr_date gregValid day month year ck g1) (\<lambda>(ck2, g2).
                         if length lineTokens \<ge> 4 \<and> \<not> starts_with (CHR ''#'') (lineTokens ! 3)
                         then extractTheGain (lineTokens ! 3) ck2 g2
                         else Inr (ck2, g2)))
                  else if lineTokens ! 2 \<noteq> ''-s'' then extractTheGain (lineTokens ! 2) ck g1
                  else Inr (ck, g1)
             else Inr (ck, g1)))"

section \<open>Reading back a clock\<close>

definition clock_ok :: "(int \<Rightarrow> int \<Rightarrow> int \<Rightarrow> bool) \<Rightarrow> clock_attr \<Rightarrow> bool" where
  "clock_ok gregValid ck \<longleftrightarrow>
     (if ck_day ck = 0 then ck_month ck = 0 \<and> ck_year ck = 0
      else checkDate gregValid (ck_day ck) (ck_month ck) (ck_year ck) False = Inr () \<and> ck_year ck \<le> INT_MAX) \<and>
     (if ck_gain ck = 0 then \<not> ck_positiveGain ck else is_int32 (ck_gain ck)) \<and> \<not> ck_end_clock ck"

definition date_text :: "clock_attr \<Rightarrow> string" where
  "date_text ck = string_of_int (ck_day ck) @ CHR ''.'' # string_of_int (ck_month ck) @ CHR ''.'' # string_of_int (ck_year ck)"

definition gain_text :: "clock_attr \<Rightarrow> string" where
  "gain_text ck = (if ck_positiveGain ck then ''+'' else []) @ string_of_int (ck_gain ck)"

lemma clock_tokens:
  assumes "\<not> ck_end_clock ck"
  shows "split (ClockAttr_write ck) [CHR '' '', CHR 0x09] =
    [''clock'', if ck_hybrid ck then ''hybrid'' else ''real''] @ (if ck_day ck \<noteq> 0 then [date_text ck] else []) @
    (if ck_gain ck \<noteq> 0 then [gain_text ck] else [])"
proof -
  let ?d = "[CHR '' '', CHR 0x09]"
  have no: "set (string_of_int i) \<inter> set ?d = {}" for i using set_string_of_int [of i] by auto
  have dt: "set (date_text ck) \<inter> set ?d = {}" "date_text ck \<noteq> []"
    using no [of "ck_day ck"] no [of "ck_month ck"] no [of "ck_year ck"] by (auto simp: date_text_def)
  have gn: "set (gain_text ck) \<inter> set ?d = {}" "gain_text ck \<noteq> []"
    using no [of "ck_gain ck"] string_of_int_not_Nil by (auto simp: gain_text_def)
  let ?k = "if ck_hybrid ck then ''hybrid'' else ''real''"
  have w: "ClockAttr_write ck = ''clock'' @ CHR '' '' # ?k @ CHR '' '' #
      ((if ck_day ck \<noteq> 0 then date_text ck @ '' '' else []) @ (if ck_gain ck \<noteq> 0 then gain_text ck else []))"
    using assms by (simp add: ClockAttr_write_def date_text_def gain_text_def)
  have k: "set ?k \<inter> set ?d = {}" "?k \<noteq> []" by simp_all
  have sp: "CHR '' '' \<in> set ?d" by simp
  have e: "tokens_of ?d ((if ck_day ck \<noteq> 0 then date_text ck @ '' '' else []) @ (if ck_gain ck \<noteq> 0 then gain_text ck else [])) =
      (if ck_day ck \<noteq> 0 then [date_text ck] else []) @ (if ck_gain ck \<noteq> 0 then [gain_text ck] else [])"
    using tokens_of_cut(1) [OF dt sp] tokens_of_cut(2) [OF gn sp] by simp
  have c: "set ''clock'' \<inter> set ?d = {}" "''clock'' \<noteq> ([] :: string)" by simp_all
  show ?thesis
    unfolding split_eq w tokens_of_cut(1) [OF c sp] tokens_of_cut(1) [OF k sp] e by simp
qed

lemma extractTheGain_back:
  assumes "is_int32 (ck_gain ck)"
  shows "extractTheGain (gain_text ck) ck' g = Inr (set_gain_in_seconds (ck_gain ck) (ck_positiveGain ck) ck' g)"
proof -
  have c: "CHR '':'' \<notin> set (gain_text ck)" using set_string_of_int [of "ck_gain ck"] by (auto simp: gain_text_def)
  have h: "\<not> starts_with (CHR ''+'') (string_of_int i)" for i
    using set_string_of_int [of i] by (cases "string_of_int i") (auto simp: starts_with_def)
  have "theInt (string_of_int (ck_gain ck)) m = Inr (ck_gain ck)" for m
    using lexical_cast_string_of_int [OF assms] by (simp add: theInt_def)
  then show ?thesis
    using c h by (cases "ck_positiveGain ck") (auto simp: extractTheGain_def gain_text_def starts_with_def)
qed

text \<open>A suite clock survives being written and read: parsing the line that \<open>write\<close> gives, split at blanks, gives
  an equal clock: the same type, the same date and the same gain with the same sign.\<close>

theorem clock_write_parse:
  assumes "clock_ok gregValid ck"
  shows "\<exists>ck' g'. ClockParser_doParse gregValid (split (ClockAttr_write ck) [CHR '' '', CHR 0x09]) g = Inr (ck', g') \<and>
    ClockAttr_equal ck ck'"
proof -
  have ok: "\<not> ck_end_clock ck" "ck_gain ck \<noteq> 0 \<Longrightarrow> is_int32 (ck_gain ck)" "ck_gain ck = 0 \<Longrightarrow> \<not> ck_positiveGain ck"
    "ck_day ck = 0 \<Longrightarrow> ck_month ck = 0 \<and> ck_year ck = 0"
    using assms by (auto simp: clock_ok_def split: if_splits)
  have gn: "\<not> starts_with (CHR ''#'') (gain_text ck)" "CHR ''.'' \<notin> set (gain_text ck)" "gain_text ck \<noteq> ''-s''"
    using set_string_of_int [of "ck_gain ck"]
    by (auto simp: gain_text_def starts_with_def split: list.splits)
  obtain n1 g1 where i1: "incr_state_change_no g = (n1, g1)" by fastforce
  obtain n2 g2 where i2: "incr_state_change_no g1 = (n2, g2)" by fastforce
  obtain n3 g3 where i3: "incr_state_change_no g2 = (n3, g3)" by fastforce
  note incr = i1 i2 i3
  let ?r = "\<lambda>n. \<lparr>ck_gain = ck_gain ck, ck_day = ck_day ck, ck_month = ck_month ck, ck_year = ck_year ck,
      ck_state_change_no = n, ck_hybrid = ck_hybrid ck, ck_positiveGain = ck_positiveGain ck, ck_end_clock = False\<rparr>"
  have "\<exists>n g'. ClockParser_doParse gregValid (split (ClockAttr_write ck) [CHR '' '', CHR 0x09]) g = Inr (?r n, g')"
  proof (cases "ck_day ck = 0")
    case True
    then show ?thesis
      using ok gn extractTheGain_back incr
      by (cases "ck_gain ck = 0"; cases "ck_hybrid ck")
        (simp_all add: ClockParser_doParse_def clock_tokens ClockAttr_def set_gain_in_seconds_def)
  next
    case False
    then have chk: "checkDate gregValid (ck_day ck) (ck_month ck) (ck_year ck) False = Inr ()" "ck_year ck \<le> INT_MAX"
      using assms by (auto simp: clock_ok_def)
    then have r: "1 \<le> ck_day ck" "ck_day ck \<le> 31" "1 \<le> ck_month ck" "ck_month ck \<le> 12" "0 < ck_year ck"
      "gregValid (ck_year ck) (ck_month ck) (ck_day ck)" "is_int32 (ck_year ck)"
      by (auto simp: checkDate_def is_int32_def INT_MIN_def split: if_splits)
    have dt: "date_text ck = date_field (ck_day ck) @ CHR ''.'' # date_field (ck_month ck) @ CHR ''.'' # date_field (ck_year ck)"
      using r by (simp add: date_text_def date_field_def)
    have gd: "getDate gregValid (date_text ck) = Inr (ck_day ck, ck_month ck, ck_year ck)"
      unfolding dt using r by (intro getDate_back) auto
    have d2: "CHR ''.'' \<in> set (date_text ck)" by (simp add: date_text_def)
    have d3: "\<not> starts_with (CHR ''#'') (date_text ck)"
      using set_string_of_int [of "ck_day ck"] string_of_int_not_Nil [of "ck_day ck"]
      by (cases "string_of_int (ck_day ck)") (auto simp: date_text_def starts_with_def)
    show ?thesis
      using False ok gn extractTheGain_back incr gd d2 d3 chk(1)
      by (cases "ck_gain ck = 0"; cases "ck_hybrid ck")
        (simp_all add: ClockParser_doParse_def clock_tokens ClockAttr_def ClockAttr_date_def set_gain_in_seconds_def)
  qed
  then obtain n g' where "ClockParser_doParse gregValid (split (ClockAttr_write ck) [CHR '' '', CHR 0x09]) g = Inr (?r n, g')" by blast
  moreover have "ClockAttr_equal ck (?r n)" by (simp add: ClockAttr_equal_def)
  ultimately show ?thesis by blast
qed

theorem clock_write_parse_witness:
  "\<exists>ck ck' g'. ClockAttr_write ck = ''clock real 20.1.2007 +300'' \<and>
     ClockParser_doParse (\<lambda>y m d. True) (split (ClockAttr_write ck) [CHR '' '', CHR 0x09])
       \<lparr>ecf_server = False, ecf_state_change_no = 0, ecf_modify_change_no = 0\<rparr> = Inr (ck', g') \<and> ClockAttr_equal ck ck'"
proof -
  let ?ck = "\<lparr>ck_gain = 300, ck_day = 20, ck_month = 1, ck_year = 2007, ck_state_change_no = 0, ck_hybrid = False,
              ck_positiveGain = True, ck_end_clock = False\<rparr>"
  have ok: "clock_ok (\<lambda>y m d. True) ?ck" by (simp add: clock_ok_def checkDate_def is_int32_def INT_MAX_def INT_MIN_def)
  have w: "ClockAttr_write ?ck = ''clock real 20.1.2007 +300''" by code_simp
  show ?thesis using clock_write_parse [OF ok] w by blast
qed

end
