(* ===== verification/Node_Attrs.thy ===== *)
theory Node_Attrs
  imports Strings
begin

text \<open>
  The attributes that a job updates and a trigger reads: \<open>Event\<close>, \<open>Meter\<close> and \<open>Label\<close>
  (\<open>ANattr/src/NodeAttr.cpp\<close>, \<open>NodeAttr.hpp\<close>) and \<open>Variable\<close> (\<open>ANattr/src/Variable.cpp\<close>). An
  operation that stamps the attribute takes the counters of \<open>Ecf\<close> and returns them. The member
  \<open>used_\<close> of events and meters is the simulator's mark; it has no part in any operation here.
\<close>

section \<open>\<open>Event\<close>\<close>

record event =
  ev_n :: string
  ev_number :: int
  ev_state_change_no :: "32 word"
  ev_v :: bool
  ev_iv :: bool
  ev_used :: bool

definition Event_EMPTY :: event where
  "Event_EMPTY = \<lparr>ev_n = [], ev_number = INT_MAX, ev_state_change_no = 0, ev_v = False, ev_iv = False,
                  ev_used = False\<rparr>"

definition Event_of_number :: "int \<Rightarrow> string \<Rightarrow> bool \<Rightarrow> bool \<Rightarrow> event res" where
  "Event_of_number number eventName iv check_name =
     (if eventName \<noteq> [] \<and> check_name \<and> \<not> valid_name eventName
      then Inl (Runtime_error ''Event::Event: Invalid event name : '')
      else Inr (Event_EMPTY\<lparr>ev_n := eventName, ev_number := number, ev_v := iv, ev_iv := iv\<rparr>))"

definition Event_of_name :: "string \<Rightarrow> bool \<Rightarrow> event res" where
  "Event_of_name eventName iv =
     (let e = Event_EMPTY\<lparr>ev_n := eventName, ev_v := iv, ev_iv := iv\<rparr>
      in if eventName = [] then Inl (Runtime_error ''Event::Event: Invalid event name : '')
         else case (if hd eventName \<in> set ''0123456789'' then lexical_cast_int eventName else None) of
                Some i \<Rightarrow> Inr (e\<lparr>ev_number := i, ev_n := []\<rparr>)
              | None \<Rightarrow> if valid_name eventName then Inr e
                        else Inl (Runtime_error ''Event::Event: Invalid event name : ''))"

definition Event_empty :: "event \<Rightarrow> bool" where
  "Event_empty e = (ev_n e = [] \<and> ev_number e = INT_MAX)"

definition Event_set_value :: "bool \<Rightarrow> event \<Rightarrow> ecf \<Rightarrow> event \<times> ecf" where
  "Event_set_value b e g =
     (let (n, g') = incr_state_change_no g in (e\<lparr>ev_v := b, ev_state_change_no := n\<rparr>, g'))"

definition Event_reset :: "event \<Rightarrow> ecf \<Rightarrow> event \<times> ecf" where
  "Event_reset e g = Event_set_value (ev_iv e) e g"

definition name_or_number :: "event \<Rightarrow> string" where
  "name_or_number e = (if ev_n e = [] then string_of_int (ev_number e) else ev_n e)"

definition Event_less :: "event \<Rightarrow> event \<Rightarrow> bool" where
  "Event_less a b =
     (if ev_n a \<noteq> [] \<and> ev_n b \<noteq> [] then ev_n a < ev_n b
      else if ev_n a = [] \<and> ev_n b = [] then ev_number a < ev_number b
      else name_or_number a < name_or_number b)"

definition Event_equal :: "event \<Rightarrow> event \<Rightarrow> bool" where
  "Event_equal a b =
     (if ev_v a \<noteq> ev_v b then False
      else if ev_number a \<noteq> ev_number b then False
      else if ev_n a \<noteq> ev_n b then False
      else if ev_iv a \<noteq> ev_iv b then False
      else True)"

definition Event_compare :: "event \<Rightarrow> event \<Rightarrow> bool" where
  "Event_compare a b =
     (if ev_number a \<noteq> ev_number b then False else if ev_n a \<noteq> ev_n b then False else True)"

definition Event_write :: "event \<Rightarrow> string" where
  "Event_write e =
     ''event '' @
     (if ev_number e = INT_MAX then ev_n e else string_of_int (ev_number e) @ '' '' @ ev_n e) @
     (if ev_iv e then '' set'' else [])"

definition Event_isValidState :: "string \<Rightarrow> bool" where
  "Event_isValidState state = (if state = ''set'' then True else if state = ''clear'' then True else False)"

section \<open>\<open>Meter\<close>\<close>

record meter =
  me_min :: int
  me_max :: int
  me_v :: int
  me_cc :: int
  me_n :: string
  me_state_change_no :: "32 word"
  me_used :: bool

definition Meter_EMPTY :: meter where
  "Meter_EMPTY = \<lparr>me_min = 0, me_max = 0, me_v = 0, me_cc = 0, me_n = [], me_state_change_no = 0,
                  me_used = False\<rparr>"

definition Meter :: "string \<Rightarrow> int \<Rightarrow> int \<Rightarrow> int \<Rightarrow> int \<Rightarrow> bool \<Rightarrow> meter res" where
  "Meter name mn mx colorChange val check =
     (if check \<and> \<not> valid_name name then Inl (Runtime_error ''Meter::Meter: Invalid Meter name: '')
      else if mn > mx then Inl (Out_of_range ''Meter::Meter: min must be less than max'')
      else let cc = (if colorChange = INT_MAX then mx else colorChange);
               v = (if val = INT_MAX then mn else val)
           in if cc < mn \<or> cc > mx then Inl (Out_of_range ''Meter::Meter: color_change'')
              else Inr (Meter_EMPTY\<lparr>me_n := name, me_min := mn, me_max := mx, me_cc := cc, me_v := v\<rparr>))"

definition Meter_isValidValue :: "int \<Rightarrow> meter \<Rightarrow> bool" where
  "Meter_isValidValue v m = (v \<ge> me_min m \<and> v \<le> me_max m)"

definition Meter_set_value :: "int \<Rightarrow> meter \<Rightarrow> ecf \<Rightarrow> (meter \<times> ecf) res" where
  "Meter_set_value v m g =
     (if \<not> Meter_isValidValue v m then Inl (Runtime_error ''Meter::set_value(int)'')
      else Inr (let (n, g') = incr_state_change_no g in (m\<lparr>me_v := v, me_state_change_no := n\<rparr>, g')))"

definition Meter_reset :: "meter \<Rightarrow> ecf \<Rightarrow> (meter \<times> ecf) res" where
  "Meter_reset m g = Meter_set_value (me_min m) m g"

definition Meter_empty :: "meter \<Rightarrow> bool" where
  "Meter_empty m = (me_n m = [])"

definition Meter_equal :: "meter \<Rightarrow> meter \<Rightarrow> bool" where
  "Meter_equal a b =
     (if me_v a \<noteq> me_v b then False
      else if me_min a \<noteq> me_min b then False
      else if me_max a \<noteq> me_max b then False
      else if me_cc a \<noteq> me_cc b then False
      else if me_n a \<noteq> me_n b then False
      else True)"

definition Meter_write :: "meter \<Rightarrow> string" where
  "Meter_write m =
     ''meter '' @ me_n m @ '' '' @ string_of_int (me_min m) @ '' '' @ string_of_int (me_max m) @
     '' '' @ string_of_int (me_cc m)"

section \<open>\<open>Label\<close>\<close>

record label_attr =
  la_n :: string
  la_v :: string
  la_new_v :: string
  la_state_change_no :: "32 word"

definition Label :: "string \<Rightarrow> string \<Rightarrow> string \<Rightarrow> bool \<Rightarrow> label_attr res" where
  "Label name val new_value check_name =
     (if check_name \<and> \<not> valid_name name then Inl (Runtime_error ''Label::Label: Invalid Label name :'')
      else Inr \<lparr>la_n = name, la_v = val, la_new_v = new_value, la_state_change_no = 0\<rparr>)"

definition Label_set_new_value :: "string \<Rightarrow> label_attr \<Rightarrow> ecf \<Rightarrow> label_attr \<times> ecf" where
  "Label_set_new_value l la g =
     (let (n, g') = incr_state_change_no g in (la\<lparr>la_new_v := l, la_state_change_no := n\<rparr>, g'))"

definition Label_reset :: "label_attr \<Rightarrow> ecf \<Rightarrow> label_attr \<times> ecf" where
  "Label_reset la g =
     (let (n, g') = incr_state_change_no g in (la\<lparr>la_new_v := [], la_state_change_no := n\<rparr>, g'))"

definition Label_equal :: "label_attr \<Rightarrow> label_attr \<Rightarrow> bool" where
  "Label_equal a b =
     (if la_n a \<noteq> la_n b then False
      else if la_new_v a \<noteq> la_new_v b then False
      else if la_v a \<noteq> la_v b then False
      else True)"

text \<open>\<open>Str::replaceall\<close> is \<open>boost::replace_all\<close>: the matches are taken from the left and do not
  overlap. A search string is never empty here.\<close>

function replaceall :: "string \<Rightarrow> string \<Rightarrow> string \<Rightarrow> string" where
  "replaceall [] pat rep = []"
| "replaceall (c # cs) pat rep =
     (if pat \<noteq> [] \<and> is_prefix pat (c # cs) then rep @ replaceall (drop (length pat) (c # cs)) pat rep
      else c # replaceall cs pat rep)"
  by pat_completeness auto
termination
  by (relation "measure (\<lambda>(s, _, _). length s)") auto

abbreviation newline :: string where "newline \<equiv> [CHR 0x0A]"
abbreviation escaped_newline :: string where "escaped_newline \<equiv> [CHR 0x5C, CHR ''n'']"
abbreviation dquote :: char where "dquote \<equiv> CHR 0x22"

definition escape_newlines :: "string \<Rightarrow> string" where
  "escape_newlines v = (if \<not> contains_str newline v then v else replaceall v newline escaped_newline)"

definition unescape_newlines :: "string \<Rightarrow> string" where
  "unescape_newlines v = (if contains_str escaped_newline v then replaceall v escaped_newline newline else v)"

definition Label_write :: "label_attr \<Rightarrow> string" where
  "Label_write la = ''label '' @ la_n la @ [CHR '' '', dquote] @ escape_newlines (la_v la) @ [dquote]"

definition Label_print :: "bool \<Rightarrow> label_attr \<Rightarrow> string" where
  "Label_print defsStyle la =
     Label_write la @
     (if defsStyle \<or> la_new_v la = [] then []
      else '' # '' @ [dquote] @ escape_newlines (la_new_v la) @ [dquote]) @ newline"

text \<open>The loop over the tokens of the value: it stops at the first token that starts with \<open>#\<close>.
  \<open>at(0)\<close> of an empty token throws.\<close>

fun label_value_loop :: "bool \<Rightarrow> string list \<Rightarrow> string \<Rightarrow> string res" where
  "label_value_loop is_first [] val = Inr val"
| "label_value_loop is_first (t # ts) val =
     (case t of
        [] \<Rightarrow> Inl (Out_of_range ''std::string::at'')
      | c # _ \<Rightarrow> if c = CHR ''#'' then Inr val
                 else label_value_loop False ts (val @ (if is_first then [] else '' '') @ t))"

text \<open>The backward scan of the line for the quotes after the comment sign: \<open>i\<close> runs from
  \<open>line.size() - 1\<close> down to 1. The result is the comment flag, the first and the last quote.\<close>

fun label_comment_loop :: "string \<Rightarrow> nat \<Rightarrow> nat \<Rightarrow> nat \<Rightarrow> bool \<times> nat \<times> nat" where
  "label_comment_loop line 0 first_q last_q = (False, first_q, last_q)"
| "label_comment_loop line (Suc i) first_q last_q =
     (if line ! Suc i = CHR ''#'' then (True, first_q, last_q)
      else if line ! Suc i = dquote
           then label_comment_loop line i (Suc i) (if last_q = 0 then Suc i else last_q)
           else label_comment_loop line i first_q last_q)"

definition strip_quotes :: "string \<Rightarrow> string res" where
  "strip_quotes s = res_bind (removeQuotes s) removeSingleQuotes"

text \<open>\<open>Label::parse\<close>: the result is the name, the value and, when the line holds one, the new value.\<close>

definition Label_parse :: "string \<Rightarrow> string list \<Rightarrow> bool \<Rightarrow> (string \<times> string \<times> string option) res" where
  "Label_parse line lineTokens parse_state =
     (if length lineTokens < 3 then Inl (Runtime_error ''Label::parse: Invalid label :'')
      else if length lineTokens = 3
      then res_bind (strip_quotes (lineTokens ! 2)) (\<lambda>v. Inr (lineTokens ! 1, unescape_newlines v, None))
      else res_bind (label_value_loop True (drop 2 lineTokens) []) (\<lambda>val.
           res_bind (strip_quotes val) (\<lambda>v.
             let new_value =
               (if parse_state
                then case label_comment_loop line (length line - 1) 0 0 of (comment_fnd, first_q, last_q) \<Rightarrow>
                       if comment_fnd \<and> first_q \<noteq> last_q
                       then Some (unescape_newlines (take (last_q - first_q - 1) (drop (first_q + 1) line)))
                       else None
                else None)
             in Inr (lineTokens ! 1, unescape_newlines v, new_value))))"

section \<open>\<open>Variable\<close>\<close>

record variable =
  va_n :: string
  va_v :: string

definition Variable_EMPTY :: variable where
  "Variable_EMPTY = \<lparr>va_n = [], va_v = []\<rparr>"

definition Variable :: "string \<Rightarrow> string \<Rightarrow> variable res" where
  "Variable name val =
     (if \<not> valid_name name then Inl (Runtime_error ''Variable::Variable: Invalid Variable name: '')
      else Inr \<lparr>va_n = name, va_v = val\<rparr>)"

definition Variable_set_name :: "string \<Rightarrow> variable \<Rightarrow> variable res" where
  "Variable_set_name v va =
     (if \<not> valid_name v then Inl (Runtime_error ''Variable::set_name: Invalid Variable name: '')
      else Inr (va\<lparr>va_n := v\<rparr>))"

definition Variable_value :: "variable \<Rightarrow> int" where
  "Variable_value va = str_to_int (va_v va) 0"

definition Variable_equal :: "variable \<Rightarrow> variable \<Rightarrow> bool" where
  "Variable_equal a b = (if va_v a \<noteq> va_v b then False else if va_n a \<noteq> va_n b then False else True)"

definition Variable_empty :: "variable \<Rightarrow> bool" where
  "Variable_empty va = (va_n va = [])"

definition Variable_write :: "variable \<Rightarrow> string" where
  "Variable_write va = ''edit '' @ va_n va @ '' '' @ [CHR 0x27] @ escape_newlines (va_v va) @ [CHR 0x27]"

section \<open>Values of meters\<close>

text \<open>A sequence of updates from the jobs: one that throws leaves the meter as it was.\<close>

fun meter_run :: "int list \<Rightarrow> meter \<Rightarrow> ecf \<Rightarrow> meter \<times> ecf" where
  "meter_run [] m g = (m, g)"
| "meter_run (v # vs) m g =
     (case Meter_set_value v m g of Inl _ \<Rightarrow> meter_run vs m g | Inr (m', g') \<Rightarrow> meter_run vs m' g')"

lemma Meter_set_value_keeps:
  "Meter_set_value v m g = Inr (m', g') \<Longrightarrow>
     me_v m' = v \<and> me_min m' = me_min m \<and> me_max m' = me_max m \<and> me_n m' = me_n m \<and> me_cc m' = me_cc m
       \<and> Meter_isValidValue v m"
  by (auto simp: Meter_set_value_def split: if_splits prod.splits)

lemma Meter_set_value_total:
  "Meter_isValidValue v m \<Longrightarrow> \<exists>m' g'. Meter_set_value v m g = Inr (m', g')"
  by (auto simp: Meter_set_value_def split: prod.splits)

lemma meter_run_value:
  "me_v (fst (meter_run vs m g)) = last (me_v m # filter (\<lambda>v. Meter_isValidValue v m) vs) \<and>
   me_min (fst (meter_run vs m g)) = me_min m \<and> me_max (fst (meter_run vs m g)) = me_max m"
proof (induction vs arbitrary: m g)
  case (Cons v vs)
  show ?case
  proof (cases "Meter_isValidValue v m")
    case True
    then obtain m' g' where s: "Meter_set_value v m g = Inr (m', g')"
      using Meter_set_value_total by blast
    note k = Meter_set_value_keeps [OF s]
    then have "Meter_isValidValue w m' = Meter_isValidValue w m" for w by (simp add: Meter_isValidValue_def)
    with s k True Cons.IH [of m' g'] show ?thesis by simp
  next
    case False
    with Cons.IH [of m g] show ?thesis by (simp add: Meter_set_value_def)
  qed
qed simp

text \<open>Meters. A meter that the constructor accepts has its colour change inside \<open>[min, max]\<close>; after any
  sequence of updates its value is the last one that lies in the range (the updates outside it
  throw and change nothing), or the initial value when there is none. The value is therefore
  always in the range exactly when the initial value was, which the constructor does not check.\<close>

theorem meter_updates:
  assumes "Meter name mn mx colorChange val check = Inr m"
  defines "v0 \<equiv> (if val = INT_MAX then mn else val)"
  shows "mn \<le> me_cc m \<and> me_cc m \<le> mx \<and>
         me_v (fst (meter_run vs m g)) = last (v0 # filter (\<lambda>v. mn \<le> v \<and> v \<le> mx) vs) \<and>
         ((\<forall>us. Meter_isValidValue (me_v (fst (meter_run us m g))) m) \<longleftrightarrow> mn \<le> v0 \<and> v0 \<le> mx)"
proof -
  from assms have m: "me_min m = mn" "me_max m = mx" "me_v m = v0" "mn \<le> me_cc m" "me_cc m \<le> mx"
    by (auto simp: Meter_def Meter_EMPTY_def Let_def v0_def split: if_splits)
  have val: "Meter_isValidValue v m \<longleftrightarrow> mn \<le> v \<and> v \<le> mx" for v
    by (simp add: Meter_isValidValue_def m)
  have run: "me_v (fst (meter_run us m g)) = last (v0 # filter (\<lambda>v. mn \<le> v \<and> v \<le> mx) us)" for us
    using meter_run_value [of us m g] by (simp add: val m)
  have "mn \<le> last (v0 # filter (\<lambda>v. mn \<le> v \<and> v \<le> mx) us) \<and> last (v0 # filter (\<lambda>v. mn \<le> v \<and> v \<le> mx) us) \<le> mx"
    if "mn \<le> v0" "v0 \<le> mx" for us
  proof -
    have "last (v0 # filter (\<lambda>v. mn \<le> v \<and> v \<le> mx) us) \<in> set (v0 # filter (\<lambda>v. mn \<le> v \<and> v \<le> mx) us)"
      by (rule last_in_set) simp
    with that show ?thesis by (auto simp del: last.simps)
  qed
  then have "\<forall>us. Meter_isValidValue (me_v (fst (meter_run us m g))) m" if "mn \<le> v0" "v0 \<le> mx"
    unfolding val run using that by blast
  moreover have "mn \<le> v0 \<and> v0 \<le> mx" if "\<forall>us. Meter_isValidValue (me_v (fst (meter_run us m g))) m"
    using that [rule_format, of "[]"] by (simp add: val m)
  ultimately show ?thesis using m(4,5) run by blast
qed

definition progress :: meter where
  "progress = Meter_EMPTY\<lparr>me_n := ''progress'', me_max := 100, me_cc := 90\<rparr>"

theorem meter_updates_witness:
  "Meter ''progress'' 0 100 90 INT_MAX True = Inr progress \<and>
   (\<forall>g. me_v (fst (meter_run [20, 130, 40, -1] progress g)) = 40)"
proof -
  have m: "Meter ''progress'' 0 100 90 INT_MAX True = Inr progress"
    by code_simp
  show ?thesis using m meter_updates [OF m, of "[20, 130, 40, -1]"] by simp
qed

text \<open>An event whose name is the decimal of \<open>INT_MAX\<close> is accepted, and is the empty event.\<close>

lemma event_named_int_max_is_empty:
  "\<exists>e. Event_of_name ''2147483647'' False = Inr e \<and> Event_empty e"
  by (simp add: Event_of_name_def Event_EMPTY_def Event_empty_def INT_MAX_def INT_MIN_def is_int32_def
      lexical_cast_int_def lexical_cast_range_def char_digit_def)

section \<open>Labels on the wire\<close>

lemma is_prefix_two: "is_prefix [a, b] (x # xs) \<longleftrightarrow> x = a \<and> xs \<noteq> [] \<and> hd xs = b"
  by (cases xs) auto

lemma contains_two: "contains_str [a, b] (x # xs) \<longleftrightarrow> (x = a \<and> xs \<noteq> [] \<and> hd xs = b) \<or> contains_str [a, b] xs"
  by (simp add: is_prefix_two del: is_prefix.simps)

declare contains_str.simps(2) [simp del]

lemma contains_one: "contains_str [a] xs \<longleftrightarrow> a \<in> set xs"
  by (induction xs) (auto simp: contains_str.simps(2))

abbreviation esc_char :: "char \<Rightarrow> string" where
  "esc_char c \<equiv> (if c = CHR 0x0A then escaped_newline else [c])"

lemma replaceall_newline: "replaceall v newline escaped_newline = concat (map esc_char v)"
  by (induction v) auto

lemma escape_newlines_eq: "escape_newlines v = concat (map esc_char v)"
proof (cases "CHR 0x0A \<in> set v")
  case False
  then have "concat (map esc_char v) = v" by (induction v) auto
  then show ?thesis using False by (simp add: escape_newlines_def contains_one)
qed (simp add: escape_newlines_def contains_one replaceall_newline)

lemma replaceall_none: "\<not> contains_str pat v \<Longrightarrow> replaceall v pat rep = v"
  by (induction v) (auto simp: contains_str.simps(2))

lemma unescape_newlines_eq: "unescape_newlines v = replaceall v escaped_newline newline"
  by (simp add: unescape_newlines_def replaceall_none)

lemma unescape_escape:
  assumes "\<not> contains_str escaped_newline v"
  shows "unescape_newlines (escape_newlines v) = v"
  unfolding escape_newlines_eq unescape_newlines_eq using assms
proof (induction v)
  case (Cons c v)
  then have ih: "replaceall (concat (map esc_char v)) escaped_newline newline = v"
    by (simp add: contains_two)
  show ?case
  proof (cases "c = CHR 0x0A")
    case False
    have "\<not> is_prefix escaped_newline (c # concat (map esc_char v))"
      using Cons.prems by (cases v) (auto simp: is_prefix_two contains_two)
    with False ih show ?thesis by simp
  qed (simp add: ih)
qed simp

lemma esc_char_ends:
  assumes "v \<noteq> []" "b \<noteq> CHR 0x0A" "b \<noteq> CHR 0x5C" "b \<noteq> CHR ''n''"
  shows "concat (map esc_char v) \<noteq> []" "hd (concat (map esc_char v)) = b \<longleftrightarrow> hd v = b"
    "last (concat (map esc_char v)) = b \<longleftrightarrow> last v = b"
proof -
  show "concat (map esc_char v) \<noteq> []" "hd (concat (map esc_char v)) = b \<longleftrightarrow> hd v = b"
    using assms by (cases v; auto)+
  obtain u c where v: "v = u @ [c]" using assms(1) by (cases v rule: rev_cases) auto
  show "last (concat (map esc_char v)) = b \<longleftrightarrow> last v = b" using assms by (auto simp: v)
qed

lemma contains_escape:
  assumes "a \<notin> {CHR 0x0A, CHR 0x5C, CHR ''n''}" "b \<notin> {CHR 0x0A, CHR 0x5C, CHR ''n''}"
  shows "contains_str [a, b] (concat (map esc_char v)) \<longleftrightarrow> contains_str [a, b] v"
proof (induction v)
  case (Cons c v)
  have "concat (map esc_char v) \<noteq> [] \<and> hd (concat (map esc_char v)) = b \<longleftrightarrow> v \<noteq> [] \<and> hd v = b"
    using assms(2) esc_char_ends [of v b] by (cases "v = []") auto
  with Cons assms show ?case by (auto simp: contains_two)
qed simp

lemma contains_snoc:
  "b \<noteq> c \<Longrightarrow> contains_str [a, b] (w @ [c]) \<longleftrightarrow> contains_str [a, b] w"
  by (induction w) (auto simp: contains_two hd_append)

text \<open>The tokens of a line, joined by one blank each, are the line again when it has no tab, no doubled
  blank and no blank at its ends.\<close>

abbreviation blanks :: string where "blanks \<equiv> [CHR '' '', CHR 0x09]"

fun join_words :: "string list \<Rightarrow> string" where
  "join_words [] = []"
| "join_words (t # ts) = t @ concat (map (\<lambda>u. CHR '' '' # u) ts)"

lemma join_segments: "CHR 0x09 \<notin> set s \<Longrightarrow> join_words (segments blanks s) = s"
proof (induction s)
  case (Cons c s)
  then obtain t ts where "segments blanks s = t # ts" by (cases "segments blanks s") auto
  with Cons show ?case by auto
qed simp

lemma segments_words:
  assumes "\<not> contains_str [CHR '' '', CHR '' ''] s" "\<not> contains_str [CHR '' '', CHR ''#''] s"
    and "CHR 0x09 \<notin> set s" "s \<noteq> [] \<Longrightarrow> last s \<noteq> CHR '' ''"
  shows "\<forall>t \<in> set (tl (segments blanks s)). t \<noteq> [] \<and> hd t \<noteq> CHR ''#''"
  using assms
proof (induction s)
  case (Cons c s)
  then have ih: "\<forall>t \<in> set (tl (segments blanks s)). t \<noteq> [] \<and> hd t \<noteq> CHR ''#''"
    by (cases "s = []") (auto simp: contains_two)
  obtain t ts where seg: "segments blanks s = t # ts" by (cases "segments blanks s") auto
  have t: "t = upto_delim blanks s" using seg hd_segments [of blanks s] by simp
  show ?case
  proof (cases "c = CHR '' ''")
    case True
    with Cons.prems obtain d s' where s: "s = d # s'" "d \<noteq> CHR '' ''" "d \<noteq> CHR ''#''" "d \<noteq> CHR 0x09"
      by (cases s) (auto simp: contains_two)
    then have "t \<noteq> [] \<and> hd t \<noteq> CHR ''#''" by (simp add: t)
    with True seg ih show ?thesis by simp
  next
    case False
    with seg ih Cons.prems show ?thesis by auto
  qed
qed simp

lemma label_value_loop_words:
  "\<forall>t \<in> set ts. t \<noteq> [] \<and> hd t \<noteq> CHR ''#'' \<Longrightarrow>
     label_value_loop False ts val = Inr (val @ concat (map (\<lambda>u. CHR '' '' # u) ts))"
  by (induction ts arbitrary: val) (auto split: list.splits)

definition label_safe :: "string \<Rightarrow> bool" where
  "label_safe v \<longleftrightarrow>
     CHR 0x09 \<notin> set v \<and> \<not> contains_str ''  '' v \<and> \<not> contains_str '' #'' v \<and>
     \<not> contains_str escaped_newline v \<and> \<not> (v \<noteq> [] \<and> hd v = CHR 0x27 \<and> last v = CHR 0x27)"

lemma quoted_words:
  assumes "label_safe v"
  defines "q \<equiv> dquote # concat (map esc_char v) @ [dquote]"
  obtains t ts where "tokens_of blanks q = t # ts" "t \<noteq> []" "hd t = dquote" "join_words (t # ts) = q"
    "\<forall>u \<in> set ts. u \<noteq> [] \<and> hd u \<noteq> CHR ''#''"
proof -
  let ?w = "concat (map esc_char v)"
  have "\<not> contains_str [CHR '' '', b] q" if "b \<in> {CHR '' '', CHR ''#''}" for b
    using that assms(1) contains_snoc [of b dquote "CHR '' ''" ?w] contains_escape [of "CHR '' ''" b v]
    by (auto simp: q_def contains_two label_safe_def)
  moreover have tab: "CHR 0x09 \<notin> set q" using assms(1) by (auto simp: q_def label_safe_def)
  ultimately have tl: "\<forall>u \<in> set (tl (segments blanks q)). u \<noteq> [] \<and> hd u \<noteq> CHR ''#''"
    by (intro segments_words) (auto simp: q_def)
  obtain t ts where seg: "segments blanks q = t # ts" by (cases "segments blanks q") auto
  have t: "t = upto_delim blanks q" using seg hd_segments [of blanks q] by simp
  then have "t \<noteq> []" "hd t = dquote" by (simp_all add: q_def)
  moreover from this seg tl have "tokens_of blanks q = t # ts"
    by (auto simp: tokens_of_def intro!: filter_True)
  ultimately show thesis using that seg tl join_segments [OF tab] by simp
qed

lemma valid_name_no_blank: "valid_name n \<Longrightarrow> set n \<inter> set blanks = {} \<and> n \<noteq> []"
proof -
  have "CHR '' '' \<notin> set ALPHANUMERIC_UNDERSCORE" "CHR 0x09 \<notin> set ALPHANUMERIC_UNDERSCORE"
    "CHR '' '' \<notin> set VALID_NODE_CHARS" "CHR 0x09 \<notin> set VALID_NODE_CHARS"
    by (simp_all add: ALPHANUMERIC_UNDERSCORE_def VALID_NODE_CHARS_def)
  then show "valid_name n \<Longrightarrow> ?thesis" by (cases n) (auto simp: valid_name_def list_all_iff)
qed

lemma strip_quotes_quoted:
  assumes "label_safe v"
  shows "strip_quotes (dquote # concat (map esc_char v) @ [dquote]) = Inr (concat (map esc_char v))"
proof -
  let ?w = "concat (map esc_char v)"
  have "\<not> (?w \<noteq> [] \<and> hd ?w = CHR 0x27 \<and> last ?w = CHR 0x27)"
    using assms esc_char_ends [of v "CHR 0x27"] by (cases "v = []") (auto simp: label_safe_def)
  then have "removeSingleQuotes ?w = Inr ?w" by (auto simp: removeSingleQuotes_def remove_quote_char_def)
  then show ?thesis by (simp add: strip_quotes_def removeQuotes_def remove_quote_char_def)
qed

text \<open>Labels. A label that is written to a definition file is read back: splitting the line at blanks and
  parsing the tokens gives the name and the value, whatever newlines the value has. The value must
  have no tab, no two blanks in a row, no blank before a \<open>#\<close>, no backslash before an \<open>n\<close>, and not stand in
  single quotes: those are what the parser, which works on the split line, cannot keep.\<close>

theorem label_write_parse:
  assumes "valid_name (la_n la)" and "label_safe (la_v la)"
  shows "Label_parse (Label_write la) (split (Label_write la) blanks) False
           = Inr (la_n la, la_v la, None)"
proof -
  let ?q = "dquote # concat (map esc_char (la_v la)) @ [dquote]"
  obtain t ts where w: "tokens_of blanks ?q = t # ts" "t \<noteq> []" "hd t = dquote" "join_words (t # ts) = ?q"
    "\<forall>u \<in> set ts. u \<noteq> [] \<and> hd u \<noteq> CHR ''#''"
    using quoted_words [OF assms(2)] by blast
  have line: "Label_write la = ''label'' @ CHR '' '' # (la_n la @ CHR '' '' # ?q)"
    by (simp add: Label_write_def escape_newlines_eq)
  have tok: "split (Label_write la) blanks = ''label'' # la_n la # t # ts"
    using valid_name_no_blank [OF assms(1)] w(1)
      tokens_of_cut(1) [of "''label''" blanks "CHR '' ''" "la_n la @ CHR '' '' # ?q"]
      tokens_of_cut(1) [of "la_n la" blanks "CHR '' ''" ?q]
    by (simp only: split_eq line) simp
  have un: "unescape_newlines (concat (map esc_char (la_v la))) = la_v la"
    using unescape_escape assms(2) by (simp add: escape_newlines_eq label_safe_def)
  have loop: "label_value_loop True (t # ts) [] = Inr ?q"
    using w label_value_loop_words [OF w(5), of t] by (cases t) simp_all
  show ?thesis
    using strip_quotes_quoted [OF assms(2)] w(4) un loop
    by (cases ts) (simp_all add: Label_parse_def tok)
qed

definition two_lines :: label_attr where
  "two_lines = \<lparr>la_n = ''info'', la_v = ''step 1'' @ newline @ ''part#2'', la_new_v = [],
                la_state_change_no = 0\<rparr>"

theorem label_write_parse_witness:
  "valid_name (la_n two_lines) \<and> label_safe (la_v two_lines) \<and>
   Label_parse (Label_write two_lines) (split (Label_write two_lines) blanks) False
     = Inr (''info'', ''step 1'' @ newline @ ''part#2'', None)"
proof -
  have v: "valid_name (la_n two_lines)" by code_simp
  have l: "label_safe (la_v two_lines)" by code_simp
  show ?thesis using v l label_write_parse [OF v l] by (simp add: two_lines_def)
qed

text \<open>What the parser loses outside those conditions: a doubled blank, and all of the value from a
  word that starts with \<open>#\<close> on.\<close>

lemma label_loses_text:
  "Label_parse (Label_write (two_lines\<lparr>la_v := ''a  b''\<rparr>)) (tokens_of blanks (Label_write (two_lines\<lparr>la_v := ''a  b''\<rparr>))) False
     = Inr (''info'', ''a b'', None)"
  "Label_parse (Label_write (two_lines\<lparr>la_v := ''a #1 b''\<rparr>)) (tokens_of blanks (Label_write (two_lines\<lparr>la_v := ''a #1 b''\<rparr>))) False
     = Inr (''info'', dquote # ''a'', None)"
  by code_simp+

end
