(* ===== verification/Queues.thy ===== *)
theory Queues
  imports Strings States
begin

text \<open>
  The queue attribute, \<open>ANattr/src/QueueAttr.cpp\<close>: a list of steps that the jobs of a task take one after
  the other, with a state for each step. \<open>parse\<close> and the printing of the state are not modelled.
\<close>

section \<open>\<open>QueueAttr\<close>\<close>

record queue_attr =
  qa_theQueue :: "string list"
  qa_state_vec :: "NState_State list"
  qa_name :: string
  qa_currentIndex :: int
  qa_state_change_no :: "32 word"
  qa_used_in_trigger :: bool

definition QueueAttr_EMPTY :: queue_attr where
  "QueueAttr_EMPTY = \<lparr>qa_theQueue = [], qa_state_vec = [], qa_name = [], qa_currentIndex = 0,
                      qa_state_change_no = 0, qa_used_in_trigger = False\<rparr>"

definition QueueAttr :: "string \<Rightarrow> string list \<Rightarrow> queue_attr res" where
  "QueueAttr name theQueue =
     (if \<not> valid_name name then Inl (Runtime_error ''QueueAttr::QueueAttr: Invalid queue name : '')
      else if theQueue = [] then Inl (Runtime_error ''QueueAttr::QueueAttr: No queue items specified'')
      else Inr (QueueAttr_EMPTY\<lparr>qa_theQueue := theQueue, qa_name := name,
                                qa_state_vec := replicate (length theQueue) NS_QUEUED\<rparr>))"

definition qa_in_range :: "queue_attr \<Rightarrow> bool" where
  "qa_in_range q = (qa_currentIndex q \<ge> 0 \<and> qa_currentIndex q < int (length (qa_theQueue q)))"

definition QueueAttr_equal :: "queue_attr \<Rightarrow> queue_attr \<Rightarrow> bool" where
  "QueueAttr_equal a b =
     (if qa_name a \<noteq> qa_name b then False
      else if qa_theQueue a \<noteq> qa_theQueue b then False
      else if qa_state_vec a \<noteq> qa_state_vec b then False
      else if qa_currentIndex a \<noteq> qa_currentIndex b then False
      else True)"

definition QueueAttr_empty :: "queue_attr \<Rightarrow> bool" where
  "QueueAttr_empty q = (qa_name q = [])"

definition QueueAttr_value :: "queue_attr \<Rightarrow> string" where
  "QueueAttr_value q =
     (if qa_in_range q then qa_theQueue q ! nat (qa_currentIndex q) else ''<NULL>'')"

definition QueueAttr_index_or_value :: "queue_attr \<Rightarrow> int" where
  "QueueAttr_index_or_value q =
     (case (if qa_in_range q then lexical_cast_int (qa_theQueue q ! nat (qa_currentIndex q)) else None) of
        Some i \<Rightarrow> i
      | None \<Rightarrow> qa_currentIndex q)"

text \<open>The first index of a step in the queue, which every loop of the class searches for.\<close>

fun step_index :: "string \<Rightarrow> string list \<Rightarrow> nat option" where
  "step_index s [] = None"
| "step_index s (x # xs) = (if s = x then Some 0 else map_option Suc (step_index s xs))"

definition QueueAttr_state :: "string \<Rightarrow> queue_attr \<Rightarrow> NState_State res" where
  "QueueAttr_state s q =
     (case step_index s (qa_theQueue q) of
        None \<Rightarrow> Inl (Runtime_error ''QueueAttr::state: could not find step '')
      | Some i \<Rightarrow> if i \<ge> length (qa_state_vec q) then Inl (Runtime_error ''QueueAttr::state: index out of range'')
                  else Inr (qa_state_vec q ! i))"

definition qa_incr_state_change_no :: "queue_attr \<Rightarrow> ecf \<Rightarrow> queue_attr \<times> ecf" where
  "qa_incr_state_change_no q g =
     (let (n, g') = incr_state_change_no g in (q\<lparr>qa_state_change_no := n\<rparr>, g'))"

definition QueueAttr_requeue :: "queue_attr \<Rightarrow> ecf \<Rightarrow> queue_attr \<times> ecf" where
  "QueueAttr_requeue q g =
     qa_incr_state_change_no
       (q\<lparr>qa_currentIndex := 0, qa_state_vec := map (\<lambda>_. NS_QUEUED) (qa_state_vec q)\<rparr>) g"

text \<open>\<open>state_vec_[i] = st\<close>: an index outside the vector is undefined.\<close>

definition set_step_state :: "nat \<Rightarrow> NState_State \<Rightarrow> queue_attr \<Rightarrow> queue_attr res" where
  "set_step_state i st q =
     (if i < length (qa_state_vec q) then Inr (q\<lparr>qa_state_vec := (qa_state_vec q)[i := st]\<rparr>)
      else Inl (Undefined_behaviour ''state_vec_[i]''))"

definition QueueAttr_active :: "queue_attr \<Rightarrow> ecf \<Rightarrow> (string \<times> queue_attr \<times> ecf) res" where
  "QueueAttr_active q g =
     (if qa_in_range q
      then res_bind (set_step_state (nat (qa_currentIndex q)) NS_ACTIVE q) (\<lambda>q1.
             Inr (qa_theQueue q ! nat (qa_currentIndex q),
                  qa_incr_state_change_no (q1\<lparr>qa_currentIndex := qa_currentIndex q1 + 1\<rparr>) g))
      else Inr (''<NULL>'', q, g))"

definition QueueAttr_settle :: "NState_State \<Rightarrow> string \<Rightarrow> string \<Rightarrow> queue_attr \<Rightarrow> ecf \<Rightarrow> (queue_attr \<times> ecf) res" where
  "QueueAttr_settle st msg s q g =
     (case step_index s (qa_theQueue q) of
        None \<Rightarrow> Inl (Runtime_error msg)
      | Some i \<Rightarrow> res_bind (set_step_state i st q) (\<lambda>q1. Inr (qa_incr_state_change_no q1 g)))"

definition QueueAttr_complete :: "string \<Rightarrow> queue_attr \<Rightarrow> ecf \<Rightarrow> (queue_attr \<times> ecf) res" where
  "QueueAttr_complete s q g = QueueAttr_settle NS_COMPLETE ''QueueAttr::complete: Could not find '' s q g"

definition QueueAttr_aborted :: "string \<Rightarrow> queue_attr \<Rightarrow> ecf \<Rightarrow> (queue_attr \<times> ecf) res" where
  "QueueAttr_aborted s q g = QueueAttr_settle NS_ABORTED ''QueueAttr::aborted: Could not find '' s q g"

definition no_of_aborted :: "queue_attr \<Rightarrow> string" where
  "no_of_aborted q =
     (let count = length (filter (\<lambda>s. s = NS_ABORTED) (qa_state_vec q))
      in if count \<noteq> 0 then string_of_nat count else [])"

fun first_queued_or_aborted :: "NState_State list \<Rightarrow> nat option" where
  "first_queued_or_aborted [] = None"
| "first_queued_or_aborted (s # ss) =
     (if s = NS_QUEUED \<or> s = NS_ABORTED then Some 0 else map_option Suc (first_queued_or_aborted ss))"

definition reset_index_to_first_queued_or_aborted :: "queue_attr \<Rightarrow> ecf \<Rightarrow> queue_attr \<times> ecf" where
  "reset_index_to_first_queued_or_aborted q g =
     (case first_queued_or_aborted (qa_state_vec q) of
        None \<Rightarrow> (q, g)
      | Some i \<Rightarrow> qa_incr_state_change_no (q\<lparr>qa_currentIndex := int i\<rparr>) g)"

definition QueueAttr_write :: "queue_attr \<Rightarrow> string" where
  "QueueAttr_write q = ''queue '' @ qa_name q @ concat (map (\<lambda>s. '' '' @ s) (qa_theQueue q))"

definition set_queue :: "string list \<Rightarrow> int \<Rightarrow> NState_State list \<Rightarrow> queue_attr \<Rightarrow> queue_attr res" where
  "set_queue theQueue index state_vec q =
     (if theQueue = [] then Inl (Runtime_error ''QueueAttr::set_queue: No queue items specified'')
      else if state_vec \<noteq> [] \<and> length state_vec \<noteq> length theQueue
           then Inl (Runtime_error ''QueueAttr::set_state: for queue '')
      else let vec = (if state_vec \<noteq> [] then state_vec
                      else qa_state_vec q @ replicate (length theQueue) NS_QUEUED)
           in Inr (q\<lparr>qa_state_vec := vec, qa_currentIndex := index, qa_theQueue := theQueue\<rparr>))"

section \<open>What a queue promises\<close>

text \<open>The abstract queue: the steps not handed out yet, and the state of every step.\<close>

type_synonym queue_spec = "string list \<times> (string \<rightharpoonup> NState_State)"

definition queue_inv :: "queue_attr \<Rightarrow> bool" where
  "queue_inv q \<longleftrightarrow>
     distinct (qa_theQueue q) \<and> length (qa_state_vec q) = length (qa_theQueue q) \<and>
     0 \<le> qa_currentIndex q \<and> qa_currentIndex q \<le> int (length (qa_theQueue q))"

definition queue_abs :: "queue_attr \<Rightarrow> queue_spec" where
  "queue_abs q = (drop (nat (qa_currentIndex q)) (qa_theQueue q), map_of (zip (qa_theQueue q) (qa_state_vec q)))"

fun take_step :: "queue_spec \<Rightarrow> string \<times> queue_spec" where
  "take_step ([], m) = (''<NULL>'', [], m)"
| "take_step (s # r, m) = (s, r, m(s \<mapsto> NS_ACTIVE))"

fun settle_step :: "NState_State \<Rightarrow> string \<Rightarrow> queue_spec \<Rightarrow> queue_spec option" where
  "settle_step st s (r, m) = (if s \<in> dom m then Some (r, m(s \<mapsto> st)) else None)"

lemma step_index_None: "step_index s xs = None \<longleftrightarrow> s \<notin> set xs"
  by (induction xs) auto

lemma step_index_Some: "step_index s xs = Some i \<Longrightarrow> i < length xs \<and> xs ! i = s"
  by (induction xs arbitrary: i) (auto split: if_splits)

lemma map_of_zip_update:
  "\<lbrakk>distinct xs; length ys = length xs; i < length xs\<rbrakk> \<Longrightarrow>
     map_of (zip xs (ys[i := y])) = (map_of (zip xs ys))(xs ! i \<mapsto> y)"
proof (induction xs arbitrary: ys i)
  case (Cons x xs)
  then obtain z zs where ys: "ys = z # zs" by (cases ys) auto
  show ?case
  proof (cases i)
    case (Suc j)
    then have "x \<noteq> xs ! j" using Cons.prems by auto
    then show ?thesis using Suc Cons.prems Cons.IH [of zs j] by (auto simp: ys fun_eq_iff)
  qed (auto simp: ys fun_eq_iff)
qed simp

lemma active_refines:
  assumes "queue_inv q"
  shows "\<exists>q' g'. QueueAttr_active q g = Inr (fst (take_step (queue_abs q)), q', g') \<and> queue_inv q' \<and>
           queue_abs q' = snd (take_step (queue_abs q)) \<and> qa_theQueue q' = qa_theQueue q"
proof (cases "qa_in_range q")
  case True
  define k where "k = nat (qa_currentIndex q)"
  with True have k: "qa_currentIndex q = int k" "k < length (qa_theQueue q)" by (auto simp: qa_in_range_def)
  then have "drop k (qa_theQueue q) = qa_theQueue q ! k # drop (Suc k) (qa_theQueue q)"
    by (simp add: Cons_nth_drop_Suc)
  moreover have "nat (int k + 1) = Suc k" by simp
  ultimately show ?thesis using assms k True
    by (auto simp: QueueAttr_active_def set_step_state_def queue_inv_def queue_abs_def map_of_zip_update
        qa_incr_state_change_no_def split: prod.splits)
next
  case False
  with assms show ?thesis
    by (auto simp: QueueAttr_active_def queue_inv_def queue_abs_def qa_in_range_def)
qed

lemma settle_refines:
  assumes "queue_inv q"
  shows "case settle_step st s (queue_abs q) of
           None \<Rightarrow> QueueAttr_settle st msg s q g = Inl (Runtime_error msg)
         | Some a \<Rightarrow> \<exists>q' g'. QueueAttr_settle st msg s q g = Inr (q', g') \<and> queue_inv q' \<and> queue_abs q' = a \<and>
                      qa_theQueue q' = qa_theQueue q"
proof (cases "step_index s (qa_theQueue q)")
  case None
  then have "s \<notin> set (qa_theQueue q)" by (simp add: step_index_None)
  with assms None show ?thesis
    by (auto simp: QueueAttr_settle_def queue_inv_def queue_abs_def dom_map_of_zip)
next
  case (Some i)
  note i = step_index_Some [OF Some]
  then have "s \<in> set (qa_theQueue q)" by auto
  with assms i Some show ?thesis
    by (auto simp: QueueAttr_settle_def queue_inv_def queue_abs_def dom_map_of_zip set_step_state_def
        map_of_zip_update qa_incr_state_change_no_def split: prod.splits)
qed

text \<open>What the jobs send: \<open>ecflow_client --queue\<close> with the action \<open>active\<close>, \<open>complete\<close> or \<open>aborted\<close>. An action that
  throws reports to the job and leaves the queue as it was.\<close>

datatype queue_op = Q_active | Q_complete string | Q_aborted string

fun queue_settling :: "queue_op \<Rightarrow> (NState_State \<times> string) option" where
  "queue_settling Q_active = None"
| "queue_settling (Q_complete s) = Some (NS_COMPLETE, s)"
| "queue_settling (Q_aborted s) = Some (NS_ABORTED, s)"

fun queue_run :: "queue_op list \<Rightarrow> queue_attr \<Rightarrow> ecf \<Rightarrow> (string list \<times> queue_attr) res" where
  "queue_run [] q g = Inr ([], q)"
| "queue_run (Q_active # ops) q g =
     res_bind (QueueAttr_active q g) (\<lambda>(s, q', g').
     res_bind (queue_run ops q' g') (\<lambda>(ss, q''). Inr (s # ss, q'')))"
| "queue_run (Q_complete s # ops) q g =
     (case QueueAttr_complete s q g of Inl _ \<Rightarrow> queue_run ops q g | Inr (q', g') \<Rightarrow> queue_run ops q' g')"
| "queue_run (Q_aborted s # ops) q g =
     (case QueueAttr_aborted s q g of Inl _ \<Rightarrow> queue_run ops q g | Inr (q', g') \<Rightarrow> queue_run ops q' g')"

fun spec_run :: "queue_op list \<Rightarrow> queue_spec \<Rightarrow> string list \<times> queue_spec" where
  "spec_run [] a = ([], a)"
| "spec_run (Q_active # ops) a =
     (let (s, a') = take_step a; (ss, a'') = spec_run ops a' in (s # ss, a''))"
| "spec_run (Q_complete s # ops) a =
     spec_run ops (case settle_step NS_COMPLETE s a of None \<Rightarrow> a | Some a' \<Rightarrow> a')"
| "spec_run (Q_aborted s # ops) a =
     spec_run ops (case settle_step NS_ABORTED s a of None \<Rightarrow> a | Some a' \<Rightarrow> a')"

lemma queue_settle_cases:
  assumes "queue_inv q"
  obtains "settle_step st s (queue_abs q) = None" "QueueAttr_settle st msg s q g = Inl (Runtime_error msg)"
  | q' g' where "QueueAttr_settle st msg s q g = Inr (q', g')" "queue_inv q'"
      "settle_step st s (queue_abs q) = Some (queue_abs q')" "qa_theQueue q' = qa_theQueue q"
  using settle_refines [OF assms, where st = st and s = s and msg = msg and g = g] by (auto split: option.splits)

lemma queue_run_refines:
  "queue_inv q \<Longrightarrow>
     \<exists>q'. queue_run ops q g = Inr (fst (spec_run ops (queue_abs q)), q') \<and> queue_inv q' \<and>
          queue_abs q' = snd (spec_run ops (queue_abs q))"
proof (induction ops q g rule: queue_run.induct)
  case (2 ops q g)
  from active_refines [OF 2(2), of g] obtain q' g' where
    a: "QueueAttr_active q g = Inr (fst (take_step (queue_abs q)), q', g')" "queue_inv q'"
      "queue_abs q' = snd (take_step (queue_abs q))" by blast
  with 2(1) [OF a(2)] show ?case by (auto simp: case_prod_beta)
next
  case (3 s ops q g)
  show ?case
    by (rule queue_settle_cases [OF 3(3), where st = NS_COMPLETE and s = s and g = g
          and msg = "''QueueAttr::complete: Could not find ''"])
      (use 3 in \<open>auto simp: QueueAttr_complete_def\<close>)
next
  case (4 s ops q g)
  show ?case
    by (rule queue_settle_cases [OF 4(3), where st = NS_ABORTED and s = s and g = g
          and msg = "''QueueAttr::aborted: Could not find ''"])
      (use 4 in \<open>auto simp: QueueAttr_aborted_def\<close>)
qed simp

lemma settle_step_rest: "settle_step st s a = Some a' \<Longrightarrow> fst a' = fst a"
  by (cases a) (auto split: if_splits)

lemma spec_run_hands_out:
  "fst (spec_run ops a) =
     (let n = length (filter (\<lambda>x. x = Q_active) ops)
      in take n (fst a) @ replicate (n - length (fst a)) ''<NULL>'')"
proof (induction ops a rule: spec_run.induct)
  case (2 ops a)
  obtain r m where a: "a = (r, m)" by (cases a)
  show ?case
  proof (cases r)
    case Nil
    with 2 a show ?thesis by (simp add: Let_def case_prod_beta)
  next
    case (Cons s r')
    with 2 a show ?thesis by (simp add: Let_def case_prod_beta)
  qed
next
  case (3 s ops a)
  then show ?case by (auto split: option.splits dest: settle_step_rest)
next
  case (4 s ops a)
  then show ?case by (auto split: option.splits dest: settle_step_rest)
qed simp

text \<open>C35. Queues. Whatever the jobs send, a new queue of distinct steps behaves as the abstract queue: the
  \<open>active\<close> requests are given the steps in their order, each one once, and \<open><NULL>\<close> when there are none
  left; every report changes the state of its own step and no other; and no request is undefined.\<close>

theorem queue_refines_spec:
  fixes ops :: "queue_op list"
  assumes "QueueAttr name steps = Inr q" and "distinct steps"
  defines "spec \<equiv> spec_run ops (steps, map_of (map (\<lambda>s. (s, NS_QUEUED)) steps))"
    and "n \<equiv> length (filter (\<lambda>x. x = Q_active) ops)"
  shows "\<exists>q'. queue_run ops q g = Inr (take n steps @ replicate (n - length steps) ''<NULL>'', q') \<and>
              queue_abs q' = snd spec \<and> fst spec = take n steps @ replicate (n - length steps) ''<NULL>''"
proof -
  have zip: "zip steps (replicate (length steps) NS_QUEUED) = map (\<lambda>s. (s, NS_QUEUED)) steps"
    by (simp add: zip_replicate2)
  have q: "queue_inv q" "queue_abs q = (steps, map_of (map (\<lambda>s. (s, NS_QUEUED)) steps))"
    using assms(1,2) by (auto simp: QueueAttr_def QueueAttr_EMPTY_def queue_inv_def queue_abs_def zip
        split: if_splits)
  then show ?thesis
    using queue_run_refines [OF q(1), of ops g] spec_run_hands_out [of ops "queue_abs q"]
    by (auto simp: spec_def n_def Let_def)
qed

definition ab_queue :: queue_attr where
  "ab_queue = QueueAttr_EMPTY\<lparr>qa_theQueue := [''a'', ''b''], qa_name := ''q'', qa_state_vec := [NS_QUEUED, NS_QUEUED]\<rparr>"

theorem queue_refines_spec_witness:
  "QueueAttr ''q'' [''a'', ''b''] = Inr ab_queue \<and> distinct [''a'', ''b''] \<and>
   (\<forall>g. \<exists>q'. queue_run [Q_active, Q_active, Q_complete ''a'', Q_active] ab_queue g
                = Inr ([''a'', ''b'', ''<NULL>''], q'))"
proof -
  have q: "QueueAttr ''q'' [''a'', ''b''] = Inr ab_queue" by code_simp
  show ?thesis
    using q queue_refines_spec [OF q, of "[Q_active, Q_active, Q_complete ''a'', Q_active]"]
    by (simp add: numeral_3_eq_3) blast
qed

text \<open>After \<open>reset_index_to_first_queued_or_aborted\<close> the steps behind the first one that was aborted are
  handed out again, the completed ones too.\<close>

lemma queue_reset_repeats_completed:
  "\<exists>g. case reset_index_to_first_queued_or_aborted
              (ab_queue\<lparr>qa_currentIndex := 2, qa_state_vec := [NS_ABORTED, NS_COMPLETE]\<rparr>) g of
         (q, g') \<Rightarrow> (case queue_run [Q_active, Q_active] q g' of Inr (ss, _) \<Rightarrow> ss = [''a'', ''b''] | _ \<Rightarrow> False)"
proof -
  let ?g = "\<lparr>ecf_server = False, ecf_state_change_no = 0, ecf_modify_change_no = 0\<rparr>"
  have "case reset_index_to_first_queued_or_aborted
              (ab_queue\<lparr>qa_currentIndex := 2, qa_state_vec := [NS_ABORTED, NS_COMPLETE]\<rparr>) ?g of
         (q, g') \<Rightarrow> (case queue_run [Q_active, Q_active] q g' of Inr (ss, _) \<Rightarrow> ss = [''a'', ''b''] | _ \<Rightarrow> False)"
    by code_simp
  then show ?thesis by (rule exI [of _ ?g])
qed

end
