(* ===== verification/Flags.thy ===== *)
theory Flags
  imports Strings
begin

text \<open>
  The flags of a node and of the definition, \<open>ANode/src/Flag.cpp\<close>: a set of bits in an \<open>int\<close>, and its
  text form, the comma separated names.
\<close>

unbundle bit_operations_syntax

section \<open>\<open>Flag\<close>\<close>

datatype Flag_Type =
    FL_FORCE_ABORT
  | FL_USER_EDIT
  | FL_TASK_ABORTED
  | FL_EDIT_FAILED
  | FL_JOBCMD_FAILED
  | FL_NO_SCRIPT
  | FL_KILLED
  | FL_LATE
  | FL_MESSAGE
  | FL_BYRULE
  | FL_QUEUELIMIT
  | FL_WAIT
  | FL_LOCKED
  | FL_ZOMBIE
  | FL_NO_REQUE_IF_SINGLE_TIME_DEP
  | FL_ARCHIVED
  | FL_RESTORED
  | FL_THRESHOLD
  | FL_ECF_SIGTERM
  | FL_NOT_SET
  | FL_LOG_ERROR
  | FL_CHECKPT_ERROR
  | FL_KILLCMD_FAILED
  | FL_STATUSCMD_FAILED
  | FL_STATUS

fun Flag_number :: "Flag_Type \<Rightarrow> nat" where
  "Flag_number FL_FORCE_ABORT = 0"
| "Flag_number FL_USER_EDIT = 1"
| "Flag_number FL_TASK_ABORTED = 2"
| "Flag_number FL_EDIT_FAILED = 3"
| "Flag_number FL_JOBCMD_FAILED = 4"
| "Flag_number FL_NO_SCRIPT = 5"
| "Flag_number FL_KILLED = 6"
| "Flag_number FL_LATE = 7"
| "Flag_number FL_MESSAGE = 8"
| "Flag_number FL_BYRULE = 9"
| "Flag_number FL_QUEUELIMIT = 10"
| "Flag_number FL_WAIT = 11"
| "Flag_number FL_LOCKED = 12"
| "Flag_number FL_ZOMBIE = 13"
| "Flag_number FL_NO_REQUE_IF_SINGLE_TIME_DEP = 14"
| "Flag_number FL_ARCHIVED = 15"
| "Flag_number FL_RESTORED = 16"
| "Flag_number FL_THRESHOLD = 17"
| "Flag_number FL_ECF_SIGTERM = 18"
| "Flag_number FL_NOT_SET = 19"
| "Flag_number FL_LOG_ERROR = 20"
| "Flag_number FL_CHECKPT_ERROR = 21"
| "Flag_number FL_KILLCMD_FAILED = 22"
| "Flag_number FL_STATUSCMD_FAILED = 23"
| "Flag_number FL_STATUS = 24"

record flag =
  fl_flag :: "32 word"
  fl_state_change_no :: "32 word"

definition Flag_default :: flag where
  "Flag_default = \<lparr>fl_flag = 0, fl_state_change_no = 0\<rparr>"

definition Flag_is_set :: "Flag_Type \<Rightarrow> flag \<Rightarrow> bool" where
  "Flag_is_set t f = (fl_flag f AND push_bit (Flag_number t) 1 \<noteq> 0)"

definition Flag_set :: "Flag_Type \<Rightarrow> flag \<Rightarrow> ecf \<Rightarrow> flag \<times> ecf" where
  "Flag_set t f g =
     (if \<not> Flag_is_set t f
      then let (n, g') = incr_state_change_no g
           in (f\<lparr>fl_flag := fl_flag f OR push_bit (Flag_number t) 1, fl_state_change_no := n\<rparr>, g')
      else (f, g))"

definition Flag_clear :: "Flag_Type \<Rightarrow> flag \<Rightarrow> ecf \<Rightarrow> flag \<times> ecf" where
  "Flag_clear t f g =
     (if Flag_is_set t f
      then let (n, g') = incr_state_change_no g
           in (f\<lparr>fl_flag := fl_flag f AND NOT (push_bit (Flag_number t) 1), fl_state_change_no := n\<rparr>, g')
      else (f, g))"

definition Flag_reset :: "flag \<Rightarrow> ecf \<Rightarrow> flag \<times> ecf" where
  "Flag_reset f g = (let (n, g') = incr_state_change_no g in (\<lparr>fl_flag = 0, fl_state_change_no = n\<rparr>, g'))"

definition Flag_array :: "Flag_Type list" where
  "Flag_array =
     [FL_FORCE_ABORT, FL_USER_EDIT, FL_TASK_ABORTED, FL_EDIT_FAILED,
      FL_JOBCMD_FAILED, FL_KILLCMD_FAILED, FL_STATUSCMD_FAILED, FL_NO_SCRIPT,
      FL_KILLED, FL_STATUS, FL_LATE, FL_MESSAGE,
      FL_BYRULE, FL_QUEUELIMIT, FL_WAIT, FL_LOCKED,
      FL_ZOMBIE, FL_NO_REQUE_IF_SINGLE_TIME_DEP, FL_ARCHIVED, FL_RESTORED,
      FL_THRESHOLD, FL_ECF_SIGTERM, FL_LOG_ERROR, FL_CHECKPT_ERROR]"

fun Flag_enum_to_string :: "Flag_Type \<Rightarrow> string" where
  "Flag_enum_to_string FL_FORCE_ABORT = ''force_aborted''"
| "Flag_enum_to_string FL_USER_EDIT = ''user_edit''"
| "Flag_enum_to_string FL_TASK_ABORTED = ''task_aborted''"
| "Flag_enum_to_string FL_EDIT_FAILED = ''edit_failed''"
| "Flag_enum_to_string FL_JOBCMD_FAILED = ''ecfcmd_failed''"
| "Flag_enum_to_string FL_NO_SCRIPT = ''no_script''"
| "Flag_enum_to_string FL_KILLED = ''killed''"
| "Flag_enum_to_string FL_LATE = ''late''"
| "Flag_enum_to_string FL_MESSAGE = ''message''"
| "Flag_enum_to_string FL_BYRULE = ''by_rule''"
| "Flag_enum_to_string FL_QUEUELIMIT = ''queue_limit''"
| "Flag_enum_to_string FL_WAIT = ''task_waiting''"
| "Flag_enum_to_string FL_LOCKED = ''locked''"
| "Flag_enum_to_string FL_ZOMBIE = ''zombie''"
| "Flag_enum_to_string FL_NO_REQUE_IF_SINGLE_TIME_DEP = ''no_reque''"
| "Flag_enum_to_string FL_ARCHIVED = ''archived''"
| "Flag_enum_to_string FL_RESTORED = ''restored''"
| "Flag_enum_to_string FL_THRESHOLD = ''threshold''"
| "Flag_enum_to_string FL_ECF_SIGTERM = ''sigterm''"
| "Flag_enum_to_string FL_NOT_SET = ''not_set''"
| "Flag_enum_to_string FL_LOG_ERROR = ''log_error''"
| "Flag_enum_to_string FL_CHECKPT_ERROR = ''checkpt_error''"
| "Flag_enum_to_string FL_KILLCMD_FAILED = ''killcmd_failed''"
| "Flag_enum_to_string FL_STATUSCMD_FAILED = ''statuscmd_failed''"
| "Flag_enum_to_string FL_STATUS = ''status''"

definition string_to_flag_type :: "string \<Rightarrow> Flag_Type" where
  "string_to_flag_type s =
     (if s = ''force_aborted'' then FL_FORCE_ABORT
      else if s = ''user_edit'' then FL_USER_EDIT
      else if s = ''task_aborted'' then FL_TASK_ABORTED
      else if s = ''edit_failed'' then FL_EDIT_FAILED
      else if s = ''ecfcmd_failed'' then FL_JOBCMD_FAILED
      else if s = ''killcmd_failed'' then FL_KILLCMD_FAILED
      else if s = ''statuscmd_failed'' then FL_STATUSCMD_FAILED
      else if s = ''status'' then FL_STATUS
      else if s = ''no_script'' then FL_NO_SCRIPT
      else if s = ''killed'' then FL_KILLED
      else if s = ''late'' then FL_LATE
      else if s = ''message'' then FL_MESSAGE
      else if s = ''by_rule'' then FL_BYRULE
      else if s = ''queue_limit'' then FL_QUEUELIMIT
      else if s = ''task_waiting'' then FL_WAIT
      else if s = ''locked'' then FL_LOCKED
      else if s = ''zombie'' then FL_ZOMBIE
      else if s = ''no_reque'' then FL_NO_REQUE_IF_SINGLE_TIME_DEP
      else if s = ''archived'' then FL_ARCHIVED
      else if s = ''restored'' then FL_RESTORED
      else if s = ''threshold'' then FL_THRESHOLD
      else if s = ''sigterm'' then FL_ECF_SIGTERM
      else if s = ''log_error'' then FL_LOG_ERROR
      else if s = ''checkpt_error'' then FL_CHECKPT_ERROR
      else FL_NOT_SET)"

text \<open>The loop of \<open>Flag::write\<close>; \<open>added\<close> says whether a name has been written.\<close>

fun Flag_write_loop :: "Flag_Type list \<Rightarrow> bool \<Rightarrow> flag \<Rightarrow> string" where
  "Flag_write_loop [] added f = []"
| "Flag_write_loop (t # ts) added f =
     (if Flag_is_set t f
      then (if added then '','' else []) @ Flag_enum_to_string t @ Flag_write_loop ts True f
      else Flag_write_loop ts added f)"

definition Flag_to_string :: "flag \<Rightarrow> string" where
  "Flag_to_string f = Flag_write_loop Flag_array False f"

fun set_flag_loop :: "string list \<Rightarrow> flag \<Rightarrow> ecf \<Rightarrow> (flag \<times> ecf) res" where
  "set_flag_loop [] f g = Inr (f, g)"
| "set_flag_loop (i # rest) f g =
     (if i = ''migrated'' then set_flag_loop rest f g
      else let ft = string_to_flag_type i
           in if ft = FL_NOT_SET then Inl (Runtime_error ''Flag::set_flag: Unknown flag types found: '')
              else case Flag_set ft f g of (f', g') \<Rightarrow> set_flag_loop rest f' g')"

definition set_flag :: "string \<Rightarrow> flag \<Rightarrow> ecf \<Rightarrow> (flag \<times> ecf) res" where
  "set_flag flags f g = set_flag_loop (split flags '','') f g"

section \<open>Flags as a set of types\<close>

definition flag_types :: "flag \<Rightarrow> Flag_Type set" where
  "flag_types f = {t. Flag_is_set t f}"

lemma Flag_number_less [simp]: "Flag_number t < 32"
  by (cases t) simp_all

lemma Flag_number_inj [simp]: "Flag_number s = Flag_number t \<longleftrightarrow> s = t"
  by (cases s; cases t) simp_all

lemma Flag_is_set_bit: "Flag_is_set t f \<longleftrightarrow> bit (fl_flag f) (Flag_number t)"
proof -
  have "fl_flag f AND push_bit (Flag_number t) 1 = (if bit (fl_flag f) (Flag_number t) then push_bit (Flag_number t) 1 else 0)"
    by (rule bit_eqI) (auto simp: bit_simps)
  moreover have "(push_bit (Flag_number t) 1 :: 32 word) \<noteq> 0"
    using Flag_number_less [of t] by (auto simp: bit_eq_iff bit_simps intro: exI [of _ "Flag_number t"])
  ultimately show ?thesis by (simp add: Flag_is_set_def)
qed

lemma flag_types_default [simp]: "flag_types Flag_default = {}"
  by (simp add: flag_types_def Flag_is_set_bit Flag_default_def)

lemma flag_types_set [simp]: "flag_types (fst (Flag_set t f g)) = insert t (flag_types f)"
  by (auto simp: Flag_set_def flag_types_def Flag_is_set_bit bit_simps split: prod.splits)

lemma flag_types_clear [simp]: "flag_types (fst (Flag_clear t f g)) = flag_types f - {t}"
  by (auto simp: Flag_clear_def flag_types_def Flag_is_set_bit bit_simps split: prod.splits)

lemma flag_types_reset [simp]: "flag_types (fst (Flag_reset f g)) = {}"
  by (simp add: Flag_reset_def flag_types_def Flag_is_set_bit split: prod.splits)

lemma set_Flag_array: "set Flag_array = UNIV - {FL_NOT_SET}"
proof -
  have "t \<in> set Flag_array \<longleftrightarrow> t \<noteq> FL_NOT_SET" for t by (cases t) (simp_all add: Flag_array_def)
  then show ?thesis by auto
qed

lemma flag_name_back: "t \<noteq> FL_NOT_SET \<Longrightarrow> string_to_flag_type (Flag_enum_to_string t) = t"
  by (cases t) (simp_all add: string_to_flag_type_def)

lemma flag_name_word: "Flag_enum_to_string t \<noteq> [] \<and> CHR '','' \<notin> set (Flag_enum_to_string t)
    \<and> Flag_enum_to_string t \<noteq> ''migrated''"
  by (cases t) simp_all

lemma tokens_of_flags:
  "tokens_of '','' (Flag_write_loop ts added f) = map Flag_enum_to_string (filter (\<lambda>t. Flag_is_set t f) ts)"
proof (induction ts arbitrary: added)
  case (Cons t ts)
  show ?case
  proof (cases "Flag_is_set t f")
    case True
    let ?n = "Flag_enum_to_string t"
    have n: "set ?n \<inter> set '','' = {}" "?n \<noteq> []" using flag_name_word [of t] by auto
    have rest: "Flag_write_loop ts True f = [] \<or> (\<exists>r. Flag_write_loop ts True f = CHR '','' # r)"
      by (induction ts) auto
    have "tokens_of '','' (?n @ Flag_write_loop ts True f) = ?n # tokens_of '','' (Flag_write_loop ts True f)"
      using rest n tokens_of_cut [OF n, of "CHR '',''"] by (auto simp: tokens_of_skip_one)
    then show ?thesis using True Cons.IH [of True] by (simp add: tokens_of_skip_one)
  qed (simp add: Cons.IH)
qed simp

lemma set_flag_loop_names:
  "\<forall>t \<in> set ts. t \<noteq> FL_NOT_SET \<Longrightarrow>
     \<exists>f' g'. set_flag_loop (map Flag_enum_to_string ts) f g = Inr (f', g') \<and> flag_types f' = flag_types f \<union> set ts"
proof (induction ts arbitrary: f g)
  case (Cons t ts)
  obtain f1 g1 where s: "Flag_set t f g = (f1, g1)" by fastforce
  with flag_types_set [of t f g] have "flag_types f1 = insert t (flag_types f)" by simp
  then show ?case using Cons.IH [of f1 g1] Cons.prems s flag_name_word [of t] by (auto simp: flag_name_back)
qed simp

text \<open>Flags. The text form keeps the flags: reading the names that \<open>to_string\<close> writes, into flags that are all
  clear, sets exactly the flags that were set (\<open>NOT_SET\<close> is no flag), whatever operations produced them.\<close>

theorem flag_text_roundtrip:
  "\<exists>f' g'. set_flag (Flag_to_string f) Flag_default g = Inr (f', g') \<and> flag_types f' = flag_types f - {FL_NOT_SET}"
proof -
  let ?ts = "filter (\<lambda>t. Flag_is_set t f) Flag_array"
  have "split (Flag_to_string f) '','' = map Flag_enum_to_string ?ts"
    by (simp add: split_eq Flag_to_string_def tokens_of_flags)
  moreover have "set ?ts = flag_types f - {FL_NOT_SET}" by (auto simp: set_Flag_array flag_types_def)
  moreover have "\<forall>t \<in> set ?ts. t \<noteq> FL_NOT_SET" by (auto simp: set_Flag_array)
  ultimately show ?thesis using set_flag_loop_names [of ?ts Flag_default g] by (simp add: set_flag_def)
qed

end
