(* ===== verification/Expr_Ast.thy ===== *)
theory Expr_Ast
  imports States Flags
begin

text \<open>
  The syntax of trigger and complete expressions: the classes of \<open>ANode/src/ExprAst.hpp\<close>, the text that
  \<open>expression()\<close> recreates, and the parts and the latch of \<open>Expression\<close> (\<open>ANode/src/Expression.cpp\<close>). The
  boost::spirit grammar of \<open>ExprParser\<close> is an argument of the definition that combines the parts. A
  missing child (\<open>nullptr\<close>) is \<open>None\<close>.
\<close>

section \<open>The syntax trees\<close>

datatype binop =
    OpPlus | OpMinus | OpDivide | OpMultiply | OpModulo | OpAnd | OpOr
  | OpEqual | OpNotEqual | OpLessEqual | OpGreaterEqual | OpGreaterThan | OpLessThan

datatype func_type = DATE_TO_JULIAN | JULIAN_TO_DATE

datatype ast =
    AstNot string "ast option" "ast option"
  | AstBin binop "ast option" "ast option"
  | AstFunction func_type ast
  | AstInteger int
  | AstNodeState DState_State
  | AstEventState bool
  | AstNode string
  | AstFlag string Flag_Type
  | AstVariable string string
  | AstParentVariable string

record ast_top =
  at_root :: "ast option"
  at_exprType :: string

fun op_name :: "binop \<Rightarrow> string" where
  "op_name OpPlus = ''AstPlus''"
| "op_name OpMinus = ''AstMinus''"
| "op_name OpDivide = ''AstDivide''"
| "op_name OpMultiply = ''AstMultiply''"
| "op_name OpModulo = ''AstModulo''"
| "op_name OpAnd = ''AstAnd''"
| "op_name OpOr = ''AstOr''"
| "op_name OpEqual = ''AstEqual''"
| "op_name OpNotEqual = ''AstNotEqual''"
| "op_name OpLessEqual = ''AstLessEqual''"
| "op_name OpGreaterEqual = ''AstGreaterEqual''"
| "op_name OpGreaterThan = ''AstGreaterThan''"
| "op_name OpLessThan = ''AstLessThan''"

text \<open>\<open>is_valid_ast\<close>: \<open>None\<close> when valid, the error message otherwise.\<close>

fun is_valid_ast :: "ast \<Rightarrow> string option" where
  "is_valid_ast (AstNot nm l (Some r)) = Some ''AstNot: should only have a single root''"
| "is_valid_ast (AstNot nm None None) = Some ''AstNot: Does not have root''"
| "is_valid_ast (AstNot nm (Some l) None) = is_valid_ast l"
| "is_valid_ast (AstBin bop None r) = Some (op_name bop @ '': has no left part'')"
| "is_valid_ast (AstBin bop (Some l) None) = Some (op_name bop @ '': has no right part'')"
| "is_valid_ast (AstBin bop (Some l) (Some r)) =
     (case is_valid_ast l of Some e \<Rightarrow> Some e | None \<Rightarrow> is_valid_ast r)"
| "is_valid_ast _ = None"

definition AstTop_is_valid_ast :: "ast_top \<Rightarrow> string option" where
  "AstTop_is_valid_ast t =
     (case at_root t of None \<Rightarrow> Some ''AstTop: Abstract syntax tree creation failed'' | Some a \<Rightarrow> is_valid_ast a)"

text \<open>\<open>clone\<close>: a \<open>Not\<close> gets its default name, the top loses its type.\<close>

fun ast_clone :: "ast \<Rightarrow> ast" where
  "ast_clone (AstNot nm l r) = AstNot ''! '' (map_option ast_clone l) None"
| "ast_clone (AstBin bop l r) =
     (case l of
        None \<Rightarrow> AstBin bop (map_option ast_clone r) None
      | Some x \<Rightarrow> AstBin bop (Some (ast_clone x)) (map_option ast_clone r))"
| "ast_clone (AstFunction ft a) = AstFunction ft (ast_clone a)"
| "ast_clone a = a"

section \<open>\<open>Expression\<close>\<close>

datatype ExprType = EX_FIRST | EX_AND | EX_OR

record part_expression =
  pe_exp :: string
  pe_type :: ExprType

text \<open>\<open>theCombinedAst_\<close> is created on demand; \<open>None\<close> before, and after a failure to parse.\<close>

record expression =
  ex_vec :: "part_expression list"
  ex_ast :: "ast_top option"
  ex_state_change_no :: "32 word"
  ex_free :: bool

definition Expression_empty :: expression where
  "Expression_empty = \<lparr>ex_vec = [], ex_ast = None, ex_state_change_no = 0, ex_free = False\<rparr>"

definition Expression_copy :: "expression \<Rightarrow> expression" where
  "Expression_copy rhs = Expression_empty\<lparr>ex_vec := ex_vec rhs, ex_free := ex_free rhs\<rparr>"

definition Expression_equal :: "expression \<Rightarrow> expression \<Rightarrow> bool" where
  "Expression_equal a b = (if ex_free a \<noteq> ex_free b then False else ex_vec a = ex_vec b)"

definition Expression_add :: "part_expression \<Rightarrow> expression \<Rightarrow> expression res" where
  "Expression_add t e =
     (if ex_vec e = []
      then if pe_type t \<noteq> EX_FIRST
           then Inl (Runtime_error ''Expression::add: The first expression should not have AND or OR set'')
           else Inr (e\<lparr>ex_vec := [t]\<rparr>)
      else if pe_type t = EX_FIRST
           then Inl (Runtime_error ''Expression::add: Subsequent expression must have AND or OR set'')
           else Inr (e\<lparr>ex_vec := ex_vec e @ [t]\<rparr>))"

fun add_expr :: "part_expression list \<Rightarrow> expression \<Rightarrow> expression res" where
  "add_expr [] e = Inr e"
| "add_expr (t # ts) e =
     res_bind (Expression_add (if ex_vec e \<noteq> [] \<and> pe_type t = EX_FIRST then t\<lparr>pe_type := EX_AND\<rparr> else t) e)
       (add_expr ts)"

definition Expression_setFree :: "expression \<Rightarrow> ecf \<Rightarrow> expression \<times> ecf" where
  "Expression_setFree e g =
     (if ex_free e then (e, g)
      else let (n, g') = incr_state_change_no g in (e\<lparr>ex_state_change_no := n, ex_free := True\<rparr>, g'))"

definition Expression_clearFree :: "expression \<Rightarrow> ecf \<Rightarrow> expression \<times> ecf" where
  "Expression_clearFree e g =
     (if ex_free e
      then let (n, g') = incr_state_change_no g in (e\<lparr>ex_state_change_no := n, ex_free := False\<rparr>, g')
      else (e, g))"

fun compose_expression :: "part_expression list \<Rightarrow> string" where
  "compose_expression [] = []"
| "compose_expression (t # ts) =
     (case pe_type t of EX_AND \<Rightarrow> '' AND '' | EX_OR \<Rightarrow> '' OR '' | EX_FIRST \<Rightarrow> []) @ pe_exp t @ compose_expression ts"

text \<open>\<open>createAST\<close>: \<open>parse\<close> is the grammar (\<open>None\<close> for a text it rejects, or the empty text), \<open>acc\<close> the tree combined so far. A
  part that does not parse ends the loop and keeps what was combined; a child that is missing fails an assertion
  of \<open>AstRoot::addChild\<close>.\<close>

fun createAST_loop ::
    "(string \<Rightarrow> ast_top option) \<Rightarrow> string \<Rightarrow> part_expression list \<Rightarrow> ast_top option \<Rightarrow> ast_top option res" where
  "createAST_loop parse exprType [] acc = Inr acc"
| "createAST_loop parse exprType (t # ts) acc =
     (case (if pe_exp t = [] then None else parse (pe_exp t)) of
        None \<Rightarrow> Inr acc
      | Some a \<Rightarrow>
          (case acc of
             Some c \<Rightarrow>
               if pe_type t = EX_FIRST then Inl (Assert_failed ''Expression::createAST'')
               else if at_root c = None \<or> at_root a = None then Inl (Assert_failed ''AstRoot::addChild'')
               else createAST_loop parse exprType ts
                      (Some (c\<lparr>at_root := Some (AstBin (if pe_type t = EX_AND then OpAnd else OpOr)
                                                      (at_root c) (at_root a))\<rparr>))
           | None \<Rightarrow>
               if pe_type t \<noteq> EX_FIRST then Inl (Assert_failed ''Expression::createAST'')
               else createAST_loop parse exprType ts (Some (a\<lparr>at_exprType := exprType\<rparr>))))"

definition createAST :: "(string \<Rightarrow> ast_top option) \<Rightarrow> string \<Rightarrow> expression \<Rightarrow> expression res" where
  "createAST parse exprType e =
     res_bind (createAST_loop parse exprType (ex_vec e) (ex_ast e)) (\<lambda>t. Inr (e\<lparr>ex_ast := t\<rparr>))"

text \<open>The parts of an expression built by \<open>add\<close> are one first part and further parts joined by \<open>and\<close> or \<open>or\<close>. Its tree
  is the left-nested combination of the trees of the parts.\<close>

definition parts_ok :: "part_expression list \<Rightarrow> bool" where
  "parts_ok ts = (case ts of [] \<Rightarrow> True | t # us \<Rightarrow> pe_type t = EX_FIRST \<and> list_all (\<lambda>u. pe_type u \<noteq> EX_FIRST) us)"

lemma Expression_add_parts_ok:
  "Expression_add t e = Inr e' \<Longrightarrow> parts_ok (ex_vec e) \<Longrightarrow> parts_ok (ex_vec e')"
  by (auto simp: Expression_add_def parts_ok_def split: if_splits list.splits)

lemma add_expr_parts_ok: "parts_ok (ex_vec e) \<Longrightarrow> ts \<noteq> [] \<Longrightarrow> pe_type (hd ts) = EX_FIRST \<or> ex_vec e \<noteq> [] \<Longrightarrow>
    \<exists>e'. add_expr ts e = Inr e' \<and> parts_ok (ex_vec e') \<and> length (ex_vec e') = length (ex_vec e) + length ts"
proof (induction ts arbitrary: e)
  case (Cons t ts)
  let ?t = "if ex_vec e \<noteq> [] \<and> pe_type t = EX_FIRST then t\<lparr>pe_type := EX_AND\<rparr> else t"
  have "\<exists>e1. Expression_add ?t e = Inr e1 \<and> length (ex_vec e1) = Suc (length (ex_vec e))"
    using Cons.prems by (cases "ex_vec e = []"; cases "pe_type t = EX_FIRST") (simp_all add: Expression_add_def)
  then obtain e1 where e1: "Expression_add ?t e = Inr e1" "length (ex_vec e1) = Suc (length (ex_vec e))" by blast
  then have ok: "parts_ok (ex_vec e1)" using Cons.prems(1) by (blast intro: Expression_add_parts_ok)
  show ?case
  proof (cases "ts = []")
    case True
    with e1 ok show ?thesis by simp
  next
    case False
    with e1(2) ok obtain e2 where "add_expr ts e1 = Inr e2" "parts_ok (ex_vec e2)"
        "length (ex_vec e2) = length (ex_vec e1) + length ts"
      using Cons.IH [of e1] by force
    with e1 show ?thesis by simp
  qed
qed simp

section \<open>Expressions the parser builds\<close>

abbreviation arith_op :: "binop \<Rightarrow> bool" where
  "arith_op bop \<equiv> bop \<in> {OpPlus, OpMinus, OpDivide, OpMultiply, OpModulo}"

text \<open>Trees that stand as a value (arithmetic, functions and leaves), and trees that can stand as a condition: \<open>and\<close>, \<open>or\<close> and \<open>not\<close> over
  conditions, comparisons over values, and the leaves that the code declares evaluable.\<close>

fun has_value :: "ast \<Rightarrow> bool" where
  "has_value (AstBin bop (Some l) (Some r)) = (arith_op bop \<and> has_value l \<and> has_value r)"
| "has_value (AstFunction ft a) = has_value a"
| "has_value (AstNot nm l r) = False"
| "has_value (AstBin bop l r) = False"
| "has_value _ = True"

fun has_truth :: "ast \<Rightarrow> bool" where
  "has_truth (AstNot nm (Some l) None) = has_truth l"
| "has_truth (AstBin bop (Some l) (Some r)) =
     (if bop \<in> {OpAnd, OpOr} then has_truth l \<and> has_truth r else has_value l \<and> has_value r)"
| "has_truth (AstFunction ft a) = has_value a"
| "has_truth (AstNot nm l r) = False"
| "has_truth (AstBin bop l r) = False"
| "has_truth (AstNodeState st) = False"
| "has_truth (AstEventState b) = False"
| "has_truth (AstNode path) = False"
| "has_truth _ = True"

fun arith_free :: "ast \<Rightarrow> bool" where
  "arith_free (AstNot nm l r) = (pred_option arith_free l \<and> pred_option arith_free r)"
| "arith_free (AstBin bop l r) = (\<not> arith_op bop \<and> pred_option arith_free l \<and> pred_option arith_free r)"
| "arith_free (AstFunction ft a) = arith_free a"
| "arith_free _ = True"

end
