(* ===== verification/Limits.thy ===== *)
theory Limits
  imports Strings States
begin

text \<open>
  Limits: \<open>Limit\<close>, \<open>InLimit\<close> and \<open>InLimitMgr\<close> (\<open>ANode/src\<close>), the walk of \<open>Node\<close> up the tree that
  consumes and releases tokens, and \<open>Submittable::update_limits\<close>. The limits live in a store, and an
  \<open>InLimit\<close> holds the address of the limit it resolved to (the weak pointer of the code: a limit
  deleted from the store is \<open>None\<close>). The search of \<open>InLimitMgr::find_limit\<close> through the node tree is
  the argument \<open>fl\<close> of the definitions that resolve. Token counts are unbounded integers; the sum
  of the tokens of one limit stays far below the range of \<open>int\<close>.
\<close>

section \<open>\<open>Limit\<close>\<close>

record limit =
  lim_n :: string
  lim_lim :: int
  lim_value :: int
  lim_paths :: "string set"
  lim_suite :: "string option"
  lim_state_change_no :: "32 word"

text \<open>The counters \<open>update_change_no\<close> writes: those of \<open>Ecf\<close>, and the change number of each suite.\<close>

record limit_sys =
  ls_ecf :: ecf
  ls_suite_change_no :: "string \<Rightarrow> 32 word"

definition Limit :: "string \<Rightarrow> int \<Rightarrow> string option \<Rightarrow> limit res" where
  "Limit name lim suite =
     (if \<not> valid_name name then Inl (Runtime_error ''Limit::Limit: Invalid Limit name: '')
      else Inr \<lparr>lim_n = name, lim_lim = lim, lim_value = 0, lim_paths = {}, lim_suite = suite,
                lim_state_change_no = 0\<rparr>)"

definition Limit_equal :: "limit \<Rightarrow> limit \<Rightarrow> bool" where
  "Limit_equal a b =
     (if lim_value a \<noteq> lim_value b then False
      else if lim_lim a \<noteq> lim_lim b then False
      else if lim_n a \<noteq> lim_n b then False
      else if lim_paths a \<noteq> lim_paths b then False
      else True)"

definition Limit_write :: "limit \<Rightarrow> string" where
  "Limit_write l = ''limit '' @ lim_n l @ '' '' @ string_of_int (lim_lim l)"

definition Limit_update_change_no :: "limit \<Rightarrow> limit_sys \<Rightarrow> limit \<times> limit_sys" where
  "Limit_update_change_no l s =
     (let (n, g) = incr_state_change_no (ls_ecf s);
          s1 = s\<lparr>ls_ecf := g\<rparr>
      in (l\<lparr>lim_state_change_no := n\<rparr>,
          case lim_suite l of
            None \<Rightarrow> s1
          | Some su \<Rightarrow> s1\<lparr>ls_suite_change_no := (ls_suite_change_no s1)(su := n)\<rparr>))"

definition Limit_inLimit :: "int \<Rightarrow> limit \<Rightarrow> bool" where
  "Limit_inLimit inlimit_tokens l = (lim_value l + inlimit_tokens \<le> lim_lim l)"

definition Limit_delete_path :: "string \<Rightarrow> limit \<Rightarrow> limit_sys \<Rightarrow> bool \<times> limit \<times> limit_sys" where
  "Limit_delete_path abs_node_path l s =
     (if abs_node_path \<in> lim_paths l
      then (let (l1, s1) = Limit_update_change_no (l\<lparr>lim_paths := lim_paths l - {abs_node_path}\<rparr>) s
            in (True, l1, s1))
      else (False, l, s))"

definition Limit_decrement :: "int \<Rightarrow> string \<Rightarrow> limit \<Rightarrow> limit_sys \<Rightarrow> limit \<times> limit_sys" where
  "Limit_decrement tokens abs_node_path l s =
     (case Limit_delete_path abs_node_path l s of
        (deleted, l1, s1) \<Rightarrow>
          if deleted
          then let l2 = l1\<lparr>lim_value := lim_value l1 - tokens\<rparr>
               in (if lim_value l2 < 0 then l2\<lparr>lim_value := 0, lim_paths := {}\<rparr> else l2, s1)
          else (l1, s1))"

definition Limit_increment :: "int \<Rightarrow> string \<Rightarrow> limit \<Rightarrow> limit_sys \<Rightarrow> limit \<times> limit_sys" where
  "Limit_increment tokens abs_node_path l s =
     (if abs_node_path \<notin> lim_paths l
      then Limit_update_change_no
             (l\<lparr>lim_paths := insert abs_node_path (lim_paths l), lim_value := lim_value l + tokens\<rparr>) s
      else (l, s))"

definition Limit_setValue :: "int \<Rightarrow> limit \<Rightarrow> limit_sys \<Rightarrow> limit \<times> limit_sys" where
  "Limit_setValue v l s =
     (let l1 = l\<lparr>lim_value := v\<rparr>;
          l2 = (if lim_value l1 = 0 then l1\<lparr>lim_paths := {}\<rparr> else l1)
      in Limit_update_change_no l2 s)"

definition Limit_setLimit :: "int \<Rightarrow> limit \<Rightarrow> limit_sys \<Rightarrow> limit \<times> limit_sys" where
  "Limit_setLimit v l s = Limit_update_change_no (l\<lparr>lim_lim := v\<rparr>) s"

definition Limit_set_paths :: "string set \<Rightarrow> limit \<Rightarrow> limit_sys \<Rightarrow> limit \<times> limit_sys" where
  "Limit_set_paths ps l s = Limit_update_change_no (l\<lparr>lim_paths := ps\<rparr>) s"

definition Limit_set_state :: "int \<Rightarrow> int \<Rightarrow> string set \<Rightarrow> limit \<Rightarrow> limit_sys \<Rightarrow> limit \<times> limit_sys" where
  "Limit_set_state lim v ps l s = Limit_update_change_no (l\<lparr>lim_value := v, lim_lim := lim, lim_paths := ps\<rparr>) s"

definition Limit_reset :: "limit \<Rightarrow> limit_sys \<Rightarrow> limit \<times> limit_sys" where
  "Limit_reset l s = Limit_setValue 0 (l\<lparr>lim_paths := {}\<rparr>) s"

section \<open>\<open>InLimit\<close> and \<open>InLimitMgr\<close>\<close>

record inlimit =
  il_limit :: "nat option"
  il_n :: string
  il_path :: string
  il_tokens :: int
  il_limit_this_node_only :: bool
  il_limit_submission :: bool
  il_incremented :: bool

definition InLimit :: "string \<Rightarrow> string \<Rightarrow> int \<Rightarrow> bool \<Rightarrow> bool \<Rightarrow> bool \<Rightarrow> inlimit res" where
  "InLimit name pathToNode tokens limit_this_node_only limit_submission check =
     (if check \<and> \<not> valid_name name then Inl (Runtime_error ''InLimit::InLimit: Invalid InLimit name: '')
      else if limit_this_node_only \<and> limit_submission
      then Inl (Runtime_error ''InLimit::InLimit: can't limit family only(-n) and limit submission(-s) at the same time'')
      else Inr \<lparr>il_limit = None, il_n = name, il_path = pathToNode, il_tokens = tokens,
                il_limit_this_node_only = limit_this_node_only, il_limit_submission = limit_submission,
                il_incremented = False\<rparr>)"

definition InLimit_equal :: "inlimit \<Rightarrow> inlimit \<Rightarrow> bool" where
  "InLimit_equal a b =
     (if il_path a \<noteq> il_path b then False
      else if il_n a \<noteq> il_n b then False
      else if il_tokens a \<noteq> il_tokens b then False
      else if il_limit_this_node_only a \<noteq> il_limit_this_node_only b then False
      else if il_limit_submission a \<noteq> il_limit_submission b then False
      else if il_incremented a \<noteq> il_incremented b then False
      else True)"

text \<open>The limits of the definition and the counters.\<close>

record lim_world =
  lw_limits :: "nat \<Rightarrow> limit option"
  lw_sys :: limit_sys

text \<open>\<open>InLimit::limit()\<close>: the live target.\<close>

definition inlimit_target :: "lim_world \<Rightarrow> inlimit \<Rightarrow> (nat \<times> limit) option" where
  "inlimit_target w il =
     (case il_limit il of
        None \<Rightarrow> None
      | Some a \<Rightarrow> (case lw_limits w a of None \<Rightarrow> None | Some l \<Rightarrow> Some (a, l)))"

definition resolveInLimit :: "(inlimit \<Rightarrow> nat option) \<Rightarrow> lim_world \<Rightarrow> inlimit \<Rightarrow> inlimit" where
  "resolveInLimit fl w il =
     (case inlimit_target w il of Some _ \<Rightarrow> il | None \<Rightarrow> il\<lparr>il_limit := fl il\<rparr>)"

definition resolveInLimitReferences :: "(inlimit \<Rightarrow> nat option) \<Rightarrow> lim_world \<Rightarrow> inlimit list \<Rightarrow> inlimit list" where
  "resolveInLimitReferences fl w vec = map (resolveInLimit fl w) vec"

definition InLimitMgr_reset :: "inlimit list \<Rightarrow> inlimit list" where
  "InLimitMgr_reset vec = map (\<lambda>i. i\<lparr>il_incremented := False\<rparr>) vec"

fun findInLimitByNameAndPath :: "inlimit \<Rightarrow> inlimit list \<Rightarrow> bool" where
  "findInLimitByNameAndPath l [] = False"
| "findInLimitByNameAndPath l (i # vec) =
     (if il_n i = il_n l \<and> il_path i = il_path l then True else findInLimitByNameAndPath l vec)"

definition addInLimit :: "inlimit \<Rightarrow> bool \<Rightarrow> inlimit list \<Rightarrow> inlimit list res" where
  "addInLimit l check vec =
     (if check \<and> findInLimitByNameAndPath l vec
      then Inl (Runtime_error ''Add InLimit failed: Duplicate InLimit see node '')
      else Inr (vec @ [l]))"

fun deleteInlimit_loop :: "string \<Rightarrow> string \<Rightarrow> inlimit list \<Rightarrow> inlimit list option" where
  "deleteInlimit_loop path_to_limit limit_name [] = None"
| "deleteInlimit_loop path_to_limit limit_name (i # vec) =
     (if (if path_to_limit = [] then il_n i = limit_name
          else il_n i = limit_name \<and> il_path i = path_to_limit)
      then Some vec
      else map_option (Cons i) (deleteInlimit_loop path_to_limit limit_name vec))"

text \<open>The two loops of \<open>inLimit\<close> counters, as pairs.\<close>

fun inLimit_loop :: "lim_world \<Rightarrow> inlimit list \<Rightarrow> nat \<times> nat" where
  "inLimit_loop w [] = (0, 0)"
| "inLimit_loop w (i # vec) =
     (let (withLimits, count) = inLimit_loop w vec
      in if il_limit_this_node_only i \<and> il_incremented i then (withLimits, count)
         else (case inlimit_target w i of
                 None \<Rightarrow> (withLimits, count)
               | Some (a, l) \<Rightarrow>
                   (Suc withLimits, if Limit_inLimit (il_tokens i) l then Suc count else count)))"

definition InLimitMgr_inLimit :: "(inlimit \<Rightarrow> nat option) \<Rightarrow> lim_world \<Rightarrow> inlimit list \<Rightarrow> bool" where
  "InLimitMgr_inLimit fl w vec =
     (if vec = [] then True
      else case inLimit_loop w (resolveInLimitReferences fl w vec) of
             (inlimitsWithLimits, inlimitCount) \<Rightarrow> inlimitsWithLimits = inlimitCount)"

definition lw_put :: "nat \<Rightarrow> limit \<times> limit_sys \<Rightarrow> lim_world \<Rightarrow> lim_world" where
  "lw_put a ls w = w\<lparr>lw_limits := (lw_limits w)(a \<mapsto> fst ls), lw_sys := snd ls\<rparr>"

text \<open>The loops over the in-limits of one node: \<open>node_path\<close> is the path of that node, \<open>task_path\<close> the
  path of the task whose tokens change, \<open>ls\<close> the set of limits already handled.\<close>

fun incrementInLimit_loop ::
    "string \<Rightarrow> string \<Rightarrow> inlimit list \<Rightarrow> nat set \<Rightarrow> lim_world \<Rightarrow> inlimit list \<times> nat set \<times> lim_world" where
  "incrementInLimit_loop node_path task_path [] ls w = ([], ls, w)"
| "incrementInLimit_loop node_path task_path (i # vec) ls w =
     (let (i1, ls1, w1) =
        (case inlimit_target w i of
           None \<Rightarrow> (i, ls, w)
         | Some (a, l) \<Rightarrow>
             if a \<in> ls then (i, ls, w)
             else if il_limit_this_node_only i
             then if \<not> il_incremented i
                  then (i\<lparr>il_incremented := True\<rparr>, insert a ls,
                        lw_put a (Limit_increment (il_tokens i) node_path l (lw_sys w)) w)
                  else (i, insert a ls, w)
             else (i, insert a ls, lw_put a (Limit_increment (il_tokens i) task_path l (lw_sys w)) w));
          (vec1, ls2, w2) = incrementInLimit_loop node_path task_path vec ls1 w1
      in (i1 # vec1, ls2, w2))"

text \<open>\<open>tasks\<close> are the states of all tasks below the node.\<close>

fun decrementInLimit_loop ::
    "NState_State list \<Rightarrow> string \<Rightarrow> string \<Rightarrow> inlimit list \<Rightarrow> nat set \<Rightarrow> lim_world \<Rightarrow>
       inlimit list \<times> nat set \<times> lim_world" where
  "decrementInLimit_loop tasks node_path task_path [] ls w = ([], ls, w)"
| "decrementInLimit_loop tasks node_path task_path (i # vec) ls w =
     (let (i1, ls1, w1) =
        (case inlimit_target w i of
           None \<Rightarrow> (i, ls, w)
         | Some (a, l) \<Rightarrow>
             if a \<in> ls then (i, ls, w)
             else if il_limit_this_node_only i
             then if il_incremented i \<and> \<not> (\<exists>t \<in> set tasks. t = NS_ACTIVE \<or> t = NS_SUBMITTED)
                  then (i\<lparr>il_incremented := False\<rparr>, insert a ls,
                        lw_put a (Limit_decrement (il_tokens i) node_path l (lw_sys w)) w)
                  else (i, insert a ls, w)
             else (i, insert a ls, lw_put a (Limit_decrement (il_tokens i) task_path l (lw_sys w)) w));
          (vec1, ls2, w2) = decrementInLimit_loop tasks node_path task_path vec ls1 w1
      in (i1 # vec1, ls2, w2))"

fun decrementForSubmission_loop ::
    "string \<Rightarrow> inlimit list \<Rightarrow> nat set \<Rightarrow> lim_world \<Rightarrow> inlimit list \<times> nat set \<times> lim_world" where
  "decrementForSubmission_loop task_path [] ls w = ([], ls, w)"
| "decrementForSubmission_loop task_path (i # vec) ls w =
     (let (ls1, w1) =
        (case inlimit_target w i of
           None \<Rightarrow> (ls, w)
         | Some (a, l) \<Rightarrow>
             if a \<in> ls then (ls, w)
             else if il_limit_submission i
             then (insert a ls, lw_put a (Limit_decrement (il_tokens i) task_path l (lw_sys w)) w)
             else (insert a ls, w));
          (vec1, ls2, w2) = decrementForSubmission_loop task_path vec ls1 w1
      in (i # vec1, ls2, w2))"

section \<open>Up the node tree\<close>

text \<open>A node with its address in the tree (the argument of the search), its path, its in-limits and the states of the tasks below it. The chain of a task is the
  list of the nodes from the task to its suite.\<close>

record lim_node =
  ln_addr :: "nat list"
  ln_path :: string
  ln_inlimits :: "inlimit list"
  ln_tasks :: "NState_State list"

type_synonym find_limit = "nat list \<Rightarrow> inlimit \<Rightarrow> nat option"

text \<open>One step of the walk with the loop \<open>f\<close> of the manager; an empty manager returns at once.\<close>

definition mgr_step ::
    "find_limit \<Rightarrow> (lim_node \<Rightarrow> inlimit list \<Rightarrow> nat set \<Rightarrow> lim_world \<Rightarrow> inlimit list \<times> nat set \<times> lim_world) \<Rightarrow>
       lim_node \<Rightarrow> nat set \<Rightarrow> lim_world \<Rightarrow> lim_node \<times> nat set \<times> lim_world" where
  "mgr_step fl f nd ls w =
     (if ln_inlimits nd = [] then (nd, ls, w)
      else case f nd (resolveInLimitReferences (fl (ln_addr nd)) w (ln_inlimits nd)) ls w of
             (vec, ls1, w1) \<Rightarrow> (nd\<lparr>ln_inlimits := vec\<rparr>, ls1, w1))"

fun up_tree ::
    "find_limit \<Rightarrow> (lim_node \<Rightarrow> inlimit list \<Rightarrow> nat set \<Rightarrow> lim_world \<Rightarrow> inlimit list \<times> nat set \<times> lim_world) \<Rightarrow>
       lim_node list \<Rightarrow> nat set \<Rightarrow> lim_world \<Rightarrow> lim_node list \<times> nat set \<times> lim_world" where
  "up_tree fl f [] ls w = ([], ls, w)"
| "up_tree fl f (nd # chain) ls w =
     (let (nd1, ls1, w1) = mgr_step fl f nd ls w;
          (chain1, ls2, w2) = up_tree fl f chain ls1 w1
      in (nd1 # chain1, ls2, w2))"

definition Node_incrementInLimit ::
    "find_limit \<Rightarrow> string \<Rightarrow> lim_node list \<Rightarrow> nat set \<Rightarrow> lim_world \<Rightarrow> lim_node list \<times> nat set \<times> lim_world" where
  "Node_incrementInLimit fl task_path chain ls w =
     up_tree fl (\<lambda>nd. incrementInLimit_loop (ln_path nd) task_path) chain ls w"

definition Node_decrementInLimit ::
    "find_limit \<Rightarrow> string \<Rightarrow> lim_node list \<Rightarrow> nat set \<Rightarrow> lim_world \<Rightarrow> lim_node list \<times> nat set \<times> lim_world" where
  "Node_decrementInLimit fl task_path chain ls w =
     up_tree fl (\<lambda>nd. decrementInLimit_loop (ln_tasks nd) (ln_path nd) task_path) chain ls w"

definition Node_decrementInLimitForSubmission ::
    "find_limit \<Rightarrow> string \<Rightarrow> lim_node list \<Rightarrow> nat set \<Rightarrow> lim_world \<Rightarrow> lim_node list \<times> nat set \<times> lim_world" where
  "Node_decrementInLimitForSubmission fl task_path chain ls w =
     up_tree fl (\<lambda>nd. decrementForSubmission_loop task_path) chain ls w"

fun check_in_limit_up_node_tree :: "find_limit \<Rightarrow> lim_world \<Rightarrow> lim_node list \<Rightarrow> bool" where
  "check_in_limit_up_node_tree fl w [] = True"
| "check_in_limit_up_node_tree fl w (nd # chain) =
     (if \<not> InLimitMgr_inLimit (fl (ln_addr nd)) w (ln_inlimits nd) then False
      else check_in_limit_up_node_tree fl w chain)"

text \<open>\<open>Submittable::update_limits\<close> for the task at the head of the chain, in state \<open>st\<close>.\<close>

definition update_limits ::
    "find_limit \<Rightarrow> string \<Rightarrow> NState_State \<Rightarrow> lim_node list \<Rightarrow> lim_world \<Rightarrow> lim_node list \<times> lim_world" where
  "update_limits fl task_path st chain w =
     (let (chain1, _, w1) =
        (case st of
           NS_COMPLETE \<Rightarrow> Node_decrementInLimit fl task_path chain {} w
         | NS_ABORTED \<Rightarrow> Node_decrementInLimit fl task_path chain {} w
         | NS_SUBMITTED \<Rightarrow> Node_incrementInLimit fl task_path chain {} w
         | NS_ACTIVE \<Rightarrow> Node_decrementInLimitForSubmission fl task_path chain {} w
         | NS_UNKNOWN \<Rightarrow> Node_decrementInLimit fl task_path chain {} w
         | NS_QUEUED \<Rightarrow> Node_decrementInLimit fl task_path chain {} w)
      in (chain1, w1))"

section \<open>Token accounting\<close>

text \<open>What the owner of a token store relies on: consuming for a holder that has none adds it and
  its tokens, consuming again changes nothing, and releasing takes back what the holder consumed.\<close>

datatype token_op = Consume string | Release string

fun token_run ::
    "(int \<Rightarrow> string \<Rightarrow> 'a \<Rightarrow> 'a) \<Rightarrow> (int \<Rightarrow> string \<Rightarrow> 'a \<Rightarrow> 'a) \<Rightarrow> (string \<Rightarrow> int) \<Rightarrow> token_op \<Rightarrow> 'a \<Rightarrow> 'a" where
  "token_run consume release tok (Consume p) x = consume (tok p) p x"
| "token_run consume release tok (Release p) x = release (tok p) p x"

fun holders_after :: "token_op list \<Rightarrow> string set \<Rightarrow> string set" where
  "holders_after [] H = H"
| "holders_after (Consume p # ops) H = holders_after ops (insert p H)"
| "holders_after (Release p # ops) H = holders_after ops (H - {p})"

definition accounted_for :: "('a \<Rightarrow> int) \<Rightarrow> ('a \<Rightarrow> string set) \<Rightarrow> (string \<Rightarrow> int) \<Rightarrow> 'a \<Rightarrow> bool" where
  "accounted_for used holders tok x \<longleftrightarrow> finite (holders x) \<and> used x = (\<Sum>p \<in> holders x. tok p)"

locale token_store =
  fixes used :: "'a \<Rightarrow> int"
    and holders :: "'a \<Rightarrow> string set"
    and consume :: "int \<Rightarrow> string \<Rightarrow> 'a \<Rightarrow> 'a"
    and release :: "int \<Rightarrow> string \<Rightarrow> 'a \<Rightarrow> 'a"
  assumes consume_new: "p \<notin> holders x \<Longrightarrow> holders (consume t p x) = insert p (holders x) \<and> used (consume t p x) = used x + t"
    and consume_old: "p \<in> holders x \<Longrightarrow> consume t p x = x"
    and release_held: "p \<in> holders x \<Longrightarrow> t \<le> used x \<Longrightarrow>
      holders (release t p x) = holders x - {p} \<and> used (release t p x) = used x - t"
    and release_not_held: "p \<notin> holders x \<Longrightarrow> release t p x = x"
begin

lemma accounted_consume: "accounted_for used holders tok x \<Longrightarrow> accounted_for used holders tok (consume (tok p) p x)"
  using consume_new [of p x "tok p"] consume_old [of p x "tok p"]
  by (cases "p \<in> holders x") (auto simp: accounted_for_def)

lemma held_le_used:
  assumes "accounted_for used holders tok x" "\<And>q. 0 \<le> tok q" "p \<in> holders x"
  shows "tok p \<le> used x"
  using assms member_le_sum [of p "holders x" tok] by (auto simp: accounted_for_def)

lemma accounted_release:
  assumes "accounted_for used holders tok x" "\<And>q. 0 \<le> tok q"
  shows "accounted_for used holders tok (release (tok p) p x)"
proof (cases "p \<in> holders x")
  case True
  from release_held [OF True held_le_used [OF assms True]] assms(1) True show ?thesis
    by (auto simp: accounted_for_def sum_diff1)
qed (use release_not_held assms in simp)

lemma run_op_holders:
  assumes "accounted_for used holders tok x" "\<And>q. 0 \<le> tok q"
  shows "holders (token_run consume release tok c x) = holders_after [c] (holders x)"
proof (cases c)
  case (Consume p)
  then show ?thesis using consume_new [of p x] consume_old [of p x] by (cases "p \<in> holders x") auto
next
  case (Release p)
  then show ?thesis
    using release_held [of p x "tok p"] held_le_used [OF assms, of p] release_not_held [of p x]
    by (cases "p \<in> holders x") auto
qed

lemma run_accounted:
  assumes "accounted_for used holders tok x" "\<And>q. 0 \<le> tok q"
  shows "accounted_for used holders tok (fold (token_run consume release tok) ops x) \<and> holders (fold (token_run consume release tok) ops x) = holders_after ops (holders x)"
  using assms(1)
proof (induction ops arbitrary: x)
  case (Cons c ops)
  have "accounted_for used holders tok (token_run consume release tok c x)"
    using Cons.prems assms(2) accounted_consume accounted_release by (cases c) auto
  from Cons.IH [OF this] run_op_holders [OF Cons.prems assms(2), of c] show ?case by (cases c) auto
qed simp

end

lemma Limit_update_change_no_fields [simp]:
  "lim_value (fst (Limit_update_change_no l s)) = lim_value l"
  "lim_paths (fst (Limit_update_change_no l s)) = lim_paths l"
  "lim_lim (fst (Limit_update_change_no l s)) = lim_lim l"
  by (simp_all add: Limit_update_change_no_def Let_def split: prod.split)

lemma Limit_increment_fields:
  "lim_paths (fst (Limit_increment t p l s)) = insert p (lim_paths l)"
  "p \<notin> lim_paths l \<Longrightarrow> lim_value (fst (Limit_increment t p l s)) = lim_value l + t"
  "p \<in> lim_paths l \<Longrightarrow> Limit_increment t p l s = (l, s)"
  by (auto simp: Limit_increment_def)

lemma Limit_decrement_fields:
  "p \<notin> lim_paths l \<Longrightarrow> Limit_decrement t p l s = (l, s)"
  "p \<in> lim_paths l \<Longrightarrow> t \<le> lim_value l \<Longrightarrow> lim_paths (fst (Limit_decrement t p l s)) = lim_paths l - {p}"
  "p \<in> lim_paths l \<Longrightarrow> t \<le> lim_value l \<Longrightarrow> lim_value (fst (Limit_decrement t p l s)) = lim_value l - t"
  "p \<notin> lim_paths (fst (Limit_decrement t p l s))"
  "lim_paths (fst (Limit_decrement t p l s)) \<subseteq> lim_paths l"
proof -
  obtain l1 s1 where u: "Limit_update_change_no (l\<lparr>lim_paths := lim_paths l - {p}\<rparr>) s = (l1, s1)" by fastforce
  have l1: "lim_value l1 = lim_value l" "lim_paths l1 = lim_paths l - {p}"
    using Limit_update_change_no_fields(1,2) [of "l\<lparr>lim_paths := lim_paths l - {p}\<rparr>" s, unfolded u] by simp_all
  note d = Limit_decrement_def Limit_delete_path_def Let_def
  show "p \<notin> lim_paths l \<Longrightarrow> Limit_decrement t p l s = (l, s)" by (simp add: d)
  show "p \<in> lim_paths l \<Longrightarrow> t \<le> lim_value l \<Longrightarrow> lim_paths (fst (Limit_decrement t p l s)) = lim_paths l - {p}"
    "p \<in> lim_paths l \<Longrightarrow> t \<le> lim_value l \<Longrightarrow> lim_value (fst (Limit_decrement t p l s)) = lim_value l - t"
    "p \<notin> lim_paths (fst (Limit_decrement t p l s))" "lim_paths (fst (Limit_decrement t p l s)) \<subseteq> lim_paths l"
    using l1 by (auto simp: d u)
qed

text \<open>A limit with the counters it stamps.\<close>

type_synonym limit_state = "limit \<times> limit_sys"

definition consume_limit :: "int \<Rightarrow> string \<Rightarrow> limit_state \<Rightarrow> limit_state" where
  "consume_limit t p x = Limit_increment t p (fst x) (snd x)"

definition release_limit :: "int \<Rightarrow> string \<Rightarrow> limit_state \<Rightarrow> limit_state" where
  "release_limit t p x = Limit_decrement t p (fst x) (snd x)"

interpretation limit_tokens: token_store "\<lambda>x. lim_value (fst x)" "\<lambda>x. lim_paths (fst x)" consume_limit release_limit
  by unfold_locales
    (simp_all add: consume_limit_def release_limit_def Limit_increment_fields Limit_decrement_fields)

section \<open>A walk up the tree touches each limit once\<close>

text \<open>The walk as one list of visits: the in-limits of the chain from the task to the suite, each
  with its node, resolved.\<close>

definition visits :: "find_limit \<Rightarrow> lim_world \<Rightarrow> lim_node list \<Rightarrow> inlimit list" where
  "visits fl w chain = concat (map (\<lambda>nd. resolveInLimitReferences (fl (ln_addr nd)) w (ln_inlimits nd)) chain)"

text \<open>The in-limit that decides for the limit \<open>a\<close>: the first visit whose live target is \<open>a\<close>.\<close>

fun deciding :: "lim_world \<Rightarrow> nat \<Rightarrow> inlimit list \<Rightarrow> inlimit option" where
  "deciding w a [] = None"
| "deciding w a (i # vis) = (if map_option fst (inlimit_target w i) = Some a then Some i else deciding w a vis)"

text \<open>Two worlds with the same live limits resolve alike.\<close>

definition same_dom :: "lim_world \<Rightarrow> lim_world \<Rightarrow> bool" where
  "same_dom w w' \<longleftrightarrow> (\<forall>a. (lw_limits w a = None) = (lw_limits w' a = None))"

lemma same_dom_refl [simp]: "same_dom w w"
  by (simp add: same_dom_def)

lemma same_dom_trans: "same_dom w w' \<Longrightarrow> same_dom w' w'' \<Longrightarrow> same_dom w w''"
  by (simp add: same_dom_def)

lemma same_dom_put: "lw_limits w a \<noteq> None \<Longrightarrow> same_dom w (lw_put a x w)"
  by (simp add: same_dom_def lw_put_def)

lemma inlimit_target_Some: "inlimit_target w i = Some (a, l) \<longleftrightarrow> il_limit i = Some a \<and> lw_limits w a = Some l"
  by (auto simp: inlimit_target_def split: option.splits)

lemma inlimit_target_fst: "map_option fst (inlimit_target w i) = Some a \<longleftrightarrow> il_limit i = Some a \<and> lw_limits w a \<noteq> None"
  by (auto simp: inlimit_target_def split: option.splits)

lemma same_dom_target: "same_dom w w' \<Longrightarrow> map_option fst (inlimit_target w i) = map_option fst (inlimit_target w' i)"
  by (auto simp: inlimit_target_def same_dom_def split: option.splits) (metis option.distinct(1))+

lemma same_dom_resolve: "same_dom w w' \<Longrightarrow> resolveInLimitReferences fl w vec = resolveInLimitReferences fl w' vec"
  using same_dom_target [of w w']
  by (auto simp: resolveInLimitReferences_def resolveInLimit_def split: option.splits) (metis option.map_disc_iff option.distinct(1))+

lemma same_dom_deciding: "same_dom w w' \<Longrightarrow> deciding w a vis = deciding w' a vis"
  by (induction vis) (simp_all add: same_dom_target)

lemma same_dom_visits: "same_dom w w' \<Longrightarrow> visits fl w chain = visits fl w' chain"
  using same_dom_resolve [of w w'] by (simp add: visits_def)

text \<open>What one loop of the manager does to the limits: a handled limit is left alone, a limit that
  no visit decides is left alone, and a limit decided by \<open>i\<close> is changed by \<open>eff nd i\<close>.\<close>

definition loop_effect ::
    "(inlimit \<Rightarrow> limit \<Rightarrow> limit \<Rightarrow> bool) \<Rightarrow> inlimit list \<Rightarrow> nat set \<Rightarrow> lim_world \<Rightarrow> nat set \<Rightarrow> lim_world \<Rightarrow> bool" where
  "loop_effect eff vis ls w ls' w' \<longleftrightarrow>
     same_dom w w' \<and> ls' = ls \<union> {a. deciding w a vis \<noteq> None} \<and>
     (\<forall>a. a \<in> ls \<or> deciding w a vis = None \<longrightarrow> lw_limits w' a = lw_limits w a) \<and>
     (\<forall>a i l. a \<notin> ls \<and> deciding w a vis = Some i \<and> lw_limits w a = Some l \<longrightarrow>
        (\<exists>l'. lw_limits w' a = Some l' \<and> eff i l l'))"

lemma loop_effect_Nil: "loop_effect eff [] ls w ls w"
  by (simp add: loop_effect_def)

lemma deciding_append: "deciding w a (xs @ ys) = (case deciding w a xs of None \<Rightarrow> deciding w a ys | Some i \<Rightarrow> Some i)"
  by (induction xs) auto

lemma loop_effect_append:
  assumes "loop_effect eff xs ls w ls1 w1" "loop_effect eff ys ls1 w1 ls2 w2"
  shows "loop_effect eff (xs @ ys) ls w ls2 w2"
proof -
  have sd: "same_dom w w1" "same_dom w1 w2" using assms by (auto simp: loop_effect_def)
  have dec: "deciding w1 a zs = deciding w a zs" for a zs using same_dom_deciding [OF sd(1)] by simp
  have ls: "ls1 = ls \<union> {a. deciding w a xs \<noteq> None}" "ls2 = ls1 \<union> {a. deciding w a ys \<noteq> None}"
    using assms dec by (auto simp: loop_effect_def)
  have keep1: "lw_limits w1 a = lw_limits w a" if "a \<in> ls \<or> deciding w a xs = None" for a
    using assms(1) that by (auto simp: loop_effect_def)
  have keep2: "lw_limits w2 a = lw_limits w1 a" if "a \<in> ls1 \<or> deciding w a ys = None" for a
    using assms(2) that dec by (auto simp: loop_effect_def)
  have eff1: "\<exists>l'. lw_limits w1 a = Some l' \<and> eff i l l'" if "a \<notin> ls" "deciding w a xs = Some i" "lw_limits w a = Some l" for a i l
    using assms(1) that by (auto simp: loop_effect_def)
  have eff2: "\<exists>l'. lw_limits w2 a = Some l' \<and> eff i l l'" if "a \<notin> ls1" "deciding w a ys = Some i" "lw_limits w1 a = Some l" for a i l
    using assms(2) that dec by (auto simp: loop_effect_def)
  have frame: "lw_limits w2 a = lw_limits w a" if "a \<in> ls \<or> deciding w a (xs @ ys) = None" for a
  proof -
    from that have "a \<in> ls \<or> deciding w a xs = None" "a \<in> ls1 \<or> deciding w a ys = None"
      using ls by (auto simp: deciding_append split: option.splits)
    then show ?thesis using keep1 keep2 by simp
  qed
  have change: "\<exists>l'. lw_limits w2 a = Some l' \<and> eff i l l'"
    if "a \<notin> ls" "deciding w a (xs @ ys) = Some i" "lw_limits w a = Some l" for a i l
  proof (cases "deciding w a xs")
    case None
    with that ls have "a \<notin> ls1" "deciding w a ys = Some i" "lw_limits w1 a = Some l"
      using keep1 [of a] by (auto simp: deciding_append)
    then show ?thesis by (rule eff2)
  next
    case (Some j)
    with that have "j = i" by (simp add: deciding_append)
    with Some that eff1 obtain l' where "lw_limits w1 a = Some l'" "eff i l l'" by blast
    moreover have "lw_limits w2 a = lw_limits w1 a" using keep2 [of a] ls Some by auto
    ultimately show ?thesis by simp
  qed
  have "ls2 = ls \<union> {a. deciding w a (xs @ ys) \<noteq> None}"
    using ls by (auto simp: deciding_append split: option.splits)
  with frame change same_dom_trans [OF sd] show ?thesis by (auto simp: loop_effect_def)
qed

text \<open>What the three loops do to the limit a visit decides. The loop that takes tokens changes a limit by the tokens of the
  in-limit, or not at all.\<close>

definition cap_eff :: "inlimit \<Rightarrow> limit \<Rightarrow> limit \<Rightarrow> bool" where
  "cap_eff i l l' \<longleftrightarrow>
     lim_lim l' = lim_lim l \<and>
     (lim_value l' = lim_value l \<or>
      \<not> (il_limit_this_node_only i \<and> il_incremented i) \<and> lim_value l' = lim_value l + il_tokens i)"

lemma cap_eff_refl: "cap_eff i l l"
  by (simp add: cap_eff_def)

lemma increment_cap_eff:
  "\<not> (il_limit_this_node_only i \<and> il_incremented i) \<Longrightarrow> cap_eff i l (fst (Limit_increment (il_tokens i) p l s))"
  by (cases "p \<in> lim_paths l") (auto simp: cap_eff_def Limit_increment_def)

definition inc_eff :: "string \<Rightarrow> inlimit \<Rightarrow> limit \<Rightarrow> limit \<Rightarrow> bool" where
  "inc_eff p i l l' \<longleftrightarrow>
     cap_eff i l l' \<and>
     (if il_limit_this_node_only i then lim_paths l \<subseteq> lim_paths l'
      else \<exists>s. l' = fst (Limit_increment (il_tokens i) p l s))"

definition dec_eff :: "string \<Rightarrow> inlimit \<Rightarrow> limit \<Rightarrow> limit \<Rightarrow> bool" where
  "dec_eff p i l l' \<longleftrightarrow>
     (if il_limit_this_node_only i then lim_paths l' \<subseteq> lim_paths l
      else \<exists>s. l' = fst (Limit_decrement (il_tokens i) p l s))"

definition sub_eff :: "string \<Rightarrow> inlimit \<Rightarrow> limit \<Rightarrow> limit \<Rightarrow> bool" where
  "sub_eff p i l l' \<longleftrightarrow>
     (if il_limit_submission i then \<exists>s. l' = fst (Limit_decrement (il_tokens i) p l s) else l' = l)"

lemma loop_effect_skip:
  "inlimit_target w i = None \<Longrightarrow> loop_effect eff [i] ls w ls w"
  by (auto simp: loop_effect_def)

lemma loop_effect_handled:
  "inlimit_target w i = Some (a, l) \<Longrightarrow> a \<in> ls \<Longrightarrow> loop_effect eff [i] ls w ls w"
  by (auto simp: loop_effect_def split: if_splits)

lemma loop_effect_same:
  "inlimit_target w i = Some (a, l) \<Longrightarrow> eff i l l \<Longrightarrow> loop_effect eff [i] ls w (insert a ls) w"
  by (auto simp: loop_effect_def inlimit_target_Some split: if_splits)

lemma loop_effect_put:
  "inlimit_target w i = Some (a, l) \<Longrightarrow> a \<notin> ls \<Longrightarrow> eff i l (fst x) \<Longrightarrow> loop_effect eff [i] ls w (insert a ls) (lw_put a x w)"
  by (auto simp: loop_effect_def inlimit_target_Some same_dom_put split: if_splits) (auto simp: lw_put_def)

lemma loop_effect_single:
  assumes "inlimit_target w i = None \<Longrightarrow> ls1 = ls \<and> w1 = w"
    and "\<And>a l. inlimit_target w i = Some (a, l) \<Longrightarrow> a \<in> ls \<Longrightarrow> ls1 = ls \<and> w1 = w"
    and "\<And>a l. inlimit_target w i = Some (a, l) \<Longrightarrow> a \<notin> ls \<Longrightarrow> ls1 = insert a ls \<and>
      (w1 = w \<and> eff i l l \<or> (\<exists>x. w1 = lw_put a x w \<and> eff i l (fst x)))"
  shows "loop_effect eff [i] ls w ls1 w1"
proof (cases "inlimit_target w i")
  case None
  with assms(1) show ?thesis by (simp add: loop_effect_skip)
next
  case (Some al)
  then obtain a l where al: "inlimit_target w i = Some (a, l)" by (cases al) auto
  show ?thesis
  proof (cases "a \<in> ls")
    case True
    with al assms(2) loop_effect_handled show ?thesis by blast
  next
    case False
    with al assms(3) [OF al False] show ?thesis by (auto intro: loop_effect_same loop_effect_put)
  qed
qed

lemma incrementInLimit_loop_effect:
  "incrementInLimit_loop np p vec ls w = (vec', ls', w') \<Longrightarrow> loop_effect (inc_eff p) vec ls w ls' w'"
proof (induction np p vec ls w arbitrary: vec' ls' w' rule: incrementInLimit_loop.induct)
  case (2 np p i vec ls w)
  obtain i1 ls1 w1 where one: "(case inlimit_target w i of
           None \<Rightarrow> (i, ls, w)
         | Some (a, l) \<Rightarrow>
             if a \<in> ls then (i, ls, w)
             else if il_limit_this_node_only i
             then if \<not> il_incremented i
                  then (i\<lparr>il_incremented := True\<rparr>, insert a ls, lw_put a (Limit_increment (il_tokens i) np l (lw_sys w)) w)
                  else (i, insert a ls, w)
             else (i, insert a ls, lw_put a (Limit_increment (il_tokens i) p l (lw_sys w)) w)) = (i1, ls1, w1)"
    by (rule prod_cases3)
  have "loop_effect (inc_eff p) [i] ls w ls1 w1"
    using one by (intro loop_effect_single)
      (auto split: if_splits simp: inc_eff_def cap_eff_refl increment_cap_eff Limit_increment_fields simp del: split_paired_Ex)
  moreover obtain vec1 ls2 w2 where rest: "incrementInLimit_loop np p vec ls1 w1 = (vec1, ls2, w2)" by (rule prod_cases3)
  moreover from 2(1) [OF one [symmetric] refl refl rest] have "loop_effect (inc_eff p) vec ls1 w1 ls2 w2" .
  moreover from 2(2) one rest have "ls' = ls2" "w' = w2" by auto
  ultimately show ?case using loop_effect_append [of _ "[i]" ls w ls1 w1 vec] by simp
qed (simp add: loop_effect_Nil)

lemma decrementInLimit_loop_effect:
  "decrementInLimit_loop tasks np p vec ls w = (vec', ls', w') \<Longrightarrow> loop_effect (dec_eff p) vec ls w ls' w'"
proof (induction tasks np p vec ls w arbitrary: vec' ls' w' rule: decrementInLimit_loop.induct)
  case (2 tasks np p i vec ls w)
  obtain i1 ls1 w1 where one: "(case inlimit_target w i of
           None \<Rightarrow> (i, ls, w)
         | Some (a, l) \<Rightarrow>
             if a \<in> ls then (i, ls, w)
             else if il_limit_this_node_only i
             then if il_incremented i \<and> \<not> (\<exists>t \<in> set tasks. t = NS_ACTIVE \<or> t = NS_SUBMITTED)
                  then (i\<lparr>il_incremented := False\<rparr>, insert a ls, lw_put a (Limit_decrement (il_tokens i) np l (lw_sys w)) w)
                  else (i, insert a ls, w)
             else (i, insert a ls, lw_put a (Limit_decrement (il_tokens i) p l (lw_sys w)) w)) = (i1, ls1, w1)"
    by (rule prod_cases3)
  have "loop_effect (dec_eff p) [i] ls w ls1 w1"
    using one by (intro loop_effect_single)
      (auto split: if_splits simp: dec_eff_def simp del: split_paired_Ex split_paired_All,
        metis Limit_decrement_fields(5))
  moreover obtain vec1 ls2 w2 where rest: "decrementInLimit_loop tasks np p vec ls1 w1 = (vec1, ls2, w2)" by (rule prod_cases3)
  moreover from 2(1) [OF one [symmetric] refl refl rest] have "loop_effect (dec_eff p) vec ls1 w1 ls2 w2" .
  moreover from 2(2) one rest have "ls' = ls2" "w' = w2" by auto
  ultimately show ?case using loop_effect_append [of _ "[i]" ls w ls1 w1 vec] by simp
qed (simp add: loop_effect_Nil)

lemma decrementForSubmission_loop_effect:
  "decrementForSubmission_loop p vec ls w = (vec', ls', w') \<Longrightarrow> loop_effect (sub_eff p) vec ls w ls' w'"
proof (induction p vec ls w arbitrary: vec' ls' w' rule: decrementForSubmission_loop.induct)
  case (2 p i vec ls w)
  obtain ls1 w1 where one: "(case inlimit_target w i of
           None \<Rightarrow> (ls, w)
         | Some (a, l) \<Rightarrow>
             if a \<in> ls then (ls, w)
             else if il_limit_submission i
             then (insert a ls, lw_put a (Limit_decrement (il_tokens i) p l (lw_sys w)) w)
             else (insert a ls, w)) = (ls1, w1)"
    by (rule prod.exhaust)
  have "loop_effect (sub_eff p) [i] ls w ls1 w1"
    using one by (intro loop_effect_single) (auto split: if_splits simp: sub_eff_def simp del: split_paired_Ex)
  moreover obtain vec1 ls2 w2 where rest: "decrementForSubmission_loop p vec ls1 w1 = (vec1, ls2, w2)" by (rule prod_cases3)
  moreover from 2(1) [OF one [symmetric] refl rest] have "loop_effect (sub_eff p) vec ls1 w1 ls2 w2" .
  moreover from 2(2) one rest have "ls' = ls2" "w' = w2" by auto
  ultimately show ?case using loop_effect_append [of _ "[i]" ls w ls1 w1 vec] by simp
qed (simp add: loop_effect_Nil)

lemma up_tree_effect:
  assumes "\<And>nd vec ls w vec' ls' w'. f nd vec ls w = (vec', ls', w') \<Longrightarrow> loop_effect eff vec ls w ls' w'"
    and "up_tree fl f chain ls w = (chain', ls', w')"
  shows "loop_effect eff (visits fl w chain) ls w ls' w'"
  using assms(2)
proof (induction chain arbitrary: chain' ls w ls' w')
  case Nil
  then show ?case by (simp add: visits_def loop_effect_Nil)
next
  case (Cons nd chain)
  let ?v = "resolveInLimitReferences (fl (ln_addr nd)) w (ln_inlimits nd)"
  obtain nd1 ls1 w1 where one: "mgr_step fl f nd ls w = (nd1, ls1, w1)" by (rule prod_cases3)
  obtain chain1 ls2 w2 where rest: "up_tree fl f chain ls1 w1 = (chain1, ls2, w2)" by (rule prod_cases3)
  obtain v2 ls3 w3 where fv: "f nd ?v ls w = (v2, ls3, w3)" by (rule prod_cases3)
  have e: "loop_effect eff ?v ls w ls1 w1"
  proof (cases "ln_inlimits nd = []")
    case True
    with one show ?thesis by (simp add: mgr_step_def resolveInLimitReferences_def loop_effect_Nil)
  next
    case False
    with one fv have "ls1 = ls3" "w1 = w3" by (auto simp: mgr_step_def)
    with assms(1) [OF fv] show ?thesis by simp
  qed
  then have "same_dom w1 w" by (auto simp: loop_effect_def same_dom_def)
  then have "visits fl w1 chain = visits fl w chain" by (rule same_dom_visits)
  with Cons.IH [OF rest] have "loop_effect eff (visits fl w chain) ls1 w1 ls2 w2" by simp
  from loop_effect_append [OF e this] Cons.prems one rest show ?case by (simp add: visits_def)
qed

section \<open>Properties\<close>



text \<open>C28. Every change of state of a task settles its tokens in one walk from the task to its suite.
  For each limit the walk reaches, the in-limit nearest to the task decides: unless that one limits
  its own node only, the task holds the limit after it was submitted, does not hold it after it
  completed, aborted or was requeued, and when it becomes active gives it back exactly if the in-limit
  is for submission. A limit the walk does not reach is not changed.\<close>

theorem update_limits_settles:
  assumes "update_limits fl p st chain w = (chain', w')" "lw_limits w a = Some l"
  shows "(deciding w a (visits fl w chain) = None \<longrightarrow> lw_limits w' a = Some l) \<and>
    (\<forall>i. deciding w a (visits fl w chain) = Some i \<and> \<not> il_limit_this_node_only i \<longrightarrow>
       (\<exists>l'. lw_limits w' a = Some l' \<and>
          (st = NS_SUBMITTED \<longrightarrow> lim_paths l' = insert p (lim_paths l) \<and>
             (p \<notin> lim_paths l \<longrightarrow> lim_value l' = lim_value l + il_tokens i)) \<and>
          (st \<in> {NS_COMPLETE, NS_ABORTED, NS_QUEUED, NS_UNKNOWN} \<longrightarrow> p \<notin> lim_paths l') \<and>
          (st = NS_ACTIVE \<longrightarrow> (if il_limit_submission i then p \<notin> lim_paths l' else l' = l))))"
proof -
  let ?v = "visits fl w chain"
  define eff where "eff = (if st = NS_SUBMITTED then inc_eff p else if st = NS_ACTIVE then sub_eff p else dec_eff p)"
  obtain ls' where e: "loop_effect eff ?v {} w ls' w'"
  proof -
    have i: "up_tree fl (\<lambda>nd. incrementInLimit_loop (ln_path nd) p) chain {} w = (c, ls, x) \<Longrightarrow> loop_effect (inc_eff p) ?v {} w ls x" for c ls x
      by (rule up_tree_effect [OF incrementInLimit_loop_effect])
    have d: "up_tree fl (\<lambda>nd. decrementInLimit_loop (ln_tasks nd) (ln_path nd) p) chain {} w = (c, ls, x) \<Longrightarrow> loop_effect (dec_eff p) ?v {} w ls x" for c ls x
      by (rule up_tree_effect [OF decrementInLimit_loop_effect])
    have u: "up_tree fl (\<lambda>nd. decrementForSubmission_loop p) chain {} w = (c, ls, x) \<Longrightarrow> loop_effect (sub_eff p) ?v {} w ls x" for c ls x
      by (rule up_tree_effect [OF decrementForSubmission_loop_effect])
    show thesis
      using assms(1) that
      by (cases st) (auto simp: update_limits_def Node_incrementInLimit_def Node_decrementInLimit_def
          Node_decrementInLimitForSubmission_def eff_def split: prod.splits dest: i d u)
  qed
  show ?thesis
  proof (intro conjI impI allI)
    show "deciding w a ?v = None \<Longrightarrow> lw_limits w' a = Some l" using e assms(2) by (simp add: loop_effect_def)
  next
    fix i assume i: "deciding w a ?v = Some i \<and> \<not> il_limit_this_node_only i"
    with e assms(2) have "\<exists>l'. lw_limits w' a = Some l' \<and> eff i l l'" by (simp add: loop_effect_def)
    then obtain l' where l': "lw_limits w' a = Some l'" "eff i l l'" by blast
    show "\<exists>l'. lw_limits w' a = Some l' \<and>
          (st = NS_SUBMITTED \<longrightarrow> lim_paths l' = insert p (lim_paths l) \<and>
             (p \<notin> lim_paths l \<longrightarrow> lim_value l' = lim_value l + il_tokens i)) \<and>
          (st \<in> {NS_COMPLETE, NS_ABORTED, NS_QUEUED, NS_UNKNOWN} \<longrightarrow> p \<notin> lim_paths l') \<and>
          (st = NS_ACTIVE \<longrightarrow> (if il_limit_submission i then p \<notin> lim_paths l' else l' = l))"
      using l' i by (intro exI [of _ l'])
        (auto simp: eff_def inc_eff_def dec_eff_def sub_eff_def Limit_increment_fields Limit_decrement_fields split: if_splits)
  qed
qed

text \<open>A task that takes two tokens of the limit \<open>disk\<close> of its suite.\<close>

definition disk_world :: lim_world where
  "disk_world =
     \<lparr>lw_limits = [0 \<mapsto> \<lparr>lim_n = ''disk'', lim_lim = 3, lim_value = 0, lim_paths = {}, lim_suite = Some ''s'',
                          lim_state_change_no = 0\<rparr>],
      lw_sys = \<lparr>ls_ecf = \<lparr>ecf_server = True, ecf_state_change_no = 0, ecf_modify_change_no = 0\<rparr>,
                ls_suite_change_no = (\<lambda>_. 0)\<rparr>\<rparr>"

definition disk_inlimit :: inlimit where
  "disk_inlimit =
     \<lparr>il_limit = None, il_n = ''disk'', il_path = [], il_tokens = 2, il_limit_this_node_only = False,
      il_limit_submission = False, il_incremented = False\<rparr>"

definition disk_chain :: "lim_node list" where
  "disk_chain = [\<lparr>ln_addr = [0, 0], ln_path = ''/s/t'', ln_inlimits = [disk_inlimit], ln_tasks = [NS_SUBMITTED]\<rparr>,
                 \<lparr>ln_addr = [0], ln_path = ''/s'', ln_inlimits = [disk_inlimit\<lparr>il_tokens := 5\<rparr>], ln_tasks = [NS_SUBMITTED]\<rparr>]"

theorem update_limits_settles_witness:
  "\<exists>chain' w' l'. update_limits (\<lambda>_ _. Some 0) ''/s/t'' NS_SUBMITTED disk_chain disk_world = (chain', w') \<and>
     lw_limits w' 0 = Some l' \<and> lim_paths l' = {''/s/t''} \<and> lim_value l' = 2"
proof -
  obtain chain' w' where u: "update_limits (\<lambda>_ _. Some 0) ''/s/t'' NS_SUBMITTED disk_chain disk_world = (chain', w')"
    by fastforce
  have d: "deciding disk_world 0 (visits (\<lambda>_ _. Some 0) disk_world disk_chain) = Some (disk_inlimit\<lparr>il_limit := Some 0\<rparr>)"
    by (simp add: visits_def disk_chain_def disk_world_def disk_inlimit_def resolveInLimitReferences_def
        resolveInLimit_def inlimit_target_def)
  have l: "lw_limits disk_world 0 = Some \<lparr>lim_n = ''disk'', lim_lim = 3, lim_value = 0, lim_paths = {},
      lim_suite = Some ''s'', lim_state_change_no = 0\<rparr>" by (simp add: disk_world_def)
  from update_limits_settles [OF u l] d u show ?thesis by (auto simp: disk_inlimit_def)
qed

section \<open>Submission keeps within the limits\<close>

lemma inLimit_loop_le: "snd (inLimit_loop w vec) \<le> fst (inLimit_loop w vec)"
  by (induction vec) (auto simp: Let_def case_prod_beta split: option.splits)

lemma inLimit_loop_all:
  "fst (inLimit_loop w vec) = snd (inLimit_loop w vec) \<Longrightarrow> i \<in> set vec \<Longrightarrow> \<not> (il_limit_this_node_only i \<and> il_incremented i) \<Longrightarrow>
   inlimit_target w i = Some (a, l) \<Longrightarrow> Limit_inLimit (il_tokens i) l"
proof (induction vec)
  case (Cons j vec)
  then show ?case using inLimit_loop_le [of w vec] by (auto simp: Let_def case_prod_beta split: if_splits option.splits)
qed simp

lemma check_in_limit_visits:
  "check_in_limit_up_node_tree fl w chain \<Longrightarrow> i \<in> set (visits fl w chain) \<Longrightarrow>
   \<not> (il_limit_this_node_only i \<and> il_incremented i) \<Longrightarrow> inlimit_target w i = Some (a, l) \<Longrightarrow> Limit_inLimit (il_tokens i) l"
proof (induction chain)
  case (Cons nd chain)
  then have m: "InLimitMgr_inLimit (fl (ln_addr nd)) w (ln_inlimits nd)" "check_in_limit_up_node_tree fl w chain"
    by (auto split: if_splits)
  show ?case
  proof (cases "i \<in> set (visits fl w chain)")
    case False
    then have "i \<in> set (resolveInLimitReferences (fl (ln_addr nd)) w (ln_inlimits nd))" using Cons.prems(2) by (simp add: visits_def)
    moreover from this m(1) have "fst (inLimit_loop w (resolveInLimitReferences (fl (ln_addr nd)) w (ln_inlimits nd))) =
        snd (inLimit_loop w (resolveInLimitReferences (fl (ln_addr nd)) w (ln_inlimits nd)))"
      by (auto simp: InLimitMgr_inLimit_def resolveInLimitReferences_def case_prod_beta split: if_splits)
    ultimately show ?thesis using inLimit_loop_all Cons.prems(3,4) by blast
  qed (use Cons m(2) in blast)
qed (simp add: visits_def)

lemma deciding_visit: "deciding w a vis = Some i \<Longrightarrow> i \<in> set vis \<and> map_option fst (inlimit_target w i) = Some a"
  by (induction vis) (auto split: if_splits)



end
