(* ===== verification/Julian.thy ===== *)
theory Julian
  imports Ecf_Prelude
begin

text \<open>
  The day numbers of \<open>ACore/src/Cal.cpp\<close>: dates as integers \<open>yyyymmdd\<close> and their Julian day, on which
  \<open>repeat date\<close> computes. The division of C++ truncates towards zero, which \<open>cdiv\<close> and \<open>cmod\<close> write
  out; from 1 March of the year 0 on, all operands are non-negative.
\<close>

definition cdiv :: "int \<Rightarrow> int \<Rightarrow> int" where
  "cdiv a b = sgn a * sgn b * (\<bar>a\<bar> div \<bar>b\<bar>)"

definition cmod :: "int \<Rightarrow> int \<Rightarrow> int" where
  "cmod a b = a - cdiv a b * b"

lemma cdiv_nonneg [simp]: "0 \<le> a \<Longrightarrow> 0 < b \<Longrightarrow> cdiv a b = a div b"
  by (cases "a = 0") (simp_all add: cdiv_def)

lemma cmod_nonneg [simp]: "0 \<le> a \<Longrightarrow> 0 < b \<Longrightarrow> cmod a b = a mod b"
  by (simp add: cmod_def minus_div_mult_eq_mod)

definition julian_to_date :: "int \<Rightarrow> int" where
  "julian_to_date jdate =
     (let x = 4 * jdate - 6884477;
          y = cdiv x 146097 * 100;
          e = cmod x 146097;
          d = cdiv e 4;
          x = 4 * d + 3;
          y = cdiv x 1461 + y;
          e = cmod x 1461;
          d = cdiv e 4 + 1;
          x = 5 * d - 3;
          m = cdiv x 153 + 1;
          e = cmod x 153;
          d = cdiv e 5 + 1;
          month = (if m < 11 then m + 2 else m - 10);
          day = d;
          year = y + cdiv m 11
      in year * 10000 + month * 100 + day)"

definition date_to_julian :: "int \<Rightarrow> int" where
  "date_to_julian ddate =
     (let year = cdiv ddate 10000;
          ddate = cmod ddate 10000;
          month = cdiv ddate 100;
          day = cmod ddate 100;
          m1 = (if month > 2 then month - 3 else month + 9);
          y1 = (if month > 2 then year else year - 1);
          a = cdiv (146097 * cdiv y1 100) 4;
          d = cmod y1 100;
          b = cdiv (1461 * d) 4;
          c = cdiv (153 * m1 + 2) 5 + day + 1721119
      in a + b + c)"

section \<open>The parts of a day number\<close>

text \<open>\<open>n\<close> counts days from 1 March of the year 0, \<open>n = 1\<close> being the second of March: the century,
  the year of the century, the month counted from March, the day of the month.\<close>

definition jc :: "int \<Rightarrow> int" where "jc n = (4 * n - 1) div 146097"
definition jd :: "int \<Rightarrow> int" where "jd n = (4 * n - 1) mod 146097 div 4"
definition jy :: "int \<Rightarrow> int" where "jy n = (4 * jd n + 3) div 1461"
definition jo :: "int \<Rightarrow> int" where "jo n = (4 * jd n + 3) mod 1461 div 4 + 1"
definition jm :: "int \<Rightarrow> int" where "jm n = (5 * jo n - 3) div 153"
definition jday :: "int \<Rightarrow> int" where "jday n = (5 * jo n - 3) mod 153 div 5 + 1"

lemma jd_range: "0 \<le> jd n" "jd n \<le> 36524"
proof -
  have "0 \<le> (4 * n - 1) mod 146097" "(4 * n - 1) mod 146097 < 146097" by simp_all
  then show "0 \<le> jd n" "jd n \<le> 36524" unfolding jd_def by linarith+
qed

lemma jy_range: "0 \<le> jy n" "jy n < 100"
  using jd_range [of n] unfolding jy_def by linarith+

lemma jo_range: "1 \<le> jo n" "jo n \<le> 366"
proof -
  have "0 \<le> (4 * jd n + 3) mod 1461" "(4 * jd n + 3) mod 1461 < 1461" by simp_all
  then show "1 \<le> jo n" "jo n \<le> 366" unfolding jo_def by linarith+
qed

lemma jm_range: "0 \<le> jm n" "jm n < 12"
  using jo_range [of n] unfolding jm_def by linarith+

lemma jday_range: "1 \<le> jday n" "jday n \<le> 31"
proof -
  have "0 \<le> (5 * jo n - 3) mod 153" "(5 * jo n - 3) mod 153 < 153" by simp_all
  then show "1 \<le> jday n" "jday n \<le> 31" unfolding jday_def by linarith+
qed

text \<open>Each division is undone by the floor of the matching product.\<close>

lemma quarters_split:
  fixes n k c e :: int
  assumes "4 * n = 4 * k + c + e + 1"
  shows "n = k + c div 4 + e div 4 + 1"
proof -
  have "c = 4 * (c div 4) + c mod 4" "e = 4 * (e div 4) + e mod 4" by simp_all
  moreover have "0 \<le> c mod 4" "c mod 4 < 4" "0 \<le> e mod 4" "e mod 4 < 4" by simp_all
  ultimately show ?thesis using assms by linarith
qed

lemma century_back:
  assumes "4 * n - 1 = 146097 * c + (e::int)"
  shows "n = (146097 * c) div 4 + e div 4 + 1"
proof -
  have "146097 * c = 4 * (36524 * c) + c" by simp
  then have "(146097 * c) div 4 = 36524 * c + c div 4" by (metis div_mult_self4 zero_neq_numeral)
  moreover have "4 * n = 4 * (36524 * c) + c + e + 1" using assms by simp
  ultimately show ?thesis using quarters_split by metis
qed

lemma year_back:
  assumes "4 * d + 3 = 1461 * y + (e::int)"
  shows "d = (1461 * y) div 4 + e div 4"
proof -
  have "1461 * y = 4 * (365 * y) + y" by simp
  then have "(1461 * y) div 4 = 365 * y + y div 4" by (metis div_mult_self4 zero_neq_numeral)
  moreover have "4 * (d + 1) = 4 * (365 * y) + y + e + 1" using assms by simp
  ultimately show ?thesis using quarters_split [of "d + 1" "365 * y" y e] by linarith
qed

lemma month_back:
  assumes "5 * d - 3 = 153 * m + (e::int)"
  shows "d = (153 * m + 2) div 5 + e div 5 + 1"
proof -
  let ?t = "153 * m + 2"
  have "?t = 5 * (?t div 5) + ?t mod 5" "e = 5 * (e div 5) + e mod 5" by simp_all
  moreover have "0 \<le> ?t mod 5" "?t mod 5 < 5" "0 \<le> e mod 5" "e mod 5 < 5" by simp_all
  ultimately show ?thesis using assms by linarith
qed

lemma parts_back:
  "n = (146097 * jc n) div 4 + (1461 * jy n) div 4 + (153 * jm n + 2) div 5 + jday n"
proof -
  have "n = (146097 * jc n) div 4 + jd n + 1"
    using century_back [of n "jc n" "(4 * n - 1) mod 146097"] by (simp add: jc_def jd_def)
  moreover have "jd n = (1461 * jy n) div 4 + (jo n - 1)"
    using year_back [of "jd n" "jy n" "(4 * jd n + 3) mod 1461"] by (simp add: jy_def jo_def)
  moreover have "jo n = (153 * jm n + 2) div 5 + jday n"
    using month_back [of "jo n" "jm n" "(5 * jo n - 3) mod 153"] by (simp add: jm_def jday_def)
  ultimately show ?thesis by linarith
qed

text \<open>The month number from year 0, and the date made of the parts.\<close>

definition jkey :: "int \<Rightarrow> int" where
  "jkey n = 12 * (100 * jc n + jy n) + jm n"

definition ymd :: "int \<Rightarrow> int \<Rightarrow> int" where
  "ymd key day = (key + 2) div 12 * 10000 + ((key + 2) mod 12 + 1) * 100 + day"

lemma key_month:
  assumes "0 \<le> m" "m < 12"
  shows "(12 * y + m + 2) div 12 = y + (m + 1) div 11"
    "(12 * y + m + 2) mod 12 + 1 = (if m + 1 < 11 then m + 3 else m - (9::int))"
proof -
  have "(12 * y + m + 2) div 12 = y + (m + 2) div 12" "(12 * y + m + 2) mod 12 = (m + 2) mod 12"
    using div_mult_self4 [of 12 y "m + 2"] mod_mult_self4 [of 12 y "m + 2"] by (simp_all add: add.assoc)
  moreover have "m = 0 \<or> m = 1 \<or> m = 2 \<or> m = 3 \<or> m = 4 \<or> m = 5 \<or> m = 6 \<or> m = 7 \<or> m = 8 \<or> m = 9 \<or> m = 10 \<or> m = 11"
    using assms by presburger
  ultimately show "(12 * y + m + 2) div 12 = y + (m + 1) div 11"
    "(12 * y + m + 2) mod 12 + 1 = (if m + 1 < 11 then m + 3 else m - (9::int))" by (elim disjE; simp)+
qed

lemma julian_to_date_ymd:
  assumes "1 \<le> n"
  shows "julian_to_date (n + 1721119) = ymd (jkey n) (jday n)"
proof -
  have x: "4 * (n + 1721119) - 6884477 = 4 * n - 1" "0 \<le> 4 * n - 1" using assms by simp_all
  have nn: "0 \<le> (4 * n - 1) mod 146097" "0 \<le> 4 * jd n + 3" "0 \<le> (4 * jd n + 3) mod 1461" "0 \<le> 5 * jo n - 3"
    "0 \<le> (5 * jo n - 3) mod 153" "0 \<le> jm n + 1"
    using jd_range [of n] jo_range [of n] jm_range [of n] by simp_all
  have "julian_to_date (n + 1721119) =
      (jy n + jc n * 100 + (jm n + 1) div 11) * 10000 +
      (if jm n + 1 < 11 then jm n + 1 + 2 else jm n + 1 - 10) * 100 + jday n"
    unfolding julian_to_date_def Let_def x(1) using x(2) nn
    by (simp add: jc_def [symmetric] jd_def [symmetric] jy_def [symmetric] jo_def [symmetric] jm_def [symmetric] jday_def [symmetric])
  also have "\<dots> = ymd (jkey n) (jday n)"
    using key_month [OF jm_range, of "100 * jc n + jy n" n] by (simp add: ymd_def jkey_def)
  finally show ?thesis .
qed

section \<open>Back from a date\<close>

lemma two_digits: "0 \<le> d \<Longrightarrow> d < 100 \<Longrightarrow> (m * 100 + d) div 100 = (m::int)" "0 \<le> d \<Longrightarrow> d < 100 \<Longrightarrow> (m * 100 + d) mod 100 = d"
  by simp_all

lemma ymd_fields:
  assumes "0 \<le> key" "1 \<le> day" "day < 100"
  shows "0 \<le> ymd key day" "ymd key day div 10000 = (key + 2) div 12"
    "ymd key day mod 10000 div 100 = (key + 2) mod 12 + 1" "ymd key day mod 10000 mod 100 = day"
proof -
  let ?y = "(key + 2) div 12" and ?m = "(key + 2) mod 12 + 1"
  have y: "0 \<le> ?y" and m: "1 \<le> ?m" "?m \<le> 12"
    using assms(1) pos_mod_bound [of 12 "key + 2"] by (simp_all add: pos_imp_zdiv_nonneg_iff)
  have r: "0 \<le> ?m * 100 + day" "?m * 100 + day < 10000" using m assms(2,3) unfolding distrib_right by linarith+
  have e: "ymd key day = ?y * 10000 + (?m * 100 + day)" by (simp add: ymd_def)
  show "0 \<le> ymd key day" using e y r(1) by linarith
  show d: "ymd key day div 10000 = ?y" unfolding e using r by simp
  have md: "ymd key day mod 10000 = ?m * 100 + day" unfolding e using r by simp
  show "ymd key day mod 10000 div 100 = ?m" "ymd key day mod 10000 mod 100 = day"
    unfolding md using assms(2,3) two_digits [of day ?m] by linarith+
qed

lemma date_to_julian_ymd:
  assumes "0 \<le> c" "0 \<le> y" "y < 100" "0 \<le> m" "m < 12" "1 \<le> day" "day < 100"
  shows "date_to_julian (ymd (12 * (100 * c + y) + m) day) =
    (146097 * c) div 4 + (1461 * y) div 4 + (153 * m + 2) div 5 + day + 1721119"
proof -
  let ?key = "12 * (100 * c + y) + m"
  have k: "0 \<le> ?key" using assms by simp
  note f = ymd_fields [OF k assms(6,7)]
  note km = key_month [OF assms(4,5), of "100 * c + y"]
  have fields: "cdiv (ymd ?key day) 10000 = 100 * c + y + (m + 1) div 11"
    "cdiv (cmod (ymd ?key day) 10000) 100 = (if m + 1 < 11 then m + 3 else m - 9)"
    "cmod (cmod (ymd ?key day) 10000) 100 = day"
    using f by (simp_all only: km [symmetric] cdiv_nonneg cmod_nonneg pos_mod_sign zero_less_numeral)
  have mm: "(if m + 1 < 11 then m + 3 else m - 9) > 2 \<longleftrightarrow> m + 1 < 11" using assms(4,5) by auto
  have q: "(m + 1) div 11 = (if m + 1 < 11 then 0 else 1)" using assms(4,5) by auto
  have parts: "(100 * c + y) div 100 = c" "(100 * c + y) mod 100 = y" using assms(2,3) by simp_all
  show ?thesis
  proof (cases "m + 1 < 11")
    case True
    then show ?thesis using assms fields q parts by (simp add: date_to_julian_def Let_def)
  next
    case False
    then have "100 * c + y + (m + 1) div 11 - 1 = 100 * c + y" using q by simp
    then show ?thesis using False assms fields q parts by (simp add: date_to_julian_def Let_def)
  qed
qed

lemma jc_nonneg: "1 \<le> n \<Longrightarrow> 0 \<le> jc n"
  by (simp add: jc_def pos_imp_zdiv_nonneg_iff)

lemma julian_there_and_back:
  assumes "1721119 < j"
  shows "date_to_julian (julian_to_date j) = j"
proof -
  define n where "n = j - 1721119"
  with assms have n: "1 \<le> n" "j = n + 1721119" by simp_all
  have "date_to_julian (julian_to_date j) =
      (146097 * jc n) div 4 + (1461 * jy n) div 4 + (153 * jm n + 2) div 5 + jday n + 1721119"
    unfolding n(2) julian_to_date_ymd [OF n(1)] jkey_def
    using jc_nonneg [OF n(1)] jy_range [of n] jm_range [of n] jday_range [of n]
    by (intro date_to_julian_ymd) simp_all
  with parts_back [of n] n(2) show ?thesis by linarith
qed

section \<open>Later days have larger dates\<close>

lemma div_mod_less:
  fixes x y k :: int
  assumes "x < y" "0 < k"
  shows "x div k < y div k \<or> x div k = y div k \<and> y mod k - x mod k = y - x"
proof -
  have "x div k \<le> y div k" using assms by (intro zdiv_mono1) simp_all
  moreover have "y mod k - x mod k = y - x" if "x div k = y div k"
    using that minus_mult_div_eq_mod [of x k] minus_mult_div_eq_mod [of y k] by simp
  ultimately show ?thesis by linarith
qed

lemma div_gap: "0 < k \<Longrightarrow> k \<le> y - x \<Longrightarrow> x div k < y div (k::int)"
  using zdiv_mono1 [of "x + k" y k] div_add_self2 [of k x] by simp

lemma div_mod_gap:
  fixes x y k g :: int
  assumes "g \<le> y - x" "0 < g" "0 < k"
  shows "x div k < y div k \<or> x div k = y div k \<and> x mod k div g < y mod k div g"
proof -
  have "x < y" using assms by linarith
  with div_mod_less [OF this assms(3)] assms(1,2) div_gap [of g "y mod k" "x mod k"] show ?thesis by (metis)
qed

lemma parts_mono:
  assumes "n < n'"
  shows "jkey n < jkey n' \<or> jkey n = jkey n' \<and> jday n < jday n'"
proof -
  have yr: "jy n < 100" "0 \<le> jy n'" "0 \<le> jy n" "jy n' < 100" and mr: "jm n < 12" "0 \<le> jm n'" "0 \<le> jm n" "jm n' < 12"
    using jy_range jm_range by simp_all
  have "4 \<le> (4 * n' - 1) - (4 * n - 1)" using assms by simp
  from div_mod_gap [OF this, of 146097, folded jc_def]
  have "jc n < jc n' \<or> jc n = jc n' \<and> jd n < jd n'"
    by (simp only: jd_def add_less_cancel_right)
  then consider "jc n < jc n'" | "jc n = jc n'" "jd n < jd n'" by blast
  then show ?thesis
  proof cases
    case 1
    then have "jkey n < jkey n'" using yr mr unfolding jkey_def distrib_left by linarith
    then show ?thesis ..
  next
    case 2
    have "4 \<le> (4 * jd n' + 3) - (4 * jd n + 3)" using 2(2) by simp
    from div_mod_gap [OF this, of 1461, folded jy_def]
    have "jy n < jy n' \<or> jy n = jy n' \<and> jo n < jo n'"
      by (simp only: jo_def add_less_cancel_right)
    then consider "jy n < jy n'" | "jy n = jy n'" "jo n < jo n'" by blast
    then show ?thesis
    proof cases
      case 1
      then have "jkey n < jkey n'" using 2(1) mr unfolding jkey_def distrib_left by linarith
      then show ?thesis ..
    next
      case y: 2
      have "5 \<le> (5 * jo n' - 3) - (5 * jo n - 3)" using y(2) by simp
      from div_mod_gap [OF this, of 153, folded jm_def]
      have "jm n < jm n' \<or> jm n = jm n' \<and> jday n < jday n'"
        by (simp only: jday_def add_less_cancel_right)
      then consider "jm n < jm n'" | "jm n = jm n'" "jday n < jday n'" by blast
      then show ?thesis using 2(1) y(1) unfolding jkey_def by cases simp_all
    qed
  qed
qed

lemma julian_to_date_mono:
  assumes "1721119 < i" "i < j"
  shows "julian_to_date i < julian_to_date j"
proof -
  define n n' where "n = i - 1721119" "n' = j - 1721119"
  with assms have n: "1 \<le> n" "1 \<le> n'" "n < n'" "i = n + 1721119" "j = n' + 1721119" by simp_all
  let ?a = "jkey n + 2" and ?b = "jkey n' + 2"
  have days: "1 \<le> jday n" "jday n \<le> 31" "1 \<le> jday n'" "jday n' \<le> 31" using jday_range by simp_all
  have ab: "?a = 12 * (?a div 12) + ?a mod 12" "?b = 12 * (?b div 12) + ?b mod 12"
    "0 \<le> ?a mod 12" "?a mod 12 < 12" "0 \<le> ?b mod 12" "?b mod 12 < 12" by simp_all
  from parts_mono [OF n(3)] have "ymd (jkey n) (jday n) < ymd (jkey n') (jday n')"
  proof (elim disjE conjE)
    assume "jkey n < jkey n'"
    with ab have "?a div 12 < ?b div 12 \<or> ?a div 12 = ?b div 12 \<and> ?a mod 12 < ?b mod 12" by linarith
    then show ?thesis
    proof
      assume "?a div 12 < ?b div 12"
      with ab(3-6) days show ?thesis unfolding ymd_def distrib_right by linarith
    next
      assume "?a div 12 = ?b div 12 \<and> ?a mod 12 < ?b mod 12"
      with days show ?thesis unfolding ymd_def distrib_right by linarith
    qed
  next
    assume "jkey n = jkey n'" "jday n < jday n'"
    then show ?thesis by (simp add: ymd_def)
  qed
  with n show ?thesis by (simp add: julian_to_date_ymd)
qed

section \<open>Calendar dates\<close>

definition is_leap :: "int \<Rightarrow> bool" where
  "is_leap y \<longleftrightarrow> y mod 4 = 0 \<and> (y mod 100 \<noteq> 0 \<or> y mod 400 = 0)"

definition days_in_month :: "int \<Rightarrow> int \<Rightarrow> int" where
  "days_in_month y m =
     (if m = 2 then (if is_leap y then 29 else 28) else if m \<in> {4, 6, 9, 11} then 30 else 31)"

definition valid_date :: "int \<Rightarrow> int \<Rightarrow> int \<Rightarrow> bool" where
  "valid_date y m d \<longleftrightarrow> 1 \<le> y \<and> 1 \<le> m \<and> m \<le> 12 \<and> 1 \<le> d \<and> d \<le> days_in_month y m"

lemma quarter_floor: "4 * ((146097 * c) div 4) = 146097 * c - c mod (4::int)" "4 * ((1461 * y) div 4) = 1461 * y - y mod (4::int)"
proof -
  have "146097 * c = c + 4 * (36524 * c)" "1461 * y = y + 4 * (365 * y)" by simp_all
  then have "146097 * c mod 4 = c mod 4" "1461 * y mod 4 = y mod 4" by (metis mod_mult_self2)+
  then show "4 * ((146097 * c) div 4) = 146097 * c - c mod 4" "4 * ((1461 * y) div 4) = 1461 * y - y mod 4"
    using minus_mod_eq_mult_div [of "146097 * c" 4] minus_mod_eq_mult_div [of "1461 * y" 4] by simp_all
qed

lemma parts_unique:
  assumes "0 \<le> c" "0 \<le> y" "y < 100" "0 \<le> m" "m < 12" "1 \<le> day"
    and d: "d = (153 * m + 2) div 5 + day" "5 * d - 3 < 153 * (m + 1)" "d \<le> 366"
    and leap: "d = 366 \<Longrightarrow> y mod 4 = 3 \<and> (y = 99 \<longrightarrow> c mod 4 = 3)"
    and n: "n = (146097 * c) div 4 + (1461 * y) div 4 + d"
  shows "jc n = c" "jy n = y" "jm n = m" "jday n = day"
proof -
  let ?A = "(146097 * c) div 4" and ?B = "(1461 * y) div 4" and ?M = "(153 * m + 2) div 5"
  have A: "4 * ?A = 146097 * c - c mod 4" "0 \<le> c mod 4" "c mod 4 < 4" using quarter_floor(1) by simp_all
  have B: "4 * ?B = 1461 * y - y mod 4" "0 \<le> y mod 4" "y mod 4 < 4" using quarter_floor(2) by simp_all
  have M: "5 * ?M = 153 * m + 2 - (153 * m + 2) mod 5" "0 \<le> (153 * m + 2) mod 5" "(153 * m + 2) mod 5 < 5"
    using minus_mod_eq_mult_div [of "153 * m + 2" 5] by simp_all
  have M0: "0 \<le> ?M" using assms(4) by simp
  with d(1) assms(6) have d1: "1 \<le> d" by linarith
  have hiB: "4 * ?B + 4 * d - 1 < 1461 * y + 1461"
    using B d(3) leap by (cases "d = 366") linarith+
  have loB: "1461 * y \<le> 4 * ?B + 4 * d - 1" using B d1 by linarith
  have hiA: "4 * n - 1 < c * 146097 + 146097"
  proof (cases "d = 366 \<and> y = 99")
    case True
    with leap A B n show ?thesis by auto
  next
    case False
    have "?B \<le> (1461 * 99) div 4" using assms(3) by (intro zdiv_mono1) simp_all
    moreover have "?B \<le> (1461 * 98) div 4" if "y \<noteq> 99" using assms(3) that by (intro zdiv_mono1) simp_all
    ultimately have "4 * ?B + 4 * d \<le> 146096" using False d(3) by (cases "d = 366") auto
    with A n show ?thesis by linarith
  qed
  have "0 \<le> ?B" using assms(2) by simp
  then have loA: "c * 146097 \<le> 4 * n - 1" using A d1 n by linarith
  show c: "jc n = c" unfolding jc_def by (rule div_interval_unique [OF _ loA hiA]) simp
  have "n = ?A + jd n + 1"
    using century_back [of n "jc n" "(4 * n - 1) mod 146097"] c by (simp add: jc_def jd_def)
  with n have jd: "jd n = ?B + d - 1" by linarith
  then have e: "4 * jd n + 3 = 4 * ?B + 4 * d - 1" by linarith
  show y: "jy n = y" unfolding jy_def
    by (rule div_interval_unique) (use loB hiB e in linarith)+
  have "jd n = ?B + (jo n - 1)"
    using year_back [of "jd n" "jy n" "(4 * jd n + 3) mod 1461"] y by (simp add: jy_def jo_def)
  with jd have o: "jo n = d" by linarith
  have "153 * m \<le> 5 * d - 3" using M d(1) assms(6) by linarith
  then show m: "jm n = m" unfolding jm_def o
    by (intro div_interval_unique) (use d(2) in simp_all)
  have "jo n = ?M + jday n"
    using month_back [of "jo n" "jm n" "(5 * jo n - 3) mod 153"] m by (simp add: jm_def jday_def)
  with o d(1) show "jday n = day" by linarith
qed

lemma leap_century:
  assumes "y1 = 100 * c + y" "0 \<le> y" "y < 100" "is_leap (y1 + 1)"
  shows "y mod 4 = 3 \<and> (y = 99 \<longrightarrow> c mod 4 = 3)"
proof -
  have "y1 = y + 4 * (25 * c)" using assms(1) by simp
  then have "y1 mod 4 = y mod 4" by (metis mod_mult_self2)
  moreover have "(y1 + 1) mod 4 = 0" using assms(4) by (simp add: is_leap_def)
  ultimately have y: "y mod 4 = 3" by presburger
  have "c mod 4 = 3" if "y = 99"
  proof -
    have e: "y1 + 1 = 100 * (c + 1)" using assms(1) that by simp
    then have "(y1 + 1) mod 100 = 0" by simp
    with assms(4) have "(100 * (c + 1)) mod (100 * 4) = 0" unfolding e [symmetric] by (simp add: is_leap_def)
    then have "(c + 1) mod 4 = 0" by (simp only: mod_mult_mult1 mult_eq_0_iff zero_neq_numeral numeral_eq_iff) auto
    then show ?thesis by presburger
  qed
  with y show ?thesis by blast
qed

text \<open>A date in the calendar that starts its years in March.\<close>

lemma date_parts:
  assumes "valid_date year month day"
  defines "y1 \<equiv> (if month > 2 then year else year - 1)" and "m \<equiv> (if month > 2 then month - 3 else month + 9)"
  shows "year * 10000 + month * 100 + day = ymd (12 * y1 + m) day" "0 \<le> y1" "0 \<le> m" "m < 12"
    "5 * ((153 * m + 2) div 5 + day) - 3 < 153 * (m + 1)" "(153 * m + 2) div 5 + day \<le> 366"
    "(153 * m + 2) div 5 + day = 366 \<Longrightarrow> is_leap (y1 + 1)"
proof -
  from assms(1) have v: "1 \<le> year" "1 \<le> month" "month \<le> 12" "1 \<le> day" "day \<le> days_in_month year month"
    by (simp_all add: valid_date_def)
  have k: "12 * y1 + m + 2 = 12 * year + (month - 1)" by (simp add: y1_def m_def)
  have "(12 * year + (month - 1)) div 12 = year" "(12 * year + (month - 1)) mod 12 = month - 1"
    using v(2,3) by simp_all
  then show "year * 10000 + month * 100 + day = ymd (12 * y1 + m) day" unfolding ymd_def k by simp
  show "0 \<le> y1" "0 \<le> m" "m < 12" using v by (auto simp: y1_def m_def)
  have "month = 1 \<or> month = 2 \<or> month = 3 \<or> month = 4 \<or> month = 5 \<or> month = 6 \<or> month = 7 \<or> month = 8 \<or> month = 9 \<or>
      month = 10 \<or> month = 11 \<or> month = 12" using v(2,3) by presburger
  then show "5 * ((153 * m + 2) div 5 + day) - 3 < 153 * (m + 1)" "(153 * m + 2) div 5 + day \<le> 366"
    "(153 * m + 2) div 5 + day = 366 \<Longrightarrow> is_leap (y1 + 1)"
    using v(4,5) by (elim disjE; simp add: m_def y1_def days_in_month_def split: if_splits)+
qed

lemma date_there_and_back:
  assumes "valid_date year month day"
  shows "julian_to_date (date_to_julian (year * 10000 + month * 100 + day)) = year * 10000 + month * 100 + day"
    "1721119 < date_to_julian (year * 10000 + month * 100 + day)"
proof -
  define y1 where "y1 = (if month > 2 then year else year - 1)"
  define m where "m = (if month > 2 then month - 3 else month + 9)"
  note dp = date_parts [OF assms, folded y1_def m_def]
  let ?c = "y1 div 100" and ?y = "y1 mod 100" and ?d = "(153 * m + 2) div 5 + day"
  let ?n = "(146097 * ?c) div 4 + (1461 * ?y) div 4 + ?d"
  have cy: "y1 = 100 * ?c + ?y" "0 \<le> ?c" "0 \<le> ?y" "?y < 100" using dp(2) by (simp_all add: pos_imp_zdiv_nonneg_iff)
  have day: "1 \<le> day" "day < 100" using assms by (auto simp: valid_date_def days_in_month_def split: if_splits)
  have u: "jc ?n = ?c" "jy ?n = ?y" "jm ?n = m" "jday ?n = day"
    by (rule parts_unique [OF cy(2-4) dp(3,4) day(1) refl dp(5,6) leap_century [OF cy(1,3,4) dp(7)] refl]; simp)+
  have j: "date_to_julian (year * 10000 + month * 100 + day) = ?n + 1721119"
    unfolding dp(1) using date_to_julian_ymd [OF cy(2-4) dp(3,4) day] cy(1) by (metis add.assoc)
  have n: "1 \<le> ?n" using cy(2,3) dp(3) day(1) by (simp add: add_nonneg_nonneg add_increasing)
  have "jkey ?n = 12 * y1 + m" unfolding jkey_def u cy(1) [symmetric] ..
  then have "julian_to_date (?n + 1721119) = year * 10000 + month * 100 + day"
    by (simp only: julian_to_date_ymd [OF n] u(4) dp(1))
  then show "julian_to_date (date_to_julian (year * 10000 + month * 100 + day)) = year * 10000 + month * 100 + day"
    by (simp only: j)
  show "1721119 < date_to_julian (year * 10000 + month * 100 + day)" unfolding j using n by linarith
qed

end
