(* ===== verification/Repeats.thy ===== *)
theory Repeats
  imports Julian Strings
begin

text \<open>
  The loops of a node: the classes of \<open>ANattr/src/RepeatAttr.cpp\<close>. Each keeps a value or an index,
  which \<open>increment\<close> moves one past the last valid one; \<open>valid\<close> says whether the loop goes on. A
  \<open>long\<close> is an integer. The variables a repeat generates are caches of its value and are left out.
  The dates of \<open>repeat date\<close> go through \<open>Cal\<close>; \<open>ymdOk\<close> stands for the test of Boost that a string of
  eight digits is a date.
\<close>

section \<open>\<open>RepeatDate\<close>\<close>

record repeat_date =
  rd_name :: string
  rd_start :: int
  rd_end :: int
  rd_delta :: int
  rd_value :: int
  rd_state_change_no :: "32 word"

definition RepeatDate :: "(string \<Rightarrow> bool) \<Rightarrow> string \<Rightarrow> int \<Rightarrow> int \<Rightarrow> int \<Rightarrow> repeat_date res" where
  "RepeatDate ymdOk variable start en delta =
     (if \<not> valid_name variable then Inl (Runtime_error ''RepeatDate::RepeatDate: Invalid name: '')
      else if delta = 0 then Inl (Runtime_error ''Invalid Repeat date: the delta cannot be zero'')
      else if length (string_of_int start) \<noteq> 8
      then Inl (Runtime_error ''Invalid Repeat date: The start is not a valid date. Please use yyyymmdd format.'')
      else if length (string_of_int en) \<noteq> 8
      then Inl (Runtime_error ''Invalid Repeat date: The end is not a valid date. Please use yyyymmdd format.'')
      else if delta > 0 \<and> \<not> en \<ge> start
      then Inl (Runtime_error ''Invalid Repeat date: The end must be greater than the start date, when delta is positive '')
      else if \<not> delta > 0 \<and> \<not> start \<ge> en
      then Inl (Runtime_error ''Invalid Repeat date: The start must be greater than the end date, when delta is negative '')
      else if \<not> ymdOk (string_of_int start) \<or> \<not> ymdOk (string_of_int en)
      then Inl (Runtime_error ''Invalid Repeat date: The start/end is not a valid date.'')
      else Inr \<lparr>rd_name = variable, rd_start = start, rd_end = en, rd_delta = delta, rd_value = start,
                rd_state_change_no = 0\<rparr>)"

definition RepeatDate_valid :: "repeat_date \<Rightarrow> bool" where
  "RepeatDate_valid r = (if rd_delta r > 0 then rd_value r \<le> rd_end r else rd_value r \<ge> rd_end r)"

definition RepeatDate_set_value :: "int \<Rightarrow> repeat_date \<Rightarrow> ecf \<Rightarrow> repeat_date \<times> ecf" where
  "RepeatDate_set_value v r g =
     (let (n, g') = incr_state_change_no g in (r\<lparr>rd_value := v, rd_state_change_no := n\<rparr>, g'))"

definition RepeatDate_reset :: "repeat_date \<Rightarrow> ecf \<Rightarrow> repeat_date \<times> ecf" where
  "RepeatDate_reset r g = RepeatDate_set_value (rd_start r) r g"

definition RepeatDate_setToLastValue :: "repeat_date \<Rightarrow> ecf \<Rightarrow> repeat_date \<times> ecf" where
  "RepeatDate_setToLastValue r g = RepeatDate_set_value (rd_end r) r g"

definition RepeatDate_increment :: "repeat_date \<Rightarrow> ecf \<Rightarrow> repeat_date \<times> ecf" where
  "RepeatDate_increment r g =
     (let julian = date_to_julian (rd_value r) + rd_delta r
      in RepeatDate_set_value (julian_to_date julian) r g)"

text \<open>\<open>valid_value\<close> of \<open>RepeatDate\<close> and of \<open>RepeatInteger\<close> have the same body.\<close>

definition repeat_valid_value :: "int \<Rightarrow> int \<Rightarrow> int \<Rightarrow> int \<Rightarrow> int" where
  "repeat_valid_value delta start en v =
     (if delta > 0
      then if v < start then start else if v > en then en else v
      else if v > start then start else if v < en then en else v)"

definition RepeatDate_last_valid_value :: "repeat_date \<Rightarrow> int" where
  "RepeatDate_last_valid_value r = repeat_valid_value (rd_delta r) (rd_start r) (rd_end r) (rd_value r)"

definition RepeatDate_last_valid_value_minus :: "int \<Rightarrow> repeat_date \<Rightarrow> int" where
  "RepeatDate_last_valid_value_minus v r = julian_to_date (date_to_julian (RepeatDate_last_valid_value r) - v)"

definition RepeatDate_last_valid_value_plus :: "int \<Rightarrow> repeat_date \<Rightarrow> int" where
  "RepeatDate_last_valid_value_plus v r = julian_to_date (date_to_julian (RepeatDate_last_valid_value r) + v)"

definition RepeatDate_next_value_as_string :: "repeat_date \<Rightarrow> string" where
  "RepeatDate_next_value_as_string r =
     (let v = julian_to_date (date_to_julian (RepeatDate_last_valid_value r) + rd_delta r)
      in string_of_int (repeat_valid_value (rd_delta r) (rd_start r) (rd_end r) v))"

definition RepeatDate_prev_value_as_string :: "repeat_date \<Rightarrow> string" where
  "RepeatDate_prev_value_as_string r =
     (let v = julian_to_date (date_to_julian (RepeatDate_last_valid_value r) - rd_delta r)
      in string_of_int (repeat_valid_value (rd_delta r) (rd_start r) (rd_end r) v))"

definition RepeatDate_changeValue :: "int \<Rightarrow> repeat_date \<Rightarrow> ecf \<Rightarrow> (repeat_date \<times> ecf) res" where
  "RepeatDate_changeValue the_new_date r g =
     (if (if rd_delta r > 0 then the_new_date < rd_start r \<or> the_new_date > rd_end r
          else the_new_date > rd_start r \<or> the_new_date < rd_end r)
      then Inl (Runtime_error ''RepeatDate::changeValue: The new date should be in the range'')
      else if cmod (date_to_julian the_new_date - date_to_julian (rd_start r)) (rd_delta r) \<noteq> 0
      then Inl (Runtime_error ''RepeatDate::changeValue: is not in line with the delta/step'')
      else Inr (RepeatDate_set_value the_new_date r g))"

definition RepeatDate_change :: "(string \<Rightarrow> bool) \<Rightarrow> string \<Rightarrow> repeat_date \<Rightarrow> ecf \<Rightarrow> (repeat_date \<times> ecf) res" where
  "RepeatDate_change ymdOk newdate r g =
     (if length newdate \<noteq> 8 then Inl (Runtime_error ''RepeatDate::change: The new date is not valid, expected 8 characters'')
      else case lexical_cast_long newdate of
             None \<Rightarrow> Inl (Runtime_error ''RepeatDate::change: is not convertible to an long'')
           | Some the_new_date \<Rightarrow>
               if \<not> ymdOk newdate then Inl (Runtime_error ''RepeatDate::change: is not valid'')
               else RepeatDate_changeValue the_new_date r g)"

definition RepeatDate_equal :: "repeat_date \<Rightarrow> repeat_date \<Rightarrow> bool" where
  "RepeatDate_equal a b =
     (if rd_name a \<noteq> rd_name b then False
      else if rd_start a \<noteq> rd_start b then False
      else if rd_end a \<noteq> rd_end b then False
      else if rd_delta a \<noteq> rd_delta b then False
      else if rd_value a \<noteq> rd_value b then False
      else True)"

definition RepeatDate_write :: "bool \<Rightarrow> repeat_date \<Rightarrow> string" where
  "RepeatDate_write defsStyle r =
     ''repeat date '' @ rd_name r @ '' '' @ string_of_int (rd_start r) @ '' '' @ string_of_int (rd_end r) @
     '' '' @ string_of_int (rd_delta r) @
     (if \<not> defsStyle \<and> rd_value r \<noteq> rd_start r then '' # '' @ string_of_int (rd_value r) else [])"

section \<open>\<open>RepeatInteger\<close>\<close>

record repeat_integer =
  ri_name :: string
  ri_start :: int
  ri_end :: int
  ri_delta :: int
  ri_value :: int
  ri_state_change_no :: "32 word"

definition RepeatInteger :: "string \<Rightarrow> int \<Rightarrow> int \<Rightarrow> int \<Rightarrow> repeat_integer res" where
  "RepeatInteger variable start en delta =
     (if \<not> valid_name variable then Inl (Runtime_error ''RepeatInteger: Invalid name: '')
      else Inr \<lparr>ri_name = variable, ri_start = start, ri_end = en, ri_delta = delta, ri_value = start,
                ri_state_change_no = 0\<rparr>)"

definition RepeatInteger_valid :: "repeat_integer \<Rightarrow> bool" where
  "RepeatInteger_valid r = (if ri_delta r > 0 then ri_value r \<le> ri_end r else ri_value r \<ge> ri_end r)"

definition RepeatInteger_set_value :: "int \<Rightarrow> repeat_integer \<Rightarrow> ecf \<Rightarrow> repeat_integer \<times> ecf" where
  "RepeatInteger_set_value v r g =
     (let (n, g') = incr_state_change_no g in (r\<lparr>ri_value := v, ri_state_change_no := n\<rparr>, g'))"

definition RepeatInteger_reset :: "repeat_integer \<Rightarrow> ecf \<Rightarrow> repeat_integer \<times> ecf" where
  "RepeatInteger_reset r g =
     (let (n, g') = incr_state_change_no g in (r\<lparr>ri_value := ri_start r, ri_state_change_no := n\<rparr>, g'))"

definition RepeatInteger_increment :: "repeat_integer \<Rightarrow> ecf \<Rightarrow> repeat_integer \<times> ecf" where
  "RepeatInteger_increment r g =
     (let (n, g') = incr_state_change_no g
      in (r\<lparr>ri_value := ri_value r + ri_delta r, ri_state_change_no := n\<rparr>, g'))"

definition RepeatInteger_setToLastValue :: "repeat_integer \<Rightarrow> ecf \<Rightarrow> repeat_integer \<times> ecf" where
  "RepeatInteger_setToLastValue r g =
     (let (n, g') = incr_state_change_no g in (r\<lparr>ri_value := ri_end r, ri_state_change_no := n\<rparr>, g'))"

definition RepeatInteger_last_valid_value :: "repeat_integer \<Rightarrow> int" where
  "RepeatInteger_last_valid_value r = repeat_valid_value (ri_delta r) (ri_start r) (ri_end r) (ri_value r)"

definition RepeatInteger_next_value_as_string :: "repeat_integer \<Rightarrow> string" where
  "RepeatInteger_next_value_as_string r =
     (let v = RepeatInteger_last_valid_value r + ri_delta r
      in string_of_int (repeat_valid_value (ri_delta r) (ri_start r) (ri_end r) v))"

definition RepeatInteger_prev_value_as_string :: "repeat_integer \<Rightarrow> string" where
  "RepeatInteger_prev_value_as_string r =
     (let v = RepeatInteger_last_valid_value r - ri_delta r
      in string_of_int (repeat_valid_value (ri_delta r) (ri_start r) (ri_end r) v))"

definition RepeatInteger_changeValue :: "int \<Rightarrow> repeat_integer \<Rightarrow> ecf \<Rightarrow> (repeat_integer \<times> ecf) res" where
  "RepeatInteger_changeValue v r g =
     (if (if ri_delta r > 0 then v < ri_start r \<or> v > ri_end r else v > ri_start r \<or> v < ri_end r)
      then Inl (Runtime_error ''RepeatInteger::changeValue: The new value should be in the range'')
      else Inr (RepeatInteger_set_value v r g))"

definition RepeatInteger_write :: "bool \<Rightarrow> repeat_integer \<Rightarrow> string" where
  "RepeatInteger_write defsStyle r =
     ''repeat integer '' @ ri_name r @ '' '' @ string_of_int (ri_start r) @ '' '' @ string_of_int (ri_end r) @
     (if ri_delta r \<noteq> 1 then '' '' @ string_of_int (ri_delta r) else []) @
     (if \<not> defsStyle \<and> ri_value r \<noteq> ri_start r then '' # '' @ string_of_int (ri_value r) else [])"

definition RepeatInteger_equal :: "repeat_integer \<Rightarrow> repeat_integer \<Rightarrow> bool" where
  "RepeatInteger_equal a b =
     (if ri_name a \<noteq> ri_name b then False
      else if ri_start a \<noteq> ri_start b then False
      else if ri_end a \<noteq> ri_end b then False
      else if ri_delta a \<noteq> ri_delta b then False
      else if ri_value a \<noteq> ri_value b then False
      else True)"

section \<open>\<open>RepeatEnumerated\<close> and \<open>RepeatString\<close>\<close>

text \<open>Both classes keep a name, a list of strings and an index.\<close>

record repeat_enum =
  re_name :: string
  re_enums :: "string list"
  re_index :: int
  re_state_change_no :: "32 word"

definition RepeatEnumerated :: "string \<Rightarrow> string list \<Rightarrow> repeat_enum res" where
  "RepeatEnumerated variable theEnums =
     (if \<not> valid_name variable then Inl (Runtime_error ''RepeatEnumerated: Invalid name: '')
      else if theEnums = [] then Inl (Runtime_error ''RepeatEnumerated: is empty'')
      else Inr \<lparr>re_name = variable, re_enums = theEnums, re_index = 0, re_state_change_no = 0\<rparr>)"

definition RepeatEnumerated_valid :: "repeat_enum \<Rightarrow> bool" where
  "RepeatEnumerated_valid r = (re_index r \<ge> 0 \<and> re_index r < int (length (re_enums r)))"

definition RepeatEnumerated_set_value :: "int \<Rightarrow> repeat_enum \<Rightarrow> ecf \<Rightarrow> repeat_enum \<times> ecf" where
  "RepeatEnumerated_set_value v r g =
     (let (n, g') = incr_state_change_no g in (r\<lparr>re_index := v, re_state_change_no := n\<rparr>, g'))"

definition RepeatEnumerated_reset :: "repeat_enum \<Rightarrow> ecf \<Rightarrow> repeat_enum \<times> ecf" where
  "RepeatEnumerated_reset r g =
     (let (n, g') = incr_state_change_no g in (r\<lparr>re_index := 0, re_state_change_no := n\<rparr>, g'))"

definition RepeatEnumerated_increment :: "repeat_enum \<Rightarrow> ecf \<Rightarrow> repeat_enum \<times> ecf" where
  "RepeatEnumerated_increment r g =
     (let (n, g') = incr_state_change_no g in (r\<lparr>re_index := re_index r + 1, re_state_change_no := n\<rparr>, g'))"

definition RepeatEnumerated_setToLastValue :: "repeat_enum \<Rightarrow> ecf \<Rightarrow> repeat_enum \<times> ecf" where
  "RepeatEnumerated_setToLastValue r g =
     (let i = int (length (re_enums r)) - 1;
          (n, g') = incr_state_change_no g
      in (r\<lparr>re_index := (if i < 0 then 0 else i), re_state_change_no := n\<rparr>, g'))"

definition RepeatEnumerated_value :: "repeat_enum \<Rightarrow> int" where
  "RepeatEnumerated_value r =
     (if re_index r \<ge> 0 \<and> re_index r < int (length (re_enums r))
      then (case lexical_cast_int (re_enums r ! nat (re_index r)) of Some i \<Rightarrow> i | None \<Rightarrow> re_index r)
      else re_index r)"

definition RepeatEnumerated_last_valid_value :: "repeat_enum \<Rightarrow> int" where
  "RepeatEnumerated_last_valid_value r =
     (if re_enums r \<noteq> []
      then if re_index r < 0
           then (case lexical_cast_int (re_enums r ! 0) of Some i \<Rightarrow> i | None \<Rightarrow> 0)
           else if re_index r \<ge> int (length (re_enums r))
           then (case lexical_cast_int (re_enums r ! (length (re_enums r) - 1)) of
                   Some i \<Rightarrow> i | None \<Rightarrow> int (length (re_enums r)) - 1)
           else RepeatEnumerated_value r
      else 0)"

definition RepeatEnumerated_valueAsString :: "repeat_enum \<Rightarrow> string" where
  "RepeatEnumerated_valueAsString r =
     (if re_enums r \<noteq> []
      then if re_index r < 0 then re_enums r ! 0
           else if re_index r \<ge> int (length (re_enums r)) then re_enums r ! (length (re_enums r) - 1)
           else re_enums r ! nat (re_index r)
      else [])"

fun index_of_value :: "string \<Rightarrow> string list \<Rightarrow> nat option" where
  "index_of_value v [] = None"
| "index_of_value v (e # es) = (if e = v then Some 0 else map_option Suc (index_of_value v es))"

definition RepeatEnumerated_changeValue :: "int \<Rightarrow> repeat_enum \<Rightarrow> ecf \<Rightarrow> (repeat_enum \<times> ecf) res" where
  "RepeatEnumerated_changeValue v r g =
     (if v < 0 \<or> v \<ge> int (length (re_enums r))
      then Inl (Runtime_error ''RepeatEnumerated::changeValue: is not a valid index '')
      else Inr (RepeatEnumerated_set_value v r g))"

definition RepeatEnumerated_change :: "string \<Rightarrow> repeat_enum \<Rightarrow> ecf \<Rightarrow> (repeat_enum \<times> ecf) res" where
  "RepeatEnumerated_change newValue r g =
     (case index_of_value newValue (re_enums r) of
        Some i \<Rightarrow> Inr (RepeatEnumerated_set_value (int i) r g)
      | None \<Rightarrow>
          (case lexical_cast_long newValue of
             Some v \<Rightarrow> RepeatEnumerated_changeValue v r g
           | None \<Rightarrow> Inl (Runtime_error ''RepeatEnumerated::change: is not a valid index or a member of the enumerated list'')))"

definition RepeatString_last_valid_value :: "repeat_enum \<Rightarrow> int" where
  "RepeatString_last_valid_value r =
     (if re_enums r \<noteq> []
      then if re_index r < 0 then 0
           else if re_index r \<ge> int (length (re_enums r)) then int (length (re_enums r)) - 1
           else re_index r
      else 0)"

definition RepeatString_valueAsString :: "repeat_enum \<Rightarrow> string" where
  "RepeatString_valueAsString r =
     (if re_enums r \<noteq> [] then re_enums r ! nat (RepeatString_last_valid_value r) else [])"

section \<open>\<open>RepeatDateList\<close> and \<open>RepeatDay\<close>\<close>

record repeat_datelist =
  rl_name :: string
  rl_list :: "int list"
  rl_index :: int
  rl_state_change_no :: "32 word"

fun datelist_check :: "(string \<Rightarrow> bool) \<Rightarrow> int list \<Rightarrow> bool" where
  "datelist_check ymdOk [] = True"
| "datelist_check ymdOk (i # is) =
     (if length (string_of_int i) \<noteq> 8 then False
      else if \<not> ymdOk (string_of_int i) then False
      else datelist_check ymdOk is)"

definition RepeatDateList :: "(string \<Rightarrow> bool) \<Rightarrow> string \<Rightarrow> int list \<Rightarrow> repeat_datelist res" where
  "RepeatDateList ymdOk variable l =
     (if \<not> valid_name variable then Inl (Runtime_error ''RepeatDateList: Invalid name: '')
      else if l = [] then Inl (Runtime_error ''RepeatDateList: is empty'')
      else if \<not> datelist_check ymdOk l then Inl (Runtime_error ''Invalid Repeat datelist '')
      else Inr \<lparr>rl_name = variable, rl_list = l, rl_index = 0, rl_state_change_no = 0\<rparr>)"

definition RepeatDateList_valid :: "repeat_datelist \<Rightarrow> bool" where
  "RepeatDateList_valid r = (rl_index r \<ge> 0 \<and> rl_index r < int (length (rl_list r)))"

definition RepeatDateList_set_value :: "int \<Rightarrow> repeat_datelist \<Rightarrow> ecf \<Rightarrow> repeat_datelist \<times> ecf" where
  "RepeatDateList_set_value i r g =
     (if rl_list r = [] then (r, g)
      else let (n, g') = incr_state_change_no g in (r\<lparr>rl_index := i, rl_state_change_no := n\<rparr>, g'))"

definition RepeatDateList_reset :: "repeat_datelist \<Rightarrow> ecf \<Rightarrow> repeat_datelist \<times> ecf" where
  "RepeatDateList_reset r g = RepeatDateList_set_value 0 r g"

definition RepeatDateList_increment :: "repeat_datelist \<Rightarrow> ecf \<Rightarrow> repeat_datelist \<times> ecf" where
  "RepeatDateList_increment r g = RepeatDateList_set_value (rl_index r + 1) r g"

definition RepeatDateList_value :: "repeat_datelist \<Rightarrow> int" where
  "RepeatDateList_value r =
     (if rl_list r = [] then 0
      else if rl_index r \<ge> 0 \<and> rl_index r < int (length (rl_list r)) then rl_list r ! nat (rl_index r)
      else 0)"

definition RepeatDateList_last_valid_value :: "repeat_datelist \<Rightarrow> int" where
  "RepeatDateList_last_valid_value r =
     (if rl_list r = [] then 0
      else if rl_index r \<ge> 0 \<and> rl_index r < int (length (rl_list r)) then rl_list r ! nat (rl_index r)
      else if rl_index r < 0 then rl_list r ! 0
      else if rl_index r \<ge> int (length (rl_list r)) then rl_list r ! (length (rl_list r) - 1)
      else 0)"

definition RepeatDateList_setToLastValue :: "repeat_datelist \<Rightarrow> ecf \<Rightarrow> repeat_datelist \<times> ecf" where
  "RepeatDateList_setToLastValue r g =
     (if rl_list r = [] then (r, g) else RepeatDateList_set_value (int (length (rl_list r)) - 1) r g)"

definition RepeatDateList_changeValue :: "int \<Rightarrow> repeat_datelist \<Rightarrow> ecf \<Rightarrow> (repeat_datelist \<times> ecf) res" where
  "RepeatDateList_changeValue i r g =
     (if rl_list r = [] then Inr (r, g)
      else if i < 0 \<or> i \<ge> int (length (rl_list r))
      then Inl (Runtime_error ''RepeatDateList::changeValue: is not a valid index '')
      else Inr (RepeatDateList_set_value i r g))"

record repeat_day =
  ry_step :: int
  ry_valid :: bool

section \<open>\<open>Repeat\<close>\<close>

datatype repeat_t =
    NoRepeat
  | RDate repeat_date
  | RDateList repeat_datelist
  | RInteger repeat_integer
  | REnumerated repeat_enum
  | RString repeat_enum
  | RDay repeat_day

fun Repeat_valid :: "repeat_t \<Rightarrow> bool" where
  "Repeat_valid NoRepeat = False"
| "Repeat_valid (RDate r) = RepeatDate_valid r"
| "Repeat_valid (RDateList r) = RepeatDateList_valid r"
| "Repeat_valid (RInteger r) = RepeatInteger_valid r"
| "Repeat_valid (REnumerated r) = RepeatEnumerated_valid r"
| "Repeat_valid (RString r) = RepeatEnumerated_valid r"
| "Repeat_valid (RDay r) = ry_valid r"

fun Repeat_increment :: "repeat_t \<Rightarrow> ecf \<Rightarrow> repeat_t \<times> ecf" where
  "Repeat_increment NoRepeat g = (NoRepeat, g)"
| "Repeat_increment (RDate r) g = map_prod RDate id (RepeatDate_increment r g)"
| "Repeat_increment (RDateList r) g = map_prod RDateList id (RepeatDateList_increment r g)"
| "Repeat_increment (RInteger r) g = map_prod RInteger id (RepeatInteger_increment r g)"
| "Repeat_increment (REnumerated r) g = map_prod REnumerated id (RepeatEnumerated_increment r g)"
| "Repeat_increment (RString r) g = map_prod RString id (RepeatEnumerated_increment r g)"
| "Repeat_increment (RDay r) g = (RDay r, g)"

fun Repeat_reset :: "repeat_t \<Rightarrow> ecf \<Rightarrow> repeat_t \<times> ecf" where
  "Repeat_reset NoRepeat g = (NoRepeat, g)"
| "Repeat_reset (RDate r) g = map_prod RDate id (RepeatDate_reset r g)"
| "Repeat_reset (RDateList r) g = map_prod RDateList id (RepeatDateList_reset r g)"
| "Repeat_reset (RInteger r) g = map_prod RInteger id (RepeatInteger_reset r g)"
| "Repeat_reset (REnumerated r) g = map_prod REnumerated id (RepeatEnumerated_reset r g)"
| "Repeat_reset (RString r) g = map_prod RString id (RepeatEnumerated_reset r g)"
| "Repeat_reset (RDay r) g = (RDay (r\<lparr>ry_valid := True\<rparr>), g)"

fun Repeat_setToLastValue :: "repeat_t \<Rightarrow> ecf \<Rightarrow> repeat_t \<times> ecf" where
  "Repeat_setToLastValue NoRepeat g = (NoRepeat, g)"
| "Repeat_setToLastValue (RDate r) g = map_prod RDate id (RepeatDate_setToLastValue r g)"
| "Repeat_setToLastValue (RDateList r) g = map_prod RDateList id (RepeatDateList_setToLastValue r g)"
| "Repeat_setToLastValue (RInteger r) g = map_prod RInteger id (RepeatInteger_setToLastValue r g)"
| "Repeat_setToLastValue (REnumerated r) g = map_prod REnumerated id (RepeatEnumerated_setToLastValue r g)"
| "Repeat_setToLastValue (RString r) g = map_prod RString id (RepeatEnumerated_setToLastValue r g)"
| "Repeat_setToLastValue (RDay r) g = (RDay r, g)"

text \<open>\<open>Node::setRepeatToLastValue\<close>.\<close>

definition setRepeatToLastValue :: "repeat_t \<Rightarrow> ecf \<Rightarrow> repeat_t \<times> ecf" where
  "setRepeatToLastValue r g = (let (r1, g1) = Repeat_setToLastValue r g in Repeat_increment r1 g1)"

section \<open>The loop a repeat stands for\<close>

text \<open>The interface a node relies on: \<open>reset\<close> goes to the first position, \<open>increment\<close> to the next one,
  and the repeat is valid while its position is below the number of rounds.\<close>

locale finite_repeat =
  fixes valid :: "'a \<Rightarrow> bool"
    and increment :: "'a \<Rightarrow> 'a"
    and reset :: "'a \<Rightarrow> 'a"
    and wf :: "'a \<Rightarrow> bool"
    and at_pos :: "'a \<Rightarrow> nat \<Rightarrow> bool"
    and rounds :: "'a \<Rightarrow> nat"
  assumes reset_at: "wf r \<Longrightarrow> wf (reset r) \<and> at_pos (reset r) 0 \<and> rounds (reset r) = rounds r"
    and increment_at: "wf r \<Longrightarrow> at_pos r k \<Longrightarrow> k < rounds r \<Longrightarrow>
      wf (increment r) \<and> at_pos (increment r) (Suc k) \<and> rounds (increment r) = rounds r"
    and valid_at: "wf r \<Longrightarrow> at_pos r k \<Longrightarrow> k \<le> rounds r \<Longrightarrow> valid r \<longleftrightarrow> k < rounds r"
begin

lemma run_at:
  assumes "wf r" "k \<le> rounds r"
  shows "wf ((increment ^^ k) (reset r)) \<and> at_pos ((increment ^^ k) (reset r)) k \<and>
    rounds ((increment ^^ k) (reset r)) = rounds r"
  using assms(2)
proof (induction k)
  case 0
  then show ?case using reset_at [OF assms(1)] by simp
next
  case (Suc k)
  then show ?case using increment_at [of "(increment ^^ k) (reset r)" k] by simp
qed

lemma run_valid:
  assumes "wf r" "k \<le> rounds r"
  shows "valid ((increment ^^ k) (reset r)) \<longleftrightarrow> k < rounds r"
  using run_at [OF assms] valid_at [of "(increment ^^ k) (reset r)" k] assms(2) by simp

end

type_synonym 'r stamped = "'r \<times> ecf"

definition on_pair :: "('r \<Rightarrow> ecf \<Rightarrow> 'r \<times> ecf) \<Rightarrow> 'r stamped \<Rightarrow> 'r stamped" where
  "on_pair f x = f (fst x) (snd x)"

text \<open>How often a loop from \<open>start\<close> to \<open>en\<close> with a step runs.\<close>

definition step_rounds :: "int \<Rightarrow> int \<Rightarrow> int \<Rightarrow> nat" where
  "step_rounds start en delta =
     (if delta > 0 then nat ((en - start) div delta + 1) else nat ((start - en) div (- delta) + 1))"

lemma step_rounds_valid:
  assumes "delta \<noteq> 0"
  shows "(if delta > 0 then start + int k * delta \<le> en else start + int k * delta \<ge> en) \<longleftrightarrow> k < step_rounds start en delta"
proof (cases "delta > 0")
  case True
  have "start + int k * delta \<le> en \<longleftrightarrow> int k * delta \<le> en - start" by auto
  also have "\<dots> \<longleftrightarrow> int k \<le> (en - start) div delta" using le_div_iff_mult_le [OF True] by simp
  finally show ?thesis using True by (auto simp: step_rounds_def)
next
  case False
  with assms have pos: "0 < - delta" by simp
  have "start + int k * delta \<ge> en \<longleftrightarrow> int k * (- delta) \<le> start - en" by auto
  also have "\<dots> \<longleftrightarrow> int k \<le> (start - en) div (- delta)" using le_div_iff_mult_le [OF pos] by simp
  finally show ?thesis using False by (auto simp: step_rounds_def)
qed

definition ri_at :: "repeat_integer stamped \<Rightarrow> nat \<Rightarrow> bool" where
  "ri_at x k \<longleftrightarrow> ri_value (fst x) = ri_start (fst x) + int k * ri_delta (fst x)"

interpretation rinteger: finite_repeat "\<lambda>x. RepeatInteger_valid (fst x)" "on_pair RepeatInteger_increment"
  "on_pair RepeatInteger_reset" "\<lambda>x. ri_delta (fst x) \<noteq> 0" ri_at
  "\<lambda>x. step_rounds (ri_start (fst x)) (ri_end (fst x)) (ri_delta (fst x))"
proof unfold_locales
  fix r k
  show "ri_delta (fst r) \<noteq> 0 \<Longrightarrow> ri_delta (fst (on_pair RepeatInteger_reset r)) \<noteq> 0 \<and> ri_at (on_pair RepeatInteger_reset r) 0 \<and>
    step_rounds (ri_start (fst (on_pair RepeatInteger_reset r))) (ri_end (fst (on_pair RepeatInteger_reset r)))
      (ri_delta (fst (on_pair RepeatInteger_reset r))) = step_rounds (ri_start (fst r)) (ri_end (fst r)) (ri_delta (fst r))"
    by (simp add: on_pair_def RepeatInteger_reset_def ri_at_def split: prod.split)
  show "ri_delta (fst r) \<noteq> 0 \<Longrightarrow> ri_at r k \<Longrightarrow> ri_delta (fst (on_pair RepeatInteger_increment r)) \<noteq> 0 \<and>
    ri_at (on_pair RepeatInteger_increment r) (Suc k) \<and>
    step_rounds (ri_start (fst (on_pair RepeatInteger_increment r))) (ri_end (fst (on_pair RepeatInteger_increment r)))
      (ri_delta (fst (on_pair RepeatInteger_increment r))) = step_rounds (ri_start (fst r)) (ri_end (fst r)) (ri_delta (fst r))"
    by (simp add: on_pair_def RepeatInteger_increment_def ri_at_def algebra_simps split: prod.split)
  show "ri_delta (fst r) \<noteq> 0 \<Longrightarrow> ri_at r k \<Longrightarrow>
    RepeatInteger_valid (fst r) \<longleftrightarrow> k < step_rounds (ri_start (fst r)) (ri_end (fst r)) (ri_delta (fst r))"
    using step_rounds_valid [of "ri_delta (fst r)" "ri_start (fst r)" k "ri_end (fst r)"]
    by (cases "0 < ri_delta (fst r)") (simp_all add: RepeatInteger_valid_def ri_at_def)
qed

definition re_at :: "repeat_enum stamped \<Rightarrow> nat \<Rightarrow> bool" where
  "re_at x k \<longleftrightarrow> re_index (fst x) = int k"

interpretation renum: finite_repeat "\<lambda>x. RepeatEnumerated_valid (fst x)" "on_pair RepeatEnumerated_increment"
  "on_pair RepeatEnumerated_reset" "\<lambda>x. True" re_at "\<lambda>x. length (re_enums (fst x))"
  by unfold_locales (auto simp: on_pair_def RepeatEnumerated_reset_def RepeatEnumerated_increment_def
      RepeatEnumerated_valid_def re_at_def split: prod.splits)

definition rl_at :: "repeat_datelist stamped \<Rightarrow> nat \<Rightarrow> bool" where
  "rl_at x k \<longleftrightarrow> rl_index (fst x) = int k"

interpretation rdatelist: finite_repeat "\<lambda>x. RepeatDateList_valid (fst x)" "on_pair RepeatDateList_increment"
  "on_pair RepeatDateList_reset" "\<lambda>x. rl_list (fst x) \<noteq> []" rl_at "\<lambda>x. length (rl_list (fst x))"
  by unfold_locales (auto simp: on_pair_def RepeatDateList_reset_def RepeatDateList_increment_def
      RepeatDateList_set_value_def RepeatDateList_valid_def rl_at_def split: prod.splits)

lemma rl_list_kept:
  "rl_list (fst (on_pair RepeatDateList_increment x)) = rl_list (fst x)"
  "rl_list (fst (on_pair RepeatDateList_reset x)) = rl_list (fst x)"
  by (simp_all add: on_pair_def RepeatDateList_reset_def RepeatDateList_increment_def RepeatDateList_set_value_def
      split: prod.split)

subsection \<open>Dates\<close>

text \<open>The dates the calendar has, and the repeats whose bounds are such dates and whose step does not
  leave the range of day numbers when it passes the end.\<close>

definition is_date :: "int \<Rightarrow> bool" where
  "is_date v \<longleftrightarrow> (\<exists>y m d. valid_date y m d \<and> v = y * 10000 + m * 100 + d)"

definition rd_ok :: "repeat_date \<Rightarrow> bool" where
  "rd_ok r \<longleftrightarrow> rd_delta r \<noteq> 0 \<and> is_date (rd_start r) \<and> is_date (rd_end r) \<and>
     1721119 < date_to_julian (rd_end r) + rd_delta r"

lemma is_date_back:
  assumes "is_date v"
  shows "julian_to_date (date_to_julian v) = v" "1721119 < date_to_julian v"
  using assms date_there_and_back by (auto simp: is_date_def)

lemma julian_date_le_iff:
  assumes "1721119 < i" "1721119 < j"
  shows "julian_to_date i \<le> julian_to_date j \<longleftrightarrow> i \<le> j"
  using julian_to_date_mono [OF assms(1), of j] julian_to_date_mono [OF assms(2), of i] by (metis leD leI order_less_le)

definition rd_julian :: "repeat_date \<Rightarrow> nat \<Rightarrow> int" where
  "rd_julian r k = date_to_julian (rd_start r) + int k * rd_delta r"

definition rd_rounds :: "repeat_date \<Rightarrow> nat" where
  "rd_rounds r = step_rounds (date_to_julian (rd_start r)) (date_to_julian (rd_end r)) (rd_delta r)"

definition rd_at :: "repeat_date stamped \<Rightarrow> nat \<Rightarrow> bool" where
  "rd_at x k \<longleftrightarrow> rd_value (fst x) = julian_to_date (rd_julian (fst x) k)"

lemma rd_julian_range:
  assumes "rd_ok r" "k \<le> rd_rounds r"
  shows "1721119 < rd_julian r k"
proof (cases "rd_delta r > 0")
  case True
  then have "0 \<le> int k * rd_delta r" by simp
  moreover have "1721119 < date_to_julian (rd_start r)" using assms(1) is_date_back(2) by (simp add: rd_ok_def)
  ultimately show ?thesis unfolding rd_julian_def by linarith
next
  case False
  then have d: "rd_delta r < 0" using assms(1) by (simp add: rd_ok_def)
  show ?thesis
  proof (cases k)
    case 0
    then show ?thesis using assms(1) is_date_back(2) [of "rd_start r"] by (simp add: rd_ok_def rd_julian_def)
  next
    case (Suc j)
    with assms(2) have "j < rd_rounds r" by simp
    with step_rounds_valid [of "rd_delta r" "date_to_julian (rd_start r)" j "date_to_julian (rd_end r)"] d
    have "date_to_julian (rd_end r) \<le> rd_julian r j" by (simp add: rd_rounds_def rd_julian_def)
    moreover have "rd_julian r k = rd_julian r j + rd_delta r" using Suc by (simp add: rd_julian_def algebra_simps)
    ultimately show ?thesis using assms(1) by (simp add: rd_ok_def)
  qed
qed

lemma RepeatDate_set_value_fields [simp]:
  "rd_value (fst (RepeatDate_set_value v r g)) = v" "rd_start (fst (RepeatDate_set_value v r g)) = rd_start r"
  "rd_end (fst (RepeatDate_set_value v r g)) = rd_end r" "rd_delta (fst (RepeatDate_set_value v r g)) = rd_delta r"
  by (simp_all add: RepeatDate_set_value_def split: prod.split)

lemma rd_set_value_keeps [simp]:
  "rd_ok (fst (RepeatDate_set_value v r g)) = rd_ok r" "rd_rounds (fst (RepeatDate_set_value v r g)) = rd_rounds r"
  "rd_julian (fst (RepeatDate_set_value v r g)) = rd_julian r"
  by (simp_all add: rd_ok_def rd_rounds_def rd_julian_def fun_eq_iff)

interpretation rdate: finite_repeat "\<lambda>x. RepeatDate_valid (fst x)" "on_pair RepeatDate_increment"
  "on_pair RepeatDate_reset" "\<lambda>x. rd_ok (fst x)" rd_at "\<lambda>x. rd_rounds (fst x)"
proof unfold_locales
  fix r k
  show "rd_ok (fst r) \<Longrightarrow> rd_ok (fst (on_pair RepeatDate_reset r)) \<and> rd_at (on_pair RepeatDate_reset r) 0 \<and>
      rd_rounds (fst (on_pair RepeatDate_reset r)) = rd_rounds (fst r)"
    by (simp add: on_pair_def RepeatDate_reset_def rd_at_def) (simp add: rd_julian_def rd_ok_def is_date_back)
  show "rd_ok (fst r) \<Longrightarrow> rd_at r k \<Longrightarrow> k < rd_rounds (fst r) \<Longrightarrow> rd_ok (fst (on_pair RepeatDate_increment r)) \<and>
      rd_at (on_pair RepeatDate_increment r) (Suc k) \<and> rd_rounds (fst (on_pair RepeatDate_increment r)) = rd_rounds (fst r)"
    using julian_there_and_back [OF rd_julian_range [of "fst r" k]]
    by (simp add: on_pair_def RepeatDate_increment_def Let_def rd_at_def) (simp add: rd_julian_def algebra_simps)
  assume ok: "rd_ok (fst r)" and at: "rd_at r k" and k: "k \<le> rd_rounds (fst r)"
  have j: "1721119 < rd_julian (fst r) k" "1721119 < date_to_julian (rd_end (fst r))"
    using rd_julian_range [OF ok k] is_date_back ok by (auto simp: rd_ok_def)
  have e: "julian_to_date (date_to_julian (rd_end (fst r))) = rd_end (fst r)" using ok is_date_back by (simp add: rd_ok_def)
  show "RepeatDate_valid (fst r) \<longleftrightarrow> k < rd_rounds (fst r)"
    using julian_date_le_iff [OF j] julian_date_le_iff [OF j(2,1)] e at ok
      step_rounds_valid [of "rd_delta (fst r)" "date_to_julian (rd_start (fst r))" k "date_to_julian (rd_end (fst r))"]
    by (cases "0 < rd_delta (fst r)") (simp_all add: RepeatDate_valid_def rd_at_def rd_rounds_def rd_julian_def rd_ok_def)
qed

section \<open>Properties\<close>

text \<open>C36. The day numbers of \<open>Cal\<close>: from the day after 1 March of the year 0 on, a day number converts
  to a date and back; every date of the Gregorian calendar from the year 1 on, leap days included,
  converts to a day number and back; and later days have larger dates, so the dates of a repeat may be
  compared as integers.\<close>

theorem cal_julian_bijection:
  "(\<forall>j. 1721119 < j \<longrightarrow> date_to_julian (julian_to_date j) = j) \<and>
   (\<forall>y m d. valid_date y m d \<longrightarrow>
      julian_to_date (date_to_julian (y * 10000 + m * 100 + d)) = y * 10000 + m * 100 + d) \<and>
   (\<forall>i j. 1721119 < i \<and> i < j \<longrightarrow> julian_to_date i < julian_to_date j)"
  using julian_there_and_back date_there_and_back(1) julian_to_date_mono by blast

theorem cal_julian_bijection_witness:
  "valid_date 2000 2 29 \<and> julian_to_date (date_to_julian 20000229) = 20000229 \<and>
   julian_to_date 2451604 < julian_to_date 2451605"
proof -
  have v: "valid_date 2000 2 29" by (simp add: valid_date_def days_in_month_def is_leap_def)
  then have "julian_to_date (date_to_julian (2000 * 10000 + 2 * 100 + 29)) = 2000 * 10000 + 2 * 100 + 29"
    using cal_julian_bijection by blast
  moreover have "julian_to_date 2451604 < julian_to_date 2451605" using cal_julian_bijection by simp
  ultimately show ?thesis using v by simp
qed

text \<open>A date repeat is a finite loop over the dates of its range: after \<open>reset\<close>, \<open>k\<close> increments
  lead to the date \<open>k\<close> steps of \<open>delta\<close> days from the start; the repeat is valid for exactly
  \<open>rd_rounds\<close> positions (the dates that do not pass the end) and invalid at the next one, for
  positive and for negative steps.\<close>

theorem repeat_date_runs:
  fixes g :: ecf
  assumes "rd_ok r" "k \<le> rd_rounds r"
  defines "x \<equiv> (on_pair RepeatDate_increment ^^ k) (on_pair RepeatDate_reset (r, g))"
  shows "rd_value (fst x) = julian_to_date (date_to_julian (rd_start r) + int k * rd_delta r) \<and>
    (RepeatDate_valid (fst x) \<longleftrightarrow> k < rd_rounds r)"
proof -
  have at: "rd_at x k" and ok: "rd_ok (fst x)" and v: "RepeatDate_valid (fst x) \<longleftrightarrow> k < rd_rounds r"
    using rdate.run_at [of "(r, g)" k] rdate.run_valid [of "(r, g)" k] assms by simp_all
  have "rd_start (fst ((on_pair RepeatDate_increment ^^ j) (on_pair RepeatDate_reset (r, g)))) = rd_start r \<and>
      rd_delta (fst ((on_pair RepeatDate_increment ^^ j) (on_pair RepeatDate_reset (r, g)))) = rd_delta r" for j
    by (induction j) (simp_all add: on_pair_def RepeatDate_reset_def RepeatDate_increment_def Let_def)
  then have "rd_start (fst x) = rd_start r" "rd_delta (fst x) = rd_delta r" by (simp_all add: x_def)
  with at v show ?thesis by (simp add: rd_at_def rd_julian_def)
qed

text \<open>Ten days across a leap day.\<close>

definition february :: repeat_date where
  "february = \<lparr>rd_name = ''YMD'', rd_start = 20240225, rd_end = 20240305, rd_delta = 3, rd_value = 20240225,
     rd_state_change_no = 0\<rparr>"

lemma february_ok: "rd_ok february" "rd_rounds february = 4"
proof -
  have v: "valid_date 2024 2 25" "valid_date 2024 3 5"
    by (simp_all add: valid_date_def days_in_month_def is_leap_def)
  have "is_date 20240225" "is_date 20240305"
    unfolding is_date_def by (rule exI [of _ 2024], rule exI [of _ 2], rule exI [of _ 25], simp add: v)
      (rule exI [of _ 2024], rule exI [of _ 3], rule exI [of _ 5], simp add: v)
  moreover have j: "date_to_julian 20240225 = 2460366" "date_to_julian 20240305 = 2460375"
    by (simp_all add: date_to_julian_def Let_def)
  ultimately show "rd_ok february" "rd_rounds february = 4"
    by (simp_all add: rd_ok_def february_def rd_rounds_def step_rounds_def)
qed

theorem repeat_date_runs_witness:
  "rd_value (fst ((on_pair RepeatDate_increment ^^ 2) (on_pair RepeatDate_reset
     (february, \<lparr>ecf_server = True, ecf_state_change_no = 0, ecf_modify_change_no = 0\<rparr>)))) = 20240302"
proof -
  have "date_to_julian 20240225 = 2460366" by (simp add: date_to_julian_def Let_def)
  then have "julian_to_date (date_to_julian (rd_start february) + int 2 * rd_delta february) = 20240302"
    by (simp add: february_def julian_to_date_def Let_def)
  with repeat_date_runs [OF february_ok(1), of 2] february_ok(2) show ?thesis by simp
qed

text \<open>An integer repeat with a non-zero step runs over \<open>start, start + delta, ...\<close> and is valid for
  exactly as many rounds as there are such values up to the end (down to it, for a negative step).\<close>

theorem repeat_integer_runs:
  fixes g :: ecf
  assumes "ri_delta r \<noteq> 0" "k \<le> step_rounds (ri_start r) (ri_end r) (ri_delta r)"
  defines "x \<equiv> (on_pair RepeatInteger_increment ^^ k) (on_pair RepeatInteger_reset (r, g))"
  shows "ri_value (fst x) = ri_start r + int k * ri_delta r \<and>
    (RepeatInteger_valid (fst x) \<longleftrightarrow> k < step_rounds (ri_start r) (ri_end r) (ri_delta r))"
proof -
  have at: "ri_at x k" and v: "RepeatInteger_valid (fst x) \<longleftrightarrow> k < step_rounds (ri_start r) (ri_end r) (ri_delta r)"
    using rinteger.run_at [of "(r, g)" k] rinteger.run_valid [of "(r, g)" k] assms by simp_all
  have "ri_start (fst ((on_pair RepeatInteger_increment ^^ j) (on_pair RepeatInteger_reset (r, g)))) = ri_start r \<and>
      ri_delta (fst ((on_pair RepeatInteger_increment ^^ j) (on_pair RepeatInteger_reset (r, g)))) = ri_delta r" for j
    by (induction j) (simp_all add: on_pair_def RepeatInteger_reset_def RepeatInteger_increment_def split: prod.split)
  then have "ri_start (fst x) = ri_start r" "ri_delta (fst x) = ri_delta r" by (simp_all add: x_def)
  with at v show ?thesis by (simp add: ri_at_def)
qed

theorem repeat_integer_runs_witness:
  "\<not> RepeatInteger_valid (fst ((on_pair RepeatInteger_increment ^^ 4) (on_pair RepeatInteger_reset
     (\<lparr>ri_name = ''HOUR'', ri_start = 6, ri_end = 24, ri_delta = 6, ri_value = 12, ri_state_change_no = 0\<rparr>,
      \<lparr>ecf_server = True, ecf_state_change_no = 0, ecf_modify_change_no = 0\<rparr>))))"
  using repeat_integer_runs [of "\<lparr>ri_name = ''HOUR'', ri_start = 6, ri_end = 24, ri_delta = 6, ri_value = 12, ri_state_change_no = 0\<rparr>" 4]
  by (simp add: step_rounds_def)

text \<open>A step of zero, which \<open>RepeatDate\<close> refuses, is accepted by \<open>RepeatInteger\<close>: a repeat whose
  start is not below its end then never becomes invalid, so its node repeats for ever.\<close>

theorem repeat_integer_zero_step:
  assumes "RepeatInteger v start en 0 = Inr r" "en \<le> start"
  shows "RepeatInteger_valid (fst ((on_pair RepeatInteger_increment ^^ k) (on_pair RepeatInteger_reset (r, g))))"
proof -
  have r: "ri_start r = start" "ri_end r = en" "ri_delta r = 0" using assms(1) by (auto simp: RepeatInteger_def split: if_splits)
  define x where "x j = (on_pair RepeatInteger_increment ^^ j) (on_pair RepeatInteger_reset (r, g))" for j
  have "ri_value (fst (x j)) = start \<and> ri_delta (fst (x j)) = 0 \<and> ri_end (fst (x j)) = en" for j
    by (induction j) (simp_all add: x_def r on_pair_def RepeatInteger_reset_def RepeatInteger_increment_def split: prod.split)
  then show ?thesis using assms(2) unfolding x_def by (simp add: RepeatInteger_valid_def)
qed

theorem repeat_integer_zero_step_witness:
  "\<exists>r. RepeatInteger ''N'' 5 5 0 = Inr r \<and>
     RepeatInteger_valid (fst ((on_pair RepeatInteger_increment ^^ 1000) (on_pair RepeatInteger_reset
       (r, \<lparr>ecf_server = True, ecf_state_change_no = 0, ecf_modify_change_no = 0\<rparr>))))"
proof -
  obtain r where r: "RepeatInteger ''N'' 5 5 0 = Inr r"
    by (simp add: RepeatInteger_def valid_name_def ALPHANUMERIC_UNDERSCORE_def VALID_NODE_CHARS_def)
  with repeat_integer_zero_step [OF r] show ?thesis by blast
qed

text \<open>The repeats over a list (enumerated, string and datelist) visit its elements in order, each
  once: after \<open>k\<close> increments the repeat shows element \<open>k\<close>, it is valid exactly while \<open>k\<close> is an index of
  the list, and past the end it keeps showing the last element.\<close>

theorem repeat_list_runs:
  fixes g :: ecf
  assumes "k \<le> length (re_enums r)" "re_enums r \<noteq> []"
    and "j \<le> length (rl_list l)" "rl_list l \<noteq> []"
  defines "x \<equiv> fst ((on_pair RepeatEnumerated_increment ^^ k) (on_pair RepeatEnumerated_reset (r, g)))"
    and "y \<equiv> fst ((on_pair RepeatDateList_increment ^^ j) (on_pair RepeatDateList_reset (l, g)))"
  shows "(RepeatEnumerated_valid x \<longleftrightarrow> k < length (re_enums r)) \<and>
    RepeatEnumerated_valueAsString x = re_enums r ! (if k < length (re_enums r) then k else length (re_enums r) - 1) \<and>
    RepeatString_valueAsString x = RepeatEnumerated_valueAsString x \<and>
    (RepeatDateList_valid y \<longleftrightarrow> j < length (rl_list l)) \<and>
    RepeatDateList_last_valid_value y = rl_list l ! (if j < length (rl_list l) then j else length (rl_list l) - 1)"
proof -
  have ex: "re_enums (fst ((on_pair RepeatEnumerated_increment ^^ k) (on_pair RepeatEnumerated_reset (r, g)))) = re_enums r" for k
    by (induction k) (simp_all add: on_pair_def RepeatEnumerated_reset_def RepeatEnumerated_increment_def split: prod.split)
  have ly: "rl_list (fst ((on_pair RepeatDateList_increment ^^ k) (on_pair RepeatDateList_reset (l, g)))) = rl_list l" for k
    by (induction k) (simp_all add: rl_list_kept)
  have x: "re_enums x = re_enums r" "re_index x = int k"
    using ex renum.run_at [where r = "(r, g)" and k = k] assms(1) by (simp_all add: x_def re_at_def)
  have y: "rl_list y = rl_list l" "rl_index y = int j"
    using ly rdatelist.run_at [of "(l, g)" j] assms(3,4) by (simp_all add: y_def rl_at_def)
  have n: "nat (int (length (re_enums r)) - 1) = length (re_enums r) - 1" by simp
  show ?thesis
    using x y assms(1-4) n
    by (auto simp: RepeatEnumerated_valid_def RepeatEnumerated_valueAsString_def RepeatString_valueAsString_def
        RepeatString_last_valid_value_def RepeatDateList_valid_def RepeatDateList_last_valid_value_def)
qed

theorem repeat_list_runs_witness:
  "RepeatEnumerated_valueAsString (fst ((on_pair RepeatEnumerated_increment ^^ 1) (on_pair RepeatEnumerated_reset
     (\<lparr>re_name = ''E'', re_enums = [''red'', ''green''], re_index = 0, re_state_change_no = 0\<rparr>,
      \<lparr>ecf_server = True, ecf_state_change_no = 0, ecf_modify_change_no = 0\<rparr>)))) = ''green''"
  using repeat_list_runs [of 1 "\<lparr>re_name = ''E'', re_enums = [''red'', ''green''], re_index = 0, re_state_change_no = 0\<rparr>"
      0 "\<lparr>rl_name = ''D'', rl_list = [20240101], rl_index = 0, rl_state_change_no = 0\<rparr>"
      "\<lparr>ecf_server = True, ecf_state_change_no = 0, ecf_modify_change_no = 0\<rparr>"] by simp

end
