(* ===== verification/Zombie_Attr.thy ===== *)
theory Zombie_Attr
  imports States
begin

text \<open>
  Zombies are jobs that talk to the server with the wrong password, process or state: \<open>ZombieAttr\<close>, the attribute
  of a node that says what to do with them, with its text form, and \<open>Zombie\<close>, what the server remembers of one
  (\<open>ANattr/src\<close>); the actions come from \<open>User\<close> (\<open>ACore/src\<close>).
\<close>

section \<open>Actions\<close>

datatype User_Action = UA_FOB | UA_FAIL | UA_ADOPT | UA_REMOVE | UA_BLOCK | UA_KILL

fun User_to_string :: "User_Action \<Rightarrow> string" where
  "User_to_string UA_FOB = ''fob''"
| "User_to_string UA_FAIL = ''fail''"
| "User_to_string UA_ADOPT = ''adopt''"
| "User_to_string UA_REMOVE = ''remove''"
| "User_to_string UA_BLOCK = ''block''"
| "User_to_string UA_KILL = ''kill''"

definition valid_user_action :: "string \<Rightarrow> bool" where
  "valid_user_action str = list_ex (\<lambda>x. str = x) [''fob'', ''fail'', ''adopt'', ''remove'', ''block'', ''kill'']"

definition user_action :: "string \<Rightarrow> User_Action" where
  "user_action str =
     (if str = ''fob'' then UA_FOB
      else if str = ''fail'' then UA_FAIL
      else if str = ''adopt'' then UA_ADOPT
      else if str = ''remove'' then UA_REMOVE
      else if str = ''block'' then UA_BLOCK
      else if str = ''kill'' then UA_KILL
      else UA_BLOCK)"

lemma user_action_text [simp]: "user_action (User_to_string a) = a" "valid_user_action (User_to_string a)"
  by (cases a; simp add: user_action_def valid_user_action_def)+

section \<open>\<open>ZombieAttr\<close>\<close>

record zombie_attr =
  za_child_cmds :: "CmdType list"
  za_zombie_type :: ZombieType
  za_action :: User_Action
  za_zombie_lifetime :: int

definition default_ecf_zombie_life_time :: int where "default_ecf_zombie_life_time = 3600"
definition default_user_zombie_life_time :: int where "default_user_zombie_life_time = 300"
definition default_path_zombie_life_time :: int where "default_path_zombie_life_time = 900"
definition minimum_zombie_life_time :: int where "minimum_zombie_life_time = 60"

lemmas zombie_life_times =
  default_ecf_zombie_life_time_def default_user_zombie_life_time_def default_path_zombie_life_time_def
  minimum_zombie_life_time_def

definition ZombieAttr_EMPTY :: zombie_attr where
  "ZombieAttr_EMPTY = \<lparr>za_child_cmds = [], za_zombie_type = ZT_NOT_SET, za_action = UA_BLOCK, za_zombie_lifetime = 0\<rparr>"

definition ZombieAttr_empty :: "zombie_attr \<Rightarrow> bool" where
  "ZombieAttr_empty z \<longleftrightarrow> za_zombie_type z = ZT_NOT_SET"

definition ZombieAttr :: "ZombieType \<Rightarrow> CmdType list \<Rightarrow> User_Action \<Rightarrow> int \<Rightarrow> zombie_attr res" where
  "ZombieAttr t c a zombie_lifetime =
     (let z = (\<lambda>n. Inr \<lparr>za_child_cmds = c, za_zombie_type = t, za_action = a, za_zombie_lifetime = n\<rparr>)
      in if zombie_lifetime \<le> 0
         then (case t of
                 ZT_USER \<Rightarrow> z default_user_zombie_life_time
               | ZT_PATH \<Rightarrow> z default_path_zombie_life_time
               | ZT_NOT_SET \<Rightarrow> Inl (Assert_failed ''ZombieAttr::ZombieAttr'')
               | _ \<Rightarrow> z default_ecf_zombie_life_time)
         else if zombie_lifetime < minimum_zombie_life_time then z minimum_zombie_life_time
         else z zombie_lifetime)"

text \<open>An action that is limited to some child commands holds for them only: the six queries \<open>fob\<close>, \<open>fail\<close>, \<open>adopt\<close>,
  \<open>remove\<close>, \<open>block\<close> and \<open>kill\<close> are one loop for the six actions.\<close>

definition za_acts :: "User_Action \<Rightarrow> zombie_attr \<Rightarrow> CmdType \<Rightarrow> bool" where
  "za_acts a z cmd =
     (if za_action z \<noteq> a then False
      else if za_child_cmds z = [] then True
      else list_ex (\<lambda>i. i = cmd) (za_child_cmds z))"

definition get_default_attr :: "ZombieType \<Rightarrow> zombie_attr" where
  "get_default_attr zt =
     \<lparr>za_child_cmds = [], za_zombie_type = (if zt = ZT_NOT_SET then ZT_ECF else zt), za_action = UA_BLOCK,
      za_zombie_lifetime = (case zt of ZT_USER \<Rightarrow> default_user_zombie_life_time | ZT_PATH \<Rightarrow> default_path_zombie_life_time
                                     | _ \<Rightarrow> default_ecf_zombie_life_time)\<rparr>"

definition ZombieAttr_write :: "zombie_attr \<Rightarrow> string" where
  "ZombieAttr_write z =
     ''zombie '' @ ZombieType_to_string (za_zombie_type z) @ '':'' @ User_to_string (za_action z) @ '':'' @
     CmdTypes_to_string (za_child_cmds z) @ '':'' @ string_of_int (za_zombie_lifetime z)"

text \<open>\<open>tokenise\<close> is \<open>boost::tokenizer\<close> with the separator ":" and \<open>keep_empty_tokens\<close>. What the code relies on is that it
  gives back the parts of a text that has been put together with colons, empty parts included.\<close>

fun with_sep :: "'a \<Rightarrow> 'a list \<Rightarrow> 'a list" where
  "with_sep c (x # y # zs) = x # c # with_sep c (y # zs)"
| "with_sep c xs = xs"

definition keeps_tokens :: "(string \<Rightarrow> string list) \<Rightarrow> bool" where
  "keeps_tokens tokenise \<longleftrightarrow>
     (\<forall>ts. 2 \<le> length ts \<longrightarrow> (\<forall>t\<in>set ts. CHR '':'' \<notin> set t) \<longrightarrow> tokenise (concat (with_sep '':'' ts)) = ts)"

definition ZombieAttr_create :: "(string \<Rightarrow> string list) \<Rightarrow> string \<Rightarrow> zombie_attr res" where
  "ZombieAttr_create tokenise string_to_parse =
     (let tokens = tokenise string_to_parse;
          tok = (\<lambda>i. if i < length tokens then tokens ! i else [])
      in if length tokens < 2 then Inl (Runtime_error ''ZombieAttr::create failed: Invalid zombie type'')
         else if length tokens > 4 then Inl (Runtime_error ''ZombieAttr::create failed: Invalid zombie tokens'')
         else if \<not> valid_zombie_type (tok 0) then Inl (Runtime_error ''ZombieAttr::create failed: Invalid zombie type'')
         else if tok 1 \<noteq> [] \<and> \<not> valid_user_action (tok 1)
         then Inl (Runtime_error ''ZombieAttr::create failed: Invalid user action'')
         else if tok 2 \<noteq> [] \<and> \<not> valid_child_cmds (tok 2)
         then Inl (Runtime_error ''ZombieAttr::create failed: Invalid child type'')
         else case (if tok 3 = [] then Some (- 1) else lexical_cast_int (tok 3)) of
                None \<Rightarrow> Inl (Runtime_error ''ZombieAttr::create failed: Zombie life time must be convertible to an integer'')
              | Some zombie_lifetime \<Rightarrow>
                  if tok 1 = [] \<and> zombie_lifetime = - 1
                  then Inl (Runtime_error ''ZombieAttr::create failed: User Action or lifetime must be specified'')
                  else res_bind (child_cmds (tok 2)) (\<lambda>cmds.
                         ZombieAttr (zombie_type (tok 0)) cmds (user_action (tok 1)) zombie_lifetime))"

section \<open>\<open>Zombie\<close>\<close>

record zombie =
  zo_user_action :: User_Action
  zo_try_no :: int
  zo_duration :: int
  zo_calls :: int
  zo_zombie_type :: ZombieType
  zo_last_child_cmd :: CmdType
  zo_path_to_task :: string
  zo_jobs_password :: string
  zo_process_or_remote_id :: string
  zo_user_cmd :: string
  zo_host :: string
  zo_attr :: zombie_attr
  zo_user_action_set :: bool
  zo_creation_time :: int

definition Zombie ::
    "int \<Rightarrow> ZombieType \<Rightarrow> CmdType \<Rightarrow> zombie_attr \<Rightarrow> string \<Rightarrow> string \<Rightarrow> string \<Rightarrow> int \<Rightarrow> string \<Rightarrow> string \<Rightarrow> zombie" where
  "Zombie now zt cmd attr pathToTask jobsPassword rid try_no host user_cmd =
     \<lparr>zo_user_action = UA_BLOCK, zo_try_no = try_no, zo_duration = 0, zo_calls = 0, zo_zombie_type = zt, zo_last_child_cmd = cmd,
      zo_path_to_task = pathToTask, zo_jobs_password = jobsPassword, zo_process_or_remote_id = rid, zo_user_cmd = user_cmd,
      zo_host = host, zo_attr = attr, zo_user_action_set = False, zo_creation_time = now\<rparr>"

definition Zombie_empty :: "zombie \<Rightarrow> bool" where
  "Zombie_empty z \<longleftrightarrow> zo_path_to_task z = []"

text \<open>\<open>fob\<close>, \<open>fail\<close>, \<open>adopt\<close>, \<open>block\<close>, \<open>remove\<close> and \<open>kill\<close>: what the user has set comes before the attribute.\<close>

definition zo_acts :: "User_Action \<Rightarrow> zombie \<Rightarrow> bool" where
  "zo_acts a z =
     (if zo_user_action_set z then zo_user_action z = a else za_acts a (zo_attr z) (zo_last_child_cmd z))"

text \<open>\<open>set_fob\<close>, \<open>set_fail\<close>, \<open>set_adopt\<close>, \<open>set_block\<close> and \<open>set_kill\<close>.\<close>

definition zo_set_action :: "User_Action \<Rightarrow> zombie \<Rightarrow> zombie" where
  "zo_set_action a z = z\<lparr>zo_user_action := a, zo_user_action_set := True\<rparr>"

definition Zombie_user_action :: "zombie \<Rightarrow> User_Action" where
  "Zombie_user_action z =
     (if zo_acts UA_FOB z then UA_FOB
      else if zo_acts UA_BLOCK z then UA_BLOCK
      else if zo_acts UA_FAIL z then UA_FAIL
      else if zo_acts UA_REMOVE z then UA_REMOVE
      else if zo_acts UA_KILL z then UA_KILL
      else if zo_acts UA_ADOPT z then UA_ADOPT
      else UA_BLOCK)"

definition user_action_str :: "zombie \<Rightarrow> string" where
  "user_action_str z = (if zo_user_action_set z then ''manual-'' else ''auto-'') @ User_to_string (Zombie_user_action z)"

definition allowed_age :: "zombie \<Rightarrow> int" where
  "allowed_age z = za_zombie_lifetime (zo_attr z)"

definition zombie_explanation :: "zombie \<Rightarrow> string" where
  "zombie_explanation z =
     (case zo_zombie_type z of
        ZT_USER \<Rightarrow> ''Created by user action('' @ zo_user_cmd z @ '')''
      | ZT_PATH \<Rightarrow> ''Task not found. Nodes replaced whilst jobs were running''
      | ZT_ECF \<Rightarrow> ''Two init commands or task complete or aborted but receives another child cmd''
      | ZT_ECF_PID \<Rightarrow> ''PID miss-match, password matches. Job scheduled twice. Check submitter''
      | ZT_ECF_PID_PASSWD \<Rightarrow> ''Both PID and password miss-match. Re-queue & submit of active job?''
      | ZT_ECF_PASSWD \<Rightarrow> ''Password miss-match, PID matches, system has re-cycled PID or hacked job file?''
      | ZT_NOT_SET \<Rightarrow> [])"

lemma zo_acts_set [simp]: "zo_acts a (zo_set_action b z) \<longleftrightarrow> a = b"
  by (auto simp: zo_acts_def zo_set_action_def)

text \<open>At most one action holds, and \<open>user_action\<close> finds it.\<close>

lemma zo_acts_unique: "zo_acts a z \<Longrightarrow> zo_acts b z \<Longrightarrow> a = b"
  by (auto simp: zo_acts_def za_acts_def split: if_splits)

lemma Zombie_user_action_acts: "zo_acts a z \<Longrightarrow> Zombie_user_action z = a"
  using zo_acts_unique [of a z] by (cases a) (auto simp: Zombie_user_action_def)

section \<open>Text form\<close>

text \<open>What the constructors give.\<close>

definition zombie_attr_ok :: "zombie_attr \<Rightarrow> bool" where
  "zombie_attr_ok z \<longleftrightarrow> za_zombie_type z \<noteq> ZT_NOT_SET \<and> minimum_zombie_life_time \<le> za_zombie_lifetime z"

lemma ZombieAttr_ok: "ZombieAttr t c a n = Inr z \<Longrightarrow> t \<noteq> ZT_NOT_SET \<Longrightarrow> zombie_attr_ok z \<and> za_zombie_type z = t"
  by (auto simp: ZombieAttr_def zombie_attr_ok_def Let_def zombie_life_times split: if_splits ZombieType.splits)

lemma valid_zombie_type_set: "valid_zombie_type s \<Longrightarrow> zombie_type s \<noteq> ZT_NOT_SET"
  by (auto simp: valid_zombie_type_def zombie_type_def split: if_splits)

lemma default_attr_ok: "zombie_attr_ok (get_default_attr zt)"
  by (cases zt) (simp_all add: get_default_attr_def zombie_attr_ok_def zombie_life_times)

lemma zombie_texts_no_colon:
  "CHR '':'' \<notin> set (ZombieType_to_string t)" "CHR '':'' \<notin> set (User_to_string a)" "CHR '':'' \<notin> set (CmdTypes_to_string cs)"
  "CHR '':'' \<notin> set (string_of_int i)"
proof -
  have c: "CHR '':'' \<notin> set (CmdType_to_string c)" for c by (cases c) simp_all
  show "CHR '':'' \<notin> set (ZombieType_to_string t)" by (cases t) simp_all
  show "CHR '':'' \<notin> set (User_to_string a)" by (cases a) simp_all
  show "CHR '':'' \<notin> set (CmdTypes_to_string cs)" using c by (cases cs) auto
  show "CHR '':'' \<notin> set (string_of_int i)"
    using set_string_of_nat_digits [of "nat i"] set_string_of_nat_digits [of "nat (- i)"]
    by (auto simp: string_of_int_def)
qed

lemma User_to_string_not_Nil: "User_to_string a \<noteq> []"
  by (cases a) simp_all

text \<open>C40. Every zombie attribute that the code makes, from a text or as the default of a type, is well formed: it has a
  type, and a life time of at least a minute.\<close>

theorem zombie_attr_well_formed:
  "(ZombieAttr_create tokenise s = Inr z \<longrightarrow> zombie_attr_ok z) \<and> zombie_attr_ok (get_default_attr zt) \<and>
   (t \<noteq> ZT_NOT_SET \<longrightarrow> (\<exists>z. ZombieAttr t c a n = Inr z \<and> zombie_attr_ok z))"
proof -
  have "zombie_attr_ok z" if "ZombieAttr_create tokenise s = Inr z"
    using that ZombieAttr_ok [OF _ valid_zombie_type_set]
    by (auto simp: ZombieAttr_create_def Let_def res_bind_eq_Inr split: if_splits option.splits)
  moreover have "\<exists>z. ZombieAttr t c a n = Inr z" if "t \<noteq> ZT_NOT_SET"
    using that by (cases t) (simp_all add: ZombieAttr_def Let_def)
  ultimately show ?thesis using default_attr_ok ZombieAttr_ok by blast
qed

text \<open>A tokeniser with this behaviour.\<close>

fun split_keep :: "char \<Rightarrow> string \<Rightarrow> string list" where
  "split_keep c [] = [[]]"
| "split_keep c (x # xs) =
     (if x = c then [] # split_keep c xs
      else case split_keep c xs of [] \<Rightarrow> [[x]] | t # ts \<Rightarrow> (x # t) # ts)"

lemma split_keep_plain: "c \<notin> set t \<Longrightarrow> split_keep c t = [t]"
  by (induction t) auto

lemma split_keep_append: "c \<notin> set t \<Longrightarrow> split_keep c (t @ c # s) = t # split_keep c s"
  by (induction t) auto

lemma split_keep_joined:
  "ts \<noteq> [] \<Longrightarrow> (\<forall>t\<in>set ts. c \<notin> set t) \<Longrightarrow> split_keep c (concat (with_sep [c] ts)) = ts"
  by (induction ts rule: induct_list012) (auto simp: split_keep_plain split_keep_append)

lemma split_keep_keeps: "keeps_tokens (split_keep (CHR '':''))"
  unfolding keeps_tokens_def by (intro allI impI split_keep_joined) auto

theorem zombie_attr_well_formed_witness:
  "\<exists>z. ZombieAttr_create (split_keep (CHR '':'')) ''user:fob::10'' = Inr z \<and> za_zombie_lifetime z = 60 \<and> zombie_attr_ok z"
proof -
  have "ZombieAttr_create (split_keep (CHR '':'')) ''user:fob::10'' =
      Inr \<lparr>za_child_cmds = [], za_zombie_type = ZT_USER, za_action = UA_FOB, za_zombie_lifetime = 60\<rparr>"
    by code_simp
  with zombie_attr_well_formed show ?thesis by fastforce
qed

text \<open>A zombie attribute is read back from the line of the definition file it is written as.\<close>

theorem zombie_attr_write_create:
  assumes "keeps_tokens tokenise" "zombie_attr_ok z" "is_int32 (za_zombie_lifetime z)"
  shows "\<exists>s. ZombieAttr_write z = ''zombie '' @ s \<and> ZombieAttr_create tokenise s = Inr z"
proof -
  let ?ts = "[ZombieType_to_string (za_zombie_type z), User_to_string (za_action z), CmdTypes_to_string (za_child_cmds z),
    string_of_int (za_zombie_lifetime z)]"
  let ?s = "?ts ! 0 @ '':'' @ ?ts ! 1 @ '':'' @ ?ts ! 2 @ '':'' @ ?ts ! 3"
  have "concat (with_sep '':'' ?ts) = ?s" by simp
  moreover have "tokenise (concat (with_sep '':'' ?ts)) = ?ts"
    using assms(1) unfolding keeps_tokens_def by (elim allE [of _ ?ts] impE) (simp_all add: zombie_texts_no_colon)
  ultimately have "tokenise ?s = ?ts" by simp
  moreover have "valid_zombie_type (ZombieType_to_string (za_zombie_type z))"
    using assms(2) by (cases "za_zombie_type z") (simp_all add: valid_zombie_type_def zombie_attr_ok_def)
  moreover have "zombie_type (ZombieType_to_string (za_zombie_type z)) = za_zombie_type z"
    using zombietype.of_to [of "za_zombie_type z"] by simp
  moreover have "string_of_int (za_zombie_lifetime z) \<noteq> []" by (simp add: string_of_int_def string_of_nat_not_Nil)
  ultimately have "ZombieAttr_create tokenise ?s = Inr z"
    using assms
    by (simp add: ZombieAttr_create_def Let_def lexical_cast_string_of_int child_cmds_def valid_child_cmds_def split_CmdTypes
        res_map_child_cmd list_all_iff childcmd.valid_to_text User_to_string_not_Nil ZombieAttr_def zombie_attr_ok_def zombie_life_times)
  then show ?thesis by (intro exI [of _ ?s]) (simp add: ZombieAttr_write_def)
qed

theorem zombie_attr_write_create_witness:
  "\<exists>s. ZombieAttr_write \<lparr>za_child_cmds = [CH_INIT, CH_ABORT], za_zombie_type = ZT_ECF_PID, za_action = UA_ADOPT, za_zombie_lifetime = 120\<rparr>
     = ''zombie '' @ s \<and>
   ZombieAttr_create (split_keep (CHR '':'')) s = Inr \<lparr>za_child_cmds = [CH_INIT, CH_ABORT], za_zombie_type = ZT_ECF_PID, za_action = UA_ADOPT, za_zombie_lifetime = 120\<rparr>"
  by (rule zombie_attr_write_create) (simp_all add: split_keep_keeps zombie_attr_ok_def zombie_life_times is_int32_def INT_MIN_def INT_MAX_def)

end
