(* ===== verification/Auto_Attrs.thy ===== *)
theory Auto_Attrs
  imports Time_Attrs
begin

text \<open>
  \<open>AutoCancelAttr\<close> and \<open>AutoArchiveAttr\<close> (\<open>ANattr/src\<close>): a node that has completed is deleted, or archived, after some
  time, at a time of day, or after some days. The lines of the definition file that give them are read by
  \<open>AutoCancelParser\<close> and \<open>AutoArchiveParser\<close> (\<open>ANode/parser/src\<close>).
\<close>

record auto_cancel =
  ac_time :: time_slot
  ac_relative :: bool
  ac_days :: bool

record auto_archive =
  aa_time :: time_slot
  aa_relative :: bool
  aa_days :: bool
  aa_idle :: bool

text \<open>\<open>TimeSlot(days * 24, 0)\<close>, and the days that are printed.\<close>

definition days_slot :: "int \<Rightarrow> time_slot res" where
  "days_slot d = (if is_int32 (d * 24) then mk_slot (d * 24) 0 else Inl (Undefined_behaviour ''int overflow''))"

definition slot_days :: "time_slot \<Rightarrow> int" where
  "slot_days ts = (if hour ts < 0 then - (- hour ts div 24) else hour ts div 24)"

definition AutoCancelAttr_slot :: "time_slot \<Rightarrow> bool \<Rightarrow> auto_cancel" where
  "AutoCancelAttr_slot ts relative = \<lparr>ac_time = ts, ac_relative = relative, ac_days = False\<rparr>"

definition AutoCancelAttr_days :: "int \<Rightarrow> auto_cancel res" where
  "AutoCancelAttr_days d =
     res_bind (days_slot d) (\<lambda>ts. Inr \<lparr>ac_time = ts, ac_relative = True, ac_days = True\<rparr>)"

definition AutoArchiveAttr_slot :: "time_slot \<Rightarrow> bool \<Rightarrow> bool \<Rightarrow> auto_archive" where
  "AutoArchiveAttr_slot ts relative idle = \<lparr>aa_time = ts, aa_relative = relative, aa_days = False, aa_idle = idle\<rparr>"

definition AutoArchiveAttr_days :: "int \<Rightarrow> bool \<Rightarrow> auto_archive res" where
  "AutoArchiveAttr_days d idle =
     res_bind (days_slot d) (\<lambda>ts. Inr \<lparr>aa_time = ts, aa_relative = True, aa_days = True, aa_idle = idle\<rparr>)"

text \<open>The time that has passed since the state was entered, or the time of day.\<close>

definition AutoCancelAttr_isFree :: "calendar \<Rightarrow> duration \<Rightarrow> auto_cancel \<Rightarrow> bool" where
  "AutoCancelAttr_isFree c suiteDurationAtComplete a =
     (if ac_relative a then cal_duration c - suiteDurationAtComplete \<ge> slot_duration (ac_time a)
      else time_of_day (the (cal_suiteTime c)) \<ge> slot_duration (ac_time a))"

definition AutoArchiveAttr_isFree :: "calendar \<Rightarrow> NState_State \<times> duration \<Rightarrow> auto_archive \<Rightarrow> bool" where
  "AutoArchiveAttr_isFree c st a =
     (let is_valid_state = (fst st = NS_COMPLETE \<or> aa_idle a \<and> (fst st = NS_QUEUED \<or> fst st = NS_ABORTED))
      in if \<not> is_valid_state then False
         else if aa_relative a then cal_duration c - snd st \<ge> slot_duration (aa_time a)
         else time_of_day (the (cal_suiteTime c)) \<ge> slot_duration (aa_time a))"

definition AutoCancelAttr_write :: "auto_cancel \<Rightarrow> string" where
  "AutoCancelAttr_write a =
     ''autocancel '' @
     (if ac_days a then string_of_int (slot_days (ac_time a))
      else (if ac_relative a then ''+'' else []) @ slot_write (ac_time a))"

definition AutoArchiveAttr_write :: "auto_archive \<Rightarrow> string" where
  "AutoArchiveAttr_write a =
     ''autoarchive '' @
     (if aa_days a then string_of_int (slot_days (aa_time a))
      else (if aa_relative a then ''+'' else []) @ slot_write (aa_time a)) @
     (if aa_idle a then '' -i'' else [])"

definition AutoCancelParser_doParse :: "string list \<Rightarrow> auto_cancel res" where
  "AutoCancelParser_doParse lineTokens =
     (if length lineTokens < 2 then Inl (Runtime_error ''AutoCancelParser::doParse: Invalid autocancel :'')
      else if CHR '':'' \<notin> set (lineTokens ! 1)
      then res_bind (theInt (lineTokens ! 1) ''invalid autocancel '') AutoCancelAttr_days
      else res_bind (getTime (lineTokens ! 1) True) (\<lambda>(relative, h, m).
           res_bind (mk_slot h m) (\<lambda>ts. Inr (AutoCancelAttr_slot ts relative))))"

definition has_idle_flag :: "string list \<Rightarrow> bool" where
  "has_idle_flag lineTokens \<longleftrightarrow> length lineTokens \<ge> 3 \<and> lineTokens ! 2 = ''-i''"

definition AutoArchiveParser_doParse :: "string list \<Rightarrow> auto_archive res" where
  "AutoArchiveParser_doParse lineTokens =
     (if length lineTokens < 2 then Inl (Runtime_error ''AutoArchiveParser::doParse: Invalid autoarchive :'')
      else if CHR '':'' \<notin> set (lineTokens ! 1)
      then res_bind (theInt (lineTokens ! 1) ''invalid autoarchive '') (\<lambda>d. AutoArchiveAttr_days d (has_idle_flag lineTokens))
      else res_bind (getTime (lineTokens ! 1) True) (\<lambda>(relative, h, m).
           res_bind (mk_slot h m) (\<lambda>ts. Inr (AutoArchiveAttr_slot ts relative (has_idle_flag lineTokens)))))"

section \<open>Text form\<close>

definition auto_slot_ok :: "bool \<Rightarrow> bool \<Rightarrow> time_slot \<Rightarrow> bool" where
  "auto_slot_ok days relative ts \<longleftrightarrow>
     (if days then relative \<and> minute ts = 0 \<and> 0 \<le> hour ts \<and> hour ts mod 24 = 0 \<and> is_int32 (hour ts)
      else slot_ok ts \<and> hour ts < 24)"

definition auto_text :: "bool \<Rightarrow> bool \<Rightarrow> time_slot \<Rightarrow> string" where
  "auto_text days relative ts = (if days then string_of_int (slot_days ts) else rel_prefix relative (slot_write ts))"

lemma auto_text_token:
  assumes "auto_slot_ok days relative ts"
  shows "set (auto_text days relative ts) \<inter> set [CHR '' '', CHR 0x09] = {}" "auto_text days relative ts \<noteq> []"
    "CHR '':'' \<in> set (auto_text days relative ts) \<longleftrightarrow> \<not> days"
proof -
  have *: "set (auto_text days relative ts) \<inter> set [CHR '' '', CHR 0x09] = {} \<and> auto_text days relative ts \<noteq> [] \<and>
    (CHR '':'' \<in> set (auto_text days relative ts) \<longleftrightarrow> \<not> days)"
  proof (cases days)
    case True
    then show ?thesis using set_string_of_int [of "slot_days ts"] string_of_int_not_Nil [of "slot_days ts"] by (auto simp: auto_text_def)
  next
    case False
    then have ok: "slot_ok ts" "hour ts < 24" using assms by (auto simp: auto_slot_ok_def)
    obtain a b c d where abcd: "pad2 (hour ts) = [a, b]" "pad2 (minute ts) = [c, d]"
      "{a, b, c, d} \<inter> {CHR '':'', CHR ''+'', CHR '' '', CHR 0x09, CHR ''#''} = {}"
      using slot_write_digits(2) [OF ok] by (elim exE conjE) (rule that)
    then have "slot_write ts = [a, b, CHR '':'', c, d]" using slot_write_digits(1) [OF ok] by simp
    with False abcd(3) show ?thesis by (auto simp: auto_text_def rel_prefix_def)
  qed
  then show "set (auto_text days relative ts) \<inter> set [CHR '' '', CHR 0x09] = {}" "auto_text days relative ts \<noteq> []"
    "CHR '':'' \<in> set (auto_text days relative ts) \<longleftrightarrow> \<not> days" by auto
qed

lemma auto_days_back:
  assumes "auto_slot_ok True relative ts"
  shows "theInt (auto_text True relative ts) e = Inr (slot_days ts)" "days_slot (slot_days ts) = Inr ts"
proof -
  have h: "0 \<le> hour ts" "slot_days ts * 24 = hour ts" "is_int32 (hour ts)" "minute ts = 0" using assms by (auto simp: auto_slot_ok_def slot_days_def)
  then have "is_int32 (slot_days ts)" by (auto simp: is_int32_def INT_MIN_def INT_MAX_def)
  then show "theInt (auto_text True relative ts) e = Inr (slot_days ts)" by (simp add: auto_text_def theInt_def lexical_cast_string_of_int)
  show "days_slot (slot_days ts) = Inr ts" using h by (cases ts) (simp add: days_slot_def mk_slot_def)
qed

lemma auto_slot_back:
  assumes "auto_slot_ok False relative ts"
  shows "res_bind (getTime (auto_text False relative ts) True) (\<lambda>(rel, h, m). res_bind (mk_slot h m) (\<lambda>ts. Inr (f ts rel))) = Inr (f ts relative)"
  using late_time_slot [of ts relative] assms
  by (auto simp: auto_slot_ok_def late_time_def auto_text_def case_prod_beta)

text \<open>The auto-cancel and auto-archive attributes are read back from the lines of the definition file they are
  written as, in each of their forms (after a time, at a time of day, after days; when idle).\<close>

theorem auto_attrs_write_parse:
  assumes "auto_slot_ok (ac_days c) (ac_relative c) (ac_time c)" "auto_slot_ok (aa_days a) (aa_relative a) (aa_time a)"
  shows "AutoCancelParser_doParse (split (AutoCancelAttr_write c) [CHR '' '', CHR 0x09]) = Inr c \<and>
    AutoArchiveParser_doParse (split (AutoArchiveAttr_write a) [CHR '' '', CHR 0x09]) = Inr a"
proof -
  let ?d = "[CHR '' '', CHR 0x09]"
  let ?c = "auto_text (ac_days c) (ac_relative c) (ac_time c)" and ?a = "auto_text (aa_days a) (aa_relative a) (aa_time a)"
  have sp: "CHR '' '' \<in> set ?d" by simp
  note ct = auto_text_token [OF assms(1)] and at = auto_text_token [OF assms(2)]
  have w: "AutoCancelAttr_write c = ''autocancel'' @ CHR '' '' # ?c"
    "AutoArchiveAttr_write a = ''autoarchive'' @ CHR '' '' # ?a @ (if aa_idle a then '' -i'' else [])"
    by (simp_all add: AutoCancelAttr_write_def AutoArchiveAttr_write_def auto_text_def rel_prefix_def)
  have n: "set ''autocancel'' \<inter> set ?d = {}" "''autocancel'' \<noteq> ([] :: string)" "set ''autoarchive'' \<inter> set ?d = {}"
    "''autoarchive'' \<noteq> ([] :: string)" "set ''-i'' \<inter> set ?d = {}" "''-i'' \<noteq> ([] :: string)" by simp_all
  have tc: "split (AutoCancelAttr_write c) ?d = [''autocancel'', ?c]"
    unfolding split_eq w tokens_of_cut(1) [OF n(1,2) sp] tokens_of_cut(2) [OF ct(1,2) sp] ..
  have "split (AutoArchiveAttr_write a) ?d = [''autoarchive'', ?a] @ (if aa_idle a then [''-i''] else [])"
    unfolding split_eq w tokens_of_cut(1) [OF n(3,4) sp]
    using tokens_of_cut(1) [OF at(1,2) sp, of "''-i''"] tokens_of_cut(2) [OF at(1,2) sp] tokens_of_cut(2) [OF n(5,6) sp] by simp
  then have ta: "split (AutoArchiveAttr_write a) ?d ! 1 = ?a" "2 \<le> length (split (AutoArchiveAttr_write a) ?d)"
    "has_idle_flag (split (AutoArchiveAttr_write a) ?d) = aa_idle a" by (auto simp: has_idle_flag_def)
  have "AutoCancelParser_doParse (split (AutoCancelAttr_write c) ?d) = Inr c"
    using ct(3) auto_days_back [of "ac_relative c" "ac_time c"] auto_slot_back [of "ac_relative c" "ac_time c" AutoCancelAttr_slot] assms(1)
    by (cases "ac_days c") (auto simp: tc AutoCancelParser_doParse_def AutoCancelAttr_days_def AutoCancelAttr_slot_def auto_slot_ok_def)
  moreover have "AutoArchiveParser_doParse (split (AutoArchiveAttr_write a) ?d) = Inr a"
    using at(3) auto_days_back [of "aa_relative a" "aa_time a"] ta
      auto_slot_back [of "aa_relative a" "aa_time a" "\<lambda>ts rel. AutoArchiveAttr_slot ts rel (aa_idle a)"] assms(2)
    by (cases "aa_days a") (auto simp: AutoArchiveParser_doParse_def AutoArchiveAttr_days_def AutoArchiveAttr_slot_def auto_slot_ok_def)
  ultimately show ?thesis ..
qed

theorem auto_attrs_write_parse_witness:
  "AutoCancelParser_doParse (split (AutoCancelAttr_write \<lparr>ac_time = TimeSlot 48 0, ac_relative = True, ac_days = True\<rparr>) [CHR '' '', CHR 0x09]) =
     Inr \<lparr>ac_time = TimeSlot 48 0, ac_relative = True, ac_days = True\<rparr> \<and>
   AutoArchiveParser_doParse (split (AutoArchiveAttr_write \<lparr>aa_time = TimeSlot 1 30, aa_relative = True, aa_days = False, aa_idle = True\<rparr>)
     [CHR '' '', CHR 0x09]) = Inr \<lparr>aa_time = TimeSlot 1 30, aa_relative = True, aa_days = False, aa_idle = True\<rparr>"
  by (rule auto_attrs_write_parse) (simp_all add: auto_slot_ok_def slot_ok_def is_int32_def INT_MIN_def INT_MAX_def)

end
