(* ===== verification/Node_Tree.thy ===== *)
theory Node_Tree
  imports Node_Attrs Queues Expr_Ast Limits Repeats Clock_Attr Zombie_Attr Auto_Attrs
begin

text \<open>
  The tree of nodes: \<open>Defs\<close>, \<open>Suite\<close>, \<open>Family\<close>, \<open>Task\<close> and \<open>Alias\<close> (\<open>ANode/src\<close>), and the searches by path,
  \<open>Defs::findAbsNode\<close>, \<open>NodeContainer::find_relative_node\<close>, \<open>findRelativeNode\<close> and
  \<open>Node::findReferencedNode\<close>. A node is the members of \<open>class Node\<close> that the modelled operations use and
  the list of its children (\<open>NodeContainer::nodes_\<close>, or \<open>Task::aliases_\<close>). A \<open>Node*\<close> is an address, the
  list of child positions from the suites down; the parent of a node is its address without the last
  position, so that the pointers of the code are always the right ones. Generated variables are a
  list of each node, in the order in which the code searches them.
\<close>

section \<open>The data of a node\<close>

datatype node_kind = K_Suite | K_Family | K_Task | K_Alias

record verify_attr =
  vf_state :: NState_State
  vf_expected :: int
  vf_actual :: int
  vf_state_change_no :: "32 word"

text \<open>The time attributes of a node, and the members of \<open>Submittable\<close> and \<open>Task\<close> (of no meaning in a container).\<close>

record node_times =
  nt_times :: "time_attr list"
  nt_todays :: "today_attr list"
  nt_crons :: "cron_attr list"
  nt_dates :: "date_attr list"
  nt_days :: "day_attr list"

record job_data =
  jb_paswd :: string
  jb_rid :: string
  jb_abr :: string
  jb_tryNo :: int
  jb_state_change_no :: "32 word"
  jb_alias_no :: "32 word"
  jb_alias_change_no :: "32 word"

text \<open>The members of \<open>Suite\<close> (of no meaning in another node).\<close>

record suite_data =
  su_begun :: bool
  su_clock :: "clock_attr option"
  su_cal :: calendar
  su_begun_change_no :: "32 word"
  su_calendar_change_no :: "32 word"

definition no_times :: node_times where
  "no_times = \<lparr>nt_times = [], nt_todays = [], nt_crons = [], nt_dates = [], nt_days = []\<rparr>"

definition no_job :: job_data where
  "no_job = \<lparr>jb_paswd = [], jb_rid = [], jb_abr = [], jb_tryNo = 0, jb_state_change_no = 0,
             jb_alias_no = 0, jb_alias_change_no = 0\<rparr>"

definition no_suite :: suite_data where
  "no_suite = \<lparr>su_begun = False, su_clock = None, su_cal = Calendar_default, su_begun_change_no = 0,
               su_calendar_change_no = 0\<rparr>"

record node_data =
  nd_kind :: node_kind
  nd_name :: string
  nd_st :: NState
  nd_st_time :: int
  nd_sc_rt :: int
  nd_d_st :: DState
  nd_suspended :: bool
  nd_suspended_change_no :: "32 word"
  nd_flag :: flag
  nd_vars :: "variable list"
  nd_gen_vars :: "variable list"
  nd_repeat :: repeat_t
  nd_events :: "event list"
  nd_meters :: "meter list"
  nd_labels :: "label_attr list"
  nd_limits :: "nat list"
  nd_inlimits :: "inlimit list"
  nd_queues :: "queue_attr list"
  nd_verifys :: "verify_attr list"
  nd_zombies :: "zombie_attr list"
  nd_auto_cancel :: "auto_cancel option"
  nd_auto_archive :: "auto_archive option"
  nd_time :: node_times
  nd_late :: "late_attr option"
  nd_trigger :: "expression option"
  nd_complete :: "expression option"
  nd_job :: job_data
  nd_suite :: suite_data

datatype node = Node (ndata: node_data) (kids: "node list")

text \<open>The limits are shared by the nodes that have them and the in-limits that point to them: \<open>nd_limits\<close> has
  their addresses in the store of the definition.\<close>

type_synonym limit_store = "nat \<Rightarrow> limit option"

record defs =
  df_suites :: "node list"
  df_limits :: limit_store
  df_st :: NState
  df_flag :: flag
  df_externs :: "string set"

type_synonym addr = "nat list"

abbreviation node_name :: "node \<Rightarrow> string" where "node_name n \<equiv> nd_name (ndata n)"
abbreviation node_state :: "node \<Rightarrow> NState_State" where "node_state n \<equiv> ns_st (nd_st (ndata n))"

fun node_at :: "node list \<Rightarrow> addr \<Rightarrow> node option" where
  "node_at ns [] = None"
| "node_at ns (i # p) =
     (if i < length ns then (if p = [] then Some (ns ! i) else node_at (kids (ns ! i)) p) else None)"

fun path_names :: "node list \<Rightarrow> addr \<Rightarrow> string list" where
  "path_names ns [] = []"
| "path_names ns (i # p) =
     (if i < length ns then node_name (ns ! i) # path_names (kids (ns ! i)) p else [])"

text \<open>\<open>Node::absNodePath\<close>.\<close>

definition absNodePath :: "defs \<Rightarrow> addr \<Rightarrow> string" where
  "absNodePath d p = createPath (path_names (df_suites d) p)"

section \<open>Searches by name and path\<close>

text \<open>The position of the first child of a name: the loops of \<open>findImmediateChild\<close>,
  \<open>find_immediate_child\<close> and \<open>findSuite\<close>.\<close>

fun child_pos :: "string \<Rightarrow> node list \<Rightarrow> nat option" where
  "child_pos s [] = None"
| "child_pos s (n # ns) = (if node_name n = s then Some 0 else map_option Suc (child_pos s ns))"

definition findImmediateChild :: "string \<Rightarrow> node \<Rightarrow> addr \<Rightarrow> addr option" where
  "findImmediateChild s n p = map_option (\<lambda>i. p @ [i]) (child_pos s (kids n))"

fun find_relative_loop :: "string list \<Rightarrow> node \<Rightarrow> addr \<Rightarrow> addr option" where
  "find_relative_loop [] n p = None"
| "find_relative_loop (s # ss) n p =
     (case child_pos s (kids n) of
        None \<Rightarrow> None
      | Some i \<Rightarrow> if ss = [] then Some (p @ [i]) else find_relative_loop ss (kids n ! i) (p @ [i]))"

text \<open>\<open>find_relative_node\<close> is overridden in \<open>Task\<close> and \<open>Alias\<close>, where it finds nothing.\<close>

definition find_relative_node :: "string list \<Rightarrow> node \<Rightarrow> addr \<Rightarrow> addr option" where
  "find_relative_node pathToNode n p =
     (if nd_kind (ndata n) \<in> {K_Task, K_Alias} then None else find_relative_loop pathToNode n p)"

function findAbsNode_loop :: "node list \<Rightarrow> addr option \<Rightarrow> string_splitter \<Rightarrow> addr option" where
  "findAbsNode_loop suites ret sp =
     (case sp_done sp of
        (True, _) \<Rightarrow> None
      | (False, sp1) \<Rightarrow>
          (case sp_next sp1 of
             (path_token, sp2) \<Rightarrow>
               (case (case ret of
                        None \<Rightarrow> map_option (\<lambda>i. [i]) (child_pos path_token suites)
                      | Some p \<Rightarrow> (case node_at suites p of
                                      None \<Rightarrow> None
                                    | Some n \<Rightarrow> findImmediateChild path_token n p)) of
                  None \<Rightarrow> None
                | Some p \<Rightarrow> if sp_finished sp2 then Some p else findAbsNode_loop suites (Some p) sp2)))"
  by pat_completeness auto
termination
  by (relation "measure (\<lambda>(_, _, sp). sp_measure sp)") (auto intro: sp_next_decreases [OF sym sym])

declare findAbsNode_loop.simps [simp del]

definition findAbsNode :: "defs \<Rightarrow> string \<Rightarrow> addr option" where
  "findAbsNode d pathToNode = findAbsNode_loop (df_suites d) None (StringSplitter pathToNode ''/'')"

definition find_extern :: "defs \<Rightarrow> string \<Rightarrow> string \<Rightarrow> bool" where
  "find_extern d pathToNode node_attr_name =
     (if df_externs d = {} then False
      else if node_attr_name = [] then pathToNode \<in> df_externs d
      else pathToNode @ '':'' @ node_attr_name \<in> df_externs d)"

definition parent :: "addr \<Rightarrow> addr option" where
  "parent p = (if length p \<le> 1 then None else Some (butlast p))"

text \<open>\<open>findRelativeNode\<close>: the result is the node, or the error message (the start of it).\<close>

definition findRelativeNode :: "defs \<Rightarrow> string list \<Rightarrow> addr \<Rightarrow> string + addr" where
  "findRelativeNode d theExtractedPath p =
     (case node_at (df_suites d) p of
        None \<Rightarrow> Inl ''no node''
      | Some n \<Rightarrow>
          if length theExtractedPath = 1 \<and> node_name n = theExtractedPath ! 0 then Inr p
          else case parent p of
            None \<Rightarrow> Inl ''Parent empty. Could not find referenced node''
          | Some pp \<Rightarrow>
              (case node_at (df_suites d) pp of
                 None \<Rightarrow> Inl ''no node''
               | Some pn \<Rightarrow>
                   if length theExtractedPath = 1
                   then (case findImmediateChild (theExtractedPath ! 0) pn pp of
                           Some r \<Rightarrow> Inr r | None \<Rightarrow> Inl ''Could not find node '')
                   else (case find_relative_node theExtractedPath pn pp of
                           Some r \<Rightarrow> Inr r
                         | None \<Rightarrow>
                             (case find_relative_node theExtractedPath n p of
                                Some r \<Rightarrow> Inr r | None \<Rightarrow> Inl ''Could not find node ''))))"

text \<open>The loop over the leading \<open>..\<close>: the remaining path and the node reached.\<close>

fun up_loop :: "string list \<Rightarrow> addr option \<Rightarrow> string list \<times> addr option" where
  "up_loop (s # ss) (Some p) = (if s = ''..'' then up_loop ss (parent p) else (s # ss, Some p))"
| "up_loop ss q = (ss, q)"

text \<open>\<open>Node::findReferencedNode\<close>: the node, if any, and whether an error message was set. A node under
  test is part of a definition.\<close>

definition findReferencedNode :: "defs \<Rightarrow> addr \<Rightarrow> string \<Rightarrow> string \<Rightarrow> addr option \<times> bool" where
  "findReferencedNode d p nodePath extern_obj =
     (if nodePath \<noteq> [] \<and> hd nodePath = CHR ''/''
      then (case findAbsNode d nodePath of
              Some r \<Rightarrow> (Some r, False)
            | None \<Rightarrow>
                if find_extern d nodePath extern_obj
                then (None, NodePath_split nodePath \<noteq> [] \<and>
                            child_pos (NodePath_split nodePath ! 0) (df_suites d) \<noteq> None)
                else (None, True))
      else
        let path = NodePath_split nodePath
        in if path = [] then (None, True)
           else if length path = 1
           then (case findRelativeNode d path p of
                   Inr r \<Rightarrow> (Some r, False)
                 | Inl _ \<Rightarrow> (None, \<not> find_extern d nodePath extern_obj))
           else if path ! 0 \<noteq> ''.'' \<and> path ! 0 \<noteq> ''..'' \<and> find_extern d nodePath extern_obj
           then (None, False)
           else if path ! 0 \<noteq> ''..''
           then (case findRelativeNode d (if path ! 0 = ''.'' then tl path else path) p of
                   Inr r \<Rightarrow> (Some r, False) | Inl _ \<Rightarrow> (None, True))
           else (case up_loop path (parent p) of
                   (rest, Some pp) \<Rightarrow>
                     (case node_at (df_suites d) pp of
                        None \<Rightarrow> (None, True)
                      | Some pn \<Rightarrow> (case find_relative_node rest pn pp of
                                      Some r \<Rightarrow> (Some r, False) | None \<Rightarrow> (None, True)))
                 | (rest, None) \<Rightarrow>
                     (case findAbsNode d (createPath rest) of Some r \<Rightarrow> (Some r, False) | None \<Rightarrow> (None, True))))"

section \<open>One search for all of them\<close>

text \<open>What a well-formed definition is: sibling names are distinct (\<open>addTask\<close>, \<open>addFamily\<close> and \<open>addSuite\<close>
  refuse a second one), names are valid, aliases are leaves, and only tasks have them.\<close>

fun node_ok :: "node \<Rightarrow> bool" where
  "node_ok (Node d ks) =
     (valid_name (nd_name d) \<and> distinct (map node_name ks) \<and>
      (case nd_kind d of
         K_Alias \<Rightarrow> ks = []
       | K_Task \<Rightarrow> list_all (\<lambda>k. nd_kind (ndata k) = K_Alias) ks
       | _ \<Rightarrow> list_all (\<lambda>k. nd_kind (ndata k) \<in> {K_Family, K_Task}) ks) \<and>
      list_all node_ok ks)"

definition nodes_ok :: "node list \<Rightarrow> bool" where
  "nodes_ok ns \<longleftrightarrow> distinct (map node_name ns) \<and> list_all node_ok ns"

definition defs_ok :: "defs \<Rightarrow> bool" where
  "defs_ok d \<longleftrightarrow> nodes_ok (df_suites d) \<and> list_all (\<lambda>n. nd_kind (ndata n) = K_Suite) (df_suites d)"

lemma node_ok_kids: "node_ok n \<Longrightarrow> nodes_ok (kids n)"
  by (cases n) (auto simp: nodes_ok_def)

lemma nodes_ok_nth: "nodes_ok ns \<Longrightarrow> i < length ns \<Longrightarrow> node_ok (ns ! i)"
  by (simp add: nodes_ok_def list_all_length)

text \<open>The search down the tree by names.\<close>

fun find_down :: "node list \<Rightarrow> string list \<Rightarrow> addr option" where
  "find_down ns [] = None"
| "find_down ns (s # ss) =
     (case child_pos s ns of
        None \<Rightarrow> None
      | Some i \<Rightarrow> if ss = [] then Some [i] else map_option (\<lambda>q. i # q) (find_down (kids (ns ! i)) ss))"

lemma child_pos_Some: "child_pos s ns = Some i \<Longrightarrow> i < length ns \<and> node_name (ns ! i) = s"
  by (induction ns arbitrary: i) (auto split: if_splits)

lemma child_pos_nth:
  "distinct (map node_name ns) \<Longrightarrow> i < length ns \<Longrightarrow> child_pos (node_name (ns ! i)) ns = Some i"
proof (induction ns arbitrary: i)
  case (Cons n ns)
  show ?case
  proof (cases i)
    case (Suc j)
    with Cons.prems have "node_name (ns ! j) \<in> set (map node_name ns)" by auto
    with Cons.prems have "node_name n \<noteq> node_name (ns ! j)" by auto
    with Suc Cons.prems Cons.IH [of j] show ?thesis by simp
  qed simp
qed simp

lemma find_down_path_names:
  "nodes_ok ns \<Longrightarrow> node_at ns q = Some n \<Longrightarrow> find_down ns (path_names ns q) = Some q"
proof (induction ns q rule: node_at.induct)
  case (2 ns i q)
  then have i: "i < length ns" by (auto split: if_splits)
  then have c: "child_pos (node_name (ns ! i)) ns = Some i"
    using "2.prems"(1) by (intro child_pos_nth) (simp_all add: nodes_ok_def)
  show ?case
  proof (cases q)
    case (Cons j q')
    with "2.prems" i have at: "node_at (kids (ns ! i)) q = Some n" by simp
    then have "path_names (kids (ns ! i)) q \<noteq> []" using Cons by (auto split: if_splits)
    with "2.IH" [OF i] Cons at i c nodes_ok_nth [OF "2.prems"(1) i] show ?thesis
      by (simp add: node_ok_kids)
  qed (use i c in simp)
qed simp

lemma find_down_sound:
  "find_down ns ss = Some q \<Longrightarrow> (\<exists>n. node_at ns q = Some n) \<and> path_names ns q = ss \<and> length q = length ss"
proof (induction ns ss arbitrary: q rule: find_down.induct)
  case (2 ns s ss)
  then obtain i where c: "child_pos s ns = Some i" by (auto split: option.splits)
  note i = child_pos_Some [OF c]
  show ?case
  proof (cases "ss = []")
    case False
    with "2.prems" c obtain q' where q: "find_down (kids (ns ! i)) ss = Some q'" "q = i # q'" by auto
    from "2.IH" [OF c False q(1)] have ih: "\<exists>n. node_at (kids (ns ! i)) q' = Some n"
      "path_names (kids (ns ! i)) q' = ss" "length q' = length ss" by auto
    with False have "q' \<noteq> []" by auto
    with ih i q(2) show ?thesis by simp
  qed (use "2.prems" c i in auto)
qed simp

lemma find_relative_loop_eq: "find_relative_loop ss n p = map_option (\<lambda>q. p @ q) (find_down (kids n) ss)"
  by (induction ss n p rule: find_relative_loop.induct)
    (auto split: option.splits simp: option.map_comp comp_def)

lemma node_at_append:
  "node_at ns p = Some n \<Longrightarrow> q \<noteq> [] \<Longrightarrow> node_at ns (p @ q) = node_at (kids n) q"
  by (induction ns p rule: node_at.induct) (auto split: if_splits)

lemma path_names_append:
  "node_at ns p = Some n \<Longrightarrow> path_names ns (p @ q) = path_names ns p @ path_names (kids n) q"
  by (induction ns p rule: node_at.induct) (auto split: if_splits)

lemma sp_next_unfinished:
  "sp_next sp = (t, sp2) \<Longrightarrow> \<not> sp_finished sp2 \<Longrightarrow> tokens_of (sp_sep sp2) (sp_rem sp2) \<noteq> []"
  by (auto simp: sp_next_def Let_def tokens_of_Cons_iff split: list.splits if_splits)

definition find_from :: "node list \<Rightarrow> addr option \<Rightarrow> string list \<Rightarrow> addr option" where
  "find_from suites ret ts =
     (case ret of
        None \<Rightarrow> find_down suites ts
      | Some p \<Rightarrow> (case node_at suites p of
                     None \<Rightarrow> None
                   | Some n \<Rightarrow> map_option (\<lambda>q. p @ q) (find_down (kids n) ts)))"

lemma find_from_Cons:
  "find_from suites ret (t # ts) =
     (case (case ret of
              None \<Rightarrow> map_option (\<lambda>i. [i]) (child_pos t suites)
            | Some p \<Rightarrow> (case node_at suites p of None \<Rightarrow> None | Some n \<Rightarrow> findImmediateChild t n p)) of
        None \<Rightarrow> None
      | Some p \<Rightarrow> if ts = [] then Some p else find_from suites (Some p) ts)"
proof (cases ret)
  case None
  show ?thesis
  proof (cases "child_pos t suites")
    case (Some i)
    then have "node_at suites [i] = Some (suites ! i)" using child_pos_Some [OF Some] by simp
    with None Some show ?thesis
      by (cases "find_down (kids (suites ! i)) ts") (simp_all add: find_from_def)
  qed (simp add: None find_from_def)
next
  case (Some p)
  show ?thesis
  proof (cases "node_at suites p")
    case (Some n)
    show ?thesis
    proof (cases "child_pos t (kids n)")
      case (Some i)
      then have "node_at suites (p @ [i]) = Some (kids n ! i)"
        using child_pos_Some [OF Some] \<open>node_at suites p = Some n\<close> by (simp add: node_at_append)
      with Some \<open>node_at suites p = Some n\<close> \<open>ret = Some p\<close> show ?thesis
        by (cases "find_down (kids (kids n ! i)) ts") (simp_all add: find_from_def findImmediateChild_def)
    qed (simp add: \<open>ret = Some p\<close> find_from_def findImmediateChild_def Some)
  qed (simp add: \<open>ret = Some p\<close> find_from_def)
qed

lemma find_from_Nil [simp]: "find_from suites ret [] = None"
  by (auto simp: find_from_def split: option.splits)

lemma findAbsNode_loop_eq:
  "\<not> sp_finished sp \<Longrightarrow>
     findAbsNode_loop suites ret sp = find_from suites ret (tokens_of (sp_sep sp) (sp_rem sp))"
proof (induction suites ret sp rule: findAbsNode_loop.induct)
  case (1 suites ret sp)
  obtain b sp1 where d: "sp_done sp = (b, sp1)" by fastforce
  obtain t sp2 where n: "sp_next sp1 = (t, sp2)" by fastforce
  note dt = sp_done_tokens [OF d "1.prems"]
  show ?case
  proof (cases b)
    case True
    with d dt show ?thesis by (subst findAbsNode_loop.simps) simp
  next
    case False
    let ?step = "case ret of
              None \<Rightarrow> map_option (\<lambda>i. [i]) (child_pos t suites)
            | Some p \<Rightarrow> (case node_at suites p of None \<Rightarrow> None | Some n \<Rightarrow> findImmediateChild t n p)"
    from False dt n have tok: "tokens_of (sp_sep sp) (sp_rem sp) =
        t # (if sp_finished sp2 then [] else tokens_of (sp_sep sp2) (sp_rem sp2))"
      using sp_next_tokens [of sp1 t sp2] by simp
    have unfold: "findAbsNode_loop suites ret sp =
        (case ?step of None \<Rightarrow> None
         | Some p \<Rightarrow> if sp_finished sp2 then Some p else findAbsNode_loop suites (Some p) sp2)"
      using d n False by (subst findAbsNode_loop.simps) simp
    show ?thesis
    proof (cases ?step)
      case None
      then show ?thesis by (simp only: unfold tok find_from_Cons option.case)
    next
      case (Some p)
      show ?thesis
      proof (cases "sp_finished sp2")
        case True
        with Some show ?thesis by (simp only: unfold tok find_from_Cons option.case if_True simp_thms)
      next
        case unfin: False
        with 1(1) [OF d [symmetric] _ n [symmetric] Some unfin] False
        have "findAbsNode_loop suites (Some p) sp2 =
            find_from suites (Some p) (tokens_of (sp_sep sp2) (sp_rem sp2))" by simp
        with Some unfin sp_next_unfinished [OF n unfin] show ?thesis
          by (simp only: unfold tok find_from_Cons option.case if_False)
      qed
    qed
  qed
qed

lemma findAbsNode_eq: "findAbsNode d path = find_down (df_suites d) (NodePath_split path)"
  by (simp add: findAbsNode_def findAbsNode_loop_eq StringSplitter_def find_from_def NodePath_split_def split_eq)

lemma path_names_valid:
  "nodes_ok ns \<Longrightarrow> list_all valid_name (path_names ns q)"
proof (induction ns q rule: path_names.induct)
  case (2 ns i q)
  show ?case
  proof (cases "i < length ns")
    case True
    then have ok: "node_ok (ns ! i)" using nodes_ok_nth [OF "2.prems"] by simp
    then have "valid_name (node_name (ns ! i))" by (cases "ns ! i") simp
    with True ok "2.IH" [OF True] show ?thesis by (simp add: node_ok_kids)
  qed simp
qed simp

lemma split_createPath_names:
  "nodes_ok ns \<Longrightarrow> NodePath_split (createPath (path_names ns q)) = path_names ns q"
  unfolding NodePath_split_def split_eq
  by (rule tokens_of_createPath) (use path_names_valid valid_name_no_slash in \<open>auto simp: list_all_iff\<close>)

text \<open>C39. Absolute paths. In a well-formed definition \<open>findAbsNode\<close> is the inverse of \<open>absNodePath\<close>: the path of
  a node finds that node, and whatever path finds a node has the names on the way to that node, so
  no path finds two nodes and a path of a deleted node finds none.\<close>

theorem find_abs_node_inverse:
  assumes "defs_ok d"
  shows "(node_at (df_suites d) p = Some n \<longrightarrow> findAbsNode d (absNodePath d p) = Some p) \<and>
         (findAbsNode d path = Some q \<longrightarrow>
            (\<exists>m. node_at (df_suites d) q = Some m) \<and> NodePath_split path = path_names (df_suites d) q)"
proof (intro conjI impI)
  assume at: "node_at (df_suites d) p = Some n"
  from assms have "nodes_ok (df_suites d)" by (simp add: defs_ok_def)
  then show "findAbsNode d (absNodePath d p) = Some p"
    using find_down_path_names [OF _ at] by (simp add: findAbsNode_eq absNodePath_def split_createPath_names)
next
  assume "findAbsNode d path = Some q"
  then show "\<exists>m. node_at (df_suites d) q = Some m" "NodePath_split path = path_names (df_suites d) q"
    using find_down_sound [of "df_suites d" "NodePath_split path" q] by (auto simp: findAbsNode_eq)
qed

definition mk_node :: "node_kind \<Rightarrow> string \<Rightarrow> node list \<Rightarrow> node" where
  "mk_node k s ks =
     Node \<lparr>nd_kind = k, nd_name = s, nd_st = NState_default, nd_st_time = 0, nd_sc_rt = 0, nd_d_st = \<lparr>ds_st = DS_QUEUED, ds_state_change_no = 0\<rparr>,
           nd_suspended = False, nd_suspended_change_no = 0,
           nd_flag = Flag_default, nd_vars = [], nd_gen_vars = [], nd_repeat = NoRepeat, nd_events = [],
           nd_meters = [], nd_labels = [], nd_limits = [], nd_inlimits = [], nd_queues = [], nd_verifys = [], nd_zombies = [],
           nd_auto_cancel = None, nd_auto_archive = None,
           nd_time = no_times, nd_late = None, nd_trigger = None, nd_complete = None, nd_job = no_job,
           nd_suite = no_suite\<rparr> ks"

definition two_families :: defs where
  "two_families =
     \<lparr>df_suites = [mk_node K_Suite ''s'' [mk_node K_Family ''f'' [mk_node K_Task ''a'' [], mk_node K_Task ''b'' []],
                                        mk_node K_Family ''g'' [mk_node K_Task ''a'' []]]],
      df_limits = (\<lambda>_. None), df_st = NState_default, df_flag = Flag_default, df_externs = {}\<rparr>"

lemma two_families_ok: "defs_ok two_families"
  by code_simp

theorem find_abs_node_inverse_witness:
  "defs_ok two_families \<and> absNodePath two_families [0, 1, 0] = ''/s/g/a'' \<and>
   findAbsNode two_families ''/s/g/a'' = Some [0, 1, 0]"
proof -
  have p: "absNodePath two_families [0, 1, 0] = ''/s/g/a''" by code_simp
  have at: "node_at (df_suites two_families) [0, 1, 0] = Some (mk_node K_Task ''a'' [])" by code_simp
  show ?thesis
    using two_families_ok p at
      find_abs_node_inverse [OF two_families_ok, of "[0, 1, 0]" "mk_node K_Task ''a'' []"] by simp
qed

section \<open>Relative references\<close>

lemma node_at_take:
  "node_at ns p = Some n \<Longrightarrow> 0 < k \<Longrightarrow> k \<le> length p \<Longrightarrow> \<exists>m. node_at ns (take k p) = Some m"
proof (induction ns p arbitrary: k rule: node_at.induct)
  case (2 ns i p)
  then obtain k' where k: "k = Suc k'" by (cases k) auto
  with 2 show ?case
    by (cases "k' = 0"; cases "p = []") (auto split: if_splits)
qed simp

lemma up_loop_dots:
  "m \<le> length p \<Longrightarrow> ss = [] \<or> hd ss \<noteq> ''..'' \<Longrightarrow>
     up_loop (replicate k ''..'' @ ss) (if m = 0 then None else Some (take m p)) =
       (if k < m then (ss, Some (take (m - k) p)) else (replicate (k - m) ''..'' @ ss, None))"
proof (induction k arbitrary: m)
  case 0
  then show ?case by (cases ss) auto
next
  case (Suc k)
  show ?case
  proof (cases m)
    case (Suc j)
    have "parent (take (Suc j) p) = (if j = 0 then None else Some (take j p))"
      using Suc Suc.prems by (auto simp: parent_def butlast_take)
    with Suc.IH [of j] Suc.prems Suc show ?thesis by auto
  qed simp
qed

lemma parent_take: "p \<noteq> [] \<Longrightarrow> parent p = (if length p - 1 = 0 then None else Some (take (length p - 1) p))"
  by (auto simp: parent_def butlast_conv_take)

lemma not_valid_dots: "valid_name s \<Longrightarrow> s \<noteq> ''.'' \<and> s \<noteq> ''..'' \<and> s \<noteq> [] \<and> CHR ''/'' \<notin> set s"
  using valid_name_no_slash by (auto simp: valid_name_def ALPHANUMERIC_UNDERSCORE_def)

lemma split_relative:
  assumes "xs \<noteq> []" "\<And>x. x \<in> set xs \<Longrightarrow> x \<noteq> [] \<and> CHR ''/'' \<notin> set x"
  shows "NodePath_split (tl (createPath xs)) = xs" "tl (createPath xs) \<noteq> []"
    "hd (tl (createPath xs)) \<noteq> CHR ''/''"
proof -
  obtain y ys where xs: "xs = y # ys" using assms(1) by (cases xs) auto
  then have y: "y \<noteq> []" "CHR ''/'' \<notin> set y" using assms(2) by auto
  have path: "createPath xs = CHR ''/'' # y @ createPath ys" by (simp add: xs createPath_def)
  then have "tokens_of ''/'' (createPath xs) = tokens_of ''/'' (tl (createPath xs))"
    by (simp add: tokens_of_skip_one)
  with tokens_of_createPath [of xs] assms(2) show "NodePath_split (tl (createPath xs)) = xs"
    by (simp add: NodePath_split_def split_eq)
  show "tl (createPath xs) \<noteq> []" "hd (tl (createPath xs)) \<noteq> CHR ''/''"
    using path y by (cases y; auto)+
qed

text \<open>The text of a reference: \<open>k\<close> times \<open>..\<close>, then names.\<close>

definition reference :: "nat \<Rightarrow> string list \<Rightarrow> string" where
  "reference k names = tl (createPath (replicate k ''..'' @ names))"

lemma containers_above:
  "nodes_ok ns \<Longrightarrow> node_at ns p = Some n \<Longrightarrow> list_all (\<lambda>n. nd_kind (ndata n) \<noteq> K_Alias) ns \<Longrightarrow>
   0 < k \<Longrightarrow> k + 1 < length p \<Longrightarrow> node_at ns (take k p) = Some a \<Longrightarrow> nd_kind (ndata a) \<notin> {K_Task, K_Alias}"
proof (induction ns p arbitrary: k rule: node_at.induct)
  case (2 ns i p)
  then obtain k' where k: "k = Suc k'" by (cases k) auto
  from "2.prems"(2,5) have i: "i < length ns" and p: "p \<noteq> []" and at: "node_at (kids (ns ! i)) p = Some n"
    by (auto split: if_splits)
  have ok: "node_ok (ns ! i)" using nodes_ok_nth [OF "2.prems"(1) i] .
  obtain dt ks where nd: "ns ! i = Node dt ks" by (cases "ns ! i")
  obtain j p' where pj: "p = j # p'" using p by (cases p) auto
  have j: "j < length ks" using at by (auto simp: pj nd split: if_splits)
  have deep: "p' \<noteq> []" using "2.prems"(5) k pj by auto
  then have grand: "kids (ks ! j) \<noteq> []" using at j by (cases p') (auto simp: pj nd)
  have kid: "nd_kind (ndata (ks ! j)) \<noteq> K_Alias"
    using grand nodes_ok_nth [OF node_ok_kids [OF ok], of j] j nd by (cases "ks ! j") auto
  have "nd_kind dt \<noteq> K_Task" using ok kid j by (auto simp: nd list_all_length)
  moreover have "nd_kind dt \<noteq> K_Alias" using ok j by (auto simp: nd)
  ultimately
  have kids: "list_all (\<lambda>n. nd_kind (ndata n) \<noteq> K_Alias) ks" and here: "nd_kind (ndata (ns ! i)) \<notin> {K_Task, K_Alias}"
    using ok by (auto simp: nd list_all_length split: node_kind.splits)
  show ?case
  proof (cases "k' = 0")
    case True
    with "2.prems"(6) k i have "a = ns ! i" by (simp split: if_splits)
    with here show ?thesis by simp
  next
    case False
    moreover have "take k' p \<noteq> []" using False p by simp
    ultimately show ?thesis
      using "2.IH" [OF i p node_ok_kids [OF ok] at, of k'] "2.prems"(5,6) kids k i nd by (simp split: if_splits)
  qed
qed simp

lemma nodes_ok_node_at: "nodes_ok ns \<Longrightarrow> node_at ns p = Some n \<Longrightarrow> node_ok n"
  by (induction ns p rule: node_at.induct) (auto split: if_splits intro: nodes_ok_nth node_ok_kids)

lemma defs_ok_nodes: "defs_ok d \<Longrightarrow> nodes_ok (df_suites d)"
  by (simp add: defs_ok_def)

lemma defs_ok_containers:
  "\<lbrakk>defs_ok d; node_at (df_suites d) p = Some n; 0 < k; k + 1 < length p;
    node_at (df_suites d) (take k p) = Some a\<rbrakk> \<Longrightarrow> nd_kind (ndata a) \<notin> {K_Task, K_Alias}"
  using containers_above [of "df_suites d" p n k a] by (auto simp: defs_ok_def list_all_length)

lemma path_names_not_Nil: "node_at ns q = Some m \<Longrightarrow> path_names ns q \<noteq> []"
  by (cases q) (auto split: if_splits)

lemma up_reference_split:
  assumes ok: "nodes_ok ns" and at: "node_at ns q = Some m"
  shows "NodePath_split (reference k (path_names ns q)) = replicate k ''..'' @ path_names ns q"
    "reference k (path_names ns q) \<noteq> [] \<and> hd (reference k (path_names ns q)) \<noteq> CHR ''/''"
    "hd (path_names ns q) \<noteq> ''..''" "hd (path_names ns q) \<noteq> ''.''"
proof -
  let ?xs = "replicate k ''..'' @ path_names ns q"
  have valid: "\<And>x. x \<in> set (path_names ns q) \<Longrightarrow> valid_name x"
    using path_names_valid [OF ok, of q] by (auto simp: list_all_iff)
  then have w: "x \<noteq> [] \<and> CHR ''/'' \<notin> set x" if "x \<in> set ?xs" for x
    using that not_valid_dots by auto
  have "?xs \<noteq> []" using path_names_not_Nil [OF at] by simp
  note split_relative [OF this w]
  then show "NodePath_split (reference k (path_names ns q)) = ?xs"
    "reference k (path_names ns q) \<noteq> [] \<and> hd (reference k (path_names ns q)) \<noteq> CHR ''/''"
    by (simp_all add: reference_def)
  have "hd (path_names ns q) \<in> set (path_names ns q)" using path_names_not_Nil [OF at] by (rule hd_in_set)
  then show "hd (path_names ns q) \<noteq> ''..''" "hd (path_names ns q) \<noteq> ''.''"
    using valid not_valid_dots by blast+
qed

text \<open>The children among which \<open>k\<close> times \<open>..\<close> from the node \<open>p\<close> ends up: those of its ancestor \<open>k + 1\<close> levels up,
  or the suites.\<close>

definition children_above :: "defs \<Rightarrow> nat \<Rightarrow> addr \<Rightarrow> node list" where
  "children_above d k p =
     (case node_at (df_suites d) (take (length p - 1 - k) p) of None \<Rightarrow> df_suites d | Some a \<Rightarrow> kids a)"

text \<open>C29. Relative references. In a well-formed definition a reference of \<open>k\<close> times \<open>..\<close> and a path of names
  finds, from a node at least \<open>k\<close> levels below the suites, the node of these names among the children of
  its ancestor \<open>k + 1\<close> levels up (a family or suite), or among the suites when that is above them; and it sets no
  error message. This holds at every depth, for paths of every length.\<close>

theorem relative_reference_found:
  assumes "defs_ok d" and "node_at (df_suites d) p = Some n"
    and "1 \<le> k" and "k < length p" and "node_at (children_above d k p) q = Some m"
  shows "findReferencedNode d p (reference k (path_names (children_above d k p) q)) obj
           = (Some (take (length p - 1 - k) p @ q), False)"
proof -
  let ?ns = "children_above d k p" and ?a = "length p - 1 - k"
  have ok: "nodes_ok ?ns"
    using defs_ok_nodes [OF assms(1)] nodes_ok_node_at
    by (auto simp: children_above_def node_ok_kids split: option.splits)
  note ref = up_reference_split [OF ok assms(5)]
  have found: "find_down ?ns (path_names ?ns q) = Some q" by (rule find_down_path_names [OF ok assms(5)])
  have p: "p \<noteq> []" using assms(4) by auto
  have up: "up_loop (replicate k ''..'' @ path_names ?ns q) (parent p) =
      (if k < length p - 1 then (path_names ?ns q, Some (take ?a p)) else (path_names ?ns q, None))"
    using up_loop_dots [of "length p - 1" p "path_names ?ns q" k] ref(3) assms(4)
    by (auto simp: parent_take [OF p] simp del: up_loop.simps)
  have first: "(replicate k ''..'' @ path_names ?ns q) ! 0 = ''..''" using assms(3) by (cases k) auto
  have two: "length (replicate k ''..'' @ path_names ?ns q) \<noteq> 1" "replicate k ''..'' @ path_names ?ns q \<noteq> []"
    using assms(3) path_names_not_Nil [OF assms(5)] by (cases k; cases "path_names ?ns q"; simp)+
  have step: "findReferencedNode d p (reference k (path_names ?ns q)) obj =
      (case up_loop (replicate k ''..'' @ path_names ?ns q) (parent p) of
         (rest, Some pp) \<Rightarrow>
           (case node_at (df_suites d) pp of
              None \<Rightarrow> (None, True)
            | Some pn \<Rightarrow> (case find_relative_node rest pn pp of
                            Some r \<Rightarrow> (Some r, False) | None \<Rightarrow> (None, True)))
       | (rest, None) \<Rightarrow>
           (case findAbsNode d (createPath rest) of Some r \<Rightarrow> (Some r, False) | None \<Rightarrow> (None, True)))"
    using ref(2) first two by (simp only: findReferencedNode_def ref(1) Let_def) simp
  show ?thesis
  proof (cases "k < length p - 1")
    case True
    then have "0 < ?a" by linarith
    then obtain a where a: "node_at (df_suites d) (take ?a p) = Some a"
      using node_at_take [OF assms(2), of ?a] by auto
    then have "nd_kind (ndata a) \<notin> {K_Task, K_Alias}"
      using defs_ok_containers [OF assms(1,2), of ?a] True assms(3) by simp
    with a found have "find_relative_node (path_names ?ns q) a (take ?a p) = Some (take ?a p @ q)"
      by (simp add: find_relative_node_def find_relative_loop_eq children_above_def)
    with True a show ?thesis by (simp add: step up)
  next
    case False
    with assms(4) have "?ns = df_suites d" by (simp add: children_above_def)
    with found ok have "findAbsNode d (createPath (path_names ?ns q)) = Some q"
      by (simp add: findAbsNode_eq split_createPath_names)
    with False assms(4) show ?thesis by (simp add: step up)
  qed
qed

theorem relative_reference_found_witness:
  "defs_ok two_families \<and> reference 1 [''g'', ''a''] = ''../g/a'' \<and>
   findReferencedNode two_families [0, 0, 1] ''../g/a'' [] = (Some [0, 1, 0], False)"
proof -
  have at: "node_at (df_suites two_families) [0, 0, 1] = Some (mk_node K_Task ''b'' [])" by code_simp
  have above: "node_at (children_above two_families 1 [0, 0, 1]) [1, 0] = Some (mk_node K_Task ''a'' [])" by code_simp
  have r: "reference 1 (path_names (children_above two_families 1 [0, 0, 1]) [1, 0]) = ''../g/a''"
    "reference 1 [''g'', ''a''] = ''../g/a''" by code_simp+
  show ?thesis
    using relative_reference_found [OF two_families_ok at _ _ above, of "[]"] two_families_ok r by simp
qed

end
