(* ===== verification/Node_State.thy ===== *)
theory Node_State
  imports Node_Tree "HOL-Library.Sublist"
begin

text \<open>
  The states of the nodes and how they bubble up the tree: \<open>theComputedNodeState\<close>
  (\<open>ANode/src/NodeState.hpp\<close>), \<open>computedState\<close>, \<open>Node::setStateOnly\<close>, \<open>setStateOnlyHierarchically\<close>,
  \<open>Node::set_most_significant_state_up_node_tree\<close> and \<open>Defs::set_most_significant_state\<close>. The duration of the
  calendar of the suite is the argument \<open>dur\<close>; the log is not modelled.
\<close>

section \<open>Computed states\<close>

text \<open>The loop of \<open>theComputedNodeState\<close>: the five counters.\<close>

record state_counts =
  sc_complete :: nat
  sc_queued :: nat
  sc_submitted :: nat
  sc_active :: nat
  sc_aborted :: nat

fun count_states :: "NState_State list \<Rightarrow> state_counts \<Rightarrow> state_counts" where
  "count_states [] c = c"
| "count_states (s # ss) c =
     count_states ss
       (case s of
          NS_ABORTED \<Rightarrow> c\<lparr>sc_aborted := sc_aborted c + 1\<rparr>
        | NS_ACTIVE \<Rightarrow> c\<lparr>sc_active := sc_active c + 1\<rparr>
        | NS_SUBMITTED \<Rightarrow> c\<lparr>sc_submitted := sc_submitted c + 1\<rparr>
        | NS_QUEUED \<Rightarrow> c\<lparr>sc_queued := sc_queued c + 1\<rparr>
        | NS_COMPLETE \<Rightarrow> c\<lparr>sc_complete := sc_complete c + 1\<rparr>
        | NS_UNKNOWN \<Rightarrow> c)"

definition theComputedNodeState :: "NState_State list \<Rightarrow> NState_State" where
  "theComputedNodeState states =
     (let c = count_states states
                \<lparr>sc_complete = 0, sc_queued = 0, sc_submitted = 0, sc_active = 0, sc_aborted = 0\<rparr>
      in if sc_aborted c > 0 then NS_ABORTED
         else if sc_active c > 0 then NS_ACTIVE
         else if sc_submitted c > 0 then NS_SUBMITTED
         else if sc_queued c > 0 then NS_QUEUED
         else if sc_complete c > 0 then NS_COMPLETE
         else NS_UNKNOWN)"

text \<open>\<open>computedState\<close> of a container, and of a task or alias (its own state).\<close>

definition is_container :: "node \<Rightarrow> bool" where
  "is_container n \<longleftrightarrow> nd_kind (ndata n) \<in> {K_Suite, K_Family}"

definition computedState_immediate :: "node \<Rightarrow> NState_State" where
  "computedState_immediate n =
     (if \<not> is_container n \<or> kids n = [] then node_state n
      else theComputedNodeState (map node_state (kids n)))"

fun computedState_hierarchical :: "node \<Rightarrow> NState_State" where
  "computedState_hierarchical (Node nd ks) =
     (if \<not> is_container (Node nd ks) \<or> ks = [] then ns_st (nd_st nd)
      else theComputedNodeState (map computedState_hierarchical ks))"

section \<open>Setting a state\<close>

text \<open>The loop of \<open>setStateOnly\<close> over the \<open>verify\<close> attributes.\<close>

fun count_verifys :: "NState_State \<Rightarrow> verify_attr list \<Rightarrow> ecf \<Rightarrow> verify_attr list \<times> ecf" where
  "count_verifys st [] g = ([], g)"
| "count_verifys st (v # vs) g =
     (if vf_state v = st
      then let (n, g1) = incr_state_change_no g; (vs', g2) = count_verifys st vs g1
           in (v\<lparr>vf_actual := vf_actual v + 1, vf_state_change_no := n\<rparr> # vs', g2)
      else let (vs', g2) = count_verifys st vs g in (v # vs', g2))"

definition setStateOnly :: "int \<Rightarrow> NState_State \<Rightarrow> bool \<Rightarrow> node_data \<Rightarrow> ecf \<Rightarrow> node_data \<times> ecf" where
  "setStateOnly dur newState force nd g =
     (if ns_st (nd_st nd) = newState then (nd, g)
      else
        let (f, g1) =
          (if newState = NS_ABORTED
           then let (f1, g1) = (if force then Flag_set FL_FORCE_ABORT (nd_flag nd) g else (nd_flag nd, g))
                in if nd_kind nd \<in> {K_Task, K_Alias} then Flag_set FL_TASK_ABORTED f1 g1 else (f1, g1)
           else let (f1, g1) = Flag_clear FL_TASK_ABORTED (nd_flag nd) g in Flag_clear FL_FORCE_ABORT f1 g1);
            (st, g2) = NState_setState newState (nd_st nd) g1;
            (vs, g3) = count_verifys newState (nd_verifys nd) g2
        in (nd\<lparr>nd_flag := f, nd_st := st,
               nd_sc_rt := (if newState = NS_QUEUED then 0 else dur - nd_st_time nd),
               nd_st_time := dur, nd_verifys := vs\<rparr>, g3))"

text \<open>\<open>setStateOnlyHierarchically\<close> goes down the containers; an alias of a task is not reached.\<close>

fun setStateOnlyHierarchically :: "int \<Rightarrow> NState_State \<Rightarrow> bool \<Rightarrow> node \<Rightarrow> ecf \<Rightarrow> node \<times> ecf"
  and setStateOnly_children :: "int \<Rightarrow> NState_State \<Rightarrow> bool \<Rightarrow> node list \<Rightarrow> ecf \<Rightarrow> node list \<times> ecf" where
  "setStateOnlyHierarchically dur s force (Node nd ks) g =
     (let (nd', g1) = setStateOnly dur s force nd g
      in if nd_kind nd \<in> {K_Suite, K_Family}
         then let (ks', g2) = setStateOnly_children dur s force ks g1 in (Node nd' ks', g2)
         else (Node nd' ks, g1))"
| "setStateOnly_children dur s force [] g = ([], g)"
| "setStateOnly_children dur s force (k # ks) g =
     (let (k', g1) = setStateOnlyHierarchically dur s force k g;
          (ks', g2) = setStateOnly_children dur s force ks g1
      in (k' # ks', g2))"

section \<open>Up the tree\<close>

text \<open>Writing the data of the node at an address.\<close>

fun put_data :: "node_data \<Rightarrow> node list \<Rightarrow> addr \<Rightarrow> node list" where
  "put_data nd ns [] = ns"
| "put_data nd ns (i # p) =
     (if i < length ns
      then ns[i := (if p = [] then Node nd (kids (ns ! i)) else Node (ndata (ns ! i)) (put_data nd (kids (ns ! i)) p))]
      else ns)"

definition Defs_set_most_significant_state :: "defs \<Rightarrow> ecf \<Rightarrow> defs \<times> ecf" where
  "Defs_set_most_significant_state d g =
     (let s = theComputedNodeState (map node_state (df_suites d))
      in if s \<noteq> ns_st (df_st d)
         then let (st, g') = NState_setState s (df_st d) g in (d\<lparr>df_st := st\<rparr>, g')
         else (d, g))"

function set_most_significant_state_up_node_tree :: "int \<Rightarrow> addr \<Rightarrow> defs \<Rightarrow> ecf \<Rightarrow> defs \<times> ecf" where
  "set_most_significant_state_up_node_tree dur p d g =
     (if p = [] then Defs_set_most_significant_state d g
      else case node_at (df_suites d) p of
        None \<Rightarrow> (d, g)
      | Some n \<Rightarrow>
          if nd_kind (ndata n) = K_Task then set_most_significant_state_up_node_tree dur (butlast p) d g
          else let s = computedState_immediate n;
                   (d1, g1) = (if s \<noteq> node_state n
                               then let (nd, g1) = setStateOnly dur s False (ndata n) g
                                    in (d\<lparr>df_suites := put_data nd (df_suites d) p\<rparr>, g1)
                               else (d, g))
               in set_most_significant_state_up_node_tree dur (butlast p) d1 g1)"
  by pat_completeness auto
termination
  by (relation "measure (\<lambda>(_, p, _, _). length p)") (auto split: if_splits prod.splits)

declare set_most_significant_state_up_node_tree.simps [simp del]

section \<open>The most significant state\<close>

text \<open>The order of significance.\<close>

fun significance :: "NState_State \<Rightarrow> nat" where
  "significance NS_UNKNOWN = 0"
| "significance NS_COMPLETE = 1"
| "significance NS_QUEUED = 2"
| "significance NS_SUBMITTED = 3"
| "significance NS_ACTIVE = 4"
| "significance NS_ABORTED = 5"

text \<open>The states that decide: those of the tasks and of the containers without children.\<close>

fun deciding_states :: "node \<Rightarrow> NState_State list" where
  "deciding_states (Node nd ks) =
     (if \<not> is_container (Node nd ks) \<or> ks = [] then [ns_st (nd_st nd)] else concat (map deciding_states ks))"

lemma significance_inj: "significance a = significance b \<longleftrightarrow> a = b"
  by (cases a; cases b) simp_all

lemma count_states_mem:
  "(sc_aborted (count_states ss c) > 0 \<longleftrightarrow> sc_aborted c > 0 \<or> NS_ABORTED \<in> set ss) \<and>
   (sc_active (count_states ss c) > 0 \<longleftrightarrow> sc_active c > 0 \<or> NS_ACTIVE \<in> set ss) \<and>
   (sc_submitted (count_states ss c) > 0 \<longleftrightarrow> sc_submitted c > 0 \<or> NS_SUBMITTED \<in> set ss) \<and>
   (sc_queued (count_states ss c) > 0 \<longleftrightarrow> sc_queued c > 0 \<or> NS_QUEUED \<in> set ss) \<and>
   (sc_complete (count_states ss c) > 0 \<longleftrightarrow> sc_complete c > 0 \<or> NS_COMPLETE \<in> set ss)"
  by (induction ss arbitrary: c) (auto split: NState_State.splits)

lemma theComputedNodeState_cases:
  "theComputedNodeState ss =
     (if NS_ABORTED \<in> set ss then NS_ABORTED else if NS_ACTIVE \<in> set ss then NS_ACTIVE
      else if NS_SUBMITTED \<in> set ss then NS_SUBMITTED else if NS_QUEUED \<in> set ss then NS_QUEUED
      else if NS_COMPLETE \<in> set ss then NS_COMPLETE else NS_UNKNOWN)"
  by (simp add: theComputedNodeState_def Let_def count_states_mem)

lemma theComputedNodeState_significance:
  assumes "ss \<noteq> []"
  shows "theComputedNodeState ss \<in> set ss" "s \<in> set ss \<Longrightarrow> significance s \<le> significance (theComputedNodeState ss)"
proof -
  obtain t ts where ss: "ss = t # ts" using assms by (cases ss) auto
  show "theComputedNodeState ss \<in> set ss"
    by (cases t) (auto simp: theComputedNodeState_cases ss intro: NState_State.exhaust)
  show "s \<in> set ss \<Longrightarrow> significance s \<le> significance (theComputedNodeState ss)"
    by (cases s) (auto simp: theComputedNodeState_cases)
qed

lemma theComputedNodeState_Max:
  "significance (theComputedNodeState ss) = Max (insert 0 (significance ` set ss))"
proof (cases "ss = []")
  case False
  show ?thesis
    by (rule Max_eqI [symmetric]) (use theComputedNodeState_significance [OF False] in auto)
qed (simp add: theComputedNodeState_cases)

lemma computed_hierarchical_le:
  "s \<in> set (deciding_states n) \<Longrightarrow> significance s \<le> significance (computedState_hierarchical n)"
proof (induction n)
  case (Node nd ks)
  show ?case
  proof (cases "\<not> is_container (Node nd ks) \<or> ks = []")
    case False
    with Node.prems obtain k where k: "k \<in> set ks" "s \<in> set (deciding_states k)" by auto
    have ne: "map computedState_hierarchical ks \<noteq> []" using False by simp
    have "significance s \<le> significance (computedState_hierarchical k)" by (rule Node.IH [OF k])
    also have "\<dots> \<le> significance (theComputedNodeState (map computedState_hierarchical ks))"
      by (rule theComputedNodeState_significance(2) [OF ne]) (use k in simp)
    finally show ?thesis using False by simp
  qed (use Node.prems in auto)
qed

lemma computed_hierarchical_mem: "computedState_hierarchical n \<in> set (deciding_states n)"
proof (induction n)
  case (Node nd ks)
  show ?case
  proof (cases "\<not> is_container (Node nd ks) \<or> ks = []")
    case False
    then have ne: "map computedState_hierarchical ks \<noteq> []" by simp
    from theComputedNodeState_significance(1) [OF ne] obtain k where "k \<in> set ks"
      "theComputedNodeState (map computedState_hierarchical ks) = computedState_hierarchical k" by auto
    with False Node.IH [of k] show ?thesis by auto
  qed auto
qed

text \<open>Computed states. The state that \<open>theComputedNodeState\<close> gives to a list of states is the most
  significant of them (aborted, active, submitted, queued, complete, unknown, in this order), and the
  hierarchical computed state of a node is the most significant state among the tasks and the childless
  containers below it, however deep the tree is.\<close>

theorem computed_state_most_significant:
  "significance (theComputedNodeState ss) = Max (insert 0 (significance ` set ss)) \<and>
   significance (computedState_hierarchical n) = Max (significance ` set (deciding_states n))"
proof
  show "significance (theComputedNodeState ss) = Max (insert 0 (significance ` set ss))"
    by (rule theComputedNodeState_Max)
  show "significance (computedState_hierarchical n) = Max (significance ` set (deciding_states n))"
    by (rule Max_eqI [symmetric]) (use computed_hierarchical_le computed_hierarchical_mem in auto)
qed

section \<open>Consistency of the tree\<close>

text \<open>A container with children has the most significant of their states.\<close>

definition node_consistent :: "node \<Rightarrow> bool" where
  "node_consistent n \<longleftrightarrow> node_state n = computedState_immediate n"

definition consistent_outside :: "addr \<Rightarrow> defs \<Rightarrow> bool" where
  "consistent_outside p d \<longleftrightarrow>
     (\<forall>q n. node_at (df_suites d) q = Some n \<longrightarrow> \<not> prefix q p \<longrightarrow> node_consistent n)"

lemma node_at_put_other:
  "\<not> prefix q p \<Longrightarrow> node_at (put_data nd ns p) q = node_at ns q"
proof (induction nd ns p arbitrary: q rule: put_data.induct)
  case (2 nd ns i p)
  show ?case
  proof (cases q)
    case (Cons j q')
    with "2.prems" have "j \<noteq> i \<or> \<not> prefix q' p" by simp
    then consider "j \<noteq> i" | "j = i" "\<not> prefix q' p" by blast
    then show ?thesis
    proof cases
      case 2
      then have "q' \<noteq> []" by auto
      with 2 "2.IH" [of q'] show ?thesis by (auto simp: Cons)
    qed (simp add: Cons)
  qed simp
qed simp

lemma node_at_put_same:
  "node_at ns p = Some n \<Longrightarrow> node_at (put_data nd ns p) p = Some (Node nd (kids n))"
  by (induction nd ns p rule: put_data.induct) (auto split: if_splits)

lemma put_data_exists:
  "node_at ns q = Some n \<Longrightarrow> \<exists>m. node_at (put_data nd ns p) q = Some m"
proof (induction nd ns p arbitrary: q rule: put_data.induct)
  case (2 nd ns i p)
  then obtain j q' where q: "q = j # q'" by (cases q) auto
  show ?case
  proof (cases "j = i \<and> q' \<noteq> [] \<and> p \<noteq> []")
    case True
    with 2 q show ?thesis by (auto split: if_splits)
  next
    case False
    with 2 q show ?thesis by (auto simp: nth_list_update split: if_splits)
  qed
qed auto

lemma setStateOnly_state: "ns_st (nd_st (fst (setStateOnly dur s force nd g))) = s"
  by (simp add: setStateOnly_def NState_setState_def Let_def case_prod_beta)

lemma setStateOnly_kind: "nd_kind (fst (setStateOnly dur s force nd g)) = nd_kind nd"
  by (simp add: setStateOnly_def Let_def case_prod_beta)

lemma prefix_butlast_cases: "p \<noteq> [] \<Longrightarrow> \<not> prefix q (butlast p) \<Longrightarrow> q = p \<or> \<not> prefix q p"
  by (metis append_butlast_last_id prefix_snoc)

lemma prefix_butlast: "prefix q (butlast p) \<Longrightarrow> prefix q p"
  by (metis append_butlast_last_id butlast.simps(1) prefix_def prefix_order.trans)

lemma node_at_butlast: "node_at ns p = Some n \<Longrightarrow> butlast p = [] \<or> (\<exists>m. node_at ns (butlast p) = Some m)"
  using node_at_take [of ns p n "length p - 1"] by (cases "length p \<le> 1") (auto simp: butlast_conv_take)

text \<open>One node of the walk: what \<open>set_most_significant_state_up_node_tree\<close> does at \<open>p\<close> before it goes on to the parent.\<close>

definition settle_node :: "int \<Rightarrow> addr \<Rightarrow> node \<Rightarrow> defs \<Rightarrow> ecf \<Rightarrow> defs \<times> ecf" where
  "settle_node dur p n d g =
     (if nd_kind (ndata n) = K_Task \<or> computedState_immediate n = node_state n then (d, g)
      else let (nd, g1) = setStateOnly dur (computedState_immediate n) False (ndata n) g
           in (d\<lparr>df_suites := put_data nd (df_suites d) p\<rparr>, g1))"

lemma up_node_tree_unfold:
  assumes "node_at (df_suites d) p = Some n"
  shows "set_most_significant_state_up_node_tree dur p d g =
     (let (d1, g1) = settle_node dur p n d g in set_most_significant_state_up_node_tree dur (butlast p) d1 g1)"
proof -
  have "p \<noteq> []" using assms by auto
  with assms show ?thesis
    by (subst set_most_significant_state_up_node_tree.simps) (auto simp: settle_node_def Let_def split: prod.splits)
qed

lemma up_node_tree_top: "set_most_significant_state_up_node_tree dur [] d g = Defs_set_most_significant_state d g"
  by (subst set_most_significant_state_up_node_tree.simps) simp

lemma settle_node_effect:
  assumes at: "node_at (df_suites d) p = Some n" and st: "settle_node dur p n d g = (d1, g1)"
  shows "\<exists>m. node_at (df_suites d1) p = Some m \<and> node_consistent m"
    "\<not> prefix q p \<Longrightarrow> node_at (df_suites d1) q = node_at (df_suites d) q"
    "node_at (df_suites d) q = Some n' \<Longrightarrow> \<exists>m. node_at (df_suites d1) q = Some m"
proof -
  consider "d1 = d" "nd_kind (ndata n) = K_Task \<or> computedState_immediate n = node_state n"
    | nd where "df_suites d1 = put_data nd (df_suites d) p" "nd = fst (setStateOnly dur (computedState_immediate n) False (ndata n) g)"
    using st by (auto simp: settle_node_def Let_def split: if_splits prod.splits)
  then show "\<exists>m. node_at (df_suites d1) p = Some m \<and> node_consistent m"
  proof cases
    case 1
    with at show ?thesis by (auto simp: node_consistent_def computedState_immediate_def is_container_def)
  next
    case 2
    have "node_consistent (Node nd (kids n))"
      unfolding node_consistent_def computedState_immediate_def is_container_def
      using setStateOnly_state [of dur "computedState_immediate n" False "ndata n" g]
        setStateOnly_kind [of dur "computedState_immediate n" False "ndata n" g]
      by (auto simp: 2(2) computedState_immediate_def is_container_def)
    with at 2(1) show ?thesis by (auto simp: node_at_put_same)
  qed
  show "node_at (df_suites d1) q = node_at (df_suites d) q" if "\<not> prefix q p"
    using st that by (auto simp: settle_node_def Let_def node_at_put_other split: if_splits prod.splits)
  show "\<exists>m. node_at (df_suites d1) q = Some m" if "node_at (df_suites d) q = Some n'"
    using st that put_data_exists [OF that]
    by (auto simp: settle_node_def Let_def split: if_splits prod.splits)
qed

lemma settle_node_consistent:
  assumes "consistent_outside p d" and at: "node_at (df_suites d) p = Some n" and st: "settle_node dur p n d g = (d1, g1)"
  shows "consistent_outside (butlast p) d1"
  unfolding consistent_outside_def
proof (intro allI impI)
  fix q m
  assume q: "node_at (df_suites d1) q = Some m" "\<not> prefix q (butlast p)"
  have "p \<noteq> []" using at by auto
  then consider "q = p" | "\<not> prefix q p" using prefix_butlast_cases q(2) by blast
  then show "node_consistent m"
  proof cases
    case 1
    with settle_node_effect(1) [OF at st] q(1) show ?thesis by simp
  next
    case 2
    with settle_node_effect(2) [OF at st 2] q(1) assms(1) show ?thesis by (simp add: consistent_outside_def)
  qed
qed

lemma up_node_tree_consistent:
  assumes "consistent_outside p d" and "p = [] \<or> (\<exists>n. node_at (df_suites d) p = Some n)"
    and "set_most_significant_state_up_node_tree dur p d g = (d', g')"
  shows "consistent_outside [] d' \<and> ns_st (df_st d') = theComputedNodeState (map node_state (df_suites d')) \<and>
         (\<forall>q. \<not> prefix q p \<longrightarrow> node_at (df_suites d') q = node_at (df_suites d) q)"
  using assms
proof (induction "length p" arbitrary: p d g)
  case 0
  then show ?case
    by (auto simp: up_node_tree_top Defs_set_most_significant_state_def NState_setState_def Let_def
        consistent_outside_def split: if_splits prod.splits)
next
  case (Suc k)
  then obtain n where at: "node_at (df_suites d) p = Some n" by fastforce
  obtain d1 g1 where st: "settle_node dur p n d g = (d1, g1)" by fastforce
  have len: "k = length (butlast p)" using Suc.hyps(2) by simp
  have up: "set_most_significant_state_up_node_tree dur (butlast p) d1 g1 = (d', g')"
    using Suc.prems(3) st by (simp add: up_node_tree_unfold [OF at])
  have ex: "butlast p = [] \<or> (\<exists>m. node_at (df_suites d1) (butlast p) = Some m)"
    using node_at_butlast [OF at] settle_node_effect(3) [OF at st] by blast
  from Suc.hyps(1) [OF len settle_node_consistent [OF Suc.prems(1) at st] ex up]
  have ih: "consistent_outside [] d'" "ns_st (df_st d') = theComputedNodeState (map node_state (df_suites d'))"
    "\<And>q. \<not> prefix q (butlast p) \<Longrightarrow> node_at (df_suites d') q = node_at (df_suites d1) q" by auto
  have "node_at (df_suites d') q = node_at (df_suites d) q" if "\<not> prefix q p" for q
    using ih(3) [of q] settle_node_effect(2) [OF at st that] prefix_butlast that by auto
  with ih show ?case by blast
qed

text \<open>States bubble up. When only a node and its ancestors can be out of date (every other suite or
  family with children has the most significant of their states), walking up from that node brings the
  whole definition up to date: every suite and family, and the definition itself, then has the most significant
  of the states of its children; and no node off the path is changed.\<close>

theorem states_bubble_up:
  assumes "consistent_outside p d" and "node_at (df_suites d) p = Some n"
    and "set_most_significant_state_up_node_tree dur p d g = (d', g')"
  shows "(\<forall>q m. node_at (df_suites d') q = Some m \<longrightarrow> node_state m = computedState_immediate m) \<and>
         ns_st (df_st d') = theComputedNodeState (map node_state (df_suites d')) \<and>
         (\<forall>q. \<not> prefix q p \<longrightarrow> node_at (df_suites d') q = node_at (df_suites d) q)"
proof -
  have "p = [] \<or> (\<exists>n. node_at (df_suites d) p = Some n)" using assms(2) by blast
  from up_node_tree_consistent [OF assms(1) this assms(3)]
  have "consistent_outside [] d'" "ns_st (df_st d') = theComputedNodeState (map node_state (df_suites d'))"
    "\<forall>q. \<not> prefix q p \<longrightarrow> node_at (df_suites d') q = node_at (df_suites d) q" by auto
  moreover have "node_state m = computedState_immediate m" if "node_at (df_suites d') q = Some m" for q m
  proof -
    have "q \<noteq> []" using that by auto
    with that \<open>consistent_outside [] d'\<close> show ?thesis by (auto simp: consistent_outside_def node_consistent_def)
  qed
  ultimately show ?thesis by blast
qed

text \<open>All nodes with their addresses, to check a concrete definition.\<close>

fun all_nodes :: "nat \<Rightarrow> node list \<Rightarrow> (addr \<times> node) list" where
  "all_nodes k [] = []"
| "all_nodes k (Node nd ks # ns) =
     ([k], Node nd ks) # map (\<lambda>(q, m). (k # q, m)) (all_nodes 0 ks) @ all_nodes (Suc k) ns"

lemma all_nodes_complete:
  "node_at ns (i # q) = Some n \<Longrightarrow> ((k + i) # q, n) \<in> set (all_nodes k ns)"
proof (induction k ns arbitrary: i q rule: all_nodes.induct)
  case (2 k nd ks ns)
  show ?case
  proof (cases i)
    case 0
    show ?thesis
    proof (cases q)
      case (Cons j r)
      with "2.prems" 0 have "node_at ks (j # r) = Some n" by simp
      from "2.IH"(1) [OF this] Cons 0 show ?thesis by force
    qed (use "2.prems" 0 in auto)
  next
    case (Suc i')
    with "2.prems" have "node_at ns (i' # q) = Some n" by (auto split: if_splits)
    from "2.IH"(2) [OF this] Suc show ?thesis by simp
  qed
qed simp

lemma consistent_outside_check:
  assumes "list_all (\<lambda>(q, n). prefix q p \<or> node_consistent n) (all_nodes 0 (df_suites d))"
  shows "consistent_outside p d"
  unfolding consistent_outside_def
proof (intro allI impI)
  fix q n
  assume q: "node_at (df_suites d) q = Some n" "\<not> prefix q p"
  then obtain i r where "q = i # r" by (cases q) auto
  with q(1) all_nodes_complete [of "df_suites d" i r n 0] have "(q, n) \<in> set (all_nodes 0 (df_suites d))" by simp
  with assms q(2) show "node_consistent n" by (auto simp: list_all_iff)
qed

text \<open>The definition \<open>two_families\<close> after a job of \<open>/s/f/b\<close> has become active.\<close>

definition one_active :: defs where
  "one_active = two_families\<lparr>df_suites :=
     (case node_at (df_suites two_families) [0, 0, 1] of
        Some n \<Rightarrow> put_data ((ndata n)\<lparr>nd_st := \<lparr>ns_st = NS_ACTIVE, ns_state_change_no = 1\<rparr>\<rparr>) (df_suites two_families) [0, 0, 1]
      | None \<Rightarrow> [])\<rparr>"

definition server_counters :: ecf where
  "server_counters = \<lparr>ecf_server = True, ecf_state_change_no = 1, ecf_modify_change_no = 0\<rparr>"

theorem states_bubble_up_witness:
  "consistent_outside [0, 0, 1] one_active \<and>
   (\<exists>d' g'. set_most_significant_state_up_node_tree 60 [0, 0, 1] one_active server_counters = (d', g') \<and>
            ns_st (df_st d') = NS_ACTIVE)"
proof -
  have c: "consistent_outside [0, 0, 1] one_active" by (rule consistent_outside_check) code_simp
  have "\<exists>n. node_at (df_suites one_active) [0, 0, 1] = Some n" by (simp add: one_active_def two_families_def mk_node_def)
  then obtain n where at: "node_at (df_suites one_active) [0, 0, 1] = Some n" by blast
  obtain d' g' where up: "set_most_significant_state_up_node_tree 60 [0, 0, 1] one_active server_counters = (d', g')"
    by fastforce
  have s: "map (\<lambda>n. node_state n) (df_suites (fst (set_most_significant_state_up_node_tree 60 [0, 0, 1] one_active server_counters)))
      = [NS_ACTIVE]" by code_simp
  have "theComputedNodeState [NS_ACTIVE] = NS_ACTIVE" by (simp add: theComputedNodeState_cases)
  then have "ns_st (df_st d') = NS_ACTIVE" using states_bubble_up [OF c at up] s up by simp
  with c up show ?thesis by blast
qed

end
