(* ===== verification/Node_Time.thy ===== *)
theory Node_Time
  imports Node_State
begin

text \<open>
  The time dependencies of a node (\<open>ANode/src/NodeTime.cpp\<close>): how the time, today, cron, date and day attributes
  of one node together hold it, free it, are requeued, and are missed after a run by hand. The attributes are
  the list members of \<open>node_times\<close>; the suite calendar is the argument \<open>c\<close>. An operation on a list of
  attributes may not return (\<open>None\<close>, an attribute whose loop does not end), throw (\<open>Inl\<close>), or give the new list
  and the change counters.
\<close>

section \<open>Runs over a list of attributes\<close>

type_synonym 'a run = "'a res option"

abbreviation run_ret :: "'a \<Rightarrow> 'a run" where "run_ret x \<equiv> Some (Inr x)"

definition run_bind :: "'a run \<Rightarrow> ('a \<Rightarrow> 'b run) \<Rightarrow> 'b run" where
  "run_bind m f = (case m of None \<Rightarrow> None | Some (Inl e) \<Rightarrow> Some (Inl e) | Some (Inr x) \<Rightarrow> f x)"

definition run_option :: "'a option \<Rightarrow> 'a run" where
  "run_option m = map_option Inr m"

lemma run_bind_simps [simp]:
  "run_bind None f = None" "run_bind (Some (Inl e)) f = Some (Inl e)" "run_bind (Some (Inr x)) f = f x"
  by (simp_all add: run_bind_def)

lemma run_bind_eq_ret: "run_bind m f = Some (Inr y) \<longleftrightarrow> (\<exists>x. m = Some (Inr x) \<and> f x = Some (Inr y))"
  by (auto simp: run_bind_def split: option.splits sum.splits)

lemma run_option_simps [simp]: "run_option (Some x) = Some (Inr x)" "run_option None = None"
  by (simp_all add: run_option_def)

text \<open>A loop that changes every element, in order, and a loop that stops at the first element for which the test holds.\<close>

fun each :: "('a \<Rightarrow> 'g \<Rightarrow> ('a \<times> 'g) run) \<Rightarrow> 'a list \<Rightarrow> 'g \<Rightarrow> ('a list \<times> 'g) run" where
  "each f [] g = run_ret ([], g)"
| "each f (x # xs) g = run_bind (f x g) (\<lambda>(y, g1). run_bind (each f xs g1) (\<lambda>(ys, g2). run_ret (y # ys, g2)))"

fun any_of :: "('a \<Rightarrow> bool option) \<Rightarrow> 'a list \<Rightarrow> bool run" where
  "any_of t [] = run_ret False"
| "any_of t (x # xs) = run_bind (run_option (t x)) (\<lambda>b. if b then run_ret True else any_of t xs)"

lemma each_total:
  assumes "\<And>x g. x \<in> set xs \<Longrightarrow> \<exists>y g'. f x g = run_ret (y, g') \<and> R x y"
  shows "\<exists>ys g'. each f xs g = run_ret (ys, g') \<and> list_all2 R xs ys"
  using assms
proof (induction xs arbitrary: g)
  case (Cons x xs)
  from Cons.prems [of x g] obtain y g1 where "f x g = run_ret (y, g1)" "R x y" by auto
  moreover from Cons.IH [of g1] Cons.prems obtain ys g2 where "each f xs g1 = run_ret (ys, g2)" "list_all2 R xs ys"
    by (meson list.set_intros(2))
  ultimately show ?case by simp
qed simp

lemma each_rel:
  "each f xs g = run_ret (ys, g') \<Longrightarrow> (\<And>x g y g'. x \<in> set xs \<Longrightarrow> f x g = run_ret (y, g') \<Longrightarrow> R x y) \<Longrightarrow> list_all2 R xs ys"
proof (induction xs arbitrary: g ys)
  case (Cons x xs)
  then obtain y g1 ys1 g2 where *: "f x g = run_ret (y, g1)" "each f xs g1 = run_ret (ys1, g2)" "ys = y # ys1" "g2 = g'"
    by (auto simp: run_bind_eq_ret)
  with Cons.IH [of g1 ys1] Cons.prems(2) have "list_all2 R xs ys1" by (metis list.set_intros(2))
  with * Cons.prems(2) show ?case by simp
qed auto

lemma any_of_eq:
  "(\<And>x. x \<in> set xs \<Longrightarrow> t x = Some (P x)) \<Longrightarrow> any_of t xs = run_ret (\<exists>x \<in> set xs. P x)"
  by (induction xs) auto

section \<open>Requeue and calendar updates\<close>

datatype Requeue_t = RQ_FULL | RQ_REPEAT_INCREMENT | RQ_TIME

definition CronAttr_resetRelativeDuration :: "cron_attr \<Rightarrow> ecf \<Rightarrow> cron_attr \<times> ecf" where
  "CronAttr_resetRelativeDuration a g =
     (let (changed, ts) = ts_resetRelativeDuration (cr_timeSeries a)
      in if changed
         then (let (n, g') = incr_state_change_no g in (a\<lparr>cr_timeSeries := ts, cr_state_change_no := n\<rparr>, g'))
         else (a\<lparr>cr_timeSeries := ts\<rparr>, g))"

text \<open>The loops of \<open>do_requeue_time_attrs\<close> over the attributes.\<close>

definition reset_relative_durations :: "node_times \<Rightarrow> ecf \<Rightarrow> (node_times \<times> ecf) run" where
  "reset_relative_durations nt g =
     run_bind (each (\<lambda>a g. run_ret (CronAttr_resetRelativeDuration a g)) (nt_crons nt) g) (\<lambda>(cs, g1).
     run_bind (each (\<lambda>a g. run_ret (TimeAttr_resetRelativeDuration a g)) (nt_todays nt) g1) (\<lambda>(ys, g2).
     run_bind (each (\<lambda>a g. run_ret (TimeAttr_resetRelativeDuration a g)) (nt_times nt) g2) (\<lambda>(ts, g3).
       run_ret (nt\<lparr>nt_crons := cs, nt_todays := ys, nt_times := ts\<rparr>, g3))))"

definition requeue_days :: "gregorian \<Rightarrow> calendar \<Rightarrow> Requeue_t \<Rightarrow> day_attr \<Rightarrow> ecf \<Rightarrow> (day_attr \<times> ecf) run" where
  "requeue_days greg c rt a g =
     (case rt of
        RQ_FULL \<Rightarrow> Some (requeue_manual greg c a g)
      | RQ_REPEAT_INCREMENT \<Rightarrow> Some (requeue_repeat_increment greg c a g)
      | RQ_TIME \<Rightarrow> run_ret (requeue_time a g))"

definition do_requeue_time_attrs ::
    "gregorian \<Rightarrow> calendar \<Rightarrow> bool \<Rightarrow> bool \<Rightarrow> Requeue_t \<Rightarrow> node_times \<Rightarrow> ecf \<Rightarrow> (node_times \<times> ecf) run" where
  "do_requeue_time_attrs greg c reset_next_time_slot reset_relative_duration rt nt g =
     run_bind (if reset_relative_duration then reset_relative_durations nt g else run_ret (nt, g)) (\<lambda>(nt0, g0).
     run_bind (each (\<lambda>a g. run_option (TimeAttr_requeue c reset_next_time_slot a g)) (nt_todays nt0) g0) (\<lambda>(ys, g1).
     run_bind (each (\<lambda>a g. run_option (TimeAttr_requeue c reset_next_time_slot a g)) (nt_times nt0) g1) (\<lambda>(ts, g2).
     run_bind (each (\<lambda>a g. run_option (CronAttr_requeue c reset_next_time_slot a g)) (nt_crons nt0) g2) (\<lambda>(cs, g3).
     run_bind (each (\<lambda>a g. run_ret (DateAttr_requeue a g)) (nt_dates nt0) g3) (\<lambda>(ds, g4).
     run_bind (each (requeue_days greg c rt) (nt_days nt0) g4) (\<lambda>(ws, g5).
       run_ret (\<lparr>nt_times = ts, nt_todays = ys, nt_crons = cs, nt_dates = ds, nt_days = ws\<rparr>, g5)))))))"

text \<open>The loop over the tasks below a container, at midnight: whether the day and date attributes stay free.\<close>

fun stay_free_loop :: "NState_State list \<Rightarrow> nat \<Rightarrow> nat \<Rightarrow> nat \<Rightarrow> nat \<Rightarrow> bool" where
  "stay_free_loop [] completed submitted queued active = False"
| "stay_free_loop (s # ss) completed submitted queued active =
     (let sub = (if s = NS_SUBMITTED then submitted + 1 else submitted);
          act = (if s = NS_ACTIVE then active + 1 else active);
          com = (if s = NS_COMPLETE then completed + 1 else completed);
          que = (if s = NS_QUEUED then queued + 1 else queued)
      in if act > 0 \<or> sub > 0 then True
         else if com > 0 \<and> (act > 0 \<or> sub > 0 \<or> que > 0) then True
         else stay_free_loop ss com sub que act)"

text \<open>The states of the tasks below a node, in the order of \<open>allChildren\<close>.\<close>

fun task_states :: "node \<Rightarrow> NState_State list" where
  "task_states (Node nd ks) =
     concat (map (\<lambda>k. (if nd_kind (ndata k) = K_Task then [node_state k] else []) @ task_states k) ks)"

fun days_changed :: "calendar \<Rightarrow> bool \<Rightarrow> day_attr list \<Rightarrow> ecf \<Rightarrow> bool \<times> day_attr list \<times> ecf" where
  "days_changed c clr [] g = (False, [], g)"
| "days_changed c clr (a # as) g =
     (let (a1, g1) = DayAttr_calendarChanged c clr a g;
          (b, as1, g2) = days_changed c clr as g1
      in (DayAttr_isFree c a1 \<or> b, a1 # as1, g2))"

fun dates_changed :: "calendar \<Rightarrow> bool \<Rightarrow> date_attr list \<Rightarrow> ecf \<Rightarrow> bool \<times> date_attr list \<times> ecf" where
  "dates_changed c clr [] g = (False, [], g)"
| "dates_changed c clr (a # as) g =
     (let (a1, g1) = DateAttr_calendarChanged c clr a g;
          (b, as1, g2) = dates_changed c clr as g1
      in (DateAttr_isFree c a1 \<or> b, a1 # as1, g2))"

definition times_changed :: "gregorian \<Rightarrow> calendar \<Rightarrow> node_times \<Rightarrow> ecf \<Rightarrow> (node_times \<times> ecf) run" where
  "times_changed greg c nt g =
     run_bind (each (\<lambda>a g. run_option (TimeAttr_calendarChanged c a g)) (nt_times nt) g) (\<lambda>(ts, g1).
     run_bind (each (\<lambda>a g. run_option (TodayAttr_calendarChanged c a g)) (nt_todays nt) g1) (\<lambda>(ys, g2).
     run_bind (each (\<lambda>a g. run_option (CronAttr_calendarChanged greg c a g)) (nt_crons nt) g2) (\<lambda>(cs, g3).
       run_ret (nt\<lparr>nt_times := ts, nt_todays := ys, nt_crons := cs\<rparr>, g3))))"

text \<open>\<open>calendar_changed_timeattrs\<close>: the result is true when a day or date holds the node. \<open>tasks\<close> are the states of
  the tasks below it.\<close>

definition calendar_changed_timeattrs ::
    "gregorian \<Rightarrow> calendar \<Rightarrow> bool \<Rightarrow> NState_State list \<Rightarrow> node_times \<Rightarrow> ecf \<Rightarrow> (bool \<times> node_times \<times> ecf) run" where
  "calendar_changed_timeattrs greg c isNodeContainer tasks nt g =
     (if nt_days nt = [] \<and> nt_dates nt = []
      then run_bind (times_changed greg c nt g) (\<lambda>(nt1, g1). run_ret (False, nt1, g1))
      else
        let free_date = list_ex (DateAttr_isFree c) (nt_dates nt);
            free_day = list_ex (DayAttr_isFree c) (nt_days nt);
            stay = (cal_dayChanged c \<and> isNodeContainer \<and> (free_date \<or> free_day) \<and> stay_free_loop tasks 0 0 0 0);
            clear_date_at_midnight = (\<not> (stay \<and> free_date));
            clear_day_at_midnight = (\<not> (stay \<and> free_day));
            (at_least_one_day_free, ws, g1) = days_changed c clear_day_at_midnight (nt_days nt) g;
            (at_least_one_date_free, ds, g2) = dates_changed c clear_date_at_midnight (nt_dates nt) g1;
            nt1 = nt\<lparr>nt_days := ws, nt_dates := ds\<rparr>
        in if at_least_one_day_free \<or> at_least_one_date_free
           then run_bind (times_changed greg c nt1 g2) (\<lambda>(nt2, g3). run_ret (False, nt2, g3))
           else run_ret (True, nt1, g2))"

section \<open>Hybrid clocks, requeue after completion, missed slots\<close>

definition has_time_dependencies :: "node_times \<Rightarrow> bool" where
  "has_time_dependencies nt =
     (if nt_times nt \<noteq> [] then True
      else if nt_todays nt \<noteq> [] then True
      else if nt_crons nt \<noteq> [] then True
      else if nt_dates nt \<noteq> [] then True
      else if nt_days nt \<noteq> [] then True
      else False)"

definition markHybridTimeDependentsAsComplete :: "calendar \<Rightarrow> node_data \<Rightarrow> ecf \<Rightarrow> node_data \<times> ecf" where
  "markHybridTimeDependentsAsComplete c nd g =
     (let nt = nd_time nd; set_to = (\<lambda>s. setStateOnly (cal_duration c) s False nd g)
      in if ns_st (nd_st nd) \<noteq> NS_COMPLETE \<and> cal_hybrid c \<and> (nt_dates nt \<noteq> [] \<or> nt_days nt \<noteq> [] \<or> nt_crons nt \<noteq> [])
         then
           let noOfTimeDependencies =
                 (if nt_dates nt \<noteq> [] then 1 else 0) + (if nt_days nt \<noteq> [] then 1 else 0)
                   + (if nt_crons nt \<noteq> [] then 1 else (0 :: nat));
               oneDateIsFree = list_ex (DateAttr_validForHybrid c) (nt_dates nt);
               oneDayIsFree = list_ex (DayAttr_validForHybrid c) (nt_days nt);
               oneCronIsFree = list_ex (CronAttr_validForHybrid c) (nt_crons nt)
           in if oneDateIsFree \<and> noOfTimeDependencies = 1 then set_to NS_QUEUED
              else if oneDayIsFree \<and> noOfTimeDependencies = 1 then set_to NS_QUEUED
              else if oneCronIsFree \<and> noOfTimeDependencies = 1 then set_to NS_QUEUED
              else if (oneDateIsFree \<or> oneDayIsFree \<or> oneCronIsFree) \<and> noOfTimeDependencies > 1
              then if nt_dates nt \<noteq> [] \<and> \<not> oneDateIsFree then set_to NS_COMPLETE
                   else if nt_days nt \<noteq> [] \<and> \<not> oneDayIsFree then set_to NS_COMPLETE
                   else if nt_crons nt \<noteq> [] \<and> \<not> oneCronIsFree then set_to NS_COMPLETE
                   else set_to NS_QUEUED
              else set_to NS_COMPLETE
         else (nd, g))"

text \<open>The loop over \<open>checkForRequeue\<close> of the time (or today) attributes: it stops at the first yes.\<close>

fun check_times_loop ::
    "calendar \<Rightarrow> time_slot \<times> time_slot \<Rightarrow> bool \<Rightarrow> time_attr list \<Rightarrow> bool \<times> time_attr list" where
  "check_times_loop c mm cmd [] = (False, [])"
| "check_times_loop c mm cmd (a # as) =
     (let (b, a1) = TimeAttr_checkForRequeue c (fst mm) (snd mm) cmd a
      in if b then (True, a1 # as)
         else let (b2, as1) = check_times_loop c mm cmd as in (b2, a1 # as1))"

definition check_times :: "calendar \<Rightarrow> bool \<Rightarrow> time_attr list \<Rightarrow> bool \<times> time_attr list" where
  "check_times c cmd as =
     check_times_loop c (fold (\<lambda>a. min_max_time_slots (ta_ts a)) as (NULL_slot, NULL_slot)) cmd as"

fun check_days_loop :: "calendar \<Rightarrow> day_attr list \<Rightarrow> bool res" where
  "check_days_loop c [] = Inr False"
| "check_days_loop c (a # as) =
     res_bind (DayAttr_checkForRequeue c a) (\<lambda>b. if b then Inr True else check_days_loop c as)"

definition testTimeDependenciesForRequeue ::
    "gregorian \<Rightarrow> (int \<Rightarrow> int \<Rightarrow> int \<Rightarrow> int) \<Rightarrow> calendar \<Rightarrow> bool \<Rightarrow> node_times \<Rightarrow> ecf \<Rightarrow> (bool \<times> node_times \<times> ecf) run" where
  "testTimeDependenciesForRequeue greg gregDay c cmd_context nt g =
     (if list_ex (CronAttr_checkForRequeue c) (nt_crons nt) then run_ret (True, nt, g)
      else
        let (b, ts) = check_times c cmd_context (nt_times nt); nt1 = nt\<lparr>nt_times := ts\<rparr>
        in if b then run_ret (True, nt1, g)
           else
             let (b2, ys) = check_times c cmd_context (nt_todays nt1); nt2 = nt1\<lparr>nt_todays := ys\<rparr>
             in if b2 then run_ret (True, nt2, g)
                else if list_ex (DateAttr_checkForRequeue gregDay c) (nt_dates nt2) then run_ret (True, nt2, g)
                else
                  run_bind (each (\<lambda>a g. if cmd_context then run_ret (set_expired a g)
                                        else Some (check_for_expiration greg c a g)) (nt_days nt2) g) (\<lambda>(ws, g1).
                  run_bind (Some (check_days_loop c ws)) (\<lambda>b3. run_ret (b3, nt2\<lparr>nt_days := ws\<rparr>, g1))))"

text \<open>Change the first element that passes a test, and leave the others.\<close>

fun change_first :: "('a \<Rightarrow> bool) \<Rightarrow> ('a \<Rightarrow> ecf \<Rightarrow> 'a \<times> ecf) \<Rightarrow> 'a list \<Rightarrow> ecf \<Rightarrow> 'a list \<times> ecf" where
  "change_first P f [] g = ([], g)"
| "change_first P f (x # xs) g =
     (if P x then let (y, g1) = f x g in (y # xs, g1)
      else let (ys, g1) = change_first P f xs g in (x # ys, g1))"

definition miss_next_time_slot :: "node_data \<Rightarrow> ecf \<Rightarrow> node_data \<times> ecf" where
  "miss_next_time_slot nd g =
     (if has_time_dependencies (nd_time nd) \<and> \<not> Flag_is_set FL_NO_REQUE_IF_SINGLE_TIME_DEP (nd_flag nd)
      then let nt = nd_time nd;
               (f, g1) = Flag_set FL_NO_REQUE_IF_SINGLE_TIME_DEP (nd_flag nd) g;
               (ts, g2) = change_first (\<lambda>a. ts_isValid (ta_ts a)) TimeAttr_miss_next_time_slot (nt_times nt) g1;
               (ys, g3) = change_first (\<lambda>a. ts_isValid (ta_ts a)) TimeAttr_miss_next_time_slot (nt_todays nt) g2;
               (cs, g4) = change_first (\<lambda>a. ts_isValid (cr_timeSeries a)) CronAttr_miss_next_time_slot (nt_crons nt) g3
           in (nd\<lparr>nd_flag := f, nd_time := nt\<lparr>nt_times := ts, nt_todays := ys, nt_crons := cs\<rparr>\<rparr>, g4)
      else (nd, g))"

definition freeHoldingDateDependencies :: "calendar \<Rightarrow> node_times \<Rightarrow> ecf \<Rightarrow> node_times \<times> ecf" where
  "freeHoldingDateDependencies c nt g =
     (let (ds, g1) = change_first (\<lambda>a. \<not> DateAttr_isFree c a) DateAttr_setFree (nt_dates nt) g
      in (nt\<lparr>nt_dates := ds\<rparr>, g1))"

text \<open>The first attribute that is not free is set free, and its next slot missed.\<close>

fun free_first :: "('a \<Rightarrow> bool option) \<Rightarrow> ('a \<Rightarrow> ecf \<Rightarrow> 'a \<times> ecf) \<Rightarrow> 'a list \<Rightarrow> ecf \<Rightarrow> ('a list \<times> ecf) run" where
  "free_first isFree f [] g = run_ret ([], g)"
| "free_first isFree f (x # xs) g =
     run_bind (run_option (isFree x)) (\<lambda>b.
       if \<not> b then let (y, g1) = f x g in run_ret (y # xs, g1)
       else run_bind (free_first isFree f xs g) (\<lambda>(ys, g1). run_ret (x # ys, g1)))"

definition freeHoldingTimeDependencies :: "gregorian \<Rightarrow> calendar \<Rightarrow> node_times \<Rightarrow> ecf \<Rightarrow> (node_times \<times> ecf) run" where
  "freeHoldingTimeDependencies greg c nt g =
     (let free_miss = (\<lambda>a g. let (a1, g1) = TimeAttr_setFree a g in TimeAttr_miss_next_time_slot a1 g1);
          free_cron = (\<lambda>a g. let (a1, g1) = CronAttr_setFree a g in CronAttr_miss_next_time_slot a1 g1)
      in run_bind (free_first (TimeAttr_isFree c) free_miss (nt_times nt) g) (\<lambda>(ts, g1).
         run_bind (free_first (TodayAttr_isFree c) free_miss (nt_todays nt) g1) (\<lambda>(ys, g2).
         let (ws, g3) = change_first (\<lambda>a. \<not> DayAttr_isFree c a) DayAttr_setFree (nt_days nt) g2
         in run_bind (free_first (CronAttr_isFree greg c) free_cron (nt_crons nt) g3) (\<lambda>(cs, g4).
              run_ret (nt\<lparr>nt_times := ts, nt_todays := ys, nt_days := ws, nt_crons := cs\<rparr>, g4)))))"

section \<open>Are the time dependencies free?\<close>

definition holding_day_or_date :: "calendar \<Rightarrow> node_times \<Rightarrow> bool" where
  "holding_day_or_date c nt =
     (if nt_days nt = [] \<and> nt_dates nt = [] then False
      else if list_ex (DayAttr_isFree c) (nt_days nt) \<or> list_ex (DateAttr_isFree c) (nt_dates nt) then False
      else True)"

text \<open>The loop over several \<open>today\<close> attributes: one that matches now, or all of them free.\<close>

fun todays_loop :: "calendar \<Rightarrow> today_attr list \<Rightarrow> nat \<Rightarrow> (bool \<times> nat) run" where
  "todays_loop c [] free_count = run_ret (False, free_count)"
| "todays_loop c (a # as) free_count =
     run_bind (run_option (ts_isFree c (ta_ts a))) (\<lambda>b.
       if b then run_ret (True, free_count)
       else run_bind (run_option (TodayAttr_isFree c a)) (\<lambda>b2.
              todays_loop c as (if b2 then free_count + 1 else free_count)))"

definition todays_free :: "calendar \<Rightarrow> today_attr list \<Rightarrow> bool run" where
  "todays_free c as =
     (case as of
        [] \<Rightarrow> run_ret False
      | [a] \<Rightarrow> run_option (TodayAttr_isFree c a)
      | _ \<Rightarrow> run_bind (todays_loop c as 0) (\<lambda>(one, free_count). run_ret (one \<or> free_count = length as)))"

definition no_of_time_dependencies :: "node_times \<Rightarrow> nat" where
  "no_of_time_dependencies nt =
     (if nt_times nt \<noteq> [] then 1 else 0) + (if nt_todays nt \<noteq> [] then 1 else 0) + (if nt_dates nt \<noteq> [] then 1 else 0)
       + (if nt_days nt \<noteq> [] then 1 else 0) + (if nt_crons nt \<noteq> [] then 1 else 0)"

definition timeDependenciesFree :: "gregorian \<Rightarrow> calendar \<Rightarrow> node_times \<Rightarrow> bool run" where
  "timeDependenciesFree greg c nt =
     (let noOfTimeDependencies = no_of_time_dependencies nt; single = (noOfTimeDependencies = 1)
      in if noOfTimeDependencies = 0 then run_ret True
         else if holding_day_or_date c nt then run_ret False
         else
           run_bind (any_of (TimeAttr_isFree c) (nt_times nt)) (\<lambda>oneTimeIsFree.
             if single \<and> oneTimeIsFree then run_ret True
             else run_bind (any_of (CronAttr_isFree greg c) (nt_crons nt)) (\<lambda>oneCronIsFree.
               if single \<and> oneCronIsFree then run_ret True
               else
                 let oneDateIsFree = list_ex (DateAttr_isFree c) (nt_dates nt);
                     oneDayIsFree = list_ex (DayAttr_isFree c) (nt_days nt)
                 in if single \<and> oneDateIsFree then run_ret True
                    else if single \<and> oneDayIsFree then run_ret True
                    else run_bind (todays_free c (nt_todays nt)) (\<lambda>oneTodayIsFree.
                      if single \<and> oneTodayIsFree then run_ret True
                      else if (oneDateIsFree \<or> oneDayIsFree \<or> oneTodayIsFree \<or> oneTimeIsFree \<or> oneCronIsFree)
                              \<and> noOfTimeDependencies > 1
                      then if nt_dates nt \<noteq> [] \<and> \<not> oneDateIsFree then run_ret False
                           else if nt_days nt \<noteq> [] \<and> \<not> oneDayIsFree then run_ret False
                           else if nt_todays nt \<noteq> [] \<and> \<not> oneTodayIsFree then run_ret False
                           else if nt_times nt \<noteq> [] \<and> \<not> oneTimeIsFree then run_ret False
                           else if nt_crons nt \<noteq> [] \<and> \<not> oneCronIsFree then run_ret False
                           else run_ret True
                      else run_ret False))))"

definition time_today_cron_is_free :: "gregorian \<Rightarrow> calendar \<Rightarrow> node_times \<Rightarrow> bool run" where
  "time_today_cron_is_free greg c nt =
     (if nt_times nt = [] \<and> nt_todays nt = [] \<and> nt_crons nt = [] then run_ret False
      else
        let noOfTimeDependencies =
              (if nt_times nt \<noteq> [] then 1 else 0) + (if nt_todays nt \<noteq> [] then 1 else 0)
                + (if nt_crons nt \<noteq> [] then 1 else (0 :: nat));
            single = (noOfTimeDependencies = 1)
        in run_bind (any_of (TimeAttr_isFree c) (nt_times nt)) (\<lambda>oneTimeIsFree.
             if single \<and> oneTimeIsFree then run_ret True
             else run_bind (any_of (CronAttr_isFree greg c) (nt_crons nt)) (\<lambda>oneCronIsFree.
               if single \<and> oneCronIsFree then run_ret True
               else run_bind (case nt_todays nt of
                                [] \<Rightarrow> run_ret False
                              | [a] \<Rightarrow> run_option (TodayAttr_isFree c a)
                              | as \<Rightarrow> any_of (\<lambda>a. ts_isFree c (ta_ts a)) as) (\<lambda>oneTodayIsFree.
                 if single \<and> oneTodayIsFree then run_ret True
                 else if (oneTodayIsFree \<or> oneTimeIsFree \<or> oneCronIsFree) \<and> noOfTimeDependencies > 1
                 then if nt_todays nt \<noteq> [] \<and> \<not> oneTodayIsFree then run_ret False
                      else if nt_times nt \<noteq> [] \<and> \<not> oneTimeIsFree then run_ret False
                      else if nt_crons nt \<noteq> [] \<and> \<not> oneCronIsFree then run_ret False
                      else run_ret True
                 else run_ret False))))"

section \<open>Different kinds are conjoined\<close>

text \<open>The attributes of one kind are alternatives and the kinds are conjoined. Several \<open>today\<close> attributes are free together
  when one of them matches the current time or all of them are free.\<close>

definition times_inv :: "node_times \<Rightarrow> bool" where
  "times_inv nt \<longleftrightarrow> list_all ta_inv (nt_times nt) \<and> list_all ta_inv (nt_todays nt) \<and> list_all cr_inv (nt_crons nt)"

definition kind_free :: "('a \<Rightarrow> bool) \<Rightarrow> 'a list \<Rightarrow> bool" where
  "kind_free P xs \<longleftrightarrow> xs = [] \<or> list_ex P xs"

definition todays_spec :: "calendar \<Rightarrow> today_attr list \<Rightarrow> bool" where
  "todays_spec c as \<longleftrightarrow>
     (length as \<noteq> 1 \<and> (\<exists>a \<in> set as. ts_isFree c (ta_ts a) = Some True)) \<or>
     (\<forall>a \<in> set as. TodayAttr_isFree c a = Some True)"

definition time_free_spec :: "gregorian \<Rightarrow> calendar \<Rightarrow> node_times \<Rightarrow> bool" where
  "time_free_spec greg c nt \<longleftrightarrow>
     kind_free (\<lambda>a. TimeAttr_isFree c a = Some True) (nt_times nt) \<and>
     todays_spec c (nt_todays nt) \<and>
     kind_free (\<lambda>a. CronAttr_isFree greg c a = Some True) (nt_crons nt) \<and>
     kind_free (DateAttr_isFree c) (nt_dates nt) \<and>
     kind_free (DayAttr_isFree c) (nt_days nt)"

lemma TimeAttr_isFree_returns: "ta_inv a \<Longrightarrow> \<exists>b. TimeAttr_isFree c a = Some b"
  using ts_isFree_eq [of "ta_ts a" c] by (auto simp: ta_inv_def TimeAttr_isFree_def)

lemma TodayAttr_isFree_returns: "ta_inv a \<Longrightarrow> \<exists>b. TodayAttr_isFree c a = Some b"
  using TodayAttr_is_free_returns [of a c] by (auto simp: TodayAttr_isFree_def)

lemma CronAttr_isFree_returns: "cr_inv a \<Longrightarrow> \<exists>b. CronAttr_isFree greg c a = Some b"
  using ts_isFree_eq [of "cr_timeSeries a" c] by (auto simp: cr_inv_def CronAttr_isFree_def)

lemma any_of_spec:
  "(\<And>x. x \<in> set xs \<Longrightarrow> \<exists>b. t x = Some b) \<Longrightarrow> any_of t xs = run_ret (list_ex (\<lambda>x. t x = Some True) xs)"
proof (induction xs)
  case (Cons x xs)
  then obtain b where "t x = Some b" by fastforce
  with Cons show ?case by simp
qed simp

lemma todays_loop_spec:
  assumes "list_all ta_inv as"
  shows "\<exists>one k. todays_loop c as n = run_ret (one, k) \<and>
    (one \<longleftrightarrow> (\<exists>a \<in> set as. ts_isFree c (ta_ts a) = Some True)) \<and>
    (\<not> one \<longrightarrow> k = n + length (filter (\<lambda>a. TodayAttr_isFree c a = Some True) as))"
  using assms
proof (induction as arbitrary: n)
  case (Cons a as)
  then obtain b where b: "ts_isFree c (ta_ts a) = Some b" using ts_isFree_eq [of "ta_ts a" c] by (auto simp: ta_inv_def)
  from Cons.prems obtain b2 where b2: "TodayAttr_isFree c a = Some b2" using TodayAttr_isFree_returns [of a c] by auto
  show ?case
  proof (cases b)
    case False
    obtain one k where ih: "todays_loop c as (if b2 then n + 1 else n) = run_ret (one, k)"
      "one \<longleftrightarrow> (\<exists>a \<in> set as. ts_isFree c (ta_ts a) = Some True)"
      "\<not> one \<longrightarrow> k = (if b2 then n + 1 else n) + length (filter (\<lambda>a. TodayAttr_isFree c a = Some True) as)"
      using Cons.IH [of "if b2 then n + 1 else n"] Cons.prems by auto
    with b b2 False show ?thesis by (cases b2) auto
  next
    case True
    with b show ?thesis by (intro exI [of _ True] exI [of _ n]) simp
  qed
qed (auto intro: exI [of _ False])

lemma length_filter_all: "length (filter P xs) = length xs \<longleftrightarrow> (\<forall>x \<in> set xs. P x)"
proof (cases "\<forall>x \<in> set xs. P x")
  case False
  then have "length (filter P xs) < length xs" by (auto intro: length_filter_less)
  with False show ?thesis by simp
qed simp

lemma todays_free_spec:
  assumes "list_all ta_inv as"
  shows "todays_free c as = run_ret (as \<noteq> [] \<and> todays_spec c as)"
proof -
  consider "as = []" | a where "as = [a]" | a b r where "as = a # b # r" by (metis list.exhaust)
  then show ?thesis
  proof cases
    case (2 a)
    with assms show ?thesis using TodayAttr_isFree_returns [of a c] by (auto simp: todays_free_def todays_spec_def)
  next
    case (3 a b r)
    obtain one k where l: "todays_loop c as 0 = run_ret (one, k)" "one \<longleftrightarrow> (\<exists>a \<in> set as. ts_isFree c (ta_ts a) = Some True)"
      "\<not> one \<longrightarrow> k = length (filter (\<lambda>a. TodayAttr_isFree c a = Some True) as)"
      using todays_loop_spec [OF assms, of c 0] by auto
    have "length (filter (\<lambda>a. TodayAttr_isFree c a = Some True) as) = length as \<longleftrightarrow> (\<forall>a \<in> set as. TodayAttr_isFree c a = Some True)"
      by (rule length_filter_all)
    moreover have "length as \<noteq> 1" using 3 by simp
    ultimately have "(one \<or> k = length as) \<longleftrightarrow> todays_spec c as"
      using l(2,3) unfolding todays_spec_def by (cases one) auto
    moreover have "todays_free c as = run_bind (todays_loop c as 0) (\<lambda>(one, free_count). run_ret (one \<or> free_count = length as))"
      by (simp add: todays_free_def 3)
    ultimately show ?thesis using l(1) 3 by simp
  qed (simp add: todays_free_def)
qed

lemma timeDependenciesFree_eq:
  assumes "times_inv nt"
  shows "timeDependenciesFree greg c nt = run_ret (time_free_spec greg c nt)"
proof -
  have t: "any_of (TimeAttr_isFree c) (nt_times nt) = run_ret (list_ex (\<lambda>a. TimeAttr_isFree c a = Some True) (nt_times nt))"
    using assms TimeAttr_isFree_returns by (intro any_of_spec) (auto simp: times_inv_def list_all_iff)
  have cr: "any_of (CronAttr_isFree greg c) (nt_crons nt) =
      run_ret (list_ex (\<lambda>a. CronAttr_isFree greg c a = Some True) (nt_crons nt))"
    using assms CronAttr_isFree_returns by (intro any_of_spec) (auto simp: times_inv_def list_all_iff)
  have td: "todays_free c (nt_todays nt) = run_ret (nt_todays nt \<noteq> [] \<and> todays_spec c (nt_todays nt))"
    using assms by (intro todays_free_spec) (simp add: times_inv_def)
  have td0: "todays_spec c []" "todays_free c [] = run_ret False" by (simp_all add: todays_spec_def todays_free_def)
  show ?thesis
    by (cases "nt_times nt = []"; cases "nt_todays nt = []"; cases "nt_crons nt = []"; cases "nt_dates nt = []";
        cases "nt_days nt = []")
      (auto simp: timeDependenciesFree_def time_free_spec_def kind_free_def holding_day_or_date_def
        no_of_time_dependencies_def t cr td td0 Let_def)
qed


definition three_hourly :: node_times where
  "three_hourly = no_times\<lparr>nt_times := [TimeAttr every_three_hours], nt_crons := [plain_cron]\<rparr>"

lemma three_hourly_inv: "times_inv three_hourly"
  using every_three_hours_inv
  by (simp add: times_inv_def three_hourly_def no_times_def TimeAttr_def ta_inv_def cr_inv_def plain_cron_def)


section \<open>From a requeue to the next run\<close>

text \<open>A sequence of calendar updates of one node, each with the states of the tasks below it at that time.\<close>

fun node_run ::
    "gregorian \<Rightarrow> bool \<Rightarrow> (calendar \<times> NState_State list) list \<Rightarrow> node_times \<Rightarrow> ecf \<Rightarrow> (node_times \<times> ecf) run" where
  "node_run greg cont [] nt g = run_ret (nt, g)"
| "node_run greg cont ((c, tasks) # us) nt g =
     run_bind (calendar_changed_timeattrs greg c cont tasks nt g) (\<lambda>(_, nt1, g1). node_run greg cont us nt1 g1)"

text \<open>One update of an attribute whose series does not move: the latch.\<close>

definition time_latched :: "calendar set \<Rightarrow> time_attr \<Rightarrow> time_attr \<Rightarrow> bool" where
  "time_latched C a a' \<longleftrightarrow>
     ta_ts a' = ta_ts a \<and> (ta_free a' \<longleftrightarrow> ta_free a \<or> (\<exists>c \<in> C. ts_isFree c (ta_ts a) = Some True))"

text \<open>A cron but for its latch.\<close>

definition cron_core :: "cron_attr \<Rightarrow> cron_attr" where
  "cron_core a = a\<lparr>cr_free := False, cr_state_change_no := 0\<rparr>"

definition cron_latched :: "gregorian \<Rightarrow> calendar set \<Rightarrow> cron_attr \<Rightarrow> cron_attr \<Rightarrow> bool" where
  "cron_latched greg C a a' \<longleftrightarrow>
     cron_core a' = cron_core a \<and> (cr_free a' \<longleftrightarrow> cr_free a \<or> (\<exists>c \<in> C. cron_free_now greg c a = Some True))"

lemma cron_core_fields: "cron_core a' = cron_core a \<Longrightarrow>
    cr_timeSeries a' = cr_timeSeries a \<and> cr_weekDays a' = cr_weekDays a \<and>
    cr_last_week_days_of_month a' = cr_last_week_days_of_month a \<and> cr_daysOfMonth a' = cr_daysOfMonth a \<and>
    cr_months a' = cr_months a \<and> cr_last_day_of_month a' = cr_last_day_of_month a"
  by (cases a; cases a') (simp add: cron_core_def)

lemma cron_core_now: "cron_core a' = cron_core a \<Longrightarrow> cron_free_now greg c a' = cron_free_now greg c a"
  by (drule cron_core_fields) (simp add: cron_free_now_def is_day_of_week_day_of_month_and_month_free_def
      last_week_day_of_month_matches_def day_of_month_matches_def month_matches_def)

lemma time_latched_step:
  assumes "ta_inv a" "\<not> ts_relative (ta_ts a)" "\<not> cal_dayChanged c"
  shows "\<exists>a' g'. run_option (TimeAttr_calendarChanged c a g) = run_ret (a', g') \<and> time_latched {c} a a'"
proof -
  obtain b where "ts_isFree c (ta_ts a) = Some b" using assms ts_isFree_eq [of "ta_ts a" c] by (auto simp: ta_inv_def)
  with assms(2,3) show ?thesis
    by (auto simp: TimeAttr_calendarChanged_def TimeAttr_series_changed_def ts_calendarChanged_def TimeAttr_isFree_def
        TimeAttr_setFree_def time_latched_def split: prod.splits)
qed

lemma cron_latched_step:
  assumes "cr_inv a" "\<not> ts_relative (cr_timeSeries a)" "\<not> cal_dayChanged c"
  shows "\<exists>a' g'. run_option (CronAttr_calendarChanged greg c a g) = run_ret (a', g') \<and> cron_latched greg {c} a a'"
proof -
  obtain b where "ts_isFree c (cr_timeSeries a) = Some b"
    using assms ts_isFree_eq [of "cr_timeSeries a" c] by (auto simp: cr_inv_def)
  with assms(2,3) show ?thesis
    by (auto simp: CronAttr_calendarChanged_def ts_calendarChanged_def CronAttr_isFree_def cron_free_now_def
        CronAttr_setFree_def cron_latched_def cron_core_def split: prod.splits)
qed

lemma time_latched_trans:
  "time_latched C a a1 \<Longrightarrow> time_latched D a1 a2 \<Longrightarrow> time_latched (C \<union> D) a a2"
  by (auto simp: time_latched_def)

lemma cron_latched_trans:
  assumes "cron_latched greg C a a1" "cron_latched greg D a1 a2"
  shows "cron_latched greg (C \<union> D) a a2"
proof -
  from assms have core: "cron_core a1 = cron_core a" by (simp add: cron_latched_def)
  have now: "cron_free_now greg c a1 = cron_free_now greg c a" for c by (rule cron_core_now [OF core])
  from assms show ?thesis unfolding cron_latched_def now by auto
qed

lemma node_run_latched:
  assumes "times_inv nt" "nt_todays nt = []" "nt_dates nt = []" "nt_days nt = []"
    and "\<forall>a \<in> set (nt_times nt). \<not> ts_relative (ta_ts a)" "\<forall>a \<in> set (nt_crons nt). \<not> ts_relative (cr_timeSeries a)"
    and "\<forall>u \<in> set us. \<not> cal_dayChanged (fst u)"
  shows "\<exists>nt' g'. node_run greg cont us nt g = run_ret (nt', g') \<and>
    nt_todays nt' = [] \<and> nt_dates nt' = [] \<and> nt_days nt' = [] \<and>
    list_all2 (time_latched (fst ` set us)) (nt_times nt) (nt_times nt') \<and>
    list_all2 (cron_latched greg (fst ` set us)) (nt_crons nt) (nt_crons nt')"
  using assms
proof (induction us arbitrary: nt g)
  case Nil
  then show ?case by (simp add: time_latched_def cron_latched_def list_all2_same)
next
  case (Cons u us)
  obtain c tasks where u: "u = (c, tasks)" by fastforce
  with Cons.prems have day: "\<not> cal_dayChanged c" by simp
  obtain ts g1 where ts: "each (\<lambda>a g. run_option (TimeAttr_calendarChanged c a g)) (nt_times nt) g = run_ret (ts, g1)"
    "list_all2 (time_latched {c}) (nt_times nt) ts"
    using each_total [of "nt_times nt" "\<lambda>a g. run_option (TimeAttr_calendarChanged c a g)" "time_latched {c}" g]
      time_latched_step [OF _ _ day] Cons.prems(1,5) by (auto simp: times_inv_def list_all_iff)
  obtain cs g2 where cs: "each (\<lambda>a g. run_option (CronAttr_calendarChanged greg c a g)) (nt_crons nt) g1 = run_ret (cs, g2)"
    "list_all2 (cron_latched greg {c}) (nt_crons nt) cs"
    using each_total [of "nt_crons nt" "\<lambda>a g. run_option (CronAttr_calendarChanged greg c a g)" "cron_latched greg {c}" g1]
      cron_latched_step [OF _ _ day] Cons.prems(1,6) by (auto simp: times_inv_def list_all_iff)
  let ?nt = "nt\<lparr>nt_times := ts, nt_crons := cs\<rparr>"
  have step: "calendar_changed_timeattrs greg c cont tasks nt g = run_ret (False, ?nt, g2)"
    using Cons.prems(2-4) ts(1) cs(1) by (simp add: calendar_changed_timeattrs_def times_changed_def)
  have keep: "time_latched {c} a a' \<Longrightarrow> ta_ts a' = ta_ts a" "cron_latched greg {c} b b' \<Longrightarrow> cr_timeSeries b' = cr_timeSeries b" for a a' b b'
    by (auto simp: time_latched_def cron_latched_def dest: cron_core_fields)
  have t: "\<forall>a' \<in> set ts. \<exists>a \<in> set (nt_times nt). ta_ts a' = ta_ts a" and k: "\<forall>b' \<in> set cs. \<exists>b \<in> set (nt_crons nt). cr_timeSeries b' = cr_timeSeries b"
    using ts(2) cs(2) keep by (metis list_all2_conv_all_nth in_set_conv_nth)+
  have "times_inv ?nt" "\<forall>a \<in> set (nt_times ?nt). \<not> ts_relative (ta_ts a)" "\<forall>a \<in> set (nt_crons ?nt). \<not> ts_relative (cr_timeSeries a)"
    using t k Cons.prems(1,2,5,6) by (auto simp: times_inv_def list_all_iff ta_inv_def cr_inv_def)
  with Cons.IH [of ?nt g2] Cons.prems obtain nt' g' where r: "node_run greg cont us ?nt g2 = run_ret (nt', g')"
    "nt_todays nt' = []" "nt_dates nt' = []" "nt_days nt' = []"
    "list_all2 (time_latched (fst ` set us)) ts (nt_times nt')"
    "list_all2 (cron_latched greg (fst ` set us)) cs (nt_crons nt')"
    by auto
  have "list_all2 (time_latched ({c} \<union> fst ` set us)) (nt_times nt) (nt_times nt')"
    "list_all2 (cron_latched greg ({c} \<union> fst ` set us)) (nt_crons nt) (nt_crons nt')"
    by (rule list_all2_trans [OF time_latched_trans ts(2) r(5)], assumption+)
      (rule list_all2_trans [OF cron_latched_trans cs(2) r(6)], assumption+)
  with r step u show ?case by auto
qed

text \<open>The requeue of the attributes of a node without \<open>today\<close>, day and date attributes.\<close>

definition requeued_time :: "calendar \<Rightarrow> time_attr \<Rightarrow> time_attr \<Rightarrow> bool" where
  "requeued_time c0 a a1 \<longleftrightarrow>
     ta_inv a1 \<and> \<not> ts_relative (ta_ts a1) \<and> \<not> ta_free a1 \<and>
     (\<forall>c. ts_isFree c (ta_ts a1) = Some (ts_duration c (ta_ts a) \<in> ts_slots (ta_ts a) \<and> ts_duration c0 (ta_ts a) < ts_duration c (ta_ts a)))"

definition requeued_cron :: "gregorian \<Rightarrow> calendar \<Rightarrow> cron_attr \<Rightarrow> cron_attr \<Rightarrow> bool" where
  "requeued_cron greg c0 a a1 \<longleftrightarrow>
     cr_inv a1 \<and> \<not> ts_relative (cr_timeSeries a1) \<and> \<not> cr_free a1 \<and>
     (\<forall>c. cron_free_now greg c a1 =
        Some (ts_duration c (cr_timeSeries a) \<in> ts_slots (cr_timeSeries a) \<and>
              ts_duration c0 (cr_timeSeries a) < ts_duration c (cr_timeSeries a) \<and>
              is_day_of_week_day_of_month_and_month_free greg c a))"

lemma requeued_time_step:
  assumes "ta_inv a" "\<not> ts_relative (ta_ts a)"
  shows "\<exists>a1 g'. run_option (TimeAttr_requeue c0 True a g) = run_ret (a1, g') \<and> requeued_time c0 a a1"
proof -
  obtain ts1 where r: "ts_requeue c0 True (ta_ts a) = Some ts1"
    using ts_requeue_spec [OF assms(1) [unfolded ta_inv_def], of c0 True] by blast
  note f = ts_requeued_free [OF assms(1) [unfolded ta_inv_def] assms(2) r]
  show ?thesis
    using f r by (auto simp: TimeAttr_requeue_def TimeAttr_clearFree_def requeued_time_def ta_inv_def split: prod.split)
qed

lemma requeued_cron_step:
  assumes "cr_inv a" "\<not> ts_relative (cr_timeSeries a)"
  shows "\<exists>a1 g'. run_option (CronAttr_requeue c0 True a g) = run_ret (a1, g') \<and> requeued_cron greg c0 a a1"
proof -
  obtain ts1 where r: "ts_requeue c0 True (cr_timeSeries a) = Some ts1"
    using ts_requeue_spec [OF assms(1) [unfolded cr_inv_def], of c0 True] by blast
  note f = ts_requeued_free [OF assms(1) [unfolded cr_inv_def] assms(2) r]
  obtain n g' where q: "CronAttr_requeue c0 True a g = Some (a\<lparr>cr_free := False, cr_state_change_no := n, cr_timeSeries := ts1\<rparr>, g')"
    using r by (cases "incr_state_change_no g") (simp add: CronAttr_requeue_def CronAttr_clearFree_def)
  let ?a1 = "a\<lparr>cr_free := False, cr_state_change_no := n, cr_timeSeries := ts1\<rparr>"
  have "is_day_of_week_day_of_month_and_month_free greg c ?a1 = is_day_of_week_day_of_month_and_month_free greg c a" for c
    by (simp add: is_day_of_week_day_of_month_and_month_free_def last_week_day_of_month_matches_def
        day_of_month_matches_def month_matches_def)
  then have "requeued_cron greg c0 a ?a1" using f by (auto simp: requeued_cron_def cr_inv_def cron_free_now_def)
  with q show ?thesis by auto
qed

lemma do_requeue_times:
  assumes "times_inv nt" "nt_todays nt = []" "nt_dates nt = []" "nt_days nt = []"
    and "\<forall>a \<in> set (nt_times nt). \<not> ts_relative (ta_ts a)" "\<forall>a \<in> set (nt_crons nt). \<not> ts_relative (cr_timeSeries a)"
  shows "\<exists>nt1 g1. do_requeue_time_attrs greg c0 True False rt nt g = run_ret (nt1, g1) \<and>
    nt_todays nt1 = [] \<and> nt_dates nt1 = [] \<and> nt_days nt1 = [] \<and>
    list_all2 (requeued_time c0) (nt_times nt) (nt_times nt1) \<and>
    list_all2 (requeued_cron greg c0) (nt_crons nt) (nt_crons nt1)"
proof -
  obtain ts g1 where ts: "each (\<lambda>a g. run_option (TimeAttr_requeue c0 True a g)) (nt_times nt) g = run_ret (ts, g1)"
    "list_all2 (requeued_time c0) (nt_times nt) ts"
    using each_total [of "nt_times nt" "\<lambda>a g. run_option (TimeAttr_requeue c0 True a g)" "requeued_time c0" g]
      requeued_time_step assms(1,5) by (auto simp: times_inv_def list_all_iff)
  obtain cs g2 where cs: "each (\<lambda>a g. run_option (CronAttr_requeue c0 True a g)) (nt_crons nt) g1 = run_ret (cs, g2)"
    "list_all2 (requeued_cron greg c0) (nt_crons nt) cs"
    using each_total [of "nt_crons nt" "\<lambda>a g. run_option (CronAttr_requeue c0 True a g)" "requeued_cron greg c0" g1]
      requeued_cron_step assms(1,6) by (auto simp: times_inv_def list_all_iff)
  from ts cs assms(2-4) show ?thesis by (simp add: do_requeue_time_attrs_def)
qed

text \<open>From the requeue to the end of the updates, for one attribute.\<close>

lemma time_requeued_latched:
  assumes "requeued_time c0 a a1" "time_latched C a1 a2" "c \<in> C"
  shows "ta_inv a2 \<and> (TimeAttr_isFree c a2 = Some True \<longleftrightarrow>
    (\<exists>c \<in> C. ts_duration c (ta_ts a) \<in> ts_slots (ta_ts a) \<and> ts_duration c0 (ta_ts a) < ts_duration c (ta_ts a)))"
  using assms by (auto simp: requeued_time_def time_latched_def TimeAttr_isFree_def ta_inv_def)

lemma cron_requeued_latched:
  assumes "requeued_cron greg c0 a a1" "cron_latched greg C a1 a2" "c \<in> C"
  shows "cr_inv a2 \<and> (CronAttr_isFree greg c a2 = Some True \<longleftrightarrow>
    (\<exists>c \<in> C. ts_duration c (cr_timeSeries a) \<in> ts_slots (cr_timeSeries a) \<and>
       ts_duration c0 (cr_timeSeries a) < ts_duration c (cr_timeSeries a) \<and>
       is_day_of_week_day_of_month_and_month_free greg c a))"
proof -
  from assms(2) have core: "cron_core a2 = cron_core a1" by (simp add: cron_latched_def)
  then have inv: "cr_inv a2" using assms(1) cron_core_fields [OF core] by (simp add: requeued_cron_def cr_inv_def)
  then obtain b where "ts_isFree c (cr_timeSeries a2) = Some b" using ts_isFree_eq [of "cr_timeSeries a2" c] by (auto simp: cr_inv_def)
  then have "CronAttr_isFree greg c a2 = Some True \<longleftrightarrow> cr_free a2 \<or> cron_free_now greg c a2 = Some True"
    by (auto simp: CronAttr_isFree_def cron_free_now_def)
  with inv cron_core_now [OF core] assms show ?thesis by (auto simp: requeued_cron_def cron_latched_def)
qed

lemma list_all2_ex_iff:
  assumes "list_all2 (\<lambda>x y. I y \<and> (Q y \<longleftrightarrow> P x)) xs ys"
  shows "list_all I ys" "list_ex Q ys \<longleftrightarrow> list_ex P xs" "ys = [] \<longleftrightarrow> xs = []"
  using assms by (induction rule: list_all2_induct) auto

text \<open>C31. When a node runs next. After a requeue at \<open>c0\<close> a node with absolute time and cron attributes, and any sequence of
  calendar updates of that day, its time dependencies are free exactly when each of the two kinds it has was hit: an
  update fell in the minute of a slot after \<open>c0\<close> of one of its times, and an update did so for one of its crons on
  a date that the cron allows. The two need not be the same update.\<close>

theorem node_runs_at_its_times:
  assumes "times_inv nt" "nt_todays nt = []" "nt_dates nt = []" "nt_days nt = []"
    and "\<forall>a \<in> set (nt_times nt). \<not> ts_relative (ta_ts a)" "\<forall>a \<in> set (nt_crons nt). \<not> ts_relative (cr_timeSeries a)"
    and "us \<noteq> []" "\<forall>u \<in> set us. \<not> cal_dayChanged (fst u)"
    and "do_requeue_time_attrs greg c0 True False rt nt g0 = run_ret (nt1, g1)"
  defines "hit ts c \<equiv> ts_duration c ts \<in> ts_slots ts \<and> ts_duration c0 ts < ts_duration c ts"
  shows "\<exists>nt2 g2. node_run greg cont us nt1 g1 = run_ret (nt2, g2) \<and>
    timeDependenciesFree greg (fst (last us)) nt2 = run_ret
      ((nt_times nt = [] \<or> (\<exists>a \<in> set (nt_times nt). \<exists>u \<in> set us. hit (ta_ts a) (fst u))) \<and>
       (nt_crons nt = [] \<or> (\<exists>a \<in> set (nt_crons nt). \<exists>u \<in> set us.
          hit (cr_timeSeries a) (fst u) \<and> is_day_of_week_day_of_month_and_month_free greg (fst u) a)))"
proof -
  from do_requeue_times [OF assms(1-6), of greg c0 rt g0] assms(9)
  have nt1: "nt_todays nt1 = []" "nt_dates nt1 = []" "nt_days nt1 = []"
    "list_all2 (requeued_time c0) (nt_times nt) (nt_times nt1)" "list_all2 (requeued_cron greg c0) (nt_crons nt) (nt_crons nt1)"
    by auto
  have ok: "\<forall>a \<in> set (nt_times nt1). ta_inv a \<and> \<not> ts_relative (ta_ts a)" "\<forall>a \<in> set (nt_crons nt1). cr_inv a \<and> \<not> ts_relative (cr_timeSeries a)"
    using nt1(4,5) by (auto simp: list_all2_conv_all_nth in_set_conv_nth requeued_time_def requeued_cron_def)
  then have inv: "times_inv nt1" by (simp add: times_inv_def list_all_iff nt1(1))
  obtain nt2 g2 where r: "node_run greg cont us nt1 g1 = run_ret (nt2, g2)" "nt_todays nt2 = []" "nt_dates nt2 = []" "nt_days nt2 = []"
    "list_all2 (time_latched (fst ` set us)) (nt_times nt1) (nt_times nt2)"
    "list_all2 (cron_latched greg (fst ` set us)) (nt_crons nt1) (nt_crons nt2)"
    using node_run_latched [OF inv nt1(1-3) _ _ assms(8), of greg cont g1] ok by auto
  have lst: "fst (last us) \<in> fst ` set us" using assms(7) by simp
  note ts = list_all2_ex_iff [OF list_all2_trans [OF time_requeued_latched [OF _ _ lst] nt1(4) r(5)]]
  note cs = list_all2_ex_iff [OF list_all2_trans [OF cron_requeued_latched [OF _ _ lst] nt1(5) r(6)]]
  have inv2: "times_inv nt2" using ts(1) cs(1) by (simp add: times_inv_def r(2))
  show ?thesis
    using r(1-4) timeDependenciesFree_eq [OF inv2] ts(2,3) cs(2,3)
    by (simp add: time_free_spec_def kind_free_def todays_spec_def list_ex_iff hit_def)
qed

theorem node_runs_at_its_times_witness:
  "\<exists>nt1 g1 nt2 g2. do_requeue_time_attrs week_only half_past_eleven True False RQ_TIME three_hourly
       \<lparr>ecf_server = True, ecf_state_change_no = 0, ecf_modify_change_no = 0\<rparr> = run_ret (nt1, g1) \<and>
     node_run week_only False (map (\<lambda>c. (c, [])) noon_polls) nt1 g1 = run_ret (nt2, g2) \<and>
     timeDependenciesFree week_only (last noon_polls) nt2 = run_ret True"
proof -
  let ?g = "\<lparr>ecf_server = True, ecf_state_change_no = 0, ecf_modify_change_no = 0\<rparr>" and ?us = "map (\<lambda>c. (c, [])) noon_polls"
  have f: "nt_todays three_hourly = []" "nt_dates three_hourly = []" "nt_days three_hourly = []"
    "\<forall>a \<in> set (nt_times three_hourly). \<not> ts_relative (ta_ts a)" "\<forall>a \<in> set (nt_crons three_hourly). \<not> ts_relative (cr_timeSeries a)"
    "nt_times three_hourly = [TimeAttr every_three_hours]" "nt_crons three_hourly = [plain_cron]"
    by (simp_all add: three_hourly_def no_times_def TimeAttr_def plain_cron_def every_three_hours_def)
  have us: "?us \<noteq> []" "\<forall>u \<in> set ?us. \<not> cal_dayChanged (fst u)" "fst (last ?us) = last noon_polls"
    using noon_polls_hit(1) by (auto simp: noon_polls_def)
  have free: "is_day_of_week_day_of_month_and_month_free week_only c plain_cron" for c
    by (simp add: is_day_of_week_day_of_month_and_month_free_def plain_cron_def week_day_matches.simps
        last_week_day_of_month_matches_def day_of_month_matches_def month_matches_def)
  obtain nt1 g1 where q: "do_requeue_time_attrs week_only half_past_eleven True False RQ_TIME three_hourly ?g = run_ret (nt1, g1)"
    using do_requeue_times [OF three_hourly_inv f(1-5), of week_only half_past_eleven RQ_TIME ?g] by blast
  have s: "ta_ts (TimeAttr every_three_hours) = every_three_hours" "cr_timeSeries plain_cron = every_three_hours"
    by (simp_all add: TimeAttr_def plain_cron_def)
  from node_runs_at_its_times [OF three_hourly_inv f(1-5) us(1,2) q] noon_polls_hit(2) q
  show ?thesis by (auto simp: f us(3) s free)
qed

section \<open>A day or date guards the times\<close>

lemma day_holding_step:
  assumes "DayAttr_calendarChanged c clr a g = (a', g')" "\<not> DayAttr_isFree c a" "\<not> DayAttr_isFree c' a"
  shows "\<not> DayAttr_isFree c' a'" "\<not> DayAttr_isFree c a'"
  using assms by (auto simp: DayAttr_calendarChanged_def DayAttr_isFree_def DayAttr_clearFree_def DayAttr_is_free_def
      split: if_splits prod.splits)

lemma date_holding_step:
  assumes "DateAttr_calendarChanged c clr a g = (a', g')" "\<not> DateAttr_isFree c a" "\<not> DateAttr_isFree c' a"
  shows "\<not> DateAttr_isFree c' a'" "\<not> DateAttr_isFree c a'"
proof -
  have "DateAttr_is_free x (a\<lparr>dt_free := b, dt_state_change_no := n\<rparr>) = DateAttr_is_free x a" for x b n
    by (simp add: DateAttr_is_free_def)
  with assms show "\<not> DateAttr_isFree c' a'" "\<not> DateAttr_isFree c a'"
    by (auto simp: DateAttr_calendarChanged_def DateAttr_isFree_def DateAttr_clearFree_def split: if_splits prod.splits)
qed

lemma days_changed_holding:
  "days_changed c clr as g = (b, as', g') \<Longrightarrow> c \<in> C \<Longrightarrow> \<forall>a \<in> set as. \<forall>c' \<in> C. \<not> DayAttr_isFree c' a \<Longrightarrow>
     \<not> b \<and> length as' = length as \<and> (\<forall>a \<in> set as'. \<forall>c' \<in> C. \<not> DayAttr_isFree c' a)"
proof (induction as arbitrary: g b as' g')
  case (Cons a as)
  obtain a1 g1 where 1: "DayAttr_calendarChanged c clr a g = (a1, g1)" by fastforce
  obtain b2 as2 g2 where 2: "days_changed c clr as g1 = (b2, as2, g2)" by (metis prod_cases3)
  have "\<forall>c' \<in> C. \<not> DayAttr_isFree c' a1" using day_holding_step [OF 1] Cons.prems by auto
  with Cons.IH [OF 2] Cons.prems 1 2 show ?case by auto
qed simp

lemma dates_changed_holding:
  "dates_changed c clr as g = (b, as', g') \<Longrightarrow> c \<in> C \<Longrightarrow> \<forall>a \<in> set as. \<forall>c' \<in> C. \<not> DateAttr_isFree c' a \<Longrightarrow>
     \<not> b \<and> length as' = length as \<and> (\<forall>a \<in> set as'. \<forall>c' \<in> C. \<not> DateAttr_isFree c' a)"
proof (induction as arbitrary: g b as' g')
  case (Cons a as)
  obtain a1 g1 where 1: "DateAttr_calendarChanged c clr a g = (a1, g1)" by fastforce
  obtain b2 as2 g2 where 2: "dates_changed c clr as g1 = (b2, as2, g2)" by (metis prod_cases3)
  have "\<forall>c' \<in> C. \<not> DateAttr_isFree c' a1" using date_holding_step [OF 1] Cons.prems by auto
  with Cons.IH [OF 2] Cons.prems 1 2 show ?case by auto
qed simp

text \<open>The node is held at all the calendars of \<open>C\<close> by its days and dates.\<close>

definition day_held :: "calendar set \<Rightarrow> node_times \<Rightarrow> bool" where
  "day_held C nt \<longleftrightarrow> (nt_days nt \<noteq> [] \<or> nt_dates nt \<noteq> []) \<and>
     (\<forall>a \<in> set (nt_days nt). \<forall>c \<in> C. \<not> DayAttr_isFree c a) \<and> (\<forall>a \<in> set (nt_dates nt). \<forall>c \<in> C. \<not> DateAttr_isFree c a)"

lemma calendar_changed_held:
  assumes "day_held C nt" "c \<in> C"
  shows "\<exists>nt' g'. calendar_changed_timeattrs greg c cont tasks nt g = run_ret (True, nt', g') \<and> day_held C nt' \<and>
    nt_times nt' = nt_times nt \<and> nt_todays nt' = nt_todays nt \<and> nt_crons nt' = nt_crons nt"
proof -
  have none: "\<not> list_ex (DateAttr_isFree c) (nt_dates nt)" "\<not> list_ex (DayAttr_isFree c) (nt_days nt)"
    using assms by (auto simp: day_held_def list_ex_iff)
  obtain b1 ws g1 where w: "days_changed c True (nt_days nt) g = (b1, ws, g1)" by (metis prod_cases3)
  obtain b2 ds g2 where d: "dates_changed c True (nt_dates nt) g1 = (b2, ds, g2)" by (metis prod_cases3)
  have "\<not> b1 \<and> length ws = length (nt_days nt) \<and> (\<forall>a \<in> set ws. \<forall>c' \<in> C. \<not> DayAttr_isFree c' a)"
    "\<not> b2 \<and> length ds = length (nt_dates nt) \<and> (\<forall>a \<in> set ds. \<forall>c' \<in> C. \<not> DateAttr_isFree c' a)"
    using days_changed_holding [OF w assms(2)] dates_changed_holding [OF d assms(2)] assms(1) by (auto simp: day_held_def)
  with w d none assms(1) show ?thesis
    by (auto simp: calendar_changed_timeattrs_def day_held_def Let_def)
qed

text \<open>C32. A day or date guards the times of its node. While none of the days and dates of a node is free, the updates of the
  calendar leave its time, today and cron attributes as they are, over any number of days: a time slot that
  passes on another day is not remembered, and the node stays held at every one of these updates.\<close>

theorem day_guards_times:
  assumes "times_inv nt" "day_held (fst ` set us) nt"
  shows "\<exists>nt' g'. node_run greg cont us nt g = run_ret (nt', g') \<and>
    nt_times nt' = nt_times nt \<and> nt_todays nt' = nt_todays nt \<and> nt_crons nt' = nt_crons nt \<and>
    (\<forall>u \<in> set us. timeDependenciesFree greg (fst u) nt' = run_ret False)"
proof -
  have run: "\<exists>nt' g'. node_run greg cont us' nt g = run_ret (nt', g') \<and> day_held C nt' \<and>
      nt_times nt' = nt_times nt \<and> nt_todays nt' = nt_todays nt \<and> nt_crons nt' = nt_crons nt"
    if "day_held C nt" "fst ` set us' \<subseteq> C" for C us' nt g
    using that
  proof (induction us' arbitrary: nt g)
    case (Cons u us')
    obtain c tasks where u: "u = (c, tasks)" by fastforce
    with Cons.prems calendar_changed_held [of C nt c greg cont tasks g] obtain nt1 g1 where
      1: "calendar_changed_timeattrs greg c cont tasks nt g = run_ret (True, nt1, g1)" "day_held C nt1"
      "nt_times nt1 = nt_times nt" "nt_todays nt1 = nt_todays nt" "nt_crons nt1 = nt_crons nt" by auto
    from Cons.IH [OF 1(2), of g1] Cons.prems(2) 1 u show ?case by auto
  qed simp
  obtain nt' g' where r: "node_run greg cont us nt g = run_ret (nt', g')" "day_held (fst ` set us) nt'"
    "nt_times nt' = nt_times nt" "nt_todays nt' = nt_todays nt" "nt_crons nt' = nt_crons nt"
    using run [OF assms(2) subset_refl, of g] by blast
  then have inv: "times_inv nt'" using assms(1) by (simp add: times_inv_def)
  have "\<not> time_free_spec greg (fst u) nt'" if "u \<in> set us" for u
    using r(2) that by (auto simp: time_free_spec_def kind_free_def day_held_def list_ex_iff)
  then show ?thesis using r timeDependenciesFree_eq [OF inv] by auto
qed

text \<open>A node with a time and a day whose date is a week away.\<close>

theorem day_guards_times_witness:
  "\<exists>nt' g'. node_run week_only False (map (\<lambda>c. (c, [])) noon_polls)
       (three_hourly\<lparr>nt_days := [(DayAttr MONDAY)\<lparr>da_date := Some 7\<rparr>]\<rparr>)
       \<lparr>ecf_server = True, ecf_state_change_no = 0, ecf_modify_change_no = 0\<rparr> = run_ret (nt', g') \<and>
     nt_times nt' = [TimeAttr every_three_hours] \<and>
     timeDependenciesFree week_only (last noon_polls) nt' = run_ret False"
proof -
  let ?nt = "three_hourly\<lparr>nt_days := [(DayAttr MONDAY)\<lparr>da_date := Some 7\<rparr>]\<rparr>" and ?us = "map (\<lambda>c. (c, [])) noon_polls"
  have inv: "times_inv ?nt" using three_hourly_inv by (simp add: times_inv_def)
  have held: "day_held (fst ` set ?us) ?nt"
    by (auto simp: day_held_def three_hourly_def no_times_def DayAttr_def DayAttr_isFree_def DayAttr_is_free_def noon_polls_def
        Calendar_begin_def update_cache_def Let_def cal_date_def day_of_time_def)
  have l: "(last noon_polls, []) \<in> set ?us" by (simp add: noon_polls_def)
  have t: "nt_times ?nt = [TimeAttr every_three_hours]" by (simp add: three_hourly_def no_times_def)
  show ?thesis using day_guards_times [OF inv held, of week_only False] l t by fastforce
qed

section \<open>Further laws\<close>

text \<open>With a hybrid clock a node that has dates, days or crons is queued when each of these kinds is valid on the one date of
  the suite, and complete otherwise.\<close>

lemma hybrid_marking:
  assumes "cal_hybrid c" "ns_st (nd_st nd) \<noteq> NS_COMPLETE" "nt_dates (nd_time nd) \<noteq> [] \<or> nt_days (nd_time nd) \<noteq> [] \<or> nt_crons (nd_time nd) \<noteq> []"
  shows "markHybridTimeDependentsAsComplete c nd g =
    setStateOnly (cal_duration c)
      (if kind_free (DateAttr_validForHybrid c) (nt_dates (nd_time nd)) \<and> kind_free (DayAttr_validForHybrid c) (nt_days (nd_time nd)) \<and>
          kind_free (CronAttr_validForHybrid c) (nt_crons (nd_time nd))
       then NS_QUEUED else NS_COMPLETE) False nd g"
  using assms
  by (cases "nt_dates (nd_time nd) = []"; cases "nt_days (nd_time nd) = []"; cases "nt_crons (nd_time nd) = []")
    (auto simp: markHybridTimeDependentsAsComplete_def kind_free_def Let_def)

text \<open>A run by hand misses one slot, however often the job is run again before the next requeue.\<close>

lemma Flag_set_is_set: "t \<noteq> FL_NOT_SET \<Longrightarrow> Flag_is_set t (fst (Flag_set t f g))"
  using flag_types_set [of t f g] by (auto simp: flag_types_def)

lemma miss_next_time_slot_once:
  "miss_next_time_slot (fst (miss_next_time_slot nd g)) g' = (fst (miss_next_time_slot nd g), g')"
proof (cases "has_time_dependencies (nd_time nd) \<and> \<not> Flag_is_set FL_NO_REQUE_IF_SINGLE_TIME_DEP (nd_flag nd)")
  case True
  then have "nd_flag (fst (miss_next_time_slot nd g)) = fst (Flag_set FL_NO_REQUE_IF_SINGLE_TIME_DEP (nd_flag nd) g)"
    by (simp add: miss_next_time_slot_def Let_def split: prod.splits)
  then have "Flag_is_set FL_NO_REQUE_IF_SINGLE_TIME_DEP (nd_flag (fst (miss_next_time_slot nd g)))"
    by (simp add: Flag_set_is_set)
  then show ?thesis by (simp add: miss_next_time_slot_def [of "fst (miss_next_time_slot nd g)"])
qed (auto simp: miss_next_time_slot_def)

text \<open>A command that completes a node which waits for days expires them all, so the node is not requeued for a later day.\<close>

lemma command_expires_days:
  assumes "nt_crons nt = []" "nt_times nt = []" "nt_todays nt = []" "nt_dates nt = []"
  shows "\<exists>nt' g'. testTimeDependenciesForRequeue greg gregDay c True nt g = run_ret (False, nt', g') \<and>
    list_all da_expired (nt_days nt') \<and> length (nt_days nt') = length (nt_days nt)"
proof -
  have s: "\<exists>a' g'. run_ret (set_expired a g) = run_ret (a', g') \<and> da_expired a'" for a g
    by (simp add: set_expired_def split: prod.split)
  obtain ws g1 where e: "each (\<lambda>a g. run_ret (set_expired a g)) (nt_days nt) g = run_ret (ws, g1)"
    "list_all2 (\<lambda>a a'. da_expired a') (nt_days nt) ws"
    using each_total [of "nt_days nt" "\<lambda>a g. run_ret (set_expired a g)" "\<lambda>a a'. da_expired a'" g] s by blast
  from e(2) have ex: "list_all da_expired ws" "length ws = length (nt_days nt)"
    by (auto simp: list_all2_conv_all_nth list_all_length)
  have "check_days_loop c ws = Inr False"
    using ex(1) by (induction ws) (auto simp: DayAttr_checkForRequeue_def)
  with e(1) ex assms show ?thesis by (simp add: testTimeDependenciesForRequeue_def check_times_def)
qed

section \<open>The operations on the time attributes return\<close>

lemma each_inv:
  assumes "\<And>x g. x \<in> set xs \<Longrightarrow> \<exists>y g'. f x g = run_ret (y, g') \<and> I y"
  shows "\<exists>ys g'. each f xs g = run_ret (ys, g') \<and> list_all I ys"
proof -
  have "\<exists>ys g'. each f xs g = run_ret (ys, g') \<and> list_all2 (\<lambda>x y. I y) xs ys"
    by (rule each_total) (use assms in blast)
  moreover have "list_all2 (\<lambda>x y. I y) xs ys \<Longrightarrow> list_all I ys" for ys
    by (auto simp: list_all_iff list_all2_conv_all_nth in_set_conv_nth)
  ultimately show ?thesis by blast
qed

lemma ts_resetRelativeDuration_inv: "ts_inv ts \<Longrightarrow> ts_inv (snd (ts_resetRelativeDuration ts))"
  using ts_inv_updates(5) [of ts 0] by (simp add: ts_resetRelativeDuration_def)

lemma resetRelativeDuration_inv:
  "ta_inv a \<Longrightarrow> ta_inv (fst (TimeAttr_resetRelativeDuration a g))"
  "cr_inv k \<Longrightarrow> cr_inv (fst (CronAttr_resetRelativeDuration k g))"
  using ts_resetRelativeDuration_inv [of "ta_ts a"] ts_resetRelativeDuration_inv [of "cr_timeSeries k"]
  by (simp_all add: TimeAttr_resetRelativeDuration_def CronAttr_resetRelativeDuration_def ta_inv_def cr_inv_def Let_def
      case_prod_beta)

lemma TimeAttr_requeue_inv:
  assumes "ta_inv a"
  shows "\<exists>a' g'. TimeAttr_requeue c b a g = Some (a', g') \<and> ta_inv a'"
proof -
  have t: "ta_ts (fst (TimeAttr_clearFree a g)) = ta_ts a" by (simp add: TimeAttr_clearFree_def case_prod_beta)
  from ts_requeue_spec [of "ta_ts a" c b] assms obtain ts where "ts_requeue c b (ta_ts a) = Some ts" "ts_inv ts"
    by (auto simp: ta_inv_def)
  with t show ?thesis by (auto simp: TimeAttr_requeue_def ta_inv_def case_prod_beta)
qed

lemma CronAttr_requeue_inv:
  assumes "cr_inv a"
  shows "\<exists>a' g'. CronAttr_requeue c b a g = Some (a', g') \<and> cr_inv a'"
proof -
  have t: "cr_timeSeries (fst (CronAttr_clearFree a g)) = cr_timeSeries a"
    by (simp add: CronAttr_clearFree_def case_prod_beta)
  from ts_requeue_spec [of "cr_timeSeries a" c b] assms obtain ts where "ts_requeue c b (cr_timeSeries a) = Some ts" "ts_inv ts"
    by (auto simp: cr_inv_def)
  with t show ?thesis by (auto simp: CronAttr_requeue_def cr_inv_def case_prod_beta)
qed

lemma requeue_days_returns:
  assumes "greg_weekly greg"
  shows "\<exists>a' g'. requeue_days greg c rt a g = run_ret (a', g')"
  using matching_loop_week [OF assms, of "da_day a"] DayAttr_reset_fields(1) [of a g]
  by (cases rt) (auto simp: requeue_days_def requeue_manual_def requeue_repeat_increment_def matching_date_def
      next_matching_date_def case_prod_beta)

lemma reset_relative_durations_inv:
  assumes "times_inv nt"
  shows "\<exists>nt' g'. reset_relative_durations nt g = run_ret (nt', g') \<and> times_inv nt' \<and>
    nt_dates nt' = nt_dates nt \<and> nt_days nt' = nt_days nt"
proof -
  have e: "\<exists>ys g'. each (\<lambda>a g. run_ret (TimeAttr_resetRelativeDuration a g)) xs g = run_ret (ys, g') \<and> list_all ta_inv ys"
    if "list_all ta_inv xs" for xs g
    by (rule each_inv) (use that resetRelativeDuration_inv(1) in \<open>auto simp: list_all_iff, metis prod.collapse\<close>)
  have c: "\<exists>ys g'. each (\<lambda>a g. run_ret (CronAttr_resetRelativeDuration a g)) (nt_crons nt) g = run_ret (ys, g') \<and> list_all cr_inv ys"
    for g
    by (rule each_inv) (use assms resetRelativeDuration_inv(2) in \<open>auto simp: times_inv_def list_all_iff, metis prod.collapse\<close>)
  obtain cs g1 where 1: "each (\<lambda>a g. run_ret (CronAttr_resetRelativeDuration a g)) (nt_crons nt) g = run_ret (cs, g1)" "list_all cr_inv cs"
    using c by blast
  obtain ys g2 where 2: "each (\<lambda>a g. run_ret (TimeAttr_resetRelativeDuration a g)) (nt_todays nt) g1 = run_ret (ys, g2)" "list_all ta_inv ys"
    using e assms unfolding times_inv_def by blast
  obtain ts g3 where 3: "each (\<lambda>a g. run_ret (TimeAttr_resetRelativeDuration a g)) (nt_times nt) g2 = run_ret (ts, g3)" "list_all ta_inv ts"
    using e assms unfolding times_inv_def by blast
  from 1 2 3 show ?thesis by (simp add: reset_relative_durations_def times_inv_def)
qed

lemma do_requeue_returns:
  assumes "times_inv nt" "greg_weekly greg"
  shows "\<exists>nt' g'. do_requeue_time_attrs greg c b rel rt nt g = run_ret (nt', g') \<and> times_inv nt'"
proof -
  obtain nt0 g0 where 0: "(if rel then reset_relative_durations nt g else run_ret (nt, g)) = run_ret (nt0, g0)" "times_inv nt0"
    using reset_relative_durations_inv [OF assms(1), of g] assms(1) by (cases rel) auto
  have t: "\<exists>ys g'. each (\<lambda>a g. run_option (TimeAttr_requeue c b a g)) xs g = run_ret (ys, g') \<and> list_all ta_inv ys"
    if "list_all ta_inv xs" for xs g
  proof (rule each_inv)
    fix x g assume "x \<in> set xs"
    with that have "ta_inv x" by (simp add: list_all_iff)
    from TimeAttr_requeue_inv [OF this, of c b g] show "\<exists>y g'. run_option (TimeAttr_requeue c b x g) = run_ret (y, g') \<and> ta_inv y"
      by auto
  qed
  obtain ys g1 where 1: "each (\<lambda>a g. run_option (TimeAttr_requeue c b a g)) (nt_todays nt0) g0 = run_ret (ys, g1)" "list_all ta_inv ys"
    using t 0 unfolding times_inv_def by blast
  obtain ts g2 where 2: "each (\<lambda>a g. run_option (TimeAttr_requeue c b a g)) (nt_times nt0) g1 = run_ret (ts, g2)" "list_all ta_inv ts"
    using t 0 unfolding times_inv_def by blast
  have "\<exists>cs g'. each (\<lambda>a g. run_option (CronAttr_requeue c b a g)) (nt_crons nt0) g2 = run_ret (cs, g') \<and> list_all cr_inv cs"
  proof (rule each_inv)
    fix x g assume "x \<in> set (nt_crons nt0)"
    with 0(2) have "cr_inv x" by (simp add: times_inv_def list_all_iff)
    from CronAttr_requeue_inv [OF this, of c b g] show "\<exists>y g'. run_option (CronAttr_requeue c b x g) = run_ret (y, g') \<and> cr_inv y"
      by auto
  qed
  then obtain cs g3 where 3: "each (\<lambda>a g. run_option (CronAttr_requeue c b a g)) (nt_crons nt0) g2 = run_ret (cs, g3)" "list_all cr_inv cs"
    by blast
  have "\<exists>ds g'. each (\<lambda>a g. run_ret (DateAttr_requeue a g)) (nt_dates nt0) g3 = run_ret (ds, g') \<and> list_all (\<lambda>_. True) ds"
    by (rule each_inv) (simp add: DateAttr_requeue_def case_prod_beta)
  then obtain ds g4 where 4: "each (\<lambda>a g. run_ret (DateAttr_requeue a g)) (nt_dates nt0) g3 = run_ret (ds, g4)" by blast
  have "\<exists>ws g'. each (requeue_days greg c rt) (nt_days nt0) g4 = run_ret (ws, g') \<and> list_all (\<lambda>_. True) ws"
    by (rule each_inv) (use requeue_days_returns [OF assms(2)] in blast)
  then obtain ws g5 where 5: "each (requeue_days greg c rt) (nt_days nt0) g4 = run_ret (ws, g5)" by blast
  from 0 1 2 3 4 5 show ?thesis by (simp add: do_requeue_time_attrs_def times_inv_def)
qed

lemma check_times_inv: "list_all ta_inv as \<Longrightarrow> list_all ta_inv (snd (check_times c cmd as))"
proof -
  have "list_all ta_inv as \<Longrightarrow> list_all ta_inv (snd (check_times_loop c mm cmd as))" for mm
  proof (induction c mm cmd as rule: check_times_loop.induct)
    case (2 c mm cmd a as)
    obtain b a1 where a: "TimeAttr_checkForRequeue c (fst mm) (snd mm) cmd a = (b, a1)" by fastforce
    have "ta_inv a1" using 2(2) a ts_checkForRequeue_inv [of "ta_ts a" c "fst mm" "snd mm" cmd]
      by (auto simp: TimeAttr_checkForRequeue_def ta_inv_def case_prod_beta)
    with 2 a show ?case by (auto simp: case_prod_beta)
  qed simp
  then show "list_all ta_inv as \<Longrightarrow> list_all ta_inv (snd (check_times c cmd as))" by (simp add: check_times_def)
qed

text \<open>After \<open>check_for_expiration\<close> a day is expired or has a date, so that the assertion of \<open>checkForRequeue\<close> holds.\<close>

lemma expire_days_returns:
  assumes "greg_weekly greg"
  shows "\<exists>ws g'. each (\<lambda>a g. if cmd then run_ret (set_expired a g) else Some (check_for_expiration greg c a g)) as g = run_ret (ws, g') \<and>
    list_all (\<lambda>a. da_expired a \<or> da_date a \<noteq> None) ws"
proof (rule each_inv)
  fix a g
  obtain d where d: "matching_date greg c a = Inr d"
    using matching_loop_week [OF assms, of "da_day a" "cal_date c"] by (auto simp: matching_date_def)
  show "\<exists>y g'. (if cmd then run_ret (set_expired a g) else Some (check_for_expiration greg c a g)) = run_ret (y, g') \<and>
      (da_expired y \<or> da_date y \<noteq> None)"
    using d by (cases cmd; cases "da_date a") (auto simp: check_for_expiration_def set_expired_def case_prod_beta)
qed

lemma check_days_loop_returns:
  "list_all (\<lambda>a. da_expired a \<or> da_date a \<noteq> None) as \<Longrightarrow> \<exists>b. check_days_loop c as = Inr b"
proof (induction as)
  case (Cons a as)
  then have "\<exists>b. DayAttr_checkForRequeue c a = Inr b" by (auto simp: DayAttr_checkForRequeue_def)
  then obtain b where "DayAttr_checkForRequeue c a = Inr b" by blast
  moreover from Cons obtain b' where "check_days_loop c as = Inr b'" by auto
  ultimately show ?case by (simp add: ex_bool_eq)
qed (simp add: ex_bool_eq)

lemma test_requeue_returns:
  assumes "times_inv nt" "greg_weekly greg"
  shows "\<exists>b nt' g'. testTimeDependenciesForRequeue greg gregDay c cmd nt g = run_ret (b, nt', g') \<and> times_inv nt'"
proof -
  obtain b ts where 1: "check_times c cmd (nt_times nt) = (b, ts)" by fastforce
  obtain b2 ys where 2: "check_times c cmd (nt_todays nt) = (b2, ys)" by fastforce
  have inv: "list_all ta_inv ts" "list_all ta_inv ys" "list_all ta_inv (nt_todays nt)" "list_all cr_inv (nt_crons nt)" "times_inv nt"
    using assms(1) check_times_inv [of "nt_times nt" c cmd] check_times_inv [of "nt_todays nt" c cmd] 1 2 by (auto simp: times_inv_def)
  obtain ws g1 where 3: "each (\<lambda>a g. if cmd then run_ret (set_expired a g) else Some (check_for_expiration greg c a g)) (nt_days nt) g = run_ret (ws, g1)"
    "list_all (\<lambda>a. da_expired a \<or> da_date a \<noteq> None) ws" using expire_days_returns [OF assms(2)] by blast
  obtain b3 where 4: "check_days_loop c ws = Inr b3" using check_days_loop_returns [OF 3(2)] by blast
  consider "list_ex (CronAttr_checkForRequeue c) (nt_crons nt)" | "\<not> list_ex (CronAttr_checkForRequeue c) (nt_crons nt)" b
    | "\<not> list_ex (CronAttr_checkForRequeue c) (nt_crons nt)" "\<not> b" b2
    | "\<not> list_ex (CronAttr_checkForRequeue c) (nt_crons nt)" "\<not> b" "\<not> b2" "list_ex (DateAttr_checkForRequeue gregDay c) (nt_dates nt)"
    | "\<not> list_ex (CronAttr_checkForRequeue c) (nt_crons nt)" "\<not> b" "\<not> b2" "\<not> list_ex (DateAttr_checkForRequeue gregDay c) (nt_dates nt)"
    by blast
  then show ?thesis
    by cases (use 1 2 3(1) 4 inv in \<open>simp_all add: testTimeDependenciesForRequeue_def times_inv_def ex_bool_eq\<close>)
qed

end
