(* ===== verification/Requeue.thy ===== *)
theory Requeue
  imports Node_Time
begin

text \<open>
  Requeue: \<open>Node::initState\<close>, \<open>Node::requeue\<close> and its overrides in \<open>Submittable\<close>, \<open>Task\<close>, \<open>NodeContainer\<close> and \<open>Suite\<close>
  (\<open>ANode/src\<close>), and the propagation of the default status. The definition, its limits and the change counters are
  one state, \<open>server\<close>. A virtual call on a \<open>Node*\<close> is a call with the address of the node; the children of a
  container are visited in order. The clock that the operating system returns is one value \<open>en_now\<close> during an
  operation. Generated variables and the log are not modelled, and no archive file exists, so that
  \<open>restore_on_begin_or_requeue\<close> returns at once.
\<close>

section \<open>The state of the server\<close>

text \<open>What an operation reads besides the state: boost's calendar, the system clock, and whether a user command runs.\<close>

record env =
  en_greg :: gregorian
  en_gregDay :: "int \<Rightarrow> int \<Rightarrow> int \<Rightarrow> int"
  en_now :: int
  en_cmd :: bool

record server =
  sv_defs :: defs
  sv_sys :: limit_sys

abbreviation sv_suites :: "server \<Rightarrow> node list" where "sv_suites s \<equiv> df_suites (sv_defs s)"

definition sv_put :: "node list \<Rightarrow> ecf \<Rightarrow> server \<Rightarrow> server" where
  "sv_put ns g s = s\<lparr>sv_defs := (sv_defs s)\<lparr>df_suites := ns\<rparr>, sv_sys := (sv_sys s)\<lparr>ls_ecf := g\<rparr>\<rparr>"

text \<open>A change of the data of the node at \<open>p\<close>.\<close>

definition on_data :: "addr \<Rightarrow> (node_data \<Rightarrow> ecf \<Rightarrow> (node_data \<times> ecf) run) \<Rightarrow> server \<Rightarrow> server run" where
  "on_data p f s =
     (case node_at (sv_suites s) p of
        None \<Rightarrow> Some (Inl (Undefined_behaviour ''Node*''))
      | Some n \<Rightarrow>
          run_bind (f (ndata n) (ls_ecf (sv_sys s))) (\<lambda>(nd, g). run_ret (sv_put (put_data nd (sv_suites s) p) g s)))"

text \<open>\<open>suite()->calendar()\<close> of the node at \<open>p\<close>.\<close>

definition suite_cal :: "defs \<Rightarrow> addr \<Rightarrow> calendar" where
  "suite_cal d p =
     (case node_at (df_suites d) [hd p] of None \<Rightarrow> Calendar_default | Some n \<Rightarrow> su_cal (nd_suite (ndata n)))"

section \<open>Limits in the tree\<close>

text \<open>\<open>Node::find_limit\<close>, \<open>Node::findLimitUpNodeTree\<close> and \<open>InLimitMgr::find_limit\<close>: the address of a limit.\<close>

fun find_limit_addr :: "limit_store \<Rightarrow> string \<Rightarrow> nat list \<Rightarrow> nat option" where
  "find_limit_addr lst s [] = None"
| "find_limit_addr lst s (a # as) =
     (if map_option lim_n (lst a) = Some s then Some a else find_limit_addr lst s as)"

definition limit_at :: "defs \<Rightarrow> string \<Rightarrow> addr \<Rightarrow> nat option" where
  "limit_at d s p =
     (case node_at (df_suites d) p of
        None \<Rightarrow> None | Some n \<Rightarrow> find_limit_addr (df_limits d) s (nd_limits (ndata n)))"

fun limit_up :: "defs \<Rightarrow> string \<Rightarrow> addr list \<Rightarrow> nat option" where
  "limit_up d s [] = None"
| "limit_up d s (p # ps) = (case limit_at d s p of Some a \<Rightarrow> Some a | None \<Rightarrow> limit_up d s ps)"

text \<open>The addresses of a node and of its parents, upwards.\<close>

definition up_addrs :: "addr \<Rightarrow> addr list" where
  "up_addrs p = map (\<lambda>k. take k p) (rev [1..<Suc (length p)])"

definition findLimitUpNodeTree :: "defs \<Rightarrow> string \<Rightarrow> addr \<Rightarrow> nat option" where
  "findLimitUpNodeTree d s p = limit_up d s (up_addrs p)"

definition InLimitMgr_find_limit :: "defs \<Rightarrow> find_limit" where
  "InLimitMgr_find_limit d p il =
     (if il_path il = [] then findLimitUpNodeTree d (il_n il) p
      else case fst (findReferencedNode d p (il_path il) (il_n il)) of
             None \<Rightarrow> None | Some q \<Rightarrow> limit_at d (il_n il) q)"

fun get_all_tasks :: "node \<Rightarrow> NState_State list" where
  "get_all_tasks (Node nd ks) =
     (case nd_kind nd of
        K_Task \<Rightarrow> [ns_st (nd_st nd)] | K_Alias \<Rightarrow> [] | _ \<Rightarrow> concat (map get_all_tasks ks))"

text \<open>The walk up the tree over the in-limits of a node and its parents, with the walk function \<open>w\<close> of theory \<open>Limits\<close>.\<close>

definition lim_node_at :: "defs \<Rightarrow> addr \<Rightarrow> lim_node" where
  "lim_node_at d p =
     (case node_at (df_suites d) p of
        None \<Rightarrow> \<lparr>ln_addr = p, ln_path = [], ln_inlimits = [], ln_tasks = []\<rparr>
      | Some n \<Rightarrow> \<lparr>ln_addr = p, ln_path = absNodePath d p, ln_inlimits = nd_inlimits (ndata n),
                    ln_tasks = get_all_tasks n\<rparr>)"

definition put_inlimits :: "lim_node \<Rightarrow> node list \<Rightarrow> node list" where
  "put_inlimits ln ns =
     (case node_at ns (ln_addr ln) of
        None \<Rightarrow> ns
      | Some n \<Rightarrow> put_data ((ndata n)\<lparr>nd_inlimits := ln_inlimits ln\<rparr>) ns (ln_addr ln))"

definition sv_world :: "server \<Rightarrow> lim_world" where
  "sv_world s = \<lparr>lw_limits = df_limits (sv_defs s), lw_sys = sv_sys s\<rparr>"

definition sv_put_world :: "lim_world \<Rightarrow> server \<Rightarrow> server" where
  "sv_put_world w s = s\<lparr>sv_defs := (sv_defs s)\<lparr>df_limits := lw_limits w\<rparr>, sv_sys := lw_sys w\<rparr>"

definition on_chain ::
    "(lim_node list \<Rightarrow> lim_world \<Rightarrow> lim_node list \<times> lim_world) \<Rightarrow> addr \<Rightarrow> server \<Rightarrow> server" where
  "on_chain walk p s =
     (let (chain, w) = walk (map (lim_node_at (sv_defs s)) (up_addrs p)) (sv_world s);
          s1 = sv_put_world w s
      in s1\<lparr>sv_defs := (sv_defs s1)\<lparr>df_suites := fold put_inlimits chain (sv_suites s1)\<rparr>\<rparr>)"

definition decrementInLimit_at :: "addr \<Rightarrow> server \<Rightarrow> server" where
  "decrementInLimit_at p s =
     on_chain (\<lambda>chain w. let (chain1, _, w1) = Node_decrementInLimit (InLimitMgr_find_limit (sv_defs s))
                              (absNodePath (sv_defs s) p) chain {} w
                        in (chain1, w1)) p s"

definition update_limits_at :: "addr \<Rightarrow> NState_State \<Rightarrow> server \<Rightarrow> server" where
  "update_limits_at p st s =
     on_chain (update_limits (InLimitMgr_find_limit (sv_defs s)) (absNodePath (sv_defs s) p) st) p s"

fun reset_limits :: "nat list \<Rightarrow> lim_world \<Rightarrow> lim_world" where
  "reset_limits [] w = w"
| "reset_limits (a # as) w =
     reset_limits as (case lw_limits w a of None \<Rightarrow> w | Some l \<Rightarrow> lw_put a (Limit_reset l (lw_sys w)) w)"

section \<open>\<open>Node::requeue\<close>\<close>

record Requeue_args =
  rq_t :: Requeue_t
  rq_clear_suspended :: int
  rq_resetRepeats :: bool
  rq_reset_next_time_slot :: bool
  rq_reset_relative_duration :: bool
  rq_log_state_changes :: bool

definition suspend :: "node_data \<Rightarrow> ecf \<Rightarrow> node_data \<times> ecf" where
  "suspend nd g =
     (let (n, g') = incr_state_change_no g in (nd\<lparr>nd_suspended := True, nd_suspended_change_no := n\<rparr>, g'))"

definition resume :: "node_data \<Rightarrow> ecf \<Rightarrow> node_data \<times> ecf" where
  "resume nd g =
     (if nd_suspended nd
      then let (n, g') = incr_state_change_no g in (nd\<lparr>nd_suspended := False, nd_suspended_change_no := n\<rparr>, g')
      else (nd, g))"

definition initState :: "calendar \<Rightarrow> int \<Rightarrow> node_data \<Rightarrow> ecf \<Rightarrow> node_data \<times> ecf" where
  "initState c clear_suspended_in_child_nodes nd g =
     (let nd0 = nd\<lparr>nd_st_time := cal_duration c\<rparr>
      in if ds_st (nd_d_st nd) = DS_SUSPENDED
         then let (nd1, g1) = suspend nd0 g in setStateOnly (cal_duration c) NS_QUEUED False nd1 g1
         else let (nd1, g1) = (if clear_suspended_in_child_nodes > 0 then resume nd0 g else (nd0, g))
              in setStateOnly (cal_duration c) (DState_convert (ds_st (nd_d_st nd))) False nd1 g1)"

definition clear_expr :: "expression option \<Rightarrow> ecf \<Rightarrow> expression option \<times> ecf" where
  "clear_expr x g = (case x of None \<Rightarrow> (None, g) | Some e \<Rightarrow> map_prod Some id (Expression_clearFree e g))"

definition clearTrigger :: "node_data \<Rightarrow> ecf \<Rightarrow> node_data \<times> ecf" where
  "clearTrigger nd g = (let (x, g') = clear_expr (nd_trigger nd) g in (nd\<lparr>nd_trigger := x\<rparr>, g'))"

definition clearComplete :: "node_data \<Rightarrow> ecf \<Rightarrow> node_data \<times> ecf" where
  "clearComplete nd g = (let (x, g') = clear_expr (nd_complete nd) g in (nd\<lparr>nd_complete := x\<rparr>, g'))"

definition reset_repeat :: "bool \<Rightarrow> node_data \<Rightarrow> ecf \<Rightarrow> node_data \<times> ecf" where
  "reset_repeat resetRepeats nd g =
     (if resetRepeats then let (r, g') = Repeat_reset (nd_repeat nd) g in (nd\<lparr>nd_repeat := r\<rparr>, g') else (nd, g))"

text \<open>The block of \<open>Node::requeue\<close> under \<open>has_time_dependencies()\<close>.\<close>

definition requeue_time_block ::
    "env \<Rightarrow> calendar \<Rightarrow> Requeue_args \<Rightarrow> node_data \<Rightarrow> ecf \<Rightarrow> (node_data \<times> ecf) run" where
  "requeue_time_block e c args nd g =
     (if has_time_dependencies (nd_time nd)
      then let reset_next_time_slot =
                 (if rq_reset_next_time_slot args then True
                  else \<not> Flag_is_set FL_NO_REQUE_IF_SINGLE_TIME_DEP (nd_flag nd))
           in run_bind (do_requeue_time_attrs (en_greg e) c reset_next_time_slot (rq_reset_relative_duration args)
                          (rq_t args) (nd_time nd) g) (\<lambda>(nt, g1).
              run_ret (markHybridTimeDependentsAsComplete c (nd\<lparr>nd_time := nt\<rparr>) g1))
      else run_ret (nd, g))"

text \<open>The flags are cleared, but for a message and the mark of an archived node.\<close>

definition requeue_flags :: "node_data \<Rightarrow> ecf \<Rightarrow> node_data \<times> ecf" where
  "requeue_flags nd g =
     (let (f1, g1) = Flag_reset (nd_flag nd) g;
          (f2, g2) = (if Flag_is_set FL_MESSAGE (nd_flag nd) then Flag_set FL_MESSAGE f1 g1 else (f1, g1));
          (f3, g3) = (if Flag_is_set FL_ARCHIVED (nd_flag nd) then Flag_set FL_ARCHIVED f2 g2 else (f2, g2))
      in (nd\<lparr>nd_flag := f3\<rparr>, g3))"

definition reset_late :: "node_data \<Rightarrow> ecf \<Rightarrow> node_data \<times> ecf" where
  "reset_late nd g =
     (case nd_late nd of
        None \<Rightarrow> (nd, g) | Some l \<Rightarrow> let (l1, g1) = setLate False l g in (nd\<lparr>nd_late := Some l1\<rparr>, g1))"

text \<open>Meters and events, the labels of a container, and the queues.\<close>

definition reset_user_attrs :: "node_data \<Rightarrow> ecf \<Rightarrow> (node_data \<times> ecf) run" where
  "reset_user_attrs nd g =
     run_bind (each (\<lambda>m g. Some (Meter_reset m g)) (nd_meters nd) g) (\<lambda>(ms, g1).
     run_bind (each (\<lambda>x g. run_ret (Event_reset x g)) (nd_events nd) g1) (\<lambda>(es, g2).
     run_bind (if nd_kind nd \<in> {K_Suite, K_Family} then each (\<lambda>l g. run_ret (Label_reset l g)) (nd_labels nd) g2
               else run_ret (nd_labels nd, g2)) (\<lambda>(ls, g3).
     run_bind (each (\<lambda>q g. run_ret (QueueAttr_requeue q g)) (nd_queues nd) g3) (\<lambda>(qs, g4).
       run_ret (nd\<lparr>nd_meters := ms, nd_events := es, nd_labels := ls, nd_queues := qs\<rparr>, g4)))))"

definition requeue_data :: "env \<Rightarrow> calendar \<Rightarrow> Requeue_args \<Rightarrow> node_data \<Rightarrow> ecf \<Rightarrow> (node_data \<times> ecf) run" where
  "requeue_data e c args nd g =
     (let (nd1, g1) = initState c (rq_clear_suspended args) nd g;
          (nd2, g2) = clearTrigger nd1 g1;
          (nd3, g3) = clearComplete nd2 g2;
          (nd4, g4) = reset_repeat (rq_resetRepeats args) nd3 g3
      in run_bind (requeue_time_block e c args nd4 g4) (\<lambda>(nd5, g5).
           let (nd6, g6) = requeue_flags nd5 g5;
               (nd7, g7) = reset_late nd6 g6
           in reset_user_attrs nd7 g7))"

definition reset_limits_at :: "addr \<Rightarrow> server \<Rightarrow> server" where
  "reset_limits_at p s =
     (case node_at (sv_suites s) p of
        None \<Rightarrow> s | Some n \<Rightarrow> sv_put_world (reset_limits (nd_limits (ndata n)) (sv_world s)) s)"

definition reset_inlimits :: "node_data \<Rightarrow> ecf \<Rightarrow> (node_data \<times> ecf) run" where
  "reset_inlimits nd g = run_ret (nd\<lparr>nd_inlimits := InLimitMgr_reset (nd_inlimits nd)\<rparr>, g)"

definition Node_requeue :: "env \<Rightarrow> Requeue_args \<Rightarrow> addr \<Rightarrow> server \<Rightarrow> server run" where
  "Node_requeue e args p s =
     run_bind (on_data p (requeue_data e (suite_cal (sv_defs s) p) args) s) (\<lambda>s1.
     run_bind (on_data p reset_inlimits (reset_limits_at p s1)) (\<lambda>s2.
       run_ret (decrementInLimit_at p s2)))"

section \<open>Tasks and containers\<close>

definition reset_alias_number :: "bool \<Rightarrow> node_data \<Rightarrow> ecf \<Rightarrow> node_data \<times> ecf" where
  "reset_alias_number no_aliases nd g =
     (if no_aliases \<and> jb_alias_no (nd_job nd) \<noteq> 0
      then let (n, g') = incr_state_change_no g
           in (nd\<lparr>nd_job := (nd_job nd)\<lparr>jb_alias_no := 0, jb_alias_change_no := n\<rparr>\<rparr>, g')
      else (nd, g))"

definition Submittable_clear :: "node_data \<Rightarrow> ecf \<Rightarrow> node_data \<times> ecf" where
  "Submittable_clear nd g =
     (let (n, g') = incr_state_change_no g
      in (nd\<lparr>nd_job := (nd_job nd)\<lparr>jb_abr := [], jb_paswd := [], jb_rid := [], jb_state_change_no := n\<rparr>\<rparr>, g'))"

definition clear_job :: "node_data \<Rightarrow> ecf \<Rightarrow> node_data \<times> ecf" where
  "clear_job nd g = Submittable_clear (nd\<lparr>nd_job := (nd_job nd)\<lparr>jb_tryNo := 0\<rparr>\<rparr>) g"

definition Submittable_requeue :: "env \<Rightarrow> Requeue_args \<Rightarrow> addr \<Rightarrow> server \<Rightarrow> server run" where
  "Submittable_requeue e args p s =
     run_bind (on_data p (\<lambda>nd g. run_ret (clear_job nd g)) s) (Node_requeue e args p)"

definition Task_requeue :: "env \<Rightarrow> bool \<Rightarrow> Requeue_args \<Rightarrow> addr \<Rightarrow> server \<Rightarrow> server run" where
  "Task_requeue e no_aliases args p s =
     run_bind (on_data p (\<lambda>nd g. run_ret (reset_alias_number no_aliases nd g)) s) (Submittable_requeue e args p)"

text \<open>A change of the subtree at \<open>p\<close>.\<close>

fun put_node :: "node \<Rightarrow> node list \<Rightarrow> addr \<Rightarrow> node list" where
  "put_node n ns [] = ns"
| "put_node n ns (i # p) =
     (if i < length ns
      then ns[i := (if p = [] then n else Node (ndata (ns ! i)) (put_node n (kids (ns ! i)) p))]
      else ns)"

definition handle_defstatus_propagation :: "addr \<Rightarrow> server \<Rightarrow> server" where
  "handle_defstatus_propagation p s =
     (case node_at (sv_suites s) p of
        None \<Rightarrow> s
      | Some n \<Rightarrow>
          let dur = cal_duration (suite_cal (sv_defs s) p); g = ls_ecf (sv_sys s)
          in if ds_st (nd_d_st (ndata n)) = DS_COMPLETE
             then let (n1, g1) = setStateOnlyHierarchically dur NS_COMPLETE False n g
                  in sv_put (put_node n1 (sv_suites s) p) g1 s
             else if ds_st (nd_d_st (ndata n)) = DS_QUEUED \<and> computedState_immediate n \<noteq> node_state n
             then let (nd, g1) = setStateOnly dur (computedState_immediate n) False (ndata n) g
                  in sv_put (put_data nd (sv_suites s) p) g1 s
             else s)"

text \<open>\<open>requeue_calendar\<close> of a suite. The date of a suite with a hybrid clock and a repeat over days moves by the
  step of the repeat.\<close>

definition begin_calendar :: "env \<Rightarrow> suite_data \<Rightarrow> suite_data" where
  "begin_calendar e su =
     su\<lparr>su_cal :=
        (case su_clock su of
           Some ck \<Rightarrow> ClockAttr_begin_calendar (en_greg e) (en_gregDay e) (en_now e) ck (init_calendar ck (su_cal su))
         | None \<Rightarrow> Calendar_begin (en_greg e) (en_now e) (en_now e) (su_cal su))\<rparr>"

definition requeue_calendar :: "env \<Rightarrow> node_data \<Rightarrow> node_data" where
  "requeue_calendar e nd =
     (let su = nd_suite nd
      in nd\<lparr>nd_suite :=
           (case (su_clock su, nd_repeat nd) of
              (Some ck, RDay r) \<Rightarrow>
                if ck_hybrid ck
                then su\<lparr>su_cal := Calendar_begin (en_greg e) (en_now e)
                         ((cal_date (su_cal su) + ry_step r) * 86400 + time_of_day (en_now e)) (su_cal su)\<rparr>
                else begin_calendar e su
            | _ \<Rightarrow> begin_calendar e su)\<rparr>)"

definition Suite_requeue_head :: "env \<Rightarrow> node_data \<Rightarrow> ecf \<Rightarrow> (node_data \<times> ecf) run" where
  "Suite_requeue_head e nd g =
     (if \<not> su_begun (nd_suite nd) then Some (Inl (Runtime_error ''Suite::requeue: The suite must be 'begun' first''))
      else run_ret (requeue_calendar e nd, snd (incr_modify_change_no g)))"

text \<open>The arguments a container passes on to its children. They are one object for all of them: what a child family
  changes in it, its later siblings see.\<close>

definition enter_args :: "DState_State \<Rightarrow> Requeue_args \<Rightarrow> Requeue_args" where
  "enter_args ds args =
     (let a1 = (if rq_clear_suspended args \<ge> 0 then args\<lparr>rq_clear_suspended := rq_clear_suspended args + 1\<rparr> else args)
      in if ds = DS_COMPLETE then a1\<lparr>rq_log_state_changes := False\<rparr> else a1)"

definition child_args :: "Requeue_args \<Rightarrow> Requeue_args" where
  "child_args args = args\<lparr>rq_resetRepeats := True, rq_reset_relative_duration := True\<rparr>"

text \<open>\<open>requeue\<close> of the node at \<open>p\<close>. The first argument is the tree below \<open>p\<close> before the requeue, which fixes the kinds and
  the number of the nodes to visit.\<close>

fun requeue :: "env \<Rightarrow> node \<Rightarrow> addr \<Rightarrow> Requeue_args \<times> server \<Rightarrow> (Requeue_args \<times> server) run"
  and requeue_children ::
    "env \<Rightarrow> node list \<Rightarrow> nat \<Rightarrow> addr \<Rightarrow> Requeue_args \<times> server \<Rightarrow> (Requeue_args \<times> server) run" where
  "requeue e (Node nd ks) p (args, s) =
     (case nd_kind nd of
        K_Alias \<Rightarrow> run_bind (Submittable_requeue e args p s) (\<lambda>s1. run_ret (args, s1))
      | K_Task \<Rightarrow> run_bind (Task_requeue e (ks = []) args p s) (\<lambda>s1. run_ret (args, s1))
      | _ \<Rightarrow>
          run_bind (if nd_kind nd = K_Suite then on_data p (Suite_requeue_head e) s else run_ret s) (\<lambda>s0.
          run_bind (Node_requeue e args p s0) (\<lambda>s1.
          let args1 = enter_args (ds_st (nd_d_st nd)) args
          in run_bind (requeue_children e ks 0 p (child_args args1, s1)) (\<lambda>(_, s2).
               run_ret (args1, handle_defstatus_propagation p s2)))))"
| "requeue_children e [] i p a = run_ret a"
| "requeue_children e (k # ks) i p a =
     run_bind (requeue e k (p @ [i]) a) (requeue_children e ks (Suc i) p)"

section \<open>The tree of states\<close>

text \<open>What the states of the nodes depend on: the kind of a node, its default status, whether it is a suite with a
  hybrid clock, and its state.\<close>

datatype stree = STree (sk: node_kind) (sd: DState_State) (sh: bool) (ss: NState_State) (sks: "stree list")

definition hybrid_suite :: "suite_data \<Rightarrow> bool" where
  "hybrid_suite su \<longleftrightarrow> cal_hybrid (su_cal su) \<or> (\<exists>ck. su_clock su = Some ck \<and> ck_hybrid ck)"

fun skel :: "node \<Rightarrow> stree" where
  "skel (Node nd ks) =
     STree (nd_kind nd) (ds_st (nd_d_st nd)) (hybrid_suite (nd_suite nd)) (ns_st (nd_st nd)) (map skel ks)"

abbreviation skels :: "server \<Rightarrow> stree list" where "skels s \<equiv> map skel (sv_suites s)"

fun st_at :: "stree list \<Rightarrow> addr \<Rightarrow> stree option" where
  "st_at ts [] = None"
| "st_at ts (i # p) = (if i < length ts then (if p = [] then Some (ts ! i) else st_at (sks (ts ! i)) p) else None)"

definition with_kids :: "(stree list \<Rightarrow> stree list) \<Rightarrow> stree \<Rightarrow> stree" where
  "with_kids f t = STree (sk t) (sd t) (sh t) (ss t) (f (sks t))"

definition with_state :: "NState_State \<Rightarrow> stree \<Rightarrow> stree" where
  "with_state st t = STree (sk t) (sd t) (sh t) st (sks t)"

fun upd_at :: "(stree \<Rightarrow> stree) \<Rightarrow> stree list \<Rightarrow> addr \<Rightarrow> stree list" where
  "upd_at f ts [] = ts"
| "upd_at f ts (i # p) =
     (if i < length ts
      then ts[i := (if p = [] then f (ts ! i) else with_kids (\<lambda>ks. upd_at f ks p) (ts ! i))]
      else ts)"

lemma skel_sel [simp]:
  "sk (skel n) = nd_kind (ndata n)" "sd (skel n) = ds_st (nd_d_st (ndata n))" "ss (skel n) = node_state n"
  "sks (skel n) = map skel (kids n)" "sh (skel n) = hybrid_suite (nd_suite (ndata n))"
  by (cases n; simp)+

lemma with_sel [simp]:
  "sk (with_kids f t) = sk t" "sd (with_kids f t) = sd t" "sh (with_kids f t) = sh t" "ss (with_kids f t) = ss t"
  "sks (with_kids f t) = f (sks t)"
  "sk (with_state st t) = sk t" "sd (with_state st t) = sd t" "sh (with_state st t) = sh t"
  "ss (with_state st t) = st" "sks (with_state st t) = sks t"
  by (simp_all add: with_kids_def with_state_def)

lemma with_kids_comp: "with_kids f (with_kids g t) = with_kids (f \<circ> g) t"
  by (simp add: with_kids_def)

lemma with_kids_o: "with_kids f \<circ> with_kids g = with_kids (f \<circ> g)"
  by (simp add: fun_eq_iff with_kids_comp)

lemma with_kids_id: "f (sks t) = sks t \<Longrightarrow> with_kids f t = t"
  by (cases t) (simp add: with_kids_def)

lemma with_state_id: "with_state (ss t) t = t"
  by (cases t) (simp add: with_state_def)

lemma st_at_skel: "st_at (map skel ns) p = map_option skel (node_at ns p)"
  by (induction ns p rule: node_at.induct) auto

lemma length_upd_at [simp]: "length (upd_at f ts p) = length ts"
  by (cases p) simp_all

lemma upd_at_upd_at: "upd_at f (upd_at h ts p) p = upd_at (f \<circ> h) ts p"
  by (induction h ts p rule: upd_at.induct) (auto simp: with_kids_comp comp_def)

lemma upd_at_cong: "(\<And>t. st_at ts p = Some t \<Longrightarrow> f t = h t) \<Longrightarrow> upd_at f ts p = upd_at h ts p"
proof (induction ts p rule: st_at.induct)
  case (2 ts i p)
  show ?case
  proof (cases "i < length ts \<and> p \<noteq> []")
    case True
    then have "upd_at f (sks (ts ! i)) p = upd_at h (sks (ts ! i)) p" using 2 by auto
    with True show ?thesis by (simp add: with_kids_def)
  next
    case False
    then show ?thesis using "2.prems" [of "ts ! i"] by auto
  qed
qed simp

lemma upd_at_id: "(\<And>t. st_at ts p = Some t \<Longrightarrow> f t = t) \<Longrightarrow> upd_at f ts p = ts"
proof (induction ts p rule: st_at.induct)
  case (2 ts i p)
  show ?case
  proof (cases "i < length ts \<and> p \<noteq> []")
    case True
    then have "upd_at f (sks (ts ! i)) p = sks (ts ! i)" using 2 by auto
    then show ?thesis using True by (simp add: with_kids_id)
  next
    case False
    then show ?thesis using "2.prems" [of "ts ! i"] by auto
  qed
qed simp

lemma upd_at_snoc: "p \<noteq> [] \<Longrightarrow> upd_at f ts (p @ [i]) = upd_at (with_kids (\<lambda>ks. upd_at f ks [i])) ts p"
  by (induction f ts p rule: upd_at.induct) auto

lemma st_at_snoc: "p \<noteq> [] \<Longrightarrow> st_at ts (p @ [i]) = Option.bind (st_at ts p) (\<lambda>t. st_at (sks t) [i])"
  by (induction ts p rule: st_at.induct) auto

lemma st_at_upd_same: "st_at ts p = Some t \<Longrightarrow> st_at (upd_at f ts p) p = Some (f t)"
  by (induction f ts p rule: upd_at.induct) (auto split: if_splits)

lemma skel_put_data:
  assumes "node_at ns p = Some n" "nd_kind nd = nd_kind (ndata n)" "ds_st (nd_d_st nd) = ds_st (nd_d_st (ndata n))"
    "hybrid_suite (nd_suite nd) = hybrid_suite (nd_suite (ndata n))"
  shows "map skel (put_data nd ns p) = upd_at (with_state (ns_st (nd_st nd))) (map skel ns) p"
  using assms
proof (induction nd ns p rule: put_data.induct)
  case (2 nd ns i p)
  show ?case
  proof (cases "p = []")
    case True
    with "2.prems" show ?thesis by (auto simp: map_update with_state_def split: if_splits)
  next
    case False
    with "2.prems" have i: "i < length ns" and at: "node_at (kids (ns ! i)) p = Some n" by (auto split: if_splits)
    have "map skel (put_data nd (kids (ns ! i)) p) = upd_at (with_state (ns_st (nd_st nd))) (map skel (kids (ns ! i))) p"
      using "2.IH" [OF i False at] "2.prems" by simp
    with i False show ?thesis by (simp add: map_update with_kids_def)
  qed
qed simp

lemma skel_put_node:
  "node_at ns p = Some m \<Longrightarrow> map skel (put_node n ns p) = upd_at (\<lambda>_. skel n) (map skel ns) p"
  by (induction n ns p rule: put_node.induct) (auto simp: map_update with_kids_def split: if_splits)

section \<open>Requeue refines a function on the tree of states\<close>

text \<open>The state that the default status gives, the status \<open>complete\<close> applied down the containers, and the requeue of a
  tree: tasks start in the state of their default status; a family or suite whose default status is complete makes
  everything below it complete, one whose default status is queued shows the most significant state of its
  children, and any other keeps its own.\<close>

definition start_state :: "DState_State \<Rightarrow> NState_State" where
  "start_state ds = (if ds = DS_SUSPENDED then NS_QUEUED else DState_convert ds)"

fun all_to :: "NState_State \<Rightarrow> stree \<Rightarrow> stree" where
  "all_to st (STree k ds h x ts) =
     STree k ds h st (if k \<in> {K_Suite, K_Family} then map (all_to st) ts else ts)"

definition children_state :: "NState_State \<Rightarrow> stree list \<Rightarrow> NState_State" where
  "children_state own ts = (if ts = [] then own else theComputedNodeState (map ss ts))"

fun rq_tree :: "stree \<Rightarrow> stree" where
  "rq_tree (STree k ds h x ts) =
     (if k \<notin> {K_Suite, K_Family} then STree k ds h (start_state ds) ts
      else if ds = DS_COMPLETE then all_to NS_COMPLETE (STree k ds h x (map rq_tree ts))
      else if ds = DS_QUEUED then STree k ds h (children_state NS_QUEUED (map rq_tree ts)) (map rq_tree ts)
      else STree k ds h (start_state ds) (map rq_tree ts))"

text \<open>The members that no operation on the attributes changes.\<close>

definition fixed :: "node_data \<Rightarrow> node_kind \<times> DState \<times> suite_data" where
  "fixed nd = (nd_kind nd, nd_d_st nd, nd_suite nd)"

lemma setStateOnly_fixed: "fixed (fst (setStateOnly dur st force nd g)) = fixed nd"
  by (simp add: setStateOnly_def fixed_def Let_def case_prod_beta)

lemma initState_setStateOnly:
  "\<exists>nd1 g1. initState c k nd g = setStateOnly (cal_duration c) (start_state (ds_st (nd_d_st nd))) False nd1 g1 \<and>
     fixed nd1 = fixed nd"
  unfolding initState_def Let_def start_state_def suspend_def resume_def
  by (auto simp: fixed_def split: prod.splits)

lemma initState_effect:
  "fixed (fst (initState c k nd g)) = fixed nd"
  "ns_st (nd_st (fst (initState c k nd g))) = start_state (ds_st (nd_d_st nd))"
  using initState_setStateOnly [of c k nd g] by (auto simp: setStateOnly_fixed setStateOnly_state)

lemma attrs_effect:
  "fixed (fst (clearTrigger nd g)) = fixed nd" "nd_st (fst (clearTrigger nd g)) = nd_st nd"
  "fixed (fst (clearComplete nd g)) = fixed nd" "nd_st (fst (clearComplete nd g)) = nd_st nd"
  "fixed (fst (reset_repeat b nd g)) = fixed nd" "nd_st (fst (reset_repeat b nd g)) = nd_st nd"
  "fixed (fst (requeue_flags nd g)) = fixed nd" "nd_st (fst (requeue_flags nd g)) = nd_st nd"
  "fixed (fst (reset_late nd g)) = fixed nd" "nd_st (fst (reset_late nd g)) = nd_st nd"
  "fixed (fst (reset_alias_number b nd g)) = fixed nd" "nd_st (fst (reset_alias_number b nd g)) = nd_st nd"
  "fixed (fst (clear_job nd g)) = fixed nd" "nd_st (fst (clear_job nd g)) = nd_st nd"
  unfolding clearTrigger_def clearComplete_def reset_repeat_def requeue_flags_def reset_late_def reset_alias_number_def
    clear_job_def Submittable_clear_def fixed_def Let_def
  by (simp_all add: case_prod_beta split: option.splits)

lemma real_clock_no_marking: "\<not> cal_hybrid c \<Longrightarrow> markHybridTimeDependentsAsComplete c nd g = (nd, g)"
  by (simp add: markHybridTimeDependentsAsComplete_def)

lemma requeue_time_block_effect:
  assumes "\<not> cal_hybrid c" and "requeue_time_block e c args nd g = run_ret (nd', g')"
  shows "fixed nd' = fixed nd" "nd_st nd' = nd_st nd"
  using assms by (auto simp: requeue_time_block_def real_clock_no_marking run_bind_eq_ret fixed_def split: if_splits)

lemma reset_user_attrs_effect:
  assumes "reset_user_attrs nd g = run_ret (nd', g')"
  shows "fixed nd' = fixed nd" "nd_st nd' = nd_st nd"
  using assms by (auto simp: reset_user_attrs_def run_bind_eq_ret fixed_def)

lemma requeue_data_effect:
  assumes "\<not> cal_hybrid c" and "requeue_data e c args nd g = run_ret (nd', g')"
  shows "fixed nd' = fixed nd" "ns_st (nd_st nd') = start_state (ds_st (nd_d_st nd))"
proof -
  obtain nd1 g1 where h1: "initState c (rq_clear_suspended args) nd g = (nd1, g1)" by fastforce
  obtain nd2 g2 where h2: "clearTrigger nd1 g1 = (nd2, g2)" by fastforce
  obtain nd3 g3 where h3: "clearComplete nd2 g2 = (nd3, g3)" by fastforce
  obtain nd4 g4 where h4: "reset_repeat (rq_resetRepeats args) nd3 g3 = (nd4, g4)" by fastforce
  note h = h1 h2 h3 h4
  from assms(2) h obtain nd5 g5 where b: "requeue_time_block e c args nd4 g4 = run_ret (nd5, g5)"
    and r: "(let (nd6, g6) = requeue_flags nd5 g5; (nd7, g7) = reset_late nd6 g6 in reset_user_attrs nd7 g7) = run_ret (nd', g')"
    by (auto simp: requeue_data_def run_bind_eq_ret)
  obtain nd6 g6 where f1: "requeue_flags nd5 g5 = (nd6, g6)" by fastforce
  obtain nd7 g7 where f2: "reset_late nd6 g6 = (nd7, g7)" by fastforce
  note f = f1 f2
  with r have u: "reset_user_attrs nd7 g7 = run_ret (nd', g')" by simp
  note a = initState_effect [of c "rq_clear_suspended args" nd g, unfolded h(1)] attrs_effect(1,2) [of nd1 g1, unfolded h(2)]
    attrs_effect(3,4) [of nd2 g2, unfolded h(3)] attrs_effect(5,6) [of "rq_resetRepeats args" nd3 g3, unfolded h(4)]
    requeue_time_block_effect [OF assms(1) b] attrs_effect(7,8) [of nd5 g5, unfolded f(1)] attrs_effect(9,10) [of nd6 g6, unfolded f(2)]
    reset_user_attrs_effect [OF u]
  show "fixed nd' = fixed nd" "ns_st (nd_st nd') = start_state (ds_st (nd_d_st nd))" using a by (simp_all add: fixed_def)
qed

text \<open>A condition on the members of all nodes that do not change with the states; in particular, that no suite has a hybrid
  clock.\<close>

fun fix_tree :: "(node_kind \<Rightarrow> DState_State \<Rightarrow> bool \<Rightarrow> bool) \<Rightarrow> stree \<Rightarrow> bool" where
  "fix_tree Q (STree k ds h x ts) \<longleftrightarrow> Q k ds h \<and> list_all (fix_tree Q) ts"

abbreviation real_tree :: "stree \<Rightarrow> bool" where "real_tree \<equiv> fix_tree (\<lambda>k ds h. \<not> h)"

lemma fix_tree_sel: "fix_tree Q t \<longleftrightarrow> Q (sk t) (sd t) (sh t) \<and> list_all (fix_tree Q) (sks t)"
  by (cases t) simp

lemma fix_with_state [simp]: "fix_tree Q (with_state x t) = fix_tree Q t"
  by (simp add: fix_tree_sel [of Q "with_state x t"] fix_tree_sel [of Q t])

lemma fix_upd_at:
  "list_all (fix_tree Q) ts \<Longrightarrow> (\<And>t. fix_tree Q t \<Longrightarrow> fix_tree Q (f t)) \<Longrightarrow> list_all (fix_tree Q) (upd_at f ts p)"
proof (induction f ts p rule: upd_at.induct)
  case (2 f ts i p)
  show ?case
  proof (cases "i < length ts")
    case True
    with "2.prems" have t: "fix_tree Q (ts ! i)" by (simp add: list_all_length)
    then have "list_all (fix_tree Q) (sks (ts ! i))" by (simp add: fix_tree_sel)
    with 2 True have "p \<noteq> [] \<Longrightarrow> list_all (fix_tree Q) (upd_at f (sks (ts ! i)) p)" by simp
    with 2 True t have "fix_tree Q (if p = [] then f (ts ! i) else with_kids (\<lambda>ks. upd_at f ks p) (ts ! i))"
      by (auto simp: fix_tree_sel [of Q "with_kids _ _"] fix_tree_sel [of Q "ts ! i"])
    with "2.prems"(1) True show ?thesis by (auto simp: list_all_length nth_list_update)
  qed (use 2 in simp)
qed simp

lemma fix_st_at: "list_all (fix_tree Q) ts \<Longrightarrow> st_at ts p = Some t \<Longrightarrow> fix_tree Q t"
proof (induction ts p rule: st_at.induct)
  case (2 ts i p)
  then show ?case using fix_tree_sel [of Q "ts ! i"] by (auto simp: list_all_length split: if_splits)
qed simp

lemma real_suite_cal:
  assumes "list_all real_tree (map skel (df_suites d))"
  shows "\<not> cal_hybrid (suite_cal d p)"
proof (cases "node_at (df_suites d) [hd p]")
  case None
  then show ?thesis by (simp add: suite_cal_def cal_hybrid_def Calendar_default_def)
next
  case (Some n)
  then have "st_at (map skel (df_suites d)) [hd p] = Some (skel n)"
    unfolding st_at_skel by simp
  from fix_st_at [OF assms this] have "\<not> hybrid_suite (nd_suite (ndata n))" by (simp add: fix_tree_sel)
  with Some show ?thesis by (simp add: suite_cal_def hybrid_suite_def)
qed

lemma on_data_effect:
  assumes "on_data p f s = run_ret s'"
  obtains n nd g where "node_at (sv_suites s) p = Some n" "f (ndata n) (ls_ecf (sv_sys s)) = run_ret (nd, g)"
    "s' = sv_put (put_data nd (sv_suites s) p) g s"
  using assms by (auto simp: on_data_def run_bind_eq_ret split: option.splits)

lemma sv_put_sel [simp]: "sv_suites (sv_put ns g s) = ns" "df_st (sv_defs (sv_put ns g s)) = df_st (sv_defs s)"
  "df_limits (sv_defs (sv_put ns g s)) = df_limits (sv_defs s)"
  by (simp_all add: sv_put_def)

text \<open>What a change of one node does to the tree of states, when it keeps the fixed members.\<close>

lemma skels_on_data:
  assumes run: "on_data p f s = run_ret s'"
    and eff: "\<And>n nd g. node_at (sv_suites s) p = Some n \<Longrightarrow> f (ndata n) (ls_ecf (sv_sys s)) = run_ret (nd, g) \<Longrightarrow>
      fixed nd = fixed (ndata n) \<and> ns_st (nd_st nd) = h (skel n)"
  shows "skels s' = upd_at (\<lambda>t. with_state (h t) t) (skels s) p \<and> df_st (sv_defs s') = df_st (sv_defs s)"
proof -
  from run obtain n nd g where n: "node_at (sv_suites s) p = Some n" "f (ndata n) (ls_ecf (sv_sys s)) = run_ret (nd, g)"
    "s' = sv_put (put_data nd (sv_suites s) p) g s" by (rule on_data_effect)
  from eff [OF n(1,2)] have e: "fixed nd = fixed (ndata n)" "ns_st (nd_st nd) = h (skel n)" by auto
  have "skels s' = upd_at (with_state (ns_st (nd_st nd))) (skels s) p"
    unfolding n(3) sv_put_sel by (rule skel_put_data [OF n(1)]) (use e in \<open>auto simp: fixed_def\<close>)
  also have "\<dots> = upd_at (\<lambda>t. with_state (h t) t) (skels s) p"
    by (rule upd_at_cong) (use n(1) e in \<open>auto simp: st_at_skel\<close>)
  finally show ?thesis by (simp add: n(3))
qed

lemma skels_on_data_same:
  assumes "on_data p f s = run_ret s'"
    and "\<And>n nd g. node_at (sv_suites s) p = Some n \<Longrightarrow> f (ndata n) (ls_ecf (sv_sys s)) = run_ret (nd, g) \<Longrightarrow>
      fixed nd = fixed (ndata n) \<and> nd_st nd = nd_st (ndata n)"
  shows "skels s' = skels s \<and> df_st (sv_defs s') = df_st (sv_defs s)"
proof -
  have "skels s' = upd_at (\<lambda>t. with_state (ss t) t) (skels s) p \<and> df_st (sv_defs s') = df_st (sv_defs s)"
    by (rule skels_on_data [OF assms(1)]) (use assms(2) in auto)
  then show ?thesis by (simp add: with_state_id upd_at_id)
qed

lemma skels_on_ret:
  assumes "on_data p (\<lambda>nd g. run_ret (f nd g)) s = run_ret s'"
    and "\<And>nd g. fixed (fst (f nd g)) = fixed nd" "\<And>nd g. nd_st (fst (f nd g)) = nd_st nd"
  shows "skels s' = skels s" "df_st (sv_defs s') = df_st (sv_defs s)"
proof -
  have "skels s' = skels s \<and> df_st (sv_defs s') = df_st (sv_defs s)"
  proof (rule skels_on_data_same [OF assms(1)])
    fix n nd g
    assume "run_ret (f (ndata n) (ls_ecf (sv_sys s))) = run_ret (nd, g)"
    then have "nd = fst (f (ndata n) (ls_ecf (sv_sys s)))" by simp
    with assms(2,3) show "fixed nd = fixed (ndata n) \<and> nd_st nd = nd_st (ndata n)" by simp
  qed
  then show "skels s' = skels s" "df_st (sv_defs s') = df_st (sv_defs s)" by auto
qed

lemma skel_put_inlimits: "map skel (put_inlimits ln ns) = map skel ns"
proof (cases "node_at ns (ln_addr ln)")
  case (Some n)
  have "map skel (put_data ((ndata n)\<lparr>nd_inlimits := ln_inlimits ln\<rparr>) ns (ln_addr ln)) =
      upd_at (with_state (node_state n)) (map skel ns) (ln_addr ln)"
    using skel_put_data [OF Some, of "(ndata n)\<lparr>nd_inlimits := ln_inlimits ln\<rparr>"] by simp
  also have "\<dots> = map skel ns"
  proof (rule upd_at_id)
    fix t assume "st_at (map skel ns) (ln_addr ln) = Some t"
    with Some have "node_state n = ss t" by (auto simp: st_at_skel)
    then show "with_state (node_state n) t = t" by (simp add: with_state_id)
  qed
  finally show ?thesis using Some by (simp add: put_inlimits_def)
qed (simp add: put_inlimits_def)

lemma skels_on_chain: "skels (on_chain walk p s) = skels s \<and> df_st (sv_defs (on_chain walk p s)) = df_st (sv_defs s)"
proof -
  have "map skel (fold put_inlimits chain ns) = map skel ns" for chain ns
    by (induction chain arbitrary: ns) (simp_all add: skel_put_inlimits)
  then show ?thesis by (auto simp: on_chain_def sv_put_world_def Let_def split: prod.splits)
qed

lemma skels_limits:
  "skels (decrementInLimit_at p s) = skels s" "df_st (sv_defs (decrementInLimit_at p s)) = df_st (sv_defs s)"
  "skels (update_limits_at p st s) = skels s" "df_st (sv_defs (update_limits_at p st s)) = df_st (sv_defs s)"
  "skels (reset_limits_at p s) = skels s" "df_st (sv_defs (reset_limits_at p s)) = df_st (sv_defs s)"
  by (simp_all add: decrementInLimit_at_def update_limits_at_def skels_on_chain reset_limits_at_def sv_put_world_def
      split: option.splits)

lemma skels_Node_requeue:
  assumes "Node_requeue e args p s = run_ret s'" and "list_all real_tree (skels s)"
  shows "skels s' = upd_at (\<lambda>t. with_state (start_state (sd t)) t) (skels s) p \<and> df_st (sv_defs s') = df_st (sv_defs s)"
proof -
  from assms(1) obtain s1 s2 where r: "on_data p (requeue_data e (suite_cal (sv_defs s) p) args) s = run_ret s1"
    "on_data p reset_inlimits (reset_limits_at p s1) = run_ret s2" "s' = decrementInLimit_at p s2"
    by (auto simp: Node_requeue_def run_bind_eq_ret)
  have 1: "skels s1 = upd_at (\<lambda>t. with_state (start_state (sd t)) t) (skels s) p \<and> df_st (sv_defs s1) = df_st (sv_defs s)"
    by (rule skels_on_data [OF r(1)]) (use requeue_data_effect [OF real_suite_cal [OF assms(2)]] in auto)
  have 2: "skels s2 = skels (reset_limits_at p s1) \<and> df_st (sv_defs s2) = df_st (sv_defs (reset_limits_at p s1))"
    by (rule skels_on_data_same [OF r(2)]) (auto simp: reset_inlimits_def fixed_def)
  from 1 2 show ?thesis by (simp add: r(3) skels_limits)
qed

lemma skels_Submittable_requeue:
  assumes "Submittable_requeue e args p s = run_ret s'" and "list_all real_tree (skels s)"
  shows "skels s' = upd_at (\<lambda>t. with_state (start_state (sd t)) t) (skels s) p \<and> df_st (sv_defs s') = df_st (sv_defs s)"
proof -
  from assms(1) obtain s1 where r: "on_data p (\<lambda>nd g. run_ret (clear_job nd g)) s = run_ret s1" "Node_requeue e args p s1 = run_ret s'"
    by (auto simp: Submittable_requeue_def run_bind_eq_ret)
  have 1: "skels s1 = skels s \<and> df_st (sv_defs s1) = df_st (sv_defs s)"
    using skels_on_ret [OF r(1) attrs_effect(13,14)] by simp
  with skels_Node_requeue [OF r(2)] assms(2) show ?thesis by simp
qed

lemma skels_Task_requeue:
  assumes "Task_requeue e b args p s = run_ret s'" and "list_all real_tree (skels s)"
  shows "skels s' = upd_at (\<lambda>t. with_state (start_state (sd t)) t) (skels s) p \<and> df_st (sv_defs s') = df_st (sv_defs s)"
proof -
  from assms(1) obtain s1 where r: "on_data p (\<lambda>nd g. run_ret (reset_alias_number b nd g)) s = run_ret s1"
    "Submittable_requeue e args p s1 = run_ret s'"
    by (auto simp: Task_requeue_def run_bind_eq_ret)
  have 1: "skels s1 = skels s \<and> df_st (sv_defs s1) = df_st (sv_defs s)"
    using skels_on_ret [OF r(1) attrs_effect(11,12)] by simp
  with skels_Submittable_requeue [OF r(2)] assms(2) show ?thesis by simp
qed

lemma requeue_calendar_real:
  assumes "\<not> hybrid_suite (nd_suite nd)"
  shows "\<not> hybrid_suite (nd_suite (requeue_calendar e nd))" "nd_kind (requeue_calendar e nd) = nd_kind nd"
    "nd_d_st (requeue_calendar e nd) = nd_d_st nd" "nd_st (requeue_calendar e nd) = nd_st nd"
proof -
  have "cal_ctype (Calendar_begin greg now t c) = cal_ctype c" for greg now t c
    by (simp add: Calendar_begin_def update_cache_def Let_def)
  with assms show "\<not> hybrid_suite (nd_suite (requeue_calendar e nd))"
    by (auto simp: requeue_calendar_def begin_calendar_def hybrid_suite_def cal_hybrid_def Let_def init_calendar_def
        ClockAttr_begin_calendar_def Calendar_init_def split: option.splits repeat_t.splits)
qed (simp_all add: requeue_calendar_def Let_def)

lemma skels_Suite_head:
  assumes "on_data p (Suite_requeue_head e) s = run_ret s'" and "list_all real_tree (skels s)"
  shows "skels s' = skels s \<and> df_st (sv_defs s') = df_st (sv_defs s)"
proof -
  from assms(1) obtain n nd g where n: "node_at (sv_suites s) p = Some n"
    "Suite_requeue_head e (ndata n) (ls_ecf (sv_sys s)) = run_ret (nd, g)" "s' = sv_put (put_data nd (sv_suites s) p) g s"
    by (rule on_data_effect)
  then have nd: "nd = requeue_calendar e (ndata n)" by (auto simp: Suite_requeue_head_def split: if_splits)
  have at: "st_at (skels s) p = Some (skel n)" using n(1) by (simp add: st_at_skel)
  then have h: "\<not> hybrid_suite (nd_suite (ndata n))" using fix_st_at [OF assms(2) at] by (simp add: fix_tree_sel)
  have "skels s' = upd_at (with_state (ns_st (nd_st nd))) (skels s) p"
    unfolding n(3) sv_put_sel
    by (rule skel_put_data [OF n(1)]) (use h requeue_calendar_real [OF h] in \<open>simp_all add: nd\<close>)
  also have "\<dots> = skels s"
    by (rule upd_at_id) (use at requeue_calendar_real(4) [OF h] with_state_id [of "skel n"] in \<open>simp add: nd\<close>)
  finally show ?thesis by (simp add: n(3))
qed

text \<open>The propagation of the default status.\<close>

definition propagate :: "stree \<Rightarrow> stree" where
  "propagate t =
     (if sd t = DS_COMPLETE then all_to NS_COMPLETE t
      else if sd t = DS_QUEUED then with_state (children_state (ss t) (sks t)) t
      else t)"

lemma skel_hierarchically:
  "skel (fst (setStateOnlyHierarchically dur st force n g)) = all_to st (skel n)"
  "map skel (fst (setStateOnly_children dur st force ks g)) = map (all_to st) (map skel ks)"
proof (induction dur st force n g and dur st force ks g rule: setStateOnlyHierarchically_setStateOnly_children.induct)
  case (1 dur st force nd ks g)
  obtain nd1 g1 where s1: "setStateOnly dur st force nd g = (nd1, g1)" by fastforce
  have "fixed nd1 = fixed nd" "ns_st (nd_st nd1) = st"
    using setStateOnly_fixed [of dur st force nd g] setStateOnly_state [of dur st force nd g] s1 by simp_all
  with 1 s1 show ?case by (auto simp: fixed_def case_prod_beta)
next
  case (3 dur st force k ks g)
  obtain k1 g1 where "setStateOnlyHierarchically dur st force k g = (k1, g1)" by fastforce
  with 3 show ?case by (simp add: case_prod_beta)
qed simp

lemma computed_skel:
  "nd_kind (ndata n) \<in> {K_Suite, K_Family} \<Longrightarrow> computedState_immediate n = children_state (ss (skel n)) (sks (skel n))"
  by (auto simp: computedState_immediate_def is_container_def children_state_def comp_def)

lemma skels_propagation:
  assumes "node_at (sv_suites s) p = Some n" and "nd_kind (ndata n) \<in> {K_Suite, K_Family}"
  shows "skels (handle_defstatus_propagation p s) = upd_at propagate (skels s) p \<and>
    df_st (sv_defs (handle_defstatus_propagation p s)) = df_st (sv_defs s)"
proof -
  let ?dur = "cal_duration (suite_cal (sv_defs s) p)" and ?g = "ls_ecf (sv_sys s)"
  have at: "st_at (skels s) p = Some (skel n)" using assms(1) by (simp add: st_at_skel)
  consider "ds_st (nd_d_st (ndata n)) = DS_COMPLETE"
    | "ds_st (nd_d_st (ndata n)) = DS_QUEUED" "computedState_immediate n \<noteq> node_state n"
    | "ds_st (nd_d_st (ndata n)) \<noteq> DS_COMPLETE" "ds_st (nd_d_st (ndata n)) = DS_QUEUED \<Longrightarrow> computedState_immediate n = node_state n"
    by blast
  then show ?thesis
  proof cases
    case 1
    have "map skel (put_node (fst (setStateOnlyHierarchically ?dur NS_COMPLETE False n ?g)) (sv_suites s) p) =
        upd_at (\<lambda>_. all_to NS_COMPLETE (skel n)) (skels s) p"
      by (simp add: skel_put_node [OF assms(1)] skel_hierarchically)
    also have "\<dots> = upd_at propagate (skels s) p" by (rule upd_at_cong) (use at 1 in \<open>simp add: propagate_def\<close>)
    finally show ?thesis using assms(1) 1 by (simp add: handle_defstatus_propagation_def case_prod_beta Let_def)
  next
    case 2
    let ?nd = "fst (setStateOnly ?dur (computedState_immediate n) False (ndata n) ?g)"
    have f: "fixed ?nd = fixed (ndata n)" "ns_st (nd_st ?nd) = computedState_immediate n"
      by (rule setStateOnly_fixed setStateOnly_state)+
    have "map skel (put_data ?nd (sv_suites s) p) = upd_at (with_state (computedState_immediate n)) (skels s) p"
      using skel_put_data [OF assms(1), of ?nd] f by (simp add: fixed_def)
    also have "\<dots> = upd_at propagate (skels s) p"
      by (rule upd_at_cong) (use at 2 computed_skel [OF assms(2)] in \<open>simp add: propagate_def\<close>)
    finally show ?thesis using assms(1) 2 by (simp add: handle_defstatus_propagation_def case_prod_beta Let_def)
  next
    case 3
    have "propagate (skel n) = skel n"
      using 3 computed_skel [OF assms(2)] with_state_id [of "skel n"] by (auto simp: propagate_def)
    with at have "upd_at propagate (skels s) p = skels s" by (intro upd_at_id) simp
    with 3 assms(1) show ?thesis by (auto simp: handle_defstatus_propagation_def Let_def)
  qed
qed

lemma fix_all_to [simp]: "fix_tree Q (all_to st t) = fix_tree Q t"
  by (induction st t rule: all_to.induct) (auto simp: list_all_iff)

lemma fix_rq_tree: "fix_tree Q t \<Longrightarrow> fix_tree Q (rq_tree t)"
  by (induction t rule: rq_tree.induct) (auto simp: list_all_iff)

lemma rq_tree_container:
  assumes "sk t \<in> {K_Suite, K_Family}"
  shows "rq_tree t = propagate (with_kids (map rq_tree) (with_state (start_state (sd t)) t))"
  using assms by (cases t) (auto simp: propagate_def with_kids_def with_state_def start_state_def children_state_def)

lemma upd_at_nth: "i < length ts \<Longrightarrow> upd_at f ts [i] = ts[i := f (ts ! i)]"
  by simp

text \<open>The loop over the children from the \<open>i\<close>-th on.\<close>

definition from_child :: "nat \<Rightarrow> stree list \<Rightarrow> stree list" where
  "from_child i ts = take i ts @ map rq_tree (drop i ts)"

lemma from_child_0: "from_child 0 = map rq_tree"
  by (simp add: from_child_def fun_eq_iff)

lemma from_child_step: "i < length ts \<Longrightarrow> from_child (Suc i) (upd_at rq_tree ts [i]) = from_child i ts"
  by (simp add: from_child_def take_Suc_conv_app_nth upd_conv_take_nth_drop Cons_nth_drop_Suc [symmetric])

lemma requeue_refines:
  "requeue e n p a = run_ret a' \<Longrightarrow> p \<noteq> [] \<Longrightarrow> st_at (skels (snd a)) p = Some (skel n) \<Longrightarrow>
     list_all real_tree (skels (snd a)) \<Longrightarrow>
     skels (snd a') = upd_at rq_tree (skels (snd a)) p \<and> df_st (sv_defs (snd a')) = df_st (sv_defs (snd a))"
  "requeue_children e ks i p a = run_ret a' \<Longrightarrow> p \<noteq> [] \<Longrightarrow> st_at (skels (snd a)) p = Some t \<Longrightarrow>
     drop i (sks t) = map skel ks \<Longrightarrow> list_all real_tree (skels (snd a)) \<Longrightarrow>
     skels (snd a') = upd_at (with_kids (from_child i)) (skels (snd a)) p \<and> df_st (sv_defs (snd a')) = df_st (sv_defs (snd a))"
proof (induction e n p a and e ks i p a arbitrary: a' and a' t rule: requeue_requeue_children.induct)
  case (1 e nd ks p args s)
  let ?t = "skel (Node nd ks)"
  have at: "st_at (skels s) p = Some ?t" using "1.prems"(3) by simp
  have real: "list_all real_tree (skels s)" using "1.prems"(4) by simp
  show ?case
  proof (cases "nd_kind nd \<in> {K_Suite, K_Family}")
    case False
    then have "\<exists>s1. skels s1 = upd_at (\<lambda>t. with_state (start_state (sd t)) t) (skels s) p \<and>
        df_st (sv_defs s1) = df_st (sv_defs s) \<and> snd a' = s1"
      using "1.prems"(1) skels_Submittable_requeue [OF _ real] skels_Task_requeue [OF _ real]
      by (cases "nd_kind nd") (auto simp: run_bind_eq_ret)
    moreover have "upd_at (\<lambda>t. with_state (start_state (sd t)) t) (skels s) p = upd_at rq_tree (skels s) p"
      by (rule upd_at_cong) (use False at in \<open>auto simp: with_state_def\<close>)
    ultimately show ?thesis by auto
  next
    case True
    let ?a = "enter_args (ds_st (nd_d_st nd)) args"
    from True "1.prems"(1) obtain s0 s1 s2 b where
      r: "(if nd_kind nd = K_Suite then on_data p (Suite_requeue_head e) s else run_ret s) = run_ret s0"
      "Node_requeue e args p s0 = run_ret s1" "requeue_children e ks 0 p (child_args ?a, s1) = run_ret (b, s2)"
      "snd a' = handle_defstatus_propagation p s2"
      by (cases "nd_kind nd") (auto simp: run_bind_eq_ret Let_def)
    have s0: "skels s0 = skels s \<and> df_st (sv_defs s0) = df_st (sv_defs s)"
      using r(1) skels_Suite_head [OF _ real] by (cases "nd_kind nd = K_Suite") auto
    then have s1: "skels s1 = upd_at (\<lambda>t. with_state (start_state (sd t)) t) (skels s) p" "df_st (sv_defs s1) = df_st (sv_defs s)"
      using skels_Node_requeue [OF r(2)] real by auto
    have at1: "st_at (skels s1) p = Some (with_state (start_state (sd ?t)) ?t)"
      unfolding s1 by (rule st_at_upd_same [OF at])
    have real1: "list_all real_tree (skels s1)" unfolding s1 by (rule fix_upd_at [OF real]) simp
    have "skels s2 = upd_at (with_kids (from_child 0)) (skels s1) p \<and> df_st (sv_defs s2) = df_st (sv_defs s1)"
      using "1.IH" [of _ s1 "(b, s2)" "with_state (start_state (sd ?t)) ?t"] True r(3) "1.prems"(2) at1 real1
      by (cases "nd_kind nd") auto
    then have s2: "skels s2 = upd_at (\<lambda>t. with_kids (map rq_tree) (with_state (start_state (sd t)) t)) (skels s) p"
      "df_st (sv_defs s2) = df_st (sv_defs s)"
      unfolding s1 by (auto simp: upd_at_upd_at comp_def from_child_0)
    then have at2: "st_at (skels s2) p = Some (with_kids (map rq_tree) (with_state (start_state (sd ?t)) ?t))"
      using st_at_upd_same [OF at] by simp
    then obtain m where m: "node_at (sv_suites s2) p = Some m" "skel m = with_kids (map rq_tree) (with_state (start_state (sd ?t)) ?t)"
      by (auto simp: st_at_skel)
    have "sk (skel m) = nd_kind nd" unfolding m(2) by simp
    then have "nd_kind (ndata m) \<in> {K_Suite, K_Family}" using True by simp
    from skels_propagation [OF m(1) this] have
      "skels (snd a') = upd_at (\<lambda>t. propagate (with_kids (map rq_tree) (with_state (start_state (sd t)) t))) (skels s) p"
      "df_st (sv_defs (snd a')) = df_st (sv_defs s)"
      by (auto simp: r(4) s2 upd_at_upd_at comp_def)
    moreover have "upd_at (\<lambda>t. propagate (with_kids (map rq_tree) (with_state (start_state (sd t)) t))) (skels s) p =
        upd_at rq_tree (skels s) p"
    proof (rule upd_at_cong)
      fix t assume "st_at (skels s) p = Some t"
      with at True have "sk t \<in> {K_Suite, K_Family}" by auto
      then show "propagate (with_kids (map rq_tree) (with_state (start_state (sd t)) t)) = rq_tree t"
        by (simp only: rq_tree_container)
    qed
    ultimately show ?thesis by simp
  qed
next
  case (2 e i p a)
  have "upd_at (with_kids (from_child i)) (skels (snd a)) p = skels (snd a)"
    by (rule upd_at_id) (use "2.prems" in \<open>simp add: with_kids_id from_child_def\<close>)
  with "2.prems" show ?case by simp
next
  case (3 e k ks i p a)
  from "3.prems"(1) obtain a1 where r: "requeue e k (p @ [i]) a = run_ret a1" "requeue_children e ks (Suc i) p a1 = run_ret a'"
    by (auto simp: run_bind_eq_ret)
  have i: "i < length (sks t)" using "3.prems"(4) by (metis drop_eq_Nil list.discI list.simps(9) not_le)
  then have k: "sks t ! i = skel k" "drop (Suc i) (sks t) = map skel ks"
    using "3.prems"(4) by (auto simp: Cons_nth_drop_Suc [symmetric])
  have at: "st_at (skels (snd a)) (p @ [i]) = Some (skel k)"
    using st_at_snoc [OF "3.prems"(2)] "3.prems"(3) i k(1) by simp
  from "3.IH"(1) [OF r(1) _ at "3.prems"(5)]
  have 1: "skels (snd a1) = upd_at (with_kids (\<lambda>ts. upd_at rq_tree ts [i])) (skels (snd a)) p" "df_st (sv_defs (snd a1)) = df_st (sv_defs (snd a))"
    by (auto simp: upd_at_snoc [OF "3.prems"(2)])
  let ?t1 = "with_kids (\<lambda>ts. upd_at rq_tree ts [i]) t"
  have at1: "st_at (skels (snd a1)) p = Some ?t1" unfolding 1 by (rule st_at_upd_same [OF "3.prems"(3)])
  have dr: "drop (Suc i) (sks ?t1) = map skel ks" using k(2) i by simp
  have real1: "list_all real_tree (skels (snd a1))"
    using "3.IH"(1) [OF r(1) _ at "3.prems"(5)] fix_upd_at [OF "3.prems"(5) fix_rq_tree] by simp
  from "3.IH"(2) [OF r(2) "3.prems"(2) at1 dr real1]
  have 2: "skels (snd a') = upd_at (with_kids (from_child (Suc i) \<circ> (\<lambda>ts. upd_at rq_tree ts [i]))) (skels (snd a)) p"
    "df_st (sv_defs (snd a')) = df_st (sv_defs (snd a))"
    unfolding 1 upd_at_upd_at with_kids_o by blast+
  have "upd_at (with_kids (from_child (Suc i) \<circ> (\<lambda>ts. upd_at rq_tree ts [i]))) (skels (snd a)) p =
      upd_at (with_kids (from_child i)) (skels (snd a)) p"
    by (rule upd_at_cong) (use "3.prems"(3) i from_child_step [OF i] in \<open>auto simp: with_kids_def\<close>)
  with 2 show ?case by simp
qed

section \<open>Requeue returns\<close>

text \<open>What the constructors of the attributes and the check of a definition establish and every operation keeps:
  well-formed time series, meters with a range, a suite that has begun, and the tree of a condition for each trigger and
  complete expression.\<close>

definition expr_ok :: "expression option \<Rightarrow> bool" where
  "expr_ok x \<longleftrightarrow>
     (case x of
        None \<Rightarrow> True
      | Some ex \<Rightarrow>
          (case ex_ast ex of
             None \<Rightarrow> False
           | Some t \<Rightarrow> (case at_root t of None \<Rightarrow> False | Some a \<Rightarrow> has_truth a \<and> arith_free a)))"

definition data_ok :: "node_data \<Rightarrow> bool" where
  "data_ok nd \<longleftrightarrow> times_inv (nd_time nd) \<and> list_all (\<lambda>m. me_min m \<le> me_max m) (nd_meters nd) \<and>
     (nd_kind nd = K_Suite \<longrightarrow> su_begun (nd_suite nd)) \<and> expr_ok (nd_trigger nd) \<and> expr_ok (nd_complete nd) \<and>
     list_all (\<lambda>q. length (qa_state_vec q) = length (qa_theQueue q)) (nd_queues nd)"

lemma expr_ok_None [simp]: "expr_ok None"
  by (simp add: expr_ok_def)

lemma expr_ok_clear [simp]: "expr_ok (fst (clear_expr x g)) = expr_ok x"
  by (cases x) (simp_all add: clear_expr_def expr_ok_def Expression_clearFree_def case_prod_beta map_prod_def)

fun all_data :: "(node_data \<Rightarrow> bool) \<Rightarrow> node \<Rightarrow> bool" where
  "all_data P (Node nd ks) \<longleftrightarrow> P nd \<and> list_all (all_data P) ks"

abbreviation tree_ok :: "server \<Rightarrow> bool" where "tree_ok s \<equiv> list_all (all_data data_ok) (sv_suites s)"

lemma all_data_sel: "all_data P n \<longleftrightarrow> P (ndata n) \<and> list_all (all_data P) (kids n)"
  by (cases n) simp

lemma all_data_node_at: "list_all (all_data P) ns \<Longrightarrow> node_at ns p = Some n \<Longrightarrow> all_data P n"
proof (induction ns p rule: node_at.induct)
  case (2 ns i p)
  then show ?case using all_data_sel [of P "ns ! i"] by (auto simp: list_all_length split: if_splits)
qed simp

lemma all_data_put: "list_all (all_data P) ns \<Longrightarrow> P nd \<Longrightarrow> list_all (all_data P) (put_data nd ns p)"
proof (induction nd ns p rule: put_data.induct)
  case (2 nd ns i p)
  show ?case
  proof (cases "i < length ns")
    case True
    with 2 have "all_data P (ns ! i)" by (simp add: list_all_length)
    with 2 True all_data_sel [of P "ns ! i"]
    have "all_data P (if p = [] then Node nd (kids (ns ! i)) else Node (ndata (ns ! i)) (put_data nd (kids (ns ! i)) p))" by auto
    with 2 True show ?thesis by (auto simp: list_all_length nth_list_update)
  qed (use 2 in simp)
qed simp

lemma all_data_put_node: "list_all (all_data P) ns \<Longrightarrow> all_data P n \<Longrightarrow> list_all (all_data P) (put_node n ns p)"
proof (induction n ns p rule: put_node.induct)
  case (2 n ns i p)
  show ?case
  proof (cases "i < length ns")
    case True
    with 2 have "all_data P (ns ! i)" by (simp add: list_all_length)
    with 2 True all_data_sel [of P "ns ! i"]
    have "all_data P (if p = [] then n else Node (ndata (ns ! i)) (put_node n (kids (ns ! i)) p))" by auto
    with 2 True show ?thesis by (auto simp: list_all_length nth_list_update)
  qed (use 2 in simp)
qed simp

lemma data_ok_setStateOnly: "data_ok (fst (setStateOnly dur st force nd g)) = data_ok nd"
  by (simp add: setStateOnly_def data_ok_def Let_def case_prod_beta)

lemma data_ok_initState: "data_ok (fst (initState c k nd g)) = data_ok nd"
proof -
  have "data_ok (fst (suspend (nd\<lparr>nd_st_time := x\<rparr>) g)) = data_ok nd"
    "data_ok (fst (resume (nd\<lparr>nd_st_time := x\<rparr>) g)) = data_ok nd" "data_ok (nd\<lparr>nd_st_time := x\<rparr>) = data_ok nd" for x
    by (simp_all add: suspend_def resume_def data_ok_def case_prod_beta)
  then show ?thesis by (simp add: initState_def Let_def case_prod_beta data_ok_setStateOnly)
qed

lemma data_ok_attrs:
  "data_ok (fst (clearTrigger nd g)) = data_ok nd" "data_ok (fst (clearComplete nd g)) = data_ok nd"
  "data_ok (fst (reset_repeat b nd g)) = data_ok nd" "data_ok (fst (requeue_flags nd g)) = data_ok nd"
  "data_ok (fst (reset_late nd g)) = data_ok nd" "data_ok (fst (reset_alias_number b nd g)) = data_ok nd"
  "data_ok (fst (clear_job nd g)) = data_ok nd"
  unfolding clearTrigger_def clearComplete_def reset_repeat_def requeue_flags_def reset_late_def reset_alias_number_def
    clear_job_def Submittable_clear_def data_ok_def Let_def
  by (simp_all add: case_prod_beta split: option.splits)

lemma data_ok_hybrid: "data_ok (fst (markHybridTimeDependentsAsComplete c nd g)) = data_ok nd"
  by (simp add: markHybridTimeDependentsAsComplete_def Let_def data_ok_setStateOnly)

lemma requeue_time_block_returns:
  assumes "data_ok nd" "greg_weekly (en_greg e)"
  shows "\<exists>nd' g'. requeue_time_block e c args nd g = run_ret (nd', g') \<and> data_ok nd'"
proof (cases "has_time_dependencies (nd_time nd)")
  case True
  let ?b = "if rq_reset_next_time_slot args then True else \<not> Flag_is_set FL_NO_REQUE_IF_SINGLE_TIME_DEP (nd_flag nd)"
  have "times_inv (nd_time nd)" using assms(1) by (simp add: data_ok_def)
  from do_requeue_returns [OF this assms(2)] obtain nt g1 where
    "do_requeue_time_attrs (en_greg e) c ?b (rq_reset_relative_duration args) (rq_t args) (nd_time nd) g = run_ret (nt, g1)" "times_inv nt"
    by blast
  moreover from this(2) have "data_ok (nd\<lparr>nd_time := nt\<rparr>)" using assms(1) by (simp add: data_ok_def)
  ultimately show ?thesis
    using True data_ok_hybrid [of c "nd\<lparr>nd_time := nt\<rparr>" g1]
    by (cases "markHybridTimeDependentsAsComplete c (nd\<lparr>nd_time := nt\<rparr>) g1") (simp add: requeue_time_block_def)
qed (use assms in \<open>simp add: requeue_time_block_def\<close>)

lemma reset_user_attrs_returns:
  assumes "data_ok nd"
  shows "\<exists>nd' g'. reset_user_attrs nd g = run_ret (nd', g') \<and> data_ok nd'"
proof -
  have any: "\<exists>ys g'. each (\<lambda>x g. run_ret (f x g)) xs g = run_ret (ys, g')" for f :: "'a \<Rightarrow> ecf \<Rightarrow> 'a \<times> ecf" and xs g
    using each_inv [of xs "\<lambda>x g. run_ret (f x g)" "\<lambda>_. True" g] by fastforce
  have "\<exists>ms g'. each (\<lambda>m g. Some (Meter_reset m g)) (nd_meters nd) g = run_ret (ms, g') \<and> list_all (\<lambda>m. me_min m \<le> me_max m) ms"
    by (rule each_inv)
      (use assms in \<open>auto simp: data_ok_def list_all_iff Meter_reset_def Meter_set_value_def Meter_isValidValue_def case_prod_beta\<close>)
  then obtain ms g1 where 1: "each (\<lambda>m g. Some (Meter_reset m g)) (nd_meters nd) g = run_ret (ms, g1)"
    "list_all (\<lambda>m. me_min m \<le> me_max m) ms" by blast
  obtain es g2 where 2: "each (\<lambda>x g. run_ret (Event_reset x g)) (nd_events nd) g1 = run_ret (es, g2)" using any by blast
  obtain ls g3 where 3: "(if nd_kind nd \<in> {K_Suite, K_Family} then each (\<lambda>l g. run_ret (Label_reset l g)) (nd_labels nd) g2
      else run_ret (nd_labels nd, g2)) = run_ret (ls, g3)" using any [of Label_reset "nd_labels nd" g2] by (cases "nd_kind nd \<in> {K_Suite, K_Family}") auto
  have "\<exists>qs g'. each (\<lambda>q g. run_ret (QueueAttr_requeue q g)) (nd_queues nd) g3 = run_ret (qs, g') \<and>
      list_all (\<lambda>q. length (qa_state_vec q) = length (qa_theQueue q)) qs"
    by (rule each_inv)
      (use assms in \<open>auto simp: data_ok_def list_all_iff QueueAttr_requeue_def qa_incr_state_change_no_def case_prod_beta' Let_def\<close>)
  then obtain qs g4 where 4: "each (\<lambda>q g. run_ret (QueueAttr_requeue q g)) (nd_queues nd) g3 = run_ret (qs, g4)"
    "list_all (\<lambda>q. length (qa_state_vec q) = length (qa_theQueue q)) qs" by blast
  from 1 2 3 4 assms show ?thesis by (simp add: reset_user_attrs_def data_ok_def)
qed

lemma requeue_data_returns:
  assumes "data_ok nd" "greg_weekly (en_greg e)"
  shows "\<exists>nd' g'. requeue_data e c args nd g = run_ret (nd', g') \<and> data_ok nd'"
proof -
  obtain nd1 g1 where h1: "initState c (rq_clear_suspended args) nd g = (nd1, g1)" by fastforce
  obtain nd2 g2 where h2: "clearTrigger nd1 g1 = (nd2, g2)" by fastforce
  obtain nd3 g3 where h3: "clearComplete nd2 g2 = (nd3, g3)" by fastforce
  obtain nd4 g4 where h4: "reset_repeat (rq_resetRepeats args) nd3 g3 = (nd4, g4)" by fastforce
  have "data_ok nd4"
    using assms(1) data_ok_initState [of c "rq_clear_suspended args" nd g] data_ok_attrs(1) [of nd1 g1] data_ok_attrs(2) [of nd2 g2]
      data_ok_attrs(3) [of "rq_resetRepeats args" nd3 g3] by (simp add: h1 h2 h3 h4)
  from requeue_time_block_returns [OF this assms(2)] obtain nd5 g5 where 5: "requeue_time_block e c args nd4 g4 = run_ret (nd5, g5)" "data_ok nd5"
    by blast
  obtain nd6 g6 where h6: "requeue_flags nd5 g5 = (nd6, g6)" by fastforce
  obtain nd7 g7 where h7: "reset_late nd6 g6 = (nd7, g7)" by fastforce
  have "data_ok nd7" using 5(2) data_ok_attrs(4) [of nd5 g5] data_ok_attrs(5) [of nd6 g6] by (simp add: h6 h7)
  from reset_user_attrs_returns [OF this] show ?thesis by (simp add: requeue_data_def h1 h2 h3 h4 5(1) h6 h7)
qed

lemma on_data_returns:
  assumes "node_at (sv_suites s) p = Some n" "tree_ok s"
    and "\<And>g. data_ok (ndata n) \<Longrightarrow> \<exists>nd g'. f (ndata n) g = run_ret (nd, g') \<and> data_ok nd"
  shows "\<exists>s'. on_data p f s = run_ret s' \<and> tree_ok s'"
proof -
  have "data_ok (ndata n)" using all_data_node_at [OF assms(2,1)] by (simp add: all_data_sel)
  from assms(3) [OF this] obtain nd g where "f (ndata n) (ls_ecf (sv_sys s)) = run_ret (nd, g)" "data_ok nd" by blast
  with assms(1,2) show ?thesis by (simp add: on_data_def all_data_put)
qed

lemma on_ret_returns:
  assumes "node_at (sv_suites s) p = Some n" "tree_ok s" and "\<And>nd g. data_ok (fst (f nd g)) = data_ok nd"
  shows "\<exists>s'. on_data p (\<lambda>nd g. run_ret (f nd g)) s = run_ret s' \<and> tree_ok s'"
proof (rule on_data_returns [OF assms(1,2)])
  fix g assume "data_ok (ndata n)"
  then show "\<exists>nd g'. run_ret (f (ndata n) g) = run_ret (nd, g') \<and> data_ok nd"
    using assms(3) [of "ndata n" g] by (cases "f (ndata n) g") simp
qed

lemma tree_ok_put_inlimits: "list_all (all_data data_ok) ns \<Longrightarrow> list_all (all_data data_ok) (put_inlimits ln ns)"
  using all_data_node_at [of data_ok ns "ln_addr ln"]
  by (auto simp: put_inlimits_def all_data_sel data_ok_def intro!: all_data_put split: option.splits)

lemma tree_ok_limits:
  "tree_ok s \<Longrightarrow> tree_ok (on_chain walk p s)" "tree_ok s \<Longrightarrow> tree_ok (decrementInLimit_at p s)"
  "tree_ok s \<Longrightarrow> tree_ok (update_limits_at p st s)" "tree_ok s \<Longrightarrow> tree_ok (reset_limits_at p s)"
proof -
  have f: "list_all (all_data data_ok) ns \<Longrightarrow> list_all (all_data data_ok) (fold put_inlimits chain ns)" for chain ns
    by (induction chain arbitrary: ns) (simp_all add: tree_ok_put_inlimits)
  show c: "tree_ok (on_chain walk p s)" if "tree_ok s" for walk p s
    using f that by (simp add: on_chain_def sv_put_world_def Let_def case_prod_beta)
  show "tree_ok s \<Longrightarrow> tree_ok (decrementInLimit_at p s)" "tree_ok s \<Longrightarrow> tree_ok (update_limits_at p st s)"
    by (simp_all add: decrementInLimit_at_def update_limits_at_def c)
  show "tree_ok s \<Longrightarrow> tree_ok (reset_limits_at p s)"
    by (simp add: reset_limits_at_def sv_put_world_def split: option.splits)
qed

lemma node_at_skels: "(\<exists>n. node_at (sv_suites s) p = Some n) \<longleftrightarrow> st_at (skels s) p \<noteq> None"
  by (auto simp: st_at_skel)

lemma skels_node_at: "st_at (skels s) p = Some t \<Longrightarrow> \<exists>n. node_at (sv_suites s) p = Some n \<and> skel n = t"
  by (auto simp: st_at_skel)

lemma Node_requeue_returns:
  assumes "st_at (skels s) p = Some t" "tree_ok s" "greg_weekly (en_greg e)" "list_all real_tree (skels s)"
  shows "\<exists>s'. Node_requeue e args p s = run_ret s' \<and> tree_ok s'"
proof -
  let ?c = "suite_cal (sv_defs s) p"
  obtain n where n: "node_at (sv_suites s) p = Some n" using skels_node_at [OF assms(1)] by blast
  from on_data_returns [OF n assms(2), of "requeue_data e ?c args"] requeue_data_returns [OF _ assms(3)]
  obtain s1 where 1: "on_data p (requeue_data e ?c args) s = run_ret s1" "tree_ok s1" by blast
  have "skels s1 = upd_at (\<lambda>t. with_state (start_state (sd t)) t) (skels s) p"
    using skels_on_data [OF 1(1), of "\<lambda>t. start_state (sd t)"] requeue_data_effect [OF real_suite_cal [OF assms(4)]] by auto
  then have "st_at (skels (reset_limits_at p s1)) p \<noteq> None"
    using st_at_upd_same [OF assms(1)] by (simp add: skels_limits)
  then obtain m where m: "node_at (sv_suites (reset_limits_at p s1)) p = Some m" using node_at_skels by blast
  from on_data_returns [OF m tree_ok_limits(4) [OF 1(2)], of reset_inlimits]
  obtain s2 where "on_data p reset_inlimits (reset_limits_at p s1) = run_ret s2" "tree_ok s2"
    by (auto simp: reset_inlimits_def data_ok_def)
  with 1 show ?thesis by (simp add: Node_requeue_def tree_ok_limits)
qed

lemma Submittable_requeue_returns:
  assumes "st_at (skels s) p = Some t" "tree_ok s" "greg_weekly (en_greg e)" "list_all real_tree (skels s)"
  shows "\<exists>s'. Submittable_requeue e args p s = run_ret s' \<and> tree_ok s'"
proof -
  obtain n where n: "node_at (sv_suites s) p = Some n" using skels_node_at [OF assms(1)] by blast
  obtain s1 where 1: "on_data p (\<lambda>nd g. run_ret (clear_job nd g)) s = run_ret s1" "tree_ok s1"
    using on_ret_returns [of s p n clear_job, OF n assms(2) data_ok_attrs(7)] by blast
  have "skels s1 = skels s" by (rule skels_on_ret(1) [OF 1(1) attrs_effect(13,14)])
  with Node_requeue_returns [of s1 p t e args] 1 assms show ?thesis by (simp add: Submittable_requeue_def)
qed

lemma Task_requeue_returns:
  assumes "st_at (skels s) p = Some t" "tree_ok s" "greg_weekly (en_greg e)" "list_all real_tree (skels s)"
  shows "\<exists>s'. Task_requeue e b args p s = run_ret s' \<and> tree_ok s'"
proof -
  obtain n where n: "node_at (sv_suites s) p = Some n" using skels_node_at [OF assms(1)] by blast
  obtain s1 where 1: "on_data p (\<lambda>nd g. run_ret (reset_alias_number b nd g)) s = run_ret s1" "tree_ok s1"
    using on_ret_returns [of s p n "reset_alias_number b", OF n assms(2) data_ok_attrs(6)] by blast
  have "skels s1 = skels s" by (rule skels_on_ret(1) [OF 1(1) attrs_effect(11,12)])
  with Submittable_requeue_returns [of s1 p t e args] 1 assms show ?thesis by (simp add: Task_requeue_def)
qed

lemma data_ok_hierarchically:
  "all_data data_ok n \<Longrightarrow> all_data data_ok (fst (setStateOnlyHierarchically dur st force n g))"
  "list_all (all_data data_ok) ks \<Longrightarrow> list_all (all_data data_ok) (fst (setStateOnly_children dur st force ks g))"
proof (induction dur st force n g and dur st force ks g rule: setStateOnlyHierarchically_setStateOnly_children.induct)
  case (1 dur st force nd ks g)
  obtain nd1 g1 where s1: "setStateOnly dur st force nd g = (nd1, g1)" by fastforce
  then have "data_ok nd1 = data_ok nd" using data_ok_setStateOnly [of dur st force nd g] by simp
  with 1 s1 show ?case by (auto simp: case_prod_beta)
next
  case (3 dur st force k ks g)
  obtain k1 g1 where "setStateOnlyHierarchically dur st force k g = (k1, g1)" by fastforce
  with 3 show ?case by (simp add: case_prod_beta)
qed simp

lemma tree_ok_propagation: "tree_ok s \<Longrightarrow> tree_ok (handle_defstatus_propagation p s)"
proof (cases "node_at (sv_suites s) p")
  case (Some n)
  assume t: "tree_ok s"
  then have n: "all_data data_ok n" using Some by (rule all_data_node_at)
  then have "data_ok (ndata n)" by (simp add: all_data_sel)
  with Some t n show ?thesis
    by (simp add: handle_defstatus_propagation_def Let_def case_prod_beta all_data_put all_data_put_node data_ok_setStateOnly
        data_ok_hierarchically)
qed (simp add: handle_defstatus_propagation_def)

lemma requeue_returns:
  "p \<noteq> [] \<Longrightarrow> st_at (skels (snd a)) p = Some (skel n) \<Longrightarrow> list_all real_tree (skels (snd a)) \<Longrightarrow> tree_ok (snd a) \<Longrightarrow>
     greg_weekly (en_greg e) \<Longrightarrow> \<exists>a'. requeue e n p a = run_ret a' \<and> tree_ok (snd a')"
  "p \<noteq> [] \<Longrightarrow> st_at (skels (snd a)) p = Some t \<Longrightarrow> drop i (sks t) = map skel ks \<Longrightarrow> list_all real_tree (skels (snd a)) \<Longrightarrow>
     tree_ok (snd a) \<Longrightarrow> greg_weekly (en_greg e) \<Longrightarrow> \<exists>a'. requeue_children e ks i p a = run_ret a' \<and> tree_ok (snd a')"
proof (induction e n p a and e ks i p a arbitrary: and t rule: requeue_requeue_children.induct)
  case (1 e nd ks p args s)
  let ?t = "skel (Node nd ks)"
  have at: "st_at (skels s) p = Some ?t" and real: "list_all real_tree (skels s)" and ok: "tree_ok s"
    using "1.prems"(2,3,4) by simp_all
  show ?case
  proof (cases "nd_kind nd \<in> {K_Suite, K_Family}")
    case False
    obtain s1 where "Submittable_requeue e args p s = run_ret s1" "tree_ok s1"
      using Submittable_requeue_returns [OF at ok "1.prems"(5) real] by blast
    moreover obtain s2 where "Task_requeue e (ks = []) args p s = run_ret s2" "tree_ok s2"
      using Task_requeue_returns [OF at ok "1.prems"(5) real] by blast
    ultimately show ?thesis using False by (cases "nd_kind nd") simp_all
  next
    case True
    let ?a = "enter_args (ds_st (nd_d_st nd)) args"
    obtain n where n: "node_at (sv_suites s) p = Some n" "skel n = ?t" using skels_node_at [OF at] by blast
    have kd: "nd_kind (ndata n) = nd_kind nd" using arg_cong [OF n(2), of sk] by simp
    have "\<exists>s0. on_data p (Suite_requeue_head e) s = run_ret s0 \<and> tree_ok s0" if "nd_kind nd = K_Suite"
      by (rule on_data_returns [OF n(1) ok]) (use that kd in \<open>simp add: Suite_requeue_head_def requeue_calendar_def data_ok_def
        begin_calendar_def Let_def split: option.splits repeat_t.splits\<close>)
    then obtain s0 where s0: "(if nd_kind nd = K_Suite then on_data p (Suite_requeue_head e) s else run_ret s) = run_ret s0" "tree_ok s0"
      using ok by (cases "nd_kind nd = K_Suite") auto
    have sk0: "skels s0 = skels s" using s0(1) skels_Suite_head [OF _ real] by (cases "nd_kind nd = K_Suite") auto
    obtain s1 where s1: "Node_requeue e args p s0 = run_ret s1" "tree_ok s1"
      using Node_requeue_returns [of s0 p ?t e args] s0(2) "1.prems"(5) at real sk0 by auto
    have sk1: "skels s1 = upd_at (\<lambda>t. with_state (start_state (sd t)) t) (skels s) p"
      using skels_Node_requeue [OF s1(1)] real sk0 by simp
    have at1: "st_at (skels s1) p = Some (with_state (start_state (sd ?t)) ?t)" unfolding sk1 by (rule st_at_upd_same [OF at])
    have real1: "list_all real_tree (skels s1)" unfolding sk1 by (rule fix_upd_at [OF real]) simp
    have "\<exists>a'. requeue_children e ks 0 p (child_args ?a, s1) = run_ret a' \<and> tree_ok (snd a')"
      using "1.IH" [of _ s1 "with_state (start_state (sd ?t)) ?t"] True "1.prems"(1,5) at1 real1 s1(2)
      by (cases "nd_kind nd") auto
    then obtain b s2 where "requeue_children e ks 0 p (child_args ?a, s1) = run_ret (b, s2)" "tree_ok s2" by auto
    with True s0(1) s1(1) tree_ok_propagation show ?thesis by (cases "nd_kind nd") (auto simp: Let_def)
  qed
next
  case (3 e k ks i p a)
  have i: "i < length (sks t)" using "3.prems"(3) by (metis drop_eq_Nil list.discI list.simps(9) not_le)
  then have k: "sks t ! i = skel k" "drop (Suc i) (sks t) = map skel ks"
    using "3.prems"(3) by (auto simp: Cons_nth_drop_Suc [symmetric])
  have at: "st_at (skels (snd a)) (p @ [i]) = Some (skel k)"
    using st_at_snoc [OF "3.prems"(1)] "3.prems"(2) i k(1) by simp
  obtain a1 where 1: "requeue e k (p @ [i]) a = run_ret a1" "tree_ok (snd a1)"
    using "3.IH"(1) [OF _ at "3.prems"(4,5,6)] by auto
  have sk1: "skels (snd a1) = upd_at rq_tree (skels (snd a)) (p @ [i])"
    using requeue_refines(1) [OF 1(1) _ at "3.prems"(4)] by simp
  let ?t1 = "with_kids (\<lambda>ts. upd_at rq_tree ts [i]) t"
  have at1: "st_at (skels (snd a1)) p = Some ?t1"
    unfolding sk1 upd_at_snoc [OF "3.prems"(1)] by (rule st_at_upd_same [OF "3.prems"(2)])
  have dr: "drop (Suc i) (sks ?t1) = map skel ks" using k(2) i by simp
  have real1: "list_all real_tree (skels (snd a1))" unfolding sk1 by (rule fix_upd_at [OF "3.prems"(4) fix_rq_tree])
  from "3.IH"(2) [OF "3.prems"(1) at1 dr real1 1(2) "3.prems"(6)] show ?case using 1(1) by simp
qed simp


text \<open>A server whose suite has begun, with one active task.\<close>

definition begun_suites :: "node list \<Rightarrow> node list" where
  "begun_suites ns = map (\<lambda>n. Node ((ndata n)\<lparr>nd_suite := (nd_suite (ndata n))\<lparr>su_begun := True\<rparr>\<rparr>) (kids n)) ns"

definition demo_server :: server where
  "demo_server =
     \<lparr>sv_defs = one_active\<lparr>df_suites := begun_suites (df_suites one_active)\<rparr>,
      sv_sys = \<lparr>ls_ecf = server_counters, ls_suite_change_no = (\<lambda>_. 0)\<rparr>\<rparr>"

definition demo_env :: env where
  "demo_env = \<lparr>en_greg = week_only, en_gregDay = (\<lambda>y m d. 0), en_now = 0, en_cmd = False\<rparr>"

definition full_requeue :: Requeue_args where
  "full_requeue = \<lparr>rq_t = RQ_FULL, rq_clear_suspended = 0, rq_resetRepeats = True, rq_reset_next_time_slot = True,
                   rq_reset_relative_duration = True, rq_log_state_changes = True\<rparr>"

lemma demo_server_ok: "tree_ok demo_server" "list_all real_tree (skels demo_server)" "greg_weekly (en_greg demo_env)"
proof -
  show "tree_ok demo_server"
    by (simp add: demo_server_def begun_suites_def one_active_def two_families_def mk_node_def data_ok_def times_inv_def
        no_times_def)
  show "list_all real_tree (skels demo_server)"
    by (simp add: demo_server_def begun_suites_def one_active_def two_families_def mk_node_def hybrid_suite_def no_suite_def
        Calendar_default_def cal_hybrid_def)
  show "greg_weekly (en_greg demo_env)" by (simp add: demo_env_def week_only_weekly)
qed


end
