(* ===== verification/State_Change.thy ===== *)
theory State_Change
  imports Requeue
begin

text \<open>
  Changes of state: \<open>Node::set_state\<close>, the virtual \<open>handleStateChange\<close> of \<open>Task\<close>, \<open>Alias\<close> and \<open>NodeContainer\<close>, the walk
  \<open>Node::requeueOrSetMostSignificantStateUpNodeTree\<close> that increments repeats and requeues what has completed, and the
  operations of \<open>Submittable\<close> behind the child commands (\<open>ANode/src\<close>). A node with an \<open>autorestore\<close> attribute is
  not modelled. The password that \<open>increment_try_no\<close> generates is an argument.
\<close>

section \<open>Changes at an address\<close>

definition setStateOnly_at :: "addr \<Rightarrow> NState_State \<Rightarrow> bool \<Rightarrow> server \<Rightarrow> server" where
  "setStateOnly_at p st force s =
     (case node_at (sv_suites s) p of
        None \<Rightarrow> s
      | Some n \<Rightarrow>
          let (nd, g) = setStateOnly (cal_duration (suite_cal (sv_defs s) p)) st force (ndata n) (ls_ecf (sv_sys s))
          in sv_put (put_data nd (sv_suites s) p) g s)"

definition up_node_tree_at :: "addr \<Rightarrow> server \<Rightarrow> server" where
  "up_node_tree_at p s =
     (let (d, g) = set_most_significant_state_up_node_tree (cal_duration (suite_cal (sv_defs s) p)) p (sv_defs s)
                     (ls_ecf (sv_sys s))
      in s\<lparr>sv_defs := d, sv_sys := (sv_sys s)\<lparr>ls_ecf := g\<rparr>\<rparr>)"

definition Defs_settle :: "server \<Rightarrow> server" where
  "Defs_settle s =
     (let (d, g) = Defs_set_most_significant_state (sv_defs s) (ls_ecf (sv_sys s))
      in s\<lparr>sv_defs := d, sv_sys := (sv_sys s)\<lparr>ls_ecf := g\<rparr>\<rparr>)"

text \<open>The virtual call \<open>requeue(args)\<close>.\<close>

definition requeue_at :: "env \<Rightarrow> Requeue_args \<Rightarrow> addr \<Rightarrow> server \<Rightarrow> server run" where
  "requeue_at e args p s =
     (case node_at (sv_suites s) p of
        None \<Rightarrow> Some (Inl (Undefined_behaviour ''Node*''))
      | Some n \<Rightarrow> run_bind (requeue e n p (args, s)) (\<lambda>(_, s1). run_ret s1))"

section \<open>\<open>requeueOrSetMostSignificantStateUpNodeTree\<close>\<close>

text \<open>\<open>repeat_.increment()\<close>; the result is whether the repeat is still valid.\<close>

definition increment_repeat :: "node_data \<Rightarrow> ecf \<Rightarrow> bool \<times> node_data \<times> ecf" where
  "increment_repeat nd g =
     (if nd_repeat nd = NoRepeat then (False, nd, g)
      else let (r, g1) = Repeat_increment (nd_repeat nd) g in (Repeat_valid r, nd\<lparr>nd_repeat := r\<rparr>, g1))"

text \<open>A change of the data of a node that also answers a question.\<close>

definition ask_data :: "addr \<Rightarrow> (node_data \<Rightarrow> ecf \<Rightarrow> (bool \<times> node_data \<times> ecf) run) \<Rightarrow> server \<Rightarrow> (bool \<times> server) run" where
  "ask_data p f s =
     (case node_at (sv_suites s) p of
        None \<Rightarrow> Some (Inl (Undefined_behaviour ''Node*''))
      | Some n \<Rightarrow>
          run_bind (f (ndata n) (ls_ecf (sv_sys s))) (\<lambda>(b, nd, g).
            run_ret (b, sv_put (put_data nd (sv_suites s) p) g s)))"

definition time_requeue_test :: "env \<Rightarrow> calendar \<Rightarrow> node_data \<Rightarrow> ecf \<Rightarrow> (bool \<times> node_data \<times> ecf) run" where
  "time_requeue_test e c nd g =
     (if has_time_dependencies (nd_time nd)
      then run_bind (testTimeDependenciesForRequeue (en_greg e) (en_gregDay e) c (en_cmd e) (nd_time nd) g)
             (\<lambda>(b, nt, g1). run_ret (b, nd\<lparr>nd_time := nt\<rparr>, g1))
      else run_ret (False, nd, g))"

definition repeat_args :: Requeue_args where
  "repeat_args = \<lparr>rq_t = RQ_REPEAT_INCREMENT, rq_clear_suspended = - 1, rq_resetRepeats = False,
                  rq_reset_next_time_slot = True, rq_reset_relative_duration = True, rq_log_state_changes = True\<rparr>"

text \<open>For crons the slot is reset unless the user has run the node by hand.\<close>

definition time_args :: "server \<Rightarrow> addr \<Rightarrow> Requeue_args" where
  "time_args s p =
     \<lparr>rq_t = RQ_TIME, rq_clear_suspended = - 1, rq_resetRepeats = False,
      rq_reset_next_time_slot =
        (case node_at (sv_suites s) p of
           None \<Rightarrow> False
         | Some n \<Rightarrow> nt_crons (nd_time (ndata n)) \<noteq> [] \<and>
                     \<not> Flag_is_set FL_NO_REQUE_IF_SINGLE_TIME_DEP (nd_flag (ndata n))),
      rq_reset_relative_duration = False, rq_log_state_changes = True\<rparr>"

text \<open>The block for a node whose children are complete: true when the node was requeued and the walk is over.\<close>

definition requeue_if_due :: "env \<Rightarrow> addr \<Rightarrow> server \<Rightarrow> (bool \<times> server) run" where
  "requeue_if_due e p s =
     run_bind (ask_data p (\<lambda>nd g. run_ret (increment_repeat nd g)) s) (\<lambda>(again, s1).
       if again
       then run_bind (requeue_at e repeat_args p s1) (\<lambda>s2. run_ret (True, up_node_tree_at p s2))
       else run_bind (ask_data p (time_requeue_test e (suite_cal (sv_defs s1) p)) s1) (\<lambda>(due, s2).
              if due
              then run_bind (requeue_at e (time_args s2 p) p s2) (\<lambda>s3. run_ret (True, up_node_tree_at p s3))
              else run_ret (False, s2)))"

function requeueOrSetMostSignificantStateUpNodeTree :: "env \<Rightarrow> addr \<Rightarrow> server \<Rightarrow> server run" where
  "requeueOrSetMostSignificantStateUpNodeTree e p s =
     (if p = [] then run_ret (Defs_settle s)
      else case node_at (sv_suites s) p of
        None \<Rightarrow> Some (Inl (Undefined_behaviour ''Node*''))
      | Some n \<Rightarrow>
          let computed = computedState_immediate n;
              s1 = (if computed \<noteq> node_state n then setStateOnly_at p computed False s else s)
          in if computed = NS_COMPLETE
             then run_bind (requeue_if_due e p s1) (\<lambda>(requeued, s2).
                    if requeued then run_ret s2
                    else requeueOrSetMostSignificantStateUpNodeTree e (butlast p) s2)
             else requeueOrSetMostSignificantStateUpNodeTree e (butlast p) s1)"
  by pat_completeness auto
termination
  by (relation "measure (\<lambda>(_, p, _). length p)") (auto split: if_splits)

declare requeueOrSetMostSignificantStateUpNodeTree.simps [simp del]

section \<open>\<open>set_state\<close> and the child commands\<close>

definition handleStateChange :: "env \<Rightarrow> addr \<Rightarrow> server \<Rightarrow> server run" where
  "handleStateChange e p s =
     (case node_at (sv_suites s) p of
        None \<Rightarrow> Some (Inl (Undefined_behaviour ''Node*''))
      | Some n \<Rightarrow>
          (case nd_kind (ndata n) of
             K_Alias \<Rightarrow> run_ret (update_limits_at p (node_state n) s)
           | K_Task \<Rightarrow> requeueOrSetMostSignificantStateUpNodeTree e p (update_limits_at p (node_state n) s)
           | _ \<Rightarrow> requeueOrSetMostSignificantStateUpNodeTree e p s))"

text \<open>\<open>Node::set_state\<close>: the argument \<open>force\<close> of the code is not used.\<close>

definition set_state :: "env \<Rightarrow> addr \<Rightarrow> NState_State \<Rightarrow> server \<Rightarrow> server run" where
  "set_state e p newState s =
     (case node_at (sv_suites s) p of
        None \<Rightarrow> Some (Inl (Undefined_behaviour ''Node*''))
      | Some n \<Rightarrow> if node_state n \<noteq> newState then handleStateChange e p (setStateOnly_at p newState False s)
                  else run_ret s)"

fun update_limits_below :: "node \<Rightarrow> addr \<Rightarrow> server \<Rightarrow> server"
  and update_limits_children :: "node list \<Rightarrow> nat \<Rightarrow> addr \<Rightarrow> server \<Rightarrow> server" where
  "update_limits_below (Node nd ks) p s =
     (if nd_kind nd \<in> {K_Suite, K_Family} then update_limits_children ks 0 p s
      else update_limits_at p (ns_st (nd_st nd)) s)"
| "update_limits_children [] i p s = s"
| "update_limits_children (k # ks) i p s = update_limits_children ks (Suc i) p (update_limits_below k (p @ [i]) s)"

definition set_state_hierarchically :: "env \<Rightarrow> addr \<Rightarrow> NState_State \<Rightarrow> bool \<Rightarrow> server \<Rightarrow> server run" where
  "set_state_hierarchically e p st force s =
     (case node_at (sv_suites s) p of
        None \<Rightarrow> Some (Inl (Undefined_behaviour ''Node*''))
      | Some n \<Rightarrow>
          if nd_kind (ndata n) \<in> {K_Suite, K_Family}
          then let (n1, g1) = setStateOnlyHierarchically (cal_duration (suite_cal (sv_defs s) p)) st force n (ls_ecf (sv_sys s));
                   s1 = sv_put (put_node n1 (sv_suites s) p) g1 s
               in handleStateChange e p (if force then update_limits_below n1 p s1 else s1)
          else set_state e p st s)"

definition set_process_or_remote_id :: "string \<Rightarrow> node_data \<Rightarrow> ecf \<Rightarrow> node_data \<times> ecf" where
  "set_process_or_remote_id rid nd g =
     (let (n, g') = incr_state_change_no g
      in (nd\<lparr>nd_job := (nd_job nd)\<lparr>jb_rid := rid, jb_state_change_no := n\<rparr>\<rparr>, g'))"

definition increment_try_no :: "string \<Rightarrow> node_data \<Rightarrow> ecf \<Rightarrow> node_data \<times> ecf" where
  "increment_try_no password nd g =
     (let (n, g') = incr_state_change_no g
      in (nd\<lparr>nd_job := (nd_job nd)\<lparr>jb_tryNo := jb_tryNo (nd_job nd) + 1, jb_rid := [], jb_abr := [],
                                     jb_paswd := password, jb_state_change_no := n\<rparr>\<rparr>, g'))"

definition Submittable_init :: "env \<Rightarrow> string \<Rightarrow> addr \<Rightarrow> server \<Rightarrow> server run" where
  "Submittable_init e rid p s =
     run_bind (set_state e p NS_ACTIVE s) (on_data p (\<lambda>nd g. run_ret (set_process_or_remote_id rid nd g)))"

definition clear_zombie :: "node_data \<Rightarrow> ecf \<Rightarrow> node_data \<times> ecf" where
  "clear_zombie nd g =
     (let (f, g1) = Flag_clear FL_ZOMBIE (nd_flag nd) g in Submittable_clear (nd\<lparr>nd_flag := f\<rparr>) g1)"

definition Submittable_complete :: "env \<Rightarrow> addr \<Rightarrow> server \<Rightarrow> server run" where
  "Submittable_complete e p s =
     run_bind (set_state e p NS_COMPLETE s) (on_data p (\<lambda>nd g. run_ret (clear_zombie nd g)))"

text \<open>Only the first new line and the first semicolon of the reason are taken out.\<close>

definition set_abort_reason :: "string \<Rightarrow> node_data \<Rightarrow> ecf \<Rightarrow> node_data \<times> ecf" where
  "set_abort_reason reason nd g =
     (let (n, g') = incr_state_change_no g;
          r = snd (Str_replace '';'' '' '' (snd (Str_replace [CHR 0x0A] [] reason)))
      in (nd\<lparr>nd_job := (nd_job nd)\<lparr>jb_abr := r, jb_state_change_no := n\<rparr>\<rparr>, g'))"

definition set_aborted_only :: "env \<Rightarrow> string \<Rightarrow> addr \<Rightarrow> server \<Rightarrow> server run" where
  "set_aborted_only e reason p s =
     run_bind (on_data p (\<lambda>nd g. run_ret (set_abort_reason reason nd g)) s) (set_state e p NS_ABORTED)"

section \<open>Consistent trees\<close>

text \<open>The state a node shows for its children, and a tree in which every suite and family shows it.\<close>

definition shown :: "stree \<Rightarrow> NState_State" where
  "shown t = (if sk t \<in> {K_Suite, K_Family} then children_state (ss t) (sks t) else ss t)"

fun ok_tree :: "stree \<Rightarrow> bool" where
  "ok_tree (STree k ds h x ts) \<longleftrightarrow> x = shown (STree k ds h x ts) \<and> list_all ok_tree ts"

text \<open>All nodes but those on the way to \<open>p\<close>, with the node at \<open>p\<close> itself, are consistent.\<close>

fun ok_except :: "addr \<Rightarrow> stree list \<Rightarrow> bool" where
  "ok_except [] ts = list_all ok_tree ts"
| "ok_except (i # p) ts = (\<forall>j < length ts. if j = i then ok_except p (sks (ts ! j)) else ok_tree (ts ! j))"

text \<open>Default status: families and suites are queued or complete. Other default statuses of a container fix its state against
  its children.\<close>

definition plain_node :: "node_kind \<Rightarrow> DState_State \<Rightarrow> bool \<Rightarrow> bool" where
  "plain_node k ds h \<longleftrightarrow> \<not> h \<and> (k \<in> {K_Suite, K_Family} \<longrightarrow> ds = DS_QUEUED \<or> ds = DS_COMPLETE)"

abbreviation plain_tree :: "stree \<Rightarrow> bool" where "plain_tree \<equiv> fix_tree plain_node"

lemma ok_tree_sel: "ok_tree t \<longleftrightarrow> ss t = shown t \<and> list_all ok_tree (sks t)"
  by (cases t) simp

lemma ok_tree_kids: "ok_tree t \<Longrightarrow> list_all ok_tree (sks t)"
  by (cases t) simp

lemma plain_real: "plain_tree t \<Longrightarrow> real_tree t"
  by (induction t) (auto simp: list_all_iff plain_node_def)

lemma plain_real_list: "list_all plain_tree ts \<Longrightarrow> list_all real_tree ts"
  by (auto simp: list_all_iff intro: plain_real)

text \<open>What is left of a tree when the states are taken out: the operations change states only.\<close>

fun erase :: "stree \<Rightarrow> stree" where
  "erase (STree k ds h x ts) = STree k ds h NS_UNKNOWN (map erase ts)"

lemma erase_sel [simp]: "sk (erase t) = sk t" "sks (erase t) = map erase (sks t)" "ss (erase t) = NS_UNKNOWN"
  by (cases t; simp)+

lemma erase_with_state [simp]: "erase (with_state st t) = erase t"
  by (cases t) (simp add: with_state_def)

lemma erase_all_to [simp]: "erase (all_to st t) = erase t"
  by (induction st t rule: all_to.induct) auto

lemma erase_rq_tree [simp]: "erase (rq_tree t) = erase t"
proof (induction t rule: rq_tree.induct)
  case (1 k ds h x ts)
  show ?case
  proof (cases "k \<in> {K_Suite, K_Family}")
    case True
    then have "map (erase \<circ> rq_tree) ts = map erase ts" using 1 by (cases ds) auto
    with True show ?thesis by auto
  qed auto
qed

lemma erase_upd_at: "(\<And>t. erase (f t) = erase t) \<Longrightarrow> map erase (upd_at f ts p) = map erase ts"
proof (induction f ts p rule: upd_at.induct)
  case (2 f ts i p)
  have k: "erase (with_kids (\<lambda>ks. upd_at f ks p) t) = erase t" if "map erase (upd_at f (sks t) p) = map erase (sks t)" for t
    using that by (cases t) (simp add: with_kids_def)
  show ?case
  proof (cases "p = []")
    case True
    with 2 show ?thesis by (simp add: map_update list_update_same_conv)
  next
    case False
    with 2 k show ?thesis by (simp add: map_update list_update_same_conv)
  qed
qed simp

lemma st_at_erase: "st_at (map erase ts) p = map_option erase (st_at ts p)"
  by (induction ts p rule: st_at.induct) auto

lemma shown_with_state: "shown (with_state (shown t) t) = shown t"
  by (simp add: shown_def children_state_def)

lemma skel_shown: "computedState_immediate n = shown (skel n)"
  by (auto simp: computedState_immediate_def is_container_def shown_def children_state_def comp_def)

lemma same_children: "ts \<noteq> [] \<Longrightarrow> \<forall>t \<in> set ts. ss t = st \<Longrightarrow> theComputedNodeState (map ss ts) = st"
  by (cases st; cases ts) (auto simp: theComputedNodeState_cases)

lemma all_to_state [simp]: "ss (all_to st t) = st"
  by (cases t) simp

lemma all_to_ok: "list_all ok_tree (sks t) \<Longrightarrow> ok_tree (all_to st t)"
proof (induction st t rule: all_to.induct)
  case (1 st k ds h x ts)
  show ?case
  proof (cases "k \<in> {K_Suite, K_Family}")
    case True
    have "list_all ok_tree (map (all_to st) ts)"
      unfolding list_all_iff
    proof
      fix u assume "u \<in> set (map (all_to st) ts)"
      then obtain t where t: "t \<in> set ts" "u = all_to st t" by auto
      then have "ok_tree t" using "1.prems" by (simp add: list_all_iff)
      then have "list_all ok_tree (sks t)" by (rule ok_tree_kids)
      with True t 1(1) show "ok_tree u" by auto
    qed
    moreover have "children_state st (map (all_to st) ts) = st"
      using same_children [of "map (all_to st) ts"] by (auto simp: children_state_def)
    ultimately show ?thesis using True by (auto simp: shown_def)
  qed (use 1 in \<open>simp add: shown_def\<close>)
qed

lemma rq_tree_ok: "plain_tree t \<Longrightarrow> list_all ok_tree (sks t) \<Longrightarrow> ok_tree (rq_tree t)"
proof (induction t rule: rq_tree.induct)
  case (1 k ds h x ts)
  show ?case
  proof (cases "k \<in> {K_Suite, K_Family}")
    case True
    have ds: "ds = DS_COMPLETE \<or> ds = DS_QUEUED" using "1.prems"(1) True by (auto simp: plain_node_def)
    have kids: "list_all ok_tree (map rq_tree ts)"
      unfolding list_all_iff
    proof
      fix u assume "u \<in> set (map rq_tree ts)"
      then obtain t where t: "t \<in> set ts" "u = rq_tree t" by auto
      then have p: "plain_tree t" and "ok_tree t" using "1.prems" by (simp_all add: list_all_iff)
      then have "list_all ok_tree (sks t)" by (simp add: ok_tree_kids)
      with p True t ds 1(1,2) show "ok_tree u" by auto
    qed
    from ds show ?thesis
    proof
      assume "ds = DS_COMPLETE"
      with all_to_ok [of "STree k ds h x (map rq_tree ts)"] kids True show ?thesis by auto
    next
      assume "ds = DS_QUEUED"
      with kids True show ?thesis by (auto simp: shown_def children_state_def)
    qed
  qed (use 1 in \<open>simp add: shown_def\<close>)
qed

lemma ok_except_below: "st_at ts p = Some t \<Longrightarrow> ok_except p ts \<Longrightarrow> list_all ok_tree (sks t)"
  by (induction ts p rule: st_at.induct) (auto split: if_splits)

lemma ok_except_upd:
  "st_at ts p = Some t \<Longrightarrow> ok_except p ts \<Longrightarrow> ok_tree (f t) \<Longrightarrow> ok_except (butlast p) (upd_at f ts p)"
proof (induction f ts p rule: upd_at.induct)
  case (2 f ts i p)
  show ?case
  proof (cases "p = []")
    case True
    with 2 show ?thesis by (auto simp: list_all_length nth_list_update split: if_splits)
  next
    case False
    with 2 have "ok_except (butlast p) (upd_at f (sks (ts ! i)) p)" by (auto split: if_splits)
    with 2 False show ?thesis by (auto simp: nth_list_update split: if_splits)
  qed
qed simp

lemma ok_except_all: "list_all ok_tree ts \<Longrightarrow> ok_except p ts"
proof (induction p arbitrary: ts)
  case (Cons i p)
  then have "j < length ts \<Longrightarrow> list_all ok_tree (sks (ts ! j))" for j using ok_tree_kids by (simp add: list_all_length)
  with Cons show ?case by (simp add: list_all_length)
qed simp

lemma ok_except_longer: "ok_except (butlast p) ts \<Longrightarrow> ok_except p ts"
proof (induction p arbitrary: ts)
  case (Cons i p)
  show ?case
  proof (cases "p = []")
    case True
    with Cons.prems show ?thesis using ok_except_all [of ts "[i]"] by simp
  next
    case False
    with Cons show ?thesis by auto
  qed
qed simp

text \<open>A change at \<open>p\<close> that keeps the children leaves the rest consistent.\<close>

lemma ok_except_change: "ok_except p ts \<Longrightarrow> (\<And>t. sks (f t) = sks t) \<Longrightarrow> ok_except p (upd_at f ts p)"
proof (induction f ts p rule: upd_at.induct)
  case (2 f ts i p)
  then show ?case by (auto simp: nth_list_update)
qed simp

section \<open>The walks keep the tree consistent\<close>

text \<open>What every state of the server satisfies between operations: well-formed attributes, and the static conditions.\<close>

definition server_ok :: "server \<Rightarrow> bool" where
  "server_ok s \<longleftrightarrow> tree_ok s \<and> list_all plain_tree (skels s)"

text \<open>The whole tree is consistent, and so is the state of the definition.\<close>

definition settled :: "server \<Rightarrow> bool" where
  "settled s \<longleftrightarrow> list_all ok_tree (skels s) \<and> ns_st (df_st (sv_defs s)) = theComputedNodeState (map ss (skels s))"

text \<open>An operation from \<open>s\<close> to \<open>s'\<close> keeps the attributes well-formed and changes nothing of the tree but the states.\<close>

definition keeps :: "server \<Rightarrow> server \<Rightarrow> bool" where
  "keeps s s' \<longleftrightarrow> server_ok s' \<and> map erase (skels s') = map erase (skels s)"

lemma keeps_trans [trans]: "keeps s s1 \<Longrightarrow> keeps s1 s2 \<Longrightarrow> keeps s s2"
  by (simp add: keeps_def)

lemma keeps_ok: "keeps s s' \<Longrightarrow> server_ok s'"
  by (simp add: keeps_def)

lemma skels_setStateOnly_at:
  "skels (setStateOnly_at p st force s) = upd_at (with_state st) (skels s) p"
  "df_st (sv_defs (setStateOnly_at p st force s)) = df_st (sv_defs s)"
  "tree_ok s \<Longrightarrow> tree_ok (setStateOnly_at p st force s)"
proof -
  let ?dur = "cal_duration (suite_cal (sv_defs s) p)" and ?g = "ls_ecf (sv_sys s)"
  have "skels (setStateOnly_at p st force s) = upd_at (with_state st) (skels s) p \<and>
    df_st (sv_defs (setStateOnly_at p st force s)) = df_st (sv_defs s) \<and> (tree_ok s \<longrightarrow> tree_ok (setStateOnly_at p st force s))"
  proof (cases "node_at (sv_suites s) p")
    case None
    then have "upd_at (with_state st) (skels s) p = skels s" by (intro upd_at_id) (simp add: st_at_skel)
    with None show ?thesis by (simp add: setStateOnly_at_def)
  next
    case (Some n)
    let ?nd = "fst (setStateOnly ?dur st force (ndata n) ?g)"
    have f: "fixed ?nd = fixed (ndata n)" "ns_st (nd_st ?nd) = st" by (rule setStateOnly_fixed setStateOnly_state)+
    have "map skel (put_data ?nd (sv_suites s) p) = upd_at (with_state st) (skels s) p"
      using skel_put_data [OF Some, of ?nd] f by (simp add: fixed_def)
    moreover have "tree_ok s \<Longrightarrow> data_ok ?nd" using all_data_node_at [OF _ Some] by (auto simp: all_data_sel data_ok_setStateOnly)
    ultimately show ?thesis using Some by (simp add: setStateOnly_at_def case_prod_beta all_data_put)
  qed
  then show "skels (setStateOnly_at p st force s) = upd_at (with_state st) (skels s) p"
    "df_st (sv_defs (setStateOnly_at p st force s)) = df_st (sv_defs s)"
    "tree_ok s \<Longrightarrow> tree_ok (setStateOnly_at p st force s)" by auto
qed

lemma settle_node_skel:
  assumes "node_at (df_suites d) p = Some n" and "settle_node dur p n d g = (d1, g1)"
  shows "map skel (df_suites d1) = upd_at (\<lambda>t. with_state (shown t) t) (map skel (df_suites d)) p"
    "list_all (all_data data_ok) (df_suites d) \<Longrightarrow> list_all (all_data data_ok) (df_suites d1)"
proof -
  have at: "st_at (map skel (df_suites d)) p = Some (skel n)" using assms(1) by (simp add: st_at_skel)
  have "map skel (df_suites d1) = upd_at (\<lambda>t. with_state (shown t) t) (map skel (df_suites d)) p \<and>
    (list_all (all_data data_ok) (df_suites d) \<longrightarrow> list_all (all_data data_ok) (df_suites d1))"
  proof (cases "nd_kind (ndata n) = K_Task \<or> computedState_immediate n = node_state n")
    case True
    then have "shown (skel n) = ss (skel n)" by (auto simp: shown_def skel_shown)
    then have "with_state (shown (skel n)) (skel n) = skel n" by (simp only: with_state_id)
    with at have "upd_at (\<lambda>t. with_state (shown t) t) (map skel (df_suites d)) p = map skel (df_suites d)"
      by (intro upd_at_id) simp
    with True assms(2) show ?thesis by (simp add: settle_node_def)
  next
    case False
    let ?nd = "fst (setStateOnly dur (computedState_immediate n) False (ndata n) g)"
    have d1: "df_suites d1 = put_data ?nd (df_suites d) p" using assms(2) False by (auto simp: settle_node_def Let_def case_prod_beta)
    have f: "fixed ?nd = fixed (ndata n)" "ns_st (nd_st ?nd) = computedState_immediate n"
      by (rule setStateOnly_fixed setStateOnly_state)+
    have "map skel (put_data ?nd (df_suites d) p) = upd_at (with_state (shown (skel n))) (map skel (df_suites d)) p"
      using skel_put_data [OF assms(1), of ?nd] f by (simp add: fixed_def skel_shown)
    also have "\<dots> = upd_at (\<lambda>t. with_state (shown t) t) (map skel (df_suites d)) p"
      by (rule upd_at_cong) (use at in simp)
    finally show ?thesis
      using all_data_node_at [OF _ assms(1), of data_ok] all_data_sel [of data_ok n]
      by (auto simp: d1 data_ok_setStateOnly intro!: all_data_put)
  qed
  then show "map skel (df_suites d1) = upd_at (\<lambda>t. with_state (shown t) t) (map skel (df_suites d)) p"
    "list_all (all_data data_ok) (df_suites d) \<Longrightarrow> list_all (all_data data_ok) (df_suites d1)" by auto
qed

lemma shown_ok: "list_all ok_tree (sks t) \<Longrightarrow> ok_tree (with_state (shown t) t)"
  using shown_with_state [of t] by (cases t) (simp add: with_state_def)

lemma up_walk_ok:
  assumes "set_most_significant_state_up_node_tree dur p d g = (d', g')" "ok_except p (map skel (df_suites d))"
    "p = [] \<or> (\<exists>n. node_at (df_suites d) p = Some n)" "list_all (fix_tree Q) (map skel (df_suites d))"
    "list_all (all_data data_ok) (df_suites d)"
  shows "list_all ok_tree (map skel (df_suites d')) \<and> ns_st (df_st d') = theComputedNodeState (map node_state (df_suites d')) \<and>
    list_all (fix_tree Q) (map skel (df_suites d')) \<and> list_all (all_data data_ok) (df_suites d') \<and>
    map erase (map skel (df_suites d')) = map erase (map skel (df_suites d))"
  using assms
proof (induction "length p" arbitrary: p d g)
  case 0
  then show ?case
    by (auto simp: up_node_tree_top Defs_set_most_significant_state_def NState_setState_def Let_def case_prod_beta split: if_splits)
next
  case (Suc k)
  then obtain n where at: "node_at (df_suites d) p = Some n" by fastforce
  have st: "st_at (map skel (df_suites d)) p = Some (skel n)" using at by (simp add: st_at_skel)
  obtain d1 g1 where s1: "settle_node dur p n d g = (d1, g1)" by fastforce
  have up: "set_most_significant_state_up_node_tree dur (butlast p) d1 g1 = (d', g')"
    using Suc.prems(1) s1 by (simp add: up_node_tree_unfold [OF at])
  have len: "k = length (butlast p)" using Suc.hyps(2) by simp
  have ex: "butlast p = [] \<or> (\<exists>m. node_at (df_suites d1) (butlast p) = Some m)"
    using node_at_butlast [OF at] settle_node_effect(3) [OF at s1] by blast
  have ok: "ok_except (butlast p) (map skel (df_suites d1))"
    unfolding settle_node_skel(1) [OF at s1]
    by (rule ok_except_upd [OF st Suc.prems(2)]) (rule shown_ok [OF ok_except_below [OF st Suc.prems(2)]])
  have fx: "list_all (fix_tree Q) (map skel (df_suites d1))"
    unfolding settle_node_skel(1) [OF at s1] by (rule fix_upd_at [OF Suc.prems(4)]) simp
  have "map erase (map skel (df_suites d1)) = map erase (map skel (df_suites d))"
    unfolding settle_node_skel(1) [OF at s1] by (rule erase_upd_at) simp
  with Suc.hyps(1) [OF len up ok ex fx settle_node_skel(2) [OF at s1 Suc.prems(5)]] show ?case by simp
qed

lemma up_node_tree_at_ok:
  assumes "ok_except p (skels s)" "st_at (skels s) p = Some t" "server_ok s"
  shows "settled (up_node_tree_at p s)" "keeps s (up_node_tree_at p s)"
proof -
  let ?dur = "cal_duration (suite_cal (sv_defs s) p)"
  obtain d' g' where u: "set_most_significant_state_up_node_tree ?dur p (sv_defs s) (ls_ecf (sv_sys s)) = (d', g')" by fastforce
  from up_walk_ok [OF u assms(1), of plain_node] skels_node_at [OF assms(2)] assms(3)
  have r: "list_all ok_tree (map skel (df_suites d'))" "ns_st (df_st d') = theComputedNodeState (map node_state (df_suites d'))"
    "list_all plain_tree (map skel (df_suites d'))" "list_all (all_data data_ok) (df_suites d')"
    "map erase (map skel (df_suites d')) = map erase (skels s)"
    by (auto simp: server_ok_def simp del: map_map)
  then show "settled (up_node_tree_at p s)" "keeps s (up_node_tree_at p s)"
    by (simp_all add: settled_def keeps_def server_ok_def up_node_tree_at_def u comp_def)
qed

lemma requeue_at_ok:
  assumes "st_at (skels s) p = Some t" "server_ok s" "greg_weekly (en_greg e)"
  shows "\<exists>s'. requeue_at e args p s = run_ret s' \<and> skels s' = upd_at rq_tree (skels s) p \<and> keeps s s' \<and>
    df_st (sv_defs s') = df_st (sv_defs s)"
proof -
  obtain n where n: "node_at (sv_suites s) p = Some n" "skel n = t" using skels_node_at [OF assms(1)] by blast
  then have p: "p \<noteq> []" by auto
  have real: "list_all real_tree (skels s)" using assms(2) by (auto simp: server_ok_def intro: plain_real_list)
  obtain args' s' where r: "requeue e n p (args, s) = run_ret (args', s')" "tree_ok s'"
    using requeue_returns(1) [of p "(args, s)" n e] p n assms real by (auto simp: server_ok_def)
  have sk: "skels s' = upd_at rq_tree (skels s) p" "df_st (sv_defs s') = df_st (sv_defs s)"
    using requeue_refines(1) [OF r(1) p] assms(1) n(2) real by auto
  have "list_all plain_tree (skels s')"
    unfolding sk by (rule fix_upd_at) (use assms(2) fix_rq_tree in \<open>auto simp: server_ok_def\<close>)
  moreover have "map erase (skels s') = map erase (skels s)" unfolding sk by (rule erase_upd_at) simp
  ultimately show ?thesis using r sk n(1) by (simp add: requeue_at_def server_ok_def keeps_def del: map_map)
qed

lemma ask_data_ok:
  assumes "st_at (skels s) p = Some t" "server_ok s"
    and "\<And>n g. node_at (sv_suites s) p = Some n \<Longrightarrow> data_ok (ndata n) \<Longrightarrow>
      \<exists>b nd g'. f (ndata n) g = run_ret (b, nd, g') \<and> data_ok nd \<and> fixed nd = fixed (ndata n) \<and> nd_st nd = nd_st (ndata n)"
  shows "\<exists>b s'. ask_data p f s = run_ret (b, s') \<and> skels s' = skels s \<and> keeps s s' \<and> df_st (sv_defs s') = df_st (sv_defs s)"
proof -
  obtain n where n: "node_at (sv_suites s) p = Some n" using skels_node_at [OF assms(1)] by blast
  have "data_ok (ndata n)" using all_data_node_at [OF _ n, of data_ok] assms(2) all_data_sel [of data_ok n] by (auto simp: server_ok_def)
  from assms(3) [OF n this, of "ls_ecf (sv_sys s)"] obtain b nd g' where
    f: "f (ndata n) (ls_ecf (sv_sys s)) = run_ret (b, nd, g')" "data_ok nd" "fixed nd = fixed (ndata n)" "nd_st nd = nd_st (ndata n)"
    by blast
  have "map skel (put_data nd (sv_suites s) p) = upd_at (with_state (node_state n)) (skels s) p"
    using skel_put_data [OF n, of nd] f(3,4) by (simp add: fixed_def)
  also have "\<dots> = skels s"
  proof (rule upd_at_id)
    fix t assume "st_at (skels s) p = Some t"
    with n have "node_state n = ss t" by (auto simp: st_at_skel)
    then show "with_state (node_state n) t = t" by (simp add: with_state_id)
  qed
  finally show ?thesis using n f(1,2) assms(2) by (simp add: ask_data_def server_ok_def keeps_def all_data_put del: map_map)
qed

lemma increment_repeat_keeps:
  "data_ok nd \<Longrightarrow> \<exists>b nd' g'. increment_repeat nd g = (b, nd', g') \<and> data_ok nd' \<and> fixed nd' = fixed nd \<and> nd_st nd' = nd_st nd"
  by (auto simp: increment_repeat_def data_ok_def fixed_def Let_def case_prod_beta)

lemma time_requeue_test_keeps:
  assumes "data_ok nd" "greg_weekly (en_greg e)"
  shows "\<exists>b nd' g'. time_requeue_test e c nd g = run_ret (b, nd', g') \<and> data_ok nd' \<and> fixed nd' = fixed nd \<and> nd_st nd' = nd_st nd"
proof -
  have "times_inv (nd_time nd)" using assms(1) by (simp add: data_ok_def)
  from test_requeue_returns [OF this assms(2)] obtain b nt g' where
    "testTimeDependenciesForRequeue (en_greg e) (en_gregDay e) c (en_cmd e) (nd_time nd) g = run_ret (b, nt, g')" "times_inv nt"
    by blast
  with assms(1) show ?thesis
    by (cases "has_time_dependencies (nd_time nd)") (simp_all add: time_requeue_test_def data_ok_def fixed_def ex_bool_eq)
qed

lemma requeue_then_up_ok:
  assumes "st_at (skels s) p = Some t" "server_ok s" "greg_weekly (en_greg e)" "ok_except p (skels s)"
  shows "\<exists>s'. run_bind (requeue_at e args p s) (\<lambda>s1. run_ret (True, up_node_tree_at p s1)) = run_ret (True, s') \<and> keeps s s' \<and> settled s'"
proof -
  obtain s1 where s1: "requeue_at e args p s = run_ret s1" "skels s1 = upd_at rq_tree (skels s) p" "keeps s s1"
    using requeue_at_ok [OF assms(1-3)] by blast
  have "plain_tree t" using fix_st_at [OF _ assms(1), of plain_node] assms(2) by (simp add: server_ok_def)
  then have t: "ok_tree (rq_tree t)" using rq_tree_ok ok_except_below [OF assms(1,4)] by blast
  have at1: "st_at (skels s1) p = Some (rq_tree t)" unfolding s1(2) by (rule st_at_upd_same [OF assms(1)])
  have "ok_except (butlast p) (skels s1)" unfolding s1(2) by (rule ok_except_upd [OF assms(1,4)]) (rule t)
  then have "ok_except p (skels s1)" by (rule ok_except_longer)
  then have "settled (up_node_tree_at p s1)" "keeps s1 (up_node_tree_at p s1)"
    using up_node_tree_at_ok [OF _ at1 keeps_ok [OF s1(3)]] by blast+
  with keeps_trans [OF s1(3)] s1(1) show ?thesis by simp
qed

lemma requeue_if_due_ok:
  assumes "st_at (skels s) p = Some t" "server_ok s" "greg_weekly (en_greg e)" "ok_except p (skels s)"
  shows "\<exists>b s'. requeue_if_due e p s = run_ret (b, s') \<and> keeps s s' \<and> (if b then settled s' else skels s' = skels s)"
proof -
  have "\<exists>b s1. ask_data p (\<lambda>nd g. run_ret (increment_repeat nd g)) s = run_ret (b, s1) \<and> skels s1 = skels s \<and> keeps s s1 \<and>
      df_st (sv_defs s1) = df_st (sv_defs s)"
    by (rule ask_data_ok [OF assms(1,2)]) (use increment_repeat_keeps in auto)
  then obtain again s1 where 1: "ask_data p (\<lambda>nd g. run_ret (increment_repeat nd g)) s = run_ret (again, s1)" "skels s1 = skels s"
    "keeps s s1" by blast
  note ok1 = keeps_ok [OF 1(3)]
  show ?thesis
  proof (cases again)
    case True
    with requeue_then_up_ok [of s1 p t e repeat_args] 1 ok1 assms keeps_trans [OF 1(3)] show ?thesis
      by (auto simp: requeue_if_due_def)
  next
    case False
    have "\<exists>b s2. ask_data p (time_requeue_test e (suite_cal (sv_defs s1) p)) s1 = run_ret (b, s2) \<and> skels s2 = skels s1 \<and>
        keeps s1 s2 \<and> df_st (sv_defs s2) = df_st (sv_defs s1)"
      by (rule ask_data_ok [of s1 p t]) (use 1 ok1 assms time_requeue_test_keeps in auto)
    then obtain due s2 where 2: "ask_data p (time_requeue_test e (suite_cal (sv_defs s1) p)) s1 = run_ret (due, s2)"
      "skels s2 = skels s" "keeps s s2" using 1 by (auto intro: keeps_trans)
    with requeue_then_up_ok [of s2 p t e "time_args s2 p"] 1 False assms keeps_ok keeps_trans [OF 2(3)] show ?thesis
      by (cases due) (auto simp: requeue_if_due_def)
  qed
qed

lemma requeueOrSet_ok:
  assumes "ok_except p (skels s)" "p = [] \<or> (\<exists>t. st_at (skels s) p = Some t)" "server_ok s" "greg_weekly (en_greg e)"
  shows "\<exists>s'. requeueOrSetMostSignificantStateUpNodeTree e p s = run_ret s' \<and> keeps s s' \<and> settled s'"
  using assms
proof (induction "length p" arbitrary: p s)
  case 0
  then show ?case
    by (subst requeueOrSetMostSignificantStateUpNodeTree.simps)
      (auto simp: Defs_settle_def settled_def server_ok_def keeps_def Defs_set_most_significant_state_def NState_setState_def Let_def
        case_prod_beta comp_def)
next
  case (Suc k)
  then obtain t where t: "st_at (skels s) p = Some t" by fastforce
  then obtain n where n: "node_at (sv_suites s) p = Some n" "skel n = t" using skels_node_at by blast
  have ne: "p \<noteq> []" and len: "k = length (butlast p)" using Suc.hyps(2) by auto
  define s1 where "s1 = (if computedState_immediate n \<noteq> node_state n then setStateOnly_at p (computedState_immediate n) False s else s)"
  have sh: "computedState_immediate n = shown t" using skel_shown n(2) by simp
  have sk1: "skels s1 = upd_at (\<lambda>t. with_state (shown t) t) (skels s) p"
  proof (cases "shown t = ss t")
    case True
    have "upd_at (\<lambda>t. with_state (shown t) t) (skels s) p = skels s"
      by (rule upd_at_id) (use t True with_state_id [of t] in auto)
    with True n(2) show ?thesis by (auto simp: s1_def sh)
  next
    case False
    have "upd_at (with_state (shown t)) (skels s) p = upd_at (\<lambda>t. with_state (shown t) t) (skels s) p"
      by (rule upd_at_cong) (use t in simp)
    with False n(2) show ?thesis by (auto simp: s1_def sh skels_setStateOnly_at)
  qed
  have at1: "st_at (skels s1) p = Some (with_state (shown t) t)" unfolding sk1 by (rule st_at_upd_same [OF t])
  have up: "ok_except (butlast p) (skels s1)" unfolding sk1
    by (rule ok_except_upd [OF t Suc.prems(1)]) (rule shown_ok [OF ok_except_below [OF t Suc.prems(1)]])
  have "list_all plain_tree (skels s1)" unfolding sk1 by (rule fix_upd_at) (use Suc.prems(3) in \<open>auto simp: server_ok_def\<close>)
  moreover have "map erase (skels s1) = map erase (skels s)" unfolding sk1 by (rule erase_upd_at) simp
  ultimately have k1: "keeps s s1" using Suc.prems(3) skels_setStateOnly_at(3) by (auto simp: keeps_def server_ok_def s1_def)
  note ok1 = keeps_ok [OF k1]
  have ex: "butlast p = [] \<or> (\<exists>t. st_at ts (butlast p) = Some t)" if "st_at ts p = Some u" for ts u
    using st_at_snoc [of "butlast p" ts "last p"] that ne
    by (cases "butlast p = []"; cases "st_at ts (butlast p)") auto
  show ?case
  proof (cases "shown t = NS_COMPLETE")
    case False
    have "requeueOrSetMostSignificantStateUpNodeTree e p s = requeueOrSetMostSignificantStateUpNodeTree e (butlast p) s1"
      using n ne False by (subst requeueOrSetMostSignificantStateUpNodeTree.simps) (simp add: s1_def sh)
    with Suc.hyps(1) [OF len up ex [OF at1] ok1 Suc.prems(4)] keeps_trans [OF k1] show ?thesis by auto
  next
    case True
    obtain b s2 where s2: "requeue_if_due e p s1 = run_ret (b, s2)" "keeps s1 s2" "if b then settled s2 else skels s2 = skels s1"
      using requeue_if_due_ok [OF at1 ok1 Suc.prems(4) ok_except_longer [OF up]] by blast
    have "requeueOrSetMostSignificantStateUpNodeTree e p s =
        (if b then run_ret s2 else requeueOrSetMostSignificantStateUpNodeTree e (butlast p) s2)"
      using n(1) ne True sh s2(1)
      by (cases "node_state n = NS_COMPLETE"; subst requeueOrSetMostSignificantStateUpNodeTree.simps)
        (simp_all add: s1_def)
    with Suc.hyps(1) [OF len _ _ keeps_ok [OF s2(2)] Suc.prems(4)] s2 up ex [OF at1] keeps_trans [OF k1]
      keeps_trans [OF s2(2)] show ?thesis by (cases b) auto
  qed
qed

lemma node_kind_skel: "node_at (sv_suites s) p = Some n \<Longrightarrow> st_at (skels s) p = Some t \<Longrightarrow> sk t = nd_kind (ndata n) \<and> ss t = node_state n"
  by (auto simp: st_at_skel)

lemma handleStateChange_ok:
  assumes "ok_except p (skels s)" "st_at (skels s) p = Some t" "sk t \<noteq> K_Alias" "server_ok s" "greg_weekly (en_greg e)"
  shows "\<exists>s'. handleStateChange e p s = run_ret s' \<and> keeps s s' \<and> settled s'"
proof -
  obtain n where n: "node_at (sv_suites s) p = Some n" "skel n = t" using skels_node_at [OF assms(2)] by blast
  have k: "nd_kind (ndata n) \<noteq> K_Alias" using n assms(3) by auto
  let ?u = "update_limits_at p (node_state n) s"
  have "server_ok ?u" using assms(4) by (simp add: server_ok_def skels_limits tree_ok_limits)
  then have "\<exists>s'. requeueOrSetMostSignificantStateUpNodeTree e p ?u = run_ret s' \<and> keeps s s' \<and> settled s'"
    using requeueOrSet_ok [of p ?u e] assms by (simp add: keeps_def skels_limits del: map_map)
  moreover have "\<exists>s'. requeueOrSetMostSignificantStateUpNodeTree e p s = run_ret s' \<and> keeps s s' \<and> settled s'"
    using requeueOrSet_ok [of p s e] assms by simp
  ultimately show ?thesis using n(1) k by (cases "nd_kind (ndata n)") (simp_all add: handleStateChange_def)
qed

lemma set_state_ok:
  assumes "node_at (sv_suites s) p = Some n" "nd_kind (ndata n) \<noteq> K_Alias" "server_ok s" "settled s" "greg_weekly (en_greg e)"
  shows "\<exists>s'. set_state e p st s = run_ret s' \<and> keeps s s' \<and> settled s'"
proof (cases "node_state n = st")
  case False
  let ?s = "setStateOnly_at p st False s"
  have at: "st_at (skels s) p = Some (skel n)" using assms(1) by (simp add: st_at_skel)
  have sk: "skels ?s = upd_at (with_state st) (skels s) p" by (rule skels_setStateOnly_at)
  have "list_all plain_tree (skels ?s)" unfolding sk by (rule fix_upd_at) (use assms(3) in \<open>auto simp: server_ok_def\<close>)
  moreover have "map erase (skels ?s) = map erase (skels s)" unfolding sk by (rule erase_upd_at) simp
  ultimately have k: "keeps s ?s" using assms(3) by (simp add: keeps_def server_ok_def skels_setStateOnly_at(3) del: map_map)
  have "ok_except p (skels s)" using assms(4) by (simp add: settled_def ok_except_all)
  then have ex: "ok_except p (skels ?s)" unfolding sk by (rule ok_except_change) simp
  have at1: "st_at (skels ?s) p = Some (with_state st (skel n))" unfolding sk by (rule st_at_upd_same [OF at])
  from handleStateChange_ok [OF ex at1 _ keeps_ok [OF k] assms(5)] assms(1,2) False keeps_trans [OF k] show ?thesis
    by (auto simp: set_state_def)
qed (use assms in \<open>simp add: set_state_def keeps_def\<close>)

lemma put_node_at:
  assumes "node_at (sv_suites s) p = Some n" "server_ok s" "ok_except p (skels s)"
    and "skel n1 = all_to st (skel n)" "all_data data_ok n1"
  shows "keeps s (sv_put (put_node n1 (sv_suites s) p) g s)" "ok_except p (skels (sv_put (put_node n1 (sv_suites s) p) g s))"
    "st_at (skels (sv_put (put_node n1 (sv_suites s) p) g s)) p = Some (all_to st (skel n))"
proof -
  let ?s = "sv_put (put_node n1 (sv_suites s) p) g s"
  have at: "st_at (skels s) p = Some (skel n)" using assms(1) by (simp add: st_at_skel)
  have sk: "skels ?s = upd_at (all_to st) (skels s) p"
    unfolding sv_put_sel skel_put_node [OF assms(1)] assms(4) by (rule upd_at_cong) (use at in simp)
  have "list_all plain_tree (skels ?s)" unfolding sk by (rule fix_upd_at) (use assms(2) in \<open>auto simp: server_ok_def\<close>)
  moreover have "map erase (skels ?s) = map erase (skels s)" unfolding sk by (rule erase_upd_at) simp
  moreover have "tree_ok ?s" using assms(2,5) by (simp add: server_ok_def all_data_put_node)
  ultimately show "keeps s ?s" by (simp add: keeps_def server_ok_def del: map_map)
  have "ok_tree (all_to st (skel n))" by (rule all_to_ok [OF ok_except_below [OF at assms(3)]])
  then have "ok_except (butlast p) (skels ?s)" unfolding sk by (rule ok_except_upd [OF at assms(3)])
  then show "ok_except p (skels ?s)" by (rule ok_except_longer)
  show "st_at (skels ?s) p = Some (all_to st (skel n))" unfolding sk by (rule st_at_upd_same [OF at])
qed

lemma update_limits_below_keeps:
  "tree_ok s \<Longrightarrow> skels (update_limits_below n p s) = skels s \<and> tree_ok (update_limits_below n p s)"
  "tree_ok s \<Longrightarrow> skels (update_limits_children ks i p s) = skels s \<and> tree_ok (update_limits_children ks i p s)"
  by (induction n p s and ks i p s rule: update_limits_below_update_limits_children.induct)
    (auto simp: skels_limits tree_ok_limits)

lemma set_state_hierarchically_ok:
  assumes n: "node_at (sv_suites s) p = Some n" "nd_kind (ndata n) \<noteq> K_Alias"
    and ok: "server_ok s" "settled s" "greg_weekly (en_greg e)"
  shows "\<exists>s'. set_state_hierarchically e p st force s = run_ret s' \<and> keeps s s' \<and> settled s'"
proof (cases "nd_kind (ndata n) \<in> {K_Suite, K_Family}")
  case True
  obtain n1 g1 where h: "setStateOnlyHierarchically (cal_duration (suite_cal (sv_defs s) p)) st force n (ls_ecf (sv_sys s)) = (n1, g1)"
    by fastforce
  have sk: "skel n1 = all_to st (skel n)" using skel_hierarchically(1) [of _ st force n] h by (metis fst_conv)
  have "all_data data_ok n" using all_data_node_at [OF _ n(1)] ok(1) by (simp add: server_ok_def)
  then have "all_data data_ok n1" using data_ok_hierarchically(1) h by (metis fst_conv)
  note put = put_node_at [OF n(1) ok(1) _ sk this, of g1]
  define s1 where "s1 = sv_put (put_node n1 (sv_suites s) p) g1 s"
  define s2 where "s2 = (if force then update_limits_below n1 p s1 else s1)"
  have ex: "ok_except p (skels s)" using ok(2) by (simp add: settled_def ok_except_all)
  have k1: "keeps s s1" and e1: "ok_except p (skels s1)" and a1: "st_at (skels s1) p = Some (all_to st (skel n))"
    using put [OF ex] by (simp_all add: s1_def)
  then have same: "skels s2 = skels s1" and k2: "keeps s s2"
    using update_limits_below_keeps(1) [of s1 n1 p] by (auto simp: s2_def keeps_def server_ok_def simp del: map_map)
  have "sk (all_to st (skel n)) \<noteq> K_Alias" using n(2) by (cases "skel n") (metis all_to.simps skel_sel(1) stree.sel(1))
  then obtain s3 where "handleStateChange e p s2 = run_ret s3" "keeps s2 s3" "settled s3"
    using handleStateChange_ok [of p s2 _ e] e1 a1 same keeps_ok [OF k2] ok(3) by auto
  moreover have "set_state_hierarchically e p st force s = handleStateChange e p s2"
    using True n(1) h by (simp add: set_state_hierarchically_def s1_def s2_def)
  ultimately show ?thesis using keeps_trans [OF k2] by auto
next
  case False
  with set_state_ok [OF n ok] n(1) show ?thesis by (simp add: set_state_hierarchically_def)
qed

section \<open>A job state reaches the top\<close>

text \<open>The states of a task with work to do, and the addresses below suites and families only.\<close>

definition job_state :: "NState_State \<Rightarrow> bool" where
  "job_state st \<longleftrightarrow> st \<in> {NS_QUEUED, NS_SUBMITTED, NS_ACTIVE, NS_ABORTED}"

fun below_containers :: "stree list \<Rightarrow> addr \<Rightarrow> bool" where
  "below_containers ts [] = True"
| "below_containers ts (i # p) =
     (p = [] \<or> (i < length ts \<and> sk (ts ! i) \<in> {K_Suite, K_Family} \<and> below_containers (sks (ts ! i)) p))"

lemma job_state_computed: "st \<in> set sts \<Longrightarrow> job_state st \<Longrightarrow> job_state (theComputedNodeState sts)"
  by (auto simp: job_state_def theComputedNodeState_cases)

lemma job_state_parent:
  "c \<in> set (sks u) \<Longrightarrow> job_state (ss c) \<Longrightarrow> sk u \<in> {K_Suite, K_Family} \<Longrightarrow> job_state (shown u)"
  using job_state_computed [of "ss c" "map ss (sks u)"] by (auto simp: shown_def children_state_def)

lemma below_containers_parent:
  "below_containers ts p \<Longrightarrow> butlast p \<noteq> [] \<Longrightarrow>
   below_containers ts (butlast p) \<and> (\<exists>u. st_at ts (butlast p) = Some u \<and> sk u \<in> {K_Suite, K_Family})"
proof (induction ts p rule: below_containers.induct)
  case (2 ts i p)
  then show ?case by (cases "butlast p = []") (auto split: if_splits)
qed simp

lemma st_at_upd_other:
  "\<not> prefix q p \<Longrightarrow> (\<And>t. sks (f t) = sks t) \<Longrightarrow> map_option ss (st_at (upd_at f ts p) q) = map_option ss (st_at ts q)"
proof (induction f ts p arbitrary: q rule: upd_at.induct)
  case (2 f ts i p)
  show ?case
  proof (cases q)
    case (Cons j r)
    with 2 show ?thesis by (cases "i = j"; cases "p = []"; cases "r = []") (auto simp: nth_list_update)
  qed (use 2 in simp)
qed simp

lemma st_at_child: "st_at ts p = Some t \<Longrightarrow> butlast p \<noteq> [] \<Longrightarrow> st_at ts (butlast p) = Some u \<Longrightarrow> t \<in> set (sks u)"
  using st_at_snoc [of "butlast p" ts "last p"] by (cases "p = []") (auto split: if_splits)

lemma below_containers_upd: "below_containers (upd_at (with_state st) ts p) q = below_containers ts q"
proof (induction ts q arbitrary: p rule: below_containers.induct)
  case (2 ts i q)
  show ?case
  proof (cases p)
    case (Cons j r)
    with 2 show ?thesis by (cases "i = j"; cases "r = []") auto
  qed simp
qed simp

lemma walk_job_state:
  assumes "st_at (skels s) p = Some t" "below_containers (skels s) p" "job_state (shown t)"
    "requeueOrSetMostSignificantStateUpNodeTree e p s = run_ret s'"
  shows "map_option ss (st_at (skels s') p) = Some (shown t) \<and>
    (\<forall>q. \<not> prefix q p \<longrightarrow> map_option ss (st_at (skels s') q) = map_option ss (st_at (skels s) q))"
  using assms
proof (induction "length p" arbitrary: p s t)
  case (Suc k)
  obtain n where n: "node_at (sv_suites s) p = Some n" "skel n = t" using skels_node_at [OF Suc.prems(1)] by blast
  have ne: "p \<noteq> []" and len: "k = length (butlast p)" using Suc.hyps(2) by auto
  have sh: "computedState_immediate n = shown t" using skel_shown n(2) by simp
  define s1 where "s1 = (if shown t \<noteq> node_state n then setStateOnly_at p (shown t) False s else s)"
  have "upd_at (with_state (node_state n)) (skels s) p = skels s"
    by (rule upd_at_id) (use Suc.prems(1) n(2) with_state_id [of t] in auto)
  then have sk1: "skels s1 = upd_at (with_state (shown t)) (skels s) p" by (simp add: s1_def skels_setStateOnly_at)
  have at1: "st_at (skels s1) p = Some (with_state (shown t) t)" unfolding sk1 by (rule st_at_upd_same [OF Suc.prems(1)])
  have other: "map_option ss (st_at (skels s1) q) = map_option ss (st_at (skels s) q)" if "\<not> prefix q p" for q
    unfolding sk1 by (rule st_at_upd_other [OF that]) simp
  have up: "requeueOrSetMostSignificantStateUpNodeTree e (butlast p) s1 = run_ret s'"
    using Suc.prems(3,4) n(1) ne sh
    by (subst (asm) requeueOrSetMostSignificantStateUpNodeTree.simps) (auto simp: s1_def job_state_def)
  have np: "\<not> prefix p (butlast p)" using ne prefix_length_le [of p "butlast p"] by (cases p) auto
  have pre: "\<not> prefix q p \<Longrightarrow> \<not> prefix q (butlast p)" for q using ne by (metis append_butlast_last_id prefix_snoc)
  show ?case
  proof (cases "butlast p = []")
    case True
    then have "s' = Defs_settle s1" using up by (subst (asm) requeueOrSetMostSignificantStateUpNodeTree.simps) simp
    then have "skels s' = skels s1" by (simp add: Defs_settle_def Defs_set_most_significant_state_def Let_def case_prod_beta)
    with at1 other show ?thesis by simp
  next
    case False
    have bc: "below_containers (skels s1) p" unfolding sk1 below_containers_upd by (rule Suc.prems(2))
    then obtain u where u: "st_at (skels s1) (butlast p) = Some u" "sk u \<in> {K_Suite, K_Family}" "below_containers (skels s1) (butlast p)"
      using below_containers_parent [OF _ False] by blast
    have "job_state (shown u)"
      by (rule job_state_parent [OF st_at_child [OF at1 False u(1)] _ u(2)]) (use Suc.prems(3) in simp)
    from Suc.hyps(1) [OF len u(1,3) this up]
    have "\<forall>q. \<not> prefix q (butlast p) \<longrightarrow> map_option ss (st_at (skels s') q) = map_option ss (st_at (skels s1) q)" by blast
    with np pre at1 other show ?thesis by auto
  qed
qed simp

section \<open>Commands on nodes\<close>

text \<open>What \<open>RequeueNodeCmd\<close> does to one node: the requeue, the walk up, and \<open>handleStateChange\<close> of the parent.\<close>

definition requeue_node :: "env \<Rightarrow> Requeue_args \<Rightarrow> addr \<Rightarrow> server \<Rightarrow> server run" where
  "requeue_node e args p s =
     run_bind (requeue_at e args p s) (\<lambda>s1.
       let s2 = up_node_tree_at p s1
       in if butlast p = [] then run_ret s2 else handleStateChange e (butlast p) s2)"

lemma settled_keeps: "keeps s s' \<Longrightarrow> skels s' = skels s \<Longrightarrow> df_st (sv_defs s') = df_st (sv_defs s) \<Longrightarrow> settled s' = settled s"
  by (simp only: settled_def)

text \<open>A change of the data of a node that leaves what the tree of states sees.\<close>

definition same_core :: "node_data \<Rightarrow> node_data \<Rightarrow> bool" where
  "same_core nd nd' \<longleftrightarrow> nd_kind nd' = nd_kind nd \<and> ds_st (nd_d_st nd') = ds_st (nd_d_st nd) \<and>
     hybrid_suite (nd_suite nd') = hybrid_suite (nd_suite nd) \<and> nd_st nd' = nd_st nd"

lemma on_data_keeps:
  assumes n: "node_at (sv_suites s) p = Some n" and ok: "server_ok s"
    and f: "\<And>nd g. same_core nd (fst (f nd g))" "\<And>nd g. data_ok nd \<Longrightarrow> data_ok (fst (f nd g))"
  shows "\<exists>s'. on_data p (\<lambda>nd g. run_ret (f nd g)) s = run_ret s' \<and> keeps s s' \<and> settled s' = settled s \<and>
    sv_sys s' = (sv_sys s)\<lparr>ls_ecf := snd (f (ndata n) (ls_ecf (sv_sys s)))\<rparr> \<and>
    sv_suites s' = put_data (fst (f (ndata n) (ls_ecf (sv_sys s)))) (sv_suites s) p \<and> df_limits (sv_defs s') = df_limits (sv_defs s)"
proof -
  obtain nd g where fn: "f (ndata n) (ls_ecf (sv_sys s)) = (nd, g)" by fastforce
  then have c: "same_core (ndata n) nd" using f(1) by (metis fst_conv)
  have d: "data_ok nd" using f(2) [of "ndata n" "ls_ecf (sv_sys s)"] fn all_data_node_at [OF _ n, of data_ok] all_data_sel [of data_ok n] ok
    by (auto simp: server_ok_def)
  let ?s = "sv_put (put_data nd (sv_suites s) p) g s"
  have "skels ?s = upd_at (with_state (node_state n)) (skels s) p"
    unfolding sv_put_sel using skel_put_data [OF n, of nd] c by (simp add: same_core_def)
  also have "\<dots> = skels s"
  proof (rule upd_at_id)
    fix t assume "st_at (skels s) p = Some t"
    with n have "node_state n = ss t" by (auto simp: st_at_skel)
    then show "with_state (node_state n) t = t" by (simp add: with_state_id)
  qed
  finally have sk: "skels ?s = skels s" .
  have "tree_ok ?s" using ok d by (simp add: server_ok_def all_data_put)
  with sk ok have k: "keeps s ?s" by (simp add: keeps_def server_ok_def del: map_map)
  with n fn settled_keeps [OF k sk] show ?thesis by (simp add: on_data_def sv_put_def)
qed

lemma job_data_keeps:
  "same_core nd (fst (set_process_or_remote_id rid nd g))" "data_ok nd \<Longrightarrow> data_ok (fst (set_process_or_remote_id rid nd g))"
  "same_core nd (fst (clear_zombie nd g))" "data_ok nd \<Longrightarrow> data_ok (fst (clear_zombie nd g))"
  "same_core nd (fst (set_abort_reason reason nd g))" "data_ok nd \<Longrightarrow> data_ok (fst (set_abort_reason reason nd g))"
  "same_core nd (fst (increment_try_no password nd g))" "data_ok nd \<Longrightarrow> data_ok (fst (increment_try_no password nd g))"
  by (auto simp: set_process_or_remote_id_def clear_zombie_def set_abort_reason_def increment_try_no_def Submittable_clear_def
      same_core_def data_ok_def Let_def case_prod_beta)

lemma keeps_node:
  "keeps s s' \<Longrightarrow> node_at (sv_suites s) p = Some n \<Longrightarrow> \<exists>n'. node_at (sv_suites s') p = Some n' \<and> nd_kind (ndata n') = nd_kind (ndata n)"
proof -
  assume k: "keeps s s'" and n: "node_at (sv_suites s) p = Some n"
  have "map_option sk (st_at (map erase (skels s')) p) = map_option sk (st_at (map erase (skels s)) p)"
    using k by (simp add: keeps_def del: map_map)
  with n show ?thesis by (auto simp: st_at_erase st_at_skel simp del: map_map)
qed

lemma Submittable_init_ok:
  assumes "node_at (sv_suites s) p = Some n" "nd_kind (ndata n) \<noteq> K_Alias" "server_ok s" "settled s" "greg_weekly (en_greg e)"
  shows "\<exists>s'. Submittable_init e rid p s = run_ret s' \<and> keeps s s' \<and> settled s'"
proof -
  obtain s1 where 1: "set_state e p NS_ACTIVE s = run_ret s1" "keeps s s1" "settled s1" using set_state_ok [OF assms] by blast
  then obtain n1 where "node_at (sv_suites s1) p = Some n1" using keeps_node assms(1) by blast
  from on_data_keeps [OF this keeps_ok [OF 1(2)], of "set_process_or_remote_id rid"] 1 keeps_trans [OF 1(2)] show ?thesis
    by (auto simp: Submittable_init_def job_data_keeps)
qed

lemma Submittable_complete_ok:
  assumes "node_at (sv_suites s) p = Some n" "nd_kind (ndata n) \<noteq> K_Alias" "server_ok s" "settled s" "greg_weekly (en_greg e)"
  shows "\<exists>s'. Submittable_complete e p s = run_ret s' \<and> keeps s s' \<and> settled s'"
proof -
  obtain s1 where 1: "set_state e p NS_COMPLETE s = run_ret s1" "keeps s s1" "settled s1" using set_state_ok [OF assms] by blast
  then obtain n1 where "node_at (sv_suites s1) p = Some n1" using keeps_node assms(1) by blast
  from on_data_keeps [OF this keeps_ok [OF 1(2)], of clear_zombie] 1 keeps_trans [OF 1(2)] show ?thesis
    by (auto simp: Submittable_complete_def job_data_keeps)
qed

lemma set_aborted_only_ok:
  assumes "node_at (sv_suites s) p = Some n" "nd_kind (ndata n) \<noteq> K_Alias" "server_ok s" "settled s" "greg_weekly (en_greg e)"
  shows "\<exists>s'. set_aborted_only e reason p s = run_ret s' \<and> keeps s s' \<and> settled s'"
proof -
  obtain s1 where 1: "on_data p (\<lambda>nd g. run_ret (set_abort_reason reason nd g)) s = run_ret s1" "keeps s s1" "settled s1"
    using on_data_keeps [OF assms(1,3), of "set_abort_reason reason"] assms(4) by (auto simp: job_data_keeps)
  then obtain n1 where "node_at (sv_suites s1) p = Some n1" "nd_kind (ndata n1) \<noteq> K_Alias" using keeps_node assms(1,2) by metis
  from set_state_ok [OF this keeps_ok [OF 1(2)] 1(3) assms(5), of NS_ABORTED] 1 keeps_trans [OF 1(2)] show ?thesis
    by (auto simp: set_aborted_only_def)
qed

lemma requeue_node_ok:
  assumes "node_at (sv_suites s) p = Some n" "server_ok s" "settled s" "greg_weekly (en_greg e)"
    "below_containers (skels s) p"
  shows "\<exists>s'. requeue_node e args p s = run_ret s' \<and> keeps s s' \<and> settled s'"
proof -
  have at: "st_at (skels s) p = Some (skel n)" using assms(1) by (simp add: st_at_skel)
  have "ok_except p (skels s)" using assms(3) by (simp add: settled_def ok_except_all)
  from requeue_then_up_ok [OF at assms(2,4) this, of args] obtain s1 where
    1: "requeue_at e args p s = run_ret s1" "keeps s (up_node_tree_at p s1)" "settled (up_node_tree_at p s1)"
    by (auto simp: run_bind_eq_ret)
  let ?s = "up_node_tree_at p s1"
  show ?thesis
  proof (cases "butlast p = []")
    case False
    obtain u where u: "st_at (skels s) (butlast p) = Some u" "sk u \<in> {K_Suite, K_Family}"
      using below_containers_parent [OF assms(5) False] by blast
    then obtain m where "node_at (sv_suites s) (butlast p) = Some m" "skel m = u" using skels_node_at by blast
    then obtain m' where m': "node_at (sv_suites ?s) (butlast p) = Some m'" "nd_kind (ndata m') = sk u"
      using keeps_node [OF 1(2)] by (metis skel_sel(1))
    have "ok_except (butlast p) (skels ?s)" using 1(3) by (simp add: settled_def ok_except_all)
    from handleStateChange_ok [OF this _ _ keeps_ok [OF 1(2)] assms(4), of "skel m'"] m' u(2) 1 keeps_trans [OF 1(2)] False
    show ?thesis by (auto simp: requeue_node_def st_at_skel)
  qed (use 1 in \<open>auto simp: requeue_node_def\<close>)
qed

text \<open>A sequence of commands, each with the environment in which it runs.\<close>

datatype node_op =
    Op_init addr string
  | Op_complete addr
  | Op_abort addr string
  | Op_set_state addr NState_State
  | Op_set_hierarchically addr NState_State bool
  | Op_requeue addr Requeue_args

fun run_op :: "env \<times> node_op \<Rightarrow> server \<Rightarrow> server run" where
  "run_op (e, Op_init p rid) s = Submittable_init e rid p s"
| "run_op (e, Op_complete p) s = Submittable_complete e p s"
| "run_op (e, Op_abort p reason) s = set_aborted_only e reason p s"
| "run_op (e, Op_set_state p st) s = set_state e p st s"
| "run_op (e, Op_set_hierarchically p st force) s = set_state_hierarchically e p st force s"
| "run_op (e, Op_requeue p args) s = requeue_node e args p s"

definition kind_at :: "server \<Rightarrow> addr \<Rightarrow> node_kind option" where
  "kind_at s p = map_option (nd_kind \<circ> ndata) (node_at (sv_suites s) p)"

text \<open>The child commands go to tasks, the user commands to suites, families and tasks.\<close>

fun can_op :: "server \<Rightarrow> env \<times> node_op \<Rightarrow> bool" where
  "can_op s (e, Op_init p rid) \<longleftrightarrow> greg_weekly (en_greg e) \<and> kind_at s p = Some K_Task"
| "can_op s (e, Op_complete p) \<longleftrightarrow> greg_weekly (en_greg e) \<and> kind_at s p = Some K_Task"
| "can_op s (e, Op_abort p reason) \<longleftrightarrow> greg_weekly (en_greg e) \<and> kind_at s p = Some K_Task"
| "can_op s (e, Op_set_state p st) \<longleftrightarrow> greg_weekly (en_greg e) \<and> kind_at s p \<notin> {None, Some K_Alias}"
| "can_op s (e, Op_set_hierarchically p st force) \<longleftrightarrow> greg_weekly (en_greg e) \<and> kind_at s p \<notin> {None, Some K_Alias}"
| "can_op s (e, Op_requeue p args) \<longleftrightarrow>
     greg_weekly (en_greg e) \<and> kind_at s p \<noteq> None \<and> below_containers (skels s) p"

definition same_shape :: "server \<Rightarrow> server \<Rightarrow> bool" where
  "same_shape s s' \<longleftrightarrow> map erase (skels s') = map erase (skels s)"

fun run_all :: "('c \<Rightarrow> 's \<Rightarrow> 's run) \<Rightarrow> 'c list \<Rightarrow> 's \<Rightarrow> 's run" where
  "run_all f [] s = run_ret s"
| "run_all f (c # cs) s = run_bind (f c s) (run_all f cs)"

text \<open>Commands that return and keep an invariant, on states whose fixed part they leave alone.\<close>

locale total_commands =
  fixes exec :: "'c \<Rightarrow> 's \<Rightarrow> 's run"
    and can :: "'s \<Rightarrow> 'c \<Rightarrow> bool"
    and good :: "'s \<Rightarrow> bool"
    and same :: "'s \<Rightarrow> 's \<Rightarrow> bool"
  assumes same_refl: "same s s"
    and same_trans: "same s s1 \<Longrightarrow> same s1 s2 \<Longrightarrow> same s s2"
    and can_same: "same s s1 \<Longrightarrow> can s c \<Longrightarrow> can s1 c"
    and exec_total: "good s \<Longrightarrow> can s c \<Longrightarrow> \<exists>s1. exec c s = run_ret s1 \<and> good s1 \<and> same s s1"
begin

lemma run_all_total: "good s \<Longrightarrow> list_all (can s) cs \<Longrightarrow> \<exists>s'. run_all exec cs s = run_ret s' \<and> good s' \<and> same s s'"
proof (induction cs arbitrary: s)
  case (Cons c cs)
  then obtain s1 where s1: "exec c s = run_ret s1" "good s1" "same s s1" using exec_total by fastforce
  have "list_all (can s1) cs" using Cons.prems(2) can_same [OF s1(3)] by (auto simp: list_all_iff)
  from Cons.IH [OF s1(2) this] s1 same_trans [OF s1(3)] show ?case by auto
qed (auto simp: same_refl)

end

lemma below_containers_erase: "below_containers (map erase ts) p = below_containers ts p"
  by (induction ts p rule: below_containers.induct) auto

lemma kind_at_erase: "kind_at s p = map_option sk (st_at (map erase (skels s)) p)"
  by (cases "node_at (sv_suites s) p") (auto simp: kind_at_def st_at_erase st_at_skel simp del: map_map)

lemma can_op_shape: "same_shape s s1 \<Longrightarrow> can_op s c \<Longrightarrow> can_op s1 c"
  by (cases "(s, c)" rule: can_op.cases)
    (auto simp: same_shape_def kind_at_erase below_containers_erase [symmetric, of "skels s"]
       below_containers_erase [symmetric, of "skels s1"] simp del: map_map)

lemma run_op_ok: "server_ok s \<and> settled s \<Longrightarrow> can_op s c \<Longrightarrow> \<exists>s1. run_op c s = run_ret s1 \<and> keeps s s1 \<and> settled s1"
  using Submittable_init_ok Submittable_complete_ok set_aborted_only_ok set_state_ok set_state_hierarchically_ok requeue_node_ok
  by (cases "(s, c)" rule: can_op.cases) (fastforce simp: kind_at_def)+

interpretation ops: total_commands run_op can_op "\<lambda>s. server_ok s \<and> settled s" same_shape
proof
  show "\<exists>s1. run_op c s = run_ret s1 \<and> (server_ok s1 \<and> settled s1) \<and> same_shape s s1"
    if "server_ok s \<and> settled s" "can_op s c" for s c
    using run_op_ok [OF that] by (auto simp: keeps_def same_shape_def)
qed (auto simp: same_shape_def intro: can_op_shape)

lemma set_state_job:
  assumes "server_ok s" "settled s" "greg_weekly (en_greg e)" "kind_at s p = Some K_Task" "below_containers (skels s) p"
    "st \<in> {NS_QUEUED, NS_SUBMITTED, NS_ACTIVE, NS_ABORTED}"
  shows "\<exists>s'. set_state e p st s = run_ret s' \<and> map_option ss (st_at (skels s') p) = Some st \<and> keeps s s' \<and> settled s' \<and>
    (\<forall>q. \<not> prefix q p \<longrightarrow> map_option ss (st_at (skels s') q) = map_option ss (st_at (skels s) q))"
proof -
  obtain n where n: "node_at (sv_suites s) p = Some n" "nd_kind (ndata n) = K_Task" using assms(4) by (auto simp: kind_at_def)
  then obtain s' where s': "set_state e p st s = run_ret s'" "settled s'" "keeps s s'" using set_state_ok [OF n(1) _ assms(1-3)] by auto
  have at: "st_at (skels s) p = Some (skel n)" using n(1) by (simp add: st_at_skel)
  show ?thesis
  proof (cases "node_state n = st")
    case True
    then have "s' = s" using s'(1) n(1) by (simp add: set_state_def)
    with s' at True show ?thesis by simp
  next
    case False
    let ?s = "setStateOnly_at p st False s"
    have sk: "skels ?s = upd_at (with_state st) (skels s) p" by (rule skels_setStateOnly_at)
    have at1: "st_at (skels ?s) p = Some (with_state st (skel n))" unfolding sk by (rule st_at_upd_same [OF at])
    then obtain n1 where n1: "node_at (sv_suites ?s) p = Some n1" "skel n1 = with_state st (skel n)" using skels_node_at by blast
    then have k1: "nd_kind (ndata n1) = K_Task" using n(2) skel_sel(1) [of n1] by simp
    have "requeueOrSetMostSignificantStateUpNodeTree e p (update_limits_at p (node_state n1) ?s) = run_ret s'"
      using s'(1) n(1) False n1(1) k1 by (simp add: set_state_def handleStateChange_def)
    from walk_job_state [OF _ _ _ this, of "with_state st (skel n)"] assms(5,6) at1 n(2)
    have w: "map_option ss (st_at (skels s') p) = Some st"
      "\<forall>q. \<not> prefix q p \<longrightarrow> map_option ss (st_at (skels s') q) = map_option ss (st_at (skels ?s) q)"
      by (auto simp: skels_limits below_containers_upd shown_def job_state_def sk)
    have "map_option ss (st_at (skels ?s) q) = map_option ss (st_at (skels s) q)" if "\<not> prefix q p" for q
      unfolding sk by (rule st_at_upd_other [OF that]) simp
    with w s' show ?thesis by auto
  qed
qed

section \<open>Properties\<close>


definition quiet_server :: server where
  "quiet_server =
     \<lparr>sv_defs = two_families\<lparr>df_suites := begun_suites (df_suites two_families)\<rparr>,
      sv_sys = \<lparr>ls_ecf = server_counters, ls_suite_change_no = (\<lambda>_. 0)\<rparr>\<rparr>"

lemma quiet_server_ok: "server_ok quiet_server" "settled quiet_server"
proof -
  show "server_ok quiet_server"
    by (simp add: server_ok_def quiet_server_def begun_suites_def two_families_def mk_node_def data_ok_def times_inv_def
        no_times_def plain_node_def hybrid_suite_def no_suite_def Calendar_default_def cal_hybrid_def)
  show "settled quiet_server"
    by (simp add: settled_def quiet_server_def begun_suites_def two_families_def mk_node_def shown_def children_state_def
        theComputedNodeState_cases NState_default_def)
qed

lemma quiet_server_nodes:
  "kind_at quiet_server [0] = Some K_Suite" "kind_at quiet_server [0, 0, 0] = Some K_Task"
  "kind_at quiet_server [0, 0] = Some K_Family"
  "below_containers (skels quiet_server) [0, 0, 0]" "below_containers (skels quiet_server) [0, 0]"
  by (simp_all add: kind_at_def quiet_server_def begun_suites_def two_families_def mk_node_def)




end
