(* ===== verification/Expressions.thy ===== *)
theory Expressions
  imports Node_Tree
begin

text \<open>
  Trigger and complete expressions: the abstract syntax trees of \<open>ANode/src/ExprAst.cpp\<close> and
  \<open>ExprAst.hpp\<close>, and the attribute lookup of \<open>ANode/src/NodeFind.cpp\<close> that gives the names in them a
  value. An expression is evaluated in a definition \<open>d\<close> from the node \<open>p\<close> that has it (the \<open>parentNode_\<close> that
  \<open>setParentNode\<close> gives to every leaf). The weak pointer that a leaf keeps to the node it found is a cache of
  the search and is not modelled. A missing child (\<open>nullptr\<close>) is \<open>None\<close>. Arithmetic is on 32-bit \<open>int\<close>: an
  operation that overflows is undefined, an assertion that fails is an error (without assertions the
  code goes on with 0).
\<close>

section \<open>The attributes an expression can name\<close>

text \<open>The \<open>find\<close> functions of \<open>Node\<close>: the first of the name, or the empty attribute.\<close>

definition findEventByName :: "string \<Rightarrow> node_data \<Rightarrow> event" where
  "findEventByName s nd = (case filter (\<lambda>e. ev_n e = s) (nd_events nd) of [] \<Rightarrow> Event_EMPTY | e # _ \<Rightarrow> e)"

definition findEventByNumber :: "int \<Rightarrow> node_data \<Rightarrow> event" where
  "findEventByNumber i nd = (case filter (\<lambda>e. ev_number e = i) (nd_events nd) of [] \<Rightarrow> Event_EMPTY | e # _ \<Rightarrow> e)"

definition findEventByNameOrNumber :: "string \<Rightarrow> node_data \<Rightarrow> event" where
  "findEventByNameOrNumber s nd =
     (let e = findEventByName s nd
      in if \<not> Event_empty e then e
         else case (if s \<noteq> [] \<and> hd s \<in> set ''0123456789'' then lexical_cast_int s else None) of
                Some i \<Rightarrow> findEventByNumber i nd
              | None \<Rightarrow> Event_EMPTY)"

definition findMeter :: "string \<Rightarrow> node_data \<Rightarrow> meter" where
  "findMeter s nd = (case filter (\<lambda>m. me_n m = s) (nd_meters nd) of [] \<Rightarrow> Meter_EMPTY | m # _ \<Rightarrow> m)"

definition findVariable :: "string \<Rightarrow> node_data \<Rightarrow> variable" where
  "findVariable s nd = (case filter (\<lambda>v. va_n v = s) (nd_vars nd) of [] \<Rightarrow> Variable_EMPTY | v # _ \<Rightarrow> v)"

definition findGenVariable :: "string \<Rightarrow> node_data \<Rightarrow> variable" where
  "findGenVariable s nd = (case filter (\<lambda>v. va_n v = s) (nd_gen_vars nd) of [] \<Rightarrow> Variable_EMPTY | v # _ \<Rightarrow> v)"

definition findLimit :: "limit_store \<Rightarrow> string \<Rightarrow> node_data \<Rightarrow> limit option" where
  "findLimit lst s nd = (case filter (\<lambda>l. lim_n l = s) (List.map_filter lst (nd_limits nd)) of [] \<Rightarrow> None | l # _ \<Rightarrow> Some l)"

definition find_queue :: "string \<Rightarrow> node_data \<Rightarrow> queue_attr" where
  "find_queue s nd = (case filter (\<lambda>q. qa_name q = s) (nd_queues nd) of [] \<Rightarrow> QueueAttr_EMPTY | q # _ \<Rightarrow> q)"

fun Repeat_name :: "repeat_t \<Rightarrow> string" where
  "Repeat_name NoRepeat = []"
| "Repeat_name (RDate r) = rd_name r"
| "Repeat_name (RDateList r) = rl_name r"
| "Repeat_name (RInteger r) = ri_name r"
| "Repeat_name (REnumerated r) = re_name r"
| "Repeat_name (RString r) = re_name r"
| "Repeat_name (RDay r) = ''day''"

definition findRepeat :: "string \<Rightarrow> node_data \<Rightarrow> repeat_t" where
  "findRepeat s nd = (if nd_repeat nd \<noteq> NoRepeat \<and> Repeat_name (nd_repeat nd) = s then nd_repeat nd else NoRepeat)"

fun Repeat_last_valid_value :: "repeat_t \<Rightarrow> int" where
  "Repeat_last_valid_value NoRepeat = 0"
| "Repeat_last_valid_value (RDate r) = RepeatDate_last_valid_value r"
| "Repeat_last_valid_value (RDateList r) = RepeatDateList_last_valid_value r"
| "Repeat_last_valid_value (RInteger r) = RepeatInteger_last_valid_value r"
| "Repeat_last_valid_value (REnumerated r) = RepeatEnumerated_last_valid_value r"
| "Repeat_last_valid_value (RString r) = RepeatString_last_valid_value r"
| "Repeat_last_valid_value (RDay r) = ry_step r"

text \<open>Only the two date repeats do calendar arithmetic; \<open>delta\<close> is added or, negated, subtracted.\<close>

fun Repeat_shifted :: "int \<Rightarrow> repeat_t \<Rightarrow> int" where
  "Repeat_shifted dl (RDate r) = julian_to_date (date_to_julian (RepeatDate_last_valid_value r) + dl)"
| "Repeat_shifted dl (RDateList r) =
     (let v = RepeatDateList_last_valid_value r
      in if v = 0 then 0 else julian_to_date (date_to_julian v + dl))"
| "Repeat_shifted dl r = Repeat_last_valid_value r + dl"

text \<open>The order of the search: event, meter, user variable, repeat, generated variable, limit, queue.
  \<open>findExprVariableValue\<close>, \<open>...AndPlus\<close> and \<open>...AndMinus\<close> go through the same chain.\<close>

datatype expr_attr =
    XEvent event
  | XMeter meter
  | XVariable variable
  | XRepeat repeat_t
  | XGenVariable variable
  | XLimit limit
  | XQueue queue_attr
  | XNone

definition find_attr :: "limit_store \<Rightarrow> string \<Rightarrow> node_data \<Rightarrow> expr_attr" where
  "find_attr lst s nd =
     (if \<not> Event_empty (findEventByNameOrNumber s nd) then XEvent (findEventByNameOrNumber s nd)
      else if \<not> Meter_empty (findMeter s nd) then XMeter (findMeter s nd)
      else if \<not> Variable_empty (findVariable s nd) then XVariable (findVariable s nd)
      else if findRepeat s nd \<noteq> NoRepeat then XRepeat (findRepeat s nd)
      else if \<not> Variable_empty (findGenVariable s nd) then XGenVariable (findGenVariable s nd)
      else case findLimit lst s nd of
             Some l \<Rightarrow> XLimit l
           | None \<Rightarrow> if \<not> QueueAttr_empty (find_queue s nd) then XQueue (find_queue s nd) else XNone)"

fun expr_attr_value :: "expr_attr \<Rightarrow> int" where
  "expr_attr_value (XEvent e) = (if ev_v e then 1 else 0)"
| "expr_attr_value (XMeter m) = me_v m"
| "expr_attr_value (XVariable v) = Variable_value v"
| "expr_attr_value (XRepeat r) = Repeat_last_valid_value r"
| "expr_attr_value (XGenVariable v) = Variable_value v"
| "expr_attr_value (XLimit l) = lim_value l"
| "expr_attr_value (XQueue q) = QueueAttr_index_or_value q"
| "expr_attr_value XNone = 0"

fun expr_attr_type :: "expr_attr \<Rightarrow> string" where
  "expr_attr_type (XEvent e) = ''event''"
| "expr_attr_type (XMeter m) = ''meter''"
| "expr_attr_type (XVariable v) = ''user-variable''"
| "expr_attr_type (XRepeat r) = ''repeat''"
| "expr_attr_type (XGenVariable v) = ''gen-variable''"
| "expr_attr_type (XLimit l) = ''limit''"
| "expr_attr_type (XQueue q) = ''queue''"
| "expr_attr_type XNone = ''variable-not-found''"

text \<open>An \<open>int\<close> result: undefined when it overflows. A \<open>long\<close> returned as \<open>int\<close> is reduced modulo \<open>2 ^ 32\<close>.\<close>

definition int_op :: "int \<Rightarrow> int res" where
  "int_op x = (if is_int32 x then Inr x else Inl (Undefined_behaviour ''int overflow''))"

definition long_to_int :: "int \<Rightarrow> int" where
  "long_to_int x = (x + 2 ^ 31) mod 2 ^ 32 - 2 ^ 31"

text \<open>\<open>findExprVariable\<close> also marks an event, a meter or a queue as used in a trigger, for the simulator.\<close>

fun update_first :: "('a \<Rightarrow> bool) \<Rightarrow> ('a \<Rightarrow> 'a) \<Rightarrow> 'a list \<Rightarrow> 'a list option" where
  "update_first P f [] = None"
| "update_first P f (x # xs) = (if P x then Some (f x # xs) else map_option (\<lambda>ys. x # ys) (update_first P f xs))"

definition set_event_used_in_trigger :: "string \<Rightarrow> node_data \<Rightarrow> bool \<times> node_data" where
  "set_event_used_in_trigger s nd =
     (case update_first (\<lambda>e. ev_n e = s) (\<lambda>e. e\<lparr>ev_used := True\<rparr>) (nd_events nd) of
        Some es \<Rightarrow> (True, nd\<lparr>nd_events := es\<rparr>)
      | None \<Rightarrow>
          (case (if s \<noteq> [] \<and> hd s \<in> set ''0123456789'' then lexical_cast_int s else None) of
             None \<Rightarrow> (False, nd)
           | Some i \<Rightarrow>
               (case update_first (\<lambda>e. ev_number e = i) (\<lambda>e. e\<lparr>ev_used := True\<rparr>) (nd_events nd) of
                  Some es \<Rightarrow> (True, nd\<lparr>nd_events := es\<rparr>)
                | None \<Rightarrow> (False, nd))))"

definition set_meter_used_in_trigger :: "string \<Rightarrow> node_data \<Rightarrow> bool \<times> node_data" where
  "set_meter_used_in_trigger s nd =
     (case update_first (\<lambda>m. me_n m = s) (\<lambda>m. m\<lparr>me_used := True\<rparr>) (nd_meters nd) of
        Some ms \<Rightarrow> (True, nd\<lparr>nd_meters := ms\<rparr>)
      | None \<Rightarrow> (False, nd))"

definition findExprVariable :: "limit_store \<Rightarrow> string \<Rightarrow> node_data \<Rightarrow> bool \<times> node_data" where
  "findExprVariable lst s nd =
     (case set_event_used_in_trigger s nd of
        (True, nd') \<Rightarrow> (True, nd')
      | (False, _) \<Rightarrow>
          (case set_meter_used_in_trigger s nd of
             (True, nd') \<Rightarrow> (True, nd')
           | (False, _) \<Rightarrow>
               if \<not> Variable_empty (findVariable s nd) \<or> findRepeat s nd \<noteq> NoRepeat \<or>
                  \<not> Variable_empty (findGenVariable s nd) \<or> findLimit lst s nd \<noteq> None
               then (True, nd)
               else if \<not> QueueAttr_empty (find_queue s nd)
               then (True, nd\<lparr>nd_queues := the (update_first (\<lambda>q. qa_name q = s)
                                               (\<lambda>q. q\<lparr>qa_used_in_trigger := True\<rparr>) (nd_queues nd))\<rparr>)
               else (False, nd)))"

definition findExprVariableValue :: "limit_store \<Rightarrow> string \<Rightarrow> node_data \<Rightarrow> int" where
  "findExprVariableValue lst s nd = long_to_int (expr_attr_value (find_attr lst s nd))"

definition findExprVariableValueAndPlus :: "limit_store \<Rightarrow> string \<Rightarrow> int \<Rightarrow> node_data \<Rightarrow> int res" where
  "findExprVariableValueAndPlus lst s v nd =
     (case find_attr lst s nd of
        XRepeat r \<Rightarrow> Inr (long_to_int (Repeat_shifted v r))
      | a \<Rightarrow> int_op (expr_attr_value a + v))"

definition findExprVariableValueAndMinus :: "limit_store \<Rightarrow> string \<Rightarrow> int \<Rightarrow> node_data \<Rightarrow> int res" where
  "findExprVariableValueAndMinus lst s v nd =
     (case find_attr lst s nd of
        XRepeat r \<Rightarrow> Inr (long_to_int (Repeat_shifted (- v) r))
      | a \<Rightarrow> int_op (expr_attr_value a - v))"

definition findExprVariableValueAndType :: "limit_store \<Rightarrow> string \<Rightarrow> node_data \<Rightarrow> int \<times> string" where
  "findExprVariableValueAndType lst s nd =
     (findExprVariableValue lst s nd, expr_attr_type (find_attr lst s nd))"

text \<open>\<open>Node::dstate\<close>.\<close>

definition dstate :: "node \<Rightarrow> DState_State" where
  "dstate n =
     (if nd_suspended (ndata n) then DS_SUSPENDED
      else case node_state n of
             NS_COMPLETE \<Rightarrow> DS_COMPLETE
           | NS_ABORTED \<Rightarrow> DS_ABORTED
           | NS_ACTIVE \<Rightarrow> DS_ACTIVE
           | NS_SUBMITTED \<Rightarrow> DS_SUBMITTED
           | NS_QUEUED \<Rightarrow> DS_QUEUED
           | NS_UNKNOWN \<Rightarrow> DS_UNKNOWN)"

section \<open>Values\<close>

abbreviation data_at :: "defs \<Rightarrow> addr \<Rightarrow> node_data option" where
  "data_at d p \<equiv> map_option ndata (node_at (df_suites d) p)"

text \<open>\<open>AstNode::referencedNode\<close> and \<open>AstVariable::referencedNode\<close> (with the name as the object of an extern).\<close>

definition referenced :: "defs \<Rightarrow> addr \<Rightarrow> string \<Rightarrow> string \<Rightarrow> node option" where
  "referenced d p path obj =
     (case fst (findReferencedNode d p path obj) of None \<Rightarrow> None | Some q \<Rightarrow> node_at (df_suites d) q)"

definition AstNode_state :: "defs \<Rightarrow> addr \<Rightarrow> string \<Rightarrow> DState_State" where
  "AstNode_state d p path = (case referenced d p path [] of None \<Rightarrow> DS_UNKNOWN | Some n \<Rightarrow> dstate n)"

fun DState_number :: "DState_State \<Rightarrow> int" where
  "DState_number DS_UNKNOWN = 0"
| "DState_number DS_COMPLETE = 1"
| "DState_number DS_QUEUED = 2"
| "DState_number DS_ABORTED = 3"
| "DState_number DS_SUBMITTED = 4"
| "DState_number DS_ACTIVE = 5"
| "DState_number DS_SUSPENDED = 6"

definition AstFlag_value :: "defs \<Rightarrow> addr \<Rightarrow> string \<Rightarrow> Flag_Type \<Rightarrow> int" where
  "AstFlag_value d p path ft =
     (case (if path = ''/'' then None else referenced d p path []) of
        Some n \<Rightarrow> if Flag_is_set ft (nd_flag (ndata n)) then 1 else 0
      | None \<Rightarrow> if path = ''/'' \<and> Flag_is_set ft (df_flag d) then 1 else 0)"

text \<open>\<open>AstParentVariable::find_node_which_references_variable\<close>: up the tree from the node itself.\<close>

function find_node_which_references_variable :: "defs \<Rightarrow> string \<Rightarrow> addr \<Rightarrow> node_data option" where
  "find_node_which_references_variable d s p =
     (if p = [] then None
      else case data_at d p of
             None \<Rightarrow> None
           | Some nd \<Rightarrow> if fst (findExprVariable (df_limits d) s nd) then Some nd
                        else find_node_which_references_variable d s (butlast p))"
  by pat_completeness auto
termination
  by (relation "measure (\<lambda>(_, _, p). length p)") auto

declare find_node_which_references_variable.simps [simp del]

text \<open>\<open>VariableHelper\<close>: \<open>value\<close>, \<open>plus\<close> and \<open>minus\<close> of a variable with a path; and those of \<open>AstParentVariable\<close>.\<close>

definition VariableHelper_value :: "defs \<Rightarrow> addr \<Rightarrow> string \<Rightarrow> string \<Rightarrow> int" where
  "VariableHelper_value d p path s =
     (case referenced d p path s of None \<Rightarrow> 0 | Some n \<Rightarrow> findExprVariableValue (df_limits d) s (ndata n))"

definition VariableHelper_plus :: "defs \<Rightarrow> addr \<Rightarrow> string \<Rightarrow> string \<Rightarrow> int \<Rightarrow> int res" where
  "VariableHelper_plus d p path s v =
     (case referenced d p path s of None \<Rightarrow> Inr v | Some n \<Rightarrow> findExprVariableValueAndPlus (df_limits d) s v (ndata n))"

definition VariableHelper_minus :: "defs \<Rightarrow> addr \<Rightarrow> string \<Rightarrow> string \<Rightarrow> int \<Rightarrow> int res" where
  "VariableHelper_minus d p path s v =
     (case referenced d p path s of None \<Rightarrow> int_op (- v) | Some n \<Rightarrow> findExprVariableValueAndMinus (df_limits d) s v (ndata n))"

definition AstParentVariable_value :: "defs \<Rightarrow> addr \<Rightarrow> string \<Rightarrow> int" where
  "AstParentVariable_value d p s =
     (case find_node_which_references_variable d s p of None \<Rightarrow> 0 | Some nd \<Rightarrow> findExprVariableValue (df_limits d) s nd)"

definition AstParentVariable_plus :: "defs \<Rightarrow> addr \<Rightarrow> string \<Rightarrow> int \<Rightarrow> int res" where
  "AstParentVariable_plus d p s v =
     (case find_node_which_references_variable d s p of None \<Rightarrow> Inr v | Some nd \<Rightarrow> findExprVariableValueAndPlus (df_limits d) s v nd)"

definition AstParentVariable_minus :: "defs \<Rightarrow> addr \<Rightarrow> string \<Rightarrow> int \<Rightarrow> int res" where
  "AstParentVariable_minus d p s v =
     (case find_node_which_references_variable d s p of None \<Rightarrow> Inr v | Some nd \<Rightarrow> findExprVariableValueAndMinus (df_limits d) s v nd)"

text \<open>\<open>digits_in_integer\<close>: the sign counts as a digit.\<close>

function digits_loop :: "int \<Rightarrow> nat" where
  "digits_loop i = (if i = 0 then 0 else Suc (digits_loop (cdiv i 10)))"
  by pat_completeness auto
termination
proof (relation "measure (\<lambda>i. nat \<bar>i\<bar>)")
  fix i :: int
  assume "i \<noteq> 0"
  then have "\<bar>cdiv i 10\<bar> = \<bar>i\<bar> div 10" by (simp add: cdiv_def abs_mult)
  with \<open>i \<noteq> 0\<close> show "(cdiv i 10, i) \<in> measure (\<lambda>i. nat \<bar>i\<bar>)" by simp
qed simp

declare digits_loop.simps [simp del]

definition digits_in_integer :: "int \<Rightarrow> nat" where
  "digits_in_integer i = (if i < 0 then 1 else 0) + digits_loop i"

definition AstFunction_value :: "func_type \<Rightarrow> int \<Rightarrow> int" where
  "AstFunction_value ft v =
     (case ft of
        DATE_TO_JULIAN \<Rightarrow>
          (if digits_in_integer v = 10 then long_to_int (date_to_julian (cdiv v 100))
           else if digits_in_integer v \<noteq> 8 then 0
           else long_to_int (date_to_julian v))
      | JULIAN_TO_DATE \<Rightarrow> long_to_int (julian_to_date v))"

fun ast_value :: "defs \<Rightarrow> addr \<Rightarrow> ast \<Rightarrow> int res" where
  "ast_value d p (AstNot nm (Some l) None) = res_bind (ast_value d p l) (\<lambda>v. Inr (if v = 0 then 1 else 0))"
| "ast_value d p (AstBin OpPlus (Some l) (Some r)) =
     res_bind (ast_value d p r) (\<lambda>w.
       case l of
         AstVariable path s \<Rightarrow> VariableHelper_plus d p path s w
       | AstParentVariable s \<Rightarrow> AstParentVariable_plus d p s w
       | _ \<Rightarrow> res_bind (ast_value d p l) (\<lambda>v. int_op (v + w)))"
| "ast_value d p (AstBin OpMinus (Some l) (Some r)) =
     res_bind (ast_value d p r) (\<lambda>w.
       case l of
         AstVariable path s \<Rightarrow> VariableHelper_minus d p path s w
       | AstParentVariable s \<Rightarrow> AstParentVariable_minus d p s w
       | _ \<Rightarrow> res_bind (ast_value d p l) (\<lambda>v. int_op (v - w)))"
| "ast_value d p (AstBin OpMultiply (Some l) (Some r)) =
     res_bind (ast_value d p l) (\<lambda>v. res_bind (ast_value d p r) (\<lambda>w. int_op (v * w)))"
| "ast_value d p (AstBin OpDivide (Some l) (Some r)) =
     res_bind (ast_value d p r) (\<lambda>w.
       if w = 0 then Inr 0 else res_bind (ast_value d p l) (\<lambda>v. int_op (cdiv v w)))"
| "ast_value d p (AstBin OpModulo (Some l) (Some r)) =
     res_bind (ast_value d p r) (\<lambda>w.
       if w = 0 then Inr 0 else res_bind (ast_value d p l) (\<lambda>v. res_bind (int_op (cdiv v w)) (\<lambda>_. Inr (cmod v w))))"
| "ast_value d p (AstFunction ft a) = res_bind (ast_value d p a) (\<lambda>v. Inr (AstFunction_value ft v))"
| "ast_value d p (AstInteger i) = Inr i"
| "ast_value d p (AstNodeState s) = Inr (DState_number s)"
| "ast_value d p (AstEventState b) = Inr (if b then 1 else 0)"
| "ast_value d p (AstNode path) = Inr (DState_number (AstNode_state d p path))"
| "ast_value d p (AstFlag path ft) = Inr (AstFlag_value d p path ft)"
| "ast_value d p (AstVariable path s) = Inr (VariableHelper_value d p path s)"
| "ast_value d p (AstParentVariable s) = Inr (AstParentVariable_value d p s)"
| "ast_value d p (AstNot nm l (Some r)) = Inl (Assert_failed ''!right_'')"
| "ast_value d p (AstBin bop (Some l) (Some r)) = Inl (Assert_failed ''Ast::value'')"
| "ast_value d p a = Inl (Undefined_behaviour ''nullptr'')"

section \<open>Truth\<close>

fun compare_op :: "binop \<Rightarrow> (int \<Rightarrow> int \<Rightarrow> bool) option" where
  "compare_op OpEqual = Some (\<lambda>v w. v = w)"
| "compare_op OpNotEqual = Some (\<lambda>v w. v \<noteq> w)"
| "compare_op OpLessEqual = Some (\<lambda>v w. v \<le> w)"
| "compare_op OpGreaterEqual = Some (\<lambda>v w. v \<ge> w)"
| "compare_op OpGreaterThan = Some (\<lambda>v w. v > w)"
| "compare_op OpLessThan = Some (\<lambda>v w. v < w)"
| "compare_op _ = None"

fun ast_evaluate :: "defs \<Rightarrow> addr \<Rightarrow> ast \<Rightarrow> bool res" where
  "ast_evaluate d p (AstNot nm (Some l) None) = res_bind (ast_evaluate d p l) (\<lambda>b. Inr (\<not> b))"
| "ast_evaluate d p (AstNot nm l (Some r)) = Inl (Assert_failed ''!right_'')"
| "ast_evaluate d p (AstNot nm None None) = Inl (Undefined_behaviour ''nullptr'')"
| "ast_evaluate d p (AstBin bop l r) =
     (if arith_op bop then Inr True
      else case (l, r) of
        (Some x, Some y) \<Rightarrow>
          (case compare_op bop of
             Some c \<Rightarrow> res_bind (ast_value d p x) (\<lambda>v. res_bind (ast_value d p y) (\<lambda>w. Inr (c v w)))
           | None \<Rightarrow>
               if bop = OpAnd then res_bind (ast_evaluate d p x) (\<lambda>b. if b then ast_evaluate d p y else Inr False)
               else res_bind (ast_evaluate d p x) (\<lambda>b. if b then Inr True else ast_evaluate d p y))
      | _ \<Rightarrow> Inl (Undefined_behaviour ''nullptr''))"
| "ast_evaluate d p (AstFunction ft a) = res_bind (ast_value d p (AstFunction ft a)) (\<lambda>v. Inr (v \<noteq> 0))"
| "ast_evaluate d p (AstInteger i) = Inr (i \<noteq> 0)"
| "ast_evaluate d p (AstFlag path ft) = Inr (AstFlag_value d p path ft \<noteq> 0)"
| "ast_evaluate d p (AstVariable path s) = Inr (VariableHelper_value d p path s \<noteq> 0)"
| "ast_evaluate d p (AstParentVariable s) = Inr (AstParentVariable_value d p s \<noteq> 0)"
| "ast_evaluate d p _ = Inl (Assert_failed ''Ast::evaluate'')"

definition AstTop_evaluate :: "defs \<Rightarrow> addr \<Rightarrow> ast_top \<Rightarrow> bool res" where
  "AstTop_evaluate d p t = (case at_root t of Some a \<Rightarrow> ast_evaluate d p a | None \<Rightarrow> Inr False)"

text \<open>\<open>check\<close> looks for a zero divisor: \<open>False\<close> when it finds one. A division looks at its divisor only.\<close>

fun ast_check :: "defs \<Rightarrow> addr \<Rightarrow> ast \<Rightarrow> bool res" where
  "ast_check d p (AstNot nm l r) =
     res_bind (case l of None \<Rightarrow> Inr True | Some x \<Rightarrow> ast_check d p x) (\<lambda>b.
       if b then (case r of None \<Rightarrow> Inr True | Some y \<Rightarrow> ast_check d p y) else Inr False)"
| "ast_check d p (AstBin bop l r) =
     (if bop \<in> {OpDivide, OpModulo}
      then (case r of None \<Rightarrow> Inr True | Some y \<Rightarrow> res_bind (ast_value d p y) (\<lambda>w. Inr (w \<noteq> 0)))
      else res_bind (case l of None \<Rightarrow> Inr True | Some x \<Rightarrow> ast_check d p x) (\<lambda>b.
             if b then (case r of None \<Rightarrow> Inr True | Some y \<Rightarrow> ast_check d p y) else Inr False))"
| "ast_check d p _ = Inr True"

section \<open>Why a node is not free\<close>

definition path_href_attribute :: "string \<Rightarrow> string \<Rightarrow> string" where
  "path_href_attribute path path2 =
     ''<a href='' @ [dquote] @ path @ [dquote] @ ''>'' @ path2 @ ''</a>''"

text \<open>The text of a name in the two styles: \<open>ref\<close> is the path of the node found, if any.\<close>

definition attr_text :: "bool \<Rightarrow> string \<Rightarrow> string \<Rightarrow> string option \<Rightarrow> string \<Rightarrow> int \<Rightarrow> string" where
  "attr_text html path s ref vtype v =
     (if html
      then let display = ''['' @ vtype @ '']'' @ path @ '':'' @ s
           in (case ref of
                 Some r \<Rightarrow> path_href_attribute (''['' @ vtype @ '']'' @ r @ '':'' @ s) display
               | None \<Rightarrow> path_href_attribute display display @ ''(?)'')
              @ ''('' @ string_of_int v @ '')''
      else path @ (if ref = None then ''(?)'' else []) @ '':'' @ s @
           ''(type:'' @ vtype @ '' value:'' @ string_of_int v @ '')'')"

definition AstVariable_why :: "bool \<Rightarrow> defs \<Rightarrow> addr \<Rightarrow> string \<Rightarrow> string \<Rightarrow> string" where
  "AstVariable_why html d p path s =
     (case fst (findReferencedNode d p path s) of
        None \<Rightarrow> attr_text html path s None ''variable-not-found'' 0
      | Some q \<Rightarrow>
          (case data_at d q of
             None \<Rightarrow> attr_text html path s None ''variable-not-found'' 0
           | Some nd \<Rightarrow> (case findExprVariableValueAndType (df_limits d) s nd of
                           (v, vtype) \<Rightarrow> attr_text html path s (Some (absNodePath d q)) vtype v)))"

definition AstNode_why :: "bool \<Rightarrow> defs \<Rightarrow> addr \<Rightarrow> string \<Rightarrow> string" where
  "AstNode_why html d p path =
     (let show_state = (if html then DState_to_html else DState_toString)
      in case fst (findReferencedNode d p path []) of
           Some q \<Rightarrow> (if html then path_href_attribute (absNodePath d q) path else path) @ ''('' @
                     show_state (AstNode_state d p path) @ '')''
         | None \<Rightarrow> (if html then path_href_attribute path path else path) @ ''?('' @ show_state DS_UNKNOWN @ '')'')"

fun why_op :: "binop \<Rightarrow> string" where
  "why_op OpPlus = '' + ''"
| "why_op OpMinus = '' - ''"
| "why_op OpDivide = '' / ''"
| "why_op OpMultiply = '' * ''"
| "why_op OpModulo = '' % ''"
| "why_op OpAnd = '' and ''"
| "why_op OpOr = '' or ''"
| "why_op OpEqual = '' == ''"
| "why_op OpNotEqual = '' != ''"
| "why_op OpLessEqual = '' <= ''"
| "why_op OpGreaterEqual = '' >= ''"
| "why_op OpGreaterThan = '' > ''"
| "why_op OpLessThan = '' lt ''"

definition false_tag :: "bool \<Rightarrow> string \<Rightarrow> string" where
  "false_tag html s = (if html then ''<false>'' @ s @ ''</false>'' else s)"

definition func_text :: "func_type \<Rightarrow> string" where
  "func_text ft = (case ft of DATE_TO_JULIAN \<Rightarrow> ''date_to_julian( arg:'' | JULIAN_TO_DATE \<Rightarrow> ''julian_to_date( arg:'')"

definition AstFlag_why :: "bool \<Rightarrow> defs \<Rightarrow> addr \<Rightarrow> string \<Rightarrow> Flag_Type \<Rightarrow> string" where
  "AstFlag_why html d p path ft =
     (if AstFlag_value d p path ft \<noteq> 0 then ''true''
      else let name = Flag_enum_to_string ft;
               ref = (if path = ''/'' then None else fst (findReferencedNode d p path []))
           in if html
              then (case ref of
                      Some q \<Rightarrow> path_href_attribute (''[flag:'' @ name @ '']'' @ absNodePath d q)
                                                    (''[flag:'' @ name @ '']'' @ path) @ ''(0)''
                    | None \<Rightarrow> path_href_attribute (''[flag:'' @ name @ '']'' @ path) (''[flag:'' @ name @ '']'' @ path)
                              @ ''(?)'')
              else (case ref of
                      Some q \<Rightarrow> path @ ''<flag>'' @ name @ ''(0)''
                    | None \<Rightarrow> path @ ''(?)'' @ ''<flag>'' @ name @ ''(?)''))"

text \<open>The address of the node that a parent variable refers to, for its path in the html style.\<close>

function parent_variable_addr :: "defs \<Rightarrow> string \<Rightarrow> addr \<Rightarrow> addr option" where
  "parent_variable_addr d s p =
     (if p = [] then None
      else case data_at d p of
             None \<Rightarrow> None
           | Some nd \<Rightarrow> if fst (findExprVariable (df_limits d) s nd) then Some p else parent_variable_addr d s (butlast p))"
  by pat_completeness auto
termination
  by (relation "measure (\<lambda>(_, _, p). length p)") auto

declare parent_variable_addr.simps [simp del]

definition AstParentVariable_why :: "bool \<Rightarrow> defs \<Rightarrow> addr \<Rightarrow> string \<Rightarrow> string" where
  "AstParentVariable_why html d p s =
     (case find_node_which_references_variable d s p of
        None \<Rightarrow> attr_text html [] s None ''variable-not-found'' 0
      | Some nd \<Rightarrow> (case findExprVariableValueAndType (df_limits d) s nd of
                      (v, vtype) \<Rightarrow> attr_text html [] s (map_option (absNodePath d) (parent_variable_addr d s p)) vtype v))"

fun why_expression :: "bool \<Rightarrow> defs \<Rightarrow> addr \<Rightarrow> ast \<Rightarrow> string res" where
  "why_expression html d p (AstNot nm l r) =
     res_bind (ast_evaluate d p (AstNot nm l r)) (\<lambda>b.
       if b then Inr ''true''
       else (case l of
               None \<Rightarrow> Inl (Undefined_behaviour ''nullptr'')
             | Some x \<Rightarrow> res_bind (why_expression html d p x) (\<lambda>w. Inr (false_tag html (''not '' @ w)))))"
| "why_expression html d p (AstBin bop l r) =
     (let inner =
        res_bind (case l of None \<Rightarrow> Inr [] | Some x \<Rightarrow> why_expression html d p x) (\<lambda>wl.
        res_bind (case r of None \<Rightarrow> Inr [] | Some y \<Rightarrow> why_expression html d p y) (\<lambda>wr.
          Inr (wl @ why_op bop @ wr)))
      in if arith_op bop then inner
         else res_bind (ast_evaluate d p (AstBin bop l r)) (\<lambda>b.
                if b then Inr ''true''
                else res_bind inner (\<lambda>w. Inr (false_tag html (''('' @ w @ '')'')))))"
| "why_expression html d p (AstFunction ft a) =
     res_bind (why_expression html d p a) (\<lambda>w.
     res_bind (ast_value d p (AstFunction ft a)) (\<lambda>v. Inr (func_text ft @ w @ '') = '' @ string_of_int v)))"
| "why_expression html d p (AstInteger i) = Inr (string_of_int i)"
| "why_expression html d p (AstNodeState st) = Inr (if html then DState_to_html st else DState_toString st)"
| "why_expression html d p (AstEventState b) = Inr (if b then ''set'' else ''clear'')"
| "why_expression html d p (AstNode path) = Inr (AstNode_why html d p path)"
| "why_expression html d p (AstFlag path ft) = Inr (AstFlag_why html d p path ft)"
| "why_expression html d p (AstVariable path s) = Inr (AstVariable_why html d p path s)"
| "why_expression html d p (AstParentVariable s) = Inr (AstParentVariable_why html d p s)"

text \<open>\<open>Ast::why\<close> and \<open>AstTop::why\<close>: the reason, or \<open>None\<close> when the expression holds.\<close>

definition ast_why :: "bool \<Rightarrow> defs \<Rightarrow> addr \<Rightarrow> ast \<Rightarrow> string option res" where
  "ast_why html d p a =
     res_bind (ast_evaluate d p a) (\<lambda>b.
       if b then Inr None
       else res_bind (why_expression html d p a) (\<lambda>w. Inr (Some (''expression '' @ w @ '' is false''))))"

definition AstTop_why :: "bool \<Rightarrow> defs \<Rightarrow> addr \<Rightarrow> ast_top \<Rightarrow> string option res" where
  "AstTop_why html d p t =
     res_bind (AstTop_evaluate d p t) (\<lambda>b.
       if b then Inr None
       else (case at_root t of
               None \<Rightarrow> Inl (Undefined_behaviour ''nullptr'')
             | Some a \<Rightarrow> ast_why html d p a))"

section \<open>Conditions evaluate\<close>

definition overflow :: exc where "overflow = Undefined_behaviour ''int overflow''"

definition no_fault :: "'a res \<Rightarrow> bool" where
  "no_fault r = (case r of Inl e \<Rightarrow> e = overflow | Inr _ \<Rightarrow> True)"

lemma no_fault_Inr [simp]: "no_fault (Inr x)"
  by (simp add: no_fault_def)

lemma no_fault_Inl [simp]: "no_fault (Inl e) \<longleftrightarrow> e = overflow"
  by (simp add: no_fault_def)

lemma no_fault_bind [intro]: "no_fault r \<Longrightarrow> (\<And>x. r = Inr x \<Longrightarrow> no_fault (f x)) \<Longrightarrow> no_fault (res_bind r f)"
  by (cases r) (simp_all add: no_fault_def)

lemma no_fault_bindD: "no_fault (res_bind r f) \<Longrightarrow> no_fault r"
  by (cases r) (simp_all add: no_fault_def)

lemma no_fault_int_op [simp]: "no_fault (int_op x)"
  by (simp add: int_op_def overflow_def)

lemma no_fault_helpers [simp]:
  "no_fault (VariableHelper_plus d p path s w)" "no_fault (VariableHelper_minus d p path s w)"
  "no_fault (AstParentVariable_plus d p s w)" "no_fault (AstParentVariable_minus d p s w)"
  by (auto simp: VariableHelper_plus_def VariableHelper_minus_def AstParentVariable_plus_def
      AstParentVariable_minus_def findExprVariableValueAndPlus_def findExprVariableValueAndMinus_def
      split: option.splits expr_attr.splits)

lemma ast_value_no_fault: "has_value a \<Longrightarrow> no_fault (ast_value d p a)"
proof (induction a rule: has_value.induct)
  case (1 bop l r)
  then have "no_fault (ast_value d p l)" "no_fault (ast_value d p r)" by auto
  moreover from "1.prems" have "arith_op bop" by simp
  ultimately show ?case by (auto intro!: no_fault_bind dest!: no_fault_bindD split: ast.splits)
qed (auto intro!: no_fault_bind)

lemma ast_value_total: "has_value a \<Longrightarrow> arith_free a \<Longrightarrow> \<exists>v. ast_value d p a = Inr v"
  by (induction a rule: has_value.induct) auto

lemma ast_evaluate_no_fault: "has_truth a \<Longrightarrow> no_fault (ast_evaluate d p a)"
proof (induction a rule: has_truth.induct)
  case (2 bop l r)
  show ?case
  proof (cases "bop \<in> {OpAnd, OpOr}")
    case True
    with 2 have "no_fault (ast_evaluate d p l)" "no_fault (ast_evaluate d p r)" by auto
    with True show ?thesis by (auto intro!: no_fault_bind)
  next
    case False
    with 2 have "no_fault (ast_value d p l)" "no_fault (ast_value d p r)" by (auto intro: ast_value_no_fault)
    with False show ?thesis by (cases bop) (auto intro!: no_fault_bind)
  qed
next
  case (3 ft a)
  then show ?case using ast_value_no_fault [of a d p] by (auto intro!: no_fault_bind)
qed (auto intro!: no_fault_bind)

lemma ast_evaluate_total: "has_truth a \<Longrightarrow> arith_free a \<Longrightarrow> \<exists>b. ast_evaluate d p a = Inr b"
proof (induction a rule: has_truth.induct)
  case (2 bop l r)
  show ?case
  proof (cases "bop \<in> {OpAnd, OpOr}")
    case True
    with 2 obtain b c where "ast_evaluate d p l = Inr b" "ast_evaluate d p r = Inr c" by fastforce
    with True show ?thesis by auto
  next
    case False
    with 2 obtain v w where "ast_value d p l = Inr v" "ast_value d p r = Inr w"
      using ast_value_total [of l d p] ast_value_total [of r d p] by auto
    with False 2(4) show ?thesis by (cases bop) auto
  qed
next
  case (3 ft a)
  then show ?case using ast_value_total [of a d p] by auto
qed auto

lemma why_value_no_fault: "has_value a \<Longrightarrow> no_fault (why_expression html d p a)"
proof (induction a rule: has_value.induct)
  case (1 bop l r)
  then have "no_fault (why_expression html d p l)" "no_fault (why_expression html d p r)" "arith_op bop" by auto
  then show ?case by (auto simp: Let_def intro!: no_fault_bind)
next
  case (2 ft a)
  then show ?case using ast_value_no_fault [of "AstFunction ft a" d p] by (auto intro!: no_fault_bind dest: no_fault_bindD)
qed auto

lemma why_no_fault: "has_truth a \<Longrightarrow> no_fault (why_expression html d p a)"
proof (induction a rule: has_truth.induct)
  case (1 nm l)
  then show ?case
    using ast_evaluate_no_fault [of "AstNot nm (Some l) None" d p] by (auto intro!: no_fault_bind dest: no_fault_bindD)
next
  case (2 bop l r)
  then have "no_fault (why_expression html d p l)" "no_fault (why_expression html d p r)"
    by (auto intro: why_value_no_fault split: if_splits)
  moreover have "no_fault (ast_evaluate d p (AstBin bop (Some l) (Some r)))"
    by (rule ast_evaluate_no_fault [OF "2.prems"])
  ultimately show ?case by (auto simp: Let_def intro!: no_fault_bind simp del: ast_evaluate.simps)
next
  case (3 ft a)
  then show ?case using why_value_no_fault [of "AstFunction ft a" html d p] by simp
qed auto

lemma has_value_valid: "has_value a \<Longrightarrow> is_valid_ast a = None"
  by (induction a rule: has_value.induct) auto

lemma has_truth_valid: "has_truth a \<Longrightarrow> is_valid_ast a = None"
  by (induction a rule: has_truth.induct) (auto simp: has_value_valid split: if_splits)


text \<open>The trigger \<open>../g/a == complete and :X >= 2\<close>.\<close>

definition sample_trigger :: ast where
  "sample_trigger =
     AstBin OpAnd (Some (AstBin OpEqual (Some (AstNode ''../g/a'')) (Some (AstNodeState DS_COMPLETE))))
                  (Some (AstBin OpGreaterEqual (Some (AstParentVariable ''X'')) (Some (AstInteger 2))))"


section \<open>Corners of the evaluation\<close>

text \<open>Subtraction from a name that is not found. A \<open>:name\<close> that no node up the tree has counts as 0 in a comparison,
  but \<open>:name - v\<close> is \<open>v\<close>: the code drops the sign (a name with a path is treated as 0 there, and gives \<open>- v\<close>). So the
  trigger \<open>(:name - v) == (0 - v)\<close> is false for every \<open>v\<close> but 0.\<close>

theorem parent_variable_minus_drops_sign:
  assumes "find_node_which_references_variable d s p = None" and "referenced d p path s = None"
    and "v \<noteq> 0" and "is_int32 v" and "is_int32 (- v)"
  defines "less_v x \<equiv> AstBin OpMinus (Some x) (Some (AstInteger v))"
  shows "ast_evaluate d p (AstBin OpEqual (Some (AstParentVariable s)) (Some (AstInteger 0))) = Inr True \<and>
         ast_evaluate d p (AstBin OpEqual (Some (less_v (AstParentVariable s))) (Some (less_v (AstInteger 0)))) = Inr False \<and>
         ast_evaluate d p (AstBin OpEqual (Some (less_v (AstVariable path s))) (Some (less_v (AstInteger 0)))) = Inr True"
  using assms
  by (simp add: AstParentVariable_value_def AstParentVariable_minus_def VariableHelper_minus_def int_op_def)

theorem parent_variable_minus_drops_sign_witness:
  "find_node_which_references_variable two_families ''X'' [0, 0, 1] = None \<and>
   ast_evaluate two_families [0, 0, 1]
     (AstBin OpEqual (Some (AstBin OpMinus (Some (AstParentVariable ''X'')) (Some (AstInteger 5))))
                     (Some (AstBin OpMinus (Some (AstInteger 0)) (Some (AstInteger 5))))) = Inr False"
proof -
  have f: "find_node_which_references_variable two_families ''X'' [0, 0, 1] = None" by code_simp
  have r: "referenced two_families [0, 0, 1] ''/x'' ''X'' = None" by code_simp
  show ?thesis
    using f parent_variable_minus_drops_sign [OF f r, of 5] by (simp add: is_int32_def INT_MAX_def INT_MIN_def)
qed

text \<open>\<open>check\<close> does not look into the dividend: it passes a tree whose evaluation divides by zero. And
  arithmetic as a condition is always true, whatever its value.\<close>

lemma check_misses_dividend:
  "ast_check d p (AstBin OpDivide (Some (AstBin OpDivide (Some (AstInteger 1)) (Some (AstInteger 0)))) (Some (AstInteger 2)))
     = Inr True"
  by simp

lemma arithmetic_is_true:
  "ast_evaluate d p (AstBin OpMinus (Some (AstInteger 1)) (Some (AstInteger 1))) = Inr True"
  "ast_value d p (AstBin OpMinus (Some (AstInteger 1)) (Some (AstInteger 1))) = Inr 0"
  by (simp_all add: int_op_def is_int32_def INT_MAX_def INT_MIN_def)

end
