(* ===== verification/Substitution.thy ===== *)
theory Substitution
  imports Requeue Expressions
begin

text \<open>
  Variables: the searches of \<open>ANode/src/NodeFind.cpp\<close> up the tree and in the \<open>ServerState\<close>, and the substitution of
  \<open>%VAR%\<close> and \<open>$VAR\<close> in a command (\<open>Node::variableSubsitution\<close>, \<open>variable_substitution\<close>,
  \<open>find_all_used_variables\<close>, \<open>variable_dollar_subsitution\<close>, \<open>ServerState::variableSubsitution\<close>). The loops of the
  code are \<open>while (true)\<close>; they are \<open>partial_function (option)\<close> here, and \<open>None\<close> is a loop that does not end.
\<close>

section \<open>Searches\<close>

record server_state =
  sst_state :: SState
  sst_user_variables :: "variable list"
  sst_server_variables :: "variable list"

definition find_value :: "string \<Rightarrow> variable list \<Rightarrow> string option" where
  "find_value s vs = map_option va_v (List.find (\<lambda>v. va_n v = s) vs)"

text \<open>The empty string for a variable that does not exist; a server variable is never empty.\<close>

definition ServerState_find_variable :: "server_state \<Rightarrow> string \<Rightarrow> string" where
  "ServerState_find_variable sst s =
     (case find_value s (sst_user_variables sst) of
        Some v \<Rightarrow> v
      | None \<Rightarrow> (case find_value s (sst_server_variables sst) of Some v \<Rightarrow> v | None \<Rightarrow> []))"

definition ServerState_findVariable :: "server_state \<Rightarrow> string \<Rightarrow> variable" where
  "ServerState_findVariable sst s =
     (case List.find (\<lambda>v. va_n v = s) (sst_user_variables sst) of
        Some v \<Rightarrow> v
      | None \<Rightarrow> (case List.find (\<lambda>v. va_n v = s) (sst_server_variables sst) of Some v \<Rightarrow> v | None \<Rightarrow> Variable_EMPTY))"

definition ServerState_variable_exists :: "server_state \<Rightarrow> string \<Rightarrow> bool" where
  "ServerState_variable_exists sst s =
     (list_ex (\<lambda>v. va_n v = s) (sst_user_variables sst) \<or> list_ex (\<lambda>v. va_n v = s) (sst_server_variables sst))"

definition findVariableValue :: "string \<Rightarrow> node_data \<Rightarrow> string option" where
  "findVariableValue s nd = find_value s (nd_vars nd)"

definition findGenVariableValue :: "string \<Rightarrow> node_data \<Rightarrow> string option" where
  "findGenVariableValue s nd =
     (let v = findGenVariable s nd in if Variable_empty v then None else Some (va_v v))"

fun Repeat_valueAsString :: "repeat_t \<Rightarrow> string" where
  "Repeat_valueAsString (REnumerated r) = RepeatEnumerated_valueAsString r"
| "Repeat_valueAsString (RString r) = RepeatString_valueAsString r"
| "Repeat_valueAsString (RDay r) = []"
| "Repeat_valueAsString NoRepeat = []"
| "Repeat_valueAsString r = string_of_int (Repeat_last_valid_value r)"

text \<open>User variables come before the repeat, and the repeat before generated variables.\<close>

definition node_value :: "string \<Rightarrow> node_data \<Rightarrow> string option" where
  "node_value s nd =
     (case findVariableValue s nd of
        Some v \<Rightarrow> Some v
      | None \<Rightarrow>
          if nd_repeat nd \<noteq> NoRepeat \<and> Repeat_name (nd_repeat nd) = s then Some (Repeat_valueAsString (nd_repeat nd))
          else findGenVariableValue s nd)"

fun first_up :: "(node_data \<Rightarrow> string option) \<Rightarrow> defs \<Rightarrow> addr list \<Rightarrow> string option" where
  "first_up f d [] = None"
| "first_up f d (p # ps) =
     (case Option.bind (node_at (df_suites d) p) (\<lambda>n. f (ndata n)) of Some v \<Rightarrow> Some v | None \<Rightarrow> first_up f d ps)"

definition up_or_server :: "(node_data \<Rightarrow> string option) \<Rightarrow> server_state \<Rightarrow> defs \<Rightarrow> addr \<Rightarrow> string \<Rightarrow> string option" where
  "up_or_server f sst d p s =
     (case first_up f d (up_addrs p) of
        Some v \<Rightarrow> Some v
      | None \<Rightarrow> let v = ServerState_find_variable sst s in if v \<noteq> [] then Some v else None)"

definition findParentVariableValue :: "server_state \<Rightarrow> defs \<Rightarrow> addr \<Rightarrow> string \<Rightarrow> string option" where
  "findParentVariableValue sst d p s = up_or_server (node_value s) sst d p s"

definition find_parent_gen_variable_value :: "server_state \<Rightarrow> defs \<Rightarrow> addr \<Rightarrow> string \<Rightarrow> string option" where
  "find_parent_gen_variable_value sst d p s = up_or_server (findGenVariableValue s) sst d p s"

definition findParentUserVariableValue :: "server_state \<Rightarrow> defs \<Rightarrow> addr \<Rightarrow> string \<Rightarrow> string option" where
  "findParentUserVariableValue sst d p s = up_or_server (findVariableValue s) sst d p s"

section \<open>Substitution\<close>

text \<open>\<open>cmd.find(c, pos)\<close>.\<close>

definition find_char_from :: "char \<Rightarrow> nat \<Rightarrow> string \<Rightarrow> nat option" where
  "find_char_from c pos s = map_option ((+) pos) (find_first_of_char c (drop pos s))"

text \<open>The loop that the two substitutions share: \<open>look\<close> is the value that replaces the text between two micro
  characters, \<open>None\<close> when the code gives up; \<open>maxi\<close> is the bound of the check for infinite recursion. The result is
  whether the loop succeeded, the command, and whether a double micro was seen.\<close>

partial_function (option) subst_loop ::
    "char \<Rightarrow> (string \<Rightarrow> string option) \<Rightarrow> nat \<Rightarrow> string \<Rightarrow> nat \<Rightarrow> nat \<Rightarrow> bool \<Rightarrow> (bool \<times> string \<times> bool) option" where
  "subst_loop micro look maxi cmd pos count double_micro_found =
     (case find_char_from micro pos cmd of
        None \<Rightarrow> Some (True, cmd, double_micro_found)
      | Some a \<Rightarrow>
          (case find_char_from micro (a + 1) cmd of
             None \<Rightarrow> Some (True, cmd, double_micro_found)
           | Some b \<Rightarrow>
               if b - a \<le> 1 then subst_loop micro look maxi cmd (b + 1) count True
               else (case look (drop (a + 1) (take b cmd)) of
                       None \<Rightarrow> Some (False, cmd, double_micro_found)
                     | Some v \<Rightarrow>
                         let cmd1 = take a cmd @ v @ drop (b + 1) cmd
                         in if count > maxi then Some (False, cmd1, double_micro_found)
                            else subst_loop micro look maxi cmd1 0 (count + 1) double_micro_found)))"

declare subst_loop.simps [code]

text \<open>Every double micro becomes one, in a single pass.\<close>

fun collapse :: "char \<Rightarrow> string \<Rightarrow> string" where
  "collapse micro (x # y # s) = (if x = micro \<and> y = micro then micro # collapse micro s else x # collapse micro (y # s))"
| "collapse micro s = s"

definition substitute :: "char \<Rightarrow> (string \<Rightarrow> string option) \<Rightarrow> nat \<Rightarrow> string \<Rightarrow> (bool \<times> string) option" where
  "substitute micro look maxi cmd =
     map_option (\<lambda>(ok, cmd1, double_micro_found). (ok, if ok \<and> double_micro_found then collapse micro cmd1 else cmd1))
       (subst_loop micro look maxi cmd 0 0 False)"

text \<open>Generated variables that a user variable does not override.\<close>

definition generated_variable :: "string \<Rightarrow> bool" where
  "generated_variable percentVar =
     (is_prefix ''ECF_'' percentVar \<and>
      list_ex (\<lambda>s. contains_str s percentVar) [''ECF_HOST'', ''ECF_PORT'', ''ECF_TRYNO'', ''ECF_NAME'', ''ECF_PASS''])"

definition search_user_edit_variables :: "string \<Rightarrow> (string \<Rightarrow> string option) \<Rightarrow> string option" where
  "search_user_edit_variables s edits = (case edits s of None \<Rightarrow> None | Some v \<Rightarrow> if v = [] then None else Some v)"

definition or_else :: "'a option \<Rightarrow> 'a option \<Rightarrow> 'a option" where
  "or_else x y = (case x of Some v \<Rightarrow> Some v | None \<Rightarrow> y)"

definition var_replacement ::
    "server_state \<Rightarrow> defs \<Rightarrow> addr \<Rightarrow> (string \<Rightarrow> string option) \<Rightarrow> string \<Rightarrow> string option" where
  "var_replacement sst d p edits percentVar =
     (let gen = generated_variable percentVar;
          firstColon = find_first_of_char CHR '':'' percentVar;
          is_a_alias = (case node_at (df_suites d) p of None \<Rightarrow> False | Some n \<Rightarrow> nd_kind (ndata n) = K_Alias)
      in or_else (search_user_edit_variables percentVar edits)
           (or_else (if gen \<and> firstColon = None then find_parent_gen_variable_value sst d p percentVar else None)
              (case firstColon of
                 None \<Rightarrow> findParentVariableValue sst d p percentVar
               | Some i \<Rightarrow>
                   or_else (if is_a_alias then findParentVariableValue sst d p percentVar else None)
                     (let var = take i percentVar
                      in or_else (search_user_edit_variables var edits)
                           (or_else (if gen then find_parent_gen_variable_value sst d p var else None)
                              (or_else (findParentVariableValue sst d p var) (Some (drop (i + 1) percentVar))))))))"

definition variable_substitution ::
    "server_state \<Rightarrow> defs \<Rightarrow> addr \<Rightarrow> string \<Rightarrow> (string \<Rightarrow> string option) \<Rightarrow> char \<Rightarrow> (bool \<times> string) option" where
  "variable_substitution sst d p cmd edits micro = substitute micro (var_replacement sst d p edits) 1000 cmd"

definition node_micro :: "server_state \<Rightarrow> defs \<Rightarrow> addr \<Rightarrow> char" where
  "node_micro sst d p =
     (case findParentUserVariableValue sst d p ''ECF_MICRO'' of Some [c] \<Rightarrow> c | _ \<Rightarrow> CHR ''%'')"

definition variableSubsitution :: "server_state \<Rightarrow> defs \<Rightarrow> addr \<Rightarrow> string \<Rightarrow> (bool \<times> string) option" where
  "variableSubsitution sst d p cmd = variable_substitution sst d p cmd (\<lambda>_. None) (node_micro sst d p)"

text \<open>\<open>ServerState::variableSubsitution\<close>: a variable without a name is never found.\<close>

definition server_replacement :: "server_state \<Rightarrow> string \<Rightarrow> string option" where
  "server_replacement sst percentVar =
     (let v = ServerState_findVariable sst percentVar
      in if \<not> Variable_empty v then Some (va_v v)
         else case find_first_of_char CHR '':'' percentVar of
                None \<Rightarrow> None
              | Some i \<Rightarrow>
                  let v2 = ServerState_findVariable sst (take i percentVar)
                  in Some (if \<not> Variable_empty v2 then va_v v2 else drop (i + 1) percentVar))"

definition ServerState_variableSubsitution :: "server_state \<Rightarrow> string \<Rightarrow> (bool \<times> string) option" where
  "ServerState_variableSubsitution sst cmd =
     (let v = ServerState_findVariable sst ''ECF_MICRO'';
          micro = (if \<not> Variable_empty v \<and> va_v v \<noteq> [] then hd (va_v v) else CHR ''%'')
      in substitute micro (server_replacement sst) 100 cmd)"

text \<open>\<open>find_all_used_variables\<close>: the first insertion of a name into the map stays. Two adjacent micro characters end the
  loop.\<close>

definition map_insert :: "string \<Rightarrow> string \<Rightarrow> (string \<Rightarrow> string option) \<Rightarrow> string \<Rightarrow> string option" where
  "map_insert k v m = (case m k of None \<Rightarrow> m(k \<mapsto> v) | Some _ \<Rightarrow> m)"

definition used_value :: "(string \<Rightarrow> string option) \<Rightarrow> string \<Rightarrow> string option" where
  "used_value look percentVar =
     (case find_first_of_char CHR '':'' percentVar of
        None \<Rightarrow> look percentVar
      | Some i \<Rightarrow> or_else (look (take i percentVar)) (Some (drop (i + 1) percentVar)))"

partial_function (option) used_loop ::
    "char \<Rightarrow> (string \<Rightarrow> string option) \<Rightarrow> string \<Rightarrow> (string \<Rightarrow> string option) \<Rightarrow> nat \<Rightarrow>
       (bool \<times> string \<times> (string \<Rightarrow> string option)) option" where
  "used_loop micro look cmd used_variables count =
     (case find_char_from micro 0 cmd of
        None \<Rightarrow> Some (True, cmd, used_variables)
      | Some a \<Rightarrow>
          (case find_char_from micro (a + 1) cmd of
             None \<Rightarrow> Some (True, cmd, used_variables)
           | Some b \<Rightarrow>
               if b - a \<le> 1 then Some (True, cmd, used_variables)
               else let percentVar = drop (a + 1) (take b cmd)
                    in case used_value look percentVar of
                         None \<Rightarrow> Some (False, cmd, used_variables)
                       | Some v \<Rightarrow>
                           let cmd1 = take a cmd @ v @ drop (b + 1) cmd; used1 = map_insert percentVar v used_variables
                           in if count > 100 then Some (False, cmd1, used1)
                              else used_loop micro look cmd1 used1 (count + 1)))"

definition find_all_used_variables ::
    "server_state \<Rightarrow> defs \<Rightarrow> addr \<Rightarrow> string \<Rightarrow> (string \<Rightarrow> string option) \<Rightarrow> char \<Rightarrow>
       (bool \<times> string \<times> (string \<Rightarrow> string option)) option" where
  "find_all_used_variables sst d p cmd used_variables micro =
     used_loop micro (findParentVariableValue sst d p) cmd used_variables 0"

text \<open>\<open>variable_dollar_subsitution\<close>: no count bounds this loop.\<close>

partial_function (option) dollar_loop :: "(string \<Rightarrow> string option) \<Rightarrow> string \<Rightarrow> (bool \<times> string) option" where
  "dollar_loop look cmd =
     (case find_char_from CHR ''$'' 0 cmd of
        None \<Rightarrow> Some (True, cmd)
      | Some a \<Rightarrow>
          let env_name = takeWhile (\<lambda>c. c \<in> set ALPHANUMERIC_UNDERSCORE) (drop (a + 1) cmd)
          in if env_name = [] then Some (True, cmd)
             else (case look env_name of
                     None \<Rightarrow> Some (False, cmd)
                   | Some v \<Rightarrow>
                       let cmd1 = take a cmd @ v @ drop (a + 1 + length env_name) cmd
                       in if contains_str env_name v then Some (True, cmd1) else dollar_loop look cmd1))"

definition variable_dollar_subsitution :: "server_state \<Rightarrow> defs \<Rightarrow> addr \<Rightarrow> string \<Rightarrow> (bool \<times> string) option" where
  "variable_dollar_subsitution sst d p cmd = dollar_loop (findParentVariableValue sst d p) cmd"

section \<open>The substitution returns\<close>

lemma find_char_from_Some: "find_char_from c pos s = Some a \<Longrightarrow> pos \<le> a \<and> a < length s"
proof -
  assume "find_char_from c pos s = Some a"
  then obtain j where j: "find_first_of_char c (drop pos s) = Some j" "a = pos + j" by (auto simp: find_char_from_def)
  have "find_first_of_char c t = Some k \<Longrightarrow> k < length t" for t k
    by (induction t arbitrary: k) (auto split: if_splits)
  from this [OF j(1)] j(2) show ?thesis by auto
qed

lemma subst_loop_returns: "\<exists>r. subst_loop micro look maxi cmd pos count dbl = Some r"
proof (induction "(maxi + 1 - count, length cmd + 1 - pos)" arbitrary: cmd pos count dbl
    rule: wf_induct_rule [OF wf_lex_prod [OF wf_less_than wf_less_than]])
  case 1
  show ?case
  proof (cases "find_char_from micro pos cmd")
    case (Some a)
    show ?thesis
    proof (cases "find_char_from micro (a + 1) cmd")
      case b: (Some b)
      have le: "pos \<le> a" "a + 1 \<le> b" "b < length cmd" using find_char_from_Some [OF Some] find_char_from_Some [OF b] by auto
      have skip: "\<exists>r. subst_loop micro look maxi cmd (b + 1) count True = Some r" by (rule 1) (use le in auto)
      have again: "\<exists>r. subst_loop micro look maxi cmd1 0 (count + 1) dbl = Some r" if "\<not> count > maxi" for cmd1
        by (rule 1) (use that in auto)
      show ?thesis
        by (subst subst_loop.simps)
          (use Some b skip again in \<open>auto simp: Let_def split: option.splits\<close>)
    qed (subst subst_loop.simps, simp add: Some ex_bool_eq)
  qed (subst subst_loop.simps, simp add: ex_bool_eq)
qed

lemma used_loop_returns: "\<exists>r. used_loop micro look cmd used count = Some r"
proof (induction "101 - count" arbitrary: cmd used count rule: less_induct)
  case less
  have again: "\<exists>r. used_loop micro look cmd1 used1 (count + 1) = Some r" if "\<not> count > 100" for cmd1 used1
    by (rule less) (use that in auto)
  show ?case by (subst used_loop.simps) (use again in \<open>auto simp: Let_def split: option.splits\<close>)
qed

section \<open>Templates\<close>

text \<open>A command as the user means it: literal text, references and double micro characters.\<close>

datatype piece = Lit string | Ref string | Dbl

fun piece_text :: "char \<Rightarrow> piece \<Rightarrow> string" where
  "piece_text micro (Lit s) = s"
| "piece_text micro (Ref v) = micro # v @ [micro]"
| "piece_text micro Dbl = [micro, micro]"

fun piece_value :: "char \<Rightarrow> (string \<Rightarrow> string option) \<Rightarrow> piece \<Rightarrow> string" where
  "piece_value micro look (Lit s) = s"
| "piece_value micro look (Ref v) = (case look v of Some x \<Rightarrow> x | None \<Rightarrow> [])"
| "piece_value micro look Dbl = [micro]"

fun piece_ok :: "char \<Rightarrow> (string \<Rightarrow> string option) \<Rightarrow> piece \<Rightarrow> bool" where
  "piece_ok micro look (Lit s) \<longleftrightarrow> micro \<notin> set s"
| "piece_ok micro look (Ref v) \<longleftrightarrow> v \<noteq> [] \<and> micro \<notin> set v \<and> (case look v of None \<Rightarrow> False | Some x \<Rightarrow> micro \<notin> set x)"
| "piece_ok micro look Dbl \<longleftrightarrow> True"

definition text_of :: "char \<Rightarrow> piece list \<Rightarrow> string" where
  "text_of micro ps = concat (map (piece_text micro) ps)"

fun is_ref :: "piece \<Rightarrow> bool" where
  "is_ref (Ref v) = True"
| "is_ref _ = False"

lemma find_char_from_at: "find_char_from c (length pre) (pre @ c # s) = Some (length pre)"
  by (simp add: find_char_from_def)

lemma find_char_from_skip: "c \<notin> set s \<Longrightarrow> find_char_from c (length pre) (pre @ s @ t) = find_char_from c (length (pre @ s)) ((pre @ s) @ t)"
proof -
  assume "c \<notin> set s"
  then have "find_first_of_char c (s @ t) = map_option ((+) (length s)) (find_first_of_char c t)"
    by (induction s) (cases "find_first_of_char c t", auto)+
  then show ?thesis by (cases "find_first_of_char c t") (simp_all add: find_char_from_def)
qed

lemma subst_loop_move:
  "find_char_from micro p cmd = find_char_from micro q cmd \<Longrightarrow>
   subst_loop micro look maxi cmd p count dbl = subst_loop micro look maxi cmd q count dbl"
  by (subst (1 2) subst_loop.simps) simp

lemma subst_loop_lit:
  "micro \<notin> set s \<Longrightarrow>
   subst_loop micro look maxi (pre @ s @ t) (length pre) count dbl = subst_loop micro look maxi ((pre @ s) @ t) (length (pre @ s)) count dbl"
  using find_char_from_skip [of micro s pre t] subst_loop_move [of micro "length pre" "pre @ s @ t" "length (pre @ s)"] by simp

lemma subst_loop_dbl:
  "subst_loop micro look maxi (pre @ micro # micro # t) (length pre) count dbl =
   subst_loop micro look maxi ((pre @ [micro, micro]) @ t) (length (pre @ [micro, micro])) count True"
  using find_char_from_at [of micro pre "micro # t"] find_char_from_at [of micro "pre @ [micro]" t]
  by (subst subst_loop.simps) (simp add: numeral_2_eq_2)

lemma subst_loop_ref:
  assumes "micro \<notin> set v" "v \<noteq> []" "look v = Some x" "\<not> count > maxi"
  shows "subst_loop micro look maxi (pre @ (micro # v @ [micro]) @ t) (length pre) count dbl =
    subst_loop micro look maxi (pre @ x @ t) 0 (count + 1) dbl"
proof -
  have a: "find_char_from micro (length pre) (pre @ (micro # v @ [micro]) @ t) = Some (length pre)"
    using find_char_from_at [of micro pre "v @ micro # t"] by simp
  have b: "find_char_from micro (Suc (length pre)) (pre @ (micro # v @ [micro]) @ t) = Some (length pre + 1 + length v)"
    using find_char_from_skip [OF assms(1), of "pre @ [micro]" "micro # t"] find_char_from_at [of micro "pre @ micro # v" t] by simp
  show ?thesis
    by (subst subst_loop.simps) (use a b assms in \<open>simp add: Let_def\<close>)
qed

text \<open>Over a template without references the loop runs to the end; otherwise it comes to the first reference.\<close>

lemma subst_loop_no_ref:
  "list_all (piece_ok micro look) ps \<Longrightarrow> \<not> list_ex is_ref ps \<Longrightarrow>
   subst_loop micro look maxi (pre @ text_of micro ps) (length pre) count dbl =
     Some (True, pre @ text_of micro ps, dbl \<or> Dbl \<in> set ps)"
proof (induction ps arbitrary: pre dbl)
  case Nil
  then show ?case by (subst subst_loop.simps) (simp add: text_of_def find_char_from_def)
next
  case (Cons q ps)
  show ?case
  proof (cases q)
    case (Lit s)
    with Cons Cons.IH [of "pre @ s" dbl] subst_loop_lit [of micro s look maxi pre "text_of micro ps" count dbl]
    show ?thesis by (simp add: text_of_def)
  next
    case Dbl
    with Cons Cons.IH [of "pre @ [micro, micro]" True] subst_loop_dbl [of micro look maxi pre "text_of micro ps" count dbl]
    show ?thesis by (simp add: text_of_def)
  qed (use Cons in simp)
qed

lemma subst_loop_first_ref:
  "list_all (piece_ok micro look) ps \<Longrightarrow> \<not> list_ex is_ref ps \<Longrightarrow> piece_ok micro look (Ref v) \<Longrightarrow> \<not> count > maxi \<Longrightarrow>
   \<exists>dbl'. subst_loop micro look maxi (pre @ text_of micro (ps @ Ref v # qs)) (length pre) count dbl =
     subst_loop micro look maxi (pre @ text_of micro (ps @ Lit (piece_value micro look (Ref v)) # qs)) 0 (count + 1) dbl'"
proof (induction ps arbitrary: pre dbl)
  case Nil
  then show ?case
    using subst_loop_ref [of micro v look _ maxi count pre "text_of micro qs" dbl] by (fastforce simp: text_of_def split: option.splits)
next
  case (Cons q ps)
  show ?case
  proof (cases q)
    case (Lit s)
    with Cons Cons.IH [of "pre @ s" dbl] subst_loop_lit [of micro s look maxi pre "text_of micro (ps @ Ref v # qs)" count dbl]
    show ?thesis by (simp add: text_of_def)
  next
    case Dbl
    with Cons Cons.IH [of "pre @ [micro, micro]" True] subst_loop_dbl [of micro look maxi pre "text_of micro (ps @ Ref v # qs)" count dbl]
    show ?thesis by (simp add: text_of_def)
  qed (use Cons in simp)
qed

fun settle_piece :: "char \<Rightarrow> (string \<Rightarrow> string option) \<Rightarrow> piece \<Rightarrow> piece" where
  "settle_piece micro look (Ref v) = Lit (piece_value micro look (Ref v))"
| "settle_piece micro look q = q"

lemma subst_loop_template:
  "list_all (piece_ok micro look) ps \<Longrightarrow> length (filter is_ref ps) + count \<le> maxi + 1 \<Longrightarrow>
   \<exists>dbl'. subst_loop micro look maxi (text_of micro ps) 0 count dbl = Some (True, text_of micro (map (settle_piece micro look) ps), dbl') \<and>
     (Dbl \<in> set ps \<longrightarrow> dbl')"
proof (induction "length (filter is_ref ps)" arbitrary: ps count dbl)
  case 0
  then have no: "\<not> list_ex is_ref ps" by (simp add: list_ex_iff filter_empty_conv)
  have "settle_piece micro look q = q" if "q \<in> set ps" for q using no that by (cases q) (auto simp: list_ex_iff)
  then have "map (settle_piece micro look) ps = ps" by (simp add: map_idI)
  with subst_loop_no_ref [OF 0(2) no, of maxi "[]" count dbl] show ?case by simp
next
  case (Suc k)
  then obtain as r bs where sp: "ps = as @ r # bs" "is_ref r" "\<forall>q \<in> set as. \<not> is_ref q"
    using split_list_first_prop [of ps is_ref] by (metis filter_False length_0_conv nat.distinct(1))
  then obtain v where r: "r = Ref v" by (cases r) auto
  let ?l = "Lit (piece_value micro look (Ref v))" and ?ps = "as @ Lit (piece_value micro look (Ref v)) # bs"
  have as: "list_all (piece_ok micro look) as" "\<not> list_ex is_ref as" "piece_ok micro look (Ref v)"
    using Suc.prems(1) sp r by (auto simp: list_ex_iff)
  have fa: "filter is_ref as = []" using sp(3) by (simp add: filter_empty_conv)
  then have cnt: "\<not> count > maxi" "k = length (filter is_ref ?ps)" "length (filter is_ref ?ps) + (count + 1) \<le> maxi + 1"
    using Suc.hyps(2) Suc.prems(2) sp r by auto
  obtain dbl1 where one: "subst_loop micro look maxi (text_of micro ps) 0 count dbl =
      subst_loop micro look maxi (text_of micro ?ps) 0 (count + 1) dbl1"
    using subst_loop_first_ref [OF as cnt(1), of "[]" bs dbl] sp r by auto
  have "list_all (piece_ok micro look) ?ps" using Suc.prems(1) sp r by (auto split: option.splits)
  from Suc.hyps(1) [OF cnt(2) this cnt(3), of dbl1] one sp r show ?case by auto
qed

lemma collapse_lit: "micro \<notin> set s \<Longrightarrow> collapse micro (s @ t) = s @ collapse micro t"
proof (induction s)
  case (Cons x s)
  then show ?case by (cases "s @ t") auto
qed simp

lemma collapse_template:
  "list_all (piece_ok micro look) ps \<Longrightarrow>
   collapse micro (text_of micro (map (settle_piece micro look) ps)) = concat (map (piece_value micro look) ps)"
proof (induction ps)
  case (Cons q ps)
  then show ?case by (cases q) (auto simp: text_of_def collapse_lit split: option.splits)
qed (simp add: text_of_def)

lemma no_dbl_template:
  "Dbl \<notin> set ps \<Longrightarrow> text_of micro (map (settle_piece micro look) ps) = concat (map (piece_value micro look) ps)"
proof (induction ps)
  case (Cons q ps)
  then show ?case by (cases q) (auto simp: text_of_def)
qed (simp add: text_of_def)

lemma substitute_template:
  assumes "list_all (piece_ok micro look) ps" "length (filter is_ref ps) \<le> maxi + 1"
  shows "substitute micro look maxi (text_of micro ps) = Some (True, concat (map (piece_value micro look) ps))"
proof -
  obtain dbl where "subst_loop micro look maxi (text_of micro ps) 0 0 False =
      Some (True, text_of micro (map (settle_piece micro look) ps), dbl)" "Dbl \<in> set ps \<longrightarrow> dbl"
    using subst_loop_template [of micro look ps 0 maxi False] assms by auto
  with collapse_template [OF assms(1)] no_dbl_template [of ps micro look] show ?thesis by (cases dbl) (auto simp: substitute_def)
qed

lemma substitute_returns: "\<exists>r. substitute m look maxi c = Some r"
proof -
  obtain r where "subst_loop m look maxi c 0 0 False = Some r" using subst_loop_returns by blast
  then show ?thesis by (simp only: substitute_def option.map) blast
qed

lemma variableSubsitution_returns: "\<exists>ok cmd1. variableSubsitution sst d p cmd = Some (ok, cmd1)"
  unfolding variableSubsitution_def variable_substitution_def using substitute_returns by (metis surj_pair)

section \<open>Properties\<close>


text \<open>C37. The substitutions of micro variables, in a node and in the server, and the search for the variables that a
  command uses return on every input, also when variables refer to themselves or to each other.\<close>

theorem substitution_returns:
  "(\<exists>r. variable_substitution sst d p cmd edits micro = Some r) \<and> (\<exists>r. ServerState_variableSubsitution sst cmd = Some r) \<and>
   (\<exists>r. find_all_used_variables sst d p cmd used micro = Some r)"
  unfolding variable_substitution_def ServerState_variableSubsitution_def find_all_used_variables_def Let_def
  by (intro conjI substitute_returns used_loop_returns)

definition var_defs :: defs where
  "var_defs = two_families\<lparr>df_suites := map (\<lambda>n. Node ((ndata n)\<lparr>nd_vars := [\<lparr>va_n = ''HOME'', va_v = ''/tmp''\<rparr>]\<rparr>) (kids n)) (df_suites two_families)\<rparr>"

definition no_server :: server_state where
  "no_server = \<lparr>sst_state = SS_RUNNING, sst_user_variables = [], sst_server_variables = []\<rparr>"


lemma dollar_cycle:
  assumes ab: "a \<in> set ALPHANUMERIC_UNDERSCORE" "b \<in> set ALPHANUMERIC_UNDERSCORE" "a \<noteq> b" "a \<noteq> CHR ''$''" "b \<noteq> CHR ''$''"
    and run: "dollar_loop look cmd = Some r"
  shows "look [a] = Some [CHR ''$'', b] \<and> look [b] = Some [CHR ''$'', a] \<longrightarrow> cmd \<noteq> [CHR ''$'', a] \<and> cmd \<noteq> [CHR ''$'', b]"
proof (rule dollar_loop.raw_induct [OF _ run])
  fix loop :: "(string \<Rightarrow> string option) \<Rightarrow> string \<Rightarrow> (bool \<times> string) option" and f cmd r
  let ?body = "case find_char_from CHR ''$'' 0 cmd of
        None \<Rightarrow> Some (True, cmd)
      | Some a \<Rightarrow>
          let env_name = takeWhile (\<lambda>c. c \<in> set ALPHANUMERIC_UNDERSCORE) (drop (a + 1) cmd)
          in if env_name = [] then Some (True, cmd)
             else (case f env_name of
                     None \<Rightarrow> Some (False, cmd)
                   | Some v \<Rightarrow>
                       let cmd1 = take a cmd @ v @ drop (a + 1 + length env_name) cmd
                       in if contains_str env_name v then Some (True, cmd1) else loop f cmd1)"
  assume ih: "\<And>f cmd r. loop f cmd = Some r \<Longrightarrow>
      f [a] = Some [CHR ''$'', b] \<and> f [b] = Some [CHR ''$'', a] \<longrightarrow> cmd \<noteq> [CHR ''$'', a] \<and> cmd \<noteq> [CHR ''$'', b]"
    and body: "?body = Some r"
  have step: "loop f [CHR ''$'', y] = Some r"
    if "cmd = [CHR ''$'', x]" "f [x] = Some [CHR ''$'', y]" "x \<in> set ALPHANUMERIC_UNDERSCORE" "x \<noteq> CHR ''$''" "x \<noteq> y" for x y
    using that body by (simp add: find_char_from_def)
  show "f [a] = Some [CHR ''$'', b] \<and> f [b] = Some [CHR ''$'', a] \<longrightarrow>
      cmd \<noteq> [CHR ''$'', a] \<and> cmd \<noteq> [CHR ''$'', b]"
    using ih [OF step [of a b]] ih [OF step [of b a]] ab by auto
qed

text \<open>The substitution of \<open>$VAR\<close> does not return when two variables refer to each other: the check for an infinite loop
  only looks for the name of a variable in its own value.\<close>

theorem dollar_substitution_diverges:
  assumes "findParentVariableValue sst d p ''A'' = Some ''$B''" "findParentVariableValue sst d p ''B'' = Some ''$A''"
  shows "variable_dollar_subsitution sst d p ''$A'' = None"
proof (rule ccontr)
  assume "variable_dollar_subsitution sst d p ''$A'' \<noteq> None"
  then obtain r where "dollar_loop (findParentVariableValue sst d p) ''$A'' = Some r" by (auto simp: variable_dollar_subsitution_def)
  from dollar_cycle [OF _ _ _ _ _ this, of "CHR ''A''" "CHR ''B''"] assms show False by (auto simp: ALPHANUMERIC_UNDERSCORE_def)
qed

definition cyclic_server :: server_state where
  "cyclic_server = no_server\<lparr>sst_user_variables := [\<lparr>va_n = ''A'', va_v = ''$B''\<rparr>, \<lparr>va_n = ''B'', va_v = ''$A''\<rparr>]\<rparr>"

theorem dollar_substitution_diverges_witness:
  "variable_dollar_subsitution cyclic_server two_families [0, 1, 0] ''$A'' = None"
proof -
  have "findParentVariableValue cyclic_server two_families [0, 1, 0] ''A'' = Some ''$B''"
    "findParentVariableValue cyclic_server two_families [0, 1, 0] ''B'' = Some ''$A''" by code_simp+
  then show ?thesis by (rule dollar_substitution_diverges)
qed

end
