(* ===== verification/Resolve.thy ===== *)
theory Resolve
  imports State_Change Substitution
begin

text \<open>
  Job generation: \<open>Jobs::generate\<close> walks the tree, and \<open>resolveDependencies\<close> of \<open>Suite\<close>, \<open>NodeContainer\<close>, \<open>Task\<close> and
  \<open>Node\<close> (\<open>ANode/src\<close>) decides which tasks are free of their dependencies and submits them, with
  \<open>Submittable::submit_job_only\<close>. What the file system and the operating system answer (script found, job file
  made, process started, times measured) is the record \<open>job_world\<close>, with the passwords that are drawn. The children that
  have terminated are collected elsewhere.
\<close>

section \<open>The parameters of job generation\<close>

record jobs_param =
  jp_timed_out :: bool
  jp_createJobs :: bool
  jp_spawnJobs :: bool
  jp_submitJobsInterval :: int
  jp_errorMsg :: string
  jp_submitted :: "addr list"
  jp_next_poll_time :: "int option"
  jp_time_out_time :: int

datatype job_outcome = Script_missing string | Job_failed string | Job_made

record job_world =
  jw_parse :: "string \<Rightarrow> ast_top option"
  jw_server :: server_state
  jw_make :: "server \<Rightarrow> addr \<Rightarrow> job_outcome"
  jw_spawn :: "string \<Rightarrow> addr \<Rightarrow> bool \<times> string"
  jw_password :: "addr \<Rightarrow> string"
  jw_start :: "addr \<Rightarrow> int"
  jw_ms :: "addr \<Rightarrow> int"
  jw_threshold :: int

definition set_timed_out_of_job_generation :: "int \<Rightarrow> jobs_param \<Rightarrow> jobs_param" where
  "set_timed_out_of_job_generation t jp = jp\<lparr>jp_time_out_time := t, jp_timed_out := True\<rparr>"

definition check_for_job_generation_timeout :: "int \<Rightarrow> jobs_param \<Rightarrow> bool \<times> jobs_param" where
  "check_for_job_generation_timeout start_time jp =
     (if jp_timed_out jp then (True, jp)
      else case jp_next_poll_time jp of
             Some t \<Rightarrow> if start_time \<ge> t then (True, set_timed_out_of_job_generation start_time jp) else (False, jp)
           | None \<Rightarrow> (False, jp))"

definition add_error :: "string \<Rightarrow> jobs_param \<Rightarrow> jobs_param" where
  "add_error msg jp = jp\<lparr>jp_errorMsg := jp_errorMsg jp @ msg\<rparr>"

definition push_back_submittable :: "addr \<Rightarrow> jobs_param \<Rightarrow> jobs_param" where
  "push_back_submittable p jp = jp\<lparr>jp_submitted := jp_submitted jp @ [p]\<rparr>"

section \<open>\<open>Node::resolveDependencies\<close>\<close>

text \<open>\<open>completeAst()\<close> and \<open>triggerAst()\<close>: the tree is made on demand; what is made is a function of the parts.\<close>

definition expr_tree :: "job_world \<Rightarrow> string \<Rightarrow> expression option \<Rightarrow> ast_top option res" where
  "expr_tree w exprType x =
     (case x of
        None \<Rightarrow> Inr None
      | Some ex \<Rightarrow>
          (case ex_ast ex of
             Some t \<Rightarrow> Inr (Some t)
           | None \<Rightarrow> res_bind (createAST (jw_parse w) exprType ex) (\<lambda>ex1. Inr (ex_ast ex1))))"

text \<open>\<open>isFree() || ast->evaluate()\<close>.\<close>

definition expr_holds :: "server \<Rightarrow> addr \<Rightarrow> expression option \<Rightarrow> ast_top \<Rightarrow> bool res" where
  "expr_holds s p x t = (if pred_option ex_free x \<and> x \<noteq> None then Inr True else AstTop_evaluate (sv_defs s) p t)"

definition evaluateComplete :: "job_world \<Rightarrow> server \<Rightarrow> addr \<Rightarrow> node \<Rightarrow> bool res" where
  "evaluateComplete w s p n =
     res_bind (expr_tree w ''complete'' (nd_complete (ndata n))) (\<lambda>ast.
       case ast of
         None \<Rightarrow> Inr True
       | Some t \<Rightarrow>
           res_bind (expr_holds s p (nd_complete (ndata n)) t) (\<lambda>b.
             Inr (if b then computedState_hierarchical n = NS_QUEUED else False)))"

definition evaluateTrigger :: "job_world \<Rightarrow> server \<Rightarrow> addr \<Rightarrow> node \<Rightarrow> bool res" where
  "evaluateTrigger w s p n =
     res_bind (expr_tree w ''trigger'' (nd_trigger (ndata n))) (\<lambda>ast.
       case ast of None \<Rightarrow> Inr True | Some t \<Rightarrow> expr_holds s p (nd_trigger (ndata n)) t)"

definition flag_set :: "Flag_Type \<Rightarrow> node_data \<Rightarrow> ecf \<Rightarrow> node_data \<times> ecf" where
  "flag_set t nd g = (let (f, g') = Flag_set t (nd_flag nd) g in (nd\<lparr>nd_flag := f\<rparr>, g'))"

definition flag_clear :: "Flag_Type \<Rightarrow> node_data \<Rightarrow> ecf \<Rightarrow> node_data \<times> ecf" where
  "flag_clear t nd g = (let (f, g') = Flag_clear t (nd_flag nd) g in (nd\<lparr>nd_flag := f\<rparr>, g'))"

abbreviation change :: "addr \<Rightarrow> (node_data \<Rightarrow> ecf \<Rightarrow> node_data \<times> ecf) \<Rightarrow> server \<Rightarrow> server run" where
  "change p f s \<equiv> on_data p (\<lambda>nd g. run_ret (f nd g)) s"

definition Node_resolveDependencies :: "job_world \<Rightarrow> env \<Rightarrow> addr \<Rightarrow> server \<Rightarrow> (bool \<times> server) run" where
  "Node_resolveDependencies w e p s =
     (case node_at (sv_suites s) p of
        None \<Rightarrow> Some (Inl (Undefined_behaviour ''Node*''))
      | Some n \<Rightarrow>
          if Flag_is_set FL_ARCHIVED (nd_flag (ndata n)) then run_ret (False, s)
          else if nd_suspended (ndata n) then run_ret (False, s)
          else if node_state n = NS_COMPLETE then run_ret (False, s)
          else run_bind (timeDependenciesFree (en_greg e) (suite_cal (sv_defs s) p) (nd_time (ndata n))) (\<lambda>free.
            if \<not> free then run_ret (False, s)
            else run_bind (Some (evaluateComplete w s p n)) (\<lambda>c.
            run_bind (Some (expr_tree w ''complete'' (nd_complete (ndata n)))) (\<lambda>ast.
              if c \<and> ast \<noteq> None
              then run_bind (change p (flag_set FL_BYRULE) s) (\<lambda>s1.
                   run_bind (set_state_hierarchically e p NS_COMPLETE False s1) (\<lambda>s2. run_ret (False, s2)))
              else run_bind (Some (evaluateTrigger w s p n)) (\<lambda>t. run_ret (t, s))))))"

section \<open>Job submission\<close>

definition requeue_labels :: "node_data \<Rightarrow> ecf \<Rightarrow> node_data \<times> ecf" where
  "requeue_labels nd g =
     (let (ls, g') = fold (\<lambda>l (ls, g). let (l1, g1) = Label_reset l g in (ls @ [l1], g1)) (nd_labels nd) ([], g)
      in (nd\<lparr>nd_labels := ls\<rparr>, g'))"

text \<open>\<open>createChildProcess\<close>: \<open>jw_spawn\<close> is the answer of the operating system with the error text.\<close>

definition createChildProcess :: "job_world \<Rightarrow> addr \<Rightarrow> jobs_param \<Rightarrow> server \<Rightarrow> (bool \<times> jobs_param) run" where
  "createChildProcess w p jp s =
     (case findParentUserVariableValue (jw_server w) (sv_defs s) p ''ECF_JOB_CMD'' of
        None \<Rightarrow> run_ret (False, add_error ''Submittable::createChildProcess: Could not find ECF_JOB_CMD : '' jp)
      | Some cmd \<Rightarrow>
          if cmd = []
          then run_ret (False, add_error ''Submittable::createChildProcess: Could not find ECF_JOB_CMD : '' jp)
          else run_bind (run_option (variableSubsitution (jw_server w) (sv_defs s) p cmd)) (\<lambda>(ok, cmd1).
            if \<not> ok
            then run_ret (False, add_error (''Submittable::createChildProcess: Variable substitution failed for ECF_JOB_CMD('' @
                                             cmd1 @ '') :'') jp)
            else let jp1 = push_back_submittable p jp
                 in if jp_spawnJobs jp1
                    then let (b, msg) = jw_spawn w cmd1 p in run_ret (b, add_error msg jp1)
                    else run_ret (True, jp1)))"

definition job_cmd_failed :: "env \<Rightarrow> addr \<Rightarrow> jobs_param \<Rightarrow> server \<Rightarrow> (bool \<times> jobs_param \<times> server) run" where
  "job_cmd_failed e p jp s =
     (let reason = '' Job creation failed for task '' @ absNodePath (sv_defs s) p @ '' could not create child process.''
      in run_bind (change p (flag_set FL_JOBCMD_FAILED) s) (\<lambda>s1.
         run_bind (set_aborted_only e reason p s1) (\<lambda>s2. run_ret (False, add_error reason jp, s2))))"

text \<open>The end of both ways of submission.\<close>

definition start_job :: "job_world \<Rightarrow> env \<Rightarrow> addr \<Rightarrow> jobs_param \<Rightarrow> server \<Rightarrow> (bool \<times> jobs_param \<times> server) run" where
  "start_job w e p jp s =
     run_bind (createChildProcess w p jp s) (\<lambda>(started, jp1).
       if started then run_bind (set_state e p NS_SUBMITTED s) (\<lambda>s1. run_ret (True, jp1, s1))
       else job_cmd_failed e p jp1 s)"

abbreviation newline :: string where "newline \<equiv> [CHR 0x0A]"

definition script_based_job_submission ::
    "job_world \<Rightarrow> env \<Rightarrow> addr \<Rightarrow> jobs_param \<Rightarrow> server \<Rightarrow> (bool \<times> jobs_param \<times> server) run" where
  "script_based_job_submission w e p jp s =
     (case jw_make w s p of
        Script_missing msg \<Rightarrow>
          run_bind (change p (flag_set FL_NO_SCRIPT) s) (\<lambda>s1.
          run_bind (set_aborted_only e msg p s1) (\<lambda>s2.
            run_ret (False, add_error (''Submittable::submit_job_only: Script location failed for task '' @
                                       absNodePath (sv_defs s) p @ '' :'' @ newline @ msg @ newline) jp, s2)))
      | Job_failed msg \<Rightarrow>
          let reason = ''Submittable::submit_job_only: Job creation failed for task '' @ absNodePath (sv_defs s) p @ '' : '' @
                       newline @ ''   '' @ msg @ newline
          in run_bind (change p (flag_set FL_EDIT_FAILED) s) (\<lambda>s1.
             run_bind (set_aborted_only e reason p s1) (\<lambda>s2. run_ret (False, add_error reason jp, s2)))
      | Job_made \<Rightarrow> start_job w e p jp s)"

definition clear_job_flags :: "node_data \<Rightarrow> ecf \<Rightarrow> node_data \<times> ecf" where
  "clear_job_flags nd g =
     fold (\<lambda>t (nd, g). flag_clear t nd g)
       [FL_NO_SCRIPT, FL_EDIT_FAILED, FL_JOBCMD_FAILED, FL_KILLCMD_FAILED, FL_STATUSCMD_FAILED, FL_KILLED, FL_STATUS] (nd, g)"

definition submit_job_only :: "job_world \<Rightarrow> env \<Rightarrow> addr \<Rightarrow> jobs_param \<Rightarrow> server \<Rightarrow> (bool \<times> jobs_param \<times> server) run" where
  "submit_job_only w e p jp s =
     (case node_at (sv_suites s) p of
        None \<Rightarrow> Some (Inl (Undefined_behaviour ''Node*''))
      | Some n \<Rightarrow>
          if node_state n = NS_ACTIVE \<or> node_state n = NS_SUBMITTED
          then run_bind (change p (flag_set FL_EDIT_FAILED) s) (\<lambda>s1.
               run_ret (False, add_error (''Submittable::submit_job_only: failed: Submittable '' @ absNodePath (sv_defs s) p @
                                          '' is already '' @ NState_toString (node_state n) @ '' : '') jp, s1))
          else if findParentUserVariableValue (jw_server w) (sv_defs s) p ''ECF_DUMMY_TASK'' \<noteq> None
          then run_ret (True, jp, s)
          else run_bind (change p clear_job_flags s) (\<lambda>s1.
               run_bind (change p requeue_labels s1) (\<lambda>s2.
                 if findParentUserVariableValue (jw_server w) (sv_defs s2) p ''ECF_NO_SCRIPT'' \<noteq> None
                 then start_job w e p jp s2
                 else script_based_job_submission w e p jp s2)))"

section \<open>\<open>Task::resolveDependencies\<close>\<close>

text \<open>The tests of the state: a task is submitted when it is queued, or aborted with tries left.\<close>

definition tries_left :: "job_world \<Rightarrow> server \<Rightarrow> addr \<Rightarrow> node_data \<Rightarrow> bool" where
  "tries_left w s p nd =
     (case findParentUserVariableValue (jw_server w) (sv_defs s) p ''ECF_TRIES'' of
        None \<Rightarrow> True
      | Some v \<Rightarrow> (case lexical_cast_int v of None \<Rightarrow> False | Some ecf_tries \<Rightarrow> \<not> jb_tryNo (nd_job nd) \<ge> ecf_tries))"

definition state_allows :: "job_world \<Rightarrow> server \<Rightarrow> addr \<Rightarrow> node_data \<Rightarrow> bool" where
  "state_allows w s p nd =
     (if ns_st (nd_st nd) \<in> {NS_COMPLETE, NS_ACTIVE, NS_SUBMITTED, NS_UNKNOWN} then False
      else if ns_st (nd_st nd) = NS_ABORTED \<and>
              (list_ex (\<lambda>t. Flag_is_set t (nd_flag nd))
                 [FL_FORCE_ABORT, FL_KILLED, FL_EDIT_FAILED, FL_NO_SCRIPT, FL_JOBCMD_FAILED] \<or> \<not> tries_left w s p nd)
      then False
      else \<not> Flag_is_set FL_FORCE_ABORT (nd_flag nd))"

definition Node_checkForLateness :: "calendar \<Rightarrow> node_data \<Rightarrow> ecf \<Rightarrow> node_data \<times> ecf" where
  "Node_checkForLateness c nd g =
     (case nd_late nd of
        None \<Rightarrow> (nd, g)
      | Some l \<Rightarrow>
          if check_for_lateness (ns_st (nd_st nd), nd_st_time nd) c l
          then let (l1, g1) = setLate True l g in flag_set FL_LATE (nd\<lparr>nd_late := Some l1\<rparr>) g1
          else (nd, g))"

definition in_limits_up :: "server \<Rightarrow> addr \<Rightarrow> bool" where
  "in_limits_up s p =
     check_in_limit_up_node_tree (InLimitMgr_find_limit (sv_defs s)) (sv_world s) (map (lim_node_at (sv_defs s)) (up_addrs p))"

text \<open>The part after the tests of the state. Without job creation the submission is simulated.\<close>

definition submit_task :: "job_world \<Rightarrow> env \<Rightarrow> addr \<Rightarrow> jobs_param \<Rightarrow> server \<Rightarrow> (bool \<times> jobs_param \<times> server) run" where
  "submit_task w e p jp s =
     run_bind (change p (increment_try_no (jw_password w p)) s) (\<lambda>s1.
       if jp_createJobs jp
       then run_bind (submit_job_only w e p jp s1) (\<lambda>(_, jp2, s2). run_ret (True, jp2, s2))
       else run_bind (set_state e p NS_SUBMITTED s1) (\<lambda>s2.
            run_bind (Submittable_init e ''_RID_'' p s2) (\<lambda>s3.
              run_ret (True, push_back_submittable p jp, s3))))"

definition task_body :: "job_world \<Rightarrow> env \<Rightarrow> addr \<Rightarrow> jobs_param \<Rightarrow> server \<Rightarrow> (bool \<times> jobs_param \<times> server) run" where
  "task_body w e p jp s =
     (case node_at (sv_suites s) p of
        None \<Rightarrow> Some (Inl (Undefined_behaviour ''Node*''))
      | Some n \<Rightarrow>
          if \<not> state_allows w s p (ndata n) then run_ret (False, jp, s)
          else run_bind (change p (Node_checkForLateness (suite_cal (sv_defs s) p)) s) (\<lambda>s1.
               run_bind (Node_resolveDependencies w e p s1) (\<lambda>(free, s2).
                 if \<not> free then run_ret (False, jp, s2)
                 else if \<not> in_limits_up s2 p then run_ret (False, jp, s2)
                 else submit_task w e p jp s2)))"

text \<open>\<open>JobProfiler\<close>: its constructor may time out, its destructor flags a task that took too long.\<close>

definition JobProfiler_end :: "job_world \<Rightarrow> addr \<Rightarrow> jobs_param \<Rightarrow> server \<Rightarrow> server run" where
  "JobProfiler_end w p jp s =
     (if jp_submitJobsInterval jp < 0 \<or> jw_ms w p > jw_threshold w then change p (flag_set FL_THRESHOLD) s else run_ret s)"

definition Task_resolveDependencies ::
    "job_world \<Rightarrow> env \<Rightarrow> addr \<Rightarrow> jobs_param \<times> server \<Rightarrow> (jobs_param \<times> server) run" where
  "Task_resolveDependencies w e p a =
     (let (jp, s) = a
      in if jp_timed_out jp then run_ret (jp, s)
         else let jp1 = snd (check_for_job_generation_timeout (jw_start w p) jp)
              in run_bind (if jp_timed_out jp1 then run_ret (False, jp1, s) else task_body w e p jp1 s) (\<lambda>(_, jp2, s2).
                 run_bind (JobProfiler_end w p jp2 s2) (\<lambda>s3. run_ret (jp2, s3))))"

section \<open>The walk over the tree\<close>

definition check_in_limit :: "server \<Rightarrow> addr \<Rightarrow> bool" where
  "check_in_limit s p =
     (case node_at (sv_suites s) p of
        None \<Rightarrow> True
      | Some n \<Rightarrow> InLimitMgr_inLimit (InLimitMgr_find_limit (sv_defs s) p) (sv_world s) (nd_inlimits (ndata n)))"

definition suite_tick :: "env \<Rightarrow> node_data \<Rightarrow> ecf \<Rightarrow> node_data \<times> ecf" where
  "suite_tick e nd g =
     (nd\<lparr>nd_suite := (nd_suite nd)\<lparr>su_cal := Calendar_update_duration_only (en_now e) (su_cal (nd_suite nd)),
                                       su_calendar_change_no := ecf_state_change_no g + 1\<rparr>\<rparr>, g)"

text \<open>What a suite does first; the result is whether the walk goes on below it.\<close>

definition suite_head :: "env \<Rightarrow> node_kind \<Rightarrow> addr \<Rightarrow> jobs_param \<times> server \<Rightarrow> (bool \<times> jobs_param \<times> server) run" where
  "suite_head e k p a =
     (let (jp, s) = a
      in if k \<noteq> K_Suite then run_ret (True, jp, s)
         else case node_at (sv_suites s) p of
           None \<Rightarrow> Some (Inl (Undefined_behaviour ''Suite*''))
         | Some n \<Rightarrow>
             if \<not> su_begun (nd_suite (ndata n)) then run_ret (False, jp, s)
             else run_bind (change p (suite_tick e) s) (\<lambda>s1.
                    let (late, jp1) = check_for_job_generation_timeout (en_now e) jp in run_ret (\<not> late, jp1, s1)))"

text \<open>\<open>resolveDependencies\<close> of the node at \<open>p\<close>; as for the requeue, the first argument fixes which nodes are visited. The
  result of the children is not used.\<close>

fun resolveDependencies :: "job_world \<Rightarrow> env \<Rightarrow> node \<Rightarrow> addr \<Rightarrow> jobs_param \<times> server \<Rightarrow> (jobs_param \<times> server) run"
  and resolve_children ::
    "job_world \<Rightarrow> env \<Rightarrow> node list \<Rightarrow> nat \<Rightarrow> addr \<Rightarrow> jobs_param \<times> server \<Rightarrow> (jobs_param \<times> server) run" where
  "resolveDependencies w e (Node nd ks) p a =
     (case nd_kind nd of
        K_Alias \<Rightarrow> run_ret a
      | K_Task \<Rightarrow> Task_resolveDependencies w e p a
      | k \<Rightarrow>
          run_bind (suite_head e k p a) (\<lambda>(go, jp1, s1).
            if \<not> go then run_ret (jp1, s1)
            else run_bind (Node_resolveDependencies w e p s1) (\<lambda>(free, s2).
                 if \<not> free then run_ret (jp1, s2)
                 else if \<not> check_in_limit s2 p then run_ret (jp1, s2)
                 else resolve_children w e ks 0 p (jp1, s2))))"
| "resolve_children w e [] i p a = run_ret a"
| "resolve_children w e (k # ks) i p a =
     run_bind (resolveDependencies w e k (p @ [i]) a) (resolve_children w e ks (Suc i) p)"

definition Jobs_generate :: "job_world \<Rightarrow> env \<Rightarrow> jobs_param \<Rightarrow> server \<Rightarrow> (bool \<times> jobs_param \<times> server) run" where
  "Jobs_generate w e jp s =
     run_bind (if sst_state (jw_server w) = SS_RUNNING then resolve_children w e (sv_suites s) 0 [] (jp, s) else run_ret (jp, s))
       (\<lambda>(jp1, s1). run_ret (jp_errorMsg jp1 = [], jp1, s1))"

text \<open>Jobs of one node, as for the command that runs it: nothing happens below a suspended node, or while the server is halted
  or shut down.\<close>

definition isParentSuspended :: "server_state \<Rightarrow> server \<Rightarrow> addr \<Rightarrow> bool" where
  "isParentSuspended sr s p \<longleftrightarrow>
     list_ex (\<lambda>q. case node_at (sv_suites s) q of None \<Rightarrow> False | Some n \<Rightarrow> nd_suspended (ndata n)) (tl (up_addrs p)) \<or>
     sst_state sr \<noteq> SS_RUNNING"

definition Jobs_generate_node :: "job_world \<Rightarrow> env \<Rightarrow> addr \<Rightarrow> jobs_param \<Rightarrow> server \<Rightarrow> (bool \<times> jobs_param \<times> server) run" where
  "Jobs_generate_node w e p jp s =
     run_bind (if isParentSuspended (jw_server w) s p then run_ret (jp, s)
               else case node_at (sv_suites s) p of
                      None \<Rightarrow> Some (Inl (Undefined_behaviour ''Node*''))
                    | Some n \<Rightarrow> resolveDependencies w e n p (jp, s))
       (\<lambda>(jp1, s1). run_ret (jp_errorMsg jp1 = [], jp1, s1))"

section \<open>Job generation keeps the tree consistent\<close>

text \<open>What the operations on the node at \<open>p\<close> need and keep.\<close>

definition ready_at :: "server \<Rightarrow> addr \<Rightarrow> bool" where
  "ready_at s p \<longleftrightarrow> server_ok s \<and> settled s \<and> kind_at s p \<notin> {None, Some K_Alias}"

lemma ready_atE:
  assumes "ready_at s p"
  obtains n where "node_at (sv_suites s) p = Some n" "nd_kind (ndata n) \<noteq> K_Alias" "server_ok s" "settled s" "data_ok (ndata n)"
proof -
  from assms obtain n where n: "node_at (sv_suites s) p = Some n" "nd_kind (ndata n) \<noteq> K_Alias" "server_ok s" "settled s"
    by (auto simp: ready_at_def kind_at_def)
  moreover have "data_ok (ndata n)"
    using all_data_node_at [OF _ n(1), of data_ok] all_data_sel [of data_ok n] n(3) by (auto simp: server_ok_def)
  ultimately show thesis by (rule that)
qed

lemma kind_at_keeps: "keeps s s' \<Longrightarrow> kind_at s' p = kind_at s p"
  by (simp add: kind_at_erase keeps_def del: map_map)

lemma ready_keeps: "ready_at s p \<Longrightarrow> keeps s s' \<Longrightarrow> settled s' \<Longrightarrow> ready_at s' p"
  using kind_at_keeps [of s s' p] keeps_ok [of s s'] by (simp add: ready_at_def)

lemma keeps_refl: "server_ok s \<Longrightarrow> keeps s s"
  by (simp add: keeps_def)

lemma ready_server: "ready_at s p \<Longrightarrow> keeps s s \<and> settled s"
  by (simp add: ready_at_def keeps_refl)

lemma change_ready:
  assumes "ready_at s p" "\<And>nd g. same_core nd (fst (f nd g))" "\<And>nd g. data_ok nd \<Longrightarrow> data_ok (fst (f nd g))"
  shows "\<exists>s'. change p f s = run_ret s' \<and> keeps s s' \<and> settled s'"
proof (rule ready_atE [OF assms(1)])
  fix n assume n: "node_at (sv_suites s) p = Some n" "server_ok s" "settled s"
  have "\<exists>s'. change p f s = run_ret s' \<and> keeps s s' \<and> settled s' = settled s \<and>
      sv_sys s' = (sv_sys s)\<lparr>ls_ecf := snd (f (ndata n) (ls_ecf (sv_sys s)))\<rparr> \<and>
      sv_suites s' = put_data (fst (f (ndata n) (ls_ecf (sv_sys s)))) (sv_suites s) p \<and> df_limits (sv_defs s') = df_limits (sv_defs s)"
    by (rule on_data_keeps [OF n(1,2) assms(2,3)])
  with n(3) show ?thesis by (elim exE) simp
qed

lemma set_state_ready:
  assumes "ready_at s p" "greg_weekly (en_greg e)"
  shows "\<exists>s'. set_state e p st s = run_ret s' \<and> keeps s s' \<and> settled s'"
    "\<exists>s'. set_aborted_only e reason p s = run_ret s' \<and> keeps s s' \<and> settled s'"
    "\<exists>s'. Submittable_init e rid p s = run_ret s' \<and> keeps s s' \<and> settled s'"
    "\<exists>s'. set_state_hierarchically e p st force s = run_ret s' \<and> keeps s s' \<and> settled s'"
proof -
  obtain n where n: "node_at (sv_suites s) p = Some n" "nd_kind (ndata n) \<noteq> K_Alias" "server_ok s" "settled s"
    using ready_atE [OF assms(1)] .
  note ok = n assms(2)
  show "\<exists>s'. set_state e p st s = run_ret s' \<and> keeps s s' \<and> settled s'" by (rule set_state_ok [OF ok])
  show "\<exists>s'. set_aborted_only e reason p s = run_ret s' \<and> keeps s s' \<and> settled s'" by (rule set_aborted_only_ok [OF ok])
  show "\<exists>s'. Submittable_init e rid p s = run_ret s' \<and> keeps s s' \<and> settled s'" by (rule Submittable_init_ok [OF ok])
  show "\<exists>s'. set_state_hierarchically e p st force s = run_ret s' \<and> keeps s s' \<and> settled s'"
    by (rule set_state_hierarchically_ok [OF ok])
qed

lemma core_refl [simp]: "same_core nd nd"
  by (simp add: same_core_def)

lemma flag_keeps [simp]:
  "same_core nd (fst (flag_set t nd g))" "data_ok (fst (flag_set t nd g)) = data_ok nd"
  "same_core nd (fst (flag_clear t nd g))" "data_ok (fst (flag_clear t nd g)) = data_ok nd"
  by (simp_all add: flag_set_def flag_clear_def same_core_def data_ok_def case_prod_beta)

lemma same_core_trans: "same_core a b \<Longrightarrow> same_core b c \<Longrightarrow> same_core a c"
  by (simp add: same_core_def)

lemma flags_keep:
  "same_core nd (fst (fold (\<lambda>t (nd, g). flag_clear t nd g) ts (nd, g))) \<and>
   data_ok (fst (fold (\<lambda>t (nd, g). flag_clear t nd g) ts (nd, g))) = data_ok nd"
proof (induction ts arbitrary: nd g)
  case (Cons t ts)
  obtain nd1 g1 where "flag_clear t nd g = (nd1, g1)" by fastforce
  with Cons [of nd1 g1] flag_keeps(3) [of nd t g] flag_keeps(4) [of t nd g] same_core_trans [of nd nd1] show ?case by simp
qed simp

lemma task_data_keeps:
  "same_core nd (fst (clear_job_flags nd g))" "data_ok (fst (clear_job_flags nd g)) = data_ok nd"
  unfolding clear_job_flags_def using flags_keep by blast+

lemma labels_keep:
  "same_core nd (fst (requeue_labels nd g))" "data_ok (fst (requeue_labels nd g)) = data_ok nd"
  by (simp_all add: requeue_labels_def same_core_def data_ok_def case_prod_beta)

lemma lateness_keeps:
  "same_core nd (fst (Node_checkForLateness c nd g))" "data_ok (fst (Node_checkForLateness c nd g)) = data_ok nd"
proof -
  have l: "same_core nd (nd\<lparr>nd_late := l\<rparr>)" "data_ok (nd\<lparr>nd_late := l\<rparr>) = data_ok nd" for l
    by (simp_all add: same_core_def data_ok_def)
  show "same_core nd (fst (Node_checkForLateness c nd g))" "data_ok (fst (Node_checkForLateness c nd g)) = data_ok nd"
    using same_core_trans [OF l(1) flag_keeps(1)] l(2)
    by (simp_all add: Node_checkForLateness_def case_prod_beta split: option.splits)
qed

lemma tick_keeps: "same_core nd (fst (suite_tick e nd g))" "data_ok (fst (suite_tick e nd g)) = data_ok nd"
proof -
  have "cal_hybrid (Calendar_update_duration_only t c) = cal_hybrid c" for t c
    by (simp add: Calendar_update_duration_only_def cal_hybrid_def split: option.splits)
  then show "same_core nd (fst (suite_tick e nd g))" "data_ok (fst (suite_tick e nd g)) = data_ok nd"
    by (simp_all add: suite_tick_def same_core_def hybrid_suite_def data_ok_def)
qed

text \<open>The trees of well-formed expressions evaluate.\<close>

lemma expr_ok_tree:
  assumes "expr_ok x"
  shows "\<exists>ast. expr_tree w ty x = Inr ast \<and> (\<forall>t. ast = Some t \<longrightarrow> (\<exists>b. expr_holds s p x t = Inr b))"
proof (cases x)
  case (Some ex)
  with assms obtain t a where t: "ex_ast ex = Some t" "at_root t = Some a" "has_truth a" "arith_free a"
    by (auto simp: expr_ok_def split: option.splits)
  with ast_evaluate_total [OF t(3,4), of "sv_defs s" p] show ?thesis using Some
    by (auto simp: expr_tree_def expr_holds_def AstTop_evaluate_def)
qed (simp add: expr_tree_def)

text \<open>A run that returns and leads from a consistent server to a consistent server; \<open>sv\<close> is the server in its result.\<close>

definition safe_run :: "('a \<Rightarrow> server) \<Rightarrow> server \<Rightarrow> 'a run \<Rightarrow> bool" where
  "safe_run sv s r \<longleftrightarrow> (\<exists>y. r = run_ret y \<and> keeps s (sv y) \<and> settled (sv y))"

abbreviation sv3 :: "bool \<times> jobs_param \<times> server \<Rightarrow> server" where "sv3 y \<equiv> snd (snd y)"

lemma safe_ret: "ready_at s p \<Longrightarrow> sv y = s \<Longrightarrow> safe_run sv s (run_ret y)"
  using ready_server [of s p] by (auto simp: safe_run_def)

lemma safe_bind:
  assumes "safe_run sv s r" "\<And>y. keeps s (sv y) \<Longrightarrow> settled (sv y) \<Longrightarrow> safe_run sv' (sv y) (f y)"
  shows "safe_run sv' s (run_bind r f)"
proof -
  obtain y where y: "r = run_ret y" "keeps s (sv y)" "settled (sv y)" using assms(1) by (auto simp: safe_run_def)
  with assms(2) [OF y(2,3)] keeps_trans [OF y(2)] show ?thesis by (auto simp: safe_run_def)
qed

text \<open>The rule for a sequence of steps on one node.\<close>

lemma safe_step:
  assumes "ready_at s p" "safe_run sv s r" "\<And>y. ready_at (sv y) p \<Longrightarrow> safe_run sv' (sv y) (f y)"
  shows "safe_run sv' s (run_bind r f)"
  by (rule safe_bind [OF assms(2)]) (rule assms(3) [OF ready_keeps [OF assms(1)]])

lemma safe_pure: "ready_at s p \<Longrightarrow> \<exists>x. r = run_ret x \<and> safe_run sv s (f x) \<Longrightarrow> safe_run sv s (run_bind r f)"
  by auto

lemma safe_change:
  "ready_at s p \<Longrightarrow> (\<And>nd g. same_core nd (fst (f nd g))) \<Longrightarrow> (\<And>nd g. data_ok nd \<Longrightarrow> data_ok (fst (f nd g))) \<Longrightarrow> safe_run (\<lambda>s. s) s (change p f s)"
  using change_ready by (simp only: safe_run_def)

lemma safe_set_state:
  assumes "ready_at s p" "greg_weekly (en_greg e)"
  shows "safe_run (\<lambda>s. s) s (set_state e p st s)" "safe_run (\<lambda>s. s) s (set_aborted_only e reason p s)"
    "safe_run (\<lambda>s. s) s (Submittable_init e rid p s)" "safe_run (\<lambda>s. s) s (set_state_hierarchically e p st force s)"
  using set_state_ready [OF assms] by (simp_all only: safe_run_def)

lemma safe_flag: "ready_at s p \<Longrightarrow> safe_run (\<lambda>s. s) s (change p (flag_set t) s)"
  by (rule safe_change) simp_all

lemma safe_Node_resolve:
  assumes r: "ready_at s p" and e: "greg_weekly (en_greg e)"
  shows "safe_run snd s (Node_resolveDependencies w e p s)"
proof (rule ready_atE [OF r])
  fix n assume n: "node_at (sv_suites s) p = Some n" and d: "data_ok (ndata n)"
  have ret: "safe_run snd s (run_ret (b, s))" for b :: bool by (rule safe_ret [OF r]) simp
  have t: "timeDependenciesFree (en_greg e) (suite_cal (sv_defs s) p) (nd_time (ndata n)) =
      run_ret (time_free_spec (en_greg e) (suite_cal (sv_defs s) p) (nd_time (ndata n)))"
    using d by (intro timeDependenciesFree_eq) (simp add: data_ok_def)
  obtain ca where c: "expr_tree w ''complete'' (nd_complete (ndata n)) = Inr ca"
      "\<And>t. ca = Some t \<Longrightarrow> \<exists>b. expr_holds s p (nd_complete (ndata n)) t = Inr b"
    using expr_ok_tree [of "nd_complete (ndata n)" w "''complete''" s p] d by (auto simp: data_ok_def)
  obtain ta where tr: "expr_tree w ''trigger'' (nd_trigger (ndata n)) = Inr ta"
      "\<And>t. ta = Some t \<Longrightarrow> \<exists>b. expr_holds s p (nd_trigger (ndata n)) t = Inr b"
    using expr_ok_tree [of "nd_trigger (ndata n)" w "''trigger''" s p] d by (auto simp: data_ok_def)
  obtain cb where cb: "evaluateComplete w s p n = Inr cb" using c by (cases ca) (auto simp: evaluateComplete_def)
  obtain tb where tb: "evaluateTrigger w s p n = Inr tb" using tr by (cases ta) (auto simp: evaluateTrigger_def)
  have byrule: "safe_run snd s (run_bind (change p (flag_set FL_BYRULE) s) (\<lambda>s1.
      run_bind (set_state_hierarchically e p NS_COMPLETE False s1) (\<lambda>s2. run_ret (False, s2))))"
    by (rule safe_step [OF r safe_flag [OF r]], rule safe_step, assumption, rule safe_set_state(4) [OF _ e], assumption)
      (rule safe_ret, assumption, simp)
  show ?thesis
    unfolding Node_resolveDependencies_def n option.case
    using ret byrule by (simp add: t cb tb c(1))
qed

lemma createChildProcess_returns: "\<exists>b jp1. createChildProcess w p jp s = run_ret (b, jp1)"
proof -
  have "\<exists>ok cmd1. run_option (variableSubsitution (jw_server w) (sv_defs s) p cmd) = run_ret (ok, cmd1)" for cmd
    using variableSubsitution_returns [of "jw_server w" "sv_defs s" p cmd] by (auto simp: run_option_def)
  then obtain f where f: "\<And>cmd. \<exists>cmd1. run_option (variableSubsitution (jw_server w) (sv_defs s) p cmd) = run_ret (f cmd, cmd1)"
    by metis
  then obtain h where h: "\<And>cmd. run_option (variableSubsitution (jw_server w) (sv_defs s) p cmd) = run_ret (f cmd, h cmd)" by metis
  show ?thesis
    by (cases "findParentUserVariableValue (jw_server w) (sv_defs s) p ''ECF_JOB_CMD''")
      (simp_all add: createChildProcess_def h Let_def case_prod_beta ex_bool_eq)
qed

lemma safe_job_cmd_failed: "ready_at s p \<Longrightarrow> greg_weekly (en_greg e) \<Longrightarrow> safe_run sv3 s (job_cmd_failed e p jp s)"
  unfolding job_cmd_failed_def Let_def
  by (rule safe_step [OF _ safe_flag], assumption+, rule safe_step [OF _ safe_set_state(2)], assumption+) (rule safe_ret, assumption, simp)

lemma safe_start_job: "ready_at s p \<Longrightarrow> greg_weekly (en_greg e) \<Longrightarrow> safe_run sv3 s (start_job w e p jp s)"
proof -
  assume r: "ready_at s p" and e: "greg_weekly (en_greg e)"
  obtain b jp1 where c: "createChildProcess w p jp s = run_ret (b, jp1)" using createChildProcess_returns by blast
  have "safe_run sv3 s (run_bind (set_state e p NS_SUBMITTED s) (\<lambda>s1. run_ret (True, jp1, s1)))"
    by (rule safe_step [OF r safe_set_state(1) [OF r e]], rule safe_ret, assumption, simp)
  with safe_job_cmd_failed [OF r e] show ?thesis by (simp add: start_job_def c)
qed

lemma safe_script_based:
  assumes r: "ready_at s p" and e: "greg_weekly (en_greg e)"
  shows "safe_run sv3 s (script_based_job_submission w e p jp s)"
proof -
  have "safe_run sv3 s (run_bind (change p (flag_set t) s) (\<lambda>s1. run_bind (set_aborted_only e reason p s1) (\<lambda>s2. run_ret (False, jp1, s2))))"
    for t reason jp1
    by (rule safe_step [OF r safe_flag [OF r]], rule safe_step [OF _ safe_set_state(2)], assumption+, rule e) (rule safe_ret, assumption, simp)
  with safe_start_job [OF r e] show ?thesis by (simp add: script_based_job_submission_def Let_def split: job_outcome.split)
qed

lemma safe_submit_job_only:
  assumes r: "ready_at s p" and e: "greg_weekly (en_greg e)"
  shows "safe_run sv3 s (submit_job_only w e p jp s)"
proof (rule ready_atE [OF r])
  fix n assume n: "node_at (sv_suites s) p = Some n"
  have a: "safe_run sv3 s (run_bind (change p (flag_set FL_EDIT_FAILED) s) (\<lambda>s1. run_ret (False, jp1, s1)))" for jp1
    by (rule safe_step [OF r safe_flag [OF r]], rule safe_ret, assumption, simp)
  have b: "safe_run sv3 s (run_ret (True, jp, s))" by (rule safe_ret [OF r]) simp
  have sub: "safe_run sv3 s2 (if c then start_job w e p jp s2 else script_based_job_submission w e p jp s2)" if "ready_at s2 p" for s2 c
    using safe_start_job [OF that e] safe_script_based [OF that e] by simp
  have c: "safe_run sv3 s (run_bind (change p clear_job_flags s) (\<lambda>s1. run_bind (change p requeue_labels s1) (\<lambda>s2.
      if findParentUserVariableValue (jw_server w) (sv_defs s2) p ''ECF_NO_SCRIPT'' \<noteq> None
      then start_job w e p jp s2 else script_based_job_submission w e p jp s2)))"
    by (rule safe_step [OF r safe_change [OF r]], simp_all only: task_data_keeps, rule safe_step [OF _ safe_change], assumption+,
        simp_all only: labels_keep) (rule sub)
  show ?thesis
    unfolding submit_job_only_def n option.case using a b c by (simp only: if_split) blast
qed

lemma safe_submit_task:
  assumes r: "ready_at s p" and e: "greg_weekly (en_greg e)"
  shows "safe_run sv3 s (submit_task w e p jp s)"
proof -
  have a: "safe_run sv3 s1 (run_bind (submit_job_only w e p jp s1) (\<lambda>(_, jp2, s2). run_ret (True, jp2, s2)))" if "ready_at s1 p" for s1
    unfolding case_prod_beta by (rule safe_step [OF that safe_submit_job_only [OF that e]], rule safe_ret, assumption) simp
  have b: "safe_run sv3 s1 (run_bind (set_state e p NS_SUBMITTED s1) (\<lambda>s2.
            run_bind (Submittable_init e ''_RID_'' p s2) (\<lambda>s3. run_ret (True, push_back_submittable p jp, s3))))" if "ready_at s1 p" for s1
    by (rule safe_step [OF that safe_set_state(1) [OF that e]], rule safe_step [OF _ safe_set_state(3)], assumption+, rule e)
      (rule safe_ret, assumption, simp)
  show ?thesis
    unfolding submit_task_def
    by (rule safe_step [OF r safe_change [OF r]], simp_all only: job_data_keeps) (use a b in \<open>simp split: if_split\<close>)
qed

lemma safe_task_body:
  assumes r: "ready_at s p" and e: "greg_weekly (en_greg e)"
  shows "safe_run sv3 s (task_body w e p jp s)"
proof (rule ready_atE [OF r])
  fix n assume n: "node_at (sv_suites s) p = Some n"
  have held: "safe_run sv3 s1 (run_ret (False, jp, s1))" if "ready_at s1 p" for s1 by (rule safe_ret [OF that]) simp
  have tail: "safe_run sv3 s1 (run_bind (Node_resolveDependencies w e p s1) (\<lambda>y. if \<not> fst y then run_ret (False, jp, snd y)
        else if \<not> in_limits_up (snd y) p then run_ret (False, jp, snd y) else submit_task w e p jp (snd y)))" if "ready_at s1 p" for s1
    by (rule safe_step [OF that safe_Node_resolve [OF that e]]) (use held safe_submit_task [OF _ e] in simp)
  have "safe_run sv3 s (run_bind (change p (Node_checkForLateness (suite_cal (sv_defs s) p)) s) (\<lambda>s1.
      run_bind (Node_resolveDependencies w e p s1) (\<lambda>y. if \<not> fst y then run_ret (False, jp, snd y)
        else if \<not> in_limits_up (snd y) p then run_ret (False, jp, snd y) else submit_task w e p jp (snd y))))"
    by (rule safe_step [OF r safe_change [OF r]], simp_all only: lateness_keeps) (rule tail)
  with held [OF r] show ?thesis by (simp add: task_body_def n case_prod_beta')
qed

lemma safe_Task_resolve:
  assumes r: "ready_at s p" and e: "greg_weekly (en_greg e)"
  shows "safe_run snd s (Task_resolveDependencies w e p (jp, s))"
proof -
  have ret: "safe_run snd s1 (run_ret (jp1, s1))" if "ready_at s1 p" for s1 and jp1 :: jobs_param by (rule safe_ret [OF that]) simp
  have fin: "safe_run snd s1 (run_bind (JobProfiler_end w p jp1 s1) (\<lambda>s3. run_ret (jp1, s3)))" if "ready_at s1 p" for s1 jp1
  proof (rule safe_step [OF that])
    show "safe_run (\<lambda>s. s) s1 (JobProfiler_end w p jp1 s1)"
      using safe_flag [OF that] safe_ret [OF that, of "\<lambda>s. s" s1] by (simp add: JobProfiler_end_def)
  qed (rule ret)
  have body: "safe_run sv3 s (if b then run_ret (False, jp1, s) else task_body w e p jp1 s)" for b jp1
    using safe_task_body [OF r e] safe_ret [OF r, of sv3 "(False, jp1, s)"] by simp
  have "safe_run snd s (run_bind (if b then run_ret (False, jp1, s) else task_body w e p jp1 s)
      (\<lambda>y. run_bind (JobProfiler_end w p (fst (snd y)) (sv3 y)) (\<lambda>s3. run_ret (fst (snd y), s3))))" for b jp1
    by (rule safe_step [OF r body]) (rule fin)
  with ret [OF r] show ?thesis unfolding Task_resolveDependencies_def Let_def case_prod_beta' by (simp only: if_split fst_conv snd_conv) blast
qed

lemma safe_suite_head: "ready_at s p \<Longrightarrow> safe_run sv3 s (suite_head e k p (jp, s))"
proof -
  assume r: "ready_at s p"
  have ret: "safe_run sv3 s1 (run_ret (b, jp1, s1))" if "ready_at s1 p" for s1 and jp1 :: jobs_param and b by (rule safe_ret [OF that]) simp
  have "safe_run sv3 s (run_bind (change p (suite_tick e) s) (\<lambda>s1. run_ret (b, jp1, s1)))" for b jp1
    by (rule safe_step [OF r safe_change [OF r]], simp_all only: tick_keeps) (rule ret)
  with ret [OF r] show ?thesis by (rule_tac ready_atE [OF r]) (simp add: suite_head_def case_prod_beta' Let_def)
qed

text \<open>The nodes that the walk visits are those of the tree.\<close>

fun placed :: "server \<Rightarrow> node \<Rightarrow> addr \<Rightarrow> bool" and placed_children :: "server \<Rightarrow> node list \<Rightarrow> nat \<Rightarrow> addr \<Rightarrow> bool" where
  "placed s (Node nd ks) p \<longleftrightarrow> kind_at s p = Some (nd_kind nd) \<and> placed_children s ks 0 p"
| "placed_children s [] i p \<longleftrightarrow> True"
| "placed_children s (k # ks) i p \<longleftrightarrow> placed s k (p @ [i]) \<and> placed_children s ks (Suc i) p"

lemma placed_nodes:
  "node_at (sv_suites s) p = Some n \<Longrightarrow> p \<noteq> [] \<Longrightarrow> placed s n p"
  "(\<And>j. j < length ks \<Longrightarrow> node_at (sv_suites s) (p @ [i + j]) = Some (ks ! j)) \<Longrightarrow> placed_children s ks i p"
proof (induction s n p and s ks i p rule: placed_placed_children.induct)
  case (1 s nd ks p)
  have "node_at (sv_suites s) (p @ [0 + j]) = Some (ks ! j)" if "j < length ks" for j
    using node_at_append [OF "1.prems"(1), of "[j]"] that by simp
  with 1 show ?case by (simp add: kind_at_def)
next
  case (3 s k ks i p)
  have "node_at (sv_suites s) (p @ [Suc i + j]) = Some (ks ! j)" if "j < length ks" for j
    using "3.prems"(1) [of "Suc j"] that by simp
  with "3.IH" "3.prems"(1) [of 0] show ?case by simp
qed simp

lemma safe_resolve_container:
  assumes r: "ready_at s p" and e: "greg_weekly (en_greg e)"
    and kids: "\<And>jp1 s2. keeps s s2 \<Longrightarrow> settled s2 \<Longrightarrow> safe_run snd s2 (resolve_children w e ks 0 p (jp1, s2))"
  shows "safe_run snd s (run_bind (suite_head e k p (jp, s)) (\<lambda>(go, jp1, s1).
            if \<not> go then run_ret (jp1, s1)
            else run_bind (Node_resolveDependencies w e p s1) (\<lambda>(free, s2).
                 if \<not> free then run_ret (jp1, s2)
                 else if \<not> check_in_limit s2 p then run_ret (jp1, s2)
                 else resolve_children w e ks 0 p (jp1, s2))))"
    (is "safe_run snd s (run_bind _ ?rest)")
proof (rule safe_bind [OF safe_suite_head [OF r]])
  fix y :: "bool \<times> jobs_param \<times> server"
  obtain go jp1 s1 where y: "y = (go, jp1, s1)" by (rule prod_cases3)
  assume "keeps s (sv3 y)" "settled (sv3 y)"
  with y have k1: "keeps s s1" "settled s1" by simp_all
  have r1: "ready_at s1 p" by (rule ready_keeps [OF r k1])
  have held: "safe_run snd s2 (run_ret (jp1, s2))" if "ready_at s2 p" for s2 by (rule safe_ret [OF that]) simp
  have "safe_run snd s1 (run_bind (Node_resolveDependencies w e p s1) (\<lambda>y. if \<not> fst y then run_ret (jp1, snd y)
      else if \<not> check_in_limit (snd y) p then run_ret (jp1, snd y) else resolve_children w e ks 0 p (jp1, snd y)))"
  proof (rule safe_bind [OF safe_Node_resolve [OF r1 e]])
    fix y :: "bool \<times> server" assume k2: "keeps s1 (snd y)" "settled (snd y)"
    then show "safe_run snd (snd y) (if \<not> fst y then run_ret (jp1, snd y)
      else if \<not> check_in_limit (snd y) p then run_ret (jp1, snd y) else resolve_children w e ks 0 p (jp1, snd y))"
      using held [OF ready_keeps [OF r1 k2]] kids [OF keeps_trans [OF k1(1) k2(1)] k2(2)] by simp
  qed
  with held [OF r1] show "safe_run snd (sv3 y) (?rest y)" unfolding y prod.case case_prod_beta' fst_conv snd_conv by simp
qed

lemma safe_resolve:
  "placed s0 n p \<Longrightarrow> greg_weekly (en_greg e) \<Longrightarrow> keeps s0 (snd a) \<Longrightarrow> settled (snd a) \<Longrightarrow>
     safe_run snd (snd a) (resolveDependencies w e n p a)"
  "placed_children s0 ks i p \<Longrightarrow> greg_weekly (en_greg e) \<Longrightarrow> keeps s0 (snd a) \<Longrightarrow> settled (snd a) \<Longrightarrow>
     safe_run snd (snd a) (resolve_children w e ks i p a)"
proof (induction s0 n p and s0 ks i p arbitrary: a and a rule: placed_placed_children.induct)
  case (1 s0 nd ks p)
  obtain jp s where a: "a = (jp, s)" by fastforce
  then have s: "keeps s0 s" "server_ok s" "settled s" using "1.prems" keeps_ok by auto
  show ?case
  proof (cases "nd_kind nd = K_Alias")
    case True
    with s show ?thesis by (simp add: a safe_run_def keeps_refl)
  next
    case False
    have r: "ready_at s p" using "1.prems"(1) s kind_at_keeps [OF s(1), of p] False by (simp add: ready_at_def)
    have kids: "safe_run snd s2 (resolve_children w e ks 0 p (jp1, s2))" if "keeps s s2" "settled s2" for jp1 s2
      using "1.IH" [of "(jp1, s2)"] "1.prems"(1,2) keeps_trans [OF s(1) that(1)] that(2) by simp
    show ?thesis
      using safe_Task_resolve [OF r "1.prems"(2)] safe_resolve_container [OF r "1.prems"(2) kids] False
      by (cases "nd_kind nd") (simp_all add: a)
  qed
next
  case (2 s0 i p)
  then show ?case using keeps_ok by (auto simp: safe_run_def keeps_refl)
next
  case (3 s0 k ks i p)
  have "safe_run snd (snd a) (resolveDependencies w e k (p @ [i]) a)" using 3 by simp
  then show ?case unfolding resolve_children.simps
  proof (rule safe_bind)
    fix y :: "jobs_param \<times> server" assume y: "keeps (snd a) (snd y)" "settled (snd y)"
    show "safe_run snd (snd y) (resolve_children w e ks (Suc i) p y)"
      by (rule "3.IH"(2)) (use y "3.prems" keeps_trans [OF _ y(1)] in auto)
  qed
qed

section \<open>The outcome of a submission\<close>

definition task_at :: "server \<Rightarrow> addr \<Rightarrow> bool" where
  "task_at s p \<longleftrightarrow> ready_at s p \<and> kind_at s p = Some K_Task \<and> below_containers (skels s) p"

definition submit_outcome :: "addr \<Rightarrow> (bool \<times> jobs_param \<times> server) run \<Rightarrow> bool" where
  "submit_outcome p r \<longleftrightarrow>
     (\<exists>ok jp s. r = run_ret (ok, jp, s) \<and> map_option ss (st_at (skels s) p) = Some (if ok then NS_SUBMITTED else NS_ABORTED))"

lemma task_keeps: "task_at s p \<Longrightarrow> keeps s s' \<Longrightarrow> settled s' \<Longrightarrow> task_at s' p"
  using ready_keeps [of s p s'] kind_at_keeps [of s s' p] below_containers_erase [of "skels s" p] below_containers_erase [of "skels s'" p]
  by (simp add: task_at_def keeps_def del: map_map)

lemma outcome_step:
  assumes "task_at s p" "safe_run (\<lambda>s. s) s r" "\<And>s1. task_at s1 p \<Longrightarrow> submit_outcome p (f s1)"
  shows "submit_outcome p (run_bind r f)"
proof -
  obtain s1 where s1: "r = run_ret s1" "keeps s s1" "settled s1" using assms(2) by (auto simp: safe_run_def)
  with assms(3) [OF task_keeps [OF assms(1) s1(2,3)]] show ?thesis by simp
qed

lemma task_ready: "task_at s p \<Longrightarrow> ready_at s p"
  by (simp add: task_at_def)

lemma outcome_submitted:
  assumes "task_at s p" "greg_weekly (en_greg e)"
  shows "submit_outcome p (run_bind (set_state e p NS_SUBMITTED s) (\<lambda>s1. run_ret (True, jp, s1)))"
  using set_state_job [of s e p NS_SUBMITTED] assms by (auto simp: task_at_def ready_at_def submit_outcome_def)

lemma outcome_aborted:
  assumes t: "task_at s p" and e: "greg_weekly (en_greg e)"
  shows "submit_outcome p (run_bind (set_aborted_only e reason p s) (\<lambda>s2. run_ret (False, jp, s2)))"
proof -
  obtain s1 where s1: "change p (set_abort_reason reason) s = run_ret s1" "keeps s s1" "settled s1"
    using change_ready [OF task_ready [OF t], of "set_abort_reason reason"] by (auto simp: job_data_keeps)
  have "task_at s1 p" by (rule task_keeps [OF t s1(2,3)])
  then have "\<exists>s'. set_state e p NS_ABORTED s1 = run_ret s' \<and> map_option ss (st_at (skels s') p) = Some NS_ABORTED"
    using set_state_job [of s1 e p NS_ABORTED] e by (auto simp: task_at_def ready_at_def)
  with s1(1) show ?thesis by (auto simp: set_aborted_only_def submit_outcome_def)
qed

lemma outcome_flag_aborted:
  assumes t: "task_at s p" and e: "greg_weekly (en_greg e)"
  shows "submit_outcome p (run_bind (change p (flag_set f) s) (\<lambda>s1. run_bind (set_aborted_only e reason p s1) (\<lambda>s2. run_ret (False, jp, s2))))"
  by (rule outcome_step [OF t safe_flag [OF task_ready [OF t]]]) (rule outcome_aborted [OF _ e])

lemma outcome_start_job:
  assumes t: "task_at s p" and e: "greg_weekly (en_greg e)"
  shows "submit_outcome p (start_job w e p jp s)"
proof -
  obtain b jp1 where c: "createChildProcess w p jp s = run_ret (b, jp1)" using createChildProcess_returns by blast
  with outcome_submitted [OF t e] outcome_flag_aborted [OF t e] show ?thesis
    by (simp add: start_job_def job_cmd_failed_def Let_def)
qed

lemma outcome_submit_job_only:
  assumes t: "task_at s p" and e: "greg_weekly (en_greg e)"
    and q: "map_option ss (st_at (skels s) p) \<notin> {Some NS_ACTIVE, Some NS_SUBMITTED}"
    and d: "findParentUserVariableValue (jw_server w) (sv_defs s) p ''ECF_DUMMY_TASK'' = None"
  shows "submit_outcome p (submit_job_only w e p jp s)"
proof (rule ready_atE [OF task_ready [OF t]])
  fix n assume n: "node_at (sv_suites s) p = Some n"
  then have st: "node_state n \<notin> {NS_ACTIVE, NS_SUBMITTED}" using q by (simp add: st_at_skel)
  have tail: "submit_outcome p (if c then start_job w e p jp s2 else script_based_job_submission w e p jp s2)" if "task_at s2 p" for s2 c
    using outcome_start_job [OF that e] outcome_flag_aborted [OF that e]
    by (simp add: script_based_job_submission_def Let_def split: job_outcome.split)
  have mid: "submit_outcome p (run_bind (change p requeue_labels s1) (\<lambda>s2.
      if findParentUserVariableValue (jw_server w) (sv_defs s2) p ''ECF_NO_SCRIPT'' \<noteq> None
      then start_job w e p jp s2 else script_based_job_submission w e p jp s2))" if "task_at s1 p" for s1
    by (rule outcome_step [OF that safe_change [OF task_ready [OF that]]], simp_all only: labels_keep) (rule tail)
  have "submit_outcome p (run_bind (change p clear_job_flags s) (\<lambda>s1. run_bind (change p requeue_labels s1) (\<lambda>s2.
      if findParentUserVariableValue (jw_server w) (sv_defs s2) p ''ECF_NO_SCRIPT'' \<noteq> None
      then start_job w e p jp s2 else script_based_job_submission w e p jp s2)))"
    by (rule outcome_step [OF t safe_change [OF task_ready [OF t]]], simp_all only: task_data_keeps) (rule mid)
  with st d show ?thesis unfolding submit_job_only_def n option.case by simp
qed

section \<open>What is submitted\<close>

definition adds_job :: "addr \<Rightarrow> jobs_param \<Rightarrow> jobs_param \<Rightarrow> bool" where
  "adds_job p jp jp' \<longleftrightarrow> jp_submitted jp' = jp_submitted jp \<or> jp_submitted jp' = jp_submitted jp @ [p]"

lemma adds_job_refl [simp]: "adds_job p jp jp" "adds_job p jp (add_error m jp')  = adds_job p jp jp'"
    "adds_job p jp (push_back_submittable p jp)" "adds_job p (add_error m jp) jp' = adds_job p jp jp'"
  by (simp_all add: adds_job_def add_error_def push_back_submittable_def)

lemma createChildProcess_adds: "createChildProcess w p jp s = run_ret (b, jp1) \<Longrightarrow> adds_job p jp jp1"
  by (auto simp: createChildProcess_def run_bind_eq_ret Let_def case_prod_beta split: option.splits if_splits)

lemma job_cmd_failed_adds: "job_cmd_failed e p jp s = run_ret (b, jp1, s1) \<Longrightarrow> jp_submitted jp1 = jp_submitted jp"
  by (auto simp: job_cmd_failed_def Let_def run_bind_eq_ret add_error_def)

lemma start_job_adds: "start_job w e p jp s = run_ret (b, jp1, s1) \<Longrightarrow> adds_job p jp jp1"
  by (auto simp: start_job_def run_bind_eq_ret split: if_splits dest!: createChildProcess_adds job_cmd_failed_adds)
    (simp add: adds_job_def)

lemma submit_job_only_adds: "submit_job_only w e p jp s = run_ret (b, jp1, s1) \<Longrightarrow> adds_job p jp jp1"
  by (auto simp: submit_job_only_def script_based_job_submission_def Let_def run_bind_eq_ret start_job_adds
      split: option.splits if_splits job_outcome.splits)

lemma submit_task_adds: "submit_task w e p jp s = run_ret (b, jp1, s1) \<Longrightarrow> adds_job p jp jp1"
  by (auto simp: submit_task_def run_bind_eq_ret submit_job_only_adds split: if_splits)

lemma timeout_submitted [simp]: "jp_submitted (snd (check_for_job_generation_timeout t jp)) = jp_submitted jp"
  by (simp add: check_for_job_generation_timeout_def set_timed_out_of_job_generation_def split: option.split)

text \<open>What has held when a task is added.\<close>

definition free_to_submit :: "job_world \<Rightarrow> env \<Rightarrow> server \<Rightarrow> addr \<Rightarrow> node \<Rightarrow> bool" where
  "free_to_submit w e s p n \<longleftrightarrow>
     \<not> Flag_is_set FL_ARCHIVED (nd_flag (ndata n)) \<and> \<not> nd_suspended (ndata n) \<and> node_state n \<noteq> NS_COMPLETE \<and>
     timeDependenciesFree (en_greg e) (suite_cal (sv_defs s) p) (nd_time (ndata n)) = run_ret True \<and>
     evaluateTrigger w s p n = Inr True"

lemma Node_resolve_free:
  assumes "Node_resolveDependencies w e p s = run_ret (True, s')"
  shows "s' = s \<and> (\<exists>n. node_at (sv_suites s) p = Some n \<and> free_to_submit w e s p n)"
  using assms by (auto simp: Node_resolveDependencies_def run_bind_eq_ret free_to_submit_def split: option.splits if_splits)

lemma task_body_adds:
  assumes "task_body w e p jp s = run_ret (b, jp1, s1)"
  shows "jp_submitted jp1 = jp_submitted jp \<or> jp_submitted jp1 = jp_submitted jp @ [p] \<and>
    (\<exists>n s2 n2. node_at (sv_suites s) p = Some n \<and> state_allows w s p (ndata n) \<and>
       change p (Node_checkForLateness (suite_cal (sv_defs s) p)) s = run_ret s2 \<and>
       node_at (sv_suites s2) p = Some n2 \<and> free_to_submit w e s2 p n2 \<and> in_limits_up s2 p)"
  using assms
  by (auto simp: task_body_def run_bind_eq_ret adds_job_def split: option.splits if_splits
      dest!: Node_resolve_free submit_task_adds)

lemma Task_resolve_adds:
  assumes "Task_resolveDependencies w e p (jp, s) = run_ret (jp1, s1)"
  shows "jp_submitted jp1 = jp_submitted jp \<or> jp_submitted jp1 = jp_submitted jp @ [p] \<and> \<not> jp_timed_out jp \<and>
    (\<exists>n s2 n2. node_at (sv_suites s) p = Some n \<and> state_allows w s p (ndata n) \<and>
       change p (Node_checkForLateness (suite_cal (sv_defs s) p)) s = run_ret s2 \<and>
       node_at (sv_suites s2) p = Some n2 \<and> free_to_submit w e s2 p n2 \<and> in_limits_up s2 p)"
  using assms by (auto simp: Task_resolveDependencies_def Let_def run_bind_eq_ret split: if_splits dest!: task_body_adds)

text \<open>The tasks of a tree, in the order of the definition.\<close>

fun tasks_of :: "node \<Rightarrow> addr \<Rightarrow> addr list" and tasks_of_list :: "node list \<Rightarrow> nat \<Rightarrow> addr \<Rightarrow> addr list" where
  "tasks_of (Node nd ks) p =
     (case nd_kind nd of K_Task \<Rightarrow> [p] | K_Alias \<Rightarrow> [] | _ \<Rightarrow> tasks_of_list ks 0 p)"
| "tasks_of_list [] i p = []"
| "tasks_of_list (k # ks) i p = tasks_of k (p @ [i]) @ tasks_of_list ks (Suc i) p"

lemma tasks_below: "q \<in> set (tasks_of n p) \<Longrightarrow> prefix p q" "q \<in> set (tasks_of_list ks i p) \<Longrightarrow> \<exists>j \<ge> i. prefix (p @ [j]) q"
proof (induction n p and ks i p rule: tasks_of_tasks_of_list.induct)
  case (1 nd ks p)
  then show ?case by (cases "nd_kind nd") (auto dest: append_prefixD)
next
  case (3 k ks i p)
  then show ?case by (auto intro: Suc_leD)
qed simp

lemma tasks_distinct: "distinct (tasks_of n p)" "distinct (tasks_of_list ks i p)"
proof (induction n p and ks i p rule: tasks_of_tasks_of_list.induct)
  case (1 nd ks p)
  then show ?case by (cases "nd_kind nd") auto
next
  case (3 k ks i p)
  have "set (tasks_of k (p @ [i])) \<inter> set (tasks_of_list ks (Suc i) p) = {}"
    by (auto dest!: tasks_below simp: prefix_def)
  with 3 show ?case by simp
qed simp

lemma resolve_adds:
  "resolveDependencies w e n p a = run_ret a' \<Longrightarrow>
     \<exists>qs. jp_submitted (fst a') = jp_submitted (fst a) @ qs \<and> subseq qs (tasks_of n p)"
  "resolve_children w e ks i p a = run_ret a' \<Longrightarrow>
     \<exists>qs. jp_submitted (fst a') = jp_submitted (fst a) @ qs \<and> subseq qs (tasks_of_list ks i p)"
proof (induction n p and ks i p arbitrary: a a' and a a' rule: tasks_of_tasks_of_list.induct)
  case (1 nd ks p)
  obtain jp s where a: "a = (jp, s)" by fastforce
  have task: ?case if "nd_kind nd = K_Task"
    using "1.prems" that Task_resolve_adds [of w e p jp s] by (cases a') (auto simp: a)
  have box: ?case if k: "nd_kind nd \<in> {K_Suite, K_Family}"
  proof -
    from k "1.prems" obtain go jp1 s1 where h: "suite_head e (nd_kind nd) p (jp, s) = run_ret (go, jp1, s1)"
      "(if \<not> go then run_ret (jp1, s1) else run_bind (Node_resolveDependencies w e p s1) (\<lambda>(free, s2).
          if \<not> free then run_ret (jp1, s2) else if \<not> check_in_limit s2 p then run_ret (jp1, s2)
          else resolve_children w e ks 0 p (jp1, s2))) = run_ret a'"
      by (auto simp: a run_bind_eq_ret)
    have "jp_submitted jp1 = jp_submitted jp"
      using h(1) timeout_submitted [of "en_now e" jp]
      by (auto simp: suite_head_def run_bind_eq_ret Let_def case_prod_beta simp del: timeout_submitted split: if_splits option.splits)
    moreover have "fst a' = jp1 \<or> (\<exists>s2. resolve_children w e ks 0 p (jp1, s2) = run_ret a')"
      using h(2) by (auto simp: run_bind_eq_ret split: if_splits)
    ultimately show ?case using "1.IH"(1) [of "(jp1, s2)" a' for s2] "1.IH"(2) [of "(jp1, s2)" a' for s2] k by (auto simp: a)
  qed
  show ?case using task box "1.prems" by (cases "nd_kind nd") auto
next
  case (2 i p)
  then show ?case by simp
next
  case (3 k ks i p)
  from "3.prems" obtain a1 where r: "resolveDependencies w e k (p @ [i]) a = run_ret a1" "resolve_children w e ks (Suc i) p a1 = run_ret a'"
    by (auto simp: run_bind_eq_ret)
  from "3.IH"(1) [OF r(1)] "3.IH"(2) [OF r(2)] show ?case by (auto intro: list_emb_append_mono)
qed

section \<open>Properties\<close>

lemma job_generation_ok:
  assumes "server_ok s" "settled s" "greg_weekly (en_greg e)" "node_at (sv_suites s) p = Some n"
  shows "\<forall>r \<in> {Jobs_generate w e jp s, Jobs_generate_node w e p jp s}.
    \<exists>ok jp' s'. r = run_ret (ok, jp', s') \<and> server_ok s' \<and> settled s' \<and> same_shape s s' \<and>
      (sst_state (jw_server w) \<noteq> SS_RUNNING \<longrightarrow> jp' = jp \<and> s' = s)"
proof -
  note k = keeps_refl [OF assms(1)]
  have pl: "placed_children s (sv_suites s) 0 []" by (rule placed_nodes) simp
  have "safe_run snd s (resolve_children w e (sv_suites s) 0 [] (jp, s))"
    using safe_resolve(2) [OF pl assms(3), of "(jp, s)" w] k assms(2) by simp
  then obtain jp1 s1 where 1: "resolve_children w e (sv_suites s) 0 [] (jp, s) = run_ret (jp1, s1)" "keeps s s1" "settled s1"
    by (auto simp: safe_run_def)
  with assms(1,2) have 2: "\<exists>ok jp' s'. Jobs_generate w e jp s = run_ret (ok, jp', s') \<and> server_ok s' \<and> settled s' \<and> same_shape s s' \<and>
      (sst_state (jw_server w) \<noteq> SS_RUNNING \<longrightarrow> jp' = jp \<and> s' = s)"
    by (auto simp: Jobs_generate_def same_shape_def keeps_def simp del: map_map)
  have "placed s n p" by (rule placed_nodes(1) [OF assms(4)]) (use assms(4) in auto)
  from safe_resolve(1) [OF this assms(3), of "(jp, s)" w] k assms(2)
  obtain jp2 s2 where "resolveDependencies w e n p (jp, s) = run_ret (jp2, s2)" "keeps s s2" "settled s2" by (auto simp: safe_run_def)
  with assms(1,2,4) have "\<exists>ok jp' s'. Jobs_generate_node w e p jp s = run_ret (ok, jp', s') \<and> server_ok s' \<and> settled s' \<and> same_shape s s' \<and>
      (sst_state (jw_server w) \<noteq> SS_RUNNING \<longrightarrow> jp' = jp \<and> s' = s)"
    by (auto simp: Jobs_generate_node_def isParentSuspended_def same_shape_def keeps_def simp del: map_map)
  with 2 show ?thesis by (simp only: ball_simps)
qed

text \<open>Generating jobs never fails: from a consistent server (valid data, expressions that evaluate, a parent's state
  computed from its children) a pass over all suites, and a pass over one node, return, whatever the file system and the
  operating system answer, and the result is again consistent with the same nodes; a server that does not run is left as it was.\<close>

theorem job_generation_keeps_tree:
  assumes "server_ok s" "settled s" "greg_weekly (en_greg e)" "node_at (sv_suites s) p = Some n"
  shows "\<forall>r \<in> {Jobs_generate w e jp s, Jobs_generate_node w e p jp s}.
    \<exists>ok jp' s'. r = run_ret (ok, jp', s') \<and> server_ok s' \<and> settled s' \<and> same_shape s s' \<and>
      (sst_state (jw_server w) \<noteq> SS_RUNNING \<longrightarrow> jp' = jp \<and> s' = s)"
  using job_generation_ok [OF assms] .

definition demo_world :: job_world where
  "demo_world = \<lparr>jw_parse = (\<lambda>_. None),
     jw_server = no_server\<lparr>sst_user_variables := [\<lparr>va_n = ''ECF_JOB_CMD'', va_v = ''sh %ECF_JOB% &''\<rparr>,
                                                \<lparr>va_n = ''ECF_JOB'', va_v = ''/tmp/a.job''\<rparr>]\<rparr>,
     jw_make = (\<lambda>_ p. if p = [0, 0, 0] then Job_made else Script_missing ''none''), jw_spawn = (\<lambda>_ _. (True, [])),
     jw_password = (\<lambda>_. ''pw''), jw_start = (\<lambda>_. 1), jw_ms = (\<lambda>_. 5), jw_threshold = 4000\<rparr>"

definition demo_jobs :: jobs_param where
  "demo_jobs = \<lparr>jp_timed_out = False, jp_createJobs = True, jp_spawnJobs = True, jp_submitJobsInterval = 60, jp_errorMsg = [],
     jp_submitted = [], jp_next_poll_time = Some 60, jp_time_out_time = 0\<rparr>"

fun queue_all :: "node \<Rightarrow> node" where
  "queue_all (Node nd ks) = Node (nd\<lparr>nd_st := \<lparr>ns_st = NS_QUEUED, ns_state_change_no = 0\<rparr>\<rparr>) (map queue_all ks)"

definition free_server :: server where
  "free_server = sv_put (map queue_all (sv_suites quiet_server)) server_counters quiet_server"

definition submitted_of :: "'a run \<Rightarrow> ('a \<Rightarrow> jobs_param) \<Rightarrow> addr list option" where
  "submitted_of r f = (case r of Some (Inr y) \<Rightarrow> Some (jp_submitted (f y)) | _ \<Rightarrow> None)"

lemma submitted_ofD: "submitted_of r f = Some qs \<Longrightarrow> \<exists>y. r = run_ret y \<and> jp_submitted (f y) = qs"
  by (auto simp: submitted_of_def split: option.splits sum.splits)

theorem job_generation_keeps_tree_witness:
  "\<exists>ok jp' s'. Jobs_generate demo_world demo_env demo_jobs quiet_server = run_ret (ok, jp', s') \<and> server_ok s' \<and> settled s'"
proof -
  obtain n where "node_at (sv_suites quiet_server) [0, 0] = Some n" using quiet_server_nodes(3) by (auto simp: kind_at_def)
  from job_generation_keeps_tree [OF quiet_server_ok demo_server_ok(3) this, of demo_world demo_jobs] show ?thesis by blast
qed



text \<open>C25. One pass of job generation submits tasks in the order of the definition and each of them at most once.\<close>

theorem jobs_submitted_in_order:
  assumes "Jobs_generate w e jp s = run_ret (ok, jp', s')"
  shows "\<exists>qs. jp_submitted jp' = jp_submitted jp @ qs \<and> subseq qs (tasks_of_list (sv_suites s) 0 []) \<and> distinct qs"
proof -
  have "\<exists>qs. jp_submitted jp' = jp_submitted jp @ qs \<and> subseq qs (tasks_of_list (sv_suites s) 0 [])"
    using assms resolve_adds(2) [of w e "sv_suites s" 0 "[]" "(jp, s)" "(jp', s')"]
    by (auto simp: Jobs_generate_def run_bind_eq_ret split: if_splits)
  then show ?thesis using tasks_distinct(2) distinct_nthsI by (auto simp: subseq_conv_nths)
qed

theorem jobs_submitted_in_order_witness:
  "\<exists>ok jp' s'. Jobs_generate demo_world demo_env demo_jobs free_server = run_ret (ok, jp', s') \<and> jp_submitted jp' = [[0, 0, 0]] \<and>
     (\<exists>qs. jp_submitted jp' = jp_submitted demo_jobs @ qs \<and> subseq qs (tasks_of_list (sv_suites free_server) 0 []) \<and> distinct qs)"
proof -
  have "submitted_of (Jobs_generate demo_world demo_env demo_jobs free_server) (\<lambda>(_, jp, _). jp) = Some [[0, 0, 0]]" by code_simp
  then obtain ok jp' s' where r: "Jobs_generate demo_world demo_env demo_jobs free_server = run_ret (ok, jp', s')" "jp_submitted jp' = [[0, 0, 0]]"
    by (auto dest!: submitted_ofD)
  from jobs_submitted_in_order [OF r(1)] r show ?thesis by blast
qed

text \<open>C8. A task is only ever submitted when it is free: job generation has not timed out, the task is queued, or
  aborted with tries left and no failed submission, kill or forced abort behind it, is neither suspended nor archived, its time
  dependencies and its trigger hold and every in-limit up the tree has room, as found after the check for lateness; and it
  is then the one task added.\<close>

theorem submitted_only_when_free:
  assumes "Task_resolveDependencies w e p (jp, s) = run_ret (jp', s')" "jp_submitted jp' \<noteq> jp_submitted jp"
  shows "jp_submitted jp' = jp_submitted jp @ [p] \<and> \<not> jp_timed_out jp \<and>
    (\<exists>n s2 n2. node_at (sv_suites s) p = Some n \<and> node_state n \<in> {NS_QUEUED, NS_ABORTED} \<and>
       \<not> Flag_is_set FL_FORCE_ABORT (nd_flag (ndata n)) \<and>
       (node_state n = NS_ABORTED \<longrightarrow> tries_left w s p (ndata n) \<and>
          (\<forall>t \<in> {FL_KILLED, FL_EDIT_FAILED, FL_NO_SCRIPT, FL_JOBCMD_FAILED}. \<not> Flag_is_set t (nd_flag (ndata n)))) \<and>
       change p (Node_checkForLateness (suite_cal (sv_defs s) p)) s = run_ret s2 \<and> node_at (sv_suites s2) p = Some n2 \<and>
       \<not> nd_suspended (ndata n2) \<and> \<not> Flag_is_set FL_ARCHIVED (nd_flag (ndata n2)) \<and>
       timeDependenciesFree (en_greg e) (suite_cal (sv_defs s2) p) (nd_time (ndata n2)) = run_ret True \<and>
       evaluateTrigger w s2 p n2 = Inr True \<and> in_limits_up s2 p)"
proof -
  from Task_resolve_adds [OF assms(1)] assms(2) obtain n s2 n2 where
    a: "jp_submitted jp' = jp_submitted jp @ [p]" "\<not> jp_timed_out jp"
    and n: "node_at (sv_suites s) p = Some n" "state_allows w s p (ndata n)"
    and s2: "change p (Node_checkForLateness (suite_cal (sv_defs s) p)) s = run_ret s2" "node_at (sv_suites s2) p = Some n2"
      "free_to_submit w e s2 p n2" "in_limits_up s2 p" by blast
  have st: "node_state n \<in> {NS_QUEUED, NS_ABORTED}" using n(2) by (cases "node_state n") (simp_all add: state_allows_def)
  have "\<not> Flag_is_set FL_FORCE_ABORT (nd_flag (ndata n))"
    "node_state n = NS_ABORTED \<longrightarrow> tries_left w s p (ndata n) \<and>
       (\<forall>t \<in> {FL_KILLED, FL_EDIT_FAILED, FL_NO_SCRIPT, FL_JOBCMD_FAILED}. \<not> Flag_is_set t (nd_flag (ndata n)))"
    using n(2) by (auto simp: state_allows_def split: if_splits)
  with a n(1) st s2 show ?thesis by (intro conjI exI [of _ n] exI [of _ s2] exI [of _ n2]) (auto simp: free_to_submit_def)
qed

theorem submitted_only_when_free_witness:
  "\<exists>jp' s'. Task_resolveDependencies demo_world demo_env [0, 0, 0] (demo_jobs, free_server) = run_ret (jp', s') \<and>
     jp_submitted jp' = [[0, 0, 0]] \<and> (\<exists>n. node_at (sv_suites free_server) [0, 0, 0] = Some n \<and> node_state n \<in> {NS_QUEUED, NS_ABORTED})"
proof -
  have "submitted_of (Task_resolveDependencies demo_world demo_env [0, 0, 0] (demo_jobs, free_server)) fst = Some [[0, 0, 0]]" by code_simp
  then obtain jp' s' where r: "Task_resolveDependencies demo_world demo_env [0, 0, 0] (demo_jobs, free_server) = run_ret (jp', s')"
    "jp_submitted jp' = [[0, 0, 0]]" by (auto dest!: submitted_ofD)
  have "jp_submitted jp' \<noteq> jp_submitted demo_jobs" using r(2) by (simp add: demo_jobs_def)
  from submitted_only_when_free [OF r(1) this] r show ?thesis by blast
qed

end
