(* ===== verification/Tick.thy ===== *)
theory Tick
  imports Resolve
begin

text \<open>
  The update of the calendars: \<open>Defs::updateCalendar\<close> with \<open>Suite::updateCalendar\<close> and \<open>calendarChanged\<close> of \<open>Node\<close>,
  \<open>NodeContainer\<close> and \<open>Submittable\<close> (\<open>ANode/src\<close>). The walk frees time attributes, finds tasks that are late, and collects
  the nodes to be cancelled or archived; the ones to be cancelled are then removed. The nodes to archive are part
  of the result; they are archived in \<open>Archive\<close>.
\<close>

section \<open>One node\<close>

record Calendar_args =
  ca_auto_cancelled_nodes :: "addr list"
  ca_auto_archive_nodes :: "addr list"

definition no_running_task :: "node \<Rightarrow> bool" where
  "no_running_task n \<longleftrightarrow> list_all (\<lambda>st. st \<noteq> NS_ACTIVE \<and> st \<noteq> NS_SUBMITTED) (get_all_tasks n)"

definition checkForAutoCancel :: "calendar \<Rightarrow> node \<Rightarrow> bool" where
  "checkForAutoCancel c n =
     (case nd_auto_cancel (ndata n) of
        None \<Rightarrow> False
      | Some a \<Rightarrow> node_state n = NS_COMPLETE \<and> AutoCancelAttr_isFree c (nd_st_time (ndata n)) a \<and> no_running_task n)"

definition check_for_auto_archive :: "server_state \<Rightarrow> server \<Rightarrow> calendar \<Rightarrow> addr \<Rightarrow> node \<Rightarrow> bool" where
  "check_for_auto_archive sr s c p n =
     (case nd_auto_archive (ndata n) of
        None \<Rightarrow> False
      | Some a \<Rightarrow> \<not> nd_suspended (ndata n) \<and> \<not> isParentSuspended sr s p \<and>
                   AutoArchiveAttr_isFree c (node_state n, nd_st_time (ndata n)) a \<and> no_running_task n)"

text \<open>\<open>Node::calendarChanged\<close>: the result is whether a day or date of the node or of a parent holds it.\<close>

definition Node_calendarChanged ::
    "env \<Rightarrow> server_state \<Rightarrow> calendar \<Rightarrow> addr \<Rightarrow> bool \<Rightarrow> Calendar_args \<times> server \<Rightarrow> (bool \<times> Calendar_args \<times> server) run" where
  "Node_calendarChanged e sr c p hold a =
     (let (args, s) = a
      in case node_at (sv_suites s) p of
           None \<Rightarrow> Some (Inl (Undefined_behaviour ''Node*''))
         | Some n \<Rightarrow>
             run_bind (if hold then run_ret (True, nd_time (ndata n), ls_ecf (sv_sys s))
                       else calendar_changed_timeattrs (en_greg e) c (nd_kind (ndata n) \<in> {K_Suite, K_Family}) (task_states n)
                              (nd_time (ndata n)) (ls_ecf (sv_sys s))) (\<lambda>(hold1, nt, g).
               let s1 = sv_put (put_data ((ndata n)\<lparr>nd_time := nt\<rparr>) (sv_suites s) p) g s;
                   args1 = (if checkForAutoCancel c n
                            then args\<lparr>ca_auto_cancelled_nodes := ca_auto_cancelled_nodes args @ [p]\<rparr> else args);
                   args2 = (if \<not> Flag_is_set FL_RESTORED (nd_flag (ndata n)) \<and> check_for_auto_archive sr s1 c p n
                            then args1\<lparr>ca_auto_archive_nodes := ca_auto_archive_nodes args1 @ [p]\<rparr> else args1)
               in run_ret (hold1, args2, s1)))"

text \<open>\<open>Node::check_for_lateness\<close>. The late attribute that a task inherits is never null (\<open>NodeContainer::calendarChanged\<close>
  passes the address of a local one).\<close>

definition Node_check_for_lateness :: "calendar \<Rightarrow> late_attr \<Rightarrow> node_data \<Rightarrow> ecf \<Rightarrow> node_data \<times> ecf" where
  "Node_check_for_lateness c inherited nd g =
     (case nd_late nd of
        Some l \<Rightarrow>
          if la_isLate l then (nd, g)
          else if LateAttr_isNull inherited then Node_checkForLateness c nd g
          else if check_for_lateness (ns_st (nd_st nd), nd_st_time nd) c (override_with (Some l) inherited)
          then let (l1, g1) = setLate True l g in flag_set FL_LATE (nd\<lparr>nd_late := Some l1\<rparr>) g1
          else (nd, g)
      | None \<Rightarrow>
          if \<not> Flag_is_set FL_LATE (nd_flag nd) \<and> check_for_lateness (ns_st (nd_st nd), nd_st_time nd) c inherited
          then flag_set FL_LATE nd g else (nd, g))"

definition Submittable_calendarChanged ::
    "env \<Rightarrow> server_state \<Rightarrow> calendar \<Rightarrow> addr \<Rightarrow> late_attr \<Rightarrow> bool \<Rightarrow> Calendar_args \<times> server \<Rightarrow> (Calendar_args \<times> server) run" where
  "Submittable_calendarChanged e sr c p inherited hold a =
     run_bind (Node_calendarChanged e sr c p hold a) (\<lambda>(_, args, s).
     run_bind (change p (Node_check_for_lateness c inherited) s) (\<lambda>s1. run_ret (args, s1)))"

section \<open>The walk\<close>

text \<open>The late attribute that a container hands down: a suite is given its own, which is then not put on top of itself.\<close>

definition overridden_late :: "bool \<Rightarrow> late_attr option \<Rightarrow> late_attr option \<Rightarrow> late_attr" where
  "overridden_late is_suite inherited own =
     (let l = (case inherited of Some i \<Rightarrow> if LateAttr_isNull i then LateAttr_default else i | None \<Rightarrow> LateAttr_default)
      in if is_suite then l else override_with own l)"

fun calendarChanged ::
    "env \<Rightarrow> server_state \<Rightarrow> calendar \<Rightarrow> node \<Rightarrow> addr \<Rightarrow> late_attr option \<Rightarrow> bool \<Rightarrow> Calendar_args \<times> server \<Rightarrow> (Calendar_args \<times> server) run"
  and calendarChanged_children ::
    "env \<Rightarrow> server_state \<Rightarrow> calendar \<Rightarrow> node list \<Rightarrow> nat \<Rightarrow> addr \<Rightarrow> late_attr \<Rightarrow> bool \<Rightarrow> Calendar_args \<times> server \<Rightarrow> (Calendar_args \<times> server) run"
where
  "calendarChanged e sr c (Node nd ks) p inherited hold a =
     (if nd_kind nd \<in> {K_Suite, K_Family}
      then case node_at (sv_suites (snd a)) p of
             None \<Rightarrow> Some (Inl (Undefined_behaviour ''Node*''))
           | Some n \<Rightarrow>
               if Flag_is_set FL_ARCHIVED (nd_flag (ndata n)) then run_ret a
               else run_bind (Node_calendarChanged e sr c p hold a) (\<lambda>(hold1, args, s).
                      calendarChanged_children e sr c ks 0 p (overridden_late (nd_kind nd = K_Suite) inherited (nd_late (ndata n)))
                        hold1 (args, s))
      else Submittable_calendarChanged e sr c p (case inherited of Some l \<Rightarrow> l | None \<Rightarrow> LateAttr_default) hold a)"
| "calendarChanged_children e sr c [] i p l hold a = run_ret a"
| "calendarChanged_children e sr c (k # ks) i p l hold a =
     run_bind (calendarChanged e sr c k (p @ [i]) (Some l) hold a) (calendarChanged_children e sr c ks (Suc i) p l hold)"

definition suite_set_calendar :: "calendar \<Rightarrow> node_data \<Rightarrow> ecf \<Rightarrow> node_data \<times> ecf" where
  "suite_set_calendar c nd g =
     (nd\<lparr>nd_suite := (nd_suite nd)\<lparr>su_cal := c, su_calendar_change_no := ecf_state_change_no g + 1\<rparr>\<rparr>, g)"

definition Suite_updateCalendar ::
    "env \<Rightarrow> server_state \<Rightarrow> calendar_update_params \<Rightarrow> node \<Rightarrow> addr \<Rightarrow> Calendar_args \<times> server \<Rightarrow> (Calendar_args \<times> server) run" where
  "Suite_updateCalendar e sr cp n p a =
     (let (args, s) = a
      in case node_at (sv_suites s) p of
           None \<Rightarrow> Some (Inl (Undefined_behaviour ''Suite*''))
         | Some m \<Rightarrow>
             if \<not> su_begun (nd_suite (ndata m)) then run_ret a
             else run_bind (Some (Calendar_update (en_greg e) cp (su_cal (nd_suite (ndata m))))) (\<lambda>c.
                  run_bind (change p (suite_set_calendar c) s) (\<lambda>s1.
                    calendarChanged e sr c n p (nd_late (ndata m)) False (args, s1))))"

fun update_suites ::
    "env \<Rightarrow> server_state \<Rightarrow> calendar_update_params \<Rightarrow> node list \<Rightarrow> nat \<Rightarrow> Calendar_args \<times> server \<Rightarrow> (Calendar_args \<times> server) run" where
  "update_suites e sr cp [] i a = run_ret a"
| "update_suites e sr cp (n # ns) i a =
     run_bind (Suite_updateCalendar e sr cp n [i] a) (update_suites e sr cp ns (Suc i))"

section \<open>Removal\<close>

text \<open>\<open>remove_autocancelled\<close>: a node below one that has been removed is detached and skipped. The removal of a suite takes a modify
  change number, that of another node a state change number.\<close>

fun remove_nodes :: "addr list \<Rightarrow> nat \<Rightarrow> addr \<Rightarrow> node list \<Rightarrow> node list \<times> nat" where
  "remove_nodes A i p [] = ([], 0)"
| "remove_nodes A i p (Node nd ks # ns) =
     (let (ns1, k1) = remove_nodes A (Suc i) p ns
      in if p @ [i] \<in> set A then (ns1, Suc k1)
         else let (ks1, k2) = remove_nodes A 0 (p @ [i]) ks in (Node nd ks1 # ns1, k1 + k2))"

definition remove_autocancelled :: "addr list \<Rightarrow> server \<Rightarrow> server" where
  "remove_autocancelled A s =
     (let (ns, k) = remove_nodes A 0 [] (sv_suites s); m = length (sv_suites s) - length ns
      in sv_put ns (((\<lambda>g. snd (incr_modify_change_no g)) ^^ m) (((\<lambda>g. snd (incr_state_change_no g)) ^^ (k - m)) (ls_ecf (sv_sys s)))) s)"

text \<open>Where a node is after the removal of others: an address counts the siblings that are left. A node that is removed, or below
  one that is, has no address any more.\<close>

fun surviving :: "addr list \<Rightarrow> addr \<Rightarrow> addr \<Rightarrow> addr option" where
  "surviving A p [] = Some []"
| "surviving A p (i # q) =
     (if p @ [i] \<in> set A then None
      else map_option (\<lambda>r. (i - length (filter (\<lambda>j. p @ [j] \<in> set A) [0..<i])) # r) (surviving A (p @ [i]) q))"

definition Defs_updateCalendar ::
    "env \<Rightarrow> server_state \<Rightarrow> calendar_update_params \<Rightarrow> server \<Rightarrow> (addr list \<times> server) run" where
  "Defs_updateCalendar e sr cp s =
     run_bind (update_suites e sr cp (sv_suites s) 0 (\<lparr>ca_auto_cancelled_nodes = [], ca_auto_archive_nodes = []\<rparr>, s)) (\<lambda>(args, s1).
       run_ret (List.map_filter (surviving (ca_auto_cancelled_nodes args) []) (ca_auto_archive_nodes args),
                remove_autocancelled (ca_auto_cancelled_nodes args) s1))"

section \<open>The walk changes no state\<close>

text \<open>An update of the data of nodes that leaves states, kinds and the clocks of the suites.\<close>

abbreviation clocks :: "server \<Rightarrow> suite_data list" where "clocks s \<equiv> map (\<lambda>n. nd_suite (ndata n)) (sv_suites s)"

definition still :: "server \<Rightarrow> server \<Rightarrow> bool" where
  "still s s' \<longleftrightarrow> server_ok s' \<and> skels s' = skels s \<and> df_st (sv_defs s') = df_st (sv_defs s)"

lemma still_refl: "server_ok s \<Longrightarrow> still s s"
  by (simp add: still_def)

lemma still_trans: "still s s1 \<Longrightarrow> still s1 s2 \<Longrightarrow> still s s2"
  by (simp add: still_def)

lemma still_keeps: "still s s' \<Longrightarrow> keeps s s' \<and> settled s' = settled s"
  unfolding still_def keeps_def settled_def by (elim conjE) (simp del: map_map)

lemma put_still:
  assumes n: "node_at (sv_suites s) p = Some n" and ok: "server_ok s" and nd: "same_core (ndata n) nd" "data_ok nd"
  shows "still s (sv_put (put_data nd (sv_suites s) p) g s)"
proof -
  let ?s = "sv_put (put_data nd (sv_suites s) p) g s"
  have "skels ?s = upd_at (with_state (node_state n)) (skels s) p"
    unfolding sv_put_sel using skel_put_data [OF n, of nd] nd(1) by (simp add: same_core_def)
  also have "\<dots> = skels s"
  proof (rule upd_at_id)
    fix t assume "st_at (skels s) p = Some t"
    with n have "node_state n = ss t" by (auto simp: st_at_skel)
    then show "with_state (node_state n) t = t" by (simp add: with_state_id)
  qed
  finally have sk: "skels ?s = skels s" .
  have "tree_ok ?s" using ok nd(2) by (simp add: server_ok_def all_data_put)
  with sk ok show ?thesis by (simp add: still_def server_ok_def sv_put_def)
qed

lemma clocks_put:
  "node_at ns p = Some n \<Longrightarrow> nd_suite nd = nd_suite (ndata n) \<Longrightarrow>
   map (\<lambda>n. nd_suite (ndata n)) (put_data nd ns p) = map (\<lambda>n. nd_suite (ndata n)) ns"
  by (cases p) (auto simp: map_update list_update_same_conv split: if_splits intro!: nth_equalityI simp: nth_list_update)

lemma change_still:
  assumes n: "node_at (sv_suites s) p = Some n" and ok: "server_ok s"
    and f: "\<And>nd g. same_core nd (fst (f nd g))" "\<And>nd g. data_ok (fst (f nd g)) = data_ok nd"
  shows "\<exists>s'. change p f s = run_ret s' \<and> still s s' \<and>
    ((\<forall>nd g. nd_suite (fst (f nd g)) = nd_suite nd) \<longrightarrow> clocks s' = clocks s)"
proof -
  obtain nd g where fn: "f (ndata n) (ls_ecf (sv_sys s)) = (nd, g)" by fastforce
  have "data_ok (ndata n)" using all_data_node_at [OF _ n, of data_ok] all_data_sel [of data_ok n] ok by (auto simp: server_ok_def)
  then have "still s (sv_put (put_data nd (sv_suites s) p) g s)"
    using put_still [OF n ok] f(1) [of "ndata n" "ls_ecf (sv_sys s)"] f(2) [of "ndata n" "ls_ecf (sv_sys s)"] fn by simp
  with n fn show ?thesis
    using clocks_put [OF n, of nd] by (auto simp: on_data_def sv_put_def) (metis fst_conv)
qed

lemma times_changed_ok:
  assumes "times_inv nt" "0 \<le> cal_increment c"
  shows "\<exists>nt' g'. times_changed greg c nt g = run_ret (nt', g') \<and> times_inv nt'"
proof -
  have 1: "\<exists>ts g'. each (\<lambda>a g. run_option (TimeAttr_calendarChanged c a g)) (nt_times nt) g = run_ret (ts, g') \<and> list_all ta_inv ts" for g
    using timeattr.step_returns [OF _ assms(2)] assms(1)
    by (intro each_inv) (fastforce simp: times_inv_def list_all_iff run_option_def)
  have 2: "\<exists>ts g'. each (\<lambda>a g. run_option (TodayAttr_calendarChanged c a g)) (nt_todays nt) g = run_ret (ts, g') \<and> list_all ta_inv ts" for g
    using todayattr.step_returns [OF _ assms(2)] assms(1)
    by (intro each_inv) (fastforce simp: times_inv_def list_all_iff run_option_def)
  have 3: "\<exists>ts g'. each (\<lambda>a g. run_option (CronAttr_calendarChanged greg c a g)) (nt_crons nt) g = run_ret (ts, g') \<and> list_all cr_inv ts" for g
    using cronattr.step_returns [OF _ assms(2)] assms(1)
    by (intro each_inv) (fastforce simp: times_inv_def list_all_iff run_option_def)
  obtain ts g1 where t: "each (\<lambda>a g. run_option (TimeAttr_calendarChanged c a g)) (nt_times nt) g = run_ret (ts, g1)" "list_all ta_inv ts"
    using 1 by blast
  obtain ys g2 where y: "each (\<lambda>a g. run_option (TodayAttr_calendarChanged c a g)) (nt_todays nt) g1 = run_ret (ys, g2)" "list_all ta_inv ys"
    using 2 by blast
  obtain cs g3 where k: "each (\<lambda>a g. run_option (CronAttr_calendarChanged greg c a g)) (nt_crons nt) g2 = run_ret (cs, g3)" "list_all cr_inv cs"
    using 3 by blast
  from t y k show ?thesis by (simp add: times_changed_def times_inv_def)
qed

lemma timeattrs_ok:
  assumes "times_inv nt" "0 \<le> cal_increment c"
  shows "\<exists>h nt' g'. calendar_changed_timeattrs greg c cont tasks nt g = run_ret (h, nt', g') \<and> times_inv nt'"
proof (cases "nt_days nt = [] \<and> nt_dates nt = []")
  case True
  then show ?thesis using times_changed_ok [OF assms, of greg g] by (auto simp: calendar_changed_timeattrs_def)
next
  case False
  have i: "times_inv (nt\<lparr>nt_days := a, nt_dates := b\<rparr>)" for a b using assms(1) by (simp add: times_inv_def)
  have b: "\<exists>h nt' g'. run_bind (times_changed greg c (nt\<lparr>nt_days := a, nt_dates := b\<rparr>) g1) (\<lambda>y. run_ret (False, fst y, snd y)) = run_ret (h, nt', g') \<and>
      times_inv nt'" for a b g1
    using times_changed_ok [OF i [of b a] assms(2), of greg g1] by auto
  have r: "\<exists>h nt' g'. run_ret (True, nt\<lparr>nt_days := a, nt_dates := b\<rparr>, g1) = run_ret (h, nt', g') \<and> times_inv nt'" for a b g1
    using i by auto
  have *: "(\<exists>h nt' g'. (if x then R else R') = run_ret (h, nt', g') \<and> times_inv nt')"
    if "\<exists>h nt' g'. R = run_ret (h, nt', g') \<and> times_inv nt'" "\<exists>h nt' g'. R' = run_ret (h, nt', g') \<and> times_inv nt'" for x R and R' :: "(bool \<times> node_times \<times> ecf) run"
    using that by auto
  show ?thesis
    unfolding calendar_changed_timeattrs_def Let_def case_prod_beta' if_not_P [OF False] by (intro * b r)
qed

text \<open>What a node that may be cancelled looks like.\<close>

fun st_tasks :: "stree \<Rightarrow> NState_State list" where
  "st_tasks (STree k ds h x ts) =
     (case k of K_Task \<Rightarrow> [x] | K_Alias \<Rightarrow> [] | _ \<Rightarrow> concat (map st_tasks ts))"

lemma st_tasks_skel: "st_tasks (skel n) = get_all_tasks n"
proof (induction n rule: skel.induct)
  case (1 nd ks)
  then have m: "map (st_tasks \<circ> skel) ks = map get_all_tasks ks" by auto
  show ?case by (simp add: m split: node_kind.split)
qed

definition may_cancel :: "server \<Rightarrow> addr \<Rightarrow> bool" where
  "may_cancel s q \<longleftrightarrow> (\<exists>n. node_at (sv_suites s) q = Some n \<and> node_state n = NS_COMPLETE \<and> no_running_task n)"

definition spared :: "server \<Rightarrow> Calendar_args \<Rightarrow> bool" where
  "spared s args \<longleftrightarrow> (\<forall>q \<in> set (ca_auto_cancelled_nodes args). may_cancel s q)"

lemma may_cancel_skel:
  "may_cancel s q \<longleftrightarrow>
     (\<exists>t. st_at (skels s) q = Some t \<and> ss t = NS_COMPLETE \<and> list_all (\<lambda>st. st \<noteq> NS_ACTIVE \<and> st \<noteq> NS_SUBMITTED) (st_tasks t))"
  by (auto simp: may_cancel_def no_running_task_def st_at_skel st_tasks_skel)

lemma spared_still: "spared s args \<Longrightarrow> still s s' \<Longrightarrow> spared s' args"
  unfolding spared_def may_cancel_skel still_def by (elim conjE) (simp del: map_map)

lemma data_ok_at: "node_at (sv_suites s) p = Some n \<Longrightarrow> server_ok s \<Longrightarrow> data_ok (ndata n)"
  using all_data_node_at [of data_ok "sv_suites s" p n] all_data_sel [of data_ok n] by (auto simp: server_ok_def)

lemma Node_calendarChanged_ok:
  assumes n: "node_at (sv_suites s) p = Some n" and ok: "server_ok s" and c: "0 \<le> cal_increment c" and a: "spared s args"
  shows "\<exists>h args' s'. Node_calendarChanged e sr c p hold (args, s) = run_ret (h, args', s') \<and> still s s' \<and> clocks s' = clocks s \<and> spared s' args'"
proof -
  have inv: "times_inv (nd_time (ndata n))" using data_ok_at [OF n ok] by (simp add: data_ok_def)
  obtain h nt g where r: "(if hold then run_ret (True, nd_time (ndata n), ls_ecf (sv_sys s))
      else calendar_changed_timeattrs (en_greg e) c (nd_kind (ndata n) \<in> {K_Suite, K_Family}) (task_states n)
             (nd_time (ndata n)) (ls_ecf (sv_sys s))) = run_ret (h, nt, g)" "times_inv nt"
    using timeattrs_ok [OF inv c, of "en_greg e" "nd_kind (ndata n) \<in> {K_Suite, K_Family}" "task_states n" "ls_ecf (sv_sys s)"] inv
    by (cases hold) auto
  let ?nd = "(ndata n)\<lparr>nd_time := nt\<rparr>"
  let ?s = "sv_put (put_data ?nd (sv_suites s) p) g s"
  have st: "still s ?s" using data_ok_at [OF n ok] r(2) by (intro put_still [OF n ok]) (simp_all add: same_core_def data_ok_def)
  have cl: "clocks ?s = clocks s" using clocks_put [OF n, of ?nd] by (simp add: sv_put_def)
  have "spared ?s args" by (rule spared_still [OF a st])
  moreover have "may_cancel s p" if "checkForAutoCancel c n"
    using that n by (auto simp: checkForAutoCancel_def may_cancel_def split: option.splits)
  then have "may_cancel ?s p" if "checkForAutoCancel c n"
    using that st unfolding may_cancel_skel still_def by (elim conjE) (simp del: map_map)
  ultimately show ?thesis
    using n r st cl unfolding Node_calendarChanged_def by (simp add: Let_def spared_def)
qed

lemma lateness_tick_keeps:
  "same_core nd (fst (Node_check_for_lateness c l nd g))" "data_ok (fst (Node_check_for_lateness c l nd g)) = data_ok nd"
  "nd_suite (fst (Node_check_for_lateness c l nd g)) = nd_suite nd"
proof -
  have l: "same_core nd (nd\<lparr>nd_late := x\<rparr>)" "data_ok (nd\<lparr>nd_late := x\<rparr>) = data_ok nd" for x
    by (simp_all add: same_core_def data_ok_def)
  have f: "nd_suite (fst (flag_set t nd g)) = nd_suite nd" for t nd g by (simp add: flag_set_def case_prod_beta)
  show "same_core nd (fst (Node_check_for_lateness c l nd g))" "data_ok (fst (Node_check_for_lateness c l nd g)) = data_ok nd"
    "nd_suite (fst (Node_check_for_lateness c l nd g)) = nd_suite nd"
    using same_core_trans [OF l(1) flag_keeps(1)] l(2) lateness_keeps(1) [of nd c g] lateness_keeps(2) [of c nd g]
    by (simp_all add: Node_check_for_lateness_def Node_checkForLateness_def case_prod_beta f split: option.splits)
qed

lemma Submittable_calendarChanged_ok:
  assumes n: "node_at (sv_suites s) p = Some n" and ok: "server_ok s" and c: "0 \<le> cal_increment c" and a: "spared s args"
  shows "\<exists>args' s'. Submittable_calendarChanged e sr c p l hold (args, s) = run_ret (args', s') \<and> still s s' \<and> clocks s' = clocks s \<and> spared s' args'"
proof -
  obtain h args' s1 where 1: "Node_calendarChanged e sr c p hold (args, s) = run_ret (h, args', s1)" "still s s1" "clocks s1 = clocks s" "spared s1 args'"
    using Node_calendarChanged_ok [OF assms] by blast
  obtain n1 where "node_at (sv_suites s1) p = Some n1" using still_keeps [OF 1(2)] keeps_node n by blast
  moreover have "server_ok s1" using 1(2) by (simp add: still_def)
  ultimately have "\<exists>s'. change p (Node_check_for_lateness c l) s1 = run_ret s' \<and> still s1 s' \<and>
    ((\<forall>nd g. nd_suite (fst (Node_check_for_lateness c l nd g)) = nd_suite nd) \<longrightarrow> clocks s' = clocks s1)"
    by (rule change_still) (simp_all only: lateness_tick_keeps)
  then obtain s2 where 2: "change p (Node_check_for_lateness c l) s1 = run_ret s2" "still s1 s2" "clocks s2 = clocks s1"
    by (auto simp: lateness_tick_keeps)
  from 1 2 still_trans [OF 1(2) 2(2)] spared_still [OF 1(4) 2(2)] show ?thesis by (auto simp: Submittable_calendarChanged_def)
qed

lemma calendarChanged_ok:
  "placed s0 n p \<Longrightarrow> keeps s0 (snd a) \<Longrightarrow> spared (snd a) (fst a) \<Longrightarrow> 0 \<le> cal_increment c \<Longrightarrow>
     \<exists>args' s'. calendarChanged e sr c n p il hold a = run_ret (args', s') \<and> still (snd a) s' \<and> clocks s' = clocks (snd a) \<and> spared s' args'"
  "placed_children s0 ks i p \<Longrightarrow> keeps s0 (snd a) \<Longrightarrow> spared (snd a) (fst a) \<Longrightarrow> 0 \<le> cal_increment c \<Longrightarrow>
     \<exists>args' s'. calendarChanged_children e sr c ks i p l hold a = run_ret (args', s') \<and> still (snd a) s' \<and> clocks s' = clocks (snd a) \<and>
       spared s' args'"
proof (induction s0 n p and s0 ks i p arbitrary: a il hold and a l hold rule: placed_placed_children.induct)
  case (1 s0 nd ks p)
  obtain args s where a: "a = (args, s)" by fastforce
  then have s: "keeps s0 s" "server_ok s" "spared s args" using "1.prems" keeps_ok by auto
  obtain n where n: "node_at (sv_suites s) p = Some n"
    using "1.prems"(1) kind_at_keeps [OF s(1), of p] by (auto simp: kind_at_def)
  show ?case
  proof (cases "nd_kind nd \<in> {K_Suite, K_Family}")
    case False
    with Submittable_calendarChanged_ok [OF n s(2) "1.prems"(4) s(3)] show ?thesis by (simp add: a)
  next
    case True
    obtain h args1 s1 where 1: "Node_calendarChanged e sr c p hold (args, s) = run_ret (h, args1, s1)" "still s s1" "clocks s1 = clocks s"
      "spared s1 args1" using Node_calendarChanged_ok [OF n s(2) "1.prems"(4) s(3)] by blast
    have k1: "keeps s0 s1" using keeps_trans [OF s(1)] still_keeps [OF 1(2)] by blast
    obtain args2 s2 where 2: "calendarChanged_children e sr c ks 0 p (overridden_late (nd_kind nd = K_Suite) il (nd_late (ndata n))) h (args1, s1) =
        run_ret (args2, s2)" "still s1 s2" "clocks s2 = clocks s1" "spared s2 args2"
      using "1.IH" [of "(args1, s1)" "overridden_late (nd_kind nd = K_Suite) il (nd_late (ndata n))" h] "1.prems"(1,4) k1 1(4) by auto
    from 1 2 True n still_trans [OF 1(2) 2(2)] still_refl [OF s(2)] s(3) show ?thesis by (simp add: a)
  qed
next
  case (2 s0 i p)
  then show ?case using keeps_ok still_refl by (cases a) auto
next
  case (3 s0 k ks i p)
  obtain args1 s1 where 1: "calendarChanged e sr c k (p @ [i]) (Some l) hold a = run_ret (args1, s1)" "still (snd a) s1"
    "clocks s1 = clocks (snd a)" "spared s1 args1" using "3.IH"(1) [of a "Some l" hold] "3.prems" by auto
  have "keeps s0 s1" using keeps_trans [OF "3.prems"(2)] still_keeps [OF 1(2)] by blast
  then obtain args2 s2 where 2: "calendarChanged_children e sr c ks (Suc i) p l hold (args1, s1) = run_ret (args2, s2)" "still s1 s2"
    "clocks s2 = clocks s1" "spared s2 args2" using "3.IH"(2) [of "(args1, s1)" l hold] "3.prems"(1,4) 1(4) by auto
  from 1 2 still_trans [OF 1(2) 2(2)] show ?case by simp
qed

text \<open>A calendar that can be updated: it has been started, and the clock does not run backwards.\<close>

definition clock_ready :: "gregorian \<Rightarrow> calendar_update_params \<Rightarrow> calendar \<Rightarrow> bool" where
  "clock_ready greg cp c \<longleftrightarrow> cal_started greg c \<and> 0 \<le> cup_serverPollPeriod cp \<and>
     (\<not> cup_forTest cp \<and> 60 \<le> cup_serverPollPeriod cp \<longrightarrow>
        (case (cup_timeNow cp, cal_lastTime c) of (Some t, Some l) \<Rightarrow> l \<le> t | _ \<Rightarrow> False))"

lemma clock_ready_update:
  assumes "clock_ready greg cp c"
  shows "\<exists>c'. Calendar_update greg cp c = Inr c' \<and> 0 \<le> cal_increment c' \<and> cal_ctype c' = cal_ctype c"
proof -
  obtain t where s: "cal_suiteTime c = Some t" "cal_initLocalTime c \<noteq> None" "cal_lastTime c \<noteq> None"
    using assms by (auto simp: clock_ready_def cal_started_def)
  have "\<exists>c1. Calendar_advance cp t c = Inr c1 \<and> 0 \<le> cal_increment c1 \<and> cal_ctype c1 = cal_ctype c"
    using assms s by (auto simp: clock_ready_def Calendar_advance_def split: option.splits if_splits)
  then obtain c1 where c1: "Calendar_advance cp t c = Inr c1" "0 \<le> cal_increment c1" "cal_ctype c1 = cal_ctype c" by blast
  have "cal_increment (update_cache greg x) = cal_increment x \<and> cal_ctype (update_cache greg x) = cal_ctype x" for x
    by (simp add: update_cache_def Let_def split: option.split)
  with s c1 show ?thesis by (auto simp: Calendar_update_def Let_def split: option.splits)
qed

lemma set_calendar_still:
  assumes n: "node_at (sv_suites s) [i] = Some n" and ok: "server_ok s" and c: "cal_ctype c = cal_ctype (su_cal (nd_suite (ndata n)))"
  shows "\<exists>s'. change [i] (suite_set_calendar c) s = run_ret s' \<and> still s s' \<and> i < length (clocks s) \<and>
    (\<exists>k. clocks s' = (clocks s)[i := (nd_suite (ndata n))\<lparr>su_cal := c, su_calendar_change_no := k\<rparr>])"
proof -
  let ?nd = "fst (suite_set_calendar c (ndata n) (ls_ecf (sv_sys s)))"
  have i: "i < length (sv_suites s)" "sv_suites s ! i = n" using n by (auto split: if_splits)
  have "still s (sv_put (put_data ?nd (sv_suites s) [i]) (ls_ecf (sv_sys s)) s)"
    using data_ok_at [OF n ok] c
    by (intro put_still [OF n ok]) (simp_all add: suite_set_calendar_def same_core_def hybrid_suite_def cal_hybrid_def data_ok_def)
  with n i show ?thesis
    by (auto simp: on_data_def suite_set_calendar_def sv_put_def map_update)
qed

lemma Suite_updateCalendar_ok:
  assumes n: "node_at (sv_suites s0) [i] = Some n" and k: "keeps s0 s" and a: "spared s args" and i: "i < length (clocks s)"
    and r: "su_begun (clocks s ! i) \<Longrightarrow> clock_ready (en_greg e) cp (su_cal (clocks s ! i))"
  shows "\<exists>args' s'. Suite_updateCalendar e sr cp n [i] (args, s) = run_ret (args', s') \<and> still s s' \<and> spared s' args' \<and>
    length (clocks s') = length (clocks s) \<and> (\<forall>j < length (clocks s). j \<noteq> i \<longrightarrow> clocks s' ! j = clocks s ! j) \<and>
    (if su_begun (clocks s ! i) then Calendar_update (en_greg e) cp (su_cal (clocks s ! i)) = Inr (su_cal (clocks s' ! i))
     else clocks s' ! i = clocks s ! i)"
proof -
  obtain m where m: "node_at (sv_suites s) [i] = Some m" "clocks s ! i = nd_suite (ndata m)" using i by auto
  have ok: "server_ok s" by (rule keeps_ok [OF k])
  show ?thesis
  proof (cases "su_begun (clocks s ! i)")
    case False
    with m a still_refl [OF ok] show ?thesis by (simp add: Suite_updateCalendar_def del: node_at.simps)
  next
    case True
    obtain c where c: "Calendar_update (en_greg e) cp (su_cal (clocks s ! i)) = Inr c" "0 \<le> cal_increment c"
      "cal_ctype c = cal_ctype (su_cal (clocks s ! i))" using clock_ready_update [OF r [OF True]] by blast
    obtain s1 x where 1: "change [i] (suite_set_calendar c) s = run_ret s1" "still s s1"
      "clocks s1 = (clocks s)[i := (nd_suite (ndata m))\<lparr>su_cal := c, su_calendar_change_no := x\<rparr>]"
      using set_calendar_still [OF m(1) ok] c(3) m(2) by fastforce
    have "keeps s0 s1" using keeps_trans [OF k] still_keeps [OF 1(2)] by blast
    from calendarChanged_ok(1) [OF placed_nodes(1) [OF n], of "(args, s1)" c e sr "nd_late (ndata m)" False] this spared_still [OF a 1(2)] c(2)
    obtain args2 s2 where 2: "calendarChanged e sr c n [i] (nd_late (ndata m)) False (args, s1) = run_ret (args2, s2)" "still s1 s2"
      "clocks s2 = clocks s1" "spared s2 args2" by auto
    have "Suite_updateCalendar e sr cp n [i] (args, s) = run_ret (args2, s2)"
      using m True c(1) 1(1) 2(1) unfolding Suite_updateCalendar_def by (simp del: node_at.simps)
    moreover have cl: "clocks s2 = (clocks s)[i := (nd_suite (ndata m))\<lparr>su_cal := c, su_calendar_change_no := x\<rparr>]" using 1(3) 2(3) by (simp only:)
    then have "length (clocks s2) = length (clocks s)" by (simp only: length_list_update)
    moreover have "\<forall>j < length (clocks s). j \<noteq> i \<longrightarrow> clocks s2 ! j = clocks s ! j" unfolding cl by simp
    moreover have "Calendar_update (en_greg e) cp (su_cal (clocks s ! i)) = Inr (su_cal (clocks s2 ! i))"
      unfolding c(1) cl using i by simp
    ultimately show ?thesis using 2(4) still_trans [OF 1(2) 2(2)] True by (intro exI conjI) (simp_all only: if_True)
  qed
qed

text \<open>The suites from position \<open>i\<close> on: each begun one has its calendar updated.\<close>

definition ticked :: "env \<Rightarrow> calendar_update_params \<Rightarrow> suite_data \<Rightarrow> suite_data \<Rightarrow> bool" where
  "ticked e cp su su' \<longleftrightarrow>
     (if su_begun su then Calendar_update (en_greg e) cp (su_cal su) = Inr (su_cal su') else su' = su)"

lemma update_suites_ok:
  assumes "keeps s0 s" "spared s args" "ns = drop i (sv_suites s0)"
    and "\<forall>j < length (clocks s). i \<le> j \<longrightarrow> su_begun (clocks s ! j) \<longrightarrow> clock_ready (en_greg e) cp (su_cal (clocks s ! j))"
  shows "\<exists>args' s'. update_suites e sr cp ns i (args, s) = run_ret (args', s') \<and> still s s' \<and> spared s' args' \<and>
    length (clocks s') = length (clocks s) \<and>
    (\<forall>j < length (clocks s). if j < i then clocks s' ! j = clocks s ! j else ticked e cp (clocks s ! j) (clocks s' ! j))"
  using assms
proof (induction ns arbitrary: i args s)
  case Nil
  have "length (map erase (skels s)) = length (map erase (skels s0))" using Nil.prems(1) by (simp only: keeps_def)
  then have "length (clocks s) \<le> i" using Nil.prems(3) by simp
  with Nil.prems(2) still_refl [OF keeps_ok [OF Nil.prems(1)]] show ?case by auto
next
  case (Cons n ns)
  have "length (map erase (skels s)) = length (map erase (skels s0))" using Cons.prems(1) by (simp only: keeps_def)
  then have len: "length (clocks s) = length (sv_suites s0)" by simp
  have i: "i < length (sv_suites s0)" "sv_suites s0 ! i = n" "ns = drop (Suc i) (sv_suites s0)"
    using Cons.prems(3) nth_via_drop [of i "sv_suites s0" n ns] tl_drop [of i "sv_suites s0"]
    by (auto simp: drop_Suc not_le [symmetric] dest: sym)
  have n: "node_at (sv_suites s0) [i] = Some n" using i by simp
  have ic: "i < length (clocks s)" using i(1) len by simp
  have "\<exists>args1 s1. Suite_updateCalendar e sr cp n [i] (args, s) = run_ret (args1, s1) \<and> still s s1 \<and> spared s1 args1 \<and>
    length (clocks s1) = length (clocks s) \<and> (\<forall>j < length (clocks s). j \<noteq> i \<longrightarrow> clocks s1 ! j = clocks s ! j) \<and>
    (if su_begun (clocks s ! i) then Calendar_update (en_greg e) cp (su_cal (clocks s ! i)) = Inr (su_cal (clocks s1 ! i))
     else clocks s1 ! i = clocks s ! i)"
    by (rule Suite_updateCalendar_ok [OF n Cons.prems(1,2) ic]) (use Cons.prems(4) ic in blast)
  then obtain args1 s1 where 1: "Suite_updateCalendar e sr cp n [i] (args, s) = run_ret (args1, s1)" "still s s1" "spared s1 args1"
    "length (clocks s1) = length (clocks s)" "\<forall>j < length (clocks s). j \<noteq> i \<longrightarrow> clocks s1 ! j = clocks s ! j"
    "ticked e cp (clocks s ! i) (clocks s1 ! i)" by (elim exE conjE) (rule that, assumption+, simp only: ticked_def)
  have k1: "keeps s0 s1" using keeps_trans [OF Cons.prems(1)] still_keeps [OF 1(2)] by blast
  have "\<forall>j < length (clocks s1). Suc i \<le> j \<longrightarrow> su_begun (clocks s1 ! j) \<longrightarrow> clock_ready (en_greg e) cp (su_cal (clocks s1 ! j))"
    using Cons.prems(4) 1(4,5) by (metis Suc_leD Suc_n_not_le_n)
  from Cons.IH [OF k1 1(3) i(3) this] obtain args2 s2 where 2: "update_suites e sr cp ns (Suc i) (args1, s1) = run_ret (args2, s2)"
    "still s1 s2" "spared s2 args2" "length (clocks s2) = length (clocks s1)"
    "\<forall>j < length (clocks s1). if j < Suc i then clocks s2 ! j = clocks s1 ! j else ticked e cp (clocks s1 ! j) (clocks s2 ! j)"
    by (elim exE conjE) (rule that)
  have "if j < i then clocks s2 ! j = clocks s ! j else ticked e cp (clocks s ! j) (clocks s2 ! j)" if "j < length (clocks s)" for j
  proof (cases "j = i")
    case True
    then show ?thesis using 2(5) 1(4,6) that by (metis less_irrefl lessI)
  next
    case False
    then show ?thesis using 2(5) 1(4,5) that by (metis less_SucE less_SucI not_less_eq)
  qed
  then show ?case using 1(1,4) 2(1,3,4) still_trans [OF 1(2) 2(2)] by (intro exI [of _ args2] exI [of _ s2] conjI) (simp_all only: update_suites.simps run_bind_simps, blast)
qed

section \<open>What is removed\<close>

definition is_running :: "NState_State \<Rightarrow> bool" where
  "is_running st \<longleftrightarrow> st = NS_ACTIVE \<or> st = NS_SUBMITTED"

definition running_tasks :: "node list \<Rightarrow> NState_State list" where
  "running_tasks ns = filter is_running (concat (map get_all_tasks ns))"

lemma running_Cons: "running_tasks (n # ns) = filter is_running (get_all_tasks n) @ running_tasks ns"
  by (simp add: running_tasks_def)

lemma no_running_filter: "no_running_task n \<Longrightarrow> filter is_running (get_all_tasks n) = []"
  by (auto simp: no_running_task_def is_running_def list_all_iff filter_empty_conv)

text \<open>The address of a node in the list of nodes from position \<open>i\<close> below \<open>p\<close>.\<close>

fun under :: "addr \<Rightarrow> nat \<Rightarrow> addr \<Rightarrow> addr" where
  "under p i (k # q) = p @ (i + k) # q"
| "under p i [] = p"

lemma remove_keeps_running:
  assumes "\<And>q n. node_at ns q = Some n \<Longrightarrow> under p i q \<in> set A \<Longrightarrow> no_running_task n"
  shows "running_tasks (fst (remove_nodes A i p ns)) = running_tasks ns"
  using assms
proof (induction A i p ns rule: remove_nodes.induct)
  case (2 A i p nd ks ns)
  have later: "no_running_task n" if q: "node_at ns q = Some n" "under p (Suc i) q \<in> set A" for q n
  proof -
    obtain k q' where k: "q = k # q'" using q(1) by (cases q) auto
    then show ?thesis using "2.prems" [of "Suc k # q'" n] q by (auto split: if_splits)
  qed
  have below: "no_running_task n" if q: "node_at ks q = Some n" "under (p @ [i]) 0 q \<in> set A" for q n
  proof -
    obtain k q' where k: "q = k # q'" using q(1) by (cases q) auto
    then show ?thesis using "2.prems" [of "0 # q" n] q by simp
  qed
  obtain ns1 k1 where r1: "remove_nodes A (Suc i) p ns = (ns1, k1)" by fastforce
  obtain ks1 k2 where r2: "remove_nodes A 0 (p @ [i]) ks = (ks1, k2)" by fastforce
  have h1: "running_tasks ns1 = running_tasks ns" using "2.IH"(1) later r1 by (metis fst_conv)
  show ?case
  proof (cases "p @ [i] \<in> set A")
    case True
    have "no_running_task (Node nd ks)" using "2.prems" [of "[0]" "Node nd ks"] True by simp
    with True r1 h1 show ?thesis by (simp add: running_Cons no_running_filter del: get_all_tasks.simps)
  next
    case False
    have "running_tasks ks1 = running_tasks ks" using "2.IH"(2) [OF refl r1 [symmetric] False] below r1 r2 by (metis fst_conv)
    then have "filter is_running (get_all_tasks (Node nd ks1)) = filter is_running (get_all_tasks (Node nd ks))"
      by (simp add: running_tasks_def split: node_kind.split)
    with False r1 r2 h1 show ?thesis by (simp add: running_Cons)
  qed
qed simp

lemma running_skels: "skels s' = skels s \<Longrightarrow> running_tasks (sv_suites s') = running_tasks (sv_suites s)"
proof -
  assume *: "skels s' = skels s"
  have "map get_all_tasks (sv_suites s) = map st_tasks (skels s)" for s by (simp add: st_tasks_skel)
  with * show ?thesis by (simp add: running_tasks_def del: map_map)
qed

section \<open>Properties\<close>


text \<open>C10. Auto-cancel never removes a task that is running: whatever is cancelled by an update of the calendars, the
  tasks that are submitted or active stay in the tree, in the same order.\<close>

theorem autocancel_spares_jobs:
  assumes "server_ok s"
    and "\<forall>j < length (sv_suites s). su_begun (clocks s ! j) \<longrightarrow> clock_ready (en_greg e) cp (su_cal (clocks s ! j))"
  shows "\<exists>arch s'. Defs_updateCalendar e sr cp s = run_ret (arch, s') \<and> running_tasks (sv_suites s') = running_tasks (sv_suites s)"
proof -
  let ?a = "\<lparr>ca_auto_cancelled_nodes = [], ca_auto_archive_nodes = []\<rparr>"
  have "spared s ?a" by (simp add: spared_def)
  from update_suites_ok [OF keeps_refl [OF assms(1)] this, of "sv_suites s" 0 e cp sr] assms(2)
  obtain args s' where u: "update_suites e sr cp (sv_suites s) 0 (?a, s) = run_ret (args, s')" "still s s'" "spared s' args" by auto
  let ?A = "ca_auto_cancelled_nodes args"
  have "no_running_task n" if "node_at (sv_suites s') q = Some n" "under [] 0 q \<in> set ?A" for q n
    using u(3) that by (cases q) (auto simp: spared_def may_cancel_def simp del: node_at.simps(2))
  then have "running_tasks (fst (remove_nodes ?A 0 [] (sv_suites s'))) = running_tasks (sv_suites s')" by (rule remove_keeps_running)
  also have "\<dots> = running_tasks (sv_suites s)" using u(2) by (intro running_skels) (simp add: still_def)
  finally show ?thesis using u(1) by (simp add: Defs_updateCalendar_def remove_autocancelled_def case_prod_beta sv_put_def Let_def)
qed

text \<open>A suite with a started clock, a family that is complete and to be cancelled, and a family with an active task.\<close>

definition in_state :: "NState_State \<Rightarrow> (node_data \<Rightarrow> node_data) \<Rightarrow> node \<Rightarrow> node" where
  "in_state st f n = Node (f ((ndata n)\<lparr>nd_st := \<lparr>ns_st = st, ns_state_change_no = 0\<rparr>\<rparr>)) (kids n)"

definition cancel_server :: server where
  "cancel_server = sv_put
     [in_state NS_ACTIVE (\<lambda>nd. nd\<lparr>nd_suite := (nd_suite nd)\<lparr>su_begun := True, su_cal := Calendar_begin week_only 0 0 Calendar_default\<rparr>\<rparr>)
        (mk_node K_Suite ''s''
           [in_state NS_COMPLETE (\<lambda>nd. nd\<lparr>nd_auto_cancel := Some \<lparr>ac_time = TimeSlot 0 0, ac_relative = True, ac_days = False\<rparr>\<rparr>)
              (mk_node K_Family ''f'' [in_state NS_COMPLETE (\<lambda>nd. nd) (mk_node K_Task ''a'' [])]),
            in_state NS_ACTIVE (\<lambda>nd. nd) (mk_node K_Family ''g'' [in_state NS_ACTIVE (\<lambda>nd. nd) (mk_node K_Task ''b'' [])])])]
     server_counters (quiet_server\<lparr>sv_defs := (sv_defs quiet_server)\<lparr>df_st := \<lparr>ns_st = NS_ACTIVE, ns_state_change_no = 0\<rparr>\<rparr>\<rparr>)"

definition minute_later :: calendar_update_params where
  "minute_later = \<lparr>cup_timeNow = Some 60, cup_serverPollPeriod = 60, cup_serverRunning = True, cup_forTest = False\<rparr>"

lemma cancel_server_ok:
  "server_ok cancel_server" "settled cancel_server"
  "\<forall>j < length (sv_suites cancel_server). su_begun (clocks cancel_server ! j) \<longrightarrow>
     clock_ready (en_greg demo_env) minute_later (su_cal (clocks cancel_server ! j))"
proof -
  note defs = cancel_server_def in_state_def mk_node_def quiet_server_def sv_put_def
  show "server_ok cancel_server"
    by (simp add: server_ok_def defs data_ok_def times_inv_def no_times_def plain_node_def hybrid_suite_def no_suite_def
        Calendar_default_def cal_hybrid_def Calendar_begin_def update_cache_def Let_def)
  show "settled cancel_server"
    by (simp add: settled_def defs shown_def children_state_def theComputedNodeState_cases)
  show "\<forall>j < length (sv_suites cancel_server). su_begun (clocks cancel_server ! j) \<longrightarrow>
      clock_ready (en_greg demo_env) minute_later (su_cal (clocks cancel_server ! j))"
    using Calendar_begin_started [of week_only 0 0 Calendar_default]
    by (simp add: defs clock_ready_def minute_later_def demo_env_def) (simp add: Calendar_begin_def update_cache_def Let_def)
qed


definition top_families :: "(addr list \<times> server) run \<Rightarrow> nat option" where
  "top_families r = (case r of Some (Inr (_, s)) \<Rightarrow> Some (length (concat (map kids (sv_suites s)))) | _ \<Rightarrow> None)"

theorem autocancel_spares_jobs_witness:
  "\<exists>arch s'. Defs_updateCalendar demo_env no_server minute_later cancel_server = run_ret (arch, s') \<and>
     running_tasks (sv_suites s') = [NS_ACTIVE] \<and> length (concat (map kids (sv_suites s'))) = 1"
proof -
  have "running_tasks (sv_suites cancel_server) = [NS_ACTIVE]" by code_simp
  moreover obtain arch s' where r: "Defs_updateCalendar demo_env no_server minute_later cancel_server = run_ret (arch, s')"
    "running_tasks (sv_suites s') = running_tasks (sv_suites cancel_server)"
    using autocancel_spares_jobs [OF cancel_server_ok(1,3)] by blast
  moreover have "top_families (Defs_updateCalendar demo_env no_server minute_later cancel_server) = Some 1" by code_simp
  ultimately show ?thesis by (simp add: top_families_def)
qed

text \<open>The check for running children looks at tasks only: an alias that is running under a task does not keep its family
  from being cancelled.\<close>

lemma autocancel_ignores_aliases:
  "checkForAutoCancel (Calendar_begin week_only 0 0 Calendar_default)
     (in_state NS_COMPLETE (\<lambda>nd. nd\<lparr>nd_auto_cancel := Some \<lparr>ac_time = TimeSlot 0 0, ac_relative = True, ac_days = False\<rparr>\<rparr>)
        (mk_node K_Family ''f''
           [in_state NS_COMPLETE (\<lambda>nd. nd) (mk_node K_Task ''a'' [in_state NS_ACTIVE (\<lambda>nd. nd) (mk_node K_Alias ''alias0'' [])])]))"
  by code_simp

end
