(* ===== verification/Zombie_Ctrl.thy ===== *)
theory Zombie_Ctrl
  imports Tick
begin

text \<open>
  The list of zombies that the server keeps: \<open>ZombieCtrl\<close> (\<open>Base/src/ZombieCtrl.cpp\<close>), with the search for the zombie attribute
  that applies to a node and \<open>Submittable::kill\<close> (\<open>ANode/src\<close>). A \<open>Zombie&\<close> is a position in the list or an object of its own;
  the texts for the log are left out.
\<close>

section \<open>What the server and the job say\<close>

text \<open>The replies of \<open>PreAllocatedReply\<close> that child commands and zombie commands give.\<close>

datatype stc_reply =
    Reply_ok | Reply_block_server_halted | Reply_block_on_home_server | Reply_block_zombie ZombieType
  | Reply_error string | Reply_string string

record task_cmd =
  tc_child_type :: CmdType
  tc_path :: string
  tc_password :: string
  tc_rid :: string
  tc_try_no :: int
  tc_host :: string

text \<open>\<open>zw_spawn\<close> is the answer of the operating system to the start of a kill command with the error text, \<open>zw_now\<close> the clock,
  \<open>zw_ecf_rid\<close> the value of the generated variable \<open>ECF_RID\<close> of a task.\<close>

record zombie_world =
  zw_server :: server_state
  zw_spawn :: "string \<Rightarrow> addr \<Rightarrow> bool \<times> string"
  zw_now :: int
  zw_ecf_rid :: "server \<Rightarrow> addr \<Rightarrow> string"

section \<open>Searches in the list\<close>

fun first_pos :: "('a \<Rightarrow> bool) \<Rightarrow> 'a list \<Rightarrow> nat option" where
  "first_pos P [] = None"
| "first_pos P (x # xs) = (if P x then Some 0 else map_option Suc (first_pos P xs))"

definition erase_at :: "nat \<Rightarrow> 'a list \<Rightarrow> 'a list" where
  "erase_at i xs = take i xs @ drop (Suc i) xs"

definition zombie_match :: "string \<Rightarrow> string \<Rightarrow> string \<Rightarrow> zombie \<Rightarrow> bool" where
  "zombie_match path_to_task rid password z =
     (if zo_path_to_task z = path_to_task
      then if rid = [] \<or> zo_process_or_remote_id z = [] then zo_jobs_password z = password
           else zo_process_or_remote_id z = rid
      else False)"

definition find_by_path :: "string \<Rightarrow> zombie list \<Rightarrow> nat option" where
  "find_by_path path_to_task zs = first_pos (\<lambda>z. zo_path_to_task z = path_to_task) zs"

definition find_zombie :: "string \<Rightarrow> string \<Rightarrow> string \<Rightarrow> zombie list \<Rightarrow> nat option" where
  "find_zombie path_to_task rid password zs =
     (case first_pos (zombie_match path_to_task rid password) zs of
        Some i \<Rightarrow> Some i | None \<Rightarrow> find_by_path path_to_task zs)"

text \<open>The test \<open>empty()\<close> that follows a search: a zombie without a path counts as not found.\<close>

definition existing :: "zombie list \<Rightarrow> nat option \<Rightarrow> nat option" where
  "existing zs r = (case r of None \<Rightarrow> None | Some i \<Rightarrow> if Zombie_empty (zs ! i) then None else Some i)"

definition erase_first :: "(zombie \<Rightarrow> bool) \<Rightarrow> zombie list \<Rightarrow> bool \<times> zombie list" where
  "erase_first P zs = (case first_pos P zs of None \<Rightarrow> (False, zs) | Some i \<Rightarrow> (True, erase_at i zs))"

definition ZombieCtrl_remove :: "string \<Rightarrow> string \<Rightarrow> string \<Rightarrow> zombie list \<Rightarrow> bool \<times> zombie list" where
  "ZombieCtrl_remove path_to_task rid password zs = erase_first (zombie_match path_to_task rid password) zs"

definition remove_by_path :: "string \<Rightarrow> zombie list \<Rightarrow> bool \<times> zombie list" where
  "remove_by_path path_to_task zs = erase_first (\<lambda>z. zo_path_to_task z = path_to_task) zs"

text \<open>\<open>remove\<close>, and \<open>remove_by_path\<close> when it does not find the zombie.\<close>

definition remove_one :: "task_cmd \<Rightarrow> zombie list \<Rightarrow> zombie list" where
  "remove_one c zs =
     (let (remove_ok, zs1) = ZombieCtrl_remove (tc_path c) (tc_rid c) (tc_password c) zs
      in if remove_ok then zs1 else snd (remove_by_path (tc_path c) zs1))"

section \<open>The attribute of the tree\<close>

definition findZombie :: "ZombieType \<Rightarrow> node_data \<Rightarrow> zombie_attr" where
  "findZombie zt nd =
     (case List.find (\<lambda>z. za_zombie_type z = zt) (nd_zombies nd) of None \<Rightarrow> ZombieAttr_EMPTY | Some z \<Rightarrow> z)"

fun zombie_up :: "defs \<Rightarrow> ZombieType \<Rightarrow> addr list \<Rightarrow> zombie_attr option" where
  "zombie_up d zt [] = None"
| "zombie_up d zt (p # ps) =
     (case node_at (df_suites d) p of
        None \<Rightarrow> None
      | Some n \<Rightarrow> let z = findZombie zt (ndata n) in if ZombieAttr_empty z then zombie_up d zt ps else Some z)"

text \<open>\<open>None\<close> is the result false, where the attribute passed in is left alone.\<close>

definition findParentZombie :: "defs \<Rightarrow> ZombieType \<Rightarrow> addr \<Rightarrow> zombie_attr option" where
  "findParentZombie d zt p = zombie_up d zt (up_addrs p)"

fun find_closest_matching_node :: "node \<Rightarrow> addr \<Rightarrow> string list \<Rightarrow> addr option"
  and match_closest_children :: "node list \<Rightarrow> nat \<Rightarrow> addr \<Rightarrow> string list \<Rightarrow> addr option" where
  "find_closest_matching_node (Node nd ks) p names =
     (case names of
        [] \<Rightarrow> None
      | nm # rest \<Rightarrow>
          if nd_name nd \<noteq> nm then None
          else if rest = [] then Some p
          else case match_closest_children ks 0 p rest of Some q \<Rightarrow> Some q | None \<Rightarrow> Some p)"
| "match_closest_children [] i p names = None"
| "match_closest_children (Node nd ks # ns) i p names =
     (case names of
        [] \<Rightarrow> None
      | [nm] \<Rightarrow> if nd_name nd = nm then Some (p @ [i]) else match_closest_children ns (Suc i) p names
      | _ \<Rightarrow>
          case (if nd_kind nd = K_Family then find_closest_matching_node (Node nd ks) (p @ [i]) names else None) of
            Some q \<Rightarrow> Some q
          | None \<Rightarrow> match_closest_children ns (Suc i) p names)"

fun closest_suite :: "node list \<Rightarrow> nat \<Rightarrow> string list \<Rightarrow> addr option" where
  "closest_suite [] i names = None"
| "closest_suite (n # ns) i names =
     (case find_closest_matching_node n [i] names of Some q \<Rightarrow> Some q | None \<Rightarrow> closest_suite ns (Suc i) names)"

definition Defs_find_closest_matching_node :: "defs \<Rightarrow> string \<Rightarrow> addr option" where
  "Defs_find_closest_matching_node d pathToNode =
     (let names = NodePath_split pathToNode in if names = [] then None else closest_suite (df_suites d) 0 names)"

section \<open>\<open>Submittable::kill\<close>\<close>

text \<open>What is thrown is part of the result, because the flags that were set before stay set.\<close>

definition kill_failed :: "string \<Rightarrow> addr \<Rightarrow> server \<Rightarrow> (string option \<times> server) run" where
  "kill_failed msg p s = run_bind (change p (flag_set FL_KILLCMD_FAILED) s) (\<lambda>s1. run_ret (Some msg, s1))"

definition clear_kill_flags :: "node_data \<Rightarrow> ecf \<Rightarrow> node_data \<times> ecf" where
  "clear_kill_flags nd g = (let (nd1, g1) = flag_clear FL_KILLCMD_FAILED nd g in flag_clear FL_KILLED nd1 g1)"

definition spawn_kill :: "zombie_world \<Rightarrow> string \<Rightarrow> addr \<Rightarrow> server \<Rightarrow> (string option \<times> server) run" where
  "spawn_kill w cmd p s =
     run_bind (run_option (variableSubsitution (zw_server w) (sv_defs s) p cmd)) (\<lambda>(ok, cmd1).
       if \<not> ok then kill_failed (''Submittable::kill: Variable substitution failed for ECF_KILL_CMD('' @ cmd1 @ '')'') p s
       else let (started, errorMsg) = zw_spawn w cmd1 p
            in if \<not> started then kill_failed errorMsg p s
               else run_bind (change p (flag_set FL_KILLED) s) (\<lambda>s1. run_ret (None, s1)))"

definition Submittable_kill :: "zombie_world \<Rightarrow> string \<Rightarrow> addr \<Rightarrow> server \<Rightarrow> (string option \<times> server) run" where
  "Submittable_kill w zombie_pid p s =
     run_bind (change p clear_kill_flags s) (\<lambda>s1.
       case node_at (sv_suites s1) p of
         None \<Rightarrow> Some (Inl (Undefined_behaviour ''Node*''))
       | Some n \<Rightarrow>
           if zombie_pid = [] \<and> node_state n \<noteq> NS_ACTIVE \<and> node_state n \<noteq> NS_SUBMITTED then run_ret (None, s1)
           else if zombie_pid = [] \<and> node_state n = NS_ACTIVE \<and> zw_ecf_rid w s1 p = []
           then kill_failed (''Submittable::kill: Generated variable ECF_RID is empty for task '' @ absNodePath (sv_defs s1) p) p s1
           else case findParentUserVariableValue (zw_server w) (sv_defs s1) p ''ECF_KILL_CMD'' of
                  None \<Rightarrow> kill_failed ''Submittable::kill: ECF_KILL_CMD not defined'' p s1
                | Some cmd \<Rightarrow>
                    if cmd = [] then kill_failed ''Submittable::kill: ECF_KILL_CMD not defined'' p s1
                    else spawn_kill w (if zombie_pid = [] then cmd else snd (Str_replace ''%ECF_RID%'' zombie_pid cmd)) p s1)"

section \<open>Zombies that talk to the server\<close>

datatype zref = In_list nat | Own zombie

fun zref_get :: "zombie list \<Rightarrow> zref \<Rightarrow> zombie res" where
  "zref_get zs (Own z) = Inr z"
| "zref_get zs (In_list i) = (if i < length zs then Inr (zs ! i) else Inl (Undefined_behaviour ''Zombie&''))"

text \<open>The answer of the handlers: true, false with a reply, or what \<open>kill\<close> throws.\<close>

datatype zresult = Z_adopted | Z_reply stc_reply | Z_throw string

definition set_jobs_password :: "string \<Rightarrow> node_data \<Rightarrow> ecf \<Rightarrow> node_data \<times> ecf" where
  "set_jobs_password password nd g =
     (let (n, g') = incr_state_change_no g
      in (nd\<lparr>nd_job := (nd_job nd)\<lparr>jb_paswd := password, jb_state_change_no := n\<rparr>\<rparr>, g'))"

definition adopt_job :: "task_cmd \<Rightarrow> addr \<Rightarrow> server \<Rightarrow> server run" where
  "adopt_job c p s =
     run_bind (change p (set_jobs_password (tc_password c)) s) (\<lambda>s1.
     run_bind (change p (set_process_or_remote_id (tc_rid c)) s1) (change p (flag_clear FL_ZOMBIE)))"

definition clear_zombie_flag :: "addr option \<Rightarrow> server \<Rightarrow> server run" where
  "clear_zombie_flag task s = (case task of None \<Rightarrow> run_ret s | Some p \<Rightarrow> change p (flag_clear FL_ZOMBIE) s)"

definition kill_zombie :: "zombie_world \<Rightarrow> string \<Rightarrow> addr option \<Rightarrow> zombie list \<Rightarrow> server \<Rightarrow> (zresult \<times> zombie list \<times> server) run" where
  "kill_zombie w pid task zs s =
     (case task of
        None \<Rightarrow> run_ret (Z_reply Reply_ok, zs, s)
      | Some p \<Rightarrow>
          (case node_at (sv_suites s) p of
             None \<Rightarrow> Some (Inl (Undefined_behaviour ''Node*''))
           | Some n \<Rightarrow>
               if Flag_is_set FL_KILLED (nd_flag (ndata n)) then run_ret (Z_reply Reply_ok, zs, s)
               else run_bind (Submittable_kill w pid p s) (\<lambda>(thrown, s1).
                      run_ret (case thrown of None \<Rightarrow> Z_reply Reply_ok | Some msg \<Rightarrow> Z_throw msg, zs, s1))))"

definition handle_user_actions ::
    "zombie_world \<Rightarrow> zref \<Rightarrow> addr option \<Rightarrow> task_cmd \<Rightarrow> zombie list \<times> server \<Rightarrow> (zresult \<times> zombie list \<times> server) run" where
  "handle_user_actions w theZombie task c st =
     (let (zs, s) = st
      in run_bind (Some (zref_get zs theZombie)) (\<lambda>z.
           if task \<noteq> None \<and> zo_acts UA_ADOPT z
           then run_bind (adopt_job c (the task) s) (\<lambda>s1. run_ret (Z_adopted, remove_one c zs, s1))
           else if zo_acts UA_FOB z
           then if tc_child_type c = CH_COMPLETE \<or> tc_child_type c = CH_ABORT
                then run_bind (clear_zombie_flag task s) (\<lambda>s1. run_ret (Z_reply Reply_ok, remove_one c zs, s1))
                else run_ret (Z_reply Reply_ok, zs, s)
           else if zo_acts UA_FAIL z
           then run_ret (Z_reply (Reply_error ''[ authentication failed ] Request set to FAIL via zombie setting''), zs, s)
           else if zo_acts UA_KILL z then kill_zombie w (zo_process_or_remote_id z) task zs s
           else if zo_acts UA_REMOVE z
           then let zs1 = remove_one c zs
                in run_bind (Some (zref_get zs1 theZombie)) (\<lambda>z1.
                     run_ret (Z_reply (Reply_block_zombie (zo_zombie_type z1)), zs1, s))
           else if tc_child_type c \<in> {CH_LABEL, CH_EVENT, CH_METER} then run_ret (Z_reply Reply_ok, zs, s)
           else run_ret (Z_reply (Reply_block_zombie (zo_zombie_type z)), zs, s)))"

definition update_attr :: "defs \<Rightarrow> ZombieType \<Rightarrow> addr option \<Rightarrow> zombie_attr \<Rightarrow> zombie_attr" where
  "update_attr d zt node attr =
     (case node of None \<Rightarrow> attr | Some p \<Rightarrow> (case findParentZombie d zt p of None \<Rightarrow> attr | Some a \<Rightarrow> a))"

definition refresh_zombie :: "defs \<Rightarrow> addr option \<Rightarrow> addr option \<Rightarrow> task_cmd \<Rightarrow> zombie \<Rightarrow> zombie" where
  "refresh_zombie d task closest c z =
     (let zt = (if task = None then ZT_PATH else zo_zombie_type z);
          attr = update_attr d zt task (update_attr d zt closest (get_default_attr zt))
      in z\<lparr>zo_zombie_type := zt, zo_attr := attr, zo_last_child_cmd := tc_child_type c,
            zo_host := (if zo_host z = [] then tc_host c else zo_host z),
            zo_calls := zo_calls z + 1,
            zo_process_or_remote_id :=
              (if zo_process_or_remote_id z = [] \<and> tc_rid c \<noteq> [] then tc_rid c else zo_process_or_remote_id z)\<rparr>)"

definition handle_existing_zombie ::
    "zombie_world \<Rightarrow> nat \<Rightarrow> addr option \<Rightarrow> addr option \<Rightarrow> task_cmd \<Rightarrow> zombie list \<times> server \<Rightarrow> (zresult \<times> zombie list \<times> server) run" where
  "handle_existing_zombie w i task closest c st =
     (let (zs, s) = st
      in handle_user_actions w (In_list i) task c (zs[i := refresh_zombie (sv_defs s) task closest c (zs ! i)], s))"

definition new_zombie :: "zombie_world \<Rightarrow> ZombieType \<Rightarrow> zombie_attr \<Rightarrow> task_cmd \<Rightarrow> zombie" where
  "new_zombie w zt attr c =
     Zombie (zw_now w) zt (tc_child_type c) attr (tc_path c) (tc_password c) (tc_rid c) (tc_try_no c) (tc_host c) []"

definition handle_path_zombie ::
    "zombie_world \<Rightarrow> task_cmd \<Rightarrow> zombie list \<times> server \<Rightarrow> (zresult \<times> zombie list \<times> server) run" where
  "handle_path_zombie w c st =
     (let (zs, s) = st;
          closest = Defs_find_closest_matching_node (sv_defs s) (tc_path c)
      in case existing zs (find_zombie (tc_path c) (tc_rid c) (tc_password c) zs) of
           Some i \<Rightarrow> handle_existing_zombie w i None closest c (zs, s)
         | None \<Rightarrow>
             let z = new_zombie w ZT_PATH (update_attr (sv_defs s) ZT_PATH closest (get_default_attr ZT_PATH)) c
             in handle_user_actions w (Own z) None c (zs @ [z], s))"

definition mismatch_type :: "bool \<Rightarrow> bool \<Rightarrow> ZombieType" where
  "mismatch_type password_missmatch pid_missmatch =
     (if pid_missmatch \<and> password_missmatch then ZT_ECF_PID_PASSWD
      else if pid_missmatch then ZT_ECF_PID
      else if password_missmatch then ZT_ECF_PASSWD
      else ZT_ECF)"

text \<open>A second init of an active task takes the first zombie of the task out of the list; its type is kept.\<close>

definition replace_zombie :: "bool \<Rightarrow> string \<Rightarrow> ZombieType \<Rightarrow> zombie list \<Rightarrow> ZombieType \<times> zombie list" where
  "replace_zombie again path_to_task zt zs =
     (if again
      then case find_by_path path_to_task zs of
             None \<Rightarrow> (zt, zs) | Some i \<Rightarrow> (zo_zombie_type (zs ! i), erase_at i zs)
      else (zt, zs))"

definition handle_zombie ::
    "zombie_world \<Rightarrow> addr option \<Rightarrow> bool \<Rightarrow> bool \<Rightarrow> task_cmd \<Rightarrow> zombie list \<times> server \<Rightarrow> (zresult \<times> zombie list \<times> server) run" where
  "handle_zombie w task password_missmatch pid_missmatch c st =
     (let (zs, s0) = st
      in run_bind (case task of None \<Rightarrow> run_ret s0 | Some p \<Rightarrow> change p (flag_set FL_ZOMBIE) s0) (\<lambda>s.
           case existing zs (find_zombie (tc_path c) (tc_rid c) (tc_password c) zs) of
             Some i \<Rightarrow> handle_existing_zombie w i task None c (zs, s)
           | None \<Rightarrow>
               let zt = mismatch_type password_missmatch pid_missmatch;
                   attr = update_attr (sv_defs s) zt task (get_default_attr zt);
                   again = (tc_child_type c = CH_INIT \<and>
                            pred_option (\<lambda>p. map_option node_state (node_at (sv_suites s) p) = Some NS_ACTIVE) task \<and> task \<noteq> None);
                   (zt1, zs1) = replace_zombie again (tc_path c) zt zs;
                   z = new_zombie w zt1 attr c
               in handle_user_actions w (Own z) task c (zs1 @ [z], s)))"

section \<open>Zombies made by user commands\<close>

fun get_all_active_submittables :: "node \<Rightarrow> addr \<Rightarrow> addr list"
  and active_submittables_below :: "node list \<Rightarrow> nat \<Rightarrow> addr \<Rightarrow> addr list" where
  "get_all_active_submittables (Node nd ks) p =
     (case nd_kind nd of
        K_Alias \<Rightarrow> []
      | K_Task \<Rightarrow>
          (if ns_st (nd_st nd) \<in> {NS_ACTIVE, NS_SUBMITTED} then [p] else []) @
          map (\<lambda>i. p @ [i]) (filter (\<lambda>i. node_state (ks ! i) \<in> {NS_ACTIVE, NS_SUBMITTED}) [0..<length ks])
      | _ \<Rightarrow> active_submittables_below ks 0 p)"
| "active_submittables_below [] i p = []"
| "active_submittables_below (k # ks) i p =
     get_all_active_submittables k (p @ [i]) @ active_submittables_below ks (Suc i) p"

definition add_user_zombie :: "zombie_world \<Rightarrow> string \<Rightarrow> addr \<Rightarrow> zombie list \<times> server \<Rightarrow> (zombie list \<times> server) run" where
  "add_user_zombie w user_cmd p st =
     (let (zs, s) = st
      in case node_at (sv_suites s) p of
           None \<Rightarrow> Some (Inl (Undefined_behaviour ''Node*''))
         | Some n \<Rightarrow>
             let path = absNodePath (sv_defs s) p; jb = nd_job (ndata n)
             in if node_state n \<notin> {NS_ACTIVE, NS_SUBMITTED} then run_ret (zs, s)
                else case existing zs (find_zombie path (jb_rid jb) (jb_paswd jb) zs) of
                       Some i \<Rightarrow> run_ret (zs, s)
                     | None \<Rightarrow>
                         run_bind (change p (flag_set FL_ZOMBIE) s) (\<lambda>s1.
                           run_ret (zs @ [Zombie (zw_now w) ZT_USER CH_INIT
                                            (update_attr (sv_defs s) ZT_USER (Some p) (get_default_attr ZT_USER))
                                            path (jb_paswd jb) (jb_rid jb) (jb_tryNo jb) [] user_cmd], s1)))"

fun add_user_zombies :: "zombie_world \<Rightarrow> string \<Rightarrow> addr list \<Rightarrow> zombie list \<times> server \<Rightarrow> (zombie list \<times> server) run" where
  "add_user_zombies w user_cmd [] st = run_ret st"
| "add_user_zombies w user_cmd (p # ps) st = run_bind (add_user_zombie w user_cmd p st) (add_user_zombies w user_cmd ps)"

definition add_user_zombies_node :: "zombie_world \<Rightarrow> string \<Rightarrow> addr option \<Rightarrow> zombie list \<times> server \<Rightarrow> (zombie list \<times> server) run" where
  "add_user_zombies_node w user_cmd node st =
     (case node of
        None \<Rightarrow> run_ret st
      | Some p \<Rightarrow>
          (case node_at (sv_suites (snd st)) p of
             None \<Rightarrow> Some (Inl (Undefined_behaviour ''Node*''))
           | Some n \<Rightarrow> add_user_zombies w user_cmd (get_all_active_submittables n p) st))"

definition add_user_zombies_defs :: "zombie_world \<Rightarrow> string \<Rightarrow> zombie list \<times> server \<Rightarrow> (zombie list \<times> server) run" where
  "add_user_zombies_defs w user_cmd st =
     add_user_zombies w user_cmd (active_submittables_below (sv_suites (snd st)) 0 []) st"

section \<open>Age\<close>

definition ZombieCtrl_get :: "int \<Rightarrow> zombie list \<Rightarrow> zombie list" where
  "ZombieCtrl_get time_now zs = map (\<lambda>z. z\<lparr>zo_duration := time_now - zo_creation_time z\<rparr>) zs"

definition stale :: "int \<Rightarrow> zombie \<Rightarrow> bool" where
  "stale time_now z \<longleftrightarrow> time_now - zo_creation_time z > allowed_age z"

text \<open>The loop erases with \<open>erase(i--)\<close>: at the first zombie the iterator leaves the vector.\<close>

function remove_stale_loop :: "int \<Rightarrow> nat \<Rightarrow> zombie list \<Rightarrow> zombie list res" where
  "remove_stale_loop time_now i zs =
     (if i < length zs
      then if stale time_now (zs ! i)
           then if i = 0 then Inl (Undefined_behaviour ''iterator before begin'')
                else remove_stale_loop time_now i (erase_at i zs)
           else remove_stale_loop time_now (Suc i) zs
      else Inr zs)"
  by pat_completeness auto
termination
  by (relation "measure (\<lambda>(_, i, zs). length zs - i)") (auto simp: erase_at_def)

declare remove_stale_loop.simps [simp del]

definition remove_stale_zombies :: "int \<Rightarrow> zombie list \<Rightarrow> zombie list res" where
  "remove_stale_zombies time_now zs = remove_stale_loop time_now 0 zs"

section \<open>Actions of the user\<close>

text \<open>\<open>fob\<close>, \<open>fail\<close>, \<open>adopt\<close>, \<open>block\<close> and \<open>kill\<close> with process id and password.\<close>

definition zombie_set :: "User_Action \<Rightarrow> string \<Rightarrow> string \<Rightarrow> string \<Rightarrow> zombie list \<Rightarrow> zombie list" where
  "zombie_set a path_to_task rid password zs =
     (case existing zs (find_zombie path_to_task rid password zs) of
        None \<Rightarrow> zs | Some i \<Rightarrow> zs[i := zo_set_action a (zs ! i)])"

text \<open>The zombies of a path whose password, or whose process id, is not that of the task.\<close>

definition other_password :: "string \<Rightarrow> job_data \<Rightarrow> zombie \<Rightarrow> bool" where
  "other_password path_to_task jb z \<longleftrightarrow> zo_path_to_task z = path_to_task \<and> zo_jobs_password z \<noteq> jb_paswd jb"

definition other_pid :: "string \<Rightarrow> job_data \<Rightarrow> zombie \<Rightarrow> bool" where
  "other_pid path_to_task jb z \<longleftrightarrow> zo_path_to_task z = path_to_task \<and> zo_process_or_remote_id z \<noteq> jb_rid jb"

definition real_zombie :: "string \<Rightarrow> job_data \<Rightarrow> zombie list \<Rightarrow> nat option" where
  "real_zombie path_to_task jb zs =
     (case first_pos (other_password path_to_task jb) zs of
        Some i \<Rightarrow> Some i | None \<Rightarrow> first_pos (other_pid path_to_task jb) zs)"

text \<open>\<open>fobCli\<close> and \<open>failCli\<close>. The argument \<open>task\<close> is the job of the task, if there is one.\<close>

definition set_cli :: "User_Action \<Rightarrow> string \<Rightarrow> job_data option \<Rightarrow> zombie list \<Rightarrow> zombie list" where
  "set_cli a path_to_task task zs =
     (case (case task of None \<Rightarrow> None | Some jb \<Rightarrow> real_zombie path_to_task jb zs) of
        Some i \<Rightarrow> zs[i := zo_set_action a (zs ! i)]
      | None \<Rightarrow>
          (case existing zs (find_by_path path_to_task zs) of
             None \<Rightarrow> zs | Some i \<Rightarrow> zs[i := zo_set_action a (zs ! i)]))"

definition adoptCli :: "string \<Rightarrow> job_data option \<Rightarrow> zombie list \<Rightarrow> zombie list res" where
  "adoptCli path_to_task task zs =
     (case task of
        None \<Rightarrow> Inl (Runtime_error ''ZombieCtrl::adoptCli: Can't adopt zombie, there is no corresponding task!'')
      | Some jb \<Rightarrow>
          if first_pos (other_pid path_to_task jb) zs \<noteq> None
          then Inl (Runtime_error ''ZombieCtrl::adoptCli: Can *not* adopt zombies, where process id are different.'')
          else case first_pos (other_password path_to_task jb) zs of
                 None \<Rightarrow> Inr zs | Some i \<Rightarrow> Inr (zs[i := zo_set_action UA_ADOPT (zs ! i)]))"

definition blockCli :: "string \<Rightarrow> job_data option \<Rightarrow> zombie list \<Rightarrow> zombie list res" where
  "blockCli path_to_task task zs =
     (case task of
        None \<Rightarrow> Inl (Runtime_error ''ZombieCtrl::blockCli: Can't block zombie, there is no corresponding task for path '')
      | Some jb \<Rightarrow>
          (case first_pos (other_password path_to_task jb) zs of
             None \<Rightarrow> Inr zs | Some i \<Rightarrow> Inr (zs[i := zo_set_action UA_BLOCK (zs ! i)])))"

definition removeCli :: "string \<Rightarrow> job_data option \<Rightarrow> zombie list \<Rightarrow> zombie list" where
  "removeCli path_to_task task zs =
     (case (case task of None \<Rightarrow> None | Some jb \<Rightarrow> real_zombie path_to_task jb zs) of
        Some i \<Rightarrow> erase_at i zs | None \<Rightarrow> snd (remove_by_path path_to_task zs))"

text \<open>\<open>killCli\<close>: the first part of the result is what is thrown.\<close>

definition killCli :: "zombie_world \<Rightarrow> string \<Rightarrow> addr option \<Rightarrow> zombie list \<times> server \<Rightarrow> (string option \<times> zombie list \<times> server) run" where
  "killCli w path_to_task task st =
     (let (zs, s) = st
      in case task of
           None \<Rightarrow> run_ret (Some ''ZombieCtrl::killCli: Can't kill zombie, there is no corresponding task for path '', zs, s)
         | Some p \<Rightarrow>
             (case node_at (sv_suites s) p of
                None \<Rightarrow> Some (Inl (Undefined_behaviour ''Node*''))
              | Some n \<Rightarrow>
                  (case real_zombie path_to_task (nd_job (ndata n)) zs of
                     Some i \<Rightarrow>
                       run_bind (Submittable_kill w (zo_process_or_remote_id (zs ! i)) p s) (\<lambda>(thrown, s1).
                         run_ret (thrown, if thrown = None then zs[i := zo_set_action UA_KILL (zs ! i)] else zs, s1))
                   | None \<Rightarrow>
                       (case existing zs (find_by_path path_to_task zs) of
                          None \<Rightarrow> run_ret (Some ''ZombieCtrl::killCli: Can't kill, could not locate zombie'', zs, s)
                        | Some i \<Rightarrow>
                            run_bind (Submittable_kill w (zo_process_or_remote_id (zs ! i)) p s) (\<lambda>(thrown, s1).
                              run_ret (thrown, if thrown = None
                                               then snd (remove_by_path path_to_task (zs[i := zo_set_action UA_KILL (zs ! i)]))
                                               else zs, s1))))))"

section \<open>The tree of states is left alone\<close>

lemma still_node:
  assumes "still s s'" "node_at (sv_suites s) p = Some n"
  shows "\<exists>n'. node_at (sv_suites s') p = Some n' \<and> nd_kind (ndata n') = nd_kind (ndata n) \<and> node_state n' = node_state n"
proof -
  have "st_at (skels s') p = st_at (skels s) p" using assms(1) by (simp add: still_def)
  with assms(2) obtain n' where "node_at (sv_suites s') p = Some n'" "skel n' = skel n"
    by (cases "node_at (sv_suites s') p") (auto simp: st_at_skel)
  then show ?thesis using skel_sel(1,3) by metis
qed

text \<open>A change of the data of one node that leaves its core, with what is then found there.\<close>

definition core_keeper :: "(node_data \<Rightarrow> ecf \<Rightarrow> node_data \<times> ecf) \<Rightarrow> bool" where
  "core_keeper f \<longleftrightarrow> (\<forall>nd g. same_core nd (fst (f nd g)) \<and> data_ok (fst (f nd g)) = data_ok nd)"

lemma change_at:
  assumes n: "node_at (sv_suites s) p = Some n" and ok: "server_ok s" and f: "core_keeper f"
  shows "\<exists>s'. change p f s = run_ret s' \<and> still s s' \<and>
    node_at (sv_suites s') p = Some (Node (fst (f (ndata n) (ls_ecf (sv_sys s)))) (kids n))"
proof -
  from change_still [OF n ok, of f] f obtain s' where s': "change p f s = run_ret s'" "still s s'" by (auto simp: core_keeper_def)
  obtain nd g where fn: "f (ndata n) (ls_ecf (sv_sys s)) = (nd, g)" by fastforce
  have "sv_suites s' = put_data nd (sv_suites s) p" using s'(1) n fn by (auto simp: on_data_def sv_put_def)
  with s' fn n show ?thesis by (simp add: node_at_put_same)
qed

lemma core_keepers [simp, intro]:
  "core_keeper (flag_set t)" "core_keeper (flag_clear t)" "core_keeper (set_jobs_password pw)"
  "core_keeper (set_process_or_remote_id rid)" "core_keeper clear_kill_flags"
  by (simp_all add: core_keeper_def set_jobs_password_def set_process_or_remote_id_def clear_kill_flags_def flag_clear_def flag_set_def
      same_core_def data_ok_def case_prod_beta' Let_def)

lemma kill_still:
  assumes n: "node_at (sv_suites s) p = Some n" and ok: "server_ok s"
  shows "\<exists>r s'. Submittable_kill w pid p s = run_ret (r, s') \<and> still s s'"
proof -
  from change_at [OF n ok core_keepers(5)] obtain s1 n1 where
    s1: "change p clear_kill_flags s = run_ret s1" "still s s1" "node_at (sv_suites s1) p = Some n1" by blast
  have ok1: "server_ok s1" using s1(2) by (simp add: still_def)
  have set: "\<exists>s2. change p (flag_set t) s1 = run_ret s2 \<and> still s s2" for t
    using change_at [OF s1(3) ok1 core_keepers(1) [of t]] still_trans [OF s1(2)] by blast
  have failed: "\<exists>r s2. kill_failed msg p s1 = run_ret (r, s2) \<and> still s s2" for msg
    using set [of FL_KILLCMD_FAILED] by (auto simp: kill_failed_def)
  have "\<exists>r s2. spawn_kill w cmd p s1 = run_ret (r, s2) \<and> still s s2" for cmd
  proof -
    obtain b c where "variableSubsitution (zw_server w) (sv_defs s1) p cmd = Some (b, c)"
      using variableSubsitution_returns [of "zw_server w" "sv_defs s1" p cmd] by auto
    with set [of FL_KILLED] failed show ?thesis by (auto simp: spawn_kill_def case_prod_beta' Let_def)
  qed
  with s1 failed show ?thesis by (auto simp: Submittable_kill_def split: option.split)
qed

text \<open>What a handler of a child command answers: it leaves the states, and it says that a zombie was adopted only when the task has
  taken over the password and the process of the command. The only error is a reference to a zombie that is gone.\<close>

definition task_there :: "server \<Rightarrow> addr option \<Rightarrow> bool" where
  "task_there s task \<longleftrightarrow> (\<forall>p. task = Some p \<longrightarrow> node_at (sv_suites s) p \<noteq> None)"

definition took_over :: "server \<Rightarrow> addr option \<Rightarrow> task_cmd \<Rightarrow> bool" where
  "took_over s task c \<longleftrightarrow>
     (\<exists>p n. task = Some p \<and> node_at (sv_suites s) p = Some n \<and> jb_paswd (nd_job (ndata n)) = tc_password c \<and>
            jb_rid (nd_job (ndata n)) = tc_rid c)"

definition handled :: "server \<Rightarrow> addr option \<Rightarrow> task_cmd \<Rightarrow> (zresult \<times> zombie list \<times> server) run \<Rightarrow> bool" where
  "handled s task c m \<longleftrightarrow>
     (case m of
        None \<Rightarrow> False
      | Some (Inl err) \<Rightarrow> err = Undefined_behaviour ''Zombie&''
      | Some (Inr (r, zs, s')) \<Rightarrow> still s s' \<and> (r = Z_adopted \<longrightarrow> took_over s' task c))"

lemma handled_simps [simp]:
  "handled s task c (run_ret (r, zs, s')) \<longleftrightarrow> still s s' \<and> (r = Z_adopted \<longrightarrow> took_over s' task c)"
  "handled s task c (Some (Inl err)) \<longleftrightarrow> err = Undefined_behaviour ''Zombie&''"
  by (simp_all add: handled_def)

lemma handled_if:
  "(b \<Longrightarrow> handled s task c x) \<Longrightarrow> (\<not> b \<Longrightarrow> handled s task c y) \<Longrightarrow> handled s task c (if b then x else y)"
  by simp

lemma handled_trans: "still s s1 \<Longrightarrow> handled s1 task c m \<Longrightarrow> handled s task c m"
  by (auto simp: handled_def split: option.splits sum.splits intro: still_trans)

lemma task_there_still: "still s s' \<Longrightarrow> task_there s task \<Longrightarrow> task_there s' task"
  unfolding task_there_def using still_node by blast

lemma flag_job [simp]: "nd_job (fst (flag_clear t nd g)) = nd_job nd" "nd_job (fst (flag_set t nd g)) = nd_job nd"
  by (simp_all add: flag_clear_def flag_set_def case_prod_beta' Let_def)

lemma adopt_job_ok:
  assumes "server_ok s" "task_there s (Some p)"
  shows "\<exists>s'. adopt_job c p s = run_ret s' \<and> still s s' \<and> took_over s' (Some p) c"
proof -
  from assms(2) obtain n where n: "node_at (sv_suites s) p = Some n" by (auto simp: task_there_def)
  from change_at [OF n assms(1) core_keepers(3) [of "tc_password c"]] obtain s1 where
    s1: "change p (set_jobs_password (tc_password c)) s = run_ret s1" "still s s1"
    "node_at (sv_suites s1) p = Some (Node (fst (set_jobs_password (tc_password c) (ndata n) (ls_ecf (sv_sys s)))) (kids n))" by blast
  have ok1: "server_ok s1" using s1(2) by (simp add: still_def)
  from change_at [OF s1(3) ok1 core_keepers(4) [of "tc_rid c"]] obtain s2 n2 where
    s2: "change p (set_process_or_remote_id (tc_rid c)) s1 = run_ret s2" "still s1 s2" "node_at (sv_suites s2) p = Some n2"
    "jb_paswd (nd_job (ndata n2)) = tc_password c \<and> jb_rid (nd_job (ndata n2)) = tc_rid c"
    by (auto simp: set_jobs_password_def set_process_or_remote_id_def case_prod_beta' Let_def)
  have ok2: "server_ok s2" using s2(2) by (simp add: still_def)
  from change_at [OF s2(3) ok2 core_keepers(2) [of FL_ZOMBIE]] s2(4) obtain s3 where
    "change p (flag_clear FL_ZOMBIE) s2 = run_ret s3" "still s2 s3" "took_over s3 (Some p) c" by (auto simp: took_over_def)
  with s1 s2 show ?thesis by (auto simp: adopt_job_def intro: still_trans)
qed

lemma clear_zombie_flag_ok:
  assumes "server_ok s" "task_there s task"
  shows "\<exists>s'. clear_zombie_flag task s = run_ret s' \<and> still s s'"
  using assms change_at [OF _ assms(1) core_keepers(2) [of FL_ZOMBIE]]
  by (cases task) (auto simp: clear_zombie_flag_def task_there_def still_refl)

lemma kill_zombie_ok:
  assumes "server_ok s" "task_there s task"
  shows "handled s task c (kill_zombie w pid task zs s)"
proof (cases task)
  case (Some p)
  with assms(2) obtain n where n: "node_at (sv_suites s) p = Some n" by (auto simp: task_there_def)
  from kill_still [OF n assms(1), of w pid] obtain r s' where "Submittable_kill w pid p s = run_ret (r, s')" "still s s'" by blast
  with n Some assms(1) show ?thesis by (auto simp: kill_zombie_def still_refl split: option.split)
qed (use assms in \<open>simp add: kill_zombie_def still_refl\<close>)

lemma handle_user_actions_ok:
  assumes "server_ok s" "task_there s task"
  shows "handled s task c (handle_user_actions w r task c (zs, s))"
proof (cases "zref_get zs r")
  case (Inl err)
  then show ?thesis by (cases r) (auto simp: handle_user_actions_def split: if_splits)
next
  case (Inr z)
  have "handled s task c (run_bind (adopt_job c (the task) s) (\<lambda>s1. run_ret (Z_adopted, remove_one c zs, s1)))" if "task \<noteq> None"
    using that adopt_job_ok [OF assms(1), of "the task" c] assms(2) by auto
  moreover have "handled s task c (run_bind (clear_zombie_flag task s) (\<lambda>s1. run_ret (Z_reply Reply_ok, remove_one c zs, s1)))"
    using clear_zombie_flag_ok [OF assms] by auto
  moreover have "handled s task c (run_bind (Some (zref_get (remove_one c zs) r)) (\<lambda>z1.
                     run_ret (Z_reply (Reply_block_zombie (zo_zombie_type z1)), remove_one c zs, s)))"
    using assms(1) by (cases r) (simp_all add: still_refl)
  ultimately show ?thesis
    unfolding handle_user_actions_def Let_def prod.case Inr run_bind_simps
    by (intro handled_if) (use kill_zombie_ok [OF assms] still_refl [OF assms(1)] in \<open>simp_all only: handled_simps zresult.distinct simp_thms\<close>)
qed

lemma handle_existing_zombie_ok:
  "server_ok s \<Longrightarrow> task_there s task \<Longrightarrow> handled s task c (handle_existing_zombie w i task closest c (zs, s))"
  by (simp add: handle_existing_zombie_def handle_user_actions_ok)

lemma handle_path_zombie_ok:
  "server_ok s \<Longrightarrow> handled s None c (handle_path_zombie w c (zs, s))"
  by (simp add: handle_path_zombie_def handle_existing_zombie_ok handle_user_actions_ok task_there_def Let_def split: option.split)

lemma handle_zombie_ok:
  assumes "server_ok s" "task_there s task"
  shows "handled s task c (handle_zombie w task pm qm c (zs, s))"
proof -
  have "\<exists>s1. (case task of None \<Rightarrow> run_ret s | Some p \<Rightarrow> change p (flag_set FL_ZOMBIE) s) = run_ret s1 \<and> still s s1"
    using assms change_at [OF _ assms(1) core_keepers(1) [of FL_ZOMBIE]] by (cases task) (auto simp: task_there_def still_refl)
  then obtain s1 where s1: "(case task of None \<Rightarrow> run_ret s | Some p \<Rightarrow> change p (flag_set FL_ZOMBIE) s) = run_ret s1" "still s s1"
    by blast
  have ok: "server_ok s1" using s1(2) by (simp add: still_def)
  note there = task_there_still [OF s1(2) assms(2)]
  show ?thesis
    unfolding handle_zombie_def Let_def prod.case s1(1) run_bind_simps
    using handled_trans [OF s1(2) handle_existing_zombie_ok [OF ok there]] handled_trans [OF s1(2) handle_user_actions_ok [OF ok there]]
    by (cases "existing zs (find_zombie (tc_path c) (tc_rid c) (tc_password c) zs)") (simp_all add: case_prod_beta')
qed

section \<open>Stale zombies\<close>

lemma remove_stale_loop_Suc:
  "Suc i \<le> length zs \<Longrightarrow>
   remove_stale_loop now (Suc i) zs = Inr (take (Suc i) zs @ filter (\<lambda>z. \<not> stale now z) (drop (Suc i) zs))"
proof (induction "length zs - i" arbitrary: i zs rule: less_induct)
  case less
  show ?case
  proof (cases "Suc i < length zs")
    case True
    let ?x = "zs ! Suc i"
    have d: "drop (Suc i) zs = ?x # drop (Suc (Suc i)) zs" and t: "take (Suc (Suc i)) zs = take (Suc i) zs @ [?x]"
      using True by (auto simp: Cons_nth_drop_Suc take_Suc_conv_app_nth)
    show ?thesis
    proof (cases "stale now ?x")
      case True': True
      let ?zs = "erase_at (Suc i) zs"
      have "length ?zs - i < length zs - i" "Suc i \<le> length ?zs" using True by (auto simp: erase_at_def)
      moreover have "take (Suc i) ?zs = take (Suc i) zs" "drop (Suc i) ?zs = drop (Suc (Suc i)) zs"
        using True by (auto simp: erase_at_def)
      ultimately show ?thesis
        using less(1) [of ?zs i] True True' d by (subst remove_stale_loop.simps) simp
    next
      case False
      with less(1) [of zs "Suc i"] True d t show ?thesis by (subst remove_stale_loop.simps) simp
    qed
  next
    case False
    with less(2) show ?thesis by (subst remove_stale_loop.simps) simp
  qed
qed

text \<open>The poll that removes stale zombies keeps exactly the zombies within their life time, in order; it leaves the
  bounds of the list (which is undefined) exactly when the first zombie of the list is stale.\<close>

theorem stale_zombies_removed:
  "remove_stale_zombies now zs =
     (if zs \<noteq> [] \<and> stale now (hd zs) then Inl (Undefined_behaviour ''iterator before begin'')
      else Inr (filter (\<lambda>z. \<not> stale now z) zs))"
proof (cases zs)
  case Nil
  then show ?thesis by (simp add: remove_stale_zombies_def remove_stale_loop.simps)
next
  case (Cons z zs')
  with remove_stale_loop_Suc [of 0 zs now] show ?thesis
    unfolding remove_stale_zombies_def by (subst remove_stale_loop.simps) simp
qed

section \<open>The action remove\<close>

lemma first_pos_Some: "first_pos P xs = Some i \<Longrightarrow> i < length xs \<and> P (xs ! i)"
  by (induction xs arbitrary: i) (auto split: if_splits)

text \<open>A zombie that the server knows and whose attribute says remove is erased before its type is read for the reply: what is
  read is the type of the zombie that follows it, and past the end of the list when there is none.\<close>

lemma remove_reads_next_zombie:
  assumes "find_zombie (tc_path c) (tc_rid c) (tc_password c) zs = Some i" "zo_acts UA_REMOVE (zs ! i)"
  shows "handle_user_actions w (In_list i) task c (zs, s) =
    (if Suc i < length zs then run_ret (Z_reply (Reply_block_zombie (zo_zombie_type (zs ! Suc i))), erase_at i zs, s)
     else Some (Inl (Undefined_behaviour ''Zombie&'')))"
proof -
  have i: "i < length zs"
    using assms(1) first_pos_Some by (auto simp: find_zombie_def find_by_path_def split: option.splits)
  have r: "remove_one c zs = erase_at i zs"
    using assms(1) by (auto simp: remove_one_def ZombieCtrl_remove_def remove_by_path_def erase_first_def find_zombie_def find_by_path_def
        split: option.splits)
  have a: "zo_acts a (zs ! i) \<longleftrightarrow> a = UA_REMOVE" for a using assms(2) zo_acts_unique by blast
  have "zref_get (erase_at i zs) (In_list i) =
      (if Suc i < length zs then Inr (zs ! Suc i) else Inl (Undefined_behaviour ''Zombie&''))"
    using i by (auto simp: erase_at_def nth_append)
  with i r show ?thesis by (simp add: handle_user_actions_def a Let_def)
qed

section \<open>User zombies\<close>

lemma path_names_put:
  "node_at ns p = Some n \<Longrightarrow> nd_name nd = nd_name (ndata n) \<Longrightarrow> path_names (put_data nd ns p) q = path_names ns q"
proof (induction ns p arbitrary: q rule: node_at.induct)
  case (2 ns i p)
  then show ?case by (cases q) (auto simp: nth_list_update split: if_splits)
qed simp

text \<open>The node at a relative address.\<close>

definition node_below :: "node \<Rightarrow> addr \<Rightarrow> node option" where
  "node_below n r = (if r = [] then Some n else node_at (kids n) r)"

lemma node_at_below: "node_at ns p = Some n \<Longrightarrow> node_at ns (p @ r) = node_below n r"
  by (induction ns p rule: node_at.induct) (auto simp: node_below_def split: if_splits)

lemma node_below_child: "j < length (kids n) \<Longrightarrow> node_below n (j # r) = node_below (kids n ! j) r"
  by (simp add: node_below_def)

lemma active_submittables_found:
  "q \<in> set (get_all_active_submittables n p) \<Longrightarrow>
     \<exists>r m. q = p @ r \<and> node_below n r = Some m \<and> node_state m \<in> {NS_ACTIVE, NS_SUBMITTED}"
  "q \<in> set (active_submittables_below ks i p) \<Longrightarrow>
     \<exists>j r m. j < length ks \<and> q = p @ (i + j) # r \<and> node_below (ks ! j) r = Some m \<and> node_state m \<in> {NS_ACTIVE, NS_SUBMITTED}"
proof (induction n p and ks i p arbitrary: q and q rule: get_all_active_submittables_active_submittables_below.induct)
  case (1 nd ks p)
  have container: ?case if "q \<in> set (active_submittables_below ks 0 p)" "nd_kind nd \<in> {K_Suite, K_Family}"
  proof -
    from that "1.IH" obtain j r m where "j < length ks" "q = p @ (0 + j) # r" "node_below (ks ! j) r = Some m"
      "node_state m \<in> {NS_ACTIVE, NS_SUBMITTED}" by (cases "nd_kind nd") blast+
    then show ?thesis using node_below_child [of j "Node nd ks" r] by (intro exI [of _ "j # r"] exI [of _ m]) simp
  qed
  have child: ?case if "q = p @ [j]" "j < length ks" "node_state (ks ! j) \<in> {NS_ACTIVE, NS_SUBMITTED}" for j
    using that node_below_child [of j "Node nd ks" "[]"] by (intro exI [of _ "[j]"] exI [of _ "ks ! j"]) (simp add: node_below_def)
  have own: ?case if "q = p" "ns_st (nd_st nd) \<in> {NS_ACTIVE, NS_SUBMITTED}"
    using that by (intro exI [of _ "[]"] exI [of _ "Node nd ks"]) (simp add: node_below_def)
  show ?case
  proof (cases "nd_kind nd")
    case K_Task
    with "1.prems" own child show ?thesis by (auto split: if_splits)
  qed (use "1.prems" container in auto)
next
  case (2 i p)
  then show ?case by simp
next
  case (3 k ks i p)
  from "3.prems" consider "q \<in> set (get_all_active_submittables k (p @ [i]))" | "q \<in> set (active_submittables_below ks (Suc i) p)" by auto
  then show ?case
  proof cases
    case 1
    with "3.IH"(1) obtain r m where "q = (p @ [i]) @ r" "node_below k r = Some m" "node_state m \<in> {NS_ACTIVE, NS_SUBMITTED}" by blast
    then show ?thesis by (intro exI [of _ 0] exI [of _ r] exI [of _ m]) simp
  next
    case 2
    with "3.IH"(2) obtain j r m where "j < length ks" "q = p @ (Suc i + j) # r" "node_below (ks ! j) r = Some m"
      "node_state m \<in> {NS_ACTIVE, NS_SUBMITTED}" by blast
    then show ?thesis by (intro exI [of _ "Suc j"] exI [of _ r] exI [of _ m]) simp
  qed
qed

lemma existing_path:
  assumes "existing zs (find_zombie path rid pw zs) = Some i"
  shows "i < length zs \<and> zo_path_to_task (zs ! i) = path"
proof -
  have "find_zombie path rid pw zs = Some i" using assms by (auto simp: existing_def split: option.splits if_splits)
  then show ?thesis
    using first_pos_Some [of "zombie_match path rid pw" zs i] first_pos_Some [of "\<lambda>z. zo_path_to_task z = path" zs i]
    by (auto simp: find_zombie_def find_by_path_def zombie_match_def split: option.splits if_splits)
qed

lemma flag_name [simp]: "nd_name (fst (flag_set t nd g)) = nd_name nd"
  by (simp add: flag_set_def case_prod_beta' Let_def)

text \<open>What one step, and then the loop, adds to the list.\<close>

definition with_zombies :: "addr set \<Rightarrow> zombie list \<times> server \<Rightarrow> zombie list \<times> server \<Rightarrow> bool" where
  "with_zombies Q st st' \<longleftrightarrow> still (snd st) (snd st') \<and> set (fst st) \<subseteq> set (fst st') \<and>
     path_names (sv_suites (snd st')) = path_names (sv_suites (snd st)) \<and>
     (\<forall>q\<in>Q. \<exists>z\<in>set (fst st'). zo_path_to_task z = absNodePath (sv_defs (snd st)) q)"

lemma add_user_zombie_ok:
  assumes ok: "server_ok s" and n: "node_at (sv_suites s) q = Some n" "node_state n \<in> {NS_ACTIVE, NS_SUBMITTED}"
  shows "\<exists>st'. add_user_zombie w cmd q (zs, s) = run_ret st' \<and> with_zombies {q} (zs, s) st'"
proof (cases "existing zs (find_zombie (absNodePath (sv_defs s) q) (jb_rid (nd_job (ndata n))) (jb_paswd (nd_job (ndata n))) zs)")
  case None
  from change_at [OF n(1) ok core_keepers(1) [of FL_ZOMBIE]] obtain s1 where
    s1: "change q (flag_set FL_ZOMBIE) s = run_ret s1" "still s s1" by blast
  have "path_names (sv_suites s1) = path_names (sv_suites s)"
    using s1(1) n(1) path_names_put [OF n(1), of "fst (flag_set FL_ZOMBIE (ndata n) (ls_ecf (sv_sys s)))"]
    by (auto simp: on_data_def sv_put_def case_prod_beta' fun_eq_iff)
  with s1 n None show ?thesis by (auto simp: add_user_zombie_def Let_def with_zombies_def Zombie_def)
next
  case (Some i)
  from existing_path [OF Some] have "\<exists>z\<in>set zs. zo_path_to_task z = absNodePath (sv_defs s) q" using nth_mem by blast
  with Some n still_refl [OF ok] show ?thesis by (auto simp: add_user_zombie_def Let_def with_zombies_def)
qed

lemma with_zombies_trans: "with_zombies Q st st1 \<Longrightarrow> with_zombies R st1 st2 \<Longrightarrow> with_zombies (Q \<union> R) st st2"
  unfolding with_zombies_def absNodePath_def by (auto intro: still_trans) blast

lemma add_user_zombies_ok:
  assumes "server_ok s" "\<And>q. q \<in> set qs \<Longrightarrow> \<exists>n. node_at (sv_suites s) q = Some n \<and> node_state n \<in> {NS_ACTIVE, NS_SUBMITTED}"
  shows "\<exists>st'. add_user_zombies w cmd qs (zs, s) = run_ret st' \<and> with_zombies (set qs) (zs, s) st'"
  using assms
proof (induction qs arbitrary: zs s)
  case Nil
  then show ?case by (simp add: with_zombies_def still_refl)
next
  case (Cons q qs)
  from Cons.prems(2) [of q] obtain n where "node_at (sv_suites s) q = Some n" "node_state n \<in> {NS_ACTIVE, NS_SUBMITTED}" by auto
  from add_user_zombie_ok [OF Cons.prems(1) this, of w cmd zs] obtain zs1 s1 where
    1: "add_user_zombie w cmd q (zs, s) = run_ret (zs1, s1)" "with_zombies {q} (zs, s) (zs1, s1)" by auto
  then have st: "still s s1" by (simp add: with_zombies_def)
  have "\<exists>n. node_at (sv_suites s1) r = Some n \<and> node_state n \<in> {NS_ACTIVE, NS_SUBMITTED}" if "r \<in> set qs" for r
    using Cons.prems(2) [of r] that still_node [OF st] by fastforce
  from Cons.IH [OF _ this, of zs1] st obtain st' where "add_user_zombies w cmd qs (zs1, s1) = run_ret st'" "with_zombies (set qs) (zs1, s1) st'"
    by (auto simp: still_def)
  with 1 with_zombies_trans [OF 1(2)] show ?case by auto
qed



end
