(* ===== verification/Child_Cmds.thy ===== *)
theory Child_Cmds
  imports Zombie_Ctrl
begin

text \<open>
  The commands of the jobs: \<open>TaskCmd::authenticate\<close> and \<open>doHandleRequest\<close> of \<open>InitCmd\<close>, \<open>CompleteCmd\<close>, \<open>AbortCmd\<close>, \<open>EventCmd\<close>,
  \<open>MeterCmd\<close>, \<open>LabelCmd\<close> and \<open>QueueCmd\<close> (\<open>Base/src/cts/TaskCmds.cpp\<close>), \<open>ClientToServerCmd::handleRequest\<close>, the command \<open>ZombieCmd\<close> of
  the user, and the operations of \<open>Node\<close> they call. \<open>CtsWaitCmd\<close> is not modelled: it checks an expression with a visitor. Logging
  and check points are left out.
\<close>

section \<open>The server\<close>

text \<open>\<open>job_gen_count_\<close> asks the server for a pass of job generation; \<open>bs_stats\<close> has the counters of \<open>Stats\<close> for the child commands.\<close>

record base_server =
  bs_server :: server
  bs_zombies :: "zombie list"
  bs_stats :: "CmdType \<Rightarrow> 32 word"
  bs_job_gen_count :: int

definition increment_job_generation_count :: "base_server \<Rightarrow> base_server" where
  "increment_job_generation_count b = b\<lparr>bs_job_gen_count := bs_job_gen_count b + 1\<rparr>"

definition count_cmd :: "CmdType \<Rightarrow> base_server \<Rightarrow> base_server" where
  "count_cmd t b = b\<lparr>bs_stats := (bs_stats b)(t := bs_stats b t + 1)\<rparr>"

definition allowTaskCommunication :: "server_state \<Rightarrow> bool" where
  "allowTaskCommunication sr \<longleftrightarrow> sst_state sr \<noteq> SS_HALTED"

definition DUMMY_JOBS_PASSWORD :: string where "DUMMY_JOBS_PASSWORD = ''_DJP_''"
definition FREE_JOBS_PASSWORD :: string where "FREE_JOBS_PASSWORD = ''FREE''"

section \<open>Authentication\<close>

definition get_submittable :: "defs \<Rightarrow> string \<Rightarrow> addr option" where
  "get_submittable d path_to_submittable =
     (case findAbsNode d path_to_submittable of
        None \<Rightarrow> None
      | Some p \<Rightarrow>
          (case node_at (df_suites d) p of
             None \<Rightarrow> None | Some n \<Rightarrow> if nd_kind (ndata n) \<in> {K_Task, K_Alias} then Some p else None))"

datatype auth = Auth_ok addr | Auth_reply stc_reply | Auth_throw string

definition password_missmatch :: "task_cmd \<Rightarrow> job_data \<Rightarrow> bool" where
  "password_missmatch c jb \<longleftrightarrow> jb_paswd jb \<noteq> tc_password c"

definition pid_missmatch :: "task_cmd \<Rightarrow> job_data \<Rightarrow> bool" where
  "pid_missmatch c jb \<longleftrightarrow> jb_rid jb \<noteq> [] \<and> tc_rid c \<noteq> [] \<and> jb_rid jb \<noteq> tc_rid c"

definition zombie_answer ::
    "zombie_world \<Rightarrow> addr \<Rightarrow> bool \<Rightarrow> bool \<Rightarrow> task_cmd \<Rightarrow> zombie list \<times> server \<Rightarrow> (auth \<times> zombie list \<times> server) run" where
  "zombie_answer w p pm qm c st =
     run_bind (handle_zombie w (Some p) pm qm c st) (\<lambda>(r, zs, s).
       run_ret (case r of Z_adopted \<Rightarrow> Auth_ok p | Z_reply x \<Rightarrow> Auth_reply x | Z_throw msg \<Rightarrow> Auth_throw msg, zs, s))"

text \<open>A path that names no task: the result of the handler is not looked at, and its reply must be set.\<close>

definition path_answer :: "zombie_world \<Rightarrow> task_cmd \<Rightarrow> zombie list \<times> server \<Rightarrow> (auth \<times> zombie list \<times> server) run" where
  "path_answer w c st =
     run_bind (handle_path_zombie w c st) (\<lambda>(r, zs, s).
       case r of
         Z_adopted \<Rightarrow> Some (Inl (Assert_failed ''halted.get()''))
       | Z_reply x \<Rightarrow> run_ret (Auth_reply x, zs, s)
       | Z_throw msg \<Rightarrow> run_ret (Auth_throw msg, zs, s))"

definition check_job :: "zombie_world \<Rightarrow> task_cmd \<Rightarrow> addr \<Rightarrow> node \<Rightarrow> zombie list \<times> server \<Rightarrow> (auth \<times> zombie list \<times> server) run" where
  "check_job w c p n st =
     (let (zs, s) = st; jb = nd_job (ndata n); pm = password_missmatch c jb; qm = pid_missmatch c jb
      in case node_state n of
           NS_ACTIVE \<Rightarrow>
             if tc_child_type c = CH_INIT
             then if \<not> pm \<and> \<not> qm then run_ret (Auth_reply Reply_ok, zs, s) else zombie_answer w p pm qm c st
             else if pm \<or> qm then zombie_answer w p pm qm c st else run_ret (Auth_ok p, zs, s)
         | NS_COMPLETE \<Rightarrow>
             if tc_child_type c = CH_COMPLETE
             then run_bind (change p (flag_clear FL_ZOMBIE) s) (\<lambda>s1.
                    run_ret (Auth_reply Reply_ok, snd (remove_by_path (tc_path c) zs), s1))
             else zombie_answer w p False False c st
         | NS_ABORTED \<Rightarrow>
             if tc_child_type c = CH_ABORT \<and> \<not> pm \<and> \<not> qm
             then run_ret (Auth_reply Reply_ok, snd (ZombieCtrl_remove (absNodePath (sv_defs s) p) (jb_rid jb) (jb_paswd jb) zs), s)
             else zombie_answer w p False False c st
         | _ \<Rightarrow> if pm \<or> qm then zombie_answer w p pm qm c st else run_ret (Auth_ok p, zs, s))"

definition authenticate :: "zombie_world \<Rightarrow> task_cmd \<Rightarrow> zombie list \<times> server \<Rightarrow> (auth \<times> zombie list \<times> server) run" where
  "authenticate w c st =
     (let (zs, s) = st
      in if \<not> allowTaskCommunication (zw_server w) then run_ret (Auth_reply Reply_block_server_halted, zs, s)
         else case get_submittable (sv_defs s) (tc_path c) of
                None \<Rightarrow> path_answer w c st
              | Some p \<Rightarrow>
                  (case node_at (sv_suites s) p of
                     None \<Rightarrow> Some (Inl (Undefined_behaviour ''Node*''))
                   | Some n \<Rightarrow>
                       if tc_password c = DUMMY_JOBS_PASSWORD then run_ret (Auth_ok p, zs, s)
                       else if findVariableValue ''ECF_PASS'' (ndata n) = Some FREE_JOBS_PASSWORD
                       then run_bind (change p (flag_clear FL_ZOMBIE) s) (\<lambda>s1. run_ret (Auth_ok p, zs, s1))
                       else check_job w c p n st))"

section \<open>Changes of the attributes of a node\<close>

definition update_variable :: "string \<Rightarrow> string \<Rightarrow> node_data \<Rightarrow> node_data option" where
  "update_variable name val nd =
     (case first_pos (\<lambda>v. va_n v = name) (nd_vars nd) of
        None \<Rightarrow> None | Some i \<Rightarrow> Some (nd\<lparr>nd_vars := (nd_vars nd)[i := (nd_vars nd ! i)\<lparr>va_v := val\<rparr>]\<rparr>))"

definition addVariable :: "variable \<Rightarrow> node_data \<Rightarrow> ecf \<Rightarrow> node_data \<times> ecf" where
  "addVariable v nd g =
     (let (_, g') = incr_state_change_no g
      in case update_variable (va_n v) (va_v v) nd of
           Some nd1 \<Rightarrow> (nd1, g') | None \<Rightarrow> (nd\<lparr>nd_vars := nd_vars nd @ [v]\<rparr>, g'))"

definition delete_variable_no_error :: "string \<Rightarrow> node_data \<Rightarrow> ecf \<Rightarrow> node_data \<times> ecf" where
  "delete_variable_no_error name nd g =
     (if name = [] then (nd, g)
      else case first_pos (\<lambda>v. va_n v = name) (nd_vars nd) of
             None \<Rightarrow> (nd, g)
           | Some i \<Rightarrow> let (_, g') = incr_state_change_no g in (nd\<lparr>nd_vars := erase_at i (nd_vars nd)\<rparr>, g'))"

definition each_of :: "('a \<Rightarrow> node_data \<Rightarrow> ecf \<Rightarrow> node_data \<times> ecf) \<Rightarrow> 'a list \<Rightarrow> node_data \<Rightarrow> ecf \<Rightarrow> node_data \<times> ecf" where
  "each_of f xs nd g = fold (\<lambda>x (nd, g). f x nd g) xs (nd, g)"

definition event_pos :: "string \<Rightarrow> event list \<Rightarrow> nat option" where
  "event_pos event_name_or_number es =
     (case first_pos (\<lambda>x. ev_n x = event_name_or_number) es of
        Some i \<Rightarrow> Some i
      | None \<Rightarrow>
          if event_name_or_number \<noteq> [] \<and> hd event_name_or_number \<in> set ''0123456789''
          then (case lexical_cast_int event_name_or_number of
                  None \<Rightarrow> None | Some k \<Rightarrow> first_pos (\<lambda>x. ev_number x = k) es)
          else None)"

definition set_event :: "string \<Rightarrow> bool \<Rightarrow> node_data \<Rightarrow> ecf \<Rightarrow> bool \<times> node_data \<times> ecf" where
  "set_event event_name_or_number v nd g =
     (if nd_events nd = [] then (False, nd, g)
      else case event_pos event_name_or_number (nd_events nd) of
             None \<Rightarrow> (False, nd, g)
           | Some i \<Rightarrow>
               let (x, g1) = Event_set_value v (nd_events nd ! i) g
               in (True, nd\<lparr>nd_events := (nd_events nd)[i := x]\<rparr>, g1))"

definition changeLabel :: "string \<Rightarrow> string \<Rightarrow> node_data \<Rightarrow> ecf \<Rightarrow> (node_data \<times> ecf) res" where
  "changeLabel name val nd g =
     (case first_pos (\<lambda>l. la_n l = name) (nd_labels nd) of
        None \<Rightarrow> Inl (Runtime_error ''Node::changeLabel: Could not find label '')
      | Some i \<Rightarrow>
          let (l, g1) = Label_set_new_value val (nd_labels nd ! i) g
          in Inr (nd\<lparr>nd_labels := (nd_labels nd)[i := l]\<rparr>, g1))"

section \<open>Commands\<close>

datatype job_cmd =
    InitCmd "variable list"
  | CompleteCmd "string list"
  | AbortCmd string
  | EventCmd string bool
  | MeterCmd string int
  | LabelCmd string string
  | QueueCmd string string string string

fun child_type :: "job_cmd \<Rightarrow> CmdType" where
  "child_type (InitCmd _) = CH_INIT"
| "child_type (CompleteCmd _) = CH_COMPLETE"
| "child_type (AbortCmd _) = CH_ABORT"
| "child_type (EventCmd _ _) = CH_EVENT"
| "child_type (MeterCmd _ _) = CH_METER"
| "child_type (LabelCmd _ _) = CH_LABEL"
| "child_type (QueueCmd _ _ _ _) = CH_QUEUE"

text \<open>A reply, or what is thrown: the server makes an error reply of it, and what was changed before stays changed.\<close>

datatype outcome = Replied stc_reply | Thrown string

definition replied :: "stc_reply \<Rightarrow> server \<Rightarrow> base_server \<Rightarrow> (outcome \<times> base_server) run" where
  "replied r s b = run_ret (Replied r, b\<lparr>bs_server := s\<rparr>)"

definition replied_jobs :: "stc_reply \<Rightarrow> server \<Rightarrow> base_server \<Rightarrow> (outcome \<times> base_server) run" where
  "replied_jobs r s b = run_ret (Replied r, increment_job_generation_count (b\<lparr>bs_server := s\<rparr>))"

text \<open>\<open>zombie_ctrl().remove(submittable_)\<close>.\<close>

definition remove_zombie_of :: "addr \<Rightarrow> base_server \<Rightarrow> base_server" where
  "remove_zombie_of p b =
     (case node_at (sv_suites (bs_server b)) p of
        None \<Rightarrow> b
      | Some n \<Rightarrow>
          b\<lparr>bs_zombies := snd (ZombieCtrl_remove (absNodePath (sv_defs (bs_server b)) p) (jb_rid (nd_job (ndata n)))
                                (jb_paswd (nd_job (ndata n))) (bs_zombies b))\<rparr>)"

definition set_meter_cmd :: "string \<Rightarrow> int \<Rightarrow> node_data \<Rightarrow> ecf \<Rightarrow> bool \<times> node_data \<times> ecf" where
  "set_meter_cmd name v nd g =
     (case first_pos (\<lambda>m. me_n m = name) (nd_meters nd) of
        None \<Rightarrow> (False, nd, g)
      | Some i \<Rightarrow>
          if Meter_empty (nd_meters nd ! i) then (False, nd, g)
          else case Meter_set_value v (nd_meters nd ! i) g of
                 Inl _ \<Rightarrow> (False, nd, g)
               | Inr (m, g1) \<Rightarrow> (True, nd\<lparr>nd_meters := (nd_meters nd)[i := m]\<rparr>, g1))"

definition findLabel :: "string \<Rightarrow> node_data \<Rightarrow> bool" where
  "findLabel name nd \<longleftrightarrow> list_ex (\<lambda>l. la_n l = name) (nd_labels nd)"

definition label_cmd :: "string \<Rightarrow> string \<Rightarrow> node_data \<Rightarrow> ecf \<Rightarrow> (node_data \<times> ecf) run" where
  "label_cmd name val nd g = (if findLabel name nd then Some (changeLabel name val nd g) else run_ret (nd, g))"

definition findQueue :: "string \<Rightarrow> node_data \<Rightarrow> nat option" where
  "findQueue name nd =
     (case first_pos (\<lambda>q. qa_name q = name) (nd_queues nd) of
        None \<Rightarrow> None | Some i \<Rightarrow> if QueueAttr_empty (nd_queues nd ! i) then None else Some i)"

text \<open>\<open>QueueCmd::handle_queue\<close> on a queue that is not empty.\<close>

definition handle_queue :: "string \<Rightarrow> string \<Rightarrow> queue_attr \<Rightarrow> ecf \<Rightarrow> (string \<times> queue_attr \<times> ecf) res" where
  "handle_queue action step q g =
     (if action = ''active'' then QueueAttr_active q g
      else if action = ''complete'' then res_bind (QueueAttr_complete step q g) (\<lambda>(q1, g1). Inr ([], q1, g1))
      else if action = ''aborted'' then res_bind (QueueAttr_aborted step q g) (\<lambda>(q1, g1). Inr ([], q1, g1))
      else if action = ''no_of_aborted'' then Inr (no_of_aborted q, q, g)
      else if action = ''reset'' then (let (q1, g1) = reset_index_to_first_queued_or_aborted q g in Inr ([], q1, g1))
      else Inr ([], q, g))"

definition queue_cmd_at :: "string \<Rightarrow> string \<Rightarrow> nat \<Rightarrow> addr \<Rightarrow> base_server \<Rightarrow> (outcome \<times> base_server) run" where
  "queue_cmd_at action step i q b =
     (case node_at (sv_suites (bs_server b)) q of
        None \<Rightarrow> Some (Inl (Undefined_behaviour ''Node*''))
      | Some n \<Rightarrow>
          let nd = ndata n; s = bs_server b
          in case handle_queue action step (nd_queues nd ! i) (ls_ecf (sv_sys s)) of
               Inl (Runtime_error msg) \<Rightarrow> run_ret (Thrown msg, b)
             | Inl err \<Rightarrow> Some (Inl err)
             | Inr (result, x, g1) \<Rightarrow>
                 replied_jobs (if result = [] then Reply_ok else Reply_string result)
                   (sv_put (put_data (nd\<lparr>nd_queues := (nd_queues nd)[i := x]\<rparr>) (sv_suites s) q) g1 s) b)"

fun queue_up :: "server \<Rightarrow> string \<Rightarrow> addr list \<Rightarrow> (nat \<times> addr) option" where
  "queue_up s name [] = None"
| "queue_up s name (q # qs) =
     (case (case node_at (sv_suites s) q of None \<Rightarrow> None | Some n \<Rightarrow> findQueue name (ndata n)) of
        Some i \<Rightarrow> Some (i, q) | None \<Rightarrow> queue_up s name qs)"

definition QueueCmd_doHandleRequest :: "string \<Rightarrow> string \<Rightarrow> string \<Rightarrow> string \<Rightarrow> addr \<Rightarrow> base_server \<Rightarrow> (outcome \<times> base_server) run" where
  "QueueCmd_doHandleRequest name action step path_to_node_with_queue p b =
     (let s = bs_server b
      in if path_to_node_with_queue \<noteq> []
         then case findAbsNode (sv_defs s) path_to_node_with_queue of
                None \<Rightarrow> replied (Reply_error ''QueueCmd:: Could not find node at path '') s b
              | Some q \<Rightarrow>
                  (case (case node_at (sv_suites s) q of None \<Rightarrow> None | Some n \<Rightarrow> findQueue name (ndata n)) of
                     None \<Rightarrow> replied (Reply_error ''QueueCmd:: Could not find queue of name '') s b
                   | Some i \<Rightarrow> queue_cmd_at action step i q b)
         else case queue_up s name (up_addrs p) of
                None \<Rightarrow> replied (Reply_error ''QueueCmd:: Could not find queue '') s b
              | Some (i, q) \<Rightarrow> queue_cmd_at action step i q b)"

definition InitCmd_doHandleRequest :: "env \<Rightarrow> variable list \<Rightarrow> task_cmd \<Rightarrow> addr \<Rightarrow> base_server \<Rightarrow> (outcome \<times> base_server) run" where
  "InitCmd_doHandleRequest e var_to_add c p b =
     run_bind (Submittable_init e (tc_rid c) p (bs_server b)) (\<lambda>s1.
     run_bind (change p (each_of addVariable var_to_add) s1) (\<lambda>s2. replied_jobs Reply_ok s2 b))"

definition CompleteCmd_doHandleRequest :: "env \<Rightarrow> string list \<Rightarrow> addr \<Rightarrow> base_server \<Rightarrow> (outcome \<times> base_server) run" where
  "CompleteCmd_doHandleRequest e var_to_del p b =
     (let b1 = remove_zombie_of p b
      in run_bind (Submittable_complete e p (bs_server b1)) (\<lambda>s1.
         run_bind (change p (each_of delete_variable_no_error var_to_del) s1) (\<lambda>s2. replied_jobs Reply_ok s2 b1)))"

definition AbortCmd_doHandleRequest :: "env \<Rightarrow> string \<Rightarrow> addr \<Rightarrow> base_server \<Rightarrow> (outcome \<times> base_server) run" where
  "AbortCmd_doHandleRequest e reason p b =
     (let b1 = remove_zombie_of p b
      in run_bind (set_aborted_only e (if reason = [] then ''Trap raised in job file'' else reason) p (bs_server b1)) (\<lambda>s1.
           replied_jobs Reply_ok s1 b1))"

definition EventCmd_doHandleRequest :: "string \<Rightarrow> bool \<Rightarrow> addr \<Rightarrow> base_server \<Rightarrow> (outcome \<times> base_server) run" where
  "EventCmd_doHandleRequest name v p b =
     run_bind (ask_data p (\<lambda>nd g. run_ret (set_event name v nd g)) (bs_server b)) (\<lambda>(found, s1).
       if found then replied_jobs Reply_ok s1 b else replied Reply_ok s1 b)"

definition MeterCmd_doHandleRequest :: "string \<Rightarrow> int \<Rightarrow> addr \<Rightarrow> base_server \<Rightarrow> (outcome \<times> base_server) run" where
  "MeterCmd_doHandleRequest name v p b =
     run_bind (ask_data p (\<lambda>nd g. run_ret (set_meter_cmd name v nd g)) (bs_server b)) (\<lambda>(changed, s1).
       if changed then replied_jobs Reply_ok s1 b else replied Reply_ok s1 b)"

definition LabelCmd_doHandleRequest :: "string \<Rightarrow> string \<Rightarrow> addr \<Rightarrow> base_server \<Rightarrow> (outcome \<times> base_server) run" where
  "LabelCmd_doHandleRequest name val p b =
     run_bind (on_data p (label_cmd name val) (bs_server b)) (\<lambda>s1. replied Reply_ok s1 b)"

lemmas doHandleRequest_defs =
  InitCmd_doHandleRequest_def CompleteCmd_doHandleRequest_def AbortCmd_doHandleRequest_def EventCmd_doHandleRequest_def
  MeterCmd_doHandleRequest_def LabelCmd_doHandleRequest_def

text \<open>The virtual call \<open>doHandleRequest\<close>.\<close>

fun doHandleRequest :: "env \<Rightarrow> job_cmd \<Rightarrow> task_cmd \<Rightarrow> addr \<Rightarrow> base_server \<Rightarrow> (outcome \<times> base_server) run" where
  "doHandleRequest e (InitCmd var_to_add) c p b = InitCmd_doHandleRequest e var_to_add c p b"
| "doHandleRequest e (CompleteCmd var_to_del) c p b = CompleteCmd_doHandleRequest e var_to_del p b"
| "doHandleRequest e (AbortCmd reason) c p b = AbortCmd_doHandleRequest e reason p b"
| "doHandleRequest e (EventCmd name v) c p b = EventCmd_doHandleRequest name v p b"
| "doHandleRequest e (MeterCmd name v) c p b = MeterCmd_doHandleRequest name v p b"
| "doHandleRequest e (LabelCmd name val) c p b = LabelCmd_doHandleRequest name val p b"
| "doHandleRequest e (QueueCmd name action step path) c p b = QueueCmd_doHandleRequest name action step path p b"

text \<open>\<open>ClientToServerCmd::handleRequest\<close> for a child command.\<close>

definition handleRequest :: "zombie_world \<Rightarrow> env \<Rightarrow> job_cmd \<Rightarrow> task_cmd \<Rightarrow> base_server \<Rightarrow> (outcome \<times> base_server) run" where
  "handleRequest w e k c0 b =
     (let c = c0\<lparr>tc_child_type := child_type k\<rparr>
      in run_bind (authenticate w c (bs_zombies b, bs_server b)) (\<lambda>(a, zs, s).
           let b1 = b\<lparr>bs_zombies := zs, bs_server := s\<rparr>
           in case a of
                Auth_reply r \<Rightarrow> run_ret (Replied r, b1)
              | Auth_throw msg \<Rightarrow> run_ret (Thrown msg, b1)
              | Auth_ok p \<Rightarrow> doHandleRequest e k c p (count_cmd (child_type k) b1)))"

text \<open>\<open>TcpBaseServer::handle_request\<close>.\<close>

definition server_handle_request :: "zombie_world \<Rightarrow> env \<Rightarrow> job_cmd \<Rightarrow> task_cmd \<Rightarrow> base_server \<Rightarrow> (stc_reply \<times> base_server) run" where
  "server_handle_request w e k c b =
     run_bind (handleRequest w e k c b) (\<lambda>(x, b1).
       run_ret (case x of Replied r \<Rightarrow> r | Thrown msg \<Rightarrow> Reply_error msg, b1))"

section \<open>\<open>ZombieCmd\<close>\<close>

fun zombie_cli :: "zombie_world \<Rightarrow> User_Action \<Rightarrow> string list \<Rightarrow> base_server \<Rightarrow> (outcome \<times> base_server) run" where
  "zombie_cli w a [] b = run_ret (Replied Reply_ok, b)"
| "zombie_cli w a (path # paths) b =
     (let zs = bs_zombies b; s = bs_server b;
          task = (case findAbsNode (sv_defs s) path of
                    None \<Rightarrow> None
                  | Some p \<Rightarrow>
                      (case node_at (sv_suites s) p of
                         None \<Rightarrow> None | Some n \<Rightarrow> if nd_kind (ndata n) = K_Task then Some (p, nd_job (ndata n)) else None));
          go = (\<lambda>zs1. zombie_cli w a paths (b\<lparr>bs_zombies := zs1\<rparr>));
          attempt = (\<lambda>r. case r of
                   Inl (Runtime_error msg) \<Rightarrow> run_ret (Thrown msg, b) | Inl err \<Rightarrow> Some (Inl err) | Inr zs1 \<Rightarrow> go zs1)
      in case a of
           UA_FOB \<Rightarrow> go (set_cli UA_FOB path (map_option snd task) zs)
         | UA_FAIL \<Rightarrow> go (set_cli UA_FAIL path (map_option snd task) zs)
         | UA_ADOPT \<Rightarrow> attempt (adoptCli path (map_option snd task) zs)
         | UA_REMOVE \<Rightarrow> go (removeCli path (map_option snd task) zs)
         | UA_BLOCK \<Rightarrow> attempt (blockCli path (map_option snd task) zs)
         | UA_KILL \<Rightarrow>
             run_bind (killCli w path (map_option fst task) (zs, s)) (\<lambda>(thrown, zs1, s1).
               let b1 = b\<lparr>bs_zombies := zs1, bs_server := s1\<rparr>
               in case thrown of Some msg \<Rightarrow> run_ret (Thrown msg, b1) | None \<Rightarrow> zombie_cli w a paths b1))"

definition ZombieCmd_doHandleRequest ::
    "zombie_world \<Rightarrow> User_Action \<Rightarrow> string list \<Rightarrow> string \<Rightarrow> string \<Rightarrow> base_server \<Rightarrow> (outcome \<times> base_server) run" where
  "ZombieCmd_doHandleRequest w a paths process_id password b =
     (if process_id = [] \<and> password = [] then zombie_cli w a paths b
      else case paths of
             [path] \<Rightarrow>
               run_ret (Replied Reply_ok,
                        b\<lparr>bs_zombies := (if a = UA_REMOVE then snd (ZombieCtrl_remove path process_id password (bs_zombies b))
                                         else zombie_set a path process_id password (bs_zombies b))\<rparr>)
           | _ \<Rightarrow> run_ret (Replied (Reply_error ''ZombieCmd: process_or_remote_id and password cannot be used when multiple paths are specified''), b))"

section \<open>What authentication promises\<close>

text \<open>A command is genuine for the task at \<open>p\<close> when it has the password of the task and no other process id, or one of the two
  passwords that switch the check off.\<close>

definition genuine :: "server \<Rightarrow> task_cmd \<Rightarrow> addr \<Rightarrow> bool" where
  "genuine s c p \<longleftrightarrow>
     (\<exists>n. node_at (sv_suites s) p = Some n \<and>
        (tc_password c = DUMMY_JOBS_PASSWORD \<or> findVariableValue ''ECF_PASS'' (ndata n) = Some FREE_JOBS_PASSWORD \<or>
         \<not> password_missmatch c (nd_job (ndata n)) \<and> \<not> pid_missmatch c (nd_job (ndata n))))"

definition authed :: "server \<Rightarrow> task_cmd \<Rightarrow> addr option \<Rightarrow> (auth \<times> zombie list \<times> server) run \<Rightarrow> bool" where
  "authed s c task m \<longleftrightarrow>
     (case m of
        None \<Rightarrow> False
      | Some (Inl err) \<Rightarrow> err = Undefined_behaviour ''Zombie&''
      | Some (Inr (a, zs, s')) \<Rightarrow> still s s' \<and> (\<forall>p. a = Auth_ok p \<longrightarrow> task = Some p \<and> genuine s' c p))"

lemma authed_simps [simp]:
  "authed s c task (run_ret (a, zs, s')) \<longleftrightarrow> still s s' \<and> (\<forall>p. a = Auth_ok p \<longrightarrow> task = Some p \<and> genuine s' c p)"
  "authed s c task (Some (Inl err)) \<longleftrightarrow> err = Undefined_behaviour ''Zombie&''"
  by (simp_all add: authed_def)

lemma authed_if:
  "(b \<Longrightarrow> authed s c task x) \<Longrightarrow> (\<not> b \<Longrightarrow> authed s c task y) \<Longrightarrow> authed s c task (if b then x else y)"
  by simp

lemma took_over_genuine: "took_over s (Some p) c \<Longrightarrow> genuine s c p"
  by (auto simp: took_over_def genuine_def password_missmatch_def pid_missmatch_def)

lemma handled_cases:
  assumes "handled s task c m"
  obtains "m = Some (Inl (Undefined_behaviour ''Zombie&''))"
  | r zs s' where "m = run_ret (r, zs, s')" "still s s'" "r = Z_adopted \<Longrightarrow> took_over s' task c"
  using assms by (auto simp: handled_def split: option.splits sum.splits)

lemma zombie_answer_ok:
  assumes "server_ok s" "node_at (sv_suites s) p = Some n"
  shows "authed s c (Some p) (zombie_answer w p pm qm c (zs, s))"
proof -
  have "task_there s (Some p)" using assms(2) by (simp add: task_there_def)
  from handle_zombie_ok [OF assms(1) this, of c w pm qm zs] show ?thesis
    by (rule handled_cases) (auto simp: zombie_answer_def took_over_genuine split: zresult.split)
qed

lemma path_answer_ok:
  assumes "server_ok s"
  shows "authed s c None (path_answer w c (zs, s))"
  using handle_path_zombie_ok [OF assms, of c w zs]
  by (rule handled_cases) (auto simp: path_answer_def took_over_def split: zresult.split)

lemma check_job_ok:
  assumes ok: "server_ok s" and n: "node_at (sv_suites s) p = Some n"
  shows "authed s c (Some p) (check_job w c p n (zs, s))"
proof -
  note z = zombie_answer_ok [OF ok n]
  have fine: "authed s c (Some p) (run_ret (Auth_ok p, zs, s))"
    if "\<not> (password_missmatch c (nd_job (ndata n)) \<or> pid_missmatch c (nd_job (ndata n)))"
    using that n ok by (auto simp: genuine_def still_refl)
  have "authed s c (Some p) (run_bind (change p (flag_clear FL_ZOMBIE) s) (\<lambda>s1. run_ret (Auth_reply Reply_ok, zs', s1)))" for zs'
    using change_at [OF n ok core_keepers(2) [of FL_ZOMBIE]] by auto
  with z fine still_refl [OF ok] show ?thesis
    unfolding check_job_def Let_def prod.case
    by (cases "node_state n") (auto intro!: authed_if)
qed

lemma flag_vars [simp]: "nd_vars (fst (flag_clear t nd g)) = nd_vars nd"
  by (simp add: flag_clear_def case_prod_beta' Let_def)

lemma get_submittable_node:
  "get_submittable d path = Some p \<Longrightarrow> \<exists>n. node_at (df_suites d) p = Some n \<and> nd_kind (ndata n) \<in> {K_Task, K_Alias}"
  by (auto simp: get_submittable_def split: option.splits if_splits)

lemma authenticate_ok:
  assumes "server_ok s"
  shows "authed s c (get_submittable (sv_defs s) (tc_path c)) (authenticate w c (zs, s))"
proof (cases "get_submittable (sv_defs s) (tc_path c)")
  case None
  with path_answer_ok [OF assms] still_refl [OF assms] show ?thesis by (simp add: authenticate_def)
next
  case (Some p)
  then obtain n where n: "node_at (sv_suites s) p = Some n" using get_submittable_node by blast
  have "authed s c (Some p) (run_bind (change p (flag_clear FL_ZOMBIE) s) (\<lambda>s1. run_ret (Auth_ok p, zs, s1)))"
    if "findVariableValue ''ECF_PASS'' (ndata n) = Some FREE_JOBS_PASSWORD"
    using change_at [OF n assms core_keepers(2) [of FL_ZOMBIE]] that by (auto simp: genuine_def findVariableValue_def)
  moreover have "authed s c (Some p) (run_ret (Auth_ok p, zs, s))" if "tc_password c = DUMMY_JOBS_PASSWORD"
    using n that still_refl [OF assms] by (simp add: genuine_def)
  moreover have "authed s c (Some p) (run_ret (Auth_reply Reply_block_server_halted, zs, s))"
    using still_refl [OF assms] by simp
  ultimately show ?thesis
    using n check_job_ok [OF assms n] unfolding authenticate_def Let_def prod.case Some option.case
    by (simp del: authed_simps)
qed

section \<open>What the commands keep\<close>

lemma each_of_keeper:
  assumes "\<And>x. core_keeper (f x)"
  shows "core_keeper (each_of f xs)"
proof -
  have "same_core nd (fst (each_of f xs nd g)) \<and> data_ok (fst (each_of f xs nd g)) = data_ok nd" for nd g
  proof (induction xs arbitrary: nd g)
    case (Cons x xs)
    obtain nd1 g1 where 1: "f x nd g = (nd1, g1)" by fastforce
    then have "same_core nd nd1 \<and> data_ok nd1 = data_ok nd" using assms [of x] unfolding core_keeper_def by (metis fst_conv)
    with 1 Cons [of nd1 g1] same_core_trans [of nd nd1] show ?case by (simp add: each_of_def)
  qed (simp add: each_of_def same_core_def)
  then show ?thesis by (simp add: core_keeper_def)
qed

lemma variable_keepers: "core_keeper (addVariable v)" "core_keeper (delete_variable_no_error name)"
  by (auto simp: core_keeper_def addVariable_def update_variable_def delete_variable_no_error_def same_core_def data_ok_def Let_def
      case_prod_beta' split: option.split)

text \<open>A change of the data of a node that answers a question.\<close>

lemma ask_still:
  assumes n: "node_at (sv_suites s) p = Some n" and ok: "server_ok s"
    and f: "\<And>nd g. data_ok nd \<Longrightarrow> same_core nd (fst (snd (f nd g))) \<and> data_ok (fst (snd (f nd g)))"
  shows "\<exists>b s'. ask_data p (\<lambda>nd g. run_ret (f nd g)) s = run_ret (b, s') \<and> still s s'"
proof -
  obtain b nd g where fn: "f (ndata n) (ls_ecf (sv_sys s)) = (b, nd, g)" by (metis prod_cases3)
  have "data_ok (ndata n)" by (rule data_ok_at [OF n ok])
  with f [of "ndata n" "ls_ecf (sv_sys s)"] fn have "same_core (ndata n) nd" "data_ok nd" by simp_all
  from put_still [OF n ok this] n fn show ?thesis by (simp add: ask_data_def)
qed

lemma set_event_core: "data_ok nd \<Longrightarrow> same_core nd (fst (snd (set_event name v nd g))) \<and> data_ok (fst (snd (set_event name v nd g)))"
  by (auto simp: set_event_def same_core_def data_ok_def Let_def case_prod_beta' split: option.split)

lemma list_all_update: "list_all P xs \<Longrightarrow> P y \<Longrightarrow> list_all P (xs[i := y])"
  by (auto simp: list_all_iff dest!: set_update_subset_insert [THEN subsetD])

lemma set_meter_core:
  assumes "data_ok nd"
  shows "same_core nd (fst (snd (set_meter_cmd name v nd g))) \<and> data_ok (fst (snd (set_meter_cmd name v nd g)))"
proof (cases "first_pos (\<lambda>m. me_n m = name) (nd_meters nd)")
  case (Some i)
  have i: "i < length (nd_meters nd)" using first_pos_Some [OF Some] by simp
  have "me_min (nd_meters nd ! i) \<le> me_max (nd_meters nd ! i)" using assms i by (simp add: data_ok_def list_all_length)
  with assms i Some show ?thesis
    by (auto simp: set_meter_cmd_def same_core_def data_ok_def Meter_set_value_def Let_def case_prod_beta'
        intro!: list_all_update split: sum.split if_splits)
qed (use assms in \<open>simp add: set_meter_cmd_def same_core_def\<close>)

lemma first_pos_None: "first_pos P xs = None \<longleftrightarrow> \<not> list_ex P xs"
  by (induction xs) auto

lemma label_cmd_ok:
  "\<exists>nd' g'. label_cmd name val nd g = run_ret (nd', g') \<and> same_core nd nd' \<and> data_ok nd' = data_ok nd"
proof (cases "first_pos (\<lambda>l. la_n l = name) (nd_labels nd)")
  case None
  then show ?thesis by (simp add: label_cmd_def findLabel_def first_pos_None same_core_def)
next
  case (Some i)
  then show ?thesis by (auto simp: label_cmd_def changeLabel_def same_core_def data_ok_def Let_def case_prod_beta')
qed

text \<open>A command on a queue returns or throws, and keeps one state for each step.\<close>

lemma step_index_bound: "step_index x xs = Some i \<Longrightarrow> i < length xs"
  by (induction xs arbitrary: i) (auto split: if_splits)

definition queue_result :: "(string \<times> queue_attr \<times> ecf) res \<Rightarrow> bool" where
  "queue_result r \<longleftrightarrow> (\<exists>msg. r = Inl (Runtime_error msg)) \<or>
     (\<exists>result q g. r = Inr (result, q, g) \<and> length (qa_state_vec q) = length (qa_theQueue q))"

lemma queue_result_if: "queue_result x \<Longrightarrow> queue_result y \<Longrightarrow> queue_result (if b then x else y)"
  by simp

lemma handle_queue_keeps:
  assumes "length (qa_state_vec q) = length (qa_theQueue q)"
  shows "queue_result (handle_queue action step q g)"
proof -
  have settle: "queue_result (res_bind (QueueAttr_settle st msg step q g) (\<lambda>(q1, g1). Inr ([], q1, g1)))" for st msg
  proof (cases "step_index step (qa_theQueue q)")
    case None
    then show ?thesis by (simp add: QueueAttr_settle_def queue_result_def)
  next
    case (Some i)
    with step_index_bound [OF Some] assms show ?thesis
      by (simp add: QueueAttr_settle_def queue_result_def set_step_state_def qa_incr_state_change_no_def Let_def case_prod_beta')
  qed
  moreover have "queue_result (QueueAttr_active q g)"
    using assms by (simp add: QueueAttr_active_def queue_result_def qa_in_range_def set_step_state_def qa_incr_state_change_no_def Let_def
        case_prod_beta' nat_less_iff)
  moreover have "queue_result (let (q1, g1) = reset_index_to_first_queued_or_aborted q g in Inr ([], q1, g1))"
    using assms by (simp add: reset_index_to_first_queued_or_aborted_def queue_result_def qa_incr_state_change_no_def Let_def
        case_prod_beta' split: option.split)
  moreover have "queue_result (Inr (x, q, g))" for x using assms by (simp add: queue_result_def)
  ultimately show ?thesis
    unfolding handle_queue_def QueueAttr_complete_def QueueAttr_aborted_def by (intro queue_result_if)
qed

text \<open>What a command does to the server: it returns, keeps the well-formedness and the shape of the tree, and a consistent tree
  stays consistent.\<close>

definition served :: "server \<Rightarrow> (outcome \<times> base_server) run \<Rightarrow> bool" where
  "served s m \<longleftrightarrow> (\<exists>x b. m = run_ret (x, b) \<and> keeps s (bs_server b) \<and> settled (bs_server b))"

lemma served_still: "settled s \<Longrightarrow> still s s' \<Longrightarrow> served s (replied r s' b) \<and> served s (replied_jobs r s' b)"
  using still_keeps [of s s'] by (auto simp: served_def replied_def replied_jobs_def increment_job_generation_count_def)

lemma queue_cmd_at_ok:
  assumes "server_ok (bs_server b)" "settled (bs_server b)" "node_at (sv_suites (bs_server b)) q = Some n" "findQueue name (ndata n) = Some i"
  shows "served (bs_server b) (queue_cmd_at action step i q b)"
proof -
  let ?s = "bs_server b" and ?nd = "ndata n"
  have i: "i < length (nd_queues ?nd)"
    using assms(4) first_pos_Some by (fastforce simp: findQueue_def split: option.splits if_splits)
  have d: "data_ok ?nd" by (rule data_ok_at [OF assms(3,1)])
  then have "length (qa_state_vec (nd_queues ?nd ! i)) = length (qa_theQueue (nd_queues ?nd ! i))"
    using i by (simp add: data_ok_def list_all_length)
  from handle_queue_keeps [OF this, of action step "ls_ecf (sv_sys ?s)"] show ?thesis unfolding queue_result_def
  proof (elim disjE exE conjE)
    fix msg assume "handle_queue action step (nd_queues ?nd ! i) (ls_ecf (sv_sys ?s)) = Inl (Runtime_error msg)"
    then show ?thesis using assms by (simp add: queue_cmd_at_def served_def keeps_def Let_def)
  next
    fix result x g' assume x: "handle_queue action step (nd_queues ?nd ! i) (ls_ecf (sv_sys ?s)) = Inr (result, x, g')"
      "length (qa_state_vec x) = length (qa_theQueue x)"
    have "data_ok (?nd\<lparr>nd_queues := (nd_queues ?nd)[i := x]\<rparr>)" using d x(2) by (simp add: data_ok_def list_all_update)
    from put_still [OF assms(3,1) _ this, of g'] have
      "still ?s (sv_put (put_data (?nd\<lparr>nd_queues := (nd_queues ?nd)[i := x]\<rparr>) (sv_suites ?s) q) g' ?s)" by (simp add: same_core_def)
    with served_still [OF assms(2)] x(1) assms(3) show ?thesis by (simp add: queue_cmd_at_def Let_def)
  qed
qed

lemma queue_up_node: "queue_up s name qs = Some (i, q) \<Longrightarrow> \<exists>n. node_at (sv_suites s) q = Some n \<and> findQueue name (ndata n) = Some i"
  by (induction qs) (auto split: option.splits)

lemma queue_cmd_ok:
  assumes "server_ok (bs_server b)" "settled (bs_server b)"
  shows "served (bs_server b) (QueueCmd_doHandleRequest name action step path p b)"
proof -
  have none: "served (bs_server b) (replied r (bs_server b) b)" for r
    using served_still [OF assms(2) still_refl [OF assms(1)]] by simp
  have "served (bs_server b) (queue_cmd_at action step i q b)"
    if "queue_up (bs_server b) name qs = Some (i, q)" for qs i q
    using queue_up_node [OF that] queue_cmd_at_ok [OF assms] by blast
  then show ?thesis
    using none queue_cmd_at_ok [OF assms, where name = name] by (auto simp: QueueCmd_doHandleRequest_def Let_def split: option.split)
qed

lemma on_data_returns_still:
  assumes n: "node_at (sv_suites s) p = Some n" and ok: "server_ok s"
    and f: "\<And>nd g. \<exists>nd' g'. f nd g = run_ret (nd', g') \<and> same_core nd nd' \<and> data_ok nd' = data_ok nd"
  shows "\<exists>s'. on_data p f s = run_ret s' \<and> still s s'"
proof -
  from f [of "ndata n" "ls_ecf (sv_sys s)"] data_ok_at [OF n ok] obtain nd' g' where
    "f (ndata n) (ls_ecf (sv_sys s)) = run_ret (nd', g')" "same_core (ndata n) nd'" "data_ok nd'" by blast
  with put_still [OF n ok] n show ?thesis by (simp add: on_data_def)
qed

lemma served_change:
  assumes "keeps s s1" "settled s1" "node_at (sv_suites s) p = Some n" "core_keeper f"
  shows "served s (run_bind (change p f s1) (\<lambda>s2. replied_jobs r s2 b))"
proof -
  from keeps_node [OF assms(1,3)] obtain n1 where "node_at (sv_suites s1) p = Some n1" by blast
  from change_at [OF this keeps_ok [OF assms(1)] assms(4)] obtain s2 where "change p f s1 = run_ret s2" "still s1 s2" by blast
  with still_keeps [of s1 s2] keeps_trans [OF assms(1)] assms(2) show ?thesis
    by (auto simp: served_def replied_jobs_def increment_job_generation_count_def)
qed

lemma remove_zombie_of_server [simp]: "bs_server (remove_zombie_of p b) = bs_server b"
  by (simp add: remove_zombie_of_def split: option.split)

lemma doHandleRequest_ok:
  assumes s: "server_ok (bs_server b)" "settled (bs_server b)" and e: "greg_weekly (en_greg e)"
    and n: "node_at (sv_suites (bs_server b)) p = Some n" "nd_kind (ndata n) \<noteq> K_Alias"
  shows "served (bs_server b) (doHandleRequest e k c p b)"
proof (cases k)
  case (InitCmd vars)
  from Submittable_init_ok [OF n s e] obtain s1 where "Submittable_init e (tc_rid c) p (bs_server b) = run_ret s1"
    "keeps (bs_server b) s1" "settled s1" by blast
  with served_change [OF _ _ n(1) each_of_keeper [OF variable_keepers(1)]] InitCmd show ?thesis by (simp add: doHandleRequest_defs)
next
  case (CompleteCmd names)
  from Submittable_complete_ok [OF n s e] obtain s1 where "Submittable_complete e p (bs_server b) = run_ret s1"
    "keeps (bs_server b) s1" "settled s1" by blast
  with served_change [OF _ _ n(1) each_of_keeper [OF variable_keepers(2)]] CompleteCmd show ?thesis by (simp add: doHandleRequest_defs Let_def)
next
  case (AbortCmd reason)
  from set_aborted_only_ok [OF n s e, of "if reason = [] then ''Trap raised in job file'' else reason"] AbortCmd show ?thesis
    by (auto simp: doHandleRequest_defs Let_def served_def replied_jobs_def increment_job_generation_count_def)
next
  case (EventCmd name v)
  have "\<exists>x s1. ask_data p (\<lambda>nd g. run_ret (set_event name v nd g)) (bs_server b) = run_ret (x, s1) \<and> still (bs_server b) s1"
    by (rule ask_still [OF n(1) s(1)]) (rule set_event_core)
  with served_still [OF s(2)] EventCmd show ?thesis by (auto simp: doHandleRequest_defs)
next
  case (MeterCmd name v)
  have "\<exists>x s1. ask_data p (\<lambda>nd g. run_ret (set_meter_cmd name v nd g)) (bs_server b) = run_ret (x, s1) \<and> still (bs_server b) s1"
    by (rule ask_still [OF n(1) s(1)]) (rule set_meter_core)
  with served_still [OF s(2)] MeterCmd show ?thesis by (auto simp: doHandleRequest_defs)
next
  case (LabelCmd name val)
  have "\<exists>s1. on_data p (label_cmd name val) (bs_server b) = run_ret s1 \<and> still (bs_server b) s1"
    by (rule on_data_returns_still [OF n(1) s(1)]) (rule label_cmd_ok)
  with served_still [OF s(2)] LabelCmd show ?thesis by (auto simp: doHandleRequest_defs)
next
  case (QueueCmd name action step path)
  with queue_cmd_ok [OF s] show ?thesis by simp
qed

section \<open>The theorems\<close>


lemma child_request_ok:
  assumes "server_ok (bs_server b)" "settled (bs_server b)" "greg_weekly (en_greg e)"
    "\<forall>p. get_submittable (sv_defs (bs_server b)) (tc_path c) = Some p \<longrightarrow> kind_at (bs_server b) p = Some K_Task"
  shows "handleRequest w e k c b = Some (Inl (Undefined_behaviour ''Zombie&'')) \<or>
    (\<exists>x b'. handleRequest w e k c b = run_ret (x, b') \<and> server_ok (bs_server b') \<and> settled (bs_server b') \<and>
       same_shape (bs_server b) (bs_server b'))"
proof -
  let ?c = "c\<lparr>tc_child_type := child_type k\<rparr>" and ?s = "bs_server b"
  have "authed ?s ?c (get_submittable (sv_defs ?s) (tc_path ?c)) (authenticate w ?c (bs_zombies b, ?s))"
    by (rule authenticate_ok [OF assms(1)])
  then consider "authenticate w ?c (bs_zombies b, ?s) = Some (Inl (Undefined_behaviour ''Zombie&''))"
    | a zs s' where "authenticate w ?c (bs_zombies b, ?s) = run_ret (a, zs, s')" "still ?s s'"
      "\<forall>p. a = Auth_ok p \<longrightarrow> get_submittable (sv_defs ?s) (tc_path c) = Some p"
    by (auto simp: authed_def split: option.splits sum.splits)
  then show ?thesis
  proof cases
    case 1
    then show ?thesis by (simp add: handleRequest_def Let_def)
  next
    case 2
    let ?b = "b\<lparr>bs_zombies := zs, bs_server := s'\<rparr>"
    have k: "keeps ?s s'" "settled s'" using still_keeps [OF 2(2)] assms(2) by auto
    have "served ?s (case a of Auth_reply r \<Rightarrow> run_ret (Replied r, ?b) | Auth_throw msg \<Rightarrow> run_ret (Thrown msg, ?b)
                        | Auth_ok p \<Rightarrow> doHandleRequest e k ?c p (count_cmd (child_type k) ?b))"
    proof (cases a)
      case (Auth_ok p)
      with 2(3) assms(4) obtain n where "node_at (sv_suites ?s) p = Some n" "nd_kind (ndata n) = K_Task" by (auto simp: kind_at_def)
      from still_node [OF 2(2) this(1)] this(2) obtain n' where "node_at (sv_suites s') p = Some n'" "nd_kind (ndata n') \<noteq> K_Alias" by auto
      with doHandleRequest_ok [of "count_cmd (child_type k) ?b" e p n' k ?c] k keeps_ok [OF k(1)] assms(3) Auth_ok show ?thesis
        by (auto simp: served_def count_cmd_def intro: keeps_trans)
    qed (use k in \<open>simp_all add: served_def\<close>)
    with 2(1) show ?thesis by (auto simp: handleRequest_def Let_def served_def keeps_def same_shape_def)
  qed
qed


text \<open>C19. A genuine command of a running job is let through, and leaves zombies and tree as they are.\<close>

theorem genuine_command_accepted:
  assumes "allowTaskCommunication (zw_server w)" "get_submittable (sv_defs s) (tc_path c) = Some p" "node_at (sv_suites s) p = Some n"
    "node_state n \<in> {NS_SUBMITTED, NS_ACTIVE}" "tc_child_type c = CH_INIT \<longrightarrow> node_state n = NS_SUBMITTED"
    "jb_paswd (nd_job (ndata n)) = tc_password c" "jb_rid (nd_job (ndata n)) \<in> {[], tc_rid c}"
    "findVariableValue ''ECF_PASS'' (ndata n) \<noteq> Some FREE_JOBS_PASSWORD"
  shows "authenticate w c (zs, s) = run_ret (Auth_ok p, zs, s)"
  using assms by (auto simp: authenticate_def check_job_def password_missmatch_def pid_missmatch_def Let_def)

section \<open>A job talks to the server\<close>

definition demo_world :: zombie_world where
  "demo_world = \<lparr>zw_server = no_server, zw_spawn = (\<lambda>cmd p. (True, [])), zw_now = 0, zw_ecf_rid = (\<lambda>s p. [])\<rparr>"

definition job_says :: "CmdType \<Rightarrow> string \<Rightarrow> task_cmd" where
  "job_says t password =
     \<lparr>tc_child_type = t, tc_path = ''/s/g/b'', tc_password = password, tc_rid = ''77'', tc_try_no = 1, tc_host = ''h''\<rparr>"

definition auth_part :: "(auth \<times> zombie list \<times> server) run \<Rightarrow> auth option" where
  "auth_part r = (case r of Some (Inr (a, _, _)) \<Rightarrow> Some a | _ \<Rightarrow> None)"

lemma auth_part_Some: "auth_part r = Some a \<Longrightarrow> \<exists>zs s. r = run_ret (a, zs, s)"
  by (auto simp: auth_part_def split: option.splits sum.splits)

lemma job_answers:
  "auth_part (authenticate demo_world (job_says CH_COMPLETE ''wrong'') ([], cancel_server)) = Some (Auth_reply (Reply_block_zombie ZT_ECF_PASSWD))"
  "auth_part (authenticate demo_world (job_says CH_COMPLETE []) ([], cancel_server)) = Some (Auth_ok [0, 1, 0])"
  by code_simp+


definition completed :: "(outcome \<times> base_server) run \<Rightarrow> NState_State option" where
  "completed r =
     (case r of Some (Inr (Replied Reply_ok, b)) \<Rightarrow> map_option node_state (node_at (sv_suites (bs_server b)) [0, 1, 0]) | _ \<Rightarrow> None)"

definition demo_base :: base_server where
  "demo_base = \<lparr>bs_server = cancel_server, bs_zombies = [], bs_stats = (\<lambda>_. 0), bs_job_gen_count = 0\<rparr>"

lemma demo_task:
  "get_submittable (sv_defs cancel_server) ''/s/g/b'' = Some [0, 1, 0]" "kind_at cancel_server [0, 1, 0] = Some K_Task"
  "map_option node_state (node_at (sv_suites cancel_server) [0, 1, 0]) = Some NS_ACTIVE"
  "map_option (\<lambda>n. (nd_vars (ndata n), jb_paswd (nd_job (ndata n)), jb_rid (nd_job (ndata n)))) (node_at (sv_suites cancel_server) [0, 1, 0]) =
     Some ([], [], [])"
  by code_simp+


theorem genuine_command_accepted_witness:
  "authenticate demo_world (job_says CH_EVENT []) ([], cancel_server) = run_ret (Auth_ok [0, 1, 0], [], cancel_server)"
proof -
  obtain n where n: "node_at (sv_suites cancel_server) [0, 1, 0] = Some n" using demo_task(3) by blast
  have "allowTaskCommunication (zw_server demo_world)" by code_simp
  then show ?thesis
    by (rule genuine_command_accepted [OF _ _ n])
      (use demo_task n in \<open>simp_all add: job_says_def findVariableValue_def find_value_def\<close>)
qed

end
