(* ===== verification/Archive.thy ===== *)
theory Archive
  imports Zombie_Ctrl
begin

text \<open>
  Archiving: \<open>NodeContainer::archive\<close> with its file name (\<open>NodeContainer::archive_path\<close>, \<open>Host::prefix_host_and_port\<close>), the loop
  \<open>auto_archive\<close> and the end of \<open>Defs::updateCalendar\<close> (\<open>ANode/src\<close>, \<open>ACore/src/Host.cpp\<close>). Whether a file can be written is an
  argument, because the definition is written to disk; what is thrown then is part of the result, since earlier changes stay.
  \<open>Restore\<close> reads an archive back. The second half shows that the removal of auto-cancelled nodes and archiving
  keep the tree consistent.
\<close>

section \<open>The archive of a container\<close>

text \<open>The name of the host, and what \<open>save_as_checkpt\<close> throws for a file.\<close>

record archive_world =
  aw_host :: string
  aw_save :: "string \<Rightarrow> server \<Rightarrow> addr \<Rightarrow> string option"

definition host_port_prefix :: "string \<Rightarrow> string \<Rightarrow> string" where
  "host_port_prefix host port = host @ (if port = [] then [] else ''.'' @ port)"

definition prefix_host_and_port :: "string \<Rightarrow> string \<Rightarrow> string \<Rightarrow> string" where
  "prefix_host_and_port host port file_name =
     (if file_name \<noteq> [] \<and> CHR ''/'' \<in> set file_name then file_name else host_port_prefix host port @ ''.'' @ file_name)"

definition archive_file_name :: "string \<Rightarrow> string" where
  "archive_file_name path = replaceall path ''/'' '':'' @ ''.check''"

definition archive_path :: "archive_world \<Rightarrow> server_state \<Rightarrow> defs \<Rightarrow> addr \<Rightarrow> string option" where
  "archive_path aw sr d p =
     (case findParentUserVariableValue sr d p ''ECF_HOME'' of
        None \<Rightarrow> None
      | Some home \<Rightarrow>
          let port = ServerState_find_variable sr ''ECF_PORT'';
              port1 = (if port = [] then ''3141'' else port)
          in Some (home @ ''/'' @ prefix_host_and_port (aw_host aw) port1 (archive_file_name (absNodePath d p))))"

text \<open>The container loses its children; the first part of the result is what is thrown.\<close>

definition archived_data :: "node_data \<Rightarrow> ecf \<Rightarrow> node_data \<times> ecf" where
  "archived_data nd g =
     (let (nd1, g1) = flag_set FL_ARCHIVED nd g;
          (nd2, g2) = flag_clear FL_RESTORED nd1 g1
      in (nd2, snd (incr_state_change_no g2)))"

definition NodeContainer_archive ::
    "archive_world \<Rightarrow> server_state \<Rightarrow> addr \<Rightarrow> server \<Rightarrow> (string option \<times> server) run" where
  "NodeContainer_archive aw sr p s =
     (case node_at (sv_suites s) p of
        None \<Rightarrow> Some (Inl (Undefined_behaviour ''Node*''))
      | Some n \<Rightarrow>
          if kids n = [] then run_ret (None, s)
          else case archive_path aw sr (sv_defs s) p of
                 None \<Rightarrow> run_ret (Some ''NodeContainer::archive_path: cannot find ECF_HOME'', s)
               | Some path \<Rightarrow>
                   (case aw_save aw path s p of
                      Some msg \<Rightarrow> run_ret (Some msg, s)
                    | None \<Rightarrow>
                        let (nd, g) = archived_data (ndata n) (ls_ecf (sv_sys s))
                        in run_ret (None, sv_put (put_node (Node nd []) (sv_suites s) p) g s)))"

text \<open>A node that an earlier archive has detached is skipped.\<close>

fun auto_archive :: "archive_world \<Rightarrow> server_state \<Rightarrow> addr list \<Rightarrow> server \<Rightarrow> (string option \<times> server) run" where
  "auto_archive aw sr [] s = run_ret (None, s)"
| "auto_archive aw sr (p # ps) s =
     (case node_at (sv_suites s) p of
        None \<Rightarrow> auto_archive aw sr ps s
      | Some n \<Rightarrow>
          if nd_kind (ndata n) \<in> {K_Suite, K_Family}
          then run_bind (NodeContainer_archive aw sr p s) (\<lambda>(thrown, s1).
                 case thrown of Some msg \<Rightarrow> run_ret (Some msg, s1) | None \<Rightarrow> auto_archive aw sr ps s1)
          else auto_archive aw sr ps s)"

text \<open>The whole of \<open>Defs::updateCalendar\<close>.\<close>

definition Defs_tick ::
    "env \<Rightarrow> archive_world \<Rightarrow> server_state \<Rightarrow> calendar_update_params \<Rightarrow> server \<Rightarrow> (string option \<times> server) run" where
  "Defs_tick e aw sr cp s = run_bind (Defs_updateCalendar e sr cp s) (\<lambda>(arch, s1). auto_archive aw sr arch s1)"

section \<open>Removed nodes\<close>

lemma filter_upt_Suc: "length (filter P [0..<Suc k]) = (if P 0 then 1 else 0) + length (filter (\<lambda>j. P (Suc j)) [0..<k])"
proof -
  have "[0..<Suc k] = 0 # map Suc [0..<k]" by (simp add: map_Suc_upt upt_conv_Cons del: upt_Suc)
  then show ?thesis by (simp only: filter.simps length_Cons filter_map length_map comp_def) simp
qed

lemma filter_upt_le: "length (filter P [0..<k]) \<le> k"
  using length_filter_le [of P "[0..<k]"] by simp

lemma remove_nodes_nth:
  assumes "j < length ns" "p @ [i + j] \<notin> set A"
  shows "let ns' = fst (remove_nodes A i p ns); j' = j - length (filter (\<lambda>k. p @ [i + k] \<in> set A) [0..<j])
    in j' < length ns' \<and> ns' ! j' = Node (ndata (ns ! j)) (fst (remove_nodes A 0 (p @ [i + j]) (kids (ns ! j))))"
  using assms
proof (induction ns arbitrary: i j)
  case (Cons n ns)
  obtain nd ks where n: "n = Node nd ks" by (cases n)
  show ?case
  proof (cases j)
    case 0
    with Cons.prems n show ?thesis by (simp add: case_prod_beta' Let_def)
  next
    case (Suc k)
    let ?c = "length (filter (\<lambda>k. p @ [Suc i + k] \<in> set A) [0..<k])"
    have "k < length ns" "p @ [Suc i + k] \<notin> set A" using Cons.prems Suc by simp_all
    from Cons.IH [OF this] have h: "k - ?c < length (fst (remove_nodes A (Suc i) p ns))"
      "fst (remove_nodes A (Suc i) p ns) ! (k - ?c) =
         Node (ndata (ns ! k)) (fst (remove_nodes A 0 (p @ [Suc i + k]) (kids (ns ! k))))"
      by (auto simp: Let_def)
    have c: "length (filter (\<lambda>k. p @ [i + k] \<in> set A) [0..<Suc k]) = (if p @ [i] \<in> set A then 1 else 0) + ?c"
      using filter_upt_Suc [of "\<lambda>k. p @ [i + k] \<in> set A" k] by simp
    have "?c \<le> k" by (rule filter_upt_le)
    then have "Suc k - ?c = Suc (k - ?c)" by simp
    with h n show ?thesis unfolding Suc c by (simp add: case_prod_beta' Let_def)
  qed
qed simp

text \<open>The address that \<open>surviving\<close> gives names the same node after the removal.\<close>

lemma surviving_node:
  assumes "node_at ns q = Some n" "surviving A p q = Some q'"
  shows "\<exists>n'. node_at (fst (remove_nodes A 0 p ns)) q' = Some n' \<and> ndata n' = ndata n \<and> (kids n = [] \<longrightarrow> kids n' = [])"
  using assms
proof (induction q arbitrary: ns p q')
  case (Cons i q)
  have i: "i < length ns" using Cons.prems(1) by (auto split: if_splits)
  have notin: "p @ [0 + i] \<notin> set A" using Cons.prems(2) by (auto split: if_splits)
  obtain r where r: "surviving A (p @ [i]) q = Some r" "q' = (i - length (filter (\<lambda>j. p @ [j] \<in> set A) [0..<i])) # r"
    using Cons.prems(2) by (auto split: if_splits)
  have at: "i - length (filter (\<lambda>j. p @ [j] \<in> set A) [0..<i]) < length (fst (remove_nodes A 0 p ns))"
    "fst (remove_nodes A 0 p ns) ! (i - length (filter (\<lambda>j. p @ [j] \<in> set A) [0..<i])) =
       Node (ndata (ns ! i)) (fst (remove_nodes A 0 (p @ [i]) (kids (ns ! i))))"
    using remove_nodes_nth [OF i notin] by (simp_all add: Let_def)
  show ?case
  proof (cases "q = []")
    case True
    with Cons.prems(1) r at i show ?thesis by auto
  next
    case False
    then have "node_at (kids (ns ! i)) q = Some n" using Cons.prems(1) i by simp
    from Cons.IH [OF this r(1)] False r at show ?thesis by (cases r) auto
  qed
qed simp

section \<open>Removal and archiving keep the tree consistent\<close>

fun known_tree :: "stree \<Rightarrow> bool" where
  "known_tree (STree k ds h x ts) \<longleftrightarrow> x \<noteq> NS_UNKNOWN \<and> list_all known_tree ts"

lemma known_sel: "known_tree t \<longleftrightarrow> ss t \<noteq> NS_UNKNOWN \<and> list_all known_tree (sks t)"
  by (cases t) simp

lemma known_state: "known_tree (skel n) \<Longrightarrow> node_state n \<noteq> NS_UNKNOWN"
  by (cases n) simp

text \<open>Leaving out complete nodes does not change the most significant state, as long as some node is left and none is unknown.\<close>

lemma computed_without_complete:
  assumes "set ys \<subseteq> set xs" "\<forall>x \<in> set xs. x \<in> set ys \<or> x = NS_COMPLETE" "NS_UNKNOWN \<notin> set xs" "ys \<noteq> []"
  shows "theComputedNodeState ys = theComputedNodeState xs"
proof -
  let ?x = "theComputedNodeState xs" and ?y = "theComputedNodeState ys"
  have xs: "xs \<noteq> []" using assms(1,4) by auto
  note x = theComputedNodeState_significance [OF xs] and y = theComputedNodeState_significance [OF assms(4)]
  have le: "significance ?y \<le> significance ?x" using x(2) y(1) assms(1) by blast
  have inj: "significance a = significance b \<Longrightarrow> a = b" for a b by (cases a; cases b) simp_all
  show ?thesis
  proof (cases "?x \<in> set ys")
    case True
    then have "significance ?x \<le> significance ?y" by (rule y(2))
    with le have "significance ?y = significance ?x" by simp
    then show ?thesis by (rule inj)
  next
    case False
    then have c: "?x = NS_COMPLETE" using x(1) assms(2) by blast
    have "?y \<in> set xs" by (rule subsetD [OF assms(1) y(1)])
    then have "?y \<noteq> NS_UNKNOWN" using assms(3) by metis
    with le c show ?thesis by (cases ?y) simp_all
  qed
qed

text \<open>The nodes of the addresses in \<open>A\<close> are complete.\<close>

definition only_complete :: "addr list \<Rightarrow> nat \<Rightarrow> addr \<Rightarrow> node list \<Rightarrow> bool" where
  "only_complete A i p ns \<longleftrightarrow> (\<forall>q n. node_at ns q = Some n \<longrightarrow> under p i q \<in> set A \<longrightarrow> node_state n = NS_COMPLETE)"

lemma only_complete_Cons:
  assumes "only_complete A i p (Node nd ks # ns)"
  shows "only_complete A (Suc i) p ns" "only_complete A 0 (p @ [i]) ks" "p @ [i] \<in> set A \<Longrightarrow> ns_st (nd_st nd) = NS_COMPLETE"
proof -
  note a = assms [unfolded only_complete_def, rule_format]
  show "only_complete A (Suc i) p ns"
    unfolding only_complete_def
  proof (intro allI impI)
    fix q n assume q: "node_at ns q = Some n" "under p (Suc i) q \<in> set A"
    then obtain k q' where "q = k # q'" by (cases q) auto
    with a [of "Suc k # q'" n] q show "node_state n = NS_COMPLETE" by (auto split: if_splits)
  qed
  show "only_complete A 0 (p @ [i]) ks"
    unfolding only_complete_def
  proof (intro allI impI)
    fix q n assume q: "node_at ks q = Some n" "under (p @ [i]) 0 q \<in> set A"
    then obtain k q' where "q = k # q'" by (cases q) auto
    with a [of "0 # q" n] q show "node_state n = NS_COMPLETE" by auto
  qed
  show "ns_st (nd_st nd) = NS_COMPLETE" if "p @ [i] \<in> set A" using a [of "[0]" "Node nd ks"] that by simp
qed

lemma remove_Cons:
  "fst (remove_nodes A i p (Node nd ks # ns)) =
     (if p @ [i] \<in> set A then [] else [Node nd (fst (remove_nodes A 0 (p @ [i]) ks))]) @ fst (remove_nodes A (Suc i) p ns)"
  by (simp add: case_prod_beta' Let_def)

lemma nodes_induct [case_names Nil Cons]:
  assumes "P []" "\<And>nd ks ns. P ks \<Longrightarrow> P ns \<Longrightarrow> P (Node nd ks # ns)"
  shows "P (ns :: node list)"
proof (induction ns rule: measure_induct_rule [of "size_list size"])
  case (less ns)
  show ?case
  proof (cases ns)
    case (Cons n ms)
    then show ?thesis using assms(2) less.IH by (cases n) simp
  qed (use assms(1) in simp)
qed

lemma remove_states:
  assumes "only_complete A i p ns"
  shows "set (map node_state (fst (remove_nodes A i p ns))) \<subseteq> set (map node_state ns) \<and>
    (\<forall>x \<in> set (map node_state ns). x \<in> set (map node_state (fst (remove_nodes A i p ns))) \<or> x = NS_COMPLETE)"
  using assms
proof (induction ns arbitrary: i)
  case (Cons n ns)
  obtain nd ks where n: "n = Node nd ks" by (cases n)
  note c = only_complete_Cons [OF Cons.prems [unfolded n]]
  from Cons.IH [OF c(1)] c(3) show ?case unfolding n by (auto simp: case_prod_beta' Let_def)
qed simp

lemma remove_keeps_tree:
  assumes "only_complete A i p ns" "list_all ok_tree (map skel ns)" "list_all known_tree (map skel ns)"
  shows "list_all ok_tree (map skel (fst (remove_nodes A i p ns))) \<and> list_all known_tree (map skel (fst (remove_nodes A i p ns)))"
  using assms
proof (induction ns arbitrary: i p rule: nodes_induct)
  case (Cons nd ks ns)
  note c = only_complete_Cons [OF Cons.prems(1)]
  have k: "ss (skel (Node nd ks)) = shown (skel (Node nd ks))" "list_all ok_tree (map skel ks)"
    "ns_st (nd_st nd) \<noteq> NS_UNKNOWN" "list_all known_tree (map skel ks)"
    using Cons.prems(2,3) ok_tree_sel [of "skel (Node nd ks)"] known_sel [of "skel (Node nd ks)"] by simp_all
  let ?ks = "fst (remove_nodes A 0 (p @ [i]) ks)"
  have h1: "list_all ok_tree (map skel (fst (remove_nodes A (Suc i) p ns))) \<and> list_all known_tree (map skel (fst (remove_nodes A (Suc i) p ns)))"
    by (rule Cons.IH(2) [OF c(1)]) (use Cons.prems(2,3) in simp_all)
  note h2 = Cons.IH(1) [OF c(2) k(2,4)]
  have "children_state (ns_st (nd_st nd)) (map skel ?ks) = children_state (ns_st (nd_st nd)) (map skel ks)" if "?ks \<noteq> []"
  proof -
    have s: "set (map node_state ?ks) \<subseteq> set (map node_state ks)" "\<forall>x \<in> set (map node_state ks). x \<in> set (map node_state ?ks) \<or> x = NS_COMPLETE"
      using remove_states [OF c(2)] by blast+
    have "NS_UNKNOWN \<notin> set (map node_state ks)" using k(4) by (auto simp: list_all_iff dest!: known_state)
    from computed_without_complete [OF s this] that have "theComputedNodeState (map node_state ?ks) = theComputedNodeState (map node_state ks)" by simp
    moreover have "ks \<noteq> []" using that by auto
    ultimately show ?thesis using that by (simp add: children_state_def comp_def)
  qed
  then have "ss (skel (Node nd ?ks)) = shown (skel (Node nd ?ks))"
    using k(1) by (cases "?ks = []") (auto simp: shown_def children_state_def)
  with h1 h2 k(3) show ?case unfolding remove_Cons by (auto simp: ok_tree_sel [of "skel (Node nd ?ks)"] known_sel [of "skel (Node nd ?ks)"])
qed simp

lemma remove_keeps_all:
  "list_all (all_data P) ns \<Longrightarrow> list_all (all_data P) (fst (remove_nodes A i p ns))"
  "list_all (fix_tree Q) (map skel ns) \<Longrightarrow> list_all (fix_tree Q) (map skel (fst (remove_nodes A i p ns)))"
  by (induction ns arbitrary: i p rule: nodes_induct) (simp_all del: remove_nodes.simps(2) add: remove_Cons)

lemma remove_autocancelled_ok:
  assumes ok: "server_ok s" "settled s" and A: "\<forall>q \<in> set A. may_cancel s q"
    and k: "list_all known_tree (skels s)" "ns_st (df_st (sv_defs s)) \<noteq> NS_COMPLETE"
  shows "server_ok (remove_autocancelled A s)" "settled (remove_autocancelled A s)"
proof -
  let ?ns = "fst (remove_nodes A 0 [] (sv_suites s))"
  obtain g where s': "remove_autocancelled A s = sv_put ?ns g s"
    by (simp add: remove_autocancelled_def case_prod_beta' Let_def)
  have c: "only_complete A 0 [] (sv_suites s)"
    unfolding only_complete_def
  proof (intro allI impI)
    fix q n assume q: "node_at (sv_suites s) q = Some n" "under [] 0 q \<in> set A"
    then have "under [] 0 q = q" by (cases q) auto
    with q A show "node_state n = NS_COMPLETE" by (auto simp: may_cancel_def)
  qed
  have t: "list_all ok_tree (map skel ?ns)"
    using remove_keeps_tree [OF c _ k(1)] ok(2) by (simp add: settled_def)
  show "server_ok (remove_autocancelled A s)"
    using ok(1) remove_keeps_all(1) [of data_ok "sv_suites s" A 0 "[]"] remove_keeps_all(2) [of plain_node "sv_suites s" A 0 "[]"]
    by (simp add: s' server_ok_def sv_put_def)
  have u: "NS_UNKNOWN \<notin> set (map node_state (sv_suites s))" using k(1) by (auto simp: list_all_iff dest!: known_state)
  have "ns_st (df_st (sv_defs s)) = theComputedNodeState (map node_state (sv_suites s))" using ok(2) by (simp add: settled_def comp_def)
  moreover have "theComputedNodeState (map node_state ?ns) = theComputedNodeState (map node_state (sv_suites s))"
  proof (cases "?ns = []")
    case True
    then have "set (map node_state (sv_suites s)) \<subseteq> {NS_COMPLETE}" using remove_states [OF c] by auto
    with k(2) calculation have "sv_suites s = []" by (cases "sv_suites s") (auto simp: theComputedNodeState_cases split: if_splits)
    with True show ?thesis by simp
  next
    case False
    with remove_states [OF c] u show ?thesis by (intro computed_without_complete) auto
  qed
  ultimately show "settled (remove_autocancelled A s)" using t by (simp add: s' settled_def sv_put_def comp_def)
qed

lemma remove_none: "remove_autocancelled [] s = s"
proof -
  have "remove_nodes [] i p ns = (ns, 0)" for i p ns
    by (induction ns arbitrary: i p rule: nodes_induct) (simp_all add: Let_def)
  then show ?thesis by (simp add: remove_autocancelled_def sv_put_def Let_def)
qed

text \<open>A change of a subtree that leaves the state of its root and the consistency below.\<close>

lemma ok_upd_at:
  assumes "\<And>t. ok_tree t \<Longrightarrow> ok_tree (f t)" "\<And>t. ss (f t) = ss t"
  shows "map ss (upd_at f ts p) = map ss ts \<and> (list_all ok_tree ts \<longrightarrow> list_all ok_tree (upd_at f ts p))"
  using assms
proof (induction f ts p rule: upd_at.induct)
  case (2 f ts i p)
  show ?case
  proof (cases "i < length ts")
    case True
    let ?g = "\<lambda>ks. upd_at f ks p"
    let ?t = "if p = [] then f (ts ! i) else with_kids ?g (ts ! i)"
    have s: "ss ?t = ss (ts ! i)" using 2 by simp
    have "ok_tree ?t" if "ok_tree (ts ! i)"
    proof (cases "p = []")
      case False
      with "2.IH" [OF True False "2.prems"] have h: "map ss (?g (sks (ts ! i))) = map ss (sks (ts ! i))"
        "list_all ok_tree (?g (sks (ts ! i)))" using ok_tree_kids [OF that] by auto
      then have "?g (sks (ts ! i)) = [] \<longleftrightarrow> sks (ts ! i) = []" by (metis map_is_Nil_conv)
      with h(1) have "children_state x (?g (sks (ts ! i))) = children_state x (sks (ts ! i))" for x by (simp add: children_state_def)
      then have "shown (with_kids ?g (ts ! i)) = shown (ts ! i)" by (simp add: shown_def)
      with h(2) that False show ?thesis by (simp add: ok_tree_sel [of "with_kids ?g (ts ! i)"] ok_tree_sel [of "ts ! i"])
    qed (use 2 that in simp)
    with True s show ?thesis
      by (auto simp: map_update list_update_same_conv list_all_iff nth_mem dest!: set_update_subset_insert [THEN subsetD])
  qed simp
qed simp

lemma archived_data_keeps:
  "same_core nd (fst (archived_data nd g))" "data_ok (fst (archived_data nd g)) = data_ok nd"
  by (simp_all add: archived_data_def flag_set_def flag_clear_def same_core_def data_ok_def case_prod_beta' Let_def)

lemma NodeContainer_archive_ok:
  assumes n: "node_at (sv_suites s) p = Some n" and ok: "server_ok s" "settled s"
  shows "\<exists>thrown s'. NodeContainer_archive aw sr p s = run_ret (thrown, s') \<and> server_ok s' \<and> settled s' \<and>
    (skels s' = skels s \<or> skels s' = upd_at (with_kids (\<lambda>_. [])) (skels s) p)"
proof -
  obtain nd g where d: "archived_data (ndata n) (ls_ecf (sv_sys s)) = (nd, g)" by fastforce
  let ?s = "sv_put (put_node (Node nd []) (sv_suites s) p) g s" and ?f = "with_kids (\<lambda>_. [])"
  have nd: "same_core (ndata n) nd" "data_ok nd"
    using archived_data_keeps [of "ndata n" "ls_ecf (sv_sys s)"] data_ok_at [OF n ok(1)] d by simp_all
  have "skels ?s = upd_at (\<lambda>_. skel (Node nd [])) (skels s) p" using skel_put_node [OF n] by (simp add: sv_put_def)
  also have "\<dots> = upd_at ?f (skels s) p"
    by (rule upd_at_cong) (use n nd(1) in \<open>cases n, auto simp: st_at_skel with_kids_def same_core_def\<close>)
  finally have sk: "skels ?s = upd_at ?f (skels s) p" .
  have f: "ok_tree (?f t)" "ss (?f t) = ss t" "fix_tree Q t \<Longrightarrow> fix_tree Q (?f t)" for t Q
    by (cases t; simp add: with_kids_def shown_def children_state_def)+
  have t: "list_all ok_tree (skels ?s)" "map ss (skels ?s) = map ss (skels s)"
    unfolding sk using ok_upd_at [of ?f "skels s" p] f ok(2) by (simp_all add: settled_def del: map_map)
  have "list_all plain_tree (skels ?s)" unfolding sk using fix_upd_at [of plain_node "skels s" ?f p] f(3) ok(1) by (simp add: server_ok_def del: map_map)
  moreover have "tree_ok ?s" using all_data_put_node [of data_ok "sv_suites s" "Node nd []" p] nd(2) ok(1) by (simp add: server_ok_def sv_put_def)
  ultimately have "server_ok ?s" by (simp add: server_ok_def del: map_map)
  moreover have "settled ?s" using t ok(2) by (simp add: settled_def sv_put_def del: map_map)
  ultimately show ?thesis using n d ok sk by (simp add: NodeContainer_archive_def del: map_map split: option.split)
qed

section \<open>A server in good order\<close>

text \<open>The kinds of the nodes: suites on top, families and tasks below suites and families, and no aliases.\<close>

fun well_kinded :: "stree \<Rightarrow> bool" where
  "well_kinded (STree k ds h x ts) \<longleftrightarrow>
     (case k of
        K_Task \<Rightarrow> ts = []
      | K_Alias \<Rightarrow> False
      | _ \<Rightarrow> list_all (\<lambda>t. sk t \<in> {K_Family, K_Task} \<and> well_kinded t) ts)"

definition in_order :: "server \<Rightarrow> bool" where
  "in_order s \<longleftrightarrow> server_ok s \<and> settled s \<and> list_all (\<lambda>t. sk t = K_Suite \<and> well_kinded t) (skels s)"

lemma in_orderD: "in_order s \<Longrightarrow> server_ok s" "in_order s \<Longrightarrow> settled s"
  by (simp_all add: in_order_def)

lemma well_kinded_erase [simp]: "well_kinded (erase t) = well_kinded t"
proof (induction t rule: well_kinded.induct)
  case (1 k ds h x ts)
  then show ?case by (cases k) (auto simp: list_all_iff list.pred_map)
qed

lemma in_order_keeps:
  assumes "in_order s" "keeps s s'" "settled s'"
  shows "in_order s'"
proof -
  have "list_all (\<lambda>t. sk t = K_Suite \<and> well_kinded t) (map erase (skels s')) = list_all (\<lambda>t. sk t = K_Suite \<and> well_kinded t) (map erase (skels s))"
    using assms(2) by (simp only: keeps_def)
  then have "list_all (\<lambda>t. sk t = K_Suite \<and> well_kinded t) (skels s')"
    using assms(1) by (simp add: in_order_def list.pred_map comp_def del: map_map)
  with assms keeps_ok [OF assms(2)] show ?thesis by (simp add: in_order_def del: map_map)
qed

lemma in_order_still: "in_order s \<Longrightarrow> still s s' \<Longrightarrow> in_order s'"
  using still_keeps [of s s'] in_order_keeps [of s s'] in_orderD(2) [of s] by blast

lemma well_kinded_below: "list_all well_kinded ts \<Longrightarrow> st_at ts p = Some t \<Longrightarrow> below_containers ts p \<and> well_kinded t"
proof (induction ts p rule: st_at.induct)
  case (2 ts i p)
  show ?case
  proof (cases "p = []")
    case True
    with 2 show ?thesis by (auto simp: list_all_length split: if_splits)
  next
    case False
    with "2.prems"(2) have i: "i < length ts" "st_at (sks (ts ! i)) p = Some t" by (auto split: if_splits)
    obtain k ds h x us where n: "ts ! i = STree k ds h x us" by (cases "ts ! i")
    have w: "well_kinded (ts ! i)" using "2.prems"(1) i(1) by (simp add: list_all_length)
    have k: "k \<in> {K_Suite, K_Family}" using w n i(2) False by (cases k; cases p) auto
    then have "list_all well_kinded (sks (ts ! i))" using w n by (auto simp: list_all_iff)
    with "2.IH" [OF i(1) False _ i(2)] i(1) n k show ?thesis by auto
  qed
qed simp

lemma in_order_node:
  assumes "in_order s" "node_at (sv_suites s) p = Some n"
  shows "nd_kind (ndata n) \<noteq> K_Alias" "below_containers (skels s) p"
proof -
  have "st_at (skels s) p = Some (skel n)" using assms(2) by (simp add: st_at_skel)
  moreover have "list_all well_kinded (skels s)" using assms(1) by (auto simp: in_order_def list_all_iff)
  ultimately have "below_containers (skels s) p \<and> well_kinded (skel n)" by (rule well_kinded_below [rotated])
  then show "nd_kind (ndata n) \<noteq> K_Alias" "below_containers (skels s) p" by (cases n, auto)+
qed

lemma remove_kinds:
  "list_all (\<lambda>t. Q (sk t) \<and> well_kinded t) (map skel ns) \<Longrightarrow> list_all (\<lambda>t. Q (sk t) \<and> well_kinded t) (map skel (fst (remove_nodes A i p ns)))"
proof (induction ns arbitrary: i p Q rule: nodes_induct)
  case (Cons nd ks ns)
  have k: "well_kinded (skel (Node nd (fst (remove_nodes A 0 (p @ [i]) ks))))"
  proof (cases "nd_kind nd")
    case K_Task
    with Cons.prems show ?thesis by simp
  next
    case K_Alias
    with Cons.prems show ?thesis by simp
  qed (use Cons.IH(1) [of "\<lambda>k. k \<in> {K_Family, K_Task}"] Cons.prems in simp_all)
  from Cons.IH(2) [of Q] Cons.prems k show ?case unfolding remove_Cons by simp
qed simp

lemma clear_kids_kinds:
  "list_all (\<lambda>t. Q (sk t) \<and> well_kinded t) ts \<Longrightarrow> list_all (\<lambda>t. Q (sk t) \<and> well_kinded t) (upd_at (with_kids (\<lambda>_. [])) ts p)"
proof (induction p arbitrary: ts Q)
  case (Cons i p)
  let ?f = "with_kids (\<lambda>_. [])"
  show ?case
  proof (cases "i < length ts")
    case True
    obtain k ds h x us where n: "ts ! i = STree k ds h x us" by (cases "ts ! i")
    have w: "Q k" "well_kinded (STree k ds h x us)" using Cons.prems True n by (auto simp: list_all_length)
    have leafs: "upd_at ?f [] p = []" by (cases p) simp_all
    have "well_kinded (STree k ds h x (if p = [] then [] else upd_at ?f us p))"
      using w(2) leafs Cons.IH [of "\<lambda>k. k \<in> {K_Family, K_Task}" us] by (cases k) simp_all
    then have "Q (sk (if p = [] then ?f (ts ! i) else with_kids (\<lambda>ks. upd_at ?f ks p) (ts ! i))) \<and>
      well_kinded (if p = [] then ?f (ts ! i) else with_kids (\<lambda>ks. upd_at ?f ks p) (ts ! i))"
      using n w(1) by (simp add: with_kids_def split: if_splits)
    with Cons.prems True show ?thesis by (auto simp: list_all_length nth_list_update)
  qed (use Cons.prems in simp)
qed simp

lemma archive_in_order:
  assumes "node_at (sv_suites s) p = Some n" "in_order s"
  shows "\<exists>thrown s'. NodeContainer_archive aw sr p s = run_ret (thrown, s') \<and> in_order s'"
proof -
  obtain thrown s' where "NodeContainer_archive aw sr p s = run_ret (thrown, s')" "server_ok s'" "settled s'"
    "skels s' = skels s \<or> skels s' = upd_at (with_kids (\<lambda>_. [])) (skels s) p"
    using NodeContainer_archive_ok [OF assms(1) in_orderD [OF assms(2)], of aw sr] by blast
  with assms(2) clear_kids_kinds [of "\<lambda>k. k = K_Suite" "skels s" p] show ?thesis by (auto simp: in_order_def simp del: map_map)
qed

lemma auto_archive_in_order: "in_order s \<Longrightarrow> \<exists>thrown s'. auto_archive aw sr ps s = run_ret (thrown, s') \<and> in_order s'"
proof (induction ps arbitrary: s)
  case (Cons p ps)
  show ?case
  proof (cases "node_at (sv_suites s) p")
    case (Some n)
    from archive_in_order [OF this Cons.prems] obtain thrown s1 where
      1: "NodeContainer_archive aw sr p s = run_ret (thrown, s1)" "in_order s1" by blast
    with Cons.IH [OF 1(2)] Cons.IH [OF Cons.prems] Some show ?thesis by (cases thrown) simp_all
  qed (use Cons in simp)
qed simp

text \<open>What an update of the calendars needs: the clocks of the suites that have begun do not run backwards; and nothing is
  cancelled, or no node is unknown and the definition is not complete. A removal does not compute the states of the parents
  again: they may stay complete when only unknown nodes are left.\<close>

definition nothing_cancelled :: "(Calendar_args \<times> server) run \<Rightarrow> bool" where
  "nothing_cancelled r = (case r of Some (Inr (args, _)) \<Rightarrow> ca_auto_cancelled_nodes args = [] | _ \<Rightarrow> True)"

definition tick_ready :: "env \<Rightarrow> server_state \<Rightarrow> calendar_update_params \<Rightarrow> server \<Rightarrow> bool" where
  "tick_ready e sr cp s \<longleftrightarrow>
     list_all (\<lambda>su. su_begun su \<longrightarrow> clock_ready (en_greg e) cp (su_cal su)) (clocks s) \<and>
     (nothing_cancelled (update_suites e sr cp (sv_suites s) 0 (\<lparr>ca_auto_cancelled_nodes = [], ca_auto_archive_nodes = []\<rparr>, s)) \<or>
      list_all known_tree (skels s) \<and> ns_st (df_st (sv_defs s)) \<noteq> NS_COMPLETE)"

lemma Defs_updateCalendar_ok:
  assumes o: "in_order s"
    and t: "tick_ready e sr cp s"
  shows "\<exists>arch s'. Defs_updateCalendar e sr cp s = run_ret (arch, s') \<and> in_order s'"
proof -
  note ok = in_orderD [OF o]
  have r: "\<forall>j < length (clocks s). su_begun (clocks s ! j) \<longrightarrow> clock_ready (en_greg e) cp (su_cal (clocks s ! j))"
    using t unfolding tick_ready_def list_all_length by (elim conjE)
  let ?a = "\<lparr>ca_auto_cancelled_nodes = [], ca_auto_archive_nodes = []\<rparr>"
  have "spared s ?a" by (simp add: spared_def)
  from update_suites_ok [OF keeps_refl [OF ok(1)] this, of "sv_suites s" 0 e cp sr] r
  obtain args s1 where u: "update_suites e sr cp (sv_suites s) 0 (?a, s) = run_ret (args, s1)" "still s s1" "spared s1 args" by auto
  have s1: "server_ok s1" "settled s1" "skels s1 = skels s" "df_st (sv_defs s1) = df_st (sv_defs s)"
    using u(2) still_keeps [OF u(2)] ok(2) by (simp_all add: still_def del: map_map)
  let ?A = "ca_auto_cancelled_nodes args"
  have o1: "in_order s1" by (rule in_order_still [OF o u(2)])
  have "in_order (remove_autocancelled ?A s1)"
  proof (cases "?A = []")
    case True
    with o1 show ?thesis by (simp add: remove_none)
  next
    case False
    with t u(1) have "list_all known_tree (skels s1)" "ns_st (df_st (sv_defs s1)) \<noteq> NS_COMPLETE" unfolding s1(3,4) by (simp_all add: tick_ready_def nothing_cancelled_def del: map_map)
    with remove_autocancelled_ok [OF s1(1,2), of ?A] u(3) have "server_ok (remove_autocancelled ?A s1)" "settled (remove_autocancelled ?A s1)"
      by (simp_all add: spared_def)
    with o1 remove_kinds [of "\<lambda>k. k = K_Suite" "sv_suites s1" ?A 0 "[]"] show ?thesis
      by (simp add: in_order_def remove_autocancelled_def sv_put_def case_prod_beta' Let_def)
  qed
  with u(1) show ?thesis by (simp add: Defs_updateCalendar_def)
qed

lemma Defs_tick_in_order:
  assumes "in_order s" "tick_ready e sr cp s"
  shows "\<exists>thrown s'. Defs_tick e aw sr cp s = run_ret (thrown, s') \<and> in_order s'"
proof -
  obtain arch s1 where "Defs_updateCalendar e sr cp s = run_ret (arch, s1)" "in_order s1"
    using Defs_updateCalendar_ok [OF assms] by blast
  with auto_archive_in_order [of s1 aw sr arch] show ?thesis by (simp add: Defs_tick_def)
qed

section \<open>File names\<close>

lemma replaceall_char: "replaceall xs [a] [b] = map (\<lambda>c. if c = a then b else c) xs"
  by (induction xs) auto

lemma colon_not_valid: "CHR '':'' \<notin> set ALPHANUMERIC_UNDERSCORE" "CHR '':'' \<notin> set VALID_NODE_CHARS"
  by (simp_all add: ALPHANUMERIC_UNDERSCORE_def VALID_NODE_CHARS_def)

lemma valid_name_no_colon: "valid_name n \<Longrightarrow> CHR '':'' \<notin> set n"
  using colon_not_valid by (cases n) (auto simp: valid_name_def list_all_iff)

lemma path_no_colon: "nodes_ok (df_suites d) \<Longrightarrow> CHR '':'' \<notin> set (absNodePath d p)"
  using path_names_valid [of "df_suites d" p] by (auto simp: absNodePath_def createPath_def list_all_iff dest: valid_name_no_colon)

lemma archive_file_name_inj:
  assumes "CHR '':'' \<notin> set a" "CHR '':'' \<notin> set b" "archive_file_name a = archive_file_name b"
  shows "a = b"
proof -
  let ?f = "\<lambda>c. if c = CHR ''/'' then CHR '':'' else c"
  have "map ?f a = map ?f b" using assms(3) by (simp add: archive_file_name_def replaceall_char)
  moreover have "inj_on ?f (set a \<union> set b)" using assms(1,2) by (auto simp: inj_on_def)
  ultimately show ?thesis by (simp add: inj_on_map_eq_map)
qed

lemma archive_file_no_slash: "CHR ''/'' \<notin> set (archive_file_name a)"
  by (auto simp: archive_file_name_def replaceall_char)

lemma last_part:
  assumes "h1 @ ''/'' @ x @ f1 = h2 @ ''/'' @ x @ f2" "CHR ''/'' \<notin> set f1" "CHR ''/'' \<notin> set f2"
  shows "f1 = f2"
proof -
  let ?t = "takeWhile (\<lambda>c. c \<noteq> CHR ''/'')"
  have cut: "?t (rev (h @ ''/'' @ x @ f)) = rev f @ ?t (rev x @ ''/'')" if "CHR ''/'' \<notin> set f" for h f
  proof -
    have "?t (rev x @ ''/'' @ rev h) = ?t (rev x @ ''/'')" by (induction "rev x" arbitrary: x) (auto simp: takeWhile_append)
    moreover have "?t (rev f @ ys) = rev f @ ?t ys" for ys using that by (intro takeWhile_append2) auto
    ultimately show ?thesis by simp
  qed
  have "rev f1 @ ?t (rev x @ ''/'') = rev f2 @ ?t (rev x @ ''/'')" by (simp only: cut [OF assms(2), of h1, symmetric] cut [OF assms(3), of h2, symmetric] assms(1))
  then show ?thesis by simp
qed

lemma archive_path_form:
  "archive_path aw sr d p = Some f \<Longrightarrow>
     \<exists>h. f = h @ ''/'' @ (host_port_prefix (aw_host aw) (let port = ServerState_find_variable sr ''ECF_PORT'' in if port = [] then ''3141'' else port) @ ''.'') @
       archive_file_name (absNodePath d p)"
  using archive_file_no_slash [of "absNodePath d p"] by (auto simp: archive_path_def prefix_host_and_port_def Let_def split: option.splits)

section \<open>Properties\<close>

text \<open>C26. The archives of two containers are never written to the same file, wherever the variable \<open>ECF_HOME\<close> of each
  points to.\<close>

theorem archive_files_distinct:
  assumes "defs_ok d" "node_at (df_suites d) p = Some n" "node_at (df_suites d) q = Some m"
    and "archive_path aw sr d p = Some f" "archive_path aw sr d q = Some f"
  shows "p = q"
proof -
  have ok: "nodes_ok (df_suites d)" using assms(1) by (simp add: defs_ok_def)
  let ?port = "ServerState_find_variable sr ''ECF_PORT''"
  let ?x = "host_port_prefix (aw_host aw) (if ?port = [] then ''3141'' else ?port) @ ''.''"
  obtain h1 h2 where "f = h1 @ ''/'' @ ?x @ archive_file_name (absNodePath d p)" "f = h2 @ ''/'' @ ?x @ archive_file_name (absNodePath d q)"
    using archive_path_form [OF assms(4)] archive_path_form [OF assms(5)] unfolding Let_def by blast
  then have "archive_file_name (absNodePath d p) = archive_file_name (absNodePath d q)"
    using last_part [of h1 ?x _ h2] archive_file_no_slash by metis
  then have "absNodePath d p = absNodePath d q" by (rule archive_file_name_inj [OF path_no_colon [OF ok] path_no_colon [OF ok]])
  moreover have "findAbsNode d (absNodePath d r) = Some r" if "node_at (df_suites d) r = Some k" for r k
    using find_down_path_names [OF ok that] by (simp add: findAbsNode_eq absNodePath_def split_createPath_names [OF ok])
  ultimately show ?thesis using assms(2,3) by (metis option.inject)
qed

definition home_server :: server_state where
  "home_server = no_server\<lparr>sst_user_variables := [\<lparr>va_n = ''ECF_HOME'', va_v = ''/home''\<rparr>]\<rparr>"

definition demo_archive :: archive_world where
  "demo_archive = \<lparr>aw_host = ''host'', aw_save = (\<lambda>path s p. None)\<rparr>"

theorem archive_files_distinct_witness:
  "archive_path demo_archive home_server two_families [0, 0] = Some ''/home/host.3141.:s:f.check'' \<and>
   archive_path demo_archive home_server two_families [0, 1] \<noteq> Some ''/home/host.3141.:s:f.check''"
proof -
  have f: "archive_path demo_archive home_server two_families [0, 0] = Some ''/home/host.3141.:s:f.check''" by code_simp
  obtain n m where "node_at (df_suites two_families) [0, 0] = Some n" "node_at (df_suites two_families) [0, 1] = Some m"
    by (simp add: two_families_def mk_node_def)
  from archive_files_distinct [OF two_families_ok this f] f show ?thesis by auto
qed

end
