(* ===== verification/Check_Pt.thy ===== *)
theory Check_Pt
  imports Archive
begin

text \<open>
  Check points: \<open>CheckPtSaver.cpp\<close>, \<open>BaseServer::checkPtDefs\<close> (\<open>Server/src\<close>) and the variables of \<open>ServerState\<close> that they and the start of the
  server write (\<open>ANode/src/ServerState.cpp\<close>). The two files are part of the state; whether the disk removes, renames and
  writes a file, and how long it takes, is an argument. A timer is a flag that says whether it is armed.
\<close>

section \<open>Variables of the server\<close>

fun set_variable :: "string \<Rightarrow> string \<Rightarrow> variable list \<Rightarrow> variable list" where
  "set_variable name val [] = [\<lparr>va_n = name, va_v = val\<rparr>]"
| "set_variable name val (v # vs) = (if va_n v = name then v\<lparr>va_v := val\<rparr> # vs else v # set_variable name val vs)"

definition add_or_update_user_variables :: "string \<Rightarrow> string \<Rightarrow> server_state \<Rightarrow> ecf \<Rightarrow> server_state \<times> ecf" where
  "add_or_update_user_variables name val sst g =
     (sst\<lparr>sst_user_variables := set_variable name val (sst_user_variables sst)\<rparr>, snd (incr_state_change_no g))"

definition add_or_update_server_variable :: "string \<Rightarrow> string \<Rightarrow> server_state \<Rightarrow> server_state" where
  "add_or_update_server_variable name val sst =
     sst\<lparr>sst_server_variables := set_variable name val (sst_server_variables sst)\<rparr>"

definition add_or_update_server_variables :: "(string \<times> string) list \<Rightarrow> server_state \<Rightarrow> server_state" where
  "add_or_update_server_variables env sst = fold (\<lambda>(n, v). add_or_update_server_variable n v) env sst"

definition delete_user_variable :: "string \<Rightarrow> server_state \<Rightarrow> ecf \<Rightarrow> server_state \<times> ecf" where
  "delete_user_variable var sst g =
     (if var = [] then (sst\<lparr>sst_user_variables := []\<rparr>, snd (incr_state_change_no g))
      else case first_pos (\<lambda>v. va_n v = var) (sst_user_variables sst) of
             None \<Rightarrow> (sst, g)
           | Some i \<Rightarrow> (sst\<lparr>sst_user_variables := erase_at i (sst_user_variables sst)\<rparr>, snd (incr_state_change_no g)))"

section \<open>The saver\<close>

datatype CheckPt_Mode = CP_NEVER | CP_ON_TIME | CP_ALWAYS | CP_UNDEFINED

text \<open>What a file holds: a definition, or what an interrupted write has left.\<close>

datatype disk_file = No_file | Empty_file | Damaged_file | Checkpt defs

record check_pt =
  cp_mode :: CheckPt_Mode
  cp_interval :: int
  cp_alarm :: int
  cp_running :: bool
  cp_firstTime :: bool
  cp_timer :: bool
  cp_state_change_no :: "32 word"
  cp_modify_change_no :: "32 word"
  cp_file :: disk_file
  cp_backup :: disk_file

text \<open>\<open>dk_write\<close>: nothing when the file is written, else what is left of it, with the text of the error.\<close>

record disk =
  dk_remove :: bool
  dk_rename :: bool
  dk_write :: "(disk_file \<times> string) option"
  dk_duration :: int

definition CheckPtSaver_start :: "check_pt \<Rightarrow> check_pt" where
  "CheckPtSaver_start cp =
     (if cp_mode cp \<noteq> CP_ON_TIME then cp
      else let cp1 = cp\<lparr>cp_running := True\<rparr> in if cp_firstTime cp1 then cp1\<lparr>cp_firstTime := False, cp_timer := True\<rparr> else cp1)"

definition CheckPtSaver_stop :: "check_pt \<Rightarrow> check_pt" where
  "CheckPtSaver_stop cp = cp\<lparr>cp_running := False\<rparr>"

definition set_defs_flag :: "Flag_Type \<Rightarrow> server \<Rightarrow> server" where
  "set_defs_flag t s =
     (let (f, g) = Flag_set t (df_flag (sv_defs s)) (ls_ecf (sv_sys s))
      in s\<lparr>sv_defs := (sv_defs s)\<lparr>df_flag := f\<rparr>, sv_sys := (sv_sys s)\<lparr>ls_ecf := g\<rparr>\<rparr>)"

text \<open>The old file is moved to the backup, unless it is empty. The first part of the result is false when the file system throws.\<close>

definition move_to_backup :: "disk \<Rightarrow> check_pt \<Rightarrow> bool \<times> check_pt" where
  "move_to_backup dk cp =
     (if cp_file cp = No_file \<or> cp_file cp = Empty_file then (True, cp)
      else if \<not> dk_remove dk then (False, cp)
      else if \<not> dk_rename dk then (False, cp\<lparr>cp_backup := No_file\<rparr>)
      else (True, cp\<lparr>cp_backup := cp_file cp, cp_file := No_file\<rparr>))"

definition save_failed :: "string \<Rightarrow> check_pt \<Rightarrow> server_state \<Rightarrow> server \<Rightarrow> bool \<times> check_pt \<times> server_state \<times> server" where
  "save_failed msg cp sst s =
     (let s1 = set_defs_flag FL_CHECKPT_ERROR s;
          (sst1, g) = add_or_update_user_variables ''ECF_CHECKPT_ERROR'' (''Could not save checkPoint file! '' @ msg) sst (ls_ecf (sv_sys s1))
      in (False, cp, sst1, s1\<lparr>sv_sys := (sv_sys s1)\<lparr>ls_ecf := g\<rparr>\<rparr>))"

definition explicitSave :: "disk \<Rightarrow> check_pt \<Rightarrow> server_state \<Rightarrow> server \<Rightarrow> bool \<times> check_pt \<times> server_state \<times> server" where
  "explicitSave dk cp sst s =
     (let (moved, cp1) = move_to_backup dk cp; g = ls_ecf (sv_sys s)
      in if \<not> moved then save_failed [] cp1 sst s
         else case dk_write dk of
                Some (f, msg) \<Rightarrow> save_failed msg (cp1\<lparr>cp_file := f\<rparr>) sst s
              | None \<Rightarrow>
                  (True, cp1\<lparr>cp_file := Checkpt (sv_defs s), cp_state_change_no := ecf_state_change_no g,
                              cp_modify_change_no := ecf_modify_change_no g\<rparr>,
                   sst, if dk_duration dk > cp_alarm cp1 then set_defs_flag FL_LATE s else s))"

definition doSave :: "disk \<Rightarrow> check_pt \<Rightarrow> server_state \<Rightarrow> server \<Rightarrow> check_pt \<times> server_state \<times> server" where
  "doSave dk cp sst s = (if cp_mode cp = CP_NEVER then (cp, sst, s) else snd (explicitSave dk cp sst s))"

definition saveIfAllowed :: "disk \<Rightarrow> check_pt \<Rightarrow> server_state \<Rightarrow> server \<Rightarrow> check_pt \<times> server_state \<times> server" where
  "saveIfAllowed dk cp sst s = (if cp_mode cp = CP_ALWAYS then doSave dk cp sst s else (cp, sst, s))"

text \<open>The timer of the saver fires, and is armed again.\<close>

definition periodicSaveCheckPt :: "disk \<Rightarrow> check_pt \<Rightarrow> server_state \<Rightarrow> server \<Rightarrow> check_pt \<times> server_state \<times> server" where
  "periodicSaveCheckPt dk cp sst s =
     (let g = ls_ecf (sv_sys s);
          (cp1, sst1, s1) =
            (if cp_running cp \<and> (cp_state_change_no cp \<noteq> ecf_state_change_no g \<or> cp_modify_change_no cp \<noteq> ecf_modify_change_no g)
             then doSave dk cp sst s else (cp, sst, s))
      in (cp1\<lparr>cp_timer := True\<rparr>, sst1, s1))"

definition checkPtDefs ::
    "CheckPt_Mode \<Rightarrow> int \<Rightarrow> int \<Rightarrow> disk \<Rightarrow> check_pt \<Rightarrow> server_state \<Rightarrow> server \<Rightarrow> bool \<times> check_pt \<times> server_state \<times> server" where
  "checkPtDefs m check_pt_interval check_pt_save_time_alarm dk cp sst s =
     (if m = CP_UNDEFINED \<and> check_pt_interval = 0 \<and> check_pt_save_time_alarm = 0 then explicitSave dk cp sst s
      else let cp1 = (if m \<noteq> CP_UNDEFINED then cp\<lparr>cp_mode := m\<rparr> else cp);
               cp2 = (if check_pt_interval > 0 then cp1\<lparr>cp_interval := check_pt_interval\<rparr> else cp1);
               cp3 = (if check_pt_save_time_alarm > 0 then cp2\<lparr>cp_alarm := check_pt_save_time_alarm\<rparr> else cp2)
           in (True, cp3, sst, s))"

section \<open>What is kept on disk\<close>

text \<open>The operations of the saver, each with the disk it meets.\<close>

datatype save_op =
    Save_start | Save_stop | Save_explicit disk | Save_if_allowed disk | Save_periodic disk
  | Save_command CheckPt_Mode int int disk

type_synonym save_state = "check_pt \<times> server_state \<times> server"

fun save_step :: "save_op \<Rightarrow> save_state \<Rightarrow> save_state" where
  "save_step Save_start (cp, sst, s) = (CheckPtSaver_start cp, sst, s)"
| "save_step Save_stop (cp, sst, s) = (CheckPtSaver_stop cp, sst, s)"
| "save_step (Save_explicit dk) (cp, sst, s) = snd (explicitSave dk cp sst s)"
| "save_step (Save_if_allowed dk) (cp, sst, s) = saveIfAllowed dk cp sst s"
| "save_step (Save_periodic dk) (cp, sst, s) = periodicSaveCheckPt dk cp sst s"
| "save_step (Save_command m i a dk) (cp, sst, s) = snd (checkPtDefs m i a dk cp sst s)"

fun op_disk :: "save_op \<Rightarrow> disk option" where
  "op_disk (Save_explicit dk) = Some dk"
| "op_disk (Save_if_allowed dk) = Some dk"
| "op_disk (Save_periodic dk) = Some dk"
| "op_disk (Save_command m i a dk) = Some dk"
| "op_disk _ = None"

text \<open>A disk on which a write that fails leaves at most an empty file.\<close>

definition clean_failure :: "disk \<Rightarrow> bool" where
  "clean_failure dk \<longleftrightarrow> (case dk_write dk of None \<Rightarrow> True | Some (f, _) \<Rightarrow> f = No_file \<or> f = Empty_file)"

fun is_checkpt :: "disk_file \<Rightarrow> bool" where
  "is_checkpt (Checkpt _) = True"
| "is_checkpt _ = False"

definition restorable :: "check_pt \<Rightarrow> bool" where
  "restorable cp \<longleftrightarrow> cp_file cp \<noteq> Damaged_file \<and> (is_checkpt (cp_file cp) \<or> is_checkpt (cp_backup cp))"

lemma restorable_cong [simp]:
  "restorable (cp\<lparr>cp_mode := m\<rparr>) = restorable cp" "restorable (cp\<lparr>cp_interval := i\<rparr>) = restorable cp"
  "restorable (cp\<lparr>cp_alarm := a\<rparr>) = restorable cp" "restorable (cp\<lparr>cp_running := b\<rparr>) = restorable cp"
  "restorable (cp\<lparr>cp_firstTime := b\<rparr>) = restorable cp" "restorable (cp\<lparr>cp_timer := b\<rparr>) = restorable cp"
  by (simp_all add: restorable_def)

lemma explicitSave_restorable:
  assumes "restorable cp" "clean_failure dk"
  shows "restorable (fst (snd (explicitSave dk cp sst s)))"
proof (cases "cp_file cp")
  case (Checkpt d)
  with assms show ?thesis
    by (auto simp: explicitSave_def move_to_backup_def save_failed_def restorable_def clean_failure_def Let_def case_prod_beta' split: option.splits)
qed (use assms in \<open>auto simp: explicitSave_def move_to_backup_def save_failed_def restorable_def clean_failure_def Let_def
  case_prod_beta' split: option.splits\<close>)

lemma save_step_restorable:
  assumes "restorable cp" "\<forall>dk. op_disk x = Some dk \<longrightarrow> clean_failure dk"
  shows "restorable (fst (save_step x (cp, sst, s)))"
  using assms explicitSave_restorable [of cp]
  by (cases x) (simp_all add: CheckPtSaver_start_def CheckPtSaver_stop_def saveIfAllowed_def periodicSaveCheckPt_def doSave_def
      checkPtDefs_def Let_def case_prod_beta')

lemma save_steps_restorable:
  assumes "\<forall>x \<in> set ops. \<forall>dk. op_disk x = Some dk \<longrightarrow> clean_failure dk"
  shows "restorable (fst st) \<Longrightarrow> restorable (fst (fold save_step ops st))"
  using assms
proof (induction ops arbitrary: st)
  case (Cons x ops)
  obtain cp sst s where "st = (cp, sst, s)" by (cases st)
  with Cons save_step_restorable [of cp x sst s] show ?case by simp
qed simp

section \<open>Properties\<close>

text \<open>C23. Once a check point has been written, a definition can be restored whatever the saver does and whatever fails: after
  every sequence of its operations the file or its backup holds a check point, as long as a write that fails leaves at most
  an empty file.\<close>

theorem check_point_survives_failures:
  assumes "restorable (fst st)" "\<forall>x \<in> set ops. \<forall>dk. op_disk x = Some dk \<longrightarrow> clean_failure dk"
  shows "is_checkpt (cp_file (fst (fold save_step ops st))) \<or> is_checkpt (cp_backup (fst (fold save_step ops st)))"
  using save_steps_restorable [OF assms(2,1)] by (simp add: restorable_def)

definition fresh_saver :: check_pt where
  "fresh_saver = \<lparr>cp_mode = CP_ON_TIME, cp_interval = 120, cp_alarm = 20, cp_running = False, cp_firstTime = True, cp_timer = False,
     cp_state_change_no = 0, cp_modify_change_no = 0, cp_file = No_file, cp_backup = No_file\<rparr>"

definition good_disk :: disk where
  "good_disk = \<lparr>dk_remove = True, dk_rename = True, dk_write = None, dk_duration = 0\<rparr>"

definition full_disk :: "disk_file \<Rightarrow> disk" where
  "full_disk f = good_disk\<lparr>dk_write := Some (f, ''file system full'')\<rparr>"

theorem check_point_survives_failures_witness:
  "\<exists>cp sst s. fold save_step [Save_explicit (full_disk Empty_file), Save_explicit (full_disk Empty_file)]
       (fresh_saver\<lparr>cp_file := Checkpt two_families\<rparr>, no_server, quiet_server) = (cp, sst, s) \<and>
     cp_file cp = Empty_file \<and> is_checkpt (cp_backup cp)"
proof -
  let ?ops = "[Save_explicit (full_disk Empty_file), Save_explicit (full_disk Empty_file)]"
  let ?st = "(fresh_saver\<lparr>cp_file := Checkpt two_families\<rparr>, no_server, quiet_server)"
  obtain cp sst s where r: "fold save_step ?ops ?st = (cp, sst, s)" by (metis prod_cases3)
  then have "cp_file cp = Empty_file"
    by (auto simp: explicitSave_def move_to_backup_def save_failed_def full_disk_def good_disk_def fresh_saver_def Let_def
        case_prod_beta' no_server_def)
  moreover have "is_checkpt (cp_file cp) \<or> is_checkpt (cp_backup cp)"
    using check_point_survives_failures [of ?st ?ops] r
    by (simp add: restorable_def fresh_saver_def clean_failure_def full_disk_def good_disk_def)
  ultimately show ?thesis using r by (cases "cp_backup cp") auto
qed

text \<open>A failed write that leaves part of a file behind: the second failure moves that part over the good backup.\<close>

lemma damaged_file_replaces_backup:
  "let cp = fst (fold save_step [Save_explicit (full_disk Damaged_file), Save_explicit (full_disk Damaged_file)]
       (fresh_saver\<lparr>cp_file := Checkpt two_families\<rparr>, no_server, quiet_server))
   in cp_file cp = Damaged_file \<and> cp_backup cp = Damaged_file"
  by (simp add: explicitSave_def move_to_backup_def save_failed_def full_disk_def good_disk_def fresh_saver_def Let_def case_prod_beta')

text \<open>After a stop the periodic save writes nothing. The save on each change does not look at \<open>running_\<close>.\<close>

lemma stopped_saver_idle:
  "cp_file (fst (save_step (Save_periodic dk) (CheckPtSaver_stop cp, sst, s))) = cp_file cp"
  by (simp add: periodicSaveCheckPt_def CheckPtSaver_stop_def Let_def)

lemma stopped_saver_saves_always:
  "cp_file (fst (save_step (Save_if_allowed good_disk) (CheckPtSaver_stop (fresh_saver\<lparr>cp_mode := CP_ALWAYS\<rparr>), sst, s))) = Checkpt (sv_defs s)"
  by (simp add: saveIfAllowed_def doSave_def explicitSave_def move_to_backup_def CheckPtSaver_stop_def fresh_saver_def good_disk_def
      Let_def)

text \<open>A server that starts in another mode does not arm the timer, and the command that sets the mode \<open>on_time\<close> does not start it.\<close>

lemma on_time_command_does_not_start:
  "let cp = fst (fold save_step [Save_start, Save_command CP_ON_TIME 0 0 good_disk] (fresh_saver\<lparr>cp_mode := CP_NEVER\<rparr>, sst, s))
   in cp_mode cp = CP_ON_TIME \<and> \<not> cp_running cp \<and> \<not> cp_timer cp"
  by (simp add: CheckPtSaver_start_def checkPtDefs_def fresh_saver_def Let_def)

end
