(* ===== verification/Server_Base.thy ===== *)
theory Server_Base
  imports Child_Cmds Check_Pt
begin

text \<open>
  The server around the definition: the states of \<open>BaseServer\<close> (run, shut down, halted, locked), the timer of \<open>NodeTreeTraverser\<close>
  that updates the calendars and generates jobs, and \<open>doJobSubmission\<close>, with which user commands end (\<open>Server/src\<close>,
  \<open>Base/src/cts/ClientToServerCmd.cpp\<close>). The asynchronous timer of \<open>boost::asio\<close> is a flag that says whether it is armed; the clock,
  the file system and the processes are arguments. Logging and the counters of requests per second are left out.
\<close>

section \<open>State\<close>

text \<open>\<open>tr_last_time\<close> and \<open>tr_next_poll_time\<close> have no value until the traverser has been started. \<open>as_sst\<close> is the server
  state of the definition, which is told each change of \<open>serverState_\<close>.\<close>

record traverser =
  tr_last_time :: int
  tr_next_poll_time :: int
  tr_firstTime :: bool
  tr_running :: bool
  tr_timer :: bool

record abstract_server =
  as_base :: base_server
  as_serverState :: SState
  as_sst :: server_state
  as_tr :: traverser
  as_checkpt :: check_pt
  as_submitJobsInterval :: int
  as_jobGeneration :: bool
  as_userWhoHasLock :: string
  as_state_to_preserve :: SState

text \<open>What the server does not decide: the environment of a request, and what the machine answers.\<close>

record server_world =
  sw_jobs :: job_world
  sw_zombies :: zombie_world
  sw_archive :: archive_world

definition jobs_world :: "server_world \<Rightarrow> abstract_server \<Rightarrow> job_world" where
  "jobs_world w a = (sw_jobs w)\<lparr>jw_server := as_sst a\<rparr>"

definition zombies_world :: "server_world \<Rightarrow> abstract_server \<Rightarrow> zombie_world" where
  "zombies_world w a = (sw_zombies w)\<lparr>zw_server := as_sst a\<rparr>"

abbreviation as_defs :: "abstract_server \<Rightarrow> server" where "as_defs a \<equiv> bs_server (as_base a)"

definition as_put :: "server \<Rightarrow> abstract_server \<Rightarrow> abstract_server" where
  "as_put s a = a\<lparr>as_base := (as_base a)\<lparr>bs_server := s\<rparr>\<rparr>"

section \<open>Poll times\<close>

text \<open>The loop of \<open>do_traverse\<close> that moves the next poll time past the present. It may not end for an interval that is not positive.\<close>

partial_function (option) next_poll :: "int \<Rightarrow> int \<Rightarrow> int \<Rightarrow> int option" where
  "next_poll interval time_now t = (if t \<le> time_now then next_poll interval time_now (t + interval) else Some t)"

definition advance_poll :: "int \<Rightarrow> int \<Rightarrow> int \<Rightarrow> int option" where
  "advance_poll interval time_now t = (if time_now > t then next_poll interval time_now t else Some (t + interval))"

lemma next_poll_ends:
  assumes "0 < interval"
  shows "next_poll interval time_now t =
    Some (if t \<le> time_now then t + interval * ((time_now - t) div interval + 1) else t)"
proof (induction "nat (time_now - t + 1)" arbitrary: t rule: less_induct)
  case less
  show ?case
  proof (cases "t \<le> time_now")
    case True
    let ?k = "(time_now - (t + interval)) div interval"
    have d: "(time_now - t) div interval = ?k + 1"
      using assms div_add_self2 [of interval "time_now - (t + interval)"] by simp
    have ih: "next_poll interval time_now (t + interval) =
      Some (if t + interval \<le> time_now then t + interval + interval * (?k + 1) else t + interval)"
      using assms True by (intro less) simp
    have "next_poll interval time_now (t + interval) = Some (t + interval * (?k + 1 + 1))"
    proof (cases "t + interval \<le> time_now")
      case True
      then show ?thesis unfolding ih by (simp add: distrib_left)
    next
      case late: False
      then have "(time_now - t) div interval = 0" using True by (simp add: div_pos_pos_trivial)
      with d have "?k = - 1" by simp
      with late show ?thesis unfolding ih by simp
    qed
    then have "next_poll interval time_now (t + interval) = Some (t + interval * ((time_now - t) div interval + 1))" by (simp only: d)
    with True show ?thesis by (subst next_poll.simps) simp
  next
    case False
    then show ?thesis by (subst next_poll.simps) simp
  qed
qed

lemma next_poll_times:
  assumes "0 < interval" "t \<le> time_now"
  shows "\<exists>t'. advance_poll interval time_now t = Some t' \<and> time_now < t' \<and> t' \<le> time_now + interval \<and> interval dvd t' - t"
proof -
  let ?t = "t + interval * ((time_now - t) div interval + 1)"
  have d: "time_now - t = interval * ((time_now - t) div interval) + (time_now - t) mod interval" by simp
  have m: "0 \<le> (time_now - t) mod interval" "(time_now - t) mod interval < interval" using assms(1) by simp_all
  have "advance_poll interval time_now t = Some ?t"
    using assms next_poll_ends [OF assms(1), of time_now t] by (auto simp: advance_poll_def)
  moreover have "time_now < ?t" "?t \<le> time_now + interval" using d m unfolding distrib_left by linarith+
  ultimately show ?thesis by simp
qed

section \<open>\<open>NodeTreeTraverser\<close>\<close>

text \<open>The constructor of \<open>JobsParam\<close>, with the next poll time.\<close>

definition JobsParam_make :: "int \<Rightarrow> bool \<Rightarrow> bool \<Rightarrow> int option \<Rightarrow> jobs_param" where
  "JobsParam_make submitJobsInterval createJobs spawn_jobs next_poll_time =
     \<lparr>jp_timed_out = False, jp_createJobs = createJobs, jp_spawnJobs = (createJobs \<and> spawn_jobs),
      jp_submitJobsInterval = submitJobsInterval, jp_errorMsg = [], jp_submitted = [], jp_next_poll_time = next_poll_time,
      jp_time_out_time = 0\<rparr>"

definition traverse_node_tree_and_job_generate ::
    "server_world \<Rightarrow> env \<Rightarrow> int \<Rightarrow> bool \<Rightarrow> abstract_server \<Rightarrow> abstract_server run" where
  "traverse_node_tree_and_job_generate w e start_time user_cmd_context a =
     (if \<not> tr_running (as_tr a) then run_ret a
      else if user_cmd_context \<and> start_time \<ge> tr_next_poll_time (as_tr a)
      then run_ret (a\<lparr>as_base := increment_job_generation_count (as_base a)\<rparr>)
      else let a1 = a\<lparr>as_base := (as_base a)\<lparr>bs_job_gen_count := 0\<rparr>\<rparr>;
               jp = JobsParam_make (as_submitJobsInterval a) (as_jobGeneration a) True (Some (tr_next_poll_time (as_tr a)))
           in run_bind (Jobs_generate (jobs_world w a1) e jp (as_defs a1)) (\<lambda>(_, _, s). run_ret (as_put s a1)))"

text \<open>The first part of the result is what the archiving of a node throws; the timer is armed only after these calls have returned.\<close>

definition update_suite_calendar_and_traverse_node_tree ::
    "server_world \<Rightarrow> env \<Rightarrow> int \<Rightarrow> abstract_server \<Rightarrow> (string option \<times> abstract_server) run" where
  "update_suite_calendar_and_traverse_node_tree w e time_now a =
     (let cp = \<lparr>cup_timeNow = Some time_now, cup_serverPollPeriod = as_submitJobsInterval a,
                cup_serverRunning = tr_running (as_tr a), cup_forTest = False\<rparr>
      in run_bind (Defs_tick e (sw_archive w) (as_sst a) cp (as_defs a)) (\<lambda>(thrown, s).
           case thrown of
             Some msg \<Rightarrow> run_ret (Some msg, as_put s a)
           | None \<Rightarrow>
               run_bind (traverse_node_tree_and_job_generate w e time_now False (as_put s a)) (\<lambda>a1. run_ret (None, a1))))"

definition tr_upd :: "(traverser \<Rightarrow> traverser) \<Rightarrow> abstract_server \<Rightarrow> abstract_server" where
  "tr_upd f a = a\<lparr>as_tr := f (as_tr a)\<rparr>"

definition start_timer :: "abstract_server \<Rightarrow> abstract_server" where
  "start_timer = tr_upd (\<lambda>tr. tr\<lparr>tr_timer := True\<rparr>)"

text \<open>The end of an update that may have thrown.\<close>

definition then_start_timer :: "string option \<times> abstract_server \<Rightarrow> (string option \<times> abstract_server) run" where
  "then_start_timer r = (case r of (None, a) \<Rightarrow> run_ret (None, start_timer a) | (Some msg, a) \<Rightarrow> run_ret (Some msg, a))"

definition first_poll :: "int \<Rightarrow> int \<Rightarrow> traverser \<Rightarrow> traverser" where
  "first_poll interval time_now tr =
     tr\<lparr>tr_running := True, tr_firstTime := False, tr_last_time := time_now,
        tr_next_poll_time := (if interval = 60 then time_now + (60 - time_now mod 60) else time_now)\<rparr>"

definition traverser_start :: "server_world \<Rightarrow> env \<Rightarrow> abstract_server \<Rightarrow> (string option \<times> abstract_server) run" where
  "traverser_start w e a =
     (let tr = as_tr a
      in if tr_running tr then run_ret (None, a)
         else if \<not> tr_firstTime tr then run_ret (None, tr_upd (\<lambda>tr. tr\<lparr>tr_running := True\<rparr>) a)
         else let a1 = tr_upd (first_poll (as_submitJobsInterval a) (en_now e)) a
              in if as_submitJobsInterval a = 60
                 then run_bind (update_suite_calendar_and_traverse_node_tree w e (en_now e) a1) then_start_timer
                 else run_ret (None, start_timer a1))"

definition traverser_stop :: "abstract_server \<Rightarrow> abstract_server" where
  "traverser_stop = tr_upd (\<lambda>tr. tr\<lparr>tr_running := False\<rparr>)"

text \<open>\<open>do_traverse\<close>, called when the timer has fired.\<close>

definition do_traverse :: "server_world \<Rightarrow> env \<Rightarrow> abstract_server \<Rightarrow> (string option \<times> abstract_server) run" where
  "do_traverse w e a0 =
     (let a = tr_upd (\<lambda>tr. tr\<lparr>tr_timer := False\<rparr>) a0; time_now = en_now e; interval = as_submitJobsInterval a
      in if time_now < tr_next_poll_time (as_tr a)
         then run_bind (if bs_job_gen_count (as_base a) > 0 then traverse_node_tree_and_job_generate w e time_now False a else run_ret a)
                (\<lambda>a1. run_ret (None, start_timer a1))
         else run_bind (Some (remove_stale_zombies time_now (bs_zombies (as_base a)))) (\<lambda>zs.
              run_bind (run_option (advance_poll interval time_now (tr_next_poll_time (as_tr a)))) (\<lambda>t.
                let a1 = tr_upd (\<lambda>tr. tr\<lparr>tr_next_poll_time := t, tr_last_time := t - interval\<rparr>)
                           (a\<lparr>as_base := (as_base a)\<lparr>bs_zombies := zs\<rparr>\<rparr>)
                in run_bind (update_suite_calendar_and_traverse_node_tree w e time_now a1) then_start_timer)))"

section \<open>\<open>BaseServer\<close>\<close>

definition set_server_state :: "SState \<Rightarrow> abstract_server \<Rightarrow> abstract_server" where
  "set_server_state st a =
     (let s = as_defs a; g = snd (incr_state_change_no (ls_ecf (sv_sys s)))
      in as_put (s\<lparr>sv_sys := (sv_sys s)\<lparr>ls_ecf := g\<rparr>\<rparr>) (a\<lparr>as_serverState := st, as_sst := (as_sst a)\<lparr>sst_state := st\<rparr>\<rparr>))"

definition cp_upd :: "(check_pt \<Rightarrow> check_pt) \<Rightarrow> abstract_server \<Rightarrow> abstract_server" where
  "cp_upd f a = a\<lparr>as_checkpt := f (as_checkpt a)\<rparr>"

definition BaseServer_shutdown :: "abstract_server \<Rightarrow> abstract_server" where
  "BaseServer_shutdown a = set_server_state SS_SHUTDOWN (cp_upd CheckPtSaver_start (traverser_stop a))"

definition BaseServer_halted :: "abstract_server \<Rightarrow> abstract_server" where
  "BaseServer_halted a = set_server_state SS_HALTED (cp_upd CheckPtSaver_stop (traverser_stop a))"

definition BaseServer_restart :: "server_world \<Rightarrow> env \<Rightarrow> abstract_server \<Rightarrow> (string option \<times> abstract_server) run" where
  "BaseServer_restart w e a =
     run_bind (traverser_start w e (set_server_state SS_RUNNING a)) (\<lambda>(thrown, a1).
       run_ret (thrown, if thrown = None then cp_upd CheckPtSaver_start a1 else a1))"

definition BaseServer_lock :: "string \<Rightarrow> abstract_server \<Rightarrow> bool \<times> abstract_server" where
  "BaseServer_lock user a =
     (if as_userWhoHasLock a = []
      then (True, BaseServer_shutdown (a\<lparr>as_userWhoHasLock := user, as_state_to_preserve := as_serverState a\<rparr>))
      else if as_userWhoHasLock a = user \<and> as_serverState a = SS_SHUTDOWN then (True, a)
      else (False, a))"

definition BaseServer_unlock :: "server_world \<Rightarrow> env \<Rightarrow> abstract_server \<Rightarrow> (string option \<times> abstract_server) run" where
  "BaseServer_unlock w e a0 =
     (let a = a0\<lparr>as_userWhoHasLock := []\<rparr>
      in case as_state_to_preserve a of
           SS_RUNNING \<Rightarrow> BaseServer_restart w e a
         | SS_SHUTDOWN \<Rightarrow> run_ret (None, BaseServer_shutdown a)
         | SS_HALTED \<Rightarrow> run_ret (None, BaseServer_halted a))"

text \<open>\<open>nodeTreeStateChanged\<close>, after each command that writes.\<close>

definition nodeTreeStateChanged :: "disk \<Rightarrow> abstract_server \<Rightarrow> abstract_server" where
  "nodeTreeStateChanged dk a =
     (let (cp, sst, s) = saveIfAllowed dk (as_checkpt a) (as_sst a) (as_defs a)
      in as_put s (a\<lparr>as_checkpt := cp, as_sst := sst\<rparr>))"

definition periodic_check_pt :: "disk \<Rightarrow> abstract_server \<Rightarrow> abstract_server" where
  "periodic_check_pt dk a =
     (let (cp, sst, s) = periodicSaveCheckPt dk (as_checkpt a) (as_sst a) (as_defs a)
      in as_put s (a\<lparr>as_checkpt := cp, as_sst := sst\<rparr>))"

text \<open>A server as its constructor leaves it when there is no check point.\<close>

definition initial_traverser :: traverser where
  "initial_traverser = \<lparr>tr_last_time = 0, tr_next_poll_time = 0, tr_firstTime = True, tr_running = False, tr_timer = False\<rparr>"

section \<open>Commands that end with job submission\<close>

definition doJobSubmission :: "server_world \<Rightarrow> env \<Rightarrow> abstract_server \<Rightarrow> (outcome \<times> abstract_server) run" where
  "doJobSubmission w e a =
     run_bind (traverse_node_tree_and_job_generate w e (en_now e) True a) (\<lambda>a1. run_ret (Replied Reply_ok, a1))"

text \<open>\<open>CtsCmd\<close>: the commands that change the server.\<close>

datatype cts_cmd = RESTART_SERVER | SHUTDOWN_SERVER | HALT_SERVER | FORCE_DEP_EVAL | PING

definition CtsCmd_doHandleRequest :: "server_world \<Rightarrow> env \<Rightarrow> cts_cmd \<Rightarrow> abstract_server \<Rightarrow> (outcome \<times> abstract_server) run" where
  "CtsCmd_doHandleRequest w e c a =
     (case c of
        RESTART_SERVER \<Rightarrow>
          run_bind (BaseServer_restart w e a) (\<lambda>(thrown, a1).
            case thrown of Some msg \<Rightarrow> run_ret (Thrown msg, a1) | None \<Rightarrow> doJobSubmission w e a1)
      | SHUTDOWN_SERVER \<Rightarrow> run_ret (Replied Reply_ok, BaseServer_shutdown a)
      | HALT_SERVER \<Rightarrow> run_ret (Replied Reply_ok, BaseServer_halted a)
      | FORCE_DEP_EVAL \<Rightarrow>
          run_bind (Jobs_generate (jobs_world w a) e (JobsParam_make 60 False False None) (as_defs a)) (\<lambda>(ok, jp, s).
            run_ret (if ok then Replied Reply_ok else Thrown (jp_errorMsg jp), as_put s a))
      | PING \<Rightarrow> run_ret (Replied Reply_ok, a))"

section \<open>What the timer and the states of the server keep\<close>

lemma Jobs_generate_in_order:
  assumes "in_order s" "greg_weekly (en_greg e)"
  shows "\<exists>ok jp' s'. Jobs_generate w e jp s = run_ret (ok, jp', s') \<and> in_order s'"
proof -
  note ok = in_orderD [OF assms(1)]
  have "placed_children s (sv_suites s) 0 []" by (rule placed_nodes) simp
  then have "safe_run snd s (resolve_children w e (sv_suites s) 0 [] (jp, s))"
    using safe_resolve(2) [of s "sv_suites s" 0 "[]" e "(jp, s)" w] keeps_refl [OF ok(1)] ok(2) assms(2) by simp
  then obtain jp' s' where "resolve_children w e (sv_suites s) 0 [] (jp, s) = run_ret (jp', s')" "keeps s s'" "settled s'"
    by (auto simp: safe_run_def)
  with in_order_keeps [OF assms(1)] assms(1) show ?thesis by (auto simp: Jobs_generate_def)
qed

text \<open>Only the part that the requests share with the timer changes.\<close>

definition same_control :: "abstract_server \<Rightarrow> abstract_server \<Rightarrow> bool" where
  "same_control a a' \<longleftrightarrow> (\<exists>b. a' = a\<lparr>as_base := b\<rparr>)"

lemma same_control_refl [simp]: "same_control a a" "same_control a (as_put s a)" "same_control a (a\<lparr>as_base := b\<rparr>)"
  by (auto simp: same_control_def as_put_def intro: exI [of _ "as_base a"])

lemma same_control_trans: "same_control a a1 \<Longrightarrow> same_control a1 a2 \<Longrightarrow> same_control a a2"
  by (auto simp: same_control_def)

lemma as_put_defs [simp]: "as_defs (as_put s a) = s"
  by (simp add: as_put_def)

lemma traverse_ok:
  assumes "in_order (as_defs a)" "greg_weekly (en_greg e)"
  shows "\<exists>a'. traverse_node_tree_and_job_generate w e t u a = run_ret a' \<and> in_order (as_defs a') \<and> same_control a a'"
proof -
  let ?a = "a\<lparr>as_base := (as_base a)\<lparr>bs_job_gen_count := 0\<rparr>\<rparr>"
  let ?jp = "JobsParam_make (as_submitJobsInterval a) (as_jobGeneration a) True (Some (tr_next_poll_time (as_tr a)))"
  have o: "in_order (as_defs ?a)" using assms(1) by simp
  obtain ok jp s where s: "Jobs_generate (jobs_world w ?a) e ?jp (as_defs ?a) = run_ret (ok, jp, s)" "in_order s"
    using Jobs_generate_in_order [OF o assms(2)] by blast
  show ?thesis
  proof (cases "\<not> tr_running (as_tr a) \<or> u \<and> t \<ge> tr_next_poll_time (as_tr a)")
    case True
    with assms(1) show ?thesis
      by (auto simp: traverse_node_tree_and_job_generate_def increment_job_generation_count_def)
  next
    case False
    then have "traverse_node_tree_and_job_generate w e t u a = run_ret (as_put s ?a)"
      using s(1) by (auto simp: traverse_node_tree_and_job_generate_def Let_def)
    with s(2) show ?thesis by (auto simp: same_control_def as_put_def)
  qed
qed

definition poll_params :: "env \<Rightarrow> abstract_server \<Rightarrow> calendar_update_params" where
  "poll_params e a =
     \<lparr>cup_timeNow = Some (en_now e), cup_serverPollPeriod = as_submitJobsInterval a, cup_serverRunning = tr_running (as_tr a), cup_forTest = False\<rparr>"

lemma update_ok:
  assumes "in_order (as_defs a)" "greg_weekly (en_greg e)" "tick_ready e (as_sst a) (poll_params e a) (as_defs a)"
  shows "\<exists>thrown a'. update_suite_calendar_and_traverse_node_tree w e (en_now e) a = run_ret (thrown, a') \<and>
    in_order (as_defs a') \<and> same_control a a'"
proof -
  obtain thrown s where s: "Defs_tick e (sw_archive w) (as_sst a) (poll_params e a) (as_defs a) = run_ret (thrown, s)" "in_order s"
    using Defs_tick_in_order [OF assms(1,3)] by blast
  obtain a' where "traverse_node_tree_and_job_generate w e (en_now e) False (as_put s a) = run_ret a'" "in_order (as_defs a')"
    "same_control (as_put s a) a'" using traverse_ok [of "as_put s a" e w "en_now e" False] s(2) assms(2) by auto
  with s same_control_trans [of a "as_put s a" a'] show ?thesis
    by (cases thrown) (simp_all add: update_suite_calendar_and_traverse_node_tree_def poll_params_def)
qed

text \<open>The states of the server: jobs are scheduled exactly when the server runs; the definition knows the state; while the server is
  halted no check point is due; the next poll is at most one interval after the last, at a full minute for the usual interval.\<close>

definition poll_ok :: "int \<Rightarrow> traverser \<Rightarrow> bool" where
  "poll_ok interval tr \<longleftrightarrow>
     (tr_running tr \<longrightarrow> \<not> tr_firstTime tr) \<and>
     (\<not> tr_firstTime tr \<longrightarrow> tr_last_time tr \<le> tr_next_poll_time tr \<and> tr_next_poll_time tr \<le> tr_last_time tr + interval \<and>
        (interval = 60 \<longrightarrow> 60 dvd tr_next_poll_time tr))"

definition control_ok :: "abstract_server \<Rightarrow> bool" where
  "control_ok a \<longleftrightarrow>
     (tr_running (as_tr a) \<longleftrightarrow> as_serverState a = SS_RUNNING) \<and> sst_state (as_sst a) = as_serverState a \<and>
     (cp_running (as_checkpt a) \<longrightarrow> as_serverState a \<noteq> SS_HALTED) \<and> poll_ok (as_submitJobsInterval a) (as_tr a) \<and>
     0 < as_submitJobsInterval a"

definition as_ok :: "abstract_server \<Rightarrow> bool" where
  "as_ok a \<longleftrightarrow> in_order (as_defs a) \<and> control_ok a"

lemma control_same: "same_control a a' \<Longrightarrow> control_ok a' = control_ok a"
  by (auto simp: same_control_def control_ok_def)

lemma minute_boundary: "60 dvd t + (60 - t mod 60 :: int)"
proof -
  have "t + (60 - t mod 60) = 60 * (t div 60 + 1)" using mult_div_mod_eq [of 60 t] unfolding distrib_left by linarith
  then show ?thesis by (metis dvd_triv_left)
qed

lemma first_poll_ok: "0 < interval \<Longrightarrow> poll_ok interval (first_poll interval t tr) \<and> tr_running (first_poll interval t tr)"
  using minute_boundary [of t] pos_mod_bound [of 60 t] by (simp add: first_poll_def poll_ok_def less_imp_le)

lemma then_start_timer_eq: "then_start_timer (thrown, a) = run_ret (thrown, if thrown = None then start_timer a else a)"
  by (cases thrown) (simp_all add: then_start_timer_def)

lemma tr_upd_sel [simp]:
  "as_base (tr_upd f a) = as_base a" "as_tr (tr_upd f a) = f (as_tr a)" "as_serverState (tr_upd f a) = as_serverState a"
  "as_sst (tr_upd f a) = as_sst a" "as_checkpt (tr_upd f a) = as_checkpt a" "as_submitJobsInterval (tr_upd f a) = as_submitJobsInterval a"
  by (simp_all add: tr_upd_def)

lemma start_timer_ok: "as_ok (start_timer a) = as_ok a" "tr_timer (as_tr (start_timer a))"
  by (simp_all add: start_timer_def as_ok_def control_ok_def poll_ok_def)

lemma as_ok_same: "as_ok a \<Longrightarrow> same_control a a' \<Longrightarrow> in_order (as_defs a') \<Longrightarrow> as_ok a'"
  by (simp add: as_ok_def control_same)

text \<open>A poll on time, after which the timer is armed unless the archiving of a node has thrown.\<close>

definition polled :: "abstract_server \<Rightarrow> string option \<times> abstract_server \<Rightarrow> bool" where
  "polled a r \<longleftrightarrow> in_order (as_defs (snd r)) \<and> (fst r = None \<longrightarrow> tr_timer (as_tr (snd r))) \<and>
     (\<exists>b tm. snd r = a\<lparr>as_base := b, as_tr := (as_tr a)\<lparr>tr_timer := tm\<rparr>\<rparr>)"

lemma polled_start:
  assumes "same_control a a'" "in_order (as_defs a')"
  shows "polled a (None, start_timer a')"
proof -
  obtain b where b: "a' = a\<lparr>as_base := b\<rparr>" using assms(1) by (auto simp: same_control_def)
  have "start_timer a' = a\<lparr>as_base := b, as_tr := (as_tr a)\<lparr>tr_timer := True\<rparr>\<rparr>" by (simp add: b start_timer_def tr_upd_def)
  with assms(2) b show ?thesis by (auto simp: polled_def start_timer_def)
qed

lemma polled_thrown:
  assumes "same_control a a'" "in_order (as_defs a')"
  shows "polled a (Some msg, a')"
proof -
  obtain b where b: "a' = a\<lparr>as_base := b\<rparr>" using assms(1) by (auto simp: same_control_def)
  have "a' = a\<lparr>as_base := b, as_tr := (as_tr a)\<lparr>tr_timer := tr_timer (as_tr a)\<rparr>\<rparr>" by (simp add: b)
  then show ?thesis using assms(2) unfolding polled_def fst_conv snd_conv by blast
qed

lemma update_then_start:
  assumes "in_order (as_defs a)" "greg_weekly (en_greg e)" "tick_ready e (as_sst a) (poll_params e a) (as_defs a)"
  shows "\<exists>r. run_bind (update_suite_calendar_and_traverse_node_tree w e (en_now e) a) then_start_timer = run_ret r \<and> polled a r"
proof -
  obtain thrown a' where "update_suite_calendar_and_traverse_node_tree w e (en_now e) a = run_ret (thrown, a')"
    "in_order (as_defs a')" "same_control a a'" using update_ok [OF assms] by blast
  then show ?thesis by (cases thrown) (simp_all add: then_start_timer_eq polled_start polled_thrown)
qed

lemma polled_ok:
  assumes "as_ok a" "polled a r"
  shows "as_ok (snd r)"
proof -
  obtain b tm where "snd r = a\<lparr>as_base := b, as_tr := (as_tr a)\<lparr>tr_timer := tm\<rparr>\<rparr>" "in_order (as_defs (snd r))"
    using assms(2) by (auto simp: polled_def)
  with assms(1) show ?thesis by (simp add: as_ok_def control_ok_def poll_ok_def)
qed

lemma polled_next:
  assumes "polled a r"
  shows "tr_next_poll_time (as_tr (snd r)) = tr_next_poll_time (as_tr a)"
proof -
  obtain b tm where "snd r = a\<lparr>as_base := b, as_tr := (as_tr a)\<lparr>tr_timer := tm\<rparr>\<rparr>" using assms by (auto simp: polled_def)
  then show ?thesis by simp
qed

text \<open>The zombies whose first is stale cannot be scanned, and the time attributes and the clocks have to be ready for the tick.\<close>

definition poll_ready :: "env \<Rightarrow> abstract_server \<Rightarrow> bool" where
  "poll_ready e a \<longleftrightarrow>
     (bs_zombies (as_base a) = [] \<or> \<not> stale (en_now e) (hd (bs_zombies (as_base a)))) \<and>
     tick_ready e (as_sst a) (poll_params e a) (as_defs a)"

lemma poll_ready_zombies:
  assumes "poll_ready e a"
  shows "\<exists>zs'. remove_stale_zombies (en_now e) (bs_zombies (as_base a)) = Inr zs'"
proof (cases "bs_zombies (as_base a)")
  case Nil
  then show ?thesis by (simp add: remove_stale_zombies_def remove_stale_loop.simps)
next
  case (Cons z zs)
  with assms have "\<not> stale (en_now e) z" by (simp add: poll_ready_def)
  with Cons remove_stale_loop_Suc [of 0 "z # zs" "en_now e"] show ?thesis
    unfolding remove_stale_zombies_def by (subst remove_stale_loop.simps) simp
qed

lemma advance_poll_ok:
  assumes "0 < interval" "poll_ok interval tr" "t \<le> now" "t = tr_next_poll_time tr"
  shows "\<exists>t'. advance_poll interval now t = Some t' \<and> now < t' \<and> t' \<le> now + interval \<and>
    poll_ok interval (tr\<lparr>tr_next_poll_time := t', tr_last_time := t' - interval\<rparr>)"
proof -
  obtain t' where t': "advance_poll interval now t = Some t'" "now < t'" "t' \<le> now + interval" "interval dvd t' - t"
    using next_poll_times [OF assms(1,3)] by blast
  from t'(4) have "60 dvd t'" if "interval = 60" "60 dvd t" using that dvd_add [of 60 "t' - t" t] by simp
  with t' assms show ?thesis by (auto simp: poll_ok_def)
qed

lemma do_traverse_ok:
  assumes "as_ok a" "greg_weekly (en_greg e)" "poll_ready e a"
  shows "\<exists>r. do_traverse w e a = run_ret r \<and> as_ok (snd r) \<and> (fst r = None \<longrightarrow> tr_timer (as_tr (snd r))) \<and>
    en_now e < tr_next_poll_time (as_tr (snd r)) \<and>
    tr_next_poll_time (as_tr (snd r)) \<le> max (tr_next_poll_time (as_tr a)) (en_now e + as_submitJobsInterval a)"
proof (cases "en_now e < tr_next_poll_time (as_tr a)")
  case True
  let ?a = "tr_upd (\<lambda>tr. tr\<lparr>tr_timer := False\<rparr>) a"
  have o: "in_order (as_defs ?a)" using assms(1) by (simp add: as_ok_def)
  have ok: "as_ok ?a" using assms(1) by (simp add: as_ok_def control_ok_def poll_ok_def)
  obtain a' where "(if bs_job_gen_count (as_base ?a) > 0 then traverse_node_tree_and_job_generate w e (en_now e) False ?a
      else run_ret ?a) = run_ret a'" "in_order (as_defs a')" "same_control ?a a'"
    using traverse_ok [OF o assms(2), of w "en_now e" False] o by (cases "bs_job_gen_count (as_base ?a) > 0") auto
  then show ?thesis
    using True polled_start [of ?a a'] polled_ok [OF ok, of "(None, start_timer a')"] polled_next [of ?a "(None, start_timer a')"]
    by (simp add: do_traverse_def Let_def start_timer_ok)
next
  case False
  obtain zs where zs: "remove_stale_zombies (en_now e) (bs_zombies (as_base a)) = Inr zs" using poll_ready_zombies [OF assms(3)] by blast
  have c: "0 < as_submitJobsInterval a" "poll_ok (as_submitJobsInterval a) (as_tr a)" "in_order (as_defs a)"
    using assms(1) by (simp_all add: as_ok_def control_ok_def)
  obtain t where t: "advance_poll (as_submitJobsInterval a) (en_now e) (tr_next_poll_time (as_tr a)) = Some t" "en_now e < t"
    "t \<le> en_now e + as_submitJobsInterval a"
    "poll_ok (as_submitJobsInterval a) ((as_tr a)\<lparr>tr_next_poll_time := t, tr_last_time := t - as_submitJobsInterval a\<rparr>)"
    using advance_poll_ok [OF c(1,2), of "tr_next_poll_time (as_tr a)" "en_now e"] False by auto
  let ?a = "tr_upd (\<lambda>tr. tr\<lparr>tr_next_poll_time := t, tr_last_time := t - as_submitJobsInterval a\<rparr>)
    ((tr_upd (\<lambda>tr. tr\<lparr>tr_timer := False\<rparr>) a)\<lparr>as_base := (as_base a)\<lparr>bs_zombies := zs\<rparr>\<rparr>)"
  have ok: "as_ok ?a" using assms(1) t(4) by (simp add: as_ok_def control_ok_def poll_ok_def)
  have p: "poll_params e ?a = poll_params e a" by (simp add: poll_params_def)
  obtain r where r: "run_bind (update_suite_calendar_and_traverse_node_tree w e (en_now e) ?a) then_start_timer = run_ret r" "polled ?a r"
    using update_then_start [of ?a e w] c(3) assms(2,3) unfolding p poll_ready_def by auto
  have "do_traverse w e a = run_ret r" using False zs t(1) r(1) by (simp add: do_traverse_def Let_def run_option_def)
  then show ?thesis using polled_ok [OF ok r(2)] polled_next [OF r(2)] r(2) t(2,3) by (simp add: polled_def)
qed

text \<open>The first start of the server polls at once; later ones only set a flag.\<close>

definition started :: "abstract_server \<Rightarrow> abstract_server \<Rightarrow> bool" where
  "started a a' \<longleftrightarrow> in_order (as_defs a') \<and> (\<exists>b tr. a' = a\<lparr>as_base := b, as_tr := tr\<rparr> \<and> tr_running tr \<and> poll_ok (as_submitJobsInterval a) tr)"

lemma poll_ok_timer [simp]: "poll_ok interval (tr\<lparr>tr_timer := b\<rparr>) = poll_ok interval tr"
  by (simp add: poll_ok_def)

lemma startedI:
  "a' = a\<lparr>as_base := b, as_tr := tr\<rparr> \<Longrightarrow> in_order (bs_server b) \<Longrightarrow> tr_running tr \<Longrightarrow> poll_ok (as_submitJobsInterval a) tr \<Longrightarrow> started a a'"
  unfolding started_def by fastforce

lemma traverser_start_ok:
  assumes o: "in_order (as_defs a)" and p: "poll_ok (as_submitJobsInterval a) (as_tr a)" "0 < as_submitJobsInterval a"
    and g: "greg_weekly (en_greg e)"
    and t: "tick_ready e (as_sst a) ((poll_params e a)\<lparr>cup_serverRunning := True\<rparr>) (as_defs a)"
  shows "\<exists>r. traverser_start w e a = run_ret r \<and> started a (snd r)"
proof -
  let ?fp = "first_poll (as_submitJobsInterval a) (en_now e)"
  note fp = first_poll_ok [OF p(2), of "en_now e" "as_tr a"]
  consider "tr_running (as_tr a)" | "\<not> tr_running (as_tr a)" "\<not> tr_firstTime (as_tr a)"
    | "\<not> tr_running (as_tr a)" "tr_firstTime (as_tr a)" "as_submitJobsInterval a \<noteq> 60"
    | "\<not> tr_running (as_tr a)" "tr_firstTime (as_tr a)" "as_submitJobsInterval a = 60" by blast
  then show ?thesis
  proof cases
    case 1
    have "started a a" by (rule startedI [where a = a and b = "as_base a" and tr = "as_tr a"]) (use 1 o p in simp_all)
    with 1 show ?thesis by (simp add: traverser_start_def)
  next
    case 2
    have "started a (tr_upd (\<lambda>tr. tr\<lparr>tr_running := True\<rparr>) a)"
      by (rule startedI [where a = a and b = "as_base a" and tr = "(as_tr a)\<lparr>tr_running := True\<rparr>"]) (use 2 o p in \<open>simp_all add: tr_upd_def poll_ok_def\<close>)
    with 2 show ?thesis by (simp add: traverser_start_def)
  next
    case 3
    have "started a (start_timer (tr_upd ?fp a))"
      by (rule startedI [where a = a and b = "as_base a" and tr = "(?fp (as_tr a))\<lparr>tr_timer := True\<rparr>"])
        (use 3 o fp in \<open>simp_all add: tr_upd_def start_timer_def\<close>)
    with 3 show ?thesis by (simp add: traverser_start_def Let_def)
  next
    case 4
    let ?a = "tr_upd ?fp a"
    have pp: "poll_params e ?a = (poll_params e a)\<lparr>cup_serverRunning := True\<rparr>" by (simp add: poll_params_def first_poll_def)
    obtain r where r: "run_bind (update_suite_calendar_and_traverse_node_tree w e (en_now e) ?a) then_start_timer = run_ret r" "polled ?a r"
      using update_then_start [of ?a e w] o g t unfolding pp by auto
    obtain b tm where b: "snd r = ?a\<lparr>as_base := b, as_tr := (as_tr ?a)\<lparr>tr_timer := tm\<rparr>\<rparr>" "in_order (as_defs (snd r))"
      using r(2) by (auto simp: polled_def)
    have "started a (snd r)"
      by (rule startedI [where a = a and b = b and tr = "(as_tr ?a)\<lparr>tr_timer := tm\<rparr>"]) (use b fp in \<open>simp_all add: tr_upd_def\<close>)
    with 4 r(1) show ?thesis by (simp add: traverser_start_def Let_def)
  qed
qed

text \<open>The requests that change the state of the server, and the check points, leave the tree alone.\<close>

lemma in_order_cong:
  assumes "sv_suites s' = sv_suites s" "df_st (sv_defs s') = df_st (sv_defs s)"
  shows "in_order s' = in_order s"
  by (simp add: in_order_def settled_def server_ok_def assms)

lemma in_order_simps [simp]:
  "in_order (s\<lparr>sv_sys := x\<rparr>) = in_order s" "in_order (set_defs_flag t s) = in_order s"
  by (rule in_order_cong, simp_all add: set_defs_flag_def case_prod_beta' Let_def)+

lemma set_server_state_sel [simp]:
  "as_serverState (set_server_state st a) = st" "sst_state (as_sst (set_server_state st a)) = st" "as_tr (set_server_state st a) = as_tr a"
  "as_checkpt (set_server_state st a) = as_checkpt a" "as_submitJobsInterval (set_server_state st a) = as_submitJobsInterval a"
  "in_order (as_defs (set_server_state st a)) = in_order (as_defs a)"
  by (simp_all add: set_server_state_def Let_def as_put_def)

lemma cp_upd_sel [simp]:
  "as_serverState (cp_upd f a) = as_serverState a" "as_sst (cp_upd f a) = as_sst a" "as_tr (cp_upd f a) = as_tr a"
  "as_checkpt (cp_upd f a) = f (as_checkpt a)" "as_submitJobsInterval (cp_upd f a) = as_submitJobsInterval a" "as_base (cp_upd f a) = as_base a"
  by (simp_all add: cp_upd_def)

lemma traverser_stop_sel [simp]:
  "as_tr (traverser_stop a) = (as_tr a)\<lparr>tr_running := False\<rparr>" "as_base (traverser_stop a) = as_base a"
  "as_checkpt (traverser_stop a) = as_checkpt a" "as_submitJobsInterval (traverser_stop a) = as_submitJobsInterval a"
  by (simp_all add: traverser_stop_def)

lemma poll_ok_stop: "poll_ok i tr \<Longrightarrow> poll_ok i (tr\<lparr>tr_running := False\<rparr>)"
  by (simp add: poll_ok_def)

lemma shutdown_ok: "as_ok a \<Longrightarrow> as_ok (BaseServer_shutdown a)"
  by (simp add: as_ok_def control_ok_def BaseServer_shutdown_def poll_ok_stop)

lemma halted_ok: "as_ok a \<Longrightarrow> as_ok (BaseServer_halted a)"
  by (simp add: as_ok_def control_ok_def BaseServer_halted_def poll_ok_stop CheckPtSaver_stop_def)

definition start_ready :: "env \<Rightarrow> abstract_server \<Rightarrow> bool" where
  "start_ready e a \<longleftrightarrow>
     tick_ready e (as_sst (set_server_state SS_RUNNING a)) ((poll_params e a)\<lparr>cup_serverRunning := True\<rparr>) (as_defs (set_server_state SS_RUNNING a))"

lemma restart_ok:
  assumes "as_ok a" "greg_weekly (en_greg e)" "start_ready e a"
  shows "\<exists>r. BaseServer_restart w e a = run_ret r \<and> as_ok (snd r) \<and> as_serverState (snd r) = SS_RUNNING"
proof -
  let ?a = "set_server_state SS_RUNNING a"
  have a: "in_order (as_defs ?a)" "poll_ok (as_submitJobsInterval ?a) (as_tr ?a)" "0 < as_submitJobsInterval ?a"
    using assms(1) by (simp_all add: as_ok_def control_ok_def)
  have p: "poll_params e ?a = poll_params e a" by (simp add: poll_params_def)
  obtain thrown a1 where r: "traverser_start w e ?a = run_ret (thrown, a1)" "started ?a a1"
    using traverser_start_ok [OF a assms(2), of w] assms(3) unfolding start_ready_def p by auto
  obtain b tr where a1: "a1 = ?a\<lparr>as_base := b, as_tr := tr\<rparr>" "tr_running tr" "poll_ok (as_submitJobsInterval ?a) tr" "in_order (as_defs a1)"
    using r(2) by (auto simp: started_def)
  have "as_ok a1" "as_serverState a1 = SS_RUNNING" using a1 a(3) by (simp_all add: as_ok_def control_ok_def)
  then have "as_ok (if thrown = None then cp_upd CheckPtSaver_start a1 else a1) \<and>
      as_serverState (if thrown = None then cp_upd CheckPtSaver_start a1 else a1) = SS_RUNNING"
    by (simp add: as_ok_def control_ok_def)
  with r(1) show ?thesis by (simp add: BaseServer_restart_def)
qed

lemma lock_ok: "as_ok a \<Longrightarrow> as_ok (snd (BaseServer_lock user a))"
  using shutdown_ok [of "a\<lparr>as_userWhoHasLock := user, as_state_to_preserve := as_serverState a\<rparr>"]
  by (simp add: BaseServer_lock_def as_ok_def control_ok_def)

lemma unlock_ok:
  assumes "as_ok a" "greg_weekly (en_greg e)" "start_ready e a"
  shows "\<exists>r. BaseServer_unlock w e a = run_ret r \<and> as_ok (snd r) \<and> as_serverState (snd r) = as_state_to_preserve a"
proof -
  let ?a = "a\<lparr>as_userWhoHasLock := []\<rparr>"
  have ok: "as_ok ?a" using assms(1) by (simp add: as_ok_def control_ok_def)
  have "start_ready e ?a" using assms(3) by (simp add: start_ready_def set_server_state_def Let_def as_put_def poll_params_def)
  from restart_ok [OF ok assms(2) this] shutdown_ok [OF ok] halted_ok [OF ok] show ?thesis
    by (cases "as_state_to_preserve a") (simp_all add: BaseServer_unlock_def BaseServer_shutdown_def BaseServer_halted_def)
qed

lemma explicitSave_keeps [simp]:
  "in_order (snd (snd (snd (explicitSave dk cp sst s)))) = in_order s" "sst_state (fst (snd (snd (explicitSave dk cp sst s)))) = sst_state sst"
  "cp_running (fst (snd (explicitSave dk cp sst s))) = cp_running cp"
  by (simp_all add: explicitSave_def save_failed_def move_to_backup_def add_or_update_user_variables_def Let_def case_prod_beta'
      split: option.split)

lemma doSave_keeps [simp]:
  "in_order (snd (snd (doSave dk cp sst s))) = in_order s" "sst_state (fst (snd (doSave dk cp sst s))) = sst_state sst"
  "cp_running (fst (doSave dk cp sst s)) = cp_running cp"
  by (simp_all add: doSave_def)

lemma save_keeps:
  "as_ok a \<Longrightarrow> as_ok (nodeTreeStateChanged dk a)" "as_ok a \<Longrightarrow> as_ok (periodic_check_pt dk a)"
  by (simp_all add: nodeTreeStateChanged_def periodic_check_pt_def saveIfAllowed_def periodicSaveCheckPt_def Let_def case_prod_beta'
      as_ok_def control_ok_def as_put_def)

lemma job_submission_ok:
  assumes "as_ok a" "greg_weekly (en_greg e)"
  shows "\<exists>a'. doJobSubmission w e a = run_ret (Replied Reply_ok, a') \<and> as_ok a' \<and> as_serverState a' = as_serverState a"
proof -
  obtain a' where "traverse_node_tree_and_job_generate w e (en_now e) True a = run_ret a'" "in_order (as_defs a')" "same_control a a'"
    using traverse_ok [of a e w "en_now e" True] assms by (auto simp: as_ok_def)
  moreover from this as_ok_same [OF assms(1)] have "as_ok a'" by blast
  ultimately show ?thesis by (auto simp: doJobSubmission_def same_control_def)
qed

lemma CtsCmd_ok:
  assumes "as_ok a" "greg_weekly (en_greg e)" "c = RESTART_SERVER \<longrightarrow> start_ready e a"
  shows "\<exists>r. CtsCmd_doHandleRequest w e c a = run_ret r \<and> as_ok (snd r)"
proof (cases c)
  case RESTART_SERVER
  then obtain thrown a1 where r: "BaseServer_restart w e a = run_ret (thrown, a1)" "as_ok a1"
    using restart_ok [OF assms(1,2), of w] assms(3) by auto
  obtain a2 where "doJobSubmission w e a1 = run_ret (Replied Reply_ok, a2)" "as_ok a2" using job_submission_ok [OF r(2) assms(2)] by blast
  with r RESTART_SERVER show ?thesis by (cases thrown) (simp_all add: CtsCmd_doHandleRequest_def)
next
  case FORCE_DEP_EVAL
  obtain ok jp s where "Jobs_generate (jobs_world w a) e (JobsParam_make 60 False False None) (as_defs a) = run_ret (ok, jp, s)" "in_order s"
    using Jobs_generate_in_order assms(1,2) unfolding as_ok_def by blast
  with FORCE_DEP_EVAL assms(1) as_ok_same [OF assms(1), of "as_put s a"] show ?thesis by (simp add: CtsCmd_doHandleRequest_def)
qed (use assms shutdown_ok halted_ok in \<open>simp_all add: CtsCmd_doHandleRequest_def\<close>)

end
