(* ===== verification/User_Cmds.thy ===== *)
theory User_Cmds
  imports Server_Base
begin

text \<open>
  The user commands that change nodes (\<open>Base/src/cts\<close>): \<open>ForceCmd\<close>, \<open>RequeueNodeCmd\<close>, \<open>RunNodeCmd\<close>, \<open>DeleteCmd\<close>, \<open>FreeDepCmd\<close>,
  \<open>OrderNodeCmd\<close> and the cases suspend, resume, kill and archive of \<open>PathsCmd\<close>, with the operations of \<open>Node\<close>, \<open>NodeContainer\<close>
  and \<open>Defs\<close> (\<open>ANode/src\<close>) behind them. A command goes through its paths; what it could not do for a path is collected, and
  thrown at the end. What other paths and earlier steps have changed stays. The edit history (with the flag that \<open>EditHistoryMgr\<close>
  sets) and \<open>SuiteChanged\<close> are left out; the archive files that a delete removes are in \<open>Restore\<close>.
\<close>

section \<open>The loop over the paths\<close>

datatype path_result = Path_done | Path_error string | Path_end outcome

fun for_paths :: "(string \<Rightarrow> 'st \<Rightarrow> (path_result \<times> 'st) run) \<Rightarrow> string list \<Rightarrow> string \<Rightarrow> 'st \<Rightarrow> (path_result \<times> 'st) run" where
  "for_paths f [] error_msg st = run_ret (if error_msg = [] then Path_done else Path_end (Thrown error_msg), st)"
| "for_paths f (path # paths) error_msg st =
     run_bind (f path st) (\<lambda>(r, st1).
       case r of
         Path_done \<Rightarrow> for_paths f paths error_msg st1
       | Path_error msg \<Rightarrow> for_paths f paths (error_msg @ msg) st1
       | Path_end x \<Rightarrow> run_ret (Path_end x, st1))"

text \<open>One step on a path that names a node; \<open>not_found\<close> is the text for a path that does not.\<close>

definition at_path ::
    "string \<Rightarrow> (addr \<Rightarrow> base_server \<Rightarrow> (path_result \<times> base_server) run) \<Rightarrow> string \<Rightarrow> base_server \<Rightarrow> (path_result \<times> base_server) run" where
  "at_path not_found f path b =
     (case findAbsNode (sv_defs (bs_server b)) path of
        None \<Rightarrow> run_ret (Path_error (not_found @ path @ newline), b)
      | Some p \<Rightarrow> f p b)"

definition with_server :: "(server \<Rightarrow> server run) \<Rightarrow> base_server \<Rightarrow> base_server run" where
  "with_server f b = run_bind (f (bs_server b)) (\<lambda>s. run_ret (b\<lparr>bs_server := s\<rparr>))"

definition with_zombie_list ::
    "(zombie list \<times> server \<Rightarrow> (zombie list \<times> server) run) \<Rightarrow> base_server \<Rightarrow> base_server run" where
  "with_zombie_list f b =
     run_bind (f (bs_zombies b, bs_server b)) (\<lambda>(zs, s). run_ret (b\<lparr>bs_zombies := zs, bs_server := s\<rparr>))"

definition path_done :: "base_server run \<Rightarrow> (path_result \<times> base_server) run" where
  "path_done m = run_bind m (\<lambda>b. run_ret (Path_done, b))"

section \<open>Operations on nodes\<close>

text \<open>A change of a node and, below a suite or a family, of its children.\<close>

fun down_containers :: "(node_data \<Rightarrow> ecf \<Rightarrow> (node_data \<times> ecf) run) \<Rightarrow> node \<Rightarrow> ecf \<Rightarrow> (node \<times> ecf) run"
  and down_children :: "(node_data \<Rightarrow> ecf \<Rightarrow> (node_data \<times> ecf) run) \<Rightarrow> node list \<Rightarrow> ecf \<Rightarrow> (node list \<times> ecf) run" where
  "down_containers f (Node nd ks) g =
     run_bind (f nd g) (\<lambda>(nd', g1).
       if nd_kind nd \<in> {K_Suite, K_Family}
       then run_bind (down_children f ks g1) (\<lambda>(ks', g2). run_ret (Node nd' ks', g2))
       else run_ret (Node nd' ks, g1))"
| "down_children f [] g = run_ret ([], g)"
| "down_children f (k # ks) g =
     run_bind (down_containers f k g) (\<lambda>(k', g1).
     run_bind (down_children f ks g1) (\<lambda>(ks', g2). run_ret (k' # ks', g2)))"

definition down_at :: "(node_data \<Rightarrow> ecf \<Rightarrow> (node_data \<times> ecf) run) \<Rightarrow> addr \<Rightarrow> server \<Rightarrow> server run" where
  "down_at f p s =
     (case node_at (sv_suites s) p of
        None \<Rightarrow> Some (Inl (Undefined_behaviour ''Node*''))
      | Some n \<Rightarrow>
          run_bind (down_containers f n (ls_ecf (sv_sys s))) (\<lambda>(n', g). run_ret (sv_put (put_node n' (sv_suites s) p) g s)))"

definition Node_reset_late_event_meters :: "node_data \<Rightarrow> ecf \<Rightarrow> (node_data \<times> ecf) run" where
  "Node_reset_late_event_meters nd g =
     (let (nd1, g1) = reset_late nd g
      in run_bind (each (\<lambda>m g. Some (Meter_reset m g)) (nd_meters nd1) g1) (\<lambda>(ms, g2).
         run_bind (each (\<lambda>x g. run_ret (Event_reset x g)) (nd_events nd1) g2) (\<lambda>(es, g3).
           run_ret (nd1\<lparr>nd_meters := ms, nd_events := es\<rparr>, g3))))"

definition reset_late_event_meters :: "addr \<Rightarrow> server \<Rightarrow> server run" where
  "reset_late_event_meters = down_at Node_reset_late_event_meters"

definition Node_setRepeatToLastValue :: "node_data \<Rightarrow> ecf \<Rightarrow> node_data \<times> ecf" where
  "Node_setRepeatToLastValue nd g =
     (let (r, g1) = setRepeatToLastValue (nd_repeat nd) g in (nd\<lparr>nd_repeat := r\<rparr>, g1))"

definition setRepeatToLastValueHierarchically :: "addr \<Rightarrow> server \<Rightarrow> server run" where
  "setRepeatToLastValueHierarchically = down_at (\<lambda>nd g. run_ret (Node_setRepeatToLastValue nd g))"

text \<open>\<open>set_event\<close> and \<open>clear_event\<close> of a user command, by name or number.\<close>

definition Node_set_event :: "bool \<Rightarrow> string \<Rightarrow> node_data \<Rightarrow> ecf \<Rightarrow> bool \<times> node_data \<times> ecf" where
  "Node_set_event v event_name_or_number nd g =
     (case first_pos (\<lambda>x. name_or_number x = event_name_or_number) (nd_events nd) of
        None \<Rightarrow> (False, nd, g)
      | Some i \<Rightarrow>
          let (x, g1) = Event_set_value v (nd_events nd ! i) g in (True, nd\<lparr>nd_events := (nd_events nd)[i := x]\<rparr>, g1))"

text \<open>The addresses of the tasks of a node.\<close>

fun getAllTasks :: "node \<Rightarrow> addr \<Rightarrow> addr list" and tasks_below :: "node list \<Rightarrow> nat \<Rightarrow> addr \<Rightarrow> addr list" where
  "getAllTasks (Node nd ks) p =
     (case nd_kind nd of K_Task \<Rightarrow> [p] | K_Alias \<Rightarrow> [] | _ \<Rightarrow> tasks_below ks 0 p)"
| "tasks_below [] i p = []"
| "tasks_below (k # ks) i p = getAllTasks k (p @ [i]) @ tasks_below ks (Suc i) p"

definition state_at :: "server \<Rightarrow> addr \<Rightarrow> NState_State option" where
  "state_at s p = map_option node_state (node_at (sv_suites s) p)"

definition tasks_in :: "NState_State set \<Rightarrow> server \<Rightarrow> addr \<Rightarrow> bool" where
  "tasks_in sts s p =
     (case node_at (sv_suites s) p of None \<Rightarrow> False | Some n \<Rightarrow> \<exists>q \<in> set (getAllTasks n p). \<exists>st \<in> sts. state_at s q = Some st)"

section \<open>\<open>ForceCmd\<close>\<close>

text \<open>\<open>fc_arg\<close> is a state or one of \<open>set\<close> and \<open>clear\<close>.\<close>

record force_cmd =
  fc_arg :: string
  fc_recursive :: bool
  fc_setRepeatToLastValue :: bool

definition force_state :: "zombie_world \<Rightarrow> env \<Rightarrow> force_cmd \<Rightarrow> NState_State \<Rightarrow> addr \<Rightarrow> base_server \<Rightarrow> base_server run" where
  "force_state w e c new_state p b =
     run_bind (if new_state = NS_COMPLETE then with_server (change p miss_next_time_slot) b else run_ret b) (\<lambda>b1.
     run_bind (if new_state \<noteq> NS_ACTIVE \<and> new_state \<noteq> NS_SUBMITTED
               then with_zombie_list (add_user_zombies_node w ''force'' (Some p)) b1 else run_ret b1) (\<lambda>b2.
     run_bind (with_server (if fc_recursive c then set_state_hierarchically e p new_state True else set_state e p new_state) b2) (\<lambda>b3.
       if new_state = NS_QUEUED then with_server (reset_late_event_meters p) b3 else run_ret b3)))"

text \<open>An event that is not found ends the work on the path.\<close>

definition force_event :: "force_cmd \<Rightarrow> string \<Rightarrow> addr \<Rightarrow> base_server \<Rightarrow> (bool \<times> base_server) run" where
  "force_event c the_event p b =
     run_bind (ask_data p (\<lambda>nd g. run_ret (Node_set_event (fc_arg c = ''set'') the_event nd g)) (bs_server b)) (\<lambda>(found, s).
       run_ret (found, b\<lparr>bs_server := s\<rparr>))"

definition force_repeats :: "force_cmd \<Rightarrow> addr \<Rightarrow> base_server \<Rightarrow> base_server run" where
  "force_repeats c p b =
     (if fc_recursive c \<and> fc_setRepeatToLastValue c then with_server (setRepeatToLastValueHierarchically p) b else run_ret b)"

definition force_node ::
    "zombie_world \<Rightarrow> env \<Rightarrow> force_cmd \<Rightarrow> string \<Rightarrow> addr \<Rightarrow> base_server \<Rightarrow> (path_result \<times> base_server) run" where
  "force_node w e c the_event p b =
     run_bind (with_server (change p (flag_set FL_MESSAGE)) b) (\<lambda>b1.
       if NState_isValid (fc_arg c)
       then run_bind (Some (NState_toState (fc_arg c))) (\<lambda>new_state.
              path_done (run_bind (force_state w e c new_state p b1) (force_repeats c p)))
       else run_bind (force_event c the_event p b1) (\<lambda>(found, b2).
             if found then path_done (force_repeats c p b2)
             else run_ret (Path_error (''ForceCmd: force set: failed, cannot find event('' @ the_event @ '')'' @ newline), b2)))"

definition force_path :: "zombie_world \<Rightarrow> env \<Rightarrow> force_cmd \<Rightarrow> string \<Rightarrow> base_server \<Rightarrow> (path_result \<times> base_server) run" where
  "force_path w e c path b =
     (let (_, the_path, the_event) = (if Event_isValidState (fc_arg c) then pathAndName path path [] else (True, path, []))
      in if Event_isValidState (fc_arg c) \<and> (the_path = [] \<or> the_event = [])
         then run_ret (Path_error (''ForceCmd: When set or clear is specified the path needs to include name of the event'' @ newline), b)
         else at_path ''ForceCmd: Could not find node at path '' (force_node w e c the_event) the_path b)"

section \<open>\<open>RequeueNodeCmd\<close>\<close>

datatype requeue_option = NO_OPTION | ABORT | FORCE

definition user_requeue_args :: Requeue_args where
  "user_requeue_args =
     \<lparr>rq_t = RQ_FULL, rq_clear_suspended = 0, rq_resetRepeats = True, rq_reset_next_time_slot = True,
      rq_reset_relative_duration = True, rq_log_state_changes = True\<rparr>"

text \<open>\<open>theNodeToRequeue->requeue(args)\<close>: the arguments are passed by reference, and shared by all paths.\<close>

definition requeue_ref :: "env \<Rightarrow> addr \<Rightarrow> Requeue_args \<times> server \<Rightarrow> (Requeue_args \<times> server) run" where
  "requeue_ref e p a =
     (case node_at (sv_suites (snd a)) p of
        None \<Rightarrow> Some (Inl (Undefined_behaviour ''Node*''))
      | Some n \<Rightarrow> requeue e n p a)"

definition parent_state_change :: "env \<Rightarrow> addr \<Rightarrow> server \<Rightarrow> server run" where
  "parent_state_change e p s = (if butlast p = [] then run_ret s else handleStateChange e (butlast p) s)"

definition requeue_whole :: "env \<Rightarrow> addr \<Rightarrow> Requeue_args \<times> server \<Rightarrow> (Requeue_args \<times> server) run" where
  "requeue_whole e p a =
     run_bind (requeue_ref e p a) (\<lambda>(args, s1).
     run_bind (parent_state_change e p (up_node_tree_at p s1)) (\<lambda>s2. run_ret (args, s2)))"

fun requeue_aborted :: "env \<Rightarrow> addr list \<Rightarrow> Requeue_args \<times> server \<Rightarrow> (Requeue_args \<times> server) run" where
  "requeue_aborted e [] a = run_ret a"
| "requeue_aborted e (q # qs) a =
     run_bind (if state_at (snd a) q = Some NS_ABORTED
               then run_bind (requeue_ref e q a) (\<lambda>(args, s1). run_ret (args, up_node_tree_at q s1)) else run_ret a)
       (requeue_aborted e qs)"

definition requeue_aborted_tasks :: "env \<Rightarrow> addr \<Rightarrow> Requeue_args \<times> server \<Rightarrow> (Requeue_args \<times> server) run" where
  "requeue_aborted_tasks e p a =
     (case node_at (sv_suites (snd a)) p of
        None \<Rightarrow> Some (Inl (Undefined_behaviour ''Node*''))
      | Some n \<Rightarrow>
          run_bind (requeue_aborted e (getAllTasks n p) a) (\<lambda>(args, s1).
          run_bind (parent_state_change e p s1) (\<lambda>s2. run_ret (args, s2))))"

definition suite_begun :: "server \<Rightarrow> addr \<Rightarrow> bool" where
  "suite_begun s p = (case node_at (sv_suites s) [hd p] of None \<Rightarrow> False | Some n \<Rightarrow> su_begun (nd_suite (ndata n)))"

text \<open>The requeue may be refused: \<open>return PreAllocatedReply::ok_cmd()\<close> in the loop ends the command.\<close>

definition with_args ::
    "(Requeue_args \<times> server \<Rightarrow> (Requeue_args \<times> server) run) \<Rightarrow> Requeue_args \<times> base_server \<Rightarrow>
     (path_result \<times> Requeue_args \<times> base_server) run" where
  "with_args f st =
     run_bind (f (fst st, bs_server (snd st))) (\<lambda>(args, s). run_ret (Path_done, args, (snd st)\<lparr>bs_server := s\<rparr>))"

definition requeue_at_path ::
    "zombie_world \<Rightarrow> env \<Rightarrow> requeue_option \<Rightarrow> string \<Rightarrow> Requeue_args \<times> base_server \<Rightarrow> (path_result \<times> Requeue_args \<times> base_server) run" where
  "requeue_at_path w e opt path st =
     (let (args, b) = st
      in case findAbsNode (sv_defs (bs_server b)) path of
           None \<Rightarrow> run_ret (Path_error (''RequeueNodeCmd: Could not find node at path '' @ path @ newline), st)
         | Some p \<Rightarrow>
             if \<not> suite_begun (bs_server b) p
             then run_ret (Path_end (Thrown (''RequeueNodeCmd::doHandleRequest: For node '' @ path @ '' the suite must be begun first'')), st)
             else (case opt of
               ABORT \<Rightarrow> with_args (requeue_aborted_tasks e p) st
             | NO_OPTION \<Rightarrow>
                 if tasks_in {NS_SUBMITTED, NS_ACTIVE} (bs_server b) p then run_ret (Path_end (Replied Reply_ok), st)
                 else with_args (requeue_whole e p) st
             | FORCE \<Rightarrow>
                 run_bind (with_zombie_list (add_user_zombies_node w ''requeue'' (Some p)) b) (\<lambda>b1.
                   with_args (requeue_whole e p) (args, b1))))"

section \<open>\<open>RunNodeCmd\<close>\<close>

text \<open>\<open>Submittable::run\<close> and \<open>NodeContainer::run\<close>. The first argument fixes the nodes to visit.\<close>

definition submitJob :: "job_world \<Rightarrow> env \<Rightarrow> addr \<Rightarrow> jobs_param \<Rightarrow> server \<Rightarrow> (bool \<times> jobs_param \<times> server) run" where
  "submitJob w e p jp s = run_bind (change p (increment_try_no (jw_password w p)) s) (\<lambda>s1. submit_job_only w e p jp s1)"

definition Submittable_run ::
    "job_world \<Rightarrow> env \<Rightarrow> bool \<Rightarrow> addr \<Rightarrow> jobs_param \<times> server \<Rightarrow> (jobs_param \<times> server) run" where
  "Submittable_run w e force p a =
     (let (jp, s) = a
      in if force \<or> state_at s p \<noteq> Some NS_SUBMITTED \<and> state_at s p \<noteq> Some NS_ACTIVE
         then (if jp_createJobs jp then run_bind (submitJob w e p jp s) (\<lambda>(_, jp1, s1). run_ret (jp1, s1)) else run_ret (jp, s))
         else run_ret (add_error (''Submittable::run: Aborted for task '' @ absNodePath (sv_defs s) p @ '' and force not set'' @ newline) jp, s))"

fun run_node :: "job_world \<Rightarrow> env \<Rightarrow> bool \<Rightarrow> node \<Rightarrow> addr \<Rightarrow> jobs_param \<times> server \<Rightarrow> (jobs_param \<times> server) run"
  and run_children :: "job_world \<Rightarrow> env \<Rightarrow> bool \<Rightarrow> node list \<Rightarrow> nat \<Rightarrow> addr \<Rightarrow> jobs_param \<times> server \<Rightarrow> (jobs_param \<times> server) run" where
  "run_node w e force (Node nd ks) p a =
     (if nd_kind nd \<in> {K_Suite, K_Family} then run_children w e force ks 0 p a else Submittable_run w e force p a)"
| "run_children w e force [] i p a = run_ret a"
| "run_children w e force (k # ks) i p a = run_bind (run_node w e force k (p @ [i]) a) (run_children w e force ks (Suc i) p)"

definition run_at :: "job_world \<Rightarrow> env \<Rightarrow> bool \<Rightarrow> jobs_param \<Rightarrow> addr \<Rightarrow> server \<Rightarrow> server run" where
  "run_at w e force jp p s =
     (case node_at (sv_suites s) p of
        None \<Rightarrow> Some (Inl (Undefined_behaviour ''Node*''))
      | Some n \<Rightarrow> run_bind (run_node w e force n p (jp, s)) (\<lambda>(_, s1). run_ret s1))"

definition run_command ::
    "zombie_world \<Rightarrow> job_world \<Rightarrow> env \<Rightarrow> int \<Rightarrow> bool \<Rightarrow> string \<Rightarrow> addr \<Rightarrow> base_server \<Rightarrow> (path_result \<times> base_server) run" where
  "run_command zw jw e poll_interval force path p b =
     (if \<not> suite_begun (bs_server b) p
      then run_ret (Path_end (Thrown (''RunNodeCmd failed: For '' @ path @ ''. The suite must be begun first'')), b)
      else run_bind (if force then with_zombie_list (add_user_zombies_node zw ''run'' (Some p)) b else run_ret b) (\<lambda>b1.
           run_bind (with_server (change p miss_next_time_slot) b1) (\<lambda>b2.
             path_done (with_server (run_at jw e force (JobsParam_make poll_interval True True None) p) b2))))"

section \<open>\<open>DeleteCmd\<close>\<close>

text \<open>\<open>doDeleteChild\<close> of the definition, of a container and of a task.\<close>

fun erase_node :: "node list \<Rightarrow> addr \<Rightarrow> node list" where
  "erase_node ns [] = ns"
| "erase_node ns (i # p) =
     (if i < length ns
      then if p = [] then erase_at i ns else ns[i := Node (ndata (ns ! i)) (erase_node (kids (ns ! i)) p)]
      else ns)"

definition deleteChild :: "addr \<Rightarrow> server \<Rightarrow> server" where
  "deleteChild p s =
     (let ns = erase_node (sv_suites s) p; g = ls_ecf (sv_sys s); parent = butlast p
      in if parent = [] then Defs_settle (sv_put ns (snd (incr_modify_change_no g)) s)
         else let s1 = sv_put ns (snd (incr_state_change_no g)) s
              in case node_at (sv_suites s) parent of
                   None \<Rightarrow> s1
                 | Some n \<Rightarrow> if nd_kind (ndata n) = K_Task then s1 else up_node_tree_at parent s1)"

definition delete_node ::
    "zombie_world \<Rightarrow> bool \<Rightarrow> addr \<Rightarrow> base_server \<Rightarrow> (path_result \<times> base_server) run" where
  "delete_node w force p b =
     (if \<not> force \<and> tasks_in {NS_ACTIVE, NS_SUBMITTED} (bs_server b) p
      then run_ret (Path_end (Thrown ''Cannot delete node: there are active or submitted tasks''), b)
      else run_bind (if force then with_zombie_list (add_user_zombies_node w ''delete'' (Some p)) b else run_ret b) (\<lambda>b1.
             run_ret (Path_done, b1\<lparr>bs_server := deleteChild p (bs_server b1)\<rparr>)))"

definition Defs_clear :: "server \<Rightarrow> server" where
  "Defs_clear s =
     (let (st, g) = NState_setState NS_UNKNOWN (df_st (sv_defs s)) (ls_ecf (sv_sys s))
      in s\<lparr>sv_defs := (sv_defs s)\<lparr>df_suites := [], df_externs := {}, df_st := st\<rparr>,
           sv_sys := (sv_sys s)\<lparr>ls_ecf := snd (incr_modify_change_no g)\<rparr>\<rparr>)"

text \<open>Without a path everything is deleted; the reply, which also resets the client, is that of the other commands.\<close>

definition delete_all :: "zombie_world \<Rightarrow> bool \<Rightarrow> base_server \<Rightarrow> (path_result \<times> base_server) run" where
  "delete_all w force b =
     (if \<not> force \<and> (\<exists>q \<in> set (tasks_below (sv_suites (bs_server b)) 0 []). state_at (bs_server b) q \<in> {Some NS_ACTIVE, Some NS_SUBMITTED})
      then run_ret (Path_end (Thrown ''Cannot delete all nodes.''), b)
      else run_bind (if force then with_zombie_list (add_user_zombies_defs w ''delete'') b else run_ret b) (\<lambda>b1.
             run_ret (Path_done, b1\<lparr>bs_server := Defs_clear (bs_server b1)\<rparr>)))"

section \<open>\<open>PathsCmd\<close> and \<open>FreeDepCmd\<close>\<close>

definition suspend_node :: "addr \<Rightarrow> base_server \<Rightarrow> (path_result \<times> base_server) run" where
  "suspend_node p b = path_done (with_server (\<lambda>s. run_bind (change p suspend s) (change p (flag_set FL_MESSAGE))) b)"

definition resume_node :: "addr \<Rightarrow> base_server \<Rightarrow> (path_result \<times> base_server) run" where
  "resume_node p b =
     path_done (run_bind (with_server (\<lambda>s. run_bind (change p resume s) (change p (flag_set FL_MESSAGE))) b) (\<lambda>b1.
       run_ret (increment_job_generation_count b1)))"

text \<open>\<open>NodeContainer::kill\<close> stops at the first task whose kill throws.\<close>

fun kill_node :: "zombie_world \<Rightarrow> node \<Rightarrow> addr \<Rightarrow> server \<Rightarrow> (string option \<times> server) run"
  and kill_children :: "zombie_world \<Rightarrow> node list \<Rightarrow> nat \<Rightarrow> addr \<Rightarrow> server \<Rightarrow> (string option \<times> server) run" where
  "kill_node w (Node nd ks) p s =
     (if nd_kind nd \<in> {K_Suite, K_Family} then kill_children w ks 0 p s else Submittable_kill w [] p s)"
| "kill_children w [] i p s = run_ret (None, s)"
| "kill_children w (k # ks) i p s =
     run_bind (kill_node w k (p @ [i]) s) (\<lambda>(thrown, s1).
       if thrown = None then kill_children w ks (Suc i) p s1 else run_ret (thrown, s1))"

definition kill_command :: "zombie_world \<Rightarrow> addr \<Rightarrow> base_server \<Rightarrow> (path_result \<times> base_server) run" where
  "kill_command w p b =
     (case node_at (sv_suites (bs_server b)) p of
        None \<Rightarrow> Some (Inl (Undefined_behaviour ''Node*''))
      | Some n \<Rightarrow>
          run_bind (kill_node w n p (bs_server b)) (\<lambda>(thrown, s).
            run_ret (case thrown of None \<Rightarrow> Path_done | Some msg \<Rightarrow> Path_end (Thrown msg), b\<lparr>bs_server := s\<rparr>)))"

definition freeTrigger :: "node_data \<Rightarrow> ecf \<Rightarrow> node_data \<times> ecf" where
  "freeTrigger nd g =
     (case nd_trigger nd of
        None \<Rightarrow> (nd, g) | Some x \<Rightarrow> let (x1, g1) = Expression_setFree x g in (nd\<lparr>nd_trigger := Some x1\<rparr>, g1))"

record free_dep_cmd =
  fd_trigger :: bool
  fd_all :: bool
  fd_date :: bool
  fd_time :: bool

definition free_dates :: "calendar \<Rightarrow> node_data \<Rightarrow> ecf \<Rightarrow> node_data \<times> ecf" where
  "free_dates c nd g = (let (nt, g1) = freeHoldingDateDependencies c (nd_time nd) g in (nd\<lparr>nd_time := nt\<rparr>, g1))"

definition free_times :: "env \<Rightarrow> calendar \<Rightarrow> node_data \<Rightarrow> ecf \<Rightarrow> (node_data \<times> ecf) run" where
  "free_times e c nd g =
     run_bind (freeHoldingTimeDependencies (en_greg e) c (nd_time nd) g) (\<lambda>(nt, g1). run_ret (nd\<lparr>nd_time := nt\<rparr>, g1))"

definition free_dep_node :: "env \<Rightarrow> free_dep_cmd \<Rightarrow> addr \<Rightarrow> base_server \<Rightarrow> (path_result \<times> base_server) run" where
  "free_dep_node e c p b =
     (let cal = suite_cal (sv_defs (bs_server b)) p
      in path_done (with_server (\<lambda>s.
           run_bind (if fd_all c \<or> fd_trigger c then change p freeTrigger s else run_ret s) (\<lambda>s1.
           run_bind (if fd_all c \<or> fd_date c then change p (free_dates cal) s1 else run_ret s1) (\<lambda>s2.
             if fd_all c \<or> fd_time c then on_data p (free_times e cal) s2 else run_ret s2))) b))"

text \<open>\<open>PathsCmd::ARCHIVE\<close> goes through the paths twice: a container below another of the paths is left out, then each one is
  archived.\<close>

definition to_archive :: "server \<Rightarrow> string list \<Rightarrow> string \<Rightarrow> addr list \<times> string" where
  "to_archive s paths path =
     (case findAbsNode (sv_defs s) path of
        None \<Rightarrow> ([], ''PathsCmd:ARCHIVE: Could not find node at path '' @ path @ newline)
      | Some p \<Rightarrow>
          if (case node_at (sv_suites s) p of None \<Rightarrow> True | Some n \<Rightarrow> nd_kind (ndata n) \<notin> {K_Suite, K_Family}) then ([], [])
          else if \<exists>q \<in> set (tl (up_addrs p)). absNodePath (sv_defs s) q \<in> set paths then ([], [])
          else ([p], []))"

definition archive_node ::
    "zombie_world \<Rightarrow> archive_world \<Rightarrow> server_state \<Rightarrow> bool \<Rightarrow> addr \<Rightarrow> base_server \<Rightarrow> (path_result \<times> base_server) run" where
  "archive_node w aw sr force p b =
     (if \<not> force \<and> tasks_in {NS_ACTIVE, NS_SUBMITTED} (bs_server b) p
      then run_ret (Path_end (Thrown ''Cannot delete node: there are active or submitted tasks''), b)
      else run_bind (if force then with_zombie_list (add_user_zombies_node w ''archive'' (Some p)) b else run_ret b) (\<lambda>b1.
           run_bind (with_server (change p (flag_set FL_MESSAGE)) b1) (\<lambda>b2.
           run_bind (NodeContainer_archive aw sr p (bs_server b2)) (\<lambda>(thrown, s).
             run_ret (case thrown of None \<Rightarrow> Path_done | Some msg \<Rightarrow> Path_end (Thrown msg), b2\<lparr>bs_server := s\<rparr>)))))"

fun archive_nodes ::
    "zombie_world \<Rightarrow> archive_world \<Rightarrow> server_state \<Rightarrow> bool \<Rightarrow> addr list \<Rightarrow> base_server \<Rightarrow> (path_result \<times> base_server) run" where
  "archive_nodes w aw sr force [] b = run_ret (Path_done, b)"
| "archive_nodes w aw sr force (p # ps) b =
     run_bind (archive_node w aw sr force p b) (\<lambda>(r, b1).
       if r = Path_done then archive_nodes w aw sr force ps b1 else run_ret (r, b1))"

definition archive_command ::
    "zombie_world \<Rightarrow> archive_world \<Rightarrow> server_state \<Rightarrow> bool \<Rightarrow> string list \<Rightarrow> base_server \<Rightarrow> (path_result \<times> base_server) run" where
  "archive_command w aw sr force paths b =
     (if paths = [] then run_ret (Path_end (Thrown ''No paths specified for archive''), b)
      else let cs = map (to_archive (bs_server b) paths) paths; errors = concat (map snd cs)
           in run_bind (archive_nodes w aw sr force (concat (map fst cs)) b) (\<lambda>(r, b1).
                run_ret (if r = Path_done \<and> errors \<noteq> [] then Path_end (Thrown errors) else r, b1)))"

section \<open>The order of the children\<close>

definition char_upper :: "char \<Rightarrow> nat" where
  "char_upper c = (let k = of_char c :: nat in if 97 \<le> k \<and> k \<le> 122 then k - 32 else k)"

text \<open>\<open>std::lexicographical_compare\<close> with a comparison of the characters.\<close>

fun lexicographical_compare :: "('a \<Rightarrow> 'a \<Rightarrow> bool) \<Rightarrow> 'a list \<Rightarrow> 'a list \<Rightarrow> bool" where
  "lexicographical_compare lt xs [] = False"
| "lexicographical_compare lt [] (y # ys) = True"
| "lexicographical_compare lt (x # xs) (y # ys) =
     (if lt x y then True else if lt y x then False else lexicographical_compare lt xs ys)"

text \<open>Names are ASCII, so that a comparison of \<open>char\<close>s is one of their codes.\<close>

definition caseInsLess :: "string \<Rightarrow> string \<Rightarrow> bool" where
  "caseInsLess = lexicographical_compare (\<lambda>x y.
     if char_upper x = char_upper y then (of_char x :: nat) > of_char y else char_upper x < char_upper y)"

definition caseInsGreater :: "string \<Rightarrow> string \<Rightarrow> bool" where
  "caseInsGreater = lexicographical_compare (\<lambda>x y.
     if char_upper x = char_upper y then (of_char x :: nat) < of_char y else char_upper x > char_upper y)"

definition alpha_less :: "string \<Rightarrow> string \<Rightarrow> bool" where
  "alpha_less a b =
     (case (lexical_cast_int a, lexical_cast_int b) of
        (Some i, Some j) \<Rightarrow> i < j
      | _ \<Rightarrow> caseInsLess a b)"

text \<open>\<open>std::sort\<close> is the argument \<open>sorter\<close>; it is undefined for a comparison that is no strict weak ordering.\<close>

definition strict_weak :: "('a \<Rightarrow> 'a \<Rightarrow> bool) \<Rightarrow> 'a list \<Rightarrow> bool" where
  "strict_weak lt xs \<longleftrightarrow>
     list_all (\<lambda>x. \<not> lt x x) xs \<and>
     list_all (\<lambda>x. list_all (\<lambda>y. list_all (\<lambda>z.
       (lt x y \<and> lt y z \<longrightarrow> lt x z) \<and>
       (\<not> lt x y \<and> \<not> lt y x \<and> \<not> lt y z \<and> \<not> lt z y \<longrightarrow> \<not> lt x z \<and> \<not> lt z x)) xs) xs) xs"

type_synonym sorter = "(node \<Rightarrow> node \<Rightarrow> bool) \<Rightarrow> node list \<Rightarrow> node list"

definition std_sort :: "sorter \<Rightarrow> (node \<Rightarrow> node \<Rightarrow> bool) \<Rightarrow> node list \<Rightarrow> (bool \<times> node list) run" where
  "std_sort sorter lt ns =
     (if strict_weak lt ns then run_ret (True, sorter lt ns) else Some (Inl (Undefined_behaviour ''std::sort'')))"

fun sum_runtime :: "node \<Rightarrow> int \<times> node" where
  "sum_runtime (Node nd ks) =
     (if nd_kind nd \<in> {K_Suite, K_Family}
      then let ks' = map sum_runtime ks; rt = sum_list (map fst ks') in (rt, Node (nd\<lparr>nd_sc_rt := rt\<rparr>) (map snd ks'))
      else (nd_sc_rt nd, Node nd ks))"

text \<open>The new list, and whether the change number of the order is taken. The aliases of a task are sorted by their names alone, and
  have no runtime to sum up.\<close>

definition order_nodes :: "sorter \<Rightarrow> bool \<Rightarrow> NOrder \<Rightarrow> nat \<Rightarrow> node list \<Rightarrow> (bool \<times> node list) run" where
  "order_nodes sorter aliases ord i ns =
     (case ord of
        ORD_TOP \<Rightarrow> run_ret (True, ns ! i # erase_at i ns)
      | ORD_BOTTOM \<Rightarrow> run_ret (True, erase_at i ns @ [ns ! i])
      | ORD_ALPHA \<Rightarrow> std_sort sorter (\<lambda>a b. (if aliases then caseInsLess else alpha_less) (nd_name (ndata a)) (nd_name (ndata b))) ns
      | ORD_ORDER \<Rightarrow> std_sort sorter (\<lambda>a b. caseInsGreater (nd_name (ndata a)) (nd_name (ndata b))) ns
      | ORD_UP \<Rightarrow> run_ret (if i = 0 then (False, ns) else (True, ns[i := ns ! (i - 1), i - 1 := ns ! i]))
      | ORD_DOWN \<Rightarrow> run_ret (if Suc i = length ns then (False, ns) else (True, ns[i := ns ! Suc i, Suc i := ns ! i]))
      | ORD_RUNTIME \<Rightarrow>
          if list_ex (\<lambda>n. node_state n \<noteq> NS_COMPLETE) ns then run_ret (False, ns)
          else std_sort sorter (\<lambda>a b. nd_sc_rt (ndata a) > nd_sc_rt (ndata b)) (if aliases then ns else map (\<lambda>n. snd (sum_runtime n)) ns))"

fun set_kids :: "node list \<Rightarrow> node list \<Rightarrow> addr \<Rightarrow> node list" where
  "set_kids ks ns [] = ks"
| "set_kids ks ns (i # p) = (if i < length ns then ns[i := Node (ndata (ns ! i)) (set_kids ks (kids (ns ! i)) p)] else ns)"

text \<open>\<open>NodeContainer::order\<close> sets the runtime of the container as well.\<close>

definition order_in :: "sorter \<Rightarrow> NOrder \<Rightarrow> addr \<Rightarrow> base_server \<Rightarrow> (path_result \<times> base_server) run" where
  "order_in sorter ord p b =
     (let s = bs_server b; parent = butlast p; i = p ! (length p - 1);
          ns = (if parent = [] then sv_suites s else case node_at (sv_suites s) parent of None \<Rightarrow> [] | Some n \<Rightarrow> kids n);
          aliases = (case node_at (sv_suites s) parent of None \<Rightarrow> False | Some n \<Rightarrow> nd_kind (ndata n) = K_Task)
      in if \<not> i < length ns then Some (Inl (Undefined_behaviour ''Node*''))
         else if ord = ORD_RUNTIME \<and> list_ex (\<lambda>n. node_state n \<noteq> NS_COMPLETE) ns
         then run_ret (Path_end (Thrown ''order: To order by RUNTIME all nodes must be complete''), b)
         else run_bind (order_nodes sorter aliases ord i ns) (\<lambda>(changed, ns1).
              let g = (if changed then snd (incr_state_change_no (ls_ecf (sv_sys s))) else ls_ecf (sv_sys s));
                  suites = set_kids ns1 (sv_suites s) parent;
                  rt = sum_list (map (\<lambda>n. fst (sum_runtime n)) ns);
                  suites1 = (if ord = ORD_RUNTIME \<and> \<not> aliases
                             then (case node_at suites parent of None \<Rightarrow> suites | Some n \<Rightarrow> put_data ((ndata n)\<lparr>nd_sc_rt := rt\<rparr>) suites parent)
                             else suites)
              in run_ret (Path_done, b\<lparr>bs_server := sv_put suites1 g s\<rparr>)))"

section \<open>The commands\<close>

datatype user_cmd =
    ForceCmd force_cmd "string list"
  | RequeueNodeCmd requeue_option "string list"
  | RunNodeCmd bool "string list"
  | DeleteCmd bool "string list"
  | SuspendCmd "string list"
  | ResumeCmd "string list"
  | KillCmd "string list"
  | ArchiveCmd bool "string list"
  | FreeDepCmd free_dep_cmd "string list"
  | OrderNodeCmd string NOrder

definition user_paths ::
    "server_world \<Rightarrow> sorter \<Rightarrow> env \<Rightarrow> abstract_server \<Rightarrow> user_cmd \<Rightarrow> base_server \<Rightarrow> (path_result \<times> base_server) run" where
  "user_paths w sorter e a c b =
     (let zw = zombies_world w a; jw = jobs_world w a
      in case c of
        ForceCmd f paths \<Rightarrow>
          if \<not> NState_isValid (fc_arg f) \<and> \<not> Event_isValidState (fc_arg f)
          then run_ret (Path_end (Thrown (''ForceCmd: failed. Invalid node state or event '' @ fc_arg f)), b)
          else for_paths (force_path zw e f) paths [] b
      | RequeueNodeCmd opt paths \<Rightarrow>
          run_bind (for_paths (requeue_at_path zw e opt) paths [] (user_requeue_args, b)) (\<lambda>(r, _, b1). run_ret (r, b1))
      | RunNodeCmd force paths \<Rightarrow>
          for_paths (\<lambda>path. at_path ''RunNodeCmd: Could not find node at path '' (run_command zw jw e (as_submitJobsInterval a) force path) path) paths [] b
      | DeleteCmd force paths \<Rightarrow>
          if paths = [] then delete_all zw force b
          else for_paths (at_path ''DeleteCmd:Delete: Could not find node at path '' (delete_node zw force)) paths [] b
      | SuspendCmd paths \<Rightarrow> for_paths (at_path ''PathsCmd:Suspend: Could not find node at path '' suspend_node) paths [] b
      | ResumeCmd paths \<Rightarrow> for_paths (at_path ''PathsCmd:Resume: Could not find node at path '' resume_node) paths [] b
      | KillCmd paths \<Rightarrow> for_paths (at_path ''PathsCmd:Kill: Could not find node at path '' (kill_command zw)) paths [] b
      | ArchiveCmd force paths \<Rightarrow> archive_command zw (sw_archive w) (as_sst a) force paths b
      | FreeDepCmd f paths \<Rightarrow> for_paths (at_path ''FreeDepCmd: Could not find node at path '' (free_dep_node e f)) paths [] b
      | OrderNodeCmd path ord \<Rightarrow>
          (case findAbsNode (sv_defs (bs_server b)) path of
             None \<Rightarrow> run_ret (Path_end (Thrown (''Cannot find node at path '' @ path)), b)
           | Some p \<Rightarrow> order_in sorter ord p b))"

text \<open>The commands after which jobs are submitted.\<close>

fun submits_jobs :: "user_cmd \<Rightarrow> bool" where
  "submits_jobs (ForceCmd _ _) = True"
| "submits_jobs (RequeueNodeCmd _ _) = True"
| "submits_jobs (ResumeCmd _) = True"
| "submits_jobs (FreeDepCmd _ _) = True"
| "submits_jobs (OrderNodeCmd _ _) = True"
| "submits_jobs _ = False"

definition UserCmd_doHandleRequest ::
    "server_world \<Rightarrow> sorter \<Rightarrow> env \<Rightarrow> user_cmd \<Rightarrow> abstract_server \<Rightarrow> (outcome \<times> abstract_server) run" where
  "UserCmd_doHandleRequest w sorter e c a =
     run_bind (user_paths w sorter e a c (as_base a)) (\<lambda>(r, b).
       let a1 = a\<lparr>as_base := b\<rparr>
       in case r of
            Path_end x \<Rightarrow> run_ret (x, a1)
          | Path_error msg \<Rightarrow> run_ret (Thrown msg, a1)
          | Path_done \<Rightarrow> if submits_jobs c then doJobSubmission w e a1 else run_ret (Replied Reply_ok, a1))"

text \<open>\<open>ClientToServerCmd::handleRequest\<close> of a command that may write: a check point may follow when it has replied without error.\<close>

definition UserCmd_handleRequest ::
    "server_world \<Rightarrow> sorter \<Rightarrow> disk \<Rightarrow> env \<Rightarrow> user_cmd \<Rightarrow> abstract_server \<Rightarrow> (outcome \<times> abstract_server) run" where
  "UserCmd_handleRequest w sorter dk e c a =
     run_bind (UserCmd_doHandleRequest w sorter e c a) (\<lambda>(x, a1).
       run_ret (x, case x of Replied _ \<Rightarrow> nodeTreeStateChanged dk a1 | Thrown _ \<Rightarrow> a1))"

end
