(* ===== verification/Commands_Ok.thy ===== *)
theory Commands_Ok
  imports User_Cmds "HOL-Library.Multiset"
begin

text \<open>
  What the user commands of \<open>User_Cmds\<close> keep: each of them returns and leaves a server in good order. The lemmas follow the commands;
  \<open>safe_run\<close> of theory \<open>Resolve\<close> says that a step on one node returns, leaves the tree as it is but for states and data, and every
  node in the most significant state of its children.
\<close>

section \<open>Steps on one node\<close>

lemma in_order_ready: "in_order s \<Longrightarrow> node_at (sv_suites s) p = Some n \<Longrightarrow> ready_at s p"
  using in_order_node(1) [of s p n] in_orderD [of s] by (auto simp: ready_at_def kind_at_def)

lemma safe_run_in_order: "in_order s \<Longrightarrow> safe_run sv s m \<Longrightarrow> \<exists>y. m = run_ret y \<and> in_order (sv y)"
  using in_order_keeps [of s] by (auto simp: safe_run_def)

lemma safe_run_still: "ready_at s p \<Longrightarrow> m = run_ret y \<Longrightarrow> still s (sv y) \<Longrightarrow> safe_run sv s m"
  using still_keeps [of s "sv y"] by (auto simp: safe_run_def ready_at_def)

lemma safe_on_data:
  assumes r: "ready_at s p"
    and f: "\<And>nd g. data_ok nd \<Longrightarrow> \<exists>nd' g'. f nd g = run_ret (nd', g') \<and> same_core nd nd' \<and> data_ok nd'"
  shows "safe_run (\<lambda>s. s) s (on_data p f s)"
proof (rule ready_atE [OF r])
  fix n assume n: "node_at (sv_suites s) p = Some n" "server_ok s" "data_ok (ndata n)"
  from f [OF n(3), of "ls_ecf (sv_sys s)"] obtain nd g where
    nd: "f (ndata n) (ls_ecf (sv_sys s)) = run_ret (nd, g)" "same_core (ndata n) nd" "data_ok nd" by blast
  show ?thesis
    by (rule safe_run_still [where sv = "\<lambda>s. s", OF r _ put_still [OF n(1,2) nd(2,3), of g]]) (simp add: on_data_def n(1) nd(1))
qed

lemma safe_ask_data:
  assumes r: "ready_at s p" and f: "\<And>nd g. data_ok nd \<Longrightarrow> same_core nd (fst (snd (f nd g))) \<and> data_ok (fst (snd (f nd g)))"
  shows "safe_run snd s (ask_data p (\<lambda>nd g. run_ret (f nd g)) s)"
proof (rule ready_atE [OF r])
  fix n assume n: "node_at (sv_suites s) p = Some n" "server_ok s"
  have "\<exists>b s'. ask_data p (\<lambda>nd g. run_ret (f nd g)) s = run_ret (b, s') \<and> still s s'" by (rule ask_still [OF n f])
  then obtain b s' where "ask_data p (\<lambda>nd g. run_ret (f nd g)) s = run_ret (b, s')" "still s s'" by blast
  with still_keeps [of s s'] r show ?thesis by (simp add: safe_run_def ready_at_def)
qed

lemma safe_with_server: "safe_run (\<lambda>s. s) (bs_server b) (f (bs_server b)) \<Longrightarrow> safe_run bs_server (bs_server b) (with_server f b)"
  by (auto simp: safe_run_def with_server_def)

lemma safe_path_done: "safe_run bs_server s m \<Longrightarrow> safe_run (\<lambda>y. bs_server (snd y)) s (path_done m)"
  by (auto simp: safe_run_def path_done_def)

lemma safe_zombies:
  assumes "ready_at (bs_server b) p"
  shows "safe_run bs_server (bs_server b) (with_zombie_list (add_user_zombies_node w cmd (Some p)) b)"
proof (rule ready_atE [OF assms])
  let ?s = "bs_server b"
  fix n assume n: "node_at (sv_suites ?s) p = Some n" "server_ok ?s"
  have "\<exists>m. node_at (sv_suites ?s) q = Some m \<and> node_state m \<in> {NS_ACTIVE, NS_SUBMITTED}" if "q \<in> set (get_all_active_submittables n p)" for q
    using active_submittables_found(1) [OF that] node_at_below [OF n(1)] by auto
  from add_user_zombies_ok [of ?s "get_all_active_submittables n p" w cmd "bs_zombies b", OF n(2) this] obtain zs s where
    "add_user_zombies w cmd (get_all_active_submittables n p) (bs_zombies b, ?s) = run_ret (zs, s)" "still ?s s"
    by (auto simp: with_zombies_def)
  with still_keeps [of ?s s] assms show ?thesis
    by (simp add: safe_run_def ready_at_def with_zombie_list_def add_user_zombies_node_def n(1))
qed

section \<open>Walks below a node\<close>

lemma down_children_eq: "down_children f ks g = each (down_containers f) ks g"
  by (induction ks arbitrary: g) (simp_all add: case_prod_beta')

lemma skel_same_core: "same_core nd nd' \<Longrightarrow> map skel ks' = map skel ks \<Longrightarrow> skel (Node nd' ks') = skel (Node nd ks)"
  by (simp add: same_core_def)

lemma down_containers_ok:
  assumes f: "\<And>nd g. data_ok nd \<Longrightarrow> \<exists>nd' g'. f nd g = run_ret (nd', g') \<and> same_core nd nd' \<and> data_ok nd'"
  shows "all_data data_ok n \<Longrightarrow> \<exists>n' g'. down_containers f n g = run_ret (n', g') \<and> skel n' = skel n \<and> all_data data_ok n'"
    "list_all (all_data data_ok) ks \<Longrightarrow>
       \<exists>ks' g'. down_children f ks g = run_ret (ks', g') \<and> map skel ks' = map skel ks \<and> list_all (all_data data_ok) ks'"
  using f
proof (induction f n g and f ks g rule: down_containers_down_children.induct)
  case (1 f nd ks g)
  have d: "data_ok nd" "list_all (all_data data_ok) ks" using "1.prems"(1) by simp_all
  from "1.prems"(2) [OF d(1), of g] obtain nd' g1 where nd: "f nd g = run_ret (nd', g1)" "same_core nd nd'" "data_ok nd'" by blast
  show ?case
  proof (cases "nd_kind nd \<in> {K_Suite, K_Family}")
    case True
    from "1.IH" [OF True d(2) "1.prems"(2)] nd(1) obtain ks' g' where
      "down_children f ks g1 = run_ret (ks', g')" "map skel ks' = map skel ks" "list_all (all_data data_ok) ks'" by blast
    with True nd skel_same_core [OF nd(2)] show ?thesis by simp
  next
    case False
    with nd d skel_same_core [OF nd(2) refl] show ?thesis by simp
  qed
next
  case (3 f k ks g)
  have d: "all_data data_ok k" "list_all (all_data data_ok) ks" using "3.prems"(1) by simp_all
  from "3.IH"(1) [OF d(1) "3.prems"(2)] obtain k' g1 where
    k: "down_containers f k g = run_ret (k', g1)" "skel k' = skel k" "all_data data_ok k'" by blast
  from "3.IH"(2) [OF d(2) "3.prems"(2)] k obtain ks' g' where
    "down_children f ks g1 = run_ret (ks', g')" "map skel ks' = map skel ks" "list_all (all_data data_ok) ks'" by blast
  with k show ?case by simp
qed simp

lemma safe_down:
  assumes r: "ready_at s p"
    and f: "\<And>nd g. data_ok nd \<Longrightarrow> \<exists>nd' g'. f nd g = run_ret (nd', g') \<and> same_core nd nd' \<and> data_ok nd'"
  shows "safe_run (\<lambda>s. s) s (down_at f p s)"
proof (rule ready_atE [OF r])
  fix n assume n: "node_at (sv_suites s) p = Some n" "server_ok s" "settled s"
  have "all_data data_ok n" using all_data_node_at [OF _ n(1), of data_ok] n(2) by (simp add: server_ok_def)
  from down_containers_ok(1) [where f = f, OF f this] obtain n' g where
    d: "down_containers f n (ls_ecf (sv_sys s)) = run_ret (n', g)" "skel n' = skel n" "all_data data_ok n'" by blast
  let ?s = "sv_put (put_node n' (sv_suites s) p) g s"
  have "skels ?s = upd_at (\<lambda>_. skel n) (skels s) p" using skel_put_node [OF n(1), of n'] d(2) by (simp add: sv_put_def)
  also have "\<dots> = skels s" by (rule upd_at_id) (use n(1) in \<open>simp add: st_at_skel\<close>)
  finally have sk: "skels ?s = skels s" .
  have "tree_ok ?s" using all_data_put_node [of data_ok "sv_suites s" n' p] d(3) n(2) by (simp add: server_ok_def sv_put_def)
  with sk n(2) have "still s ?s" by (simp add: still_def server_ok_def sv_put_def)
  with still_keeps [of s ?s] n(3) show ?thesis by (simp add: safe_run_def down_at_def n(1) d(1))
qed

lemma safe_down_on:
  assumes "ready_at (bs_server b) p"
    and "\<And>nd g. data_ok nd \<Longrightarrow> \<exists>nd' g'. f nd g = run_ret (nd', g') \<and> same_core nd nd' \<and> data_ok nd'"
  shows "safe_run bs_server (bs_server b) (with_server (down_at f p) b)"
  by (rule safe_with_server) (rule safe_down [OF assms(1)], rule assms(2))

section \<open>Changes of attributes\<close>

lemma core_updates [simp]:
  "same_core nd (nd\<lparr>nd_time := t\<rparr>)" "same_core nd (nd\<lparr>nd_flag := fl\<rparr>)" "same_core nd (nd\<lparr>nd_flag := fl, nd_time := t\<rparr>)"
  "same_core nd (nd\<lparr>nd_trigger := x\<rparr>)" "same_core nd (nd\<lparr>nd_repeat := r\<rparr>)" "same_core nd (nd\<lparr>nd_events := es\<rparr>)"
  "same_core nd (nd\<lparr>nd_suspended := b, nd_suspended_change_no := c\<rparr>)" "same_core nd (nd\<lparr>nd_late := l\<rparr>)"
  "same_core nd (nd\<lparr>nd_meters := ms, nd_events := es\<rparr>)" "same_core nd (nd\<lparr>nd_late := l, nd_meters := ms, nd_events := es\<rparr>)"
  by (simp_all add: same_core_def)

lemma data_ok_updates [simp]:
  "data_ok (nd\<lparr>nd_flag := fl\<rparr>) = data_ok nd" "data_ok (nd\<lparr>nd_repeat := r\<rparr>) = data_ok nd" "data_ok (nd\<lparr>nd_events := es\<rparr>) = data_ok nd"
  "data_ok (nd\<lparr>nd_suspended := b, nd_suspended_change_no := c\<rparr>) = data_ok nd" "data_ok (nd\<lparr>nd_late := l\<rparr>) = data_ok nd"
  by (simp_all add: data_ok_def)

lemma data_ok_time: "data_ok nd \<Longrightarrow> times_inv t \<Longrightarrow> data_ok (nd\<lparr>nd_time := t\<rparr>) \<and> data_ok (nd\<lparr>nd_flag := fl, nd_time := t\<rparr>)"
  by (simp add: data_ok_def)

lemma change_first_inv: "list_all I xs \<Longrightarrow> (\<And>x g. I x \<Longrightarrow> I (fst (f x g))) \<Longrightarrow> list_all I (fst (change_first P f xs g))"
  by (induction xs arbitrary: g) (auto simp: case_prod_beta' Let_def)

lemma miss_invs:
  "ta_inv a \<Longrightarrow> ta_inv (fst (TimeAttr_miss_next_time_slot a g))" "cr_inv c \<Longrightarrow> cr_inv (fst (CronAttr_miss_next_time_slot c g))"
  "ta_inv a \<Longrightarrow> ta_inv (fst (TimeAttr_setFree a g))" "cr_inv c \<Longrightarrow> cr_inv (fst (CronAttr_setFree c g))"
  by (simp_all add: ta_inv_def cr_inv_def TimeAttr_miss_next_time_slot_def CronAttr_miss_next_time_slot_def TimeAttr_setFree_def
      CronAttr_setFree_def ts_miss_next_time_slot_inv Let_def case_prod_beta')

lemma miss_keeps:
  "same_core nd (fst (miss_next_time_slot nd g))" "data_ok nd \<Longrightarrow> data_ok (fst (miss_next_time_slot nd g))"
proof -
  show "same_core nd (fst (miss_next_time_slot nd g))" by (simp add: miss_next_time_slot_def Let_def case_prod_beta')
  assume d: "data_ok nd"
  then have "times_inv (nd_time nd)" by (simp add: data_ok_def)
  then have "times_inv ((nd_time nd)\<lparr>nt_times := fst (change_first P1 TimeAttr_miss_next_time_slot (nt_times (nd_time nd)) g1),
      nt_todays := fst (change_first P2 TimeAttr_miss_next_time_slot (nt_todays (nd_time nd)) g2),
      nt_crons := fst (change_first P3 CronAttr_miss_next_time_slot (nt_crons (nd_time nd)) g3)\<rparr>)" for P1 P2 P3 g1 g2 g3
    by (simp add: times_inv_def change_first_inv miss_invs)
  with d data_ok_time show "data_ok (fst (miss_next_time_slot nd g))"
    by (simp add: miss_next_time_slot_def Let_def case_prod_beta')
qed

lemma free_first_inv:
  assumes "list_all I xs" "\<And>x. I x \<Longrightarrow> \<exists>b. isFree x = Some b" "\<And>x g. I x \<Longrightarrow> I (fst (f x g))"
  shows "\<exists>ys g'. free_first isFree f xs g = run_ret (ys, g') \<and> list_all I ys"
  using assms(1)
proof (induction xs)
  case (Cons x xs)
  then obtain b where b: "isFree x = Some b" using assms(2) by auto
  from Cons obtain ys g' where "free_first isFree f xs g = run_ret (ys, g')" "list_all I ys" by auto
  with b Cons.prems assms(3) [of x g] show ?case by (auto simp: run_option_def case_prod_beta' Let_def)
qed simp

lemma free_times_returns:
  assumes "times_inv nt"
  shows "\<exists>nt' g'. freeHoldingTimeDependencies greg c nt g = run_ret (nt', g') \<and> times_inv nt'"
proof -
  let ?fm = "\<lambda>a g. TimeAttr_miss_next_time_slot (fst (TimeAttr_setFree a g)) (snd (TimeAttr_setFree a g))"
  let ?fc = "\<lambda>a g. CronAttr_miss_next_time_slot (fst (CronAttr_setFree a g)) (snd (CronAttr_setFree a g))"
  obtain ts g1 where 1: "free_first (TimeAttr_isFree c) ?fm (nt_times nt) g = run_ret (ts, g1)" "list_all ta_inv ts"
    using free_first_inv [of ta_inv "nt_times nt" "TimeAttr_isFree c" ?fm g] assms TimeAttr_isFree_returns miss_invs by (auto simp: times_inv_def)
  obtain ys g2 where 2: "free_first (TodayAttr_isFree c) ?fm (nt_todays nt) g1 = run_ret (ys, g2)" "list_all ta_inv ys"
    using free_first_inv [of ta_inv "nt_todays nt" "TodayAttr_isFree c" ?fm g1] assms TodayAttr_isFree_returns miss_invs by (auto simp: times_inv_def)
  obtain ws g3 where 3: "change_first (\<lambda>a. \<not> DayAttr_isFree c a) DayAttr_setFree (nt_days nt) g2 = (ws, g3)" by fastforce
  obtain cs g4 where 4: "free_first (CronAttr_isFree greg c) ?fc (nt_crons nt) g3 = run_ret (cs, g4)" "list_all cr_inv cs"
    using free_first_inv [of cr_inv "nt_crons nt" "CronAttr_isFree greg c" ?fc g3] assms CronAttr_isFree_returns miss_invs by (auto simp: times_inv_def)
  from 1 2 3 4 show ?thesis by (simp add: freeHoldingTimeDependencies_def Let_def case_prod_beta' times_inv_def)
qed

lemma free_keeps:
  "same_core nd (fst (free_dates c nd g))" "data_ok nd \<Longrightarrow> data_ok (fst (free_dates c nd g))"
  "same_core nd (fst (suspend nd g))" "data_ok (fst (suspend nd g)) = data_ok nd"
  "same_core nd (fst (resume nd g))" "data_ok (fst (resume nd g)) = data_ok nd"
  "same_core nd (fst (Node_setRepeatToLastValue nd g))" "data_ok (fst (Node_setRepeatToLastValue nd g)) = data_ok nd"
  "same_core nd (fst (snd (Node_set_event v x nd g)))" "data_ok (fst (snd (Node_set_event v x nd g))) = data_ok nd"
  by (simp_all add: free_dates_def freeHoldingDateDependencies_def suspend_def resume_def Node_setRepeatToLastValue_def
      Node_set_event_def Let_def case_prod_beta' data_ok_def times_inv_def split: option.splits)

lemma free_trigger_keeps: "same_core nd (fst (freeTrigger nd g))" "data_ok (fst (freeTrigger nd g)) = data_ok nd"
proof -
  have x: "expr_ok (Some (fst (Expression_setFree x g))) = expr_ok (Some x)" for x
    by (simp add: expr_ok_def Expression_setFree_def Let_def case_prod_beta')
  show "same_core nd (fst (freeTrigger nd g))" by (simp add: freeTrigger_def case_prod_beta' Let_def split: option.split)
  show "data_ok (fst (freeTrigger nd g)) = data_ok nd"
  proof (cases "nd_trigger nd")
    case (Some y)
    then have "data_ok (nd\<lparr>nd_trigger := Some (fst (Expression_setFree y g))\<rparr>) = data_ok nd" unfolding data_ok_def using x [of y] by simp
    with Some show ?thesis by (simp add: freeTrigger_def case_prod_beta' Let_def)
  qed (simp add: freeTrigger_def)
qed

lemma late_event_meters_keep:
  assumes "data_ok nd"
  shows "\<exists>nd' g'. Node_reset_late_event_meters nd g = run_ret (nd', g') \<and> same_core nd nd' \<and> data_ok nd'"
proof -
  obtain nd1 g1 where l: "reset_late nd g = (nd1, g1)" by fastforce
  then have nd1: "same_core nd nd1" "data_ok nd1" using assms by (auto simp: reset_late_def Let_def case_prod_beta' split: option.splits)
  have "\<exists>ms g'. each (\<lambda>m g. Some (Meter_reset m g)) (nd_meters nd1) g1 = run_ret (ms, g') \<and> list_all (\<lambda>m. me_min m \<le> me_max m) ms"
  proof (rule each_inv)
    fix m g assume "m \<in> set (nd_meters nd1)"
    then have "me_min m \<le> me_max m" using nd1(2) by (auto simp: data_ok_def list_all_iff)
    then show "\<exists>y g'. Some (Meter_reset m g) = run_ret (y, g') \<and> me_min y \<le> me_max y"
      by (simp add: Meter_reset_def Meter_set_value_def Meter_isValidValue_def Let_def case_prod_beta')
  qed
  then obtain ms g2 where m: "each (\<lambda>m g. Some (Meter_reset m g)) (nd_meters nd1) g1 = run_ret (ms, g2)"
    "list_all (\<lambda>m. me_min m \<le> me_max m) ms" by blast
  have "\<exists>es g'. each (\<lambda>x g. run_ret (Event_reset x g)) (nd_events nd1) g2 = run_ret (es, g') \<and> list_all (\<lambda>_. True) es"
    by (rule each_inv) auto
  with l m nd1 show ?thesis
    by (auto simp: Node_reset_late_event_meters_def data_ok_def same_core_def)
qed

section \<open>Each command on one node\<close>

abbreviation path_server :: "path_result \<times> base_server \<Rightarrow> server" where "path_server y \<equiv> bs_server (snd y)"

lemma safe_here: "ready_at (bs_server b) p \<Longrightarrow> safe_run bs_server (bs_server b) (run_ret b)"
  by (rule safe_ret) simp_all

lemma safe_done: "ready_at (bs_server b) p \<Longrightarrow> safe_run path_server (bs_server b) (run_ret (r, b))"
  by (rule safe_ret) simp_all

lemma safe_change_on: "ready_at (bs_server b) p \<Longrightarrow> (\<And>nd g. same_core nd (fst (f nd g))) \<Longrightarrow> (\<And>nd g. data_ok nd \<Longrightarrow> data_ok (fst (f nd g))) \<Longrightarrow>
    safe_run bs_server (bs_server b) (with_server (change p f) b)"
  by (rule safe_with_server) (rule safe_change)

text \<open>A choice between a step and nothing.\<close>

lemma safe_if: "safe_run sv s m \<Longrightarrow> safe_run sv s m' \<Longrightarrow> safe_run sv s (if c then m else m')"
  by simp

lemma safe_force_state:
  assumes r: "ready_at (bs_server b) p" and e: "greg_weekly (en_greg e)"
  shows "safe_run bs_server (bs_server b) (force_state w e c st p b)"
proof -
  have 4: "safe_run bs_server (bs_server b3) (if st = NS_QUEUED then with_server (reset_late_event_meters p) b3 else run_ret b3)"
    if "ready_at (bs_server b3) p" for b3
    unfolding reset_late_event_meters_def
    by (rule safe_if [OF _ safe_here [OF that]], rule safe_down_on [OF that]) (rule late_event_meters_keep)
  have 3: "safe_run bs_server (bs_server b2) (run_bind (with_server (if fc_recursive c then set_state_hierarchically e p st True else set_state e p st) b2)
      (\<lambda>b3. if st = NS_QUEUED then with_server (reset_late_event_meters p) b3 else run_ret b3))" if r2: "ready_at (bs_server b2) p" for b2
  proof (rule safe_step [OF r2 _ 4])
    show "safe_run bs_server (bs_server b2) (with_server (if fc_recursive c then set_state_hierarchically e p st True else set_state e p st) b2)"
      using safe_set_state [OF r2 e] by (intro safe_with_server) simp
  qed
  have 2: "safe_run bs_server (bs_server b1) (if st \<noteq> NS_ACTIVE \<and> st \<noteq> NS_SUBMITTED then with_zombie_list (add_user_zombies_node w ''force'' (Some p)) b1
      else run_ret b1)" if "ready_at (bs_server b1) p" for b1
    by (rule safe_if [OF safe_zombies [OF that] safe_here [OF that]])
  have 1: "safe_run bs_server (bs_server b) (if st = NS_COMPLETE then with_server (change p miss_next_time_slot) b else run_ret b)"
    by (rule safe_if [OF safe_change_on [OF r miss_keeps] safe_here [OF r]])
  show ?thesis unfolding force_state_def by (rule safe_step [OF r 1], rule safe_step [OF _ 2 3])
qed

lemma pure_keeps: "P (fst x) \<Longrightarrow> Q (fst x) \<Longrightarrow> \<exists>nd' g'. run_ret x = run_ret (nd', g') \<and> P nd' \<and> Q nd'"
  by (cases x) auto

lemma safe_force_repeats: "ready_at (bs_server b) p \<Longrightarrow> safe_run bs_server (bs_server b) (force_repeats c p b)"
  unfolding force_repeats_def setRepeatToLastValueHierarchically_def
  by (rule safe_if [OF safe_down_on safe_here], assumption, rule pure_keeps) (simp_all add: free_keeps)

lemma NState_toState_ok: "NState_isValid x \<Longrightarrow> \<exists>st. NState_toState x = Inr st"
  by (auto simp: NState_isValid_iff) (metis NState_toState_toString)

lemma safe_force_node:
  assumes r: "ready_at (bs_server b) p" and e: "greg_weekly (en_greg e)"
  shows "safe_run path_server (bs_server b) (force_node w e c x p b)"
  unfolding force_node_def
proof (rule safe_step [OF r safe_change_on [OF r]])
  fix b1 :: base_server assume r1: "ready_at (bs_server b1) p"
  show "safe_run path_server (bs_server b1) (if NState_isValid (fc_arg c)
      then run_bind (Some (NState_toState (fc_arg c))) (\<lambda>st. path_done (run_bind (force_state w e c st p b1) (force_repeats c p)))
      else run_bind (force_event c x p b1) (\<lambda>(found, b2). if found then path_done (force_repeats c p b2)
        else run_ret (Path_error (''ForceCmd: force set: failed, cannot find event('' @ x @ '')'' @ newline), b2)))"
  proof (cases "NState_isValid (fc_arg c)")
    case True
    then obtain st where "NState_toState (fc_arg c) = Inr st" using NState_toState_ok by blast
    with True safe_path_done [OF safe_step [OF r1 safe_force_state [OF r1 e] safe_force_repeats]] show ?thesis by simp
  next
    case False
    have "safe_run (\<lambda>y. bs_server (snd y)) (bs_server b1) (force_event c x p b1)"
      using safe_ask_data [OF r1, of "Node_set_event (fc_arg c = ''set'') x"] free_keeps by (auto simp: force_event_def safe_run_def)
    then have "safe_run path_server (bs_server b1) (run_bind (force_event c x p b1) (\<lambda>y. if fst y then path_done (force_repeats c p (snd y))
        else run_ret (Path_error (''ForceCmd: force set: failed, cannot find event('' @ x @ '')'' @ newline), snd y)))"
      by (rule safe_step [OF r1]) (rule safe_if [OF safe_path_done [OF safe_force_repeats] safe_done])
    with False show ?thesis by (simp add: case_prod_beta')
  qed
qed simp_all

lemma safe_suspend: "ready_at (bs_server b) p \<Longrightarrow> safe_run path_server (bs_server b) (suspend_node p b)"
  unfolding suspend_node_def
  by (rule safe_path_done, rule safe_with_server, rule safe_step, assumption, rule safe_change, assumption)
    (simp_all add: free_keeps safe_flag)

lemma safe_resume:
  assumes "ready_at (bs_server b) p"
  shows "safe_run path_server (bs_server b) (resume_node p b)"
proof -
  have "safe_run bs_server (bs_server b) (with_server (\<lambda>s. run_bind (change p resume s) (change p (flag_set FL_MESSAGE))) b)"
    by (rule safe_with_server, rule safe_step [OF assms safe_change [OF assms]]) (simp_all add: free_keeps safe_flag)
  then show ?thesis by (auto simp: resume_node_def path_done_def safe_run_def increment_job_generation_count_def)
qed

lemma safe_free_dep:
  assumes r: "ready_at (bs_server b) p"
  shows "safe_run path_server (bs_server b) (free_dep_node e c p b)"
proof -
  let ?cal = "suite_cal (sv_defs (bs_server b)) p"
  have keep: "\<exists>nd' g'. free_times e ?cal nd g = run_ret (nd', g') \<and> same_core nd nd' \<and> data_ok nd'" if d: "data_ok nd" for nd g
  proof -
    have "times_inv (nd_time nd)" using d by (simp add: data_ok_def)
    from free_times_returns [OF this, of "en_greg e" ?cal g] data_ok_time [OF d] show ?thesis by (auto simp: free_times_def)
  qed
  have 3: "safe_run (\<lambda>s. s) s (if c3 then on_data p (free_times e ?cal) s else run_ret s)" if "ready_at s p" for s c3
    by (rule safe_if [OF safe_on_data [OF that keep] safe_ret [OF that]]) simp_all
  have 2: "safe_run (\<lambda>s. s) s (if c2 then change p (free_dates ?cal) s else run_ret s)" if "ready_at s p" for s c2
    by (rule safe_if [OF safe_change [OF that] safe_ret [OF that]]) (simp_all add: free_keeps)
  have 1: "safe_run (\<lambda>s. s) s (if c1 then change p freeTrigger s else run_ret s)" if "ready_at s p" for s c1
    by (rule safe_if [OF safe_change [OF that] safe_ret [OF that]]) (simp_all add: free_trigger_keeps)
  show ?thesis unfolding free_dep_node_def Let_def
    by (rule safe_path_done, rule safe_with_server, rule safe_step [OF r 1 [OF r]], rule safe_step [OF _ 2 3])
qed

section \<open>Requeue\<close>

lemma kind_ready: "in_order s \<Longrightarrow> kind_at s p = Some k \<Longrightarrow> ready_at s p"
  using in_order_ready by (auto simp: kind_at_def)

lemma safe_parent:
  assumes o: "in_order s" and k: "kind_at s p = Some k" and e: "greg_weekly (en_greg e)"
  shows "safe_run (\<lambda>s. s) s (parent_state_change e p s)"
proof (cases "butlast p = []")
  case True
  with in_orderD [OF o] show ?thesis by (simp add: parent_state_change_def safe_run_def keeps_refl)
next
  case False
  obtain n where "node_at (sv_suites s) p = Some n" using k by (auto simp: kind_at_def)
  then have "below_containers (skels s) p" by (rule in_order_node(2) [OF o])
  then obtain u where u: "st_at (skels s) (butlast p) = Some u" "sk u \<in> {K_Suite, K_Family}"
    using below_containers_parent [OF _ False] by blast
  have "ok_except (butlast p) (skels s)" using in_orderD(2) [OF o] by (simp add: settled_def ok_except_all)
  from handleStateChange_ok [OF this u(1) _ in_orderD(1) [OF o] e] u(2) False show ?thesis by (auto simp: parent_state_change_def safe_run_def)
qed

lemma run_bind_again: "run_bind (run_bind m f) h = run_bind m (\<lambda>x. run_bind (f x) h)" "run_bind m run_ret = m"
  by (cases m; simp add: run_bind_def split: sum.split)+

lemma requeue_whole_eq: "run_bind (requeue_whole e p (args, s)) (\<lambda>y. run_ret (snd y)) = requeue_node e args p s"
  by (simp add: requeue_whole_def requeue_node_def requeue_at_def requeue_ref_def parent_state_change_def case_prod_beta' Let_def
      run_bind_again split: option.split)

lemma safe_requeue_whole:
  assumes o: "in_order s" and k: "kind_at s p = Some k" and e: "greg_weekly (en_greg e)"
  shows "safe_run snd s (requeue_whole e p (args, s))"
proof -
  obtain n where n: "node_at (sv_suites s) p = Some n" using k by (auto simp: kind_at_def)
  obtain s' where s': "requeue_node e args p s = run_ret s'" "keeps s s'" "settled s'"
    using requeue_node_ok [OF n in_orderD [OF o] e in_order_node(2) [OF o n], of args] by blast
  then have "run_bind (requeue_whole e p (args, s)) (\<lambda>y. run_ret (snd y)) = run_ret s'" by (simp add: requeue_whole_eq)
  then obtain args' where "requeue_whole e p (args, s) = run_ret (args', s')" by (auto simp: run_bind_eq_ret)
  with s' show ?thesis by (simp add: safe_run_def)
qed

lemma placed_tasks:
  "placed s n p \<Longrightarrow> q \<in> set (getAllTasks n p) \<Longrightarrow> kind_at s q = Some K_Task"
  "placed_children s ks i p \<Longrightarrow> q \<in> set (tasks_below ks i p) \<Longrightarrow> kind_at s q = Some K_Task"
  by (induction s n p and s ks i p rule: placed_placed_children.induct) (auto split: node_kind.splits)

lemma safe_requeue_aborted:
  assumes "in_order s" "\<And>q. q \<in> set qs \<Longrightarrow> kind_at s q = Some K_Task" "greg_weekly (en_greg e)"
  shows "safe_run snd s (requeue_aborted e qs (args, s))"
  using assms(1,2)
proof (induction qs arbitrary: args s)
  case Nil
  with in_orderD [OF Nil(1)] show ?case by (simp add: safe_run_def keeps_refl)
next
  case (Cons q qs)
  have k: "kind_at s q = Some K_Task" using Cons.prems(2) by simp
  then obtain n where n: "node_at (sv_suites s) q = Some n" by (auto simp: kind_at_def)
  then have at: "st_at (skels s) q = Some (skel n)" by (simp add: st_at_skel)
  have "ok_except q (skels s)" using in_orderD(2) [OF Cons.prems(1)] by (simp add: settled_def ok_except_all)
  from requeue_then_up_ok [OF at in_orderD(1) [OF Cons.prems(1)] assms(3) this, of args] obtain s1 where
    1: "requeue_at e args q s = run_ret s1" "keeps s (up_node_tree_at q s1)" "settled (up_node_tree_at q s1)"
    by (auto simp: run_bind_eq_ret)
  have head: "safe_run snd s (if state_at s q = Some NS_ABORTED
      then run_bind (requeue_ref e q (args, s)) (\<lambda>(args, s1). run_ret (args, up_node_tree_at q s1)) else run_ret (args, s))"
  proof (rule safe_if)
    show "safe_run snd s (run_ret (args, s))" using in_orderD [OF Cons.prems(1)] by (simp add: safe_run_def keeps_refl)
    from 1(1) n obtain args' where "requeue_ref e q (args, s) = run_ret (args', s1)" by (auto simp: requeue_at_def requeue_ref_def run_bind_eq_ret)
    with 1 show "safe_run snd s (run_bind (requeue_ref e q (args, s)) (\<lambda>(args, s1). run_ret (args, up_node_tree_at q s1)))"
      by (simp add: safe_run_def)
  qed
  show ?case unfolding requeue_aborted.simps snd_conv
  proof (rule safe_bind [OF head])
    fix y :: "Requeue_args \<times> server" assume y: "keeps s (snd y)" "settled (snd y)"
    have "kind_at (snd y) r = Some K_Task" if "r \<in> set qs" for r using Cons.prems(2) [of r] that kind_at_keeps [OF y(1)] by simp
    from Cons.IH [OF in_order_keeps [OF Cons.prems(1) y] this, of "fst y"] show "safe_run snd (snd y) (requeue_aborted e qs y)" by simp
  qed
qed

lemma safe_requeue_aborted_tasks:
  assumes o: "in_order s" and k: "kind_at s p = Some k" and e: "greg_weekly (en_greg e)"
  shows "safe_run snd s (requeue_aborted_tasks e p (args, s))"
proof -
  obtain n where n: "node_at (sv_suites s) p = Some n" using k by (auto simp: kind_at_def)
  have "placed s n p" by (rule placed_nodes(1) [OF n]) (use n in auto)
  then have "kind_at s q = Some K_Task" if "q \<in> set (getAllTasks n p)" for q using placed_tasks(1) that by blast
  from safe_requeue_aborted [OF o this e, of "getAllTasks n p" args]
  have a: "safe_run snd s (requeue_aborted e (getAllTasks n p) (args, s))" by blast
  have "safe_run snd s (run_bind (requeue_aborted e (getAllTasks n p) (args, s))
      (\<lambda>y. run_bind (parent_state_change e p (snd y)) (\<lambda>s2. run_ret (fst y, s2))))"
  proof (rule safe_bind [OF a])
    fix y :: "Requeue_args \<times> server" assume y: "keeps s (snd y)" "settled (snd y)"
    have "kind_at (snd y) p = Some k" using kind_at_keeps [OF y(1)] k by simp
    from safe_parent [OF in_order_keeps [OF o y] this e] show
      "safe_run snd (snd y) (run_bind (parent_state_change e p (snd y)) (\<lambda>s2. run_ret (fst y, s2)))" by (auto simp: safe_run_def)
  qed
  with n show ?thesis by (simp add: requeue_aborted_tasks_def case_prod_beta')
qed

section \<open>Run and kill\<close>

lemma safe_Submittable_run:
  assumes r: "ready_at s p" and e: "greg_weekly (en_greg e)"
  shows "safe_run snd s (Submittable_run w e force p (jp, s))"
proof -
  have "safe_run sv3 s (submitJob w e p jp s)" unfolding submitJob_def
    by (rule safe_step [OF r safe_change [OF r]], simp_all only: job_data_keeps) (rule safe_submit_job_only [OF _ e])
  then have 1: "safe_run snd s (run_bind (submitJob w e p jp s) (\<lambda>(_, jp1, s1). run_ret (jp1, s1)))" by (auto simp: safe_run_def)
  have 2: "safe_run snd s (run_ret (jp1, s))" for jp1 :: jobs_param by (rule safe_ret [OF r]) simp
  show ?thesis unfolding Submittable_run_def Let_def prod.case by (intro safe_if 1 2)
qed

lemma safe_run_node:
  "placed s0 n p \<Longrightarrow> greg_weekly (en_greg e) \<Longrightarrow> keeps s0 (snd a) \<Longrightarrow> in_order (snd a) \<Longrightarrow> safe_run snd (snd a) (run_node w e force n p a)"
  "placed_children s0 ks i p \<Longrightarrow> greg_weekly (en_greg e) \<Longrightarrow> keeps s0 (snd a) \<Longrightarrow> in_order (snd a) \<Longrightarrow>
     safe_run snd (snd a) (run_children w e force ks i p a)"
proof (induction s0 n p and s0 ks i p arbitrary: a and a rule: placed_placed_children.induct)
  case (1 s0 nd ks p)
  have "kind_at (snd a) p = Some (nd_kind nd)" using "1.prems"(1) kind_at_keeps [OF "1.prems"(3)] by simp
  from safe_Submittable_run [OF kind_ready [OF "1.prems"(4) this] "1.prems"(2), of w force "fst a"] "1.IH" [of a] "1.prems"
  show ?case by simp
next
  case (2 s0 i p)
  then show ?case using in_orderD by (auto simp: safe_run_def keeps_refl)
next
  case (3 s0 k ks i p)
  have "safe_run snd (snd a) (run_node w e force k (p @ [i]) a)" using 3 by simp
  then show ?case unfolding run_children.simps
  proof (rule safe_bind)
    fix y :: "jobs_param \<times> server" assume y: "keeps (snd a) (snd y)" "settled (snd y)"
    show "safe_run snd (snd y) (run_children w e force ks (Suc i) p y)"
      by (rule "3.IH"(2)) (use y "3.prems" keeps_trans [OF _ y(1)] in_order_keeps [OF _ y] in auto)
  qed
qed

lemma safe_run_command:
  assumes r: "in_order (bs_server b)" "kind_at (bs_server b) p = Some k" and e: "greg_weekly (en_greg e)"
  shows "safe_run path_server (bs_server b) (run_command zw jw e interval force path p b)"
proof -
  note r0 = kind_ready [OF r]
  have run: "safe_run path_server (bs_server b2) (path_done (with_server (run_at jw e force jp p) b2))"
    if b2: "keeps (bs_server b) (bs_server b2)" "settled (bs_server b2)" for b2 jp
  proof (rule safe_path_done, rule safe_with_server)
    let ?s = "bs_server b2"
    have o: "in_order ?s" by (rule in_order_keeps [OF r(1) b2])
    obtain n where n: "node_at (sv_suites ?s) p = Some n" using kind_at_keeps [OF b2(1), of p] r(2) by (auto simp: kind_at_def)
    have "placed ?s n p" by (rule placed_nodes(1) [OF n]) (use n in auto)
    from safe_run_node(1) [OF this e, of "(jp, ?s)" jw force] o in_orderD [OF o] keeps_refl
    have "safe_run snd ?s (run_node jw e force n p (jp, ?s))" by simp
    then show "safe_run (\<lambda>s. s) ?s (run_at jw e force jp p ?s)" by (auto simp: run_at_def n safe_run_def)
  qed
  have 2: "safe_run path_server (bs_server b1) (run_bind (with_server (change p miss_next_time_slot) b1)
      (\<lambda>b2. path_done (with_server (run_at jw e force jp p) b2)))"
    if b1: "keeps (bs_server b) (bs_server b1)" "settled (bs_server b1)" for b1 jp
  proof (rule safe_bind [OF safe_change_on [OF ready_keeps [OF r0 b1] miss_keeps]])
    fix y :: base_server assume y: "keeps (bs_server b1) (bs_server y)" "settled (bs_server y)"
    show "safe_run path_server (bs_server y) (path_done (with_server (run_at jw e force jp p) y))"
      by (rule run [OF keeps_trans [OF b1(1) y(1)] y(2)])
  qed
  have 1: "safe_run bs_server (bs_server b) (if force then with_zombie_list (add_user_zombies_node zw ''run'' (Some p)) b else run_ret b)"
    by (rule safe_if [OF safe_zombies [OF r0] safe_here [OF r0]])
  show ?thesis unfolding run_command_def by (rule safe_if [OF safe_done [OF r0]]) (rule safe_bind [OF 1 2])
qed

lemma safe_kill_node:
  "placed s0 n p \<Longrightarrow> keeps s0 s \<Longrightarrow> in_order s \<Longrightarrow> safe_run snd s (kill_node w n p s)"
  "placed_children s0 ks i p \<Longrightarrow> keeps s0 s \<Longrightarrow> in_order s \<Longrightarrow> safe_run snd s (kill_children w ks i p s)"
proof (induction s0 n p and s0 ks i p arbitrary: s and s rule: placed_placed_children.induct)
  case (1 s0 nd ks p)
  have "kind_at s p = Some (nd_kind nd)" using "1.prems"(1) kind_at_keeps [OF "1.prems"(2)] by simp
  then obtain n where n: "node_at (sv_suites s) p = Some n" by (auto simp: kind_at_def)
  from kill_still [OF n in_orderD(1) [OF "1.prems"(3)], of w "[]"] obtain r s' where
    "Submittable_kill w [] p s = run_ret (r, s')" "still s s'" by blast
  with still_keeps [of s s'] in_orderD(2) [OF "1.prems"(3)] have "safe_run snd s (Submittable_kill w [] p s)" by (simp add: safe_run_def)
  with "1.IH" [of s] "1.prems" show ?case by simp
next
  case (2 s0 i p)
  then show ?case using in_orderD by (auto simp: safe_run_def keeps_refl)
next
  case (3 s0 k ks i p)
  have "safe_run snd s (kill_node w k (p @ [i]) s)" using 3 by simp
  then show ?case unfolding kill_children.simps
  proof (rule safe_bind)
    fix y :: "string option \<times> server" assume y: "keeps s (snd y)" "settled (snd y)"
    have o: "in_order (snd y)" by (rule in_order_keeps [OF "3.prems"(3) y])
    have "safe_run snd (snd y) (kill_children w ks (Suc i) p (snd y))"
      by (rule "3.IH"(2)) (use y o "3.prems" keeps_trans [OF _ y(1)] in auto)
    moreover have "safe_run snd (snd y) (run_ret (fst y, snd y))" using in_orderD [OF o] by (simp add: safe_run_def keeps_refl)
    ultimately show "safe_run snd (snd y) (case y of (thrown, s1) \<Rightarrow> if thrown = None then kill_children w ks (Suc i) p s1 else run_ret (thrown, s1))"
      by (simp add: case_prod_beta')
  qed
qed

lemma safe_kill_command:
  assumes o: "in_order (bs_server b)" and k: "kind_at (bs_server b) p = Some k"
  shows "safe_run path_server (bs_server b) (kill_command w p b)"
proof -
  obtain n where n: "node_at (sv_suites (bs_server b)) p = Some n" using k by (auto simp: kind_at_def)
  have "placed (bs_server b) n p" by (rule placed_nodes(1) [OF n]) (use n in auto)
  from safe_kill_node(1) [OF this keeps_refl o, of w] in_orderD [OF o] n show ?thesis by (auto simp: kill_command_def safe_run_def)
qed

section \<open>Changes of the shape of the tree\<close>

definition kinds_ok :: "server \<Rightarrow> bool" where
  "kinds_ok s \<longleftrightarrow> list_all (\<lambda>t. sk t = K_Suite \<and> well_kinded t) (skels s)"

lemma in_order_split: "in_order s \<longleftrightarrow> server_ok s \<and> settled s \<and> kinds_ok s"
  by (simp add: in_order_def kinds_ok_def)

lemma in_orderI:
  assumes "kinds_ok s" "keeps s s'" "settled s'"
  shows "in_order s'"
proof -
  have "list_all (\<lambda>t. sk t = K_Suite \<and> well_kinded t) (map erase (skels s')) = list_all (\<lambda>t. sk t = K_Suite \<and> well_kinded t) (map erase (skels s))"
    using assms(2) by (simp only: keeps_def)
  then have "kinds_ok s'" using assms(1) by (simp add: kinds_ok_def list.pred_map comp_def del: map_map)
  with assms keeps_ok [OF assms(2)] show ?thesis by (simp add: in_order_split)
qed

lemma kinds_upd_at:
  assumes "\<And>t. well_kinded t \<Longrightarrow> well_kinded (f t)" "\<And>t. sk (f t) = sk t"
  shows "list_all (\<lambda>t. Q (sk t) \<and> well_kinded t) ts \<Longrightarrow> list_all (\<lambda>t. Q (sk t) \<and> well_kinded t) (upd_at f ts p)"
proof (induction p arbitrary: ts Q)
  case (Cons i p)
  show ?case
  proof (cases "i < length ts")
    case True
    let ?u = "if p = [] then f (ts ! i) else with_kids (\<lambda>ks. upd_at f ks p) (ts ! i)"
    obtain k ds h x us where n: "ts ! i = STree k ds h x us" by (cases "ts ! i")
    have w: "Q k" "well_kinded (STree k ds h x us)" using Cons.prems True n by (auto simp: list_all_length)
    have leafs: "upd_at f [] p = []" by (cases p) simp_all
    have "well_kinded (STree k ds h x (upd_at f us p))"
      using w(2) leafs Cons.IH [of "\<lambda>k. k \<in> {K_Family, K_Task}" us] by (cases k) simp_all
    then have "Q (sk ?u) \<and> well_kinded ?u" using n w assms [of "ts ! i"] by (simp add: with_kids_def)
    with Cons.prems True show ?thesis by (auto simp: list_all_length nth_list_update)
  qed (use Cons.prems in simp)
qed simp

lemma ok_except_kids:
  "ok_except p ts \<Longrightarrow> (\<And>t. list_all ok_tree (sks t) \<Longrightarrow> list_all ok_tree (sks (f t))) \<Longrightarrow> ok_except p (upd_at f ts p)"
proof (induction p arbitrary: ts)
  case (Cons i p)
  show ?case
  proof (cases "i < length ts")
    case True
    have h: "ok_except p (sks (ts ! i))" "\<And>j. j < length ts \<Longrightarrow> j \<noteq> i \<Longrightarrow> ok_tree (ts ! j)" using Cons.prems(1) True by auto
    show ?thesis
    proof (cases "p = []")
      case True
      with h Cons.prems(2) [of "ts ! i"] show ?thesis by (auto simp: nth_list_update)
    next
      case False
      with h Cons.IH [OF h(1) Cons.prems(2)] show ?thesis by (auto simp: nth_list_update)
    qed
  qed (use Cons.prems in simp)
qed simp

lemma erase_at_map: "map f (erase_at i xs) = erase_at i (map f xs)"
  by (simp add: erase_at_def take_map drop_map)

lemma erase_at_all: "list_all P xs \<Longrightarrow> list_all P (erase_at i xs)"
  unfolding erase_at_def list_all_append by (auto simp: list_all_iff dest: in_set_takeD in_set_dropD)

lemma skel_erase_node:
  assumes "node_at ns p = Some n"
  shows "map skel (erase_node ns p) =
    (if butlast p = [] then erase_at (last p) (map skel ns) else upd_at (with_kids (erase_at (last p))) (map skel ns) (butlast p))"
  using assms
proof (induction ns p rule: erase_node.induct)
  case (2 ns i p)
  then have i: "i < length ns" by (auto split: if_splits)
  show ?case
  proof (cases "p = []")
    case True
    with i show ?thesis by (simp add: erase_at_map)
  next
    case False
    with "2.prems" i have "node_at (kids (ns ! i)) p = Some n" by simp
    from "2.IH" [OF i False this] i False show ?thesis by (cases "butlast p = []") (simp_all add: map_update with_kids_def erase_at_map)
  qed
qed simp

lemma all_data_erase_node: "list_all (all_data P) ns \<Longrightarrow> list_all (all_data P) (erase_node ns p)"
proof (induction ns p rule: erase_node.induct)
  case (2 ns i p)
  show ?case
  proof (cases "i < length ns \<and> p \<noteq> []")
    case True
    have "all_data P (ns ! i)" using 2(2) True by (simp add: list_all_length)
    then have "P (ndata (ns ! i))" "list_all (all_data P) (kids (ns ! i))" by (cases "ns ! i"; simp)+
    with "2.IH" True 2(2) show ?thesis by (auto simp: list_all_length nth_list_update)
  qed (use 2 erase_at_all in auto)
qed simp

lemma Defs_settle_ok:
  assumes "server_ok s" "kinds_ok s" "list_all ok_tree (skels s)"
  shows "in_order (Defs_settle s)"
proof -
  have d: "sv_suites (Defs_settle s) = sv_suites s \<and>
      ns_st (df_st (sv_defs (Defs_settle s))) = theComputedNodeState (map node_state (sv_suites s))"
    by (simp add: Defs_settle_def Defs_set_most_significant_state_def NState_setState_def Let_def case_prod_beta')
  then have "server_ok (Defs_settle s)" "kinds_ok (Defs_settle s)" "settled (Defs_settle s)"
    using assms by (simp_all add: server_ok_def kinds_ok_def settled_def comp_def)
  then show ?thesis by (simp add: in_order_split)
qed

text \<open>A change of the children of a node that only drops or permutes them.\<close>

lemma with_kids_keeps:
  assumes g: "\<And>P (ts :: stree list). list_all P ts \<Longrightarrow> list_all P (g ts)"
  shows "fix_tree Q t \<Longrightarrow> fix_tree Q (with_kids g t)" "well_kinded t \<Longrightarrow> well_kinded (with_kids g t)" "sk (with_kids g t) = sk t"
    "list_all ok_tree (sks t) \<Longrightarrow> list_all ok_tree (sks (with_kids g t))"
proof -
  obtain k ds h x us where t: "t = STree k ds h x us" by (cases t)
  have "g [] = []" using g [of "\<lambda>_. False" "[]"] by (cases "g []") simp_all
  moreover have "list_all P us \<Longrightarrow> list_all P (g us)" for P by (rule g)
  ultimately show "fix_tree Q t \<Longrightarrow> fix_tree Q (with_kids g t)" "well_kinded t \<Longrightarrow> well_kinded (with_kids g t)" "sk (with_kids g t) = sk t"
    "list_all ok_tree (sks t) \<Longrightarrow> list_all ok_tree (sks (with_kids g t))"
    by (simp_all add: t with_kids_def split: node_kind.splits)
qed

lemma delete_in_order:
  assumes o: "in_order s" and n: "node_at (sv_suites s) p = Some n"
  shows "in_order (deleteChild p s)"
proof -
  let ?ns = "erase_node (sv_suites s) p" and ?f = "with_kids (erase_at (last p))" and ?q = "butlast p"
  have ok: "server_ok s" "list_all ok_tree (skels s)" "kinds_ok s" using o by (simp_all add: in_order_split settled_def)
  have sk: "map skel ?ns = (if ?q = [] then erase_at (last p) (skels s) else upd_at ?f (skels s) ?q)" by (rule skel_erase_node [OF n])
  note f = with_kids_keeps [where g = "erase_at (last p)", OF erase_at_all]
  have s1: "server_ok (sv_put ?ns g s)" "kinds_ok (sv_put ?ns g s)" for g
  proof -
    have "list_all plain_tree (map skel ?ns)" unfolding sk using ok(1) f(1) fix_upd_at [of plain_node "skels s" ?f ?q] erase_at_all
      by (auto simp: server_ok_def simp del: map_map)
    moreover have "list_all (all_data data_ok) ?ns" by (rule all_data_erase_node) (use ok(1) in \<open>simp add: server_ok_def\<close>)
    ultimately show "server_ok (sv_put ?ns g s)" by (simp add: server_ok_def sv_put_def del: map_map)
    have "list_all (\<lambda>t. sk t = K_Suite \<and> well_kinded t) (map skel ?ns)"
      unfolding sk using ok(3) kinds_upd_at [of ?f "\<lambda>k. k = K_Suite" "skels s" ?q] f(2,3) erase_at_all
      by (auto simp: kinds_ok_def simp del: map_map)
    then show "kinds_ok (sv_put ?ns g s)" by (simp add: kinds_ok_def sv_put_def del: map_map)
  qed
  show ?thesis
  proof (cases "?q = []")
    case True
    have "list_all ok_tree (skels (sv_put ?ns g s))" for g using sk True ok(2) erase_at_all by (simp add: sv_put_def del: map_map)
    with Defs_settle_ok [OF s1] True show ?thesis by (simp add: deleteChild_def Let_def del: map_map)
  next
    case False
    let ?s = "sv_put ?ns (snd (incr_state_change_no (ls_ecf (sv_sys s)))) s"
    obtain u where u: "st_at (skels s) ?q = Some u" "sk u \<in> {K_Suite, K_Family}"
      using below_containers_parent [OF in_order_node(2) [OF o n] False] by blast
    then obtain m where m: "node_at (sv_suites s) ?q = Some m" "nd_kind (ndata m) \<noteq> K_Task" using skels_node_at [OF u(1)] by fastforce
    have sks: "skels ?s = upd_at ?f (skels s) ?q" using sk False by (simp add: sv_put_def)
    have "ok_except ?q (skels ?s)" unfolding sks by (rule ok_except_kids [OF ok_except_all [OF ok(2)] f(4)])
    moreover have "st_at (skels ?s) ?q = Some (?f u)" unfolding sks by (rule st_at_upd_same [OF u(1)])
    ultimately have "settled (up_node_tree_at ?q ?s)" "keeps ?s (up_node_tree_at ?q ?s)"
      using up_node_tree_at_ok [OF _ _ s1(1)] by blast+
    with in_orderI [OF s1(2)] m False show ?thesis by (simp add: deleteChild_def Let_def)
  qed
qed

lemma clear_in_order: "in_order (Defs_clear s)"
  by (simp add: Defs_clear_def in_order_def server_ok_def settled_def NState_setState_def theComputedNodeState_cases Let_def case_prod_beta')

section \<open>Order\<close>

text \<open>What is required of \<open>std::sort\<close>.\<close>

definition sorter_ok :: "sorter \<Rightarrow> bool" where
  "sorter_ok sorter \<longleftrightarrow>
     (\<forall>lt ns. strict_weak lt ns \<longrightarrow> mset (sorter lt ns) = mset ns \<and> sorted_wrt (\<lambda>a b. \<not> lt b a) (sorter lt ns))"

lemma sum_runtime_keeps:
  "skel (snd (sum_runtime n)) = skel n \<and> (all_data data_ok n \<longrightarrow> all_data data_ok (snd (sum_runtime n)))"
proof (induction n rule: sum_runtime.induct)
  case (1 nd ks)
  have d: "data_ok (nd\<lparr>nd_sc_rt := r\<rparr>) = data_ok nd" for r by (simp add: data_ok_def)
  show ?case
  proof (cases "nd_kind nd \<in> {K_Suite, K_Family}")
    case True
    with 1 d show ?thesis by (auto simp: Let_def list_all_iff comp_def)
  qed simp
qed

lemma mset_swap: "i < length xs \<Longrightarrow> j < length xs \<Longrightarrow> mset (xs[i := xs ! j, j := xs ! i]) = mset xs"
  by (cases "i = j") (simp_all add: mset_swap)

lemma mset_move: "i < length xs \<Longrightarrow> mset (xs ! i # erase_at i xs) = mset xs" "i < length xs \<Longrightarrow> mset (erase_at i xs @ [xs ! i]) = mset xs"
proof -
  assume i: "i < length xs"
  have "mset xs = mset (take i xs @ xs ! i # drop (Suc i) xs)" using id_take_nth_drop [OF i] by simp
  then show "mset (xs ! i # erase_at i xs) = mset xs" "mset (erase_at i xs @ [xs ! i]) = mset xs" by (simp_all add: erase_at_def)
qed

definition permuted :: "node list \<Rightarrow> (bool \<times> node list) run \<Rightarrow> bool" where
  "permuted ns m \<longleftrightarrow> m = Some (Inl (Undefined_behaviour ''std::sort'')) \<or>
     (\<exists>c ns'. m = run_ret (c, ns') \<and> mset (map skel ns') = mset (map skel ns) \<and>
        (list_all (all_data data_ok) ns \<longrightarrow> list_all (all_data data_ok) ns'))"

lemma permuted_ret: "mset ns' = mset ns \<Longrightarrow> permuted ns (run_ret (c, ns'))"
  using mset_eq_setD [of ns' ns] by (simp add: permuted_def list_all_iff)

lemma permuted_sort:
  assumes "sorter_ok sorter" "map skel ms = map skel ns" "list_all (all_data data_ok) ns \<longrightarrow> list_all (all_data data_ok) ms"
  shows "permuted ns (std_sort sorter lt ms)"
proof (cases "strict_weak lt ms")
  case True
  then have m: "mset (sorter lt ms) = mset ms" using assms(1) by (simp add: sorter_ok_def)
  then have "mset (map skel (sorter lt ms)) = mset (map skel ns)" using assms(2) by (metis mset_map)
  with True mset_eq_setD [OF m] assms(3) show ?thesis by (auto simp: permuted_def std_sort_def list_all_iff)
qed (simp add: permuted_def std_sort_def)

lemma order_nodes_ok:
  assumes "sorter_ok sorter" "i < length ns"
  shows "permuted ns (order_nodes sorter aliases ord i ns)"
proof (cases ord)
  case ORD_RUNTIME
  let ?rs = "map (\<lambda>n. snd (sum_runtime n)) ns"
  have rs: "map skel ?rs = map skel ns" "list_all (all_data data_ok) ns \<longrightarrow> list_all (all_data data_ok) ?rs"
    using sum_runtime_keeps by (simp_all add: list_all_iff)
  with ORD_RUNTIME permuted_sort [OF assms(1) rs] permuted_sort [OF assms(1) refl, of ns] permuted_ret [of ns ns] show ?thesis
    by (simp add: order_nodes_def del: map_map)
next
  case ORD_UP
  have "mset (ns[i := ns ! (i - 1), i - 1 := ns ! i]) = mset ns" by (rule mset_swap) (use assms(2) in simp_all)
  with ORD_UP permuted_ret show ?thesis by (simp add: order_nodes_def)
next
  case ORD_DOWN
  have "Suc i \<noteq> length ns \<Longrightarrow> mset (ns[i := ns ! Suc i, Suc i := ns ! i]) = mset ns" by (rule mset_swap) (use assms(2) in simp_all)
  with ORD_DOWN permuted_ret show ?thesis by (simp add: order_nodes_def)
next
  case ORD_TOP
  with permuted_ret [OF mset_move(1) [OF assms(2)]] show ?thesis by (simp add: order_nodes_def)
next
  case ORD_BOTTOM
  with permuted_ret [OF mset_move(2) [OF assms(2)]] show ?thesis by (simp add: order_nodes_def)
qed (use permuted_sort [OF assms(1) refl, of ns] in \<open>simp_all add: order_nodes_def\<close>)

lemma children_state_perm:
  assumes "mset us = mset ts"
  shows "children_state x us = children_state x ts" "theComputedNodeState (map ss us) = theComputedNodeState (map ss ts)"
proof -
  have "set us = set ts" using assms by (rule mset_eq_setD)
  then have c: "theComputedNodeState (map ss us) = theComputedNodeState (map ss ts)" by (simp add: theComputedNodeState_cases)
  moreover have "us = [] \<longleftrightarrow> ts = []" using assms by auto
  ultimately show "children_state x us = children_state x ts" "theComputedNodeState (map ss us) = theComputedNodeState (map ss ts)"
    by (simp_all add: children_state_def)
qed

lemma perm_kids:
  assumes "mset us = mset (sks t)"
  shows "ok_tree t \<Longrightarrow> ok_tree (with_kids (\<lambda>_. us) t)" "fix_tree Q t \<Longrightarrow> fix_tree Q (with_kids (\<lambda>_. us) t)"
    "well_kinded t \<Longrightarrow> well_kinded (with_kids (\<lambda>_. us) t)"
proof -
  obtain k ds h x ts where t: "t = STree k ds h x ts" by (cases t)
  have s: "set us = set ts" using mset_eq_setD [OF assms] by (simp add: t)
  have e: "us = [] \<longleftrightarrow> ts = []" using s by auto
  have a: "list_all P us = list_all P ts" for P using s by (simp add: list_all_iff)
  have "shown (STree k ds h x us) = shown (STree k ds h x ts)"
    using children_state_perm(1) [of us ts x] assms by (simp add: shown_def t)
  with a show "ok_tree t \<Longrightarrow> ok_tree (with_kids (\<lambda>_. us) t)" by (simp add: t with_kids_def)
  from a show "fix_tree Q t \<Longrightarrow> fix_tree Q (with_kids (\<lambda>_. us) t)" by (simp add: t with_kids_def)
  from a e show "well_kinded t \<Longrightarrow> well_kinded (with_kids (\<lambda>_. us) t)" by (simp add: t with_kids_def split: node_kind.splits)
qed

lemma skel_set_kids: "q \<noteq> [] \<Longrightarrow> map skel (set_kids ks ns q) = upd_at (with_kids (\<lambda>_. map skel ks)) (map skel ns) q"
proof (induction ks ns q rule: set_kids.induct)
  case (2 ks ns i p)
  have u: "skel (Node (ndata n) ms) = with_kids (\<lambda>_. map skel ms) (skel n)" for n ms by (cases n) (simp add: with_kids_def)
  show ?case
  proof (cases "i < length ns")
    case True
    have k: "sks (skel (ns ! i)) = map skel (kids (ns ! i))" by (cases "ns ! i") simp
    let ?W = "with_kids (\<lambda>_. map skel ks)" and ?t = "skel (ns ! i)"
    have "skel (Node (ndata (ns ! i)) (set_kids ks (kids (ns ! i)) p)) = (if p = [] then ?W ?t else with_kids (\<lambda>ts. upd_at ?W ts p) ?t)"
    proof (cases "p = []")
      case False
      with "2.IH" [OF True] k have "map skel (set_kids ks (kids (ns ! i)) p) = upd_at ?W (sks ?t) p" by simp
      with False show ?thesis unfolding u by (simp add: with_kids_def)
    next
      case True
      show ?thesis unfolding u using True by (simp add: with_kids_def)
    qed
    with True show ?thesis by (simp add: map_update)
  qed simp
qed simp

lemma all_data_set_kids:
  "list_all (all_data P) ks \<Longrightarrow> list_all (all_data P) ns \<Longrightarrow> list_all (all_data P) (set_kids ks ns q)"
proof (induction ks ns q rule: set_kids.induct)
  case (2 ks ns i p)
  show ?case
  proof (cases "i < length ns")
    case True
    have "all_data P (ns ! i)" using 2(3) True by (simp add: list_all_length)
    then have "P (ndata (ns ! i))" "list_all (all_data P) (kids (ns ! i))" by (cases "ns ! i"; simp)+
    with "2.IH" [OF True] 2(2,3) True show ?thesis by (auto simp: list_all_length nth_list_update)
  qed (use 2 in simp)
qed simp

definition children_at :: "node list \<Rightarrow> addr \<Rightarrow> node list" where
  "children_at ns q = (if q = [] then ns else case node_at ns q of None \<Rightarrow> [] | Some n \<Rightarrow> kids n)"

lemma perm_in_order:
  assumes o: "in_order s" and m: "mset (map skel ns1) = mset (map skel (children_at (sv_suites s) q))"
    and d: "list_all (all_data data_ok) ns1"
  shows "in_order (sv_put (set_kids ns1 (sv_suites s) q) g s)"
proof -
  let ?s = "sv_put (set_kids ns1 (sv_suites s) q) g s"
  have ok: "list_all plain_tree (skels s)" "tree_ok s" "list_all ok_tree (skels s)" "kinds_ok s"
    "ns_st (df_st (sv_defs s)) = theComputedNodeState (map ss (skels s))"
    using o by (simp_all add: in_order_split settled_def server_ok_def del: map_map)
  have t: "tree_ok ?s" using all_data_set_kids [OF d ok(2)] by (simp add: sv_put_def)
  have "list_all plain_tree (skels ?s) \<and> list_all ok_tree (skels ?s) \<and> list_all (\<lambda>t. sk t = K_Suite \<and> well_kinded t) (skels ?s) \<and>
    theComputedNodeState (map ss (skels ?s)) = theComputedNodeState (map ss (skels s))"
  proof (cases "q = []")
    case True
    have e: "mset (skels ?s) = mset (skels s)" using m True by (simp add: sv_put_def children_at_def)
    then have "set (skels ?s) = set (skels s)" by (rule mset_eq_setD)
    then have "list_all P (skels ?s) = list_all P (skels s)" for P by (simp only: list_all_iff)
    with ok children_state_perm(2) [OF e] show ?thesis by (simp only: kinds_ok_def)
  next
    case False
    let ?us = "map skel ns1"
    define f where "f t = (if mset ?us = mset (sks t) then with_kids (\<lambda>_. ?us) t else t)" for t
    have "skels ?s = upd_at (with_kids (\<lambda>_. ?us)) (skels s) q" using skel_set_kids [OF False] by (simp add: sv_put_def)
    also have "\<dots> = upd_at f (skels s) q"
    proof (rule upd_at_cong)
      fix t assume "st_at (skels s) q = Some t"
      then obtain n where n: "node_at (sv_suites s) q = Some n" "skel n = t" using skels_node_at by blast
      then have "sks t = map skel (children_at (sv_suites s) q)" using False by (cases n) (auto simp: children_at_def)
      with m show "with_kids (\<lambda>_. ?us) t = f t" by (simp add: f_def)
    qed
    finally have sk: "skels ?s = upd_at f (skels s) q" .
    have f: "ok_tree t \<Longrightarrow> ok_tree (f t)" "fix_tree Q t \<Longrightarrow> fix_tree Q (f t)" "well_kinded t \<Longrightarrow> well_kinded (f t)" "ss (f t) = ss t"
      "sk (f t) = sk t" for t Q using perm_kids [of ?us t] by (auto simp: f_def with_kids_def)
    have "map ss (skels ?s) = map ss (skels s) \<and> list_all ok_tree (skels ?s)" unfolding sk using ok_upd_at [of f "skels s" q] f(1,4) ok(3) by blast
    moreover have "list_all plain_tree (skels ?s)" unfolding sk by (rule fix_upd_at [OF ok(1)]) (rule f(2))
    moreover have "list_all (\<lambda>t. sk t = K_Suite \<and> well_kinded t) (skels ?s)" unfolding sk
      by (rule kinds_upd_at [where Q = "\<lambda>k. k = K_Suite", OF f(3) f(5) ok(4) [unfolded kinds_ok_def]])
    ultimately show ?thesis by simp
  qed
  with t ok(5) show ?thesis by (simp add: in_order_def server_ok_def settled_def sv_put_def del: map_map)
qed

definition ordered :: "(path_result \<times> base_server) run \<Rightarrow> bool" where
  "ordered m \<longleftrightarrow> (\<exists>r b. m = run_ret (r, b) \<and> in_order (bs_server b))"

lemma ordered_ret: "in_order (bs_server b) \<Longrightarrow> ordered (run_ret (r, b))"
  by (simp add: ordered_def)

lemma safe_ordered: "in_order (bs_server b) \<Longrightarrow> safe_run path_server (bs_server b) m \<Longrightarrow> ordered m"
  using in_order_keeps [of "bs_server b"] by (fastforce simp: safe_run_def ordered_def)

lemma runtime_in_order:
  assumes o: "in_order s" and n: "node_at (sv_suites s) q = Some n"
  shows "in_order (sv_put (put_data ((ndata n)\<lparr>nd_sc_rt := rt\<rparr>) (sv_suites s) q) g s)"
proof -
  have "data_ok (ndata n)" by (rule data_ok_at [OF n in_orderD(1) [OF o]])
  then have "data_ok ((ndata n)\<lparr>nd_sc_rt := rt\<rparr>)" by (simp add: data_ok_def)
  from in_order_still [OF o put_still [OF n in_orderD(1) [OF o] _ this, of g]] show ?thesis by (simp add: same_core_def)
qed

lemma sv_put_put: "sv_put ns g (sv_put ns' g' s) = sv_put ns g s"
  by (simp add: sv_put_def)

lemma child_index:
  "node_at ns p = Some n \<Longrightarrow> p ! (length p - 1) < length (children_at ns (butlast p))"
proof (induction ns p rule: node_at.induct)
  case (2 ns i p)
  show ?case
  proof (cases "p = []")
    case False
    with 2 have "i < length ns" "p ! (length p - 1) < length (children_at (kids (ns ! i)) (butlast p))" by (auto split: if_splits)
    with False show ?thesis by (cases "butlast p = []") (auto simp: children_at_def nth_Cons')
  qed (use 2 in \<open>auto simp: children_at_def split: if_splits\<close>)
qed simp

lemma all_data_children: "list_all (all_data P) ns \<Longrightarrow> list_all (all_data P) (children_at ns q)"
  using all_data_node_at [of P ns q] by (cases "node_at ns q") (auto simp: children_at_def all_data_sel)

lemma order_in_ok:
  assumes o: "in_order (bs_server b)" and n: "node_at (sv_suites (bs_server b)) p = Some n" and st: "sorter_ok sorter"
  shows "order_in sorter ord p b = Some (Inl (Undefined_behaviour ''std::sort'')) \<or> ordered (order_in sorter ord p b)"
proof -
  let ?s = "bs_server b" and ?q = "butlast p" and ?i = "p ! (length p - 1)"
  let ?ns = "children_at (sv_suites ?s) ?q"
  define aliases where "aliases = (case node_at (sv_suites ?s) ?q of None \<Rightarrow> False | Some n \<Rightarrow> nd_kind (ndata n) = K_Task)"
  have d: "list_all (all_data data_ok) ?ns" using in_orderD(1) [OF o] by (intro all_data_children) (simp add: server_ok_def)
  have i: "?i < length ?ns" by (rule child_index [OF n])
  have fin: "in_order (sv_put (if c then case node_at (set_kids ns1 (sv_suites ?s) ?q) ?q of None \<Rightarrow> set_kids ns1 (sv_suites ?s) ?q
        | Some n \<Rightarrow> put_data ((ndata n)\<lparr>nd_sc_rt := rt\<rparr>) (set_kids ns1 (sv_suites ?s) ?q) ?q else set_kids ns1 (sv_suites ?s) ?q) g ?s)"
    if "mset (map skel ns1) = mset (map skel ?ns)" "list_all (all_data data_ok) ns1" for ns1 g rt c
  proof -
    let ?s1 = "sv_put (set_kids ns1 (sv_suites ?s) ?q) g ?s"
    have o1: "in_order ?s1" by (rule perm_in_order [OF o that])
    have "in_order (sv_put (put_data ((ndata m)\<lparr>nd_sc_rt := rt\<rparr>) (set_kids ns1 (sv_suites ?s) ?q) ?q) g ?s)"
      if "node_at (set_kids ns1 (sv_suites ?s) ?q) ?q = Some m" for m
    proof -
      have "node_at (sv_suites ?s1) ?q = Some m" using that by (simp add: sv_put_def)
      from runtime_in_order [OF o1 this, of rt g] show ?thesis unfolding sv_put_put by (simp add: sv_put_def)
    qed
    with o1 show ?thesis by (simp split: option.split)
  qed
  have ns: "(if ?q = [] then sv_suites ?s else case node_at (sv_suites ?s) ?q of None \<Rightarrow> [] | Some n \<Rightarrow> kids n) = ?ns"
    by (simp add: children_at_def)
  from order_nodes_ok [OF st i, of aliases ord] consider "order_nodes sorter aliases ord ?i ?ns = Some (Inl (Undefined_behaviour ''std::sort''))"
    | c ns1 where "order_nodes sorter aliases ord ?i ?ns = run_ret (c, ns1)" "mset (map skel ns1) = mset (map skel ?ns)"
      "list_all (all_data data_ok) ns1" using d unfolding permuted_def by blast
  then show ?thesis
  proof cases
    case 1
    with i o show ?thesis unfolding order_in_def Let_def ns aliases_def [symmetric] by (simp add: ordered_ret)
  next
    case 2
    from ordered_ret [of "b\<lparr>bs_server := sv_put (if c1 then case node_at (set_kids ns1 (sv_suites ?s) ?q) ?q of None \<Rightarrow> set_kids ns1 (sv_suites ?s) ?q
        | Some n \<Rightarrow> put_data ((ndata n)\<lparr>nd_sc_rt := rt\<rparr>) (set_kids ns1 (sv_suites ?s) ?q) ?q else set_kids ns1 (sv_suites ?s) ?q) g ?s\<rparr>" Path_done
        for c1 rt g] fin [OF 2(2,3)]
    have r: "ordered (run_ret (Path_done, b\<lparr>bs_server := sv_put (if c1 then case node_at (set_kids ns1 (sv_suites ?s) ?q) ?q of None \<Rightarrow> set_kids ns1 (sv_suites ?s) ?q
        | Some n \<Rightarrow> put_data ((ndata n)\<lparr>nd_sc_rt := rt\<rparr>) (set_kids ns1 (sv_suites ?s) ?q) ?q else set_kids ns1 (sv_suites ?s) ?q) g ?s\<rparr>))" for c1 rt g
      by simp
    show ?thesis
    proof (cases "ord = ORD_RUNTIME \<and> list_ex (\<lambda>n. node_state n \<noteq> NS_COMPLETE) ?ns")
      case True
      with i o show ?thesis unfolding order_in_def Let_def ns aliases_def [symmetric] by (simp add: ordered_ret)
    next
      case False
      with i 2(1) r show ?thesis unfolding order_in_def Let_def ns aliases_def [symmetric] by (simp only: if_True if_False not_True_eq_False run_bind_simps prod.case) blast
    qed
  qed
qed

end
