(* ===== verification/Command_Run.thy ===== *)
theory Command_Run
  imports Commands_Ok
begin

text \<open>
  Whole user commands: the loop over the paths, the deletes and archives that change the shape of the tree, and the requests of
  \<open>User_Cmds\<close> as the server handles them. Each of them returns and leaves a server whose tree is in good order and whose
  timer and check points agree with its state (\<open>as_ok\<close> of theory \<open>Server_Base\<close>).
\<close>

section \<open>Deletes\<close>

lemma found_kind: "findAbsNode (sv_defs s) path = Some p \<Longrightarrow> \<exists>k. kind_at s p = Some k"
  using find_down_sound [of "sv_suites s" "NodePath_split path" p] by (auto simp: findAbsNode_eq kind_at_def)

lemma found_node: "findAbsNode (sv_defs s) path = Some p \<Longrightarrow> \<exists>n. node_at (sv_suites s) p = Some n"
  using found_kind by (auto simp: kind_at_def)

lemma kind_node: "kind_at s p = Some k \<Longrightarrow> \<exists>n. node_at (sv_suites s) p = Some n"
  by (auto simp: kind_at_def)

text \<open>A forced command first makes zombies of the running tasks.\<close>

lemma forced_zombies:
  assumes o: "in_order (bs_server b)" and k: "kind_at (bs_server b) p = Some k"
  obtains b1 where "(if force then with_zombie_list (add_user_zombies_node w cmd (Some p)) b else run_ret b) = run_ret b1"
    "keeps (bs_server b) (bs_server b1)" "in_order (bs_server b1)"
proof -
  have "safe_run bs_server (bs_server b) (if force then with_zombie_list (add_user_zombies_node w cmd (Some p)) b else run_ret b)"
    using kind_ready [OF o k] by (intro safe_if safe_zombies safe_here)
  with that in_order_keeps [OF o] show ?thesis by (auto simp: safe_run_def)
qed

lemma delete_node_ok:
  assumes o: "in_order (bs_server b)" and k: "kind_at (bs_server b) p = Some k"
  shows "ordered (delete_node w force p b)"
proof -
  obtain b1 where b1: "(if force then with_zombie_list (add_user_zombies_node w ''delete'' (Some p)) b else run_ret b) = run_ret b1"
    "keeps (bs_server b) (bs_server b1)" "in_order (bs_server b1)" using forced_zombies [OF o k] by blast
  have "kind_at (bs_server b1) p = Some k" using kind_at_keeps [OF b1(2)] k by simp
  then have "in_order (deleteChild p (bs_server b1))" using kind_node delete_in_order [OF b1(3)] by blast
  then show ?thesis using o b1(1) by (auto simp: delete_node_def ordered_def)
qed

lemma all_zombies_ok:
  assumes o: "in_order (bs_server b)"
  shows "\<exists>b1. with_zombie_list (add_user_zombies_defs w cmd) b = run_ret b1"
proof -
  let ?s = "bs_server b"
  have "\<exists>m. node_at (sv_suites ?s) q = Some m \<and> node_state m \<in> {NS_ACTIVE, NS_SUBMITTED}"
    if q: "q \<in> set (active_submittables_below (sv_suites ?s) 0 [])" for q
  proof -
    obtain j r m where r: "j < length (sv_suites ?s)" "q = j # r" "node_below (sv_suites ?s ! j) r = Some m" "node_state m \<in> {NS_ACTIVE, NS_SUBMITTED}"
      using active_submittables_found(2) [OF q] by auto
    with node_at_below [of "sv_suites ?s" "[j]" "sv_suites ?s ! j" r] show ?thesis by simp
  qed
  from add_user_zombies_ok [of ?s "active_submittables_below (sv_suites ?s) 0 []" w cmd "bs_zombies b", OF in_orderD(1) [OF o] this]
  show ?thesis by (auto simp: with_zombie_list_def add_user_zombies_defs_def)
qed

lemma delete_all_ok: "in_order (bs_server b) \<Longrightarrow> ordered (delete_all w force b)"
  using all_zombies_ok [of b w "''delete''"] clear_in_order by (auto simp: delete_all_def ordered_def)


section \<open>Archives\<close>

lemma prefix_up_addrs: "p \<noteq> [] \<Longrightarrow> strict_prefix p q \<Longrightarrow> p \<in> set (tl (up_addrs q))"
proof -
  assume p: "p \<noteq> []" "strict_prefix p q"
  then obtain r where r: "q = p @ r" "r \<noteq> []" by (auto simp: strict_prefix_def prefix_def)
  then have "[1..<Suc (length q)] = [1..<length q] @ [length q]" using p(1) by (cases p) auto
  then have "tl (up_addrs q) = map (\<lambda>k. take k q) (rev [1..<length q])" by (simp add: up_addrs_def)
  moreover have "p = take (length p) q" "1 \<le> length p" "length p < length q" using r p(1) by (auto simp: Suc_le_eq)
  then have "p \<in> (\<lambda>k. take k q) ` {1..<length q}" by (intro image_eqI [of _ _ "length p"]) simp_all
  ultimately show ?thesis by simp
qed

lemma st_at_upd_above:
  "\<not> strict_prefix p q \<Longrightarrow> (\<And>t. sk (f t) = sk t) \<Longrightarrow> map_option sk (st_at (upd_at f ts p) q) = map_option sk (st_at ts q)"
proof (induction f ts p arbitrary: q rule: upd_at.induct)
  case (2 f ts i p)
  show ?case
  proof (cases q)
    case (Cons j r)
    with 2 show ?thesis by (cases "i = j"; cases "p = []"; cases "r = []") (auto simp: nth_list_update with_kids_def strict_prefix_def)
  qed (use 2 in simp)
qed simp

lemma kind_at_skels: "kind_at s p = map_option sk (st_at (skels s) p)"
  by (cases "node_at (sv_suites s) p") (auto simp: kind_at_def st_at_skel)

text \<open>An archive leaves every node outside what it archives.\<close>

lemma archive_kinds:
  assumes o: "in_order s" and k: "kind_at s p = Some k"
  obtains thrown s' where "NodeContainer_archive aw sr p s = run_ret (thrown, s')" "in_order s'"
    "\<And>q. \<not> strict_prefix p q \<Longrightarrow> kind_at s' q = kind_at s q"
proof -
  obtain n where n: "node_at (sv_suites s) p = Some n" using kind_node [OF k] by blast
  obtain thrown s' where a: "NodeContainer_archive aw sr p s = run_ret (thrown, s')" "in_order s'"
    using archive_in_order [OF n o] by blast
  from NodeContainer_archive_ok [OF n in_orderD [OF o], of aw sr] a(1)
  have "skels s' = skels s \<or> skels s' = upd_at (with_kids (\<lambda>_. [])) (skels s) p" by (auto simp del: map_map)
  then have "kind_at s' q = kind_at s q" if "\<not> strict_prefix p q" for q
    using st_at_upd_above [OF that, of "with_kids (\<lambda>_. [])" "skels s"] unfolding kind_at_skels by (auto simp: with_kids_def)
  with that a show ?thesis by blast
qed

lemma archive_node_ok:
  assumes o: "in_order (bs_server b)" and k: "kind_at (bs_server b) p = Some k"
  obtains r b' where "archive_node w aw sr force p b = run_ret (r, b')" "in_order (bs_server b')"
    "\<And>q. \<not> strict_prefix p q \<Longrightarrow> kind_at (bs_server b') q = kind_at (bs_server b) q"
proof (cases "\<not> force \<and> tasks_in {NS_ACTIVE, NS_SUBMITTED} (bs_server b) p")
  case True
  with that o show ?thesis by (simp add: archive_node_def)
next
  case False
  obtain b1 where b1: "(if force then with_zombie_list (add_user_zombies_node w ''archive'' (Some p)) b else run_ret b) = run_ret b1"
    "keeps (bs_server b) (bs_server b1)" "in_order (bs_server b1)" using forced_zombies [OF o k] by blast
  have k1: "kind_at (bs_server b1) q = kind_at (bs_server b) q" for q by (rule kind_at_keeps [OF b1(2)])
  obtain b2 where b2: "with_server (change p (flag_set FL_MESSAGE)) b1 = run_ret b2" "keeps (bs_server b1) (bs_server b2)"
    "in_order (bs_server b2)"
    using safe_with_server [where f = "change p (flag_set FL_MESSAGE)", OF safe_flag [OF kind_ready [OF b1(3) k1 [of p, unfolded k]]]]
      in_order_keeps [OF b1(3)] by (auto simp: safe_run_def)
  have k2: "kind_at (bs_server b2) q = kind_at (bs_server b) q" for q using kind_at_keeps [OF b2(2)] k1 by simp
  obtain thrown s where s: "NodeContainer_archive aw sr p (bs_server b2) = run_ret (thrown, s)" "in_order s"
    "\<And>q. \<not> strict_prefix p q \<Longrightarrow> kind_at s q = kind_at (bs_server b2) q"
    using archive_kinds [OF b2(3) k2 [of p, unfolded k]] by blast
  have "archive_node w aw sr force p b =
    run_ret (case thrown of None \<Rightarrow> Path_done | Some msg \<Rightarrow> Path_end (Thrown msg), b2\<lparr>bs_server := s\<rparr>)"
    using False b1(1) b2(1) s(1) by (auto simp: archive_node_def)
  with that s(2,3) k2 show ?thesis by simp
qed

lemma archive_nodes_ok:
  assumes "in_order (bs_server b)" "\<forall>p \<in> set ps. kind_at (bs_server b) p \<noteq> None" "\<forall>p \<in> set ps. \<forall>q \<in> set ps. \<not> strict_prefix p q"
  shows "ordered (archive_nodes w aw sr force ps b)"
  using assms
proof (induction ps arbitrary: b)
  case (Cons p ps)
  then obtain k where k: "kind_at (bs_server b) p = Some k" by auto
  obtain r b1 where b1: "archive_node w aw sr force p b = run_ret (r, b1)" "in_order (bs_server b1)"
    "\<And>q. \<not> strict_prefix p q \<Longrightarrow> kind_at (bs_server b1) q = kind_at (bs_server b) q"
    using archive_node_ok [OF Cons.prems(1) k] by blast
  have "ordered (archive_nodes w aw sr force ps b1)" by (rule Cons.IH [OF b1(2)]) (use b1(3) Cons.prems in auto)
  with b1 show ?case by (auto simp: ordered_ret)
qed (simp add: ordered_ret)

text \<open>The containers that \<open>ARCHIVE\<close> collects are apart as long as each path is the one that the node found by it answers with.\<close>

definition canonical_path :: "server \<Rightarrow> string \<Rightarrow> bool" where
  "canonical_path s path = (case findAbsNode (sv_defs s) path of None \<Rightarrow> True | Some p \<Rightarrow> absNodePath (sv_defs s) p = path)"

lemma to_archive_mem:
  "p \<in> set (fst (to_archive s paths path)) \<Longrightarrow>
     findAbsNode (sv_defs s) path = Some p \<and> (\<forall>q \<in> set (tl (up_addrs p)). absNodePath (sv_defs s) q \<notin> set paths)"
  by (cases "findAbsNode (sv_defs s) path") (simp_all add: to_archive_def split: if_splits)

lemma to_archive_apart:
  assumes c: "list_all (canonical_path s) paths" and ps: "ps = concat (map (fst \<circ> to_archive s paths) paths)"
  shows "\<forall>p \<in> set ps. kind_at s p \<noteq> None" "\<forall>p \<in> set ps. \<forall>q \<in> set ps. \<not> strict_prefix p q"
proof -
  have f: "\<exists>path \<in> set paths. findAbsNode (sv_defs s) path = Some p \<and>
      (\<forall>q \<in> set (tl (up_addrs p)). absNodePath (sv_defs s) q \<notin> set paths)" if "p \<in> set ps" for p
    using that to_archive_mem [of p s paths] by (auto simp: ps)
  show "\<forall>p \<in> set ps. kind_at s p \<noteq> None"
  proof
    fix p assume "p \<in> set ps"
    with f obtain path where "findAbsNode (sv_defs s) path = Some p" by blast
    then show "kind_at s p \<noteq> None" using found_kind by fastforce
  qed
  show "\<forall>p \<in> set ps. \<forall>q \<in> set ps. \<not> strict_prefix p q"
  proof (intro ballI notI)
    fix p q assume p: "p \<in> set ps" and q: "q \<in> set ps" and "strict_prefix p q"
    obtain path where path: "path \<in> set paths" "findAbsNode (sv_defs s) path = Some p" using f [OF p] by blast
    then have n: "absNodePath (sv_defs s) p \<in> set paths" using c by (auto simp: list_all_iff canonical_path_def)
    have "p \<noteq> []" using found_node [OF path(2)] by auto
    from prefix_up_addrs [OF this \<open>strict_prefix p q\<close>] f [OF q] n show False by blast
  qed
qed

lemma archive_command_ok:
  assumes "in_order (bs_server b)" "list_all (canonical_path (bs_server b)) paths"
  shows "ordered (archive_command w aw sr force paths b)"
proof (cases "paths = []")
  case False
  let ?ps = "concat (map (fst \<circ> to_archive (bs_server b) paths) paths)"
  have "ordered (archive_nodes w aw sr force ?ps b)" by (rule archive_nodes_ok [OF assms(1) to_archive_apart [OF assms(2) refl]])
  with False show ?thesis by (auto simp: archive_command_def ordered_def Let_def)
qed (simp add: archive_command_def ordered_ret assms(1))

section \<open>Comparisons of names\<close>

definition linear_less :: "('a \<Rightarrow> 'a \<Rightarrow> bool) \<Rightarrow> bool" where
  "linear_less lt \<longleftrightarrow> (\<forall>x. \<not> lt x x) \<and> (\<forall>x y z. lt x y \<longrightarrow> lt y z \<longrightarrow> lt x z) \<and> (\<forall>x y. x = y \<or> lt x y \<or> lt y x)"

lemma lexicographical_irrefl: "linear_less lt \<Longrightarrow> \<not> lexicographical_compare lt xs xs"
  by (induction xs) (auto simp: linear_less_def)

lemma lexicographical_trans:
  assumes "linear_less lt"
  shows "lexicographical_compare lt xs ys \<Longrightarrow> lexicographical_compare lt ys zs \<Longrightarrow> lexicographical_compare lt xs zs"
proof (induction xs arbitrary: ys zs)
  case Nil
  then show ?case by (cases ys; cases zs) auto
next
  case (Cons x xs)
  then obtain y ys' z zs' where yz: "ys = y # ys'" "zs = z # zs'" by (cases ys; cases zs) auto
  have l: "\<And>a. \<not> lt a a" "\<And>a b c. lt a b \<Longrightarrow> lt b c \<Longrightarrow> lt a c" "\<And>a b. a = b \<or> lt a b \<or> lt b a"
    using assms unfolding linear_less_def by blast+
  from Cons.prems have 1: "lt x y \<or> x = y \<and> lexicographical_compare lt xs ys'" "lt y z \<or> y = z \<and> lexicographical_compare lt ys' zs'"
    unfolding yz using l(3) [of x y] l(3) [of y z] by (auto split: if_splits)
  then have "lt x z \<or> x = z \<and> lexicographical_compare lt xs zs'" using l(2) Cons.IH by blast
  then show ?case unfolding yz using l(1) by auto
qed

lemma lexicographical_total:
  assumes "linear_less lt"
  shows "xs = ys \<or> lexicographical_compare lt xs ys \<or> lexicographical_compare lt ys xs"
proof (induction xs arbitrary: ys)
  case Nil
  then show ?case by (cases ys) auto
next
  case (Cons x xs)
  have l: "\<And>a b. a = b \<or> lt a b \<or> lt b a" using assms unfolding linear_less_def by blast
  show ?case
  proof (cases ys)
    case c: (Cons y ys')
    with l [of x y] Cons.IH [of ys'] show ?thesis by auto
  qed simp
qed

lemma lexicographical_linear: "linear_less lt \<Longrightarrow> linear_less (lexicographical_compare lt)"
  unfolding linear_less_def [of "lexicographical_compare lt"]
  using lexicographical_irrefl lexicographical_trans lexicographical_total by blast

lemma char_code_total: "x = y \<or> (of_char x :: nat) < of_char y \<or> (of_char y :: nat) < of_char x"
  using of_char_eq_iff [of x y, where 'a = nat] by linarith

lemma mixed_key:
  "linear_less (\<lambda>x y. if char_upper x = char_upper y then (of_char x :: nat) > of_char y else char_upper x < char_upper y)"
  "linear_less (\<lambda>x y. if char_upper x = char_upper y then (of_char x :: nat) < of_char y else char_upper x > char_upper y)"
  using char_code_total unfolding linear_less_def by (auto split: if_splits)

lemma caseIns_linear: "linear_less caseInsLess" "linear_less caseInsGreater"
  unfolding caseInsLess_def caseInsGreater_def by (rule lexicographical_linear, rule mixed_key)+

lemma linear_weak:
  assumes "linear_less lt"
  shows "strict_weak (\<lambda>a b. lt (f a) (f b)) xs"
proof -
  have l: "\<And>a. \<not> lt a a" "\<And>a b c. lt a b \<Longrightarrow> lt b c \<Longrightarrow> lt a c" "\<And>a b. a = b \<or> lt a b \<or> lt b a"
    using assms unfolding linear_less_def by blast+
  have "(lt x y \<and> lt y z \<longrightarrow> lt x z) \<and> (\<not> lt x y \<and> \<not> lt y x \<and> \<not> lt y z \<and> \<not> lt z y \<longrightarrow> \<not> lt x z \<and> \<not> lt z x)" for x y z
  proof (intro conjI impI)
    assume "\<not> lt x y \<and> \<not> lt y x \<and> \<not> lt y z \<and> \<not> lt z y"
    then have "x = y" "y = z" using l(3) by blast+
    then show "\<not> lt x z" "\<not> lt z x" using l(1) by simp_all
  qed (use l(2) in blast)
  then show ?thesis using l(1) unfolding strict_weak_def list_all_iff by blast
qed

lemma int_linear: "linear_less ((<) :: int \<Rightarrow> int \<Rightarrow> bool)" "linear_less ((>) :: int \<Rightarrow> int \<Rightarrow> bool)"
  by (auto simp: linear_less_def)

lemma strict_weak_cong:
  assumes e: "\<And>a b. a \<in> set xs \<Longrightarrow> b \<in> set xs \<Longrightarrow> lt a b = lt' a b" and w: "strict_weak lt' xs"
  shows "strict_weak lt xs"
proof -
  have "(lt x y \<and> lt y z \<longrightarrow> lt x z) \<and> (\<not> lt x y \<and> \<not> lt y x \<and> \<not> lt y z \<and> \<not> lt z y \<longrightarrow> \<not> lt x z \<and> \<not> lt z x)"
    if "x \<in> set xs" "y \<in> set xs" "z \<in> set xs" for x y z
    unfolding e [OF that(1,2)] e [OF that(2,1)] e [OF that(2,3)] e [OF that(3,2)] e [OF that(1,3)] e [OF that(3,1)]
    using w that unfolding strict_weak_def list_all_iff by blast
  moreover have "\<not> lt x x" if "x \<in> set xs" for x unfolding e [OF that that] using w that by (simp add: strict_weak_def list_all_iff)
  ultimately show ?thesis unfolding strict_weak_def list_all_iff by blast
qed

text \<open>Names that are all numbers, or none of them, can be ordered.\<close>

definition names_sortable :: "string list \<Rightarrow> bool" where
  "names_sortable names \<longleftrightarrow> list_all (\<lambda>x. lexical_cast_int x \<noteq> None) names \<or> list_all (\<lambda>x. lexical_cast_int x = None) names"

lemma alpha_weak:
  assumes "names_sortable (map nm xs)"
  shows "strict_weak (\<lambda>a b. alpha_less (nm a) (nm b)) xs"
proof -
  consider "\<forall>x \<in> set xs. lexical_cast_int (nm x) \<noteq> None" | "\<forall>x \<in> set xs. lexical_cast_int (nm x) = None"
    using assms by (auto simp: names_sortable_def list_all_iff)
  then show ?thesis
  proof cases
    case 1
    show ?thesis
    proof (rule strict_weak_cong)
      show "strict_weak (\<lambda>a b. the (lexical_cast_int (nm a)) < the (lexical_cast_int (nm b))) xs" by (rule linear_weak [OF int_linear(1)])
    qed (use 1 in \<open>auto simp: alpha_less_def split: option.splits\<close>)
  next
    case 2
    show ?thesis
      by (rule strict_weak_cong [OF _ linear_weak [OF caseIns_linear(1)]]) (use 2 in \<open>auto simp: alpha_less_def\<close>)
  qed
qed

lemma order_nodes_defined:
  assumes "ord = ORD_ALPHA \<Longrightarrow> \<not> aliases \<Longrightarrow> names_sortable (map (\<lambda>n. nd_name (ndata n)) ns)"
  shows "order_nodes sorter aliases ord i ns \<noteq> Some (Inl (Undefined_behaviour ''std::sort''))"
proof -
  have sort: "strict_weak lt ms \<Longrightarrow> std_sort sorter lt ms \<noteq> Some (Inl (Undefined_behaviour ''std::sort''))" for lt ms
    by (simp add: std_sort_def)
  show ?thesis
  proof (cases ord)
    case ORD_ALPHA
    have "strict_weak (\<lambda>a b. (if aliases then caseInsLess else alpha_less) (nd_name (ndata a)) (nd_name (ndata b))) ns"
      using assms ORD_ALPHA alpha_weak [of "\<lambda>n. nd_name (ndata n)" ns] linear_weak [OF caseIns_linear(1), of "\<lambda>n. nd_name (ndata n)" ns]
      by (cases aliases) simp_all
    with sort ORD_ALPHA show ?thesis by (simp add: order_nodes_def)
  next
    case ORD_ORDER
    then show ?thesis using sort linear_weak [OF caseIns_linear(2), of "\<lambda>n. nd_name (ndata n)" ns] by (simp add: order_nodes_def)
  next
    case ORD_RUNTIME
    then show ?thesis using sort linear_weak [OF int_linear(2), of "\<lambda>n. nd_sc_rt (ndata n)"] by (simp add: order_nodes_def)
  qed (simp_all add: order_nodes_def)
qed

section \<open>The loop over the paths\<close>

lemma for_paths_ok:
  assumes "\<And>path st. I st \<Longrightarrow> \<exists>r st'. f path st = run_ret (r, st') \<and> I st'"
  shows "I st \<Longrightarrow> \<exists>r st'. for_paths f paths msg st = run_ret (r, st') \<and> I st'"
proof (induction paths arbitrary: msg st)
  case (Cons path paths)
  obtain r st' where s: "f path st = run_ret (r, st')" "I st'" using assms [OF Cons.prems] by blast
  with Cons.IH [OF s(2)] show ?case by (cases r) simp_all
qed simp

text \<open>A step on the node of a path, in a tree in good order.\<close>

lemma at_path_ok:
  assumes o: "in_order (bs_server b)" and f: "\<And>p k. kind_at (bs_server b) p = Some k \<Longrightarrow> ordered (f p b)"
  shows "ordered (at_path msg0 f path b)"
proof (cases "findAbsNode (sv_defs (bs_server b)) path")
  case (Some p)
  then show ?thesis using found_kind [OF Some] f by (auto simp: at_path_def)
qed (simp add: at_path_def ordered_ret o)

lemma paths_ok:
  assumes "in_order (bs_server b)" "\<And>path b. in_order (bs_server b) \<Longrightarrow> ordered (f path b)"
  shows "ordered (for_paths f paths msg b)"
  using for_paths_ok [where I = "\<lambda>b. in_order (bs_server b)", of f b paths msg] assms unfolding ordered_def by blast

lemma at_paths_ok:
  assumes o: "in_order (bs_server b)"
    and f: "\<And>b p k path. in_order (bs_server b) \<Longrightarrow> kind_at (bs_server b) p = Some k \<Longrightarrow> ordered (f path p b)"
  shows "ordered (for_paths (\<lambda>path. at_path msg0 (f path) path) paths msg b)"
  by (rule paths_ok [OF o]) (rule at_path_ok, assumption, rule f)

text \<open>A step on the node of a path that leaves the tree.\<close>

lemma safe_paths_ok:
  assumes o: "in_order (bs_server b)"
    and f: "\<And>b p k path. in_order (bs_server b) \<Longrightarrow> kind_at (bs_server b) p = Some k \<Longrightarrow> safe_run path_server (bs_server b) (f path p b)"
  shows "ordered (for_paths (\<lambda>path. at_path msg0 (f path) path) paths msg b)"
  by (rule at_paths_ok [OF o]) (rule safe_ordered, assumption, rule f)

lemma force_path_ok:
  assumes "in_order (bs_server b)" "greg_weekly (en_greg e)"
  shows "ordered (force_path w e c path b)"
proof -
  have "ordered (at_path msg0 (force_node w e c x) q b)" for msg0 x q
    by (rule at_path_ok [OF assms(1)], rule safe_ordered [OF assms(1)], rule safe_force_node [OF kind_ready [OF assms(1)] assms(2)])
  with ordered_ret [OF assms(1)] show ?thesis by (simp add: force_path_def case_prod_beta' Let_def)
qed

lemma requeue_at_path_ok:
  assumes o: "in_order (bs_server (snd st))" and e: "greg_weekly (en_greg e)"
  shows "\<exists>r st'. requeue_at_path w e opt path st = run_ret (r, st') \<and> in_order (bs_server (snd st'))"
proof -
  obtain args b where st: "st = (args, b)" by (cases st)
  have w: "\<exists>r st'. with_args f (args, b1) = run_ret (r, st') \<and> in_order (bs_server (snd st'))"
    if "in_order (bs_server b1)" "safe_run snd (bs_server b1) (f (args, bs_server b1))" for f and b1 :: base_server
    using that in_order_keeps [OF that(1)] by (auto simp: with_args_def safe_run_def)
  show ?thesis
  proof (cases "findAbsNode (sv_defs (bs_server b)) path")
    case None
    with o st show ?thesis by (simp add: requeue_at_path_def)
  next
    case (Some p)
    then obtain k where k: "kind_at (bs_server b) p = Some k" using found_kind by blast
    have ob: "in_order (bs_server b)" using o st by simp
    note w1 = w [where f = "requeue_whole e p"] and w2 = w [where f = "requeue_aborted_tasks e p"]
    have r: "\<exists>r st'. with_args (requeue_whole e p) (args, b1) = run_ret (r, st') \<and> in_order (bs_server (snd st'))"
      if "in_order (bs_server b1)" "kind_at (bs_server b1) p = Some k" for b1
      by (rule w1 [OF that(1) safe_requeue_whole [OF that e]])
    have a: "\<exists>r st'. with_args (requeue_aborted_tasks e p) (args, b) = run_ret (r, st') \<and> in_order (bs_server (snd st'))"
      by (rule w2 [OF ob safe_requeue_aborted_tasks [OF ob k e]])
    obtain b1 where b1: "with_zombie_list (add_user_zombies_node w ''requeue'' (Some p)) b = run_ret b1"
      "keeps (bs_server b) (bs_server b1)" "in_order (bs_server b1)"
      using forced_zombies [OF ob k, of True] by auto
    have f: "\<exists>r st'. run_bind (with_zombie_list (add_user_zombies_node w ''requeue'' (Some p)) b) (\<lambda>b1. with_args (requeue_whole e p) (args, b1))
        = run_ret (r, st') \<and> in_order (bs_server (snd st'))"
      using b1(1) r [OF b1(3)] kind_at_keeps [OF b1(2)] k by simp
    show ?thesis
      using Some ob r [OF ob k] a f unfolding st by (cases opt) (simp_all add: requeue_at_path_def)
  qed
qed

section \<open>The commands\<close>

text \<open>What two commands need: the paths to archive are written as the nodes answer, and the names to be sorted are all numbers or all
  not.\<close>

fun user_ready :: "server \<Rightarrow> user_cmd \<Rightarrow> bool" where
  "user_ready s (ArchiveCmd force paths) \<longleftrightarrow> list_all (canonical_path s) paths"
| "user_ready s (OrderNodeCmd path ord) \<longleftrightarrow>
     (case findAbsNode (sv_defs s) path of
        None \<Rightarrow> True
      | Some p \<Rightarrow> ord \<noteq> ORD_ALPHA \<or> names_sortable (map (\<lambda>n. nd_name (ndata n)) (children_at (sv_suites s) (butlast p))))"
| "user_ready s _ \<longleftrightarrow> True"

lemma order_command_ok:
  assumes o: "in_order (bs_server b)" and st: "sorter_ok sorter" and r: "user_ready (bs_server b) (OrderNodeCmd path ord)"
    and p: "findAbsNode (sv_defs (bs_server b)) path = Some p"
  shows "ordered (order_in sorter ord p b)"
proof -
  let ?ns = "children_at (sv_suites (bs_server b)) (butlast p)"
  obtain n where n: "node_at (sv_suites (bs_server b)) p = Some n" using found_node [OF p] by blast
  have "order_nodes sorter aliases ord i ?ns \<noteq> Some (Inl (Undefined_behaviour ''std::sort''))" for aliases i
    by (rule order_nodes_defined) (use r p in auto)
  moreover have "p ! (length p - 1) < length ?ns" by (rule child_index [OF n])
  ultimately have "order_in sorter ord p b \<noteq> Some (Inl (Undefined_behaviour ''std::sort''))"
    by (auto simp: order_in_def children_at_def [symmetric] Let_def run_bind_def split: option.splits sum.splits if_splits)
  with order_in_ok [OF o n st] show ?thesis by blast
qed

lemma user_paths_ok:
  assumes o: "in_order (bs_server b)" and e: "greg_weekly (en_greg e)" and st: "sorter_ok sorter" and r: "user_ready (bs_server b) c"
  shows "ordered (user_paths w sorter e a c b)"
proof (cases c)
  case (ForceCmd f paths)
  with o show ?thesis by (simp add: user_paths_def Let_def ordered_ret paths_ok force_path_ok e)
next
  case (RequeueNodeCmd opt paths)
  from for_paths_ok [where I = "\<lambda>st. in_order (bs_server (snd st))" and f = "requeue_at_path (zombies_world w a) e opt"
      and st = "(user_requeue_args, b)", OF requeue_at_path_ok [OF _ e], of paths "[]"] o
  obtain x st' where "for_paths (requeue_at_path (zombies_world w a) e opt) paths [] (user_requeue_args, b) = run_ret (x, st')"
    "in_order (bs_server (snd st'))" by auto
  with RequeueNodeCmd show ?thesis by (simp add: user_paths_def Let_def ordered_def case_prod_beta')
next
  case (RunNodeCmd force paths)
  show ?thesis unfolding RunNodeCmd user_paths_def Let_def user_cmd.case by (rule safe_paths_ok [OF o]) (rule safe_run_command [OF _ _ e])
next
  case (DeleteCmd force paths)
  have "ordered (for_paths (\<lambda>path. at_path ''DeleteCmd:Delete: Could not find node at path '' (delete_node (zombies_world w a) force) path) paths [] b)"
    by (rule at_paths_ok [OF o]) (rule delete_node_ok)
  with o DeleteCmd show ?thesis by (simp add: user_paths_def Let_def delete_all_ok)
next
  case (SuspendCmd paths)
  show ?thesis unfolding SuspendCmd user_paths_def Let_def user_cmd.case by (rule safe_paths_ok [OF o]) (rule safe_suspend [OF kind_ready])
next
  case (ResumeCmd paths)
  show ?thesis unfolding ResumeCmd user_paths_def Let_def user_cmd.case by (rule safe_paths_ok [OF o]) (rule safe_resume [OF kind_ready])
next
  case (KillCmd paths)
  show ?thesis unfolding KillCmd user_paths_def Let_def user_cmd.case by (rule safe_paths_ok [OF o]) (rule safe_kill_command)
next
  case (ArchiveCmd force paths)
  with o r show ?thesis by (simp add: user_paths_def Let_def archive_command_ok)
next
  case (FreeDepCmd f paths)
  show ?thesis unfolding FreeDepCmd user_paths_def Let_def user_cmd.case by (rule safe_paths_ok [OF o]) (rule safe_free_dep [OF kind_ready])
next
  case (OrderNodeCmd path ord)
  with o r order_command_ok [OF o st] show ?thesis
    by (cases "findAbsNode (sv_defs (bs_server b)) path") (auto simp: user_paths_def Let_def ordered_ret)
qed

lemma UserCmd_ok:
  assumes ok: "as_ok a" and e: "greg_weekly (en_greg e)" and st: "sorter_ok sorter" and r: "user_ready (as_defs a) c"
  shows "\<exists>x a'. UserCmd_doHandleRequest w sorter e c a = run_ret (x, a') \<and> as_ok a' \<and> as_serverState a' = as_serverState a"
proof -
  have "in_order (as_defs a)" using ok by (simp add: as_ok_def)
  then obtain y b where u: "user_paths w sorter e a c (as_base a) = run_ret (y, b)" "in_order (bs_server b)"
    using user_paths_ok [OF _ e st r, of w a] by (auto simp: ordered_def)
  let ?a = "a\<lparr>as_base := b\<rparr>"
  have a1: "as_ok ?a" by (rule as_ok_same [OF ok]) (simp_all add: u(2))
  obtain a' where "doJobSubmission w e ?a = run_ret (Replied Reply_ok, a')" "as_ok a'" "as_serverState a' = as_serverState ?a"
    using job_submission_ok [OF a1 e] by blast
  with u(1) a1 show ?thesis by (cases y) (auto simp: UserCmd_doHandleRequest_def Let_def)
qed

lemma UserCmd_handled:
  assumes "as_ok a" "greg_weekly (en_greg e)" "sorter_ok sorter" "user_ready (as_defs a) c"
  shows "\<exists>x a'. UserCmd_handleRequest w sorter dk e c a = run_ret (x, a') \<and> as_ok a'"
  using UserCmd_ok [OF assms, of w] save_keeps(1) by (fastforce simp: UserCmd_handleRequest_def split: outcome.splits)

end
