(* ===== verification/Command_Effects.thy ===== *)
theory Command_Effects
  imports Command_Run
begin

text \<open>
  What user commands do to the nodes they name: a delete takes away the nodes below a path and leaves the others where their paths
  find them; an order permutes the children of a node and sorts them; and where the commands do not do what they mean to.
\<close>

section \<open>Nodes by their names\<close>

text \<open>The data of the node that a list of names leads to.\<close>

fun named :: "node list \<Rightarrow> string list \<Rightarrow> node_data option" where
  "named ns [] = None"
| "named ns (s # us) =
     (case child_pos s ns of
        None \<Rightarrow> None
      | Some j \<Rightarrow> if us = [] then Some (ndata (ns ! j)) else named (kids (ns ! j)) us)"

lemma named_find_down: "named ns us = (case find_down ns us of None \<Rightarrow> None | Some q \<Rightarrow> map_option ndata (node_at ns q))"
proof (induction ns us rule: named.induct)
  case (2 ns s us)
  show ?case
  proof (cases "child_pos s ns")
    case (Some j)
    note j = child_pos_Some [OF Some]
    show ?thesis
    proof (cases "find_down (kids (ns ! j)) us")
      case None
      with 2 Some j show ?thesis by simp
    next
      case q: (Some q)
      then have "q \<noteq> []" using find_down_sound [OF q] by auto
      with 2 Some j q show ?thesis by simp
    qed
  qed simp
qed simp

lemma named_findAbsNode:
  "named (df_suites d) (NodePath_split path) =
     (case findAbsNode d path of None \<Rightarrow> None | Some q \<Rightarrow> map_option ndata (node_at (df_suites d) q))"
  by (simp add: named_find_down findAbsNode_eq)

lemma child_pos_names: "map node_name ns' = map node_name ns \<Longrightarrow> child_pos s ns' = child_pos s ns"
proof (induction ns arbitrary: ns')
  case (Cons n ns)
  then obtain n' ms where "ns' = n' # ms" "node_name n' = node_name n" "map node_name ms = map node_name ns" by auto
  with Cons.IH [of ms] show ?case by simp
qed simp

text \<open>A change of the data of one node that keeps its name.\<close>

lemma named_put:
  assumes "node_at ns q = Some n" "nd_name nd = nd_name (ndata n)"
  shows "(named (put_data nd ns q) us = None \<longleftrightarrow> named ns us = None) \<and>
    (\<not> prefix us (path_names ns q) \<longrightarrow> named (put_data nd ns q) us = named ns us)"
  using assms(1)
proof (induction ns q arbitrary: us rule: node_at.induct)
  case (2 ns i q)
  then have i: "i < length ns" by (auto split: if_splits)
  let ?m = "if q = [] then Node nd (kids (ns ! i)) else Node (ndata (ns ! i)) (put_data nd (kids (ns ! i)) q)"
  have m: "node_name ?m = node_name (ns ! i)" using "2.prems" i assms(2) by (auto split: if_splits)
  have c: "child_pos s (ns[i := ?m]) = child_pos s ns" for s
    by (rule child_pos_names) (metis list_update_id m map_update)
  show ?case
  proof (cases us)
    case (Cons s ts)
    show ?thesis
    proof (cases "child_pos s ns = Some i")
      case True
      note j = child_pos_Some [OF True]
      show ?thesis
      proof (cases "q = []")
        case True
        with Cons c i j \<open>child_pos s ns = Some i\<close> show ?thesis by auto
      next
        case False
        then have "node_at (kids (ns ! i)) q = Some n" using "2.prems" i by simp
        from "2.IH" [OF i False this, of ts] False Cons c i j \<open>child_pos s ns = Some i\<close> show ?thesis by auto
      qed
    next
      case False
      have "(ns[i := ?m]) ! j = ns ! j" if "child_pos s ns = Some j" for j using False that by (cases "j = i") auto
      then have "named (ns[i := ?m]) us = named ns us" using c Cons by (auto split: option.split)
      with i show ?thesis by simp
    qed
  qed (use i in simp)
qed simp

section \<open>Delete\<close>

lemma child_pos_none: "s \<notin> set (map node_name ns) \<Longrightarrow> child_pos s ns = None"
  by (induction ns) auto

lemma child_pos_append:
  "map_option ((!) (xs @ ys)) (child_pos s (xs @ ys)) =
     (case child_pos s xs of Some j \<Rightarrow> Some (xs ! j) | None \<Rightarrow> map_option ((!) ys) (child_pos s ys))"
proof (induction xs)
  case (Cons x xs)
  have "map_option ((!) ((x # xs) @ ys)) (map_option Suc k) = map_option ((!) (xs @ ys)) k" for k by (cases k) simp_all
  with Cons show ?case by (cases "child_pos s xs") auto
qed simp

lemma child_split:
  assumes "distinct (map node_name (xs @ n # ys))"
  shows "map_option ((!) (xs @ ys)) (child_pos s (xs @ ys)) =
    (if s = node_name n then None else map_option ((!) (xs @ n # ys)) (child_pos s (xs @ n # ys)))"
proof -
  have "map_option ((!) (n # ys)) (map_option Suc k) = map_option ((!) ys) k" for k by (cases k) simp_all
  with assms child_pos_none [of "node_name n" xs] child_pos_none [of "node_name n" ys] show ?thesis
    unfolding child_pos_append by (auto split: option.split)
qed

lemma child_erase:
  assumes "distinct (map node_name ns)" "i < length ns"
  shows "map_option ((!) (erase_at i ns)) (child_pos s (erase_at i ns)) =
    (if s = node_name (ns ! i) then None else map_option ((!) ns) (child_pos s ns))"
  using child_split [of "take i ns" "ns ! i" "drop (Suc i) ns" s] assms unfolding erase_at_def id_take_nth_drop [OF assms(2), symmetric] by blast

lemma named_Cons:
  "named ns (s # us) =
     (case map_option ((!) ns) (child_pos s ns) of None \<Rightarrow> None | Some n \<Rightarrow> if us = [] then Some (ndata n) else named (kids n) us)"
  by (simp split: option.split)

lemma named_erase:
  assumes "nodes_ok ns" "node_at ns p = Some n"
  shows "named (erase_node ns p) us = (if prefix (path_names ns p) us then None else named ns us)"
  using assms
proof (induction ns p arbitrary: us rule: node_at.induct)
  case (2 ns i p)
  then have i: "i < length ns" by (auto split: if_splits)
  have d: "distinct (map node_name ns)" using "2.prems"(1) by (simp add: nodes_ok_def)
  show ?case
  proof (cases us)
    case Nil
    with i show ?thesis by simp
  next
    case (Cons s ts)
    show ?thesis
    proof (cases "p = []")
      case True
      then have "erase_node ns (i # p) = erase_at i ns" using i by simp
      then have "named (erase_node ns (i # p)) us = (case map_option ((!) (erase_at i ns)) (child_pos s (erase_at i ns)) of None \<Rightarrow> None
          | Some n \<Rightarrow> if ts = [] then Some (ndata n) else named (kids n) ts)" by (simp only: Cons named_Cons)
      also have "\<dots> = (if s = node_name (ns ! i) then None else named ns us)"
        unfolding child_erase [OF d i] unfolding Cons named_Cons by simp
      finally show ?thesis using True i Cons by simp
    next
      case False
      let ?m = "Node (ndata (ns ! i)) (erase_node (kids (ns ! i)) p)"
      have e: "erase_node ns (i # p) = ns[i := ?m]" using i False by simp
      have c: "child_pos s (ns[i := ?m]) = child_pos s ns"
        by (rule child_pos_names) (metis list_update_id map_update node.sel(1))
      have k: "named (erase_node (kids (ns ! i)) p) vs = (if prefix (path_names (kids (ns ! i)) p) vs then None else named (kids (ns ! i)) vs)" for vs
        by (rule "2.IH" [OF i False]) (use "2.prems" i False node_ok_kids [OF nodes_ok_nth [OF "2.prems"(1) i]] in simp_all)
      have ne: "path_names (kids (ns ! i)) p \<noteq> []" using "2.prems"(2) i False path_names_not_Nil [of "kids (ns ! i)" p] by simp
      show ?thesis
      proof (cases "child_pos s ns = Some i")
        case True
        with k [of ts] ne i c e Cons child_pos_Some [OF True] show ?thesis by (auto simp: prefix_Cons)
      next
        case other: False
        have "s \<noteq> node_name (ns ! i)" using other child_pos_nth [OF d i] by auto
        moreover have "(ns[i := ?m]) ! j = ns ! j" if "child_pos s ns = Some j" for j using other that by (cases "j = i") auto
        ultimately show ?thesis using c e i Cons by (auto split: option.split)
      qed
    qed
  qed
qed simp

text \<open>The walk that settles the states above the deleted node.\<close>

definition same_names :: "string list \<Rightarrow> node list \<Rightarrow> node list \<Rightarrow> bool" where
  "same_names anc ns ns' \<longleftrightarrow>
     (\<forall>us. (named ns' us = None \<longleftrightarrow> named ns us = None) \<and> (\<not> prefix us anc \<longrightarrow> named ns' us = named ns us))"

lemma same_names_refl [simp]: "same_names anc ns ns"
  by (simp add: same_names_def)

lemma same_names_trans: "same_names anc ns ns1 \<Longrightarrow> same_names anc' ns1 ns2 \<Longrightarrow> prefix anc' anc \<Longrightarrow> same_names anc ns ns2"
  unfolding same_names_def by (metis prefix_order.trans)

lemma setStateOnly_name: "nd_name (fst (setStateOnly dur st force nd g)) = nd_name nd"
  by (simp add: setStateOnly_def Let_def case_prod_beta)

lemma settle_names:
  assumes "node_at (df_suites d) q = Some n" "settle_node dur q n d g = (d1, g1)"
  shows "same_names (path_names (df_suites d) q) (df_suites d) (df_suites d1)" "path_names (df_suites d1) r = path_names (df_suites d) r"
proof -
  let ?nd = "fst (setStateOnly dur (computedState_immediate n) False (ndata n) g)"
  have "d1 = d \<or> df_suites d1 = put_data ?nd (df_suites d) q" "nd_name ?nd = nd_name (ndata n)"
    using assms(2) setStateOnly_name by (auto simp: settle_node_def Let_def split: if_splits prod.splits)
  then show "same_names (path_names (df_suites d) q) (df_suites d) (df_suites d1)" "path_names (df_suites d1) r = path_names (df_suites d) r"
    using named_put [OF assms(1), of ?nd] path_names_put [OF assms(1), of ?nd r] by (auto simp: same_names_def)
qed

lemma path_names_butlast: "node_at ns q = Some n \<Longrightarrow> prefix (path_names ns (butlast q)) (path_names ns q)"
proof (induction ns q rule: node_at.induct)
  case (2 ns i q)
  then show ?case by (cases "q = []") (auto split: if_splits)
qed simp

lemma walk_names:
  "q = [] \<or> (\<exists>n. node_at (df_suites d) q = Some n) \<Longrightarrow>
     same_names (path_names (df_suites d) q) (df_suites d) (df_suites (fst (set_most_significant_state_up_node_tree dur q d g)))"
proof (induction "length q" arbitrary: q d g rule: less_induct)
  case less
  show ?case
  proof (cases "q = []")
    case True
    then show ?thesis by (simp add: up_node_tree_top Defs_set_most_significant_state_def Let_def case_prod_beta')
  next
    case False
    then obtain n where n: "node_at (df_suites d) q = Some n" using less.prems by blast
    obtain d1 g1 where s: "settle_node dur q n d g = (d1, g1)" by fastforce
    have b: "butlast q = [] \<or> (\<exists>m. node_at (df_suites d1) (butlast q) = Some m)"
      using node_at_butlast [OF n] settle_node_effect(3) [OF n s] by blast
    have "same_names (path_names (df_suites d1) (butlast q)) (df_suites d1)
        (df_suites (fst (set_most_significant_state_up_node_tree dur (butlast q) d1 g1)))"
      by (rule less.hyps [OF _ b]) (use False in simp)
    moreover have "prefix (path_names (df_suites d1) (butlast q)) (path_names (df_suites d) q)"
      unfolding settle_names(2) [OF n s] by (rule path_names_butlast [OF n])
    ultimately show ?thesis using same_names_trans [OF settle_names(1) [OF n s]] by (simp add: up_node_tree_unfold [OF n] s)
  qed
qed

lemma path_names_erase:
  "node_at ns p = Some n \<Longrightarrow> path_names (erase_node ns p) (butlast p) = path_names ns (butlast p)"
proof (induction ns p rule: node_at.induct)
  case (2 ns i p)
  then show ?case by (cases "p = []") (auto split: if_splits)
qed simp

lemma node_at_erase:
  "node_at ns p = Some n \<Longrightarrow> butlast p \<noteq> [] \<Longrightarrow> \<exists>m. node_at (erase_node ns p) (butlast p) = Some m"
proof (induction ns p rule: node_at.induct)
  case (2 ns i p)
  then show ?case by (cases "p = []"; cases "butlast p = []") (auto split: if_splits)
qed simp

text \<open>C7. A delete without force is carried out only when no task below the path is submitted or active. It takes away exactly the nodes at
  and below the path; every other node is still found by its path, and keeps its data unless it is above the path.\<close>

theorem delete_takes_subtree:
  assumes "delete_node w False p b = run_ret (Path_done, b')" "nodes_ok (sv_suites (bs_server b))"
    "findAbsNode (sv_defs (bs_server b)) path = Some p"
  shows "\<not> tasks_in {NS_ACTIVE, NS_SUBMITTED} (bs_server b) p \<and>
    (let ns = sv_suites (bs_server b); ns' = sv_suites (bs_server b'); names = NodePath_split path
     in if prefix names us then named ns' us = None
        else (named ns' us = None \<longleftrightarrow> named ns us = None) \<and> (prefix us names \<or> named ns' us = named ns us))"
proof -
  let ?s = "bs_server b" and ?ns = "erase_node (sv_suites (bs_server b)) p" and ?q = "butlast p"
  have b': "\<not> tasks_in {NS_ACTIVE, NS_SUBMITTED} ?s p" "bs_server b' = deleteChild p ?s"
    using assms(1) by (auto simp: delete_node_def split: if_splits)
  have p: "find_down (sv_suites ?s) (NodePath_split path) = Some p" using assms(3) by (simp add: findAbsNode_eq)
  then obtain n where n: "node_at (sv_suites ?s) p = Some n" "path_names (sv_suites ?s) p = NodePath_split path"
    using find_down_sound by blast
  have "same_names (path_names (sv_suites ?s) p) ?ns (sv_suites (deleteChild p ?s))"
  proof (cases "?q = []")
    case True
    then show ?thesis
      by (simp add: deleteChild_def Defs_settle_def Defs_set_most_significant_state_def Let_def case_prod_beta' sv_put_def)
  next
    case False
    obtain m where m: "node_at (sv_suites ?s) ?q = Some m" using node_at_butlast [OF n(1)] False by blast
    let ?s1 = "sv_put ?ns (snd (incr_state_change_no (ls_ecf (sv_sys ?s)))) ?s"
    have "same_names (path_names ?ns ?q) ?ns (sv_suites (up_node_tree_at ?q ?s1))"
      using walk_names [of ?q "sv_defs ?s1"] node_at_erase [OF n(1) False] by (simp add: up_node_tree_at_def sv_put_def Let_def case_prod_beta')
    then have "same_names (path_names (sv_suites ?s) p) ?ns (sv_suites (up_node_tree_at ?q ?s1))"
      using same_names_trans [OF same_names_refl, of "path_names ?ns ?q" ?ns _ "path_names (sv_suites ?s) p"] path_names_butlast [OF n(1)]
        path_names_erase [OF n(1)] by simp
    with False m show ?thesis by (simp add: deleteChild_def Let_def sv_put_def)
  qed
  with named_erase [OF assms(2) n(1), of us] n(2) b' show ?thesis by (auto simp: same_names_def Let_def)
qed

section \<open>Order\<close>

lemma children_set_kids:
  "q = [] \<or> (\<exists>n. node_at ns q = Some n) \<Longrightarrow> children_at (set_kids ks ns q) q = ks"
proof (induction ks ns q rule: set_kids.induct)
  case (2 ks ns i q)
  then obtain n where n: "node_at ns (i # q) = Some n" by blast
  then have i: "i < length ns" by (auto split: if_splits)
  show ?case
  proof (cases "q = []")
    case False
    then have "\<exists>m. node_at (kids (ns ! i)) q = Some m" using n i by simp
    from "2.IH" [OF i disjI2, OF this] i False show ?thesis by (simp add: children_at_def)
  qed (use i in \<open>simp add: children_at_def\<close>)
qed (simp add: children_at_def)

lemma children_put_data: "children_at (put_data nd ns q) q = children_at ns q"
proof (cases "node_at ns q")
  case None
  have "node_at (put_data nd ns q) q = None" using None
    by (induction nd ns q rule: put_data.induct) (auto split: if_splits)
  with None show ?thesis by (cases "q = []") (simp_all add: children_at_def)
next
  case (Some n)
  with node_at_put_same [OF Some] show ?thesis by (cases "q = []") (simp_all add: children_at_def)
qed

text \<open>What an order is to come to: the comparison that the names or runtimes are sorted by, and the move of one child.\<close>

fun order_rel :: "NOrder \<Rightarrow> node \<Rightarrow> node \<Rightarrow> bool" where
  "order_rel ORD_ALPHA a b = alpha_less (nd_name (ndata a)) (nd_name (ndata b))"
| "order_rel ORD_ORDER a b = caseInsGreater (nd_name (ndata a)) (nd_name (ndata b))"
| "order_rel ORD_RUNTIME a b = (nd_sc_rt (ndata a) > nd_sc_rt (ndata b))"
| "order_rel _ a b = False"

lemma std_sort_result: "sorter_ok sorter \<Longrightarrow> std_sort sorter lt ns = run_ret (c, ns1) \<Longrightarrow>
    mset ns1 = mset ns \<and> sorted_wrt (\<lambda>x y. \<not> lt y x) ns1"
  by (auto simp: std_sort_def sorter_ok_def split: if_splits)

lemma order_nodes_result:
  assumes st: "sorter_ok sorter" and i: "i < length ns" and r: "order_nodes sorter False ord i ns = run_ret (c, ns1)"
    and rt: "ord = ORD_RUNTIME \<Longrightarrow> \<not> list_ex (\<lambda>n. node_state n \<noteq> NS_COMPLETE) ns"
  shows "mset (map (nd_name \<circ> ndata) ns1) = mset (map (nd_name \<circ> ndata) ns) \<and> sorted_wrt (\<lambda>x y. \<not> order_rel ord y x) ns1 \<and>
    (ord = ORD_TOP \<longrightarrow> ns1 ! 0 = ns ! i) \<and> (ord = ORD_BOTTOM \<longrightarrow> ns1 ! (length ns - 1) = ns ! i)"
proof -
  have sum: "nd_name (ndata (snd (sum_runtime n))) = nd_name (ndata n)" for n
    by (cases n) (simp add: Let_def)
  have "sorted_wrt (\<lambda>x y. True) ns1" by (induction ns1) simp_all
  note moved = this
  have names: "mset xs = mset ys \<Longrightarrow> mset (map (nd_name \<circ> ndata) xs) = mset (map (nd_name \<circ> ndata) ys)" for xs ys by simp
  show ?thesis
  proof (cases ord)
    case ORD_TOP
    with r names [OF mset_move(1) [OF i]] moved show ?thesis by (auto simp: order_nodes_def)
  next
    case ORD_BOTTOM
    have "length (erase_at i ns) = length ns - 1" using i by (simp add: erase_at_def)
    with ORD_BOTTOM r names [OF mset_move(2) [OF i]] moved show ?thesis by (auto simp: order_nodes_def nth_append)
  next
    case ORD_UP
    with r i names [OF mset_swap [of i ns "i - 1"]] moved show ?thesis by (auto simp: order_nodes_def split: if_splits)
  next
    case ORD_DOWN
    with r i names [OF mset_swap [of i ns "Suc i"]] moved show ?thesis by (auto simp: order_nodes_def split: if_splits)
  next
    case ORD_ALPHA
    with r std_sort_result [OF st] show ?thesis by (fastforce simp: order_nodes_def)
  next
    case ORD_ORDER
    with r std_sort_result [OF st] show ?thesis by (fastforce simp: order_nodes_def)
  next
    case ORD_RUNTIME
    then have "std_sort sorter (\<lambda>a b. nd_sc_rt (ndata a) > nd_sc_rt (ndata b)) (map (\<lambda>n. snd (sum_runtime n)) ns) = run_ret (c, ns1)"
      using r rt by (simp add: order_nodes_def)
    from std_sort_result [OF st this] names [of ns1 "map (\<lambda>n. snd (sum_runtime n)) ns"] sum ORD_RUNTIME show ?thesis by (simp add: comp_def)
  qed
qed

lemma parent_no_task:
  assumes "in_order s" "node_at (sv_suites s) p = Some n"
  shows "(case node_at (sv_suites s) (butlast p) of None \<Rightarrow> False | Some m \<Rightarrow> nd_kind (ndata m) = K_Task) = False"
proof (cases "butlast p = []")
  case False
  obtain u where u: "st_at (skels s) (butlast p) = Some u" "sk u \<in> {K_Suite, K_Family}"
    using below_containers_parent [OF in_order_node(2) [OF assms] False] by blast
  then show ?thesis using skels_node_at [OF u(1)] by fastforce
qed simp


section \<open>Examples\<close>

text \<open>A sort for the witnesses: insertion.\<close>

fun insert_by :: "(node \<Rightarrow> node \<Rightarrow> bool) \<Rightarrow> node \<Rightarrow> node list \<Rightarrow> node list" where
  "insert_by lt x [] = [x]"
| "insert_by lt x (y # ys) = (if lt y x then y # insert_by lt x ys else x # y # ys)"

definition insertion_sort :: sorter where
  "insertion_sort lt ns = foldr (insert_by lt) ns []"

lemma insert_by_mset [simp]: "mset (insert_by lt x ys) = add_mset x (mset ys)"
  by (induction ys) simp_all

lemma insert_by_set [simp]: "set (insert_by lt x ys) = insert x (set ys)"
  by (induction ys) auto

lemma insert_by_sorted:
  assumes "\<And>x. x \<in> A \<Longrightarrow> \<not> lt x x" "\<And>x y z. x \<in> A \<Longrightarrow> y \<in> A \<Longrightarrow> z \<in> A \<Longrightarrow> lt x y \<Longrightarrow> lt y z \<Longrightarrow> lt x z"
    "\<And>x y z. x \<in> A \<Longrightarrow> y \<in> A \<Longrightarrow> z \<in> A \<Longrightarrow> \<not> lt x y \<Longrightarrow> \<not> lt y x \<Longrightarrow> \<not> lt y z \<Longrightarrow> \<not> lt z y \<Longrightarrow> \<not> lt x z \<and> \<not> lt z x"
  shows "sorted_wrt (\<lambda>a b. \<not> lt b a) ys \<Longrightarrow> x \<in> A \<Longrightarrow> set ys \<subseteq> A \<Longrightarrow> sorted_wrt (\<lambda>a b. \<not> lt b a) (insert_by lt x ys)"
proof (induction ys)
  case (Cons y ys)
  have A: "x \<in> A" "y \<in> A" "set ys \<subseteq> A" using Cons.prems by auto
  show ?case
  proof (cases "lt y x")
    case True
    then have "\<not> lt x y" using assms(1,2) A by blast
    with Cons True show ?thesis by auto
  next
    case False
    have "\<not> lt z x" if "z \<in> set ys" for z
    proof
      assume z: "lt z x"
      have zA: "z \<in> A" using that A by auto
      have "\<not> lt z y" using Cons.prems(1) that by simp
      show False
      proof (cases "lt y z")
        case True
        then show ?thesis using assms(2) [OF A(2) zA A(1)] z False by blast
      next
        case n: False
        have "\<not> lt x y"
        proof
          assume "lt x y"
          then show False using assms(2) [OF zA A(1) A(2)] z \<open>\<not> lt z y\<close> by blast
        qed
        then show ?thesis using assms(3) [OF zA A(2) A(1)] n \<open>\<not> lt z y\<close> False z by blast
      qed
    qed
    with Cons.prems False show ?thesis by auto
  qed
qed simp

lemma insertion_sort_ok: "sorter_ok insertion_sort"
  unfolding sorter_ok_def
proof (intro allI impI conjI)
  fix lt :: "node \<Rightarrow> node \<Rightarrow> bool" and ns assume w: "strict_weak lt ns"
  show "mset (insertion_sort lt ns) = mset ns" by (induction ns) (simp_all add: insertion_sort_def)
  have sw: "\<And>x. x \<in> set ns \<Longrightarrow> \<not> lt x x" "\<And>x y z. x \<in> set ns \<Longrightarrow> y \<in> set ns \<Longrightarrow> z \<in> set ns \<Longrightarrow> lt x y \<Longrightarrow> lt y z \<Longrightarrow> lt x z"
    "\<And>x y z. x \<in> set ns \<Longrightarrow> y \<in> set ns \<Longrightarrow> z \<in> set ns \<Longrightarrow> \<not> lt x y \<Longrightarrow> \<not> lt y x \<Longrightarrow> \<not> lt y z \<Longrightarrow> \<not> lt z y \<Longrightarrow> \<not> lt x z \<and> \<not> lt z x"
    using w unfolding strict_weak_def list_all_iff by blast+
  have "set ms \<subseteq> set ns \<Longrightarrow> set (insertion_sort lt ms) = set ms \<and> sorted_wrt (\<lambda>a b. \<not> lt b a) (insertion_sort lt ms)" for ms
  proof (induction ms)
    case (Cons m ms)
    then have h: "set (insertion_sort lt ms) = set ms" "sorted_wrt (\<lambda>a b. \<not> lt b a) (insertion_sort lt ms)" by auto
    have "sorted_wrt (\<lambda>a b. \<not> lt b a) (insert_by lt m (insertion_sort lt ms))"
      by (rule insert_by_sorted [where A = "set ns"]) (fact sw | use h Cons.prems in simp)+
    with h show ?case by (simp add: insertion_sort_def)
  qed (simp add: insertion_sort_def)
  then show "sorted_wrt (\<lambda>a b. \<not> lt b a) (insertion_sort lt ns)" by blast
qed

lemma cancel_in_order: "in_order cancel_server"
  using cancel_server_ok(1,2) by (simp add: in_order_def cancel_server_def in_state_def mk_node_def quiet_server_def sv_put_def)

theorem delete_takes_subtree_witness:
  "\<exists>b. delete_node Child_Cmds.demo_world False [0, 0] demo_base = run_ret (Path_done, b) \<and>
     named (sv_suites (bs_server b)) [''s'', ''f'', ''a''] = None \<and> named (sv_suites (bs_server b)) [''s'', ''g'', ''b''] \<noteq> None"
proof -
  have t: "\<not> tasks_in {NS_ACTIVE, NS_SUBMITTED} cancel_server [0, 0]" by code_simp
  then obtain b where b: "delete_node Child_Cmds.demo_world False [0, 0] demo_base = run_ret (Path_done, b)"
    by (simp add: delete_node_def demo_base_def)
  have ok: "nodes_ok (sv_suites (bs_server demo_base))" by (simp add: demo_base_def) code_simp
  have f: "findAbsNode (sv_defs (bs_server demo_base)) ''/s/f'' = Some [0, 0]" by (simp add: demo_base_def) code_simp
  have "NodePath_split ''/s/f'' = [''s'', ''f'']" "named (sv_suites (bs_server demo_base)) [''s'', ''g'', ''b''] \<noteq> None" by code_simp+
  with delete_takes_subtree [OF b ok f, of "[''s'', ''f'', ''a'']"] delete_takes_subtree [OF b ok f, of "[''s'', ''g'', ''b'']"] b
  show ?thesis by (auto simp: Let_def)
qed

definition ordered_names :: "(path_result \<times> base_server) run \<Rightarrow> string list option" where
  "ordered_names r =
     (case r of Some (Inr (Path_done, b)) \<Rightarrow> Some (map (nd_name \<circ> ndata) (children_at (sv_suites (bs_server b)) [0])) | _ \<Rightarrow> None)"


section \<open>Where the commands go wrong\<close>

text \<open>\<open>ALPHA\<close> compares two numbers as numbers and other names as texts. That is no ordering, and \<open>std::sort\<close> is undefined on it.\<close>

lemma alpha_is_no_order: "\<not> strict_weak alpha_less [''9'', ''10'', ''1a'']"
  by code_simp

text \<open>A forced run of a task with a job: the task gets another password and loses the process id, but no new job; the job that runs becomes
  a zombie.\<close>

lemma forced_run_orphans_job:
  assumes "node_at (sv_suites s) p = Some n" "node_state n \<in> {NS_ACTIVE, NS_SUBMITTED}" "jp_createJobs jp"
  shows "\<exists>jp' s' m. Submittable_run w e True p (jp, s) = run_ret (jp', s') \<and> node_at (sv_suites s') p = Some m \<and>
    node_state m = node_state n \<and> jb_paswd (nd_job (ndata m)) = jw_password w p \<and> jb_rid (nd_job (ndata m)) = [] \<and> jp_submitted jp' = jp_submitted jp"
  using assms by (auto simp: Submittable_run_def submitJob_def submit_job_only_def on_data_def increment_try_no_def flag_set_def
      sv_put_def node_at_put_same add_error_def Let_def case_prod_beta')

text \<open>The arguments of a requeue are shared by all paths: a suspended task that comes after a family is resumed, on its own it is not.\<close>

definition held_base :: base_server where
  "held_base = demo_base\<lparr>bs_server := sv_put
     [in_state NS_QUEUED (\<lambda>nd. nd\<lparr>nd_suite := (nd_suite nd)\<lparr>su_begun := True, su_cal := Calendar_begin week_only 0 0 Calendar_default\<rparr>\<rparr>)
        (mk_node K_Suite ''s''
           [in_state NS_QUEUED (\<lambda>nd. nd) (mk_node K_Family ''f'' [in_state NS_QUEUED (\<lambda>nd. nd) (mk_node K_Task ''a'' [])]),
            in_state NS_QUEUED (\<lambda>nd. nd\<lparr>nd_suspended := True\<rparr>) (mk_node K_Task ''b'' [])])]
     server_counters quiet_server\<rparr>"

definition suspended_after :: "(path_result \<times> Requeue_args \<times> base_server) run \<Rightarrow> bool option" where
  "suspended_after r =
     (case r of
        Some (Inr (_, _, b)) \<Rightarrow> map_option (\<lambda>n. nd_suspended (ndata n)) (node_at (sv_suites (bs_server b)) [0, 1]) | _ \<Rightarrow> None)"

lemma requeue_resumes_later_path:
  "suspended_after (for_paths (requeue_at_path Child_Cmds.demo_world demo_env NO_OPTION) [''/s/b''] [] (user_requeue_args, held_base)) = Some True"
  "suspended_after (for_paths (requeue_at_path Child_Cmds.demo_world demo_env NO_OPTION) [''/s/f'', ''/s/b''] [] (user_requeue_args, held_base)) = Some False"
  by code_simp+

text \<open>\<open>ARCHIVE\<close> leaves out a container below another one of its paths, but not when that path ends in a slash: then the second
  container is gone when its turn comes.\<close>

lemma archive_overlap_missed:
  "map (fst \<circ> to_archive cancel_server [''/s'', ''/s/f'']) [''/s'', ''/s/f''] = [[[0]], []]"
  "map (fst \<circ> to_archive cancel_server [''/s/'', ''/s/f'']) [''/s/'', ''/s/f''] = [[[0]], [[0, 0]]]"
  by code_simp+

lemma archive_of_lost_container:
  "case archive_command Child_Cmds.demo_world demo_archive home_server True [''/s/'', ''/s/f''] demo_base of
     Some (Inl err) \<Rightarrow> err = Undefined_behaviour ''Node*'' | _ \<Rightarrow> False"
  by code_simp

end
