(* ===== verification/White_List.thy ===== *)
theory White_List
  imports Node_Tree "HOL-Library.Sublist" "HOL-Library.List_Lexorder" "HOL-Library.Char_ord"
begin

text \<open>
  Who may use the server: \<open>WhiteListFile.cpp\<close> and \<open>PasswdFile.cpp\<close> (\<open>ACore/src\<close>), with the checks of \<open>ServerEnvironment.cpp\<close> and
  of \<open>UserCmd.cpp\<close>. The lines of a file are an argument, \<open>None\<close> when it cannot be opened. The maps from users to paths are lists of
  pairs; \<open>encrypt\<close> stands for \<open>PasswordEncryption::encrypt\<close>, which calls \<open>crypt\<close>. The texts of error messages are
  shortened: the line and the name of the file are left out.
\<close>

section \<open>The white list\<close>

type_synonym path_map = "(string \<times> string list) list"

record white_list =
  wl_all_read :: bool
  wl_all_write :: bool
  wl_read :: path_map
  wl_write :: path_map

definition empty_white_list :: white_list where
  "empty_white_list = \<lparr>wl_all_read = False, wl_all_write = False, wl_read = [], wl_write = []\<rparr>"

text \<open>\<open>insert\<close> leaves a key that is there; the copies add to it.\<close>

definition map_insert :: "string \<Rightarrow> string list \<Rightarrow> path_map \<Rightarrow> path_map" where
  "map_insert u ps m = (if map_of m u = None then (u, ps) # m else m)"

definition map_append :: "string \<Rightarrow> string list \<Rightarrow> path_map \<Rightarrow> path_map" where
  "map_append u ps m =
     (if map_of m u = None then (u, ps) # m else map (\<lambda>(k, v). (k, if k = u then v @ ps else v)) m)"

text \<open>A path lies below an allowed one.\<close>

definition path_below :: "string \<Rightarrow> string \<Rightarrow> bool" where
  "path_below allowed path \<longleftrightarrow>
     take (length allowed) path = allowed \<and> \<not> (length path > length allowed \<and> path ! length allowed \<noteq> CHR ''/'')"

definition path_access_list :: "string list \<Rightarrow> string list \<Rightarrow> bool" where
  "path_access_list paths allowed_paths =
     (if allowed_paths = [] then True
      else if paths = [] then False
      else list_all (\<lambda>path. list_ex (\<lambda>a. path_below a path) allowed_paths) paths)"

definition path_access :: "string \<Rightarrow> string list \<Rightarrow> bool" where
  "path_access path allowed_paths =
     (if allowed_paths = [] then True
      else if path = [] then False
      else list_ex (\<lambda>a. path_below a path) allowed_paths)"

definition verify_path_access :: "(string list \<Rightarrow> bool) \<Rightarrow> string \<Rightarrow> path_map \<Rightarrow> bool" where
  "verify_path_access acc user m = (case map_of m user of None \<Rightarrow> False | Some allowed \<Rightarrow> acc allowed)"

text \<open>The six checks have one form: \<open>acc\<close> is the test of the paths.\<close>

definition verify_read_with :: "(string list \<Rightarrow> bool) \<Rightarrow> string \<Rightarrow> white_list \<Rightarrow> bool" where
  "verify_read_with acc user wl =
     (if wl_all_read wl then True
      else if wl_read wl = [] \<and> wl_write wl = [] then True
      else verify_path_access acc user (wl_read wl) \<or> verify_path_access acc ''*'' (wl_read wl) \<or>
           verify_path_access acc user (wl_write wl) \<or> verify_path_access acc ''*'' (wl_write wl))"

definition verify_write_with :: "(string list \<Rightarrow> bool) \<Rightarrow> string \<Rightarrow> white_list \<Rightarrow> bool" where
  "verify_write_with acc user wl =
     (if wl_all_write wl then True
      else if wl_read wl = [] \<and> wl_write wl = [] then True
      else verify_path_access acc user (wl_write wl) \<or> verify_path_access acc ''*'' (wl_write wl))"

definition verify_read_access_user :: "string \<Rightarrow> white_list \<Rightarrow> bool" where
  "verify_read_access_user = verify_read_with (\<lambda>_. True)"

definition verify_write_access_user :: "string \<Rightarrow> white_list \<Rightarrow> bool" where
  "verify_write_access_user = verify_write_with (path_access [])"

definition verify_read_access_path :: "string \<Rightarrow> string \<Rightarrow> white_list \<Rightarrow> bool" where
  "verify_read_access_path user path = verify_read_with (path_access path) user"

definition verify_write_access_path :: "string \<Rightarrow> string \<Rightarrow> white_list \<Rightarrow> bool" where
  "verify_write_access_path user path = verify_write_with (path_access path) user"

definition verify_read_access :: "string \<Rightarrow> string list \<Rightarrow> white_list \<Rightarrow> bool" where
  "verify_read_access user paths = verify_read_with (path_access_list paths) user"

definition verify_write_access :: "string \<Rightarrow> string list \<Rightarrow> white_list \<Rightarrow> bool" where
  "verify_write_access user paths = verify_write_with (path_access_list paths) user"

section \<open>Reading a white list\<close>

definition NUMERIC :: string where "NUMERIC = ''0123456789''"

text \<open>The version of a file: \<open>old\<close> says which versions are refused.\<close>

definition check_version :: "(int \<Rightarrow> int \<Rightarrow> int \<Rightarrow> bool) \<Rightarrow> string \<Rightarrow> string \<Rightarrow> string option" where
  "check_version old too_old line =
     (if line \<noteq> [] \<and> hd line \<in> set NUMERIC \<and> CHR ''.'' \<in> set line
      then let tokens = split line ''.''
           in if length tokens \<noteq> 3 then Some ''Expected version of the form <int>.<int>.<int>''
              else (case (lexical_cast_int (tokens ! 0), lexical_cast_int (tokens ! 1), lexical_cast_int (tokens ! 2)) of
                      (Some major, Some minor, Some part) \<Rightarrow> if old major minor part then Some too_old else None
                    | _ \<Rightarrow> Some ''Invalid version number'')
      else Some ''The version number not found. The version number must appear before the users.'')"

definition validateVersionNumber :: "string \<Rightarrow> string option" where
  "validateVersionNumber =
     check_version (\<lambda>major minor part. major < 4 \<or> major = 4 \<and> minor < 4 \<or> major = 4 \<and> minor = 4 \<and> part < 5)
       ''Only white list files with a version >= 4.4.5 is supported''"

text \<open>One word of a line on its own.\<close>

definition add_single :: "string \<Rightarrow> white_list \<Rightarrow> white_list" where
  "add_single user wl =
     (if hd user = CHR ''-''
      then if tl user = ''*'' then wl\<lparr>wl_all_read := True, wl_read := []\<rparr>
           else if wl_all_read wl then wl else wl\<lparr>wl_read := map_insert (tl user) [] (wl_read wl)\<rparr>
      else if user = ''*'' then wl\<lparr>wl_all_write := True, wl_all_read := True, wl_write := [], wl_read := []\<rparr>
      else let wl1 = (if wl_all_read wl then wl else wl\<lparr>wl_read := map_insert user [] (wl_read wl)\<rparr>)
           in if wl_all_write wl1 then wl1 else wl1\<lparr>wl_write := map_insert user [] (wl_write wl1)\<rparr>)"

text \<open>The words of a longer line: what has been read so far is \<open>read_only\<close>, the user and the paths.\<close>

definition second_user :: "string \<Rightarrow> string \<Rightarrow> string" where
  "second_user user tok = ''Can only have one user per line, first user:'' @ user @ '' second user:'' @ tok"

fun scan_tokens :: "string list \<Rightarrow> bool \<times> string \<times> string list \<Rightarrow> string + bool \<times> string \<times> string list" where
  "scan_tokens [] st = Inr st"
| "scan_tokens (tok # toks) (read_only, user, paths) =
     (case tok of
        [] \<Rightarrow> scan_tokens toks (read_only, user, paths)
      | c # rest \<Rightarrow>
          if c = CHR ''-''
          then if rest = [] then scan_tokens toks (True, user, paths)
               else if user \<noteq> [] then Inl (second_user user rest) else scan_tokens toks (True, rest, paths)
          else if c = CHR ''*''
          then if user \<noteq> [] then Inl (second_user user tok) else scan_tokens toks (read_only, ''*'', paths)
          else if c = CHR ''/'' then scan_tokens toks (read_only, user, paths @ split tok '','')
          else if user \<noteq> [] then Inl (second_user user tok) else scan_tokens toks (read_only, tok, paths))"

text \<open>The flag \<open>clear_paths\<close> is set when the path \<open>/\<close> is among them.\<close>

definition add_user :: "string list \<Rightarrow> white_list \<Rightarrow> string + white_list" where
  "add_user tokens wl =
     (if wl_all_write wl then Inr wl
      else if length tokens = 1 then Inr (add_single (hd tokens) wl)
      else case scan_tokens tokens (False, [], []) of
             Inl msg \<Rightarrow> Inl msg
           | Inr (read_only, user, paths0) \<Rightarrow>
               let clear_paths = (''/'' \<in> set paths0);
                   paths = (if clear_paths then [] else paths0);
                   wl1 = (if clear_paths \<and> user = ''*''
                          then if read_only then wl\<lparr>wl_all_read := True, wl_read := []\<rparr> else wl\<lparr>wl_all_write := True, wl_write := []\<rparr>
                          else wl)
               in if list_ex (\<lambda>p. p \<noteq> [] \<and> hd p \<noteq> CHR ''/'') paths then Inl (''Paths must start with '' @ [CHR 0x27, CHR ''/'', CHR 0x27])
                  else if read_only
                  then Inr (if wl_all_read wl1 then wl1 else wl1\<lparr>wl_read := map_append user paths (wl_read wl1)\<rparr>)
                  else Inr (if wl_all_write wl1 then wl1 else wl1\<lparr>wl_write := map_append user paths (wl_write wl1)\<rparr>))"

text \<open>The words of a line, without its comment.\<close>

definition SPACES :: string where "SPACES = [CHR '' '', CHR 0x09, CHR 0x0A, CHR 0x0B, CHR 0x0C, CHR 0x0D]"

definition trim :: "string \<Rightarrow> string" where
  "trim s = rev (dropWhile (\<lambda>c. c \<in> set SPACES) (rev (dropWhile (\<lambda>c. c \<in> set SPACES) s)))"

definition line_tokens :: "string \<Rightarrow> string list" where
  "line_tokens line =
     (if line = [] \<or> hd line = CHR ''#'' then [] else split (trim (takeWhile (\<lambda>c. c \<noteq> CHR ''#'') line)) [CHR '' '', CHR 0x09])"

text \<open>The loop over the lines of a file: the version first, then an entry on each line. What an error has left stays.\<close>

fun load_lines ::
    "(string \<Rightarrow> string option) \<Rightarrow> (string list \<Rightarrow> 'a \<Rightarrow> string + 'a) \<Rightarrow> string list \<Rightarrow> bool \<Rightarrow> 'a \<Rightarrow> string option \<times> 'a" where
  "load_lines version add [] foundVersionNumber st = (None, st)"
| "load_lines version add (line # lines) foundVersionNumber st =
     (case line_tokens line of
        [] \<Rightarrow> load_lines version add lines foundVersionNumber st
      | tok # toks \<Rightarrow>
          if \<not> foundVersionNumber
          then case version tok of Some msg \<Rightarrow> (Some msg, st) | None \<Rightarrow> load_lines version add lines True st
          else case add (tok # toks) st of Inl msg \<Rightarrow> (Some msg, st) | Inr st1 \<Rightarrow> load_lines version add lines True st1)"

definition unique_paths :: "path_map \<Rightarrow> path_map" where
  "unique_paths = map (\<lambda>(k, v). (k, remdups_adj (sort v)))"

definition WhiteListFile_load :: "string list option \<Rightarrow> string option \<times> white_list" where
  "WhiteListFile_load lines =
     (case lines of
        None \<Rightarrow> (Some ''Could not open file specified by ECF_LISTS '', empty_white_list)
      | Some ls \<Rightarrow>
          (case load_lines validateVersionNumber add_user ls False empty_white_list of
             (Some msg, wl) \<Rightarrow> (Some msg, wl)
           | (None, wl) \<Rightarrow> (None, wl\<lparr>wl_read := unique_paths (wl_read wl), wl_write := unique_paths (wl_write wl)\<rparr>)))"

definition allow_write_access_for_server_user :: "string \<Rightarrow> white_list \<Rightarrow> white_list" where
  "allow_write_access_for_server_user login_name wl =
     (if verify_write_access_user login_name wl then wl else wl\<lparr>wl_write := map_insert login_name [] (wl_write wl)\<rparr>)"

definition load_whitelist_file :: "string \<Rightarrow> string list option \<Rightarrow> string option \<times> white_list" where
  "load_whitelist_file login_name lines =
     (let (err, wl) = WhiteListFile_load lines
      in (err, if err = None then allow_write_access_for_server_user login_name wl else wl))"

section \<open>The password file\<close>

record pass_wd =
  pw_user :: string
  pw_host :: string
  pw_port :: string
  pw_passwd :: string

definition passwd_version :: "string \<Rightarrow> string option" where
  "passwd_version =
     check_version (\<lambda>major minor part. major < 4 \<or> major = 4 \<and> minor < 5 \<or> major = 4 \<and> minor = 5 \<and> part > 0)
       ''Only passwd files with a version >= 4.5.0 is supported''"

definition passwd_add_user :: "(string \<Rightarrow> string \<Rightarrow> string) \<Rightarrow> string list \<Rightarrow> pass_wd list \<Rightarrow> string + pass_wd list" where
  "passwd_add_user encrypt tokens vec =
     (if length tokens < 4 then Inl ''expected <user> <host> <port> <passwd> # comment''
      else if lexical_cast_int (tokens ! 2) = None then Inl (''Port number must be integer'' @ [CHR 0x27, CHR ''s''])
      else Inr (vec @ [\<lparr>pw_user = tokens ! 0, pw_host = tokens ! 1, pw_port = tokens ! 2, pw_passwd = encrypt (tokens ! 3) (tokens ! 0)\<rparr>]))"

definition pw_key :: "pass_wd \<Rightarrow> string \<times> string \<times> string" where
  "pw_key x = (pw_user x, pw_host x, pw_port x)"

text \<open>The last loops compare every two entries.\<close>

definition PasswdFile_load :: "(string \<Rightarrow> string \<Rightarrow> string) \<Rightarrow> string list option \<Rightarrow> string option \<times> pass_wd list" where
  "PasswdFile_load encrypt lines =
     (case lines of
        None \<Rightarrow> (Some ''Could not open file specified by ECF_PASSWD/ECF_CUSTOM_PASSWD '', [])
      | Some ls \<Rightarrow>
          (case load_lines passwd_version (passwd_add_user encrypt) ls False [] of
             (Some msg, vec) \<Rightarrow> (Some msg, vec)
           | (None, vec) \<Rightarrow>
               if list_ex (\<lambda>i. list_ex (\<lambda>k. i \<noteq> k \<and> pw_key (vec ! i) = pw_key (vec ! k)) [0..<length vec]) [0..<length vec]
               then (Some ''user can only appear once for given host/port'', vec)
               else (None, vec)))"

definition check_at_least_one_user_with_host_and_port :: "string \<Rightarrow> string \<Rightarrow> pass_wd list \<Rightarrow> bool" where
  "check_at_least_one_user_with_host_and_port host port = list_ex (\<lambda>x. pw_host x = host \<and> pw_port x = port)"

fun get_passwd :: "string \<Rightarrow> string \<Rightarrow> string \<Rightarrow> pass_wd list \<Rightarrow> string" where
  "get_passwd user host port [] = []"
| "get_passwd user host port (x # xs) = (if pw_key x = (user, host, port) then pw_passwd x else get_passwd user host port xs)"

fun passwd_loop :: "string \<Rightarrow> string \<Rightarrow> pass_wd list \<Rightarrow> bool option" where
  "passwd_loop user passwd [] = None"
| "passwd_loop user passwd (x # xs) = (if pw_user x = user then Some (pw_passwd x = passwd) else passwd_loop user passwd xs)"

definition passwd_authenticate :: "string \<Rightarrow> string \<Rightarrow> pass_wd list \<Rightarrow> bool" where
  "passwd_authenticate user passwd vec =
     (if user = [] then False
      else if passwd = [] \<and> vec = [] then True
      else case passwd_loop user passwd vec of
             Some b \<Rightarrow> b
           | None \<Rightarrow> if passwd \<noteq> [] then False else vec = [])"

section \<open>The server and its commands\<close>

record access_lists =
  ac_passwd :: "pass_wd list"
  ac_custom :: "pass_wd list"
  ac_white :: white_list

record user_cred =
  uc_user :: string
  uc_custom :: bool
  uc_pswd :: string

definition password_ok :: "access_lists \<Rightarrow> user_cred \<Rightarrow> bool" where
  "password_ok ac u = passwd_authenticate (uc_user u) (uc_pswd u) (if uc_custom u then ac_custom ac else ac_passwd ac)"

text \<open>What a command names: nothing, one path or a list of paths.\<close>

datatype cmd_paths = No_path | One_path string | Path_list "string list"

definition authenticateReadAccess :: "access_lists \<Rightarrow> user_cred \<Rightarrow> cmd_paths \<Rightarrow> bool" where
  "authenticateReadAccess ac u ps =
     (password_ok ac u \<and>
      (case ps of
         No_path \<Rightarrow> verify_read_access_user (uc_user u) (ac_white ac)
       | One_path path \<Rightarrow> verify_read_access_path (uc_user u) path (ac_white ac)
       | Path_list paths \<Rightarrow> verify_read_access (uc_user u) paths (ac_white ac)))"

definition authenticateWriteAccess :: "access_lists \<Rightarrow> string \<Rightarrow> cmd_paths \<Rightarrow> bool" where
  "authenticateWriteAccess ac user ps =
     (case ps of
        No_path \<Rightarrow> verify_write_access_user user (ac_white ac)
      | One_path path \<Rightarrow> verify_write_access_path user path (ac_white ac)
      | Path_list paths \<Rightarrow> verify_write_access user paths (ac_white ac))"

text \<open>\<open>UserCmd::authenticate\<close> and \<open>do_authenticate\<close>: the text of what they throw.\<close>

definition UserCmd_authenticate :: "access_lists \<Rightarrow> user_cred \<Rightarrow> bool \<Rightarrow> cmd_paths \<Rightarrow> string option" where
  "UserCmd_authenticate ac u isWrite ps =
     (if uc_user u \<noteq> [] \<and> authenticateReadAccess ac u ps
      then if isWrite
           then if authenticateWriteAccess ac (uc_user u) ps then None
                else Some (''[ authentication failed ] User '' @ uc_user u @ '' has no *write* access.'')
           else None
      else Some (''[ authentication failed ] User '' @ [CHR 0x27] @ uc_user u @ [CHR 0x27] @ '' is not allowed any access.''))"

section \<open>Paths and nodes\<close>

lemma segments_append: "c \<in> set d \<Longrightarrow> segments d (a @ c # r) = segments d a @ segments d r"
proof (induction a)
  case (Cons x a)
  then show ?case by (cases "segments d a") auto
qed simp

lemma path_below_names: "path_below a path \<Longrightarrow> prefix (NodePath_split a) (NodePath_split path)"
proof -
  assume b: "path_below a path"
  define r where "r = drop (length a) path"
  have "path = a @ r" using b append_take_drop_id [of "length a" path] by (simp add: path_below_def r_def)
  moreover have "r = [] \<or> hd r = CHR ''/''"
    using b by (cases "length a < length path") (simp_all add: path_below_def r_def hd_drop_conv_nth)
  ultimately have r: "path = a @ r" "r = [] \<or> hd r = CHR ''/''" by blast+
  show ?thesis
  proof (cases r)
    case (Cons c r')
    then have "tokens_of ''/'' path = tokens_of ''/'' a @ tokens_of ''/'' r'"
      using r segments_append [of "CHR ''/''" "''/''" a r'] by (simp add: tokens_of_def)
    then show ?thesis by (simp add: NodePath_split_def split_eq)
  qed (simp add: r)
qed

lemma find_down_prefix:
  "find_down ns ss = Some q \<Longrightarrow> prefix ss' ss \<Longrightarrow> find_down ns ss' = Some p \<Longrightarrow> prefix p q"
proof (induction ns ss' arbitrary: ss q p rule: find_down.induct)
  case (2 ns s ss')
  from "2.prems"(2) obtain ts where ss: "ss = s # ts" "prefix ss' ts" by (cases ss) auto
  from "2.prems"(3) obtain i where i: "child_pos s ns = Some i" by (auto split: option.splits)
  show ?case
  proof (cases "ss' = []")
    case True
    with "2.prems" ss i show ?thesis by (auto split: if_splits)
  next
    case False
    then obtain p' where p: "p = i # p'" "find_down (kids (ns ! i)) ss' = Some p'" using "2.prems"(3) i by auto
    have "ts \<noteq> []" using False ss(2) by auto
    then obtain q' where q: "q = i # q'" "find_down (kids (ns ! i)) ts = Some q'" using "2.prems"(1) ss(1) i by auto
    from "2.IH" [OF i False q(2) ss(2) p(2)] p q show ?thesis by simp
  qed
qed simp

section \<open>Limited users\<close>

text \<open>The rights of a user are limited to paths: no entry for the user or for all gives them without a path.\<close>

definition paths_of :: "string \<Rightarrow> path_map \<Rightarrow> string list" where
  "paths_of user m = (case map_of m user of None \<Rightarrow> [] | Some ps \<Rightarrow> ps) @ (case map_of m ''*'' of None \<Rightarrow> [] | Some ps \<Rightarrow> ps)"

definition writes_limited :: "string \<Rightarrow> white_list \<Rightarrow> bool" where
  "writes_limited user wl \<longleftrightarrow>
     \<not> wl_all_write wl \<and> (wl_read wl \<noteq> [] \<or> wl_write wl \<noteq> []) \<and>
     map_of (wl_write wl) user \<noteq> Some [] \<and> map_of (wl_write wl) ''*'' \<noteq> Some []"

lemma limited_access:
  assumes "writes_limited user wl" "verify_write_access user paths wl" "path \<in> set paths"
  obtains a where "a \<in> set (paths_of user (wl_write wl))" "path_below a path"
proof -
  have "verify_path_access (path_access_list paths) user (wl_write wl) \<or> verify_path_access (path_access_list paths) ''*'' (wl_write wl)"
    using assms(1,2) by (auto simp: writes_limited_def verify_write_access_def verify_write_with_def)
  then have "\<exists>a \<in> set (paths_of user (wl_write wl)). path_below a path"
    using assms(1,3) by (auto simp: verify_path_access_def path_access_list_def paths_of_def writes_limited_def list_all_iff list_ex_iff
        split: option.splits if_splits)
  with that show ?thesis by blast
qed


definition joes_access :: access_lists where
  "joes_access =
     \<lparr>ac_passwd = [\<lparr>pw_user = ''joe'', pw_host = ''h'', pw_port = ''3141'', pw_passwd = ''secret''\<rparr>], ac_custom = [\<lparr>pw_user = ''ann'', pw_host = ''h'', pw_port = ''3141'', pw_passwd = ''other''\<rparr>],
      ac_white = snd (load_whitelist_file ''admin'' (Some [''4.4.14'', ''# comment'', ''joe /s/g,/t''])) \<rparr>"

definition joe :: user_cred where
  "joe = \<lparr>uc_user = ''joe'', uc_custom = False, uc_pswd = ''secret''\<rparr>"


section \<open>Passwords\<close>

lemma passwd_loop_some: "passwd_loop user passwd vec = Some b \<Longrightarrow> \<exists>x \<in> set vec. pw_user x = user \<and> (b \<longleftrightarrow> pw_passwd x = passwd)"
  by (induction vec) (auto split: if_splits)



text \<open>A file that has been read names no user twice for a host and a port.\<close>

lemma passwords_distinct:
  assumes "PasswdFile_load encrypt lines = (None, vec)"
  shows "distinct (map pw_key vec)"
proof -
  have "\<not> list_ex (\<lambda>i. list_ex (\<lambda>k. i \<noteq> k \<and> pw_key (vec ! i) = pw_key (vec ! k)) [0..<length vec]) [0..<length vec]"
    using assms by (auto simp: PasswdFile_load_def split: option.splits prod.splits if_splits)
  then show ?thesis unfolding distinct_conv_nth list_ex_iff set_upt atLeast0LessThan length_map by (auto simp: Ball_def)
qed

section \<open>What the lists do not do\<close>

text \<open>A file that cannot be read opens the server: the lists are emptied before they are read, although the file says that they are
  overridden only by a file that has been read. A version that is refused has the same effect, and so for the passwords.\<close>

lemma unreadable_list_opens_server:
  "WhiteListFile_load None = (Some ''Could not open file specified by ECF_LISTS '', empty_white_list) \<and>
   snd (WhiteListFile_load (Some [''4.4.1'', ''-joe''])) = empty_white_list \<and>
   verify_write_access user paths empty_white_list \<and> verify_read_access user paths empty_white_list"
  by (simp add: verify_write_access_def verify_write_with_def verify_read_access_def verify_read_with_def) code_simp

lemma unreadable_passwords_open_server:
  "PasswdFile_load encrypt None = (Some ''Could not open file specified by ECF_PASSWD/ECF_CUSTOM_PASSWD '', []) \<and>
   (user \<noteq> [] \<longrightarrow> passwd_authenticate user [] [])"
  by (simp add: PasswdFile_load_def passwd_authenticate_def)

text \<open>When all users may read, all users may write, unless someone else is listed: the lists are empty then.\<close>

lemma all_may_read_opens_server:
  "load_whitelist_file login_name (Some [''4.4.14'', ''-*'']) = (None, empty_white_list\<lparr>wl_all_read := True\<rparr>) \<and>
   verify_write_access user paths (empty_white_list\<lparr>wl_all_read := True\<rparr>)"
proof -
  have "WhiteListFile_load (Some [''4.4.14'', ''-*'']) = (None, empty_white_list\<lparr>wl_all_read := True\<rparr>)" by code_simp
  then show ?thesis
    by (simp add: load_whitelist_file_def allow_write_access_for_server_user_def verify_write_access_user_def verify_write_with_def
        verify_write_access_def empty_white_list_def)
qed

text \<open>\<open>* /\<close> lets all users write but not read, which no command gets past.\<close>

lemma write_without_read:
  "fst (load_whitelist_file ''admin'' (Some [''4.4.14'', ''-joe'', ''* /''])) = None \<and>
   verify_write_access ''bob'' [''/s''] (snd (load_whitelist_file ''admin'' (Some [''4.4.14'', ''-joe'', ''* /'']))) \<and>
   \<not> verify_read_access ''bob'' [''/s''] (snd (load_whitelist_file ''admin'' (Some [''4.4.14'', ''-joe'', ''* /''])))"
  by code_simp

text \<open>The rights of a user who is listed twice do not add up, whatever the order.\<close>

lemma rights_not_additive:
  "\<not> verify_write_access ''joe'' [''/t''] (snd (load_whitelist_file ''admin'' (Some [''4.4.14'', ''joe'', ''joe /s'']))) \<and>
   \<not> verify_write_access ''joe'' [''/t''] (snd (load_whitelist_file ''admin'' (Some [''4.4.14'', ''joe /s'', ''joe'']))) \<and>
   verify_write_access ''joe'' [''/t''] (snd (load_whitelist_file ''admin'' (Some [''4.4.14'', ''joe''])))"
  by code_simp

text \<open>The user of the server does not get write access when the list limits it.\<close>

lemma server_user_locked_out:
  "\<not> verify_write_access_user ''admin'' (snd (load_whitelist_file ''admin'' (Some [''4.4.14'', ''admin /s''])))"
  by code_simp

text \<open>Newer versions of the password file are refused with the text for older ones.\<close>

lemma newer_passwords_refused: "passwd_version ''4.5.1'' = Some ''Only passwd files with a version >= 4.5.0 is supported'' \<and>
    passwd_version ''4.5.0'' = None \<and> passwd_version ''4.6.1'' = None"
  by code_simp

end
