(* ===== verification/Begin.thy ===== *)
theory Begin
  imports Commands_Ok
begin

text \<open>
  Begin: \<open>BeginCmd\<close> (\<open>Base/src/cts\<close>) with \<open>Defs::beginAll\<close>, \<open>Defs::beginSuite\<close> and \<open>begin\<close> of \<open>Suite\<close>, \<open>NodeContainer\<close>, \<open>Task\<close>,
  \<open>Submittable\<close> and \<open>Node\<close> (\<open>ANode/src\<close>). The first begin of a suite is what brings a definition that has just been loaded into
  the order that every other operation keeps. As in \<open>Requeue\<close> no archive file exists, so that \<open>restore_on_begin_or_requeue\<close>
  returns at once, and generated variables are left out.
\<close>

section \<open>\<open>Node::begin\<close>\<close>

definition VerifyAttr_reset :: "verify_attr \<Rightarrow> ecf \<Rightarrow> verify_attr \<times> ecf" where
  "VerifyAttr_reset v g =
     (let (n, g') = incr_state_change_no g in (v\<lparr>vf_actual := 0, vf_state_change_no := n\<rparr>, g'))"

text \<open>\<open>MiscAttrs::begin\<close>.\<close>

definition begin_misc :: "node_data \<Rightarrow> ecf \<Rightarrow> (node_data \<times> ecf) run" where
  "begin_misc nd g =
     run_bind (each (\<lambda>v g. run_ret (VerifyAttr_reset v g)) (nd_verifys nd) g) (\<lambda>(vs, g1).
     run_bind (each (\<lambda>q g. run_ret (QueueAttr_requeue q g)) (nd_queues nd) g1) (\<lambda>(qs, g2).
       run_ret (nd\<lparr>nd_verifys := vs, nd_queues := qs\<rparr>, g2)))"

definition reset_flag :: "node_data \<Rightarrow> ecf \<Rightarrow> node_data \<times> ecf" where
  "reset_flag nd g = (let (f, g1) = Flag_reset (nd_flag nd) g in (nd\<lparr>nd_flag := f\<rparr>, g1))"

definition begin_user_attrs :: "node_data \<Rightarrow> ecf \<Rightarrow> (node_data \<times> ecf) run" where
  "begin_user_attrs nd g =
     run_bind (each (\<lambda>m g. Some (Meter_reset m g)) (nd_meters nd) g) (\<lambda>(ms, g1).
     run_bind (each (\<lambda>x g. run_ret (Event_reset x g)) (nd_events nd) g1) (\<lambda>(es, g2).
     run_bind (each (\<lambda>l g. run_ret (Label_reset l g)) (nd_labels nd) g2) (\<lambda>(ls, g3).
       run_ret (nd\<lparr>nd_meters := ms, nd_events := es, nd_labels := ls\<rparr>, g3))))"

definition begin_data :: "calendar \<Rightarrow> node_data \<Rightarrow> ecf \<Rightarrow> (node_data \<times> ecf) run" where
  "begin_data c nd g =
     run_bind (begin_misc nd g) (\<lambda>(nd0, g0).
       let (nd1, g1) = initState c 0 nd0 g0;
           (nd2, g2) = clearTrigger nd1 g1;
           (nd3, g3) = clearComplete nd2 g2;
           (nd4, g4) = reset_flag nd3 g3;
           (nd5, g5) = reset_repeat True nd4 g4
       in run_bind (begin_user_attrs nd5 g5) (\<lambda>(nd6, g6). run_ret (reset_late nd6 g6)))"

definition DateAttr_reset :: "date_attr \<Rightarrow> ecf \<Rightarrow> date_attr \<times> ecf" where
  "DateAttr_reset a g = (let (n, g') = incr_state_change_no g in (a\<lparr>dt_free := False, dt_state_change_no := n\<rparr>, g'))"

definition begin_times :: "gregorian \<Rightarrow> calendar \<Rightarrow> node_times \<Rightarrow> ecf \<Rightarrow> (node_times \<times> ecf) run" where
  "begin_times greg c nt g =
     run_bind (each (\<lambda>a g. run_option (TimeAttr_reset c a g)) (nt_todays nt) g) (\<lambda>(ys, g1).
     run_bind (each (\<lambda>a g. run_option (TimeAttr_reset c a g)) (nt_times nt) g1) (\<lambda>(ts, g2).
     run_bind (each (\<lambda>a g. run_option (CronAttr_reset c a g)) (nt_crons nt) g2) (\<lambda>(cs, g3).
     run_bind (each (\<lambda>a g. Some (DayAttr_reset_cal greg c a g)) (nt_days nt) g3) (\<lambda>(ws, g4).
     run_bind (each (\<lambda>a g. run_ret (DateAttr_reset a g)) (nt_dates nt) g4) (\<lambda>(ds, g5).
       run_ret (\<lparr>nt_times = ts, nt_todays = ys, nt_crons = cs, nt_dates = ds, nt_days = ws\<rparr>, g5))))))"

definition begin_time_block :: "env \<Rightarrow> calendar \<Rightarrow> node_data \<Rightarrow> ecf \<Rightarrow> (node_data \<times> ecf) run" where
  "begin_time_block e c nd g =
     run_bind (begin_times (en_greg e) c (nd_time nd) g) (\<lambda>(nt, g1).
     let (nd1, g2) = markHybridTimeDependentsAsComplete c (nd\<lparr>nd_time := nt\<rparr>) g1
     in run_ret (nd1\<lparr>nd_inlimits := InLimitMgr_reset (nd_inlimits nd1)\<rparr>, g2))"

definition Node_begin :: "env \<Rightarrow> addr \<Rightarrow> server \<Rightarrow> server run" where
  "Node_begin e p s =
     (let c = suite_cal (sv_defs s) p
      in run_bind (on_data p (begin_data c) s) (\<lambda>s1. on_data p (begin_time_block e c) (reset_limits_at p s1)))"

section \<open>Tasks, containers and suites\<close>

definition Submittable_begin :: "env \<Rightarrow> addr \<Rightarrow> server \<Rightarrow> server run" where
  "Submittable_begin e p s = run_bind (change p clear_job s) (Node_begin e p)"

definition Task_begin :: "env \<Rightarrow> bool \<Rightarrow> addr \<Rightarrow> server \<Rightarrow> server run" where
  "Task_begin e no_aliases p s = run_bind (change p (reset_alias_number no_aliases) s) (Submittable_begin e p)"

text \<open>\<open>begin\<close> below a suite, and \<open>NodeContainer::begin\<close> of the suite. The tree in the argument fixes the nodes to visit.\<close>

fun begin_node :: "env \<Rightarrow> node \<Rightarrow> addr \<Rightarrow> server \<Rightarrow> server run"
  and begin_children :: "env \<Rightarrow> node list \<Rightarrow> nat \<Rightarrow> addr \<Rightarrow> server \<Rightarrow> server run" where
  "begin_node e (Node nd ks) p s =
     (case nd_kind nd of
        K_Alias \<Rightarrow> Submittable_begin e p s
      | K_Task \<Rightarrow> Task_begin e (ks = []) p s
      | _ \<Rightarrow>
          run_bind (Node_begin e p s) (\<lambda>s1.
          run_bind (begin_children e ks 0 p s1) (\<lambda>s2. run_ret (handle_defstatus_propagation p s2))))"
| "begin_children e [] i p s = run_ret s"
| "begin_children e (k # ks) i p s = run_bind (begin_node e k (p @ [i]) s) (begin_children e ks (Suc i) p)"

definition Suite_begin_head :: "env \<Rightarrow> node_data \<Rightarrow> ecf \<Rightarrow> node_data \<times> ecf" where
  "Suite_begin_head e nd g =
     (let (n, g1) = incr_state_change_no (snd (incr_modify_change_no g))
      in (nd\<lparr>nd_suite := begin_calendar e ((nd_suite nd)\<lparr>su_begun := True, su_begun_change_no := n\<rparr>)\<rparr>, g1))"

definition begun_at :: "server \<Rightarrow> nat \<Rightarrow> bool" where
  "begun_at s i = su_begun (nd_suite (ndata (sv_suites s ! i)))"

definition Suite_begin :: "env \<Rightarrow> nat \<Rightarrow> server \<Rightarrow> server run" where
  "Suite_begin e i s =
     (if begun_at s i then run_ret s
      else run_bind (change [i] (Suite_begin_head e) s) (begin_node e (sv_suites s ! i) [i]))"

section \<open>\<open>Defs\<close>\<close>

definition beginSuite :: "env \<Rightarrow> nat \<Rightarrow> server \<Rightarrow> server run" where
  "beginSuite e i s =
     (if begun_at s i then run_ret s else run_bind (Suite_begin e i s) (\<lambda>s1. run_ret (Defs_settle s1)))"

text \<open>The loop of \<open>beginAll\<close>; its flag says that at least one suite has been begun.\<close>

fun begin_suites :: "env \<Rightarrow> nat list \<Rightarrow> bool \<times> server \<Rightarrow> (bool \<times> server) run" where
  "begin_suites e [] a = run_ret a"
| "begin_suites e (i # js) (b, s) =
     (if begun_at s i then begin_suites e js (b, s)
      else run_bind (Suite_begin e i s) (\<lambda>s1. begin_suites e js (True, s1)))"

definition beginAll :: "env \<Rightarrow> server \<Rightarrow> server run" where
  "beginAll e s =
     run_bind (begin_suites e [0..<length (sv_suites s)] (False, s)) (\<lambda>(b, s1).
       run_ret (if b then Defs_settle s1 else s1))"

text \<open>\<open>Suite::reset_begin\<close> and \<open>Defs::reset_begin\<close>.\<close>

definition reset_begin_only :: "node_data \<Rightarrow> ecf \<Rightarrow> node_data \<times> ecf" where
  "reset_begin_only nd g =
     (let (n, g1) = incr_state_change_no g
      in (nd\<lparr>nd_suite := (nd_suite nd)\<lparr>su_begun := False, su_begun_change_no := n\<rparr>\<rparr>, g1))"

fun reset_begin :: "nat list \<Rightarrow> server \<Rightarrow> server run" where
  "reset_begin [] s = run_ret s"
| "reset_begin (i # js) s = run_bind (change [i] reset_begin_only s) (reset_begin js)"

text \<open>\<open>Defs::check_suite_can_begin\<close>: the tasks that it counts are those of the whole definition.\<close>

definition suite_can_begin :: "server \<Rightarrow> nat \<Rightarrow> bool" where
  "suite_can_begin s i \<longleftrightarrow>
     begun_at s i \<or> node_state (sv_suites s ! i) \<in> {NS_UNKNOWN, NS_COMPLETE} \<or>
     list_all (\<lambda>q. state_at s q \<notin> {Some NS_ACTIVE, Some NS_SUBMITTED}) (tasks_below (sv_suites s) 0 [])"

section \<open>\<open>BeginCmd\<close>\<close>

fun set_zombie_flags :: "addr list \<Rightarrow> server \<Rightarrow> server run" where
  "set_zombie_flags [] s = run_ret s"
| "set_zombie_flags (q # qs) s = run_bind (change q (flag_set FL_ZOMBIE) s) (set_zombie_flags qs)"

text \<open>What both forms of the command do: \<open>js\<close> are the suites, \<open>tasks\<close> their running tasks, \<open>go\<close> begins them.\<close>

definition begin_with ::
    "zombie_world \<Rightarrow> bool \<Rightarrow> nat list \<Rightarrow> (server \<Rightarrow> server run) \<Rightarrow> base_server \<Rightarrow> (path_result \<times> base_server) run" where
  "begin_with w force js go b =
     (let s = bs_server b; tasks = concat (map (\<lambda>i. get_all_active_submittables (sv_suites s ! i) [i]) js)
      in if \<not> force
         then if \<exists>i \<in> set js. \<not> suite_can_begin s i then run_ret (Path_end (Thrown ''Begin failed''), b)
              else path_done (with_server go b)
         else run_bind (with_zombie_list (add_user_zombies w ''begin'' tasks) b) (\<lambda>b1.
              path_done (with_server (\<lambda>s1. run_bind (reset_begin js s1) (\<lambda>s2. run_bind (go s2) (set_zombie_flags tasks))) b1)))"

text \<open>The constructor of \<open>BeginCmd\<close> takes away a leading slash.\<close>

definition BeginCmd_make :: "string \<Rightarrow> string" where
  "BeginCmd_make suiteName = (if suiteName \<noteq> [] \<and> hd suiteName = CHR ''/'' then tl suiteName else suiteName)"

definition begin_command :: "zombie_world \<Rightarrow> env \<Rightarrow> string \<Rightarrow> bool \<Rightarrow> base_server \<Rightarrow> (path_result \<times> base_server) run" where
  "begin_command w e suiteName force b =
     (let ns = sv_suites (bs_server b)
      in if suiteName = [] then begin_with w force [0..<length ns] (beginAll e) b
         else case child_pos suiteName ns of
                None \<Rightarrow> run_ret (Path_end (Thrown (''BeginCmd::doHandleRequest:  Begin failed as suite '' @ suiteName @ '' is not loaded.'')), b)
              | Some i \<Rightarrow> begin_with w force [i] (beginSuite e i) b)"

definition BeginCmd_doHandleRequest ::
    "server_world \<Rightarrow> env \<Rightarrow> string \<Rightarrow> bool \<Rightarrow> abstract_server \<Rightarrow> (outcome \<times> abstract_server) run" where
  "BeginCmd_doHandleRequest w e suiteName force a =
     run_bind (begin_command (zombies_world w a) e suiteName force (as_base a)) (\<lambda>(r, b).
       case r of
         Path_done \<Rightarrow> doJobSubmission w e (a\<lparr>as_base := b\<rparr>)
       | Path_error msg \<Rightarrow> run_ret (Thrown msg, a\<lparr>as_base := b\<rparr>)
       | Path_end x \<Rightarrow> run_ret (x, a\<lparr>as_base := b\<rparr>))"

section \<open>What begin does to one node\<close>

lemma each_returns: "\<exists>ys g'. each (\<lambda>x g. run_ret (f x g)) xs g = run_ret (ys, g')"
  using each_inv [of xs "\<lambda>x g. run_ret (f x g)" "\<lambda>_. True" g] by fastforce

lemma reset_flag_same: "fixed (fst (reset_flag nd g)) = fixed nd" "nd_st (fst (reset_flag nd g)) = nd_st nd" "data_ok (fst (reset_flag nd g)) = data_ok nd"
  by (simp_all add: reset_flag_def fixed_def data_ok_def case_prod_beta' Let_def)

lemma begin_misc_ok:
  assumes "data_ok nd"
  shows "\<exists>nd' g'. begin_misc nd g = run_ret (nd', g') \<and> fixed nd' = fixed nd \<and> data_ok nd'"
proof -
  obtain vs g1 where 1: "each (\<lambda>v g. run_ret (VerifyAttr_reset v g)) (nd_verifys nd) g = run_ret (vs, g1)"
    using each_returns [of VerifyAttr_reset "nd_verifys nd" g] by blast
  have "\<exists>qs g'. each (\<lambda>q g. run_ret (QueueAttr_requeue q g)) (nd_queues nd) g1 = run_ret (qs, g') \<and>
      list_all (\<lambda>q. length (qa_state_vec q) = length (qa_theQueue q)) qs"
    by (rule each_inv)
      (use assms in \<open>auto simp: data_ok_def list_all_iff QueueAttr_requeue_def qa_incr_state_change_no_def case_prod_beta' Let_def\<close>)
  with 1 assms show ?thesis by (auto simp: begin_misc_def data_ok_def fixed_def)
qed

lemma begin_user_attrs_ok:
  assumes "data_ok nd"
  shows "\<exists>nd' g'. begin_user_attrs nd g = run_ret (nd', g') \<and> fixed nd' = fixed nd \<and> nd_st nd' = nd_st nd \<and> data_ok nd'"
proof -
  have "\<exists>ms g'. each (\<lambda>m g. Some (Meter_reset m g)) (nd_meters nd) g = run_ret (ms, g') \<and> list_all (\<lambda>m. me_min m \<le> me_max m) ms"
    by (rule each_inv)
      (use assms in \<open>auto simp: data_ok_def list_all_iff Meter_reset_def Meter_set_value_def Meter_isValidValue_def case_prod_beta\<close>)
  then obtain ms g1 where 1: "each (\<lambda>m g. Some (Meter_reset m g)) (nd_meters nd) g = run_ret (ms, g1)"
    "list_all (\<lambda>m. me_min m \<le> me_max m) ms" by blast
  obtain es g2 where 2: "each (\<lambda>x g. run_ret (Event_reset x g)) (nd_events nd) g1 = run_ret (es, g2)"
    using each_returns [of Event_reset "nd_events nd" g1] by blast
  obtain ls g3 where 3: "each (\<lambda>l g. run_ret (Label_reset l g)) (nd_labels nd) g2 = run_ret (ls, g3)"
    using each_returns [of Label_reset "nd_labels nd" g2] by blast
  from 1 2 3 assms show ?thesis by (simp add: begin_user_attrs_def data_ok_def fixed_def)
qed

lemma begin_data_ok:
  assumes "data_ok nd"
  shows "\<exists>nd' g'. begin_data c nd g = run_ret (nd', g') \<and> fixed nd' = fixed nd \<and>
    ns_st (nd_st nd') = start_state (ds_st (nd_d_st nd)) \<and> data_ok nd'"
proof -
  obtain nd0 g0 where 0: "begin_misc nd g = run_ret (nd0, g0)" "fixed nd0 = fixed nd" "data_ok nd0" using begin_misc_ok [OF assms] by blast
  obtain nd1 g1 where h1: "initState c 0 nd0 g0 = (nd1, g1)" by fastforce
  obtain nd2 g2 where h2: "clearTrigger nd1 g1 = (nd2, g2)" by fastforce
  obtain nd3 g3 where h3: "clearComplete nd2 g2 = (nd3, g3)" by fastforce
  obtain nd4 g4 where h4: "reset_flag nd3 g3 = (nd4, g4)" by fastforce
  obtain nd5 g5 where h5: "reset_repeat True nd4 g4 = (nd5, g5)" by fastforce
  note eff = initState_effect [of c 0 nd0 g0, unfolded h1] attrs_effect(1,2) [of nd1 g1, unfolded h2] attrs_effect(3,4) [of nd2 g2, unfolded h3]
    attrs_effect(5,6) [of True nd4 g4, unfolded h5] reset_flag_same(1,2) [of nd3 g3, unfolded h4]
  have f5: "fixed nd5 = fixed nd" "ns_st (nd_st nd5) = start_state (ds_st (nd_d_st nd))"
    using eff 0(2) by (auto simp: same_core_def fixed_def)
  have "data_ok nd5"
    using 0(3) data_ok_initState [of c 0 nd0 g0] data_ok_attrs(1) [of nd1 g1] data_ok_attrs(2) [of nd2 g2] reset_flag_same(3) [of nd3 g3]
      data_ok_attrs(3) [of True nd4 g4] by (simp add: h1 h2 h3 h4 h5)
  then obtain nd6 g6 where 6: "begin_user_attrs nd5 g5 = run_ret (nd6, g6)" "fixed nd6 = fixed nd5" "nd_st nd6 = nd_st nd5" "data_ok nd6"
    using begin_user_attrs_ok by blast
  with 0(1) f5 attrs_effect(9,10) [of nd6 g6] data_ok_attrs(5) [of nd6 g6] show ?thesis
    by (cases "reset_late nd6 g6") (simp add: begin_data_def h1 h2 h3 h4 h5)
qed

lemma begin_times_ok:
  assumes "times_inv nt" "greg_weekly greg"
  shows "\<exists>nt' g'. begin_times greg c nt g = run_ret (nt', g') \<and> times_inv nt'"
proof -
  have t: "\<exists>ys g'. each (\<lambda>a g. run_option (TimeAttr_reset c a g)) xs g = run_ret (ys, g') \<and> list_all ta_inv ys"
    if "list_all ta_inv xs" for xs g
  proof (rule each_inv)
    fix x g assume "x \<in> set xs"
    with that have "ta_inv x" by (simp add: list_all_iff)
    with ts_reset_inv [of "ta_ts x" c] show "\<exists>y g'. run_option (TimeAttr_reset c x g) = run_ret (y, g') \<and> ta_inv y"
      by (auto simp: TimeAttr_reset_def TimeAttr_clearFree_def ta_inv_def case_prod_beta' Let_def)
  qed
  obtain ys g1 where 1: "each (\<lambda>a g. run_option (TimeAttr_reset c a g)) (nt_todays nt) g = run_ret (ys, g1)" "list_all ta_inv ys"
    using t assms(1) unfolding times_inv_def by blast
  obtain ts g2 where 2: "each (\<lambda>a g. run_option (TimeAttr_reset c a g)) (nt_times nt) g1 = run_ret (ts, g2)" "list_all ta_inv ts"
    using t assms(1) unfolding times_inv_def by blast
  have "\<exists>cs g'. each (\<lambda>a g. run_option (CronAttr_reset c a g)) (nt_crons nt) g2 = run_ret (cs, g') \<and> list_all cr_inv cs"
  proof (rule each_inv)
    fix x g assume "x \<in> set (nt_crons nt)"
    with assms(1) have "cr_inv x" by (simp add: times_inv_def list_all_iff)
    with ts_reset_inv [of "cr_timeSeries x" c] show "\<exists>y g'. run_option (CronAttr_reset c x g) = run_ret (y, g') \<and> cr_inv y"
      by (auto simp: CronAttr_reset_def CronAttr_clearFree_def cr_inv_def case_prod_beta' Let_def)
  qed
  then obtain cs g3 where 3: "each (\<lambda>a g. run_option (CronAttr_reset c a g)) (nt_crons nt) g2 = run_ret (cs, g3)" "list_all cr_inv cs" by blast
  have "\<exists>ws g'. each (\<lambda>a g. Some (DayAttr_reset_cal greg c a g)) (nt_days nt) g3 = run_ret (ws, g') \<and> list_all (\<lambda>_. True) ws"
  proof (rule each_inv)
    fix a g
    show "\<exists>y g'. Some (DayAttr_reset_cal greg c a g) = run_ret (y, g') \<and> True"
      using matching_loop_week [OF assms(2), of "da_day a"] DayAttr_reset_fields(1) [of a g]
      by (auto simp: DayAttr_reset_cal_def matching_date_def case_prod_beta)
  qed
  then obtain ws g4 where 4: "each (\<lambda>a g. Some (DayAttr_reset_cal greg c a g)) (nt_days nt) g3 = run_ret (ws, g4)" by blast
  obtain ds g5 where 5: "each (\<lambda>a g. run_ret (DateAttr_reset a g)) (nt_dates nt) g4 = run_ret (ds, g5)"
    using each_returns [of DateAttr_reset "nt_dates nt" g4] by blast
  from 1 2 3 4 5 show ?thesis by (simp add: begin_times_def times_inv_def)
qed

lemma begin_time_block_ok:
  assumes "data_ok nd" "greg_weekly (en_greg e)" "\<not> cal_hybrid c"
  shows "\<exists>nd' g'. begin_time_block e c nd g = run_ret (nd', g') \<and> fixed nd' = fixed nd \<and> nd_st nd' = nd_st nd \<and> data_ok nd'"
proof -
  obtain nt g1 where "begin_times (en_greg e) c (nd_time nd) g = run_ret (nt, g1)" "times_inv nt"
    using begin_times_ok [OF _ assms(2), of "nd_time nd" c g] assms(1) by (auto simp: data_ok_def)
  with assms show ?thesis by (simp add: begin_time_block_def real_clock_no_marking fixed_def data_ok_def)
qed

section \<open>What begin does to a suite\<close>

text \<open>Only the suite at \<open>i\<close> has changed, and the attributes of its nodes are well-formed.\<close>

definition within :: "nat \<Rightarrow> server \<Rightarrow> server \<Rightarrow> bool" where
  "within i s s' \<longleftrightarrow> (\<exists>n. sv_suites s' = (sv_suites s)[i := n] \<and> all_data data_ok n)"

lemma within_refl: "i < length (sv_suites s) \<Longrightarrow> all_data data_ok (sv_suites s ! i) \<Longrightarrow> within i s s"
  unfolding within_def by (metis list_update_id)

lemma within_trans: "within i s s1 \<Longrightarrow> within i s1 s2 \<Longrightarrow> within i s s2"
  by (auto simp: within_def)

lemma within_sel: "within i s s' \<Longrightarrow> i < length (sv_suites s) \<Longrightarrow> all_data data_ok (sv_suites s' ! i) \<and> length (sv_suites s') = length (sv_suites s)"
  by (auto simp: within_def)

lemma put_data_suite:
  assumes "i < length ns" "all_data P (ns ! i)" "P nd"
  shows "\<exists>n. put_data nd ns (i # p) = ns[i := n] \<and> all_data P n"
  using assms all_data_put [of P "kids (ns ! i)" nd p] all_data_sel [of P "ns ! i"] by (cases "p = []") auto

lemma put_node_suite:
  assumes "i < length ns" "all_data P (ns ! i)" "all_data P m"
  shows "\<exists>n. put_node m ns (i # p) = ns[i := n] \<and> all_data P n"
  using assms all_data_put_node [of P "kids (ns ! i)" m p] all_data_sel [of P "ns ! i"] by (cases "p = []") auto

lemma node_in_suite: "node_at ns (i # p) = Some n \<Longrightarrow> all_data P (ns ! i) \<Longrightarrow> i < length ns \<and> all_data P n"
  using all_data_node_at [of P "kids (ns ! i)" p n] all_data_sel [of P "ns ! i"] by (auto split: if_splits)

lemma on_data_within:
  assumes "st_at (skels s) (i # p) = Some t" "all_data data_ok (sv_suites s ! i)"
    and "\<And>nd g. data_ok nd \<Longrightarrow> \<exists>nd' g'. f nd g = run_ret (nd', g') \<and> data_ok nd'"
  shows "\<exists>s'. on_data (i # p) f s = run_ret s' \<and> within i s s'"
proof -
  obtain n where n: "node_at (sv_suites s) (i # p) = Some n" using skels_node_at [OF assms(1)] by blast
  note h = node_in_suite [OF n assms(2)]
  then obtain nd g where f: "f (ndata n) (ls_ecf (sv_sys s)) = run_ret (nd, g)" "data_ok nd"
    using assms(3) [of "ndata n" "ls_ecf (sv_sys s)"] by (auto simp: all_data_sel)
  from put_data_suite [OF _ assms(2) f(2), of p] h obtain m where "put_data nd (sv_suites s) (i # p) = (sv_suites s)[i := m]" "all_data data_ok m"
    by blast
  with n f(1) show ?thesis by (auto simp: on_data_def within_def simp del: put_data.simps node_at.simps)
qed

lemma limits_within: "st_at (skels s) (i # p) = Some t \<Longrightarrow> all_data data_ok (sv_suites s ! i) \<Longrightarrow> within i s (reset_limits_at (i # p) s)"
  using within_refl [of i s] by (auto simp: reset_limits_at_def sv_put_world_def within_def split: option.split if_splits)

lemma propagation_within:
  assumes "st_at (skels s) (i # p) = Some t" "all_data data_ok (sv_suites s ! i)"
  shows "within i s (handle_defstatus_propagation (i # p) s)"
proof -
  obtain n where n: "node_at (sv_suites s) (i # p) = Some n" using skels_node_at [OF assms(1)] by blast
  note h = node_in_suite [OF n assms(2)]
  then have "data_ok (ndata n)" by (simp add: all_data_sel)
  with n h within_refl [of i s] put_data_suite [OF _ assms(2), of "fst (setStateOnly dur st False (ndata n) g)" p for dur st g]
    put_node_suite [OF _ assms(2), of "fst (setStateOnlyHierarchically dur st False n g)" p for dur st g] assms(2)
  show ?thesis
    by (auto simp: handle_defstatus_propagation_def Let_def case_prod_beta within_def data_ok_setStateOnly data_ok_hierarchically
        simp del: put_data.simps put_node.simps node_at.simps)
qed

text \<open>An operation on the node at \<open>p\<close> returns, stays within its suite, and does to the tree of states what \<open>f\<close> says.\<close>

definition becomes :: "addr \<Rightarrow> (stree \<Rightarrow> stree) \<Rightarrow> server \<Rightarrow> server run \<Rightarrow> bool" where
  "becomes p f s m \<longleftrightarrow>
     (\<exists>s'. m = run_ret s' \<and> within (hd p) s s' \<and> skels s' = upd_at f (skels s) p \<and> df_st (sv_defs s') = df_st (sv_defs s))"

text \<open>Where such an operation may start.\<close>

definition beginning :: "addr \<Rightarrow> server \<Rightarrow> stree \<Rightarrow> bool" where
  "beginning p s t \<longleftrightarrow> p \<noteq> [] \<and> st_at (skels s) p = Some t \<and> all_data data_ok (sv_suites s ! hd p) \<and> list_all real_tree (skels s)"

lemma st_at_hd: "st_at ts p = Some t \<Longrightarrow> hd p < length ts"
  by (cases p) (auto split: if_splits)

lemma beginning_after:
  assumes "beginning p s t" "within (hd p) s s'" "skels s' = upd_at f (skels s) p" "\<And>t. real_tree t \<Longrightarrow> real_tree (f t)"
  shows "beginning p s' (f t)"
proof -
  have "hd p < length (sv_suites s)" using assms(1) st_at_hd [of "skels s" p t] by (simp add: beginning_def)
  with assms(1,2) within_sel [of "hd p" s s'] st_at_upd_same [of "skels s" p t f] fix_upd_at [of _ "skels s" f p] assms(4)
  show ?thesis by (auto simp: beginning_def assms(3) simp del: map_map)
qed

lemma becomes_bind:
  assumes "becomes p f s m" "beginning p s t" "\<And>t. real_tree t \<Longrightarrow> real_tree (f t)"
    and "\<And>s1. beginning p s1 (f t) \<Longrightarrow> becomes p h s1 (k s1)"
  shows "becomes p (h \<circ> f) s (run_bind m k)"
proof -
  obtain s1 where 1: "m = run_ret s1" "within (hd p) s s1" "skels s1 = upd_at f (skels s) p" "df_st (sv_defs s1) = df_st (sv_defs s)"
    using assms(1) by (auto simp: becomes_def)
  with assms(4) [OF beginning_after [OF assms(2) 1(2,3) assms(3)]] within_trans [of "hd p" s s1] show ?thesis
    by (auto simp: becomes_def upd_at_upd_at simp del: map_map)
qed

lemma becomes_cong: "becomes p f s m \<Longrightarrow> beginning p s t \<Longrightarrow> f t = h t \<Longrightarrow> becomes p h s m"
  using upd_at_cong [of "skels s" p f h] by (auto simp: becomes_def beginning_def)

lemma becomes_data:
  assumes "beginning p s t"
    and "\<And>nd g. data_ok nd \<Longrightarrow> \<exists>nd' g'. f nd g = run_ret (nd', g') \<and> fixed nd' = fixed nd \<and> ns_st (nd_st nd') = h (ds_st (nd_d_st nd)) (ns_st (nd_st nd)) \<and> data_ok nd'"
  shows "becomes p (\<lambda>t. with_state (h (sd t) (ss t)) t) s (on_data p f s)"
proof -
  obtain i q where p: "p = i # q" using assms(1) by (cases p) (auto simp: beginning_def)
  have at: "st_at (skels s) (i # q) = Some t" and ok: "all_data data_ok (sv_suites s ! i)" using assms(1) by (simp_all add: beginning_def p del: map_map st_at.simps)
  obtain s' where s': "on_data p f s = run_ret s'" "within i s s'" using on_data_within [OF at ok, of f] assms(2) p by blast
  have "skels s' = upd_at (\<lambda>t. with_state (h (sd t) (ss t)) t) (skels s) p \<and> df_st (sv_defs s') = df_st (sv_defs s)"
  proof (rule skels_on_data [OF s'(1)])
    fix n nd g
    assume n: "node_at (sv_suites s) p = Some n" and r: "f (ndata n) (ls_ecf (sv_sys s)) = run_ret (nd, g)"
    have "data_ok (ndata n)" using node_in_suite [OF n [unfolded p] ok] by (simp add: all_data_sel)
    from assms(2) [OF this, of "ls_ecf (sv_sys s)"] r show "fixed nd = fixed (ndata n) \<and> ns_st (nd_st nd) = h (sd (skel n)) (ss (skel n))" by auto
  qed
  with s' show ?thesis by (simp add: becomes_def p)
qed

lemma becomes_same:
  assumes "beginning p s t"
    and "\<And>nd g. data_ok nd \<Longrightarrow> \<exists>nd' g'. f nd g = run_ret (nd', g') \<and> fixed nd' = fixed nd \<and> nd_st nd' = nd_st nd \<and> data_ok nd'"
  shows "becomes p (\<lambda>t. t) s (on_data p f s)"
proof -
  have "becomes p (\<lambda>t. with_state ((\<lambda>_ x. x) (sd t) (ss t)) t) s (on_data p f s)"
    by (rule becomes_data [OF assms(1)]) (metis assms(2))
  then show ?thesis by (simp add: with_state_id)
qed

lemma becomes_ret:
  assumes "beginning p s t" "\<And>nd g. fixed (fst (f nd g)) = fixed nd" "\<And>nd g. nd_st (fst (f nd g)) = nd_st nd" "\<And>nd g. data_ok (fst (f nd g)) = data_ok nd"
  shows "becomes p (\<lambda>t. t) s (on_data p (\<lambda>nd g. run_ret (f nd g)) s)"
  by (rule becomes_same [OF assms(1)]) (use assms(2-4) in \<open>metis prod.collapse\<close>)

lemma becomes_limits: "beginning p s t \<Longrightarrow> becomes p (\<lambda>t. t) s (run_ret (reset_limits_at p s))"
  using limits_within [of s "hd p" "tl p" t] upd_at_id [of "skels s" p "\<lambda>t. t"]
  by (cases p) (auto simp: becomes_def beginning_def skels_limits simp del: map_map st_at.simps upd_at.simps)

lemma becomes_propagation:
  assumes "beginning p s t" "sk t \<in> {K_Suite, K_Family}"
  shows "becomes p propagate s (run_ret (handle_defstatus_propagation p s))"
proof -
  obtain n where n: "node_at (sv_suites s) p = Some n" "skel n = t" using assms(1) skels_node_at [of s p t] by (auto simp: beginning_def)
  then have "nd_kind (ndata n) \<in> {K_Suite, K_Family}" using assms(2) by auto
  from skels_propagation [OF n(1) this] propagation_within [of s "hd p" "tl p" t] assms(1) show ?thesis
    by (cases p) (auto simp: becomes_def beginning_def simp del: map_map st_at.simps)
qed

lemma beginning_real: "beginning p s t \<Longrightarrow> \<not> cal_hybrid (suite_cal (sv_defs s) p)"
  using real_suite_cal [of "sv_defs s" p] by (simp add: beginning_def)

lemma Node_begin_becomes:
  assumes b: "beginning p s t" and e: "greg_weekly (en_greg e)"
  shows "becomes p (\<lambda>t. with_state (start_state (sd t)) t) s (Node_begin e p s)"
proof -
  let ?c = "suite_cal (sv_defs s) p" and ?f = "\<lambda>t. with_state (start_state (sd t)) t"
  have 1: "becomes p ?f s (on_data p (begin_data ?c) s)"
    using becomes_data [OF b, of "begin_data ?c" "\<lambda>d _. start_state d"] begin_data_ok by fast
  have 2: "becomes p ((\<lambda>t. t) \<circ> (\<lambda>t. t)) s1 (run_bind (run_ret (reset_limits_at p s1)) (on_data p (begin_time_block e ?c)))"
    if b1: "beginning p s1 u" for s1 u
    by (rule becomes_bind [OF becomes_limits [OF b1] b1])
      (use becomes_same begin_time_block_ok [OF _ e beginning_real [OF b]] in \<open>auto intro: becomes_same\<close>)
  have "becomes p ((\<lambda>t. t) \<circ> ?f) s (run_bind (on_data p (begin_data ?c) s) (\<lambda>s1. on_data p (begin_time_block e ?c) (reset_limits_at p s1)))"
    by (rule becomes_bind [OF 1 b]) (use 2 in \<open>auto simp: comp_def\<close>)
  then show ?thesis by (simp add: Node_begin_def Let_def comp_def)
qed

lemma Submittable_begin_becomes:
  assumes "beginning p s t" "greg_weekly (en_greg e)"
  shows "becomes p (\<lambda>t. with_state (start_state (sd t)) t) s (Submittable_begin e p s)"
proof -
  have "becomes p ((\<lambda>t. with_state (start_state (sd t)) t) \<circ> (\<lambda>t. t)) s (Submittable_begin e p s)"
    unfolding Submittable_begin_def
    by (rule becomes_bind [OF becomes_ret [OF assms(1) attrs_effect(13,14) data_ok_attrs(7)] assms(1)])
      (auto intro: Node_begin_becomes [OF _ assms(2)])
  then show ?thesis by (simp add: comp_def)
qed

lemma Task_begin_becomes:
  assumes "beginning p s t" "greg_weekly (en_greg e)"
  shows "becomes p (\<lambda>t. with_state (start_state (sd t)) t) s (Task_begin e b p s)"
proof -
  have "becomes p ((\<lambda>t. with_state (start_state (sd t)) t) \<circ> (\<lambda>t. t)) s (Task_begin e b p s)"
    unfolding Task_begin_def
    by (rule becomes_bind [OF becomes_ret [OF assms(1) attrs_effect(11,12) data_ok_attrs(6)] assms(1)])
      (auto intro: Submittable_begin_becomes [OF _ assms(2)])
  then show ?thesis by (simp add: comp_def)
qed

text \<open>The loop over the children is the loop of the specification.\<close>

lemma beginning_child:
  assumes "beginning p s t" "drop i (sks t) = map skel (k # ks)"
  shows "beginning (p @ [i]) s (skel k)" "i < length (sks t)" "drop (Suc i) (sks t) = map skel ks"
proof -
  show i: "i < length (sks t)" using assms(2) by (metis drop_eq_Nil list.discI list.simps(9) not_le)
  then have k: "sks t ! i = skel k" and "drop (Suc i) (sks t) = map skel ks" using assms(2) by (auto simp: Cons_nth_drop_Suc [symmetric])
  then show "drop (Suc i) (sks t) = map skel ks" by blast
  show "beginning (p @ [i]) s (skel k)"
    using assms(1) st_at_snoc [of p "skels s" i] i k by (auto simp: beginning_def hd_append simp del: map_map)
qed

lemma begin_becomes:
  "beginning p s (skel n) \<Longrightarrow> greg_weekly (en_greg e) \<Longrightarrow> becomes p rq_tree s (begin_node e n p s)"
  "beginning p s t \<Longrightarrow> drop i (sks t) = map skel ks \<Longrightarrow> greg_weekly (en_greg e) \<Longrightarrow>
     becomes p (with_kids (from_child i)) s (begin_children e ks i p s)"
proof (induction e n p s and e ks i p s arbitrary: and t rule: begin_node_begin_children.induct)
  case (1 e nd ks p s)
  let ?t = "skel (Node nd ks)" and ?f = "\<lambda>t. with_state (start_state (sd t)) t"
  note b = "1.prems"(1) and e = "1.prems"(2)
  show ?case
  proof (cases "nd_kind nd \<in> {K_Suite, K_Family}")
    case False
    have "becomes p ?f s (begin_node e (Node nd ks) p s)"
      using False Submittable_begin_becomes [OF b e] Task_begin_becomes [OF b e] by (cases "nd_kind nd") simp_all
    then show ?thesis by (rule becomes_cong [OF _ b]) (use False in \<open>simp add: with_state_def\<close>)
  next
    case True
    have kids: "becomes p (propagate \<circ> with_kids (from_child 0)) s1 (run_bind (begin_children e ks 0 p s1) (\<lambda>s2. run_ret (handle_defstatus_propagation p s2)))"
      if b1: "beginning p s1 (?f ?t)" for s1
    proof (rule becomes_bind [OF _ b1])
      show "becomes p (with_kids (from_child 0)) s1 (begin_children e ks 0 p s1)"
        using "1.IH" [of s1 "?f ?t"] True b1 e by (cases "nd_kind nd") auto
      show "real_tree t \<Longrightarrow> real_tree (with_kids (from_child 0) t)" for t
        using fix_rq_tree [of "\<lambda>k ds h. \<not> h"] by (auto simp: from_child_0 fix_tree_sel [of _ "with_kids _ _"] fix_tree_sel [of _ t] list_all_iff)
      show "becomes p propagate s2 (run_ret (handle_defstatus_propagation p s2))"
        if "beginning p s2 (with_kids (from_child 0) (?f ?t))" for s2
        by (rule becomes_propagation [OF that]) (use True in simp)
    qed
    have "becomes p ((propagate \<circ> with_kids (from_child 0)) \<circ> ?f) s (begin_node e (Node nd ks) p s)"
      using becomes_bind [OF Node_begin_becomes [OF b e] b _ kids] True by (cases "nd_kind nd") simp_all
    then show ?thesis by (rule becomes_cong [OF _ b]) (use True rq_tree_container [of ?t] in \<open>simp add: from_child_0\<close>)
  qed
next
  case (2 e i p s)
  have "becomes p (\<lambda>t. t) s (run_ret s)"
    using within_refl [of "hd p" s] st_at_hd [of "skels s" p t] "2.prems"(1) upd_at_id [of "skels s" p "\<lambda>t. t"]
    by (auto simp: becomes_def beginning_def simp del: map_map)
  then show ?case using "2.prems" by (auto intro: becomes_cong simp: with_kids_id from_child_def)
next
  case (3 e k ks i p s)
  note b = "3.prems"(1) and c = beginning_child [OF "3.prems"(1,2)]
  let ?g = "with_kids (\<lambda>ts. upd_at rq_tree ts [i])"
  have 1: "becomes p ?g s (begin_node e k (p @ [i]) s)"
    using "3.IH"(1) [OF c(1) "3.prems"(3)] b by (auto simp: becomes_def beginning_def upd_at_snoc simp del: map_map upd_at.simps)
  have "becomes p (with_kids (from_child (Suc i)) \<circ> ?g) s (begin_children e (k # ks) i p s)"
    unfolding begin_children.simps
  proof (rule becomes_bind [OF 1 b])
    show "real_tree t \<Longrightarrow> real_tree (?g t)" for t
      using fix_upd_at [of "\<lambda>k ds h. \<not> h" "sks t" rq_tree "[i]"] fix_rq_tree [of "\<lambda>k ds h. \<not> h"]
      by (auto simp: fix_tree_sel [of _ "with_kids _ _"] fix_tree_sel [of _ t])
    show "becomes p (with_kids (from_child (Suc i))) s1 (begin_children e ks (Suc i) p s1)" if "beginning p s1 (?g t)" for s1
      using "3.IH"(2) [OF that _ "3.prems"(3)] c(2,3) by simp
  qed
  then show ?case by (rule becomes_cong [OF _ b]) (use c(2) from_child_step [OF c(2)] in \<open>simp add: with_kids_def\<close>)
qed

text \<open>The data of a suite that has just been marked as begun.\<close>

definition marked :: "node_data \<Rightarrow> node_data" where
  "marked nd = nd\<lparr>nd_suite := (nd_suite nd)\<lparr>su_begun := True\<rparr>\<rparr>"

definition begin_ready :: "node \<Rightarrow> bool" where
  "begin_ready n \<longleftrightarrow> nd_kind (ndata n) = K_Suite \<and> data_ok (marked (ndata n)) \<and> list_all (all_data data_ok) (kids n)"

definition begun :: "node \<Rightarrow> bool" where
  "begun n \<longleftrightarrow> su_begun (nd_suite (ndata n))"

lemma begun_at_nth: "begun_at s i = begun (sv_suites s ! i)"
  by (simp add: begun_at_def begun_def)

lemma data_ok_suite: "nd_kind nd = K_Suite \<Longrightarrow> data_ok nd \<longleftrightarrow> su_begun (nd_suite nd) \<and> data_ok (marked nd)"
  by (auto simp: data_ok_def marked_def)

lemma begun_ready: "nd_kind (ndata n) = K_Suite \<Longrightarrow> all_data data_ok n \<longleftrightarrow> begun n \<and> begin_ready n"
  by (auto simp: begun_def begin_ready_def all_data_sel data_ok_suite)

lemma begin_calendar_real: "\<not> hybrid_suite su \<Longrightarrow> \<not> hybrid_suite (begin_calendar e su)"
proof -
  have "cal_ctype (Calendar_begin greg now t c) = cal_ctype c" for greg now t c
    by (simp add: Calendar_begin_def update_cache_def Let_def)
  then show "\<not> hybrid_suite su \<Longrightarrow> \<not> hybrid_suite (begin_calendar e su)"
    by (auto simp: begin_calendar_def hybrid_suite_def cal_hybrid_def init_calendar_def ClockAttr_begin_calendar_def Calendar_init_def
        split: option.splits)
qed

lemma Suite_begin_head_data:
  assumes "Suite_begin_head e nd g = (nd', g')"
  shows "nd_kind nd' = nd_kind nd" "nd_d_st nd' = nd_d_st nd" "nd_st nd' = nd_st nd" "su_begun (nd_suite nd')"
    "data_ok (marked nd) \<Longrightarrow> data_ok (marked nd')" "\<not> hybrid_suite (nd_suite nd) \<Longrightarrow> \<not> hybrid_suite (nd_suite nd')"
proof -
  obtain n where nd': "nd' = nd\<lparr>nd_suite := begin_calendar e ((nd_suite nd)\<lparr>su_begun := True, su_begun_change_no := n\<rparr>)\<rparr>"
    using assms by (auto simp: Suite_begin_head_def split: prod.splits)
  then show "nd_kind nd' = nd_kind nd" "nd_d_st nd' = nd_d_st nd" "nd_st nd' = nd_st nd" "su_begun (nd_suite nd')"
    "data_ok (marked nd) \<Longrightarrow> data_ok (marked nd')"
    by (simp_all add: begin_calendar_def marked_def data_ok_def)
  show "\<not> hybrid_suite (nd_suite nd) \<Longrightarrow> \<not> hybrid_suite (nd_suite nd')"
    unfolding nd' by (simp, rule begin_calendar_real) (simp add: hybrid_suite_def)
qed

text \<open>A begin of one suite: it is begun, its states are those of a requeue, and no other suite is touched.\<close>

lemma Suite_begin_once:
  assumes i: "i < length (sv_suites s)" and new: "\<not> begun_at s i" and r: "begin_ready (sv_suites s ! i)"
    and real: "list_all real_tree (skels s)" and e: "greg_weekly (en_greg e)"
  shows "\<exists>n s'. Suite_begin e i s = run_ret s' \<and> sv_suites s' = (sv_suites s)[i := n] \<and> skel n = rq_tree (skel (sv_suites s ! i)) \<and>
    all_data data_ok n \<and> df_st (sv_defs s') = df_st (sv_defs s)"
proof -
  let ?n = "sv_suites s ! i"
  obtain nd g where h: "Suite_begin_head e (ndata ?n) (ls_ecf (sv_sys s)) = (nd, g)" by fastforce
  note hd = Suite_begin_head_data [OF h]
  let ?m = "Node nd (kids ?n)"
  obtain s1 where s1: "change [i] (Suite_begin_head e) s = run_ret s1" and su: "sv_suites s1 = (sv_suites s)[i := ?m]"
    and df: "df_st (sv_defs s1) = df_st (sv_defs s)" using i h by (simp add: on_data_def)
  have "real_tree (skel ?n)" using real i by (simp add: list_all_length)
  then have nh: "\<not> hybrid_suite (nd_suite (ndata ?n))" by (simp add: fix_tree_sel)
  then have sm: "skel ?m = skel ?n" using hd by (cases ?n) simp
  then have sk: "skels s1 = skels s" using i unfolding su by (simp add: map_update list_update_same_conv)
  have "data_ok nd" using hd(1,4,5) r data_ok_suite [of nd] by (simp add: begin_ready_def)
  then have ok: "all_data data_ok ?m" using r by (simp add: begin_ready_def)
  have b: "beginning [i] s1 (skel ?n)"
    unfolding beginning_def sk using i real ok su by simp
  from begin_becomes(1) [OF b e] obtain s' n where s': "begin_node e ?n [i] s1 = run_ret s'" "sv_suites s' = (sv_suites s1)[i := n]"
    "all_data data_ok n" "skels s' = upd_at rq_tree (skels s1) [i]" "df_st (sv_defs s') = df_st (sv_defs s1)"
    by (auto simp: becomes_def within_def simp del: map_map)
  have "skel n = skels s' ! i" using i by (simp add: s'(2) su)
  also have "\<dots> = rq_tree (skel ?n)" unfolding s'(4) sk using i by simp
  finally have "skel n = rq_tree (skel ?n)" .
  with s'(1,2,3,5) s1 su df new show ?thesis by (auto simp: Suite_begin_def)
qed

text \<open>What a begin makes of a list of suites.\<close>

definition begin_tree :: "node \<Rightarrow> stree" where
  "begin_tree n = (if begun n then skel n else rq_tree (skel n))"

definition begins :: "node \<Rightarrow> node \<Rightarrow> bool" where
  "begins n n' \<longleftrightarrow> all_data data_ok n' \<and> skel n' = begin_tree n"

lemma begins_refl: "begun n \<Longrightarrow> begin_ready n \<Longrightarrow> begins n n"
  using begun_ready [of n] by (simp add: begins_def begin_tree_def begin_ready_def)

lemma begin_suites_loop:
  assumes "distinct js" "set js \<subseteq> {0..<length (sv_suites s)}" "list_all begin_ready (sv_suites s)" "list_all real_tree (skels s)"
    and e: "greg_weekly (en_greg e)"
  shows "\<exists>s'. begin_suites e js (b, s) = run_ret (b \<or> (\<exists>j\<in>set js. \<not> begun_at s j), s') \<and> df_st (sv_defs s') = df_st (sv_defs s) \<and>
    length (sv_suites s') = length (sv_suites s) \<and>
    (\<forall>j < length (sv_suites s). if j \<in> set js then begins (sv_suites s ! j) (sv_suites s' ! j) else sv_suites s' ! j = sv_suites s ! j)"
  using assms(1-4)
proof (induction js arbitrary: b s)
  case (Cons i js)
  have i: "i < length (sv_suites s)" and r: "begin_ready (sv_suites s ! i)" using Cons.prems by (auto simp: list_all_length)
  show ?case
  proof (cases "begun_at s i")
    case True
    with Cons.IH [of s b] Cons.prems begins_refl [OF _ r] show ?thesis by (auto simp: begun_at_nth)
  next
    case False
    obtain n s1 where 1: "Suite_begin e i s = run_ret s1" "sv_suites s1 = (sv_suites s)[i := n]" "skel n = rq_tree (skel (sv_suites s ! i))"
      "all_data data_ok n" "df_st (sv_defs s1) = df_st (sv_defs s)"
      using Suite_begin_once [OF i False r Cons.prems(4) e] by blast
    have n: "begins (sv_suites s ! i) n" using 1 False by (simp add: begins_def begin_tree_def begun_at_nth)
    have "sk (skel n) = nd_kind (ndata (sv_suites s ! i))" unfolding 1(3) by (metis erase_rq_tree erase_sel(1) skel_sel(1))
    then have "begin_ready n" using 1(4) r begun_ready [of n] by (simp add: begin_ready_def)
    then have r1: "list_all begin_ready (sv_suites s1)" using Cons.prems(3) 1(2) i by (auto simp: list_all_length nth_list_update)
    have "real_tree (skel n)" unfolding 1(3) by (rule fix_rq_tree) (use Cons.prems(4) i in \<open>simp add: list_all_length\<close>)
    then have "list_all real_tree (skels s1)" using Cons.prems(4) 1(2) i by (auto simp: list_all_length nth_list_update)
    from Cons.IH [of s1 True, OF _ _ r1 this] Cons.prems(1,2) 1(2) obtain s' where
      s': "begin_suites e js (True, s1) = run_ret (True, s')" "df_st (sv_defs s') = df_st (sv_defs s1)"
      "length (sv_suites s') = length (sv_suites s1)"
      "\<forall>j < length (sv_suites s1). if j \<in> set js then begins (sv_suites s1 ! j) (sv_suites s' ! j) else sv_suites s' ! j = sv_suites s1 ! j"
      by auto
    have "if j \<in> set (i # js) then begins (sv_suites s ! j) (sv_suites s' ! j) else sv_suites s' ! j = sv_suites s ! j"
      if "j < length (sv_suites s)" for j
      using s'(4) [rule_format, of j] that n 1(2) Cons.prems(1) by (cases "j = i") auto
    with 1 False s'(1-3) show ?thesis by simp
  qed
qed auto

section \<open>A definition that is begun is in order\<close>

lemma well_kinded_rq: "plain_tree t \<Longrightarrow> well_kinded t \<Longrightarrow> ok_tree (rq_tree t)"
proof (induction t rule: rq_tree.induct)
  case (1 k ds h x ts)
  show ?case
  proof (cases "k \<in> {K_Suite, K_Family}")
    case True
    have w: "list_all well_kinded ts" and ds: "ds = DS_COMPLETE \<or> ds = DS_QUEUED"
      using "1.prems" True by (auto simp: list_all_iff plain_node_def)
    have q: "list_all plain_tree ts" using "1.prems"(1) by simp
    have "list_all ok_tree (map rq_tree ts)"
      unfolding list_all_iff
    proof
      fix u assume "u \<in> set (map rq_tree ts)"
      then obtain t where t: "t \<in> set ts" "u = rq_tree t" by auto
      with w q have "well_kinded t" "plain_tree t" by (simp_all add: list_all_iff)
      with t True ds 1(1,2) show "ok_tree u" by auto
    qed
    then show ?thesis using True ds all_to_ok [of "STree k ds h x (map rq_tree ts)"] by (auto simp: shown_def children_state_def)
  qed (use 1 in \<open>cases k; simp add: shown_def\<close>)
qed

text \<open>A definition that has been loaded: its suites may be begun or not, and in any states when they are not.\<close>

definition loaded :: "server \<Rightarrow> bool" where
  "loaded s \<longleftrightarrow> list_all begin_ready (sv_suites s) \<and> list_all plain_tree (skels s) \<and> kinds_ok s \<and>
     (\<forall>n \<in> set (sv_suites s). begun n \<longrightarrow> ok_tree (skel n)) \<and> ((\<forall>n \<in> set (sv_suites s). begun n) \<longrightarrow> settled s)"

lemma in_order_loaded: "in_order s \<Longrightarrow> loaded s \<and> (\<forall>n \<in> set (sv_suites s). begun n)"
  using begun_ready by (auto simp: in_order_split server_ok_def settled_def kinds_ok_def loaded_def list_all_iff)

lemma erase_begin_tree: "erase (begin_tree n) = erase (skel n)"
  by (simp add: begin_tree_def)

lemma begins_all:
  assumes "\<forall>j < length ns. begins (ns ! j) (ns' ! j)" "length ns' = length ns"
  shows "map skel ns' = map begin_tree ns" "list_all (all_data data_ok) ns'"
  using assms by (auto simp: begins_def list_all_length intro!: nth_equalityI)

lemma all_begun_in_order:
  assumes l: "loaded s" and b: "\<forall>j < length (sv_suites s). begins (sv_suites s ! j) (sv_suites s' ! j)" "length (sv_suites s') = length (sv_suites s)"
  shows "in_order (Defs_settle s')" "skels (Defs_settle s') = map begin_tree (sv_suites s)"
    "(\<forall>n \<in> set (sv_suites s). begun n) \<Longrightarrow> df_st (sv_defs s') = df_st (sv_defs s) \<Longrightarrow> in_order s'"
proof -
  note sk = begins_all(1) [OF b] and ok = begins_all(2) [OF b]
  have "list_all plain_tree (skels s')"
    using l fix_rq_tree unfolding sk by (auto simp: loaded_def list_all_iff begin_tree_def)
  with ok have so: "server_ok s'" by (simp add: server_ok_def)
  have er: "map erase (skels s') = map erase (skels s)" unfolding sk by (simp add: erase_begin_tree)
  then have ke: "keeps s s'" using so by (simp add: keeps_def)
  have "ok_tree (begin_tree n)" if n: "n \<in> set (sv_suites s)" for n
  proof (cases "begun n")
    case False
    from l n have "plain_tree (skel n)" "well_kinded (skel n)" by (auto simp: loaded_def kinds_ok_def list_all_iff)
    with False well_kinded_rq show ?thesis by (simp add: begin_tree_def)
  qed (use l n in \<open>simp add: loaded_def begin_tree_def\<close>)
  then have t: "list_all ok_tree (skels s')" unfolding sk by (auto simp: list_all_iff)
  have d: "sv_suites (Defs_settle s') = sv_suites s'"
    by (simp add: Defs_settle_def Defs_set_most_significant_state_def Let_def case_prod_beta)
  have "ns_st (df_st (sv_defs (Defs_settle s'))) = theComputedNodeState (map ss (skels s'))"
    by (auto simp: Defs_settle_def Defs_set_most_significant_state_def NState_setState_def Let_def case_prod_beta comp_def)
  then have "settled (Defs_settle s')" unfolding settled_def d using t by blast
  moreover have "keeps s (Defs_settle s')" using ke by (simp add: keeps_def server_ok_def d)
  moreover have k: "kinds_ok s" using l by (simp add: loaded_def)
  ultimately show "in_order (Defs_settle s')" by (blast intro: in_orderI)
  show "skels (Defs_settle s') = map begin_tree (sv_suites s)" unfolding d by (rule sk)
  assume a: "\<forall>n \<in> set (sv_suites s). begun n" and df: "df_st (sv_defs s') = df_st (sv_defs s)"
  then have "skels s' = skels s" unfolding sk by (simp add: begin_tree_def)
  with l a df have "settled s'" by (simp add: loaded_def settled_def del: map_map)
  with k ke show "in_order s'" by (blast intro: in_orderI)
qed

lemma beginAll_ok:
  assumes l: "loaded s" and e: "greg_weekly (en_greg e)"
  shows "\<exists>s'. beginAll e s = run_ret s' \<and> in_order s' \<and> skels s' = map begin_tree (sv_suites s)"
proof -
  let ?N = "length (sv_suites s)"
  have real: "list_all real_tree (skels s)" and r: "list_all begin_ready (sv_suites s)"
    using l by (simp_all add: loaded_def plain_real_list)
  from begin_suites_loop [of "[0..<?N]" s e False, OF _ _ r real e] obtain s' where
    s': "begin_suites e [0..<?N] (False, s) = run_ret (\<exists>j<?N. \<not> begun_at s j, s')" "df_st (sv_defs s') = df_st (sv_defs s)"
    "length (sv_suites s') = ?N" "\<forall>j < ?N. begins (sv_suites s ! j) (sv_suites s' ! j)"
    by (auto simp: Bex_def)
  note f = all_begun_in_order [OF l s'(4,3)]
  show ?thesis
  proof (cases "\<exists>j<?N. \<not> begun_at s j")
    case True
    with s'(1) f show ?thesis by (simp add: beginAll_def)
  next
    case False
    then have "\<forall>n \<in> set (sv_suites s). begun n" by (auto simp: in_set_conv_nth begun_at_nth)
    with False s'(1,2) f(3) begins_all(1) [OF s'(4,3)] show ?thesis by (auto simp: beginAll_def)
  qed
qed

text \<open>One suite, when the others are begun.\<close>

lemma beginSuite_ok:
  assumes l: "loaded s" and o: "\<forall>j < length (sv_suites s). j \<noteq> i \<longrightarrow> begun_at s j" and i: "i < length (sv_suites s)"
    and e: "greg_weekly (en_greg e)"
  shows "\<exists>s'. beginSuite e i s = run_ret s' \<and> in_order s' \<and> skels s' = map begin_tree (sv_suites s)"
proof -
  have real: "list_all real_tree (skels s)" and r: "list_all begin_ready (sv_suites s)"
    using l by (simp_all add: loaded_def plain_real_list)
  have other: "begins (sv_suites s ! j) (sv_suites s ! j)" if "j < length (sv_suites s)" "begun_at s j" for j
    using that r by (auto simp: begins_refl begun_at_nth list_all_length)
  show ?thesis
  proof (cases "begun_at s i")
    case True
    with o have a: "\<forall>j < length (sv_suites s). begun_at s j" by auto
    then have "\<forall>n \<in> set (sv_suites s). begun n" by (auto simp: in_set_conv_nth begun_at_nth)
    with a other all_begun_in_order(3) [OF l, of s] begins_all(1) [of "sv_suites s" "sv_suites s"] True show ?thesis
      by (simp add: beginSuite_def)
  next
    case False
    with i r have "begin_ready (sv_suites s ! i)" by (simp add: list_all_length)
    from Suite_begin_once [OF i False this real e] obtain n s1 where
      1: "Suite_begin e i s = run_ret s1" "sv_suites s1 = (sv_suites s)[i := n]" "skel n = rq_tree (skel (sv_suites s ! i))" "all_data data_ok n"
      by blast
    have "begins (sv_suites s ! j) (sv_suites s1 ! j)" if "j < length (sv_suites s)" for j
    proof (cases "j = i")
      case True
      with 1 that False show ?thesis by (simp add: begins_def begin_tree_def begun_at_nth)
    qed (use other that o 1(2) in simp)
    with all_begun_in_order(1,2) [OF l, of s1] 1 False show ?thesis by (simp add: beginSuite_def)
  qed
qed

section \<open>The command keeps the order\<close>

lemma reset_begin_only_data:
  assumes "reset_begin_only nd g = (nd', g')"
  shows "nd_kind nd' = nd_kind nd" "nd_d_st nd' = nd_d_st nd" "nd_st nd' = nd_st nd" "marked nd' = marked nd\<lparr>nd_suite := nd_suite (marked nd')\<rparr>"
    "hybrid_suite (nd_suite nd') = hybrid_suite (nd_suite nd)" "\<not> su_begun (nd_suite nd')" "data_ok (marked nd) \<Longrightarrow> data_ok (marked nd')"
  using assms by (auto simp: reset_begin_only_def hybrid_suite_def marked_def data_ok_def split: prod.splits)

text \<open>The suites of \<open>js\<close> are marked as not begun; nothing else changes that the order depends on.\<close>

lemma reset_begin_ok:
  assumes "\<forall>j \<in> set js. j < length (sv_suites s)" "loaded s" "settled s"
  shows "\<exists>s'. reset_begin js s = run_ret s' \<and> loaded s' \<and> skels s' = skels s \<and> length (sv_suites s') = length (sv_suites s) \<and>
    (\<forall>j < length (sv_suites s). j \<notin> set js \<longrightarrow> begun_at s' j = begun_at s j)"
  using assms
proof (induction js arbitrary: s)
  case (Cons i js)
  let ?n = "sv_suites s ! i"
  have i: "i < length (sv_suites s)" using Cons.prems(1) by simp
  obtain nd g where h: "reset_begin_only (ndata ?n) (ls_ecf (sv_sys s)) = (nd, g)" by fastforce
  note hd = reset_begin_only_data [OF h]
  let ?m = "Node nd (kids ?n)"
  obtain s1 where s1: "change [i] reset_begin_only s = run_ret s1" and su: "sv_suites s1 = (sv_suites s)[i := ?m]"
    and df: "df_st (sv_defs s1) = df_st (sv_defs s)" using i h by (simp add: on_data_def)
  have sm: "skel ?m = skel ?n" using hd by (cases ?n) simp
  then have sk: "skels s1 = skels s" using i unfolding su by (simp add: map_update list_update_same_conv)
  have "begin_ready ?m" using Cons.prems(2) i hd(1,7) by (simp add: loaded_def begin_ready_def list_all_length)
  then have r: "list_all begin_ready (sv_suites s1)" using Cons.prems(2) i by (auto simp: su loaded_def list_all_length nth_list_update)
  have st: "settled s1" using Cons.prems(3) sk df by (simp add: settled_def del: map_map)
  then have t: "\<forall>n \<in> set (sv_suites s1). ok_tree (skel n)" by (simp add: settled_def list_all_iff)
  have "loaded s1" using Cons.prems(2) r t st sk by (simp add: loaded_def kinds_ok_def del: map_map)
  from Cons.IH [OF _ this st] Cons.prems(1) obtain s' where
    "reset_begin js s1 = run_ret s'" "loaded s'" "skels s' = skels s1" "length (sv_suites s') = length (sv_suites s1)"
    "\<forall>j < length (sv_suites s1). j \<notin> set js \<longrightarrow> begun_at s' j = begun_at s1 j" by (auto simp: su)
  with s1 sk show ?case by (auto simp: su begun_at_nth nth_list_update)
qed simp

lemma set_zombie_flags_ok:
  assumes "in_order s" "\<forall>q \<in> set qs. st_at (skels s) q \<noteq> None"
  shows "\<exists>s'. set_zombie_flags qs s = run_ret s' \<and> in_order s' \<and> skels s' = skels s"
  using assms
proof (induction qs arbitrary: s)
  case (Cons q qs)
  then obtain n where n: "node_at (sv_suites s) q = Some n" using node_at_skels [of s q] by auto
  obtain s1 where s1: "change q (flag_set FL_ZOMBIE) s = run_ret s1" "still s s1"
    using change_at [OF n in_orderD(1) [OF Cons.prems(1)] core_keepers(1)] by blast
  have sk: "skels s1 = skels s" using s1(2) by (simp add: still_def)
  from Cons.IH [OF in_order_still [OF Cons.prems(1) s1(2)]] Cons.prems(2) sk s1(1) show ?case by (auto simp del: map_map)
qed simp

definition begin_zombies :: "nat list \<Rightarrow> server \<Rightarrow> addr list" where
  "begin_zombies js s = concat (map (\<lambda>i. get_all_active_submittables (sv_suites s ! i) [i]) js)"

lemma begin_zombies_found:
  assumes "\<forall>j \<in> set js. j < length (sv_suites s)" "q \<in> set (begin_zombies js s)"
  shows "\<exists>m. node_at (sv_suites s) q = Some m \<and> node_state m \<in> {NS_ACTIVE, NS_SUBMITTED}"
proof -
  obtain i where i: "i < length (sv_suites s)" "q \<in> set (get_all_active_submittables (sv_suites s ! i) [i])"
    using assms by (auto simp: begin_zombies_def)
  then have "node_at (sv_suites s) [i] = Some (sv_suites s ! i)" by simp
  from active_submittables_found(1) [OF i(2)] node_at_below [OF this] show ?thesis by auto
qed

text \<open>\<open>go\<close> begins the suites of \<open>js\<close> of any loaded definition whose other suites have begun.\<close>

lemma begin_with_ok:
  assumes o: "in_order (bs_server b)" and js: "\<forall>j \<in> set js. j < length (sv_suites (bs_server b))"
    and go: "\<And>s. loaded s \<Longrightarrow> length (sv_suites s) = length (sv_suites (bs_server b)) \<Longrightarrow>
      \<forall>j < length (sv_suites s). j \<notin> set js \<longrightarrow> begun_at s j \<Longrightarrow> \<exists>s'. go s = run_ret s' \<and> in_order s' \<and> skels s' = map begin_tree (sv_suites s)"
  shows "ordered (begin_with w force js go b)"
proof -
  let ?s = "bs_server b"
  have all: "\<forall>j < length (sv_suites ?s). begun_at ?s j" and l: "loaded ?s" using in_order_loaded [OF o] by (auto simp: begun_at_nth)
  obtain s1 where s1: "go ?s = run_ret s1" "in_order s1" using go [OF l] all by auto
  show ?thesis
  proof (cases force)
    case False
    with s1 o show ?thesis by (auto simp: begin_with_def ordered_def path_done_def with_server_def Let_def)
  next
    case True
    let ?qs = "begin_zombies js ?s"
    from add_user_zombies_ok [of ?s ?qs w "''begin''" "bs_zombies b", OF in_orderD(1) [OF o] begin_zombies_found [OF js]] obtain zs s2 where
      2: "add_user_zombies w ''begin'' ?qs (bs_zombies b, ?s) = run_ret (zs, s2)" "still ?s s2" by (auto simp: with_zombies_def)
    have o2: "in_order s2" by (rule in_order_still [OF o 2(2)])
    have sk2: "skels s2 = skels ?s" using 2(2) by (simp add: still_def)
    then have len: "length (sv_suites s2) = length (sv_suites ?s)" by (metis length_map)
    note l2 = in_order_loaded [OF o2]
    from reset_begin_ok [of js s2] js l2 in_orderD(2) [OF o2] len obtain s3 where
      3: "reset_begin js s2 = run_ret s3" "loaded s3" "skels s3 = skels s2" "length (sv_suites s3) = length (sv_suites s2)"
      "\<forall>j < length (sv_suites s2). j \<notin> set js \<longrightarrow> begun_at s3 j = begun_at s2 j" by auto
    have "\<forall>j < length (sv_suites s3). j \<notin> set js \<longrightarrow> begun_at s3 j" using 3(4,5) l2 by (auto simp: begun_at_nth)
    from go [OF 3(2) _ this] 3(4) len obtain s4 where 4: "go s3 = run_ret s4" "in_order s4" "skels s4 = map begin_tree (sv_suites s3)" by auto
    have "map erase (skels s4) = map erase (skels s3)" unfolding 4(3) by (simp add: erase_begin_tree)
    then have er: "map erase (skels s4) = map erase (skels ?s)" by (simp only: 3(3) sk2)
    have "st_at (skels s4) q \<noteq> None" if q: "q \<in> set ?qs" for q
    proof -
      obtain m where "node_at (sv_suites ?s) q = Some m" using begin_zombies_found [OF js q] by blast
      then have "st_at (skels ?s) q \<noteq> None" using node_at_skels [of ?s q] by auto
      moreover have "map_option erase (st_at (skels s4) q) = map_option erase (st_at (skels ?s) q)" by (simp only: st_at_erase [symmetric] er)
      ultimately show ?thesis by (metis option.map_disc_iff)
    qed
    then obtain s5 where "set_zombie_flags ?qs s4 = run_ret s5" "in_order s5" using set_zombie_flags_ok [OF 4(2)] by blast
    with True 2(1) 3(1) 4(1) show ?thesis
      by (simp add: begin_with_def ordered_def path_done_def with_server_def with_zombie_list_def begin_zombies_def [symmetric] Let_def)
  qed
qed

lemma begin_command_ok:
  assumes o: "in_order (bs_server b)" and e: "greg_weekly (en_greg e)"
  shows "ordered (begin_command w e suiteName force b)"
proof (cases "suiteName = []")
  case True
  with begin_with_ok [OF o, of "[0..<length (sv_suites (bs_server b))]" "beginAll e"] beginAll_ok [OF _ e] show ?thesis
    by (simp add: begin_command_def)
next
  case False
  show ?thesis
  proof (cases "child_pos suiteName (sv_suites (bs_server b))")
    case None
    with False o show ?thesis by (simp add: begin_command_def ordered_ret)
  next
    case (Some i)
    then have "i < length (sv_suites (bs_server b))" using child_pos_Some by blast
    with begin_with_ok [OF o, of "[i]" "beginSuite e i"] beginSuite_ok [OF _ _ _ e, of _ i] False Some show ?thesis
      by (simp add: begin_command_def)
  qed
qed

lemma BeginCmd_ok:
  assumes ok: "as_ok a" and e: "greg_weekly (en_greg e)"
  shows "\<exists>x a'. BeginCmd_doHandleRequest w e suiteName force a = run_ret (x, a') \<and> as_ok a'"
proof -
  have "in_order (as_defs a)" using ok by (simp add: as_ok_def)
  then obtain y b where u: "begin_command (zombies_world w a) e suiteName force (as_base a) = run_ret (y, b)" "in_order (bs_server b)"
    using begin_command_ok [OF _ e, of "as_base a" "zombies_world w a" suiteName force] by (auto simp: ordered_def)
  let ?a = "a\<lparr>as_base := b\<rparr>"
  have a1: "as_ok ?a" by (rule as_ok_same [OF ok]) (simp_all add: u(2))
  obtain a' where "doJobSubmission w e ?a = run_ret (Replied Reply_ok, a')" "as_ok a'" using job_submission_ok [OF a1 e] by blast
  with u(1) a1 show ?thesis by (cases y) (auto simp: BeginCmd_doHandleRequest_def)
qed

section \<open>A loaded definition\<close>


text \<open>The suite of \<open>one_active\<close> before its begin.\<close>

definition unbegun_server :: server where
  "unbegun_server = demo_server\<lparr>sv_defs := one_active\<rparr>"

lemma unbegun_loaded: "loaded unbegun_server" "\<not> in_order unbegun_server"
proof -
  note defs = unbegun_server_def demo_server_def one_active_def two_families_def mk_node_def
  show "loaded unbegun_server"
    by (simp add: defs loaded_def begin_ready_def marked_def data_ok_def times_inv_def no_times_def kinds_ok_def plain_node_def
        hybrid_suite_def no_suite_def Calendar_default_def cal_hybrid_def begun_def)
  have "\<exists>n \<in> set (sv_suites unbegun_server). \<not> begun n" by (simp add: defs begun_def no_suite_def)
  then show "\<not> in_order unbegun_server" using in_order_loaded by blast
qed


end
