(* ===== verification/Server_Run.thy ===== *)
theory Server_Run
  imports Command_Effects White_List Begin
begin

text \<open>
  The server as a whole: a step relation of the requests that \<open>TcpBaseServer\<close> hands to the server one after the other (child
  commands of the jobs, user commands, the commands of \<open>CtsCmd\<close> that change the server), of the two timers, and of the lock that
  \<open>PlugCmd\<close> takes. What the clock, the file system, the processes and the network answer is part of each step. The requests of users
  are authenticated first; a step after which the C++ program has no defined state is no step. Each theorem about the server is
  proved by induction over its runs.
\<close>

section \<open>Requests\<close>

record run_server =
  rs_server :: abstract_server
  rs_access :: access_lists

fun user_cmd_paths :: "user_cmd \<Rightarrow> cmd_paths" where
  "user_cmd_paths (ForceCmd _ paths) = Path_list paths"
| "user_cmd_paths (RequeueNodeCmd _ paths) = Path_list paths"
| "user_cmd_paths (RunNodeCmd _ paths) = Path_list paths"
| "user_cmd_paths (DeleteCmd _ paths) = Path_list paths"
| "user_cmd_paths (SuspendCmd paths) = Path_list paths"
| "user_cmd_paths (ResumeCmd paths) = Path_list paths"
| "user_cmd_paths (KillCmd paths) = Path_list paths"
| "user_cmd_paths (ArchiveCmd _ paths) = Path_list paths"
| "user_cmd_paths (FreeDepCmd _ paths) = Path_list paths"
| "user_cmd_paths (OrderNodeCmd path _) = One_path path"

definition CtsCmd_isWrite :: "cts_cmd \<Rightarrow> bool" where
  "CtsCmd_isWrite c \<longleftrightarrow> c \<noteq> PING"

text \<open>The end of \<open>ClientToServerCmd::handleRequest\<close>: a check point may follow a command that writes.\<close>

definition reply_ok :: "outcome \<Rightarrow> bool" where
  "reply_ok x = (case x of Replied Reply_ok \<Rightarrow> True | Replied (Reply_string _) \<Rightarrow> True | _ \<Rightarrow> False)"

definition then_saved :: "disk \<Rightarrow> bool \<Rightarrow> outcome \<times> abstract_server \<Rightarrow> outcome \<times> abstract_server" where
  "then_saved dk isWrite r = (if isWrite \<and> reply_ok (fst r) then (fst r, nodeTreeStateChanged dk (snd r)) else r)"

definition child_request ::
    "server_world \<Rightarrow> env \<Rightarrow> disk \<Rightarrow> job_cmd \<Rightarrow> task_cmd \<Rightarrow> abstract_server \<Rightarrow> (outcome \<times> abstract_server) run" where
  "child_request w e dk k c a =
     run_bind (handleRequest (zombies_world w a) e k c (as_base a)) (\<lambda>(x, b).
       run_ret (then_saved dk True (x, a\<lparr>as_base := b\<rparr>)))"

definition user_request ::
    "server_world \<Rightarrow> sorter \<Rightarrow> env \<Rightarrow> disk \<Rightarrow> access_lists \<Rightarrow> user_cred \<Rightarrow> user_cmd \<Rightarrow> abstract_server \<Rightarrow> (outcome \<times> abstract_server) run" where
  "user_request w sorter e dk ac u c a =
     (case UserCmd_authenticate ac u True (user_cmd_paths c) of
        Some msg \<Rightarrow> run_ret (Thrown msg, a)
      | None \<Rightarrow> UserCmd_handleRequest w sorter dk e c a)"

definition begin_request ::
    "server_world \<Rightarrow> env \<Rightarrow> disk \<Rightarrow> access_lists \<Rightarrow> user_cred \<Rightarrow> string \<Rightarrow> bool \<Rightarrow> abstract_server \<Rightarrow> (outcome \<times> abstract_server) run" where
  "begin_request w e dk ac u suite force a =
     (case UserCmd_authenticate ac u True No_path of
        Some msg \<Rightarrow> run_ret (Thrown msg, a)
      | None \<Rightarrow> run_bind (BeginCmd_doHandleRequest w e (BeginCmd_make suite) force a) (\<lambda>r. run_ret (then_saved dk True r)))"

definition cts_request ::
    "server_world \<Rightarrow> env \<Rightarrow> disk \<Rightarrow> access_lists \<Rightarrow> user_cred \<Rightarrow> cts_cmd \<Rightarrow> abstract_server \<Rightarrow> (outcome \<times> abstract_server) run" where
  "cts_request w e dk ac u c a =
     (case UserCmd_authenticate ac u (CtsCmd_isWrite c) No_path of
        Some msg \<Rightarrow> run_ret (Thrown msg, a)
      | None \<Rightarrow> run_bind (CtsCmd_doHandleRequest w e c a) (\<lambda>r. run_ret (then_saved dk (CtsCmd_isWrite c) r)))"

text \<open>The commands that read a list again. When the file is not given or not there the list stays; once it is read it changes, also
  when the command throws. \<open>File_there None\<close> is a file that cannot be opened.\<close>

datatype access_file = ECF_LISTS | ECF_PASSWD | ECF_CUSTOM_PASSWD

datatype access_path = File_unset | File_missing | File_there "string list option"

definition reload_file :: "string \<Rightarrow> (string list option \<Rightarrow> string option \<times> 'a) \<Rightarrow> access_path \<Rightarrow> 'a \<Rightarrow> string option \<times> 'a" where
  "reload_file name load f old =
     (case f of
        File_unset \<Rightarrow> (Some (''The '' @ name @ '' file has not been specified.''), old)
      | File_missing \<Rightarrow> (Some (''The '' @ name @ '' file does not exist.''), old)
      | File_there lines \<Rightarrow> load lines)"

definition reload_access ::
    "string \<Rightarrow> (string \<Rightarrow> string \<Rightarrow> string) \<Rightarrow> access_file \<Rightarrow> access_path \<Rightarrow> access_lists \<Rightarrow> string option \<times> access_lists" where
  "reload_access login_name encrypt c f ac =
     (case c of
        ECF_LISTS \<Rightarrow>
          let (err, wl) = reload_file ''ECF_LISTS'' (load_whitelist_file login_name) f (ac_white ac) in (err, ac\<lparr>ac_white := wl\<rparr>)
      | ECF_PASSWD \<Rightarrow>
          let (err, v) = reload_file ''ECF_PASSWD'' (PasswdFile_load encrypt) f (ac_passwd ac) in (err, ac\<lparr>ac_passwd := v\<rparr>)
      | ECF_CUSTOM_PASSWD \<Rightarrow>
          let (err, v) = reload_file ''ECF_CUSTOM_PASSWD'' (PasswdFile_load encrypt) f (ac_custom ac) in (err, ac\<lparr>ac_custom := v\<rparr>))"

definition reload_request ::
    "string \<Rightarrow> (string \<Rightarrow> string \<Rightarrow> string) \<Rightarrow> disk \<Rightarrow> user_cred \<Rightarrow> access_file \<Rightarrow> access_path \<Rightarrow> run_server \<Rightarrow> outcome \<times> run_server" where
  "reload_request login_name encrypt dk u c f rs =
     (case UserCmd_authenticate (rs_access rs) u True No_path of
        Some msg \<Rightarrow> (Thrown msg, rs)
      | None \<Rightarrow>
          (case reload_access login_name encrypt c f (rs_access rs) of
             (Some msg, ac) \<Rightarrow> (Thrown msg, rs\<lparr>rs_access := ac\<rparr>)
           | (None, ac) \<Rightarrow> (Replied Reply_ok, \<lparr>rs_server = nodeTreeStateChanged dk (rs_server rs), rs_access = ac\<rparr>)))"

section \<open>Steps\<close>

text \<open>The environment of a step may be anything that the guards of the components allow: a calendar of seven days, clocks that do not
  run backwards, comparisons that can be sorted by.\<close>

inductive server_step ::
    "server_world \<Rightarrow> sorter \<Rightarrow> string \<Rightarrow> (string \<Rightarrow> string \<Rightarrow> string) \<Rightarrow> run_server \<Rightarrow> run_server \<Rightarrow> bool"
  for w sorter login_name encrypt where
  step_child:
    "greg_weekly (en_greg e) \<Longrightarrow> child_request w e dk k c (rs_server rs) = run_ret (x, a) \<Longrightarrow>
     server_step w sorter login_name encrypt rs (rs\<lparr>rs_server := a\<rparr>)"
| step_user:
    "greg_weekly (en_greg e) \<Longrightarrow> user_ready (as_defs (rs_server rs)) c \<Longrightarrow>
     user_request w sorter e dk (rs_access rs) u c (rs_server rs) = run_ret (x, a) \<Longrightarrow>
     server_step w sorter login_name encrypt rs (rs\<lparr>rs_server := a\<rparr>)"
| step_begin:
    "greg_weekly (en_greg e) \<Longrightarrow> begin_request w e dk (rs_access rs) u suite force (rs_server rs) = run_ret (x, a) \<Longrightarrow>
     server_step w sorter login_name encrypt rs (rs\<lparr>rs_server := a\<rparr>)"
| step_server:
    "greg_weekly (en_greg e) \<Longrightarrow> c = RESTART_SERVER \<longrightarrow> start_ready e (rs_server rs) \<Longrightarrow>
     cts_request w e dk (rs_access rs) u c (rs_server rs) = run_ret (x, a) \<Longrightarrow>
     server_step w sorter login_name encrypt rs (rs\<lparr>rs_server := a\<rparr>)"
| step_reload:
    "reload_request login_name encrypt dk u c f rs = (x, rs') \<Longrightarrow> server_step w sorter login_name encrypt rs rs'"
| step_poll:
    "tr_timer (as_tr (rs_server rs)) \<Longrightarrow> greg_weekly (en_greg e) \<Longrightarrow> poll_ready e (rs_server rs) \<Longrightarrow>
     do_traverse w e (rs_server rs) = run_ret (thrown, a) \<Longrightarrow> server_step w sorter login_name encrypt rs (rs\<lparr>rs_server := a\<rparr>)"
| step_check_pt:
    "server_step w sorter login_name encrypt rs (rs\<lparr>rs_server := periodic_check_pt dk (rs_server rs)\<rparr>)"
| step_lock:
    "server_step w sorter login_name encrypt rs (rs\<lparr>rs_server := snd (BaseServer_lock user (rs_server rs))\<rparr>)"
| step_unlock:
    "greg_weekly (en_greg e) \<Longrightarrow> start_ready e (rs_server rs) \<Longrightarrow>
     BaseServer_unlock w e (rs_server rs) = run_ret (thrown, a) \<Longrightarrow> server_step w sorter login_name encrypt rs (rs\<lparr>rs_server := a\<rparr>)"

text \<open>The runs of a server from a first state.\<close>

inductive server_run ::
    "server_world \<Rightarrow> sorter \<Rightarrow> string \<Rightarrow> (string \<Rightarrow> string \<Rightarrow> string) \<Rightarrow> run_server \<Rightarrow> run_server \<Rightarrow> bool"
  for w sorter login_name encrypt rs0 where
  run_here: "server_run w sorter login_name encrypt rs0 rs0"
| run_step: "server_run w sorter login_name encrypt rs0 rs \<Longrightarrow> server_step w sorter login_name encrypt rs rs' \<Longrightarrow>
    server_run w sorter login_name encrypt rs0 rs'"

section \<open>Every request keeps the server in order\<close>

lemma then_saved_ok: "as_ok (snd r) \<Longrightarrow> as_ok (snd (then_saved dk b r))"
  by (simp add: then_saved_def save_keeps(1))

lemma submittable_task: "in_order s \<Longrightarrow> get_submittable (sv_defs s) path = Some p \<Longrightarrow> kind_at s p = Some K_Task"
  using get_submittable_node [of "sv_defs s" path p] in_order_node(1) [of s p] by (auto simp: kind_at_def)

lemma in_order_shape: "in_order s \<Longrightarrow> server_ok s' \<Longrightarrow> settled s' \<Longrightarrow> same_shape s s' \<Longrightarrow> in_order s'"
  using in_order_keeps [of s s'] by (simp add: keeps_def same_shape_def del: map_map)

lemma child_request_returns:
  assumes ok: "as_ok a" and e: "greg_weekly (en_greg e)"
  shows "child_request w e dk k c a = Some (Inl (Undefined_behaviour ''Zombie&'')) \<or>
    (\<exists>x a'. child_request w e dk k c a = run_ret (x, a') \<and> as_ok a')"
proof -
  let ?b = "as_base a"
  have o: "in_order (bs_server ?b)" using ok by (simp add: as_ok_def)
  from child_request_ok [OF in_orderD [OF o] e, of c "zombies_world w a" k] submittable_task [OF o, of "tc_path c"]
  consider "handleRequest (zombies_world w a) e k c ?b = Some (Inl (Undefined_behaviour ''Zombie&''))"
    | x b' where "handleRequest (zombies_world w a) e k c ?b = run_ret (x, b')" "server_ok (bs_server b')" "settled (bs_server b')"
      "same_shape (bs_server ?b) (bs_server b')" by blast
  then show ?thesis
  proof cases
    case (2 x b')
    have "in_order (bs_server b')" by (rule in_order_shape [OF o 2(2-4)])
    then have "as_ok (a\<lparr>as_base := b'\<rparr>)" using as_ok_same [OF ok, of "a\<lparr>as_base := b'\<rparr>"] by simp
    then have "as_ok (snd (then_saved dk True (x, a\<lparr>as_base := b'\<rparr>)))" by (intro then_saved_ok) simp
    with 2(1) show ?thesis by (simp add: child_request_def prod_eq_iff)
  qed (simp add: child_request_def)
qed

lemma user_request_returns:
  assumes "as_ok a" "greg_weekly (en_greg e)" "sorter_ok sorter" "user_ready (as_defs a) c"
  shows "\<exists>x a'. user_request w sorter e dk ac u c a = run_ret (x, a') \<and> as_ok a'"
  using UserCmd_handled [OF assms, of w dk] assms(1) by (simp add: user_request_def split: option.split)

lemma begin_request_returns:
  assumes "as_ok a" "greg_weekly (en_greg e)"
  shows "\<exists>x a'. begin_request w e dk ac u suite force a = run_ret (x, a') \<and> as_ok a'"
proof -
  obtain x a' where "BeginCmd_doHandleRequest w e (BeginCmd_make suite) force a = run_ret (x, a')" "as_ok a'" using BeginCmd_ok [OF assms] by blast
  moreover from this(2) have "as_ok (snd (then_saved dk True (x, a')))" by (intro then_saved_ok) simp
  ultimately show ?thesis using assms(1) by (simp add: begin_request_def prod_eq_iff split: option.split)
qed

lemma cts_request_returns:
  assumes "as_ok a" "greg_weekly (en_greg e)" "c = RESTART_SERVER \<longrightarrow> start_ready e a"
  shows "\<exists>x a'. cts_request w e dk ac u c a = run_ret (x, a') \<and> as_ok a'"
proof -
  obtain r where r: "CtsCmd_doHandleRequest w e c a = run_ret r" "as_ok (snd r)" using CtsCmd_ok [OF assms] by blast
  then have "as_ok (snd (then_saved dk (CtsCmd_isWrite c) r))" by (intro then_saved_ok)
  with r(1) assms(1) show ?thesis by (simp add: cts_request_def prod_eq_iff split: option.split)
qed

lemma reload_keeps: "as_ok (rs_server rs) \<Longrightarrow> as_ok (rs_server (snd (reload_request login_name encrypt dk u f lines rs)))"
  by (simp add: reload_request_def save_keeps(1) split: option.split prod.split)

lemma step_keeps:
  assumes "server_step w sorter login_name encrypt rs rs'" "sorter_ok sorter" "as_ok (rs_server rs)"
  shows "as_ok (rs_server rs')"
  using assms(1)
proof cases
  case (step_child e dk k c x a)
  with child_request_returns [OF assms(3), of e w dk k c] show ?thesis by simp
next
  case (step_user e c dk u x a)
  with user_request_returns [OF assms(3) _ assms(2), of e c w dk "rs_access rs" u] show ?thesis by simp
next
  case (step_begin e dk u suite force x a)
  with begin_request_returns [OF assms(3), of e w dk "rs_access rs" u suite force] show ?thesis by simp
next
  case (step_server e c dk u x a)
  with cts_request_returns [OF assms(3), of e c w dk "rs_access rs" u] show ?thesis by simp
next
  case (step_reload dk u f lines x)
  with reload_keeps [OF assms(3), of login_name encrypt dk u f lines] show ?thesis by simp
next
  case (step_poll e thrown a)
  with do_traverse_ok [OF assms(3), of e w] show ?thesis by simp
next
  case (step_check_pt dk)
  with save_keeps(2) [OF assms(3)] show ?thesis by simp
next
  case (step_lock user)
  with lock_ok [OF assms(3)] show ?thesis by simp
next
  case (step_unlock e thrown a)
  with unlock_ok [OF assms(3), of e w] show ?thesis by auto
qed

lemma run_keeps:
  "server_run w sorter login_name encrypt rs0 rs \<Longrightarrow> sorter_ok sorter \<Longrightarrow> as_ok (rs_server rs0) \<Longrightarrow> as_ok (rs_server rs)"
  by (induction rule: server_run.induct) (auto intro: step_keeps)

section \<open>What holds in every run\<close>



text \<open>C11. A server that does not run submits no jobs by itself, whoever asks; a halted server refuses every command of a job and is not
  changed by it.\<close>

theorem server_states_respected:
  assumes "server_run w sorter login_name encrypt rs0 rs" "sorter_ok sorter" "as_ok (rs_server rs0)"
    and "as_serverState (rs_server rs) = st" "st \<noteq> SS_RUNNING"
  shows "traverse_node_tree_and_job_generate w e now user_cmd_context (rs_server rs) = run_ret (rs_server rs) \<and>
    (st = SS_HALTED \<longrightarrow> child_request w e dk k c (rs_server rs) = run_ret (Replied Reply_block_server_halted, rs_server rs))"
proof -
  have c: "control_ok (rs_server rs)" using run_keeps [OF assms(1-3)] by (simp add: as_ok_def)
  then have "\<not> tr_running (as_tr (rs_server rs))" "sst_state (as_sst (rs_server rs)) = st" using assms(4,5) by (simp_all add: control_ok_def)
  then show ?thesis
    by (auto simp: traverse_node_tree_and_job_generate_def child_request_def handleRequest_def authenticate_def zombies_world_def
        allowTaskCommunication_def then_saved_def reply_ok_def)
qed

text \<open>C12. A poll arms the timer again, unless the archiving of a node has thrown, and moves the next poll into the future, by at most one
  interval.\<close>

theorem polls_on_time:
  assumes "server_run w sorter login_name encrypt rs0 rs" "sorter_ok sorter" "as_ok (rs_server rs0)"
    and "greg_weekly (en_greg e)" "poll_ready e (rs_server rs)" "do_traverse w e (rs_server rs) = run_ret (thrown, a)"
  shows "(thrown = None \<longrightarrow> tr_timer (as_tr a)) \<and> en_now e < tr_next_poll_time (as_tr a) \<and>
    tr_next_poll_time (as_tr a) \<le> max (tr_next_poll_time (as_tr (rs_server rs))) (en_now e + as_submitJobsInterval (rs_server rs))"
  using do_traverse_ok [OF run_keeps [OF assms(1-3)] assms(4,5), of w] assms(6) by simp

section \<open>A timer that is lost\<close>

text \<open>When the archiving of a node throws in a poll, the timer stays unarmed, and no request arms it again: neither a restart of the
  server nor anything else.\<close>

definition timer_lost :: "abstract_server \<Rightarrow> bool" where
  "timer_lost a \<longleftrightarrow> \<not> tr_timer (as_tr a) \<and> \<not> tr_firstTime (as_tr a)"

lemma same_control_tr: "same_control a a' \<Longrightarrow> as_tr a' = as_tr a"
  by (auto simp: same_control_def)

lemma traverse_tr: "traverse_node_tree_and_job_generate w e t u a = run_ret a' \<Longrightarrow> as_tr a' = as_tr a"
  by (auto simp: traverse_node_tree_and_job_generate_def run_bind_eq_ret as_put_def Let_def split: if_splits)

lemma submission_tr: "doJobSubmission w e a = run_ret (x, a') \<Longrightarrow> as_tr a' = as_tr a"
  by (auto simp: doJobSubmission_def run_bind_eq_ret dest: traverse_tr)

lemma saved_tr: "as_tr (nodeTreeStateChanged dk a) = as_tr a" "as_tr (periodic_check_pt dk a) = as_tr a"
  by (simp_all add: nodeTreeStateChanged_def periodic_check_pt_def as_put_def Let_def case_prod_beta')

lemma user_tr:
  assumes "UserCmd_handleRequest w sorter dk e c a = run_ret (x, a')"
  shows "as_tr a' = as_tr a"
proof -
  obtain y a1 where h: "UserCmd_doHandleRequest w sorter e c a = run_ret (y, a1)"
    "a' = (case y of Replied _ \<Rightarrow> nodeTreeStateChanged dk a1 | Thrown _ \<Rightarrow> a1)"
    using assms by (auto simp: UserCmd_handleRequest_def run_bind_eq_ret)
  then obtain r b where r: "(case r of Path_end x \<Rightarrow> run_ret (x, a\<lparr>as_base := b\<rparr>) | Path_error msg \<Rightarrow> run_ret (Thrown msg, a\<lparr>as_base := b\<rparr>)
      | Path_done \<Rightarrow> if submits_jobs c then doJobSubmission w e (a\<lparr>as_base := b\<rparr>) else run_ret (Replied Reply_ok, a\<lparr>as_base := b\<rparr>)) = run_ret (y, a1)"
    by (auto simp: UserCmd_doHandleRequest_def run_bind_eq_ret Let_def)
  have "as_tr a1 = as_tr a"
  proof (cases r)
    case Path_done
    with r submission_tr [of w e "a\<lparr>as_base := b\<rparr>" y a1] show ?thesis by (auto split: if_splits)
  qed (use r in auto)
  with h(2) show ?thesis by (cases y) (simp_all add: saved_tr)
qed

lemma begin_tr:
  assumes "begin_request w e dk ac u suite force a = run_ret (x, a')"
  shows "as_tr a' = as_tr a"
proof (cases "UserCmd_authenticate ac u True No_path")
  case None
  then obtain r where r: "BeginCmd_doHandleRequest w e (BeginCmd_make suite) force a = run_ret r" "(x, a') = then_saved dk True r"
    using assms by (auto simp: begin_request_def run_bind_eq_ret)
  obtain y b where b: "(case y of Path_done \<Rightarrow> doJobSubmission w e (a\<lparr>as_base := b\<rparr>) | Path_error msg \<Rightarrow> run_ret (Thrown msg, a\<lparr>as_base := b\<rparr>)
      | Path_end x \<Rightarrow> run_ret (x, a\<lparr>as_base := b\<rparr>)) = run_ret r" using r(1) by (auto simp: BeginCmd_doHandleRequest_def run_bind_eq_ret)
  have "as_tr (snd r) = as_tr a"
  proof (cases y)
    case Path_done
    with b submission_tr [of w e "a\<lparr>as_base := b\<rparr>" "fst r" "snd r"] show ?thesis by simp
  qed (use b in auto)
  moreover have "a' = snd (then_saved dk True r)" using r(2) by (metis snd_conv)
  ultimately show ?thesis by (simp add: then_saved_def saved_tr)
qed (use assms in \<open>simp add: begin_request_def\<close>)

lemma start_lost: "timer_lost a \<Longrightarrow> traverser_start w e a = run_ret (x, a') \<Longrightarrow> timer_lost a'"
  by (auto simp: traverser_start_def timer_lost_def Let_def split: if_splits)

lemma restart_lost: "timer_lost a \<Longrightarrow> BaseServer_restart w e a = run_ret (x, a') \<Longrightarrow> timer_lost a'"
  using start_lost [of "set_server_state SS_RUNNING a" w e] by (auto simp: BaseServer_restart_def run_bind_eq_ret timer_lost_def split: if_splits)

lemma stopped_lost: "timer_lost a \<Longrightarrow> timer_lost (BaseServer_shutdown a)" "timer_lost a \<Longrightarrow> timer_lost (BaseServer_halted a)"
  by (simp_all add: timer_lost_def BaseServer_shutdown_def BaseServer_halted_def)

lemma cts_lost:
  assumes l: "timer_lost a" and r: "CtsCmd_doHandleRequest w e c a = run_ret (x, a')"
  shows "timer_lost a'"
proof (cases c)
  case RESTART_SERVER
  then obtain thrown a1 where 1: "BaseServer_restart w e a = run_ret (thrown, a1)"
    "(case thrown of Some msg \<Rightarrow> run_ret (Thrown msg, a1) | None \<Rightarrow> doJobSubmission w e a1) = run_ret (x, a')"
    using r by (auto simp: CtsCmd_doHandleRequest_def run_bind_eq_ret)
  from restart_lost [OF l 1(1)] 1(2) show ?thesis by (cases thrown) (auto simp: timer_lost_def dest: submission_tr)
next
  case SHUTDOWN_SERVER
  then have "a' = BaseServer_shutdown a" using r by (simp add: CtsCmd_doHandleRequest_def)
  then show ?thesis using stopped_lost(1) [OF l] by simp
next
  case HALT_SERVER
  then have "a' = BaseServer_halted a" using r by (simp add: CtsCmd_doHandleRequest_def)
  then show ?thesis using stopped_lost(2) [OF l] by simp
next
  case FORCE_DEP_EVAL
  with l r show ?thesis by (auto simp: CtsCmd_doHandleRequest_def run_bind_eq_ret as_put_def timer_lost_def)
next
  case PING
  with l r show ?thesis by (simp add: CtsCmd_doHandleRequest_def)
qed

lemma lost_step:
  assumes "server_step w sorter login_name encrypt rs rs'" "timer_lost (rs_server rs)"
  shows "timer_lost (rs_server rs')"
  using assms(1)
proof cases
  case (step_child e dk k c x a)
  with assms(2) show ?thesis by (auto simp: child_request_def run_bind_eq_ret then_saved_def saved_tr timer_lost_def split: if_splits)
next
  case (step_user e c dk u x a)
  with assms(2) show ?thesis by (auto simp: user_request_def timer_lost_def split: option.splits dest: user_tr)
next
  case (step_begin e dk u suite force x a)
  with assms(2) begin_tr show ?thesis by (auto simp: timer_lost_def)
next
  case (step_server e c dk u x a)
  with assms(2) cts_lost [of "rs_server rs" w e c] show ?thesis
    by (auto simp: cts_request_def run_bind_eq_ret then_saved_def saved_tr timer_lost_def split: option.splits if_splits)
next
  case (step_reload dk u f lines x)
  with assms(2) show ?thesis by (auto simp: reload_request_def saved_tr timer_lost_def split: option.splits prod.splits)
next
  case (step_poll e thrown a)
  with assms(2) show ?thesis by (simp add: timer_lost_def)
next
  case (step_check_pt dk)
  with assms(2) show ?thesis by (simp add: timer_lost_def saved_tr)
next
  case (step_lock user)
  with assms(2) show ?thesis by (auto simp: BaseServer_lock_def BaseServer_shutdown_def timer_lost_def)
next
  case (step_unlock e thrown a)
  with assms(2) restart_lost [of "(rs_server rs)\<lparr>as_userWhoHasLock := []\<rparr>" w e] show ?thesis
    by (auto simp: BaseServer_unlock_def timer_lost_def BaseServer_shutdown_def BaseServer_halted_def Let_def split: SState.splits)
qed

lemma lost_timer_stays_lost:
  "server_run w sorter login_name encrypt rs0 rs \<Longrightarrow> timer_lost (rs_server rs0) \<Longrightarrow> timer_lost (rs_server rs)"
  by (induction rule: server_run.induct) (auto intro: lost_step)

section \<open>A run\<close>

text \<open>A server with a family that is to be cancelled and a job that runs, half a minute before a poll; joe may do everything.\<close>

definition demo_run :: run_server where
  "demo_run =
     \<lparr>rs_server =
        \<lparr>as_base = demo_base, as_serverState = SS_RUNNING, as_sst = no_server,
         as_tr = \<lparr>tr_last_time = 0, tr_next_poll_time = 60, tr_firstTime = False, tr_running = True, tr_timer = True\<rparr>,
         as_checkpt = \<lparr>cp_mode = CP_NEVER, cp_interval = 120, cp_alarm = 30, cp_running = False, cp_firstTime = True, cp_timer = False,
                       cp_state_change_no = 0, cp_modify_change_no = 0, cp_file = No_file, cp_backup = No_file\<rparr>,
         as_submitJobsInterval = 60, as_jobGeneration = True, as_userWhoHasLock = [], as_state_to_preserve = SS_HALTED\<rparr>,
      rs_access = joes_access\<lparr>ac_white := empty_white_list\<rparr>\<rparr>"

definition demo_server_world :: server_world where
  "demo_server_world = \<lparr>sw_jobs = Resolve.demo_world, sw_zombies = Child_Cmds.demo_world, sw_archive = demo_archive\<rparr>"

definition demo_minute :: env where
  "demo_minute = demo_env\<lparr>en_now := 60\<rparr>"

definition demo_disk :: disk where
  "demo_disk = \<lparr>dk_remove = True, dk_rename = True, dk_write = None, dk_duration = 0\<rparr>"

lemma demo_run_ok: "as_ok (rs_server demo_run)" "greg_weekly (en_greg demo_minute)"
proof -
  note defs = cancel_server_def in_state_def mk_node_def quiet_server_def sv_put_def
  have "control_ok (rs_server demo_run)" by code_simp
  moreover have "list_all (\<lambda>t. sk t = K_Suite \<and> well_kinded t) (skels cancel_server)" by (simp add: defs)
  ultimately show "as_ok (rs_server demo_run)" using cancel_server_ok(1,2) by (simp add: as_ok_def in_order_def demo_run_def demo_base_def)
  show "greg_weekly (en_greg demo_minute)" using demo_server_ok(3) by (simp add: demo_minute_def)
qed

lemma demo_known: "list_all known_tree (skels cancel_server)" "ns_st (df_st (sv_defs cancel_server)) \<noteq> NS_COMPLETE"
    "list_all (\<lambda>su. su_begun su \<longrightarrow> clock_ready (en_greg demo_minute) minute_later (su_cal su)) (clocks cancel_server)"
proof -
  show "list_all known_tree (skels cancel_server)" "ns_st (df_st (sv_defs cancel_server)) \<noteq> NS_COMPLETE"
    by (simp_all add: cancel_server_def in_state_def mk_node_def quiet_server_def sv_put_def)
  show "list_all (\<lambda>su. su_begun su \<longrightarrow> clock_ready (en_greg demo_minute) minute_later (su_cal su)) (clocks cancel_server)"
    using cancel_server_ok(3) unfolding list_all_length by (simp add: demo_minute_def)
qed

lemma demo_poll_ready: "poll_ready demo_minute (rs_server demo_run)"
proof -
  have "poll_params demo_minute (rs_server demo_run) = minute_later" by (simp add: poll_params_def minute_later_def demo_minute_def demo_run_def)
  with demo_known show ?thesis by (simp add: poll_ready_def tick_ready_def demo_run_def demo_base_def)
qed

lemma demo_start_ready: "start_ready demo_minute (rs_server demo_run)"
proof -
  have "(poll_params demo_minute (rs_server demo_run))\<lparr>cup_serverRunning := True\<rparr> = minute_later"
    by (simp add: poll_params_def minute_later_def demo_minute_def demo_run_def)
  with demo_known show ?thesis by (simp add: start_ready_def tick_ready_def set_server_state_def as_put_def Let_def demo_run_def demo_base_def)
qed

lemma demo_halt:
  "server_run demo_server_world insertion_sort ''admin'' (\<lambda>p u. p) demo_run
     (demo_run\<lparr>rs_server := BaseServer_halted (rs_server demo_run)\<rparr>)"
proof -
  have a: "UserCmd_authenticate (rs_access demo_run) joe True No_path = None" by code_simp
  have n: "nodeTreeStateChanged demo_disk (BaseServer_halted (rs_server demo_run)) = BaseServer_halted (rs_server demo_run)"
    by (simp add: nodeTreeStateChanged_def BaseServer_halted_def demo_run_def saveIfAllowed_def set_server_state_def cp_upd_def
        CheckPtSaver_stop_def traverser_stop_def tr_upd_def Let_def as_put_def)
  have "cts_request demo_server_world demo_minute demo_disk (rs_access demo_run) joe HALT_SERVER (rs_server demo_run) =
    run_ret (Replied Reply_ok, BaseServer_halted (rs_server demo_run))"
    using a n by (simp add: cts_request_def CtsCmd_isWrite_def CtsCmd_doHandleRequest_def then_saved_def reply_ok_def)
  from step_server [OF demo_run_ok(2) _ this] show ?thesis by (intro run_step [OF run_here]) simp
qed

lemma demo_halted: "as_serverState (BaseServer_halted (rs_server demo_run)) = SS_HALTED"
  by (simp add: BaseServer_halted_def)



theorem server_states_respected_witness:
  "child_request demo_server_world demo_minute demo_disk (CompleteCmd []) (job_says CH_COMPLETE []) (BaseServer_halted (rs_server demo_run)) =
     run_ret (Replied Reply_block_server_halted, BaseServer_halted (rs_server demo_run))"
  using server_states_respected [OF demo_halt insertion_sort_ok demo_run_ok(1)] demo_halted by simp

theorem polls_on_time_witness:
  "\<exists>thrown a. do_traverse demo_server_world demo_minute (rs_server demo_run) = run_ret (thrown, a) \<and>
     60 < tr_next_poll_time (as_tr a) \<and> tr_next_poll_time (as_tr a) \<le> 120"
proof -
  obtain thrown a where r: "do_traverse demo_server_world demo_minute (rs_server demo_run) = run_ret (thrown, a)"
    using do_traverse_ok [OF demo_run_ok demo_poll_ready, of demo_server_world] by auto
  from polls_on_time [OF run_here insertion_sort_ok demo_run_ok demo_poll_ready r] r show ?thesis
    by (simp add: demo_run_def demo_minute_def)
qed

end
