(* ===== verification/Restore.thy ===== *)
theory Restore
  imports Archive
begin

text \<open>
  The other half of archiving (\<open>ANode/src/NodeContainer.cpp\<close>): the definition that \<open>archive\<close> writes, \<open>restore\<close>, \<open>has_archive\<close> and
  \<open>remove_archived_files\<close>. The file is an argument: \<open>read\<close> answers with the definition that a file holds or the text of an exception,
  \<open>rm\<close> with the text when a file cannot be removed.
\<close>

section \<open>What an archive holds\<close>

text \<open>\<open>Suite::create\<close> and \<open>Family::create\<close> for the parents, and the clone of the container below them.\<close>

fun archive_tree :: "node list \<Rightarrow> addr \<Rightarrow> node option" where
  "archive_tree ns [] = None"
| "archive_tree ns (i # p) =
     (if i < length ns
      then if p = [] then Some (ns ! i)
           else map_option (\<lambda>k. mk_node (if nd_kind (ndata (ns ! i)) = K_Suite then K_Suite else K_Family) (node_name (ns ! i)) [k])
                  (archive_tree (kids (ns ! i)) p)
      else None)"

definition archive_defs :: "server \<Rightarrow> addr \<Rightarrow> defs" where
  "archive_defs s p =
     \<lparr>df_suites = (case archive_tree (sv_suites s) p of None \<Rightarrow> [] | Some n \<Rightarrow> [n]), df_limits = (\<lambda>_. None), df_st = NState_default,
      df_flag = Flag_default, df_externs = {}\<rparr>"

section \<open>Restore\<close>

definition restored_data :: "node_data \<Rightarrow> ecf \<Rightarrow> node_data \<times> ecf" where
  "restored_data nd g =
     (let (nd1, g1) = flag_clear FL_ARCHIVED nd g;
          (nd2, g2) = flag_set FL_RESTORED nd1 g1
      in (nd2, snd (incr_state_change_no g2)))"

definition NodeContainer_restore ::
    "archive_world \<Rightarrow> server_state \<Rightarrow> (string \<Rightarrow> string + defs) \<Rightarrow> (string \<Rightarrow> string option) \<Rightarrow> addr \<Rightarrow> server \<Rightarrow> (string option \<times> server) run" where
  "NodeContainer_restore aw sr read rm p s =
     (case node_at (sv_suites s) p of
        None \<Rightarrow> Some (Inl (Undefined_behaviour ''Node*''))
      | Some n \<Rightarrow>
          let name = absNodePath (sv_defs s) p; failed = (\<lambda>msg. run_ret (Some (''NodeContainer::restore() Node '' @ name @ msg), s))
          in if \<not> Flag_is_set FL_ARCHIVED (nd_flag (ndata n)) then failed '' can't restore, ecf::Flag::ARCHIVED not set''
             else if kids n \<noteq> [] then failed '' can't restore, Container already has children ?''
             else case archive_path aw sr (sv_defs s) p of
                    None \<Rightarrow> run_ret (Some ''NodeContainer::archive_path: cannot find ECF_HOME'', s)
                  | Some path \<Rightarrow>
                      (case read path of
                         Inl msg \<Rightarrow> failed ('' could not restore file at  '' @ path @ ''  : '' @ msg)
                       | Inr d \<Rightarrow>
                           (case Option.bind (findAbsNode d name) (node_at (df_suites d)) of
                              None \<Rightarrow> run_ret (Some (''NodeContainer::restore() could not find '' @ name), s)
                            | Some m \<Rightarrow>
                                if nd_kind (ndata m) \<notin> {K_Suite, K_Family}
                                then run_ret (Some (''NodeContainer::restore() The node at '' @ name @ '' is not a container(suite/family)''), s)
                                else let (nd, g) = restored_data (ndata n) (ls_ecf (sv_sys s))
                                     in run_ret (rm path, sv_put (put_node (Node nd (kids m)) (sv_suites s) p) g s))))"

section \<open>The files of deleted nodes\<close>

fun has_archive :: "node \<Rightarrow> bool" where
  "has_archive (Node nd ks) \<longleftrightarrow> nd_kind nd \<in> {K_Suite, K_Family} \<and> (Flag_is_set FL_ARCHIVED (nd_flag nd) \<or> list_ex has_archive ks)"

text \<open>The files with the extension \<open>.check\<close> that stay. \<open>archive_path\<close> ends in this extension, and the last occurrence is cut off.\<close>

definition remove_archived_files :: "archive_world \<Rightarrow> server_state \<Rightarrow> addr \<Rightarrow> server \<Rightarrow> string list \<Rightarrow> string list" where
  "remove_archived_files aw sr p s files =
     (case (node_at (sv_suites s) p, archive_path aw sr (sv_defs s) p) of
        (Some n, Some path) \<Rightarrow>
          if has_archive n
          then filter (\<lambda>f. take (length path - length ''.check'') f \<noteq> take (length path - length ''.check'') path) files
          else files
      | _ \<Rightarrow> files)"

section \<open>A restore brings the children back\<close>

lemma archive_tree_found:
  "node_at ns p = Some n \<Longrightarrow> \<exists>t. archive_tree ns p = Some t \<and>
     find_down [t] (path_names ns p) = Some (replicate (length p) 0) \<and> node_at [t] (replicate (length p) 0) = Some n"
proof (induction ns p rule: node_at.induct)
  case (2 ns i p)
  then have i: "i < length ns" by (auto split: if_splits)
  show ?case
  proof (cases "p = []")
    case False
    then have "node_at (kids (ns ! i)) p = Some n" using "2.prems" i by simp
    from "2.IH" [OF i False this] obtain t where t: "archive_tree (kids (ns ! i)) p = Some t"
      "find_down [t] (path_names (kids (ns ! i)) p) = Some (replicate (length p) 0)" "node_at [t] (replicate (length p) 0) = Some n" by blast
    moreover have "path_names (kids (ns ! i)) p \<noteq> []" using \<open>node_at (kids (ns ! i)) p = Some n\<close> by (rule path_names_not_Nil)
    ultimately show ?thesis using i False by (simp add: mk_node_def)
  qed (use "2.prems" i in simp)
qed simp

lemma node_at_put_node: "node_at ns p = Some n \<Longrightarrow> node_at (put_node m ns p) p = Some m"
  by (induction m ns p rule: put_node.induct) (auto split: if_splits)

lemma path_names_put_node:
  "node_at ns p = Some n \<Longrightarrow> node_name m = node_name n \<Longrightarrow> path_names (put_node m ns p) p = path_names ns p"
  by (induction m ns p rule: put_node.induct) (auto split: if_splits)

lemma put_node_above:
  assumes "node_at ns p = Some n" "prefix q p"
  shows "map_option ndata (node_at (put_node m ns p) q) = (if q = p then Some (ndata m) else map_option ndata (node_at ns q))"
  using assms
proof (induction ns p arbitrary: q rule: node_at.induct)
  case (2 ns i p)
  then have i: "i < length ns" by (auto split: if_splits)
  show ?case
  proof (cases q)
    case (Cons j r)
    with "2.prems" i have j: "j = i" "prefix r p" by auto
    show ?thesis
    proof (cases "p = []")
      case False
      then have at: "node_at (kids (ns ! i)) p = Some n" using "2.prems" i by simp
      show ?thesis
      proof (cases "r = []")
        case True
        with Cons i j False show ?thesis by simp
      next
        case rr: False
        from "2.IH" [OF i False at j(2)] Cons i j False rr show ?thesis by simp
      qed
    qed (use Cons i j in simp)
  qed (use "2.prems" in simp)
qed simp

lemma up_addrs_prefix: "q \<in> set (up_addrs p) \<Longrightarrow> prefix q p"
  by (auto simp: up_addrs_def take_is_prefix)

lemma first_up_cong:
  assumes "\<And>q. q \<in> set qs \<Longrightarrow> Option.bind (node_at (df_suites d) q) (\<lambda>n. f (ndata n)) = Option.bind (node_at (df_suites d') q) (\<lambda>n. f (ndata n))"
  shows "first_up f d qs = first_up f d' qs"
  using assms by (induction qs) (simp_all split: option.split)

text \<open>The archive of a node is where it was, when the node keeps its name and variables.\<close>

lemma archive_path_put:
  assumes n: "node_at (sv_suites s) p = Some n" and m: "node_name m = node_name n" "nd_vars (ndata m) = nd_vars (ndata n)"
  shows "archive_path aw sr (sv_defs (sv_put (put_node m (sv_suites s) p) g s)) p = archive_path aw sr (sv_defs s) p"
    "absNodePath (sv_defs (sv_put (put_node m (sv_suites s) p) g s)) p = absNodePath (sv_defs s) p"
proof -
  let ?d = "sv_defs (sv_put (put_node m (sv_suites s) p) g s)"
  have b: "Option.bind x (\<lambda>n. h (ndata n)) = Option.bind (map_option ndata x) h" for h :: "node_data \<Rightarrow> string option" and x by (cases x) simp_all
  have f: "first_up (findVariableValue v) ?d (up_addrs p) = first_up (findVariableValue v) (sv_defs s) (up_addrs p)" for v
  proof (rule first_up_cong)
    fix q assume "q \<in> set (up_addrs p)"
    from put_node_above [OF n up_addrs_prefix [OF this], of m] n m(2)
    show "Option.bind (node_at (df_suites ?d) q) (\<lambda>n. findVariableValue v (ndata n)) =
        Option.bind (node_at (sv_suites s) q) (\<lambda>n. findVariableValue v (ndata n))"
      unfolding b by (auto simp: sv_put_def findVariableValue_def)
  qed
  show p: "absNodePath ?d p = absNodePath (sv_defs s) p"
    using path_names_put_node [OF n m(1)] by (simp add: absNodePath_def sv_put_def)
  show "archive_path aw sr ?d p = archive_path aw sr (sv_defs s) p"
    unfolding archive_path_def findParentUserVariableValue_def up_or_server_def by (simp only: f p)
qed

lemma put_node_put_node: "node_at ns p = Some n \<Longrightarrow> put_node m' (put_node m ns p) p = put_node m' ns p"
  by (induction m ns p rule: put_node.induct) (auto split: if_splits)

lemma archived_sel:
  "node_name (Node (fst (archived_data nd g)) ks) = nd_name nd" "nd_vars (fst (archived_data nd g)) = nd_vars nd"
  "Flag_is_set FL_ARCHIVED (nd_flag (fst (archived_data nd g)))"
proof -
  show "node_name (Node (fst (archived_data nd g)) ks) = nd_name nd" "nd_vars (fst (archived_data nd g)) = nd_vars nd"
    by (simp_all add: archived_data_def flag_set_def flag_clear_def case_prod_beta' Let_def)
  have "FL_ARCHIVED \<in> flag_types (nd_flag (fst (archived_data nd g)))"
    by (simp add: archived_data_def flag_set_def flag_clear_def case_prod_beta' Let_def)
  then show "Flag_is_set FL_ARCHIVED (nd_flag (fst (archived_data nd g)))" by (simp add: flag_types_def)
qed

lemma restored_keeps: "same_core nd (fst (restored_data nd g))"
  by (simp add: restored_data_def flag_set_def flag_clear_def same_core_def case_prod_beta' Let_def)


definition demo_families :: server where
  "demo_families = sv_put (df_suites two_families) server_counters quiet_server"


text \<open>The files that go with a node are found by the beginning of their names: the archive of \<open>/s2\<close> goes with the suite \<open>/s\<close>.\<close>

lemma files_of_other_suite_removed:
  "remove_archived_files demo_archive home_server [0]
     (sv_put [Node ((ndata (mk_node K_Suite ''s'' []))\<lparr>nd_flag := fst (Flag_set FL_ARCHIVED Flag_default server_counters)\<rparr>) []] server_counters quiet_server)
     [''/home/host.3141.:s.check'', ''/home/host.3141.:s2.check'', ''/home/host.3141.:t.check''] = [''/home/host.3141.:t.check'']"
  by code_simp

end
