(* ===== verification/Spec2Isabelle.thy ===== *)
theory Spec2Isabelle
  imports Clock_Attr Server_Run Restore
begin

text \<open>
  ecFlow is a work-flow server: a definition (\<open>Defs\<close>) holds suites, a suite holds families and tasks, and every node
  carries attributes that decide when it runs (triggers, times, days, limits) or that record its progress (states,
  events, meters, labels, queues, repeats). The server advances the calendar of every suite, walks the tree to find
  tasks that are free of their dependencies, and changes node states as jobs and users report; states travel up the
  tree. This development models that core from the C++ sources \<open>ACore/src\<close> (strings, states, calendar, time series),
  \<open>ANattr/src\<close> (the attributes), \<open>ANode/src\<close> (the tree, expressions, limits, states, time dependencies, jobs), \<open>Base/src\<close>
  (zombies, the commands of jobs and users) and \<open>Server/src\<close> (timers, states and check points of the server).

  \<^bold>\<open>Theories\<close>, in the order in which they import each other:

  \<^item> \<open>Ecf_Prelude\<close>: the error and result types (\<open>err\<close>, \<open>'a res\<close>: a \<open>throw\<close>, a failing assertion and undefined behaviour of
    C++ are values), the change counters of \<open>Ecf.cpp\<close>, decimal numbers and \<open>boost::lexical_cast\<close>, C++ integer
    division, shared lemmas.
  \<^item> \<open>Strings\<close>: \<open>Str.cpp\<close>, \<open>StringSplitter.cpp\<close>, \<open>NodePath.cpp\<close>, \<open>Extract.cpp\<close>. The tokenisers are proved equal to one
    specification; paths, names and quotes round-trip.
  \<^item> \<open>States\<close>: \<open>NState\<close>, \<open>DState\<close>, \<open>SState\<close>, \<open>NOrder\<close>, \<open>Child\<close>: enumerations, text forms, state objects with change numbers.
  \<^item> \<open>Time_Base\<close>: \<open>Calendar.cpp\<close> and \<open>TimeSlot.cpp\<close>. A time is an \<open>int\<close> number of seconds; the Gregorian calendar of
    boost is the parameter \<open>greg\<close> (with \<open>gregDay\<close> and \<open>gregValid\<close> where the code builds a date), the system clock the
    argument \<open>now\<close>.
  \<^item> \<open>Time_Series\<close>, \<open>Time_Attrs\<close>, \<open>Day_Date\<close>: \<open>TimeSeries.cpp\<close>; \<open>TimeAttr\<close>, \<open>TodayAttr\<close>, \<open>CronAttr\<close>, \<open>LateAttr\<close>; \<open>DayAttr\<close>
    and \<open>DateAttr\<close>. A loop of the code over the slots of a series is a \<open>partial_function (option)\<close>: \<open>None\<close> is a loop that
    does not end. On a series that satisfies \<open>ts_inv\<close> (what the constructors and \<open>create\<close> establish and every
    operation keeps) the increment is positive, and the theorems show \<open>Some\<close>.
  \<^item> \<open>Clock_Attr\<close>: \<open>ClockAttr.cpp\<close> and the line of a definition file that gives it (\<open>ClockParser.cpp\<close>).
  \<^item> \<open>Julian\<close>, \<open>Repeats\<close>: \<open>Cal.cpp\<close>, and the six kinds of repeat of \<open>RepeatAttr.cpp\<close>. A run of a repeat is a recursion
    whose length is proved.
  \<^item> \<open>Limits\<close>: \<open>Limit\<close>, \<open>InLimit\<close>, \<open>InLimitMgr\<close> and \<open>Submittable::update_limits\<close>. A \<open>shared_ptr<Limit>\<close> is a number in a store;
    a walk up the tree goes over the list of the nodes from the task to its suite; how an in-limit finds its limit is
    the argument \<open>fl\<close>.
  \<^item> \<open>Node_Attrs\<close>, \<open>Queues\<close>, \<open>Flags\<close>: \<open>Event\<close>, \<open>Meter\<close>, \<open>Label\<close>, \<open>Variable\<close>; \<open>QueueAttr\<close>, which refines an abstract queue
    given as a locale; \<open>Flag\<close> as bits of a 32-bit word.
  \<^item> \<open>Expr_Ast\<close>: the syntax trees of \<open>ExprAst.hpp\<close> and \<open>Expression.cpp\<close>, which combines the trees of the parts of a
    trigger; the grammar is the argument \<open>parse\<close>.
  \<^item> \<open>Node_Tree\<close>: the members of \<open>Node\<close>, \<open>Defs\<close> and \<open>Submittable\<close> that are used, and the searches by path. A \<open>Node*\<close> is an
    address, the positions from the suites down.
  \<^item> \<open>Expressions\<close>: evaluation, \<open>check\<close> and \<open>why\<close> of the trees; a node that does not exist, a division by zero and a null
    child are branches of the model.
  \<^item> \<open>Node_State\<close>: computed states, \<open>setStateOnly\<close> and the walk that carries a change of state up to the definition.
  \<^item> \<open>Node_Time\<close>: \<open>NodeTime.cpp\<close>, the time dependencies of a node as a whole. The type \<open>run\<close> joins \<open>None\<close> (does not end)
    and \<open>Inl\<close> (throws).
  \<^item> \<open>Requeue\<close>: \<open>requeue\<close> of \<open>Node\<close>, \<open>Submittable\<close>, \<open>Task\<close>, \<open>NodeContainer\<close> and \<open>Suite\<close> on the record \<open>server\<close> (definition,
    limits, change counters). The specification \<open>rq_tree\<close> gives the states after a requeue from kinds and default
    statuses alone.
  \<^item> \<open>State_Change\<close>: \<open>Node::set_state\<close>, \<open>handleStateChange\<close>, the walk that increments repeats and requeues what has
    completed, and the operations of \<open>Submittable\<close> behind the child commands. The locale \<open>total_commands\<close> states what a
    set of commands keeps; it is interpreted on them.
  \<^item> \<open>Substitution\<close>: the variables of \<open>ServerState.cpp\<close> and \<open>NodeFind.cpp\<close> and the substitutions of \<open>Node.cpp\<close>. The loops
    are \<open>partial_function (option)\<close>; the one with a counter is proved to end, the one without is shown not to.
  \<^item> \<open>Resolve\<close>: job generation, from \<open>Jobs::generate\<close> down to the submission of a job. The record \<open>job_world\<close> holds what
    the file system, the operating system and the clock answer.
  \<^item> \<open>Zombie_Attr\<close>, \<open>Auto_Attrs\<close>: \<open>ZombieAttr\<close>, \<open>Zombie\<close> and the actions of \<open>User\<close>; \<open>AutoCancelAttr\<close> and \<open>AutoArchiveAttr\<close>.
    \<open>boost::tokenizer\<close> is the argument \<open>tokenise\<close>.
  \<^item> \<open>Tick\<close>: \<open>Defs::updateCalendar\<close>, the walk over all suites that advances the calendars, frees time attributes, marks late
    tasks and removes what is to be cancelled.
  \<^item> \<open>Zombie_Ctrl\<close>: \<open>ZombieCtrl.cpp\<close>, the list of jobs that talk to the server without right. A \<open>Zombie&\<close> is a position in the list or
    an object of its own, so that a reference that is left behind is seen. The clock and the processes are the record \<open>zombie_world\<close>.
  \<^item> \<open>Child_Cmds\<close>: \<open>TaskCmds.cpp\<close>, the authentication and the handling of the commands of the jobs, from \<open>TcpBaseServer::handle_request\<close>
    down, and \<open>ZombieCmd\<close>.
  \<^item> \<open>Archive\<close>, \<open>Restore\<close>: \<open>NodeContainer::archive\<close> with the file it writes, \<open>auto_archive\<close> and \<open>Defs::updateCalendar\<close> as a whole
    (\<open>Defs_tick\<close>); \<open>NodeContainer::restore\<close> and the removal of archive files. The file system is an argument (\<open>aw_save\<close>, \<open>read\<close>,
    \<open>rm\<close>). \<open>in_order\<close> is the invariant of a server: well-formed nodes, states that are those of their children.
  \<^item> \<open>Check_Pt\<close>: the setters of \<open>ServerState.cpp\<close>, \<open>CheckPtSaver.cpp\<close> and \<open>BaseServer::checkPtDefs\<close>. The record \<open>disk\<close> says which calls
    of the file system fail; the check point and its backup are values of \<open>disk_file\<close>.
  \<^item> \<open>Server_Base\<close>: \<open>NodeTreeTraverser.cpp\<close> (the timer, the poll times, job generation), the states and the lock of \<open>BaseServer.cpp\<close>,
    and \<open>CtsCmd\<close>. The record \<open>abstract_server\<close> holds what the server owns, \<open>server_world\<close> what the machine answers.
  \<^item> \<open>User_Cmds\<close>: the commands of users (force, requeue, run, delete, suspend, resume, kill, archive, free-dep, order) with the
    operations of \<open>Node\<close>, \<open>NodeContainer\<close> and \<open>Defs\<close> behind them. \<open>std::sort\<close> is the argument \<open>sorter\<close>; the hypothesis \<open>sorter_ok\<close> says
    that it sorts by a strict weak order, and \<open>insertion_sort_ok\<close> that there is one.
  \<^item> \<open>Commands_Ok\<close>, \<open>Command_Run\<close>: every command returns and keeps the invariant, first each operation, then the loop over the paths.
    \<open>Command_Effects\<close>: what a delete and an order do, and where commands go wrong.
  \<^item> \<open>Begin\<close>: \<open>Defs::beginAll\<close> and \<open>beginSuite\<close>, \<open>begin\<close> of \<open>Suite\<close>, \<open>NodeContainer\<close>, \<open>Task\<close>, \<open>Submittable\<close> and \<open>Node\<close>, and \<open>BeginCmd\<close>. Each
    operation is stated by what it does to the tree of states (\<open>becomes\<close>), and such statements compose.
  \<^item> \<open>White_List\<close>: \<open>WhiteListFile.cpp\<close>, \<open>PasswdFile.cpp\<close>, the checks of \<open>ServerEnvironment.cpp\<close> and \<open>UserCmd.cpp\<close>.
  \<^item> \<open>Server_Run\<close>: the server as a step relation, its requests authenticated and handled one after the other, its polls and check
    points in between.

  \<^bold>\<open>What the theorems show.\<close> Strings, states, times, labels, clocks and flags are read back from what they are printed as. A time
  series is free at exactly its slots and its requeue finds the next one; a node is free of its time dependencies
  exactly when every kind of time attribute it has is free and no day or date holds it; a slot that is hit frees the node.
  Repeats run for exactly the length of their range. The value of a limit is the sum of the tokens held, and a change
  of state settles the tokens of a task along the walk to its suite. Paths and references find the node they name, and
  only it. A condition in the shape of the grammar evaluates without a null dereference or a division by zero. After a
  change of state every node above, and the definition, have the most significant state of their children; a
  requeue sets the states its specification gives, and every sequence of commands returns and keeps the tree consistent,
  as does job generation, which submits a task only when it is free, in the order of the definition, within its limits, and
  leaves it submitted or aborted. An update of the calendars changes no state and removes no running task. A command of a job is let through only
  when it is genuine, is let through when it is, and every command keeps the tree consistent. A delete takes away exactly a
  subtree, an order sorts the children, a begin brings a loaded definition in order, an archive is read back as it was, and a check point survives a disk that fails. A user
  whose rights are limited to paths cannot change a node elsewhere. In every run of the server the invariant holds, each request is
  answered, a halted server does nothing for its jobs, and polls are on time. The lemmas
  under \<open>error\<close> in the manifest show where the code does not do what it means to.

  \<^bold>\<open>Conventions.\<close> C++ \<open>int\<close> is \<open>int\<close>; where the code can leave 32 bits the model tests it and gives
  \<open>Undefined_behaviour\<close>; unsigned change numbers and flags are \<open>32 word\<close>. A \<open>std::vector\<close> is a list, a \<open>std::set\<close> a set.
  An object that is changed is passed and returned. The change counters of \<open>Ecf\<close> are a record \<open>g\<close> that each operation
  passes on. Preconditions of the theorems are the invariants of the attribute types, which the constructors
  establish.

  \<^bold>\<open>Not modelled.\<close> Logging and the edit history (with the message flag that it sets); the bookkeeping of \<open>SuiteChanged\<close> for
  client synchronisation and the mementos; cereal serialisation, so that a check point or an archive is a definition, not a text;
  printing with indentation and the persisted-state comments; the values of generated variables (they are a list of the node);
  restoring at a begin or a requeue (\<open>restore_on_begin_or_requeue\<close>, \<open>AutoRestoreAttr\<close>); script pre-processing and the starting of
  processes, whose answers are parameters of job generation; of the commands of the user alter, plug, load, replace, edit
  script, and those that only read; the server's sockets, signals and start-up; the expression grammar (boost::spirit); the Python
  interface and the graphical viewer. The invariant \<open>in_order\<close> is about definitions without aliases: the operations treat aliases as
  the code does, the theorems on whole servers leave them out.
\<close>

end
